(* ===== verification/Prelude.thy ===== *)
theory Prelude
  imports Main "HOL-Library.Word"
begin

unbundle bit_operations_syntax

text \<open>
  Shared vocabulary of the development: the C integer types as words, the faults a C program
  can run into, a result type for fallible code, stores into and loads from byte buffers with
  their bounds made explicit, and the interface of a prefix codec (an encoder together with a
  decoder that reads back what was encoded and leaves the rest of the input alone).
\<close>

section \<open>Machine integers\<close>

type_synonym u8 = "8 word"
type_synonym u16 = "16 word"
type_synonym u32 = "32 word"
type_synonym u64 = "64 word"
type_synonym bytes = "u8 list"

named_theorems byte_simps \<open>rewriting of C byte extraction such as (v >> 8) and 0xff\<close>
named_theorems res_simps \<open>unfolding of the result type\<close>

text \<open>
  Equations between words of a fixed width are decided bit by bit: \<open>bit_blast\<close> turns
  \<open>x = y\<close> into one equation for each bit position and evaluates the positions.
\<close>

named_theorems bit_blast \<open>bitwise equality of words of a numeral width\<close>

lemma word_eq_bits [bit_blast]:
  "x = y \<longleftrightarrow> list_all (\<lambda>n. bit x n = bit y n) [0..<LENGTH('a)]" for x y :: "'a::len word"
  by (auto simp: list_all_iff intro: bit_word_eqI)

lemma upt_0_numeral [bit_blast]: "[0..<numeral k] = 0 # [1..<numeral k]"
  by (simp add: upt_conv_Cons)

lemma upt_1_numeral [bit_blast]:
  "[Suc 0..<numeral k] = (if 1 < (numeral k :: nat) then 1 # [2..<numeral k] else [])"
  by (simp add: upt_conv_Cons numeral_2_eq_2)

lemma suc_suc_0 [bit_blast]: "Suc (Suc 0) = 2"
  by simp

lemma bit_double_word [bit_blast]:
  "bit (x * 2 :: 'a::len word) n \<longleftrightarrow> 0 < n \<and> n < LENGTH('a) \<and> bit x (n - 1)"
  using bit_push_bit_iff [of 1 x n] by (auto simp: ac_simps dest: bit_imp_le_length)

lemmas bit_blast_simps = bit_blast bit_simps

lemma bit_beyond_word: "LENGTH('a) \<le> n \<Longrightarrow> \<not> bit (x :: 'a::len word) n"
  by (auto dest: bit_imp_le_length)

lemma word_xor_eq_0: "x XOR y = 0 \<Longrightarrow> x = y" for x y :: "'a::len word"
proof (rule bit_word_eqI)
  fix n
  assume "x XOR y = 0"
  then have "\<not> bit (x XOR y) n" by (simp only: bit_0_eq bot_apply) simp
  then show "bit x n \<longleftrightarrow> bit y n" by (simp add: bit_xor_iff)
qed

lemma word_xor_cancel: "a XOR x = a XOR y \<longleftrightarrow> x = y" "x XOR a = y XOR a \<longleftrightarrow> x = y"
  for a x y :: "'a::len word"
  by (auto simp: bit_eq_iff bit_xor_iff)

lemma unat_and_ff: "unat (x AND 0xff :: 32 word) < 256"
proof -
  have "x AND 0xff \<le> (0xff :: 32 word)" by (rule word_and_le1)
  then have "unat (x AND 0xff) \<le> unat (0xff :: 32 word)" by (simp only: word_le_nat_alt)
  then show ?thesis by simp
qed

lemma unat_u8: "unat (b :: 8 word) < 256"
  using unsigned_less [of b, where 'a = nat] by simp

lemma unat_u16: "unat (b :: 16 word) < 65536"
  using unsigned_less [of b, where 'a = nat] by simp

lemma unat_u32: "unat (b :: 32 word) < 2 ^ 32"
  using unsigned_less [of b, where 'a = nat] by simp

lemma take_bit_word_self: "x < 2 ^ n \<Longrightarrow> take_bit n x = x" for x :: "'a::len word"
  by (simp add: take_bit_eq_mask less_mask_eq)

lemma ff_mask: "(0xff :: 'a::len word) = mask 8"
  by (simp add: mask_eq_exp_minus_1)

lemma ucast_and_ff [byte_simps]: "ucast (x AND 0xff :: 'a::len word) = (ucast x :: u8)"
  unfolding ff_mask by (rule bit_word_eqI) (auto simp: bit_simps dest: bit_imp_le_length)

lemma of_nat_less_word32_iff [simp]:
  "n < 2 ^ 32 \<Longrightarrow> unat (of_nat n :: u32) = n"
  by (simp add: unat_of_nat take_bit_nat_eq_self)

lemma unat_of_nat8: "n < 256 \<Longrightarrow> unat (of_nat n :: u8) = n"
  by (simp add: unat_of_nat take_bit_nat_eq_self)

lemma unat_of_nat16: "n < 65536 \<Longrightarrow> unat (of_nat n :: u16) = n"
  by (simp add: unat_of_nat take_bit_nat_eq_self)

lemma ucast_of_nat_8_32: "n < 256 \<Longrightarrow> (ucast (of_nat n :: u8) :: u32) = of_nat n"
  by (rule word_unat_eq_iff [THEN iffD2]) (simp add: unsigned_ucast_eq unat_of_nat take_bit_nat_eq_self)

lemma unat_ucast_8_32 [simp]: "unat (ucast (x :: u8) :: u32) = unat x"
  using unat_u8 [of x] by (simp add: unsigned_ucast_eq take_bit_nat_eq_self)

lemma unat_ucast_16_32 [simp]: "unat (ucast (x :: u16) :: u32) = unat x"
  using unat_u16 [of x] by (simp add: unsigned_ucast_eq take_bit_nat_eq_self)

lemma sint_small:
  fixes x :: "'a::len word"
  assumes "unat x < 2 ^ (LENGTH('a) - 1)"
  shows "sint x = int (unat x)"
proof -
  have "int (unat x) < int (2 ^ (LENGTH('a) - 1))" using assms by (simp only: of_nat_less_iff)
  then have "uint x < 2 ^ (LENGTH('a) - 1)" by simp
  moreover have "- (2 ^ (LENGTH('a) - 1)) \<le> uint x" by (rule order_trans [of _ 0]) simp_all
  ultimately have "signed_take_bit (LENGTH('a) - 1) (uint x) = uint x"
    by (intro signed_take_bit_int_eq_self)
  then show ?thesis by (simp add: sint_uint)
qed

lemma sint_u32_small: "unat (x :: u32) < 2 ^ 31 \<Longrightarrow> sint x = int (unat x)"
  by (rule sint_small) simp

section \<open>Faults and results\<close>

text \<open>
  \<^item> \<open>AssertFail\<close>: a \<^verbatim>\<open>g_assert\<close> or \<^verbatim>\<open>pa_assert\<close> of the source fails, the process aborts;
  \<^item> \<open>OutOfBounds\<close>: the code reads or writes outside the object it was given (undefined in C);
  \<^item> \<open>Diverges\<close>: a loop does not end;
  \<^item> \<open>Overflow\<close>: the result of signed arithmetic is outside its type, which C leaves undefined.
\<close>

datatype fault = AssertFail | OutOfBounds | Diverges | Overflow

type_synonym 'a res = "fault + 'a"

definition bindR :: "'a res \<Rightarrow> ('a \<Rightarrow> 'b res) \<Rightarrow> 'b res" where
  "bindR m f = (case m of Inl e \<Rightarrow> Inl e | Inr x \<Rightarrow> f x)"

lemma bindR_simps [simp, res_simps]:
  "bindR (Inl e) f = Inl e"
  "bindR (Inr x) f = f x"
  by (simp_all add: bindR_def)

lemma bindR_Inr_iff: "bindR m f = Inr y \<longleftrightarrow> (\<exists>x. m = Inr x \<and> f x = Inr y)"
  by (cases m) simp_all

lemma bindR_Inl_iff: "bindR m f = Inl e \<longleftrightarrow> m = Inl e \<or> (\<exists>x. m = Inr x \<and> f x = Inl e)"
  by (cases m) auto

lemma bindR_assoc: "bindR (bindR m f) g = bindR m (\<lambda>x. bindR (f x) g)"
  by (cases m) simp_all

definition assertR :: "bool \<Rightarrow> unit res" where
  "assertR b = (if b then Inr () else Inl AssertFail)"

lemma assertR_simps [simp, res_simps]:
  "assertR True = Inr ()" "assertR False = Inl AssertFail"
  by (simp_all add: assertR_def)

section \<open>Byte buffers\<close>

text \<open>\<open>store buf off bs\<close> is a run of \<^verbatim>\<open>*pos++ = b\<close> from \<open>buf + off\<close>, or a \<^verbatim>\<open>memcpy\<close> to it;
  \<open>load buf off n\<close> reads \<open>n\<close> bytes at \<open>buf + off\<close>.\<close>

definition store :: "'a list \<Rightarrow> nat \<Rightarrow> 'a list \<Rightarrow> 'a list res" where
  "store buf off bs =
     (if off + length bs \<le> length buf
      then Inr (take off buf @ bs @ drop (off + length bs) buf)
      else Inl OutOfBounds)"

definition load :: "'a list \<Rightarrow> nat \<Rightarrow> nat \<Rightarrow> 'a list res" where
  "load buf off n =
     (if off + n \<le> length buf then Inr (take n (drop off buf)) else Inl OutOfBounds)"

lemma store_length: "store buf off bs = Inr buf' \<Longrightarrow> length buf' = length buf"
  by (auto simp: store_def split: if_splits)

lemma store_Inr_iff: "(\<exists>buf'. store buf off bs = Inr buf') \<longleftrightarrow> off + length bs \<le> length buf"
  by (auto simp: store_def)

lemma store_append [simp]:
  "store (xs @ ys @ zs) (length xs) bs = Inr (xs @ bs @ zs)" if "length bs = length ys"
  using that by (simp add: store_def)

lemma store_take:
  assumes "store buf off bs = Inr buf'" and "n \<le> off"
  shows "take n buf' = take n buf"
  using assms by (auto simp: store_def min_def split: if_splits)

lemma store_drop:
  assumes "store buf off bs = Inr buf'" and "off + length bs \<le> n"
  shows "drop n buf' = drop n buf"
  using assms by (auto simp: store_def split: if_splits)

lemma load_store:
  assumes "store buf off bs = Inr buf'"
  shows "load buf' off (length bs) = Inr bs"
  using assms by (auto simp: store_def load_def split: if_splits)

lemma store_store:
  assumes "store m p xs = Inr m1"
  shows "store m1 (p + length xs) ys = store m p (xs @ ys)"
proof -
  from assms have p: "p + length xs \<le> length m" "m1 = take p m @ xs @ drop (p + length xs) m"
    by (auto simp: store_def split: if_splits)
  then have "min (length m) p = p" "length m1 = length m" by auto
  then show ?thesis unfolding store_def using p(1) by (simp add: p(2) ac_simps)
qed

lemma store_content: "store m p xs = Inr m' \<Longrightarrow> take (length xs) (drop p m') = xs"
  by (auto simp: store_def min_def split: if_splits)

lemma store_apart:
  assumes "store mem p bs = Inr mem'" and "q + n \<le> p \<or> p + length bs \<le> q"
  shows "take n (drop q mem') = take n (drop q mem)"
  using assms(2)
proof
  assume "q + n \<le> p"
  from store_take [OF assms(1) this] have "drop q (take (q + n) mem') = drop q (take (q + n) mem)" by simp
  then show ?thesis by (simp add: drop_take)
next
  assume "p + length bs \<le> q"
  from store_drop [OF assms(1) this] show ?thesis by simp
qed

lemma load_length: "load buf off n = Inr bs \<Longrightarrow> length bs = n"
  by (auto simp: load_def split: if_splits)

section \<open>Prefix codecs\<close>

text \<open>
  The reader of a serialised format consumes what one item was encoded to and returns the rest
  of the input. \<open>decode_many\<close> reads a fixed number of items.
\<close>

fun decode_many :: "('b list \<Rightarrow> ('a \<times> 'b list) option) \<Rightarrow> nat \<Rightarrow> 'b list \<Rightarrow> ('a list \<times> 'b list) option" where
  "decode_many dec 0 bs = Some ([], bs)"
| "decode_many dec (Suc n) bs =
     (case dec bs of None \<Rightarrow> None
      | Some (x, r) \<Rightarrow> (case decode_many dec n r of None \<Rightarrow> None | Some (xs, r') \<Rightarrow> Some (x # xs, r')))"

locale prefix_codec =
  fixes enc :: "'a \<Rightarrow> 'b list"
    and dec :: "'b list \<Rightarrow> ('a \<times> 'b list) option"
    and ok :: "'a \<Rightarrow> bool"
  assumes dec_enc: "ok x \<Longrightarrow> dec (enc x @ r) = Some (x, r)"
begin

lemma enc_prefix_free:
  assumes "ok x" and "ok y" and "enc x @ r = enc y @ s"
  shows "x = y \<and> r = s"
proof -
  have "Some (x, r) = dec (enc x @ r)" by (rule dec_enc [OF assms(1), symmetric])
  also have "\<dots> = dec (enc y @ s)" by (rule arg_cong [OF assms(3)])
  also have "\<dots> = Some (y, s)" by (rule dec_enc [OF assms(2)])
  finally show ?thesis by blast
qed

lemma enc_inj_on: "inj_on enc (Collect ok)"
proof (rule inj_onI)
  fix x y
  assume "x \<in> Collect ok" and "y \<in> Collect ok" and "enc x = enc y"
  then show "x = y" using enc_prefix_free [of x y "[]" "[]"] by simp
qed

lemma decode_many_enc:
  "list_all ok xs \<Longrightarrow> decode_many dec (length xs) (concat (map enc xs) @ r) = Some (xs, r)"
  by (induction xs) (auto simp: dec_enc)

end

section \<open>Step relations\<close>

text \<open>An invariant of a step relation holds in every state reachable from the initial ones.\<close>

locale step_invariant =
  fixes init :: "'s \<Rightarrow> bool" and step :: "'s \<Rightarrow> 's \<Rightarrow> bool" and inv :: "'s \<Rightarrow> bool"
  assumes init_inv: "init s \<Longrightarrow> inv s"
    and step_inv: "inv s \<Longrightarrow> step s s' \<Longrightarrow> inv s'"
begin

lemma reachable_inv:
  assumes "init s" and "step\<^sup>*\<^sup>* s s'"
  shows "inv s'"
  using assms(2,1) by (induction rule: rtranclp_induct) (auto intro: init_inv step_inv)

end

section \<open>Simulations\<close>

text \<open>
  A sequence of operations on an implementation state, which may run into a fault, and on the state
  of its specification; each operation returns a result. When every operation that the
  specification allows is simulated, so is every sequence of them.
\<close>

fun run_impl :: "('op \<Rightarrow> 'c \<Rightarrow> ('r \<times> 'c) res) \<Rightarrow> 'op list \<Rightarrow> 'c \<Rightarrow> ('r list \<times> 'c) res" where
  "run_impl step [] c = Inr ([], c)"
| "run_impl step (p # ps) c =
     bindR (step p c) (\<lambda>(r, c'). bindR (run_impl step ps c') (\<lambda>(rs, c''). Inr (r # rs, c'')))"

fun run_spec :: "('op \<Rightarrow> 'a \<Rightarrow> 'r \<times> 'a) \<Rightarrow> 'op list \<Rightarrow> 'a \<Rightarrow> 'r list \<times> 'a" where
  "run_spec step [] a = ([], a)"
| "run_spec step (p # ps) a =
     (let (r, a') = step p a; (rs, a'') = run_spec step ps a' in (r # rs, a''))"

fun run_ok :: "('op \<Rightarrow> 'a \<Rightarrow> bool) \<Rightarrow> ('op \<Rightarrow> 'a \<Rightarrow> 'r \<times> 'a) \<Rightarrow> 'op list \<Rightarrow> 'a \<Rightarrow> bool" where
  "run_ok ok step [] a \<longleftrightarrow> True"
| "run_ok ok step (p # ps) a \<longleftrightarrow> ok p a \<and> run_ok ok step ps (snd (step p a))"

locale simulation =
  fixes rel :: "'c \<Rightarrow> 'a \<Rightarrow> bool" and ok :: "'op \<Rightarrow> 'a \<Rightarrow> bool"
    and cstep :: "'op \<Rightarrow> 'c \<Rightarrow> ('r \<times> 'c) res" and astep :: "'op \<Rightarrow> 'a \<Rightarrow> 'r \<times> 'a"
  assumes sim: "rel c a \<Longrightarrow> ok p a \<Longrightarrow> \<exists>c'. cstep p c = Inr (fst (astep p a), c') \<and> rel c' (snd (astep p a))"
begin

lemma run_sim:
  "rel c a \<Longrightarrow> run_ok ok astep ps a \<Longrightarrow>
     \<exists>c'. run_impl cstep ps c = Inr (fst (run_spec astep ps a), c') \<and> rel c' (snd (run_spec astep ps a))"
proof (induction ps arbitrary: c a)
  case Nil
  then show ?case by simp
next
  case (Cons p ps)
  then obtain c1 where c1: "cstep p c = Inr (fst (astep p a), c1)" "rel c1 (snd (astep p a))"
    using sim [of c a p] by auto
  moreover have "run_ok ok astep ps (snd (astep p a))" using Cons.prems(2) by simp
  ultimately obtain c2 where "run_impl cstep ps c1 = Inr (fst (run_spec astep ps (snd (astep p a))), c2)"
      "rel c2 (snd (run_spec astep ps (snd (astep p a))))"
    using Cons.IH by blast
  then show ?case using c1(1) by (simp add: case_prod_beta Let_def)
qed

end

end
