(* ===== verification/TsCommon.thy ===== *)
theory TsCommon
  imports Prelude
begin

text \<open>
  \<^verbatim>\<open>libtsmux/tsmux/tsmuxcommon.h\<close>: the constants of an MPEG transport stream packet, the
  packet information record \<^verbatim>\<open>TsMuxPacketInfo\<close> and the big-endian writers \<^verbatim>\<open>tsmux_put16\<close>,
  \<^verbatim>\<open>tsmux_put32\<close> and \<^verbatim>\<open>tsmux_put_ts\<close>. A writer that advances a \<^verbatim>\<open>guint8 **pos\<close> is the list of
  the bytes it writes. The readers are the field layout of ISO/IEC 13818-1 that the comments of
  the source quote; the round trips show that the writers produce that layout.
\<close>

section \<open>Constants\<close>

abbreviation TSMUX_SYNC_BYTE :: u8 where "TSMUX_SYNC_BYTE \<equiv> 0x47"
abbreviation TSMUX_PACKET_LENGTH :: nat where "TSMUX_PACKET_LENGTH \<equiv> 188"
abbreviation TSMUX_HEADER_LENGTH :: nat where "TSMUX_HEADER_LENGTH \<equiv> 4"
abbreviation TSMUX_PAYLOAD_LENGTH :: nat where "TSMUX_PAYLOAD_LENGTH \<equiv> 184"
abbreviation TSMUX_SYS_CLOCK_FREQ :: int where "TSMUX_SYS_CLOCK_FREQ \<equiv> 27000000"
abbreviation TSMUX_CLOCK_FREQ :: int where "TSMUX_CLOCK_FREQ \<equiv> 90000"

definition TSMUX_PACKET_FLAG_ADAPTATION :: u32 where
  "TSMUX_PACKET_FLAG_ADAPTATION = push_bit 0 1"
definition TSMUX_PACKET_FLAG_DISCONT :: u32 where
  "TSMUX_PACKET_FLAG_DISCONT = push_bit 1 1"
definition TSMUX_PACKET_FLAG_RANDOM_ACCESS :: u32 where
  "TSMUX_PACKET_FLAG_RANDOM_ACCESS = push_bit 2 1"
definition TSMUX_PACKET_FLAG_PRIORITY :: u32 where
  "TSMUX_PACKET_FLAG_PRIORITY = push_bit 3 1"
definition TSMUX_PACKET_FLAG_WRITE_PCR :: u32 where
  "TSMUX_PACKET_FLAG_WRITE_PCR = push_bit 4 1"
definition TSMUX_PACKET_FLAG_WRITE_OPCR :: u32 where
  "TSMUX_PACKET_FLAG_WRITE_OPCR = push_bit 5 1"
definition TSMUX_PACKET_FLAG_WRITE_SPLICE :: u32 where
  "TSMUX_PACKET_FLAG_WRITE_SPLICE = push_bit 6 1"
definition TSMUX_PACKET_FLAG_WRITE_ADAPT_EXT :: u32 where
  "TSMUX_PACKET_FLAG_WRITE_ADAPT_EXT = push_bit 7 1"
definition TSMUX_PACKET_FLAG_PES_FULL_HEADER :: u32 where
  "TSMUX_PACKET_FLAG_PES_FULL_HEADER = push_bit 8 1"
definition TSMUX_PACKET_FLAG_PES_WRITE_PTS :: u32 where
  "TSMUX_PACKET_FLAG_PES_WRITE_PTS = push_bit 9 1"
definition TSMUX_PACKET_FLAG_PES_WRITE_PTS_DTS :: u32 where
  "TSMUX_PACKET_FLAG_PES_WRITE_PTS_DTS = push_bit 10 1"
definition TSMUX_PACKET_FLAG_PES_EXT_STREAMID :: u32 where
  "TSMUX_PACKET_FLAG_PES_EXT_STREAMID = push_bit 12 1"

lemmas flag_defs =
  TSMUX_PACKET_FLAG_ADAPTATION_def TSMUX_PACKET_FLAG_DISCONT_def
  TSMUX_PACKET_FLAG_RANDOM_ACCESS_def TSMUX_PACKET_FLAG_PRIORITY_def
  TSMUX_PACKET_FLAG_WRITE_PCR_def TSMUX_PACKET_FLAG_WRITE_OPCR_def
  TSMUX_PACKET_FLAG_WRITE_SPLICE_def TSMUX_PACKET_FLAG_WRITE_ADAPT_EXT_def
  TSMUX_PACKET_FLAG_PES_FULL_HEADER_def TSMUX_PACKET_FLAG_PES_WRITE_PTS_def
  TSMUX_PACKET_FLAG_PES_WRITE_PTS_DTS_def TSMUX_PACKET_FLAG_PES_EXT_STREAMID_def

definition has_flag :: "u32 \<Rightarrow> u32 \<Rightarrow> bool" where
  "has_flag fl f \<longleftrightarrow> fl AND f \<noteq> 0"

lemma has_flag_bit: "n < 32 \<Longrightarrow> has_flag fl (push_bit n 1) \<longleftrightarrow> bit fl n"
  by (simp add: has_flag_def bit_iff_and_push_bit_not_eq_0)

section \<open>Packet information\<close>

record TsMuxPacketInfo =
  pi_pid :: u16
  pi_flags :: u32
  pi_pcr :: u64
  pi_opcr :: u64
  pi_splice_countdown :: u8
  pi_private_data_len :: u8
  pi_private_data :: bytes
  pi_packet_count :: u8
  pi_stream_avail :: u32
  pi_packet_start_unit_indicator :: bool

text \<open>The state \<^verbatim>\<open>g_new0\<close> leaves: every field zero.\<close>

definition packet_info0 :: TsMuxPacketInfo where
  "packet_info0 = \<lparr>pi_pid = 0, pi_flags = 0, pi_pcr = 0, pi_opcr = 0, pi_splice_countdown = 0,
     pi_private_data_len = 0, pi_private_data = replicate 256 0, pi_packet_count = 0,
     pi_stream_avail = 0, pi_packet_start_unit_indicator = False\<rparr>"

section \<open>Writers\<close>

definition tsmux_put16 :: "u16 \<Rightarrow> bytes" where
  "tsmux_put16 val = [ucast (drop_bit 8 val AND 0xff), ucast (val AND 0xff)]"

definition tsmux_put32 :: "u32 \<Rightarrow> bytes" where
  "tsmux_put32 val =
     [ucast (drop_bit 24 val AND 0xff), ucast (drop_bit 16 val AND 0xff),
      ucast (drop_bit 8 val AND 0xff), ucast (val AND 0xff)]"

definition tsmux_put_ts :: "u8 \<Rightarrow> u64 \<Rightarrow> bytes" where
  "tsmux_put_ts i ts =
     ucast ((push_bit 4 (ucast i) OR (signed_drop_bit 29 ts AND 0x0E) OR 0x01) AND 0xff)
     # tsmux_put16 (ucast ((signed_drop_bit 14 ts AND 0xfffe) OR 0x01))
     @ tsmux_put16 (ucast ((push_bit 1 ts AND 0xfffe) OR 0x01))"

section \<open>The layout the writers produce\<close>

fun get16 :: "bytes \<Rightarrow> (u16 \<times> bytes) option" where
  "get16 (a # b # r) = Some (push_bit 8 (ucast a) OR ucast b, r)"
| "get16 _ = None"

fun get32 :: "bytes \<Rightarrow> (u32 \<times> bytes) option" where
  "get32 (a # b # c # d # r) =
     Some (push_bit 24 (ucast a) OR push_bit 16 (ucast b) OR push_bit 8 (ucast c) OR ucast d, r)"
| "get32 _ = None"

text \<open>A 33 bit time stamp: 4 bit id, bits 32..30, marker, bits 29..15, marker, bits 14..0, marker.\<close>

fun get_ts :: "bytes \<Rightarrow> ((u8 \<times> u64) \<times> bytes) option" where
  "get_ts (a # b # c # d # e # r) =
     (if bit a 0 \<and> bit c 0 \<and> bit e 0
      then Some ((drop_bit 4 a,
        push_bit 30 (take_bit 3 (drop_bit 1 (ucast a)))
        OR push_bit 22 (ucast b) OR push_bit 15 (drop_bit 1 (ucast c))
        OR push_bit 7 (ucast d) OR drop_bit 1 (ucast e)), r)
      else None)"
| "get_ts _ = None"

lemma put16_length [simp]: "length (tsmux_put16 v) = 2"
  by (simp add: tsmux_put16_def)

lemma put32_length [simp]: "length (tsmux_put32 v) = 4"
  by (simp add: tsmux_put32_def)

lemma put_ts_length [simp]: "length (tsmux_put_ts i ts) = 5"
  by (simp add: tsmux_put_ts_def)

lemma get16_put16 [simp]: "get16 (tsmux_put16 v @ r) = Some (v, r)"
  by (simp add: tsmux_put16_def byte_simps bit_blast_simps)

lemma get32_put32 [simp]: "get32 (tsmux_put32 v @ r) = Some (v, r)"
  by (simp add: tsmux_put32_def byte_simps bit_blast_simps)

text \<open>The bits of the five bytes of a time stamp, and the time stamp they carry.\<close>

lemma put_ts_bytes:
  "tsmux_put_ts i ts =
     [ucast (push_bit 4 (ucast i) OR (signed_drop_bit 29 ts AND 0x0E) OR 0x01 :: u64),
      ucast (drop_bit 8 (ucast ((signed_drop_bit 14 ts AND 0xfffe) OR 0x01) :: u16)),
      ucast (ucast ((signed_drop_bit 14 ts AND 0xfffe) OR 0x01) :: u16),
      ucast (drop_bit 8 (ucast ((push_bit 1 ts AND 0xfffe) OR 0x01) :: u16)),
      ucast (ucast ((push_bit 1 ts AND 0xfffe) OR 0x01) :: u16)]"
  by (simp add: tsmux_put_ts_def tsmux_put16_def byte_simps)

lemma get_ts_put_ts [simp]:
  assumes "i < 16"
  shows "get_ts (tsmux_put_ts i ts @ r) = Some ((i, take_bit 33 ts), r)"
proof -
  have "take_bit 4 i = i"
    using assms by (simp add: take_bit_word_self)
  then show ?thesis
    unfolding put_ts_bytes by (simp add: bit_blast_simps)
qed

interpretation be16: prefix_codec tsmux_put16 get16 "\<lambda>_. True"
  by unfold_locales simp

interpretation be32: prefix_codec tsmux_put32 get32 "\<lambda>_. True"
  by unfold_locales simp

interpretation timestamp: prefix_codec "\<lambda>(i, ts). tsmux_put_ts i ts" get_ts
    "\<lambda>(i, ts). i < 16 \<and> ts < 2 ^ 33"
  by unfold_locales (auto simp: take_bit_word_self)

end
