(* ===== verification/TsHeader.thy ===== *)
theory TsHeader
  imports TsCommon
begin

text \<open>
  \<^verbatim>\<open>libtsmux/tsmux/tsmux.c\<close>, the packet layer: \<^verbatim>\<open>tsmux_write_adaptation_field\<close> and
  \<^verbatim>\<open>tsmux_write_ts_header\<close>. Both write into the packet buffer, so the model threads the buffer
  and every store is checked against its end. \<open>ts_parse\<close> is the packet layout of ISO/IEC
  13818-1, against which the header writer is verified.
\<close>

section \<open>Adaptation field\<close>

text \<open>A program clock reference: 33 bit base, 6 bits the code writes as zero, 9 bit extension.\<close>

definition pcr_bytes :: "u64 \<Rightarrow> bytes" where
  "pcr_bytes pcr =
     (let pcr_base = pcr div 300; pcr_ext = ucast (pcr mod 300) :: u32
      in [ucast (drop_bit 25 pcr_base AND 0xff), ucast (drop_bit 17 pcr_base AND 0xff),
          ucast (drop_bit 9 pcr_base AND 0xff), ucast (drop_bit 1 pcr_base AND 0xff),
          ucast ((push_bit 7 pcr_base AND 0x80) OR (ucast (drop_bit 8 pcr_ext) AND 0x01)),
          ucast (pcr_ext AND 0xff)])"

text \<open>The fields before the private data, present only when the caller asked for them.\<close>

definition adapt_clock_fields :: "TsMuxPacketInfo \<Rightarrow> bytes" where
  "adapt_clock_fields pi =
     (if has_flag (pi_flags pi) TSMUX_PACKET_FLAG_WRITE_PCR then pcr_bytes (pi_pcr pi) else [])
   @ (if has_flag (pi_flags pi) TSMUX_PACKET_FLAG_WRITE_OPCR then pcr_bytes (pi_opcr pi) else [])
   @ (if has_flag (pi_flags pi) TSMUX_PACKET_FLAG_WRITE_SPLICE then [pi_splice_countdown pi] else [])"

definition adapt_private :: "TsMuxPacketInfo \<Rightarrow> bytes" where
  "adapt_private pi =
     (if 0 < pi_private_data_len pi
      then pi_private_data_len pi # take (unat (pi_private_data_len pi)) (pi_private_data pi)
      else [])"

definition adapt_ext :: "TsMuxPacketInfo \<Rightarrow> bytes" where
  "adapt_ext pi =
     (if has_flag (pi_flags pi) TSMUX_PACKET_FLAG_WRITE_ADAPT_EXT then [1, 0] else [])"

definition adapt_flags :: "TsMuxPacketInfo \<Rightarrow> u8" where
  "adapt_flags pi =
     (let f = pi_flags pi in
      (if has_flag f TSMUX_PACKET_FLAG_DISCONT then 0x80 else 0)
   OR (if has_flag f TSMUX_PACKET_FLAG_RANDOM_ACCESS then 0x40 else 0)
   OR (if has_flag f TSMUX_PACKET_FLAG_PRIORITY then 0x20 else 0)
   OR (if has_flag f TSMUX_PACKET_FLAG_WRITE_PCR then 0x10 else 0)
   OR (if has_flag f TSMUX_PACKET_FLAG_WRITE_OPCR then 0x08 else 0)
   OR (if has_flag f TSMUX_PACKET_FLAG_WRITE_SPLICE then 0x04 else 0)
   OR (if 0 < pi_private_data_len pi then 0x02 else 0)
   OR (if has_flag f TSMUX_PACKET_FLAG_WRITE_ADAPT_EXT then 0x01 else 0))"

text \<open>
  The result is what the function returns, the buffer and \<^verbatim>\<open>*written\<close>. The C code tracks the
  write position in a \<^verbatim>\<open>guint8\<close>; it never exceeds 186 (\<open>adapt_body_length\<close> below), so it
  does not wrap.
\<close>

definition tsmux_write_adaptation_field ::
  "bytes \<Rightarrow> nat \<Rightarrow> TsMuxPacketInfo \<Rightarrow> u8 \<Rightarrow> (bool \<times> bytes \<times> u8) res" where
  "tsmux_write_adaptation_field buf base pi min_length =
     bindR (assertR (unat min_length \<le> TSMUX_PAYLOAD_LENGTH)) (\<lambda>_.
     let requested = has_flag (pi_flags pi) TSMUX_PACKET_FLAG_ADAPTATION;
         clock = (if requested then adapt_clock_fields pi else []);
         pos = 2 + length clock
     in if requested \<and> 0 < pi_private_data_len pi
           \<and> 1 + unat (pi_private_data_len pi) > TSMUX_PAYLOAD_LENGTH - pos
        then bindR (store buf (base + 2) clock) (\<lambda>buf'. Inr (False, buf', 0))
        else
          let body = clock @ (if requested then adapt_private pi @ adapt_ext pi else []);
              flags = (if requested then adapt_flags pi else 0);
              stuffing = replicate (unat min_length - (2 + length body)) 0xff;
              written = 2 + length body + length stuffing
          in bindR (store buf base (of_nat (written - 1) # flags # body @ stuffing))
               (\<lambda>buf'. Inr (True, buf', of_nat written)))"

section \<open>Packet header\<close>

text \<open>The result: return value, buffer, packet info, \<^verbatim>\<open>*payload_len_out\<close>, \<^verbatim>\<open>*payload_offset_out\<close>.\<close>

definition tsmux_write_ts_header ::
  "bytes \<Rightarrow> TsMuxPacketInfo \<Rightarrow> (bool \<times> bytes \<times> TsMuxPacketInfo \<times> u32 \<times> u32) res" where
  "tsmux_write_ts_header buf pi =
     bindR (store buf 0 (TSMUX_SYNC_BYTE #
              tsmux_put16 (if pi_packet_start_unit_indicator pi then 0x4000 OR pi_pid pi else pi_pid pi)))
       (\<lambda>buf1.
     let need_stuffing = (pi_stream_avail pi < 184);
         adapt_min_length = (if need_stuffing then ucast (184 - pi_stream_avail pi) else 0);
         write_adapt = (has_flag (pi_flags pi) TSMUX_PACKET_FLAG_ADAPTATION \<or> need_stuffing)
     in bindR (if write_adapt
               then tsmux_write_adaptation_field buf1 TSMUX_HEADER_LENGTH pi adapt_min_length
               else Inr (True, buf1, 0))
       (\<lambda>(res, buf2, adapt_len).
        if \<not> res then Inr (False, buf2, pi, 0, 0)
        else bindR (assertR (write_adapt \<longrightarrow> adapt_min_length \<le> adapt_len)) (\<lambda>_.
          let payload_len = 184 - ucast adapt_len;
              payload_offset = 4 + ucast adapt_len;
              has_payload = (0 < payload_len \<and> 0 < pi_stream_avail pi);
              adaptation_flag = (pi_packet_count pi AND 0x0f)
                OR (if write_adapt then 0x20 else 0) OR (if has_payload then 0x10 else 0);
              pi' = (if has_payload then pi\<lparr>pi_packet_count := pi_packet_count pi + 1\<rparr> else pi)
          in bindR (assertR (has_payload \<longrightarrow> payload_len \<le> pi_stream_avail pi)) (\<lambda>_.
             bindR (store buf2 3 [adaptation_flag]) (\<lambda>buf3.
               Inr (True, buf3, pi', payload_len, payload_offset))))))"

section \<open>Packet layout\<close>

record ts_packet =
  tp_start :: bool
  tp_pid :: u16
  tp_counter :: u8
  tp_payload :: "bytes option"

fun ts_parse :: "bytes \<Rightarrow> ts_packet option" where
  "ts_parse (sync # a # b # c # rest) =
     (if sync = TSMUX_SYNC_BYTE \<and> length rest = TSMUX_PAYLOAD_LENGTH
      then Some \<lparr>tp_start = bit a 6,
             tp_pid = take_bit 13 (push_bit 8 (ucast a) OR ucast b),
             tp_counter = take_bit 4 c,
             tp_payload =
               (if \<not> bit c 4 then None
                else if \<not> bit c 5 then Some rest
                else Some (drop (1 + unat (hd rest)) rest))\<rparr>
      else None)"
| "ts_parse _ = None"

text \<open>The program clock reference a decoder reads from an adaptation field.\<close>

fun pcr_read :: "bytes \<Rightarrow> u64 option" where
  "pcr_read [a, b, c, d, e, f] = Some (
     (push_bit 25 (ucast a) OR push_bit 17 (ucast b) OR push_bit 9 (ucast c)
      OR push_bit 1 (ucast d) OR drop_bit 7 (ucast e)) * 300
     + (push_bit 8 (ucast e AND 1) OR ucast f))"
| "pcr_read _ = None"

section \<open>Lemmas\<close>

definition packet_info_wf :: "TsMuxPacketInfo \<Rightarrow> bool" where
  "packet_info_wf pi \<longleftrightarrow> length (pi_private_data pi) = 256"

lemma pcr_bytes_length [simp]: "length (pcr_bytes pcr) = 6"
  by (simp add: pcr_bytes_def Let_def)

lemma adapt_clock_fields_length: "length (adapt_clock_fields pi) \<le> 13"
  by (simp add: adapt_clock_fields_def)

lemma adapt_private_length:
  "packet_info_wf pi \<Longrightarrow>
   length (adapt_private pi) = (if 0 < pi_private_data_len pi then 1 + unat (pi_private_data_len pi) else 0)"
  using unat_u8 [of "pi_private_data_len pi"] by (simp add: adapt_private_def packet_info_wf_def)

lemma pcr_read_bytes:
  assumes "pcr < 300 * 2 ^ 33"
  shows "pcr_read (pcr_bytes pcr) = Some pcr"
proof -
  define b where "b = pcr div 300"
  define x where "x = pcr mod 300"
  have "unat pcr < 300 * 2 ^ 33" using assms by (simp add: word_less_nat_alt)
  then have b: "take_bit 33 b = b"
    by (intro take_bit_word_self) (simp add: word_less_nat_alt b_def unat_div)
  have x: "take_bit 9 x = x"
    by (intro take_bit_word_self) (simp add: word_less_nat_alt x_def unat_mod)
  have eqb: "push_bit 25 (ucast (ucast (drop_bit 25 b) :: u8)) OR push_bit 17 (ucast (ucast (drop_bit 17 b) :: u8))
      OR push_bit 9 (ucast (ucast (drop_bit 9 b) :: u8)) OR push_bit 1 (ucast (ucast (drop_bit 1 b) :: u8))
      OR drop_bit 7 (ucast (ucast ((push_bit 7 b AND 0x80) OR (ucast (drop_bit 8 (ucast x :: u32)) AND 0x01)) :: u8)) = b"
    using b by (simp add: bit_blast_simps)
  have eqx: "push_bit 8 (ucast (ucast ((push_bit 7 b AND 0x80) OR (ucast (drop_bit 8 (ucast x :: u32)) AND 0x01)) :: u8) AND 1)
      OR ucast (ucast (ucast x :: u32) :: u8) = x"
    using x by (simp add: bit_blast_simps)
  have "b * 300 + x = pcr" by (simp add: b_def x_def word_mod_div_equality)
  then show ?thesis
    unfolding pcr_bytes_def Let_def b_def [symmetric] x_def [symmetric] byte_simps pcr_read.simps eqb eqx
    by simp
qed

subsection \<open>What the adaptation field holds\<close>

abbreviation adapt_requested :: "TsMuxPacketInfo \<Rightarrow> bool" where
  "adapt_requested pi \<equiv> has_flag (pi_flags pi) TSMUX_PACKET_FLAG_ADAPTATION"

definition adapt_body :: "TsMuxPacketInfo \<Rightarrow> bytes" where
  "adapt_body pi =
     (if adapt_requested pi then adapt_clock_fields pi @ adapt_private pi @ adapt_ext pi else [])"

text \<open>The requested fields leave the field within the 184 bytes after the packet header.\<close>

definition adapt_fits :: "TsMuxPacketInfo \<Rightarrow> bool" where
  "adapt_fits pi \<longleftrightarrow> 2 + length (adapt_body pi) \<le> TSMUX_PAYLOAD_LENGTH"

definition adapt_field :: "TsMuxPacketInfo \<Rightarrow> nat \<Rightarrow> bytes" where
  "adapt_field pi m =
     (let w = max m (2 + length (adapt_body pi))
      in of_nat (w - 1) # (if adapt_requested pi then adapt_flags pi else 0) # adapt_body pi
         @ replicate (w - (2 + length (adapt_body pi))) 0xff)"

lemma adapt_field_length [simp]: "length (adapt_field pi m) = max m (2 + length (adapt_body pi))"
  by (simp add: adapt_field_def Let_def)

lemma write_adaptation_field_fits:
  assumes "packet_info_wf pi" and "adapt_fits pi" and "unat m \<le> 184"
  shows "tsmux_write_adaptation_field buf base pi m =
     bindR (store buf base (adapt_field pi (unat m)))
       (\<lambda>buf'. Inr (True, buf', of_nat (length (adapt_field pi (unat m)))))"
proof -
  have no_reject: "\<not> (adapt_requested pi \<and> 0 < pi_private_data_len pi \<and>
      1 + unat (pi_private_data_len pi) > 184 - (2 + length (adapt_clock_fields pi)))"
    using assms(1,2) adapt_private_length [OF assms(1)]
    by (auto simp: adapt_fits_def adapt_body_def)
  have body: "(if adapt_requested pi then adapt_clock_fields pi else [])
      @ (if adapt_requested pi then adapt_private pi @ adapt_ext pi else []) = adapt_body pi"
    by (simp add: adapt_body_def)
  have w: "2 + length (adapt_body pi) + (unat m - (2 + length (adapt_body pi)))
      = max (unat m) (2 + length (adapt_body pi))" by simp
  show ?thesis
    using assms(3) no_reject
    unfolding tsmux_write_adaptation_field_def Let_def body
    by (auto simp: adapt_field_def Let_def w max_def)
qed

subsection \<open>What the header writer produces\<close>

text \<open>The width of the adaptation field, zero when there is none.\<close>

definition adapt_width :: "TsMuxPacketInfo \<Rightarrow> nat" where
  "adapt_width pi =
     (if adapt_requested pi \<or> pi_stream_avail pi < 184
      then max (184 - unat (pi_stream_avail pi)) (2 + length (adapt_body pi))
      else 0)"

definition ts_header_bytes :: "TsMuxPacketInfo \<Rightarrow> bytes" where
  "ts_header_bytes pi =
     TSMUX_SYNC_BYTE
     # tsmux_put16 (if pi_packet_start_unit_indicator pi then 0x4000 OR pi_pid pi else pi_pid pi)
     @ [(pi_packet_count pi AND 0x0f) OR (if 0 < adapt_width pi then 0x20 else 0)
         OR (if adapt_width pi < 184 then 0x10 else 0)]
     @ (if 0 < adapt_width pi then adapt_field pi (184 - unat (pi_stream_avail pi)) else [])"

definition count_packet :: "TsMuxPacketInfo \<Rightarrow> TsMuxPacketInfo" where
  "count_packet pi =
     (if adapt_width pi < 184 then pi\<lparr>pi_packet_count := pi_packet_count pi + 1\<rparr> else pi)"

lemma ts_header_bytes_length [simp]: "length (ts_header_bytes pi) = 4 + adapt_width pi"
  by (auto simp: ts_header_bytes_def adapt_width_def)

lemma adapt_width_bounds:
  assumes "adapt_fits pi"
  shows "adapt_width pi \<le> 184" "184 - adapt_width pi \<le> unat (pi_stream_avail pi)"
  using assms by (auto simp: adapt_width_def adapt_fits_def word_less_nat_alt)

text \<open>The minimal length the header writer asks for, and the adaptation step it takes.\<close>

definition stuffing_min :: "TsMuxPacketInfo \<Rightarrow> u8" where
  "stuffing_min pi = (if pi_stream_avail pi < 184 then ucast (184 - pi_stream_avail pi) else 0)"

lemma unat_stuffing_min: "unat (stuffing_min pi) = 184 - unat (pi_stream_avail pi)"
proof (cases "pi_stream_avail pi < 184")
  case True
  then have "unat (184 - pi_stream_avail pi) = 184 - unat (pi_stream_avail pi)"
    by (subst unat_sub) (auto simp: word_le_nat_alt word_less_nat_alt)
  then show ?thesis using True by (simp add: stuffing_min_def unsigned_ucast_eq take_bit_nat_eq_self)
qed (simp add: stuffing_min_def word_less_nat_alt)

lemma write_adapt_iff: "adapt_requested pi \<or> pi_stream_avail pi < 184 \<longleftrightarrow> 0 < adapt_width pi"
  by (auto simp: adapt_width_def)

lemma stuffing_min_le: "adapt_fits pi \<Longrightarrow> 0 < adapt_width pi \<longrightarrow> stuffing_min pi \<le> of_nat (adapt_width pi)"
  using adapt_width_bounds(1) [of pi]
  by (auto simp: word_le_nat_alt unat_stuffing_min unat_of_nat8 adapt_width_def)

lemma write_adapt_step:
  assumes "packet_info_wf pi" and "adapt_fits pi" and "length h = 4" and "length rest = 184"
  shows "(if 0 < adapt_width pi then tsmux_write_adaptation_field (h @ rest) 4 pi (stuffing_min pi)
          else Inr (True, h @ rest, 0))
    = Inr (True, h @ (if 0 < adapt_width pi then adapt_field pi (184 - unat (pi_stream_avail pi)) else [])
             @ drop (adapt_width pi) rest, of_nat (adapt_width pi))"
proof (cases "0 < adapt_width pi")
  case True
  let ?f = "adapt_field pi (184 - unat (pi_stream_avail pi))"
  have len: "length ?f = adapt_width pi" using True by (simp add: adapt_width_def split: if_splits)
  have "store (h @ rest) 4 ?f = Inr (h @ ?f @ drop (adapt_width pi) rest)"
    using adapt_width_bounds(1) [OF assms(2)] assms(3,4) len by (simp add: store_def)
  then show ?thesis
    using True len by (simp add: write_adaptation_field_fits [OF assms(1,2)] unat_stuffing_min)
qed simp

lemma write_ts_header_fits:
  assumes "length buf = 188" and "packet_info_wf pi" and "adapt_fits pi"
  shows "tsmux_write_ts_header buf pi =
     Inr (True, ts_header_bytes pi @ drop (4 + adapt_width pi) buf, count_packet pi,
          of_nat (184 - adapt_width pi), of_nat (4 + adapt_width pi))"
proof -
  let ?w = "adapt_width pi"
  let ?h = "TSMUX_SYNC_BYTE #
      tsmux_put16 (if pi_packet_start_unit_indicator pi then 0x4000 OR pi_pid pi else pi_pid pi)"
  have "length (drop 3 buf) = 185" using assms(1) by simp
  then obtain b3 rest where buf: "drop 3 buf = b3 # rest" and rest: "length rest = 184"
    by (cases "drop 3 buf") auto
  have drop: "drop (4 + n) buf = drop n rest" for n
    using arg_cong [OF buf, of "drop (Suc n)"] by (simp add: add.commute)
  have st1: "store buf 0 ?h = Inr ((?h @ [b3]) @ rest)"
    using assms(1) by (simp add: store_def buf)
  have st3: "store ((?h @ [b3]) @ xs) 3 [f] = Inr (?h @ f # xs)" for xs f
    by (simp add: store_def tsmux_put16_def)
  have w: "?w \<le> 184" "184 - ?w \<le> unat (pi_stream_avail pi)"
    using assms(3) by (rule adapt_width_bounds)+
  define p where "p = 184 - ?w"
  have "p < 2 ^ 32" by (simp add: p_def)
  then have p: "unat (of_nat p :: u32) = p" by simp
  have lw: "184 - ucast (of_nat ?w :: u8) = (of_nat p :: u32)"
    "4 + ucast (of_nat ?w :: u8) = (of_nat (4 + ?w) :: u32)"
    using w(1) by (simp_all add: ucast_of_nat_8_32 of_nat_diff p_def)
  have pos: "0 < (of_nat p :: u32) \<and> 0 < pi_stream_avail pi \<longleftrightarrow> ?w < 184"
    and le: "(of_nat p :: u32) \<le> pi_stream_avail pi"
    using w unfolding word_less_nat_alt word_le_nat_alt p by (auto simp: p_def)
  have "length (?h @ [b3]) = 4" by simp
  note step = write_adapt_step [OF assms(2,3) this rest]
  show ?thesis
    unfolding tsmux_write_ts_header_def st1 bindR_simps Let_def write_adapt_iff
      stuffing_min_def [symmetric] step prod.case lw pos count_packet_def [symmetric] p_def [symmetric]
    using stuffing_min_le [OF assms(3)] le
    by (simp add: st3 [simplified] ts_header_bytes_def drop)
qed

lemma adapt_field_skip:
  assumes "adapt_fits pi" and "m \<le> 184"
  shows "drop (1 + unat (hd (adapt_field pi m @ xs))) (adapt_field pi m @ xs) = xs"
proof -
  let ?w = "max m (2 + length (adapt_body pi))"
  have "?w - 1 < 256" and "0 < ?w" using assms by (auto simp: adapt_fits_def)
  then have "1 + unat (of_nat (?w - 1) :: u8) = ?w" by (simp add: unat_of_nat8 del: of_nat_diff)
  moreover have "hd (adapt_field pi m @ xs) = of_nat (?w - 1)" by (simp add: adapt_field_def Let_def)
  ultimately show ?thesis by simp
qed

lemma ts_parse_header:
  assumes "adapt_fits pi" and "pi_pid pi < 2 ^ 13" and "length payload = 184 - adapt_width pi"
  shows "ts_parse (ts_header_bytes pi @ payload) =
     Some \<lparr>tp_start = pi_packet_start_unit_indicator pi, tp_pid = pi_pid pi,
           tp_counter = take_bit 4 (pi_packet_count pi),
           tp_payload = (if payload = [] then None else Some payload)\<rparr>"
proof -
  let ?w = "adapt_width pi"
  define v where "v = (if pi_packet_start_unit_indicator pi then 0x4000 OR pi_pid pi else pi_pid pi)"
  define c where "c = (pi_packet_count pi AND 0x0f) OR (if 0 < ?w then 0x20 else 0) OR (if ?w < 184 then 0x10 else 0)"
  define field where "field = (if 0 < ?w then adapt_field pi (184 - unat (pi_stream_avail pi)) else [])"
  have w: "?w \<le> 184" using assms(1) by (rule adapt_width_bounds)
  have pid: "take_bit 13 (pi_pid pi) = pi_pid pi" using assms(2) by (rule take_bit_word_self)
  have "bit (ucast (drop_bit 8 v) :: u8) 6 \<longleftrightarrow> pi_packet_start_unit_indicator pi"
    using pid by (auto simp: v_def bit_blast_simps)
  moreover have "take_bit 13 (push_bit 8 (ucast (ucast (drop_bit 8 v) :: u8)) OR ucast (ucast v :: u8)) = pi_pid pi"
    using pid by (auto simp: v_def bit_blast_simps)
  moreover have "take_bit 4 c = take_bit 4 (pi_packet_count pi)"
    by (auto simp: c_def bit_blast_simps)
  moreover have "bit c 4 \<longleftrightarrow> ?w < 184" "bit c 5 \<longleftrightarrow> 0 < ?w"
    by (auto simp: c_def bit_simps)
  moreover have "drop (1 + unat (hd (field @ payload))) (field @ payload) = payload" if "0 < ?w"
    using that by (simp only: field_def if_True adapt_field_skip [OF assms(1)])
  moreover have "length field = ?w" by (auto simp: field_def adapt_width_def)
  ultimately show ?thesis
    using w assms(3)
    by (auto simp: ts_header_bytes_def tsmux_put16_def byte_simps v_def [symmetric] c_def [symmetric] field_def [symmetric])
qed

text \<open>Outside \<open>adapt_fits\<close>: private data that does not fit is refused, the extension is not.\<close>

definition private_refused :: "TsMuxPacketInfo \<Rightarrow> bool" where
  "private_refused pi \<longleftrightarrow> adapt_requested pi \<and> 0 < pi_private_data_len pi
     \<and> 2 + length (adapt_clock_fields pi) + 1 + unat (pi_private_data_len pi) > 184"

lemma write_adaptation_field_refused:
  assumes "private_refused pi" and "unat m \<le> 184"
  shows "tsmux_write_adaptation_field buf base pi m =
     bindR (store buf (base + 2) (adapt_clock_fields pi)) (\<lambda>buf'. Inr (False, buf', 0))"
proof -
  have "1 + unat (pi_private_data_len pi) > 184 - (2 + length (adapt_clock_fields pi))"
    using assms(1) unfolding private_refused_def by linarith
  then show ?thesis
    using assms by (simp add: tsmux_write_adaptation_field_def private_refused_def)
qed

lemma write_ts_header_refused:
  assumes "length buf = 188" and "private_refused pi"
  shows "\<exists>buf'. tsmux_write_ts_header buf pi = Inr (False, buf', pi, 0, 0)"
proof -
  let ?h = "TSMUX_SYNC_BYTE #
      tsmux_put16 (if pi_packet_start_unit_indicator pi then 0x4000 OR pi_pid pi else pi_pid pi)"
  have st: "store buf 0 ?h = Inr (?h @ drop 3 buf)"
    using assms(1) by (simp add: store_def)
  have "\<exists>b. store (?h @ drop 3 buf) (4 + 2) (adapt_clock_fields pi) = Inr b"
    unfolding store_Inr_iff using assms(1) adapt_clock_fields_length [of pi] by simp
  then show ?thesis
    using assms(2) unfolding tsmux_write_ts_header_def st
    by (auto simp: stuffing_min_def [symmetric] private_refused_def
        write_adaptation_field_refused [OF assms(2)] unat_stuffing_min)
qed

lemma write_ts_header_overflow:
  assumes "length buf = 188" and "packet_info_wf pi" and "\<not> adapt_fits pi" and "\<not> private_refused pi"
  shows "tsmux_write_ts_header buf pi = Inl OutOfBounds"
proof -
  have m: "unat (stuffing_min pi) \<le> 184" by (simp add: unat_stuffing_min)
  have r: "adapt_requested pi" using assms(3) by (auto simp: adapt_fits_def adapt_body_def split: if_splits)
  have big: "184 < 2 + (length (adapt_clock_fields pi) + length (adapt_private pi) + length (adapt_ext pi))"
    using assms(3) r by (simp add: adapt_fits_def adapt_body_def)
  have "tsmux_write_adaptation_field buf1 4 pi (stuffing_min pi) = Inl OutOfBounds"
    if "length buf1 = 188" for buf1
    using assms(4) m r big that
    by (auto simp: tsmux_write_adaptation_field_def Let_def private_refused_def store_def)
  then show ?thesis
    using assms(1) r
    by (auto simp: tsmux_write_ts_header_def Let_def stuffing_min_def [symmetric] store_def)
qed

section \<open>Properties\<close>

text \<open>
  C8. When the requested adaptation fields fit, the header writer succeeds without a failing
  assertion, leaves room for at most the bytes the stream has, and whatever payload of that
  length follows, a decoder reads back the PID, the start indicator, the continuity counter and
  exactly that payload; the counter moves on exactly for packets with a payload.
\<close>

theorem ts_header_decodes:
  assumes "length buf = TSMUX_PACKET_LENGTH" and "packet_info_wf pi" and "adapt_fits pi"
    and "pi_pid pi < 2 ^ 13"
  shows "\<exists>buf' n. tsmux_write_ts_header buf pi =
       Inr (True, buf', pi\<lparr>pi_packet_count := pi_packet_count pi + (if 0 < n then 1 else 0)\<rparr>,
            of_nat n, of_nat (TSMUX_PACKET_LENGTH - n))
     \<and> length buf' = TSMUX_PACKET_LENGTH \<and> n \<le> TSMUX_PAYLOAD_LENGTH \<and> n \<le> unat (pi_stream_avail pi)
     \<and> (\<forall>payload. length payload = n \<longrightarrow>
          ts_parse (take (TSMUX_PACKET_LENGTH - n) buf' @ payload) =
            Some \<lparr>tp_start = pi_packet_start_unit_indicator pi, tp_pid = pi_pid pi,
                  tp_counter = take_bit 4 (pi_packet_count pi),
                  tp_payload = (if n = 0 then None else Some payload)\<rparr>)"
proof -
  let ?n = "184 - adapt_width pi"
  let ?buf = "ts_header_bytes pi @ drop (4 + adapt_width pi) buf"
  note w = adapt_width_bounds [OF assms(3)]
  have n: "188 - ?n = 4 + adapt_width pi" using w(1) by simp
  have c: "count_packet pi = pi\<lparr>pi_packet_count := pi_packet_count pi + (if 0 < ?n then 1 else 0)\<rparr>"
    by (simp add: count_packet_def)
  have "take (188 - ?n) ?buf = ts_header_bytes pi" unfolding n by simp
  then have "\<forall>payload. length payload = ?n \<longrightarrow> ts_parse (take (188 - ?n) ?buf @ payload) =
      Some \<lparr>tp_start = pi_packet_start_unit_indicator pi, tp_pid = pi_pid pi,
            tp_counter = take_bit 4 (pi_packet_count pi),
            tp_payload = (if ?n = 0 then None else Some payload)\<rparr>"
    using ts_parse_header [OF assms(3,4)] by auto
  then show ?thesis
    using write_ts_header_fits [OF assms(1-3)] w assms(1) unfolding c n [symmetric]
    by (intro exI [of _ ?buf] exI [of _ ?n]) simp
qed

theorem ts_header_decodes_witness:
  "\<exists>buf' pi' n. tsmux_write_ts_header (replicate 188 0) (packet_info0\<lparr>pi_pid := 0x40, pi_stream_avail := 500\<rparr>) =
       Inr (True, buf', pi', of_nat n, of_nat (188 - n))
     \<and> length buf' = 188 \<and> n \<le> 184"
proof -
  let ?pi = "packet_info0\<lparr>pi_pid := 0x40, pi_stream_avail := 500\<rparr>"
  have "packet_info_wf ?pi" "adapt_fits ?pi" "pi_pid ?pi < 2 ^ 13"
    by (simp_all add: packet_info_wf_def packet_info0_def adapt_fits_def adapt_body_def has_flag_def)
  from ts_header_decodes [OF length_replicate this, of 0] show ?thesis by blast
qed

text \<open>
  The three outcomes of the header writer on a packet buffer: it succeeds when the
  adaptation fields fit, returns false when the private data does not fit, and writes past the
  end of the 188 byte packet buffer otherwise; no assertion fails in any case.
\<close>

theorem ts_header_outcomes:
  assumes "length buf = TSMUX_PACKET_LENGTH" and "packet_info_wf pi"
  shows "((\<exists>buf' pi' n k. tsmux_write_ts_header buf pi = Inr (True, buf', pi', n, k)) \<longleftrightarrow> adapt_fits pi)
    \<and> ((\<exists>buf'. tsmux_write_ts_header buf pi = Inr (False, buf', pi, 0, 0)) \<longleftrightarrow> private_refused pi)
    \<and> (tsmux_write_ts_header buf pi = Inl OutOfBounds \<longleftrightarrow> \<not> adapt_fits pi \<and> \<not> private_refused pi)"
proof -
  have "\<not> (adapt_fits pi \<and> private_refused pi)"
    using adapt_private_length [OF assms(2)]
    by (auto simp: adapt_fits_def private_refused_def adapt_body_def)
  moreover note write_ts_header_fits [OF assms] write_ts_header_refused [OF assms(1), of pi]
    write_ts_header_overflow [OF assms]
  ultimately show ?thesis by fastforce
qed

theorem ts_header_outcomes_witness:
  "tsmux_write_ts_header (replicate 188 0)
     (packet_info0\<lparr>pi_flags := TSMUX_PACKET_FLAG_ADAPTATION OR TSMUX_PACKET_FLAG_WRITE_ADAPT_EXT,
                   pi_private_data_len := 181\<rparr>) = Inl OutOfBounds"
proof -
  let ?pi = "packet_info0\<lparr>pi_flags := TSMUX_PACKET_FLAG_ADAPTATION OR TSMUX_PACKET_FLAG_WRITE_ADAPT_EXT,
                   pi_private_data_len := 181\<rparr>"
  have wf: "packet_info_wf ?pi" by (simp add: packet_info_wf_def packet_info0_def)
  have "\<not> adapt_fits ?pi" "\<not> private_refused ?pi"
    by (simp_all add: packet_info0_def adapt_fits_def adapt_body_def has_flag_def flag_defs
        private_refused_def adapt_clock_fields_def adapt_private_def adapt_ext_def)
  with ts_header_outcomes [OF length_replicate wf, of 0] show ?thesis by simp
qed

text \<open>Every clock reference below 300 * 2^33 (26.5 hours at 27 MHz) is read back from the six bytes.\<close>

theorem pcr_roundtrip: "pcr < 300 * 2 ^ 33 \<Longrightarrow> pcr_read (pcr_bytes pcr) = Some pcr"
  by (rule pcr_read_bytes)

theorem pcr_roundtrip_witness: "pcr_read (pcr_bytes 27000123) = Some 27000123"
  using pcr_roundtrip [of 27000123] by simp

end
