(* ===== verification/TsStream.thy ===== *)
theory TsStream
  imports TsCommon
begin

text \<open>
  \<^verbatim>\<open>libtsmux/tsmux/tsmuxstream.c\<close>: an elementary stream. It queues the buffers the client
  submits, hands out their bytes in order, and puts a PES header in front of each PES packet.
  A stream is a record with the fields of \<^verbatim>\<open>struct TsMuxStream\<close>. Time stamps are \<^verbatim>\<open>gint64\<close>
  kept as 64 bit words, -1 meaning unknown. The client's buffer release function is code
  outside the library: a function pointer in the record, whose behaviour is the parameter
  \<open>code\<close> of the operations that call it.
\<close>

section \<open>Data\<close>

datatype TsMuxStreamType =
    TSMUX_ST_RESERVED | TSMUX_ST_VIDEO_MPEG1 | TSMUX_ST_VIDEO_MPEG2 | TSMUX_ST_AUDIO_MPEG1
  | TSMUX_ST_AUDIO_MPEG2 | TSMUX_ST_PRIVATE_SECTIONS | TSMUX_ST_PRIVATE_DATA | TSMUX_ST_MHEG
  | TSMUX_ST_DSMCC | TSMUX_ST_H222_1 | TSMUX_ST_AUDIO_AAC | TSMUX_ST_VIDEO_MPEG4
  | TSMUX_ST_VIDEO_H264 | TSMUX_ST_PS_AUDIO_AC3 | TSMUX_ST_PS_AUDIO_DTS | TSMUX_ST_PS_AUDIO_LPCM
  | TSMUX_ST_PS_DVD_SUBPICTURE | TSMUX_ST_VIDEO_DIRAC

fun stream_type_code :: "TsMuxStreamType \<Rightarrow> u8" where
  "stream_type_code TSMUX_ST_RESERVED = 0x00"
| "stream_type_code TSMUX_ST_VIDEO_MPEG1 = 0x01"
| "stream_type_code TSMUX_ST_VIDEO_MPEG2 = 0x02"
| "stream_type_code TSMUX_ST_AUDIO_MPEG1 = 0x03"
| "stream_type_code TSMUX_ST_AUDIO_MPEG2 = 0x04"
| "stream_type_code TSMUX_ST_PRIVATE_SECTIONS = 0x05"
| "stream_type_code TSMUX_ST_PRIVATE_DATA = 0x06"
| "stream_type_code TSMUX_ST_MHEG = 0x07"
| "stream_type_code TSMUX_ST_DSMCC = 0x08"
| "stream_type_code TSMUX_ST_H222_1 = 0x09"
| "stream_type_code TSMUX_ST_AUDIO_AAC = 0x0f"
| "stream_type_code TSMUX_ST_VIDEO_MPEG4 = 0x10"
| "stream_type_code TSMUX_ST_VIDEO_H264 = 0x1b"
| "stream_type_code TSMUX_ST_PS_AUDIO_AC3 = 0x81"
| "stream_type_code TSMUX_ST_PS_AUDIO_DTS = 0x8a"
| "stream_type_code TSMUX_ST_PS_AUDIO_LPCM = 0x8b"
| "stream_type_code TSMUX_ST_PS_DVD_SUBPICTURE = 0xff"
| "stream_type_code TSMUX_ST_VIDEO_DIRAC = 0xD1"

datatype TsMuxStreamState = TSMUX_STREAM_STATE_HEADER | TSMUX_STREAM_STATE_PACKET

record TsMuxStreamBuffer =
  b_data :: bytes
  b_size :: u32
  b_pts :: u64
  b_dts :: u64
  b_user_data :: nat

record TsMuxStream =
  s_state :: TsMuxStreamState
  s_pi :: TsMuxPacketInfo
  s_stream_type :: TsMuxStreamType
  s_id :: u8
  s_id_extended :: u8
  s_is_video_stream :: bool
  s_buffers :: "TsMuxStreamBuffer list"
  s_bytes_avail :: u32
  s_cur_buffer :: "TsMuxStreamBuffer option"
  s_cur_buffer_consumed :: u32
  s_buffer_release :: "nat option"
  s_pes_payload_size :: u16
  s_cur_pes_payload_size :: u16
  s_pes_bytes_written :: u16
  s_pts :: u64
  s_dts :: u64
  s_last_pts :: u64
  s_last_dts :: u64
  s_pcr_ref :: u32
  s_last_pcr :: u64

type_synonym release_code = "nat \<Rightarrow> TsMuxStreamBuffer \<Rightarrow> TsMuxStream \<Rightarrow> TsMuxStream"

abbreviation set_flags :: "u32 \<Rightarrow> TsMuxStream \<Rightarrow> TsMuxStream" where
  "set_flags f st \<equiv> st\<lparr>s_pi := (s_pi st)\<lparr>pi_flags := f\<rparr>\<rparr>"

section \<open>Construction and accessors\<close>

text \<open>The object \<^verbatim>\<open>g_new0\<close> allocates, before its fields are set.\<close>

definition stream0 :: "TsMuxStreamType \<Rightarrow> TsMuxStream" where
  "stream0 ty = \<lparr>s_state = TSMUX_STREAM_STATE_HEADER, s_pi = packet_info0, s_stream_type = ty,
     s_id = 0, s_id_extended = 0, s_is_video_stream = False, s_buffers = [], s_bytes_avail = 0,
     s_cur_buffer = None, s_cur_buffer_consumed = 0, s_buffer_release = None,
     s_pes_payload_size = 0, s_cur_pes_payload_size = 0, s_pes_bytes_written = 0,
     s_pts = 0, s_dts = 0, s_last_pts = -1, s_last_dts = -1, s_pcr_ref = 0, s_last_pcr = -1\<rparr>"

definition tsmux_stream_new :: "u16 \<Rightarrow> TsMuxStreamType \<Rightarrow> TsMuxStream" where
  "tsmux_stream_new pid ty =
     (let st = (stream0 ty)\<lparr>s_pi := packet_info0\<lparr>pi_pid := pid\<rparr>\<rparr>;
          full = TSMUX_PACKET_FLAG_PES_FULL_HEADER
      in if ty \<in> {TSMUX_ST_VIDEO_MPEG1, TSMUX_ST_VIDEO_MPEG2, TSMUX_ST_VIDEO_MPEG4, TSMUX_ST_VIDEO_H264}
         then set_flags full (st\<lparr>s_id := 0xE0, s_is_video_stream := True\<rparr>)
         else if ty \<in> {TSMUX_ST_AUDIO_AAC, TSMUX_ST_AUDIO_MPEG1, TSMUX_ST_AUDIO_MPEG2}
         then set_flags full (st\<lparr>s_id := 0xC0\<rparr>)
         else if ty = TSMUX_ST_VIDEO_DIRAC
         then set_flags (full OR TSMUX_PACKET_FLAG_PES_EXT_STREAMID)
                (st\<lparr>s_id := 0xFD, s_id_extended := 0x60, s_is_video_stream := True\<rparr>)
         else st)"

definition tsmux_stream_get_pid :: "TsMuxStream \<Rightarrow> u16" where
  "tsmux_stream_get_pid st = pi_pid (s_pi st)"

definition tsmux_stream_set_buffer_release_func :: "TsMuxStream \<Rightarrow> nat option \<Rightarrow> TsMuxStream" where
  "tsmux_stream_set_buffer_release_func st func = st\<lparr>s_buffer_release := func\<rparr>"

definition tsmux_stream_at_pes_start :: "TsMuxStream \<Rightarrow> bool" where
  "tsmux_stream_at_pes_start st \<longleftrightarrow> s_state st = TSMUX_STREAM_STATE_HEADER"

definition tsmux_stream_pcr_ref :: "TsMuxStream \<Rightarrow> TsMuxStream" where
  "tsmux_stream_pcr_ref st = st\<lparr>s_pcr_ref := s_pcr_ref st + 1\<rparr>"

definition tsmux_stream_pcr_unref :: "TsMuxStream \<Rightarrow> TsMuxStream" where
  "tsmux_stream_pcr_unref st = st\<lparr>s_pcr_ref := s_pcr_ref st - 1\<rparr>"

definition tsmux_stream_is_pcr :: "TsMuxStream \<Rightarrow> bool" where
  "tsmux_stream_is_pcr st \<longleftrightarrow> s_pcr_ref st \<noteq> 0"

definition tsmux_stream_get_pts :: "TsMuxStream \<Rightarrow> u64" where
  "tsmux_stream_get_pts st = s_last_pts st"

text \<open>The elementary stream descriptors of the program map table.\<close>

definition tsmux_stream_get_es_descrs :: "TsMuxStream \<Rightarrow> bytes" where
  "tsmux_stream_get_es_descrs st =
     (if s_stream_type st = TSMUX_ST_VIDEO_DIRAC then [0x05, 4, 0x64, 0x72, 0x61, 0x63] else [])"

section \<open>Counting available bytes\<close>

definition tsmux_stream_pes_header_length :: "TsMuxStream \<Rightarrow> u8" where
  "tsmux_stream_pes_header_length st =
     (let f = pi_flags (s_pi st) in
      if has_flag f TSMUX_PACKET_FLAG_PES_FULL_HEADER
      then 6 + 3
         + (if has_flag f TSMUX_PACKET_FLAG_PES_WRITE_PTS_DTS then 10
            else if has_flag f TSMUX_PACKET_FLAG_PES_WRITE_PTS then 5 else 0)
         + (if has_flag f TSMUX_PACKET_FLAG_PES_EXT_STREAMID then 3 else 0)
      else 6)"

text \<open>Both return a \<^verbatim>\<open>gint\<close>.\<close>

definition tsmux_stream_bytes_in_buffer :: "TsMuxStream \<Rightarrow> int" where
  "tsmux_stream_bytes_in_buffer st = sint (s_bytes_avail st)"

definition tsmux_stream_bytes_avail :: "TsMuxStream \<Rightarrow> int" where
  "tsmux_stream_bytes_avail st =
     (let b = (if s_cur_pes_payload_size st \<noteq> 0
               then int (unat (s_cur_pes_payload_size st)) - int (unat (s_pes_bytes_written st))
               else tsmux_stream_bytes_in_buffer st);
          b' = min b (tsmux_stream_bytes_in_buffer st)
      in if s_state st = TSMUX_STREAM_STATE_HEADER
         then b' + int (unat (tsmux_stream_pes_header_length st)) else b')"

section \<open>Submitting data\<close>

definition tsmux_stream_add_data ::
  "TsMuxStream \<Rightarrow> bytes \<Rightarrow> u32 \<Rightarrow> nat \<Rightarrow> u64 \<Rightarrow> u64 \<Rightarrow> TsMuxStream" where
  "tsmux_stream_add_data st data len user_data pts dts =
     (let packet = \<lparr>b_data = data, b_size = len, b_pts = pts, b_dts = dts, b_user_data = user_data\<rparr>;
          st1 = (if s_bytes_avail st = 0 then st\<lparr>s_last_pts := pts\<rparr> else st)
      in st1\<lparr>s_bytes_avail := s_bytes_avail st + len, s_buffers := s_buffers st @ [packet]\<rparr>)"

section \<open>PES header\<close>

fun tsmux_stream_find_pts_dts_within :: "TsMuxStreamBuffer list \<Rightarrow> u32 \<Rightarrow> u64 \<times> u64" where
  "tsmux_stream_find_pts_dts_within [] bound = (-1, -1)"
| "tsmux_stream_find_pts_dts_within (b # bs) bound =
     (if bound \<le> b_size b then (b_pts b, b_dts b)
      else if b_pts b \<noteq> -1 \<or> b_dts b \<noteq> -1 then (b_pts b, b_dts b)
      else tsmux_stream_find_pts_dts_within bs (bound - b_size b))"

definition tsmux_stream_write_pes_header :: "TsMuxStream \<Rightarrow> bytes" where
  "tsmux_stream_write_pes_header st =
     (let f = pi_flags (s_pi st);
          hdr_len = tsmux_stream_pes_header_length st;
          length_to_write = (if s_cur_pes_payload_size st \<noteq> 0
                             then ucast hdr_len + s_cur_pes_payload_size st - 6 else 0)
      in [0x00, 0x00, 0x01, s_id st] @ tsmux_put16 length_to_write
       @ (if \<not> has_flag f TSMUX_PACKET_FLAG_PES_FULL_HEADER then []
          else let flags = (if has_flag f TSMUX_PACKET_FLAG_PES_WRITE_PTS_DTS then 0xC0
                            else if has_flag f TSMUX_PACKET_FLAG_PES_WRITE_PTS then 0x80 else 0)
                        OR (if has_flag f TSMUX_PACKET_FLAG_PES_EXT_STREAMID then 0x01 else 0)
               in [0x81, flags]
                @ (if hdr_len < 9 then []
                   else [hdr_len - 9]
                    @ (if has_flag f TSMUX_PACKET_FLAG_PES_WRITE_PTS_DTS
                       then tsmux_put_ts 0x3 (s_pts st) @ tsmux_put_ts 0x1 (s_dts st)
                       else if has_flag f TSMUX_PACKET_FLAG_PES_WRITE_PTS
                       then tsmux_put_ts 0x2 (s_pts st) else [])
                    @ (if has_flag f TSMUX_PACKET_FLAG_PES_EXT_STREAMID
                       then [0x0f, 0x80 OR 1, 0x80 OR s_id_extended st] else []))))"

section \<open>Handing out data\<close>

text \<open>The time stamps of the last buffer that had bytes written.\<close>

definition remember_ts :: "TsMuxStreamBuffer \<Rightarrow> TsMuxStream \<Rightarrow> TsMuxStream" where
  "remember_ts b st =
     (if b_pts b \<noteq> -1 then st\<lparr>s_last_pts := b_pts b, s_last_dts := b_dts b\<rparr>
      else if b_dts b \<noteq> -1 then st\<lparr>s_last_dts := b_dts b\<rparr> else st)"

definition tsmux_stream_consume :: "release_code \<Rightarrow> TsMuxStream \<Rightarrow> u32 \<Rightarrow> TsMuxStream res" where
  "tsmux_stream_consume code st len =
     (case s_cur_buffer st of
        None \<Rightarrow> Inl AssertFail
      | Some b \<Rightarrow>
          bindR (assertR (len \<le> b_size b - s_cur_buffer_consumed st)) (\<lambda>_.
          let st1 = st\<lparr>s_cur_buffer_consumed := s_cur_buffer_consumed st + len,
                       s_bytes_avail := s_bytes_avail st - len\<rparr>
          in if s_cur_buffer_consumed st1 = 0 then Inr st1
             else
               let st2 = remember_ts b st1
               in if s_cur_buffer_consumed st2 = b_size b
                  then
                    let st3 = st2\<lparr>s_buffers := tl (s_buffers st2)\<rparr>;
                        st4 = (case s_buffer_release st3 of None \<Rightarrow> st3 | Some f \<Rightarrow> code f b st3);
                        st5 = st4\<lparr>s_cur_buffer := None\<rparr>
                    in Inr (if s_cur_pes_payload_size st5 = 0
                            then st5\<lparr>s_state := TSMUX_STREAM_STATE_HEADER\<rparr> else st5)
                  else Inr st2))"

text \<open>
  The copy loop of \<^verbatim>\<open>tsmux_stream_get_data\<close>. It need not end, so it takes fuel: each iteration
  spends one unit, and the result is \<open>Diverges\<close> when there is none left.
\<close>

definition start_buffer :: "TsMuxStream \<Rightarrow> (TsMuxStreamBuffer \<times> TsMuxStream) option" where
  "start_buffer st =
     (case s_cur_buffer st of
        Some b \<Rightarrow> Some (b, st)
      | None \<Rightarrow> (case s_buffers st of [] \<Rightarrow> None
          | b # _ \<Rightarrow> Some (b, st\<lparr>s_cur_buffer := Some b, s_cur_buffer_consumed := 0\<rparr>)))"

fun get_data_loop :: "release_code \<Rightarrow> nat \<Rightarrow> TsMuxStream \<Rightarrow> u32 \<Rightarrow> bytes \<Rightarrow> (bool \<times> TsMuxStream \<times> bytes) res" where
  "get_data_loop code 0 st len out = (if len = 0 then Inr (True, st, out) else Inl Diverges)"
| "get_data_loop code (Suc fuel) st len out =
     (if len = 0 then Inr (True, st, out)
      else case start_buffer st of
        None \<Rightarrow> Inr (False, st, out)
      | Some (b, st1) \<Rightarrow>
          let avail = b_size b - s_cur_buffer_consumed st1;
              n = (if avail < len then avail else len)
          in bindR (load (b_data b) (unat (s_cur_buffer_consumed st1)) (unat n)) (\<lambda>cur.
             bindR (tsmux_stream_consume code st1 n) (\<lambda>st2.
             get_data_loop code fuel st2 (len - n) (out @ cur))))"

text \<open>What happens at the start of a PES packet: its size and time stamps are chosen.\<close>

definition start_pes :: "TsMuxStream \<Rightarrow> TsMuxStream" where
  "start_pes st =
     (let cur = (if s_pes_payload_size st \<noteq> 0 then s_pes_payload_size st
                 else if s_is_video_stream st then 0
                 else ucast (s_bytes_avail st));
          bound = (if s_pes_payload_size st \<noteq> 0 \<or> \<not> s_is_video_stream st then ucast cur
                   else s_bytes_avail st);
          (pts, dts) = tsmux_stream_find_pts_dts_within (s_buffers st) bound;
          f = pi_flags (s_pi st) AND NOT (TSMUX_PACKET_FLAG_PES_WRITE_PTS_DTS OR TSMUX_PACKET_FLAG_PES_WRITE_PTS);
          f' = (if pts \<noteq> -1 \<and> dts \<noteq> -1 then f OR TSMUX_PACKET_FLAG_PES_WRITE_PTS_DTS
                else if pts \<noteq> -1 then f OR TSMUX_PACKET_FLAG_PES_WRITE_PTS else f)
      in set_flags f' (st\<lparr>s_cur_pes_payload_size := cur, s_pts := pts, s_dts := dts\<rparr>))"

text \<open>
  The result is the return value, the stream and the bytes written to \<^verbatim>\<open>buf\<close>. A call that
  makes progress takes at least one byte per iteration of the loop, so \<^verbatim>\<open>len\<close> units of fuel
  are enough (\<open>get_data_loop_fifo\<close>); without progress no amount is (\<open>get_data_loop_stuck\<close>).
\<close>

definition tsmux_stream_get_data ::
  "release_code \<Rightarrow> TsMuxStream \<Rightarrow> u32 \<Rightarrow> (bool \<times> TsMuxStream \<times> bytes) res" where
  "tsmux_stream_get_data code st len =
     (let at_start = (s_state st = TSMUX_STREAM_STATE_HEADER);
          st1 = (if at_start then start_pes st else st);
          hdr_len = tsmux_stream_pes_header_length st1
      in if at_start \<and> len < ucast hdr_len then Inr (False, st1, [])
         else
           let hdr = (if at_start then tsmux_stream_write_pes_header st1 else []);
               len' = (if at_start then len - ucast hdr_len else len);
               st2 = (if at_start then st1\<lparr>s_state := TSMUX_STREAM_STATE_PACKET\<rparr> else st1)
           in if word_of_int (tsmux_stream_bytes_avail st2) < len' then Inr (False, st2, hdr)
              else
                let st3 = st2\<lparr>s_pes_bytes_written := s_pes_bytes_written st2 + ucast len'\<rparr>;
                    st4 = (if s_cur_pes_payload_size st3 \<noteq> 0
                              \<and> s_pes_bytes_written st3 = s_cur_pes_payload_size st3
                           then st3\<lparr>s_state := TSMUX_STREAM_STATE_HEADER, s_pes_bytes_written := 0\<rparr>
                           else st3)
                in get_data_loop code (unat len') st4 len' hdr)"

section \<open>The stream as a queue of bytes\<close>

text \<open>The bytes submitted and not yet handed out.\<close>

definition pending :: "TsMuxStream \<Rightarrow> bytes" where
  "pending st = drop (if s_cur_buffer st = None then 0 else unat (s_cur_buffer_consumed st))
                  (concat (map b_data (s_buffers st)))"

definition buffer_ok :: "TsMuxStreamBuffer \<Rightarrow> bool" where
  "buffer_ok b \<longleftrightarrow> b_size b \<noteq> 0 \<and> length (b_data b) = unat (b_size b)"

definition stream_wf :: "TsMuxStream \<Rightarrow> bool" where
  "stream_wf st \<longleftrightarrow>
     list_all buffer_ok (s_buffers st)
   \<and> (case s_cur_buffer st of None \<Rightarrow> True
      | Some b \<Rightarrow> s_buffers st \<noteq> [] \<and> hd (s_buffers st) = b \<and> s_cur_buffer_consumed st < b_size b)
   \<and> unat (s_bytes_avail st) = length (pending st)"

text \<open>
  The same without the requirement that no buffer is empty, which nothing in
  \<^verbatim>\<open>tsmux_stream_add_data\<close> enforces: an empty buffer may be the current one, with nothing consumed.
\<close>

definition stream_ok :: "TsMuxStream \<Rightarrow> bool" where
  "stream_ok st \<longleftrightarrow>
     list_all (\<lambda>b. length (b_data b) = unat (b_size b)) (s_buffers st)
   \<and> (case s_cur_buffer st of None \<Rightarrow> True
      | Some b \<Rightarrow> s_buffers st \<noteq> [] \<and> hd (s_buffers st) = b \<and>
          (s_cur_buffer_consumed st < b_size b \<or> s_cur_buffer_consumed st = 0 \<and> b_size b = 0))
   \<and> unat (s_bytes_avail st) = length (pending st)"

text \<open>A release function that frees the buffer and leaves the stream alone.\<close>

definition quiet_release :: "release_code \<Rightarrow> bool" where
  "quiet_release code \<longleftrightarrow> (\<forall>f b st. code f b st = st)"

text \<open>The fields the copy loop does not touch.\<close>

definition same_setup :: "TsMuxStream \<Rightarrow> TsMuxStream \<Rightarrow> bool" where
  "same_setup st st' \<longleftrightarrow>
     s_pi st' = s_pi st \<and> s_stream_type st' = s_stream_type st \<and> s_id st' = s_id st
   \<and> s_id_extended st' = s_id_extended st \<and> s_is_video_stream st' = s_is_video_stream st
   \<and> s_buffer_release st' = s_buffer_release st \<and> s_pes_payload_size st' = s_pes_payload_size st
   \<and> s_cur_pes_payload_size st' = s_cur_pes_payload_size st
   \<and> s_pes_bytes_written st' = s_pes_bytes_written st \<and> s_pts st' = s_pts st \<and> s_dts st' = s_dts st
   \<and> s_pcr_ref st' = s_pcr_ref st \<and> s_last_pcr st' = s_last_pcr st
   \<and> (s_cur_pes_payload_size st \<noteq> 0 \<longrightarrow> s_state st' = s_state st)"

lemma same_setup_refl [simp]: "same_setup st st"
  by (simp add: same_setup_def)

lemma same_setup_trans: "same_setup a b \<Longrightarrow> same_setup b c \<Longrightarrow> same_setup a c"
  by (auto simp: same_setup_def)

lemma remember_ts_frame [simp]:
  "s_buffers (remember_ts b st) = s_buffers st" "s_cur_buffer (remember_ts b st) = s_cur_buffer st"
  "s_cur_buffer_consumed (remember_ts b st) = s_cur_buffer_consumed st"
  "s_bytes_avail (remember_ts b st) = s_bytes_avail st"
  "s_cur_pes_payload_size (remember_ts b st) = s_cur_pes_payload_size st"
  "s_buffer_release (remember_ts b st) = s_buffer_release st"
  "s_state (remember_ts b st) = s_state st"
  "same_setup st' (remember_ts b st) = same_setup st' st"
  by (auto simp: remember_ts_def same_setup_def)

lemma stream_wf_ok: "stream_wf st \<longleftrightarrow> stream_ok st \<and> list_all (\<lambda>b. b_size b \<noteq> 0) (s_buffers st)"
  by (cases "s_buffers st")
    (auto simp: stream_wf_def stream_ok_def buffer_ok_def list_all_iff split: option.splits)

lemma pending_cur_ok:
  assumes "stream_ok st" and "s_cur_buffer st = Some b"
  obtains bs where "s_buffers st = b # bs" and "length (b_data b) = unat (b_size b)"
    and "s_cur_buffer_consumed st < b_size b \<or> s_cur_buffer_consumed st = 0 \<and> b_size b = 0"
    and "pending st = drop (unat (s_cur_buffer_consumed st)) (b_data b) @ concat (map b_data bs)"
proof (cases "s_buffers st")
  case Nil
  with assms show ?thesis by (simp add: stream_ok_def)
next
  case (Cons c bs)
  with assms have "c = b" and len: "length (b_data b) = unat (b_size b)"
    and lt: "s_cur_buffer_consumed st < b_size b \<or> s_cur_buffer_consumed st = 0 \<and> b_size b = 0"
    by (auto simp: stream_ok_def)
  moreover from lt len have "unat (s_cur_buffer_consumed st) \<le> length (b_data b)"
    by (auto simp: word_less_nat_alt)
  ultimately show ?thesis
    using that [of bs] Cons assms(2) by (simp add: pending_def)
qed

lemma pending_cur:
  assumes "stream_wf st" and "s_cur_buffer st = Some b"
  obtains bs where "s_buffers st = b # bs" and "buffer_ok b" and "list_all buffer_ok bs"
    and "s_cur_buffer_consumed st < b_size b"
    and "pending st = drop (unat (s_cur_buffer_consumed st)) (b_data b) @ concat (map b_data bs)"
proof -
  have ok: "stream_ok st" using assms(1) by (simp add: stream_wf_ok)
  obtain bs where "s_buffers st = b # bs"
    "pending st = drop (unat (s_cur_buffer_consumed st)) (b_data b) @ concat (map b_data bs)"
    using ok assms(2) by (rule pending_cur_ok)
  then show ?thesis using that [of bs] assms by (simp add: stream_wf_def)
qed

lemma start_buffer_ok:
  assumes "stream_ok st" and "start_buffer st = Some (b, st1)"
  shows "stream_ok st1" "pending st1 = pending st" "s_cur_buffer st1 = Some b" "same_setup st st1"
    "s_bytes_avail st1 = s_bytes_avail st" "s_buffers st1 = s_buffers st"
  using assms
  by (auto simp: start_buffer_def stream_ok_def pending_def same_setup_def word_gt_0
      split: option.splits list.splits)

lemma start_buffer_wf:
  assumes "stream_wf st" and "pending st \<noteq> []"
  obtains b st1 where "start_buffer st = Some (b, st1)" and "stream_wf st1" and "pending st1 = pending st"
    and "s_cur_buffer st1 = Some b" and "same_setup st st1" and "s_bytes_avail st1 = s_bytes_avail st"
proof -
  obtain b st1 where sb: "start_buffer st = Some (b, st1)"
    using assms(2) by (cases "s_cur_buffer st"; cases "s_buffers st") (auto simp: start_buffer_def pending_def)
  moreover have "stream_ok st" using assms(1) by (simp add: stream_wf_ok)
  ultimately show ?thesis
    using that [OF sb] start_buffer_ok [OF _ sb] assms(1) by (simp add: stream_wf_ok)
qed

lemma consume_ok:
  assumes wf: "stream_ok st" and cur: "s_cur_buffer st = Some b" and quiet: "quiet_release code"
    and n: "n \<le> b_size b - s_cur_buffer_consumed st"
  obtains st' where "tsmux_stream_consume code st n = Inr st'" and "stream_ok st'"
    and "pending st' = drop (unat n) (pending st)" and "same_setup st st'"
    and "set (s_buffers st') \<subseteq> set (s_buffers st)"
proof -
  obtain bs where bufs: "s_buffers st = b # bs" and len: "length (b_data b) = unat (b_size b)"
    and lt: "s_cur_buffer_consumed st < b_size b \<or> s_cur_buffer_consumed st = 0 \<and> b_size b = 0"
    and pend: "pending st = drop (unat (s_cur_buffer_consumed st)) (b_data b) @ concat (map b_data bs)"
    using wf cur by (rule pending_cur_ok)
  let ?c = "s_cur_buffer_consumed st"
  have le: "unat ?c \<le> unat (b_size b)" using lt by (auto simp: word_less_nat_alt)
  then have un: "unat n \<le> unat (b_size b) - unat ?c"
    using n by (simp add: word_le_nat_alt unat_sub)
  have c': "unat (?c + n) = unat ?c + unat n"
    using un le unat_u32 [of "b_size b"] by (intro unat_plus_simple [THEN iffD1]) (simp add: word_le_nat_alt unat_word_ariths)
  have av: "unat (s_bytes_avail st) = length (pending st)" using wf by (simp add: stream_ok_def)
  have av': "unat (s_bytes_avail st - n) = length (pending st) - unat n"
    using un len av by (subst unat_sub) (auto simp: word_le_nat_alt pend)
  have q: "(case r of None \<Rightarrow> s | Some f \<Rightarrow> code f b s) = s" for r s
    using quiet by (simp add: quiet_release_def split: option.splits)
  let ?st1 = "st\<lparr>s_cur_buffer_consumed := ?c + n, s_bytes_avail := s_bytes_avail st - n\<rparr>"
  let ?st2 = "remember_ts b ?st1"
  consider "?c + n = 0" | "?c + n \<noteq> 0" "?c + n = b_size b" | "?c + n \<noteq> 0" "?c + n \<noteq> b_size b" by blast
  then show ?thesis
  proof cases
    case 1
    then have "?c = 0" "n = 0" using c' by (simp_all add: unat_eq_zero)
    then have "?st1 = st" by simp
    moreover have "tsmux_stream_consume code st n = Inr ?st1"
      using n 1 by (simp add: tsmux_stream_consume_def cur Let_def)
    ultimately show ?thesis using that [of st] wf \<open>n = 0\<close> by simp
  next
    case 2
    define st' where "st' = (let st5 = ?st2\<lparr>s_buffers := bs, s_cur_buffer := None\<rparr>
      in if s_cur_pes_payload_size st = 0 then st5\<lparr>s_state := TSMUX_STREAM_STATE_HEADER\<rparr> else st5)"
    have f: "s_buffers st' = bs" "s_cur_buffer st' = None" "s_bytes_avail st' = s_bytes_avail st - n"
        "same_setup st st'"
      by (simp_all add: st'_def Let_def remember_ts_def same_setup_def)
    have "unat ?c + unat n = length (b_data b)" using 2 c' len by simp
    then have p: "pending st' = drop (unat n) (pending st)" using f cur bufs by (simp add: pending_def add.commute)
    moreover have "tsmux_stream_consume code st n = Inr st'"
      using n 2 by (simp add: tsmux_stream_consume_def cur Let_def q bufs st'_def)
    moreover have "stream_ok st'" using wf bufs av' f p by (simp add: stream_ok_def)
    moreover have "set (s_buffers st') \<subseteq> set (s_buffers st)" using f(1) bufs by auto
    ultimately show ?thesis using f(4) that by blast
  next
    case 3
    have eq: "tsmux_stream_consume code st n = Inr ?st2"
      using n 3 by (simp add: tsmux_stream_consume_def cur Let_def)
    have "unat (?c + n) \<noteq> unat (b_size b)" using 3 by (metis word_unat_eq_iff)
    then have "?c + n < b_size b"
      using c' un le unfolding word_less_nat_alt by linarith
    moreover have "pending ?st2 = drop (unat n) (pending st)"
      using c' cur by (simp add: pending_def add.commute)
    moreover have "same_setup st ?st2" by (simp add: remember_ts_def same_setup_def)
    moreover have "stream_ok ?st2"
      using calculation av' wf cur bufs by (simp add: stream_ok_def)
    ultimately show ?thesis using that [OF eq] by simp
  qed
qed

lemma consume_wf:
  assumes wf: "stream_wf st" and cur: "s_cur_buffer st = Some b" and quiet: "quiet_release code"
    and n: "n \<le> b_size b - s_cur_buffer_consumed st"
  obtains st' where "tsmux_stream_consume code st n = Inr st'" and "stream_wf st'"
    and "pending st' = drop (unat n) (pending st)" and "same_setup st st'"
proof -
  have ok: "stream_ok st" using wf by (simp add: stream_wf_ok)
  obtain st' where "tsmux_stream_consume code st n = Inr st'" "stream_ok st'"
    "pending st' = drop (unat n) (pending st)" "same_setup st st'" "set (s_buffers st') \<subseteq> set (s_buffers st)"
    using ok cur quiet n by (rule consume_ok)
  then show ?thesis using that wf by (auto simp: stream_wf_ok list_all_iff)
qed

text \<open>With bytes queued, one iteration copies a non-empty run of the oldest ones.\<close>

lemma get_data_loop_step:
  assumes quiet: "quiet_release code" and wf: "stream_wf st" and "len \<noteq> 0" and "pending st \<noteq> []"
  obtains n st2 where "n \<noteq> 0" and "n \<le> len" and "unat n \<le> length (pending st)"
    and "stream_wf st2" and "same_setup st st2"
    and "pending st2 = drop (unat n) (pending st)"
    and "\<forall>fuel out. get_data_loop code (Suc fuel) st len out =
           get_data_loop code fuel st2 (len - n) (out @ take (unat n) (pending st))"
proof -
  obtain b st1 where sb: "start_buffer st = Some (b, st1)" and wf1: "stream_wf st1"
    and p1: "pending st1 = pending st" and cur: "s_cur_buffer st1 = Some b" and same1: "same_setup st st1"
    using wf assms(4) by (rule start_buffer_wf)
  define avail where "avail = b_size b - s_cur_buffer_consumed st1"
  define n where "n = (if avail < len then avail else len)"
  obtain bs where "s_buffers st1 = b # bs" and ok: "buffer_ok b" and "list_all buffer_ok bs"
    and lt: "s_cur_buffer_consumed st1 < b_size b"
    and pend: "pending st1 = drop (unat (s_cur_buffer_consumed st1)) (b_data b) @ concat (map b_data bs)"
    using wf1 cur by (rule pending_cur)
  have ua: "unat avail = unat (b_size b) - unat (s_cur_buffer_consumed st1)"
    using lt by (simp add: avail_def unat_sub word_less_nat_alt word_le_nat_alt)
  have n: "n \<noteq> 0" "n \<le> avail" "n \<le> len"
    using assms(3) lt ua by (auto simp: n_def word_less_nat_alt word_le_nat_alt unat_eq_zero)
  obtain st2 where cons: "tsmux_stream_consume code st1 n = Inr st2" and wf2: "stream_wf st2"
    and p2: "pending st2 = drop (unat n) (pending st1)" and same2: "same_setup st1 st2"
    using wf1 cur quiet n(2) [unfolded avail_def] by (rule consume_wf)
  have "length (b_data b) = unat (b_size b)" using ok by (simp add: buffer_ok_def)
  moreover have "unat n \<le> unat avail" using n(2) by (simp add: word_le_nat_alt)
  ultimately have ld: "load (b_data b) (unat (s_cur_buffer_consumed st1)) (unat n) = Inr (take (unat n) (pending st))"
    using ua lt unfolding p1 [symmetric] pend by (simp add: load_def word_less_nat_alt)
  have np: "unat n \<le> length (pending st)" using load_length [OF ld] by simp
  show ?thesis
  proof (rule that [OF n(1,3) np wf2 same_setup_trans [OF same1 same2]])
    show "pending st2 = drop (unat n) (pending st)" using p1 p2 by simp
    show "\<forall>fuel out. get_data_loop code (Suc fuel) st len out =
        get_data_loop code fuel st2 (len - n) (out @ take (unat n) (pending st))"
      using assms(3)
      unfolding get_data_loop.simps(2) sb option.case prod.case Let_def avail_def [symmetric]
        n_def [symmetric] ld cons bindR_simps
      by simp
  qed
qed

text \<open>With enough bytes queued the loop copies exactly the oldest ones.\<close>

lemma get_data_loop_fifo:
  assumes "quiet_release code"
  shows "stream_wf st \<Longrightarrow> unat len \<le> fuel \<Longrightarrow> unat len \<le> length (pending st) \<Longrightarrow>
    \<exists>st'. get_data_loop code fuel st len out = Inr (True, st', out @ take (unat len) (pending st))
        \<and> stream_wf st' \<and> pending st' = drop (unat len) (pending st) \<and> same_setup st st'"
proof (induction fuel arbitrary: st len out)
  case 0
  then have "len = 0" by (simp add: unat_eq_zero)
  with 0 show ?case by simp
next
  case (Suc fuel)
  show ?case
  proof (cases "len = 0")
    case True
    with Suc.prems show ?thesis by simp
  next
    case False
    then have "pending st \<noteq> []" using Suc.prems(3) by (auto simp: unat_eq_zero)
    with assms Suc.prems(1) False obtain n st2 where n: "n \<noteq> 0" "n \<le> len"
      and "unat n \<le> length (pending st)" and wf2: "stream_wf st2" and same: "same_setup st st2" and p2: "pending st2 = drop (unat n) (pending st)"
      and step: "\<forall>fuel out. get_data_loop code (Suc fuel) st len out =
           get_data_loop code fuel st2 (len - n) (out @ take (unat n) (pending st))"
      by (rule get_data_loop_step)
    have un: "unat n \<le> unat len" "0 < unat n" "unat (len - n) = unat len - unat n"
      using n by (auto simp: word_le_nat_alt unat_sub unat_gt_0)
    have enough: "unat (len - n) \<le> fuel" "unat (len - n) \<le> length (pending st2)"
      using Suc.prems(2,3) un p2 by simp_all
    obtain st' where IH: "get_data_loop code fuel st2 (len - n) (out @ take (unat n) (pending st))
          = Inr (True, st', (out @ take (unat n) (pending st)) @ take (unat (len - n)) (pending st2))"
      and wf': "stream_wf st'" "pending st' = drop (unat (len - n)) (pending st2)" "same_setup st2 st'"
      using Suc.IH [OF wf2 enough] by blast
    have "take (unat n) (pending st) @ take (unat (len - n)) (pending st2) = take (unat len) (pending st)"
      using un p2 by (metis le_add_diff_inverse take_add)
    moreover have "pending st' = drop (unat len) (pending st)"
      using wf'(2) un p2 by simp
    ultimately show ?thesis
      using IH wf' same_setup_trans [OF same] by (simp add: step del: get_data_loop.simps)
  qed
qed

text \<open>A loop that ends with success has copied the oldest bytes, empty buffers or not.\<close>

lemma get_data_loop_success:
  assumes "quiet_release code"
  shows "stream_ok st \<Longrightarrow> get_data_loop code fuel st len out = Inr (True, st', out') \<Longrightarrow>
    unat len \<le> length (pending st) \<and> out' = out @ take (unat len) (pending st)
      \<and> pending st' = drop (unat len) (pending st) \<and> stream_ok st'"
proof (induction fuel arbitrary: st len out)
  case 0
  then show ?case by (auto split: if_splits)
next
  case (Suc fuel)
  show ?case
  proof (cases "len = 0")
    case True
    with Suc.prems show ?thesis by simp
  next
    case False
    then obtain b st1 where sb: "start_buffer st = Some (b, st1)"
      using Suc.prems(2) by (auto split: option.splits)
    note ok1 = start_buffer_ok [OF Suc.prems(1) sb]
    define avail where "avail = b_size b - s_cur_buffer_consumed st1"
    define n where "n = (if avail < len then avail else len)"
    have n: "n \<le> b_size b - s_cur_buffer_consumed st1" "n \<le> len" by (auto simp: n_def avail_def)
    obtain bs where "s_buffers st1 = b # bs" and len: "length (b_data b) = unat (b_size b)"
      and lt: "s_cur_buffer_consumed st1 < b_size b \<or> s_cur_buffer_consumed st1 = 0 \<and> b_size b = 0"
      and pend: "pending st1 = drop (unat (s_cur_buffer_consumed st1)) (b_data b) @ concat (map b_data bs)"
      using ok1(1,3) by (rule pending_cur_ok)
    have le: "s_cur_buffer_consumed st1 \<le> b_size b" using lt by auto
    have room: "unat (s_cur_buffer_consumed st1) + unat n \<le> length (b_data b)"
      using n(1) le len by (simp add: word_le_nat_alt unat_sub)
    then have ld: "load (b_data b) (unat (s_cur_buffer_consumed st1)) (unat n) = Inr (take (unat n) (pending st))"
      unfolding ok1(2) [symmetric] pend by (simp add: load_def)
    have np: "unat n \<le> length (pending st)" using load_length [OF ld] by simp
    obtain st2 where cons: "tsmux_stream_consume code st1 n = Inr st2" and ok2: "stream_ok st2"
      and p2: "pending st2 = drop (unat n) (pending st1)"
      using ok1(1,3) assms n(1) by (rule consume_ok)
    have "get_data_loop code fuel st2 (len - n) (out @ take (unat n) (pending st)) = Inr (True, st', out')"
      using Suc.prems(2) False
      unfolding get_data_loop.simps(2) sb option.case prod.case Let_def avail_def [symmetric]
        n_def [symmetric] ld cons bindR_simps by simp
    from Suc.IH [OF ok2 this] have IH: "unat (len - n) \<le> length (pending st2)"
      "out' = (out @ take (unat n) (pending st)) @ take (unat (len - n)) (pending st2)"
      "pending st' = drop (unat (len - n)) (pending st2)" "stream_ok st'" by simp_all
    have un: "unat n \<le> unat len" "unat (len - n) = unat len - unat n"
      using n(2) by (auto simp: word_le_nat_alt unat_sub)
    have "take (unat n) (pending st) @ take (unat (len - n)) (pending st2) = take (unat len) (pending st)"
      using un p2 ok1(2) by (metis le_add_diff_inverse take_add)
    then show ?thesis using IH un np p2 ok1(2) by simp
  qed
qed

text \<open>A buffer of size zero at the head of the queue is never removed.\<close>

lemma get_data_loop_stuck:
  assumes "s_cur_buffer st = Some b" and "s_cur_buffer_consumed st = 0" and "b_size b = 0" and "len \<noteq> 0"
  shows "get_data_loop code fuel st len out = Inl Diverges"
  using assms(1,2)
proof (induction fuel arbitrary: st out)
  case 0
  then show ?case using assms by simp
next
  case (Suc fuel)
  let ?st2 = "st\<lparr>s_cur_buffer_consumed := 0, s_bytes_avail := s_bytes_avail st - 0\<rparr>"
  have "tsmux_stream_consume code st 0 = Inr ?st2"
    using Suc.prems by (simp add: tsmux_stream_consume_def Let_def)
  moreover have "0 < len" using assms(4) by (simp add: word_neq_0_conv)
  ultimately show ?case
    using Suc.IH [of ?st2] Suc.prems assms(3)
    by (simp add: start_buffer_def load_def)
qed

lemma stream_add_ok:
  assumes "stream_ok st" and "length data = unat len" and "length (pending st) + unat len < 2 ^ 32"
  shows "stream_ok (tsmux_stream_add_data st data len ud pts dts)"
    and "pending (tsmux_stream_add_data st data len ud pts dts) = pending st @ data"
proof -
  let ?st' = "tsmux_stream_add_data st data len ud pts dts"
  have f: "s_buffers ?st' = s_buffers st @ [\<lparr>b_data = data, b_size = len, b_pts = pts, b_dts = dts, b_user_data = ud\<rparr>]"
    "s_cur_buffer ?st' = s_cur_buffer st" "s_cur_buffer_consumed ?st' = s_cur_buffer_consumed st"
    "s_bytes_avail ?st' = s_bytes_avail st + len"
    by (simp_all add: tsmux_stream_add_data_def Let_def)
  show p: "pending ?st' = pending st @ data"
  proof (cases "s_cur_buffer st")
    case None
    then show ?thesis by (simp add: pending_def f)
  next
    case (Some b)
    with assms(1) obtain bs where "s_buffers st = b # bs" "length (b_data b) = unat (b_size b)"
      "s_cur_buffer_consumed st < b_size b \<or> s_cur_buffer_consumed st = 0 \<and> b_size b = 0"
      "pending st = drop (unat (s_cur_buffer_consumed st)) (b_data b) @ concat (map b_data bs)"
      by (rule pending_cur_ok)
    then show ?thesis
      using Some by (auto simp: pending_def f word_less_nat_alt)
  qed
  have "unat (s_bytes_avail st + len) = length (pending st) + unat len"
    using assms(1,3) by (simp add: stream_ok_def unat_word_ariths)
  then show "stream_ok ?st'"
    using assms(1,2) p by (auto simp: stream_ok_def f split: option.splits)
qed

lemma add_data_wf:
  assumes "stream_wf st" and "len \<noteq> 0" and "length data = unat len"
    and "length (pending st) + unat len < 2 ^ 32"
  shows "stream_wf (tsmux_stream_add_data st data len ud pts dts)"
    and "pending (tsmux_stream_add_data st data len ud pts dts) = pending st @ data"
  using stream_add_ok [of st data len ud pts dts] assms
  by (simp_all add: stream_wf_ok) (simp add: tsmux_stream_add_data_def Let_def)

text \<open>
  Any interleaving of submissions and copies hands out the submitted bytes in order: the stream
  implements a bounded byte queue. The queue's contract is a locale, the client lemma is about runs.
  A submission is a value with the bytes it carries, a pull asks for a number of bytes.
\<close>

datatype ('x, 'n) queue_op = Push 'x | Pull 'n

fun pushed :: "('x \<Rightarrow> 'b list) \<Rightarrow> ('x, 'n) queue_op list \<Rightarrow> 'b list" where
  "pushed payload [] = []"
| "pushed payload (Push x # ops) = payload x @ pushed payload ops"
| "pushed payload (Pull n # ops) = pushed payload ops"

fun run_queue :: "('x \<Rightarrow> 's \<Rightarrow> 's) \<Rightarrow> ('n \<Rightarrow> 's \<Rightarrow> ('b list \<times> 's) option) \<Rightarrow>
    ('x, 'n) queue_op list \<Rightarrow> 's \<Rightarrow> ('b list \<times> 's) option" where
  "run_queue push pull [] s = Some ([], s)"
| "run_queue push pull (Push x # ops) s = run_queue push pull ops (push x s)"
| "run_queue push pull (Pull n # ops) s =
     (case pull n s of None \<Rightarrow> None
      | Some (xs, s') \<Rightarrow> (case run_queue push pull ops s' of None \<Rightarrow> None
          | Some (ys, s'') \<Rightarrow> Some (xs @ ys, s'')))"

locale byte_queue =
  fixes view :: "'s \<Rightarrow> 'b list" and inv :: "'s \<Rightarrow> bool" and cap :: nat
    and payload :: "'x \<Rightarrow> 'b list" and sound :: "'x \<Rightarrow> bool"
    and push :: "'x \<Rightarrow> 's \<Rightarrow> 's" and pull :: "'n \<Rightarrow> 's \<Rightarrow> ('b list \<times> 's) option"
  assumes push_view: "inv s \<Longrightarrow> sound x \<Longrightarrow> length (view s) + length (payload x) < cap \<Longrightarrow>
      inv (push x s) \<and> view (push x s) = view s @ payload x"
    and pull_view: "inv s \<Longrightarrow> pull n s = Some (xs, s') \<Longrightarrow> inv s' \<and> view s = xs @ view s'"
begin

lemma run_fifo:
  "inv s \<Longrightarrow> (\<forall>x. Push x \<in> set ops \<longrightarrow> sound x) \<Longrightarrow> length (view s) + length (pushed payload ops) < cap \<Longrightarrow>
   run_queue push pull ops s = Some (out, s') \<Longrightarrow>
   inv s' \<and> out @ view s' = view s @ pushed payload ops"
proof (induction ops arbitrary: s out)
  case (Cons op ops)
  show ?case
  proof (cases op)
    case (Push x)
    have "inv (push x s) \<and> view (push x s) = view s @ payload x" using Cons.prems(1-3) Push by (intro push_view) auto
    then show ?thesis using Cons.IH [of "push x s" out] Cons.prems Push by auto
  next
    case (Pull n)
    then obtain xs s1 ys where r: "pull n s = Some (xs, s1)" "run_queue push pull ops s1 = Some (ys, s')" "out = xs @ ys"
      using Cons.prems(4) by (auto split: option.splits)
    have "inv s1 \<and> view s = xs @ view s1" using Cons.prems(1) r(1) by (rule pull_view)
    then show ?thesis using Cons.IH [of s1 ys] Cons.prems(2,3) r(2,3) Pull by auto
  qed
qed simp

end

text \<open>Asked for more than is queued, the loop gives up; with nothing left it returns false.\<close>

lemma get_data_loop_short:
  assumes "quiet_release code"
  shows "stream_wf st \<Longrightarrow> unat len \<le> fuel \<Longrightarrow> length (pending st) < unat len \<Longrightarrow>
    \<exists>st' out'. get_data_loop code fuel st len out = Inr (False, st', out')"
proof (induction fuel arbitrary: st len out)
  case (Suc fuel)
  then have "len \<noteq> 0" by auto
  show ?case
  proof (cases "pending st = []")
    case True
    have "start_buffer st = None"
    proof (cases "s_cur_buffer st")
      case None
      with True Suc.prems(1) show ?thesis
        by (auto simp: start_buffer_def pending_def stream_wf_def buffer_ok_def unat_eq_zero split: list.splits)
    next
      case (Some b)
      from Suc.prems(1) this obtain bs where "s_buffers st = b # bs" "buffer_ok b" "list_all buffer_ok bs"
        "s_cur_buffer_consumed st < b_size b"
        "pending st = drop (unat (s_cur_buffer_consumed st)) (b_data b) @ concat (map b_data bs)"
        by (rule pending_cur)
      with True show ?thesis by (simp add: buffer_ok_def word_less_nat_alt)
    qed
    with \<open>len \<noteq> 0\<close> show ?thesis by simp
  next
    case False
    from assms Suc.prems(1) \<open>len \<noteq> 0\<close> False obtain n st2 where n: "n \<noteq> 0" "n \<le> len"
      and np: "unat n \<le> length (pending st)" and wf2: "stream_wf st2" and "same_setup st st2" and p2: "pending st2 = drop (unat n) (pending st)"
      and step: "\<forall>fuel out. get_data_loop code (Suc fuel) st len out =
           get_data_loop code fuel st2 (len - n) (out @ take (unat n) (pending st))"
      by (rule get_data_loop_step)
    have un: "unat n \<le> unat len" "0 < unat n" "unat (len - n) = unat len - unat n"
      using n by (auto simp: word_le_nat_alt unat_sub unat_gt_0)
    then have "unat (len - n) \<le> fuel" and "length (pending st2) < unat (len - n)"
      using Suc.prems(2,3) p2 np by simp_all
    with Suc.IH [OF wf2] show ?thesis unfolding step [rule_format] by blast
  qed
qed simp

subsection \<open>What one call hands out\<close>

text \<open>Only the queue's own fields decide what is pending.\<close>

lemma pending_cong:
  assumes "s_buffers st' = s_buffers st" "s_cur_buffer st' = s_cur_buffer st"
    "s_cur_buffer_consumed st' = s_cur_buffer_consumed st" "s_bytes_avail st' = s_bytes_avail st"
  shows "pending st' = pending st" "stream_wf st' = stream_wf st" "stream_ok st' = stream_ok st"
  using assms by (simp_all add: pending_def stream_wf_def stream_ok_def split: option.splits)

lemma start_pes_queue [simp]:
  "s_buffers (start_pes st) = s_buffers st" "s_cur_buffer (start_pes st) = s_cur_buffer st"
  "s_cur_buffer_consumed (start_pes st) = s_cur_buffer_consumed st"
  "s_bytes_avail (start_pes st) = s_bytes_avail st"
  by (simp_all add: start_pes_def Let_def split: prod.splits)

lemma pes_header_length_bound: "unat (tsmux_stream_pes_header_length st) \<le> 22"
  by (simp add: tsmux_stream_pes_header_length_def Let_def)

lemma write_pes_header_length:
  "length (tsmux_stream_write_pes_header st) = unat (tsmux_stream_pes_header_length st)"
  by (simp add: tsmux_stream_write_pes_header_def tsmux_stream_pes_header_length_def Let_def)

definition pes_prefix :: "TsMuxStream \<Rightarrow> bytes" where
  "pes_prefix st =
     (if tsmux_stream_at_pes_start st then tsmux_stream_write_pes_header (start_pes st) else [])"

lemma get_data_enters_loop:
  assumes "tsmux_stream_get_data code st len = Inr (True, st', out)"
  obtains st4 len' where "get_data_loop code (unat len') st4 len' (pes_prefix st) = Inr (True, st', out)"
    and "s_buffers st4 = s_buffers st" and "s_cur_buffer st4 = s_cur_buffer st"
    and "s_cur_buffer_consumed st4 = s_cur_buffer_consumed st" and "s_bytes_avail st4 = s_bytes_avail st"
    and "unat len' + length (pes_prefix st) = unat len"
proof (cases "s_state st = TSMUX_STREAM_STATE_HEADER")
  case False
  with assms that show ?thesis
    by (auto simp: tsmux_stream_get_data_def Let_def pes_prefix_def tsmux_stream_at_pes_start_def split: if_splits)
next
  case True
  let ?h = "tsmux_stream_pes_header_length (start_pes st)"
  have "\<not> len < ucast ?h"
    using assms True by (auto simp: tsmux_stream_get_data_def Let_def)
  then have "unat (ucast ?h :: u32) \<le> unat len" by (simp add: word_less_nat_alt)
  then have "unat (len - ucast ?h) + unat ?h = unat len"
    by (subst unat_sub) (simp_all add: word_le_nat_alt)
  with assms True that show ?thesis
    by (auto simp: tsmux_stream_get_data_def Let_def pes_prefix_def tsmux_stream_at_pes_start_def
        write_pes_header_length split: if_splits)
qed

lemma get_data_success:
  assumes wf: "stream_wf st" and quiet: "quiet_release code"
    and ret: "tsmux_stream_get_data code st len = Inr (True, st', out)"
  shows "\<exists>n. n + length (pes_prefix st) = unat len \<and> n \<le> length (pending st)
           \<and> out = pes_prefix st @ take n (pending st)
           \<and> pending st' = drop n (pending st) \<and> stream_wf st'"
proof -
  obtain st4 len' where loop: "get_data_loop code (unat len') st4 len' (pes_prefix st) = Inr (True, st', out)"
    and q: "s_buffers st4 = s_buffers st" "s_cur_buffer st4 = s_cur_buffer st"
      "s_cur_buffer_consumed st4 = s_cur_buffer_consumed st" "s_bytes_avail st4 = s_bytes_avail st"
    and n: "unat len' + length (pes_prefix st) = unat len"
    using ret by (rule get_data_enters_loop)
  have p4: "pending st4 = pending st" and wf4: "stream_wf st4"
    using pending_cong [OF q] wf by simp_all
  show ?thesis
  proof (cases "unat len' \<le> length (pending st)")
    case True
    with get_data_loop_fifo [OF quiet wf4 order_refl, of len' "pes_prefix st"] p4 loop n
    show ?thesis by (intro exI [of _ "unat len'"]) auto
  next
    case False
    then have "length (pending st4) < unat len'" using p4 by simp
    with get_data_loop_short [OF quiet wf4 order_refl, of len' "pes_prefix st"] loop
    show ?thesis by auto
  qed
qed

lemma get_data_success_ok:
  assumes ok: "stream_ok st" and quiet: "quiet_release code"
    and ret: "tsmux_stream_get_data code st len = Inr (True, st', out)"
  shows "\<exists>n. out = pes_prefix st @ take n (pending st) \<and> pending st' = drop n (pending st) \<and> stream_ok st'"
proof -
  obtain st4 len' where loop: "get_data_loop code (unat len') st4 len' (pes_prefix st) = Inr (True, st', out)"
    and q: "s_buffers st4 = s_buffers st" "s_cur_buffer st4 = s_cur_buffer st"
      "s_cur_buffer_consumed st4 = s_cur_buffer_consumed st" "s_bytes_avail st4 = s_bytes_avail st"
    using ret by (rule get_data_enters_loop)
  have p4: "pending st4 = pending st" and ok4: "stream_ok st4" using pending_cong [OF q] ok by simp_all
  show ?thesis using get_data_loop_success [OF quiet ok4 loop] p4 by auto
qed

text \<open>The state in which the call counts the bytes it may hand out after the header.\<close>

definition pes_entered :: "TsMuxStream \<Rightarrow> TsMuxStream" where
  "pes_entered st =
     (if tsmux_stream_at_pes_start st
      then (start_pes st)\<lparr>s_state := TSMUX_STREAM_STATE_PACKET\<rparr> else st)"

lemma pes_entered_queue [simp]:
  "s_buffers (pes_entered st) = s_buffers st" "s_cur_buffer (pes_entered st) = s_cur_buffer st"
  "s_cur_buffer_consumed (pes_entered st) = s_cur_buffer_consumed st"
  "s_bytes_avail (pes_entered st) = s_bytes_avail st"
  by (simp_all add: pes_entered_def)

text \<open>In mid packet the count never exceeds what is queued.\<close>

lemma bytes_avail_entered:
  assumes "stream_wf st" and "length (pending st) < 2 ^ 31"
  shows "tsmux_stream_bytes_avail (pes_entered st) \<le> int (length (pending st))"
proof -
  have "sint (s_bytes_avail st) = int (length (pending st))"
    using assms by (simp add: stream_wf_def sint_u32_small)
  moreover have "s_state (pes_entered st) \<noteq> TSMUX_STREAM_STATE_HEADER"
    by (auto simp: pes_entered_def tsmux_stream_at_pes_start_def)
  ultimately show ?thesis
    by (simp add: tsmux_stream_bytes_avail_def Let_def tsmux_stream_bytes_in_buffer_def)
qed

lemma get_data_unfold:
  assumes "length (pes_prefix st) \<le> unat len"
  obtains st4 where "s_buffers st4 = s_buffers st" and "s_cur_buffer st4 = s_cur_buffer st"
    and "s_cur_buffer_consumed st4 = s_cur_buffer_consumed st" and "s_bytes_avail st4 = s_bytes_avail st"
    and "tsmux_stream_get_data code st len =
      (let len' = len - of_nat (length (pes_prefix st))
       in if word_of_int (tsmux_stream_bytes_avail (pes_entered st)) < len'
          then Inr (False, pes_entered st, pes_prefix st)
          else get_data_loop code (unat len') st4 len' (pes_prefix st))"
proof -
  let ?h = "tsmux_stream_pes_header_length (start_pes st)"
  let ?len = "len - of_nat (length (pes_prefix st))"
  define st3 where "st3 = (pes_entered st)\<lparr>s_pes_bytes_written := s_pes_bytes_written (pes_entered st) + ucast ?len\<rparr>"
  define st4 where "st4 = (if s_cur_pes_payload_size st3 \<noteq> 0 \<and> s_pes_bytes_written st3 = s_cur_pes_payload_size st3
      then st3\<lparr>s_state := TSMUX_STREAM_STATE_HEADER, s_pes_bytes_written := 0\<rparr> else st3)"
  have st4: "s_buffers st4 = s_buffers st" "s_cur_buffer st4 = s_cur_buffer st"
    "s_cur_buffer_consumed st4 = s_cur_buffer_consumed st" "s_bytes_avail st4 = s_bytes_avail st"
    by (simp_all add: st4_def st3_def)
  have h: "(of_nat (unat ?h) :: u32) = ucast ?h"
    using unat_u8 [of ?h] by (simp add: word_unat_eq_iff)
  show ?thesis
  proof (rule that [OF st4])
    show "tsmux_stream_get_data code st len =
      (let len' = len - of_nat (length (pes_prefix st))
       in if word_of_int (tsmux_stream_bytes_avail (pes_entered st)) < len'
          then Inr (False, pes_entered st, pes_prefix st)
          else get_data_loop code (unat len') st4 len' (pes_prefix st))"
    proof (cases "tsmux_stream_at_pes_start st")
      case True
      then have "\<not> len < ucast ?h"
        using assms by (simp add: pes_prefix_def write_pes_header_length word_less_nat_alt)
      with True show ?thesis
        by (simp add: tsmux_stream_get_data_def Let_def st4_def st3_def pes_entered_def pes_prefix_def
            tsmux_stream_at_pes_start_def write_pes_header_length h)
    next
      case False
      then show ?thesis
        by (simp add: tsmux_stream_get_data_def Let_def st4_def st3_def pes_entered_def pes_prefix_def
            tsmux_stream_at_pes_start_def)
    qed
  qed
qed

lemma get_data_total:
  assumes wf: "stream_wf st" and quiet: "quiet_release code" and small: "length (pending st) < 2 ^ 31"
    and hdr: "length (pes_prefix st) \<le> unat len"
    and fit: "int (unat len - length (pes_prefix st)) \<le> tsmux_stream_bytes_avail (pes_entered st)"
  shows "\<exists>st'. tsmux_stream_get_data code st len =
      Inr (True, st', pes_prefix st @ take (unat len - length (pes_prefix st)) (pending st))"
proof -
  define len' where "len' = len - of_nat (length (pes_prefix st))"
  have "unat (of_nat (length (pes_prefix st)) :: u32) = length (pes_prefix st)"
    using hdr unat_u32 [of len] by simp
  then have len': "unat len' = unat len - length (pes_prefix st)"
    using hdr by (simp add: len'_def unat_sub word_le_nat_alt)
  obtain st4 where q: "s_buffers st4 = s_buffers st" "s_cur_buffer st4 = s_cur_buffer st"
      "s_cur_buffer_consumed st4 = s_cur_buffer_consumed st" "s_bytes_avail st4 = s_bytes_avail st"
    and eq: "tsmux_stream_get_data code st len =
      (let len' = len - of_nat (length (pes_prefix st))
       in if word_of_int (tsmux_stream_bytes_avail (pes_entered st)) < len'
          then Inr (False, pes_entered st, pes_prefix st)
          else get_data_loop code (unat len') st4 len' (pes_prefix st))"
    using hdr by (rule get_data_unfold)
  have p4: "pending st4 = pending st" and wf4: "stream_wf st4"
    using pending_cong [OF q] wf by simp_all
  note le = bytes_avail_entered [OF wf small]
  have "unat len' \<le> length (pending st4)" using fit le len' p4 by simp
  from get_data_loop_fifo [OF quiet wf4 order_refl this, of "pes_prefix st"] obtain st'
    where "get_data_loop code (unat len') st4 len' (pes_prefix st) =
      Inr (True, st', pes_prefix st @ take (unat len') (pending st4))" by blast
  moreover have "\<not> word_of_int (tsmux_stream_bytes_avail (pes_entered st)) < len'"
  proof -
    define k where "k = nat (tsmux_stream_bytes_avail (pes_entered st))"
    have k: "tsmux_stream_bytes_avail (pes_entered st) = int k" using fit by (simp add: k_def)
    have "unat len' \<le> k" "k < 2 ^ 32" using fit le small len' k by simp_all
    then show ?thesis by (simp add: k word_less_nat_alt)
  qed
  ultimately show ?thesis
    unfolding eq Let_def len'_def [symmetric] by (simp add: p4 len')
qed

subsection \<open>The queue interface\<close>

text \<open>
  One submission is a call of \<^verbatim>\<open>tsmux_stream_add_data\<close> with all its arguments, collected in the
  buffer they describe: any data, empty or not, with any time stamps and user data. \<^verbatim>\<open>len\<close> is
  the length of \<^verbatim>\<open>data\<close> (\<open>sized_buffer\<close>). One read is a call whose PES header is stripped from what it
  handed out. The state is the stream together with the client's release code.
\<close>

definition sized_buffer :: "TsMuxStreamBuffer \<Rightarrow> bool" where
  "sized_buffer b \<longleftrightarrow> length (b_data b) = unat (b_size b)"

definition stream_push :: "TsMuxStreamBuffer \<Rightarrow> release_code \<times> TsMuxStream \<Rightarrow> release_code \<times> TsMuxStream" where
  "stream_push b cs =
     (fst cs, tsmux_stream_add_data (snd cs) (b_data b) (b_size b) (b_user_data b) (b_pts b) (b_dts b))"

definition stream_pull :: "u32 \<Rightarrow> release_code \<times> TsMuxStream \<Rightarrow> (bytes \<times> release_code \<times> TsMuxStream) option" where
  "stream_pull len cs =
     (case tsmux_stream_get_data (fst cs) (snd cs) len of
        Inl _ \<Rightarrow> None
      | Inr (ok, st', out) \<Rightarrow>
          if ok then Some (drop (length (pes_prefix (snd cs))) out, fst cs, st') else None)"

interpretation stream_queue: byte_queue "\<lambda>cs. pending (snd cs)"
    "\<lambda>cs. quiet_release (fst cs) \<and> stream_ok (snd cs)" "2 ^ 32" b_data sized_buffer stream_push stream_pull
proof unfold_locales
  fix cs b
  assume "quiet_release (fst cs) \<and> stream_ok (snd cs)" "sized_buffer b"
    and "length (pending (snd cs)) + length (b_data b) < 2 ^ 32"
  then show "(quiet_release (fst (stream_push b cs)) \<and> stream_ok (snd (stream_push b cs))) \<and>
      pending (snd (stream_push b cs)) = pending (snd cs) @ b_data b"
    by (simp add: stream_push_def sized_buffer_def stream_add_ok)
next
  fix cs n xs cs'
  assume inv: "quiet_release (fst cs) \<and> stream_ok (snd cs)" and "stream_pull n cs = Some (xs, cs')"
  then obtain st' out where g: "tsmux_stream_get_data (fst cs) (snd cs) n = Inr (True, st', out)"
    and cs': "cs' = (fst cs, st')" "xs = drop (length (pes_prefix (snd cs))) out"
    by (auto simp: stream_pull_def split: sum.splits if_splits)
  from get_data_success_ok [OF _ _ g] inv obtain m where "out = pes_prefix (snd cs) @ take m (pending (snd cs))"
    "pending st' = drop m (pending (snd cs))" "stream_ok st'" by blast
  then show "(quiet_release (fst cs') \<and> stream_ok (snd cs')) \<and> pending (snd cs) = xs @ pending (snd cs')"
    using inv cs' by simp
qed

section \<open>PES header layout\<close>

record pes_info =
  ps_id :: u8
  ps_length :: u16
  ps_pts :: "u64 option"
  ps_dts :: "u64 option"
  ps_ext_id :: "u8 option"

text \<open>The optional time stamps, chosen by the two top flag bits, and the rest of the header.\<close>

definition pes_parse_ts :: "u8 \<Rightarrow> bytes \<Rightarrow> (u64 option \<times> u64 option \<times> bytes) option" where
  "pes_parse_ts fl opt =
     (if \<not> bit fl 7 then Some (None, None, opt)
      else case get_ts opt of None \<Rightarrow> None
      | Some ((i, pts), r) \<Rightarrow>
          if \<not> bit fl 6 then (if i = 2 then Some (Some pts, None, r) else None)
          else case get_ts r of None \<Rightarrow> None
            | Some ((j, dts), r') \<Rightarrow> if i = 3 \<and> j = 1 then Some (Some pts, Some dts, r') else None)"

definition pes_parse_ext :: "u8 \<Rightarrow> bytes \<Rightarrow> u8 option option" where
  "pes_parse_ext fl r =
     (if \<not> bit fl 0 then (if r = [] then Some None else None)
      else case r of [f, l, e] \<Rightarrow> if f = 0x0f \<and> l = 0x81 \<and> bit e 7 then Some (Some (take_bit 7 e)) else None
        | _ \<Rightarrow> None)"

fun pes_parse :: "bytes \<Rightarrow> (pes_info \<times> bytes) option" where
  "pes_parse (a # b # c # sid # l1 # l2 # m # fl # hl # rest) =
     (if (a, b, c, m) \<noteq> (0, 0, 1, 0x81) \<or> length rest < unat hl then None
      else case pes_parse_ts fl (take (unat hl) rest) of None \<Rightarrow> None
      | Some (pts, dts, r) \<Rightarrow>
          (case pes_parse_ext fl r of None \<Rightarrow> None
           | Some ext \<Rightarrow> Some (\<lparr>ps_id = sid, ps_length = push_bit 8 (ucast l1) OR ucast l2,
               ps_pts = pts, ps_dts = dts, ps_ext_id = ext\<rparr>, drop (unat hl) rest)))"
| "pes_parse _ = None"

text \<open>What the header of a stream is meant to say.\<close>

definition pes_meaning :: "TsMuxStream \<Rightarrow> pes_info" where
  "pes_meaning st =
     (let f = pi_flags (s_pi st);
          both = has_flag f TSMUX_PACKET_FLAG_PES_WRITE_PTS_DTS;
          single = has_flag f TSMUX_PACKET_FLAG_PES_WRITE_PTS
      in \<lparr>ps_id = s_id st,
          ps_length = (if s_cur_pes_payload_size st = 0 then 0
             else ucast (tsmux_stream_pes_header_length st) + s_cur_pes_payload_size st - 6),
          ps_pts = (if both \<or> single then Some (take_bit 33 (s_pts st)) else None),
          ps_dts = (if both then Some (take_bit 33 (s_dts st)) else None),
          ps_ext_id = (if has_flag f TSMUX_PACKET_FLAG_PES_EXT_STREAMID
             then Some (take_bit 7 (s_id_extended st)) else None)\<rparr>)"

lemma put16_join: "push_bit 8 (ucast (ucast (drop_bit 8 v) :: u8)) OR ucast (ucast v :: u8) = (v :: u16)"
  by (simp add: bit_blast_simps)

lemma get_ts_put_ts_nil [simp]: "i < 16 \<Longrightarrow> get_ts (tsmux_put_ts i ts) = Some ((i, take_bit 33 ts), [])"
  using get_ts_put_ts [of i ts "[]"] by simp

lemma ext_id_byte: "bit (0x80 OR x :: u8) 7" "take_bit 7 (0x80 OR x :: u8) = take_bit 7 x"
  by (simp_all add: bit_blast_simps)

lemma pes_parse_header:
  assumes "has_flag (pi_flags (s_pi st)) TSMUX_PACKET_FLAG_PES_FULL_HEADER"
  shows "pes_parse (tsmux_stream_write_pes_header st @ payload) = Some (pes_meaning st, payload)"
  using assms
  by (simp add: tsmux_stream_write_pes_header_def tsmux_stream_pes_header_length_def pes_meaning_def
      pes_parse_ts_def pes_parse_ext_def Let_def tsmux_put16_def byte_simps put16_join ext_id_byte)

section \<open>Properties\<close>

lemma stream_new_wf: "stream_wf (tsmux_stream_new pid ty)" "pending (tsmux_stream_new pid ty) = []"
  by (auto simp: tsmux_stream_new_def stream0_def Let_def stream_wf_def pending_def)

text \<open>
  C2. From a new stream, any sequence of submissions (with any time stamps and user data, empty
  buffers included, less than 4 GiB in all) and successful reads hands out exactly the submitted
  bytes, in order, without loss or duplication; what was not handed out is queued, and the
  stream's byte counter is its length. The client's release function leaves the stream alone.
\<close>

theorem stream_fifo:
  assumes "quiet_release code" and "\<forall>b. Push b \<in> set ops \<longrightarrow> length (b_data b) = unat (b_size b)"
    and "length (pushed b_data ops) < 2 ^ 32"
    and "run_queue stream_push stream_pull ops (code, tsmux_stream_new pid ty) = Some (out, code', st')"
  shows "out @ pending st' = pushed b_data ops
    \<and> unat (s_bytes_avail st') = length (pushed b_data ops) - length out"
proof -
  have new: "stream_ok (tsmux_stream_new pid ty)" "pending (tsmux_stream_new pid ty) = []"
    using stream_new_wf by (simp_all add: stream_wf_ok)
  have "(quiet_release code' \<and> stream_ok st') \<and> out @ pending st' = pending (tsmux_stream_new pid ty) @ pushed b_data ops"
    using stream_queue.run_fifo [OF _ _ _ assms(4)] assms(1-3) new by (simp add: sized_buffer_def)
  then have "stream_ok st'" and eq: "out @ pending st' = pushed b_data ops" using new by simp_all
  have "length out + length (pending st') = length (pushed b_data ops)" using arg_cong [OF eq, of length] by simp
  then show ?thesis using \<open>stream_ok st'\<close> eq by (simp add: stream_ok_def)
qed

lemmas get_data_loop_numeral =
  get_data_loop.simps(2) [of _ "pred_numeral k" for k, folded numeral_eq_Suc]

lemmas stream_eval = get_data_loop_numeral tsmux_stream_new_def stream0_def packet_info0_def
  tsmux_stream_add_data_def tsmux_stream_get_data_def start_pes_def pes_prefix_def
  tsmux_stream_at_pes_start_def tsmux_stream_pes_header_length_def tsmux_stream_write_pes_header_def
  has_flag_def tsmux_stream_bytes_avail_def tsmux_stream_bytes_in_buffer_def
  start_buffer_def tsmux_stream_consume_def remember_ts_def load_def tsmux_put16_def

lemma stream_fifo_example:
  "\<exists>st. run_queue stream_push stream_pull
       [Push \<lparr>b_data = [1, 2], b_size = 2, b_pts = 9000, b_dts = 6000, b_user_data = 7\<rparr>,
        Push \<lparr>b_data = [3, 4], b_size = 2, b_pts = -1, b_dts = -1, b_user_data = 8\<rparr>, Pull 22,
        Push \<lparr>b_data = [], b_size = 0, b_pts = -1, b_dts = -1, b_user_data = 9\<rparr>]
       (\<lambda>_ _ st. st, tsmux_stream_new 0x40 TSMUX_ST_VIDEO_H264) = Some ([1, 2, 3], \<lambda>_ _ st. st, st)"
  by (simp add: stream_push_def stream_pull_def pending_def stream_eval flag_defs tsmux_put_ts_def)

theorem stream_fifo_witness:
  "\<exists>st. run_queue stream_push stream_pull
       [Push \<lparr>b_data = [1, 2], b_size = 2, b_pts = 9000, b_dts = 6000, b_user_data = 7\<rparr>,
        Push \<lparr>b_data = [3, 4], b_size = 2, b_pts = -1, b_dts = -1, b_user_data = 8\<rparr>, Pull 22,
        Push \<lparr>b_data = [], b_size = 0, b_pts = -1, b_dts = -1, b_user_data = 9\<rparr>]
       (\<lambda>_ _ st. st, tsmux_stream_new 0x40 TSMUX_ST_VIDEO_H264) = Some ([1, 2, 3], \<lambda>_ _ st. st, st)
    \<and> [1, 2, 3] @ pending st = [1, 2, 3, 4] \<and> s_bytes_avail st = 1"
proof -
  have q: "quiet_release (\<lambda>_ _ st. st)" by (simp add: quiet_release_def)
  obtain st where st: "run_queue stream_push stream_pull
       [Push \<lparr>b_data = [1, 2], b_size = 2, b_pts = 9000, b_dts = 6000, b_user_data = 7\<rparr>,
        Push \<lparr>b_data = [3, 4], b_size = 2, b_pts = -1, b_dts = -1, b_user_data = 8\<rparr>, Pull 22,
        Push \<lparr>b_data = [], b_size = 0, b_pts = -1, b_dts = -1, b_user_data = 9\<rparr>]
       (\<lambda>_ _ st. st, tsmux_stream_new 0x40 TSMUX_ST_VIDEO_H264) = Some ([1, 2, 3], \<lambda>_ _ st. st, st)"
    using stream_fifo_example by blast
  from stream_fifo [OF q _ _ this] show ?thesis using st by (auto simp: word_unat_eq_iff)
qed

text \<open>
  C9. In a stream that has less than 2 GiB queued, none of it in an empty buffer (C13 shows what
  an empty one does), a read that has room for the PES header and asks for no more than is
  available returns true, and what it hands out is the header (at the start of a PES packet)
  followed by the oldest queued bytes, which leave the queue. The client's release function
  leaves the stream alone.
\<close>

theorem get_data_returns:
  assumes "stream_wf st" and "quiet_release code" and "length (pending st) < 2 ^ 31"
    and "length (pes_prefix st) \<le> unat len"
    and "int (unat len - length (pes_prefix st)) \<le> tsmux_stream_bytes_avail (pes_entered st)"
  shows "\<exists>st'. tsmux_stream_get_data code st len =
      Inr (True, st', pes_prefix st @ take (unat len - length (pes_prefix st)) (pending st))
    \<and> pending st' = drop (unat len - length (pes_prefix st)) (pending st) \<and> stream_wf st'"
proof -
  from get_data_total [OF assms] obtain st' where
    ret: "tsmux_stream_get_data code st len =
      Inr (True, st', pes_prefix st @ take (unat len - length (pes_prefix st)) (pending st))" by blast
  from get_data_success [OF assms(1,2) ret] obtain n where
    "n + length (pes_prefix st) = unat len" "pending st' = drop n (pending st)" "stream_wf st'" by blast
  moreover from this have "n = unat len - length (pes_prefix st)" by linarith
  ultimately show ?thesis using ret by blast
qed

theorem get_data_returns_witness:
  "\<exists>st'. tsmux_stream_get_data (\<lambda>_ _ st. st)
       (tsmux_stream_add_data (tsmux_stream_new 0x40 TSMUX_ST_PRIVATE_DATA) [7, 8, 9] 3 0 (-1) (-1)) 8
     = Inr (True, st', [0, 0, 1, 0, 0, 3, 7, 8]) \<and> pending st' = [9]"
proof -
  let ?st = "tsmux_stream_add_data (tsmux_stream_new 0x40 TSMUX_ST_PRIVATE_DATA) [7, 8, 9] 3 0 (-1) (-1)"
  have "pending ?st = [7, 8, 9]" "stream_wf ?st" using stream_new_wf by (simp_all add: add_data_wf)
  moreover have "pes_prefix ?st = [0, 0, 1, 0, 0, 3]" by (simp add: stream_eval)
  moreover have "tsmux_stream_bytes_avail (pes_entered ?st) = 3" by (simp add: stream_eval pes_entered_def)
  moreover have "quiet_release (\<lambda>_ _ st. st)" by (simp add: quiet_release_def)
  ultimately show ?thesis using get_data_returns [of ?st "\<lambda>_ _ st. st" 8] by auto
qed

text \<open>
  C13. A buffer of size zero is never removed from the head of the queue: every read that wants
  payload from it loops for ever.
\<close>

theorem empty_buffer_diverges:
  assumes "s_cur_buffer st = None" and "s_buffers st = b # bs" and "b_size b = 0" and "len \<noteq> 0"
  shows "get_data_loop code fuel st len out = Inl Diverges"
proof (cases fuel)
  case 0
  with assms(4) show ?thesis by simp
next
  case (Suc n)
  let ?st1 = "st\<lparr>s_cur_buffer := Some b, s_cur_buffer_consumed := 0\<rparr>"
  have "get_data_loop code (Suc n) st len out = get_data_loop code (Suc n) ?st1 len out"
    using assms by (simp add: start_buffer_def)
  also have "\<dots> = Inl Diverges" using assms(3,4) by (intro get_data_loop_stuck) simp_all
  finally show ?thesis using Suc by simp
qed

theorem empty_buffer_diverges_witness:
  "get_data_loop (\<lambda>_ _ st. st) 1000
     (tsmux_stream_add_data (tsmux_stream_add_data (tsmux_stream_new 0x40 TSMUX_ST_PRIVATE_DATA) [] 0 0 (-1) (-1))
        [7, 8, 9] 3 0 (-1) (-1)) 2 [] = Inl Diverges"
  by (rule empty_buffer_diverges
      [where b = "\<lparr>b_data = [], b_size = 0, b_pts = -1, b_dts = -1, b_user_data = 0\<rparr>"])
    (simp_all add: tsmux_stream_add_data_def tsmux_stream_new_def stream0_def Let_def)

text \<open>
  C10. For a stream with full PES headers, a decoder reads the stream id, the packet length, the
  time stamps (33 bits of each) and the extended id back from the header, and finds the payload
  right behind it.
\<close>

theorem pes_header_roundtrip:
  assumes "has_flag (pi_flags (s_pi st)) TSMUX_PACKET_FLAG_PES_FULL_HEADER"
  shows "pes_parse (tsmux_stream_write_pes_header st @ payload) = Some (pes_meaning st, payload)"
  using assms by (rule pes_parse_header)

theorem pes_header_roundtrip_witness:
  "pes_parse (tsmux_stream_write_pes_header (tsmux_stream_new 0x40 TSMUX_ST_VIDEO_DIRAC) @ [7]) =
     Some (\<lparr>ps_id = 0xFD, ps_length = 0, ps_pts = None, ps_dts = None, ps_ext_id = Some 0x60\<rparr>, [7])"
proof -
  let ?st = "tsmux_stream_new 0x40 TSMUX_ST_VIDEO_DIRAC"
  have "has_flag (pi_flags (s_pi ?st)) TSMUX_PACKET_FLAG_PES_FULL_HEADER"
    by (simp add: tsmux_stream_new_def stream0_def has_flag_def flag_defs)
  moreover have "pes_meaning ?st =
     \<lparr>ps_id = 0xFD, ps_length = 0, ps_pts = None, ps_dts = None, ps_ext_id = Some 0x60\<rparr>"
    by (simp add: pes_meaning_def tsmux_stream_new_def stream0_def packet_info0_def has_flag_def flag_defs)
  ultimately show ?thesis using pes_header_roundtrip [of ?st "[7]"] by simp
qed

end
