(* ===== verification/TsCrc.thy ===== *)
theory TsCrc
  imports TsCommon
begin

text \<open>
  \<^verbatim>\<open>libtsmux/tsmux/crc.h\<close>: the table driven CRC-32 of the program tables (polynomial
  0x04c11db7, initial value all ones, most significant bit first, no final inversion). The
  table is checked against the bit-serial definition entry by entry; from that the table driven
  routine computes the bit-serial CRC, a section followed by its CRC has remainder zero, and a
  change confined to one byte always changes the CRC.
\<close>

section \<open>The routine\<close>

definition crc_tab :: "u32 list" where
  "crc_tab =
  [0x00000000, 0x04c11db7, 0x09823b6e, 0x0d4326d9, 0x130476dc, 0x17c56b6b,
   0x1a864db2, 0x1e475005, 0x2608edb8, 0x22c9f00f, 0x2f8ad6d6, 0x2b4bcb61,
   0x350c9b64, 0x31cd86d3, 0x3c8ea00a, 0x384fbdbd, 0x4c11db70, 0x48d0c6c7,
   0x4593e01e, 0x4152fda9, 0x5f15adac, 0x5bd4b01b, 0x569796c2, 0x52568b75,
   0x6a1936c8, 0x6ed82b7f, 0x639b0da6, 0x675a1011, 0x791d4014, 0x7ddc5da3,
   0x709f7b7a, 0x745e66cd, 0x9823b6e0, 0x9ce2ab57, 0x91a18d8e, 0x95609039,
   0x8b27c03c, 0x8fe6dd8b, 0x82a5fb52, 0x8664e6e5, 0xbe2b5b58, 0xbaea46ef,
   0xb7a96036, 0xb3687d81, 0xad2f2d84, 0xa9ee3033, 0xa4ad16ea, 0xa06c0b5d,
   0xd4326d90, 0xd0f37027, 0xddb056fe, 0xd9714b49, 0xc7361b4c, 0xc3f706fb,
   0xceb42022, 0xca753d95, 0xf23a8028, 0xf6fb9d9f, 0xfbb8bb46, 0xff79a6f1,
   0xe13ef6f4, 0xe5ffeb43, 0xe8bccd9a, 0xec7dd02d, 0x34867077, 0x30476dc0,
   0x3d044b19, 0x39c556ae, 0x278206ab, 0x23431b1c, 0x2e003dc5, 0x2ac12072,
   0x128e9dcf, 0x164f8078, 0x1b0ca6a1, 0x1fcdbb16, 0x018aeb13, 0x054bf6a4,
   0x0808d07d, 0x0cc9cdca, 0x7897ab07, 0x7c56b6b0, 0x71159069, 0x75d48dde,
   0x6b93dddb, 0x6f52c06c, 0x6211e6b5, 0x66d0fb02, 0x5e9f46bf, 0x5a5e5b08,
   0x571d7dd1, 0x53dc6066, 0x4d9b3063, 0x495a2dd4, 0x44190b0d, 0x40d816ba,
   0xaca5c697, 0xa864db20, 0xa527fdf9, 0xa1e6e04e, 0xbfa1b04b, 0xbb60adfc,
   0xb6238b25, 0xb2e29692, 0x8aad2b2f, 0x8e6c3698, 0x832f1041, 0x87ee0df6,
   0x99a95df3, 0x9d684044, 0x902b669d, 0x94ea7b2a, 0xe0b41de7, 0xe4750050,
   0xe9362689, 0xedf73b3e, 0xf3b06b3b, 0xf771768c, 0xfa325055, 0xfef34de2,
   0xc6bcf05f, 0xc27dede8, 0xcf3ecb31, 0xcbffd686, 0xd5b88683, 0xd1799b34,
   0xdc3abded, 0xd8fba05a, 0x690ce0ee, 0x6dcdfd59, 0x608edb80, 0x644fc637,
   0x7a089632, 0x7ec98b85, 0x738aad5c, 0x774bb0eb, 0x4f040d56, 0x4bc510e1,
   0x46863638, 0x42472b8f, 0x5c007b8a, 0x58c1663d, 0x558240e4, 0x51435d53,
   0x251d3b9e, 0x21dc2629, 0x2c9f00f0, 0x285e1d47, 0x36194d42, 0x32d850f5,
   0x3f9b762c, 0x3b5a6b9b, 0x0315d626, 0x07d4cb91, 0x0a97ed48, 0x0e56f0ff,
   0x1011a0fa, 0x14d0bd4d, 0x19939b94, 0x1d528623, 0xf12f560e, 0xf5ee4bb9,
   0xf8ad6d60, 0xfc6c70d7, 0xe22b20d2, 0xe6ea3d65, 0xeba91bbc, 0xef68060b,
   0xd727bbb6, 0xd3e6a601, 0xdea580d8, 0xda649d6f, 0xc423cd6a, 0xc0e2d0dd,
   0xcda1f604, 0xc960ebb3, 0xbd3e8d7e, 0xb9ff90c9, 0xb4bcb610, 0xb07daba7,
   0xae3afba2, 0xaafbe615, 0xa7b8c0cc, 0xa379dd7b, 0x9b3660c6, 0x9ff77d71,
   0x92b45ba8, 0x9675461f, 0x8832161a, 0x8cf30bad, 0x81b02d74, 0x857130c3,
   0x5d8a9099, 0x594b8d2e, 0x5408abf7, 0x50c9b640, 0x4e8ee645, 0x4a4ffbf2,
   0x470cdd2b, 0x43cdc09c, 0x7b827d21, 0x7f436096, 0x7200464f, 0x76c15bf8,
   0x68860bfd, 0x6c47164a, 0x61043093, 0x65c52d24, 0x119b4be9, 0x155a565e,
   0x18197087, 0x1cd86d30, 0x029f3d35, 0x065e2082, 0x0b1d065b, 0x0fdc1bec,
   0x3793a651, 0x3352bbe6, 0x3e119d3f, 0x3ad08088, 0x2497d08d, 0x2056cd3a,
   0x2d15ebe3, 0x29d4f654, 0xc5a92679, 0xc1683bce, 0xcc2b1d17, 0xc8ea00a0,
   0xd6ad50a5, 0xd26c4d12, 0xdf2f6bcb, 0xdbee767c, 0xe3a1cbc1, 0xe760d676,
   0xea23f0af, 0xeee2ed18, 0xf0a5bd1d, 0xf464a0aa, 0xf9278673, 0xfde69bc4,
   0x89b8fd09, 0x8d79e0be, 0x803ac667, 0x84fbdbd0, 0x9abc8bd5, 0x9e7d9662,
   0x933eb0bb, 0x97ffad0c, 0xafb010b1, 0xab710d06, 0xa6322bdf, 0xa2f33668,
   0xbcb4666d, 0xb8757bda, 0xb5365d03, 0xb1f740b4]"

definition crc_step :: "u32 \<Rightarrow> u8 \<Rightarrow> u32" where
  "crc_step crc b = push_bit 8 crc XOR crc_tab ! unat ((drop_bit 24 crc XOR ucast b) AND 0xff)"

definition calc_crc32 :: "bytes \<Rightarrow> u32" where
  "calc_crc32 data = foldl crc_step 0xffffffff data"

section \<open>The bit-serial definition\<close>

definition crc_bit :: "u32 \<Rightarrow> u32" where
  "crc_bit c = (if bit c 31 then push_bit 1 c XOR 0x04c11db7 else push_bit 1 c)"

definition crc_byte_ref :: "u32 \<Rightarrow> u8 \<Rightarrow> u32" where
  "crc_byte_ref c b = (crc_bit ^^ 8) (c XOR push_bit 24 (ucast b))"

definition crc32_ref :: "bytes \<Rightarrow> u32" where
  "crc32_ref data = foldl crc_byte_ref 0xffffffff data"

section \<open>Linearity\<close>

lemma bit_crc_bit:
  "bit (crc_bit c) n \<longleftrightarrow> (0 < n \<and> n < 32 \<and> bit c (n - 1)) \<noteq> (bit c 31 \<and> bit (0x04c11db7 :: u32) n)"
  by (simp add: crc_bit_def bit_xor_iff bit_double_word)

lemma crc_bit_xor: "crc_bit (x XOR y) = crc_bit x XOR crc_bit y"
  by (rule bit_word_eqI) (auto simp only: bit_crc_bit bit_xor_iff)

lemma crc_bits_xor: "(crc_bit ^^ n) (x XOR y) = (crc_bit ^^ n) x XOR (crc_bit ^^ n) y"
  by (induction n) (simp_all add: crc_bit_xor)

lemma crc_bit_no_carry: "\<not> bit c 31 \<Longrightarrow> crc_bit c = push_bit 1 c"
  by (simp add: crc_bit_def)

lemma crc_bits_shift:
  "(\<And>k. 32 - n \<le> k \<Longrightarrow> \<not> bit x k) \<Longrightarrow> n \<le> 32 \<Longrightarrow> (crc_bit ^^ n) x = push_bit n x"
proof (induction n)
  case 0
  then show ?case by simp
next
  case (Suc n)
  have "\<not> bit (push_bit n x) 31"
    using Suc.prems by (auto simp: bit_simps)
  moreover have "(crc_bit ^^ n) x = push_bit n x"
    using Suc.prems by (intro Suc.IH) auto
  ultimately have "(crc_bit ^^ Suc n) x = push_bit 1 (push_bit n x)"
    by (simp only: funpow.simps comp_apply crc_bit_no_carry [OF \<open>\<not> bit (push_bit n x) 31\<close>])
  then show ?case by (simp only: push_bit_push_bit plus_1_eq_Suc)
qed

lemma crc_bit_zero: "crc_bit x = 0 \<Longrightarrow> x = 0"
proof (rule bit_word_eqI)
  fix n
  assume z: "crc_bit x = 0" and "n < LENGTH(32)"
  have b: "\<not> bit (crc_bit x) k" for k by (simp add: z)
  have top: "\<not> bit x 31"
    using b [of 0] by (simp add: bit_crc_bit)
  show "bit x n \<longleftrightarrow> bit 0 n"
  proof (cases "n = 31")
    case False
    with \<open>n < LENGTH(32)\<close> top b [of "Suc n"] show ?thesis by (simp add: bit_crc_bit)
  qed (use top in simp)
qed

lemma crc_bits_inj: "(crc_bit ^^ n) x = (crc_bit ^^ n) y \<Longrightarrow> x = y"
proof (induction n)
  case (Suc n)
  then have "crc_bit ((crc_bit ^^ n) x XOR (crc_bit ^^ n) y) = 0" by (simp add: crc_bit_xor)
  then have "(crc_bit ^^ n) x XOR (crc_bit ^^ n) y = 0" by (rule crc_bit_zero)
  then have "(crc_bit ^^ n) x = (crc_bit ^^ n) y" by (rule word_xor_eq_0)
  then show ?case by (rule Suc.IH)
qed simp

section \<open>The table\<close>

text \<open>
  Entry \<open>2 i\<close> is entry \<open>i\<close> shifted by one bit, entry \<open>2 i + 1\<close> adds the polynomial: the two
  facts that make every entry the bit-serial remainder of its index, checked on the numbers.
\<close>

fun pairs :: "'a list \<Rightarrow> ('a \<times> 'a) list" where
  "pairs (a # b # xs) = (a, b) # pairs xs"
| "pairs _ = []"

lemma pairs_nth:
  "2 * i + 1 < length xs \<Longrightarrow> pairs xs ! i = (xs ! (2 * i), xs ! (2 * i + 1))"
  by (induction xs arbitrary: i rule: pairs.induct) (auto simp: nth_Cons split: nat.splits)

lemma crc_tab_length [simp]: "length crc_tab = 256"
  by (simp add: crc_tab_def)

lemma crc_tab_pairs:
  "pairs crc_tab = map (\<lambda>t. (crc_bit t, crc_bit t XOR 0x04c11db7)) (take 128 crc_tab)"
  by (simp add: crc_tab_def crc_bit_def)

lemma crc_tab_double:
  assumes "i < 128"
  shows "crc_tab ! (2 * i) = crc_bit (crc_tab ! i)"
    and "crc_tab ! (2 * i + 1) = crc_bit (crc_tab ! i) XOR 0x04c11db7"
proof -
  have "pairs crc_tab ! i = (crc_tab ! (2 * i), crc_tab ! (2 * i + 1))"
    using assms by (intro pairs_nth) simp
  moreover have "pairs crc_tab ! i = (crc_bit (crc_tab ! i), crc_bit (crc_tab ! i) XOR 0x04c11db7)"
    using assms by (simp add: crc_tab_pairs)
  ultimately show "crc_tab ! (2 * i) = crc_bit (crc_tab ! i)"
    and "crc_tab ! (2 * i + 1) = crc_bit (crc_tab ! i) XOR 0x04c11db7"
    by (metis prod.inject)+
qed

lemma crc_bits_index_double:
  assumes "i < 128"
  shows "(crc_bit ^^ 8) (push_bit 24 (of_nat (2 * i))) = crc_bit ((crc_bit ^^ 8) (push_bit 24 (of_nat i)))"
proof -
  have "\<not> bit (of_nat i :: u32) 7"
    using assms by (simp add: bit_of_nat_iff bit_iff_odd [of i])
  then have "\<not> bit (push_bit 24 (of_nat i) :: u32) 31"
    by (simp add: bit_push_bit_iff)
  then have "crc_bit (push_bit 24 (of_nat i)) = push_bit 24 (of_nat (2 * i))"
    by (simp add: crc_bit_no_carry push_bit_eq_mult ac_simps)
  then show ?thesis by (metis funpow_swap1)
qed

lemma crc_bits_poly: "(crc_bit ^^ 8) (push_bit 24 1) = 0x04c11db7"
proof -
  have "(crc_bit ^^ 8) x = crc_bit (crc_bit (crc_bit (crc_bit (crc_bit (crc_bit (crc_bit (crc_bit x)))))))" for x
    by (simp add: numeral_eq_Suc)
  then show ?thesis by (simp add: crc_bit_def)
qed

lemma crc_tab_entry: "i < 256 \<Longrightarrow> crc_tab ! i = (crc_bit ^^ 8) (push_bit 24 (of_nat i))"
proof (induction i rule: less_induct)
  case (less i)
  define j where "j = i div 2"
  have j: "j < 128" using less.prems by (simp add: j_def)
  have IH: "crc_bit (crc_tab ! j) = (crc_bit ^^ 8) (push_bit 24 (of_nat (2 * j)))"
  proof (cases "i = 0")
    case True
    have "crc_tab ! 0 = 0" by (simp add: crc_tab_def)
    moreover have "crc_bit 0 = 0" by (simp add: crc_bit_def)
    ultimately show ?thesis using True by (simp add: j_def crc_bits_shift)
  next
    case False
    with less show ?thesis
      by (subst crc_bits_index_double [OF j]) (simp add: j_def)
  qed
  show ?case
  proof (cases "even i")
    case True
    with crc_tab_double(1) [OF j] IH show ?thesis by (simp add: j_def)
  next
    case False
    then have i: "i = 2 * j + 1" by (simp add: j_def)
    have "push_bit 24 (of_nat i) = push_bit 24 (of_nat (2 * j)) XOR push_bit 24 (1 :: u32)"
    proof -
      have "of_nat i = of_nat (2 * j) XOR (1 :: u32)"
        unfolding i by (simp add: xor_one_eq)
      then show ?thesis by (simp add: push_bit_xor)
    qed
    with crc_tab_double(2) [OF j] IH show ?thesis
      by (simp only: crc_bits_xor crc_bits_poly i)
  qed
qed

section \<open>Equivalence, remainder and error detection\<close>

lemma crc_step_ref: "crc_step c b = crc_byte_ref c b"
proof -
  let ?i = "(drop_bit 24 c XOR ucast b) AND 0xff"
  have "c XOR push_bit 24 (ucast b) = take_bit 24 c XOR push_bit 24 ?i"
    by (simp add: bit_blast_simps)
  moreover have "(crc_bit ^^ 8) (take_bit 24 c) = push_bit 8 c"
  proof -
    have "(crc_bit ^^ 8) (take_bit 24 c) = push_bit 8 (take_bit 24 c)"
      by (rule crc_bits_shift) (simp_all add: bit_take_bit_iff)
    also have "\<dots> = push_bit 8 c" by (simp add: bit_blast_simps)
    finally show ?thesis .
  qed
  moreover have "(crc_bit ^^ 8) (push_bit 24 ?i) = crc_tab ! unat ?i"
    by (subst crc_tab_entry [OF unat_and_ff]) simp
  ultimately show ?thesis
    by (simp only: crc_step_def crc_byte_ref_def crc_bits_xor)
qed

lemma calc_crc32_ref: "calc_crc32 data = crc32_ref data"
proof -
  have "crc_step = crc_byte_ref" by (intro ext) (rule crc_step_ref)
  then show ?thesis by (simp add: calc_crc32_def crc32_ref_def)
qed

lemma crc_step_own_byte: "crc_step c (ucast (drop_bit 24 c)) = push_bit 8 c"
proof -
  have "(drop_bit 24 c XOR ucast (ucast (drop_bit 24 c) :: u8)) AND 0xff = 0"
    by (simp add: bit_blast_simps)
  then show ?thesis by (simp add: crc_step_def crc_tab_def)
qed

lemma calc_crc32_append_crc: "calc_crc32 (data @ tsmux_put32 (calc_crc32 data)) = 0"
proof -
  define c where "c = calc_crc32 data"
  have b: "ucast (drop_bit 16 c) = (ucast (drop_bit 24 (push_bit 8 c)) :: u8)"
    "ucast (drop_bit 8 c) = (ucast (drop_bit 24 (push_bit 16 c)) :: u8)"
    "ucast c = (ucast (drop_bit 24 (push_bit 24 c)) :: u8)"
    by (simp_all add: bit_blast_simps)
  have s: "push_bit 8 (push_bit 8 c) = push_bit 16 c" "push_bit 8 (push_bit 16 c) = push_bit 24 c"
    "push_bit 8 (push_bit 24 c) = 0"
    by (simp_all add: bit_blast_simps)
  have "foldl crc_step c (tsmux_put32 c) = 0"
    by (simp only: tsmux_put32_def byte_simps foldl.simps crc_step_own_byte b s)
  then show ?thesis by (simp add: calc_crc32_def c_def)
qed

lemma crc_byte_ref_inj_crc: "crc_byte_ref c b = crc_byte_ref c' b \<Longrightarrow> c = c'"
  unfolding crc_byte_ref_def
  by (drule crc_bits_inj) (simp only: word_xor_cancel)

lemma crc_byte_ref_inj_byte: "crc_byte_ref c b = crc_byte_ref c b' \<Longrightarrow> b = b'"
proof -
  assume "crc_byte_ref c b = crc_byte_ref c b'"
  then have "c XOR push_bit 24 (ucast b) = c XOR push_bit 24 (ucast b')"
    unfolding crc_byte_ref_def by (rule crc_bits_inj)
  then have "push_bit 24 (ucast b) = (push_bit 24 (ucast b') :: u32)"
    by (simp only: word_xor_cancel)
  then show "b = b'"
    by (simp add: bit_blast_simps)
qed

lemma foldl_crc_inj: "foldl crc_byte_ref c ys = foldl crc_byte_ref c' ys \<Longrightarrow> c = c'"
  by (induction ys arbitrary: c c') (auto dest: crc_byte_ref_inj_crc)

lemma calc_crc32_one_byte:
  assumes "calc_crc32 (xs @ b # ys) = calc_crc32 (xs @ b' # ys)"
  shows "b = b'"
  using assms unfolding calc_crc32_ref crc32_ref_def
  by (auto dest!: foldl_crc_inj dest: crc_byte_ref_inj_byte)

section \<open>Properties\<close>

text \<open>C11. The table driven CRC-32 computes the bit-serial one on every input.\<close>

theorem crc_table_driven: "calc_crc32 data = crc32_ref data"
  by (rule calc_crc32_ref)

text \<open>
  A section followed by its CRC leaves remainder zero, and changing any one byte of the
  section (whatever surrounds it) never does: the receiver detects every single-byte error.
\<close>

theorem crc_detects_byte_error:
  "calc_crc32 (xs @ b' # ys @ tsmux_put32 (calc_crc32 (xs @ b # ys))) = 0 \<longleftrightarrow> b' = b"
proof
  assume "calc_crc32 (xs @ b' # ys @ tsmux_put32 (calc_crc32 (xs @ b # ys))) = 0"
  then have "calc_crc32 ((xs @ b' # ys) @ tsmux_put32 (calc_crc32 (xs @ b # ys)))
      = calc_crc32 ((xs @ b # ys) @ tsmux_put32 (calc_crc32 (xs @ b # ys)))"
    using calc_crc32_append_crc [of "xs @ b # ys"] by simp
  then have "calc_crc32 (xs @ b' # ys) = calc_crc32 (xs @ b # ys)"
    unfolding calc_crc32_ref crc32_ref_def foldl_append by (rule foldl_crc_inj)
  then show "b' = b" by (rule calc_crc32_one_byte)
next
  assume "b' = b"
  then show "calc_crc32 (xs @ b' # ys @ tsmux_put32 (calc_crc32 (xs @ b # ys))) = 0"
    using calc_crc32_append_crc [of "xs @ b # ys"] by simp
qed

end
