(* ===== verification/TsMux.thy ===== *)
theory TsMux
  imports TsHeader TsStream TsCrc
begin

text \<open>
  \<^verbatim>\<open>libtsmux/tsmux/tsmux.c\<close>, the multiplexer: programs and streams, the program association and
  program map tables, their transport in packets, and \<^verbatim>\<open>tsmux_write_stream_packet\<close>. Streams and
  programs are shared objects in C (a stream is in the multiplexer's list, in the arrays of
  programs and may be a program's PCR stream), so the model keeps them in a store: an address is
  a \<^typ>\<open>nat\<close>, a pointer that may be \<^verbatim>\<open>NULL\<close> an option of it. The client's write function is
  code outside the library; it is a field of the multiplexer, as in C, that maps the packet, the
  client's data and the new PCR to its return value and the changed data.
\<close>

section \<open>Data\<close>

abbreviation TSMUX_MAX_PROGRAMS :: u32 where "TSMUX_MAX_PROGRAMS \<equiv> 253"
abbreviation TSMUX_SECTION_HDR_SIZE :: nat where "TSMUX_SECTION_HDR_SIZE \<equiv> 8"
abbreviation TSMUX_MAX_SECTION_LENGTH :: nat where "TSMUX_MAX_SECTION_LENGTH \<equiv> 4096"
abbreviation TSMUX_PID_AUTO :: u16 where "TSMUX_PID_AUTO \<equiv> -1"
abbreviation TSMUX_PCR_OFFSET :: u64 where "TSMUX_PCR_OFFSET \<equiv> 11250"
abbreviation TSMUX_DEFAULT_PAT_FREQ :: u32 where "TSMUX_DEFAULT_PAT_FREQ \<equiv> 9000"
abbreviation TSMUX_DEFAULT_PMT_FREQ :: u32 where "TSMUX_DEFAULT_PMT_FREQ \<equiv> 9000"

record TsMuxSection =
  sec_pi :: TsMuxPacketInfo
  sec_data :: bytes

record TsMuxProgram =
  p_pmt :: TsMuxSection
  p_pmt_version :: u8
  p_pmt_changed :: bool
  p_pmt_frequency :: u32
  p_last_pmt_ts :: u64
  p_pgm_number :: u16
  p_pmt_pid :: u16
  p_pcr_stream :: "nat option"
  p_last_pcr :: u64
  p_streams :: "nat list"
  p_nb_streams :: u32

type_synonym 'w write_func = "bytes \<Rightarrow> 'w \<Rightarrow> u64 \<Rightarrow> bool \<times> 'w"

record 'w TsMux =
  m_nb_streams :: u32
  m_streams :: "nat list"
  m_nb_programs :: u32
  m_programs :: "nat list"
  m_transport_id :: u16
  m_next_pgm_no :: u16
  m_next_pmt_pid :: u16
  m_next_stream_pid :: u16
  m_pat :: TsMuxSection
  m_pat_version :: u8
  m_pat_changed :: bool
  m_pat_frequency :: u32
  m_last_pat_ts :: u64
  m_packet_buf :: bytes
  m_write_func :: "'w write_func option"
  m_write_func_data :: 'w
  m_new_pcr :: u64
  m_stream_at :: "nat \<Rightarrow> TsMuxStream"
  m_program_at :: "nat \<Rightarrow> TsMuxProgram"
  m_next_addr :: nat

abbreviation set_stream :: "nat \<Rightarrow> TsMuxStream \<Rightarrow> 'w TsMux \<Rightarrow> 'w TsMux" where
  "set_stream a st mux \<equiv> mux\<lparr>m_stream_at := (m_stream_at mux)(a := st)\<rparr>"

abbreviation set_program :: "nat \<Rightarrow> TsMuxProgram \<Rightarrow> 'w TsMux \<Rightarrow> 'w TsMux" where
  "set_program a p mux \<equiv> mux\<lparr>m_program_at := (m_program_at mux)(a := p)\<rparr>"

definition section0 :: TsMuxSection where
  "section0 = \<lparr>sec_pi = packet_info0, sec_data = replicate TSMUX_MAX_SECTION_LENGTH 0\<rparr>"

section \<open>Sessions, programs, streams\<close>

text \<open>\<open>w\<close> is the client's data; it is set together with the write function.\<close>

definition tsmux_new :: "'w \<Rightarrow> 'w TsMux" where
  "tsmux_new w = \<lparr>m_nb_streams = 0, m_streams = [], m_nb_programs = 0, m_programs = [],
     m_transport_id = 1, m_next_pgm_no = 1, m_next_pmt_pid = 0x10, m_next_stream_pid = 0x40,
     m_pat = section0, m_pat_version = 0, m_pat_changed = True,
     m_pat_frequency = TSMUX_DEFAULT_PAT_FREQ, m_last_pat_ts = -1,
     m_packet_buf = replicate TSMUX_PACKET_LENGTH 0, m_write_func = None, m_write_func_data = w,
     m_new_pcr = 0, m_stream_at = (\<lambda>_. stream0 TSMUX_ST_RESERVED),
     m_program_at = (\<lambda>_. \<lparr>p_pmt = section0, p_pmt_version = 0, p_pmt_changed = False,
        p_pmt_frequency = 0, p_last_pmt_ts = 0, p_pgm_number = 0, p_pmt_pid = 0,
        p_pcr_stream = None, p_last_pcr = 0, p_streams = [], p_nb_streams = 0\<rparr>),
     m_next_addr = 0\<rparr>"

definition tsmux_set_write_func :: "'w TsMux \<Rightarrow> 'w write_func option \<Rightarrow> 'w \<Rightarrow> 'w TsMux" where
  "tsmux_set_write_func mux func user_data =
     mux\<lparr>m_write_func := func, m_write_func_data := user_data\<rparr>"

definition tsmux_set_pat_frequency :: "'w TsMux \<Rightarrow> u32 \<Rightarrow> 'w TsMux" where
  "tsmux_set_pat_frequency mux freq = mux\<lparr>m_pat_frequency := freq\<rparr>"

definition tsmux_get_pat_frequency :: "'w TsMux \<Rightarrow> u32" where
  "tsmux_get_pat_frequency mux = m_pat_frequency mux"

definition tsmux_program_new :: "'w TsMux \<Rightarrow> nat option \<times> 'w TsMux" where
  "tsmux_program_new mux =
     (if m_nb_programs mux = TSMUX_MAX_PROGRAMS then (None, mux)
      else
        let a = m_next_addr mux;
            program = \<lparr>p_pmt = section0, p_pmt_version = 0, p_pmt_changed = True,
              p_pmt_frequency = TSMUX_DEFAULT_PMT_FREQ, p_last_pmt_ts = -1,
              p_pgm_number = m_next_pgm_no mux, p_pmt_pid = m_next_pmt_pid mux,
              p_pcr_stream = None, p_last_pcr = -1, p_streams = [], p_nb_streams = 0\<rparr>
        in (Some a, (set_program a program mux)\<lparr>m_next_addr := Suc a,
              m_next_pgm_no := m_next_pgm_no mux + 1, m_next_pmt_pid := m_next_pmt_pid mux + 1,
              m_programs := a # m_programs mux, m_nb_programs := m_nb_programs mux + 1,
              m_pat_changed := True\<rparr>))"

definition tsmux_set_pmt_frequency :: "'w TsMux \<Rightarrow> nat option \<Rightarrow> u32 \<Rightarrow> 'w TsMux" where
  "tsmux_set_pmt_frequency mux program freq =
     (case program of None \<Rightarrow> mux
      | Some a \<Rightarrow> set_program a ((m_program_at mux a)\<lparr>p_pmt_frequency := freq\<rparr>) mux)"

definition tsmux_get_pmt_frequency :: "'w TsMux \<Rightarrow> nat option \<Rightarrow> u32" where
  "tsmux_get_pmt_frequency mux program =
     (case program of None \<Rightarrow> 0 | Some a \<Rightarrow> p_pmt_frequency (m_program_at mux a))"

definition tsmux_program_add_stream :: "'w TsMux \<Rightarrow> nat option \<Rightarrow> nat option \<Rightarrow> 'w TsMux" where
  "tsmux_program_add_stream mux program stream =
     (case (program, stream) of
        (Some a, Some s) \<Rightarrow>
          let p = m_program_at mux a
          in set_program a (p\<lparr>p_nb_streams := p_nb_streams p + 1, p_streams := p_streams p @ [s],
                              p_pmt_changed := True\<rparr>) mux
      | _ \<Rightarrow> mux)"

definition tsmux_program_set_pcr_stream :: "'w TsMux \<Rightarrow> nat option \<Rightarrow> nat option \<Rightarrow> 'w TsMux" where
  "tsmux_program_set_pcr_stream mux program stream =
     (case program of None \<Rightarrow> mux
      | Some a \<Rightarrow>
          let p = m_program_at mux a
          in if p_pcr_stream p = stream then mux
             else
               let mux1 = (case p_pcr_stream p of None \<Rightarrow> mux
                           | Some old \<Rightarrow> set_stream old (tsmux_stream_pcr_unref (m_stream_at mux old)) mux);
                   mux2 = (case stream of None \<Rightarrow> mux1
                           | Some s \<Rightarrow> set_stream s (tsmux_stream_pcr_ref (m_stream_at mux1 s)) mux1)
               in set_program a (p\<lparr>p_pcr_stream := stream, p_pmt_changed := True\<rparr>) mux2)"

definition tsmux_get_new_pid :: "'w TsMux \<Rightarrow> u16 \<times> 'w TsMux" where
  "tsmux_get_new_pid mux =
     (m_next_stream_pid mux, mux\<lparr>m_next_stream_pid := m_next_stream_pid mux + 1\<rparr>)"

text \<open>\<open>List.find\<close> is the search loop: the first stream of the list with the PID.\<close>

definition tsmux_find_stream :: "'w TsMux \<Rightarrow> u16 \<Rightarrow> nat option" where
  "tsmux_find_stream mux pid =
     List.find (\<lambda>a. tsmux_stream_get_pid (m_stream_at mux a) = pid) (m_streams mux)"

definition tsmux_create_stream :: "'w TsMux \<Rightarrow> TsMuxStreamType \<Rightarrow> u16 \<Rightarrow> nat option \<times> 'w TsMux" where
  "tsmux_create_stream mux stream_type pid =
     (let (new_pid, mux1) = (if pid = TSMUX_PID_AUTO then tsmux_get_new_pid mux
                             else (pid AND 0x1FFF, mux))
      in if tsmux_find_stream mux1 new_pid \<noteq> None then (None, mux1)
         else
           let a = m_next_addr mux1
           in (Some a, (set_stream a (tsmux_stream_new new_pid stream_type) mux1)
                 \<lparr>m_next_addr := Suc a, m_streams := a # m_streams mux1,
                   m_nb_streams := m_nb_streams mux1 + 1\<rparr>))"

section \<open>Sections\<close>

definition tsmux_packet_out :: "'w TsMux \<Rightarrow> bool \<times> 'w TsMux" where
  "tsmux_packet_out mux =
     (case m_write_func mux of None \<Rightarrow> (True, mux)
      | Some func \<Rightarrow>
          let (res, w) = func (m_packet_buf mux) (m_write_func_data mux) (m_new_pcr mux)
          in (res, mux\<lparr>m_write_func_data := w\<rparr>))"

text \<open>
  The packet loop. \<open>cur_in\<close> is the offset of \<^verbatim>\<open>cur_in\<close> in the section's data. \<^verbatim>\<open>payload_remain\<close> is
  an unsigned 32 bit count that the code decreases without checking that it is large enough, so
  the loop takes fuel. Every iteration moves \<open>cur_in\<close> forward by the payload it wrote, and the
  data has 4096 bytes.
\<close>

fun write_section_loop ::
  "nat \<Rightarrow> 'w TsMux \<Rightarrow> TsMuxSection \<Rightarrow> nat \<Rightarrow> u32 \<Rightarrow> (bool \<times> 'w TsMux \<times> TsMuxSection) res" where
  "write_section_loop 0 mux sec cur_in payload_remain =
     (if payload_remain = 0 then Inr (True, mux, sec) else Inl Diverges)"
| "write_section_loop (Suc fuel) mux sec cur_in payload_remain =
     (if payload_remain = 0 then Inr (True, mux, sec)
      else
        let pi = sec_pi sec;
            first = pi_packet_start_unit_indicator pi
        in bindR (tsmux_write_ts_header (m_packet_buf mux)
                    (if first then pi\<lparr>pi_stream_avail := pi_stream_avail pi + 1\<rparr> else pi))
           (\<lambda>(ok, buf, pi1, payload_len, payload_offs).
             let pi2 = (if first then pi1\<lparr>pi_stream_avail := pi_stream_avail pi1 - 1\<rparr> else pi1)
             in if \<not> ok then Inr (False, mux\<lparr>m_packet_buf := buf\<rparr>, sec\<lparr>sec_pi := pi2\<rparr>)
                else bindR (if first then store buf (unat payload_offs) [0] else Inr buf) (\<lambda>buf1.
                  let payload_offs' = (if first then payload_offs + 1 else payload_offs);
                      payload_len' = (if first then payload_len - 1 else payload_len);
                      sec1 = sec\<lparr>sec_pi := pi2\<lparr>pi_packet_start_unit_indicator := False\<rparr>\<rparr>
                  in bindR (load (sec_data sec) cur_in (unat payload_len')) (\<lambda>bs.
                     bindR (store buf1 (unat payload_offs') bs) (\<lambda>buf2.
                     let (res, mux1) = tsmux_packet_out (mux\<lparr>m_packet_buf := buf2\<rparr>);
                         mux2 = mux1\<lparr>m_new_pcr := -1\<rparr>
                     in if \<not> res then Inr (False, mux2, sec1)
                        else write_section_loop fuel mux2 sec1 (cur_in + unat payload_len')
                               (payload_remain - payload_len'))))))"

definition tsmux_write_section ::
  "'w TsMux \<Rightarrow> TsMuxSection \<Rightarrow> (bool \<times> 'w TsMux \<times> TsMuxSection) res" where
  "tsmux_write_section mux sec =
     write_section_loop (Suc (Suc TSMUX_MAX_SECTION_LENGTH)) mux
       (sec\<lparr>sec_pi := (sec_pi sec)\<lparr>pi_packet_start_unit_indicator := True\<rparr>\<rparr>)
       0 (pi_stream_avail (sec_pi sec))"

definition tsmux_write_section_hdr :: "u8 \<Rightarrow> u16 \<Rightarrow> u16 \<Rightarrow> u8 \<Rightarrow> u8 \<Rightarrow> u8 \<Rightarrow> bytes" where
  "tsmux_write_section_hdr table_id len i version section_nr last_section_nr =
     [table_id] @ tsmux_put16 (0xB000 OR (len - 3)) @ tsmux_put16 i
     @ [0xC0 OR push_bit 1 (version AND 0x1F) OR 0x01, section_nr, last_section_nr]"

text \<open>
  What both table writers do once the entries are in place: the total length, the header, the
  CRC of what precedes it.
\<close>

definition finish_section :: "TsMuxSection \<Rightarrow> nat \<Rightarrow> u8 \<Rightarrow> u16 \<Rightarrow> u8 \<Rightarrow> TsMuxSection res" where
  "finish_section sec pos table_id i version =
     (let avail = of_nat (pos + 4) :: u32
      in bindR (store (sec_data sec) 0 (tsmux_write_section_hdr table_id (ucast avail) i version 0 0)) (\<lambda>data1.
         bindR (load data1 0 (unat (avail - 4))) (\<lambda>covered.
         bindR (store data1 pos (tsmux_put32 (calc_crc32 covered))) (\<lambda>data2.
           Inr (sec\<lparr>sec_data := data2, sec_pi := (sec_pi sec)\<lparr>pi_stream_avail := avail\<rparr>\<rparr>)))))"

section \<open>Program association and program map tables\<close>

definition pat_entries :: "'w TsMux \<Rightarrow> bytes" where
  "pat_entries mux =
     concat (map (\<lambda>a. tsmux_put16 (p_pgm_number (m_program_at mux a))
                    @ tsmux_put16 (0xE000 OR p_pmt_pid (m_program_at mux a))) (m_programs mux))"

definition tsmux_write_pat :: "'w TsMux \<Rightarrow> (bool \<times> 'w TsMux) res" where
  "tsmux_write_pat mux =
     bindR (if m_pat_changed mux
            then bindR (store (sec_data (m_pat mux)) TSMUX_SECTION_HDR_SIZE (pat_entries mux)) (\<lambda>data.
                 bindR (finish_section ((m_pat mux)\<lparr>sec_data := data\<rparr>)
                          (TSMUX_SECTION_HDR_SIZE + length (pat_entries mux)) 0x00
                          (m_transport_id mux) (m_pat_version mux)) (\<lambda>pat.
                 Inr (mux\<lparr>m_pat := pat, m_pat_changed := False,
                          m_pat_version := m_pat_version mux + 1\<rparr>)))
            else Inr mux) (\<lambda>mux1.
     bindR (tsmux_write_section mux1 (m_pat mux1)) (\<lambda>(ok, mux2, pat).
     Inr (ok, mux2\<lparr>m_pat := pat\<rparr>)))"

text \<open>The loop over a program's streams: the return value, the section data and \<^verbatim>\<open>pos\<close>.\<close>

fun pmt_entries :: "(nat \<Rightarrow> TsMuxStream) \<Rightarrow> nat list \<Rightarrow> bytes \<Rightarrow> nat \<Rightarrow> (bool \<times> bytes \<times> nat) res" where
  "pmt_entries streams [] data pos = Inr (True, data, pos)"
| "pmt_entries streams (a # as) data pos =
     (let es_info = tsmux_stream_get_es_descrs (streams a)
      in bindR (store data pos (stream_type_code (s_stream_type (streams a))
                 # tsmux_put16 (0xE000 OR tsmux_stream_get_pid (streams a))
                 @ tsmux_put16 (0xF000 OR of_nat (length es_info)))) (\<lambda>data1.
         if es_info = [] then pmt_entries streams as data1 (pos + 5)
         else if pos + 5 + length es_info \<ge> TSMUX_MAX_SECTION_LENGTH then Inr (False, data1, pos + 5)
         else bindR (store data1 (pos + 5) es_info) (\<lambda>data2.
                pmt_entries streams as data2 (pos + 5 + length es_info))))"

definition tsmux_write_pmt :: "'w TsMux \<Rightarrow> nat \<Rightarrow> (bool \<times> 'w TsMux) res" where
  "tsmux_write_pmt mux a =
     (let p = m_program_at mux a;
          pcr_pid = (case p_pcr_stream p of None \<Rightarrow> 0xFFFF
                     | Some s \<Rightarrow> 0xE000 OR tsmux_stream_get_pid (m_stream_at mux s))
      in bindR (if p_pmt_changed p
                then bindR (store (sec_data (p_pmt p)) TSMUX_SECTION_HDR_SIZE
                              (tsmux_put16 pcr_pid @ tsmux_put16 0xF000)) (\<lambda>data.
                     bindR (load (p_streams p) 0 (unat (p_nb_streams p))) (\<lambda>streams.
                     bindR (pmt_entries (m_stream_at mux) streams data (TSMUX_SECTION_HDR_SIZE + 4))
                       (\<lambda>(ok, data1, pos).
                        if \<not> ok then Inr (False, p\<lparr>p_pmt := (p_pmt p)\<lparr>sec_data := data1\<rparr>\<rparr>)
                        else bindR (finish_section ((p_pmt p)\<lparr>sec_data := data1\<rparr>) pos 0x02
                                      (p_pgm_number p) (p_pmt_version p)) (\<lambda>pmt.
                          Inr (True, p\<lparr>p_pmt := pmt\<lparr>sec_pi := (sec_pi pmt)\<lparr>pi_pid := p_pmt_pid p\<rparr>\<rparr>,
                                       p_pmt_changed := False, p_pmt_version := p_pmt_version p + 1\<rparr>)))))
                else Inr (True, p)) (\<lambda>(ok, p1).
         let mux1 = set_program a p1 mux
         in if \<not> ok then Inr (False, mux1)
            else bindR (tsmux_write_section mux1 (p_pmt p1)) (\<lambda>(ok, mux2, pmt).
                   Inr (ok, set_program a ((m_program_at mux2 a)\<lparr>p_pmt := pmt\<rparr>) mux2))))"

section \<open>Writing a packet of a stream\<close>

text \<open>The PCR derived from the PTS of the last buffer, in 27 MHz units; 90000 / 25 is the threshold.\<close>

definition stream_pcr :: "TsMuxStream \<Rightarrow> u64" where
  "stream_pcr st =
     (let cur_pts = tsmux_stream_get_pts st
      in if cur_pts \<noteq> -1 \<and> sint TSMUX_PCR_OFFSET \<le> sint cur_pts
         then (cur_pts - TSMUX_PCR_OFFSET) * 300 else 0)"

definition pcr_due :: "TsMuxStream \<Rightarrow> u64 \<Rightarrow> bool" where
  "pcr_due st cur_pcr \<longleftrightarrow> s_last_pcr st = -1 \<or> sint (cur_pcr - s_last_pcr st) > 3600"

definition table_due :: "u64 \<Rightarrow> bool \<Rightarrow> u32 \<Rightarrow> u64 \<Rightarrow> bool" where
  "table_due last_ts changed frequency cur_pcr \<longleftrightarrow>
     last_ts = -1 \<or> changed \<or> sint cur_pcr \<ge> sint (last_ts + ucast frequency)"

fun write_due_pmts :: "'w TsMux \<Rightarrow> u64 \<Rightarrow> nat list \<Rightarrow> (bool \<times> 'w TsMux) res" where
  "write_due_pmts mux cur_pcr [] = Inr (True, mux)"
| "write_due_pmts mux cur_pcr (a # as) =
     (let p = m_program_at mux a
      in if table_due (p_last_pmt_ts p) (p_pmt_changed p) (p_pmt_frequency p) cur_pcr
         then bindR (tsmux_write_pmt (set_program a (p\<lparr>p_last_pmt_ts := cur_pcr\<rparr>) mux) a) (\<lambda>(ok, mux1).
                if ok then write_due_pmts mux1 cur_pcr as else Inr (False, mux1))
         else write_due_pmts mux cur_pcr as)"

definition write_pcr_tables :: "'w TsMux \<Rightarrow> nat \<Rightarrow> (bool \<times> 'w TsMux) res" where
  "write_pcr_tables mux a =
     (let st = m_stream_at mux a;
          cur_pcr = stream_pcr st;
          mux1 = (if pcr_due st cur_pcr
                  then (set_stream a (st\<lparr>s_pi := (s_pi st)\<lparr>pi_flags := pi_flags (s_pi st)
                            OR (TSMUX_PACKET_FLAG_ADAPTATION OR TSMUX_PACKET_FLAG_WRITE_PCR),
                          pi_pcr := cur_pcr\<rparr>, s_last_pcr := cur_pcr\<rparr>) mux)\<lparr>m_new_pcr := cur_pcr\<rparr>
                  else mux)
      in bindR (if table_due (m_last_pat_ts mux1) (m_pat_changed mux1) (m_pat_frequency mux1) cur_pcr
                then tsmux_write_pat (mux1\<lparr>m_last_pat_ts := cur_pcr\<rparr>) else Inr (True, mux1)) (\<lambda>(ok, mux2).
         if ok then write_due_pmts mux2 cur_pcr (m_programs mux2) else Inr (False, mux2)))"

text \<open>The payload packet, once the tables have been written.\<close>

definition write_payload :: "release_code \<Rightarrow> 'w TsMux \<Rightarrow> nat \<Rightarrow> (bool \<times> 'w TsMux) res" where
  "write_payload code mux a =
     (let st = m_stream_at mux a;
          pi = (s_pi st)\<lparr>pi_stream_avail := word_of_int (tsmux_stream_bytes_avail st),
                         pi_packet_start_unit_indicator := tsmux_stream_at_pes_start st\<rparr>
      in bindR (tsmux_write_ts_header (m_packet_buf mux) pi)
           (\<lambda>(ok, buf, pi1, payload_len, payload_offs).
            let st1 = st\<lparr>s_pi := pi1\<rparr>
            in if \<not> ok then Inr (False, set_stream a st1 (mux\<lparr>m_packet_buf := buf\<rparr>))
               else bindR (tsmux_stream_get_data code st1 payload_len) (\<lambda>(ok, st2, out).
                    bindR (store buf (unat payload_offs) out) (\<lambda>buf1.
                    let mux2 = set_stream a st2 (mux\<lparr>m_packet_buf := buf1\<rparr>)
                    in if \<not> ok then Inr (False, mux2)
                       else
                         let (res, mux3) = tsmux_packet_out mux2;
                             st3 = m_stream_at mux3 a
                         in Inr (res, set_stream a (set_flags
                              (pi_flags (s_pi st3) AND TSMUX_PACKET_FLAG_PES_FULL_HEADER) st3) mux3)))))"

definition tsmux_write_stream_packet ::
  "release_code \<Rightarrow> 'w TsMux \<Rightarrow> nat option \<Rightarrow> (bool \<times> 'w TsMux) res" where
  "tsmux_write_stream_packet code mux stream =
     (let mux0 = mux\<lparr>m_new_pcr := -1\<rparr>
      in case stream of
        None \<Rightarrow> Inr (False, mux0)
      | Some a \<Rightarrow>
          bindR (if tsmux_stream_is_pcr (m_stream_at mux0 a) then write_pcr_tables mux0 a
                 else Inr (True, mux0)) (\<lambda>(ok, mux1).
          if ok then write_payload code mux1 a else Inr (False, mux1)))"

end
