(* ===== verification/TsTables.thy ===== *)
theory TsTables
  imports TsMux
begin

text \<open>
  The transport of program tables (\<^verbatim>\<open>tsmux_write_section\<close>, \<^verbatim>\<open>tsmux_write_pat\<close>, \<^verbatim>\<open>tsmux_write_pmt\<close> of
  \<^verbatim>\<open>tsmux.c\<close>): which packets a section becomes, what a receiver reassembles from them, for which
  section lengths the packet loop ends, and the layout of the two tables.
\<close>

section \<open>Emitting packets\<close>

text \<open>Handing packets to the client one by one, until it refuses one.\<close>

fun emit :: "bytes list \<Rightarrow> 'w TsMux \<Rightarrow> bool \<times> 'w TsMux" where
  "emit [] mux = (True, mux)"
| "emit (p # ps) mux =
     (let (res, mux1) = tsmux_packet_out (mux\<lparr>m_packet_buf := p\<rparr>);
          mux2 = mux1\<lparr>m_new_pcr := -1\<rparr>
      in if res then emit ps mux2 else (False, mux2))"

definition accepting :: "'w TsMux \<Rightarrow> bool" where
  "accepting mux \<longleftrightarrow> (\<forall>f p w c. m_write_func mux = Some f \<longrightarrow> fst (f p w c))"

lemma packet_out_frame:
  "m_packet_buf (snd (tsmux_packet_out mux)) = m_packet_buf mux"
  "m_write_func (snd (tsmux_packet_out mux)) = m_write_func mux"
  "accepting (snd (tsmux_packet_out mux)) = accepting mux"
  "accepting mux \<Longrightarrow> fst (tsmux_packet_out mux)"
  by (auto simp: tsmux_packet_out_def accepting_def split: option.splits prod.splits)
    (metis fst_conv)

lemma packet_out_cases:
  obtains res w where "tsmux_packet_out mux = (res, mux\<lparr>m_write_func_data := w\<rparr>)"
proof (cases "m_write_func mux")
  case None
  then show ?thesis using that [of True "m_write_func_data mux"] by (simp add: tsmux_packet_out_def)
next
  case (Some f)
  then show ?thesis
    using that by (cases "f (m_packet_buf mux) (m_write_func_data mux) (m_new_pcr mux)")
      (auto simp: tsmux_packet_out_def)
qed

section \<open>One packet of a section\<close>

text \<open>The sections of the multiplexer never ask for adaptation fields.\<close>

lemma section_adapt:
  assumes "pi_flags pi = 0"
  shows "adapt_fits pi"
    and "adapt_width pi = (if unat (pi_stream_avail pi) < 184 then max (184 - unat (pi_stream_avail pi)) 2 else 0)"
  using assms
  by (simp_all add: adapt_fits_def adapt_width_def adapt_body_def has_flag_def word_less_nat_alt)

definition section_pi :: "bool \<Rightarrow> TsMuxPacketInfo \<Rightarrow> TsMuxPacketInfo" where
  "section_pi first pi = (if first then pi\<lparr>pi_stream_avail := pi_stream_avail pi + 1\<rparr> else pi)"

definition section_room :: "TsMuxPacketInfo \<Rightarrow> nat" where
  "section_room pi = (let first = pi_packet_start_unit_indicator pi
     in 184 - adapt_width (section_pi first pi) - (if first then 1 else 0))"

definition section_packet :: "TsMuxPacketInfo \<Rightarrow> bytes \<Rightarrow> bytes" where
  "section_packet pi bs = (let first = pi_packet_start_unit_indicator pi
     in ts_header_bytes (section_pi first pi) @ (if first then [0] else []) @ bs)"

lemma section_iter:
  assumes buf: "length (m_packet_buf mux) = 188" and wf: "packet_info_wf (sec_pi sec)"
    and fl: "pi_flags (sec_pi sec) = 0" and r: "remain \<noteq> 0"
    and av: "0 < unat (pi_stream_avail (sec_pi sec))" "unat (pi_stream_avail (sec_pi sec)) < 2 ^ 32 - 1"
  shows "write_section_loop (Suc fuel) mux sec cur remain =
    (let k = section_room (sec_pi sec);
         sec1 = sec\<lparr>sec_pi := (sec_pi sec)\<lparr>pi_packet_count := pi_packet_count (sec_pi sec) + 1,
                      pi_packet_start_unit_indicator := False\<rparr>\<rparr>
     in bindR (load (sec_data sec) cur k) (\<lambda>bs.
        let (res, mux1) = tsmux_packet_out (mux\<lparr>m_packet_buf := section_packet (sec_pi sec) bs\<rparr>);
            mux2 = mux1\<lparr>m_new_pcr := -1\<rparr>
        in if \<not> res then Inr (False, mux2, sec1)
           else write_section_loop fuel mux2 sec1 (cur + k) (remain - of_nat k)))"
proof -
  define pi where "pi = sec_pi sec"
  define first where "first = pi_packet_start_unit_indicator pi"
  define q where "q = section_pi first pi"
  have q: "packet_info_wf q" "pi_flags q = 0" "pi_packet_count q = pi_packet_count pi"
    using wf fl by (simp_all add: q_def section_pi_def pi_def packet_info_wf_def)
  have aq: "unat (pi_stream_avail q) = unat (pi_stream_avail pi) + (if first then 1 else 0)"
    using av by (simp add: q_def section_pi_def pi_def unat_word_ariths)
  define w where "w = adapt_width q"
  have w: "w < 184" using av(1) aq unfolding w_def section_adapt(2) [OF q(2)] by (auto simp: pi_def)
  have q_eq: "(if first then pi\<lparr>pi_stream_avail := pi_stream_avail pi + 1\<rparr> else pi) = q"
    by (simp add: q_def section_pi_def)
  have cq: "count_packet q = q\<lparr>pi_packet_count := pi_packet_count q + 1\<rparr>"
    using w by (simp add: count_packet_def w_def)
  have restored: "(if first then (count_packet q)\<lparr>pi_stream_avail := pi_stream_avail (count_packet q) - 1\<rparr>
       else count_packet q) = pi\<lparr>pi_packet_count := pi_packet_count pi + 1\<rparr>"
    unfolding cq by (simp add: q_def section_pi_def)
  define p where "p = 184 - w"
  have p: "0 < p" "p \<le> 184" using w by (simp_all add: p_def)
  define k where "k = p - (if first then 1 else 0)"
  have k: "(if first then of_nat p - 1 else of_nat p) = (of_nat k :: u32)" "k < 2 ^ 32"
    using p by (simp_all add: k_def of_nat_diff)
  have off: "unat (of_nat (4 + w) :: u32) = 4 + w" using w by (intro of_nat_less_word32_iff) simp
  have off': "unat (if first then of_nat (4 + w) + 1 else of_nat (4 + w) :: u32) = 4 + w + (if first then 1 else 0)"
    using w off by (simp add: unat_word_ariths)
  obtain b0 tl where d: "drop (4 + w) (m_packet_buf mux) = b0 # tl" and tl: "length tl = p - 1"
    using buf w by (cases "drop (4 + w) (m_packet_buf mux)") (auto simp: p_def dest: arg_cong [of _ _ length])
  have hl: "length (ts_header_bytes q) = 4 + w" by (simp add: w_def)
  have s1: "(if first then store (ts_header_bytes q @ b0 # tl) (4 + w) [0] else Inr (ts_header_bytes q @ b0 # tl))
      = Inr (ts_header_bytes q @ (if first then 0 else b0) # tl)"
    using hl by (simp add: store_def)
  have s2: "store (ts_header_bytes q @ (if first then 0 else b0) # tl) (4 + w + (if first then 1 else 0)) bs
      = Inr (section_packet pi bs)" if "length bs = k" for bs
    using that hl tl p
    by (auto simp: store_def section_packet_def Let_def first_def [symmetric] q_def [symmetric] k_def)
  have room: "section_room pi = k"
    by (simp add: section_room_def Let_def first_def [symmetric] q_def [symmetric] k_def p_def w_def)
  note fits = write_ts_header_fits [OF buf q(1) section_adapt(1) [OF q(2)], unfolded w_def [symmetric] d p_def [symmetric]]
  have ld: "bindR (load (sec_data sec) cur k) f = bindR (load (sec_data sec) cur k) g"
    if "\<And>bs. length bs = k \<Longrightarrow> f bs = g bs" for f g :: "bytes \<Rightarrow> (bool \<times> 'a TsMux \<times> TsMuxSection) res"
    using that by (auto simp: load_def)
  show ?thesis
    unfolding write_section_loop.simps(2) Let_def pi_def [symmetric] first_def [symmetric] q_eq fits
      bindR_simps prod.case restored off s1 k(1) off' room of_nat_less_word32_iff [OF k(2)]
      if_not_P [OF r] not_True_eq_False if_False
    by (rule ld) (simp only: s2 bindR_simps)
qed

lemma section_room_cases:
  assumes "pi_flags pi = 0" and "unat (pi_stream_avail pi) = n" and "n < 2 ^ 32 - 1"
  shows "section_room pi =
    (if pi_packet_start_unit_indicator pi then (if n \<le> 181 then n else if n = 182 then 181 else 183)
     else if n < 184 then min n 182 else 184)"
proof -
  have "unat (pi_stream_avail pi + 1) = n + 1" using assms by (simp add: unat_word_ariths)
  then show ?thesis
    using assms by (auto simp: section_room_def section_pi_def section_adapt)
qed

lemma section_packet_length:
  assumes "pi_flags pi = 0" and "0 < unat (pi_stream_avail pi)" and "unat (pi_stream_avail pi) < 2 ^ 32 - 1"
    and "length bs = section_room pi"
  shows "length (section_packet pi bs) = 188"
proof -
  let ?q = "section_pi (pi_packet_start_unit_indicator pi) pi"
  have "0 < unat (pi_stream_avail ?q)" using assms(2,3) by (simp add: section_pi_def unat_word_ariths)
  moreover have "pi_flags ?q = 0" using assms(1) by (simp add: section_pi_def)
  ultimately have "adapt_width ?q < 184" using section_adapt(2) [of ?q] by auto
  then show ?thesis
    using assms(4) by (cases "pi_packet_start_unit_indicator pi") (simp_all add: section_packet_def section_room_def Let_def)
qed

section \<open>The packets of a section\<close>

fun section_rest :: "nat \<Rightarrow> TsMuxPacketInfo \<Rightarrow> bytes \<Rightarrow> bytes list" where
  "section_rest 0 pi bs = []"
| "section_rest (Suc j) pi bs = section_packet pi (take 184 bs)
     # section_rest j (pi\<lparr>pi_packet_count := pi_packet_count pi + 1\<rparr>) (drop 184 bs)"

definition section_packets :: "TsMuxPacketInfo \<Rightarrow> bytes \<Rightarrow> bytes list" where
  "section_packets pi bs = section_packet (pi\<lparr>pi_packet_start_unit_indicator := True\<rparr>) (take 183 bs)
     # section_rest ((length bs - 183) div 184)
         (pi\<lparr>pi_packet_start_unit_indicator := False, pi_packet_count := pi_packet_count pi + 1\<rparr>) (drop 183 bs)"

definition section_fits :: "nat \<Rightarrow> bool" where
  "section_fits n \<longleftrightarrow> n \<le> 181 \<or> n mod 184 = 183"

text \<open>What both loops need of a section, and what every iteration keeps.\<close>

definition section_wf :: "'w TsMux \<Rightarrow> TsMuxSection \<Rightarrow> nat \<Rightarrow> bool" where
  "section_wf mux sec n \<longleftrightarrow> length (m_packet_buf mux) = 188 \<and> packet_info_wf (sec_pi sec)
     \<and> pi_flags (sec_pi sec) = 0 \<and> unat (pi_stream_avail (sec_pi sec)) = n \<and> 0 < n \<and> n < 2 ^ 32 - 1"

lemma section_step:
  assumes wf: "section_wf mux sec n" and "remain \<noteq> 0" and k: "section_room (sec_pi sec) = k"
    and ld: "cur + k \<le> length (sec_data sec)"
  defines "sec1 \<equiv> sec\<lparr>sec_pi := (sec_pi sec)\<lparr>pi_packet_count := pi_packet_count (sec_pi sec) + 1,
                      pi_packet_start_unit_indicator := False\<rparr>\<rparr>"
    and "pkt \<equiv> section_packet (sec_pi sec) (take k (drop cur (sec_data sec)))"
  obtains res mux2 where "\<forall>fuel. write_section_loop (Suc fuel) mux sec cur remain =
       (if res then write_section_loop fuel mux2 sec1 (cur + k) (remain - of_nat k)
        else Inr (False, mux2, sec1))"
    and "\<forall>ps. emit (pkt # ps) mux = (if res then emit ps mux2 else (False, mux2))"
    and "section_wf mux2 sec1 n" and "accepting mux \<Longrightarrow> res" and "accepting mux2 = accepting mux"
proof -
  obtain res w where out: "tsmux_packet_out (mux\<lparr>m_packet_buf := pkt\<rparr>)
      = (res, mux\<lparr>m_packet_buf := pkt, m_write_func_data := w\<rparr>)"
    using packet_out_cases [of "mux\<lparr>m_packet_buf := pkt\<rparr>"] by metis
  let ?mux2 = "mux\<lparr>m_packet_buf := pkt, m_write_func_data := w, m_new_pcr := -1\<rparr>"
  have n: "0 < n" "n < 2 ^ 32 - 1" "unat (pi_stream_avail (sec_pi sec)) = n"
    and h: "length (m_packet_buf mux) = 188" "packet_info_wf (sec_pi sec)" "pi_flags (sec_pi sec) = 0"
    using wf by (simp_all add: section_wf_def)
  have "length pkt = 188"
    using n h(3) ld k unfolding pkt_def by (intro section_packet_length) simp_all
  then have wf2: "section_wf ?mux2 sec1 n"
    using wf by (simp add: section_wf_def sec1_def packet_info_wf_def)
  have acc: "accepting ?mux2 = accepting mux" by (simp add: accepting_def)
  have "accepting (mux\<lparr>m_packet_buf := pkt\<rparr>) = accepting mux" by (simp add: accepting_def)
  then have res: "accepting mux \<Longrightarrow> res"
    using packet_out_frame(4) [of "mux\<lparr>m_packet_buf := pkt\<rparr>"] out by simp
  have "\<forall>fuel. write_section_loop (Suc fuel) mux sec cur remain =
       (if res then write_section_loop fuel ?mux2 sec1 (cur + k) (remain - of_nat k)
        else Inr (False, ?mux2, sec1))"
    using ld n section_iter [OF h assms(2)]
    unfolding k Let_def sec1_def [symmetric] load_def
    by (simp add: pkt_def [symmetric] out)
  moreover have "\<forall>ps. emit (pkt # ps) mux = (if res then emit ps ?mux2 else (False, ?mux2))"
    by (simp add: out)
  ultimately show ?thesis using wf2 res acc that by blast
qed

lemma section_rest_loop:
  "section_wf mux sec n \<Longrightarrow> 184 \<le> n \<Longrightarrow> \<not> pi_packet_start_unit_indicator (sec_pi sec) \<Longrightarrow>
   cur + 184 * j \<le> length (sec_data sec) \<Longrightarrow> 184 * j < 2 ^ 32 \<Longrightarrow> j \<le> fuel \<Longrightarrow>
   \<exists>c. write_section_loop fuel mux sec cur (of_nat (184 * j)) =
     (case emit (section_rest j (sec_pi sec) (take (184 * j) (drop cur (sec_data sec)))) mux of
       (ok, mux') \<Rightarrow> Inr (ok, mux', sec\<lparr>sec_pi := (sec_pi sec)\<lparr>pi_packet_count := c\<rparr>\<rparr>))"
proof (induction j arbitrary: mux sec cur fuel)
  case 0
  have "write_section_loop fuel mux sec cur 0 = Inr (True, mux, sec)" by (cases fuel) simp_all
  then show ?case by (intro exI [of _ "pi_packet_count (sec_pi sec)"]) simp
next
  case (Suc j)
  let ?data = "sec_data sec" and ?pi = "sec_pi sec"
  let ?sec1 = "sec\<lparr>sec_pi := ?pi\<lparr>pi_packet_count := pi_packet_count ?pi + 1, pi_packet_start_unit_indicator := False\<rparr>\<rparr>"
  obtain f where f: "fuel = Suc f" using Suc.prems(6) by (cases fuel) auto
  have room: "section_room ?pi = 184"
    using Suc.prems(1-3) section_room_cases [of ?pi n] by (simp add: section_wf_def)
  have un: "unat (of_nat (184 * Suc j) :: u32) = 184 * Suc j" using Suc.prems(5) by (rule of_nat_less_word32_iff)
  then have nz: "(of_nat (184 * Suc j) :: u32) \<noteq> 0" by (metis mult_is_0 nat.distinct(1) unat_0 zero_neq_numeral)
  have bound: "cur + 184 \<le> length ?data" using Suc.prems(4) by simp
  obtain res mux2 where step: "\<forall>fuel. write_section_loop (Suc fuel) mux sec cur (of_nat (184 * Suc j)) =
       (if res then write_section_loop fuel mux2 ?sec1 (cur + 184) (of_nat (184 * Suc j) - of_nat 184)
        else Inr (False, mux2, ?sec1))"
    and em: "\<forall>ps. emit (section_packet ?pi (take 184 (drop cur ?data)) # ps) mux = (if res then emit ps mux2 else (False, mux2))"
    and wf2: "section_wf mux2 ?sec1 n"
    using section_step [OF Suc.prems(1) nz room bound] by metis
  have pi1: "?pi\<lparr>pi_packet_count := c, pi_packet_start_unit_indicator := False\<rparr> = ?pi\<lparr>pi_packet_count := c\<rparr>" for c
    using Suc.prems(3) by simp
  obtain c where IH: "write_section_loop f mux2 ?sec1 (cur + 184) (of_nat (184 * j)) =
      (case emit (section_rest j (sec_pi ?sec1) (take (184 * j) (drop (cur + 184) (sec_data ?sec1)))) mux2 of
       (ok, mux') \<Rightarrow> Inr (ok, mux', ?sec1\<lparr>sec_pi := (sec_pi ?sec1)\<lparr>pi_packet_count := c\<rparr>\<rparr>))"
    using Suc.IH [OF wf2 Suc.prems(2), of "cur + 184" f] Suc.prems(4-6) f by auto
  have diff: "of_nat (184 * Suc j) - of_nat 184 = (of_nat (184 * j) :: u32)" by simp
  have pkt: "take 184 (take (184 * Suc j) (drop cur ?data)) = take 184 (drop cur ?data)"
    "drop 184 (take (184 * Suc j) (drop cur ?data)) = take (184 * j) (drop (cur + 184) ?data)"
    by (simp_all add: drop_take ac_simps)
  show ?case
  proof (cases res)
    case True
    then show ?thesis
      unfolding f step [rule_format] diff section_rest.simps pkt em [rule_format] if_P [OF True] IH
      by (intro exI [of _ c]) (simp add: pi1)
  next
    case False
    then show ?thesis
      unfolding f step [rule_format] section_rest.simps pkt em [rule_format]
      by (intro exI [of _ "pi_packet_count ?pi + 1"]) (simp add: pi1)
  qed
qed

lemma section_overrun_loop:
  "section_wf mux sec n \<Longrightarrow> \<not> pi_packet_start_unit_indicator (sec_pi sec) \<Longrightarrow> accepting mux \<Longrightarrow>
   section_room (sec_pi sec) = k \<Longrightarrow> cur \<le> length (sec_data sec) \<Longrightarrow>
   length (sec_data sec) < cur + fuel * k \<Longrightarrow>
   \<forall>i. cur + i * k \<le> length (sec_data sec) \<longrightarrow> remain \<noteq> of_nat (i * k) \<Longrightarrow>
   write_section_loop fuel mux sec cur remain = Inl OutOfBounds"
proof (induction fuel arbitrary: mux sec cur remain)
  case 0
  then show ?case by simp
next
  case (Suc f)
  let ?sec1 = "sec\<lparr>sec_pi := (sec_pi sec)\<lparr>pi_packet_count := pi_packet_count (sec_pi sec) + 1, pi_packet_start_unit_indicator := False\<rparr>\<rparr>"
  have r: "remain \<noteq> 0" using Suc.prems(5) Suc.prems(7) [rule_format, of 0] by simp
  show ?case
  proof (cases "cur + k \<le> length (sec_data sec)")
    case False
    then show ?thesis
      using section_iter [of mux sec remain f cur] Suc.prems(1,4) r by (simp add: section_wf_def Let_def load_def)
  next
    case True
    obtain res mux2 where step: "\<forall>fuel. write_section_loop (Suc fuel) mux sec cur remain =
       (if res then write_section_loop fuel mux2 ?sec1 (cur + k) (remain - of_nat k)
        else Inr (False, mux2, ?sec1))"
      and wf2: "section_wf mux2 ?sec1 n" and acc: "accepting mux \<Longrightarrow> res" "accepting mux2 = accepting mux"
      using section_step [OF Suc.prems(1) r Suc.prems(4) True] by metis
    have room1: "section_room (sec_pi ?sec1) = k"
      using Suc.prems(1,2,4) wf2 section_room_cases [of "sec_pi sec" n] section_room_cases [of "sec_pi ?sec1" n]
      by (simp add: section_wf_def)
    have "\<forall>i. cur + k + i * k \<le> length (sec_data ?sec1) \<longrightarrow> remain - of_nat k \<noteq> of_nat (i * k)"
    proof (intro allI impI notI)
      fix i
      assume "cur + k + i * k \<le> length (sec_data ?sec1)" and eq: "remain - of_nat k = of_nat (i * k)"
      then have "remain \<noteq> of_nat (Suc i * k)" using Suc.prems(7) [rule_format, of "Suc i"] by simp
      moreover have "remain = of_nat (i * k) + of_nat k" using eq by (metis diff_add_cancel)
      ultimately show False by (simp add: algebra_simps)
    qed
    then have "write_section_loop f mux2 ?sec1 (cur + k) (remain - of_nat k) = Inl OutOfBounds"
      using Suc.IH [OF wf2 _ _ room1, of "cur + k" "remain - of_nat k"] acc Suc.prems(3,6) True by simp
    then show ?thesis using step acc(1) Suc.prems(3) by simp
  qed
qed

text \<open>The first packet, from the state in which the loop is entered.\<close>

lemma section_first:
  assumes wf: "section_wf mux sec n" and len: "k \<le> length (sec_data sec)"
    and k: "k = (if n \<le> 181 then n else if n = 182 then 181 else 183)"
  defines "sec0 \<equiv> sec\<lparr>sec_pi := (sec_pi sec)\<lparr>pi_packet_start_unit_indicator := True\<rparr>\<rparr>"
    and "sec1 \<equiv> sec\<lparr>sec_pi := (sec_pi sec)\<lparr>pi_packet_start_unit_indicator := False,
                     pi_packet_count := pi_packet_count (sec_pi sec) + 1\<rparr>\<rparr>"
  obtains res mux2 where "\<forall>fuel. write_section_loop (Suc fuel) mux sec0 0 (of_nat n) =
       (if res then write_section_loop fuel mux2 sec1 k (of_nat n - of_nat k) else Inr (False, mux2, sec1))"
    and "\<forall>ps. emit (section_packet (sec_pi sec0) (take k (sec_data sec)) # ps) mux = (if res then emit ps mux2 else (False, mux2))"
    and "section_wf mux2 sec1 n" and "accepting mux \<longrightarrow> res" and "accepting mux2 = accepting mux"
proof -
  have wf0: "section_wf mux sec0 n" using wf by (simp add: sec0_def section_wf_def packet_info_wf_def)
  have room: "section_room (sec_pi sec0) = k"
    using wf0 section_room_cases [of "sec_pi sec0" n] by (simp add: section_wf_def sec0_def k)
  have "unat (of_nat n :: u32) = n" "0 < n" using wf by (auto simp: section_wf_def)
  then have nz: "of_nat n \<noteq> (0 :: u32)" by (metis less_irrefl unat_0)
  have len0: "0 + k \<le> length (sec_data sec0)" using len by (simp add: sec0_def)
  have eq: "sec0\<lparr>sec_pi := (sec_pi sec0)\<lparr>pi_packet_count := pi_packet_count (sec_pi sec0) + 1,
                      pi_packet_start_unit_indicator := False\<rparr>\<rparr> = sec1" "sec_data sec0 = sec_data sec"
    by (simp_all add: sec0_def sec1_def)
  show thesis
    by (rule section_step [OF wf0 nz room len0, unfolded eq add_0 drop_0]) (blast intro: that)
qed

lemma write_section_emits:
  assumes wf: "section_wf mux sec n" and fit: "section_fits n" and len: "n \<le> length (sec_data sec)"
    and max: "n \<le> TSMUX_MAX_SECTION_LENGTH"
  shows "\<exists>c. tsmux_write_section mux sec =
     (case emit (section_packets (sec_pi sec) (take n (sec_data sec))) mux of
       (ok, mux') \<Rightarrow> Inr (ok, mux', sec\<lparr>sec_pi := (sec_pi sec)\<lparr>pi_packet_start_unit_indicator := False,
                                                        pi_packet_count := c\<rparr>\<rparr>))"
proof -
  let ?pi = "sec_pi sec" and ?data = "sec_data sec"
  let ?sec0 = "sec\<lparr>sec_pi := ?pi\<lparr>pi_packet_start_unit_indicator := True\<rparr>\<rparr>"
  let ?sec1 = "sec\<lparr>sec_pi := ?pi\<lparr>pi_packet_start_unit_indicator := False, pi_packet_count := pi_packet_count ?pi + 1\<rparr>\<rparr>"
  define k where "k = min n 183"
  define j where "j = (n - 183) div 184"
  have n: "n = k + 184 * j"
  proof (cases "n \<le> 181")
    case True then show ?thesis by (simp add: k_def j_def)
  next
    case False
    then have "n mod 184 = 183" using fit by (simp add: section_fits_def)
    then obtain m where "n = 184 * m + 183" by (metis mult_div_mod_eq)
    then show ?thesis by (simp add: k_def j_def)
  qed
  have "n \<noteq> 182" using fit by (auto simp: section_fits_def)
  have avail: "pi_stream_avail ?pi = of_nat n" using wf by (auto simp: section_wf_def)
  have k: "k \<le> length ?data" "k = (if n \<le> 181 then n else if n = 182 then 181 else 183)"
    using len \<open>n \<noteq> 182\<close> by (auto simp: k_def)
  obtain res mux2 where step: "\<forall>fuel. write_section_loop (Suc fuel) mux ?sec0 0 (of_nat n) =
       (if res then write_section_loop fuel mux2 ?sec1 k (of_nat n - of_nat k) else Inr (False, mux2, ?sec1))"
    and em: "\<forall>ps. emit (section_packet (sec_pi ?sec0) (take k ?data) # ps) mux = (if res then emit ps mux2 else (False, mux2))"
    and wf2: "section_wf mux2 ?sec1 n"
    using wf k by (rule section_first)
  have rest: "\<exists>c. write_section_loop fuel mux2 ?sec1 k (of_nat (184 * j)) =
     (case emit (section_rest j (sec_pi ?sec1) (take (184 * j) (drop k ?data))) mux2 of
       (ok, mux') \<Rightarrow> Inr (ok, mux', ?sec1\<lparr>sec_pi := (sec_pi ?sec1)\<lparr>pi_packet_count := c\<rparr>\<rparr>))" if "j \<le> fuel" for fuel
  proof (cases "j = 0")
    case True
    have "write_section_loop fuel mux2 ?sec1 k 0 = Inr (True, mux2, ?sec1)" by (cases fuel) simp_all
    then show ?thesis using True by (intro exI [of _ "pi_packet_count ?pi + 1"]) simp
  next
    case False
    then have "184 \<le> n" using n by (auto simp: k_def)
    then show ?thesis using section_rest_loop [OF wf2, of k j fuel] that n len max by simp
  qed
  have d: "of_nat n - of_nat k = (of_nat (184 * j) :: u32)" by (simp add: n)
  have "take 183 (take n ?data) = take k ?data" by (simp add: k_def min.commute)
  moreover have "drop 183 (take n ?data) = take (184 * j) (drop k ?data)"
    using n by (cases "j = 0") (simp_all add: drop_take k_def min_def split: if_splits)
  moreover have "length (take n ?data) = n" using len by simp
  ultimately have pk: "take 183 (take n ?data) = take k ?data"
    "drop 183 (take n ?data) = take (184 * j) (drop k ?data)" "length (take n ?data) = n" by simp_all
  have p: "section_packets ?pi (take n ?data) = section_packet (sec_pi ?sec0) (take k ?data)
      # section_rest j (sec_pi ?sec1) (take (184 * j) (drop k ?data))"
    unfolding section_packets_def using pk by (simp add: j_def)
  define F where "F = Suc TSMUX_MAX_SECTION_LENGTH"
  have "j \<le> F" using n max by (simp add: F_def)
  from rest [OF this] obtain c where last: "write_section_loop F mux2 ?sec1 k (of_nat (184 * j)) =
     (case emit (section_rest j (sec_pi ?sec1) (take (184 * j) (drop k ?data))) mux2 of
       (ok, mux') \<Rightarrow> Inr (ok, mux', ?sec1\<lparr>sec_pi := (sec_pi ?sec1)\<lparr>pi_packet_count := c\<rparr>\<rparr>))" by blast
  show ?thesis
    unfolding tsmux_write_section_def avail F_def [symmetric] step [rule_format] p em [rule_format] d last
    by (intro exI [of _ "if res then c else pi_packet_count ?pi + 1"]) simp
qed

lemma write_section_overruns:
  assumes wf: "section_wf mux sec n" and fit: "\<not> section_fits n" and acc: "accepting mux"
    and len: "n \<le> length (sec_data sec)" "length (sec_data sec) = TSMUX_MAX_SECTION_LENGTH"
  shows "tsmux_write_section mux sec = Inl OutOfBounds"
proof -
  let ?pi = "sec_pi sec" and ?data = "sec_data sec"
  let ?sec0 = "sec\<lparr>sec_pi := ?pi\<lparr>pi_packet_start_unit_indicator := True\<rparr>\<rparr>"
  let ?sec1 = "sec\<lparr>sec_pi := ?pi\<lparr>pi_packet_start_unit_indicator := False, pi_packet_count := pi_packet_count ?pi + 1\<rparr>\<rparr>"
  have n: "182 \<le> n" "n mod 184 \<noteq> 183" using fit by (auto simp: section_fits_def)
  define k where "k = (if n = 182 then 181 else 183 :: nat)"
  define m where "m = (if n < 184 then 182 else 184 :: nat)"
  have avail: "pi_stream_avail ?pi = of_nat n" using wf by (auto simp: section_wf_def)
  have k: "k \<le> length ?data" "k = (if n \<le> 181 then n else if n = 182 then 181 else 183)"
    using len n(1) by (auto simp: k_def)
  obtain res mux2 where step: "\<forall>fuel. write_section_loop (Suc fuel) mux ?sec0 0 (of_nat n) =
       (if res then write_section_loop fuel mux2 ?sec1 k (of_nat n - of_nat k) else Inr (False, mux2, ?sec1))"
    and "\<forall>ps. emit (section_packet (sec_pi ?sec0) (take k ?data) # ps) mux = (if res then emit ps mux2 else (False, mux2))"
    and wf2: "section_wf mux2 ?sec1 n" and acc2: "accepting mux \<longrightarrow> res" "accepting mux2 = accepting mux"
    using wf k by (rule section_first)
  have room1: "section_room (sec_pi ?sec1) = m"
    using wf2 n section_room_cases [of "sec_pi ?sec1" n] by (simp add: section_wf_def m_def)
  have "of_nat n - of_nat k \<noteq> (of_nat (i * m) :: u32)" if "k + i * m \<le> 4096" for i
  proof
    assume eq: "of_nat n - of_nat k = (of_nat (i * m) :: u32)"
    have "(of_nat n :: u32) = of_nat (k + i * m)" using eq by (metis diff_eq_eq of_nat_add add.commute)
    then have "unat (of_nat n :: u32) = unat (of_nat (k + i * m) :: u32)" by (rule arg_cong)
    moreover have "n < 2 ^ 32" "k + i * m < 2 ^ 32" using that len by simp_all
    ultimately have "n = k + i * m" by (simp only: of_nat_less_word32_iff)
    then show False using n by (auto simp: k_def m_def split: if_splits)
  qed
  moreover define F where "F = Suc TSMUX_MAX_SECTION_LENGTH"
  ultimately have "write_section_loop F mux2 ?sec1 k (of_nat n - of_nat k) = Inl OutOfBounds"
    using acc acc2 len k(1)
    by (intro section_overrun_loop [OF wf2 _ _ room1]) (simp_all add: m_def)
  then show ?thesis
    unfolding tsmux_write_section_def avail F_def [symmetric] step [rule_format] using acc acc2 by simp
qed

section \<open>What a receiver reassembles\<close>

text \<open>
  A receiver takes the packets of one PID, expects the start indicator on the first one only
  and consecutive continuity counters, and concatenates the payloads.
\<close>

fun reassemble :: "u16 \<Rightarrow> bool \<Rightarrow> u8 \<Rightarrow> bytes list \<Rightarrow> bytes option" where
  "reassemble pid start c [] = Some []"
| "reassemble pid start c (p # ps) =
     (case ts_parse p of None \<Rightarrow> None
      | Some tp \<Rightarrow>
          if tp_pid tp = pid \<and> tp_start tp = start \<and> tp_counter tp = take_bit 4 c
          then (case tp_payload tp of None \<Rightarrow> None
            | Some xs \<Rightarrow> map_option (append xs) (reassemble pid False (c + 1) ps))
          else None)"

lemma section_packet_parse:
  assumes "pi_flags pi = 0" and "0 < unat (pi_stream_avail pi)" and "unat (pi_stream_avail pi) < 2 ^ 32 - 1"
    and "length bs = section_room pi" and "pi_pid pi < 2 ^ 13"
  shows "ts_parse (section_packet pi bs) =
    Some \<lparr>tp_start = pi_packet_start_unit_indicator pi, tp_pid = pi_pid pi,
          tp_counter = take_bit 4 (pi_packet_count pi),
          tp_payload = Some ((if pi_packet_start_unit_indicator pi then [0] else []) @ bs)\<rparr>"
proof -
  let ?q = "section_pi (pi_packet_start_unit_indicator pi) pi"
  let ?payload = "(if pi_packet_start_unit_indicator pi then [0] else []) @ bs"
  have q: "pi_flags ?q = 0" "pi_pid ?q = pi_pid pi" "pi_packet_count ?q = pi_packet_count pi"
    "pi_packet_start_unit_indicator ?q = pi_packet_start_unit_indicator pi"
    using assms(1) by (simp_all add: section_pi_def)
  have "length (section_packet pi bs) = 188" using assms(1-4) by (rule section_packet_length)
  then have len: "length ?payload = 184 - adapt_width ?q" by (simp add: section_packet_def Let_def)
  have "0 < unat (pi_stream_avail ?q)" using assms(2,3) by (simp add: section_pi_def unat_word_ariths)
  then have "adapt_width ?q < 184" using section_adapt(2) [OF q(1)] by auto
  then have "?payload \<noteq> []" using len by (metis length_0_conv zero_less_diff less_irrefl)
  then show ?thesis
    using ts_parse_header [OF section_adapt(1) [OF q(1)] _ len] assms(5) q
    by (simp add: section_packet_def Let_def)
qed

lemma reassemble_rest:
  "pi_flags pi = 0 \<Longrightarrow> unat (pi_stream_avail pi) = n \<Longrightarrow> 184 \<le> n \<Longrightarrow> n < 2 ^ 32 - 1 \<Longrightarrow>
   pi_pid pi < 2 ^ 13 \<Longrightarrow> \<not> pi_packet_start_unit_indicator pi \<Longrightarrow> length bs = 184 * j \<Longrightarrow>
   reassemble (pi_pid pi) False (pi_packet_count pi) (section_rest j pi bs) = Some bs"
proof (induction j arbitrary: pi bs)
  case (Suc j)
  let ?pi1 = "pi\<lparr>pi_packet_count := pi_packet_count pi + 1\<rparr>"
  have "section_room pi = 184" using Suc.prems section_room_cases [of pi n] by simp
  then have "ts_parse (section_packet pi (take 184 bs)) =
    Some \<lparr>tp_start = False, tp_pid = pi_pid pi, tp_counter = take_bit 4 (pi_packet_count pi),
          tp_payload = Some (take 184 bs)\<rparr>"
    using Suc.prems section_packet_parse [of pi "take 184 bs"] by simp
  moreover have "reassemble (pi_pid ?pi1) False (pi_packet_count ?pi1) (section_rest j ?pi1 (drop 184 bs)) = Some (drop 184 bs)"
    using Suc.prems by (intro Suc.IH) simp_all
  ultimately show ?case by simp
qed simp

lemma reassemble_section:
  assumes fl: "pi_flags pi = 0" and av: "unat (pi_stream_avail pi) = n" "0 < n" "n < 2 ^ 32 - 1"
    and pid: "pi_pid pi < 2 ^ 13" and len: "length bs = n" and fit: "section_fits n"
  shows "reassemble (pi_pid pi) True (pi_packet_count pi) (section_packets pi bs) = Some (0 # bs)"
proof -
  let ?pi0 = "pi\<lparr>pi_packet_start_unit_indicator := True\<rparr>"
  let ?pi1 = "pi\<lparr>pi_packet_start_unit_indicator := False, pi_packet_count := pi_packet_count pi + 1\<rparr>"
  define j where "j = (n - 183) div 184"
  have "n \<noteq> 182" using fit by (auto simp: section_fits_def)
  then have "section_room ?pi0 = length (take 183 bs)"
    using section_room_cases [of ?pi0 n] fl av len by simp
  then have "ts_parse (section_packet ?pi0 (take 183 bs)) =
    Some \<lparr>tp_start = True, tp_pid = pi_pid pi, tp_counter = take_bit 4 (pi_packet_count pi),
          tp_payload = Some (0 # take 183 bs)\<rparr>"
    using section_packet_parse [of ?pi0 "take 183 bs"] fl av pid by simp
  moreover have "reassemble (pi_pid pi) False (pi_packet_count pi + 1) (section_rest j ?pi1 (drop 183 bs)) = Some (drop 183 bs)"
  proof (cases "n \<le> 183")
    case True
    then show ?thesis using len by (simp add: j_def)
  next
    case False
    then have "n mod 184 = 183" using fit by (simp add: section_fits_def)
    then obtain m where m: "n = 184 * m + 183" by (metis mult_div_mod_eq)
    then have "length (drop 183 bs) = 184 * j" using len by (simp add: j_def)
    then show ?thesis using reassemble_rest [of ?pi1 n "drop 183 bs" j] fl av pid m False by simp
  qed
  ultimately show ?thesis by (simp add: section_packets_def len j_def [symmetric])
qed

section \<open>Table sections\<close>

definition psi_section :: "u8 \<Rightarrow> u16 \<Rightarrow> u8 \<Rightarrow> bytes \<Rightarrow> bytes" where
  "psi_section table_id i version body =
     (let h = tsmux_write_section_hdr table_id (of_nat (length body + 12)) i version 0 0 @ body
      in h @ tsmux_put32 (calc_crc32 h))"

text \<open>
  The layout of a table section: table id, syntax indicator and 12 bit length, id, version, two
  section numbers, body, and a CRC that leaves remainder zero.
\<close>

definition psi_parse :: "bytes \<Rightarrow> (u8 \<times> u16 \<times> u8 \<times> bytes) option" where
  "psi_parse bs =
     (case bs of
        tid # l1 # l2 # i1 # i2 # v # nr # nr_last # rest \<Rightarrow>
          let l = push_bit 8 (ucast l1) OR ucast l2 :: u16
          in if bit l 15 \<and> length rest + 5 = unat (take_bit 12 l) \<and> 4 \<le> length rest \<and> nr = 0 \<and> nr_last = 0
                \<and> bit v 0 \<and> calc_crc32 bs = 0
             then Some (tid, push_bit 8 (ucast i1) OR ucast i2, take_bit 5 (drop_bit 1 v), take (length rest - 4) rest)
             else None
      | _ \<Rightarrow> None)"

lemma section_hdr_length [simp]: "length (tsmux_write_section_hdr t l i v a b) = 8"
  by (simp add: tsmux_write_section_hdr_def)

lemma psi_section_length [simp]: "length (psi_section t i v body) = length body + 12"
  by (simp add: psi_section_def Let_def tsmux_put32_def)

lemma psi_parse_section:
  assumes "length body + 12 \<le> TSMUX_MAX_SECTION_LENGTH"
  shows "psi_parse (psi_section t i v body) = Some (t, i, take_bit 5 v, body)"
proof -
  define n where "n = length body + 9"
  define l where "l = (0xB000 OR (of_nat (length body + 12) - 3) :: u16)"
  define w where "w = (0xC0 OR push_bit 1 (v AND 0x1F) OR 0x01 :: u8)"
  have "of_nat (length body + 12) - 3 = (of_nat n :: u16)" by (simp add: n_def)
  then have l: "l = 0xB000 OR of_nat n" by (simp add: l_def)
  have n: "n < 2 ^ 12" using assms by (simp add: n_def)
  then have "unat (of_nat n :: u16) = n" by (intro unat_of_nat16) simp
  then have "(of_nat n :: u16) < 2 ^ 12" using n by (simp add: word_less_nat_alt)
  then have t12: "take_bit 12 (of_nat n) = (of_nat n :: u16)" by (rule take_bit_word_self)
  have "take_bit 12 l = of_nat n" "bit l 15" unfolding l using t12 by (simp_all add: bit_blast_simps)
  then have len: "unat (take_bit 12 l) = n" using \<open>unat (of_nat n) = n\<close> by simp
  have w: "bit w 0" "take_bit 5 (drop_bit 1 w) = take_bit 5 v" unfolding w_def by (simp_all add: bit_blast_simps)
  have crc: "calc_crc32 (psi_section t i v body) = 0"
    unfolding psi_section_def Let_def by (rule calc_crc32_append_crc)
  have p: "psi_section t i v body = t # ucast (drop_bit 8 l) # ucast l # ucast (drop_bit 8 i) # ucast i # w # 0 # 0
      # body @ tsmux_put32 (calc_crc32 (tsmux_write_section_hdr t (of_nat (length body + 12)) i v 0 0 @ body))"
    unfolding psi_section_def Let_def
    by (simp add: tsmux_write_section_hdr_def tsmux_put16_def byte_simps l_def w_def)
  show ?thesis
    using crc \<open>bit l 15\<close> len w unfolding psi_parse_def p list.case put16_join Let_def
    by (simp add: n_def)
qed

text \<open>With the body in place, \<open>finish_section\<close> leaves a complete section at the start of the data.\<close>

lemma finish_section_psi:
  assumes data: "sec_data sec = pre @ body @ rest" and pre: "length pre = TSMUX_SECTION_HDR_SIZE"
    and n: "length body + 12 \<le> TSMUX_MAX_SECTION_LENGTH" and rest: "4 \<le> length rest"
  shows "finish_section sec (TSMUX_SECTION_HDR_SIZE + length body) t i v =
    Inr (sec\<lparr>sec_data := psi_section t i v body @ drop 4 rest,
             sec_pi := (sec_pi sec)\<lparr>pi_stream_avail := of_nat (length body + 12)\<rparr>\<rparr>)"
proof -
  define n where "n = length body + 12"
  let ?h = "tsmux_write_section_hdr t (of_nat n) i v 0 0"
  have n12: "8 + length body + 4 = n" by (simp add: n_def)
  have "n < 65536" using n by (simp add: n_def)
  then have uc: "ucast (of_nat n :: u32) = (of_nat n :: u16)"
    by (simp add: word_unat_eq_iff unsigned_ucast_eq unat_of_nat take_bit_nat_eq_self)
  have "(of_nat n :: u32) - 4 = of_nat (8 + length body)" by (simp add: n_def)
  moreover have "8 + length body < 2 ^ 32" using n by simp
  ultimately have sub: "unat ((of_nat n :: u32) - 4) = 8 + length body" by (simp only: of_nat_less_word32_iff)
  have s1: "store (pre @ body @ rest) 0 ?h = Inr (?h @ body @ rest)"
    using pre by (simp add: store_def)
  have l: "load (?h @ body @ rest) 0 (8 + length body) = Inr (?h @ body)" by (simp add: load_def)
  have s2: "store (?h @ body @ rest) (8 + length body) (tsmux_put32 c) = Inr ((?h @ body) @ tsmux_put32 c @ drop 4 rest)" for c
    using rest by (simp add: store_def)
  show ?thesis
    unfolding finish_section_def Let_def n12 uc data s1 bindR_simps sub l s2
    by (simp add: psi_section_def Let_def n_def)
qed

section \<open>Program association table\<close>

definition section_ok :: "TsMuxSection \<Rightarrow> bool" where
  "section_ok sec \<longleftrightarrow> packet_info_wf (sec_pi sec) \<and> pi_flags (sec_pi sec) = 0
     \<and> length (sec_data sec) = TSMUX_MAX_SECTION_LENGTH"

text \<open>One entry of the table, as a codec: program number and PID of its map table.\<close>

definition pat_entry :: "u16 \<times> u16 \<Rightarrow> bytes" where
  "pat_entry e = tsmux_put16 (fst e) @ tsmux_put16 (0xE000 OR snd e)"

definition pat_entry_read :: "bytes \<Rightarrow> ((u16 \<times> u16) \<times> bytes) option" where
  "pat_entry_read bs =
     (case get16 bs of None \<Rightarrow> None
      | Some (n, r) \<Rightarrow> (case get16 r of None \<Rightarrow> None
          | Some (p, r') \<Rightarrow> if drop_bit 13 p = 7 then Some ((n, take_bit 13 p), r') else None))"

lemma reserved3_pid:
  assumes "pid < 2 ^ 13"
  shows "drop_bit 13 (0xE000 OR pid :: u16) = 7" "take_bit 13 (0xE000 OR pid :: u16) = pid"
  using take_bit_word_self [OF assms] by (simp_all add: bit_blast_simps bit_beyond_word)

interpretation pat_codec: prefix_codec pat_entry pat_entry_read "\<lambda>e. snd e < 2 ^ 13"
proof unfold_locales
  fix e :: "u16 \<times> u16" and r
  assume "snd e < 2 ^ 13"
  then show "pat_entry_read (pat_entry e @ r) = Some (e, r)"
    unfolding pat_entry_def pat_entry_read_def append_assoc get16_put16 option.case prod.case
    by (simp only: reserved3_pid if_True prod.collapse refl)
qed

definition pat_list :: "'w TsMux \<Rightarrow> (u16 \<times> u16) list" where
  "pat_list mux = map (\<lambda>a. (p_pgm_number (m_program_at mux a), p_pmt_pid (m_program_at mux a))) (m_programs mux)"

lemma pat_entries_list: "pat_entries mux = concat (map pat_entry (pat_list mux))"
  by (simp add: pat_entries_def pat_list_def pat_entry_def comp_def)

lemma pat_entries_length: "length (pat_entries mux) = 4 * length (m_programs mux)"
proof -
  have "length (concat (map pat_entry es)) = 4 * length es" for es
    by (induction es) (simp_all add: pat_entry_def)
  then show ?thesis unfolding pat_entries_list by (simp only: pat_list_def length_map)
qed

text \<open>The rebuilt table.\<close>

definition pat_section :: "'w TsMux \<Rightarrow> bytes" where
  "pat_section mux = psi_section 0 (m_transport_id mux) (m_pat_version mux) (pat_entries mux)"

definition pat_rebuilt :: "'w TsMux \<Rightarrow> TsMuxSection" where
  "pat_rebuilt mux = (m_pat mux)\<lparr>sec_data := pat_section mux @ drop (length (pat_section mux)) (sec_data (m_pat mux)),
     sec_pi := (sec_pi (m_pat mux))\<lparr>pi_stream_avail := of_nat (length (pat_section mux))\<rparr>\<rparr>"

lemma write_pat_changed:
  assumes ok: "section_ok (m_pat mux)" and ch: "m_pat_changed mux"
    and n: "4 * length (m_programs mux) + 12 \<le> TSMUX_MAX_SECTION_LENGTH"
  shows "tsmux_write_pat mux =
    (let mux1 = mux\<lparr>m_pat := pat_rebuilt mux, m_pat_changed := False, m_pat_version := m_pat_version mux + 1\<rparr>
     in bindR (tsmux_write_section mux1 (pat_rebuilt mux)) (\<lambda>(ok, mux2, pat). Inr (ok, mux2\<lparr>m_pat := pat\<rparr>)))"
proof -
  let ?d = "sec_data (m_pat mux)" and ?b = "pat_entries mux"
  have len: "length ?d = 4096" using ok by (simp add: section_ok_def)
  have st: "store ?d 8 ?b = Inr (take 8 ?d @ ?b @ drop (8 + length ?b) ?d)"
    using len n by (simp add: store_def pat_entries_length)
  have "finish_section ((m_pat mux)\<lparr>sec_data := take 8 ?d @ ?b @ drop (8 + length ?b) ?d\<rparr>) (8 + length ?b) 0
      (m_transport_id mux) (m_pat_version mux) = Inr (pat_rebuilt mux)"
    using finish_section_psi [of "(m_pat mux)\<lparr>sec_data := take 8 ?d @ ?b @ drop (8 + length ?b) ?d\<rparr>"
        "take 8 ?d" ?b "drop (8 + length ?b) ?d"] len n
    by (simp add: pat_rebuilt_def pat_section_def pat_entries_length add.commute)
  then show ?thesis
    using ch unfolding tsmux_write_pat_def st by (simp add: Let_def)
qed

lemma pat_rebuilt_wf:
  assumes ok: "section_ok (m_pat mux)" and buf: "length (m_packet_buf mux) = 188"
    and n: "4 * length (m_programs mux) + 12 \<le> TSMUX_MAX_SECTION_LENGTH"
  shows "section_wf (mux\<lparr>m_pat := p, m_pat_changed := False, m_pat_version := v\<rparr>) (pat_rebuilt mux)
           (4 * length (m_programs mux) + 12)"
    and "take (4 * length (m_programs mux) + 12) (sec_data (pat_rebuilt mux)) = pat_section mux"
    and "length (sec_data (pat_rebuilt mux)) = TSMUX_MAX_SECTION_LENGTH"
proof -
  have len: "length (pat_section mux) = 4 * length (m_programs mux) + 12"
    by (simp add: pat_section_def pat_entries_length)
  define n where "n = 4 * length (m_programs mux) + 12"
  have "n < 2 ^ 32" "0 < n" using n by (simp_all add: n_def)
  then show "section_wf (mux\<lparr>m_pat := p, m_pat_changed := False, m_pat_version := v\<rparr>) (pat_rebuilt mux)
           (4 * length (m_programs mux) + 12)"
    using ok buf n unfolding section_wf_def pat_rebuilt_def len n_def [symmetric]
    by (simp add: section_ok_def packet_info_wf_def)
  show "take (4 * length (m_programs mux) + 12) (sec_data (pat_rebuilt mux)) = pat_section mux"
    by (simp add: pat_rebuilt_def len)
  show "length (sec_data (pat_rebuilt mux)) = TSMUX_MAX_SECTION_LENGTH"
    using ok n by (simp add: pat_rebuilt_def len section_ok_def)
qed

lemma pat_section_fits: "section_fits (4 * p + 12) \<longleftrightarrow> p \<le> 42"
proof -
  have "(4 * p + 12) mod 184 \<noteq> 183"
  proof
    assume "(4 * p + 12) mod 184 = 183"
    then obtain m where "4 * p + 12 = 184 * m + 183" by (metis mult_div_mod_eq)
    then show False by presburger
  qed
  then show ?thesis by (auto simp: section_fits_def)
qed

section \<open>Program map table\<close>

definition pmt_entry :: "u8 \<times> u16 \<times> bytes \<Rightarrow> bytes" where
  "pmt_entry e = (case e of (ty, pid, info) \<Rightarrow>
     ty # tsmux_put16 (0xE000 OR pid) @ tsmux_put16 (0xF000 OR of_nat (length info)) @ info)"

definition pmt_entry_read :: "bytes \<Rightarrow> ((u8 \<times> u16 \<times> bytes) \<times> bytes) option" where
  "pmt_entry_read bs =
     (case bs of [] \<Rightarrow> None
      | ty # r \<Rightarrow> (case get16 r of None \<Rightarrow> None
        | Some (p, r1) \<Rightarrow> (case get16 r1 of None \<Rightarrow> None
          | Some (l, r2) \<Rightarrow>
              let n = unat (take_bit 12 l)
              in if drop_bit 13 p = 7 \<and> drop_bit 12 l = 15 \<and> n \<le> length r2
                 then Some ((ty, take_bit 13 p, take n r2), drop n r2) else None)))"

lemma reserved4_len:
  assumes "n < 2 ^ 12"
  shows "drop_bit 12 (0xF000 OR of_nat n :: u16) = 15" "unat (take_bit 12 (0xF000 OR of_nat n :: u16)) = n"
proof -
  have un: "unat (of_nat n :: u16) = n" using assms by (intro unat_of_nat16) simp
  then have "(of_nat n :: u16) < 2 ^ 12" using assms by (simp add: word_less_nat_alt)
  note t12 = take_bit_word_self [OF this]
  then show "drop_bit 12 (0xF000 OR of_nat n :: u16) = 15" by (simp add: bit_blast_simps bit_beyond_word)
  have "take_bit 12 (0xF000 OR of_nat n :: u16) = of_nat n" using t12 by (simp add: bit_blast_simps)
  then show "unat (take_bit 12 (0xF000 OR of_nat n :: u16)) = n" using un by simp
qed

interpretation pmt_codec: prefix_codec pmt_entry pmt_entry_read
    "\<lambda>e. fst (snd e) < 2 ^ 13 \<and> length (snd (snd e)) < 2 ^ 12"
proof unfold_locales
  fix e :: "u8 \<times> u16 \<times> bytes" and r
  assume ok: "fst (snd e) < 2 ^ 13 \<and> length (snd (snd e)) < 2 ^ 12"
  obtain ty pid info where e: "e = (ty, pid, info)" by (cases e)
  have pid: "pid < 2 ^ 13" and info: "length info < 2 ^ 12" using ok by (simp_all add: e)
  show "pmt_entry_read (pmt_entry e @ r) = Some (e, r)"
    unfolding e pmt_entry_def pmt_entry_read_def prod.case append.simps append_assoc get16_put16 option.case
      list.case Let_def reserved3_pid [OF pid] reserved4_len [OF info]
    by simp
qed

definition pmt_item :: "TsMuxStream \<Rightarrow> u8 \<times> u16 \<times> bytes" where
  "pmt_item st = (stream_type_code (s_stream_type st), tsmux_stream_get_pid st, tsmux_stream_get_es_descrs st)"

lemma pmt_entries_store:
  "\<forall>a \<in> set as. length (tsmux_stream_get_es_descrs (streams a)) < 2 ^ 12 \<Longrightarrow>
   length data = TSMUX_MAX_SECTION_LENGTH \<Longrightarrow>
   pos + length (concat (map (\<lambda>a. pmt_entry (pmt_item (streams a))) as)) < TSMUX_MAX_SECTION_LENGTH \<Longrightarrow>
   pmt_entries streams as data pos =
     Inr (True, take pos data @ concat (map (\<lambda>a. pmt_entry (pmt_item (streams a))) as)
            @ drop (pos + length (concat (map (\<lambda>a. pmt_entry (pmt_item (streams a))) as))) data,
          pos + length (concat (map (\<lambda>a. pmt_entry (pmt_item (streams a))) as)))"
proof (induction as arbitrary: data pos)
  case (Cons a as)
  let ?info = "tsmux_stream_get_es_descrs (streams a)"
  let ?e = "pmt_entry (pmt_item (streams a))"
  let ?rest = "concat (map (\<lambda>a. pmt_entry (pmt_item (streams a))) as)"
  define hdr where "hdr = stream_type_code (s_stream_type (streams a))
      # tsmux_put16 (0xE000 OR tsmux_stream_get_pid (streams a)) @ tsmux_put16 (0xF000 OR of_nat (length ?info))"
  have e: "?e = hdr @ ?info" by (simp add: pmt_entry_def pmt_item_def hdr_def)
  have h: "length hdr = 5" by (simp add: hdr_def)
  have bound: "pos + 5 + length ?info + length ?rest < 4096" using Cons.prems(3) by (simp add: e h)
  let ?d1 = "take pos data @ hdr @ drop (pos + 5) data"
  let ?d2 = "take pos data @ ?e @ drop (pos + length ?e) data"
  have s1: "store data pos hdr = Inr ?d1" using Cons.prems(2) bound h by (simp add: store_def)
  have s2: "store ?d1 (pos + 5) ?info = Inr ?d2"
    using Cons.prems(2) bound h by (simp add: store_def e ac_simps)
  have "pmt_entries streams as ?d2 (pos + length ?e) =
     Inr (True, take (pos + length ?e) ?d2 @ ?rest @ drop (pos + length ?e + length ?rest) ?d2,
          pos + length ?e + length ?rest)"
    using Cons.prems bound by (intro Cons.IH) (simp_all add: e h)
  moreover have "take (pos + length ?e) ?d2 = take pos data @ ?e"
    and "drop (pos + length ?e + length ?rest) ?d2 = drop (pos + (length ?e + length ?rest)) data"
    using Cons.prems(2) bound by (simp_all add: e h ac_simps)
  moreover have "pmt_entries streams (a # as) data pos = pmt_entries streams as ?d2 (pos + length ?e)"
  proof (cases "?info = []")
    case True
    then have "?d1 = ?d2" "length ?e = 5" by (simp_all add: e h)
    then show ?thesis
      unfolding pmt_entries.simps Let_def hdr_def [symmetric] s1 bindR_simps if_P [OF True] by (simp only:)
  next
    case False
    have "pos + length ?e = pos + 5 + length ?info" by (simp add: e h)
    then show ?thesis
      unfolding pmt_entries.simps Let_def hdr_def [symmetric] s1 bindR_simps s2 using False bound by (simp add: add.assoc)
  qed
  ultimately show ?case by (simp add: add.assoc)
qed simp

definition pmt_pcr_pid :: "'w TsMux \<Rightarrow> nat \<Rightarrow> u16" where
  "pmt_pcr_pid mux a = (case p_pcr_stream (m_program_at mux a) of None \<Rightarrow> 0x1FFF
     | Some s \<Rightarrow> tsmux_stream_get_pid (m_stream_at mux s))"

definition pmt_items :: "'w TsMux \<Rightarrow> nat \<Rightarrow> (u8 \<times> u16 \<times> bytes) list" where
  "pmt_items mux a = map (\<lambda>s. pmt_item (m_stream_at mux s)) (p_streams (m_program_at mux a))"

definition pmt_body :: "'w TsMux \<Rightarrow> nat \<Rightarrow> bytes" where
  "pmt_body mux a = tsmux_put16 (0xE000 OR pmt_pcr_pid mux a) @ tsmux_put16 0xF000
     @ concat (map pmt_entry (pmt_items mux a))"

definition pmt_section :: "'w TsMux \<Rightarrow> nat \<Rightarrow> bytes" where
  "pmt_section mux a = psi_section 2 (p_pgm_number (m_program_at mux a)) (p_pmt_version (m_program_at mux a))
     (pmt_body mux a)"

definition pmt_rebuilt :: "'w TsMux \<Rightarrow> nat \<Rightarrow> TsMuxSection" where
  "pmt_rebuilt mux a = (let p = m_program_at mux a in
     (p_pmt p)\<lparr>sec_data := pmt_section mux a @ drop (length (pmt_section mux a)) (sec_data (p_pmt p)),
       sec_pi := (sec_pi (p_pmt p))\<lparr>pi_stream_avail := of_nat (length (pmt_section mux a)), pi_pid := p_pmt_pid p\<rparr>\<rparr>)"

definition pmt_written :: "'w TsMux \<Rightarrow> nat \<Rightarrow> 'w TsMux" where
  "pmt_written mux a = (let p = m_program_at mux a in
     set_program a (p\<lparr>p_pmt := pmt_rebuilt mux a, p_pmt_changed := False, p_pmt_version := p_pmt_version p + 1\<rparr>) mux)"

lemma es_descrs_short: "length (tsmux_stream_get_es_descrs st) \<le> 6"
  by (simp add: tsmux_stream_get_es_descrs_def)

lemma write_pmt_changed:
  assumes ok: "section_ok (p_pmt (m_program_at mux a))" and ch: "p_pmt_changed (m_program_at mux a)"
    and nb: "unat (p_nb_streams (m_program_at mux a)) = length (p_streams (m_program_at mux a))"
    and n: "length (pmt_section mux a) \<le> TSMUX_MAX_SECTION_LENGTH"
  shows "tsmux_write_pmt mux a =
    bindR (tsmux_write_section (pmt_written mux a) (pmt_rebuilt mux a))
      (\<lambda>(ok, mux2, pmt). Inr (ok, set_program a ((m_program_at mux2 a)\<lparr>p_pmt := pmt\<rparr>) mux2))"
proof -
  let ?p = "m_program_at mux a"
  let ?d = "sec_data (p_pmt ?p)" and ?es = "concat (map pmt_entry (pmt_items mux a))"
  let ?h = "tsmux_put16 (0xE000 OR pmt_pcr_pid mux a) @ tsmux_put16 0xF000"
  have len: "length ?d = 4096" using ok by (simp add: section_ok_def)
  have body: "length (pmt_body mux a) = 4 + length ?es" by (simp add: pmt_body_def)
  have le: "12 + length ?es + 4 \<le> 4096" using n by (simp add: pmt_section_def body)
  have pcr: "(case p_pcr_stream ?p of None \<Rightarrow> 0xFFFF
      | Some s \<Rightarrow> 0xE000 OR tsmux_stream_get_pid (m_stream_at mux s)) = 0xE000 OR pmt_pcr_pid mux a"
    by (simp add: pmt_pcr_pid_def split: option.splits)
  have s1: "store ?d 8 ?h = Inr (take 8 ?d @ ?h @ drop 12 ?d)" using len by (simp add: store_def)
  have ld: "load (p_streams ?p) 0 (unat (p_nb_streams ?p)) = Inr (p_streams ?p)" using nb by (simp add: load_def)
  have es: "?es = concat (map (\<lambda>s. pmt_entry (pmt_item (m_stream_at mux s))) (p_streams ?p))"
    by (simp add: pmt_items_def comp_def)
  have short: "\<forall>s \<in> set (p_streams ?p). length (tsmux_stream_get_es_descrs (m_stream_at mux s)) < 2 ^ 12"
    by (auto intro: le_less_trans [OF es_descrs_short])
  have s2: "pmt_entries (m_stream_at mux) (p_streams ?p) (take 8 ?d @ ?h @ drop 12 ?d) 12 =
      Inr (True, take 8 ?d @ pmt_body mux a @ drop (12 + length ?es) ?d, 8 + length (pmt_body mux a))"
    using len le pmt_entries_store [OF short, of "take 8 ?d @ ?h @ drop 12 ?d" 12]
    unfolding es [symmetric] by (simp add: pmt_body_def ac_simps)
  have fin: "finish_section ((p_pmt ?p)\<lparr>sec_data := take 8 ?d @ pmt_body mux a @ drop (12 + length ?es) ?d\<rparr>)
      (8 + length (pmt_body mux a)) 2 (p_pgm_number ?p) (p_pmt_version ?p) =
    Inr ((p_pmt ?p)\<lparr>sec_data := pmt_section mux a @ drop (length (pmt_section mux a)) ?d,
      sec_pi := (sec_pi (p_pmt ?p))\<lparr>pi_stream_avail := of_nat (length (pmt_section mux a))\<rparr>\<rparr>)"
    using finish_section_psi [of "(p_pmt ?p)\<lparr>sec_data := take 8 ?d @ pmt_body mux a @ drop (12 + length ?es) ?d\<rparr>"
        "take 8 ?d" "pmt_body mux a" "drop (12 + length ?es) ?d"] len le
    by (simp add: pmt_section_def body ac_simps)
  show ?thesis
    unfolding tsmux_write_pmt_def Let_def pcr s1 ld bindR_simps
    using ch s2 fin by (simp add: pmt_written_def pmt_rebuilt_def Let_def)
qed

lemma pmt_rebuilt_wf:
  assumes ok: "section_ok (p_pmt (m_program_at mux a))" and buf: "length (m_packet_buf mux) = 188"
    and n: "length (pmt_section mux a) \<le> TSMUX_MAX_SECTION_LENGTH"
  shows "section_wf (pmt_written mux a) (pmt_rebuilt mux a) (length (pmt_section mux a))"
    and "take (length (pmt_section mux a)) (sec_data (pmt_rebuilt mux a)) = pmt_section mux a"
    and "length (sec_data (pmt_rebuilt mux a)) = TSMUX_MAX_SECTION_LENGTH"
    and "pi_pid (sec_pi (pmt_rebuilt mux a)) = p_pmt_pid (m_program_at mux a)"
    and "pi_packet_count (sec_pi (pmt_rebuilt mux a)) = pi_packet_count (sec_pi (p_pmt (m_program_at mux a)))"
proof -
  have "0 < length (pmt_section mux a)" by (simp add: pmt_section_def)
  moreover have "length (pmt_section mux a) < 2 ^ 32" using n by simp
  ultimately show "section_wf (pmt_written mux a) (pmt_rebuilt mux a) (length (pmt_section mux a))"
    using ok buf n by (simp add: section_wf_def pmt_written_def pmt_rebuilt_def section_ok_def packet_info_wf_def Let_def)
qed (use ok n in \<open>simp_all add: pmt_rebuilt_def Let_def section_ok_def\<close>)

lemma section0_ok: "section_ok section0" "pi_pid (sec_pi section0) = 0" "pi_packet_count (sec_pi section0) = 0"
  by (simp_all add: section_ok_def section0_def packet_info0_def packet_info_wf_def)

lemma section0_wf: "0 < n \<Longrightarrow> n < 2 ^ 32 - 1 \<Longrightarrow>
  section_wf (tsmux_new w) (section0\<lparr>sec_pi := packet_info0\<lparr>pi_stream_avail := of_nat n\<rparr>\<rparr>) n"
  by (simp add: section_wf_def tsmux_new_def section0_def packet_info0_def packet_info_wf_def)

section \<open>Properties\<close>

text \<open>
  C3. A section of at most 181 bytes, or of 183 bytes modulo 184, is handed to the client as
  packets from which a receiver reassembles the pointer byte and exactly the section; the loop
  ends after the last of them, or when the client refuses one.
\<close>

theorem section_transport:
  assumes "section_wf mux sec n" and "section_fits n" and "n \<le> length (sec_data sec)"
    and "n \<le> TSMUX_MAX_SECTION_LENGTH" and "pi_pid (sec_pi sec) < 2 ^ 13"
  shows "\<exists>pkts c. tsmux_write_section mux sec =
     (case emit pkts mux of (ok, mux') \<Rightarrow>
        Inr (ok, mux', sec\<lparr>sec_pi := (sec_pi sec)\<lparr>pi_packet_start_unit_indicator := False, pi_packet_count := c\<rparr>\<rparr>))
   \<and> reassemble (pi_pid (sec_pi sec)) True (pi_packet_count (sec_pi sec)) pkts = Some (0 # take n (sec_data sec))"
proof -
  have "reassemble (pi_pid (sec_pi sec)) True (pi_packet_count (sec_pi sec))
      (section_packets (sec_pi sec) (take n (sec_data sec))) = Some (0 # take n (sec_data sec))"
    using assms by (intro reassemble_section [of _ n]) (simp_all add: section_wf_def)
  with write_section_emits [OF assms(1-4)] show ?thesis by blast
qed

theorem section_transport_witness:
  "\<exists>pkts c. tsmux_write_section (tsmux_new ()) (section0\<lparr>sec_pi := packet_info0\<lparr>pi_stream_avail := of_nat 367\<rparr>\<rparr>) =
     (case emit pkts (tsmux_new ()) of (ok, mux') \<Rightarrow>
        Inr (ok, mux', section0\<lparr>sec_pi := packet_info0\<lparr>pi_stream_avail := of_nat 367,
          pi_packet_start_unit_indicator := False, pi_packet_count := c\<rparr>\<rparr>))
   \<and> reassemble 0 True 0 pkts = Some (0 # replicate 367 0)"
proof -
  let ?sec = "section0\<lparr>sec_pi := packet_info0\<lparr>pi_stream_avail := of_nat 367\<rparr>\<rparr>"
  have s: "sec_pi ?sec = packet_info0\<lparr>pi_stream_avail := of_nat 367\<rparr>" "pi_pid (sec_pi ?sec) = 0"
    "pi_packet_count (sec_pi ?sec) = 0" "take 367 (sec_data ?sec) = replicate 367 0" "length (sec_data ?sec) = 4096"
    by (simp_all add: section0_def packet_info0_def)
  have wf: "section_wf (tsmux_new ()) ?sec 367" by (rule section0_wf) simp_all
  have fit: "section_fits 367" by (simp add: section_fits_def)
  show ?thesis using section_transport [OF wf fit] unfolding s by (auto simp: packet_info0_def)
qed

text \<open>
  C12. Every other section length makes the packet loop run past the section: the count of
  bytes left underflows, and the loop reads beyond the 4096 bytes of section data. The length
  given to the header writer is the whole section's in every packet, so a last packet that is
  not full is never cut to what is left.
\<close>

theorem section_overrun:
  assumes "section_wf mux sec n" and "\<not> section_fits n" and "accepting mux"
    and "n \<le> TSMUX_MAX_SECTION_LENGTH" and "length (sec_data sec) = TSMUX_MAX_SECTION_LENGTH"
  shows "tsmux_write_section mux sec = Inl OutOfBounds"
  using assms by (intro write_section_overruns) simp_all

theorem section_overrun_witness:
  "tsmux_write_section (tsmux_new ()) (section0\<lparr>sec_pi := packet_info0\<lparr>pi_stream_avail := of_nat 200\<rparr>\<rparr>) = Inl OutOfBounds"
proof (rule section_overrun)
  show "section_wf (tsmux_new ()) (section0\<lparr>sec_pi := packet_info0\<lparr>pi_stream_avail := of_nat 200\<rparr>\<rparr>) 200"
    by (rule section0_wf) simp_all
qed (simp_all add: section_fits_def accepting_def tsmux_new_def section0_def)

text \<open>
  C4. With at most 42 programs a changed program association table is sent as packets of PID 0
  from which a receiver reads the transport id, the version (5 bits) and exactly the programs
  with their numbers and map table PIDs; the version counter moves on.
\<close>

theorem pat_roundtrip:
  assumes "section_ok (m_pat mux)" and "m_pat_changed mux" and "length (m_packet_buf mux) = TSMUX_PACKET_LENGTH"
    and "pi_pid (sec_pi (m_pat mux)) = 0" and "length (m_programs mux) \<le> 42"
    and "\<forall>e \<in> set (pat_list mux). snd e < 2 ^ 13"
  shows "\<exists>pkts pat s body. tsmux_write_pat mux =
     (case emit pkts (mux\<lparr>m_pat := pat_rebuilt mux, m_pat_changed := False, m_pat_version := m_pat_version mux + 1\<rparr>) of
       (ok, mux') \<Rightarrow> Inr (ok, mux'\<lparr>m_pat := pat\<rparr>))
   \<and> reassemble 0 True (pi_packet_count (sec_pi (m_pat mux))) pkts = Some (0 # s)
   \<and> psi_parse s = Some (0, m_transport_id mux, take_bit 5 (m_pat_version mux), body)
   \<and> decode_many pat_entry_read (length (m_programs mux)) body = Some (pat_list mux, [])"
proof -
  let ?n = "4 * length (m_programs mux) + 12"
  let ?sec = "pat_rebuilt mux"
  have n: "?n \<le> TSMUX_MAX_SECTION_LENGTH" "section_fits ?n"
    using assms(5) pat_section_fits by simp_all
  note wf = pat_rebuilt_wf [OF assms(1,3) n(1)]
  let ?mux1 = "mux\<lparr>m_pat := ?sec, m_pat_changed := False, m_pat_version := m_pat_version mux + 1\<rparr>"
  have pi: "pi_pid (sec_pi ?sec) = 0" "pi_packet_count (sec_pi ?sec) = pi_packet_count (sec_pi (m_pat mux))"
    "pi_flags (sec_pi ?sec) = 0" "unat (pi_stream_avail (sec_pi ?sec)) = ?n"
    using assms(1,4) wf(1) by (simp_all add: pat_rebuilt_def section_ok_def section_wf_def)
  have "?n \<le> length (sec_data ?sec)" using n(1) wf(3) by simp
  from write_section_emits [OF wf(1) n(2) this n(1)] obtain c where
    "tsmux_write_section ?mux1 ?sec = (case emit (section_packets (sec_pi ?sec) (pat_section mux)) ?mux1 of
       (ok, mux') \<Rightarrow> Inr (ok, mux', ?sec\<lparr>sec_pi := (sec_pi ?sec)\<lparr>pi_packet_start_unit_indicator := False, pi_packet_count := c\<rparr>\<rparr>))"
    unfolding wf(2) by blast
  then have "tsmux_write_pat mux = (case emit (section_packets (sec_pi ?sec) (pat_section mux)) ?mux1 of
       (ok, mux') \<Rightarrow> Inr (ok, mux'\<lparr>m_pat := ?sec\<lparr>sec_pi := (sec_pi ?sec)\<lparr>pi_packet_start_unit_indicator := False, pi_packet_count := c\<rparr>\<rparr>\<rparr>))"
    using write_pat_changed [OF assms(1,2) n(1)] by (simp add: Let_def split: prod.splits)
  moreover have "reassemble 0 True (pi_packet_count (sec_pi (m_pat mux))) (section_packets (sec_pi ?sec) (pat_section mux))
      = Some (0 # pat_section mux)"
    using reassemble_section [of "sec_pi ?sec" ?n "pat_section mux"] pi n
    by (simp add: pat_section_def pat_entries_length)
  moreover have "psi_parse (pat_section mux) = Some (0, m_transport_id mux, take_bit 5 (m_pat_version mux), pat_entries mux)"
    unfolding pat_section_def using n(1) by (intro psi_parse_section) (simp add: pat_entries_length)
  moreover have "decode_many pat_entry_read (length (m_programs mux)) (pat_entries mux) = Some (pat_list mux, [])"
    using pat_codec.decode_many_enc [of "pat_list mux" "[]"] assms(6)
    by (simp add: pat_entries_list list_all_iff pat_list_def)
  ultimately show ?thesis by blast
qed

theorem pat_roundtrip_witness:
  "\<exists>pkts s body. reassemble 0 True 0 pkts = Some (0 # s) \<and> psi_parse s = Some (0, 1, 0, body)
     \<and> decode_many pat_entry_read 1 body = Some ([(1, 0x10)], [])"
proof -
  let ?mux = "snd (tsmux_program_new (tsmux_new ()))"
  have l: "pat_list ?mux = [(1, 0x10)]" "length (m_programs ?mux) = 1"
    by (simp_all add: pat_list_def tsmux_program_new_def tsmux_new_def Let_def)
  have m: "m_pat ?mux = section0" "m_pat_changed ?mux" "length (m_packet_buf ?mux) = 188"
    "m_transport_id ?mux = 1" "m_pat_version ?mux = 0"
    by (simp_all add: tsmux_program_new_def tsmux_new_def Let_def)
  have "\<forall>e \<in> set (pat_list ?mux). snd e < 2 ^ 13" unfolding l by simp
  then show ?thesis using pat_roundtrip [OF _ m(2), unfolded m l] section0_ok by fastforce
qed

text \<open>With 43 to 253 programs, which the multiplexer accepts, the table cannot be sent.\<close>

theorem pat_overrun:
  assumes "section_ok (m_pat mux)" and "m_pat_changed mux" and "length (m_packet_buf mux) = TSMUX_PACKET_LENGTH"
    and "accepting mux" and "42 < length (m_programs mux)" and "length (m_programs mux) \<le> unat TSMUX_MAX_PROGRAMS"
  shows "tsmux_write_pat mux = Inl OutOfBounds"
proof -
  let ?n = "4 * length (m_programs mux) + 12"
  let ?mux1 = "mux\<lparr>m_pat := pat_rebuilt mux, m_pat_changed := False, m_pat_version := m_pat_version mux + 1\<rparr>"
  have n: "?n \<le> TSMUX_MAX_SECTION_LENGTH" using assms(6) by simp
  have "tsmux_write_section ?mux1 (pat_rebuilt mux) = Inl OutOfBounds"
  proof (rule write_section_overruns [OF pat_rebuilt_wf(1) [OF assms(1,3) n]])
    show "\<not> section_fits ?n" unfolding pat_section_fits using assms(5) by simp
    show "accepting ?mux1" using assms(4) by (simp add: accepting_def)
  qed (use n pat_rebuilt_wf(3) [OF assms(1,3) n] in simp_all)
  then show ?thesis using write_pat_changed [OF assms(1,2) n] by (simp add: Let_def)
qed

theorem pat_overrun_witness:
  "tsmux_write_pat ((tsmux_new ())\<lparr>m_programs := replicate 43 0\<rparr>) = Inl OutOfBounds"
  using pat_overrun [of "(tsmux_new ())\<lparr>m_programs := replicate 43 0\<rparr>"] section0_ok
  by (simp add: tsmux_new_def accepting_def)

text \<open>
  C5. A changed program map table of a length the section writer handles is sent on the
  program's PID, and a receiver reads the program number, the version, the PCR PID and exactly
  the streams of the program with their types, PIDs and descriptors.
\<close>

theorem pmt_roundtrip:
  assumes "section_ok (p_pmt (m_program_at mux a))" and "p_pmt_changed (m_program_at mux a)"
    and "length (m_packet_buf mux) = TSMUX_PACKET_LENGTH"
    and "unat (p_nb_streams (m_program_at mux a)) = length (p_streams (m_program_at mux a))"
    and "length (pmt_section mux a) \<le> TSMUX_MAX_SECTION_LENGTH" and "section_fits (length (pmt_section mux a))"
    and "p_pmt_pid (m_program_at mux a) < 2 ^ 13" and "pmt_pcr_pid mux a < 2 ^ 13"
    and "\<forall>e \<in> set (pmt_items mux a). fst (snd e) < 2 ^ 13"
  shows "\<exists>pkts pmt s body. tsmux_write_pmt mux a =
     (case emit pkts (pmt_written mux a) of
       (ok, mux') \<Rightarrow> Inr (ok, set_program a ((m_program_at mux' a)\<lparr>p_pmt := pmt\<rparr>) mux'))
   \<and> reassemble (p_pmt_pid (m_program_at mux a)) True (pi_packet_count (sec_pi (p_pmt (m_program_at mux a)))) pkts
       = Some (0 # s)
   \<and> psi_parse s = Some (2, p_pgm_number (m_program_at mux a), take_bit 5 (p_pmt_version (m_program_at mux a)),
       tsmux_put16 (0xE000 OR pmt_pcr_pid mux a) @ tsmux_put16 0xF000 @ body)
   \<and> decode_many pmt_entry_read (length (p_streams (m_program_at mux a))) body = Some (pmt_items mux a, [])"
proof -
  let ?p = "m_program_at mux a" and ?sec = "pmt_rebuilt mux a" and ?s = "pmt_section mux a"
  let ?body = "concat (map pmt_entry (pmt_items mux a))"
  note wf = pmt_rebuilt_wf [OF assms(1,3,5)]
  have "length ?s \<le> length (sec_data ?sec)" using assms(5) wf(3) by simp
  from write_section_emits [OF wf(1) assms(6) this assms(5)] obtain c where
    "tsmux_write_section (pmt_written mux a) ?sec = (case emit (section_packets (sec_pi ?sec) ?s) (pmt_written mux a) of
       (ok, mux') \<Rightarrow> Inr (ok, mux', ?sec\<lparr>sec_pi := (sec_pi ?sec)\<lparr>pi_packet_start_unit_indicator := False, pi_packet_count := c\<rparr>\<rparr>))"
    unfolding wf(2) by blast
  then have "tsmux_write_pmt mux a = (case emit (section_packets (sec_pi ?sec) ?s) (pmt_written mux a) of
       (ok, mux') \<Rightarrow> Inr (ok, set_program a ((m_program_at mux' a)\<lparr>p_pmt :=
          ?sec\<lparr>sec_pi := (sec_pi ?sec)\<lparr>pi_packet_start_unit_indicator := False, pi_packet_count := c\<rparr>\<rparr>\<rparr>) mux'))"
    using write_pmt_changed [OF assms(1,2,4,5)] by (simp split: prod.splits)
  moreover have "reassemble (p_pmt_pid ?p) True (pi_packet_count (sec_pi (p_pmt ?p))) (section_packets (sec_pi ?sec) ?s)
      = Some (0 # ?s)"
    using reassemble_section [of "sec_pi ?sec" "length ?s" ?s] wf(1,4,5) assms(6,7)
    by (simp add: section_wf_def)
  moreover have "psi_parse ?s = Some (2, p_pgm_number ?p, take_bit 5 (p_pmt_version ?p),
       tsmux_put16 (0xE000 OR pmt_pcr_pid mux a) @ tsmux_put16 0xF000 @ ?body)"
    using psi_parse_section [of "pmt_body mux a"] assms(5) by (simp add: pmt_section_def pmt_body_def)
  moreover have "list_all (\<lambda>e. fst (snd e) < 2 ^ 13 \<and> length (snd (snd e)) < 2 ^ 12) (pmt_items mux a)"
    using assms(9) by (auto simp: list_all_iff pmt_items_def pmt_item_def intro: le_less_trans [OF es_descrs_short])
  then have "decode_many pmt_entry_read (length (p_streams ?p)) ?body = Some (pmt_items mux a, [])"
    using pmt_codec.decode_many_enc [of "pmt_items mux a" "[]"] by (simp add: pmt_items_def)
  ultimately show ?thesis by blast
qed

text \<open>A program with one Dirac video stream, which is also its clock.\<close>

definition example_mux :: "unit TsMux" where
  "example_mux =
     (let (p, m1) = tsmux_program_new (tsmux_new ());
          (s, m2) = tsmux_create_stream m1 TSMUX_ST_VIDEO_DIRAC TSMUX_PID_AUTO
      in tsmux_program_set_pcr_stream (tsmux_program_add_stream m2 p s) p s)"

lemma example_mux_program:
  "m_program_at example_mux 0 = \<lparr>p_pmt = section0, p_pmt_version = 0, p_pmt_changed = True,
     p_pmt_frequency = 9000, p_last_pmt_ts = -1, p_pgm_number = 1, p_pmt_pid = 0x10,
     p_pcr_stream = Some (Suc 0), p_last_pcr = -1, p_streams = [Suc 0], p_nb_streams = 1\<rparr>"
  "m_stream_at example_mux (Suc 0) = tsmux_stream_pcr_ref (tsmux_stream_new 0x40 TSMUX_ST_VIDEO_DIRAC)"
  "length (m_packet_buf example_mux) = 188"
  by (simp_all add: example_mux_def tsmux_program_new_def tsmux_new_def Let_def tsmux_create_stream_def
      tsmux_get_new_pid_def tsmux_find_stream_def tsmux_program_add_stream_def tsmux_program_set_pcr_stream_def)

theorem pmt_roundtrip_witness:
  "\<exists>pkts s body. reassemble 0x10 True 0 pkts = Some (0 # s)
     \<and> psi_parse s = Some (2, 1, 0, [0xE0, 0x40, 0xF0, 0] @ body)
     \<and> decode_many pmt_entry_read 1 body = Some ([(0xD1, 0x40, [5, 4, 0x64, 0x72, 0x61, 0x63])], [])"
proof -
  have st: "tsmux_stream_get_pid (m_stream_at example_mux (Suc 0)) = 0x40"
    "s_stream_type (m_stream_at example_mux (Suc 0)) = TSMUX_ST_VIDEO_DIRAC"
    by (simp_all add: example_mux_program tsmux_stream_get_pid_def tsmux_stream_pcr_ref_def
        tsmux_stream_new_def stream0_def packet_info0_def)
  have items: "pmt_items example_mux 0 = [(0xD1, 0x40, [5, 4, 0x64, 0x72, 0x61, 0x63])]"
    "pmt_pcr_pid example_mux 0 = 0x40"
    by (simp_all add: pmt_items_def pmt_item_def pmt_pcr_pid_def st example_mux_program(1) tsmux_stream_get_es_descrs_def)
  have len: "length (pmt_section example_mux 0) = 27"
    by (simp add: pmt_section_def pmt_body_def items pmt_entry_def)
  show ?thesis
    using pmt_roundtrip [of example_mux 0] section0_ok
    unfolding items len by (auto simp: example_mux_program(1,3) section_fits_def tsmux_put16_def)
qed

end
