(* ===== verification/TsSession.thy ===== *)
theory TsSession
  imports TsTables
begin

text \<open>
  A session with the multiplexer of \<^verbatim>\<open>tsmux.c\<close>: the client creates programs and streams, wires
  them together, submits data and writes packets, in any order. The session is a step relation;
  its invariants (distinct PIDs, program numbers, the reference counts of the clock streams)
  hold in every reachable state. The last section is about one written packet.
\<close>

section \<open>What writing leaves alone\<close>

text \<open>The registry: the lists, the counters, and the identity of every stream and program.\<close>

definition same_registry :: "'w TsMux \<Rightarrow> 'w TsMux \<Rightarrow> bool" where
  "same_registry mux mux' \<longleftrightarrow>
     m_streams mux' = m_streams mux \<and> m_nb_streams mux' = m_nb_streams mux
   \<and> m_programs mux' = m_programs mux \<and> m_nb_programs mux' = m_nb_programs mux
   \<and> m_next_addr mux' = m_next_addr mux \<and> m_next_pgm_no mux' = m_next_pgm_no mux
   \<and> m_next_pmt_pid mux' = m_next_pmt_pid mux \<and> m_next_stream_pid mux' = m_next_stream_pid mux
   \<and> (\<forall>s. pi_pid (s_pi (m_stream_at mux' s)) = pi_pid (s_pi (m_stream_at mux s)))
   \<and> (\<forall>s. s_pcr_ref (m_stream_at mux' s) = s_pcr_ref (m_stream_at mux s))
   \<and> (\<forall>a. p_pcr_stream (m_program_at mux' a) = p_pcr_stream (m_program_at mux a))
   \<and> (\<forall>a. p_pgm_number (m_program_at mux' a) = p_pgm_number (m_program_at mux a))
   \<and> (\<forall>a. p_pmt_pid (m_program_at mux' a) = p_pmt_pid (m_program_at mux a))
   \<and> (\<forall>a. p_streams (m_program_at mux' a) = p_streams (m_program_at mux a))
   \<and> (\<forall>a. p_nb_streams (m_program_at mux' a) = p_nb_streams (m_program_at mux a))"

lemma same_registry_refl [simp, intro]: "same_registry mux mux"
  by (simp add: same_registry_def)

lemma same_registry_trans: "same_registry a b \<Longrightarrow> same_registry b c \<Longrightarrow> same_registry a c"
  unfolding same_registry_def by metis

text \<open>Writing a section changes only the buffer, the client's data and the PCR to report.\<close>

definition io_only :: "'w TsMux \<Rightarrow> 'w TsMux \<Rightarrow> bool" where
  "io_only mux mux' \<longleftrightarrow>
     m_nb_streams mux' = m_nb_streams mux \<and> m_streams mux' = m_streams mux
   \<and> m_nb_programs mux' = m_nb_programs mux \<and> m_programs mux' = m_programs mux
   \<and> m_transport_id mux' = m_transport_id mux \<and> m_next_pgm_no mux' = m_next_pgm_no mux
   \<and> m_next_pmt_pid mux' = m_next_pmt_pid mux \<and> m_next_stream_pid mux' = m_next_stream_pid mux
   \<and> m_pat mux' = m_pat mux \<and> m_pat_version mux' = m_pat_version mux
   \<and> m_pat_changed mux' = m_pat_changed mux \<and> m_pat_frequency mux' = m_pat_frequency mux
   \<and> m_last_pat_ts mux' = m_last_pat_ts mux \<and> m_write_func mux' = m_write_func mux
   \<and> m_stream_at mux' = m_stream_at mux \<and> m_program_at mux' = m_program_at mux
   \<and> m_next_addr mux' = m_next_addr mux"

lemma io_only_refl [simp]: "io_only mux mux"
  by (simp add: io_only_def)

lemma io_only_trans: "io_only a b \<Longrightarrow> io_only b c \<Longrightarrow> io_only a c"
  by (simp add: io_only_def)

lemma io_only_buf [simp]: "io_only mux (mux\<lparr>m_packet_buf := buf\<rparr>)"
  by (simp add: io_only_def)

lemma io_only_registry: "io_only mux mux' \<Longrightarrow> same_registry mux mux'"
  by (auto simp: io_only_def same_registry_def)

lemma packet_out_io:
  "io_only mux ((snd (tsmux_packet_out (mux\<lparr>m_packet_buf := buf\<rparr>)))\<lparr>m_new_pcr := pcr\<rparr>)"
  "io_only mux (snd (tsmux_packet_out mux))"
  by (rule packet_out_cases [of "mux\<lparr>m_packet_buf := buf\<rparr>"], simp add: io_only_def)
    (rule packet_out_cases [of mux], simp add: io_only_def)

lemma io_after_out:
  "io_only ((snd (tsmux_packet_out (mux\<lparr>m_packet_buf := buf\<rparr>)))\<lparr>m_new_pcr := pcr\<rparr>) mux' \<Longrightarrow> io_only mux mux'"
  by (rule io_only_trans [OF packet_out_io(1)])

lemma section_loop_io:
  "write_section_loop fuel mux sec cur remain = Inr (ok, mux', sec') \<Longrightarrow> io_only mux mux'"
proof (induction fuel arbitrary: mux sec cur remain)
  case 0
  then show ?case by (auto split: if_splits)
next
  case (Suc fuel)
  note fin = packet_out_io(1) [where mux = mux and pcr = "-1"]
  show ?case
  proof (cases "remain = 0")
    case False
    define first where "first = pi_packet_start_unit_indicator (sec_pi sec)"
    obtain k buf pi1 l off where h: "tsmux_write_ts_header (m_packet_buf mux)
        (if first then (sec_pi sec)\<lparr>pi_stream_avail := pi_stream_avail (sec_pi sec) + 1\<rparr> else sec_pi sec)
        = Inr (k, buf, pi1, l, off)"
      using Suc.prems False unfolding write_section_loop.simps Let_def first_def [symmetric]
      by (auto simp: bindR_Inr_iff)
    show ?thesis
    proof (cases k)
      case True
      from Suc.prems obtain buf2 sec1 cur1 remain1 where
        "(let (res, mux1) = tsmux_packet_out (mux\<lparr>m_packet_buf := buf2\<rparr>); mux2 = mux1\<lparr>m_new_pcr := -1\<rparr>
          in if \<not> res then Inr (False, mux2, sec1) else write_section_loop fuel mux2 sec1 cur1 remain1) = Inr (ok, mux', sec')"
        unfolding write_section_loop.simps(2) if_not_P [OF False] Let_def first_def [symmetric] h bindR_simps
          prod.case eqTrueI [OF True] not_True_eq_False if_False bindR_Inr_iff
        by blast
      then show ?thesis
        using fin [where buf = buf2] by (auto simp: Let_def case_prod_beta split: if_splits dest!: Suc.IH intro: io_only_trans)
    qed (use Suc.prems False h in \<open>auto simp: first_def split: if_splits\<close>)
  qed (use Suc.prems in simp)
qed

lemma write_section_io: "tsmux_write_section mux sec = Inr (ok, mux', sec') \<Longrightarrow> io_only mux mux'"
  unfolding tsmux_write_section_def by (rule section_loop_io)

lemma write_pat_registry: "tsmux_write_pat mux = Inr (ok, mux') \<Longrightarrow> same_registry mux mux'"
  by (auto simp: tsmux_write_pat_def bindR_Inr_iff same_registry_def
      dest!: write_section_io io_only_registry split: if_splits)

lemma write_pmt_registry: "tsmux_write_pmt mux a = Inr (ok, mux') \<Longrightarrow> same_registry mux mux'"
  by (auto simp: tsmux_write_pmt_def Let_def bindR_Inr_iff same_registry_def
      dest!: write_section_io io_only_registry split: if_splits)

lemma write_due_pmts_registry:
  "write_due_pmts mux cur_pcr as = Inr (ok, mux') \<Longrightarrow> same_registry mux mux'"
proof (induction as arbitrary: mux)
  case (Cons a as)
  have "same_registry mux (set_program a ((m_program_at mux a)\<lparr>p_last_pmt_ts := cur_pcr\<rparr>) mux)"
    by (simp add: same_registry_def)
  with Cons show ?case
    by (auto simp: Let_def bindR_Inr_iff split: if_splits
        dest!: Cons.IH write_pmt_registry intro: same_registry_trans)
qed simp

lemma write_pcr_tables_registry:
  assumes "write_pcr_tables mux a = Inr (ok, mux')"
  shows "same_registry mux mux'"
proof -
  let ?st = "m_stream_at mux a"
  define mux1 where "mux1 = (if pcr_due ?st (stream_pcr ?st)
      then (set_stream a (?st\<lparr>s_pi := (s_pi ?st)\<lparr>pi_flags := pi_flags (s_pi ?st)
              OR (TSMUX_PACKET_FLAG_ADAPTATION OR TSMUX_PACKET_FLAG_WRITE_PCR),
              pi_pcr := stream_pcr ?st\<rparr>, s_last_pcr := stream_pcr ?st\<rparr>) mux)\<lparr>m_new_pcr := stream_pcr ?st\<rparr>
      else mux)"
  have 1: "same_registry mux mux1" by (simp add: mux1_def same_registry_def)
  have 2: "same_registry mux1 (mux1\<lparr>m_last_pat_ts := t\<rparr>)" for t by (simp add: same_registry_def)
  from assms obtain ok2 mux2 where pat: "(if table_due (m_last_pat_ts mux1) (m_pat_changed mux1) (m_pat_frequency mux1) (stream_pcr ?st)
      then tsmux_write_pat (mux1\<lparr>m_last_pat_ts := stream_pcr ?st\<rparr>) else Inr (True, mux1)) = Inr (ok2, mux2)"
    and fin: "(if ok2 then write_due_pmts mux2 (stream_pcr ?st) (m_programs mux2) else Inr (False, mux2)) = Inr (ok, mux')"
    unfolding write_pcr_tables_def Let_def mux1_def [symmetric] bindR_Inr_iff by auto
  have "same_registry mux1 mux2"
    using pat 2 by (auto split: if_splits dest!: write_pat_registry intro: same_registry_trans)
  moreover have "same_registry mux2 mux'"
    using fin by (auto split: if_splits dest!: write_due_pmts_registry)
  ultimately show ?thesis using 1 by (blast intro: same_registry_trans)
qed

text \<open>Reading from a stream keeps its PID and its reference count, whatever it returns.\<close>

definition same_stream :: "TsMuxStream \<Rightarrow> TsMuxStream \<Rightarrow> bool" where
  "same_stream st st' \<longleftrightarrow> pi_pid (s_pi st') = pi_pid (s_pi st) \<and> s_pcr_ref st' = s_pcr_ref st"

lemma consume_same:
  "quiet_release code \<Longrightarrow> tsmux_stream_consume code st n = Inr st' \<Longrightarrow> same_stream st st'"
  by (auto simp: tsmux_stream_consume_def bindR_Inr_iff Let_def same_stream_def quiet_release_def
      remember_ts_def split: option.splits if_splits)

lemma start_buffer_same: "start_buffer st = Some (b, st') \<Longrightarrow> same_stream st st'"
  by (auto simp: start_buffer_def same_stream_def split: option.splits list.splits)

lemma same_stream_trans: "same_stream a b \<Longrightarrow> same_stream b c \<Longrightarrow> same_stream a c"
  by (simp add: same_stream_def)

lemma get_data_loop_same:
  "quiet_release code \<Longrightarrow> get_data_loop code fuel st len out = Inr (ok, st', out') \<Longrightarrow> same_stream st st'"
proof (induction fuel arbitrary: st len out)
  case (Suc fuel)
  show ?case
  proof (cases "len = 0 \<or> start_buffer st = None")
    case True
    with Suc.prems(2) show ?thesis by (auto simp: same_stream_def split: if_splits)
  next
    case False
    then obtain b st1 where sb: "start_buffer st = Some (b, st1)" by auto
    with False Suc.prems(2) obtain st2 n len' out2 where "tsmux_stream_consume code st1 n = Inr st2"
      and "get_data_loop code fuel st2 len' out2 = Inr (ok, st', out')"
      by (auto simp: bindR_Inr_iff Let_def)
    then show ?thesis
      using start_buffer_same [OF sb] consume_same [OF Suc.prems(1)] Suc.IH [OF Suc.prems(1)]
      by (blast intro: same_stream_trans)
  qed
qed (auto simp: same_stream_def split: if_splits)

lemma start_pes_same: "same_stream st (start_pes st)"
  by (simp add: start_pes_def Let_def same_stream_def split: prod.splits)

lemma get_data_same:
  assumes "quiet_release code" and "tsmux_stream_get_data code st len = Inr (ok, st', out)"
  shows "same_stream st st'"
proof -
  let ?st1 = "if s_state st = TSMUX_STREAM_STATE_HEADER then start_pes st else st"
  have 1: "same_stream st ?st1" using start_pes_same by (simp add: same_stream_def)
  show ?thesis
    using assms(2) 1
    by (auto simp: tsmux_stream_get_data_def Let_def same_stream_def split: if_splits
        dest!: get_data_loop_same [OF assms(1)])
qed

lemma set_stream_registry:
  "same_registry mux mux1 \<Longrightarrow> same_stream (m_stream_at mux1 a) st \<Longrightarrow> same_registry mux (set_stream a st mux1)"
  by (simp add: same_registry_def same_stream_def)

lemma write_ts_header_pid:
  "tsmux_write_ts_header b pi = Inr (k, buf, pi1, x, y) \<Longrightarrow> pi_pid pi1 = pi_pid pi"
  by (auto simp: tsmux_write_ts_header_def Let_def bindR_Inr_iff split: if_splits)

lemma write_payload_registry:
  assumes quiet: "quiet_release code" and ret: "write_payload code mux a = Inr (ok, mux')"
  shows "same_registry mux mux'"
proof -
  let ?st = "m_stream_at mux a"
  let ?pi = "(s_pi ?st)\<lparr>pi_stream_avail := word_of_int (tsmux_stream_bytes_avail ?st),
                         pi_packet_start_unit_indicator := tsmux_stream_at_pes_start ?st\<rparr>"
  obtain k buf pi1 l off where h: "tsmux_write_ts_header (m_packet_buf mux) ?pi = Inr (k, buf, pi1, l, off)"
    using ret unfolding write_payload_def Let_def bindR_Inr_iff by auto
  have pid: "pi_pid pi1 = pi_pid (s_pi ?st)" using write_ts_header_pid [OF h] by simp
  show ?thesis
  proof (cases k)
    case False
    with ret h pid show ?thesis by (auto simp: write_payload_def Let_def same_registry_def)
  next
    case True
    let ?g = "tsmux_stream_get_data code (?st\<lparr>s_pi := pi1\<rparr>) l"
    have b: "bindR ?g (\<lambda>(k2, st2, out). bindR (store buf (unat off) out) (\<lambda>buf1.
        let mux2 = set_stream a st2 (mux\<lparr>m_packet_buf := buf1\<rparr>)
        in if \<not> k2 then Inr (False, mux2)
           else let (res, mux3) = tsmux_packet_out mux2; st3 = m_stream_at mux3 a
                in Inr (res, set_stream a (set_flags (pi_flags (s_pi st3) AND TSMUX_PACKET_FLAG_PES_FULL_HEADER) st3) mux3)))
        = Inr (ok, mux')"
      using ret True unfolding write_payload_def Let_def h bindR_simps prod.case by simp
    then obtain k2 st2 out where g: "?g = Inr (k2, st2, out)" by (auto simp: bindR_Inr_iff)
    with b obtain buf1 where "store buf (unat off) out = Inr buf1" and
      fin: "(let mux2 = set_stream a st2 (mux\<lparr>m_packet_buf := buf1\<rparr>)
         in if \<not> k2 then Inr (False, mux2)
            else let (res, mux3) = tsmux_packet_out mux2; st3 = m_stream_at mux3 a
                 in Inr (res, set_stream a (set_flags (pi_flags (s_pi st3) AND TSMUX_PACKET_FLAG_PES_FULL_HEADER) st3) mux3))
        = (Inr (ok, mux') :: (_ \<times> _) res)"
      unfolding g bindR_simps prod.case bindR_Inr_iff by (elim exE conjE) (rule that)
    let ?mux2 = "set_stream a st2 (mux\<lparr>m_packet_buf := buf1\<rparr>)"
    have "same_stream ?st st2" using get_data_same [OF quiet g] pid by (simp add: same_stream_def)
    then have reg2: "same_registry mux ?mux2" by (simp add: same_registry_def same_stream_def)
    obtain res w where "tsmux_packet_out ?mux2 = (res, ?mux2\<lparr>m_write_func_data := w\<rparr>)" by (rule packet_out_cases)
    with fin reg2 show ?thesis by (auto simp: Let_def same_registry_def split: if_splits)
  qed
qed

lemma write_stream_packet_registry:
  assumes quiet: "quiet_release code" and ret: "tsmux_write_stream_packet code mux s = Inr (ok, mux')"
  shows "same_registry mux mux'"
proof -
  let ?mux0 = "mux\<lparr>m_new_pcr := -1\<rparr>"
  have 0: "same_registry mux ?mux0" by (simp add: same_registry_def)
  show ?thesis
  proof (cases s)
    case None
    with ret 0 show ?thesis by (auto simp: tsmux_write_stream_packet_def Let_def)
  next
    case (Some a)
    from ret obtain ok1 mux1 where tab: "(if tsmux_stream_is_pcr (m_stream_at ?mux0 a) then write_pcr_tables ?mux0 a
        else Inr (True, ?mux0)) = Inr (ok1, mux1)"
      and fin: "(if ok1 then write_payload code mux1 a else Inr (False, mux1)) = Inr (ok, mux')"
      unfolding Some tsmux_write_stream_packet_def Let_def option.case bindR_Inr_iff by auto
    have "same_registry ?mux0 mux1" using tab by (auto split: if_splits dest!: write_pcr_tables_registry)
    moreover have "same_registry mux1 mux'"
      using fin by (auto split: if_splits dest!: write_payload_registry [OF quiet])
    ultimately show ?thesis using 0 by (blast intro: same_registry_trans)
  qed
qed

section \<open>The session\<close>

definition clock_users :: "'w TsMux \<Rightarrow> nat \<Rightarrow> nat set" where
  "clock_users mux s = {a \<in> set (m_programs mux). p_pcr_stream (m_program_at mux a) = Some s}"

abbreviation pid_of :: "'w TsMux \<Rightarrow> nat \<Rightarrow> u16" where
  "pid_of mux s \<equiv> pi_pid (s_pi (m_stream_at mux s))"

definition streams_wf :: "'w TsMux \<Rightarrow> bool" where
  "streams_wf mux \<longleftrightarrow>
     distinct (m_streams mux) \<and> (\<forall>s \<in> set (m_streams mux). s < m_next_addr mux)
   \<and> distinct (map (pid_of mux) (m_streams mux)) \<and> m_nb_streams mux = of_nat (length (m_streams mux))"

definition programs_wf :: "'w TsMux \<Rightarrow> bool" where
  "programs_wf mux \<longleftrightarrow>
     distinct (m_programs mux) \<and> (\<forall>a \<in> set (m_programs mux). a < m_next_addr mux)
   \<and> length (m_programs mux) \<le> 253 \<and> m_nb_programs mux = of_nat (length (m_programs mux))
   \<and> m_next_pgm_no mux = of_nat (length (m_programs mux) + 1)
   \<and> m_next_pmt_pid mux = of_nat (length (m_programs mux) + 0x10)
   \<and> map (\<lambda>a. p_pgm_number (m_program_at mux a)) (m_programs mux) = rev (map of_nat [1..<length (m_programs mux) + 1])
   \<and> map (\<lambda>a. p_pmt_pid (m_program_at mux a)) (m_programs mux) = rev (map of_nat [0x10..<length (m_programs mux) + 0x10])
   \<and> (\<forall>a \<in> set (m_programs mux).
        p_nb_streams (m_program_at mux a) = of_nat (length (p_streams (m_program_at mux a))))"

definition clocks_wf :: "'w TsMux \<Rightarrow> bool" where
  "clocks_wf mux \<longleftrightarrow>
     (\<forall>a \<in> set (m_programs mux). \<forall>s. p_pcr_stream (m_program_at mux a) = Some s \<longrightarrow> s \<in> set (m_streams mux))
   \<and> (\<forall>s \<in> set (m_streams mux). unat (s_pcr_ref (m_stream_at mux s)) = card (clock_users mux s))"

definition registry_wf :: "'w TsMux \<Rightarrow> bool" where
  "registry_wf mux \<longleftrightarrow> streams_wf mux \<and> programs_wf mux \<and> clocks_wf mux"

text \<open>What a client does: handles come from the multiplexer, data and frequencies are arbitrary.\<close>

inductive mux_step :: "release_code \<Rightarrow> 'w TsMux \<Rightarrow> 'w TsMux \<Rightarrow> bool" for code where
  step_program_new: "mux_step code mux (snd (tsmux_program_new mux))"
| step_create_stream: "mux_step code mux (snd (tsmux_create_stream mux ty pid))"
| step_add_stream: "a \<in> set (m_programs mux) \<Longrightarrow> s \<in> set (m_streams mux) \<Longrightarrow>
    mux_step code mux (tsmux_program_add_stream mux (Some a) (Some s))"
| step_set_pcr_stream: "a \<in> set (m_programs mux) \<Longrightarrow> set_option s \<subseteq> set (m_streams mux) \<Longrightarrow>
    mux_step code mux (tsmux_program_set_pcr_stream mux (Some a) s)"
| step_set_pat_frequency: "mux_step code mux (tsmux_set_pat_frequency mux freq)"
| step_set_pmt_frequency: "a \<in> set (m_programs mux) \<Longrightarrow>
    mux_step code mux (tsmux_set_pmt_frequency mux (Some a) freq)"
| step_set_write_func: "mux_step code mux (tsmux_set_write_func mux f w)"
| step_set_release: "s \<in> set (m_streams mux) \<Longrightarrow>
    mux_step code mux (set_stream s (tsmux_stream_set_buffer_release_func (m_stream_at mux s) f) mux)"
| step_add_data: "s \<in> set (m_streams mux) \<Longrightarrow>
    mux_step code mux (set_stream s (tsmux_stream_add_data (m_stream_at mux s) data len ud pts dts) mux)"
| step_write_packet: "s \<in> set (m_streams mux) \<Longrightarrow> tsmux_write_stream_packet code mux (Some s) = Inr (ok, mux') \<Longrightarrow>
    mux_step code mux mux'"

inductive_cases mux_stepE: "mux_step code mux mux'"

lemma same_registry_wf: "same_registry mux mux' \<Longrightarrow> registry_wf mux \<Longrightarrow> registry_wf mux'"
  by (simp add: same_registry_def registry_wf_def streams_wf_def programs_wf_def clocks_wf_def clock_users_def)

lemma new_wf: "registry_wf (tsmux_new w)"
  by (simp add: registry_wf_def streams_wf_def programs_wf_def clocks_wf_def tsmux_new_def)

lemma find_stream_None:
  "tsmux_find_stream mux pid = None \<longleftrightarrow> pid \<notin> pid_of mux ` set (m_streams mux)"
  by (auto simp: tsmux_find_stream_def find_None_iff tsmux_stream_get_pid_def)

lemma program_new_wf:
  assumes "registry_wf mux"
  shows "registry_wf (snd (tsmux_program_new mux))"
proof (cases "m_nb_programs mux = TSMUX_MAX_PROGRAMS")
  case False
  let ?n = "length (m_programs mux)" and ?mux' = "snd (tsmux_program_new mux)"
  have n: "?n < 253"
    using assms False by (auto simp: registry_wf_def programs_wf_def order.order_iff_strict)
  have fresh: "m_next_addr mux \<notin> set (m_programs mux)" "m_next_addr mux \<notin> set (m_streams mux)"
    using assms by (auto simp: registry_wf_def programs_wf_def streams_wf_def)
  have p: "m_programs ?mux' = m_next_addr mux # m_programs mux" "m_stream_at ?mux' = m_stream_at mux"
    "m_streams ?mux' = m_streams mux" "m_next_addr ?mux' = Suc (m_next_addr mux)"
    "\<And>a. a \<noteq> m_next_addr mux \<Longrightarrow> m_program_at ?mux' a = m_program_at mux a"
    "p_pcr_stream (m_program_at ?mux' (m_next_addr mux)) = None"
    using False by (simp_all add: tsmux_program_new_def Let_def)
  have old: "m_program_at ?mux' a = m_program_at mux a" if "a \<in> set (m_programs mux)" for a
    using that fresh by (intro p(5)) auto
  have "streams_wf ?mux'"
    using assms False by (auto simp: registry_wf_def streams_wf_def tsmux_program_new_def Let_def)
  moreover have "clock_users ?mux' s = clock_users mux s" for s
    using fresh by (auto simp: clock_users_def p old)
  then have "clocks_wf ?mux'"
    using assms unfolding registry_wf_def clocks_wf_def p(1-4) by (auto simp: p(6) old)
  moreover have "programs_wf ?mux'"
  proof -
    have wf: "programs_wf mux" using assms by (simp add: registry_wf_def)
    let ?new = "m_program_at ?mux' (m_next_addr mux)"
    have m: "map (\<lambda>a. f (m_program_at ?mux' a)) (m_programs mux) = map (\<lambda>a. f (m_program_at mux a)) (m_programs mux)"
      for f :: "TsMuxProgram \<Rightarrow> u16"
      by (rule map_cong) (simp_all add: old)
    have new: "p_pgm_number ?new = m_next_pgm_no mux" "p_pmt_pid ?new = m_next_pmt_pid mux"
      "p_streams ?new = []" "p_nb_streams ?new = 0"
      and nx: "m_nb_programs ?mux' = m_nb_programs mux + 1" "m_next_pgm_no ?mux' = m_next_pgm_no mux + 1"
      "m_next_pmt_pid ?mux' = m_next_pmt_pid mux + 1"
      using False by (simp_all add: tsmux_program_new_def Let_def)
    have up: "rev (map of_nat [k..<Suc ?n + k]) = of_nat (?n + k) # rev (map of_nat [k..<?n + k])" for k
      by simp
    show ?thesis
      using wf n fresh unfolding programs_wf_def p(1,4) list.map m new nx length_Cons up
      by (auto simp: old new less_Suc_eq algebra_simps)
  qed
  ultimately show ?thesis by (simp add: registry_wf_def)
qed (use assms in \<open>simp add: tsmux_program_new_def\<close>)

lemma create_stream_wf:
  assumes "registry_wf mux"
  shows "registry_wf (snd (tsmux_create_stream mux ty pid))"
proof -
  define mux1 where "mux1 = (if pid = TSMUX_PID_AUTO then snd (tsmux_get_new_pid mux) else mux)"
  define new_pid where "new_pid = (if pid = TSMUX_PID_AUTO then m_next_stream_pid mux else pid AND 0x1FFF)"
  have wf1: "registry_wf mux1"
    using assms by (simp add: mux1_def tsmux_get_new_pid_def registry_wf_def streams_wf_def programs_wf_def
        clocks_wf_def clock_users_def)
  have eq: "tsmux_create_stream mux ty pid =
    (if tsmux_find_stream mux1 new_pid \<noteq> None then (None, mux1)
     else (Some (m_next_addr mux1), (set_stream (m_next_addr mux1) (tsmux_stream_new new_pid ty) mux1)
                 \<lparr>m_next_addr := Suc (m_next_addr mux1), m_streams := m_next_addr mux1 # m_streams mux1,
                   m_nb_streams := m_nb_streams mux1 + 1\<rparr>))"
    by (simp add: tsmux_create_stream_def mux1_def new_pid_def tsmux_get_new_pid_def Let_def)
  show ?thesis
  proof (cases "tsmux_find_stream mux1 new_pid")
    case None
    let ?a = "m_next_addr mux1"
    let ?mux' = "(set_stream ?a (tsmux_stream_new new_pid ty) mux1)
                 \<lparr>m_next_addr := Suc ?a, m_streams := ?a # m_streams mux1, m_nb_streams := m_nb_streams mux1 + 1\<rparr>"
    have fresh: "?a \<notin> set (m_streams mux1)" "?a \<notin> set (m_programs mux1)"
      using wf1 by (auto simp: registry_wf_def streams_wf_def programs_wf_def)
    have new: "pi_pid (s_pi (tsmux_stream_new new_pid ty)) = new_pid" "s_pcr_ref (tsmux_stream_new new_pid ty) = 0"
      by (simp_all add: tsmux_stream_new_def stream0_def Let_def)
    have "map (pid_of ?mux') (m_streams mux1) = map (pid_of mux1) (m_streams mux1)"
      by (rule map_cong) (use fresh in auto)
    moreover have "pid_of ?mux' ?a = new_pid" using new by simp
    ultimately have "distinct (map (pid_of ?mux') (?a # m_streams mux1))"
      using wf1 None unfolding find_stream_None registry_wf_def streams_wf_def list.map
      by (simp only: distinct.simps set_map) auto
    then have "streams_wf ?mux'"
      using wf1 fresh unfolding registry_wf_def streams_wf_def by (simp add: less_Suc_eq)
    moreover have "programs_wf ?mux'"
      using wf1 unfolding registry_wf_def programs_wf_def by (auto simp: less_Suc_eq)
    moreover have users: "clock_users ?mux' s = clock_users mux1 s" for s by (simp add: clock_users_def)
    have "clock_users mux1 ?a = {}" using wf1 fresh by (auto simp: clock_users_def registry_wf_def clocks_wf_def)
    then have "clocks_wf ?mux'"
      using wf1 fresh new unfolding registry_wf_def clocks_wf_def users by auto
    ultimately show ?thesis using None by (simp add: eq registry_wf_def)
  qed (simp add: eq wf1)
qed

lemma clock_users_finite [simp, intro]: "finite (clock_users mux s)"
  by (simp add: clock_users_def)

lemma clock_users_card: "programs_wf mux \<Longrightarrow> card (clock_users mux s) \<le> 253"
proof -
  assume wf: "programs_wf mux"
  have "card (clock_users mux s) \<le> card (set (m_programs mux))"
    by (rule card_mono) (auto simp: clock_users_def)
  also have "\<dots> \<le> length (m_programs mux)" by (rule card_length)
  finally show ?thesis using wf by (simp add: programs_wf_def)
qed

text \<open>Moving the clock of a program from one stream to another adjusts both counts.\<close>

lemma set_pcr_refs:
  assumes "clocks_wf mux" and "programs_wf mux" and a: "a \<in> set (m_programs mux)"
    and s: "set_option s \<subseteq> set (m_streams mux)" and ne: "p_pcr_stream (m_program_at mux a) \<noteq> s"
    and t: "t \<in> set (m_streams mux)"
  shows "unat (s_pcr_ref (m_stream_at (tsmux_program_set_pcr_stream mux (Some a) s) t)) =
     card (clock_users (tsmux_program_set_pcr_stream mux (Some a) s) t)"
proof -
  let ?mux' = "tsmux_program_set_pcr_stream mux (Some a) s"
  let ?old = "p_pcr_stream (m_program_at mux a)"
  let ?r = "s_pcr_ref (m_stream_at mux t)"
  have ref: "unat ?r = card (clock_users mux t)" "unat ?r \<le> 253"
    using assms clock_users_card [of mux t] by (simp_all add: clocks_wf_def)
  have r': "s_pcr_ref (m_stream_at ?mux' t) = (if ?old = Some t then ?r - 1 else if s = Some t then ?r + 1 else ?r)"
    using ne by (auto simp: tsmux_program_set_pcr_stream_def Let_def tsmux_stream_pcr_ref_def
        tsmux_stream_pcr_unref_def split: option.splits)
  have p': "m_programs ?mux' = m_programs mux"
    "p_pcr_stream (m_program_at ?mux' b) = (if b = a then s else p_pcr_stream (m_program_at mux b))" for b
    using ne by (auto simp: tsmux_program_set_pcr_stream_def Let_def split: option.splits)
  have users: "clock_users ?mux' t =
      (if ?old = Some t then clock_users mux t - {a} else if s = Some t then insert a (clock_users mux t) else clock_users mux t)"
    using a ne by (auto simp: clock_users_def p')
  show ?thesis
  proof (cases "?old = Some t")
    case True
    then have "a \<in> clock_users mux t" using a by (simp add: clock_users_def)
    moreover from this have "0 < card (clock_users mux t)" by (auto simp: card_gt_0_iff)
    ultimately show ?thesis
      using True ref unfolding r' users by (simp add: unat_minus_one unat_gt_0 [symmetric] del: unat_gt_0)
  next
    case False
    then have "a \<notin> clock_users mux t" by (simp add: clock_users_def)
    then show ?thesis using False ref unfolding r' users by (simp add: unat_word_ariths)
  qed
qed

lemma set_pcr_stream_wf:
  assumes wf: "registry_wf mux" and a: "a \<in> set (m_programs mux)" and s: "set_option s \<subseteq> set (m_streams mux)"
  shows "registry_wf (tsmux_program_set_pcr_stream mux (Some a) s)"
proof (cases "p_pcr_stream (m_program_at mux a) = s")
  case True
  then show ?thesis using wf by (simp add: tsmux_program_set_pcr_stream_def Let_def)
next
  case False
  let ?mux' = "tsmux_program_set_pcr_stream mux (Some a) s"
  have m: "m_streams ?mux' = m_streams mux" "m_programs ?mux' = m_programs mux" "m_nb_streams ?mux' = m_nb_streams mux"
    "m_nb_programs ?mux' = m_nb_programs mux" "m_next_addr ?mux' = m_next_addr mux"
    "m_next_pgm_no ?mux' = m_next_pgm_no mux" "m_next_pmt_pid ?mux' = m_next_pmt_pid mux"
    "pid_of ?mux' t = pid_of mux t"
    "p_pgm_number (m_program_at ?mux' b) = p_pgm_number (m_program_at mux b)"
    "p_pmt_pid (m_program_at ?mux' b) = p_pmt_pid (m_program_at mux b)"
    "p_nb_streams (m_program_at ?mux' b) = p_nb_streams (m_program_at mux b)"
    "p_streams (m_program_at ?mux' b) = p_streams (m_program_at mux b)"
    "p_pcr_stream (m_program_at ?mux' b) = (if b = a then s else p_pcr_stream (m_program_at mux b))" for t b
    by (auto simp: tsmux_program_set_pcr_stream_def Let_def tsmux_stream_pcr_ref_def tsmux_stream_pcr_unref_def
        split: option.splits)
  have "streams_wf ?mux'" "programs_wf ?mux'"
    using wf by (simp_all add: registry_wf_def streams_wf_def programs_wf_def m)
  moreover have "unat (s_pcr_ref (m_stream_at ?mux' t)) = card (clock_users ?mux' t)" if "t \<in> set (m_streams mux)" for t
    using wf a s False that by (intro set_pcr_refs) (simp_all add: registry_wf_def)
  then have "clocks_wf ?mux'"
    using wf s unfolding registry_wf_def clocks_wf_def m by auto
  ultimately show ?thesis by (simp add: registry_wf_def)
qed

lemma add_stream_wf:
  assumes wf: "registry_wf mux" and a: "a \<in> set (m_programs mux)"
  shows "registry_wf (tsmux_program_add_stream mux (Some a) (Some s))"
proof -
  let ?mux' = "tsmux_program_add_stream mux (Some a) (Some s)" and ?p = "m_program_at mux a"
  have m: "m_streams ?mux' = m_streams mux" "m_programs ?mux' = m_programs mux" "m_nb_streams ?mux' = m_nb_streams mux"
    "m_nb_programs ?mux' = m_nb_programs mux" "m_next_addr ?mux' = m_next_addr mux"
    "m_next_pgm_no ?mux' = m_next_pgm_no mux" "m_next_pmt_pid ?mux' = m_next_pmt_pid mux"
    "m_stream_at ?mux' = m_stream_at mux"
    "p_pgm_number (m_program_at ?mux' b) = p_pgm_number (m_program_at mux b)"
    "p_pmt_pid (m_program_at ?mux' b) = p_pmt_pid (m_program_at mux b)"
    "p_pcr_stream (m_program_at ?mux' b) = p_pcr_stream (m_program_at mux b)"
    "p_nb_streams (m_program_at ?mux' b) = (if b = a then p_nb_streams ?p + 1 else p_nb_streams (m_program_at mux b))"
    "p_streams (m_program_at ?mux' b) = (if b = a then p_streams ?p @ [s] else p_streams (m_program_at mux b))" for b
    by (simp_all add: tsmux_program_add_stream_def Let_def)
  show ?thesis
    using wf a by (simp add: registry_wf_def streams_wf_def programs_wf_def clocks_wf_def clock_users_def m)
qed

interpretation session: step_invariant "\<lambda>mux. \<exists>w. mux = tsmux_new w"
    "\<lambda>mux mux'. quiet_release code \<and> mux_step code mux mux'" registry_wf for code
proof unfold_locales
  fix mux mux' :: "'a TsMux"
  assume wf: "registry_wf mux" and step: "quiet_release code \<and> mux_step code mux mux'"
  have keep: "registry_wf mux1" if "same_registry mux mux1" for mux1 using that wf by (rule same_registry_wf)
  from step have "mux_step code mux mux'" and quiet: "quiet_release code" by simp_all
  from this(1) show "registry_wf mux'"
  proof cases
    case (step_program_new)
    then show ?thesis using program_new_wf [OF wf] by simp
  next
    case (step_create_stream ty pid)
    then show ?thesis using create_stream_wf [OF wf] by simp
  next
    case (step_add_stream a s)
    then show ?thesis using add_stream_wf [OF wf] by simp
  next
    case (step_set_pcr_stream a s)
    then show ?thesis using set_pcr_stream_wf [OF wf] by simp
  next
    case (step_set_pat_frequency freq)
    then show ?thesis by (intro keep) (simp add: same_registry_def tsmux_set_pat_frequency_def)
  next
    case (step_set_pmt_frequency a freq)
    then show ?thesis by (intro keep) (simp add: same_registry_def tsmux_set_pmt_frequency_def)
  next
    case (step_set_write_func f w)
    then show ?thesis by (intro keep) (simp add: same_registry_def tsmux_set_write_func_def)
  next
    case (step_set_release s f)
    then show ?thesis by (intro keep) (simp add: same_registry_def tsmux_stream_set_buffer_release_func_def)
  next
    case (step_add_data s data len ud pts dts)
    then show ?thesis by (intro keep) (simp add: same_registry_def tsmux_stream_add_data_def Let_def)
  next
    case (step_write_packet s ok)
    then show ?thesis by (intro keep write_stream_packet_registry [OF quiet])
  qed
qed (auto simp: new_wf)

definition session :: "release_code \<Rightarrow> 'w TsMux \<Rightarrow> bool" where
  "session code mux \<longleftrightarrow> (\<exists>w. (mux_step code)\<^sup>*\<^sup>* (tsmux_new w) mux)"

lemma session_wf:
  fixes mux :: "'w TsMux"
  assumes "quiet_release code" and "session code mux"
  shows "registry_wf mux"
proof -
  obtain w where "(mux_step code)\<^sup>*\<^sup>* (tsmux_new w) mux" using assms(2) by (auto simp: session_def)
  moreover have "(\<lambda>mux mux'. quiet_release code \<and> mux_step code mux mux') = (mux_step code :: 'w TsMux \<Rightarrow> _)" using assms(1) by simp
  ultimately show ?thesis using session.reachable_inv [of "tsmux_new w" code mux] by auto
qed

section \<open>One payload packet\<close>

definition payload_pi :: "TsMuxStream \<Rightarrow> TsMuxPacketInfo" where
  "payload_pi st = (s_pi st)\<lparr>pi_stream_avail := word_of_int (tsmux_stream_bytes_avail st),
                             pi_packet_start_unit_indicator := tsmux_stream_at_pes_start st\<rparr>"

text \<open>How many payload bytes the next packet of the stream takes.\<close>

definition payload_room :: "TsMuxStream \<Rightarrow> nat" where
  "payload_room st = TSMUX_PAYLOAD_LENGTH - adapt_width (payload_pi st)"

lemma start_pes_info:
  assumes "pi_flags pi = pi_flags (s_pi st)"
  shows "start_pes (st\<lparr>s_pi := pi\<rparr>) = (start_pes st)\<lparr>s_pi := pi\<lparr>pi_flags := pi_flags (s_pi (start_pes st))\<rparr>\<rparr>"
  using assms unfolding start_pes_def Let_def by (simp split: prod.split)

lemma pes_header_info:
  assumes "pi_flags pi = pi_flags (s_pi st)"
  shows "tsmux_stream_pes_header_length (st\<lparr>s_pi := pi\<rparr>) = tsmux_stream_pes_header_length st"
    and "tsmux_stream_write_pes_header (st\<lparr>s_pi := pi\<rparr>) = tsmux_stream_write_pes_header st"
    and "tsmux_stream_bytes_avail (st\<lparr>s_pi := pi, s_state := x\<rparr>) = tsmux_stream_bytes_avail (st\<lparr>s_state := x\<rparr>)"
    and "tsmux_stream_bytes_avail (st\<lparr>s_pi := pi\<rparr>) = tsmux_stream_bytes_avail st"
proof -
  show l: "tsmux_stream_pes_header_length (st\<lparr>s_pi := pi\<rparr>) = tsmux_stream_pes_header_length st"
    unfolding tsmux_stream_pes_header_length_def using assms by simp
  have l': "tsmux_stream_pes_header_length (st\<lparr>s_pi := pi, s_state := x\<rparr>) = tsmux_stream_pes_header_length (st\<lparr>s_state := x\<rparr>)"
    unfolding tsmux_stream_pes_header_length_def using assms by simp
  show "tsmux_stream_write_pes_header (st\<lparr>s_pi := pi\<rparr>) = tsmux_stream_write_pes_header st"
    unfolding tsmux_stream_write_pes_header_def l Let_def using assms by (simp cong: if_cong)
  show "tsmux_stream_bytes_avail (st\<lparr>s_pi := pi, s_state := x\<rparr>) = tsmux_stream_bytes_avail (st\<lparr>s_state := x\<rparr>)"
    "tsmux_stream_bytes_avail (st\<lparr>s_pi := pi\<rparr>) = tsmux_stream_bytes_avail st"
    unfolding tsmux_stream_bytes_avail_def l l' tsmux_stream_bytes_in_buffer_def Let_def by (simp_all cong: if_cong)
qed

lemma pes_prefix_info:
  assumes "pi_flags pi = pi_flags (s_pi st)"
  shows "pes_prefix (st\<lparr>s_pi := pi\<rparr>) = pes_prefix st"
    and "tsmux_stream_bytes_avail (pes_entered (st\<lparr>s_pi := pi\<rparr>)) = tsmux_stream_bytes_avail (pes_entered st)"
  using pes_header_info [of "pi\<lparr>pi_flags := pi_flags (s_pi (start_pes st))\<rparr>" "start_pes st"]
    pes_header_info(4) [OF assms]
  unfolding pes_prefix_def pes_entered_def tsmux_stream_at_pes_start_def start_pes_info [OF assms]
  by simp_all

lemma no_private_fits: "pi_private_data_len pi = 0 \<Longrightarrow> adapt_fits pi"
  using adapt_clock_fields_length [of pi]
  by (simp add: adapt_fits_def adapt_body_def adapt_private_def adapt_ext_def)

lemma write_payload_packet:
  assumes quiet: "quiet_release code" and buf: "length (m_packet_buf mux) = 188"
    and st: "m_stream_at mux a = st" and wf: "stream_wf st" and small: "length (pending st) < 2 ^ 31"
    and pi: "packet_info_wf (s_pi st)" "pi_private_data_len (s_pi st) = 0" "pi_pid (s_pi st) < 2 ^ 13"
    and room: "0 < payload_room st" "length (pes_prefix st) \<le> payload_room st"
    and avail: "int (payload_room st - length (pes_prefix st)) \<le> tsmux_stream_bytes_avail (pes_entered st)"
  defines "k \<equiv> payload_room st - length (pes_prefix st)"
  shows "\<exists>pkt st'. write_payload code mux a =
      (let (res, mux3) = tsmux_packet_out (set_stream a st' (mux\<lparr>m_packet_buf := pkt\<rparr>));
           st3 = m_stream_at mux3 a
       in Inr (res, set_stream a (set_flags (pi_flags (s_pi st3) AND TSMUX_PACKET_FLAG_PES_FULL_HEADER) st3) mux3))
    \<and> ts_parse pkt = Some \<lparr>tp_start = tsmux_stream_at_pes_start st, tp_pid = pi_pid (s_pi st),
         tp_counter = take_bit 4 (pi_packet_count (s_pi st)),
         tp_payload = Some (pes_prefix st @ take k (pending st))\<rparr>
    \<and> pending st' = drop k (pending st) \<and> stream_wf st'"
proof -
  let ?pi = "payload_pi st"
  define w where "w = adapt_width ?pi"
  define n where "n = payload_room st"
  have q: "packet_info_wf ?pi" "adapt_fits ?pi" "pi_pid ?pi = pi_pid (s_pi st)" "pi_flags ?pi = pi_flags (s_pi st)"
    "pi_packet_count ?pi = pi_packet_count (s_pi st)" "pi_packet_start_unit_indicator ?pi = tsmux_stream_at_pes_start st"
    using pi by (auto simp: payload_pi_def packet_info_wf_def intro: no_private_fits)
  have w: "w \<le> 184" "n = 184 - w" using adapt_width_bounds(1) [OF q(2)] by (simp_all add: w_def n_def payload_room_def)
  define st1 where "st1 = st\<lparr>s_pi := count_packet ?pi\<rparr>"
  have "pi_flags (count_packet ?pi) = pi_flags (s_pi st)" by (simp add: count_packet_def q(4))
  note same = pes_prefix_info [OF this]
  have p1: "pending st1 = pending st" "stream_wf st1"
    using pending_cong [of st1 st] wf by (simp_all add: st1_def)
  have "n < 2 ^ 32" using w by simp
  then have un: "unat (of_nat n :: u32) = n" by simp
  have args: "stream_wf st1" "quiet_release code" "length (pending st1) < 2 ^ 31"
    "length (pes_prefix st1) \<le> unat (of_nat n :: u32)"
    "int (unat (of_nat n :: u32) - length (pes_prefix st1)) \<le> tsmux_stream_bytes_avail (pes_entered st1)"
    using p1 quiet small room avail unfolding un by (simp_all add: st1_def same n_def)
  from get_data_total [OF args] obtain st' where
    g: "tsmux_stream_get_data code st1 (of_nat n) = Inr (True, st', pes_prefix st @ take k (pending st))"
    unfolding un p1 k_def n_def [symmetric] by (auto simp: st1_def same)
  from get_data_success [OF p1(2) quiet g] obtain m where
    m: "m + length (pes_prefix st1) = n" "m \<le> length (pending st)" "pending st' = drop m (pending st)" "stream_wf st'"
    unfolding un p1 by blast
  have mk: "m = k" using m(1) by (simp add: k_def n_def [symmetric] st1_def same)
  let ?out = "pes_prefix st @ take k (pending st)" and ?h = "ts_header_bytes ?pi"
  have out: "length ?out = n" using m mk by (simp add: st1_def same)
  have hl: "length ?h = 4 + w" by (simp add: w_def)
  note hdr = write_ts_header_fits [OF buf q(1,2), folded w_def, folded w(2)]
  have off: "unat (of_nat (4 + w) :: u32) = 4 + w" using w(1) by (intro of_nat_less_word32_iff) simp
  have sto: "store (?h @ drop (4 + w) (m_packet_buf mux)) (4 + w) ?out = Inr (?h @ ?out)"
    using out buf hl w unfolding store_def by simp
  have "write_payload code mux a =
      (let (res, mux3) = tsmux_packet_out (set_stream a st' (mux\<lparr>m_packet_buf := ?h @ ?out\<rparr>));
           st3 = m_stream_at mux3 a
       in Inr (res, set_stream a (set_flags (pi_flags (s_pi st3) AND TSMUX_PACKET_FLAG_PES_FULL_HEADER) st3) mux3))"
    unfolding write_payload_def Let_def st payload_pi_def [symmetric] hdr bindR_simps prod.case
      st1_def [symmetric] g off sto not_True_eq_False if_False ..
  moreover have "ts_parse (?h @ ?out) = Some \<lparr>tp_start = tsmux_stream_at_pes_start st, tp_pid = pi_pid (s_pi st),
         tp_counter = take_bit 4 (pi_packet_count (s_pi st)), tp_payload = Some ?out\<rparr>"
  proof -
    have "?out \<noteq> []" using out room(1) by (metis length_0_conv n_def less_irrefl)
    then show ?thesis
      using ts_parse_header [OF q(2), of ?out] q pi(3) out w by (simp add: w_def)
  qed
  ultimately show ?thesis using m(3,4) unfolding mk by blast
qed

section \<open>Properties\<close>

lemma example_mux_session: "session (\<lambda>_ _ st. st) example_mux"
proof -
  let ?c = "\<lambda>_ _ st. st :: TsMuxStream"
  let ?m1 = "snd (tsmux_program_new (tsmux_new ()))"
  let ?m2 = "snd (tsmux_create_stream ?m1 TSMUX_ST_VIDEO_DIRAC TSMUX_PID_AUTO)"
  let ?m3 = "tsmux_program_add_stream ?m2 (Some 0) (Some (Suc 0))"
  have m2: "0 \<in> set (m_programs ?m2)" "Suc 0 \<in> set (m_streams ?m2)"
    and m3: "0 \<in> set (m_programs ?m3)" "Suc 0 \<in> set (m_streams ?m3)"
    and ex: "example_mux = tsmux_program_set_pcr_stream ?m3 (Some 0) (Some (Suc 0))"
    by (simp_all add: example_mux_def tsmux_program_new_def tsmux_new_def Let_def tsmux_create_stream_def
        tsmux_get_new_pid_def tsmux_find_stream_def tsmux_program_add_stream_def)
  have "mux_step ?c (tsmux_new ()) ?m1" by (rule step_program_new)
  moreover have "mux_step ?c ?m1 ?m2" by (rule step_create_stream)
  moreover have "mux_step ?c ?m2 ?m3" using m2 by (rule step_add_stream)
  moreover have "mux_step ?c ?m3 example_mux" unfolding ex using m3 by (intro step_set_pcr_stream) simp_all
  ultimately show ?thesis unfolding session_def by (blast intro: converse_rtranclp_into_rtranclp)
qed

text \<open>
  C6. In every state a client can reach, the streams have pairwise different PIDs and looking up
  a stream's PID finds that stream; program numbers and the PIDs of the map tables are pairwise
  different too.
\<close>

theorem session_ids_distinct:
  assumes "quiet_release code" and "session code mux"
  shows "distinct (map (\<lambda>s. tsmux_stream_get_pid (m_stream_at mux s)) (m_streams mux))
    \<and> (\<forall>s \<in> set (m_streams mux). tsmux_find_stream mux (tsmux_stream_get_pid (m_stream_at mux s)) = Some s)
    \<and> distinct (map (\<lambda>a. p_pgm_number (m_program_at mux a)) (m_programs mux))
    \<and> distinct (map (\<lambda>a. p_pmt_pid (m_program_at mux a)) (m_programs mux))"
proof -
  have wf: "streams_wf mux" "programs_wf mux" using session_wf [OF assms] by (simp_all add: registry_wf_def)
  have pids: "distinct (map (pid_of mux) (m_streams mux))" using wf(1) by (simp add: streams_wf_def)
  have find: "tsmux_find_stream mux (pid_of mux s) = Some s" if s: "s \<in> set (m_streams mux)" for s
  proof -
    obtain s' where f: "tsmux_find_stream mux (pid_of mux s) = Some s'"
      using s find_stream_None [of mux "pid_of mux s"] by auto
    then have "s' \<in> set (m_streams mux)" "pid_of mux s' = pid_of mux s"
      by (auto simp: tsmux_find_stream_def find_Some_iff tsmux_stream_get_pid_def)
    then show ?thesis using f s pids by (auto simp: distinct_map dest: inj_onD)
  qed
  have n: "length (m_programs mux) \<le> 253" using wf(2) by (simp add: programs_wf_def)
  have dist: "distinct (rev (map of_nat [k..<length (m_programs mux) + k] :: u16 list))" if "k \<le> 16" for k
  proof -
    have "inj_on (of_nat :: nat \<Rightarrow> u16) {..<65536}" by (rule inj_on_inverseI [of _ unat]) (simp add: unat_of_nat16)
    then have "inj_on (of_nat :: nat \<Rightarrow> u16) (set [k..<length (m_programs mux) + k])"
      by (rule inj_on_subset) (use n that in auto)
    then show ?thesis by (simp add: distinct_map)
  qed
  show ?thesis
    using wf(2) pids find dist [of 1] dist [of 16] unfolding programs_wf_def tsmux_stream_get_pid_def by simp
qed

theorem session_ids_distinct_witness:
  "tsmux_find_stream example_mux 0x40 = Some (Suc 0)"
proof -
  have s: "Suc 0 \<in> set (m_streams example_mux)"
    by (simp add: example_mux_def tsmux_program_new_def tsmux_new_def Let_def tsmux_create_stream_def
      tsmux_get_new_pid_def tsmux_find_stream_def tsmux_program_add_stream_def tsmux_program_set_pcr_stream_def)
  have pid: "tsmux_stream_get_pid (m_stream_at example_mux (Suc 0)) = 0x40"
    by (simp add: example_mux_program(2) tsmux_stream_get_pid_def tsmux_stream_pcr_ref_def tsmux_stream_new_def
        stream0_def packet_info0_def)
  have "quiet_release (\<lambda>_ _ st. st)" by (simp add: quiet_release_def)
  from session_ids_distinct [OF this example_mux_session] s pid show ?thesis by metis
qed

text \<open>
  C7. In every state a client can reach, a stream counts as a clock stream exactly when some
  program has it as its PCR stream: the reference count is the number of such programs.
\<close>

theorem session_clock_references:
  assumes "quiet_release code" and "session code mux" and "s \<in> set (m_streams mux)"
  shows "unat (s_pcr_ref (m_stream_at mux s)) =
      card {a \<in> set (m_programs mux). p_pcr_stream (m_program_at mux a) = Some s}
    \<and> (tsmux_stream_is_pcr (m_stream_at mux s) \<longleftrightarrow>
        (\<exists>a \<in> set (m_programs mux). p_pcr_stream (m_program_at mux a) = Some s))"
proof -
  let ?r = "s_pcr_ref (m_stream_at mux s)"
  have r: "unat ?r = card (clock_users mux s)"
    using session_wf [OF assms(1,2)] assms(3) by (simp add: registry_wf_def clocks_wf_def)
  have "?r \<noteq> 0 \<longleftrightarrow> unat ?r \<noteq> 0" by (simp add: unat_eq_zero)
  also have "\<dots> \<longleftrightarrow> clock_users mux s \<noteq> {}" by (simp add: r)
  finally show ?thesis using r by (auto simp: clock_users_def tsmux_stream_is_pcr_def)
qed

theorem session_clock_references_witness:
  "Suc 0 \<in> set (m_streams example_mux) \<and> tsmux_stream_is_pcr (m_stream_at example_mux (Suc 0))"
proof -
  have s: "Suc 0 \<in> set (m_streams example_mux)" and p: "0 \<in> set (m_programs example_mux)"
    by (simp_all add: example_mux_def tsmux_program_new_def tsmux_new_def Let_def tsmux_create_stream_def
      tsmux_get_new_pid_def tsmux_find_stream_def tsmux_program_add_stream_def tsmux_program_set_pcr_stream_def)
  have "quiet_release (\<lambda>_ _ st. st)" by (simp add: quiet_release_def)
  moreover have "p_pcr_stream (m_program_at example_mux 0) = Some (Suc 0)" by (simp add: example_mux_program(1))
  ultimately show ?thesis using session_clock_references [OF _ example_mux_session s] s p by blast
qed

text \<open>
  The 49th program gets PID 0x40 for its map table, the PID the first automatically numbered
  stream gets: in every session with at least 49 programs whose first automatic PID is still
  free, the new stream shares its PID with a program map table.
\<close>

theorem pmt_pid_collision:
  assumes "quiet_release code" and "session code mux" and "49 \<le> length (m_programs mux)"
    and "m_streams mux = []" and "m_next_stream_pid mux = 0x40"
  shows "\<exists>s mux' a. tsmux_create_stream mux ty TSMUX_PID_AUTO = (Some s, mux') \<and> a \<in> set (m_programs mux')
    \<and> p_pmt_pid (m_program_at mux' a) = tsmux_stream_get_pid (m_stream_at mux' s)"
proof -
  let ?n = "length (m_programs mux)" and ?mux' = "snd (tsmux_create_stream mux ty TSMUX_PID_AUTO)"
  have "programs_wf mux" using session_wf [OF assms(1,2)] by (simp add: registry_wf_def)
  then have "set (map (\<lambda>a. p_pmt_pid (m_program_at mux a)) (m_programs mux)) = of_nat ` {16..<?n + 16}"
    unfolding programs_wf_def by simp
  moreover have "64 \<in> {16..<?n + 16}" using assms(3) by simp
  ultimately have "of_nat 64 \<in> set (map (\<lambda>a. p_pmt_pid (m_program_at mux a)) (m_programs mux))" by blast
  then obtain a where a: "a \<in> set (m_programs mux)" "p_pmt_pid (m_program_at mux a) = 64" by auto
  have "tsmux_create_stream mux ty TSMUX_PID_AUTO = (Some (m_next_addr mux), ?mux')"
    "m_programs ?mux' = m_programs mux" "m_program_at ?mux' = m_program_at mux"
    "tsmux_stream_get_pid (m_stream_at ?mux' (m_next_addr mux)) = 0x40"
    using assms(4,5) by (simp_all add: tsmux_create_stream_def tsmux_get_new_pid_def tsmux_find_stream_def Let_def
        tsmux_stream_get_pid_def tsmux_stream_new_def stream0_def)
  then show ?thesis using a by metis
qed

definition programs_mux :: "nat \<Rightarrow> unit TsMux" where
  "programs_mux n = ((\<lambda>mux. snd (tsmux_program_new mux)) ^^ n) (tsmux_new ())"

lemma programs_mux_facts:
  "session code (programs_mux n) \<and> m_streams (programs_mux n) = [] \<and> m_next_stream_pid (programs_mux n) = 0x40
   \<and> (n \<le> 253 \<longrightarrow> length (m_programs (programs_mux n)) = n \<and> m_nb_programs (programs_mux n) = of_nat n)"
proof (induction n)
  case 0
  have "session code (tsmux_new ())" unfolding session_def by blast
  then show ?case by (simp add: programs_mux_def tsmux_new_def)
next
  case (Suc n)
  let ?m = "programs_mux n"
  have eq: "programs_mux (Suc n) = snd (tsmux_program_new ?m)" by (simp add: programs_mux_def)
  have "session code (snd (tsmux_program_new ?m))"
    using Suc unfolding session_def by (blast intro: rtranclp.rtrancl_into_rtrancl step_program_new)
  moreover have "m_nb_programs ?m \<noteq> TSMUX_MAX_PROGRAMS" if "Suc n \<le> 253"
  proof
    assume "m_nb_programs ?m = TSMUX_MAX_PROGRAMS"
    then have "unat (of_nat n :: u32) = 253" using Suc that by simp
    then show False using that by simp
  qed
  ultimately show ?case using Suc unfolding eq by (auto simp: tsmux_program_new_def Let_def)
qed

theorem pmt_pid_collision_witness:
  "\<exists>s mux' a. tsmux_create_stream (programs_mux 49) TSMUX_ST_VIDEO_H264 TSMUX_PID_AUTO = (Some s, mux')
    \<and> p_pmt_pid (m_program_at mux' a) = tsmux_stream_get_pid (m_stream_at mux' s)"
proof -
  have "quiet_release (\<lambda>_ _ st. st)" by (simp add: quiet_release_def)
  moreover have "session (\<lambda>_ _ st. st) (programs_mux 49)" "49 \<le> length (m_programs (programs_mux 49))"
    "m_streams (programs_mux 49) = []" "m_next_stream_pid (programs_mux 49) = 0x40"
    using programs_mux_facts [where n = 49] by simp_all
  ultimately show ?thesis
    using pmt_pid_collision [where mux = "programs_mux 49" and ty = TSMUX_ST_VIDEO_H264] by blast
qed

text \<open>
  C1. Once the tables that are due have been written, a packet of a stream with bytes to send
  (and, at the start of a PES packet, room for its header) reaches the client as one transport
  packet from which a decoder reads the stream's PID, its continuity counter, and the PES header
  followed by the oldest bytes of the stream; exactly those bytes leave the stream.
\<close>

theorem stream_packet_decodes:
  assumes "quiet_release code"
    and "(if tsmux_stream_is_pcr (m_stream_at mux a) then write_pcr_tables (mux\<lparr>m_new_pcr := -1\<rparr>) a
          else Inr (True, mux\<lparr>m_new_pcr := -1\<rparr>)) = Inr (True, mux1)"
    and "length (m_packet_buf mux1) = TSMUX_PACKET_LENGTH"
    and "m_stream_at mux1 a = st" and "stream_wf st" and "length (pending st) < 2 ^ 31"
    and "packet_info_wf (s_pi st)" and "pi_private_data_len (s_pi st) = 0" and "pi_pid (s_pi st) < 2 ^ 13"
    and "0 < payload_room st" and "length (pes_prefix st) \<le> payload_room st"
    and "int (payload_room st - length (pes_prefix st)) \<le> tsmux_stream_bytes_avail (pes_entered st)"
  shows "\<exists>pkt st' res mux3 n. tsmux_write_stream_packet code mux (Some a) = Inr (res, mux3)
    \<and> fst (tsmux_packet_out (set_stream a st' (mux1\<lparr>m_packet_buf := pkt\<rparr>))) = res
    \<and> ts_parse pkt = Some \<lparr>tp_start = tsmux_stream_at_pes_start st, tp_pid = pi_pid (s_pi st),
         tp_counter = take_bit 4 (pi_packet_count (s_pi st)),
         tp_payload = Some (pes_prefix st @ take n (pending st))\<rparr>
    \<and> pending st' = drop n (pending st) \<and> pending (m_stream_at mux3 a) = drop n (pending st)"
proof -
  let ?n = "payload_room st - length (pes_prefix st)"
  from write_payload_packet [OF assms(1,3-12)] obtain pkt st' where
    w: "write_payload code mux1 a =
      (let (res, mux3) = tsmux_packet_out (set_stream a st' (mux1\<lparr>m_packet_buf := pkt\<rparr>));
           st3 = m_stream_at mux3 a
       in Inr (res, set_stream a (set_flags (pi_flags (s_pi st3) AND TSMUX_PACKET_FLAG_PES_FULL_HEADER) st3) mux3))"
    and p: "ts_parse pkt = Some \<lparr>tp_start = tsmux_stream_at_pes_start st, tp_pid = pi_pid (s_pi st),
         tp_counter = take_bit 4 (pi_packet_count (s_pi st)), tp_payload = Some (pes_prefix st @ take ?n (pending st))\<rparr>"
    and d: "pending st' = drop ?n (pending st)" by blast
  obtain res w' where out: "tsmux_packet_out (set_stream a st' (mux1\<lparr>m_packet_buf := pkt\<rparr>)) =
      (res, (set_stream a st' (mux1\<lparr>m_packet_buf := pkt\<rparr>))\<lparr>m_write_func_data := w'\<rparr>)" by (rule packet_out_cases)
  let ?st4 = "set_flags (pi_flags (s_pi st') AND TSMUX_PACKET_FLAG_PES_FULL_HEADER) st'"
  let ?mux3 = "set_stream a ?st4 ((set_stream a st' (mux1\<lparr>m_packet_buf := pkt\<rparr>))\<lparr>m_write_func_data := w'\<rparr>)"
  have "write_payload code mux1 a = Inr (res, ?mux3)"
    unfolding w out Let_def prod.case by simp
  then have "tsmux_write_stream_packet code mux (Some a) = Inr (res, ?mux3)"
    unfolding tsmux_write_stream_packet_def Let_def option.case using assms(2) by simp
  moreover have "pending ?st4 = pending st'" by (rule pending_cong) simp_all
  ultimately show ?thesis
    using p d out
    by (intro exI [of _ pkt] exI [of _ st'] exI [of _ res] exI [of _ ?mux3] exI [of _ ?n]) simp
qed

theorem stream_packet_decodes_witness:
  "\<exists>pkt res mux3 n. tsmux_write_stream_packet (\<lambda>_ _ st. st)
       (set_stream 0 (tsmux_stream_add_data (tsmux_stream_new 0x40 TSMUX_ST_PRIVATE_DATA) [7, 8, 9] 3 0 (-1) (-1))
          (tsmux_new ())) (Some 0) = Inr (res, mux3)
    \<and> ts_parse pkt = Some \<lparr>tp_start = True, tp_pid = 0x40, tp_counter = 0,
         tp_payload = Some ([0, 0, 1, 0, 0, 3] @ take n [7, 8, 9])\<rparr>"
proof -
  let ?st = "tsmux_stream_add_data (tsmux_stream_new 0x40 TSMUX_ST_PRIVATE_DATA) [7, 8, 9] 3 0 (-1) (-1)"
  let ?mux = "set_stream 0 ?st (tsmux_new ())"
  have p: "pending ?st = [7, 8, 9]" "stream_wf ?st" using stream_new_wf by (simp_all add: add_data_wf)
  have pre: "pes_prefix ?st = [0, 0, 1, 0, 0, 3]" by (simp add: stream_eval)
  have av: "tsmux_stream_bytes_avail (pes_entered ?st) = 3" "tsmux_stream_bytes_avail ?st = 9"
    by (simp_all add: stream_eval pes_entered_def)
  have pi: "s_pi ?st = packet_info0\<lparr>pi_pid := 0x40\<rparr>" "tsmux_stream_at_pes_start ?st" "\<not> tsmux_stream_is_pcr ?st"
    by (simp_all add: tsmux_stream_add_data_def tsmux_stream_new_def stream0_def Let_def
        tsmux_stream_at_pes_start_def tsmux_stream_is_pcr_def)
  have room: "payload_room ?st = 9"
    unfolding payload_room_def payload_pi_def av(2) pi
    by (simp add: adapt_width_def adapt_body_def has_flag_def packet_info0_def)
  have "quiet_release (\<lambda>_ _ st. st)" by (simp add: quiet_release_def)
  moreover have "m_stream_at ?mux 0 = ?st" "length (m_packet_buf (?mux\<lparr>m_new_pcr := -1\<rparr>)) = 188"
    "m_stream_at (?mux\<lparr>m_new_pcr := -1\<rparr>) 0 = ?st"
    by (simp_all add: tsmux_new_def)
  moreover have "packet_info_wf (s_pi ?st)" "pi_private_data_len (s_pi ?st) = 0" "pi_pid (s_pi ?st) < 2 ^ 13"
    "pi_pid (s_pi ?st) = 0x40" "pi_packet_count (s_pi ?st) = 0"
    unfolding pi by (simp_all add: packet_info_wf_def packet_info0_def)
  ultimately show ?thesis
    using stream_packet_decodes [where code = "\<lambda>_ _ st. st" and mux = ?mux and a = 0
        and st = ?st and ?mux1.0 = "?mux\<lparr>m_new_pcr := -1\<rparr>"] p pre av pi room
    by (simp del: write_section_loop.simps) blast
qed

end
