(* ===== verification/OpusPacket.thy ===== *)
theory OpusPacket
  imports Prelude
begin

text \<open>
  The Opus packet format of \<^verbatim>\<open>OPUS/src/opus.c\<close> and the packet queries of \<^verbatim>\<open>OPUS/src/opus_decoder.c\<close>:
  the table of contents byte, the sz encoding and \<^verbatim>\<open>opus_packet_parse_impl\<close>. A \<^verbatim>\<open>const unsigned char *\<close>
  that the code advances is the list of the bytes from it to the end of the buffer; reading from
  an empty list is \<open>OutOfBounds\<close>. The lengths are \<^verbatim>\<open>opus_int32\<close>, kept as integers (no operation
  on them leaves the range for buffers below 2 GB), and \<^verbatim>\<open>opus_int16\<close> casts are written out. A negative return value is an
  \<open>opus_error\<close>, so a result is a fault, an error or a value.
\<close>

section \<open>Errors\<close>

datatype opus_error =
    OPUS_BAD_ARG | OPUS_BUFFER_TOO_SMALL | OPUS_INTERNAL_ERROR | OPUS_INVALID_PACKET
  | OPUS_UNIMPLEMENTED | OPUS_INVALID_STATE | OPUS_ALLOC_FAIL

fun opus_error_code :: "opus_error \<Rightarrow> int" where
  "opus_error_code OPUS_BAD_ARG = -1"
| "opus_error_code OPUS_BUFFER_TOO_SMALL = -2"
| "opus_error_code OPUS_INTERNAL_ERROR = -3"
| "opus_error_code OPUS_INVALID_PACKET = -4"
| "opus_error_code OPUS_UNIMPLEMENTED = -5"
| "opus_error_code OPUS_INVALID_STATE = -6"
| "opus_error_code OPUS_ALLOC_FAIL = -7"

type_synonym 'a eres = "(opus_error + 'a) res"

abbreviation err :: "opus_error \<Rightarrow> 'a eres" where "err e \<equiv> Inr (Inl e)"
abbreviation ret :: "'a \<Rightarrow> 'a eres" where "ret x \<equiv> Inr (Inr x)"

definition bindE :: "'a eres \<Rightarrow> ('a \<Rightarrow> 'b eres) \<Rightarrow> 'b eres" where
  "bindE m f = bindR m (\<lambda>x. case x of Inl e \<Rightarrow> err e | Inr y \<Rightarrow> f y)"

lemma bindE_simps [simp]:
  "bindE (Inl e) f = Inl e" "bindE (err x) f = err x" "bindE (ret y) f = f y"
  by (simp_all add: bindE_def)

lemma eres_cases:
  fixes m :: "'a eres"
  obtains f where "m = Inl f" | e where "m = err e" | x where "m = ret x"
  by (cases m; cases "projr m") auto

lemma bindE_ret_iff: "bindE m f = ret y \<longleftrightarrow> (\<exists>x. m = ret x \<and> f x = ret y)"
  by (auto simp: bindE_def bindR_def split: sum.splits)

lemma bindE_fault_iff: "bindE m f = Inl e \<longleftrightarrow> m = Inl e \<or> (\<exists>x. m = ret x \<and> f x = Inl e)"
  by (auto simp: bindE_def bindR_def split: sum.splits)

section \<open>The table of contents byte\<close>

datatype opus_mode = MODE_SILK_ONLY | MODE_HYBRID | MODE_CELT_ONLY

datatype opus_bandwidth =
    OPUS_BANDWIDTH_NARROWBAND | OPUS_BANDWIDTH_MEDIUMBAND | OPUS_BANDWIDTH_WIDEBAND
  | OPUS_BANDWIDTH_SUPERWIDEBAND | OPUS_BANDWIDTH_FULLBAND

fun bandwidth_code :: "opus_bandwidth \<Rightarrow> int" where
  "bandwidth_code OPUS_BANDWIDTH_NARROWBAND = 1101"
| "bandwidth_code OPUS_BANDWIDTH_MEDIUMBAND = 1102"
| "bandwidth_code OPUS_BANDWIDTH_WIDEBAND = 1103"
| "bandwidth_code OPUS_BANDWIDTH_SUPERWIDEBAND = 1104"
| "bandwidth_code OPUS_BANDWIDTH_FULLBAND = 1105"

text \<open>The argument of these functions is \<^verbatim>\<open>data[0]\<close>. \<open>Fs\<close> is a positive sampling rate.\<close>

definition opus_packet_get_mode :: "u8 \<Rightarrow> opus_mode" where
  "opus_packet_get_mode toc =
     (if toc AND 0x80 \<noteq> 0 then MODE_CELT_ONLY
      else if toc AND 0x60 = 0x60 then MODE_HYBRID else MODE_SILK_ONLY)"

definition opus_packet_get_bandwidth :: "u8 \<Rightarrow> int" where
  "opus_packet_get_bandwidth toc =
     (if toc AND 0x80 \<noteq> 0
      then let bandwidth = bandwidth_code OPUS_BANDWIDTH_MEDIUMBAND + uint (drop_bit 5 toc AND 3)
           in if bandwidth = bandwidth_code OPUS_BANDWIDTH_MEDIUMBAND
              then bandwidth_code OPUS_BANDWIDTH_NARROWBAND else bandwidth
      else if toc AND 0x60 = 0x60
      then (if toc AND 0x10 \<noteq> 0 then bandwidth_code OPUS_BANDWIDTH_FULLBAND
            else bandwidth_code OPUS_BANDWIDTH_SUPERWIDEBAND)
      else bandwidth_code OPUS_BANDWIDTH_NARROWBAND + uint (drop_bit 5 toc AND 3))"

definition opus_packet_get_nb_channels :: "u8 \<Rightarrow> int" where
  "opus_packet_get_nb_channels toc = (if toc AND 4 \<noteq> 0 then 2 else 1)"

definition opus_packet_get_samples_per_frame :: "u8 \<Rightarrow> int \<Rightarrow> int" where
  "opus_packet_get_samples_per_frame toc Fs =
     (let audiosize = unat (drop_bit 3 toc AND 3)
      in if toc AND 0x80 \<noteq> 0 then (Fs * 2 ^ audiosize) div 400
         else if toc AND 0x60 = 0x60 then (if toc AND 0x08 \<noteq> 0 then Fs div 50 else Fs div 100)
         else if audiosize = 3 then Fs * 60 div 1000 else (Fs * 2 ^ audiosize) div 100)"

definition opus_packet_get_nb_frames :: "bytes \<Rightarrow> int \<Rightarrow> int eres" where
  "opus_packet_get_nb_frames packet len =
     (if len < 1 then err OPUS_BAD_ARG
      else case packet of [] \<Rightarrow> Inl OutOfBounds
      | toc # r \<Rightarrow>
          let count = toc AND 3
          in if count = 0 then ret 1
             else if count \<noteq> 3 then ret 2
             else if len < 2 then err OPUS_INVALID_PACKET
             else case r of [] \<Rightarrow> Inl OutOfBounds | ch # _ \<Rightarrow> ret (uint (ch AND 0x3F)))"

definition opus_packet_get_nb_samples :: "bytes \<Rightarrow> int \<Rightarrow> int \<Rightarrow> int eres" where
  "opus_packet_get_nb_samples packet len Fs =
     bindE (opus_packet_get_nb_frames packet len) (\<lambda>count.
       let samples = count * opus_packet_get_samples_per_frame (hd packet) Fs
       in if samples * 25 > Fs * 3 then err OPUS_INVALID_PACKET else ret samples)"

section \<open>Frame sizes\<close>

definition s16 :: "int \<Rightarrow> int" where
  "s16 x = signed_take_bit 15 x"

definition encode_size :: "int \<Rightarrow> bytes" where
  "encode_size sz =
     (if sz < 252 then [word_of_int sz]
      else let b = word_of_int (252 + (sz AND 3)) :: u8
           in [b, word_of_int (drop_bit 2 (sz - uint b))])"

text \<open>The bytes read (-1 on failure) and the value of \<^verbatim>\<open>*size\<close>.\<close>

definition parse_size :: "bytes \<Rightarrow> int \<Rightarrow> (int \<times> int) res" where
  "parse_size data len =
     (if len < 1 then Inr (-1, -1)
      else case data of [] \<Rightarrow> Inl OutOfBounds
      | b0 # r \<Rightarrow>
          if b0 < 252 then Inr (1, uint b0)
          else if len < 2 then Inr (-1, -1)
          else (case r of [] \<Rightarrow> Inl OutOfBounds | b1 # _ \<Rightarrow> Inr (2, 4 * uint b1 + uint b0)))"

section \<open>Parsing a packet\<close>

text \<open>A size read with \<^verbatim>\<open>parse_size\<close> and checked: the sz, the bytes read, data and length behind it.\<close>

definition read_size :: "bytes \<Rightarrow> int \<Rightarrow> (int \<times> int \<times> bytes \<times> int) eres" where
  "read_size data len =
     bindR (parse_size data len) (\<lambda>(n, sz).
       let len' = len - n
       in if sz < 0 \<or> sz > len' then err OPUS_INVALID_PACKET
          else ret (sz, n, drop (nat n) data, len'))"

text \<open>The padding length bytes of a code 3 packet.\<close>

fun parse_padding :: "bytes \<Rightarrow> int \<Rightarrow> int \<Rightarrow> (bytes \<times> int \<times> int) eres" where
  "parse_padding [] len pad = (if len \<le> 0 then err OPUS_INVALID_PACKET else Inl OutOfBounds)"
| "parse_padding (p # data) len pad =
     (if len \<le> 0 then err OPUS_INVALID_PACKET
      else
        let tmp = (if p = 255 then 254 else uint p);
            len' = len - 1 - tmp;
            pad' = pad + tmp
        in if p = 255 then parse_padding data len' pad' else ret (data, len', pad'))"

text \<open>The sizes of all but the last frame of a VBR packet.\<close>

fun parse_vbr :: "nat \<Rightarrow> bytes \<Rightarrow> int \<Rightarrow> int \<Rightarrow> (int list \<times> bytes \<times> int \<times> int) eres" where
  "parse_vbr 0 data len last_size = ret ([], data, len, last_size)"
| "parse_vbr (Suc k) data len last_size =
     bindE (read_size data len) (\<lambda>(sz, n, data', len').
     bindE (parse_vbr k data' len' (last_size - (n + sz))) (\<lambda>(sizes, data'', len'', last').
       ret (sz # sizes, data'', len'', last')))"

text \<open>
  The switch on the packet code. The result: number of frames, whether they all have the same
  size, the sizes of all but the last frame as far as the code has set them, the data and length
  that are left, \<^verbatim>\<open>last_size\<close> and the padding.
\<close>

type_synonym code_state = "nat \<times> bool \<times> int list \<times> bytes \<times> int \<times> int \<times> int"

text \<open>Code 3, once the padding is off: \<open>vbr\<close> is bit 7 of the frame count byte.\<close>

definition parse_code3_sizes ::
  "nat \<Rightarrow> bool \<Rightarrow> bool \<Rightarrow> int \<Rightarrow> bytes \<times> int \<times> int \<Rightarrow> code_state eres" where
  "parse_code3_sizes count vbr self_delimited last0 rest =
     (case rest of (data, len, pad) \<Rightarrow>
        if len < 0 then err OPUS_INVALID_PACKET
        else if vbr
        then bindE (parse_vbr (count - 1) data len len) (\<lambda>(sizes, data', len', last_size).
               if last_size < 0 then err OPUS_INVALID_PACKET
               else ret (count, False, sizes, data', len', last_size, pad))
        else if self_delimited then ret (count, True, [], data, len, last0, pad)
        else
          let last_size = len div int count
          in if last_size * int count \<noteq> len then err OPUS_INVALID_PACKET
             else ret (count, True, replicate (count - 1) (s16 last_size), data, len, last_size, pad))"

definition parse_code3 :: "u8 \<Rightarrow> bytes \<Rightarrow> int \<Rightarrow> bool \<Rightarrow> code_state eres" where
  "parse_code3 toc data len self_delimited =
     (if len < 1 then err OPUS_INVALID_PACKET
      else case data of [] \<Rightarrow> Inl OutOfBounds
      | ch # data' \<Rightarrow>
          let count = unat (ch AND 0x3F)
          in if count = 0 \<or> opus_packet_get_samples_per_frame toc 48000 * int count > 5760
             then err OPUS_INVALID_PACKET
             else bindE (if ch AND 0x40 \<noteq> 0 then parse_padding data' (len - 1) 0 else ret (data', len - 1, 0))
                    (parse_code3_sizes count (ch AND 0x80 \<noteq> 0) self_delimited len))"

definition parse_code :: "u8 \<Rightarrow> bytes \<Rightarrow> int \<Rightarrow> bool \<Rightarrow> code_state eres" where
  "parse_code toc data len self_delimited =
     (let code = toc AND 3
      in if code = 0 then ret (1, False, [], data, len, len, 0)
         else if code = 1
         then (if self_delimited then ret (2, True, [], data, len, len, 0)
               else if odd len then err OPUS_INVALID_PACKET
               else ret (2, True, [s16 (len div 2)], data, len, len div 2, 0))
         else if code = 2
         then bindE (read_size data len) (\<lambda>(sz, n, data', len').
                ret (2, False, [sz], data', len', len' - sz, 0))
         else parse_code3 toc data len self_delimited)"

text \<open>The size of the last frame: all sizes, and the data behind the header.\<close>

definition parse_last :: "code_state \<Rightarrow> bool \<Rightarrow> (int list \<times> bytes) eres" where
  "parse_last st self_delimited =
     (case st of (count, cbr, sizes, data, len, last_size, pad) \<Rightarrow>
        if self_delimited
        then bindE (read_size data len) (\<lambda>(sz, n, data', len').
               if cbr then (if sz * int count > len' then err OPUS_INVALID_PACKET
                            else ret (replicate count sz, data'))
               else if n + sz > last_size then err OPUS_INVALID_PACKET
               else ret (sizes @ [sz], data'))
        else if last_size > 1275 then err OPUS_INVALID_PACKET
        else ret (sizes @ [s16 last_size], data))"

record opus_parsed =
  op_toc :: u8
  op_count :: nat
  op_sizes :: "int list"
  op_payload_offset :: nat
  op_packet_offset :: int

definition opus_packet_parse_impl :: "bytes \<Rightarrow> int \<Rightarrow> bool \<Rightarrow> opus_parsed eres" where
  "opus_packet_parse_impl data0 len self_delimited =
     (case data0 of [] \<Rightarrow> Inl OutOfBounds
      | toc # data \<Rightarrow>
          bindE (parse_code toc data (len - 1) self_delimited) (\<lambda>st.
          bindE (parse_last st self_delimited) (\<lambda>(sizes, payload).
            let payload_offset = length data0 - length payload
            in ret \<lparr>op_toc = toc, op_count = fst st, op_sizes = sizes,
                     op_payload_offset = payload_offset,
                     op_packet_offset = snd (snd (snd (snd (snd (snd st))))) + int payload_offset + sum_list sizes\<rparr>)))"

text \<open>\<open>frames[i]\<close> as an offset into the packet.\<close>

fun frame_offsets :: "nat \<Rightarrow> int list \<Rightarrow> nat list" where
  "frame_offsets pos [] = []"
| "frame_offsets pos (s # sizes) = pos # frame_offsets (pos + nat s) sizes"

definition opus_packet_parse :: "bytes \<Rightarrow> int \<Rightarrow> opus_parsed eres" where
  "opus_packet_parse data len = opus_packet_parse_impl data len False"

section \<open>Size codec\<close>

text \<open>What the decoder reads back as one size, as a prefix decoder.\<close>

definition size_read :: "bytes \<Rightarrow> (int \<times> bytes) option" where
  "size_read data =
     (case parse_size data (int (length data)) of
        Inr (n, sz) \<Rightarrow> if sz < 0 then None else Some (sz, drop (nat n) data)
      | Inl _ \<Rightarrow> None)"

lemma uint_u8: "0 \<le> uint (b :: u8)" "uint (b :: u8) < 256"
  using unsigned_less [of b, where 'a = int] by simp_all

lemma uint_of_int8: "0 \<le> x \<Longrightarrow> x < 256 \<Longrightarrow> uint (word_of_int x :: u8) = x"
  by (simp add: unsigned_of_int take_bit_int_eq_self)

lemma two_byte_size: "4 * uint (b1 :: u8) + uint (b0 :: u8) \<le> 1275"
  using uint_u8 [of b1] uint_u8 [of b0] by linarith

lemma parse_size_encode:
  assumes "0 \<le> s" and "s \<le> 1275" and "int (length (encode_size s)) \<le> len"
  shows "parse_size (encode_size s @ r) len = Inr (int (length (encode_size s)), s)"
proof (cases "s < 252")
  case True
  then have "uint (word_of_int s :: u8) = s" using assms(1) by (simp add: unsigned_of_int take_bit_int_eq_self)
  moreover from this have "(word_of_int s :: u8) < 252" using True by (simp add: word_less_def)
  ultimately show ?thesis using True assms(3) by (simp add: encode_size_def parse_size_def)
next
  case False
  define b where "b = (word_of_int (252 + (s AND 3)) :: u8)"
  define c where "c = (s - uint b) div 4"
  have and3: "s AND 3 = s mod 4" using take_bit_eq_mask [of 2 s] by (simp add: take_bit_eq_mod mask_eq_exp_minus_1)
  have b: "uint b = 252 + s mod 4"
    unfolding b_def and3 by (rule uint_of_int8) auto
  have "4 * c = s - uint b" and "0 \<le> c" and "c < 256"
    using False assms(2) unfolding c_def b by presburger+
  then have c: "uint (word_of_int c :: u8) = c" by (intro uint_of_int8)
  have e: "encode_size s = [b, word_of_int c]"
    using False unfolding encode_size_def Let_def b_def [symmetric] by (simp add: c_def drop_bit_eq_div)
  have "\<not> b < 252" using b by (simp add: word_less_def)
  then show ?thesis
    using assms(3) c \<open>4 * c = s - uint b\<close> by (simp add: e parse_size_def)
qed

lemma encode_size_length: "length (encode_size s) = (if s < 252 then 1 else 2)"
  by (simp add: encode_size_def Let_def)

interpretation size_codec: prefix_codec encode_size size_read "\<lambda>s. 0 \<le> s \<and> s \<le> 1275"
proof unfold_locales
  fix s :: int and r
  assume "0 \<le> s \<and> s \<le> 1275"
  then show "size_read (encode_size s @ r) = Some (s, r)"
    by (simp add: size_read_def parse_size_encode)
qed

lemma parse_size_bounds:
  assumes "parse_size data len = Inr (n, s)" and "0 \<le> s"
  shows "s \<le> 1275 \<and> 1 \<le> n \<and> n \<le> len \<and> nat n \<le> length data"
  using assms
  by (auto simp: parse_size_def two_byte_size split: if_splits list.splits intro: order_trans [OF less_imp_le [OF uint_u8(2)]])

lemma parse_size_safe: "len \<le> int (length data) \<Longrightarrow> \<exists>n s. parse_size data len = Inr (n, s)"
  by (auto simp: parse_size_def split: list.splits)

lemma read_size_safe: "len \<le> int (length data) \<Longrightarrow> read_size data len \<noteq> Inl e"
  using parse_size_safe [of len data] by (auto simp: read_size_def Let_def split: if_splits)

lemma read_size_ret:
  assumes "read_size data len = ret (s, n, data', len')"
  shows "0 \<le> s \<and> s \<le> 1275 \<and> s \<le> len' \<and> len' = len - n \<and> 1 \<le> n
    \<and> int (length data) = n + int (length data')"
proof -
  from assms have p: "parse_size data len = Inr (n, s)" "data' = drop (nat n) data" "0 \<le> s" "s \<le> len'" "len' = len - n"
    by (auto simp: read_size_def Let_def bindR_Inr_iff split: if_splits)
  with parse_size_bounds [OF p(1,3)] show ?thesis by auto
qed

section \<open>Safety of the parser\<close>

text \<open>
  Between the steps the data that is left holds the bytes the length counts and the padding,
  which is taken off the length as soon as it is known.
\<close>

lemma parse_padding_safe: "len \<le> int (length data) \<Longrightarrow> parse_padding data len pad \<noteq> Inl e"
proof (induction data arbitrary: len pad)
  case (Cons p data)
  have "len - 1 - 254 \<le> int (length data)" using Cons.prems by simp
  from Cons.IH [OF this] show ?case by (auto simp: Let_def)
qed simp

lemma parse_padding_ret:
  "parse_padding data len pad = ret (data', len', pad') \<Longrightarrow>
   pad \<le> pad' \<and> int (length data) - len - pad = int (length data') - len' - pad'"
proof (induction data arbitrary: len pad)
  case (Cons p data)
  then show ?case using uint_u8 [of p]
    by (auto simp: Let_def split: if_splits dest!: Cons.IH)
qed (simp split: if_splits)

lemma parse_vbr_safe: "len \<le> int (length data) \<Longrightarrow> parse_vbr k data len l \<noteq> Inl e"
proof (induction k arbitrary: data len l)
  case (Suc k)
  have "parse_vbr k data' len' l' \<noteq> Inl e" if "read_size data len = ret (s, n, data', len')" for s n data' len' l'
    using Suc.IH [of len' data'] read_size_ret [OF that] Suc.prems by auto
  then show ?case using read_size_safe [OF Suc.prems] by (auto simp: bindE_fault_iff)
qed simp

lemma parse_vbr_ret:
  "parse_vbr k data len l = ret (sizes, data', len', l') \<Longrightarrow>
   length sizes = k \<and> (\<forall>s \<in> set sizes. 0 \<le> s \<and> s \<le> 1275) \<and> l' = l - (len - len') - sum_list sizes
   \<and> int (length data) - len = int (length data') - len'"
proof (induction k arbitrary: data len l sizes)
  case (Suc k)
  then obtain s n data1 len1 sizes1 where r: "read_size data len = ret (s, n, data1, len1)"
    and rest: "parse_vbr k data1 len1 (l - (n + s)) = ret (sizes1, data', len', l')" and s: "sizes = s # sizes1"
    by (auto simp: bindE_ret_iff)
  show ?case using Suc.IH [OF rest] read_size_ret [OF r] s by auto
qed simp

lemma s16_small: "0 \<le> x \<Longrightarrow> x \<le> 1275 \<Longrightarrow> s16 x = x"
  by (simp add: s16_def signed_take_bit_int_eq_self)

text \<open>A frame has at least 2.5 ms: 120 samples at 48 kHz, 20 at 8 kHz.\<close>

lemma samples_per_frame_min:
  "120 \<le> opus_packet_get_samples_per_frame toc 48000" "20 \<le> opus_packet_get_samples_per_frame toc 8000"
proof -
  have "unat (drop_bit 3 toc AND 3) \<in> {0, 1, 2, 3}"
  proof -
    have "drop_bit 3 toc AND 3 \<le> (3 :: u8)" by (rule word_and_le1)
    then have "unat (drop_bit 3 toc AND 3) \<le> 3" by (simp add: word_le_nat_alt)
    then show ?thesis by auto
  qed
  then show "120 \<le> opus_packet_get_samples_per_frame toc 48000" "20 \<le> opus_packet_get_samples_per_frame toc 8000"
    by (auto simp: opus_packet_get_samples_per_frame_def Let_def)
qed

text \<open>What the switch guarantees of the state it leaves.\<close>

definition code_ok :: "bool \<Rightarrow> int \<Rightarrow> code_state \<Rightarrow> bool" where
  "code_ok self_delimited slack st \<longleftrightarrow>
     (case st of (count, cbr, sizes, data, len, last_size, pad) \<Rightarrow>
        1 \<le> count \<and> count \<le> 48 \<and> 0 \<le> pad \<and> 0 \<le> len \<and> int (length data) = len + pad + slack
      \<and> (if \<not> cbr then length sizes = count - 1 \<and> (\<forall>s \<in> set sizes. 0 \<le> s \<and> s \<le> 1275)
                      \<and> 0 \<le> last_size \<and> last_size = len - sum_list sizes
         else self_delimited
            \<or> (sizes = replicate (count - 1) (s16 last_size) \<and> 0 \<le> last_size \<and> last_size * int count = len)))"

lemma parse_code3_sizes_ret:
  assumes "parse_code3_sizes count vbr self_delimited last0 (data, len, pad) = ret st"
    and "1 \<le> count" "count \<le> 48" "0 \<le> pad"
  shows "code_ok self_delimited (int (length data) - len - pad) st"
proof (cases vbr)
  case True
  then obtain sizes data' len' last_size where
    v: "parse_vbr (count - 1) data len len = ret (sizes, data', len', last_size)"
    and st: "st = (count, False, sizes, data', len', last_size, pad)" and l: "0 \<le> last_size"
    using assms(1) by (auto simp: parse_code3_sizes_def bindE_ret_iff split: if_splits)
  have "0 \<le> sum_list sizes" using parse_vbr_ret [OF v] by (intro sum_list_nonneg) auto
  then show ?thesis using parse_vbr_ret [OF v] l assms(2-) by (auto simp: code_ok_def st)
next
  case False
  then show ?thesis
    using assms by (auto simp: parse_code3_sizes_def code_ok_def Let_def pos_imp_zdiv_nonneg_iff split: if_splits)
qed

lemma parse_code3_ret:
  assumes "parse_code3 toc data len self_delimited = ret st"
  shows "code_ok self_delimited (int (length data) - len) st"
proof -
  obtain ch data1 where d: "data = ch # data1" and l: "1 \<le> len"
    using assms by (auto simp: parse_code3_def Let_def split: if_splits list.splits)
  define count where "count = unat (ch AND 0x3F)"
  let ?fs = "opus_packet_get_samples_per_frame toc 48000"
  have c: "count \<noteq> 0" "?fs * int count \<le> 5760"
    using assms l unfolding d parse_code3_def list.case Let_def count_def [symmetric] by (auto split: if_splits)
  obtain data2 len2 pad where
    p: "(if ch AND 0x40 \<noteq> 0 then parse_padding data1 (len - 1) 0 else ret (data1, len - 1, 0)) = ret (data2, len2, pad)"
    and fin: "parse_code3_sizes count (ch AND 0x80 \<noteq> 0) self_delimited len (data2, len2, pad) = ret st"
    using assms l c unfolding d parse_code3_def Let_def count_def [symmetric] list.case bindE_ret_iff
    by (auto simp: bindE_ret_iff)
  have "120 * int count \<le> ?fs * int count" using samples_per_frame_min(1) [of toc] by (intro mult_right_mono) auto
  then have count: "1 \<le> count" "count \<le> 48" using c by linarith+
  have pad: "0 \<le> pad" "int (length data1) - (len - 1) = int (length data2) - len2 - pad"
    using p parse_padding_ret [of data1 "len - 1" 0] by (auto split: if_splits)
  have "int (length data) - len = int (length data2) - len2 - pad" using pad(2) d by simp
  then show ?thesis using parse_code3_sizes_ret [OF fin count pad(1)] by (simp only:)
qed

lemma parse_code_ret:
  assumes "parse_code toc data len self_delimited = ret st" and "0 \<le> len"
  shows "code_ok self_delimited (int (length data) - len) st"
proof -
  have e: "len div 2 * 2 = len" if "even len" using that by simp
  show ?thesis
  proof (cases "toc AND 3 \<in> {0, 1, 2}")
    case True
    then show ?thesis
      using assms e by (auto simp: parse_code_def code_ok_def Let_def bindE_ret_iff split: if_splits dest!: read_size_ret)
  next
    case False
    then show ?thesis using assms(1) by (intro parse_code3_ret) (simp add: parse_code_def Let_def)
  qed
qed

lemma parse_code_safe:
  assumes "len \<le> int (length data)"
  shows "parse_code toc data len self_delimited \<noteq> Inl e"
proof -
  have "parse_code3 toc data len self_delimited \<noteq> Inl e"
  proof (cases data)
    case (Cons ch data1)
    have l: "len - 1 \<le> int (length data1)" using assms Cons by simp
    have "parse_code3_sizes count vbr self_delimited last0 (data2, len2, pad) \<noteq> Inl e"
      if "len2 \<le> int (length data2)" for count vbr last0 data2 len2 pad
      using parse_vbr_safe [OF that] by (auto simp: parse_code3_sizes_def Let_def bindE_fault_iff split: if_splits)
    moreover have "len2 \<le> int (length data2)"
      if "parse_padding data1 (len - 1) 0 = ret (data2, len2, pad)" for data2 len2 pad
      using parse_padding_ret [OF that] l by linarith
    ultimately show ?thesis
      using parse_padding_safe [OF l] l Cons
      by (auto simp: parse_code3_def Let_def bindE_fault_iff split: if_splits)
  qed (use assms in \<open>simp add: parse_code3_def\<close>)
  then show ?thesis using read_size_safe [OF assms] by (auto simp: parse_code_def Let_def bindE_fault_iff)
qed

lemma parse_last_ret:
  assumes "code_ok self_delimited slack st" and "parse_last st self_delimited = ret (sizes, payload)"
    and "st = (count, cbr, sizes0, data, len, last_size, pad)"
  shows "length sizes = count \<and> (\<forall>s \<in> set sizes. 0 \<le> s \<and> s \<le> 1275)
    \<and> length payload \<le> length data
    \<and> sum_list sizes + pad + slack \<le> int (length payload)
    \<and> (\<not> self_delimited \<longrightarrow> payload = data \<and> sum_list sizes = len)"
proof (cases self_delimited)
  case False
  with assms(2,3) have p: "sizes = sizes0 @ [s16 last_size]" "payload = data" "last_size \<le> 1275"
    by (auto simp: parse_last_def split: if_splits)
  have l: "0 \<le> last_size" using assms(1,3) False by (auto simp: code_ok_def split: if_splits)
  then have s: "s16 last_size = last_size" using p(3) by (rule s16_small)
  show ?thesis
  proof (cases cbr)
    case True
    then have "sizes0 = replicate (count - 1) last_size" "last_size * int count = len" "1 \<le> count"
      "int (length data) = len + pad + slack"
      using assms(1,3) False s by (auto simp: code_ok_def)
    moreover from this have "sum_list sizes0 + last_size = len"
      by (simp add: sum_list_replicate of_nat_diff algebra_simps)
    ultimately show ?thesis using p s l False by auto
  qed (use assms p s l False in \<open>auto simp: code_ok_def\<close>)
next
  case True
  then obtain sz n data' len' where r: "read_size data len = ret (sz, n, data', len')"
    and fin: "(if cbr then (if sz * int count > len' then err OPUS_INVALID_PACKET else ret (replicate count sz, data'))
               else if n + sz > last_size then err OPUS_INVALID_PACKET else ret (sizes0 @ [sz], data')) = ret (sizes, payload)"
    using assms(2,3) by (auto simp: parse_last_def bindE_ret_iff)
  show ?thesis
    using fin read_size_ret [OF r] assms(1,3) True
    by (auto simp: code_ok_def sum_list_replicate algebra_simps split: if_splits)
qed

text \<open>The data only ever gets shorter.\<close>

lemma parse_padding_suffix:
  "parse_padding data len pad = ret (data', len', pad') \<Longrightarrow> length data' \<le> length data"
proof (induction data arbitrary: len pad)
  case (Cons p data)
  then show ?case by (auto simp: Let_def split: if_splits dest!: Cons.IH)
qed (simp split: if_splits)

lemma parse_vbr_suffix: "parse_vbr k data len l = ret (sizes, data', len', l') \<Longrightarrow> length data' \<le> length data"
proof (induction k arbitrary: data len l sizes)
  case (Suc k)
  then obtain s n data1 len1 sizes1 where r: "read_size data len = ret (s, n, data1, len1)"
    and rest: "parse_vbr k data1 len1 (l - (n + s)) = ret (sizes1, data', len', l')"
    by (auto simp: bindE_ret_iff)
  show ?case using Suc.IH [OF rest] read_size_ret [OF r] by simp
qed simp

lemma parse_code_suffix:
  "parse_code toc data len self_delimited = ret st \<Longrightarrow> length (fst (snd (snd (snd st)))) \<le> length data"
  by (auto simp: parse_code_def parse_code3_def parse_code3_sizes_def Let_def bindE_ret_iff
      split: if_splits list.splits dest!: read_size_ret parse_vbr_suffix parse_padding_suffix)

lemma parse_last_safe:
  "code_ok self_delimited slack st \<Longrightarrow> 0 \<le> slack \<Longrightarrow> parse_last st self_delimited \<noteq> Inl e"
proof -
  assume ok: "code_ok self_delimited slack st" and slack: "0 \<le> slack"
  obtain count cbr sizes data len last_size pad where st: "st = (count, cbr, sizes, data, len, last_size, pad)"
    by (cases st)
  have "len \<le> int (length data)" using ok slack by (simp add: code_ok_def st)
  from read_size_safe [OF this] show ?thesis
    by (auto simp: parse_last_def st bindE_fault_iff split: if_splits)
qed

lemma parse_impl_safe:
  assumes "1 \<le> len" "len \<le> int (length data0)"
  shows "opus_packet_parse_impl data0 len self_delimited \<noteq> Inl e"
proof -
  obtain toc data where d: "data0 = toc # data" using assms by (cases data0) auto
  have "parse_code toc data (len - 1) self_delimited \<noteq> Inl e" by (rule parse_code_safe) (use assms d in simp)
  moreover have "parse_last st self_delimited \<noteq> Inl e" if "parse_code toc data (len - 1) self_delimited = ret st" for st
    using parse_last_safe parse_code_ret [OF that] assms d by simp
  ultimately show ?thesis by (auto simp: opus_packet_parse_impl_def d bindE_fault_iff Let_def)
qed

lemma parse_impl_ret:
  assumes "opus_packet_parse_impl data0 len self_delimited = ret p" and "1 \<le> len" "len \<le> int (length data0)"
  shows "length (op_sizes p) = op_count p \<and> 1 \<le> op_count p \<and> op_count p \<le> 48
    \<and> (\<forall>s \<in> set (op_sizes p). 0 \<le> s \<and> s \<le> 1275)
    \<and> int (op_payload_offset p) + sum_list (op_sizes p) \<le> op_packet_offset p
    \<and> op_packet_offset p \<le> len \<and> (\<not> self_delimited \<longrightarrow> op_packet_offset p = len)"
proof -
  obtain toc data where d: "data0 = toc # data"
    using assms by (cases data0) (simp_all add: opus_packet_parse_impl_def)
  obtain st sizes payload where c: "parse_code toc data (len - 1) self_delimited = ret st"
    and l: "parse_last st self_delimited = ret (sizes, payload)"
    and p: "p = \<lparr>op_toc = toc, op_count = fst st, op_sizes = sizes, op_payload_offset = length data0 - length payload,
      op_packet_offset = snd (snd (snd (snd (snd (snd st))))) + int (length data0 - length payload) + sum_list sizes\<rparr>"
    using assms unfolding d opus_packet_parse_impl_def by (auto simp: bindE_ret_iff Let_def)
  have ok: "code_ok self_delimited (int (length data) - (len - 1)) st" using parse_code_ret [OF c] assms(2) by simp
  obtain count cbr sizes0 data1 len1 last_size pad where st: "st = (count, cbr, sizes0, data1, len1, last_size, pad)"
    by (cases st)
  note last = parse_last_ret [OF ok l st]
  have "length data1 \<le> length data" using parse_code_suffix [OF c] by (simp add: st)
  then show ?thesis using last ok d by (auto simp: p st code_ok_def)
qed

section \<open>The number of frames\<close>

lemma toc_code_cases: "toc AND 3 = 0 \<or> toc AND 3 = 1 \<or> toc AND 3 = 2 \<or> toc AND 3 = (3 :: u8)"
proof -
  have "toc AND 3 \<le> (3 :: u8)" by (rule word_and_le1)
  then have "unat (toc AND 3) \<le> 3" by (simp add: word_le_nat_alt)
  then have "unat (toc AND 3) \<in> {0, 1, 2, 3}" by auto
  then show ?thesis by (auto simp: word_unat_eq_iff)
qed

lemma parse_code_count:
  assumes "parse_code toc data (len - 1) self_delimited = ret st" and "1 \<le> len"
  shows "opus_packet_get_nb_frames (toc # data) len = ret (int (fst st))"
proof (cases "toc AND 3 = 3")
  case True
  then show ?thesis
    using assms
    by (auto simp: parse_code_def opus_packet_get_nb_frames_def parse_code3_def parse_code3_sizes_def Let_def bindE_ret_iff
        split: list.splits if_splits)
qed (use assms toc_code_cases [of toc] in \<open>auto simp: parse_code_def opus_packet_get_nb_frames_def Let_def bindE_ret_iff split: if_splits\<close>)

lemma parse_impl_count:
  assumes "opus_packet_parse_impl data0 len self_delimited = ret p" and "1 \<le> len"
  shows "opus_packet_get_nb_frames data0 len = ret (int (op_count p))"
  using assms
  by (auto simp: opus_packet_parse_impl_def bindE_ret_iff Let_def dest!: parse_code_count split: list.splits)

section \<open>Properties\<close>

text \<open>C16. The parser never reads outside the \<open>len\<close> bytes it is given (at least one), delimited or
  not, and when it accepts a packet there are 1 to 48 frames of 0 to 1275 bytes, which together
  with the header lie inside the packet.\<close>
theorem opus_parse_bounds:
  assumes "1 \<le> len" and "len \<le> int (length data)"
  shows "opus_packet_parse_impl data len self_delimited \<noteq> Inl e
    \<and> (\<forall>p. opus_packet_parse_impl data len self_delimited = ret p \<longrightarrow>
         1 \<le> op_count p \<and> op_count p \<le> 48 \<and> length (op_sizes p) = op_count p
       \<and> (\<forall>s \<in> set (op_sizes p). 0 \<le> s \<and> s \<le> 1275)
       \<and> int (op_payload_offset p) + sum_list (op_sizes p) \<le> op_packet_offset p \<and> op_packet_offset p \<le> len)"
  using parse_impl_safe [OF assms] parse_impl_ret [OF _ assms] by auto

lemmas parse_eval = opus_packet_parse_impl_def parse_code_def parse_code3_def parse_code3_sizes_def parse_last_def
  read_size_def parse_size_def opus_packet_get_samples_per_frame_def opus_packet_get_nb_frames_def s16_def
  opus_packet_parse_def

theorem opus_parse_bounds_witness:
  "opus_packet_parse_impl [0x0A, 2, 0x11, 0x22, 0x33] 5 False
     = ret \<lparr>op_toc = 0x0A, op_count = 2, op_sizes = [2, 1], op_payload_offset = 2, op_packet_offset = 5\<rparr>
   \<and> op_count \<lparr>op_toc = 0x0A, op_count = 2, op_sizes = [2, 1], op_payload_offset = 2, op_packet_offset = 5\<rparr> \<le> 48"
proof -
  have "opus_packet_parse_impl [0x0A, 2, 0x11, 0x22, 0x33] 5 False
     = ret \<lparr>op_toc = 0x0A, op_count = 2, op_sizes = [2, 1], op_payload_offset = 2, op_packet_offset = 5\<rparr>"
    by (simp add: parse_eval)
  then show ?thesis using opus_parse_bounds [of 5 "[0x0A, 2, 0x11, 0x22, 0x33]" False] by simp
qed

text \<open>\<^verbatim>\<open>opus_packet_get_nb_frames\<close>, which only looks at the first two bytes, agrees with the parser on
  every packet the parser accepts.\<close>
theorem opus_nb_frames_agrees:
  assumes "opus_packet_parse_impl data len self_delimited = ret p" and "1 \<le> len"
  shows "opus_packet_get_nb_frames data len = ret (int (op_count p))"
  by (rule parse_impl_count [OF assms])

theorem opus_nb_frames_agrees_witness:
  "opus_packet_get_nb_frames [0x0A, 2, 0x11, 0x22, 0x33] 5 = ret 2"
  using opus_nb_frames_agrees [of "[0x0A, 2, 0x11, 0x22, 0x33]" 5 False
      "\<lparr>op_toc = 0x0A, op_count = 2, op_sizes = [2, 1], op_payload_offset = 2, op_packet_offset = 5\<rparr>"]
  by (simp add: parse_eval)

end
