(* ===== verification/OpusRepack.thy ===== *)
theory OpusRepack
  imports OpusPacket
begin

text \<open>
  \<^verbatim>\<open>OPUS/src/repacketizer.c\<close>: merging, splitting, padding and unpadding Opus packets. The code
  keeps pointers into the client's packets and pads and unpads in place, so the model has one
  memory, a list of bytes, and a pointer is an offset into it. \<open>rp_frames\<close> holds the entries of
  \<^verbatim>\<open>frames\<close> and \<^verbatim>\<open>len\<close> that are in use. \<^verbatim>\<open>opus_repacketizer_create\<close> and \<^verbatim>\<open>_destroy\<close> allocate and free only.
\<close>

section \<open>State\<close>

record OpusRepacketizer =
  rp_toc :: u8
  rp_nb_frames :: int
  rp_frames :: "(nat \<times> int) list"
  rp_framesize :: int

definition opus_repacketizer_init :: "OpusRepacketizer \<Rightarrow> OpusRepacketizer" where
  "opus_repacketizer_init rp = rp\<lparr>rp_nb_frames := 0\<rparr>"

definition opus_repacketizer_get_nb_frames :: "OpusRepacketizer \<Rightarrow> int" where
  "opus_repacketizer_get_nb_frames rp = rp_nb_frames rp"

text \<open>An uninitialised object on the stack, whose fields hold anything.\<close>

definition rp_fresh :: OpusRepacketizer where
  "rp_fresh = \<lparr>rp_toc = 0, rp_nb_frames = 0, rp_frames = [], rp_framesize = 0\<rparr>"

section \<open>Adding a packet\<close>

definition opus_repacketizer_cat_impl ::
  "OpusRepacketizer \<Rightarrow> bytes \<Rightarrow> nat \<Rightarrow> int \<Rightarrow> bool \<Rightarrow> ((opus_error + unit) \<times> OpusRepacketizer) res" where
  "opus_repacketizer_cat_impl rp mem off len self_delimited =
     (if len < 1 then Inr (Inl OPUS_INVALID_PACKET, rp)
      else case drop off mem of [] \<Rightarrow> Inl OutOfBounds
      | toc # _ \<Rightarrow>
          let rp1 = (if rp_nb_frames rp = 0
                     then rp\<lparr>rp_toc := toc, rp_framesize := opus_packet_get_samples_per_frame toc 8000\<rparr> else rp)
          in if rp_nb_frames rp \<noteq> 0 \<and> rp_toc rp AND 0xFC \<noteq> toc AND 0xFC then Inr (Inl OPUS_INVALID_PACKET, rp1)
             else bindR (opus_packet_get_nb_frames (drop off mem) len) (\<lambda>curr.
               case curr of Inl _ \<Rightarrow> Inr (Inl OPUS_INVALID_PACKET, rp1)
               | Inr curr_nb_frames \<Rightarrow>
                   if curr_nb_frames < 1 then Inr (Inl OPUS_INVALID_PACKET, rp1)
                   else if (curr_nb_frames + rp_nb_frames rp1) * rp_framesize rp1 > 960
                   then Inr (Inl OPUS_INVALID_PACKET, rp1)
                   else bindR (opus_packet_parse_impl (drop off mem) len self_delimited) (\<lambda>r.
                     case r of Inl e \<Rightarrow> Inr (Inl e, rp1)
                     | Inr p \<Rightarrow>
                         Inr (Inr (), rp1\<lparr>rp_frames := take (nat (rp_nb_frames rp1)) (rp_frames rp1)
                              @ zip (map ((+) off) (frame_offsets (op_payload_offset p) (op_sizes p))) (op_sizes p),
                            rp_nb_frames := rp_nb_frames rp1 + curr_nb_frames\<rparr>))))"

definition opus_repacketizer_cat ::
  "OpusRepacketizer \<Rightarrow> bytes \<Rightarrow> nat \<Rightarrow> int \<Rightarrow> ((opus_error + unit) \<times> OpusRepacketizer) res" where
  "opus_repacketizer_cat rp mem off len = opus_repacketizer_cat_impl rp mem off len False"

section \<open>Writing a packet\<close>

text \<open>The bytes a size takes: \<^verbatim>\<open>1 + (len >= 252)\<close>.\<close>

definition size_bytes :: "int \<Rightarrow> int" where
  "size_bytes s = 1 + (if s \<ge> 252 then 1 else 0)"

text \<open>Codes 0 to 2, for one or two frames: total size and header.\<close>

definition short_layout :: "u8 \<Rightarrow> int list \<Rightarrow> int \<Rightarrow> int \<times> bytes" where
  "short_layout toc lens sd =
     (if length lens = 1 then (sd + lens ! 0 + 1, [toc AND 0xFC])
      else if lens ! 1 = lens ! 0 then (sd + 2 * lens ! 0 + 1, [(toc AND 0xFC) OR 1])
      else (sd + lens ! 0 + lens ! 1 + 2 + (if lens ! 0 \<ge> 252 then 1 else 0),
            ((toc AND 0xFC) OR 2) # encode_size (lens ! 0)))"

text \<open>Code 3: total size and header, with the padding length bytes.\<close>

definition padding_bytes :: "int \<Rightarrow> bytes" where
  "padding_bytes pad_amount =
     (let nb_255s = (pad_amount - 1) div 255
      in replicate (nat nb_255s) 255 @ [word_of_int (pad_amount - 255 * nb_255s - 1)])"

definition code3_layout :: "u8 \<Rightarrow> int list \<Rightarrow> int \<Rightarrow> bool \<Rightarrow> int \<Rightarrow> (int \<times> bytes) eres" where
  "code3_layout toc lens sd pad maxlen =
     (let vbr = (\<exists>s \<in> set lens. s \<noteq> lens ! 0);
          tot = (if vbr then sd + 2 + sum_list (map (\<lambda>s. size_bytes s + s) (butlast lens)) + last lens
                 else sd + int (length lens) * lens ! 0 + 2);
          pad_amount = (if pad then maxlen - tot else 0)
      in if tot > maxlen then err OPUS_BUFFER_TOO_SMALL
         else ret (tot + pad_amount,
           [(toc AND 0xFC) OR 3,
            word_of_int (int (length lens)) OR (if vbr then 0x80 else 0) OR (if pad_amount \<noteq> 0 then 0x40 else 0)]
           @ (if pad_amount \<noteq> 0 then padding_bytes pad_amount else [])
           @ (if vbr then concat (map encode_size (butlast lens)) else [])))"

text \<open>Copying the frames, one \<^verbatim>\<open>OPUS_MOVE\<close> each, with the assertion about overlapping buffers.\<close>

fun copy_frames :: "bytes \<Rightarrow> nat \<Rightarrow> nat \<Rightarrow> (nat \<times> int) list \<Rightarrow> (bytes \<times> nat) res" where
  "copy_frames mem dst ptr [] = Inr (mem, ptr)"
| "copy_frames mem dst ptr ((off, len) # frames) =
     bindR (assertR (off + nat len \<le> dst \<or> ptr \<le> off)) (\<lambda>_.
     bindR (load mem off (nat len)) (\<lambda>bs.
     bindR (store mem ptr bs) (\<lambda>mem'.
     copy_frames mem' dst (ptr + nat len) frames)))"

text \<open>The header of codes 0 to 2 is written first, also when it is then replaced by one of code 3.\<close>

definition opus_repacketizer_out_range_impl ::
  "OpusRepacketizer \<Rightarrow> int \<Rightarrow> int \<Rightarrow> bytes \<Rightarrow> nat \<Rightarrow> int \<Rightarrow> bool \<Rightarrow> bool \<Rightarrow> ((opus_error + int) \<times> bytes) res" where
  "opus_repacketizer_out_range_impl rp first stop mem dst maxlen self_delimited pad =
     (if first < 0 \<or> first \<ge> stop \<or> stop > rp_nb_frames rp then Inr (Inl OPUS_BAD_ARG, mem)
      else
        let frames = take (nat (stop - first)) (drop (nat first) (rp_frames rp));
            lens = map snd frames;
            sd = (if self_delimited then size_bytes (last lens) else 0);
            short = (stop - first \<le> 2);
            (tot1, h1) = (if short then short_layout (rp_toc rp) lens sd else (sd, []))
        in if short \<and> tot1 > maxlen then Inr (Inl OPUS_BUFFER_TOO_SMALL, mem)
           else bindR (store mem dst h1) (\<lambda>mem1.
           bindR (if stop - first > 2 \<or> (pad \<and> tot1 < maxlen) then code3_layout (rp_toc rp) lens sd pad maxlen
                  else ret (tot1, h1)) (\<lambda>layout.
           case layout of Inl e \<Rightarrow> Inr (Inl e, mem1)
           | Inr (tot, h) \<Rightarrow>
               let hdr = h @ (if self_delimited then encode_size (last lens) else [])
               in bindR (store mem1 dst hdr) (\<lambda>mem2.
                  bindR (copy_frames mem2 dst (dst + length hdr) frames) (\<lambda>(mem3, ptr).
                  bindR (if pad then store mem3 ptr (replicate (dst + nat maxlen - ptr) 0) else Inr mem3) (\<lambda>mem4.
                  Inr (Inr tot, mem4)))))))"

definition opus_repacketizer_out_range ::
  "OpusRepacketizer \<Rightarrow> int \<Rightarrow> int \<Rightarrow> bytes \<Rightarrow> nat \<Rightarrow> int \<Rightarrow> ((opus_error + int) \<times> bytes) res" where
  "opus_repacketizer_out_range rp first stop mem dst maxlen =
     opus_repacketizer_out_range_impl rp first stop mem dst maxlen False False"

definition opus_repacketizer_out ::
  "OpusRepacketizer \<Rightarrow> bytes \<Rightarrow> nat \<Rightarrow> int \<Rightarrow> ((opus_error + int) \<times> bytes) res" where
  "opus_repacketizer_out rp mem dst maxlen =
     opus_repacketizer_out_range_impl rp 0 (rp_nb_frames rp) mem dst maxlen False False"

section \<open>Padding and unpadding in place\<close>

text \<open>A size that is returned is never negative, so it means success.\<close>

definition opus_packet_pad :: "bytes \<Rightarrow> nat \<Rightarrow> int \<Rightarrow> int \<Rightarrow> ((opus_error + unit) \<times> bytes) res" where
  "opus_packet_pad mem off len new_len =
     (if len < 1 then Inr (Inl OPUS_BAD_ARG, mem)
      else if len = new_len then Inr (Inr (), mem)
      else if len > new_len then Inr (Inl OPUS_BAD_ARG, mem)
      else
        let src = off + nat (new_len - len)
        in bindR (load mem off (nat len)) (\<lambda>bs.
           bindR (store mem src bs) (\<lambda>mem1.
           bindR (opus_repacketizer_cat (opus_repacketizer_init rp_fresh) mem1 src len) (\<lambda>(_, rp).
           bindR (opus_repacketizer_out_range_impl rp 0 (rp_nb_frames rp) mem1 off new_len False True) (\<lambda>(r, mem2).
           Inr (case r of Inl e \<Rightarrow> Inl e | Inr n \<Rightarrow> Inr (), mem2))))))"

text \<open>The second \<^verbatim>\<open>celt_assert\<close> covers the case of a negative result too.\<close>

definition opus_packet_unpad :: "bytes \<Rightarrow> nat \<Rightarrow> int \<Rightarrow> ((opus_error + int) \<times> bytes) res" where
  "opus_packet_unpad mem off len =
     (if len < 1 then Inr (Inl OPUS_BAD_ARG, mem)
      else bindR (opus_repacketizer_cat (opus_repacketizer_init rp_fresh) mem off len) (\<lambda>(r, rp).
        case r of Inl e \<Rightarrow> Inr (Inl e, mem)
        | Inr _ \<Rightarrow>
            bindR (opus_repacketizer_out_range_impl rp 0 (rp_nb_frames rp) mem off len False False) (\<lambda>(n, mem1).
            bindR (assertR (case n of Inl _ \<Rightarrow> False | Inr n \<Rightarrow> n > 0 \<and> n \<le> len)) (\<lambda>_.
            Inr (n, mem1)))))"

fun multistream_seek :: "nat \<Rightarrow> bytes \<Rightarrow> nat \<Rightarrow> int \<Rightarrow> (nat \<times> int) eres" where
  "multistream_seek 0 mem off len = ret (off, len)"
| "multistream_seek (Suc s) mem off len =
     (if len \<le> 0 then err OPUS_INVALID_PACKET
      else bindE (opus_packet_parse_impl (drop off mem) len True) (\<lambda>p.
        multistream_seek s mem (off + nat (op_packet_offset p)) (len - op_packet_offset p)))"

definition opus_multistream_packet_pad :: "bytes \<Rightarrow> nat \<Rightarrow> int \<Rightarrow> int \<Rightarrow> nat \<Rightarrow> ((opus_error + unit) \<times> bytes) res" where
  "opus_multistream_packet_pad mem off len new_len nb_streams =
     (if len < 1 then Inr (Inl OPUS_BAD_ARG, mem)
      else if len = new_len then Inr (Inr (), mem)
      else if len > new_len then Inr (Inl OPUS_BAD_ARG, mem)
      else bindR (multistream_seek (nb_streams - 1) mem off len) (\<lambda>r.
        case r of Inl e \<Rightarrow> Inr (Inl e, mem)
        | Inr (off', len') \<Rightarrow> opus_packet_pad mem off' len' (len' + (new_len - len))))"

text \<open>The loop over the streams; \<open>s\<close> counts down, so the last stream, not self-delimited, is \<open>s = 0\<close>.\<close>

fun multistream_unpad :: "nat \<Rightarrow> bytes \<Rightarrow> nat \<Rightarrow> int \<Rightarrow> nat \<Rightarrow> int \<Rightarrow> ((opus_error + int) \<times> bytes) res" where
  "multistream_unpad 0 mem off len dst dst_len = Inr (Inr dst_len, mem)"
| "multistream_unpad (Suc s) mem off len dst dst_len =
     (let self_delimited = (s \<noteq> 0)
      in if len \<le> 0 then Inr (Inl OPUS_INVALID_PACKET, mem)
         else bindR (opus_packet_parse_impl (drop off mem) len self_delimited) (\<lambda>r.
           case r of Inl e \<Rightarrow> Inr (Inl e, mem)
           | Inr p \<Rightarrow>
               bindR (opus_repacketizer_cat_impl (opus_repacketizer_init rp_fresh) mem off (op_packet_offset p) self_delimited)
                 (\<lambda>(r, rp).
                 case r of Inl e \<Rightarrow> Inr (Inl e, mem)
                 | Inr _ \<Rightarrow>
                     bindR (opus_repacketizer_out_range_impl rp 0 (rp_nb_frames rp) mem dst len self_delimited False)
                       (\<lambda>(n, mem1).
                       case n of Inl e \<Rightarrow> Inr (Inl e, mem1)
                       | Inr n \<Rightarrow> multistream_unpad s mem1 (off + nat (op_packet_offset p)) (len - op_packet_offset p)
                                   (dst + nat n) (dst_len + n)))))"

definition opus_multistream_packet_unpad :: "bytes \<Rightarrow> nat \<Rightarrow> int \<Rightarrow> nat \<Rightarrow> ((opus_error + int) \<times> bytes) res" where
  "opus_multistream_packet_unpad mem off len nb_streams =
     (if len < 1 then Inr (Inl OPUS_BAD_ARG, mem) else multistream_unpad nb_streams mem off len off 0)"

section \<open>The layout is what the parser reads\<close>

lemma toc_code:
  "(toc AND 0xFC :: u8) AND 3 = 0" "((toc AND 0xFC :: u8) OR 1) AND 3 = 1"
  "((toc AND 0xFC :: u8) OR 2) AND 3 = 2" "((toc AND 0xFC :: u8) OR 3) AND 3 = 3"
  by (simp_all add: bit_blast_simps)

lemma toc_config:
  assumes "c \<in> {0, 1, 2, 3}"
  shows "opus_packet_get_samples_per_frame ((toc AND 0xFC) OR c) Fs = opus_packet_get_samples_per_frame toc Fs"
proof -
  have "drop_bit 3 ((toc AND 0xFC) OR c) AND 3 = drop_bit 3 toc AND 3" "((toc AND 0xFC) OR c) AND 0x80 = toc AND 0x80"
    "((toc AND 0xFC) OR c) AND 0x60 = toc AND 0x60" "((toc AND 0xFC) OR c) AND 8 = toc AND 8"
    using assms by (auto simp: bit_blast_simps)
  then show ?thesis by (simp only: opus_packet_get_samples_per_frame_def)
qed

lemma samples_per_frame_48k:
  "opus_packet_get_samples_per_frame toc 48000 = 6 * opus_packet_get_samples_per_frame toc 8000"
proof -
  have "drop_bit 3 toc AND 3 \<le> (3 :: u8)" by (rule word_and_le1)
  then have "unat (drop_bit 3 toc AND 3) \<le> 3" by (simp add: word_le_nat_alt)
  then have "unat (drop_bit 3 toc AND 3) \<in> {0, 1, 2, 3}" by auto
  then show ?thesis by (auto simp: opus_packet_get_samples_per_frame_def Let_def)
qed

lemma read_size_encode:
  assumes "0 \<le> s" "s \<le> 1275" "size_bytes s + s \<le> len"
  shows "read_size (encode_size s @ r) len = ret (s, size_bytes s, r, len - size_bytes s)"
proof -
  have n: "int (length (encode_size s)) = size_bytes s" by (simp add: encode_size_length size_bytes_def)
  have "parse_size (encode_size s @ r) len = Inr (size_bytes s, s)"
    using parse_size_encode [of s len r] assms n by simp
  moreover have "drop (nat (size_bytes s)) (encode_size s @ r) = r" using n by (metis append_eq_conv_conj nat_int)
  ultimately show ?thesis using assms by (simp add: read_size_def)
qed

lemma parse_vbr_encode:
  "\<forall>s \<in> set ss. 0 \<le> s \<and> s \<le> 1275 \<Longrightarrow> sum_list (map (\<lambda>s. size_bytes s + s) ss) \<le> len \<Longrightarrow>
   parse_vbr (length ss) (concat (map encode_size ss) @ r) len l =
     ret (ss, r, len - sum_list (map size_bytes ss), l - sum_list (map (\<lambda>s. size_bytes s + s) ss))"
proof (induction ss arbitrary: len l)
  case (Cons s ss)
  have nn: "0 \<le> sum_list (map (\<lambda>s. size_bytes s + s) ss)"
    using Cons.prems(1) by (intro sum_list_nonneg) (auto simp: size_bytes_def)
  then have r: "read_size (encode_size s @ concat (map encode_size ss) @ r) len
      = ret (s, size_bytes s, concat (map encode_size ss) @ r, len - size_bytes s)"
    using Cons.prems by (intro read_size_encode) auto
  have "sum_list (map (\<lambda>s. size_bytes s + s) ss) \<le> len - size_bytes s" using Cons.prems by simp
  then show ?case using Cons.IH [of "len - size_bytes s"] Cons.prems(1) r by (simp add: algebra_simps)
qed simp

text \<open>The padding length bytes: the parser takes the padding off and counts the zeros to come.\<close>

lemma parse_padding_255s:
  "255 * int k < len \<Longrightarrow> v \<noteq> 255 \<Longrightarrow>
   parse_padding (replicate k 255 @ v # r) len pad =
     ret (r, len - 255 * int k - 1 - uint v, pad + 254 * int k + uint v)"
  by (induction k arbitrary: len pad) (auto simp: Let_def algebra_simps)

lemma padding_bytes_facts:
  assumes "0 < p"
  obtains k v where "padding_bytes p = replicate k 255 @ [v]" and "v \<noteq> 255" and "255 * int k + 1 + uint v = p"
proof -
  define k where "k = nat ((p - 1) div 255)"
  define x where "x = (p - 1) mod 255"
  have k: "int k = (p - 1) div 255" using assms by (simp add: k_def)
  have x: "p - 255 * ((p - 1) div 255) - 1 = x" "0 \<le> x" "x < 255"
    unfolding x_def by (simp_all add: minus_mult_div_eq_mod [symmetric])
  have ux: "uint (word_of_int x :: u8) = x" using x by (intro uint_of_int8) auto
  then have "(word_of_int x :: u8) \<noteq> 255" using x(3) by (auto dest: arg_cong [of _ _ uint])
  moreover have "padding_bytes p = replicate k 255 @ [word_of_int x]"
    unfolding padding_bytes_def Let_def k_def x(1) ..
  moreover have "255 * int k + 1 + x = p" using k x(1) by simp
  ultimately show ?thesis using that ux by metis
qed

lemma count_byte:
  assumes "n < 64" and "ch = (word_of_int (int n) :: u8) OR (if vbr then 0x80 else 0) OR (if padded then 0x40 else 0)"
  shows "unat (ch AND 0x3F) = n" "ch AND 0x40 \<noteq> 0 \<longleftrightarrow> padded" "ch AND 0x80 \<noteq> 0 \<longleftrightarrow> vbr"
proof -
  define w where "w = (word_of_int (int n) :: u8)"
  have "unat w = n" using assms(1) unat_of_nat8 [of n] by (simp add: w_def)
  moreover from this have "w < 2 ^ 6" using assms(1) by (simp add: word_less_nat_alt)
  then have "w AND mask 6 = w" by (rule less_mask_eq)
  then have w: "w = w AND 0x3F" by (simp add: mask_eq_exp_minus_1)
  have "((w AND 0x3F) OR (if vbr then 0x80 else 0) OR (if padded then 0x40 else 0)) AND 0x3F = w AND 0x3F"
    by (cases vbr; cases padded) (simp_all add: bit_blast_simps)
  ultimately show "unat (ch AND 0x3F) = n" using w assms(2) unfolding w_def [symmetric] by metis
  have "((w AND 0x3F) OR (if vbr then 0x80 else 0) OR (if padded then 0x40 else 0)) AND 0x40 \<noteq> 0 \<longleftrightarrow> padded"
    "((w AND 0x3F) OR (if vbr then 0x80 else 0) OR (if padded then 0x40 else 0)) AND 0x80 \<noteq> 0 \<longleftrightarrow> vbr"
    by (cases vbr; cases padded; simp add: bit_blast_simps)+
  then show "ch AND 0x40 \<noteq> 0 \<longleftrightarrow> padded" "ch AND 0x80 \<noteq> 0 \<longleftrightarrow> vbr"
    using w assms(2) unfolding w_def [symmetric] by metis+
qed

text \<open>Frames a packet may hold, and the packet the parser sees them in.\<close>

definition lens_ok :: "int list \<Rightarrow> bool" where
  "lens_ok lens \<longleftrightarrow> lens \<noteq> [] \<and> (\<forall>s \<in> set lens. 0 \<le> s \<and> s \<le> 1275)"

definition parsed_as :: "u8 \<Rightarrow> int list \<Rightarrow> nat \<Rightarrow> bytes \<Rightarrow> bool" where
  "parsed_as toc lens off packet \<longleftrightarrow>
     opus_packet_parse packet (int (length packet)) =
       ret \<lparr>op_toc = toc, op_count = length lens, op_sizes = lens, op_payload_offset = off,
            op_packet_offset = int (length packet)\<rparr>"

lemma parsed_as_intro:
  assumes "parse_code toc r (int (length r)) False = ret (length lens, cbr, butlast lens, payload, l, last lens, pad)"
    and "lens_ok lens" and "sum_list lens + pad = int (length payload)" and "length payload \<le> length r"
  shows "parsed_as toc lens (Suc (length r) - length payload) (toc # r)"
proof -
  have l: "last lens \<in> set lens" "butlast lens @ [last lens] = lens" using assms(2) by (simp_all add: lens_ok_def)
  then have "last lens \<le> 1275" "s16 (last lens) = last lens" using assms(2) by (auto simp: lens_ok_def intro: s16_small)
  then show ?thesis
    using assms l by (simp add: parsed_as_def opus_packet_parse_def opus_packet_parse_impl_def parse_last_def of_nat_diff)
qed

lemma sum_lens_nonneg: "lens_ok lens \<Longrightarrow> 0 \<le> sum_list lens"
  by (auto simp: lens_ok_def intro: sum_list_nonneg)

lemma short_layout_parses:
  assumes "short_layout toc lens 0 = (tot, h)" and "lens_ok lens" "length lens \<le> 2"
    and "int (length payload) = sum_list lens"
  shows "parsed_as (hd h) lens (length h) (h @ payload)" "tot = int (length h) + sum_list lens"
proof -
  consider a where "lens = [a]" | a b where "lens = [a, b]"
    using assms(2,3) by (cases lens rule: list.exhaust [case_names Nil Cons]; cases "tl lens") (auto simp: lens_ok_def)
  then have "parsed_as (hd h) lens (length h) (h @ payload) \<and> tot = int (length h) + sum_list lens"
  proof cases
    case (1 a)
    then have h: "h = [toc AND 0xFC]" and t: "tot = a + 1" using assms(1) by (auto simp: short_layout_def)
    have "parsed_as (toc AND 0xFC) lens (Suc (length payload) - length payload) ((toc AND 0xFC) # payload)"
      by (rule parsed_as_intro [where cbr = False and l = "int (length payload)" and pad = 0])
        (use 1 assms in \<open>simp_all add: parse_code_def toc_code\<close>)
    then show ?thesis using 1 by (simp add: h t)
  next
    case (2 a b)
    show ?thesis
    proof (cases "b = a")
      case True
      then have h: "h = [(toc AND 0xFC) OR 1]" and t: "tot = 2 * a + 1" using assms(1) 2 by (auto simp: short_layout_def)
      have "s16 a = a" using assms(2) 2 by (auto simp: lens_ok_def intro: s16_small)
      moreover have "even (2 * a)" "2 * a div 2 = a" by simp_all
      ultimately have "parsed_as ((toc AND 0xFC) OR 1) lens (Suc (length payload) - length payload) (((toc AND 0xFC) OR 1) # payload)"
        by (intro parsed_as_intro [where cbr = True and l = "int (length payload)" and pad = 0])
          (use 2 True assms in \<open>simp_all add: parse_code_def toc_code\<close>)
      then show ?thesis using 2 True by (simp add: h t)
    next
      case False
      then have h: "h = ((toc AND 0xFC) OR 2) # encode_size a" and t: "tot = a + b + 1 + size_bytes a"
        using assms(1) 2 by (auto simp: short_layout_def size_bytes_def)
      have n: "int (length (encode_size a)) = size_bytes a" by (simp add: encode_size_length size_bytes_def)
      have ab: "0 \<le> a" "a \<le> 1275" "0 \<le> b" using assms(2) 2 by (auto simp: lens_ok_def)
      have r: "read_size (encode_size a @ payload) (size_bytes a + int (length payload)) =
          ret (a, size_bytes a, payload, size_bytes a + int (length payload) - size_bytes a)"
        using ab assms(4) 2 by (intro read_size_encode) auto
      have "parsed_as ((toc AND 0xFC) OR 2) lens (Suc (length (encode_size a @ payload)) - length payload)
          (((toc AND 0xFC) OR 2) # encode_size a @ payload)"
        by (rule parsed_as_intro [where cbr = False and l = "int (length payload)" and pad = 0])
          (use 2 assms r n in \<open>simp_all add: parse_code_def toc_code\<close>)
      then show ?thesis using 2 n by (simp add: h t)
    qed
  qed
  then show "parsed_as (hd h) lens (length h) (h @ payload)" "tot = int (length h) + sum_list lens" by auto
qed

lemma code3_sizes_cbr:
  assumes "lens_ok lens" "\<forall>s \<in> set lens. s = lens ! 0" "len = int (length lens) * lens ! 0"
  shows "parse_code3_sizes (length lens) False False l0 (payload, len, pad) =
    ret (length lens, True, butlast lens, payload, len, last lens, pad)"
proof -
  define n where "n = length lens"
  have n: "0 < n" using assms(1) by (simp add: lens_ok_def n_def)
  have l: "lens = replicate n (lens ! 0)" using assms(2) unfolding n_def by (auto intro: replicate_eqI)
  have s: "0 \<le> lens ! 0" "s16 (lens ! 0) = lens ! 0" using assms(1) by (auto simp: lens_ok_def intro: s16_small)
  have "butlast lens = replicate (n - 1) (lens ! 0)" "last lens = lens ! 0"
    by (subst l, simp add: butlast_conv_take take_replicate n_def, subst l, use n in simp)
  moreover have "len div int n = lens ! 0" "0 \<le> len" "lens ! 0 * int n = len"
    using assms(3) n s(1) by (simp_all add: n_def)
  ultimately show ?thesis using s unfolding n_def [symmetric] by (simp add: parse_code3_sizes_def Let_def)
qed

lemma butlast_sum: "lens \<noteq> [] \<Longrightarrow> sum_list (map f lens) = sum_list (map f (butlast lens)) + f (last lens)"
  for f :: "'a \<Rightarrow> int"
  by (induction lens) auto

lemma code3_sizes_vbr:
  assumes "lens_ok lens" "len = sum_list (map size_bytes (butlast lens)) + sum_list lens"
  shows "parse_code3_sizes (length lens) True False l0 (concat (map encode_size (butlast lens)) @ payload, len, pad) =
    ret (length lens, False, butlast lens, payload, sum_list lens, last lens, pad)"
proof -
  have l: "last lens \<in> set lens" "lens \<noteq> []" using assms(1) by (simp_all add: lens_ok_def)
  have b: "\<forall>s \<in> set (butlast lens). 0 \<le> s \<and> s \<le> 1275" using assms(1) by (auto simp: lens_ok_def dest: in_set_butlastD)
  have s: "sum_list lens = sum_list (butlast lens) + last lens" using butlast_sum [OF l(2), of "\<lambda>x. x"] by simp
  have sb: "sum_list (map (\<lambda>s. size_bytes s + s) (butlast lens)) = sum_list (map size_bytes (butlast lens)) + sum_list (butlast lens)"
    by (simp add: sum_list_addf)
  have "0 \<le> last lens" using assms(1) l by (simp add: lens_ok_def)
  moreover have "0 \<le> sum_list (map size_bytes (butlast lens))" by (intro sum_list_nonneg) (auto simp: size_bytes_def)
  moreover have "0 \<le> sum_list (butlast lens)" using b by (intro sum_list_nonneg) auto
  ultimately show ?thesis
    using parse_vbr_encode [OF b, of len payload len] assms(2) s sb by (simp add: parse_code3_sizes_def)
qed

definition code3_body :: "bool \<Rightarrow> int list \<Rightarrow> bytes" where
  "code3_body vbr lens = (if vbr then concat (map encode_size (butlast lens)) else [])"

lemma code3_body_length:
  "int (length (code3_body vbr lens)) = (if vbr then sum_list (map size_bytes (butlast lens)) else 0)"
proof -
  have "int (length (concat (map encode_size ss))) = sum_list (map size_bytes ss)" for ss
    by (induction ss) (auto simp: encode_size_length size_bytes_def)
  then show ?thesis by (simp add: code3_body_def)
qed

lemma code3_total:
  assumes "lens \<noteq> []"
  shows "2 + int (length (code3_body (\<exists>s \<in> set lens. s \<noteq> lens ! 0) lens)) + sum_list lens =
    (if \<exists>s \<in> set lens. s \<noteq> lens ! 0 then 0 + 2 + sum_list (map (\<lambda>s. size_bytes s + s) (butlast lens)) + last lens
     else 0 + int (length lens) * lens ! 0 + 2)"
proof (cases "\<exists>s \<in> set lens. s \<noteq> lens ! 0")
  case True
  then show ?thesis using butlast_sum [OF assms, of "\<lambda>x. x"] by (simp add: code3_body_length sum_list_addf)
next
  case False
  then have "lens = replicate (length lens) (lens ! 0)" by (auto intro: replicate_eqI)
  then have "sum_list lens = int (length lens) * lens ! 0" by (metis sum_list_replicate)
  then show ?thesis using False by (simp add: code3_body_length)
qed

text \<open>The header of code 3 and how its size is made up.\<close>

lemma code3_layout_ret:
  assumes "code3_layout toc lens 0 pad maxlen = ret (tot, h)" and "lens_ok lens"
  obtains vbr amount ch where "vbr \<longleftrightarrow> (\<exists>s \<in> set lens. s \<noteq> lens ! 0)"
    and "ch = word_of_int (int (length lens)) OR (if vbr then 0x80 else 0) OR (if amount \<noteq> 0 then 0x40 else 0)"
    and "h = ((toc AND 0xFC) OR 3) # ch # (if amount \<noteq> 0 then padding_bytes amount else []) @ code3_body vbr lens"
    and "tot = 2 + int (length (code3_body vbr lens)) + sum_list lens + amount" and "0 \<le> amount" and "tot \<le> maxlen"
    and "amount = (if pad then maxlen - (2 + int (length (code3_body vbr lens)) + sum_list lens) else 0)"
proof -
  define vbr where "vbr = (\<exists>s \<in> set lens. s \<noteq> lens ! 0)"
  define t where "t = (if vbr then 0 + 2 + sum_list (map (\<lambda>s. size_bytes s + s) (butlast lens)) + last lens
                 else 0 + int (length lens) * lens ! 0 + 2)"
  define amount where "amount = (if pad then maxlen - t else 0)"
  have ne: "lens \<noteq> []" using assms(2) by (simp add: lens_ok_def)
  have t: "t = 2 + int (length (code3_body vbr lens)) + sum_list lens"
    unfolding t_def vbr_def by (rule code3_total [OF ne, symmetric])
  have r: "\<not> t > maxlen" "tot = t + amount"
    "h = [(toc AND 0xFC) OR 3, word_of_int (int (length lens)) OR (if vbr then 0x80 else 0) OR (if amount \<noteq> 0 then 0x40 else 0)]
       @ (if amount \<noteq> 0 then padding_bytes amount else []) @ code3_body vbr lens"
    using assms(1) unfolding code3_layout_def Let_def vbr_def [symmetric] t_def [symmetric] amount_def [symmetric] code3_body_def
    by (auto split: if_splits)
  show ?thesis
    by (rule that [of vbr _ amount, OF vbr_def refl])
      (use r t amount_def in auto)
qed

lemma code3_layout_parses:
  assumes "code3_layout toc lens 0 pad maxlen = ret (tot, h)" and "lens_ok lens"
    and "opus_packet_get_samples_per_frame toc 48000 * int (length lens) \<le> 5760"
    and "int (length h + length payload) = tot"
  shows "parsed_as (hd h) lens (length h) (h @ payload)"
proof -
  obtain vbr amount ch where v: "vbr \<longleftrightarrow> (\<exists>s \<in> set lens. s \<noteq> lens ! 0)"
    and ch: "ch = word_of_int (int (length lens)) OR (if vbr then 0x80 else 0) OR (if amount \<noteq> 0 then 0x40 else 0)"
    and h: "h = ((toc AND 0xFC) OR 3) # ch # (if amount \<noteq> 0 then padding_bytes amount else []) @ code3_body vbr lens"
    and tot: "tot = 2 + int (length (code3_body vbr lens)) + sum_list lens + amount" and am: "0 \<le> amount"
    by (rule code3_layout_ret [OF assms(1,2)])
  define n where "n = length lens"
  let ?toc = "(toc AND 0xFC) OR 3"
  have spf: "opus_packet_get_samples_per_frame ?toc 48000 * int n \<le> 5760"
    using assms(3) by (simp add: toc_config n_def)
  have "120 * int n \<le> opus_packet_get_samples_per_frame ?toc 48000 * int n"
    using samples_per_frame_min(1) by (intro mult_right_mono) auto
  then have "120 * int n \<le> 5760" using spf by (rule order_trans)
  then have n: "n < 64" "n \<noteq> 0" using assms(2) by (simp_all add: lens_ok_def n_def)
  note cb = count_byte [OF n(1), of ch vbr "amount \<noteq> 0", unfolded n_def, OF ch, folded n_def]
  define len where "len = int (length (code3_body vbr lens)) + sum_list lens"
  define pb where "pb = (if amount \<noteq> 0 then padding_bytes amount else [])"
  obtain pad' where pad: "(if amount \<noteq> 0 then parse_padding (pb @ code3_body vbr lens @ payload) (len + amount) 0
      else ret (pb @ code3_body vbr lens @ payload, len + amount, 0))
      = ret (code3_body vbr lens @ payload, len, pad')" and pad': "int (length pb) + pad' = amount"
  proof (cases "amount = 0")
    case False
    then obtain k w where k: "padding_bytes amount = replicate k 255 @ [w]" "w \<noteq> 255" "255 * int k + 1 + uint w = amount"
      using padding_bytes_facts [of amount] am by (metis order_le_neq_trans)
    have "0 \<le> len" using sum_lens_nonneg [OF assms(2)] by (simp add: len_def)
    moreover have "0 \<le> uint w" by simp
    ultimately have "255 * int k < len + amount" using k(3) by linarith
    from parse_padding_255s [OF this k(2), of "code3_body vbr lens @ payload" 0] False show ?thesis
      using k by (intro that [of "254 * int k + uint w"]) (simp_all add: pb_def algebra_simps)
  qed (simp add: pb_def)
  have sizes: "parse_code3_sizes n vbr False l0 (code3_body vbr lens @ payload, len, pad')
     = ret (n, \<not> vbr, butlast lens, payload, sum_list lens, last lens, pad')" for l0
  proof (cases vbr)
    case True
    then show ?thesis using code3_sizes_vbr [OF assms(2), of len l0 payload pad']
      by (simp add: n_def len_def code3_body_length) (simp add: code3_body_def)
  next
    case False
    then have "\<forall>s \<in> set lens. s = lens ! 0" using v by simp
    moreover from this have "sum_list lens = int (length lens) * lens ! 0"
      by (metis replicate_eqI sum_list_replicate)
    ultimately show ?thesis using code3_sizes_cbr [OF assms(2), of len l0 payload pad'] False
      by (simp add: n_def len_def code3_body_def)
  qed
  have len0: "0 \<le> len" using sum_lens_nonneg [OF assms(2)] by (simp add: len_def)
  define r where "r = ch # pb @ code3_body vbr lens @ payload"
  have lr: "int (length r) = 1 + len + amount"
    using assms(4) by (simp add: r_def h tot len_def pb_def)
  have pl: "sum_list lens + pad' = int (length payload)" using lr pad' by (simp add: r_def len_def)
  have "parse_code3 ?toc r (int (length r)) False = ret (n, \<not> vbr, butlast lens, payload, sum_list lens, last lens, pad')"
    unfolding lr unfolding r_def parse_code3_def Let_def list.case cb
    using spf n pad sizes am len0 by (cases "amount = 0") simp_all
  then have "parse_code ?toc r (int (length r)) False = ret (length lens, \<not> vbr, butlast lens, payload, sum_list lens, last lens, pad')"
    by (simp add: parse_code_def toc_code n_def)
  from parsed_as_intro [OF this assms(2) pl] show ?thesis
    by (simp add: r_def h pb_def)
qed

section \<open>Copying the frames\<close>

definition frame_bytes :: "bytes \<Rightarrow> nat \<times> int \<Rightarrow> bytes" where
  "frame_bytes mem f = take (nat (snd f)) (drop (fst f) mem)"

definition in_memory :: "bytes \<Rightarrow> (nat \<times> int) list \<Rightarrow> bool" where
  "in_memory mem frames \<longleftrightarrow> (\<forall>(off, len) \<in> set frames. 0 \<le> len \<and> off + nat len \<le> length mem)"

text \<open>What the assertion of the copy loop asks of every frame.\<close>

fun sources_ok :: "nat \<Rightarrow> nat \<Rightarrow> (nat \<times> int) list \<Rightarrow> bool" where
  "sources_ok dst ptr [] \<longleftrightarrow> True"
| "sources_ok dst ptr ((off, len) # frames) \<longleftrightarrow>
     (off + nat len \<le> dst \<or> ptr \<le> off) \<and> sources_ok dst (ptr + nat len) frames"

lemma sources_ok_apart:
  "sources_ok dst ptr frames \<Longrightarrow> (off, len) \<in> set frames \<Longrightarrow> off + nat len \<le> dst \<or> ptr \<le> off"
proof (induction frames arbitrary: ptr)
  case (Cons f frames)
  then show ?case by (cases f) fastforce
qed simp

lemma frame_bytes_store:
  assumes "sources_ok dst (p + length bs) frames" "store mem p bs = Inr mem'" "dst \<le> p"
  shows "map (frame_bytes mem') frames = map (frame_bytes mem) frames"
proof (rule map_cong [OF refl])
  fix f
  assume "f \<in> set frames"
  then have "fst f + nat (snd f) \<le> dst \<or> p + length bs \<le> fst f"
    using sources_ok_apart [OF assms(1), of "fst f" "snd f"] by simp
  then show "frame_bytes mem' f = frame_bytes mem f"
    unfolding frame_bytes_def using assms(3) by (intro store_apart [OF assms(2)]) auto
qed

lemma copy_frames_ok:
  assumes "sources_ok dst ptr frames" and "in_memory mem frames" and "dst \<le> ptr"
    and "ptr + length (concat (map (frame_bytes mem) frames)) \<le> length mem"
  shows "copy_frames mem dst ptr frames =
    bindR (store mem ptr (concat (map (frame_bytes mem) frames))) (\<lambda>mem'.
      Inr (mem', ptr + length (concat (map (frame_bytes mem) frames))))"
  using assms
proof (induction frames arbitrary: mem ptr)
  case (Cons f frames)
  obtain off len where f: "f = (off, len)" by (cases f)
  let ?bs = "take (nat len) (drop off mem)"
  have fbf: "frame_bytes mem (off, len) = ?bs" by (simp add: frame_bytes_def)
  have b: "length ?bs = nat len" using Cons.prems(2) by (auto simp: f in_memory_def)
  obtain mem1 where m1: "store mem ptr ?bs = Inr mem1"
    using Cons.prems(4) b by (auto simp: store_def f frame_bytes_def)
  have l1: "length mem1 = length mem" by (rule store_length [OF m1])
  have fb: "map (frame_bytes mem1) frames = map (frame_bytes mem) frames"
    by (rule frame_bytes_store [OF _ m1 Cons.prems(3)]) (use Cons.prems(1) b in \<open>simp add: f\<close>)
  have IH: "copy_frames mem1 dst (ptr + nat len) frames =
      bindR (store mem1 (ptr + nat len) (concat (map (frame_bytes mem) frames))) (\<lambda>mem'.
        Inr (mem', ptr + nat len + length (concat (map (frame_bytes mem) frames))))"
    using Cons.IH [of "ptr + nat len" mem1, unfolded fb] Cons.prems b l1
    by (simp add: f in_memory_def fbf)
  have "load mem off (nat len) = Inr ?bs" using Cons.prems(2) by (simp add: f in_memory_def load_def)
  moreover have "store mem1 (ptr + nat len) cs = store mem ptr (?bs @ cs)" for cs
    using store_store [OF m1, of cs] b by simp
  ultimately show ?case
    using Cons.prems(1,4) m1 IH b by (simp add: f fbf add.assoc)
qed (simp add: store_def)

section \<open>The repacketizer's packets\<close>

text \<open>What both layouts promise.\<close>

definition good_layout :: "u8 \<Rightarrow> int list \<Rightarrow> bool \<Rightarrow> int \<Rightarrow> int \<Rightarrow> bytes \<Rightarrow> bool" where
  "good_layout toc lens pad maxlen tot h \<longleftrightarrow>
     int (length h) + sum_list lens \<le> tot \<and> tot \<le> maxlen
   \<and> tot = (if pad then maxlen else int (length h) + sum_list lens)
   \<and> (\<forall>payload. int (length h + length payload) = tot \<longrightarrow> parsed_as (hd h) lens (length h) (h @ payload))
   \<and> hd h AND 0xFC = toc AND 0xFC"

lemma toc_keeps: "c \<in> {0, 1, 2, 3} \<Longrightarrow> ((toc AND 0xFC) OR c) AND 0xFC = toc AND (0xFC :: u8)"
  by (auto simp: bit_blast_simps)

lemma short_layout_toc: "short_layout toc lens sd = (tot, h) \<Longrightarrow> hd h AND 0xFC = toc AND 0xFC"
  using toc_keeps [of 0 toc] toc_keeps [of 1 toc] toc_keeps [of 2 toc]
  by (auto simp: short_layout_def split: if_splits)

lemma short_good:
  assumes "short_layout toc lens 0 = (tot, h)" "lens_ok lens" "length lens \<le> 2" "tot \<le> maxlen" "pad \<longrightarrow> tot = maxlen"
  shows "good_layout toc lens pad maxlen tot h"
proof -
  obtain payload :: bytes where "int (length payload) = sum_list lens"
    using sum_lens_nonneg [OF assms(2)] by (metis length_replicate nat_0_le)
  note t = short_layout_parses(2) [OF assms(1-3) this]
  moreover have "parsed_as (hd h) lens (length h) (h @ payload)" if "int (length h + length payload) = tot" for payload
    by (rule short_layout_parses(1) [OF assms(1-3)]) (use that t in simp)
  ultimately show ?thesis using assms(4,5) short_layout_toc [OF assms(1)] by (auto simp: good_layout_def)
qed

lemma code3_good:
  assumes "code3_layout toc lens 0 pad maxlen = ret (tot, h)" "lens_ok lens"
    and "opus_packet_get_samples_per_frame toc 48000 * int (length lens) \<le> 5760"
  shows "good_layout toc lens pad maxlen tot h"
proof -
  have p: "parsed_as (hd h) lens (length h) (h @ payload)" if "int (length h + length payload) = tot" for payload
    by (rule code3_layout_parses [OF assms that])
  show ?thesis
  proof (rule code3_layout_ret [OF assms(1,2)])
    fix vbr amount ch
    assume h: "h = ((toc AND 0xFC) OR 3) # ch # (if amount \<noteq> 0 then padding_bytes amount else []) @ code3_body vbr lens"
      and t: "tot = 2 + int (length (code3_body vbr lens)) + sum_list lens + amount" "0 \<le> amount" "tot \<le> maxlen"
        "amount = (if pad then maxlen - (2 + int (length (code3_body vbr lens)) + sum_list lens) else 0)"
    have "int (length (padding_bytes amount)) \<le> amount" if "amount \<noteq> 0"
    proof -
      have "0 < amount" using that t(2) by simp
      then obtain k v where "padding_bytes amount = replicate k 255 @ [v]" "255 * int k + 1 + uint v = amount"
        by (rule padding_bytes_facts)
      moreover have "0 \<le> uint v" by simp
      ultimately show ?thesis by (simp only: length_append length_replicate list.size)
    qed
    then show ?thesis using p h t toc_keeps [of 3 toc] by (auto simp: good_layout_def)
  qed
qed

text \<open>The state between calls: every frame has a legal size and the packet lasts at most 120 ms.\<close>

definition rp_ok :: "OpusRepacketizer \<Rightarrow> bool" where
  "rp_ok rp \<longleftrightarrow> 0 \<le> rp_nb_frames rp \<and> (rp_nb_frames rp \<noteq> 0 \<longrightarrow>
     rp_nb_frames rp = int (length (rp_frames rp))
   \<and> rp_framesize rp = opus_packet_get_samples_per_frame (rp_toc rp) 8000
   \<and> rp_nb_frames rp * rp_framesize rp \<le> 960
   \<and> (\<forall>(off, len) \<in> set (rp_frames rp). 0 \<le> len \<and> len \<le> 1275))"

definition selected :: "OpusRepacketizer \<Rightarrow> int \<Rightarrow> int \<Rightarrow> (nat \<times> int) list" where
  "selected rp first stop = take (nat (stop - first)) (drop (nat first) (rp_frames rp))"

lemma selected_facts:
  assumes "rp_ok rp" "0 \<le> first" "first < stop" "stop \<le> rp_nb_frames rp"
  shows "int (length (selected rp first stop)) = stop - first" "lens_ok (map snd (selected rp first stop))"
    "opus_packet_get_samples_per_frame (rp_toc rp) 48000 * int (length (selected rp first stop)) \<le> 5760"
proof -
  let ?fs = "opus_packet_get_samples_per_frame (rp_toc rp) 8000"
  have nb: "rp_nb_frames rp = int (length (rp_frames rp))" "rp_nb_frames rp * ?fs \<le> 960"
    "\<forall>(off, len) \<in> set (rp_frames rp). 0 \<le> len \<and> len \<le> 1275"
    using assms by (auto simp: rp_ok_def)
  show l: "int (length (selected rp first stop)) = stop - first"
    using assms(2-4) nb(1) by (auto simp: selected_def min_def)
  have "set (selected rp first stop) \<subseteq> set (rp_frames rp)"
    unfolding selected_def by (meson order_trans set_drop_subset set_take_subset)
  then have "\<forall>s \<in> set (map snd (selected rp first stop)). 0 \<le> s \<and> s \<le> 1275" using nb(3) by fastforce
  then show "lens_ok (map snd (selected rp first stop))" using l assms(3) by (auto simp: lens_ok_def)
  have "?fs * (stop - first) \<le> ?fs * rp_nb_frames rp"
    using samples_per_frame_min(2) [of "rp_toc rp"] assms by (intro mult_left_mono) auto
  then show "opus_packet_get_samples_per_frame (rp_toc rp) 48000 * int (length (selected rp first stop)) \<le> 5760"
    using nb(2) unfolding l by (simp add: samples_per_frame_48k mult.commute)
qed

text \<open>The layout the code settles on, and the header bytes it has written by then.\<close>

definition out_layout :: "OpusRepacketizer \<Rightarrow> int list \<Rightarrow> int \<Rightarrow> bool \<Rightarrow> (int \<times> bytes) eres" where
  "out_layout rp lens maxlen pad =
     (let (tot1, h1) = (if length lens \<le> 2 then short_layout (rp_toc rp) lens 0 else (0, []))
      in if 2 < length lens \<or> (pad \<and> tot1 < maxlen) then code3_layout (rp_toc rp) lens 0 pad maxlen
         else ret (tot1, h1))"

lemma out_layout_good:
  assumes "out_layout rp lens maxlen pad = ret (tot, h)" "lens_ok lens"
    and "opus_packet_get_samples_per_frame (rp_toc rp) 48000 * int (length lens) \<le> 5760"
    and "length lens \<le> 2 \<Longrightarrow> fst (short_layout (rp_toc rp) lens 0) \<le> maxlen"
  shows "good_layout (rp_toc rp) lens pad maxlen tot h"
proof (cases "2 < length lens")
  case True
  then show ?thesis using assms(1) by (intro code3_good assms(2,3)) (simp add: out_layout_def)
next
  case False
  obtain tot1 h1 where s: "short_layout (rp_toc rp) lens 0 = (tot1, h1)" by fastforce
  then have t: "tot1 \<le> maxlen" using assms(4) False by simp
  show ?thesis
  proof (cases "pad \<and> tot1 < maxlen")
    case True
    then show ?thesis using assms(1) False s by (intro code3_good assms(2,3)) (simp add: out_layout_def)
  next
    case False
    then have "tot = tot1" "h = h1" using assms(1) \<open>\<not> 2 < length lens\<close> s by (auto simp: out_layout_def)
    then show ?thesis using s t False \<open>\<not> 2 < length lens\<close> by (intro short_good assms(2)) auto
  qed
qed

lemma out_layout_error:
  "out_layout rp lens maxlen pad = Inr (Inl e) \<Longrightarrow> e = OPUS_BUFFER_TOO_SMALL" "out_layout rp lens maxlen pad \<noteq> Inl f"
  by (auto simp: out_layout_def code3_layout_def Let_def split: prod.splits if_splits)

text \<open>The bound the documentation gives for a buffer that is always large enough.\<close>

lemma sum_list_bound: "(\<And>x. x \<in> set xs \<Longrightarrow> f x \<le> b) \<Longrightarrow> sum_list (map f xs) \<le> b * int (length xs)"
  for f :: "'a \<Rightarrow> int"
  by (induction xs) (auto simp: algebra_simps intro: add_mono)

lemma layout_fits:
  assumes "lens_ok lens" "1277 * int (length lens) \<le> maxlen"
  shows "length lens \<le> 2 \<Longrightarrow> fst (short_layout toc lens 0) \<le> maxlen"
    and "\<exists>tot h. code3_layout toc lens 0 pad maxlen = ret (tot, h)"
proof -
  define n where "n = int (length lens)"
  have b: "s \<le> 1275" if "s \<in> set lens" for s using assms(1) that by (simp add: lens_ok_def)
  have n: "1 \<le> n" "lens ! 0 \<le> 1275" using assms(1) b [of "lens ! 0"] by (auto simp: lens_ok_def n_def Suc_le_eq)
  show "fst (short_layout toc lens 0) \<le> maxlen" if "length lens \<le> 2"
  proof (cases "length lens = 1")
    case False
    then have "length lens = 2" using that n(1) by (simp add: n_def)
    then show ?thesis using assms(2) n(2) b [of "lens ! 1"] by (simp add: short_layout_def)
  qed (use assms(2) n(2) in \<open>simp add: short_layout_def\<close>)
  have "sum_list (map (\<lambda>s. size_bytes s + s) (butlast lens)) \<le> 1277 * int (length (butlast lens))"
  proof (rule sum_list_bound)
    fix s assume "s \<in> set (butlast lens)"
    then show "size_bytes s + s \<le> 1277" using b [of s] by (auto simp: size_bytes_def dest: in_set_butlastD)
  qed
  then have vbr: "sum_list (map (\<lambda>s. size_bytes s + s) (butlast lens)) \<le> 1277 * (n - 1)"
    using n(1) by (simp add: n_def)
  have "n * lens ! 0 \<le> n * 1275" using n by (intro mult_left_mono) auto
  then have cbr: "n * lens ! 0 + 2 \<le> maxlen" using assms(2) n(1) unfolding n_def [symmetric] by linarith
  have "last lens \<le> 1275" using b [of "last lens"] assms(1) by (simp add: lens_ok_def)
  then show "\<exists>tot h. code3_layout toc lens 0 pad maxlen = ret (tot, h)"
    using assms(2) vbr cbr unfolding code3_layout_def Let_def n_def [symmetric] by auto
qed

definition too_small :: "OpusRepacketizer \<Rightarrow> int list \<Rightarrow> int \<Rightarrow> bool \<Rightarrow> bool" where
  "too_small rp lens maxlen pad \<longleftrightarrow>
     (length lens \<le> 2 \<and> maxlen < fst (short_layout (rp_toc rp) lens 0)) \<or> (\<exists>e. out_layout rp lens maxlen pad = err e)"

lemma too_small_1277:
  assumes "too_small rp lens maxlen pad" "lens_ok lens"
  shows "maxlen < 1277 * int (length lens)"
proof (rule ccontr)
  assume n: "\<not> ?thesis"
  then obtain tot h where "code3_layout (rp_toc rp) lens 0 pad maxlen = ret (tot, h)"
    using layout_fits(2) [OF assms(2), of maxlen] by (metis not_less)
  then show False using assms(1) layout_fits(1) [OF assms(2), of maxlen "rp_toc rp"] n
    by (auto simp: too_small_def out_layout_def split: prod.splits if_splits)
qed

text \<open>The code in terms of the layout and one store.\<close>

definition out_bytes :: "bytes \<Rightarrow> (nat \<times> int) list \<Rightarrow> bytes \<Rightarrow> int \<Rightarrow> bytes" where
  "out_bytes mem frames h tot =
     (let bs = concat (map (frame_bytes mem) frames) in h @ bs @ replicate (nat tot - length h - length bs) 0)"

lemma frame_bytes_total:
  "in_memory mem frames \<Longrightarrow> int (length (concat (map (frame_bytes mem) frames))) = sum_list (map snd frames)"
  by (induction frames) (auto simp: in_memory_def frame_bytes_def)

lemma out_copy:
  assumes "good_layout toc (map snd frames) pad maxlen tot h"
    and "in_memory mem frames" "sources_ok dst (dst + length h) frames" "dst + nat maxlen \<le> length mem"
  shows "\<exists>mem'. bindR (store mem dst h) (\<lambda>mem2.
        bindR (copy_frames mem2 dst (dst + length h) frames) (\<lambda>(mem3, ptr).
        bindR (if pad then store mem3 ptr (replicate (dst + nat maxlen - ptr) 0) else Inr mem3) (\<lambda>mem4.
        Inr (Inr tot, mem4)))) = Inr (Inr tot, mem') \<and> store mem dst (out_bytes mem frames h tot) = Inr mem'"
proof -
  define bs where "bs = concat (map (frame_bytes mem) frames)"
  have g: "int (length h + length bs) \<le> tot" "tot \<le> maxlen" "pad \<Longrightarrow> tot = maxlen" "\<not> pad \<Longrightarrow> tot = int (length h + length bs)"
    using assms(1) frame_bytes_total [OF assms(2)] by (auto simp: good_layout_def bs_def)
  then have room: "length h + length bs \<le> nat tot" "nat tot \<le> nat maxlen" by linarith+
  obtain m2 where m2: "store mem dst h = Inr m2" using room assms(4) store_Inr_iff [of mem dst h] by auto
  have l2: "length m2 = length mem" by (rule store_length [OF m2])
  have fb: "map (frame_bytes m2) frames = map (frame_bytes mem) frames"
    by (rule frame_bytes_store [OF assms(3) m2 order_refl])
  obtain m3 where m3: "store mem dst (h @ bs) = Inr m3"
    using room assms(4) store_Inr_iff [of mem dst "h @ bs"] by auto
  have "in_memory m2 frames" using assms(2) by (simp add: in_memory_def l2)
  then have c: "copy_frames m2 dst (dst + length h) frames = Inr (m3, dst + length h + length bs)"
    using copy_frames_ok [OF assms(3), of m2] room assms(4) store_store [OF m2, of bs] m3
    unfolding fb bs_def [symmetric] by (simp add: l2)
  define zs where "zs = replicate (nat tot - length h - length bs) (0 :: u8)"
  obtain m4 where m4: "store mem dst (h @ bs @ zs) = Inr m4"
    using room assms(4) store_Inr_iff [of mem dst "h @ bs @ zs"] by (auto simp: zs_def)
  have "dst + nat maxlen - (dst + length h + length bs) = nat tot - length h - length bs" if pad
    using g(3) [OF that] by simp
  moreover have "store m3 (dst + length h + length bs) zs = Inr m4"
    using store_store [OF m3, of zs] m4 by (simp add: add.assoc)
  moreover have "m3 = m4" if "\<not> pad" using m3 m4 g(4) [OF that] by (simp add: zs_def nat_int_add)
  ultimately show ?thesis
    using m2 c m4 unfolding out_bytes_def bs_def [symmetric] Let_def zs_def [symmetric] by (simp add: zs_def)
qed

lemma out_range_impl_eq:
  assumes "rp_ok rp" "0 \<le> first" "first < stop" "stop \<le> rp_nb_frames rp"
    and "frames = selected rp first stop" "lens = map snd frames"
  shows "opus_repacketizer_out_range_impl rp first stop mem dst maxlen False pad =
    (let (tot1, h1) = (if length lens \<le> 2 then short_layout (rp_toc rp) lens 0 else (0, []))
     in if length lens \<le> 2 \<and> tot1 > maxlen then Inr (Inl OPUS_BUFFER_TOO_SMALL, mem)
        else bindR (store mem dst h1) (\<lambda>mem1.
        bindR (out_layout rp lens maxlen pad) (\<lambda>layout.
        case layout of Inl e \<Rightarrow> Inr (Inl e, mem1)
        | Inr (tot, h) \<Rightarrow>
           bindR (store mem1 dst h) (\<lambda>mem2.
           bindR (copy_frames mem2 dst (dst + length h) frames) (\<lambda>(mem3, ptr).
           bindR (if pad then store mem3 ptr (replicate (dst + nat maxlen - ptr) 0) else Inr mem3) (\<lambda>mem4.
           Inr (Inr tot, mem4)))))))"
proof -
  have l: "int (length lens) = stop - first" using selected_facts(1) [OF assms(1-4)] by (simp add: assms(5,6))
  then have "(stop - first \<le> 2) = (length lens \<le> 2)" "(2 < stop - first) = (2 < length lens)" by linarith+
  then show ?thesis
    using assms(2-4)
    unfolding opus_repacketizer_out_range_impl_def out_layout_def selected_def [symmetric] assms(5) [symmetric]
      assms(6) [symmetric] Let_def
    by (auto split: prod.splits)
qed

lemma out_range_spec:
  assumes "rp_ok rp" "0 \<le> first" "first < stop" "stop \<le> rp_nb_frames rp"
    and "frames = selected rp first stop" "in_memory mem frames" "0 \<le> maxlen" "dst + nat maxlen \<le> length mem"
    and src: "\<And>tot h. out_layout rp (map snd frames) maxlen pad = ret (tot, h) \<Longrightarrow>
      good_layout (rp_toc rp) (map snd frames) pad maxlen tot h \<Longrightarrow> sources_ok dst (dst + length h) frames"
    and hdr: "\<And>tot1 h1. length frames \<le> 2 \<Longrightarrow> short_layout (rp_toc rp) (map snd frames) 0 = (tot1, h1) \<Longrightarrow>
      tot1 \<le> maxlen \<Longrightarrow> sources_ok dst (dst + length h1) frames"
  obtains mem' where "opus_repacketizer_out_range_impl rp first stop mem dst maxlen False pad = Inr (Inl OPUS_BUFFER_TOO_SMALL, mem')"
      and "too_small rp (map snd frames) maxlen pad"
    | mem1 mem' tot h h1 where "opus_repacketizer_out_range_impl rp first stop mem dst maxlen False pad = Inr (Inr tot, mem')"
      and "good_layout (rp_toc rp) (map snd frames) pad maxlen tot h"
      and "out_layout rp (map snd frames) maxlen pad = ret (tot, h)"
      and "store mem dst h1 = Inr mem1" and "length h1 \<le> nat maxlen"
      and "store mem1 dst (out_bytes mem frames h tot) = Inr mem'"
proof -
  define lens where "lens = map snd frames"
  note eq = out_range_impl_eq [OF assms(1-5) lens_def, of mem dst maxlen pad]
  note sel = selected_facts(2,3) [OF assms(1-4), folded assms(5)]
  define s where "s = (if length lens \<le> 2 then short_layout (rp_toc rp) lens 0 else (0, []))"
  obtain tot1 h1 where s': "s = (tot1, h1)" by fastforce
  show ?thesis
  proof (cases "length lens \<le> 2 \<and> tot1 > maxlen")
    case True
    then have "short_layout (rp_toc rp) lens 0 = (tot1, h1)" using s' by (simp add: s_def)
    then show ?thesis using that(1) eq True unfolding s_def [symmetric] s' by (simp add: lens_def too_small_def)
  next
    case False
    have h1: "length h1 \<le> nat maxlen \<and> sources_ok dst (dst + length h1) frames \<or> h1 = []"
    proof (cases "length lens \<le> 2")
      case True
      obtain payload :: bytes where pl: "int (length payload) = sum_list lens"
        using sum_lens_nonneg [OF sel(1)] by (metis lens_def length_replicate nat_0_le)
      have sh: "short_layout (rp_toc rp) lens 0 = (tot1, h1)" using s' True by (simp add: s_def)
      have "tot1 = int (length h1) + sum_list lens"
        using short_layout_parses(2) [OF sh _ True pl] sel(1) by (simp add: lens_def)
      then have "length h1 \<le> nat maxlen" using False True sum_lens_nonneg [OF sel(1)] by (simp add: lens_def)
      moreover have "sources_ok dst (dst + length h1) frames" using hdr [of tot1 h1] sh True False by (simp add: lens_def)
      ultimately show ?thesis by blast
    qed (use s' in \<open>simp add: s_def\<close>)
    then have lh1: "length h1 \<le> nat maxlen" by auto
    then obtain mem1 where m1: "store mem dst h1 = Inr mem1" using assms(8) store_Inr_iff [of mem dst h1] by auto
    have len1: "length mem1 = length mem" by (rule store_length [OF m1])
    have fb: "map (frame_bytes mem1) frames = map (frame_bytes mem) frames"
    proof (cases "h1 = []")
      case True
      then show ?thesis using m1 by (auto simp: store_def split: if_splits)
    next
      case ne: False
      show ?thesis by (rule frame_bytes_store [OF _ m1 order_refl]) (use h1 ne in simp)
    qed
    have o: "opus_repacketizer_out_range_impl rp first stop mem dst maxlen False pad =
      bindR (out_layout rp lens maxlen pad) (\<lambda>layout.
        case layout of Inl e \<Rightarrow> Inr (Inl e, mem1)
        | Inr (tot, h) \<Rightarrow>
           bindR (store mem1 dst h) (\<lambda>mem2.
           bindR (copy_frames mem2 dst (dst + length h) frames) (\<lambda>(mem3, ptr).
           bindR (if pad then store mem3 ptr (replicate (dst + nat maxlen - ptr) 0) else Inr mem3) (\<lambda>mem4.
           Inr (Inr tot, mem4)))))"
      using eq False m1 unfolding s_def [symmetric] s' by simp
    consider e where "out_layout rp lens maxlen pad = err e" | tot h where "out_layout rp lens maxlen pad = ret (tot, h)"
      using out_layout_error(2) [of rp lens maxlen pad] by (cases "out_layout rp lens maxlen pad" rule: eres_cases) auto
    then show ?thesis
    proof cases
      case 1
      then show ?thesis using that(1) o out_layout_error(1) [OF 1] by (simp add: lens_def too_small_def)
    next
      case (2 tot h)
      have g: "good_layout (rp_toc rp) lens pad maxlen tot h"
        by (rule out_layout_good [OF 2]) (use sel False s' in \<open>auto simp: lens_def s_def\<close>)
      have "\<exists>mem'. bindR (store mem1 dst h) (\<lambda>mem2.
        bindR (copy_frames mem2 dst (dst + length h) frames) (\<lambda>(mem3, ptr).
        bindR (if pad then store mem3 ptr (replicate (dst + nat maxlen - ptr) 0) else Inr mem3) (\<lambda>mem4.
        Inr (Inr tot, mem4)))) = (Inr (Inr tot, mem') :: ((opus_error + int) \<times> bytes) res)
        \<and> store mem1 dst (out_bytes mem1 frames h tot) = Inr mem'"
        by (rule out_copy [OF g [unfolded lens_def]])
          (use assms(6,8) src [of tot h] 2 g in \<open>simp_all add: in_memory_def len1 lens_def\<close>)
      then obtain mem' where r: "opus_repacketizer_out_range_impl rp first stop mem dst maxlen False pad = Inr (Inr tot, mem')"
        and "store mem1 dst (out_bytes mem1 frames h tot) = Inr mem'"
        unfolding o 2 by auto
      then show ?thesis using that(2) [OF r g [unfolded lens_def] 2 [unfolded lens_def] m1 lh1] by (simp add: out_bytes_def fb)
    qed
  qed
qed

definition apart :: "nat \<Rightarrow> nat \<Rightarrow> (nat \<times> int) list \<Rightarrow> bool" where
  "apart dst n frames \<longleftrightarrow> (\<forall>(off, len) \<in> set frames. off + nat len \<le> dst \<or> dst + n \<le> off)"

lemma apart_sources:
  "apart dst n frames \<Longrightarrow> \<forall>f \<in> set frames. 0 \<le> snd f \<Longrightarrow> int ptr + sum_list (map snd frames) \<le> int (dst + n) \<Longrightarrow>
   sources_ok dst ptr frames"
proof (induction frames arbitrary: ptr)
  case (Cons f frames)
  obtain off len where f: "f = (off, len)" by (cases f)
  have nn: "0 \<le> sum_list (map snd frames)" using Cons.prems(2) by (intro sum_list_nonneg) auto
  then show ?case using Cons by (fastforce simp: f apart_def)
qed simp

lemma frame_bytes_at:
  "list_all2 (\<lambda>s bs. s = int (length bs)) sizes bss \<Longrightarrow>
   map (frame_bytes (h @ concat bss @ r)) (zip (frame_offsets (length h) sizes) sizes) = bss"
proof (induction bss arbitrary: sizes h)
  case (Cons bs bss)
  then obtain s ss where s: "sizes = s # ss" "s = int (length bs)" "list_all2 (\<lambda>s bs. s = int (length bs)) ss bss"
    by (auto simp: list_all2_Cons2)
  from Cons.IH [OF s(3), of "h @ bs"] show ?case by (simp add: s(1,2) frame_bytes_def)
qed simp

text \<open>A packet holds the frames: it parses, and the frames are where the parser says.\<close>

definition holds_frames :: "bytes \<Rightarrow> u8 \<Rightarrow> bytes list \<Rightarrow> bool" where
  "holds_frames packet toc bss \<longleftrightarrow>
     (case opus_packet_parse packet (int (length packet)) of
        Inr (Inr p) \<Rightarrow> op_toc p AND 0xFC = toc AND 0xFC \<and> op_count p = length bss
          \<and> map (frame_bytes packet) (zip (frame_offsets (op_payload_offset p) (op_sizes p)) (op_sizes p)) = bss
      | _ \<Rightarrow> False)"

lemma out_bytes_holds:
  assumes "good_layout toc (map snd frames) pad maxlen tot h" "in_memory mem frames"
  shows "holds_frames (out_bytes mem frames h tot) toc (map (frame_bytes mem) frames)"
    "int (length (out_bytes mem frames h tot)) = tot"
proof -
  define bss where "bss = map (frame_bytes mem) frames"
  have l: "int (length (concat bss)) = sum_list (map snd frames)" unfolding bss_def by (rule frame_bytes_total [OF assms(2)])
  have "int (length h) + int (length (concat bss)) \<le> tot" using assms(1) l by (simp add: good_layout_def)
  then show tot: "int (length (out_bytes mem frames h tot)) = tot" by (simp add: out_bytes_def Let_def bss_def [symmetric])
  define payload where "payload = concat bss @ replicate (nat tot - length h - length (concat bss)) 0"
  have b: "out_bytes mem frames h tot = h @ payload" by (simp add: out_bytes_def Let_def payload_def bss_def)
  have "parsed_as (hd h) (map snd frames) (length h) (h @ payload)" "hd h AND 0xFC = toc AND 0xFC"
    using assms(1) tot unfolding b by (simp_all add: good_layout_def)
  moreover have "list_all2 (\<lambda>s bs. s = int (length bs)) (map snd frames) bss"
    using assms(2) by (auto simp: bss_def list_all2_map1 list_all2_map2 in_memory_def frame_bytes_def intro!: list.rel_refl_strong)
  ultimately show "holds_frames (out_bytes mem frames h tot) toc (map (frame_bytes mem) frames)"
    unfolding b holds_frames_def parsed_as_def bss_def [symmetric]
    by (simp add: payload_def frame_bytes_at) (simp add: bss_def)
qed

section \<open>Adding packets keeps the invariant\<close>

definition rp_inv :: "bytes \<Rightarrow> OpusRepacketizer \<Rightarrow> bool" where
  "rp_inv mem rp \<longleftrightarrow> rp_ok rp \<and> (rp_nb_frames rp \<noteq> 0 \<longrightarrow> in_memory mem (rp_frames rp))"

lemma frame_offsets_length [simp]: "length (frame_offsets pos sizes) = length sizes"
  by (induction sizes arbitrary: pos) simp_all

lemma frame_offsets_range:
  "\<forall>s \<in> set sizes. 0 \<le> s \<Longrightarrow> (q, s) \<in> set (zip (frame_offsets pos sizes) sizes) \<Longrightarrow>
   0 \<le> s \<and> pos \<le> q \<and> int q + s \<le> int pos + sum_list sizes"
proof (induction sizes arbitrary: pos)
  case (Cons a sizes)
  have "0 \<le> sum_list sizes" using Cons.prems(1) by (intro sum_list_nonneg) auto
  then show ?case using Cons.prems Cons.IH [of "pos + nat a"] by fastforce
qed simp

definition parsed_frames :: "nat \<Rightarrow> opus_parsed \<Rightarrow> (nat \<times> int) list" where
  "parsed_frames off p = zip (map ((+) off) (frame_offsets (op_payload_offset p) (op_sizes p))) (op_sizes p)"

lemma parsed_frames_facts:
  assumes "opus_packet_parse_impl (drop off mem) len self_delimited = ret p" "1 \<le> len" "off + nat len \<le> length mem"
  shows "length (parsed_frames off p) = op_count p" "in_memory mem (parsed_frames off p)"
    "\<forall>(q, s) \<in> set (parsed_frames off p). 0 \<le> s \<and> s \<le> 1275" "map snd (parsed_frames off p) = op_sizes p"
proof -
  have "len \<le> int (length (drop off mem))" using assms(2,3) by simp
  note r = parse_impl_ret [OF assms(1,2) this]
  show "length (parsed_frames off p) = op_count p" "map snd (parsed_frames off p) = op_sizes p"
    using r by (simp_all add: parsed_frames_def)
  have z: "\<exists>q'. q = off + q' \<and> (q', s) \<in> set (zip (frame_offsets (op_payload_offset p) (op_sizes p)) (op_sizes p))"
    if "(q, s) \<in> set (parsed_frames off p)" for q s
    using that by (auto simp: parsed_frames_def zip_map1)
  have "0 \<le> s \<and> s \<le> 1275 \<and> q + nat s \<le> length mem" if qs: "(q, s) \<in> set (parsed_frames off p)" for q s
  proof -
    obtain q' where q': "q = off + q'" "(q', s) \<in> set (zip (frame_offsets (op_payload_offset p) (op_sizes p)) (op_sizes p))"
      using z [OF qs] by blast
    then have "s \<in> set (op_sizes p)" by (auto dest: set_zip_rightD)
    then show ?thesis using r frame_offsets_range [OF _ q'(2)] q'(1) assms(2,3) by auto
  qed
  then show "in_memory mem (parsed_frames off p)" "\<forall>(q, s) \<in> set (parsed_frames off p). 0 \<le> s \<and> s \<le> 1275"
    by (auto simp: in_memory_def)
qed

text \<open>The outcomes of adding a packet.\<close>

lemma cat_impl_cases:
  assumes "rp_inv mem rp" "off + nat len \<le> length mem"
  obtains e rp' where "opus_repacketizer_cat_impl rp mem off len self_delimited = Inr (Inl e, rp')"
      "rp_inv mem rp'" "rp_nb_frames rp' = rp_nb_frames rp"
    | p toc where "opus_packet_parse_impl (drop off mem) len self_delimited = ret p" "1 \<le> len"
      "opus_repacketizer_cat_impl rp mem off len self_delimited = Inr (Inr (),
         \<lparr>rp_toc = toc, rp_nb_frames = rp_nb_frames rp + int (op_count p),
          rp_frames = take (nat (rp_nb_frames rp)) (rp_frames rp) @ parsed_frames off p,
          rp_framesize = opus_packet_get_samples_per_frame toc 8000\<rparr>)"
      "(rp_nb_frames rp + int (op_count p)) * opus_packet_get_samples_per_frame toc 8000 \<le> 960"
      "toc AND 0xFC = op_toc p AND 0xFC" "toc = (if rp_nb_frames rp = 0 then op_toc p else rp_toc rp)"
proof -
  define rp1 where "rp1 = (if rp_nb_frames rp = 0
     then rp\<lparr>rp_toc := hd (drop off mem), rp_framesize := opus_packet_get_samples_per_frame (hd (drop off mem)) 8000\<rparr> else rp)"
  have nb1: "rp_nb_frames rp1 = rp_nb_frames rp" "rp_frames rp1 = rp_frames rp" "rp_inv mem rp1"
    using assms(1) by (auto simp: rp1_def rp_inv_def rp_ok_def)
  have fs1: "rp_framesize rp1 = opus_packet_get_samples_per_frame (rp_toc rp1) 8000"
    using assms(1) by (auto simp: rp1_def rp_inv_def rp_ok_def)
  show ?thesis
  proof (cases "len < 1")
    case True
    then show ?thesis using that(1) assms(1) by (simp add: opus_repacketizer_cat_impl_def)
  next
    case False
    obtain toc r where d: "drop off mem = toc # r" using False assms(2) by (cases "drop off mem") auto
    let ?nb = "opus_packet_get_nb_frames (toc # r) len" and ?parse = "opus_packet_parse_impl (toc # r) len self_delimited"
    have len: "1 \<le> len" "len \<le> int (length (toc # r))" using False assms(2) d [symmetric] by simp_all
    have "?nb \<noteq> Inl f" "?parse \<noteq> Inl f" for f
      using parse_impl_safe [OF len] len by (auto simp: opus_packet_get_nb_frames_def Let_def split: list.splits)
    then obtain n pr where n: "?nb = Inr n" "?parse = Inr pr" by (metis sum.exhaust)
    define mismatch where "mismatch \<longleftrightarrow> rp_nb_frames rp \<noteq> 0 \<and> rp_toc rp AND 0xFC \<noteq> toc AND 0xFC"
    have c: "opus_repacketizer_cat_impl rp mem off len self_delimited =
      (if mismatch then Inr (Inl OPUS_INVALID_PACKET, rp1)
       else case n of Inl _ \<Rightarrow> Inr (Inl OPUS_INVALID_PACKET, rp1)
       | Inr m \<Rightarrow>
         if m < 1 \<or> (m + rp_nb_frames rp) * rp_framesize rp1 > 960 then Inr (Inl OPUS_INVALID_PACKET, rp1)
         else (case pr of Inl e \<Rightarrow> Inr (Inl e, rp1)
           | Inr p \<Rightarrow> Inr (Inr (), rp1\<lparr>rp_frames := take (nat (rp_nb_frames rp)) (rp_frames rp) @ parsed_frames off p,
               rp_nb_frames := rp_nb_frames rp + m\<rparr>)))"
      using False n unfolding opus_repacketizer_cat_impl_def d list.case Let_def mismatch_def parsed_frames_def
      by (auto simp: rp1_def d split: sum.splits)
    consider "mismatch \<or> (\<exists>e. n = Inl e) \<or> (\<exists>m. n = Inr m \<and> (m < 1 \<or> (m + rp_nb_frames rp) * rp_framesize rp1 > 960)) \<or> (\<exists>e. pr = Inl e)"
      | m p where "\<not> mismatch" "n = Inr m" "\<not> (m < 1 \<or> (m + rp_nb_frames rp) * rp_framesize rp1 > 960)" "pr = Inr p"
      by (metis sum.exhaust)
    then show ?thesis
    proof cases
      case 1
      then have "\<exists>e. opus_repacketizer_cat_impl rp mem off len self_delimited = Inr (Inl e, rp1)"
        unfolding c by (auto split: sum.splits)
      then show ?thesis using that(1) nb1 by blast
    next
      case (2 m p)
      have p: "op_toc p = toc" using n(2) 2(4) by (auto simp: opus_packet_parse_impl_def bindE_ret_iff Let_def)
      have m: "m = int (op_count p)" using parse_impl_count [of "toc # r" len self_delimited p] n 2 len by simp
      have t: "rp_toc rp1 = (if rp_nb_frames rp = 0 then op_toc p else rp_toc rp)" by (simp add: rp1_def d p)
      have upd: "rp1\<lparr>rp_frames := fs, rp_nb_frames := k\<rparr> = \<lparr>rp_toc = rp_toc rp1, rp_nb_frames = k, rp_frames = fs,
        rp_framesize = opus_packet_get_samples_per_frame (rp_toc rp1) 8000\<rparr>" for fs k
        using fs1 by (cases rp1) simp
      show ?thesis
      proof (rule that(2) [of p "rp_toc rp1"])
        show "opus_repacketizer_cat_impl rp mem off len self_delimited = Inr (Inr (),
         \<lparr>rp_toc = rp_toc rp1, rp_nb_frames = rp_nb_frames rp + int (op_count p),
          rp_frames = take (nat (rp_nb_frames rp)) (rp_frames rp) @ parsed_frames off p,
          rp_framesize = opus_packet_get_samples_per_frame (rp_toc rp1) 8000\<rparr>)"
          unfolding c using 2 m by (simp add: upd)
        show "(rp_nb_frames rp + int (op_count p)) * opus_packet_get_samples_per_frame (rp_toc rp1) 8000 \<le> 960"
          using 2(3) fs1 m by (simp add: add.commute)
        show "rp_toc rp1 AND 0xFC = op_toc p AND 0xFC" using 2(1) by (auto simp: mismatch_def t p)
      qed (use n 2 d len t in simp_all)
    qed
  qed
qed

lemma cat_impl_inv:
  assumes "rp_inv mem rp" "off + nat len \<le> length mem"
    and "opus_repacketizer_cat_impl rp mem off len self_delimited = Inr (r, rp')"
  shows "rp_inv mem rp'"
proof (rule cat_impl_cases [OF assms(1,2), of self_delimited])
  fix p toc
  assume p: "opus_packet_parse_impl (drop off mem) len self_delimited = ret p" "1 \<le> len"
    and c: "opus_repacketizer_cat_impl rp mem off len self_delimited = Inr (Inr (),
         \<lparr>rp_toc = toc, rp_nb_frames = rp_nb_frames rp + int (op_count p),
          rp_frames = take (nat (rp_nb_frames rp)) (rp_frames rp) @ parsed_frames off p,
          rp_framesize = opus_packet_get_samples_per_frame toc 8000\<rparr>)"
    and b: "(rp_nb_frames rp + int (op_count p)) * opus_packet_get_samples_per_frame toc 8000 \<le> 960"
  have inv: "0 \<le> rp_nb_frames rp" "nat (rp_nb_frames rp) \<le> length (rp_frames rp)"
    "\<forall>(off, len) \<in> set (take (nat (rp_nb_frames rp)) (rp_frames rp)). 0 \<le> len \<and> len \<le> 1275"
    "in_memory mem (take (nat (rp_nb_frames rp)) (rp_frames rp))"
    using assms(1) by (cases "rp_nb_frames rp = 0"; auto simp: rp_inv_def rp_ok_def in_memory_def)+
  note f = parsed_frames_facts [OF p assms(2)]
  show ?thesis
    using c assms(3) inv f(1,2,3) b by (auto simp: rp_inv_def rp_ok_def in_memory_def)
qed (use assms(3) in auto)

lemma rp_inv_init: "rp_inv mem (opus_repacketizer_init rp)"
  by (simp add: rp_inv_def rp_ok_def opus_repacketizer_init_def)

lemma rp_inv_count:
  assumes "rp_inv mem rp"
  shows "opus_repacketizer_get_nb_frames rp \<le> 48"
proof (cases "rp_nb_frames rp = 0")
  case False
  then have r: "0 \<le> rp_nb_frames rp" "rp_framesize rp = opus_packet_get_samples_per_frame (rp_toc rp) 8000"
    "rp_nb_frames rp * rp_framesize rp \<le> 960"
    using assms unfolding rp_inv_def rp_ok_def by blast+
  have "rp_nb_frames rp * 20 \<le> rp_nb_frames rp * rp_framesize rp"
    unfolding r(2) using r(1) samples_per_frame_min(2) by (intro mult_left_mono) auto
  then show ?thesis using r(3) by (simp add: opus_repacketizer_get_nb_frames_def)
qed (simp add: opus_repacketizer_get_nb_frames_def)

text \<open>The calls a client makes while the packets it has added stay in memory.\<close>

inductive rp_step :: "bytes \<Rightarrow> OpusRepacketizer \<Rightarrow> OpusRepacketizer \<Rightarrow> bool" for mem where
  step_init: "rp_step mem rp (opus_repacketizer_init rp)"
| step_cat: "off + nat len \<le> length mem \<Longrightarrow> opus_repacketizer_cat rp mem off len = Inr (r, rp') \<Longrightarrow> rp_step mem rp rp'"

interpretation repack: step_invariant "\<lambda>rp. \<exists>rp0. rp = opus_repacketizer_init rp0" "rp_step mem" "rp_inv mem" for mem
proof unfold_locales
  fix s s'
  assume "rp_inv mem s" "rp_step mem s s'"
  from this(2,1) show "rp_inv mem s'"
    by (cases rule: rp_step.cases) (auto simp: rp_inv_init opus_repacketizer_cat_def intro: cat_impl_inv)
qed (auto simp: rp_inv_init)

section \<open>Unpadding in place\<close>

lemma read_size_canonical:
  assumes "read_size data len = ret (s, n, data', len')"
  shows "n = size_bytes s"
proof -
  have "\<not> 252 \<le> uint b0" if "b0 < 252" for b0 :: u8 using that by (simp add: word_less_def)
  moreover have "252 \<le> 4 * uint b1 + uint b0" if "\<not> b0 < 252" for b0 b1 :: u8
  proof -
    have "252 \<le> uint b0" using that by (simp add: word_less_def)
    then show ?thesis using uint_u8(1) [of b1] by linarith
  qed
  ultimately show ?thesis
    using assms by (auto simp: read_size_def parse_size_def size_bytes_def Let_def bindR_Inr_iff
        split: if_splits list.splits)
qed

lemma parse_vbr_consumed:
  "parse_vbr k data len l = ret (sizes, data', len', l') \<Longrightarrow>
   int (length data) - int (length data') = sum_list (map size_bytes sizes)"
proof (induction k arbitrary: data len l sizes)
  case (Suc k)
  then obtain s n data1 len1 sizes1 where r: "read_size data len = ret (s, n, data1, len1)"
    and rest: "parse_vbr k data1 len1 (l - (n + s)) = ret (sizes1, data', len', l')" and s: "sizes = s # sizes1"
    by (auto simp: bindE_ret_iff)
  show ?case using Suc.IH [OF rest] read_size_ret [OF r] read_size_canonical [OF r] by (simp add: s)
qed simp

text \<open>The bytes a header needs at least for frames of the given sizes.\<close>

definition hdr_bytes :: "int list \<Rightarrow> int" where
  "hdr_bytes lens =
     (if length lens = 1 then 1
      else if length lens = 2 then (if lens ! 1 = lens ! 0 then 1 else 1 + size_bytes (lens ! 0))
      else if \<exists>s \<in> set lens. s \<noteq> lens ! 0 then 2 + sum_list (map size_bytes (butlast lens)) else 2)"

lemma hdr_bytes_pos: "1 \<le> hdr_bytes lens"
proof -
  have "0 \<le> sum_list (map size_bytes (butlast lens))" by (intro sum_list_nonneg) (auto simp: size_bytes_def)
  then show ?thesis by (auto simp: hdr_bytes_def size_bytes_def)
qed

lemma hdr_bytes_cbr: "hdr_bytes (replicate n s) \<le> (if n \<le> 2 then 1 else 2)" if "0 < n"
proof -
  have "n = 1 \<or> n = 2 \<or> 2 < n" using that by auto
  then show ?thesis by (auto simp: hdr_bytes_def numeral_2_eq_2)
qed

lemma hdr_bytes_vbr: "lens \<noteq> [] \<Longrightarrow> hdr_bytes lens \<le> 2 + sum_list (map size_bytes (butlast lens))"
proof -
  assume "lens \<noteq> []"
  have nn: "0 \<le> sum_list (map size_bytes (butlast lens))" by (intro sum_list_nonneg) (auto simp: size_bytes_def)
  have "sum_list (map size_bytes (butlast lens)) = size_bytes (lens ! 0)" if "length lens = 2"
    using that by (cases lens; cases "tl lens") auto
  then show ?thesis using nn by (auto simp: hdr_bytes_def)
qed

lemma parse_code3_consumed:
  assumes "parse_code3 toc data len False = ret (count, cbr, sizes, data1, len1, last_size, pad)"
  shows "1 \<le> count \<and> 1 + (if cbr then 0 else sum_list (map size_bytes sizes)) \<le> int (length data) - int (length data1)
    \<and> (cbr \<longrightarrow> sizes = replicate (count - 1) (s16 last_size))"
proof -
  obtain ch r where d: "data = ch # r" using assms by (auto simp: parse_code3_def split: if_splits list.splits)
  obtain data2 len2 pad2 l0 vbr where p: "length data2 \<le> length r" and cnt: "1 \<le> unat (ch AND 0x3F)"
    and fin: "parse_code3_sizes (unat (ch AND 0x3F)) vbr False l0 (data2, len2, pad2) = ret (count, cbr, sizes, data1, len1, last_size, pad)"
  proof (cases "ch AND 0x40 = 0")
    case True
    then show ?thesis
      using assms that [of r] unfolding d parse_code3_def Let_def list.case
      by (auto simp: bindE_ret_iff Suc_le_eq split: if_splits)
  next
    case False
    then show ?thesis
      using assms that unfolding d parse_code3_def Let_def list.case
      by (auto simp: bindE_ret_iff Suc_le_eq split: if_splits dest!: parse_padding_suffix)
  qed
  then show ?thesis
    unfolding d parse_code3_sizes_def
    by (auto simp: bindE_ret_iff Let_def split: if_splits dest!: parse_vbr_consumed)
qed

lemma parse_impl_header:
  assumes "opus_packet_parse_impl data0 len False = ret p"
  shows "hdr_bytes (op_sizes p) \<le> int (op_payload_offset p)"
proof -
  obtain toc data where d: "data0 = toc # data"
    using assms by (cases data0) (simp_all add: opus_packet_parse_impl_def)
  obtain count cbr sizes0 data1 len1 last_size pad where
    c: "parse_code toc data (len - 1) False = ret (count, cbr, sizes0, data1, len1, last_size, pad)"
    and p: "op_sizes p = sizes0 @ [s16 last_size]" "op_payload_offset p = length data0 - length data1"
    using assms unfolding d opus_packet_parse_impl_def parse_last_def
    by (auto simp: bindE_ret_iff Let_def split: if_splits prod.splits)
  have suf: "length data1 \<le> length data" using parse_code_suffix [OF c] by simp
  then have po: "int (op_payload_offset p) = 1 + int (length data) - int (length data1)" using p(2) d by simp
  consider "toc AND 3 = 0" | "toc AND 3 = 1" | "toc AND 3 = 2" | "toc AND 3 = 3" using toc_code_cases [of toc] by blast
  then show ?thesis
  proof cases
    case 4
    have c3: "parse_code3 toc data (len - 1) False = ret (count, cbr, sizes0, data1, len1, last_size, pad)"
      using c 4 by (simp add: parse_code_def)
    note k = parse_code3_consumed [OF this]
    show ?thesis
    proof (cases cbr)
      case True
      then have "op_sizes p = replicate count (s16 last_size)"
        using k p(1) by (cases count) (simp_all add: replicate_append_same)
      then show ?thesis using hdr_bytes_cbr [of count "s16 last_size"] k True p(2) d by (auto split: if_splits)
    next
      case False
      then show ?thesis using hdr_bytes_vbr [of "op_sizes p"] k p(1) po by auto
    qed
  next
    case 3
    then obtain sz n where r: "read_size data (len - 1) = ret (sz, n, data1, len1)" and s: "sizes0 = [sz]"
      using c by (auto simp: parse_code_def bindE_ret_iff)
    then show ?thesis using read_size_ret [OF r] read_size_canonical [OF r] po p(1) by (auto simp: hdr_bytes_def)
  next
    case 1
    then have "sizes0 = []" using c by (simp add: parse_code_def)
    then show ?thesis using po suf p(1) by (simp add: hdr_bytes_def)
  next
    case 2
    then have "sizes0 = [s16 last_size]" using c by (auto simp: parse_code_def split: if_splits)
    then show ?thesis using po suf p(1) by (simp add: hdr_bytes_def)
  qed
qed

lemma layout_header:
  assumes "out_layout rp lens maxlen False = ret (tot, h)" "lens \<noteq> []"
  shows "int (length h) = hdr_bytes lens"
proof -
  consider "length lens = 1" | "length lens = 2" | "2 < length lens" using assms(2) by (cases lens; cases "tl lens") auto
  then show ?thesis
  proof cases
    case 3
    then have c: "code3_layout (rp_toc rp) lens 0 False maxlen = ret (tot, h)" using assms(1) by (simp add: out_layout_def)
    then show ?thesis
      using code3_body_length [of "\<exists>s \<in> set lens. s \<noteq> lens ! 0" lens] 3
      unfolding code3_layout_def Let_def code3_body_def by (auto simp: hdr_bytes_def split: if_splits)
  qed (use assms in \<open>auto simp: out_layout_def short_layout_def hdr_bytes_def encode_size_length size_bytes_def split: if_splits\<close>)
qed

lemma too_small_exact:
  assumes "too_small rp lens maxlen False" "lens_ok lens"
  shows "maxlen < hdr_bytes lens + sum_list lens"
proof (cases "2 < length lens")
  case True
  then have ne: "lens \<noteq> []" by auto
  from True obtain e where "code3_layout (rp_toc rp) lens 0 False maxlen = err e"
    using assms(1) by (auto simp: too_small_def out_layout_def)
  then have "maxlen < 2 + int (length (code3_body (\<exists>s \<in> set lens. s \<noteq> lens ! 0) lens)) + sum_list lens"
    using code3_total [OF ne] unfolding code3_layout_def Let_def by (auto split: if_splits)
  then show ?thesis using True by (auto simp: hdr_bytes_def code3_body_length split: if_splits)
next
  case False
  then have m: "maxlen < fst (short_layout (rp_toc rp) lens 0)"
    using assms(1) by (auto simp: too_small_def out_layout_def split: prod.splits)
  consider a where "lens = [a]" | a b where "lens = [a, b]"
    using False assms(2) by (cases lens; cases "tl lens") (auto simp: lens_ok_def)
  then show ?thesis using m by cases (auto simp: short_layout_def hdr_bytes_def size_bytes_def split: if_splits)
qed

text \<open>Frames that lie one behind the other, behind the place they are moved to.\<close>

lemma contiguous_sources:
  "ptr \<le> off + pos \<Longrightarrow> sources_ok dst ptr (zip (map ((+) off) (frame_offsets pos sizes)) sizes)"
proof (induction sizes arbitrary: ptr pos)
  case (Cons s sizes)
  then show ?case using Cons.IH [of "ptr + nat s" "pos + nat s"] by simp
qed simp

text \<open>A packet in memory, as the parser sees it, and its frames.\<close>

lemma parse_prefix:
  assumes "opus_packet_parse_impl (drop off mem) len False = ret p" "1 \<le> len" "off + nat len \<le> length mem"
  shows "int (op_payload_offset p) + sum_list (op_sizes p) \<le> len"
proof -
  have "len \<le> int (length (drop off mem))" using assms(2,3) by simp
  from parse_impl_ret [OF assms(1,2) this] show ?thesis by simp
qed

lemma parse_duration:
  assumes "opus_packet_parse_impl data0 len False = ret p"
  shows "int (op_count p) * opus_packet_get_samples_per_frame (op_toc p) 8000 \<le> 960"
proof -
  obtain toc data where d: "data0 = toc # data"
    using assms by (cases data0) (simp_all add: opus_packet_parse_impl_def)
  obtain st where c: "parse_code toc data (len - 1) False = ret st" and p: "op_toc p = toc" "op_count p = fst st"
    using assms unfolding d opus_packet_parse_impl_def by (auto simp: bindE_ret_iff Let_def)
  let ?fs = "opus_packet_get_samples_per_frame toc 8000"
  have fs: "?fs \<le> 480"
  proof -
    have "drop_bit 3 toc AND 3 \<le> (3 :: u8)" by (rule word_and_le1)
    then have "unat (drop_bit 3 toc AND 3) \<le> 3" by (simp add: word_le_nat_alt)
    then have "unat (drop_bit 3 toc AND 3) \<in> {0, 1, 2, 3}" by auto
    then show ?thesis by (auto simp: opus_packet_get_samples_per_frame_def Let_def)
  qed
  consider "toc AND 3 \<noteq> 3" | "toc AND 3 = 3" by blast
  then show ?thesis
  proof cases
    case 1
    then have "fst st = 1 \<or> fst st = 2"
      using c toc_code_cases [of toc] by (auto simp: parse_code_def Let_def bindE_ret_iff split: if_splits)
    then show ?thesis using fs p samples_per_frame_min(2) [of toc] by auto
  next
    case 2
    then have "opus_packet_get_samples_per_frame toc 48000 * int (fst st) \<le> 5760"
      using c by (auto simp: parse_code_def parse_code3_def parse_code3_sizes_def Let_def bindE_ret_iff
          split: if_splits list.splits)
    then show ?thesis using p by (simp add: samples_per_frame_48k mult.commute)
  qed
qed

text \<open>Parsing a packet into a fresh repacketizer.\<close>

lemma cat_fresh:
  assumes "opus_packet_parse_impl (drop off mem) len False = ret p" "1 \<le> len" "off + nat len \<le> length mem"
  shows "opus_repacketizer_cat (opus_repacketizer_init rp0) mem off len = Inr (Inr (),
     \<lparr>rp_toc = op_toc p, rp_nb_frames = int (op_count p), rp_frames = parsed_frames off p,
      rp_framesize = opus_packet_get_samples_per_frame (op_toc p) 8000\<rparr>)"
proof -
  obtain toc r where d: "drop off mem = toc # r"
    using assms(1) by (cases "drop off mem") (simp_all add: opus_packet_parse_impl_def)
  have t: "op_toc p = toc" using assms(1) d by (auto simp: opus_packet_parse_impl_def bindE_ret_iff Let_def)
  have "len \<le> int (length (drop off mem))" using assms(2,3) by simp
  note n = parse_impl_ret [OF assms(1,2) this]
  have c: "opus_packet_get_nb_frames (toc # r) len = ret (int (op_count p))"
    using parse_impl_count [OF assms(1,2)] d by simp
  show ?thesis
    using assms(1,2) n c parse_duration [OF assms(1)]
    unfolding opus_repacketizer_cat_def opus_repacketizer_cat_impl_def d list.case Let_def
    by (auto simp: opus_repacketizer_init_def t parsed_frames_def)
qed

lemma unpad_spec:
  assumes "opus_packet_parse_impl (drop off mem) len False = ret p" "1 \<le> len" "off + nat len \<le> length mem"
  obtains n mem' h where "opus_packet_unpad mem off len = Inr (Inr n, mem')" "0 < n" "n \<le> len"
    "n = hdr_bytes (op_sizes p) + sum_list (op_sizes p)" "length mem' = length mem"
    "take (nat n) (drop off mem') = out_bytes mem (parsed_frames off p) h n"
    "good_layout (op_toc p) (op_sizes p) False len n h"
proof -
  define rp where "rp = \<lparr>rp_toc = op_toc p, rp_nb_frames = int (op_count p), rp_frames = parsed_frames off p,
      rp_framesize = opus_packet_get_samples_per_frame (op_toc p) 8000\<rparr>"
  note f = parsed_frames_facts [OF assms]
  have len: "len \<le> int (length (drop off mem))" using assms(2,3) by simp
  note r = parse_impl_ret [OF assms(1,2) len]
  have ok: "rp_ok rp" using f(1,3) parse_duration [OF assms(1)] by (simp add: rp_ok_def rp_def)
  have range: "(0 :: int) < rp_nb_frames rp" using r by (simp add: rp_def)
  have sel: "parsed_frames off p = selected rp 0 (rp_nb_frames rp)" using f(1) by (simp add: selected_def rp_def)
  have src: "sources_ok off (off + k) (parsed_frames off p)" if "int k \<le> hdr_bytes (op_sizes p)" for k
    unfolding parsed_frames_def using parse_impl_header [OF assms(1)] that by (intro contiguous_sources) simp
  have ne: "op_sizes p \<noteq> []" using r by auto
  have lay: "int (length h) = hdr_bytes (op_sizes p)" if "out_layout rp (op_sizes p) len False = ret (tot, h)" for tot h
    by (rule layout_header [OF that ne])
  have "0 \<le> len" using assms(2) by simp
  note spec = out_range_spec [OF ok order_refl range order_refl sel f(2) this assms(3), of False, unfolded f(4)]
  have tot: "hdr_bytes (op_sizes p) + sum_list (op_sizes p) \<le> len"
    using parse_impl_header [OF assms(1)] parse_prefix [OF assms] by linarith
  show ?thesis
  proof (rule spec)
    fix tot h assume "out_layout rp (op_sizes p) len False = ret (tot, h)"
    then show "sources_ok off (off + length h) (parsed_frames off p)" using lay by (intro src) simp
  next
    fix tot1 h1
    assume "length (parsed_frames off p) \<le> 2" "short_layout (rp_toc rp) (op_sizes p) 0 = (tot1, h1)"
    then have "out_layout rp (op_sizes p) len False = ret (tot1, h1)" using f(1) r by (simp add: out_layout_def)
    then show "sources_ok off (off + length h1) (parsed_frames off p)" using lay by (intro src) simp
  next
    assume "too_small rp (op_sizes p) len False"
    then have "len < hdr_bytes (op_sizes p) + sum_list (op_sizes p)" using r ne by (intro too_small_exact) (auto simp: lens_ok_def)
    then show ?thesis using tot by simp
  next
    fix mem1 mem' n h h1
    assume o: "opus_repacketizer_out_range_impl rp 0 (rp_nb_frames rp) mem off len False False = Inr (Inr n, mem')"
      and g: "good_layout (rp_toc rp) (op_sizes p) False len n h"
      and lo: "out_layout rp (op_sizes p) len False = ret (n, h)"
      and m1: "store mem off h1 = Inr mem1" and m': "store mem1 off (out_bytes mem (parsed_frames off p) h n) = Inr mem'"
    have l: "int (length (out_bytes mem (parsed_frames off p) h n)) = n"
      by (rule out_bytes_holds(2) [OF g [folded f(4)] f(2)])
    have "lens_ok (op_sizes p)" using r ne by (simp add: lens_ok_def)
    then have n: "n = hdr_bytes (op_sizes p) + sum_list (op_sizes p)" "0 < n" "n \<le> len"
      using g lay [OF lo] hdr_bytes_pos [of "op_sizes p"] sum_lens_nonneg [of "op_sizes p"] by (auto simp: good_layout_def)
    show ?thesis
    proof (rule that [OF _ n(2,3,1)])
      show "opus_packet_unpad mem off len = Inr (Inr n, mem')"
        using cat_fresh [OF assms, of rp_fresh] o n assms(2) by (simp add: opus_packet_unpad_def rp_def)
      show "length mem' = length mem" using store_length [OF m1] store_length [OF m'] by simp
      show "take (nat n) (drop off mem') = out_bytes mem (parsed_frames off p) h n"
        using store_content [OF m'] l by (metis nat_int)
    qed (use g in \<open>simp add: rp_def\<close>)
  qed
qed

section \<open>Properties\<close>

text \<open>C14. Packets written by the repacketizer parse back to the frames they were made of: with source
  frames outside the output buffer, \<^verbatim>\<open>opus_repacketizer_out_range_impl\<close> (not self-delimited) neither faults
  nor trips its assertion; it reports a buffer that is too small only below the documented
  1277 bytes per frame, and otherwise leaves a packet with the same configuration whose frames are,
  byte for byte, the selected ones (filling the buffer exactly when padding is asked for).\<close>
theorem opus_repacketizer_roundtrip:
  assumes "rp_ok rp" and "0 \<le> first" "first < stop" "stop \<le> rp_nb_frames rp"
    and "in_memory mem (selected rp first stop)" and "0 \<le> maxlen" "dst + nat maxlen \<le> length mem"
    and "apart dst (nat maxlen) (selected rp first stop)"
  shows "(\<exists>mem'. opus_repacketizer_out_range_impl rp first stop mem dst maxlen False pad
             = Inr (Inl OPUS_BUFFER_TOO_SMALL, mem') \<and> maxlen < 1277 * (stop - first))
       \<or> (\<exists>n mem'. opus_repacketizer_out_range_impl rp first stop mem dst maxlen False pad = Inr (Inr n, mem')
           \<and> n \<le> maxlen \<and> (pad \<longrightarrow> n = maxlen)
           \<and> holds_frames (take (nat n) (drop dst mem')) (rp_toc rp) (map (frame_bytes mem) (selected rp first stop)))"
proof -
  define frames where "frames = selected rp first stop"
  note sel = selected_facts [OF assms(1-4), folded frames_def]
  have nn: "\<forall>f \<in> set frames. 0 \<le> snd f" using sel(2) by (auto simp: lens_ok_def)
  have src: "sources_ok dst (dst + k) frames" if "int k + sum_list (map snd frames) \<le> maxlen" for k
    by (rule apart_sources [OF assms(8) [folded frames_def] nn]) (use that assms(6) in simp)
  show ?thesis
  proof (rule out_range_spec [OF assms(1-4) frames_def assms(5) [folded frames_def] assms(6,7), of pad])
    fix tot h
    assume "good_layout (rp_toc rp) (map snd frames) pad maxlen tot h"
    then show "sources_ok dst (dst + length h) frames" by (intro src) (simp add: good_layout_def)
  next
    fix tot1 h1
    assume s: "length frames \<le> 2" "short_layout (rp_toc rp) (map snd frames) 0 = (tot1, h1)" "tot1 \<le> maxlen"
    have "good_layout (rp_toc rp) (map snd frames) False maxlen tot1 h1"
      by (rule short_good [OF s(2) sel(2)]) (use s in simp_all)
    then show "sources_ok dst (dst + length h1) frames" by (intro src) (simp add: good_layout_def)
  next
    fix mem'
    assume "opus_repacketizer_out_range_impl rp first stop mem dst maxlen False pad = Inr (Inl OPUS_BUFFER_TOO_SMALL, mem')"
      and "too_small rp (map snd frames) maxlen pad"
    then show ?thesis using too_small_1277 [OF _ sel(2)] sel(1) by auto
  next
    fix mem1 mem' tot h h1
    assume out: "opus_repacketizer_out_range_impl rp first stop mem dst maxlen False pad = Inr (Inr tot, mem')"
      and g: "good_layout (rp_toc rp) (map snd frames) pad maxlen tot h"
      and m': "store mem1 dst (out_bytes mem frames h tot) = Inr mem'"
    note b = out_bytes_holds [OF g assms(5) [folded frames_def]]
    have "take (nat tot) (drop dst mem') = out_bytes mem frames h tot"
      using store_content [OF m'] b(2) by (metis nat_int)
    then show ?thesis unfolding frames_def [symmetric] using out b(1) g by (auto simp: good_layout_def)
  qed
qed

text \<open>A repacketizer with two frames of one byte at offsets 0 and 2, and room for a packet at 4.\<close>

definition rp_example :: OpusRepacketizer where
  "rp_example = \<lparr>rp_toc = 0x08, rp_nb_frames = 2, rp_frames = [(0, 1), (2, 1)], rp_framesize = 160\<rparr>"

theorem opus_repacketizer_roundtrip_witness:
  "\<exists>n mem'. opus_repacketizer_out_range_impl rp_example 0 2 (replicate 2600 7) 4 2554 False True = Inr (Inr n, mem')
     \<and> n = 2554 \<and> holds_frames (take (nat n) (drop 4 mem')) 0x08 [[7], [7]]"
proof -
  have ok: "rp_ok rp_example" by (simp add: rp_ok_def rp_example_def opus_packet_get_samples_per_frame_def)
  have sel: "selected rp_example 0 2 = [(0, 1), (2, 1)]" by (simp add: selected_def rp_example_def)
  have fb: "map (frame_bytes (replicate 2600 7)) [(0, 1), (2, 1)] = [[7], [7]]" by (simp add: frame_bytes_def)
  show ?thesis
    using opus_repacketizer_roundtrip [OF ok, of 0 2 "replicate 2600 7" 2554 4 True, unfolded sel fb]
    by (simp add: in_memory_def apart_def rp_example_def)
qed

text \<open>Whatever packets are added, in whatever order and with whatever result, the repacketizer holds
  at most 48 frames, each of 0 to 1275 bytes and inside the memory it was added from, that
  together last at most 120 ms.\<close>
theorem opus_repacketizer_session:
  assumes "(rp_step mem)\<^sup>*\<^sup>* (opus_repacketizer_init rp0) rp"
  shows "rp_ok rp \<and> opus_repacketizer_get_nb_frames rp \<le> 48
    \<and> (rp_nb_frames rp \<noteq> 0 \<longrightarrow> in_memory mem (rp_frames rp))"
proof -
  have "rp_inv mem rp" by (rule repack.reachable_inv [OF _ assms]) blast
  then show ?thesis using rp_inv_count [of mem rp] by (simp add: rp_inv_def)
qed

lemma example_cat:
  "opus_repacketizer_cat (opus_repacketizer_init rp_fresh) [0x0A, 2, 0x11, 0x22, 0x33] 0 5 = Inr (Inr (),
     \<lparr>rp_toc = 0x0A, rp_nb_frames = 2, rp_frames = [(2, 2), (4, 1)], rp_framesize = 160\<rparr>)"
  by (simp add: opus_repacketizer_cat_def opus_repacketizer_cat_impl_def opus_repacketizer_init_def rp_fresh_def parse_eval)

theorem opus_repacketizer_session_witness:
  "rp_ok \<lparr>rp_toc = 0x0A, rp_nb_frames = 2, rp_frames = [(2, 2), (4, 1)], rp_framesize = 160\<rparr>
   \<and> in_memory [0x0A, 2, 0x11, 0x22, 0x33] [(2, 2), (4, 1)]"
proof -
  have "rp_step [0x0A, 2, 0x11, 0x22, 0x33] (opus_repacketizer_init rp_fresh)
      \<lparr>rp_toc = 0x0A, rp_nb_frames = 2, rp_frames = [(2, 2), (4, 1)], rp_framesize = 160\<rparr>"
    by (rule step_cat [OF _ example_cat]) simp
  from opus_repacketizer_session [OF r_into_rtranclp, OF this] show ?thesis by simp
qed

text \<open>C15. \<^verbatim>\<open>opus_packet_unpad\<close> works in place on every packet that parses: no access outside the packet, no
  failing assertion, and what is left at the start of the buffer is a packet without padding, of
  the smallest possible header for these frames, that holds the same frames byte for byte.\<close>
theorem opus_unpad_in_place:
  assumes "opus_packet_parse packet (int (length packet)) = ret p"
  shows "\<exists>n packet'. opus_packet_unpad packet 0 (int (length packet)) = Inr (Inr n, packet')
    \<and> 0 < n \<and> n \<le> int (length packet) \<and> length packet' = length packet
    \<and> n = hdr_bytes (op_sizes p) + sum_list (op_sizes p)
    \<and> holds_frames (take (nat n) packet') (op_toc p) (map (frame_bytes packet) (parsed_frames 0 p))"
proof -
  have "packet \<noteq> []" using assms by (auto simp: opus_packet_parse_def opus_packet_parse_impl_def)
  then have l: "1 \<le> int (length packet)" by (cases packet) auto
  have p: "opus_packet_parse_impl (drop 0 packet) (int (length packet)) False = ret p"
    using assms by (simp add: opus_packet_parse_def)
  have len: "0 + nat (int (length packet)) \<le> length packet" by simp
  note f = parsed_frames_facts(2,4) [OF p l len]
  show ?thesis
  proof (rule unpad_spec [OF p l len])
    fix n mem' h
    assume u: "opus_packet_unpad packet 0 (int (length packet)) = Inr (Inr n, mem')" "0 < n" "n \<le> int (length packet)"
      "n = hdr_bytes (op_sizes p) + sum_list (op_sizes p)" "length mem' = length packet"
      and b: "take (nat n) (drop 0 mem') = out_bytes packet (parsed_frames 0 p) h n"
      and g: "good_layout (op_toc p) (op_sizes p) False (int (length packet)) n h"
    have "holds_frames (take (nat n) mem') (op_toc p) (map (frame_bytes packet) (parsed_frames 0 p))"
      using out_bytes_holds(1) [OF g [folded f(2)] f(1)] b by simp
    then show ?thesis using u by blast
  qed
qed

theorem opus_unpad_in_place_witness:
  "\<exists>n packet'. opus_packet_unpad [0x0A, 2, 0x11, 0x22, 0x33] 0 5 = Inr (Inr n, packet')
    \<and> n = 5 \<and> holds_frames (take (nat n) packet') 0x0A [[0x11, 0x22], [0x33]]"
proof -
  have "opus_packet_parse [0x0A, 2, 0x11, 0x22, 0x33] (int (length [0x0A, 2, 0x11, 0x22, 0x33 :: u8]))
     = ret \<lparr>op_toc = 0x0A, op_count = 2, op_sizes = [2, 1], op_payload_offset = 2, op_packet_offset = 5\<rparr>"
    by (simp add: parse_eval)
  from opus_unpad_in_place [OF this] show ?thesis
    by (auto simp: parsed_frames_def frame_bytes_def hdr_bytes_def size_bytes_def)
qed

end
