(* ===== verification/DsArray.thy ===== *)
theory DsArray
  imports Prelude "HOL-Library.Multiset"
begin

text \<open>
  Common ground of the sorting routines of \<^verbatim>\<open>study/DS/include/sorts.cpp\<close>. A buffer is the list of its
  elements; an access outside of it is \<open>OutOfBounds\<close>. The routines are templates over a type with
  a linear order and take a flag \<open>asc\<close>; the code spells out both comparisons in each branch on
  \<open>asc\<close>, the model has \<open>gt asc\<close> for the one the branch uses. \<open>sort_routine\<close> is what a client may rely on,
  and what it can conclude from it.
\<close>

section \<open>Array accesses\<close>

definition rd :: "'a list \<Rightarrow> nat \<Rightarrow> 'a res" where
  "rd buf i = (if i < length buf then Inr (buf ! i) else Inl OutOfBounds)"

definition wr :: "'a list \<Rightarrow> nat \<Rightarrow> 'a \<Rightarrow> 'a list res" where
  "wr buf i x = (if i < length buf then Inr (buf[i := x]) else Inl OutOfBounds)"

lemma rd_simp [simp]: "i < length buf \<Longrightarrow> rd buf i = Inr (buf ! i)"
  by (simp add: rd_def)

lemma wr_simp [simp]: "i < length buf \<Longrightarrow> wr buf i x = Inr (buf[i := x])"
  by (simp add: wr_def)

section \<open>The two directions\<close>

definition gt :: "bool \<Rightarrow> 'a::linorder \<Rightarrow> 'a \<Rightarrow> bool" where
  "gt asc x y = (if asc then x > y else x < y)"

definition le :: "bool \<Rightarrow> 'a::linorder \<Rightarrow> 'a \<Rightarrow> bool" where
  "le asc x y = (if asc then x \<le> y else y \<le> x)"

lemma gt_iff [simp]: "gt asc x y \<longleftrightarrow> \<not> le asc x y"
  by (auto simp: gt_def le_def)

lemma le_refl [simp]: "le asc x x"
  by (simp add: le_def)

lemma le_trans: "le asc x y \<Longrightarrow> le asc y z \<Longrightarrow> le asc x z"
  by (auto simp: le_def split: if_splits)

lemma le_total: "\<not> le asc x y \<Longrightarrow> le asc y x"
  by (auto simp: le_def split: if_splits)

lemma le_antisym: "le asc x y \<Longrightarrow> le asc y x \<Longrightarrow> x = y"
  by (auto simp: le_def split: if_splits)

lemma less_le_trans': "\<not> le asc x y \<Longrightarrow> le asc z y \<Longrightarrow> \<not> le asc x z"
  by (auto simp: le_def split: if_splits)

abbreviation ordered :: "bool \<Rightarrow> 'a::linorder list \<Rightarrow> bool" where
  "ordered asc xs \<equiv> sorted_wrt (le asc) xs"

text \<open>The result every sorting routine has to produce.\<close>

definition sorted_result :: "bool \<Rightarrow> 'a::linorder list \<Rightarrow> 'a list" where
  "sorted_result asc xs = (if asc then sort xs else rev (sort xs))"

lemma le_dir: "le True = (\<le>)" "le False = (\<lambda>x y. y \<le> x)"
  by (simp_all add: le_def fun_eq_iff)

lemma ordered_sorted: "ordered True xs = sorted xs" "ordered False xs = sorted (rev xs)"
  by (simp_all add: le_dir sorted_wrt_rev)

lemma sorted_result_unique: "ordered asc ys \<Longrightarrow> mset ys = mset xs \<Longrightarrow> ys = sorted_result asc xs"
proof (cases asc)
  case False
  assume "ordered asc ys" "mset ys = mset xs"
  then have "sort xs = rev ys" using False by (intro properties_for_sort) (simp_all add: ordered_sorted)
  then show ?thesis using False by (simp add: sorted_result_def)
qed (auto simp: ordered_sorted sorted_result_def intro: properties_for_sort [symmetric])

lemma sorted_result_mset [simp]: "mset (sorted_result asc xs) = mset xs"
  by (simp add: sorted_result_def)

lemma sorted_result_ordered: "ordered asc (sorted_result asc xs)"
  by (cases asc) (simp_all add: sorted_result_def ordered_sorted)

section \<open>The contract\<close>

locale sort_routine =
  fixes run :: "'a::linorder list \<Rightarrow> nat \<Rightarrow> bool \<Rightarrow> 'a list res"
    and ok :: "'a list \<Rightarrow> bool"
  assumes runs: "ok xs \<Longrightarrow> \<exists>ys. run xs (length xs) asc = Inr ys \<and> mset ys = mset xs \<and> ordered asc ys"
    and ok_cong: "mset xs = mset ys \<Longrightarrow> ok xs = ok ys"
begin

lemma run_eq: "ok xs \<Longrightarrow> run xs (length xs) asc = Inr (sorted_result asc xs)"
  using runs [of xs asc] sorted_result_unique by fastforce

lemma run_permutation:
  assumes "ok xs" "mset xs = mset ys"
  shows "run xs (length xs) asc = run ys (length ys) asc"
proof -
  have "sorted_result asc xs = sorted_result asc ys"
    by (rule sorted_result_unique) (simp_all add: sorted_result_ordered assms(2))
  then show ?thesis using run_eq [OF assms(1)] run_eq [of ys asc] ok_cong [OF assms(2)] assms(1) by simp
qed

lemma run_twice: "ok xs \<Longrightarrow> bindR (run xs (length xs) asc) (\<lambda>ys. run ys (length ys) asc) = run xs (length xs) asc"
proof -
  assume ok: "ok xs"
  have "run (sorted_result asc xs) (length (sorted_result asc xs)) asc = run xs (length xs) asc"
    by (rule run_permutation) (use ok ok_cong [of xs "sorted_result asc xs"] in simp_all)
  then show ?thesis using run_eq [OF ok] by simp
qed

end

end
