(* ===== verification/DsSimple.thy ===== *)
theory DsSimple
  imports DsArray "HOL-Library.List_Lexorder"
begin

text \<open>
  The elementary sorting routines of \<^verbatim>\<open>sorts.cpp\<close>: bubble sort (the template and its specialisation to
  C strings), insertion sort, Shell sort and selection sort. A \<^verbatim>\<open>for\<close> loop is recursion on the number
  of iterations left.
\<close>

section \<open>Bubble sort\<close>

fun bubble_inner :: "bool \<Rightarrow> nat \<Rightarrow> nat \<Rightarrow> 'a::linorder list \<Rightarrow> bool \<Rightarrow> ('a list \<times> bool) res" where
  "bubble_inner asc i 0 buf is_sorted = Inr (buf, is_sorted)"
| "bubble_inner asc i (Suc k) buf is_sorted =
     bindR (rd buf i) (\<lambda>x. bindR (rd buf (i + 1)) (\<lambda>y.
       if gt asc x y
       then bindR (wr buf (i + 1) x) (\<lambda>buf1. bindR (wr buf1 i y) (\<lambda>buf2. bubble_inner asc (i + 1) k buf2 False))
       else bubble_inner asc (i + 1) k buf is_sorted))"

fun bubble_outer :: "bool \<Rightarrow> nat \<Rightarrow> nat \<Rightarrow> nat \<Rightarrow> 'a::linorder list \<Rightarrow> bool \<Rightarrow> 'a list res" where
  "bubble_outer asc n i 0 buf is_sorted = Inr buf"
| "bubble_outer asc n i (Suc k) buf is_sorted =
     bindR (bubble_inner asc 0 (n - i - 1) buf is_sorted) (\<lambda>(buf1, is_sorted1).
       if is_sorted1 then Inr buf1 else bubble_outer asc n (i + 1) k buf1 is_sorted1)"

definition bubble :: "'a::linorder list \<Rightarrow> nat \<Rightarrow> bool \<Rightarrow> 'a list res" where
  "bubble buf n asc = bubble_outer asc n 0 (n - 1) buf True"

text \<open>The specialisation for \<^verbatim>\<open>const char *\<close> compares with \<^verbatim>\<open>strcmp\<close>. A C string is the list of its bytes without the
  terminating 0.\<close>

fun strcmp :: "bytes \<Rightarrow> bytes \<Rightarrow> int" where
  "strcmp [] [] = 0"
| "strcmp [] (b # bs) = -1"
| "strcmp (a # as) [] = 1"
| "strcmp (a # as) (b # bs) = (if a = b then strcmp as bs else if a < b then -1 else 1)"

fun bubble_str_inner :: "bool \<Rightarrow> nat \<Rightarrow> nat \<Rightarrow> bytes list \<Rightarrow> bool \<Rightarrow> (bytes list \<times> bool) res" where
  "bubble_str_inner asc i 0 buf is_sorted = Inr (buf, is_sorted)"
| "bubble_str_inner asc i (Suc k) buf is_sorted =
     bindR (rd buf i) (\<lambda>x. bindR (rd buf (i + 1)) (\<lambda>y.
       if (if asc then strcmp x y > 0 else strcmp x y < 0)
       then bindR (wr buf (i + 1) x) (\<lambda>buf1. bindR (wr buf1 i y) (\<lambda>buf2. bubble_str_inner asc (i + 1) k buf2 False))
       else bubble_str_inner asc (i + 1) k buf is_sorted))"

fun bubble_str_outer :: "bool \<Rightarrow> nat \<Rightarrow> nat \<Rightarrow> nat \<Rightarrow> bytes list \<Rightarrow> bool \<Rightarrow> bytes list res" where
  "bubble_str_outer asc n i 0 buf is_sorted = Inr buf"
| "bubble_str_outer asc n i (Suc k) buf is_sorted =
     bindR (bubble_str_inner asc 0 (n - i - 1) buf is_sorted) (\<lambda>(buf1, is_sorted1).
       if is_sorted1 then Inr buf1 else bubble_str_outer asc n (i + 1) k buf1 is_sorted1)"

definition bubble_str :: "bytes list \<Rightarrow> nat \<Rightarrow> bool \<Rightarrow> bytes list res" where
  "bubble_str buf n asc = bubble_str_outer asc n 0 (n - 1) buf True"

section \<open>Insertion sort\<close>

text \<open>The loop that moves larger elements up; \<open>p\<close> is \<^verbatim>\<open>prev_pos + 1\<close>, the place that is free.\<close>

fun insert_shift :: "bool \<Rightarrow> 'a::linorder \<Rightarrow> 'a list \<Rightarrow> nat \<Rightarrow> ('a list \<times> nat) res" where
  "insert_shift asc cur_val buf 0 = Inr (buf, 0)"
| "insert_shift asc cur_val buf (Suc p) =
     bindR (rd buf p) (\<lambda>x.
       if gt asc x cur_val then bindR (wr buf (p + 1) x) (\<lambda>buf1. insert_shift asc cur_val buf1 p)
       else Inr (buf, Suc p))"

fun insert_loop :: "bool \<Rightarrow> nat \<Rightarrow> nat \<Rightarrow> 'a::linorder list \<Rightarrow> 'a list res" where
  "insert_loop asc index 0 buf = Inr buf"
| "insert_loop asc index (Suc k) buf =
     bindR (rd buf index) (\<lambda>cur_val.
     bindR (insert_shift asc cur_val buf index) (\<lambda>(buf1, p).
     bindR (wr buf1 p cur_val) (insert_loop asc (index + 1) k)))"

definition insert_sort :: "'a::linorder list \<Rightarrow> nat \<Rightarrow> bool \<Rightarrow> 'a list res" where
  "insert_sort buf n asc = insert_loop asc 1 (n - 1) buf"

section \<open>Shell sort\<close>

text \<open>\<open>j\<close> is \<^verbatim>\<open>sorted_last_index\<close>. With a step of 0 the loop would stay where it is.\<close>

function shell_shift :: "bool \<Rightarrow> nat \<Rightarrow> 'a::linorder \<Rightarrow> 'a list \<Rightarrow> int \<Rightarrow> ('a list \<times> int) res" where
  "shell_shift asc delta cur buf j =
     (if j < 0 then Inr (buf, j)
      else bindR (rd buf (nat j)) (\<lambda>x.
        if gt asc x cur
        then bindR (wr buf (nat j + delta) x) (\<lambda>buf1.
          if delta = 0 then Inl Diverges else shell_shift asc delta cur buf1 (j - int delta))
        else Inr (buf, j)))"
  by pat_completeness auto
termination
  by (relation "measure (\<lambda>(asc, delta, cur, buf, j). nat (j + 1))") auto

declare shell_shift.simps [simp del]

fun shell_pass :: "bool \<Rightarrow> nat \<Rightarrow> nat \<Rightarrow> nat \<Rightarrow> 'a::linorder list \<Rightarrow> 'a list res" where
  "shell_pass asc delta index 0 buf = Inr buf"
| "shell_pass asc delta index (Suc k) buf =
     bindR (rd buf index) (\<lambda>cur.
     bindR (shell_shift asc delta cur buf (int index - int delta)) (\<lambda>(buf1, j).
     bindR (wr buf1 (nat (j + int delta)) cur) (shell_pass asc delta (index + 1) k)))"

fun shell_loop :: "bool \<Rightarrow> nat \<Rightarrow> nat \<Rightarrow> 'a::linorder list \<Rightarrow> 'a list res" where
  "shell_loop asc n delta buf =
     (if delta = 0 then Inr buf
      else bindR (shell_pass asc delta delta (n - delta) buf) (shell_loop asc n (delta div 2)))"

declare shell_loop.simps [simp del]

definition shell :: "'a::linorder list \<Rightarrow> nat \<Rightarrow> bool \<Rightarrow> 'a list res" where
  "shell buf n asc = shell_loop asc n (n div 2) buf"

section \<open>Selection sort\<close>

fun select_scan :: "bool \<Rightarrow> nat \<Rightarrow> nat \<Rightarrow> nat \<Rightarrow> 'a::linorder list \<Rightarrow> nat res" where
  "select_scan asc i 0 min_max_index buf = Inr min_max_index"
| "select_scan asc i (Suc k) min_max_index buf =
     bindR (rd buf i) (\<lambda>x. bindR (rd buf min_max_index) (\<lambda>y.
       select_scan asc (i + 1) k (if gt asc y x then i else min_max_index) buf))"

fun select_loop :: "bool \<Rightarrow> nat \<Rightarrow> nat \<Rightarrow> nat \<Rightarrow> 'a::linorder list \<Rightarrow> 'a list res" where
  "select_loop asc n i 0 buf = Inr buf"
| "select_loop asc n i (Suc k) buf =
     bindR (select_scan asc (i + 1) (n - (i + 1)) i buf) (\<lambda>m.
       if m = i then select_loop asc n (i + 1) k buf
       else bindR (rd buf i) (\<lambda>tmp. bindR (rd buf m) (\<lambda>x.
         bindR (wr buf i x) (\<lambda>buf1. bindR (wr buf1 m tmp) (select_loop asc n (i + 1) k)))))"

definition select :: "'a::linorder list \<Rightarrow> nat \<Rightarrow> bool \<Rightarrow> 'a list res" where
  "select buf n asc = select_loop asc n 0 (n - 1) buf"

section \<open>Bubble sort sorts\<close>

text \<open>One pass carries the largest element seen so far to the right.\<close>

fun carry :: "bool \<Rightarrow> 'a::linorder \<Rightarrow> 'a list \<Rightarrow> 'a list" where
  "carry asc x [] = [x]"
| "carry asc x (y # ys) = (if gt asc x y then y # carry asc x ys else x # carry asc y ys)"

lemma carry_mset [simp]: "mset (carry asc x ys) = add_mset x (mset ys)"
  by (induction asc x ys rule: carry.induct) auto

lemma carry_snoc: "\<exists>zs m. carry asc x ys = zs @ [m] \<and> (\<forall>z \<in> set (x # ys). le asc z m)"
proof (induction asc x ys rule: carry.induct)
  case (2 asc x y ys)
  show ?case
  proof (cases "gt asc x y")
    case True
    then obtain zs m where "carry asc x ys = zs @ [m]" "\<forall>z \<in> set (x # ys). le asc z m" using 2(1) by blast
    moreover have "le asc y x" using True by (simp add: le_total)
    ultimately show ?thesis using True by (auto intro: le_trans)
  next
    case False
    then obtain zs m where "carry asc y ys = zs @ [m]" "\<forall>z \<in> set (y # ys). le asc z m" using 2(2) by blast
    then show ?thesis using False by (auto intro: le_trans)
  qed
qed simp

fun in_order :: "bool \<Rightarrow> 'a::linorder \<Rightarrow> 'a list \<Rightarrow> bool" where
  "in_order asc x [] \<longleftrightarrow> True"
| "in_order asc x (y # ys) \<longleftrightarrow> le asc x y \<and> in_order asc y ys"

lemma in_order_carry: "in_order asc x ys \<Longrightarrow> carry asc x ys = x # ys \<and> ordered asc (x # ys)"
proof (induction asc x ys rule: in_order.induct)
  case (2 asc x y ys)
  then show ?case by (auto intro: le_trans)
qed simp

lemma bubble_inner_carry:
  "bubble_inner asc (length pre) (length ys) (pre @ x # ys @ r) s = Inr (pre @ carry asc x ys @ r, s \<and> in_order asc x ys)"
proof (induction ys arbitrary: pre x s)
  case (Cons y ys)
  show ?case
  proof (cases "gt asc x y")
    case True
    then show ?thesis using Cons.IH [of "pre @ [y]" x False]
      by (simp add: nth_append list_update_append)
  next
    case False
    then show ?thesis using Cons.IH [of "pre @ [x]" y s] by (simp add: nth_append)
  qed
qed simp

lemma bubble_outer_sorts:
  "us \<noteq> [] \<Longrightarrow> n = length us + length vs \<Longrightarrow> ordered asc vs \<Longrightarrow> \<forall>u \<in> set us. \<forall>v \<in> set vs. le asc u v \<Longrightarrow>
   \<exists>ys. bubble_outer asc n (length vs) (length us - 1) (us @ vs) s = Inr ys \<and> mset ys = mset (us @ vs) \<and> ordered asc ys"
proof (induction "length us - 1" arbitrary: us vs s)
  case 0
  then obtain u where "us = [u]" by (cases us) auto
  then show ?case using 0 by simp
next
  case (Suc k)
  then obtain x ws where us: "us = x # ws" "length ws = Suc k" by (cases us) auto
  have p: "bubble_inner asc 0 (n - length vs - 1) (us @ vs) s = Inr (carry asc x ws @ vs, s \<and> in_order asc x ws)"
    using bubble_inner_carry [of asc "[]" ws x vs s] Suc.prems(2) us by simp
  obtain zs m where zm: "carry asc x ws = zs @ [m]" "\<forall>z \<in> set us. le asc z m" using carry_snoc [of asc x ws] us by auto
  have ms: "add_mset m (mset zs) = mset us" using arg_cong [OF zm(1), of mset] us by simp
  then have set: "insert m (set zs) = set us" by (metis set_mset_add_mset_insert set_mset_mset)
  have len: "length us = Suc (length zs)" using arg_cong [OF ms, of size] by simp
  show ?case
  proof (cases "s \<and> in_order asc x ws")
    case True
    then have "ordered asc (us @ vs)" using in_order_carry [of asc x ws] Suc.prems us by (auto simp: sorted_wrt_append)
    then show ?thesis using p True in_order_carry [of asc x ws] us by (simp del: in_order.simps)
  next
    case False
    have o: "ordered asc (m # vs)" using Suc.prems set by auto
    have b: "\<forall>u \<in> set zs. \<forall>v \<in> set (m # vs). le asc u v" using Suc.prems(4) zm(2) set by auto
    have "zs \<noteq> []" using len us by auto
    moreover have "k = length zs - 1" using Suc.hyps(2) len by simp
    ultimately obtain ys where ys: "bubble_outer asc n (length (m # vs)) (length zs - 1) (zs @ m # vs) False = Inr ys"
      "mset ys = mset (zs @ m # vs)" "ordered asc ys"
      using Suc.hyps(1) [of zs "m # vs" False] o b Suc.prems(2) len by auto
    have "length us - 1 = Suc (length zs - 1)" using len us by simp
    then show ?thesis using p False ys ms by (auto simp: zm(1) simp del: in_order.simps)
  qed
qed

lemma bubble_sorts: "\<exists>ys. bubble xs (length xs) asc = Inr ys \<and> mset ys = mset xs \<and> ordered asc ys"
  using bubble_outer_sorts [of xs "length xs" "[]" asc True] by (cases xs) (simp_all add: bubble_def)

interpretation bubble: sort_routine bubble "\<lambda>_. True"
  by unfold_locales (simp_all add: bubble_sorts)

lemma strcmp_order: "strcmp x y < 0 \<longleftrightarrow> x < y" "strcmp x y > 0 \<longleftrightarrow> y < x"
  by (induction x y rule: strcmp.induct) (auto simp: Cons_less_Cons)

lemma bubble_str_inner_eq: "bubble_str_inner asc i k buf s = bubble_inner asc i k buf s"
proof -
  have "(if asc then strcmp x y > 0 else strcmp x y < 0) = gt asc x y" for x y
    by (simp only: strcmp_order gt_def)
  then show ?thesis by (induction k arbitrary: i buf s) (simp_all del: gt_iff cong: if_cong)
qed

lemma bubble_str_eq: "bubble_str = bubble"
proof -
  have "bubble_str_outer asc n i k buf s = bubble_outer asc n i k buf s" for asc n i k buf s
    by (induction k arbitrary: i buf s) (auto simp: bubble_str_inner_eq bindR_def split: sum.splits)
  then show ?thesis by (simp add: bubble_str_def bubble_def fun_eq_iff)
qed

section \<open>Insertion sort sorts\<close>

text \<open>Where the value goes: behind the last element that is not larger.\<close>

fun ins_right :: "bool \<Rightarrow> 'a::linorder \<Rightarrow> 'a list \<Rightarrow> 'a list" where
  "ins_right asc v [] = [v]"
| "ins_right asc v (x # xs) = (if \<forall>y \<in> set (x # xs). gt asc y v then v # x # xs else x # ins_right asc v xs)"

lemma ins_right_mset [simp]: "mset (ins_right asc v xs) = add_mset v (mset xs)"
  by (induction xs) auto

lemma ins_right_length [simp]: "length (ins_right asc v xs) = Suc (length xs)"
  by (induction xs) auto

lemma ins_right_snoc: "ins_right asc v (xs @ [x]) = (if gt asc x v then ins_right asc v xs @ [x] else xs @ [x, v])"
  by (induction xs) auto

lemma ins_right_set: "set (ins_right asc v xs) = insert v (set xs)"
  by (induction xs) auto

lemma ins_right_ordered: "ordered asc xs \<Longrightarrow> ordered asc (ins_right asc v xs)"
proof (induction xs rule: rev_induct)
  case (snoc x xs)
  show ?case
  proof (cases "gt asc x v")
    case True
    then show ?thesis using snoc by (auto simp: ins_right_snoc sorted_wrt_append ins_right_set le_total)
  next
    case False
    then show ?thesis using snoc.prems by (auto simp: ins_right_snoc sorted_wrt_append intro: le_trans)
  qed
qed simp

lemma insert_shift_ins:
  "\<exists>buf p. insert_shift asc v (pre @ c # post) (length pre) = Inr (buf, p) \<and> p < length buf
     \<and> buf[p := v] = ins_right asc v pre @ post"
proof (induction pre arbitrary: c post rule: rev_induct)
  case (snoc x pre)
  show ?case
  proof (cases "gt asc x v")
    case True
    then show ?thesis using snoc.IH [of x "x # post"] by (simp add: nth_append list_update_append ins_right_snoc)
  qed (simp add: nth_append list_update_append ins_right_snoc)
qed simp

lemma insert_step:
  "bindR (insert_shift asc v (pre @ v # post) (length pre)) (\<lambda>(buf1, p). bindR (wr buf1 p v) f) = f (ins_right asc v pre @ post)"
  using insert_shift_ins [of asc v pre v post] by auto

lemma insert_loop_sorts:
  "ordered asc pre \<Longrightarrow> \<exists>ys. insert_loop asc (length pre) (length post) (pre @ post) = Inr ys
     \<and> mset ys = mset (pre @ post) \<and> ordered asc ys"
proof (induction post arbitrary: pre)
  case (Cons v post)
  have l: "length (ins_right asc v pre) = length pre + 1" by simp
  have "insert_loop asc (length pre) (length (v # post)) (pre @ v # post)
      = insert_loop asc (length pre + 1) (length post) (ins_right asc v pre @ post)"
    by (simp add: insert_step)
  moreover obtain ys where "insert_loop asc (length pre + 1) (length post) (ins_right asc v pre @ post) = Inr ys"
    "mset ys = mset (ins_right asc v pre @ post)" "ordered asc ys"
    using Cons.IH [OF ins_right_ordered [OF Cons.prems], of v] unfolding l by blast
  ultimately show ?case by auto
qed simp

lemma insert_sorts: "\<exists>ys. insert_sort xs (length xs) asc = Inr ys \<and> mset ys = mset xs \<and> ordered asc ys"
proof (cases xs)
  case (Cons x post)
  then show ?thesis using insert_loop_sorts [of asc "[x]" post] by (simp add: insert_sort_def)
qed (simp add: insert_sort_def)

interpretation insertion: sort_routine insert_sort "\<lambda>_. True"
  by unfold_locales (simp_all add: insert_sorts)

section \<open>Shell sort sorts\<close>

text \<open>Every pass rearranges the buffer; the last one, with step 1, is insertion sort.\<close>

lemma mset_move: "i < length xs \<Longrightarrow> j < length xs \<Longrightarrow> i \<noteq> j \<Longrightarrow> mset (xs[i := xs ! j, j := v]) = mset (xs[i := v])"
  using mset_swap [of j "xs[i := v]" i] by simp

lemma shell_shift_mset:
  "0 < delta \<Longrightarrow> j + int delta < int (length buf) \<Longrightarrow> - int delta \<le> j \<Longrightarrow>
   \<exists>buf' j'. shell_shift asc delta v buf j = Inr (buf', j') \<and> length buf' = length buf \<and> - int delta \<le> j'
     \<and> j' + int delta < int (length buf) \<and> mset (buf'[nat (j' + int delta) := v]) = mset (buf[nat (j + int delta) := v])"
proof (induction asc delta v buf j rule: shell_shift.induct)
  case (1 asc delta v buf j)
  show ?case
  proof (cases "j < 0 \<or> \<not> gt asc (buf ! nat j) v")
    case True
    then show ?thesis using 1 by (subst shell_shift.simps) auto
  next
    case False
    let ?h = "nat j + delta"
    have b: "nat j < length buf" "?h < length buf" using False 1 by auto
    obtain buf' j' where r: "shell_shift asc delta v (buf[?h := buf ! nat j]) (j - int delta) = Inr (buf', j')"
      "length buf' = length buf" "- int delta \<le> j'" "j' + int delta < int (length buf)"
      "mset (buf'[nat (j' + int delta) := v]) = mset (buf[?h := buf ! nat j, nat j := v])"
      using 1(1) [of "buf ! nat j" "buf[?h := buf ! nat j]"] False 1(2-) b by auto
    have "mset (buf[?h := buf ! nat j, nat j := v]) = mset (buf[?h := v])"
      using b 1(2) by (intro mset_move) auto
    moreover have "nat (j + int delta) = ?h" using False by (simp add: nat_add_distrib)
    moreover have "shell_shift asc delta v buf j = shell_shift asc delta v (buf[?h := buf ! nat j]) (j - int delta)"
      using False b 1(2) by (subst shell_shift.simps) simp
    ultimately show ?thesis using r by auto
  qed
qed

lemma shell_pass_mset:
  "0 < delta \<Longrightarrow> index + k = length buf \<Longrightarrow> delta \<le> index \<or> k = 0 \<Longrightarrow>
   \<exists>ys. shell_pass asc delta index k buf = Inr ys \<and> mset ys = mset buf"
proof (induction k arbitrary: index buf)
  case (Suc k)
  let ?v = "buf ! index"
  obtain buf' j' where r: "shell_shift asc delta ?v buf (int index - int delta) = Inr (buf', j')" "length buf' = length buf"
    "- int delta \<le> j'" "j' + int delta < int (length buf)"
    "mset (buf'[nat (j' + int delta) := ?v]) = mset (buf[nat (int index - int delta + int delta) := ?v])"
    using shell_shift_mset [of delta "int index - int delta" buf asc ?v] Suc.prems by auto
  let ?buf1 = "buf'[nat (j' + int delta) := ?v]"
  obtain ys where "shell_pass asc delta (index + 1) k ?buf1 = Inr ys" "mset ys = mset ?buf1"
    using Suc.IH [of "index + 1" ?buf1] Suc.prems r(2) by auto
  then show ?case using r Suc.prems by auto
qed simp

lemma shell_shift_1:
  "shell_shift asc 1 v buf (int p - 1) = bindR (insert_shift asc v buf p) (\<lambda>(buf', q). Inr (buf', int q - 1))"
proof (induction p arbitrary: buf)
  case (Suc p)
  then show ?case by (subst shell_shift.simps) (auto simp: bindR_def split: sum.splits)
qed (simp add: shell_shift.simps)

lemma shell_shift_bind:
  "bindR (shell_shift asc 1 v buf (int p - 1)) (\<lambda>(b, j). bindR (wr b (nat (j + 1)) v) f)
     = bindR (insert_shift asc v buf p) (\<lambda>(b, q). bindR (wr b q v) f)"
  unfolding shell_shift_1 by (cases "insert_shift asc v buf p") auto

lemma shell_pass_1: "shell_pass asc 1 index k buf = insert_loop asc index k buf"
proof (induction k arbitrary: index buf)
  case (Suc k)
  have "shell_pass asc 1 (index + 1) k = (insert_loop asc (index + 1) k :: 'a list \<Rightarrow> _)" by (rule ext) (rule Suc.IH)
  then show ?case by (simp add: shell_shift_bind [simplified])
qed simp

lemma shell_loop_sorts:
  "n = length buf \<Longrightarrow> delta \<le> n div 2 \<Longrightarrow> delta = 0 \<longrightarrow> ordered asc buf \<Longrightarrow>
   \<exists>ys. shell_loop asc n delta buf = Inr ys \<and> mset ys = mset buf \<and> ordered asc ys"
proof (induction asc n delta buf rule: shell_loop.induct)
  case (1 asc n delta buf)
  show ?case
  proof (cases "delta = 0")
    case False
    have "n - delta + delta = n" using 1(3) by linarith
    then obtain ys where ys: "shell_pass asc delta delta (n - delta) buf = Inr ys" "mset ys = mset buf"
      using shell_pass_mset [of delta delta "n - delta" buf asc] False 1(2) by auto
    have "ordered asc ys" if d1: "delta = 1"
    proof -
      obtain x xs where b: "buf = x # xs" using 1(2,3) d1 by (cases buf) auto
      show ?thesis using insert_loop_sorts [of asc "[x]" xs] ys(1) 1(2) by (auto simp: b d1 shell_pass_1 [simplified])
    qed
    then have "delta div 2 = 0 \<longrightarrow> ordered asc ys" using False by auto
    moreover have "length ys = n" using arg_cong [OF ys(2), of size] 1(2) by simp
    ultimately obtain zs where "shell_loop asc n (delta div 2) ys = Inr zs" "mset zs = mset ys" "ordered asc zs"
      using 1(1) [OF False, of ys] 1(3) by fastforce
    then show ?thesis using ys False by (subst shell_loop.simps) simp
  qed (use 1(4) in \<open>simp add: shell_loop.simps\<close>)
qed

lemma shell_sorts: "\<exists>ys. shell xs (length xs) asc = Inr ys \<and> mset ys = mset xs \<and> ordered asc ys"
proof -
  have "ordered asc xs" if "length xs div 2 = 0"
    using that by (cases xs; cases "tl xs") auto
  then show ?thesis using shell_loop_sorts [of "length xs" xs "length xs div 2" asc] by (simp add: shell_def)
qed

interpretation shell: sort_routine shell "\<lambda>_. True"
  by unfold_locales (simp_all add: shell_sorts)

section \<open>Selection sort sorts\<close>

lemma select_scan_min:
  "i + k = length buf \<Longrightarrow> m < i \<Longrightarrow> lo \<le> m \<Longrightarrow> \<forall>j. lo \<le> j \<and> j < i \<longrightarrow> le asc (buf ! m) (buf ! j) \<Longrightarrow>
   \<exists>m'. select_scan asc i k m buf = Inr m' \<and> lo \<le> m' \<and> m' < length buf
     \<and> (\<forall>j. lo \<le> j \<and> j < length buf \<longrightarrow> le asc (buf ! m') (buf ! j))"
proof (induction k arbitrary: i m)
  case (Suc k)
  define m1 where "m1 = (if gt asc (buf ! m) (buf ! i) then i else m)"
  have "le asc (buf ! m1) (buf ! j)" if "lo \<le> j \<and> j < Suc i" for j
  proof (cases "j = i")
    case False
    then have "le asc (buf ! m) (buf ! j)" using that Suc.prems(4) by simp
    then show ?thesis by (auto simp: m1_def intro: le_trans le_total)
  qed (auto simp: m1_def)
  then have "\<exists>m'. select_scan asc (i + 1) k m1 buf = Inr m' \<and> lo \<le> m' \<and> m' < length buf
     \<and> (\<forall>j. lo \<le> j \<and> j < length buf \<longrightarrow> le asc (buf ! m') (buf ! j))"
    using Suc.prems by (intro Suc.IH) (auto simp: m1_def)
  then show ?case using Suc.prems by (simp add: m1_def)
qed auto

lemma select_step:
  assumes "i < length buf"
  shows "\<exists>m. select_scan asc (i + 1) (length buf - (i + 1)) i buf = Inr m \<and> i \<le> m \<and> m < length buf
     \<and> (\<forall>j. i \<le> j \<and> j < length buf \<longrightarrow> le asc (buf ! m) (buf ! j))"
proof -
  have "\<forall>j. i \<le> j \<and> j < i + 1 \<longrightarrow> le asc (buf ! i) (buf ! j)"
  proof (intro allI impI)
    fix j assume "i \<le> j \<and> j < i + 1"
    then have "j = i" by linarith
    then show "le asc (buf ! i) (buf ! j)" by simp
  qed
  then show ?thesis using assms by (intro select_scan_min) auto
qed

text \<open>Exchanging the smallest element of the rest with its first one.\<close>

lemma swap_split:
  assumes "i \<le> m" "m < length buf"
  shows "\<exists>r. buf[i := buf ! m, m := buf ! i] = take i buf @ buf ! m # r \<and> add_mset (buf ! m) (mset r) = mset (drop i buf)"
proof -
  let ?b = "buf[i := buf ! m, m := buf ! i]"
  have i: "i < length ?b" using assms by simp
  have t: "take i ?b = take i buf" using assms(1) by simp
  have n: "?b ! i = buf ! m" using assms by (cases "m = i") simp_all
  have e: "?b = take i buf @ buf ! m # drop (Suc i) ?b" using id_take_nth_drop [OF i] t n by simp
  have "mset ?b = mset buf" using assms mset_swap [of m buf i] by simp
  then have "mset (take i buf) + add_mset (buf ! m) (mset (drop (Suc i) ?b)) = mset (take i buf) + mset (drop i buf)"
    using arg_cong [OF e, of mset] by (metis append_take_drop_id mset.simps(2) mset_append)
  then show ?thesis using e by auto
qed

lemma select_loop_sorts:
  "ordered asc us \<Longrightarrow> \<forall>u \<in> set us. \<forall>v \<in> set vs. le asc u v \<Longrightarrow> vs \<noteq> [] \<Longrightarrow>
   \<exists>ys. select_loop asc (length us + length vs) (length us) (length vs - 1) (us @ vs) = Inr ys
     \<and> mset ys = mset (us @ vs) \<and> ordered asc ys"
proof (induction "length vs - 1" arbitrary: us vs)
  case 0
  then obtain v where "vs = [v]" by (cases vs) auto
  then show ?case using 0 by (simp add: sorted_wrt_append)
next
  case (Suc k)
  let ?buf = "us @ vs" and ?i = "length us"
  have k: "length vs - 1 = Suc k" using Suc.hyps(2) by simp
  obtain m where m: "select_scan asc (?i + 1) (length ?buf - (?i + 1)) ?i ?buf = Inr m" "?i \<le> m" "m < length ?buf"
    and min: "\<forall>j. ?i \<le> j \<and> j < length ?buf \<longrightarrow> le asc (?buf ! m) (?buf ! j)"
    using select_step [of ?i ?buf asc] Suc.prems(3) by auto
  obtain r where r: "?buf[?i := ?buf ! m, m := ?buf ! ?i] = us @ ?buf ! m # r" "add_mset (?buf ! m) (mset r) = mset vs"
    using swap_split [OF m(2,3)] by auto
  define x where "x = ?buf ! m"
  have sr: "insert x (set r) = set vs" using r(2) unfolding x_def by (metis set_mset_add_mset_insert set_mset_mset)
  have lr: "length vs = Suc (length r)" using arg_cong [OF r(2), of size] by simp
  have "le asc x v" if v: "v \<in> set vs" for v
  proof -
    obtain j where "j < length vs" "vs ! j = v" using v by (auto simp: in_set_conv_nth)
    then show ?thesis using min [rule_format, of "?i + j"] by (simp add: x_def nth_append)
  qed
  then have o: "ordered asc (us @ [x])" "\<forall>u \<in> set (us @ [x]). \<forall>v \<in> set r. le asc u v"
    using Suc.prems(1,2) sr by (auto simp: sorted_wrt_append)
  have rk: "k = length r - 1" "r \<noteq> []" using k lr by auto
  obtain ys where ys: "select_loop asc (length (us @ [x]) + length r) (length (us @ [x])) (length r - 1) ((us @ [x]) @ r) = Inr ys"
    "mset ys = mset ((us @ [x]) @ r)" "ordered asc ys"
    using Suc.hyps(1) [OF rk(1) o rk(2)] by blast
  have buf1: "?buf[?i := ?buf ! m, m := ?buf ! ?i] = (us @ [x]) @ r" using r(1) by (simp add: x_def)
  have "select_loop asc (length ?buf) ?i (Suc k) ?buf
      = select_loop asc (length (us @ [x]) + length r) (length (us @ [x])) (length r - 1) ((us @ [x]) @ r)"
  proof (cases "m = ?i")
    case True
    then have "?buf = (us @ [x]) @ r" using buf1 by simp
    then show ?thesis using m(1) True lr unfolding rk(1) [symmetric] by simp
  next
    case False
    then show ?thesis using m buf1 [symmetric] lr unfolding rk(1) [symmetric] by simp
  qed
  then show ?case using ys k r(2) by (simp add: x_def)
qed

lemma select_sorts: "\<exists>ys. select xs (length xs) asc = Inr ys \<and> mset ys = mset xs \<and> ordered asc ys"
proof (cases "xs = []")
  case False
  then show ?thesis using select_loop_sorts [of asc "[]" xs] by (simp add: select_def)
qed (simp add: select_def)

interpretation selection: sort_routine select "\<lambda>_. True"
  by unfold_locales (simp_all add: select_sorts)

end
