(* ===== verification/DsHeap.thy ===== *)
theory DsHeap
  imports DsArray
begin

text \<open>
  Heap sort of \<^verbatim>\<open>sorts.cpp\<close>: \<^verbatim>\<open>create_heap\<close> moves one element down into the heap below it, \<^verbatim>\<open>heap\<close> builds a heap
  over the whole buffer and takes the root away \<open>n - 1\<close> times. \<open>fin\<close> is the index \<^verbatim>\<open>end\<close> of the last
  element that belongs to the heap, an integer because it can be -1.
\<close>

section \<open>Model\<close>

lemma bindR_cong [fundef_cong]:
  "m = m' \<Longrightarrow> (\<And>x. m' = Inr x \<Longrightarrow> f x = g x) \<Longrightarrow> bindR m f = bindR m' g"
  by (cases m') simp_all

text \<open>The larger child of a node, in the order asked for.\<close>

definition larger_child :: "bool \<Rightarrow> int \<Rightarrow> 'a::linorder list \<Rightarrow> nat \<Rightarrow> nat res" where
  "larger_child asc fin buf left =
     (if int left + 1 \<le> fin
      then bindR (rd buf left) (\<lambda>x. bindR (rd buf (left + 1)) (\<lambda>y. Inr (if gt asc y x then left + 1 else left)))
      else Inr left)"

lemma larger_child_cases: "larger_child asc fin buf left = Inr m \<Longrightarrow> m = left \<or> (m = left + 1 \<and> int left + 1 \<le> fin)"
  by (auto simp: larger_child_def bindR_Inr_iff split: if_splits)

function sift :: "bool \<Rightarrow> 'a::linorder \<Rightarrow> int \<Rightarrow> 'a list \<Rightarrow> nat \<Rightarrow> ('a list \<times> nat) res" where
  "sift asc root fin buf r =
     (if int (2 * r + 1) \<le> fin
      then bindR (larger_child asc fin buf (2 * r + 1)) (\<lambda>m.
           bindR (rd buf m) (\<lambda>x.
             if le asc x root then Inr (buf, r)
             else bindR (wr buf r x) (\<lambda>buf1. sift asc root fin buf1 m)))
      else Inr (buf, r))"
  by pat_completeness auto
termination
proof (relation "measure (\<lambda>(asc, root, fin, buf, r). nat (fin + 1) - r)", goal_cases)
  case (2 asc root fin buf r m)
  then show ?case using larger_child_cases [of asc fin buf "2 * r + 1" m] by auto
qed simp

declare sift.simps [simp del]

definition create_heap :: "bool \<Rightarrow> 'a::linorder list \<Rightarrow> nat \<Rightarrow> int \<Rightarrow> 'a list res" where
  "create_heap asc buf root_index fin =
     bindR (rd buf root_index) (\<lambda>root.
     bindR (sift asc root fin buf root_index) (\<lambda>(buf1, r). wr buf1 r root))"

fun heap_build :: "bool \<Rightarrow> nat \<Rightarrow> nat \<Rightarrow> 'a::linorder list \<Rightarrow> 'a list res" where
  "heap_build asc n 0 buf = create_heap asc buf 0 (int n - 1)"
| "heap_build asc n (Suc i) buf = bindR (create_heap asc buf (Suc i) (int n - 1)) (heap_build asc n i)"

fun heap_extract :: "bool \<Rightarrow> nat \<Rightarrow> 'a::linorder list \<Rightarrow> 'a list res" where
  "heap_extract asc 0 buf = Inr buf"
| "heap_extract asc (Suc i) buf =
     bindR (rd buf (Suc i)) (\<lambda>temp. bindR (rd buf 0) (\<lambda>x.
     bindR (wr buf (Suc i) x) (\<lambda>buf1. bindR (wr buf1 0 temp) (\<lambda>buf2.
     bindR (create_heap asc buf2 0 (int i)) (heap_extract asc i)))))"

definition heap :: "'a::linorder list \<Rightarrow> nat \<Rightarrow> bool \<Rightarrow> 'a list res" where
  "heap buf n asc = bindR (heap_build asc n (n div 2) buf) (heap_extract asc (n - 1))"

section \<open>Heaps\<close>

text \<open>The heap order among the first \<open>n\<close> elements, for parents from \<open>lo\<close> on; and the same but for the
  edges below \<open>r\<close>, whose children are still not larger than the parent of \<open>r\<close>.\<close>

definition is_heap :: "bool \<Rightarrow> nat \<Rightarrow> nat \<Rightarrow> 'a::linorder list \<Rightarrow> bool" where
  "is_heap asc lo n v \<longleftrightarrow> (\<forall>c. 0 < c \<and> c < n \<and> lo \<le> (c - 1) div 2 \<longrightarrow> le asc (v ! c) (v ! ((c - 1) div 2)))"

definition heap_but :: "bool \<Rightarrow> nat \<Rightarrow> nat \<Rightarrow> nat \<Rightarrow> 'a::linorder list \<Rightarrow> bool" where
  "heap_but asc lo n r v \<longleftrightarrow>
     (\<forall>c. 0 < c \<and> c < n \<and> lo \<le> (c - 1) div 2 \<and> (c - 1) div 2 \<noteq> r \<longrightarrow> le asc (v ! c) (v ! ((c - 1) div 2)))
   \<and> (\<forall>c. 0 < c \<and> c < n \<and> (c - 1) div 2 = r \<and> 0 < r \<and> lo \<le> (r - 1) div 2 \<longrightarrow> le asc (v ! c) (v ! ((r - 1) div 2)))"

lemma children: "0 < c \<and> (c - 1) div 2 = r \<longleftrightarrow> c = 2 * r + 1 \<or> c = 2 * r + 2" for c r :: nat
  by presburger

lemma larger_child_max:
  assumes "2 * r + 1 < n" "n \<le> length buf"
  obtains m where "larger_child asc (int n - 1) buf (2 * r + 1) = Inr m" "0 < m" "(m - 1) div 2 = r" "m < n" "r < m"
    "\<And>c. 0 < c \<Longrightarrow> (c - 1) div 2 = r \<Longrightarrow> c < n \<Longrightarrow> le asc (buf ! c) (buf ! m)"
proof -
  define m where "m = (if 2 * r + 2 < n \<and> gt asc (buf ! (2 * r + 2)) (buf ! (2 * r + 1)) then 2 * r + 2 else 2 * r + 1)"
  have "larger_child asc (int n - 1) buf (2 * r + 1) = Inr m"
    using assms by (auto simp: larger_child_def m_def)
  moreover have "le asc (buf ! c) (buf ! m)" if "0 < c" "(c - 1) div 2 = r" "c < n" for c
    using that children [of c r] by (auto simp: m_def le_total)
  ultimately show ?thesis using that [of m] assms(1) by (auto simp: m_def)
qed

text \<open>Moving the larger child up.\<close>

lemma heap_but_step:
  assumes "heap_but asc lo n r (buf[r := root])" "r < n" "n \<le> length buf"
    and m: "0 < m" "(m - 1) div 2 = r" "m < n" "r < m" "\<And>c. 0 < c \<Longrightarrow> (c - 1) div 2 = r \<Longrightarrow> c < n \<Longrightarrow> le asc (buf ! c) (buf ! m)"
    and "\<not> le asc (buf ! m) root"
  shows "heap_but asc lo n m (buf[r := buf ! m, m := root])"
proof -
  let ?v = "buf[r := root]" and ?w = "buf[r := buf ! m, m := root]"
  have len: "r < length buf" "m < length buf" using assms(2,3) m by auto
  have w: "?w ! m = root" "?w ! r = buf ! m" "\<And>c. c \<noteq> r \<Longrightarrow> c \<noteq> m \<Longrightarrow> ?w ! c = ?v ! c" "?v ! m = buf ! m"
    using len m(4) by simp_all
  have e1: "le asc (?w ! c) (?w ! ((c - 1) div 2))" if c: "0 < c" "c < n" "lo \<le> (c - 1) div 2" "(c - 1) div 2 \<noteq> m" for c
  proof (cases "(c - 1) div 2 = r")
    case True
    then have cr: "c \<noteq> r" using c(1) by auto
    have "le asc (buf ! c) (buf ! m)" "le asc root (buf ! m)"
      using m(5) [OF c(1) True c(2)] le_total [OF assms(9)] .
    then show ?thesis using True w(1,2) cr len by (cases "c = m") auto
  next
    case False
    then have "c \<noteq> m" using m(2) by auto
    show ?thesis
    proof (cases "c = r")
      case True
      then have "le asc (?v ! m) (?v ! ((r - 1) div 2))"
        using assms(1) m(1-3) c unfolding heap_but_def by blast
      then show ?thesis using w(2,3,4) False c(4) True by simp
    next
      case cr: False
      have "le asc (?v ! c) (?v ! ((c - 1) div 2))" using assms(1) c False unfolding heap_but_def by blast
      then show ?thesis using w(3) cr \<open>c \<noteq> m\<close> False c(4) by simp
    qed
  qed
  have e2: "le asc (?w ! c) (?w ! ((m - 1) div 2))" if c: "0 < c" "c < n" "(c - 1) div 2 = m" "lo \<le> (m - 1) div 2" for c
  proof -
    have "c \<noteq> m" "c \<noteq> r" "(c - 1) div 2 \<noteq> r" "lo \<le> (c - 1) div 2" using c m(2,4) by auto
    moreover from this have "le asc (?v ! c) (?v ! m)" using assms(1) c unfolding heap_but_def by blast
    ultimately show ?thesis using w m(2) by simp
  qed
  show ?thesis unfolding heap_but_def using e1 e2 by blast
qed

lemma mset_move': "i < length xs \<Longrightarrow> j < length xs \<Longrightarrow> i \<noteq> j \<Longrightarrow> mset (xs[i := xs ! j, j := v]) = mset (xs[i := v])"
  using mset_swap [of j "xs[i := v]" i] by simp

lemma heap_but_done:
  assumes "heap_but asc lo n r v" "\<And>c. 0 < c \<Longrightarrow> (c - 1) div 2 = r \<Longrightarrow> c < n \<Longrightarrow> le asc (v ! c) (v ! r)"
  shows "is_heap asc lo n v"
  using assms unfolding heap_but_def is_heap_def by blast

lemma sift_spec:
  "fin = int n - 1 \<Longrightarrow> n \<le> length buf \<Longrightarrow> r < n \<Longrightarrow> heap_but asc lo n r (buf[r := root]) \<Longrightarrow>
   \<exists>buf' r'. sift asc root fin buf r = Inr (buf', r') \<and> r' < n \<and> length buf' = length buf
     \<and> mset (buf'[r' := root]) = mset (buf[r := root]) \<and> is_heap asc lo n (buf'[r' := root])
     \<and> drop n buf' = drop n buf"
proof (induction asc root fin buf r rule: sift.induct)
  case (1 asc root fin buf r)
  show ?case
  proof (cases "2 * r + 1 < n")
    case False
    then have "\<not> (0 < c \<and> (c - 1) div 2 = r \<and> c < n)" for c using children [of c r] by auto
    then have "is_heap asc lo n (buf[r := root])" using heap_but_done [OF 1(5)] by blast
    then show ?thesis using False 1(2-4) by (subst sift.simps) auto
  next
    case True
    obtain m where m: "larger_child asc (int n - 1) buf (2 * r + 1) = Inr m" "0 < m" "(m - 1) div 2 = r" "m < n" "r < m"
      and max: "\<And>c. 0 < c \<Longrightarrow> (c - 1) div 2 = r \<Longrightarrow> c < n \<Longrightarrow> le asc (buf ! c) (buf ! m)"
      by (rule larger_child_max [OF True 1(3), of asc]) blast
    have len: "r < length buf" "m < length buf" using 1(3,4) m by auto
    have s: "sift asc root fin buf r = (if le asc (buf ! m) root then Inr (buf, r) else sift asc root fin (buf[r := buf ! m]) m)"
      using True m 1(2) len by (subst sift.simps) auto
    show ?thesis
    proof (cases "le asc (buf ! m) root")
      case le: True
      have "is_heap asc lo n (buf[r := root])"
      proof (rule heap_but_done [OF 1(5)])
        fix c assume c: "0 < c" "(c - 1) div 2 = r" "c < n"
        then have "c \<noteq> r" by auto
        then show "le asc (buf[r := root] ! c) (buf[r := root] ! r)" using max [OF c] le len by (auto intro: le_trans)
      qed
      then show ?thesis using s le 1(4) by simp
    next
      case False
      have b: "heap_but asc lo n m (buf[r := buf ! m, m := root])"
        by (rule heap_but_step [OF 1(5,4,3) m(2-5) max False])
      have "mset (buf[r := buf ! m, m := root]) = mset (buf[r := root])" using len m(5) by (intro mset_move') auto
      moreover have "\<exists>buf' r'. sift asc root fin (buf[r := buf ! m]) m = Inr (buf', r') \<and> r' < n \<and> length buf' = length (buf[r := buf ! m])
        \<and> mset (buf'[r' := root]) = mset (buf[r := buf ! m, m := root]) \<and> is_heap asc lo n (buf'[r' := root])
        \<and> drop n buf' = drop n (buf[r := buf ! m])"
        by (rule 1(1) [of m "buf ! m" "buf[r := buf ! m]"]) (use True m len False b 1(2,3) in auto)
      ultimately show ?thesis using s False 1(4) by auto
    qed
  qed
qed

lemma create_heap_spec:
  assumes "n \<le> length buf" "r < n" "heap_but asc lo n r buf"
  obtains buf' where "create_heap asc buf r (int n - 1) = Inr buf'" "length buf' = length buf" "mset buf' = mset buf"
    "is_heap asc lo n buf'" "drop n buf' = drop n buf"
proof -
  have r: "r < length buf" using assms by simp
  obtain buf1 r' where s: "sift asc (buf ! r) (int n - 1) buf r = Inr (buf1, r')" "r' < n" "length buf1 = length buf"
    "mset (buf1[r' := buf ! r]) = mset (buf[r := buf ! r])" "is_heap asc lo n (buf1[r' := buf ! r])" "drop n buf1 = drop n buf"
    using sift_spec [of "int n - 1" n buf r asc lo "buf ! r"] assms by auto
  show ?thesis
    by (rule that [of "buf1[r' := buf ! r]"]) (use s r assms in \<open>auto simp: create_heap_def\<close>)
qed

section \<open>Heap sort sorts\<close>

lemma heap_build_spec:
  assumes "n \<le> length buf" "i < n" "is_heap asc (Suc i) n buf"
  shows "\<exists>buf'. heap_build asc n i buf = Inr buf' \<and> length buf' = length buf \<and> mset buf' = mset buf \<and> is_heap asc 0 n buf'"
  using assms
proof (induction i arbitrary: buf)
  case 0
  then have "heap_but asc 0 n 0 buf" by (auto simp: heap_but_def is_heap_def Suc_le_eq)
  then show ?case using create_heap_spec [of n buf 0 asc 0] 0 by (metis heap_build.simps(1))
next
  case (Suc i)
  have "heap_but asc (Suc i) n (Suc i) buf" using Suc.prems(3) by (auto simp: heap_but_def is_heap_def)
  then obtain b where b: "create_heap asc buf (Suc i) (int n - 1) = Inr b" "length b = length buf" "mset b = mset buf"
    "is_heap asc (Suc i) n b"
    using create_heap_spec [of n buf "Suc i" asc "Suc i"] Suc.prems by metis
  then show ?case using Suc.IH [of b] Suc.prems by auto
qed

lemma heap_root: "is_heap asc 0 n v \<Longrightarrow> j < n \<Longrightarrow> le asc (v ! j) (v ! 0)"
proof (induction j rule: less_induct)
  case (less j)
  show ?case
  proof (cases "j = 0")
    case False
    then have "le asc (v ! j) (v ! ((j - 1) div 2))" using less.prems by (simp add: is_heap_def)
    moreover have "(j - 1) div 2 < j" using False by auto
    ultimately show ?thesis using less by (meson le_trans less_trans)
  qed simp
qed

text \<open>From \<open>n\<close> on everything is in its final place.\<close>

definition settled :: "bool \<Rightarrow> nat \<Rightarrow> 'a::linorder list \<Rightarrow> bool" where
  "settled asc n v \<longleftrightarrow> (\<forall>i j. i < j \<and> n \<le> j \<and> j < length v \<longrightarrow> le asc (v ! i) (v ! j))"

lemma settled_alt: "settled asc n v \<longleftrightarrow> ordered asc (drop n v) \<and> (\<forall>x \<in> set (take n v). \<forall>y \<in> set (drop n v). le asc x y)"
  if "n \<le> length v"
proof -
  have v: "v = take n v @ drop n v" by simp
  have "settled asc n (a @ b)" if "length a = n" "ordered asc b" "\<forall>x \<in> set a. \<forall>y \<in> set b. le asc x y" for a b
    using that unfolding settled_def sorted_wrt_iff_nth_less
    by (auto simp: nth_append)
  moreover have "ordered asc b \<and> (\<forall>x \<in> set a. \<forall>y \<in> set b. le asc x y)" if s: "settled asc n (a @ b)" "length a = n" for a b
  proof
    show "ordered asc b" unfolding sorted_wrt_iff_nth_less
    proof (intro allI impI)
      fix i j assume "i < j" "j < length b"
      then show "le asc (b ! i) (b ! j)" using s(1) [unfolded settled_def, rule_format, of "n + i" "n + j"] s(2) by (simp add: nth_append)
    qed
    show "\<forall>x \<in> set a. \<forall>y \<in> set b. le asc x y"
    proof (intro ballI)
      fix x y assume "x \<in> set a" "y \<in> set b"
      then obtain i j where "i < length a" "a ! i = x" "j < length b" "b ! j = y" by (auto simp: in_set_conv_nth)
      then show "le asc x y" using s(1) [unfolded settled_def, rule_format, of i "n + j"] s(2) by (simp add: nth_append)
    qed
  qed
  ultimately show ?thesis using v that by (metis length_take min.absorb2)
qed

lemma same_take_mset:
  assumes "mset v = mset w" "drop n v = drop n w"
  shows "mset (take n v) = mset (take n w)"
  using assms by (metis add_right_cancel append_take_drop_id mset_append)

lemma settled_cong:
  assumes "mset v = mset w" "drop n v = drop n w" "n \<le> length v" "settled asc n v"
  shows "settled asc n w"
proof -
  have "n \<le> length w" using assms(1,3) by (metis size_mset)
  then show ?thesis
    using assms settled_alt [of n v asc] settled_alt [of n w asc] mset_eq_setD [OF same_take_mset [OF assms(1,2)]] by simp
qed

text \<open>The root goes behind the heap.\<close>

lemma settled_swap:
  assumes "is_heap asc 0 (Suc n) v" "settled asc (Suc n) v" "n < length v"
  shows "settled asc n (v[n := v ! 0, 0 := v ! n])"
proof -
  let ?w = "v[n := v ! 0, 0 := v ! n]"
  have top: "le asc (v ! i) (v ! 0)" if "i \<le> n" for i using heap_root [OF assms(1)] that by simp
  have w0: "?w ! i = (if i = 0 then v ! n else if i = n then v ! 0 else v ! i)" if "i < length v" for i
    using that assms(3) by (auto simp: nth_list_update)
  have "le asc (?w ! i) (?w ! j)" if ij: "i < j" "n \<le> j" "j < length v" for i j
  proof -
    have s: "le asc (v ! k) (v ! j)" if "k < j" "n < j" for k
      using assms(2) that ij unfolding settled_def by simp
    show ?thesis
    proof (cases "j = n")
      case True
      then show ?thesis using ij top [of i] top [of n] w0 [of i] w0 [of n] by auto
    next
      case False
      then show ?thesis using ij s [of i] s [of 0] s [of n] w0 [of i] w0 [of j] by auto
    qed
  qed
  then show ?thesis by (simp add: settled_def)
qed

lemma heap_extract_sorts:
  "is_heap asc 0 (Suc i) v \<Longrightarrow> settled asc (Suc i) v \<Longrightarrow> i < length v \<Longrightarrow>
   \<exists>ys. heap_extract asc i v = Inr ys \<and> mset ys = mset v \<and> ordered asc ys"
proof (induction i arbitrary: v)
  case 0
  then show ?case unfolding sorted_wrt_iff_nth_less settled_def by (simp add: Suc_le_eq)
next
  case (Suc i)
  let ?w = "v[Suc i := v ! 0, 0 := v ! Suc i]"
  have l: "Suc i \<le> length ?w" "0 < Suc i" using Suc.prems(3) by simp_all
  have "heap_but asc 0 (Suc i) 0 ?w"
    using Suc.prems(1) by (auto simp: heap_but_def is_heap_def nth_list_update)
  then obtain w where w: "create_heap asc ?w 0 (int (Suc i) - 1) = Inr w" "length w = length ?w" "mset w = mset ?w"
    "is_heap asc 0 (Suc i) w" "drop (Suc i) w = drop (Suc i) ?w"
    using create_heap_spec [OF l] by metis
  have "settled asc (Suc i) w"
    by (rule settled_cong [OF w(3,5) [symmetric] _ settled_swap [OF Suc.prems]]) (use l in simp)
  then obtain ys where "heap_extract asc i w = Inr ys" "mset ys = mset w" "ordered asc ys"
    using Suc.IH [of w] w Suc.prems(3) by auto
  moreover have "mset ?w = mset v" using mset_swap [of 0 v "Suc i"] Suc.prems(3) by (cases "v = []") auto
  moreover have "heap_extract asc (Suc i) v = bindR (create_heap asc ?w 0 (int i)) (heap_extract asc i)"
    using Suc.prems(3) by (cases "v = []") simp_all
  ultimately show ?case using w by auto
qed

lemma heap_sorts:
  assumes "xs \<noteq> []"
  shows "\<exists>ys. heap xs (length xs) asc = Inr ys \<and> mset ys = mset xs \<and> ordered asc ys"
proof -
  let ?n = "length xs"
  have n: "0 < ?n" using assms by simp
  have "is_heap asc (Suc (?n div 2)) ?n xs" by (auto simp: is_heap_def)
  then obtain v where v: "heap_build asc ?n (?n div 2) xs = Inr v" "length v = ?n" "mset v = mset xs" "is_heap asc 0 ?n v"
    using heap_build_spec [of ?n xs "?n div 2" asc] n by auto
  have "settled asc ?n v" by (auto simp: settled_def v)
  then obtain ys where "heap_extract asc (?n - 1) v = Inr ys" "mset ys = mset v" "ordered asc ys"
    using heap_extract_sorts [of asc "?n - 1" v] v n by auto
  then show ?thesis using v by (simp add: heap_def)
qed

interpretation heap: sort_routine heap "\<lambda>xs. xs \<noteq> []"
  by unfold_locales (auto simp: heap_sorts)

end
