(* ===== verification/DsMerge.thy ===== *)
theory DsMerge
  imports DsArray
begin

text \<open>
  Merge sort of \<^verbatim>\<open>sorts.cpp\<close>. The helper array \<^verbatim>\<open>tmp\<close> is an array like the buffer; its first content, memory
  from \<^verbatim>\<open>new T[n]\<close>, is arbitrary and given by a function \<open>junk\<close>. Indices are natural numbers: the code's
  \<^verbatim>\<open>begin + end\<close> stays in an \<^verbatim>\<open>int\<close> for buffers of at most 2^30 elements.
\<close>

section \<open>Model\<close>

text \<open>The three loops that fill \<open>tmp\<close>.\<close>

function merge_fill :: "bool \<Rightarrow> 'a::linorder list \<Rightarrow> nat \<Rightarrow> nat \<Rightarrow> nat \<Rightarrow> nat \<Rightarrow> 'a list \<Rightarrow> nat \<Rightarrow> (nat \<times> nat \<times> 'a list \<times> nat) res" where
  "merge_fill asc buf left mid right fin tmp t =
     (if left \<le> mid \<and> right \<le> fin
      then bindR (rd buf left) (\<lambda>x. bindR (rd buf right) (\<lambda>y.
        if gt asc y x then bindR (wr tmp t x) (\<lambda>tmp1. merge_fill asc buf (left + 1) mid right fin tmp1 (t + 1))
        else bindR (wr tmp t y) (\<lambda>tmp1. merge_fill asc buf left mid (right + 1) fin tmp1 (t + 1))))
      else Inr (left, right, tmp, t))"
  by pat_completeness auto
termination
  by (relation "measure (\<lambda>(asc, buf, left, mid, right, fin, tmp, t). (mid + 1 - left) + (fin + 1 - right))") auto

declare merge_fill.simps [simp del]

function copy_run :: "'a list \<Rightarrow> nat \<Rightarrow> nat \<Rightarrow> 'a list \<Rightarrow> nat \<Rightarrow> ('a list \<times> nat) res" where
  "copy_run src i stop dst t =
     (if i \<le> stop then bindR (rd src i) (\<lambda>x. bindR (wr dst t x) (\<lambda>dst1. copy_run src (i + 1) stop dst1 (t + 1)))
      else Inr (dst, t))"
  by pat_completeness auto
termination
  by (relation "measure (\<lambda>(src, i, stop, dst, t). stop + 1 - i)") auto

declare copy_run.simps [simp del]

text \<open>The last loop copies back: \<open>copy_back tmp i buf b fin\<close> is \<^verbatim>\<open>while( begin <= end ) buffer[begin++] = tmp[tmp_index++]\<close>.\<close>

function copy_back :: "'a list \<Rightarrow> nat \<Rightarrow> 'a list \<Rightarrow> nat \<Rightarrow> nat \<Rightarrow> 'a list res" where
  "copy_back tmp i buf b fin =
     (if b \<le> fin then bindR (rd tmp i) (\<lambda>x. bindR (wr buf b x) (\<lambda>buf1. copy_back tmp (i + 1) buf1 (b + 1) fin))
      else Inr buf)"
  by pat_completeness auto
termination
  by (relation "measure (\<lambda>(tmp, i, buf, b, fin). fin + 1 - b)") auto

declare copy_back.simps [simp del]

definition merge_array :: "bool \<Rightarrow> 'a::linorder list \<Rightarrow> nat \<Rightarrow> nat \<Rightarrow> nat \<Rightarrow> 'a list \<Rightarrow> ('a list \<times> 'a list) res" where
  "merge_array asc buf b mid fin tmp =
     bindR (merge_fill asc buf b mid (mid + 1) fin tmp 0) (\<lambda>(left, right, tmp1, t1).
     bindR (copy_run buf left mid tmp1 t1) (\<lambda>(tmp2, t2).
     bindR (copy_run buf right fin tmp2 t2) (\<lambda>(tmp3, t3).
     bindR (copy_back tmp3 0 buf b fin) (\<lambda>buf1. Inr (buf1, tmp3)))))"

function merge_sort :: "bool \<Rightarrow> 'a::linorder list \<Rightarrow> nat \<Rightarrow> nat \<Rightarrow> 'a list \<Rightarrow> ('a list \<times> 'a list) res" where
  "merge_sort asc buf b fin tmp =
     (if b < fin
      then let mid = (b + fin) div 2
           in bindR (merge_sort asc buf b mid tmp) (\<lambda>(buf1, tmp1).
              bindR (merge_sort asc buf1 (mid + 1) fin tmp1) (\<lambda>(buf2, tmp2).
              merge_array asc buf2 b mid fin tmp2))
      else Inr (buf, tmp))"
  by pat_completeness auto
termination
  by (relation "measure (\<lambda>(asc, buf, b, fin, tmp). fin - b)") auto

declare merge_sort.simps [simp del]

definition merge :: "(nat \<Rightarrow> 'a) \<Rightarrow> 'a::linorder list \<Rightarrow> nat \<Rightarrow> bool \<Rightarrow> 'a list res" where
  "merge junk buf n asc =
     (if n = 0 then Inr buf
      else bindR (merge_sort asc buf 0 (n - 1) (map junk [0..<n])) (\<lambda>(buf1, tmp). Inr buf1))"

section \<open>Merging\<close>

fun merged :: "bool \<Rightarrow> 'a::linorder list \<Rightarrow> 'a list \<Rightarrow> 'a list" where
  "merged asc [] ys = ys"
| "merged asc xs [] = xs"
| "merged asc (x # xs) (y # ys) = (if gt asc y x then x # merged asc xs (y # ys) else y # merged asc (x # xs) ys)"

lemma merged_mset [simp]: "mset (merged asc xs ys) = mset xs + mset ys"
  by (induction asc xs ys rule: merged.induct) auto

lemma merged_set: "set (merged asc xs ys) = set xs \<union> set ys"
  by (induction asc xs ys rule: merged.induct) auto

lemma merged_length: "length (merged asc xs ys) = length xs + length ys"
  by (induction asc xs ys rule: merged.induct) auto

lemma merged_ordered: "ordered asc xs \<Longrightarrow> ordered asc ys \<Longrightarrow> ordered asc (merged asc xs ys)"
  by (induction asc xs ys rule: merged.induct) (auto simp: merged_set intro: le_trans dest: le_total)

lemma wr_store: "wr buf i x = store buf i [x]"
  by (auto simp: wr_def store_def upd_conv_take_nth_drop)

lemma store_Cons: "bindR (wr buf i x) (\<lambda>buf1. store buf1 (i + 1) xs) = store buf i (x # xs)"
proof (cases "i < length buf")
  case True
  then have "store buf i [x] = Inr (buf[i := x])" using wr_store [of buf i x] by simp
  from store_store [OF this, of xs] show ?thesis using True by simp
qed (simp add: wr_def store_def)

text \<open>A part of a buffer, from \<open>i\<close> to \<open>j\<close>.\<close>

definition part :: "'a list \<Rightarrow> nat \<Rightarrow> nat \<Rightarrow> 'a list" where
  "part buf i j = take (j + 1 - i) (drop i buf)"

lemma part_Cons: "i \<le> j \<Longrightarrow> i < length buf \<Longrightarrow> part buf i j = buf ! i # part buf (i + 1) j"
  by (simp add: part_def Cons_nth_drop_Suc [symmetric] Suc_diff_le)

lemma part_empty: "j < i \<Longrightarrow> part buf i j = []"
  by (simp add: part_def)

lemma part_length: "j < length buf \<Longrightarrow> length (part buf i j) = j + 1 - i"
  by (auto simp: part_def)

lemma wr_length: "wr buf i x = Inr buf1 \<Longrightarrow> length buf1 = length buf"
  by (auto simp: wr_def split: if_splits)

lemma copy_run_store:
  "stop < length src \<or> stop < i \<Longrightarrow> t + length (part src i stop) \<le> length dst \<Longrightarrow>
   copy_run src i stop dst t = bindR (store dst t (part src i stop)) (\<lambda>dst1. Inr (dst1, t + length (part src i stop)))"
proof (induction src i stop dst t rule: copy_run.induct)
  case (1 src i stop dst t)
  show ?case
  proof (cases "i \<le> stop")
    case True
    then have l: "i < length src" using 1(2) by auto
    let ?r = "part src (i + 1) stop"
    have p: "part src i stop = src ! i # ?r" using True l by (rule part_Cons)
    have "copy_run src i stop dst t = bindR (wr dst t (src ! i)) (\<lambda>dst1. copy_run src (i + 1) stop dst1 (t + 1))"
      using True l by (subst copy_run.simps) simp
    also have "\<dots> = bindR (wr dst t (src ! i)) (\<lambda>dst1. bindR (store dst1 (t + 1) ?r) (\<lambda>dst2. Inr (dst2, t + 1 + length ?r)))"
      using 1(1) [OF True] 1(2,3) True p by (cases "wr dst t (src ! i)") (auto dest: wr_length)
    also have "\<dots> = bindR (store dst t (src ! i # ?r)) (\<lambda>dst2. Inr (dst2, t + 1 + length ?r))"
      by (simp only: bindR_assoc [symmetric] store_Cons)
    finally show ?thesis by (simp add: p)
  next
    case False
    then show ?thesis using 1(3) by (subst copy_run.simps) (simp add: part_empty store_def)
  qed
qed

lemma copy_back_store:
  "fin < length buf \<or> fin < b \<Longrightarrow> b \<le> length buf \<Longrightarrow> i + (fin + 1 - b) \<le> length tmp \<Longrightarrow>
   copy_back tmp i buf b fin = store buf b (take (fin + 1 - b) (drop i tmp))"
proof (induction tmp i buf b fin rule: copy_back.induct)
  case (1 tmp i buf b fin)
  show ?case
  proof (cases "b \<le> fin")
    case True
    then have l: "i < length tmp" "b < length buf" using 1(2,4) by auto
    let ?r = "take (fin + 1 - (b + 1)) (drop (i + 1) tmp)"
    have p: "take (fin + 1 - b) (drop i tmp) = tmp ! i # ?r"
      using True l by (simp add: Cons_nth_drop_Suc [symmetric] Suc_diff_le)
    have "copy_back tmp i buf b fin = bindR (wr buf b (tmp ! i)) (\<lambda>buf1. copy_back tmp (i + 1) buf1 (b + 1) fin)"
      using True l by (subst copy_back.simps) simp
    also have "\<dots> = bindR (wr buf b (tmp ! i)) (\<lambda>buf1. store buf1 (b + 1) ?r)"
      using 1(1) [OF True] 1(2-4) True l by auto
    also have "\<dots> = store buf b (tmp ! i # ?r)" by (rule store_Cons)
    finally show ?thesis by (simp only: p)
  next
    case False
    then show ?thesis using 1(3) by (subst copy_back.simps) (simp add: store_def)
  qed
qed

lemma fill_store:
  "mid < length buf \<or> mid < left \<Longrightarrow> fin < length buf \<or> fin < right \<Longrightarrow>
   t + length (part buf left mid) + length (part buf right fin) \<le> length tmp \<Longrightarrow>
   bindR (merge_fill asc buf left mid right fin tmp t) (\<lambda>(l, r, tmp1, t1).
     bindR (copy_run buf l mid tmp1 t1) (\<lambda>(tmp2, t2). bindR (copy_run buf r fin tmp2 t2) (\<lambda>(tmp3, t3). Inr tmp3)))
   = store tmp t (merged asc (part buf left mid) (part buf right fin))"
proof (induction asc buf left mid right fin tmp t rule: merge_fill.induct)
  case (1 asc buf left mid right fin tmp t)
  define rest where "rest = (\<lambda>(l, r, tmp1, t1). bindR (copy_run buf l mid tmp1 t1) (\<lambda>(tmp2, t2).
    bindR (copy_run buf r fin tmp2 t2) (\<lambda>(tmp3, t3 :: nat). Inr tmp3)))"
  note IH = 1(1,2) [folded rest_def]
  let ?L = "part buf left mid" and ?R = "part buf right fin"
  have "bindR (merge_fill asc buf left mid right fin tmp t) rest = store tmp t (merged asc ?L ?R)"
  proof (cases "left \<le> mid \<and> right \<le> fin")
    case True
    let ?x = "buf ! left" and ?y = "buf ! right"
    have l: "left < length buf" "right < length buf" using True 1(3,4) by auto
    have L: "?L = ?x # part buf (left + 1) mid" using True l by (intro part_Cons) auto
    have R: "?R = ?y # part buf (right + 1) fin" using True l by (intro part_Cons) auto
    have t: "t < length tmp" using 1(5) L by simp
    show ?thesis
    proof (cases "gt asc ?y ?x")
      case g: True
      have "bindR (merge_fill asc buf left mid right fin tmp t) rest
        = bindR (wr tmp t ?x) (\<lambda>tmp1. bindR (merge_fill asc buf (left + 1) mid right fin tmp1 (t + 1)) rest)"
        using True l g by (subst merge_fill.simps) (simp add: bindR_assoc)
      also have "\<dots> = bindR (wr tmp t ?x) (\<lambda>tmp1. store tmp1 (t + 1) (merged asc (part buf (left + 1) mid) ?R))"
        using IH(1) [OF True g, of "tmp[t := ?x]"] 1(3-5) L t True by simp
      also have "\<dots> = store tmp t (?x # merged asc (part buf (left + 1) mid) ?R)" by (rule store_Cons)
      finally show ?thesis using g by (simp add: L R)
    next
      case g: False
      have "bindR (merge_fill asc buf left mid right fin tmp t) rest
        = bindR (wr tmp t ?y) (\<lambda>tmp1. bindR (merge_fill asc buf left mid (right + 1) fin tmp1 (t + 1)) rest)"
        using True l g by (subst merge_fill.simps) (simp add: bindR_assoc)
      also have "\<dots> = bindR (wr tmp t ?y) (\<lambda>tmp1. store tmp1 (t + 1) (merged asc ?L (part buf (right + 1) fin)))"
        using IH(2) [OF True g, of "tmp[t := ?y]"] 1(3-5) R t True by simp
      also have "\<dots> = store tmp t (?y # merged asc ?L (part buf (right + 1) fin))" by (rule store_Cons)
      finally show ?thesis using g by (simp add: L R)
    qed
  next
    case False
    then have e: "?L = [] \<or> ?R = []" by (auto simp: part_empty not_le)
    obtain tmp2 where s: "store tmp t ?L = Inr tmp2" using 1(5) store_Inr_iff [of tmp t ?L] by auto
    have "bindR (merge_fill asc buf left mid right fin tmp t) rest = rest (left, right, tmp, t)"
      using False by (subst merge_fill.simps) auto
    also have "\<dots> = bindR (store tmp2 (t + length ?L) ?R) Inr"
      using copy_run_store [of mid buf left t tmp] copy_run_store [of fin buf right "t + length ?L" tmp2] 1(3-5) s
        store_length [OF s]
      by (cases "store tmp2 (t + length ?L) ?R") (simp_all add: rest_def)
    also have "\<dots> = store tmp t (?L @ ?R)"
      using store_store [OF s, of ?R] by (cases "store tmp t (?L @ ?R)") simp_all
    also have "?L @ ?R = merged asc ?L ?R" using e by (cases ?L) auto
    finally show ?thesis .
  qed
  then show ?case by (simp only: rest_def)
qed

lemma merge_array_store:
  assumes "b \<le> mid" "mid < fin" "fin < length buf" "length buf \<le> length tmp"
  obtains tmp' where "merge_array asc buf b mid fin tmp =
      bindR (store buf b (merged asc (part buf b mid) (part buf (mid + 1) fin))) (\<lambda>buf1. Inr (buf1, tmp'))"
    "length tmp' = length tmp"
proof -
  let ?M = "merged asc (part buf b mid) (part buf (mid + 1) fin)"
  have m: "length ?M = fin + 1 - b" using assms by (simp add: merged_length part_length)
  then obtain tmp3 where s: "store tmp 0 ?M = Inr tmp3" using assms store_Inr_iff [of tmp 0 ?M] by auto
  have l3: "length tmp3 = length tmp" by (rule store_length [OF s])
  have c: "copy_back tmp3 0 buf b fin = store buf b ?M"
    using copy_back_store [of fin buf b 0 tmp3] store_content [OF s] assms m l3 by simp
  have f: "bindR (merge_fill asc buf b mid (mid + 1) fin tmp 0) (\<lambda>(l, r, tmp1, t1).
     bindR (copy_run buf l mid tmp1 t1) (\<lambda>(tmp2, t2). bindR (copy_run buf r fin tmp2 t2) (\<lambda>(tmp3, t3). Inr tmp3))) = Inr tmp3"
    using fill_store [of mid buf b fin "mid + 1" 0 tmp asc] assms s by (simp add: part_length)
  have "merge_array asc buf b mid fin tmp = bindR (bindR (merge_fill asc buf b mid (mid + 1) fin tmp 0) (\<lambda>(l, r, tmp1, t1).
     bindR (copy_run buf l mid tmp1 t1) (\<lambda>(tmp2, t2). bindR (copy_run buf r fin tmp2 t2) (\<lambda>(tmp3, t3). Inr tmp3))))
     (\<lambda>tmp3. bindR (copy_back tmp3 0 buf b fin) (\<lambda>buf1. Inr (buf1, tmp3)))"
    by (simp add: merge_array_def bindR_assoc case_prod_unfold)
  then show ?thesis unfolding f using that [of tmp3] c l3 by simp
qed

section \<open>Merge sort sorts\<close>

lemma part_append: "b = length ps \<Longrightarrow> j + 1 = length ps + length xs \<Longrightarrow> part (ps @ xs @ qs) b j = xs"
  by (simp add: part_def)

lemma sorted_result_length [simp]: "length (sorted_result asc xs) = length xs"
  by (simp add: sorted_result_def)

lemma sorted_result_merged:
  "merged asc (sorted_result asc xs) (sorted_result asc ys) = sorted_result asc (xs @ ys)"
  by (rule sorted_result_unique) (simp_all add: merged_ordered sorted_result_ordered)

lemma merge_sort_spec:
  "length xs = Suc k \<Longrightarrow> length (ps @ xs @ qs) \<le> length tmp \<Longrightarrow>
   \<exists>tmp'. merge_sort asc (ps @ xs @ qs) (length ps) (length ps + k) tmp = Inr (ps @ sorted_result asc xs @ qs, tmp')
     \<and> length tmp' = length tmp"
proof (induction k arbitrary: ps xs qs tmp rule: less_induct)
  case (less k)
  show ?case
  proof (cases "k = 0")
    case True
    then obtain x where "xs = [x]" using less.prems(1) by (cases xs) auto
    then show ?thesis using True by (subst merge_sort.simps) (simp add: sorted_result_def)
  next
    case False
    define h where "h = k div 2"
    define xs1 xs2 where "xs1 = take (Suc h) xs" and "xs2 = drop (Suc h) xs"
    have h: "h < k" "k - Suc h < k" "Suc (k - Suc h) = k - h" using False by (auto simp: h_def)
    have x: "xs = xs1 @ xs2" "length xs1 = Suc h" "length xs2 = Suc (k - Suc h)"
      using less.prems(1) h by (simp_all add: xs1_def xs2_def)
    let ?b = "length ps" and ?s1 = "sorted_result asc xs1" and ?s2 = "sorted_result asc xs2"
    have mid: "(?b + (?b + k)) div 2 = ?b + h" by (simp add: h_def)
    obtain tmp1 where m1: "merge_sort asc (ps @ xs @ qs) ?b (?b + h) tmp = Inr (ps @ ?s1 @ xs2 @ qs, tmp1)" "length tmp1 = length tmp"
      using less.IH [OF h(1) x(2), of ps "xs2 @ qs" tmp] less.prems(2) by (auto simp: x(1))
    obtain tmp2 where m2: "merge_sort asc ((ps @ ?s1) @ xs2 @ qs) (length (ps @ ?s1)) (length (ps @ ?s1) + (k - Suc h)) tmp1
        = Inr ((ps @ ?s1) @ ?s2 @ qs, tmp2)" "length tmp2 = length tmp"
      using less.IH [OF h(2) x(3), of "ps @ ?s1" qs tmp1] less.prems(2) m1(2) by (auto simp: x(1))
    have i: "length (ps @ ?s1) = ?b + h + 1" "?b + h + 1 + (k - Suc h) = ?b + k" using x h by auto
    let ?buf = "ps @ ?s1 @ ?s2 @ qs"
    have p: "part ?buf ?b (?b + h) = ?s1" "part ?buf (?b + h + 1) (?b + k) = ?s2"
      using part_append [of ?b ps "?b + h" ?s1 "?s2 @ qs"] part_append [of "?b + h + 1" "ps @ ?s1" "?b + k" ?s2 qs] x h by auto
    obtain tmp3 where m3: "merge_array asc ?buf ?b (?b + h) (?b + k) tmp2 =
        bindR (store ?buf ?b (sorted_result asc xs)) (\<lambda>buf1. Inr (buf1, tmp3))" "length tmp3 = length tmp2"
      by (rule merge_array_store [of ?b "?b + h" "?b + k" ?buf tmp2 asc, unfolded p sorted_result_merged, folded x(1)])
        (use h x less.prems m2(2) in auto)
    have "store ?buf ?b (sorted_result asc xs) = Inr (ps @ sorted_result asc xs @ qs)"
      using store_append [of "sorted_result asc xs" "?s1 @ ?s2" ps qs] x(1) by simp
    then show ?thesis
      using m1(1) m2(1) m2(2) m3 False unfolding i append_assoc
      by (subst merge_sort.simps) (simp add: Let_def mid)
  qed
qed

lemma merge_eq: "merge junk xs (length xs) asc = Inr (sorted_result asc xs)"
proof (cases "xs = []")
  case True
  then show ?thesis by (simp add: merge_def sorted_result_def)
next
  case False
  then obtain k where k: "length xs = Suc k" by (cases xs) auto
  then show ?thesis using merge_sort_spec [of xs k "[]" "[]" "map junk [0..<length xs]" asc] by (auto simp: merge_def)
qed

interpretation merge: sort_routine "merge junk" "\<lambda>_. True" for junk
  by unfold_locales (simp_all add: merge_eq sorted_result_ordered)

end
