(* ===== verification/DsQuick.thy ===== *)
theory DsQuick
  imports DsArray
begin

text \<open>
  Quick sort of \<^verbatim>\<open>sorts.cpp\<close>. Neither the partition loop nor the recursion need end, so both take fuel, and
  running out of fuel is \<open>Diverges\<close>. The partition keeps a free place (at \<^verbatim>\<open>begin\<close>, later at \<^verbatim>\<open>end\<close>) into which it moves
  elements from the other side.
\<close>

section \<open>Model\<close>

function scan_down :: "bool \<Rightarrow> 'a::linorder \<Rightarrow> 'a list \<Rightarrow> nat \<Rightarrow> nat \<Rightarrow> nat res" where
  "scan_down asc key buf b e = bindR (rd buf e) (\<lambda>x. if gt asc x key \<and> b < e then scan_down asc key buf b (e - 1) else Inr e)"
  by pat_completeness auto
termination
  by (relation "measure (\<lambda>(asc, key, buf, b, e). e - b)") auto

function scan_up :: "bool \<Rightarrow> 'a::linorder \<Rightarrow> 'a list \<Rightarrow> nat \<Rightarrow> nat \<Rightarrow> nat res" where
  "scan_up asc key buf b e = bindR (rd buf b) (\<lambda>x. if gt asc key x \<and> b < e then scan_up asc key buf (b + 1) e else Inr b)"
  by pat_completeness auto
termination
  by (relation "measure (\<lambda>(asc, key, buf, b, e). e - b)") auto

declare scan_down.simps [simp del] scan_up.simps [simp del]

fun part_loop :: "nat \<Rightarrow> bool \<Rightarrow> 'a::linorder \<Rightarrow> 'a list \<Rightarrow> nat \<Rightarrow> nat \<Rightarrow> ('a list \<times> nat) res" where
  "part_loop 0 asc key buf b e = (if b < e then Inl Diverges else Inr (buf, b))"
| "part_loop (Suc f) asc key buf b e =
     (if b < e
      then bindR (scan_down asc key buf b e) (\<lambda>e1.
           bindR (rd buf e1) (\<lambda>x. bindR (wr buf b x) (\<lambda>buf1.
           bindR (scan_up asc key buf1 b e1) (\<lambda>b1.
           bindR (rd buf1 b1) (\<lambda>y. bindR (wr buf1 e1 y) (\<lambda>buf2.
           part_loop f asc key buf2 b1 e1))))))
      else Inr (buf, b))"

text \<open>\<open>None\<close> stands for the return value -1.\<close>

definition obtain_middle_key_pos :: "nat \<Rightarrow> bool \<Rightarrow> 'a::linorder list \<Rightarrow> nat \<Rightarrow> nat \<Rightarrow> ('a list \<times> nat option) res" where
  "obtain_middle_key_pos f asc buf b e =
     (if e \<le> b then Inr (buf, None)
      else bindR (rd buf b) (\<lambda>key. bindR (part_loop f asc key buf b e) (\<lambda>(buf1, p).
           bindR (wr buf1 p key) (\<lambda>buf2. Inr (buf2, Some p)))))"

fun quick :: "nat \<Rightarrow> bool \<Rightarrow> 'a::linorder list \<Rightarrow> nat \<Rightarrow> nat \<Rightarrow> 'a list res" where
  "quick 0 asc buf b e = (if b < e then Inl Diverges else Inr buf)"
| "quick (Suc f) asc buf b e =
     (if b < e
      then bindR (obtain_middle_key_pos f asc buf b e) (\<lambda>(buf1, pos).
           case pos of None \<Rightarrow> Inr buf1
           | Some middle_pos \<Rightarrow> bindR (quick f asc buf1 b middle_pos) (\<lambda>buf2. quick f asc buf2 (middle_pos + 1) e))
      else Inr buf)"

section \<open>The partition loop\<close>

declare gt_iff [simp del]

abbreviation below :: "bool \<Rightarrow> 'a::linorder \<Rightarrow> 'a \<Rightarrow> bool" where
  "below asc key x \<equiv> gt asc key x"

lemma scan_down_at:
  "scan_down asc key (as @ h # ms @ zs) (length as) (length as + length ms)
     = Inr (length as + length (dropWhile (\<lambda>x. gt asc x key) (rev ms)))"
proof (induction ms arbitrary: zs rule: rev_induct)
  case Nil
  then show ?case by (subst scan_down.simps) (simp add: nth_append)
next
  case (snoc x ms)
  have "(as @ h # (ms @ [x]) @ zs) ! (length as + length (ms @ [x])) = x" by (simp add: nth_append)
  then show ?case using snoc [of "x # zs"] by (subst scan_down.simps) simp
qed

lemma scan_up_at:
  "scan_up asc key (as @ ms @ w # zs) (length as) (length as + length ms)
     = Inr (length as + length (takeWhile (below asc key) ms))"
proof (induction ms arbitrary: as)
  case Nil
  then show ?case by (subst scan_up.simps) (simp add: nth_append)
next
  case (Cons x ms)
  have "(as @ (x # ms) @ w # zs) ! length as = x" by (simp add: nth_append)
  then show ?case using Cons [of "as @ [x]"] by (subst scan_up.simps) simp
qed

text \<open>One round, on the elements \<open>ms\<close> behind the free place: those at the end that are larger stay; when
  none is left the loop is over. Otherwise the last one, \<open>x\<close>, moves to the free place, and the first
  that is not smaller, \<open>y\<close>, to where \<open>x\<close> was; its place is free now.\<close>

lemma part_loop_over: "part_loop f asc key buf b b = Inr (buf, b)"
  by (cases f) simp_all

lemma part_loop_all_above:
  assumes "\<forall>x \<in> set ms. gt asc x key" "ms \<noteq> []"
  shows "part_loop (Suc f) asc key (as @ h # ms @ zs) (length as) (length as + length ms) = Inr (as @ h # ms @ zs, length as)"
proof -
  have "dropWhile (\<lambda>x. gt asc x key) (rev ms) = []" using assms(1) by (simp)
  then have "scan_down asc key (as @ h # ms @ zs) (length as) (length as + length ms) = Inr (length as)"
    by (simp add: scan_down_at)
  moreover have "scan_up asc key (as @ h # ms @ zs) (length as) (length as) = Inr (length as)"
    using scan_up_at [of asc key as "[]" h "ms @ zs"] by simp
  ultimately show ?thesis using assms(2) by (simp add: nth_append list_update_append part_loop_over)
qed

lemma part_loop_round:
  assumes "ms = ns @ x # ws" "\<forall>w \<in> set ws. gt asc w key" "\<not> gt asc x key"
  shows "part_loop (Suc f) asc key (as @ h # ms @ zs) (length as) (length as + length ms) =
    (case dropWhile (below asc key) (x # ns) of
       [] \<Rightarrow> Inr (as @ x # ns @ x # ws @ zs, length as + length ns + 1)
     | y # r \<Rightarrow> let as' = as @ takeWhile (below asc key) (x # ns)
                in part_loop f asc key (as' @ y # (r @ [y]) @ ws @ zs) (length as') (length as' + length (r @ [y])))"
proof -
  define e where "e = length as + length ns + 1"
  define bs where "bs = takeWhile (below asc key) (x # ns)"
  define cs where "cs = dropWhile (below asc key) (x # ns)"
  have bc: "x # ns = bs @ cs" by (simp add: bs_def cs_def)
  have "dropWhile (\<lambda>x. gt asc x key) (rev ms) = x # rev ns"
    using dropWhile_append2 [of "rev ws" "\<lambda>x. gt asc x key" "x # rev ns"] assms by simp
  then have d: "scan_down asc key (as @ h # ms @ zs) (length as) (length as + length ms) = Inr e"
    by (simp add: scan_down_at e_def)
  let ?buf1 = "as @ (x # ns) @ x # ws @ zs"
  have e: "e = length as + length (x # ns)" by (simp add: e_def)
  have r1: "(as @ h # ms @ zs) ! e = x" "(as @ h # ms @ zs)[length as := x] = ?buf1"
    by (simp_all add: assms(1) e_def nth_append list_update_append)
  have u: "scan_up asc key ?buf1 (length as) e = Inr (length as + length bs)"
    unfolding e bs_def by (rule scan_up_at)
  have step: "part_loop (Suc f) asc key (as @ h # ms @ zs) (length as) (length as + length ms)
      = part_loop f asc key (?buf1[e := ?buf1 ! (length as + length bs)]) (length as + length bs) e"
  proof -
    have lb: "length bs \<le> Suc (length ns)" using arg_cong [OF bc, of length] by simp
    have b: "length as < length as + length ms" "e < length (as @ h # ms @ zs)" "length as < length (as @ h # ms @ zs)"
      "length as + length bs < length ?buf1" "e < length ?buf1"
      using lb by (simp_all add: assms(1) e_def)
    show ?thesis
      unfolding part_loop.simps d bindR_simps if_P [OF b(1)] rd_simp [OF b(2)] r1 wr_simp [OF b(3)] u rd_simp [OF b(4)] wr_simp [OF b(5)] ..
  qed
  show ?thesis
  proof (cases cs)
    case Nil
    then have "length bs = Suc (length ns)" using bc by (metis append_Nil2 length_Cons)
    then have "?buf1 ! (length as + length bs) = x" "length as + length bs = e" "?buf1[e := x] = ?buf1"
      using e by (simp_all add: nth_append list_update_append)
    then show ?thesis using step Nil cs_def by (simp add: part_loop_over e_def)
  next
    case (Cons y r)
    have b1: "?buf1 = as @ (bs @ y # r) @ x # ws @ zs" using bc Cons by simp
    have "?buf1 ! (length as + length bs) = y" unfolding b1 by (simp add: nth_append)
    moreover have e': "e = length as + length (bs @ y # r)" using e bc Cons by simp
    then have "?buf1[e := y] = (as @ bs) @ y # (r @ [y]) @ ws @ zs" unfolding b1 by (simp add: list_update_append)
    ultimately show ?thesis
      unfolding cs_def [symmetric] bs_def [symmetric] Cons step Let_def list.case by (simp add: e' add.assoc del: part_loop.simps)
  qed
qed

lemma last_not_above:
  assumes "\<not> (\<forall>x \<in> set ms. gt asc x key)"
  obtains ns x ws where "ms = ns @ x # ws" "\<forall>w \<in> set ws. gt asc w key" "\<not> gt asc x key"
  using split_list_last_prop [of ms "\<lambda>x. \<not> gt asc x key"] assms by blast

lemma not_above_cases: "\<not> gt asc x key \<Longrightarrow> x = key \<or> gt asc key x"
  by (auto simp: gt_def split: if_splits)

lemma gt_irrefl [simp]: "\<not> gt asc x x"
  by (simp add: gt_def)

text \<open>Without a second key the loop ends with the smaller elements on one side of the free place and the
  larger ones on the other.\<close>

definition splits :: "bool \<Rightarrow> 'a::linorder \<Rightarrow> 'a list \<Rightarrow> 'a list \<Rightarrow> 'a list \<Rightarrow> bool" where
  "splits asc key ms us vs \<longleftrightarrow>
     mset ms = mset us + mset vs \<and> (\<forall>u \<in> set us. gt asc key u) \<and> (\<forall>v \<in> set vs. gt asc v key)"

lemma part_loop_splits:
  "key \<notin> set ms \<Longrightarrow>
   (part_loop f asc key (as @ h # ms @ zs) (length as) (length as + length ms) = Inl Diverges \<and> f < length ms)
   \<or> (\<exists>us v vs. part_loop f asc key (as @ h # ms @ zs) (length as) (length as + length ms)
        = Inr (as @ us @ v # vs @ zs, length as + length us) \<and> splits asc key ms us vs)"
proof (induction f arbitrary: as h ms zs)
  case 0
  have "splits asc key [] [] []" by (simp add: splits_def)
  then show ?case by (cases "ms = []") force+
next
  case (Suc f)
  show ?case
  proof (cases "\<forall>x \<in> set ms. gt asc x key")
    case True
    have "part_loop (Suc f) asc key (as @ h # ms @ zs) (length as) (length as + length ms) = Inr (as @ [] @ h # ms @ zs, length as + length [])"
      using part_loop_all_above [OF True] part_loop_over [of "Suc f"] by (cases "ms = []") simp_all
    moreover have "splits asc key ms [] ms" using True by (simp add: splits_def)
    ultimately show ?thesis by blast
  next
    case False
    then obtain ns x ws where ms: "ms = ns @ x # ws" "\<forall>w \<in> set ws. gt asc w key" "\<not> gt asc x key" by (rule last_not_above)
    note round = part_loop_round [OF ms, of f as h zs]
    have x: "gt asc key x" using not_above_cases [OF ms(3)] Suc.prems ms(1) by auto
    define bs where "bs = takeWhile (below asc key) (x # ns)"
    have b: "\<forall>u \<in> set bs. gt asc key u" "bs \<noteq> []" using x by (auto simp: bs_def dest: set_takeWhileD)
    have bc: "x # ns = bs @ dropWhile (below asc key) (x # ns)" by (simp add: bs_def)
    show ?thesis
    proof (cases "dropWhile (below asc key) (x # ns)")
      case Nil
      then have "bs = x # ns" using bc by simp
      then have "splits asc key ms (x # ns) ws" using b ms by (simp add: splits_def)
      then show ?thesis using round Nil by (intro disjI2 exI [of _ "x # ns"] exI [of _ x] exI [of _ ws]) simp
    next
      case (Cons y r)
      have xn: "x # ns = bs @ y # r" using bc Cons by simp
      have step: "part_loop (Suc f) asc key (as @ h # ms @ zs) (length as) (length as + length ms)
        = part_loop f asc key ((as @ bs) @ y # (r @ [y]) @ ws @ zs) (length (as @ bs)) (length (as @ bs) + length (r @ [y]))"
        using round Cons by (simp add: Let_def bs_def)
      have "set (bs @ y # r) \<subseteq> set ms" unfolding xn [symmetric] by (auto simp: ms(1))
      then have "key \<notin> set (r @ [y])" using Suc.prems by auto
      from Suc.IH [OF this, of "as @ bs" y "ws @ zs"] show ?thesis
      proof
        assume d: "part_loop f asc key ((as @ bs) @ y # (r @ [y]) @ ws @ zs) (length (as @ bs)) (length (as @ bs) + length (r @ [y])) = Inl Diverges
          \<and> f < length (r @ [y])"
        have "Suc f < length ms" using d arg_cong [OF xn, of length] b(2) by (cases bs) (auto simp: ms(1))
        then show ?thesis unfolding step using d by blast
      next
        assume "\<exists>us v vs. part_loop f asc key ((as @ bs) @ y # (r @ [y]) @ ws @ zs) (length (as @ bs)) (length (as @ bs) + length (r @ [y]))
            = Inr ((as @ bs) @ us @ v # vs @ ws @ zs, length (as @ bs) + length us) \<and> splits asc key (r @ [y]) us vs"
        then obtain us v vs where p: "part_loop (Suc f) asc key (as @ h # ms @ zs) (length as) (length as + length ms)
            = Inr (as @ (bs @ us) @ v # (vs @ ws) @ zs, length as + length (bs @ us))" and s: "splits asc key (r @ [y]) us vs"
          unfolding step by (auto simp: add.assoc)
        have "mset ms = mset (x # ns) + mset ws" by (simp add: ms(1))
        then have "splits asc key ms (bs @ us) (vs @ ws)"
          using s b(1) ms(2) unfolding xn by (auto simp: splits_def)
        then show ?thesis using p by blast
      qed
    qed
  qed
qed

text \<open>A second key is never left behind: the loop runs for ever.\<close>

lemma part_loop_duplicate:
  "key \<in> set ms \<Longrightarrow> part_loop f asc key (as @ h # ms @ zs) (length as) (length as + length ms) = Inl Diverges"
proof (induction f arbitrary: as h ms zs)
  case 0
  then show ?case by (cases ms) auto
next
  case (Suc f)
  then have "\<not> (\<forall>x \<in> set ms. gt asc x key)" using gt_irrefl by blast
  then obtain ns x ws where ms: "ms = ns @ x # ws" "\<forall>w \<in> set ws. gt asc w key" "\<not> gt asc x key" by (rule last_not_above)
  have k: "key \<in> set (x # ns)" using Suc.prems ms(2) by (auto simp: ms(1))
  then have "\<not> (\<forall>z \<in> set (x # ns). below asc key z)" using gt_irrefl by blast
  then have "dropWhile (below asc key) (x # ns) \<noteq> []" by (simp only: dropWhile_eq_Nil_conv) simp
  then obtain y r where c: "dropWhile (below asc key) (x # ns) = y # r" by (cases "dropWhile (below asc key) (x # ns)") auto
  have "key \<notin> set (takeWhile (below asc key) (x # ns))" by (auto dest!: set_takeWhileD)
  moreover have "set (x # ns) = set (takeWhile (below asc key) (x # ns)) \<union> set (dropWhile (below asc key) (x # ns))"
    by (metis set_append takeWhile_dropWhile_id)
  ultimately have "key \<in> set (r @ [y])" using k c by auto
  then show ?case unfolding part_loop_round [OF ms, of f as h zs] c list.case Let_def by (rule Suc.IH)
qed

section \<open>Quick sort\<close>

lemma middle_key_splits:
  assumes "k = length ms" "0 < k"
  shows "(obtain_middle_key_pos f asc (ps @ (key # ms) @ qs) (length ps) (length ps + k) = Inl Diverges \<and> (key \<in> set ms \<or> f < k))
    \<or> (\<exists>us vs. obtain_middle_key_pos f asc (ps @ (key # ms) @ qs) (length ps) (length ps + k)
          = Inr (ps @ (us @ [key]) @ vs @ qs, Some (length ps + length us)) \<and> key \<notin> set ms \<and> splits asc key ms us vs)"
proof -
  let ?buf = "ps @ key # ms @ qs"
  have o: "obtain_middle_key_pos f asc (ps @ (key # ms) @ qs) (length ps) (length ps + k)
      = bindR (part_loop f asc key ?buf (length ps) (length ps + length ms)) (\<lambda>(buf1, p).
           bindR (wr buf1 p key) (\<lambda>buf2. Inr (buf2, Some p)))"
    using assms by (simp add: obtain_middle_key_pos_def nth_append)
  show ?thesis
  proof (cases "key \<in> set ms")
    case True
    then show ?thesis using o part_loop_duplicate [OF True, of f asc ps key qs] by simp
  next
    case False
    from part_loop_splits [OF False, of f asc ps key qs] show ?thesis
    proof
      assume "part_loop f asc key ?buf (length ps) (length ps + length ms) = Inl Diverges \<and> f < length ms"
      then show ?thesis using o assms(1) by simp
    next
      assume "\<exists>us v vs. part_loop f asc key ?buf (length ps) (length ps + length ms)
          = Inr (ps @ us @ v # vs @ qs, length ps + length us) \<and> splits asc key ms us vs"
      then obtain us v vs where p: "part_loop f asc key ?buf (length ps) (length ps + length ms)
          = Inr (ps @ us @ v # vs @ qs, length ps + length us)" "splits asc key ms us vs" by blast
      have "obtain_middle_key_pos f asc (ps @ (key # ms) @ qs) (length ps) (length ps + k)
          = Inr (ps @ (us @ [key]) @ vs @ qs, Some (length ps + length us))"
        using o p(1) by (simp add: list_update_append)
      then show ?thesis using p(2) False by blast
    qed
  qed
qed

lemma splits_sorted:
  assumes "splits asc key ms us vs"
  shows "sorted_result asc (us @ [key]) @ sorted_result asc vs = sorted_result asc (key # ms)"
proof (rule sorted_result_unique)
  have "set (sorted_result asc xs) = set xs" for xs :: "'a list" by (metis set_mset_mset sorted_result_mset)
  moreover have "le asc x y" if "x \<in> set (us @ [key])" "y \<in> set vs" for x y
  proof (rule le_trans)
    show "le asc x key" "le asc key y" using that assms by (auto simp: splits_def gt_def le_def split: if_splits)
  qed
  ultimately show "ordered asc (sorted_result asc (us @ [key]) @ sorted_result asc vs)"
    by (simp add: sorted_wrt_append sorted_result_ordered)
qed (use assms in \<open>simp add: splits_def\<close>)

lemma splits_distinct:
  assumes "splits asc key ms us vs" "key \<notin> set ms" "distinct (us @ [key])" "distinct vs"
  shows "distinct (key # ms)"
proof -
  have "u \<noteq> v" if "u \<in> set us" "v \<in> set vs" for u v
  proof -
    have "gt asc key u" "gt asc v key" using that assms(1) by (auto simp: splits_def)
    then show ?thesis by (auto simp: gt_def split: if_splits)
  qed
  then have "distinct (us @ vs)" using assms(3,4) by auto
  moreover have "mset ms = mset (us @ vs)" using assms(1) by (simp add: splits_def)
  ultimately show ?thesis using assms(2) by (metis distinct.simps(2) mset_eq_imp_distinct_iff)
qed

lemma quick_small [simp]: "e \<le> b \<Longrightarrow> quick f asc buf b e = Inr buf"
  by (cases f) simp_all

text \<open>Whenever it returns, the range is sorted; it never returns on equal elements and never faults.\<close>

lemma quick_sound:
  "length xs = Suc k \<Longrightarrow>
   quick f asc (ps @ xs @ qs) (length ps) (length ps + k) = Inl Diverges
   \<or> (distinct xs \<and> quick f asc (ps @ xs @ qs) (length ps) (length ps + k) = Inr (ps @ sorted_result asc xs @ qs))"
proof (induction f arbitrary: ps xs qs k)
  case 0
  then show ?case by (cases xs) (auto simp: sorted_result_def)
next
  case (Suc f)
  show ?case
  proof (cases "k = 0")
    case True
    then show ?thesis using Suc.prems by (cases xs) (auto simp: sorted_result_def)
  next
    case False
    obtain key ms where xs: "xs = key # ms" "k = length ms" using Suc.prems by (cases xs) auto
    let ?b = "length ps"
    have q: "quick (Suc f) asc (ps @ xs @ qs) ?b (?b + k) = bindR (obtain_middle_key_pos f asc (ps @ (key # ms) @ qs) ?b (?b + k))
      (\<lambda>(buf1, pos). case pos of None \<Rightarrow> Inr buf1 | Some m \<Rightarrow> bindR (quick f asc buf1 ?b m) (\<lambda>buf2. quick f asc buf2 (m + 1) (?b + k)))"
      unfolding xs quick.simps by (rule if_P) (use False xs in simp)
    have k0: "0 < k" using False by simp
    from middle_key_splits [OF xs(2) k0, of f asc ps key qs] show ?thesis
    proof (elim disjE conjE exE)
      fix us vs
      assume o: "obtain_middle_key_pos f asc (ps @ (key # ms) @ qs) ?b (?b + k) = Inr (ps @ (us @ [key]) @ vs @ qs, Some (?b + length us))"
        and sp: "key \<notin> set ms" "splits asc key ms us vs"
      let ?s = "sorted_result asc (us @ [key])"
      have len: "length ms = length us + length vs" using sp(2) by (metis size_mset size_union splits_def)
      have l: "quick f asc (ps @ (us @ [key]) @ vs @ qs) ?b (?b + length us) = Inl Diverges
        \<or> (distinct (us @ [key]) \<and> quick f asc (ps @ (us @ [key]) @ vs @ qs) ?b (?b + length us) = Inr (ps @ ?s @ vs @ qs))"
        by (rule Suc.IH) simp
      have r: "quick f asc (ps @ ?s @ vs @ qs) (?b + length us + 1) (?b + k) = Inl Diverges
        \<or> (distinct vs \<and> quick f asc (ps @ ?s @ vs @ qs) (?b + length us + 1) (?b + k) = Inr (ps @ ?s @ sorted_result asc vs @ qs))"
      proof (cases vs)
        case Nil
        then show ?thesis using len xs(2) by (simp add: sorted_result_def)
      next
        case (Cons v vs')
        have i: "length (ps @ ?s) = ?b + length us + 1" "?b + length us + 1 + length vs' = ?b + k"
          using len xs(2) Cons by (simp_all add: sorted_result_def)
        have "length vs = Suc (length vs')" using Cons by simp
        then show ?thesis using Suc.IH [of vs "length vs'" "ps @ ?s" qs] unfolding i by simp
      qed
      show ?thesis
        using l r q o splits_distinct [OF sp(2,1)] splits_sorted [OF sp(2)] xs(1) by (auto simp del: append_assoc simp: append_assoc [symmetric])
    qed (use q in simp_all)
  qed
qed

text \<open>How much fuel a range of distinct elements needs: two per element, and one more when the first is
  the last in order, because then one call works on the whole range again.\<close>

definition first_is_last :: "bool \<Rightarrow> 'a::linorder list \<Rightarrow> bool" where
  "first_is_last asc xs \<longleftrightarrow> (\<forall>x \<in> set xs. le asc x (hd xs))"

lemma quick_returns:
  "length xs = Suc k \<Longrightarrow> distinct xs \<Longrightarrow> 2 * k + (if first_is_last asc xs then 1 else 0) \<le> f \<Longrightarrow>
   quick f asc (ps @ xs @ qs) (length ps) (length ps + k) \<noteq> Inl Diverges"
proof (induction f arbitrary: ps xs qs k)
  case 0
  then show ?case by simp
next
  case (Suc f)
  show ?case
  proof (cases "k = 0")
    case False
    obtain key ms where xs: "xs = key # ms" "k = length ms" using Suc.prems(1) by (cases xs) auto
    let ?b = "length ps"
    have q: "quick (Suc f) asc (ps @ xs @ qs) ?b (?b + k) = bindR (obtain_middle_key_pos f asc (ps @ (key # ms) @ qs) ?b (?b + k))
      (\<lambda>(buf1, pos). case pos of None \<Rightarrow> Inr buf1 | Some m \<Rightarrow> bindR (quick f asc buf1 ?b m) (\<lambda>buf2. quick f asc buf2 (m + 1) (?b + k)))"
      unfolding xs quick.simps by (rule if_P) (use False xs in simp)
    have k: "0 < k" "key \<notin> set ms" "\<not> f < k" using False Suc.prems(2,3) xs by auto
    obtain us vs where o: "obtain_middle_key_pos f asc (ps @ (key # ms) @ qs) ?b (?b + k)
        = Inr (ps @ (us @ [key]) @ vs @ qs, Some (?b + length us))" and sp: "splits asc key ms us vs"
      using middle_key_splits [OF xs(2) k(1), of f asc ps key qs] k(2,3) by auto
    have len: "length ms = length us + length vs" using sp by (metis size_mset size_union splits_def)
    have "mset ms = mset (us @ vs)" using sp by (simp add: splits_def)
    then have d: "distinct (us @ vs)" "key \<notin> set (us @ vs)"
      using Suc.prems(2) xs(1) k(2) by (metis distinct.simps(2) mset_eq_imp_distinct_iff, metis mset_eq_setD)
    then have dl: "distinct (us @ [key])" "distinct vs" by auto
    let ?s = "sorted_result asc (us @ [key])"
    have l: "quick f asc (ps @ (us @ [key]) @ vs @ qs) ?b (?b + length us) = Inr (ps @ ?s @ vs @ qs)"
    proof -
      have "2 * length us + (if first_is_last asc (us @ [key]) then 1 else 0) \<le> f"
      proof (cases "vs = []")
        case True
        have "\<forall>u \<in> set us. le asc u key" using sp by (auto simp: splits_def gt_def le_def split: if_splits)
        moreover have "set ms = set us" using sp True by (metis add.right_neutral mset.simps(1) mset_eq_setD splits_def)
        ultimately have "first_is_last asc xs" by (simp add: first_is_last_def xs(1))
        moreover obtain u us' where u: "us = u # us'" using len True k(1) xs(2) by (cases us) auto
        have "\<not> le asc key u" using sp u by (auto simp: splits_def gt_def le_def split: if_splits)
        then have "\<not> first_is_last asc (us @ [key])" by (simp add: first_is_last_def u)
        ultimately show ?thesis using Suc.prems(3) len xs(2) True by simp
      next
        case False
        then have "length us < k" using len xs(2) by (cases vs) auto
        then show ?thesis using Suc.prems(3) by (auto split: if_splits)
      qed
      then have "quick f asc (ps @ (us @ [key]) @ vs @ qs) ?b (?b + length us) \<noteq> Inl Diverges"
        using dl by (intro Suc.IH) auto
      then show ?thesis using quick_sound [of "us @ [key]" "length us" f asc ps "vs @ qs"] by simp
    qed
    have r: "quick f asc (ps @ ?s @ vs @ qs) (?b + length us + 1) (?b + k) \<noteq> Inl Diverges"
    proof (cases vs)
      case Nil
      then show ?thesis using len xs(2) by simp
    next
      case (Cons v vs')
      have i: "length (ps @ ?s) = ?b + length us + 1" "?b + length us + 1 + length vs' = ?b + k"
        using len xs(2) Cons by (simp_all add: sorted_result_def)
      have "quick f asc ((ps @ ?s) @ vs @ qs) (length (ps @ ?s)) (length (ps @ ?s) + length vs') \<noteq> Inl Diverges"
        using dl(2) Cons Suc.prems(3) len xs(2) by (intro Suc.IH) (auto split: if_splits)
      then show ?thesis unfolding i by simp
    qed
    show ?thesis using q o l r by simp
  qed (use Suc.prems(1) in \<open>cases xs; simp\<close>)
qed

text \<open>Sorting a whole buffer, with the fuel that is always enough.\<close>

definition quick_run :: "'a::linorder list \<Rightarrow> nat \<Rightarrow> bool \<Rightarrow> 'a list res" where
  "quick_run buf n asc = quick (2 * n) asc buf 0 (n - 1)"

lemma quick_eq:
  assumes "distinct xs" "2 * length xs \<le> f"
  shows "quick f asc xs 0 (length xs - 1) = Inr (sorted_result asc xs)"
proof (cases xs)
  case Nil
  then show ?thesis by (simp add: sorted_result_def)
next
  case (Cons x ys)
  then have l: "length xs = Suc (length ys)" by simp
  have "quick f asc xs 0 (length ys) \<noteq> Inl Diverges"
    using quick_returns [OF l assms(1), of asc f "[]" "[]"] assms(2) l by simp
  then show ?thesis using quick_sound [OF l, of f asc "[]" "[]"] l by simp
qed

lemma quick_never:
  assumes "\<not> distinct xs"
  shows "quick f asc xs 0 (length xs - 1) = Inl Diverges"
proof (cases xs)
  case (Cons x ys)
  then have l: "length xs = Suc (length ys)" by simp
  then show ?thesis using quick_sound [OF l, of f asc "[]" "[]"] assms by simp
qed (use assms in simp)

interpretation quick: sort_routine quick_run distinct
proof unfold_locales
  fix xs :: "'a list" and asc
  assume "distinct xs"
  then show "\<exists>ys. quick_run xs (length xs) asc = Inr ys \<and> mset ys = mset xs \<and> ordered asc ys"
    using quick_eq [of xs "2 * length xs" asc] by (simp add: quick_run_def sorted_result_ordered)
qed (rule mset_eq_imp_distinct_iff)

end
