(* ===== verification/DsSelection.thy ===== *)
theory DsSelection
  imports DsSimple DsHeap DsMerge DsQuick
begin

text \<open>
  \<^verbatim>\<open>study/DS/src\<close>: the two selection routines of \<^verbatim>\<open>selection_problem.c\<close> and the search of \<^verbatim>\<open>bin_tree_search.c\<close>. The buffers are
  not null and \<^verbatim>\<open>malloc\<close> succeeds. The error value -1 is also a possible result, as in the code. \<open>k\<close> is a
  natural number; \<open>k = 0\<close> makes the code read outside its buffer.
\<close>

section \<open>Selection by sorting everything\<close>

text \<open>The sorting loops are those of \<^verbatim>\<open>sorts<int>::bubble\<close> with the descending comparison.\<close>

definition with_all_sort_select_k_max :: "int list \<Rightarrow> nat \<Rightarrow> nat \<Rightarrow> int res" where
  "with_all_sort_select_k_max data n k =
     (if n < k then Inr (-1)
      else bindR (bubble_outer False n 0 (n - 1) data True) (\<lambda>data1. if k = 0 then Inl OutOfBounds else rd data1 (k - 1)))"

section \<open>Selection with a buffer of k elements\<close>

text \<open>The inner loop of the sort, with the test of \<^verbatim>\<open>is_sorted\<close> inside the loop.\<close>

fun k_sort_inner :: "nat \<Rightarrow> nat \<Rightarrow> int list \<Rightarrow> bool \<Rightarrow> (int list \<times> bool) res" where
  "k_sort_inner j 0 buf is_sorted = Inr (buf, is_sorted)"
| "k_sort_inner j (Suc m) buf is_sorted =
     bindR (rd buf j) (\<lambda>x. bindR (rd buf (j + 1)) (\<lambda>y.
     bindR (if x > y then bindR (wr buf j y) (\<lambda>buf1. bindR (wr buf1 (j + 1) x) (\<lambda>buf2. Inr (buf2, False)))
            else Inr (buf, is_sorted)) (\<lambda>(buf3, is_sorted3).
     if is_sorted3 then Inr (buf3, is_sorted3) else k_sort_inner (j + 1) m buf3 is_sorted3)))"

fun k_sort_outer :: "nat \<Rightarrow> nat \<Rightarrow> nat \<Rightarrow> int list \<Rightarrow> bool \<Rightarrow> int list res" where
  "k_sort_outer k i 0 buf is_sorted = Inr buf"
| "k_sort_outer k i (Suc m) buf is_sorted =
     bindR (k_sort_inner 0 (k - 1 - i) buf is_sorted) (\<lambda>(buf1, is_sorted1). k_sort_outer k (i + 1) m buf1 is_sorted1)"

text \<open>The loop that looks for the place of a value, from index \<open>i\<close> with \<open>m\<close> iterations left.\<close>

fun find_place :: "int \<Rightarrow> nat \<Rightarrow> nat \<Rightarrow> int list \<Rightarrow> nat res" where
  "find_place v i 0 buf = Inr i"
| "find_place v i (Suc m) buf = bindR (rd buf i) (\<lambda>x. if v < x then Inr i else find_place v (i + 1) m buf)"

definition replace_smallest :: "nat \<Rightarrow> int list \<Rightarrow> int \<Rightarrow> int list res" where
  "replace_smallest k buf v =
     bindR (rd buf 0) (\<lambda>x.
       if v \<le> x then Inr buf
       else bindR (find_place v 1 (k - 1) buf) (\<lambda>i.
            bindR (rd buf (i - 1)) (\<lambda>y. bindR (wr buf 0 y) (\<lambda>buf1. wr buf1 (i - 1) v))))"

fun replace_all :: "nat \<Rightarrow> int list \<Rightarrow> int list \<Rightarrow> int list res" where
  "replace_all k buf [] = Inr buf"
| "replace_all k buf (v # vs) = bindR (replace_smallest k buf v) (\<lambda>buf1. replace_all k buf1 vs)"

text \<open>The first \<open>k\<close> elements fill the buffer, which is sorted when the next one comes.\<close>

definition with_k_sort_select_k_max :: "int list \<Rightarrow> nat \<Rightarrow> nat \<Rightarrow> int res" where
  "with_k_sort_select_k_max data n k =
     (if n < k then Inr (-1)
      else if k = n then with_all_sort_select_k_max data n k
      else bindR (load data 0 n) (\<lambda>vals.
           bindR (k_sort_outer k 0 (k - 1) (take k vals) True) (\<lambda>buf.
           bindR (replace_all k buf (drop k vals)) (\<lambda>buf1. rd buf1 0))))"

section \<open>Binary search tree\<close>

datatype 'a search_tree = NULL | TREE_NODE 'a "'a search_tree" "'a search_tree"

fun bst_find :: "'a::linorder \<Rightarrow> 'a search_tree \<Rightarrow> 'a search_tree" where
  "bst_find element NULL = NULL"
| "bst_find element (TREE_NODE x l r) =
     (if element > x then bst_find element r
      else if element < x then bst_find element l
      else TREE_NODE x l r)"

fun tree_set :: "'a search_tree \<Rightarrow> 'a set" where
  "tree_set NULL = {}"
| "tree_set (TREE_NODE x l r) = insert x (tree_set l \<union> tree_set r)"

fun search_ordered :: "'a::linorder search_tree \<Rightarrow> bool" where
  "search_ordered NULL \<longleftrightarrow> True"
| "search_ordered (TREE_NODE x l r) \<longleftrightarrow>
     (\<forall>y \<in> tree_set l. y < x) \<and> (\<forall>y \<in> tree_set r. x < y) \<and> search_ordered l \<and> search_ordered r"

lemma bst_find_iff:
  "search_ordered t \<Longrightarrow> (if e \<in> tree_set t then \<exists>l r. bst_find e t = TREE_NODE e l r else bst_find e t = NULL)"
  by (induction e t rule: bst_find.induct) auto

section \<open>What the selection routines return\<close>

text \<open>The k-th largest value.\<close>

definition kth_largest :: "int list \<Rightarrow> nat \<Rightarrow> int" where
  "kth_largest xs k = sorted_result False xs ! (k - 1)"

lemma select_all_eq:
  assumes "1 \<le> k" "k \<le> length xs"
  shows "with_all_sort_select_k_max xs (length xs) k = Inr (kth_largest xs k)"
proof -
  have "bubble_outer False (length xs) 0 (length xs - 1) xs True = Inr (sorted_result False xs)"
    using bubble.run_eq [of xs False] by (simp add: bubble_def)
  then show ?thesis using assms by (auto simp: with_all_sort_select_k_max_def kth_largest_def)
qed

text \<open>With \<open>k\<close> at most 2 the buffer holds the largest values so far, in order.\<close>

definition top :: "nat \<Rightarrow> int list \<Rightarrow> int list" where
  "top k xs = rev (take k (sorted_result False xs))"

lemma sorted_result_snoc:
  "sorted_result False (xs @ [v]) = takeWhile (\<lambda>x. v < x) (sorted_result False xs) @ v # dropWhile (\<lambda>x. v < x) (sorted_result False xs)"
  (is "_ = ?t @ v # ?d")
proof (rule sorted_result_unique [symmetric])
  have o: "ordered False (?t @ ?d)" using sorted_result_ordered [of False xs] by simp
  have t: "\<forall>x \<in> set ?t. v < x" by (auto dest: set_takeWhileD)
  have "x \<le> v" if "x \<in> set ?d" for x
  proof (cases ?d)
    case (Cons y ys)
    then have "\<not> v < y" using hd_dropWhile [of "\<lambda>x. v < x" "sorted_result False xs"] by simp
    then show ?thesis using that o Cons by (auto simp: sorted_wrt_append le_def)
  next
    case Nil
    with that have "x \<in> set []" by (simp only:)
    then show ?thesis by simp
  qed
  moreover have "ordered False ?t" "ordered False ?d" "\<forall>x \<in> set ?t. \<forall>y \<in> set ?d. le False x y"
    using o unfolding sorted_wrt_append by blast+
  ultimately show "ordered False (?t @ v # ?d)" using t by (auto simp: sorted_wrt_append le_def)
  have "mset ?t + mset ?d = mset xs" by (metis mset_append sorted_result_mset takeWhile_dropWhile_id)
  then show "mset (?t @ v # ?d) = mset (xs @ [v])" by simp
qed

lemma sorted_result_first_two:
  assumes "sorted_result False xs = a # b # r"
  shows "b \<le> a"
  using sorted_result_ordered [of False xs] assms by (simp add: le_def)

lemma replace_smallest_top:
  assumes "k = 1 \<or> k = 2" "k \<le> length xs"
  shows "replace_smallest k (top k xs) v = Inr (top k (xs @ [v]))"
proof -
  obtain a r where s: "sorted_result False xs = a # r"
    using assms by (cases "sorted_result False xs") (auto dest: arg_cong [of _ _ length])
  show ?thesis
  proof (cases "k = 1")
    case True
    then show ?thesis by (auto simp: replace_smallest_def top_def sorted_result_snoc s)
  next
    case False
    then have k: "k = 2" using assms(1) by simp
    have "length (a # r) = length xs" unfolding s [symmetric] by simp
    then obtain b t where r: "r = b # t" using assms(2) k by (cases r) auto
    have ba: "b \<le> a" using sorted_result_first_two [OF s [unfolded r]] .
    have t2: "top 2 xs = [b, a]" by (simp add: top_def s r numeral_2_eq_2)
    have n2: "top 2 (xs @ [v]) = (if v \<le> b then [b, a] else if v < a then [v, a] else [a, v])"
      using ba by (auto simp: top_def sorted_result_snoc s r numeral_2_eq_2)
    consider "v \<le> b" | "b < v" "v < a" | "a \<le> v" "b < v" by linarith
    then show ?thesis
      unfolding k t2 n2 by cases (simp_all add: replace_smallest_def)
  qed
qed

lemma replace_all_top:
  "k = 1 \<or> k = 2 \<Longrightarrow> k \<le> length xs \<Longrightarrow> replace_all k (top k xs) vs = Inr (top k (xs @ vs))"
proof (induction vs arbitrary: xs)
  case (Cons v vs)
  then show ?case using replace_smallest_top [OF Cons.prems] Cons.IH [of "xs @ [v]"] by simp
qed simp

lemma k_sort_top:
  assumes "k = 1 \<or> k = 2" "length xs = k"
  shows "k_sort_outer k 0 (k - 1) xs True = Inr (top k xs)"
proof (cases "k = 1")
  case True
  then obtain x where "xs = [x]" using assms(2) by (cases xs) auto
  then show ?thesis using True by (simp add: top_def sorted_result_def)
next
  case False
  then have "k = 2" using assms(1) by simp
  moreover from this obtain x y where "xs = [x, y]" using assms(2) by (cases xs; cases "tl xs") auto
  ultimately show ?thesis by (auto simp: top_def sorted_result_def numeral_2_eq_2)
qed

lemma select_k_eq:
  assumes "k = 1 \<or> k = 2" "k \<le> length xs"
  shows "with_k_sort_select_k_max xs (length xs) k = Inr (kth_largest xs k)"
proof (cases "k = length xs")
  case True
  then show ?thesis using select_all_eq [of k xs] assms by (auto simp: with_k_sort_select_k_max_def)
next
  case False
  have "k_sort_outer k 0 (k - 1) (take k xs) True = Inr (top k (take k xs))"
    by (rule k_sort_top [OF assms(1)]) (use assms(2) in simp)
  moreover have "replace_all k (top k (take k xs)) (drop k xs) = Inr (top k xs)"
    using replace_all_top [OF assms(1), of "take k xs" "drop k xs"] assms(2) by simp
  moreover have "top k xs ! 0 = kth_largest xs k" "0 < length (top k xs)"
    using assms by (auto simp: top_def kth_largest_def rev_nth)
  ultimately show ?thesis using False assms(2) by (simp add: with_k_sort_select_k_max_def load_def)
qed

section \<open>Properties\<close>

text \<open>C17. The four elementary sorting routines sort, ascending or descending: on every buffer they end
  without an access outside of it and leave its elements in order. The version for C strings
  sorts by the order of \<^verbatim>\<open>strcmp\<close>.\<close>
theorem elementary_sorts:
  fixes xs :: "'a::linorder list" and ss :: "bytes list"
  shows "bubble xs (length xs) asc = Inr (sorted_result asc xs)
    \<and> insert_sort xs (length xs) asc = Inr (sorted_result asc xs)
    \<and> shell xs (length xs) asc = Inr (sorted_result asc xs)
    \<and> select xs (length xs) asc = Inr (sorted_result asc xs)
    \<and> bubble_str ss (length ss) asc = Inr (sorted_result asc ss)"
  using bubble.run_eq [of xs asc] insertion.run_eq [of xs asc] shell.run_eq [of xs asc] selection.run_eq [of xs asc]
    bubble.run_eq [of ss asc] by (simp add: bubble_str_eq)

text \<open>Heap sort sorts every buffer that is not empty; on an empty one it reads and writes outside of it.\<close>
theorem heap_sort_outcomes:
  "heap xs (length xs) asc = (if xs = [] then Inl OutOfBounds else Inr (sorted_result asc xs))"
  using heap.run_eq [of xs asc] by (simp add: heap_def create_heap_def rd_def)

text \<open>Merge sort sorts, whatever the helper array holds to begin with, and only ever writes inside it.\<close>
theorem merge_sort_correct: "merge junk xs (length xs) asc = Inr (sorted_result asc xs)"
  using merge.run_eq [where xs = xs and asc = asc and junk = junk] by simp

text \<open>Quick sort ends and sorts when the elements are pairwise different: fuel of twice their number
  is enough.\<close>
theorem quick_sort_distinct:
  assumes "distinct xs" and "2 * length xs \<le> f"
  shows "quick f asc xs 0 (length xs - 1) = Inr (sorted_result asc xs)"
  by (rule quick_eq [OF assms])

theorem quick_sort_distinct_witness: "quick 6 True [3, 1, 2 :: int] 0 2 = Inr [1, 2, 3]"
  using quick_sort_distinct [of "[3, 1, 2 :: int]" 6 True] by (simp add: sorted_result_def numeral_2_eq_2)

text \<open>C18. On a buffer with two equal elements quick sort never returns: no amount of fuel is enough.\<close>
theorem quick_sort_diverges:
  assumes "\<not> distinct xs"
  shows "quick f asc xs 0 (length xs - 1) = Inl Diverges"
  by (rule quick_never [OF assms])

theorem quick_sort_diverges_witness: "quick 1000 True [5, 5 :: int] 0 1 = Inl Diverges"
  using quick_sort_diverges [of "[5, 5 :: int]" 1000 True] by simp

text \<open>\<^verbatim>\<open>with_all_sort_select_k_max\<close> returns the k-th largest value, and \<^verbatim>\<open>with_k_sort_select_k_max\<close>
  agrees with it when \<open>k\<close> is 1, 2 or the number of values.\<close>
theorem selection_agrees:
  assumes "1 \<le> k" and "k \<le> length xs"
  shows "with_all_sort_select_k_max xs (length xs) k = Inr (kth_largest xs k)
    \<and> (k \<le> 2 \<or> k = length xs \<longrightarrow> with_k_sort_select_k_max xs (length xs) k = Inr (kth_largest xs k))"
proof -
  have "k = 1 \<or> k = 2" if "k \<le> 2" using that assms(1) by linarith
  then show ?thesis
    using select_all_eq [OF assms] select_k_eq [OF _ assms(2)] by (auto simp: with_k_sort_select_k_max_def)
qed

theorem selection_agrees_witness:
  "with_all_sort_select_k_max [4, 9, 7] 3 2 = Inr 7 \<and> with_k_sort_select_k_max [4, 9, 7] 3 2 = Inr 7"
  using selection_agrees [of 2 "[4, 9, 7]"] by (simp add: kth_largest_def sorted_result_def numeral_3_eq_3)

text \<open>With \<open>k\<close> from 3 on the two disagree: \<^verbatim>\<open>with_k_sort_select_k_max\<close> puts the value it moves out of the way in
  front, so its buffer is no longer in order and its first element not the smallest.\<close>
theorem selection_differs:
  "with_all_sort_select_k_max [1, 2, 3, 4] 4 3 = Inr 2 \<and> with_k_sort_select_k_max [1, 2, 3, 4] 4 3 = Inr 3"
proof
  have "with_all_sort_select_k_max [1, 2, 3, 4] (length [1, 2, 3, 4 :: int]) 3 = Inr (kth_largest [1, 2, 3, 4] 3)"
    by (rule select_all_eq) simp_all
  then show "with_all_sort_select_k_max [1, 2, 3, 4] 4 3 = Inr 2"
    by (simp add: kth_largest_def sorted_result_def eval_nat_numeral)
  show "with_k_sort_select_k_max [1, 2, 3, 4] 4 3 = Inr 3"
    by (simp add: with_k_sort_select_k_max_def load_def replace_smallest_def numeral_eq_Suc)
qed

end
