(* ===== verification/PaHashmap.thy ===== *)
theory PaHashmap
  imports Prelude
begin

text \<open>
  The hash table of PulseAudio (\<^verbatim>\<open>pulsecore/hashmap.c\<close>) with its string hash function
  (\<^verbatim>\<open>pulsecore/idxset.c\<close>). Entries live in an explicit heap: each one is on two doubly linked
  lists, the chain of its bucket and the iteration list, and every pointer assignment of the source
  is an update of the heap; following a dangling pointer is \<open>OutOfBounds\<close>, a failed
  \<^verbatim>\<open>pa_assert\<close> is \<open>AssertFail\<close>. The theory relates such a heap to the association list of the
  table in insertion order and shows that each operation implements its counterpart there.
  A value is a pointer that is not null: \<^verbatim>\<open>NULL\<close> is how the source reports that there is no entry, so that an entry with a null
  value could not be told from a missing one, and \<^verbatim>\<open>pa_hashmap_remove_and_free\<close> would remove it and return -1. No such
  entry is part of the model.
\<close>

section \<open>Doubly linked lists\<close>

text \<open>\<open>linked nxt prv xs\<close>: the cells \<open>xs\<close> are chained in this order by their two pointer fields.\<close>

definition ohd :: "'a list \<Rightarrow> 'a option" where
  "ohd xs = (case xs of [] \<Rightarrow> None | x # _ \<Rightarrow> Some x)"

definition olast :: "'a list \<Rightarrow> 'a option" where
  "olast xs = (if xs = [] then None else Some (last xs))"

definition linked :: "('a \<Rightarrow> 'a option) \<Rightarrow> ('a \<Rightarrow> 'a option) \<Rightarrow> 'a list \<Rightarrow> bool" where
  "linked nxt prv xs \<longleftrightarrow> distinct xs \<and>
     (\<forall>ys a zs. xs = ys @ a # zs \<longrightarrow> nxt a = ohd zs \<and> prv a = olast ys)"

named_theorems link_simps \<open>ends of lists and of linked lists\<close>

lemma ohd_simps [simp]: "ohd [] = None" "ohd (x # xs) = Some x"
  by (simp_all add: ohd_def)

lemma olast_simps [simp]: "olast [] = None" "olast (xs @ [x]) = Some x"
  by (simp_all add: olast_def)

lemma ohd_append [link_simps]: "ohd (xs @ ys) = (if xs = [] then ohd ys else ohd xs)"
  by (cases xs) simp_all

lemma olast_append [link_simps]: "olast (xs @ ys) = (if ys = [] then olast xs else olast ys)"
  by (simp add: olast_def)

lemma olast_Cons [link_simps]: "olast (x # xs) = (if xs = [] then Some x else olast xs)"
  by (simp add: olast_def)

lemma ohd_None [simp]: "ohd xs = None \<longleftrightarrow> xs = []" "olast xs = None \<longleftrightarrow> xs = []"
  by (cases xs; simp) (simp add: olast_def)

lemma ohd_mem: "ohd xs = Some x \<Longrightarrow> x \<in> set xs" "olast xs = Some x \<Longrightarrow> x \<in> set xs"
  by (cases xs; simp) (auto simp: olast_def split: if_splits)

lemma linked_empty [simp]: "linked nxt prv []"
  by (simp add: linked_def)

lemma linkedI:
  "distinct xs \<Longrightarrow> (\<And>ys a zs. xs = ys @ a # zs \<Longrightarrow> nxt a = ohd zs \<and> prv a = olast ys)
   \<Longrightarrow> linked nxt prv xs"
  by (simp add: linked_def)

lemma linked_split:
  assumes "linked nxt prv (ys @ a # zs)"
  shows "nxt a = ohd zs" and "prv a = olast ys" and "a \<notin> set ys" and "a \<notin> set zs"
    and "distinct ys" and "distinct zs" and "set ys \<inter> set zs = {}"
  using assms by (auto simp: linked_def)

lemma linked_cong:
  "(\<And>a. a \<in> set xs \<Longrightarrow> nxt a = nxt' a \<and> prv a = prv' a) \<Longrightarrow> linked nxt prv xs = linked nxt' prv' xs"
  unfolding linked_def by (metis in_set_conv_decomp)

lemma linked_tl: "linked nxt prv (a # xs) \<Longrightarrow> nxt a = ohd xs"
  using linked_split(1) [of nxt prv "[]" a xs] by simp

lemma linked_remove:
  assumes l: "linked nxt prv (ys @ a # zs)"
    and n: "\<And>b. b \<in> set (ys @ zs) \<Longrightarrow> nxt' b = (if Some b = olast ys then ohd zs else nxt b)"
    and p: "\<And>b. b \<in> set (ys @ zs) \<Longrightarrow> prv' b = (if Some b = ohd zs then olast ys else prv b)"
  shows "linked nxt' prv' (ys @ zs)"
proof (rule linkedI)
  show "distinct (ys @ zs)" using l by (simp add: linked_def)
next
  fix us b vs
  assume e: "ys @ zs = us @ b # vs"
  note d = linked_split(3-7) [OF l]
  from e consider (ys) w where "ys = us @ b # w" "vs = w @ zs" | (zs) w where "us = ys @ w" "zs = w @ b # vs"
    by (auto simp: append_eq_append_conv2 append_eq_Cons_conv Cons_eq_append_conv)
  then show "nxt' b = ohd vs \<and> prv' b = olast us"
  proof cases
    case ys
    have b: "nxt b = ohd (w @ a # zs)" "prv b = olast us"
      using linked_split(1,2) [of nxt prv us b "w @ a # zs"] l ys by simp_all
    have "b \<notin> set w" "b \<notin> set zs" using d ys by auto
    then have "Some b = olast ys \<longleftrightarrow> w = []" "Some b \<noteq> ohd zs"
      using ohd_mem(2) [of w b] ohd_mem(1) [of zs b] by (auto simp: ys link_simps)
    moreover have "b \<in> set (ys @ zs)" by (simp add: ys)
    ultimately show ?thesis using n p b ys(2) by (simp add: link_simps)
  next
    case zs
    have b: "nxt b = ohd vs" "prv b = olast (ys @ a # w)"
      using linked_split(1,2) [of nxt prv "ys @ a # w" b vs] l zs by simp_all
    have "b \<notin> set w" "b \<notin> set ys" using d zs by auto
    then have "Some b = ohd zs \<longleftrightarrow> w = []" "Some b \<noteq> olast ys"
      using ohd_mem(1) [of w b] ohd_mem(2) [of ys b] by (auto simp: zs link_simps)
    moreover have "b \<in> set (ys @ zs)" by (simp add: zs)
    ultimately show ?thesis using n p b zs(1) by (simp add: link_simps)
  qed
qed

lemma linked_snoc:
  assumes l: "linked nxt prv xs" and a: "a \<notin> set xs" "nxt' a = None" "prv' a = olast xs"
    and n: "\<And>b. b \<in> set xs \<Longrightarrow> nxt' b = (if Some b = olast xs then Some a else nxt b)"
    and p: "\<And>b. b \<in> set xs \<Longrightarrow> prv' b = prv b"
  shows "linked nxt' prv' (xs @ [a])"
proof (rule linkedI)
  show "distinct (xs @ [a])" using l a by (simp add: linked_def)
next
  fix us b vs
  assume e: "xs @ [a] = us @ b # vs"
  then consider (new) "vs = []" "us = xs" "b = a" | (old) w where "xs = us @ b # w" "vs = w @ [a]"
    by (cases vs rule: rev_cases) auto
  then show "nxt' b = ohd vs \<and> prv' b = olast us"
  proof cases
    case new
    then show ?thesis using a by simp
  next
    case old
    have b: "nxt b = ohd w" "prv b = olast us" using linked_split(1,2) [of nxt prv us b w] l old by simp_all
    have "b \<notin> set w" using linked_split(4) [of nxt prv us b w] l old by simp
    then have "Some b = olast xs \<longleftrightarrow> w = []" using ohd_mem(2) [of w b] by (auto simp: old link_simps)
    moreover have "b \<in> set xs" by (simp add: old)
    ultimately show ?thesis using n p b old(2) by (simp add: link_simps)
  qed
qed

lemma linked_Cons:
  assumes l: "linked nxt prv xs" and a: "a \<notin> set xs" "nxt' a = ohd xs" "prv' a = None"
    and n: "\<And>b. b \<in> set xs \<Longrightarrow> nxt' b = nxt b"
    and p: "\<And>b. b \<in> set xs \<Longrightarrow> prv' b = (if Some b = ohd xs then Some a else prv b)"
  shows "linked nxt' prv' (a # xs)"
proof (rule linkedI)
  show "distinct (a # xs)" using l a by (simp add: linked_def)
next
  fix us b vs
  assume e: "a # xs = us @ b # vs"
  then consider (new) "us = []" "vs = xs" "b = a" | (old) w where "xs = w @ b # vs" "us = a # w"
    unfolding Cons_eq_append_conv by blast
  then show "nxt' b = ohd vs \<and> prv' b = olast us"
  proof cases
    case new
    then show ?thesis using a by simp
  next
    case old
    have b: "nxt b = ohd vs" "prv b = olast w" using linked_split(1,2) [of nxt prv w b vs] l old by simp_all
    have "b \<notin> set w" using linked_split(3) [of nxt prv w b vs] l old by simp
    then have "Some b = ohd xs \<longleftrightarrow> w = []" using ohd_mem(1) [of w b] by (auto simp: old link_simps)
    moreover have "b \<in> set xs" by (simp add: old)
    ultimately show ?thesis using n p b old(2) by (simp add: link_simps)
  qed
qed

section \<open>The table\<close>

text \<open>\<^verbatim>\<open>struct hashmap_entry\<close>; an address is a natural number and a null pointer is \<open>None\<close>.\<close>

record ('k, 'v) hashmap_entry =
  he_key :: 'k
  he_value :: 'v
  bucket_next :: "nat option"
  bucket_previous :: "nat option"
  iterate_next :: "nat option"
  iterate_previous :: "nat option"

text \<open>A call of one of the two free callbacks.\<close>

datatype ('k, 'v) free_call = FreeKey 'k | FreeValue 'v

text \<open>\<^verbatim>\<open>struct pa_hashmap\<close> and what it points to: the bucket array behind it, the entries allocated
  at the moment (\<open>hm_heap\<close>, the next fresh address \<open>hm_fresh\<close>) and the free callbacks made so far.
  The callbacks themselves are represented by whether they are set.\<close>

record ('k, 'v) pa_hashmap =
  hash_func :: "'k \<Rightarrow> u32"
  compare_func :: "'k \<Rightarrow> 'k \<Rightarrow> int"
  key_free_func :: bool
  value_free_func :: bool
  iterate_list_head :: "nat option"
  iterate_list_tail :: "nat option"
  n_entries :: u32
  by_hash :: "nat option list"
  hm_heap :: "nat \<Rightarrow> ('k, 'v) hashmap_entry option"
  hm_fresh :: nat
  hm_freed :: "('k, 'v) free_call list"

definition NBUCKETS :: nat where "NBUCKETS = 127"

definition pa_hashmap_new_full :: "('k \<Rightarrow> u32) \<Rightarrow> ('k \<Rightarrow> 'k \<Rightarrow> int) \<Rightarrow> bool \<Rightarrow> bool \<Rightarrow> ('k, 'v) pa_hashmap" where
  "pa_hashmap_new_full hash cmp kf vf =
     \<lparr>hash_func = hash, compare_func = cmp, key_free_func = kf, value_free_func = vf,
      iterate_list_head = None, iterate_list_tail = None, n_entries = 0,
      by_hash = replicate NBUCKETS None, hm_heap = (\<lambda>_. None), hm_fresh = 0, hm_freed = []\<rparr>"

definition pa_hashmap_new :: "('k \<Rightarrow> u32) \<Rightarrow> ('k \<Rightarrow> 'k \<Rightarrow> int) \<Rightarrow> ('k, 'v) pa_hashmap" where
  "pa_hashmap_new hash cmp = pa_hashmap_new_full hash cmp False False"

text \<open>Reading and writing through a pointer to an entry.\<close>

definition he_get :: "('k, 'v) pa_hashmap \<Rightarrow> nat \<Rightarrow> ('k, 'v) hashmap_entry res" where
  "he_get h a = (case hm_heap h a of None \<Rightarrow> Inl OutOfBounds | Some e \<Rightarrow> Inr e)"

definition he_upd :: "(('k, 'v) hashmap_entry \<Rightarrow> ('k, 'v) hashmap_entry) \<Rightarrow> nat \<Rightarrow> ('k, 'v) pa_hashmap
    \<Rightarrow> ('k, 'v) pa_hashmap res" where
  "he_upd f a h = bindR (he_get h a) (\<lambda>e. Inr (h\<lparr>hm_heap := (hm_heap h)(a \<mapsto> f e)\<rparr>))"

definition hash_index :: "('k, 'v) pa_hashmap \<Rightarrow> 'k \<Rightarrow> nat" where
  "hash_index h k = unat (hash_func h k) mod NBUCKETS"

text \<open>\<^verbatim>\<open>remove_entry\<close>: out of the iteration list, out of the bucket chain, then released.\<close>

definition unlink_iterate :: "('k, 'v) pa_hashmap \<Rightarrow> nat \<Rightarrow> ('k, 'v) pa_hashmap res" where
  "unlink_iterate h a =
     bindR (he_get h a) (\<lambda>e.
     bindR (case iterate_next e of
              Some n \<Rightarrow> he_upd (\<lambda>x. x\<lparr>iterate_previous := iterate_previous e\<rparr>) n h
            | None \<Rightarrow> Inr (h\<lparr>iterate_list_tail := iterate_previous e\<rparr>)) (\<lambda>h.
     bindR (he_get h a) (\<lambda>e.
     case iterate_previous e of
       Some p \<Rightarrow> he_upd (\<lambda>x. x\<lparr>iterate_next := iterate_next e\<rparr>) p h
     | None \<Rightarrow> Inr (h\<lparr>iterate_list_head := iterate_next e\<rparr>))))"

definition unlink_bucket :: "('k, 'v) pa_hashmap \<Rightarrow> nat \<Rightarrow> ('k, 'v) pa_hashmap res" where
  "unlink_bucket h a =
     bindR (he_get h a) (\<lambda>e.
     bindR (case bucket_next e of
              Some n \<Rightarrow> he_upd (\<lambda>x. x\<lparr>bucket_previous := bucket_previous e\<rparr>) n h
            | None \<Rightarrow> Inr h) (\<lambda>h.
     bindR (he_get h a) (\<lambda>e.
     case bucket_previous e of
       Some p \<Rightarrow> he_upd (\<lambda>x. x\<lparr>bucket_next := bucket_next e\<rparr>) p h
     | None \<Rightarrow> Inr (h\<lparr>by_hash := (by_hash h)[hash_index h (he_key e) := bucket_next e]\<rparr>))))"

definition remove_entry :: "('k, 'v) pa_hashmap \<Rightarrow> nat \<Rightarrow> ('k, 'v) pa_hashmap res" where
  "remove_entry h a =
     bindR (unlink_iterate h a) (\<lambda>h.
     bindR (unlink_bucket h a) (\<lambda>h.
     bindR (he_get h a) (\<lambda>e.
     let h = (if key_free_func h then h\<lparr>hm_freed := hm_freed h @ [FreeKey (he_key e)]\<rparr> else h);
         h = h\<lparr>hm_heap := (hm_heap h)(a := None)\<rparr>
     in bindR (assertR (1 \<le> n_entries h)) (\<lambda>_. Inr (h\<lparr>n_entries := n_entries h - 1\<rparr>)))))"

text \<open>The loop of \<^verbatim>\<open>hash_scan\<close>, with at most \<open>n\<close> entries visited.\<close>

fun hash_scan_from :: "nat \<Rightarrow> ('k, 'v) pa_hashmap \<Rightarrow> 'k \<Rightarrow> nat option \<Rightarrow> nat option res" where
  "hash_scan_from n h key None = Inr None"
| "hash_scan_from 0 h key (Some a) = Inl Diverges"
| "hash_scan_from (Suc n) h key (Some a) =
     bindR (he_get h a) (\<lambda>e.
     if compare_func h (he_key e) key = 0 then Inr (Some a)
     else hash_scan_from n h key (bucket_next e))"

definition hash_scan :: "('k, 'v) pa_hashmap \<Rightarrow> nat \<Rightarrow> 'k \<Rightarrow> nat option res" where
  "hash_scan h hash key =
     bindR (assertR (hash < NBUCKETS)) (\<lambda>_.
     hash_scan_from (unat (n_entries h)) h key (by_hash h ! hash))"

definition pa_hashmap_put :: "('k, 'v) pa_hashmap \<Rightarrow> 'k \<Rightarrow> 'v \<Rightarrow> (int \<times> ('k, 'v) pa_hashmap) res" where
  "pa_hashmap_put h key value =
     (let hash = hash_index h key in
      bindR (hash_scan h hash key) (\<lambda>found.
      if found \<noteq> None then Inr (-1, h)
      else
        let a = hm_fresh h;
            e = \<lparr>he_key = key, he_value = value, bucket_next = by_hash h ! hash, bucket_previous = None,
                 iterate_next = None, iterate_previous = iterate_list_tail h\<rparr>;
            h = h\<lparr>hm_heap := (hm_heap h)(a \<mapsto> e), hm_fresh := Suc a\<rparr>
        in bindR (case by_hash h ! hash of
                    Some b \<Rightarrow> he_upd (\<lambda>x. x\<lparr>bucket_previous := Some a\<rparr>) b h
                  | None \<Rightarrow> Inr h) (\<lambda>h.
           let h = h\<lparr>by_hash := (by_hash h)[hash := Some a]\<rparr> in
           bindR (case iterate_list_tail h of
                    Some t \<Rightarrow>
                      bindR (assertR (iterate_list_head h \<noteq> None)) (\<lambda>_.
                      he_upd (\<lambda>x. x\<lparr>iterate_next := Some a\<rparr>) t h)
                  | None \<Rightarrow>
                      bindR (assertR (iterate_list_head h = None)) (\<lambda>_.
                      Inr (h\<lparr>iterate_list_head := Some a\<rparr>))) (\<lambda>h.
           let h = h\<lparr>iterate_list_tail := Some a, n_entries := n_entries h + 1\<rparr> in
           bindR (assertR (1 \<le> n_entries h)) (\<lambda>_. Inr (0, h))))))"

definition pa_hashmap_get :: "('k, 'v) pa_hashmap \<Rightarrow> 'k \<Rightarrow> 'v option res" where
  "pa_hashmap_get h key =
     bindR (hash_scan h (hash_index h key) key) (\<lambda>found.
     case found of None \<Rightarrow> Inr None | Some a \<Rightarrow> bindR (he_get h a) (\<lambda>e. Inr (Some (he_value e))))"

definition pa_hashmap_remove :: "('k, 'v) pa_hashmap \<Rightarrow> 'k \<Rightarrow> ('v option \<times> ('k, 'v) pa_hashmap) res" where
  "pa_hashmap_remove h key =
     bindR (hash_scan h (hash_index h key) key) (\<lambda>found.
     case found of None \<Rightarrow> Inr (None, h)
     | Some a \<Rightarrow> bindR (he_get h a) (\<lambda>e. bindR (remove_entry h a) (\<lambda>h. Inr (Some (he_value e), h))))"

definition free_value :: "('k, 'v) pa_hashmap \<Rightarrow> 'v \<Rightarrow> ('k, 'v) pa_hashmap" where
  "free_value h v = (if value_free_func h then h\<lparr>hm_freed := hm_freed h @ [FreeValue v]\<rparr> else h)"

definition pa_hashmap_remove_and_free :: "('k, 'v) pa_hashmap \<Rightarrow> 'k \<Rightarrow> (int \<times> ('k, 'v) pa_hashmap) res" where
  "pa_hashmap_remove_and_free h key =
     bindR (pa_hashmap_remove h key) (\<lambda>(data, h).
     case data of Some v \<Rightarrow> Inr (0, free_value h v) | None \<Rightarrow> Inr (-1, h))"

fun remove_all_loop :: "nat \<Rightarrow> ('k, 'v) pa_hashmap \<Rightarrow> ('k, 'v) pa_hashmap res" where
  "remove_all_loop n h =
     (case iterate_list_head h of None \<Rightarrow> Inr h
      | Some a \<Rightarrow>
          (case n of 0 \<Rightarrow> Inl Diverges
           | Suc n \<Rightarrow> bindR (he_get h a) (\<lambda>e. bindR (remove_entry h a) (\<lambda>h.
                      remove_all_loop n (free_value h (he_value e))))))"

definition pa_hashmap_remove_all :: "('k, 'v) pa_hashmap \<Rightarrow> ('k, 'v) pa_hashmap res" where
  "pa_hashmap_remove_all h = remove_all_loop (unat (n_entries h)) h"

text \<open>The cursor of an iteration: \<^verbatim>\<open>*state\<close> is null at first, then an entry, at last \<^verbatim>\<open>(void*) -1\<close>.\<close>

datatype iter_state = IterStart | IterAt nat | IterEnd

definition iter_advance :: "nat option \<Rightarrow> iter_state" where
  "iter_advance next = (case next of Some n \<Rightarrow> IterAt n | None \<Rightarrow> IterEnd)"

definition pa_hashmap_iterate :: "('k, 'v) pa_hashmap \<Rightarrow> iter_state \<Rightarrow> (('k \<times> 'v) option \<times> iter_state) res" where
  "pa_hashmap_iterate h state =
     (let visit = (\<lambda>a. bindR (he_get h a) (\<lambda>e. Inr (Some (he_key e, he_value e), iter_advance (iterate_next e))))
      in case state of
           IterEnd \<Rightarrow> Inr (None, IterEnd)
         | IterStart \<Rightarrow> (case iterate_list_head h of None \<Rightarrow> Inr (None, IterEnd) | Some a \<Rightarrow> visit a)
         | IterAt a \<Rightarrow> visit a)"

definition pa_hashmap_iterate_backwards ::
    "('k, 'v) pa_hashmap \<Rightarrow> iter_state \<Rightarrow> (('k \<times> 'v) option \<times> iter_state) res" where
  "pa_hashmap_iterate_backwards h state =
     (let visit = (\<lambda>a. bindR (he_get h a) (\<lambda>e. Inr (Some (he_key e, he_value e), iter_advance (iterate_previous e))))
      in case state of
           IterEnd \<Rightarrow> Inr (None, IterEnd)
         | IterStart \<Rightarrow> (case iterate_list_tail h of None \<Rightarrow> Inr (None, IterEnd) | Some a \<Rightarrow> visit a)
         | IterAt a \<Rightarrow> visit a)"

definition pa_hashmap_first :: "('k, 'v) pa_hashmap \<Rightarrow> 'v option res" where
  "pa_hashmap_first h = (case iterate_list_head h of None \<Rightarrow> Inr None
     | Some a \<Rightarrow> bindR (he_get h a) (\<lambda>e. Inr (Some (he_value e))))"

definition pa_hashmap_last :: "('k, 'v) pa_hashmap \<Rightarrow> 'v option res" where
  "pa_hashmap_last h = (case iterate_list_tail h of None \<Rightarrow> Inr None
     | Some a \<Rightarrow> bindR (he_get h a) (\<lambda>e. Inr (Some (he_value e))))"

definition pa_hashmap_steal_first :: "('k, 'v) pa_hashmap \<Rightarrow> ('v option \<times> ('k, 'v) pa_hashmap) res" where
  "pa_hashmap_steal_first h = (case iterate_list_head h of None \<Rightarrow> Inr (None, h)
     | Some a \<Rightarrow> bindR (he_get h a) (\<lambda>e. bindR (remove_entry h a) (\<lambda>h. Inr (Some (he_value e), h))))"

definition pa_hashmap_size :: "('k, 'v) pa_hashmap \<Rightarrow> u32" where
  "pa_hashmap_size h = n_entries h"

definition pa_hashmap_isempty :: "('k, 'v) pa_hashmap \<Rightarrow> bool" where
  "pa_hashmap_isempty h \<longleftrightarrow> n_entries h = 0"

definition pa_hashmap_free :: "('k, 'v) pa_hashmap \<Rightarrow> ('k, 'v) free_call list res" where
  "pa_hashmap_free h = bindR (pa_hashmap_remove_all h) (\<lambda>h. Inr (hm_freed h))"

text \<open>The hash and comparison functions for strings; \<open>char\<close> is signed. A C string is the
  list of its bytes before the terminating NUL, none of which is 0; of the result of \<^verbatim>\<open>strcmp\<close> only
  the sign is specified.\<close>

definition pa_idxset_string_hash_func :: "bytes \<Rightarrow> u32" where
  "pa_idxset_string_hash_func s = foldl (\<lambda>hash c. 31 * hash + scast c) 0 s"

fun pa_idxset_string_compare_func :: "bytes \<Rightarrow> bytes \<Rightarrow> int" where
  "pa_idxset_string_compare_func [] [] = 0"
| "pa_idxset_string_compare_func [] (b # bs) = -1"
| "pa_idxset_string_compare_func (a # as) [] = 1"
| "pa_idxset_string_compare_func (a # as) (b # bs) =
     (if a = b then pa_idxset_string_compare_func as bs else if a < b then -1 else 1)"

section \<open>Unlinking an entry\<close>

text \<open>What \<^verbatim>\<open>remove_entry\<close> does to the cells on the two sides of the entry, for each list.\<close>

abbreviation cell :: "('k, 'v) pa_hashmap \<Rightarrow> nat \<Rightarrow> ('k, 'v) hashmap_entry" where
  "cell h a \<equiv> the (hm_heap h a)"

definition relink_iterate :: "nat list \<Rightarrow> nat list \<Rightarrow> ('k, 'v) pa_hashmap \<Rightarrow> nat \<Rightarrow> ('k, 'v) hashmap_entry option" where
  "relink_iterate ys zs h = (\<lambda>b. map_option (\<lambda>e. e\<lparr>
     iterate_next := (if Some b = olast ys then ohd zs else iterate_next e),
     iterate_previous := (if Some b = ohd zs then olast ys else iterate_previous e)\<rparr>) (hm_heap h b))"

definition relink_bucket :: "nat list \<Rightarrow> nat list \<Rightarrow> ('k, 'v) pa_hashmap \<Rightarrow> nat \<Rightarrow> ('k, 'v) hashmap_entry option" where
  "relink_bucket ys zs h = (\<lambda>b. map_option (\<lambda>e. e\<lparr>
     bucket_next := (if Some b = olast ys then ohd zs else bucket_next e),
     bucket_previous := (if Some b = ohd zs then olast ys else bucket_previous e)\<rparr>) (hm_heap h b))"

lemma entry_updates_id [simp]:
  "e\<lparr>iterate_next := iterate_next e\<rparr> = e" "e\<lparr>iterate_previous := iterate_previous e\<rparr> = e"
  "e\<lparr>bucket_next := bucket_next e\<rparr> = e" "e\<lparr>bucket_previous := bucket_previous e\<rparr> = e"
  by simp_all

lemma he_get_cell [simp]: "a \<in> dom (hm_heap h) \<Longrightarrow> he_get h a = Inr (cell h a)"
  by (auto simp: he_get_def)

lemma linked_ends:
  assumes "linked nxt prv (ys @ a # zs)"
  shows "nxt a \<noteq> Some a" "prv a \<noteq> Some a" "nxt a = Some n \<Longrightarrow> n \<in> set zs" "prv a = Some p \<Longrightarrow> p \<in> set ys"
    "nxt a = Some n \<Longrightarrow> prv a \<noteq> Some n"
  using linked_split [OF assms] ohd_mem [of zs] ohd_mem [of ys] by auto

lemma unlink_iterate_ok:
  assumes l: "linked (\<lambda>b. iterate_next (cell h b)) (\<lambda>b. iterate_previous (cell h b)) (ys @ a # zs)"
    and d: "set (ys @ a # zs) \<subseteq> dom (hm_heap h)"
  shows "unlink_iterate h a = Inr (h\<lparr>
     hm_heap := relink_iterate ys zs h,
     iterate_list_tail := (if zs = [] then olast ys else iterate_list_tail h),
     iterate_list_head := (if ys = [] then ohd zs else iterate_list_head h)\<rparr>)"
proof -
  obtain e where e: "hm_heap h a = Some e" "iterate_next e = ohd zs" "iterate_previous e = olast ys"
    using linked_split(1,2) [OF l] d by auto
  note n = linked_ends [OF l]
  have nx: "\<And>x. ohd zs = Some x \<Longrightarrow> x \<noteq> a \<and> x \<in> dom (hm_heap h)" using n(1,3) e d by auto
  have pv: "\<And>x. olast ys = Some x \<Longrightarrow> x \<noteq> a \<and> x \<in> dom (hm_heap h) \<and> ohd zs \<noteq> Some x"
    using n(2,4,5) e d by auto
  show ?thesis
  proof (cases "ohd zs"; cases "olast ys")
    assume "ohd zs = None" "olast ys = None"
    then show ?thesis using e by (simp add: unlink_iterate_def he_get_def relink_iterate_def option.map_ident)
  next
    fix p assume "ohd zs = None" "olast ys = Some p"
    then show ?thesis using e pv [of p]
      by (auto simp: unlink_iterate_def he_get_def he_upd_def relink_iterate_def option.map_ident
            intro!: pa_hashmap.equality ext)
  next
    fix x assume "ohd zs = Some x" "olast ys = None"
    then show ?thesis using e nx [of x]
      by (auto simp: unlink_iterate_def he_get_def he_upd_def relink_iterate_def option.map_ident
            intro!: pa_hashmap.equality ext)
  next
    fix x p assume "ohd zs = Some x" "olast ys = Some p"
    then show ?thesis using e nx [of x] pv [of p]
      by (auto simp: unlink_iterate_def he_get_def he_upd_def relink_iterate_def option.map_ident
            intro!: pa_hashmap.equality ext)
  qed
qed

lemma unlink_bucket_ok:
  assumes l: "linked (\<lambda>b. bucket_next (cell h b)) (\<lambda>b. bucket_previous (cell h b)) (ys @ a # zs)"
    and d: "set (ys @ a # zs) \<subseteq> dom (hm_heap h)"
  shows "unlink_bucket h a = Inr (h\<lparr>
     hm_heap := relink_bucket ys zs h,
     by_hash := (if ys = [] then (by_hash h)[hash_index h (he_key (cell h a)) := ohd zs] else by_hash h)\<rparr>)"
proof -
  obtain e where e: "hm_heap h a = Some e" "bucket_next e = ohd zs" "bucket_previous e = olast ys"
    using linked_split(1,2) [OF l] d by auto
  note n = linked_ends [OF l]
  have nx: "\<And>x. ohd zs = Some x \<Longrightarrow> x \<noteq> a \<and> x \<in> dom (hm_heap h)" using n(1,3) e d by auto
  have pv: "\<And>x. olast ys = Some x \<Longrightarrow> x \<noteq> a \<and> x \<in> dom (hm_heap h) \<and> ohd zs \<noteq> Some x"
    using n(2,4,5) e d by auto
  show ?thesis
  proof (cases "ohd zs"; cases "olast ys")
    assume "ohd zs = None" "olast ys = None"
    then show ?thesis using e
      by (simp add: unlink_bucket_def he_get_def relink_bucket_def option.map_ident hash_index_def)
  next
    fix p assume "ohd zs = None" "olast ys = Some p"
    then show ?thesis using e pv [of p]
      by (auto simp: unlink_bucket_def he_get_def he_upd_def relink_bucket_def option.map_ident
            hash_index_def intro!: pa_hashmap.equality ext)
  next
    fix x assume "ohd zs = Some x" "olast ys = None"
    then show ?thesis using e nx [of x]
      by (auto simp: unlink_bucket_def he_get_def he_upd_def relink_bucket_def option.map_ident
            hash_index_def intro!: pa_hashmap.equality ext)
  next
    fix x p assume "ohd zs = Some x" "olast ys = Some p"
    then show ?thesis using e nx [of x] pv [of p]
      by (auto simp: unlink_bucket_def he_get_def he_upd_def relink_bucket_def option.map_ident
            hash_index_def intro!: pa_hashmap.equality ext)
  qed
qed

section \<open>The invariant and the abstraction\<close>

text \<open>
  \<open>hm_rel h it bs\<close>: \<open>it\<close> are the addresses on the iteration list, \<open>bs i\<close> those of bucket \<open>i\<close>. Every
  entry is on the iteration list and in the bucket of its key, no key occurs twice, the entry count is
  exact and addresses from \<open>hm_fresh\<close> on are unused.
\<close>

definition hm_rel :: "('k, 'v) pa_hashmap \<Rightarrow> nat list \<Rightarrow> (nat \<Rightarrow> nat list) \<Rightarrow> bool" where
  "hm_rel h it bs \<longleftrightarrow>
     linked (\<lambda>b. iterate_next (cell h b)) (\<lambda>b. iterate_previous (cell h b)) it \<and>
     iterate_list_head h = ohd it \<and> iterate_list_tail h = olast it \<and>
     length (by_hash h) = NBUCKETS \<and>
     (\<forall>i<NBUCKETS. linked (\<lambda>b. bucket_next (cell h b)) (\<lambda>b. bucket_previous (cell h b)) (bs i) \<and>
        by_hash h ! i = ohd (bs i) \<and>
        set (bs i) = {a \<in> set it. hash_index h (he_key (cell h a)) = i}) \<and>
     dom (hm_heap h) = set it \<and> inj_on (\<lambda>a. he_key (cell h a)) (set it) \<and>
     n_entries h = of_nat (length it) \<and> length it < 2 ^ 32 \<and> (\<forall>a\<in>set it. a < hm_fresh h) \<and>
     (\<forall>x y. compare_func h x y = 0 \<longleftrightarrow> x = y)"

lemma hm_relD:
  assumes "hm_rel h it bs"
  shows "linked (\<lambda>b. iterate_next (cell h b)) (\<lambda>b. iterate_previous (cell h b)) it"
    and "iterate_list_head h = ohd it" and "iterate_list_tail h = olast it"
    and "length (by_hash h) = NBUCKETS"
    and "i < NBUCKETS \<Longrightarrow> linked (\<lambda>b. bucket_next (cell h b)) (\<lambda>b. bucket_previous (cell h b)) (bs i)"
    and "i < NBUCKETS \<Longrightarrow> by_hash h ! i = ohd (bs i)"
    and "i < NBUCKETS \<Longrightarrow> set (bs i) = {a \<in> set it. hash_index h (he_key (cell h a)) = i}"
    and "dom (hm_heap h) = set it" and "inj_on (\<lambda>a. he_key (cell h a)) (set it)"
    and "unat (n_entries h) = length it" and "length it < 2 ^ 32" and "a \<in> set it \<Longrightarrow> a < hm_fresh h"
    and "compare_func h x y = 0 \<longleftrightarrow> x = y" and "n_entries h = of_nat (length it)"
  using assms unfolding hm_rel_def by auto

definition contents :: "('k, 'v) pa_hashmap \<Rightarrow> nat list \<Rightarrow> ('k \<times> 'v) list" where
  "contents h it = map (\<lambda>a. (he_key (cell h a), he_value (cell h a))) it"

text \<open>\<open>hm_abs h kvs\<close>: the table holds the pairs \<open>kvs\<close>, in the order in which their keys were added.\<close>

definition hm_abs :: "('k, 'v) pa_hashmap \<Rightarrow> ('k \<times> 'v) list \<Rightarrow> bool" where
  "hm_abs h kvs \<longleftrightarrow> (\<exists>it bs. hm_rel h it bs \<and> kvs = contents h it)"

lemma hash_index_less [simp]: "hash_index h k < NBUCKETS"
  by (simp add: hash_index_def NBUCKETS_def)

lemma bucket_short: "hm_rel h it bs \<Longrightarrow> i < NBUCKETS \<Longrightarrow> length (bs i) \<le> unat (n_entries h)"
proof -
  assume r: "hm_rel h it bs" and i: "i < NBUCKETS"
  have "distinct (bs i)" using hm_relD(5) [OF r i] by (simp add: linked_def)
  then have "length (bs i) = card (set (bs i))" by (simp add: distinct_card)
  also have "\<dots> \<le> card (set it)" by (rule card_mono) (use hm_relD(7) [OF r i] in auto)
  finally show ?thesis using hm_relD(10) [OF r] card_length [of it] by simp
qed

lemma hash_scan_from_ok:
  assumes "linked (\<lambda>b. bucket_next (cell h b)) prv (us @ xs)" and "length xs \<le> n"
    and "set xs \<subseteq> dom (hm_heap h)" and "\<And>x y. compare_func h x y = 0 \<longleftrightarrow> x = y"
  shows "hash_scan_from n h key (ohd xs) = Inr (find (\<lambda>a. he_key (cell h a) = key) xs)"
  using assms(1-3)
proof (induction xs arbitrary: n us)
  case Nil
  then show ?case by simp
next
  case (Cons a xs)
  obtain m where n: "n = Suc m" using Cons.prems(2) by (cases n) simp_all
  have "bucket_next (cell h a) = ohd xs" by (rule linked_split(1) [OF Cons.prems(1)])
  moreover have "hash_scan_from m h key (ohd xs) = Inr (find (\<lambda>a. he_key (cell h a) = key) xs)"
    by (rule Cons.IH [of "us @ [a]"]) (use Cons.prems n in simp_all)
  ultimately show ?case using Cons.prems(3) by (simp add: n assms(4) )
qed

lemma hash_scan_ok:
  assumes r: "hm_rel h it bs"
  shows "hash_scan h (hash_index h k) k = Inr (find (\<lambda>a. he_key (cell h a) = k) it)"
proof -
  let ?i = "hash_index h k"
  let ?P = "\<lambda>a. he_key (cell h a) = k"
  have "hash_scan_from (unat (n_entries h)) h k (ohd (bs ?i)) = Inr (find ?P (bs ?i))"
    by (rule hash_scan_from_ok [of h "\<lambda>b. bucket_previous (cell h b)" "[]"])
      (use hm_relD(5,7,8,13) [OF r] bucket_short [OF r] in auto)
  moreover have "find ?P (bs ?i) = find ?P it"
  proof (cases "find ?P it")
    case None
    then have "find ?P (bs ?i) = None" using hm_relD(7) [OF r, of ?i] by (auto simp: find_None_iff)
    then show ?thesis using None by simp
  next
    case (Some a)
    then have a: "a \<in> set it" "?P a" by (auto simp: find_Some_iff)
    then have "a \<in> set (bs ?i)" using hm_relD(7) [OF r, of ?i] by simp
    then obtain b where b: "find ?P (bs ?i) = Some b" using a(2) by (cases "find ?P (bs ?i)") (auto simp: find_None_iff)
    then have "b \<in> set (bs ?i)" "?P b" by (auto simp: find_Some_iff)
    then have "b = a" using a hm_relD(7) [OF r, of ?i] hm_relD(9) [OF r] by (auto simp: inj_on_def)
    then show ?thesis using Some b by simp
  qed
  ultimately show ?thesis using hm_relD(6) [OF r, of ?i] by (simp add: hash_scan_def)
qed

lemma contents_keys: "map fst (contents h it) = map (\<lambda>a. he_key (cell h a)) it"
  by (simp add: contents_def)

lemma find_contents:
  "map_of (contents h it) k = map_option (\<lambda>a. he_value (cell h a)) (find (\<lambda>a. he_key (cell h a) = k) it)"
  by (induction it) (auto simp: contents_def)

lemma hm_abs_distinct: "hm_abs h kvs \<Longrightarrow> distinct (map fst kvs)"
proof -
  assume "hm_abs h kvs"
  then obtain it bs where r: "hm_rel h it bs" and k: "kvs = contents h it" by (auto simp: hm_abs_def)
  show ?thesis using hm_relD(1,9) [OF r] unfolding k contents_keys by (simp add: distinct_map linked_def)
qed

lemma hashmap_get_ok: "hm_abs h kvs \<Longrightarrow> pa_hashmap_get h k = Inr (map_of kvs k)"
  unfolding hm_abs_def
proof (elim exE conjE)
  fix it bs
  assume r: "hm_rel h it bs" and k: "kvs = contents h it"
  have "\<And>a. find (\<lambda>a. he_key (cell h a) = k) it = Some a \<Longrightarrow> a \<in> dom (hm_heap h)"
    using hm_relD(8) [OF r] by (auto simp: find_Some_iff)
  then show ?thesis by (auto simp: pa_hashmap_get_def hash_scan_ok [OF r] k find_contents
        split: option.split)
qed

section \<open>Removing and adding entries\<close>

named_theorems relink_simps \<open>fields of the cells around a removed entry\<close>

lemma relink_dom [relink_simps]:
  "dom (relink_iterate ys zs h) = dom (hm_heap h)" "dom (relink_bucket ys zs h) = dom (hm_heap h)"
  by (auto simp: relink_iterate_def relink_bucket_def)

lemma relink_iterate_fields [relink_simps]:
  assumes "a \<in> dom (hm_heap h)"
  shows "he_key (the (relink_iterate ys zs h a)) = he_key (cell h a)"
    "he_value (the (relink_iterate ys zs h a)) = he_value (cell h a)"
    "bucket_next (the (relink_iterate ys zs h a)) = bucket_next (cell h a)"
    "bucket_previous (the (relink_iterate ys zs h a)) = bucket_previous (cell h a)"
    "iterate_next (the (relink_iterate ys zs h a)) = (if Some a = olast ys then ohd zs else iterate_next (cell h a))"
    "iterate_previous (the (relink_iterate ys zs h a)) = (if Some a = ohd zs then olast ys else iterate_previous (cell h a))"
  using assms by (auto simp: relink_iterate_def)

lemma relink_bucket_fields [relink_simps]:
  assumes "a \<in> dom (hm_heap h)"
  shows "he_key (the (relink_bucket ys zs h a)) = he_key (cell h a)"
    "he_value (the (relink_bucket ys zs h a)) = he_value (cell h a)"
    "iterate_next (the (relink_bucket ys zs h a)) = iterate_next (cell h a)"
    "iterate_previous (the (relink_bucket ys zs h a)) = iterate_previous (cell h a)"
    "bucket_next (the (relink_bucket ys zs h a)) = (if Some a = olast ys then ohd zs else bucket_next (cell h a))"
    "bucket_previous (the (relink_bucket ys zs h a)) = (if Some a = ohd zs then olast ys else bucket_previous (cell h a))"
  using assms by (auto simp: relink_bucket_def)

text \<open>The heap after a whole \<^verbatim>\<open>remove_entry\<close>, and the table.\<close>

definition removed_heap where
  "removed_heap h a ys zs us vs =
     (relink_bucket us vs (h\<lparr>hm_heap := relink_iterate ys zs h\<rparr>))(a := None)"

lemma removed_heap_dom [relink_simps]: "dom (removed_heap h a ys zs us vs) = dom (hm_heap h) - {a}"
  by (auto simp: removed_heap_def relink_bucket_def relink_iterate_def)

lemma removed_heap_fields [relink_simps]:
  assumes "b \<in> dom (hm_heap h)" and "b \<noteq> a"
  shows "he_key (the (removed_heap h a ys zs us vs b)) = he_key (cell h b)"
    "he_value (the (removed_heap h a ys zs us vs b)) = he_value (cell h b)"
    "iterate_next (the (removed_heap h a ys zs us vs b)) = (if Some b = olast ys then ohd zs else iterate_next (cell h b))"
    "iterate_previous (the (removed_heap h a ys zs us vs b)) = (if Some b = ohd zs then olast ys else iterate_previous (cell h b))"
    "bucket_next (the (removed_heap h a ys zs us vs b)) = (if Some b = olast us then ohd vs else bucket_next (cell h b))"
    "bucket_previous (the (removed_heap h a ys zs us vs b)) = (if Some b = ohd vs then olast us else bucket_previous (cell h b))"
  using assms by (simp_all add: removed_heap_def relink_simps)

definition removed_table where
  "removed_table h a ys zs us vs = h\<lparr>
     hm_heap := removed_heap h a ys zs us vs,
     iterate_list_tail := olast (ys @ zs), iterate_list_head := ohd (ys @ zs),
     by_hash := (by_hash h)[hash_index h (he_key (cell h a)) := ohd (us @ vs)],
     hm_freed := hm_freed h @ (if key_free_func h then [FreeKey (he_key (cell h a))] else []),
     n_entries := of_nat (length (ys @ zs))\<rparr>"

lemma remove_entry_eq:
  assumes r: "hm_rel h it bs" and it: "it = ys @ a # zs"
    and b: "bs (hash_index h (he_key (cell h a))) = us @ a # vs"
  shows "remove_entry h a = Inr (removed_table h a ys zs us vs)"
proof -
  let ?i = "hash_index h (he_key (cell h a))"
  let ?h = "h\<lparr>hm_heap := relink_iterate ys zs h, iterate_list_tail := olast (ys @ zs),
    iterate_list_head := ohd (ys @ zs)\<rparr>"
  have a: "a \<in> dom (hm_heap h)" using hm_relD(8) [OF r] it by simp
  have "linked (\<lambda>b. iterate_next (cell h b)) (\<lambda>b. iterate_previous (cell h b)) (ys @ a # zs)"
    using hm_relD(1) [OF r] it by simp
  then have 1: "unlink_iterate h a = Inr ?h"
    by (subst unlink_iterate_ok) (use hm_relD(2,3,8) [OF r] it in \<open>auto simp: link_simps\<close>)
  have sub: "set (us @ a # vs) \<subseteq> dom (hm_heap h)" using hm_relD(7) [OF r, of ?i] hm_relD(8) [OF r] b by auto
  have "linked (\<lambda>b. bucket_next (cell ?h b)) (\<lambda>b. bucket_previous (cell ?h b)) (us @ a # vs) =
      linked (\<lambda>b. bucket_next (cell h b)) (\<lambda>b. bucket_previous (cell h b)) (us @ a # vs)"
    using subsetD [OF sub] by (intro linked_cong) (simp add: relink_simps)
  then have l: "linked (\<lambda>b. bucket_next (cell ?h b)) (\<lambda>b. bucket_previous (cell ?h b)) (us @ a # vs)"
    using hm_relD(5) [OF r, of ?i] b by simp
  have d: "set (us @ a # vs) \<subseteq> dom (hm_heap ?h)" using sub by (simp add: relink_simps)
  have i: "hash_index ?h (he_key (cell ?h a)) = ?i" using a by (simp add: relink_simps hash_index_def)
  have "(by_hash h)[?i := ohd (us @ vs)] = by_hash h" if "us \<noteq> []"
    using that hm_relD(6) [OF r, of ?i] b by (cases us) (simp_all add: list_update_same_conv hm_relD(4) [OF r])
  then have 2: "unlink_bucket ?h a = Inr (?h\<lparr>hm_heap := relink_bucket us vs ?h,
      by_hash := (by_hash h)[?i := ohd (us @ vs)]\<rparr>)"
    unfolding unlink_bucket_ok [OF l d] i by simp
  have 3: "relink_bucket us vs ?h = relink_bucket us vs (h\<lparr>hm_heap := relink_iterate ys zs h\<rparr>)"
    by (simp add: relink_bucket_def)
  have "1 \<le> n_entries h" "n_entries h - 1 = of_nat (length (ys @ zs))"
    using hm_relD(10,14) [OF r] it by (simp_all add: word_le_nat_alt)
  then show ?thesis using a
    by (simp add: remove_entry_def removed_table_def removed_heap_def 1 2 3 Let_def relink_simps)
qed

lemma removed_table_rel:
  assumes r: "hm_rel h it bs" and it: "it = ys @ a # zs"
    and b: "bs (hash_index h (he_key (cell h a))) = us @ a # vs"
  shows "hm_rel (removed_table h a ys zs us vs) (ys @ zs) (bs(hash_index h (he_key (cell h a)) := us @ vs))"
    (is "hm_rel ?h _ (bs(?i := _))")
proof -
  have h: "hm_heap ?h = removed_heap h a ys zs us vs" by (simp add: removed_table_def)
  have d: "\<And>x. x \<in> set it \<Longrightarrow> x \<in> dom (hm_heap h)" using hm_relD(8) [OF r] by simp
  have dit: "distinct it" using hm_relD(1) [OF r] by (simp add: linked_def)
  have na: "\<And>x. x \<in> set (ys @ zs) \<Longrightarrow> x \<noteq> a" and di: "\<And>x. x \<in> set (ys @ zs) \<Longrightarrow> x \<in> set it" using dit it by auto
  have idx: "\<And>k. hash_index ?h k = hash_index h k" by (simp add: hash_index_def removed_table_def)
  have bset: "\<And>j. j < NBUCKETS \<Longrightarrow> set (bs j) = {x \<in> set it. hash_index h (he_key (cell h x)) = j}"
    using hm_relD(7) [OF r] .
  have l1: "linked (\<lambda>b. iterate_next (cell ?h b)) (\<lambda>b. iterate_previous (cell ?h b)) (ys @ zs)"
    by (rule linked_remove [of "\<lambda>b. iterate_next (cell h b)" "\<lambda>b. iterate_previous (cell h b)" ys a zs])
      (use hm_relD(1) [OF r] it in \<open>simp, simp_all add: h relink_simps d di na\<close>)
  have du: "x \<in> set it \<and> x \<noteq> a" if "x \<in> set (us @ vs)" for x
    using that bset [of ?i] hm_relD(5) [OF r, of ?i] by (auto simp: b linked_def)
  have l2: "linked (\<lambda>b. bucket_next (cell ?h b)) (\<lambda>b. bucket_previous (cell ?h b)) (us @ vs)"
    by (rule linked_remove [of "\<lambda>b. bucket_next (cell h b)" "\<lambda>b. bucket_previous (cell h b)" us a vs])
      (use hm_relD(5) [OF r, of ?i] b in \<open>simp, simp_all add: h relink_simps d du\<close>)
  have l3: "linked (\<lambda>b. bucket_next (cell ?h b)) (\<lambda>b. bucket_previous (cell ?h b)) (bs j)"
    if j: "j < NBUCKETS" "j \<noteq> ?i" for j
  proof -
    have "x \<in> set it \<and> x \<noteq> a \<and> Some x \<noteq> olast us \<and> Some x \<noteq> ohd vs" if x: "x \<in> set (bs j)" for x
      using x j ohd_mem(2) [of us x] ohd_mem(1) [of vs x] bset [of j] bset [of ?i] b by auto
    then have "linked (\<lambda>b. bucket_next (cell ?h b)) (\<lambda>b. bucket_previous (cell ?h b)) (bs j) =
        linked (\<lambda>b. bucket_next (cell h b)) (\<lambda>b. bucket_previous (cell h b)) (bs j)"
      by (intro linked_cong) (simp add: h relink_simps d)
    then show ?thesis using hm_relD(5) [OF r j(1)] by simp
  qed
  have s: "set (ys @ zs) = set it - {a}" using dit it by auto
  have bk: "set (us @ vs) = set (bs ?i) - {a}" using hm_relD(5) [OF r, of ?i] b by (auto simp: linked_def)
  have key: "\<And>x. x \<in> set it - {a} \<Longrightarrow> he_key (cell ?h x) = he_key (cell h x)" by (simp add: h relink_simps d)
  have sets: "set ((bs(?i := us @ vs)) j) = {x \<in> set (ys @ zs). hash_index ?h (he_key (cell ?h x)) = j}"
    if j: "j < NBUCKETS" for j
  proof -
    have "{x \<in> set (ys @ zs). hash_index ?h (he_key (cell ?h x)) = j} =
        {x \<in> set it - {a}. hash_index h (he_key (cell h x)) = j}"
      unfolding s idx by (rule Collect_cong) (metis key)
    also have "\<dots> = set (bs j) - {a}" using bset [OF j] by blast
    also have "\<dots> = set ((bs(?i := us @ vs)) j)"
      using bk bset [OF j] by (cases "j = ?i") (simp_all del: set_append)
    finally show ?thesis ..
  qed
  have inj: "inj_on (\<lambda>x. he_key (cell ?h x)) (set (ys @ zs))"
    using hm_relD(9) [OF r] key unfolding s by (simp add: inj_on_def)
  show ?thesis unfolding hm_rel_def
  proof (intro conjI allI ballI impI)
    show "dom (hm_heap ?h) = set (ys @ zs)" using hm_relD(8) [OF r] s by (simp add: h relink_simps)
    show "by_hash ?h ! j = ohd ((bs(?i := us @ vs)) j)" if "j < NBUCKETS" for j
      using that hm_relD(4,6) [OF r] by (simp add: removed_table_def nth_list_update)
  qed (use l1 l2 l3 sets inj hm_relD(4,11,12,13) [OF r] it in \<open>auto simp: removed_table_def\<close>)
qed

text \<open>The heap and the table after a successful \<^verbatim>\<open>pa_hashmap_put\<close>.\<close>

definition added_heap where
  "added_heap h key value =
     (\<lambda>x. map_option (\<lambda>e. e\<lparr>
        bucket_previous := (if Some x = by_hash h ! hash_index h key then Some (hm_fresh h) else bucket_previous e),
        iterate_next := (if Some x = iterate_list_tail h then Some (hm_fresh h) else iterate_next e)\<rparr>) (hm_heap h x))
     (hm_fresh h \<mapsto> \<lparr>he_key = key, he_value = value, bucket_next = by_hash h ! hash_index h key,
        bucket_previous = None, iterate_next = None, iterate_previous = iterate_list_tail h\<rparr>)"

lemma added_heap_dom [relink_simps]: "dom (added_heap h key value) = insert (hm_fresh h) (dom (hm_heap h))"
  by (auto simp: added_heap_def)

lemma added_heap_new [relink_simps]:
  "added_heap h key value (hm_fresh h) =
     Some \<lparr>he_key = key, he_value = value, bucket_next = by_hash h ! hash_index h key,
        bucket_previous = None, iterate_next = None, iterate_previous = iterate_list_tail h\<rparr>"
  by (simp add: added_heap_def)

lemma added_heap_fields [relink_simps]:
  assumes "b \<in> dom (hm_heap h)" and "b \<noteq> hm_fresh h"
  shows "he_key (the (added_heap h key value b)) = he_key (cell h b)"
    "he_value (the (added_heap h key value b)) = he_value (cell h b)"
    "iterate_next (the (added_heap h key value b)) =
       (if Some b = iterate_list_tail h then Some (hm_fresh h) else iterate_next (cell h b))"
    "iterate_previous (the (added_heap h key value b)) = iterate_previous (cell h b)"
    "bucket_next (the (added_heap h key value b)) = bucket_next (cell h b)"
    "bucket_previous (the (added_heap h key value b)) =
       (if Some b = by_hash h ! hash_index h key then Some (hm_fresh h) else bucket_previous (cell h b))"
  using assms by (auto simp: added_heap_def)

definition added_table where
  "added_table h key value = h\<lparr>
     hm_heap := added_heap h key value, hm_fresh := Suc (hm_fresh h),
     by_hash := (by_hash h)[hash_index h key := Some (hm_fresh h)],
     iterate_list_head := (if iterate_list_tail h = None then Some (hm_fresh h) else iterate_list_head h),
     iterate_list_tail := Some (hm_fresh h), n_entries := n_entries h + 1\<rparr>"

lemma put_eq:
  assumes r: "hm_rel h it bs" and new: "\<And>a. a \<in> set it \<Longrightarrow> he_key (cell h a) \<noteq> key"
    and room: "length it + 1 < 2 ^ 32"
  shows "pa_hashmap_put h key value = Inr (0, added_table h key value)"
proof -
  let ?i = "hash_index h key"
  have scan: "hash_scan h ?i key = Inr None"
    using new by (simp add: hash_scan_ok [OF r] find_None_iff)
  have bh: "x \<in> set it" if "by_hash h ! ?i = Some x" for x
    using that hm_relD(6,7) [OF r, of ?i] ohd_mem(1) [of "bs ?i" x] by auto
  have tl: "x \<in> set it" if "iterate_list_tail h = Some x" for x
    using that hm_relD(3) [OF r] ohd_mem(2) [of it x] by auto
  have mem: "x \<in> set it \<Longrightarrow> x \<noteq> hm_fresh h \<and> (\<exists>e. hm_heap h x = Some e)" for x
    using hm_relD(8,12) [OF r] by (auto simp: dom_def)
  have fresh: "hm_heap h (hm_fresh h) = None" using hm_relD(8,12) [OF r] by (metis domIff less_irrefl)
  have cnt: "1 \<le> n_entries h + 1"
  proof -
    have "n_entries h + 1 = of_nat (length it + 1)" by (simp add: hm_relD(14) [OF r])
    then have "unat (n_entries h + 1) = length it + 1" using room by (simp only: of_nat_less_word32_iff)
    then show ?thesis by (simp add: word_le_nat_alt)
  qed
  have hd: "(iterate_list_head h = None) = (iterate_list_tail h = None)" using hm_relD(2,3) [OF r] by simp
  show ?thesis
  proof (cases "by_hash h ! ?i"; cases "iterate_list_tail h")
    assume "by_hash h ! ?i = None" "iterate_list_tail h = None"
    then show ?thesis using scan cnt hd
      by (auto simp: pa_hashmap_put_def Let_def added_table_def added_heap_def option.map_ident intro!: pa_hashmap.equality ext)
  next
    fix t assume "by_hash h ! ?i = None" "iterate_list_tail h = Some t"
    then show ?thesis using scan cnt hd tl [of t] mem [of t] fresh
      by (auto simp: pa_hashmap_put_def Let_def added_table_def added_heap_def option.map_ident he_upd_def he_get_def
            intro!: pa_hashmap.equality ext)
  next
    fix x assume "by_hash h ! ?i = Some x" "iterate_list_tail h = None"
    then show ?thesis using bh [of x] hm_relD(3) [OF r] by auto
  next
    fix x t assume "by_hash h ! ?i = Some x" "iterate_list_tail h = Some t"
    then show ?thesis using scan cnt hd tl [of t] bh [of x] mem [of t] mem [of x] fresh
      by (auto simp: pa_hashmap_put_def Let_def added_table_def added_heap_def option.map_ident he_upd_def he_get_def
            intro!: pa_hashmap.equality ext)
  qed
qed

lemma added_table_rel:
  assumes r: "hm_rel h it bs" and new: "\<And>a. a \<in> set it \<Longrightarrow> he_key (cell h a) \<noteq> key"
    and room: "length it + 1 < 2 ^ 32"
  shows "hm_rel (added_table h key value) (it @ [hm_fresh h])
           (bs(hash_index h key := hm_fresh h # bs (hash_index h key)))"
    (is "hm_rel ?h (it @ [?a]) (bs(?i := _))")
proof -
  have h: "hm_heap ?h = added_heap h key value" by (simp add: added_table_def)
  have d: "\<And>x. x \<in> set it \<Longrightarrow> x \<in> dom (hm_heap h) \<and> x \<noteq> ?a" using hm_relD(8,12) [OF r] by auto
  have idx: "\<And>k. hash_index ?h k = hash_index h k" by (simp add: hash_index_def added_table_def)
  have bset: "\<And>j. j < NBUCKETS \<Longrightarrow> set (bs j) = {x \<in> set it. hash_index h (he_key (cell h x)) = j}"
    using hm_relD(7) [OF r] .
  have bit: "x \<in> set it" if "j < NBUCKETS" "x \<in> set (bs j)" for j x using that bset by auto
  have l1: "linked (\<lambda>b. iterate_next (cell ?h b)) (\<lambda>b. iterate_previous (cell ?h b)) (it @ [?a])"
    by (rule linked_snoc [OF hm_relD(1) [OF r]]) (use d hm_relD(3) [OF r] in \<open>auto simp: h relink_simps\<close>)
  have l2: "linked (\<lambda>b. bucket_next (cell ?h b)) (\<lambda>b. bucket_previous (cell ?h b)) (?a # bs ?i)"
    by (rule linked_Cons [OF hm_relD(5) [OF r, of ?i]])
      (use d bit [of ?i] hm_relD(6) [OF r, of ?i] in \<open>auto simp: h relink_simps\<close>)
  have l3: "linked (\<lambda>b. bucket_next (cell ?h b)) (\<lambda>b. bucket_previous (cell ?h b)) (bs j)"
    if j: "j < NBUCKETS" "j \<noteq> ?i" for j
  proof -
    have "Some x \<noteq> by_hash h ! ?i" if "x \<in> set (bs j)" for x
      using that j ohd_mem(1) [of "bs ?i" x] bset [of j] bset [of ?i] hm_relD(6) [OF r, of ?i] by auto
    then have "linked (\<lambda>b. bucket_next (cell ?h b)) (\<lambda>b. bucket_previous (cell ?h b)) (bs j) =
        linked (\<lambda>b. bucket_next (cell h b)) (\<lambda>b. bucket_previous (cell h b)) (bs j)"
      using bit [OF j(1)] d by (intro linked_cong) (simp add: h relink_simps)
    then show ?thesis using hm_relD(5) [OF r j(1)] by simp
  qed
  have key: "\<And>x. x \<in> set it \<Longrightarrow> he_key (cell ?h x) = he_key (cell h x)" using d by (simp add: h relink_simps)
  have keya: "he_key (cell ?h ?a) = key" by (simp add: h relink_simps)
  have sets: "set ((bs(?i := ?a # bs ?i)) j) = {x \<in> set (it @ [?a]). hash_index ?h (he_key (cell ?h x)) = j}"
    if j: "j < NBUCKETS" for j
  proof -
    have "{x \<in> set (it @ [?a]). hash_index ?h (he_key (cell ?h x)) = j} =
        {x \<in> set it. hash_index h (he_key (cell ?h x)) = j} \<union> (if j = ?i then {?a} else {})"
      unfolding idx using keya by auto
    also have "{x \<in> set it. hash_index h (he_key (cell ?h x)) = j} = set (bs j)"
      unfolding bset [OF j] by (rule Collect_cong) (metis key)
    finally show ?thesis by (cases "j = ?i") simp_all
  qed
  have inj: "inj_on (\<lambda>x. he_key (cell ?h x)) (set (it @ [?a]))"
  proof -
    have "inj_on (\<lambda>x. he_key (cell ?h x)) (set it)" using hm_relD(9) [OF r] key by (simp add: inj_on_def)
    moreover have "key \<notin> (\<lambda>x. he_key (cell ?h x)) ` set it" using new key by force
    ultimately show ?thesis using keya by (auto simp: inj_on_insert)
  qed
  show ?thesis unfolding hm_rel_def
  proof (intro conjI allI ballI impI)
    show "dom (hm_heap ?h) = set (it @ [?a])" using hm_relD(8) [OF r] by (simp add: h relink_simps)
    show "by_hash ?h ! j = ohd ((bs(?i := ?a # bs ?i)) j)" if "j < NBUCKETS" for j
      using that hm_relD(4,6) [OF r] by (simp add: added_table_def nth_list_update)
    show "iterate_list_head ?h = ohd (it @ [?a])"
      using hm_relD(2,3) [OF r] by (simp add: added_table_def link_simps)
    show "n_entries ?h = of_nat (length (it @ [?a]))" by (simp add: added_table_def hm_relD(14) [OF r])
  qed (use l1 l2 l3 sets inj hm_relD(4,12,13) [OF r] room in \<open>auto simp: added_table_def less_Suc_eq\<close>)
qed

text \<open>The operations on the abstraction. No operation changes the functions of the table.\<close>

definition same_callbacks :: "('k, 'v) pa_hashmap \<Rightarrow> ('k, 'v) pa_hashmap \<Rightarrow> bool" where
  "same_callbacks h h' \<longleftrightarrow> hash_func h' = hash_func h \<and> compare_func h' = compare_func h \<and>
     key_free_func h' = key_free_func h \<and> value_free_func h' = value_free_func h"

lemma contents_append: "contents h (xs @ ys) = contents h xs @ contents h ys"
  by (simp add: contents_def)

lemma hashmap_new_ok:
  "(\<And>x y. cmp x y = 0 \<longleftrightarrow> x = y) \<Longrightarrow> hm_abs (pa_hashmap_new_full hash cmp kf vf) []"
  unfolding hm_abs_def hm_rel_def
  by (rule exI [of _ "[]"], rule exI [of _ "\<lambda>_. []"])
    (auto simp: pa_hashmap_new_full_def contents_def NBUCKETS_def)

lemma hashmap_put_ok:
  assumes a: "hm_abs h kvs" and room: "length kvs + 1 < 2 ^ 32"
  shows "if k \<in> fst ` set kvs then pa_hashmap_put h k v = Inr (-1, h)
         else \<exists>h'. pa_hashmap_put h k v = Inr (0, h') \<and> hm_abs h' (kvs @ [(k, v)]) \<and>
                hm_freed h' = hm_freed h \<and> same_callbacks h h'"
proof -
  from a obtain it bs where r: "hm_rel h it bs" and k: "kvs = contents h it" by (auto simp: hm_abs_def)
  have keys: "fst ` set kvs = (\<lambda>a. he_key (cell h a)) ` set it" by (force simp: k contents_def)
  show ?thesis
  proof (cases "k \<in> fst ` set kvs")
    case True
    then have "find (\<lambda>a. he_key (cell h a) = k) it \<noteq> None" by (auto simp: keys find_None_iff)
    then show ?thesis using True by (auto simp: pa_hashmap_put_def hash_scan_ok [OF r] Let_def)
  next
    case False
    then have new: "\<And>a. a \<in> set it \<Longrightarrow> he_key (cell h a) \<noteq> k" by (auto simp: keys)
    have l: "length it + 1 < 2 ^ 32" using room by (simp add: k contents_def)
    have d: "\<And>x. x \<in> set it \<Longrightarrow> x \<in> dom (hm_heap h) \<and> x \<noteq> hm_fresh h" using hm_relD(8,12) [OF r] by auto
    have "contents (added_table h k v) (it @ [hm_fresh h]) = kvs @ [(k, v)]"
      using d by (auto simp: contents_def k added_table_def relink_simps)
    then have "hm_abs (added_table h k v) (kvs @ [(k, v)])"
      unfolding hm_abs_def using added_table_rel [OF r new l] by metis
    then show ?thesis using False put_eq [OF r new l] by (simp add: added_table_def same_callbacks_def)
  qed
qed

definition key_freed :: "('k, 'v) pa_hashmap \<Rightarrow> 'k \<Rightarrow> ('k, 'v) free_call list" where
  "key_freed h k = (if key_free_func h then [FreeKey k] else [])"

definition value_freed :: "('k, 'v) pa_hashmap \<Rightarrow> 'v \<Rightarrow> ('k, 'v) free_call list" where
  "value_freed h v = (if value_free_func h then [FreeValue v] else [])"

lemma remove_entry_ok:
  assumes r: "hm_rel h it bs" and it: "it = ys @ a # zs"
  shows "\<exists>h'. remove_entry h a = Inr h' \<and> hm_abs h' (contents h ys @ contents h zs) \<and>
     hm_freed h' = hm_freed h @ key_freed h (he_key (cell h a)) \<and> same_callbacks h h'"
proof -
  let ?i = "hash_index h (he_key (cell h a))"
  have "a \<in> set (bs ?i)" using hm_relD(7) [OF r, of ?i] it by simp
  then obtain us vs where b: "bs ?i = us @ a # vs" by (meson in_set_conv_decomp)
  let ?h = "removed_table h a ys zs us vs"
  have "distinct it" using hm_relD(1) [OF r] by (simp add: linked_def)
  then have d: "\<And>x. x \<in> set (ys @ zs) \<Longrightarrow> x \<in> dom (hm_heap h) \<and> x \<noteq> a" using hm_relD(8) [OF r] it by auto
  then have "contents ?h (ys @ zs) = contents h ys @ contents h zs"
    by (simp add: contents_def removed_table_def relink_simps)
  then have "hm_abs ?h (contents h ys @ contents h zs)"
    unfolding hm_abs_def using removed_table_rel [OF r it b] by metis
  then show ?thesis
    using remove_entry_eq [OF r it b] by (simp add: removed_table_def key_freed_def same_callbacks_def)
qed

lemma hashmap_remove_ok:
  assumes a: "hm_abs h kvs"
  shows "case map_of kvs k of None \<Rightarrow> pa_hashmap_remove h k = Inr (None, h)
     | Some v \<Rightarrow> \<exists>h'. pa_hashmap_remove h k = Inr (Some v, h') \<and>
         hm_abs h' (filter (\<lambda>(k', _). k' \<noteq> k) kvs) \<and> hm_freed h' = hm_freed h @ key_freed h k \<and> same_callbacks h h'"
proof -
  from a obtain it bs where r: "hm_rel h it bs" and kvs: "kvs = contents h it" by (auto simp: hm_abs_def)
  show ?thesis
  proof (cases "find (\<lambda>a. he_key (cell h a) = k) it")
    case None
    then show ?thesis by (simp add: kvs find_contents pa_hashmap_remove_def hash_scan_ok [OF r])
  next
    case (Some a)
    then have a: "a \<in> set it" "he_key (cell h a) = k" by (auto simp: find_Some_iff)
    then obtain ys zs where it: "it = ys @ a # zs" by (meson in_set_conv_decomp)
    have "distinct it" using hm_relD(1) [OF r] by (simp add: linked_def)
    then have ne: "\<And>x. x \<in> set (ys @ zs) \<Longrightarrow> he_key (cell h x) \<noteq> k"
      using hm_relD(9) [OF r] it a by (auto simp: inj_on_def)
    have f: "filter (\<lambda>(k', _). k' \<noteq> k) (contents h xs) = contents h xs" if "set xs \<subseteq> set (ys @ zs)" for xs
      using that ne by (intro filter_True) (auto simp: contents_def)
    have "filter (\<lambda>(k', _). k' \<noteq> k) kvs = contents h ys @ contents h zs"
      using f [of ys] f [of zs] a by (simp add: kvs it contents_append) (simp add: contents_def)
    moreover have "he_get h a = Inr (cell h a)" using a hm_relD(8) [OF r] by simp
    ultimately show ?thesis
      using remove_entry_ok [OF r it] Some a(2)
      by (auto simp: kvs find_contents pa_hashmap_remove_def hash_scan_ok [OF r])
  qed
qed

lemma free_value_ok:
  "hm_abs h kvs \<Longrightarrow> hm_abs (free_value h v) kvs" "hm_freed (free_value h v) = hm_freed h @ value_freed h v"
  "same_callbacks h (free_value h v)"
  by (auto simp: free_value_def value_freed_def hm_abs_def hm_rel_def contents_def hash_index_def same_callbacks_def)

lemma hashmap_remove_and_free_ok:
  assumes a: "hm_abs h kvs"
  shows "case map_of kvs k of None \<Rightarrow> pa_hashmap_remove_and_free h k = Inr (-1, h)
     | Some v \<Rightarrow> \<exists>h'. pa_hashmap_remove_and_free h k = Inr (0, h') \<and>
         hm_abs h' (filter (\<lambda>(k', _). k' \<noteq> k) kvs) \<and>
         hm_freed h' = hm_freed h @ key_freed h k @ value_freed h v \<and> same_callbacks h h'"
proof (cases "map_of kvs k")
  case None
  then show ?thesis using hashmap_remove_ok [OF a, of k] by (simp add: pa_hashmap_remove_and_free_def)
next
  case (Some v)
  then obtain h' where h': "pa_hashmap_remove h k = Inr (Some v, h')"
      "hm_abs h' (filter (\<lambda>(k', _). k' \<noteq> k) kvs)" "hm_freed h' = hm_freed h @ key_freed h k" "same_callbacks h h'"
    using hashmap_remove_ok [OF a, of k] by auto
  then show ?thesis using Some free_value_ok(1) [OF h'(2), of v] free_value_ok(2,3) [of h' v]
    by (auto simp: pa_hashmap_remove_and_free_def value_freed_def same_callbacks_def)
qed

lemma hm_abs_head:
  assumes "hm_abs h kvs"
  shows "kvs = [] \<longleftrightarrow> iterate_list_head h = None" and "unat (n_entries h) = length kvs"
    and "length kvs < 2 ^ 32"
  using assms by (auto simp: hm_abs_def contents_def dest: hm_relD(2,10,11))

text \<open>Taking the first entry out is one round of \<^verbatim>\<open>pa_hashmap_remove_all\<close> and of
  \<^verbatim>\<open>pa_hashmap_steal_first\<close>.\<close>

lemma remove_first_ok:
  assumes a: "hm_abs h ((k, v) # kvs)"
  shows "\<exists>a e h'. iterate_list_head h = Some a \<and> he_get h a = Inr e \<and> he_value e = v \<and>
     remove_entry h a = Inr h' \<and> hm_abs h' kvs \<and> hm_freed h' = hm_freed h @ key_freed h k \<and> same_callbacks h h'"
proof -
  from a obtain it bs where r: "hm_rel h it bs" and c: "contents h it = (k, v) # kvs" by (auto simp: hm_abs_def)
  then obtain a zs where it: "it = a # zs" by (cases it) (simp_all add: contents_def)
  have "a \<in> dom (hm_heap h)" using hm_relD(8) [OF r] it by simp
  then have "he_get h a = Inr (cell h a)" by simp
  moreover have "he_key (cell h a) = k" "he_value (cell h a) = v" "contents h zs = kvs"
    using c by (simp_all add: it contents_def)
  ultimately show ?thesis using remove_entry_ok [OF r, of "[]" a zs] hm_relD(2) [OF r] it
    by (auto simp: contents_def)
qed

lemma hashmap_steal_first_ok:
  "hm_abs h [] \<Longrightarrow> pa_hashmap_steal_first h = Inr (None, h)"
  "hm_abs h ((k, v) # kvs) \<Longrightarrow> \<exists>h'. pa_hashmap_steal_first h = Inr (Some v, h') \<and> hm_abs h' kvs \<and>
     hm_freed h' = hm_freed h @ key_freed h k \<and> same_callbacks h h'"
  using hm_abs_head(1) [of h "[]"] remove_first_ok [of h k v kvs] by (auto simp: pa_hashmap_steal_first_def)

declare remove_all_loop.simps [simp del]

lemma remove_all_loop_ok:
  "hm_abs h kvs \<Longrightarrow> length kvs \<le> n \<Longrightarrow> \<exists>h'. remove_all_loop n h = Inr h' \<and> hm_abs h' [] \<and>
     hm_freed h' = hm_freed h @ concat (map (\<lambda>(k, v). key_freed h k @ value_freed h v) kvs) \<and> same_callbacks h h'"
proof (induction kvs arbitrary: h n)
  case Nil
  then show ?case using hm_abs_head(1) [OF Nil.prems(1)]
    by (auto simp: remove_all_loop.simps [of n h] same_callbacks_def)
next
  case (Cons kv kvs)
  obtain k v where kv: "kv = (k, v)" by (cases kv)
  obtain m where n: "n = Suc m" using Cons.prems(2) by (cases n) simp_all
  from remove_first_ok [OF Cons.prems(1) [unfolded kv]] obtain a e h1 where
    h1: "iterate_list_head h = Some a" "he_get h a = Inr e" "he_value e = v" "remove_entry h a = Inr h1"
      "hm_abs h1 kvs" "hm_freed h1 = hm_freed h @ key_freed h k" "same_callbacks h h1" by blast
  let ?h = "free_value h1 v"
  have cb: "key_freed ?h = key_freed h" "value_freed ?h = value_freed h" "value_freed h1 = value_freed h"
      "same_callbacks h ?h"
    using h1(7) free_value_ok(3) [of h1 v]
    by (auto simp: same_callbacks_def key_freed_def value_freed_def fun_eq_iff)
  from Cons.IH [OF free_value_ok(1) [OF h1(5)], of m] Cons.prems(2) n obtain h2 where
    h2: "remove_all_loop m ?h = Inr h2" "hm_abs h2 []" "same_callbacks ?h h2"
      "hm_freed h2 = hm_freed ?h @ concat (map (\<lambda>(k, v). key_freed ?h k @ value_freed ?h v) kvs)" by fastforce
  have "remove_all_loop n h = Inr h2" unfolding n using h1(1-4) h2(1) by (subst remove_all_loop.simps) simp
  moreover have "hm_freed h2 = hm_freed h @ concat (map (\<lambda>(k, v). key_freed h k @ value_freed h v) (kv # kvs))"
    unfolding h2(4) cb free_value_ok(2) by (simp add: h1(6) cb kv)
  moreover have "same_callbacks h h2" using cb(4) h2(3) by (simp add: same_callbacks_def)
  ultimately show ?case using h2(2) by blast
qed

lemma hashmap_remove_all_ok:
  "hm_abs h kvs \<Longrightarrow> \<exists>h'. pa_hashmap_remove_all h = Inr h' \<and> hm_abs h' [] \<and>
     hm_freed h' = hm_freed h @ concat (map (\<lambda>(k, v). key_freed h k @ value_freed h v) kvs) \<and> same_callbacks h h'"
  unfolding pa_hashmap_remove_all_def by (rule remove_all_loop_ok) (simp_all add: hm_abs_head(2))

section \<open>Iteration\<close>

text \<open>\<^verbatim>\<open>PA_HASHMAP_FOREACH\<close>: the pairs that successive calls of \<^verbatim>\<open>pa_hashmap_iterate\<close> return
  until one returns null. A loop whose body leaves the table alone is a fold over them.\<close>

fun foreach_from :: "nat \<Rightarrow> ('k, 'v) pa_hashmap \<Rightarrow> iter_state \<Rightarrow> ('k \<times> 'v) list res" where
  "foreach_from n h st =
     bindR (pa_hashmap_iterate h st) (\<lambda>(item, st').
     case item of None \<Rightarrow> Inr []
     | Some kv \<Rightarrow> (case n of 0 \<Rightarrow> Inl Diverges
                    | Suc n \<Rightarrow> bindR (foreach_from n h st') (\<lambda>kvs. Inr (kv # kvs))))"

declare foreach_from.simps [simp del]

definition hashmap_foreach :: "('k, 'v) pa_hashmap \<Rightarrow> ('k \<times> 'v) list res" where
  "hashmap_foreach h = foreach_from (unat (n_entries h)) h IterStart"

lemma foreach_from_end: "foreach_from n h IterEnd = Inr []"
  by (simp add: foreach_from.simps [of n h] pa_hashmap_iterate_def Let_def)

lemma foreach_from_ok:
  assumes r: "hm_rel h it bs"
  shows "it = us @ a # vs \<Longrightarrow> length (a # vs) \<le> n \<Longrightarrow> foreach_from n h (IterAt a) = Inr (contents h (a # vs))"
proof (induction vs arbitrary: us a n)
  case Nil
  then have "a \<in> dom (hm_heap h)" "iterate_next (cell h a) = None" "n = Suc (n - 1)"
    using hm_relD(8) [OF r] linked_split(1) [of _ _ us a "[]"] hm_relD(1) [OF r] by auto
  then show ?case
    by (subst foreach_from.simps)
      (auto simp: pa_hashmap_iterate_def Let_def iter_advance_def foreach_from_end contents_def split: nat.split)
next
  case (Cons b vs)
  then have a: "a \<in> dom (hm_heap h)" "iterate_next (cell h a) = Some b"
    using hm_relD(8) [OF r] linked_split(1) [of _ _ us a "b # vs"] hm_relD(1) [OF r] by auto
  obtain m where n: "n = Suc m" using Cons.prems(2) by (cases n) simp_all
  have "foreach_from m h (IterAt b) = Inr (contents h (b # vs))"
    by (rule Cons.IH [of "us @ [a]"]) (use Cons.prems n in simp_all)
  then show ?case using a n
    by (subst foreach_from.simps) (simp add: pa_hashmap_iterate_def Let_def iter_advance_def contents_def)
qed

lemma hashmap_foreach_ok: "hm_abs h kvs \<Longrightarrow> hashmap_foreach h = Inr kvs"
proof -
  assume "hm_abs h kvs"
  then obtain it bs where r: "hm_rel h it bs" and k: "kvs = contents h it" by (auto simp: hm_abs_def)
  show ?thesis
  proof (cases it)
    case Nil
    then show ?thesis using hm_relD(2) [OF r] k
      by (simp add: hashmap_foreach_def foreach_from.simps [of _ h] pa_hashmap_iterate_def contents_def)
  next
    case (Cons a vs)
    then have "foreach_from n h IterStart = foreach_from n h (IterAt a)" for n
      using hm_relD(2) [OF r]
      by (subst (1 2) foreach_from.simps) (simp add: pa_hashmap_iterate_def)
    then show ?thesis using foreach_from_ok [OF r, of "[]" a vs] Cons hm_relD(10) [OF r] k
      by (simp add: hashmap_foreach_def)
  qed
qed

text \<open>\<^verbatim>\<open>PA_HASHMAP_FOREACH_BACKWARDS\<close>.\<close>

fun foreach_backwards_from :: "nat \<Rightarrow> ('k, 'v) pa_hashmap \<Rightarrow> iter_state \<Rightarrow> ('k \<times> 'v) list res" where
  "foreach_backwards_from n h st =
     bindR (pa_hashmap_iterate_backwards h st) (\<lambda>(item, st').
     case item of None \<Rightarrow> Inr []
     | Some kv \<Rightarrow> (case n of 0 \<Rightarrow> Inl Diverges
                    | Suc n \<Rightarrow> bindR (foreach_backwards_from n h st') (\<lambda>kvs. Inr (kv # kvs))))"

declare foreach_backwards_from.simps [simp del]

definition hashmap_foreach_backwards :: "('k, 'v) pa_hashmap \<Rightarrow> ('k \<times> 'v) list res" where
  "hashmap_foreach_backwards h = foreach_backwards_from (unat (n_entries h)) h IterStart"

lemma foreach_backwards_end: "foreach_backwards_from n h IterEnd = Inr []"
  by (simp add: foreach_backwards_from.simps [of n h] pa_hashmap_iterate_backwards_def Let_def)

lemma foreach_backwards_from_ok:
  assumes r: "hm_rel h it bs"
  shows "it = us @ a # vs \<Longrightarrow> length us < n \<Longrightarrow>
    foreach_backwards_from n h (IterAt a) = Inr (rev (contents h (us @ [a])))"
proof (induction us arbitrary: a vs n rule: rev_induct)
  case Nil
  then have "a \<in> dom (hm_heap h)" "iterate_previous (cell h a) = None" "n = Suc (n - 1)"
    using hm_relD(8) [OF r] linked_split(2) [of _ _ "[]" a vs] hm_relD(1) [OF r] by auto
  then show ?case
    by (subst foreach_backwards_from.simps)
      (auto simp: pa_hashmap_iterate_backwards_def Let_def iter_advance_def foreach_backwards_end contents_def
        split: nat.split)
next
  case (snoc b us)
  then have a: "a \<in> dom (hm_heap h)" "iterate_previous (cell h a) = Some b"
    using hm_relD(8) [OF r] linked_split(2) [of _ _ "us @ [b]" a vs] hm_relD(1) [OF r] by auto
  obtain m where n: "n = Suc m" using snoc.prems(2) by (cases n) simp_all
  have "foreach_backwards_from m h (IterAt b) = Inr (rev (contents h (us @ [b])))"
    by (rule snoc.IH [of b "a # vs"]) (use snoc.prems n in simp_all)
  then show ?case using a n
    by (subst foreach_backwards_from.simps)
      (simp add: pa_hashmap_iterate_backwards_def Let_def iter_advance_def contents_def)
qed

lemma hashmap_foreach_backwards_ok: "hm_abs h kvs \<Longrightarrow> hashmap_foreach_backwards h = Inr (rev kvs)"
proof -
  assume "hm_abs h kvs"
  then obtain it bs where r: "hm_rel h it bs" and k: "kvs = contents h it" by (auto simp: hm_abs_def)
  show ?thesis
  proof (cases it rule: rev_cases)
    case Nil
    then show ?thesis using hm_relD(3) [OF r] k
      by (simp add: hashmap_foreach_backwards_def foreach_backwards_from.simps [of _ h]
          pa_hashmap_iterate_backwards_def contents_def)
  next
    case (snoc us a)
    then have "foreach_backwards_from n h IterStart = foreach_backwards_from n h (IterAt a)" for n
      using hm_relD(3) [OF r]
      by (subst (1 2) foreach_backwards_from.simps) (simp add: pa_hashmap_iterate_backwards_def)
    then show ?thesis using foreach_backwards_from_ok [OF r, of us a "[]"] snoc hm_relD(10) [OF r] k
      by (simp add: hashmap_foreach_backwards_def)
  qed
qed

lemma hashmap_first_last_ok:
  assumes "hm_abs h kvs"
  shows "pa_hashmap_first h = Inr (map_option snd (ohd kvs))" "pa_hashmap_last h = Inr (map_option snd (olast kvs))"
proof -
  from assms obtain it bs where r: "hm_rel h it bs" and k: "kvs = contents h it" by (auto simp: hm_abs_def)
  show "pa_hashmap_first h = Inr (map_option snd (ohd kvs))"
    using hm_relD(2,8) [OF r] by (cases it) (auto simp: k contents_def pa_hashmap_first_def)
  show "pa_hashmap_last h = Inr (map_option snd (olast kvs))"
    using hm_relD(3,8) [OF r] by (cases it rule: rev_cases) (auto simp: k contents_def pa_hashmap_last_def)
qed

lemma hashmap_size_ok:
  assumes "hm_abs h kvs"
  shows "pa_hashmap_size h = of_nat (length kvs)" "pa_hashmap_isempty h \<longleftrightarrow> kvs = []"
  using hm_abs_head(2,3) [OF assms]
  by (auto simp: pa_hashmap_size_def pa_hashmap_isempty_def unat_eq_zero [symmetric]
      simp del: unat_eq_zero intro: word_unat_eq_iff [THEN iffD2])

section \<open>Sessions with a table\<close>

text \<open>The calls a client can make, their results, and what they mean on the association list of
  the table and the log of the free callbacks (\<open>kf\<close>, \<open>vf\<close>: whether the callbacks are set).\<close>

datatype ('k, 'v) hm_op =
    HPut 'k 'v | HGet 'k | HRemove 'k | HRemoveAndFree 'k | HRemoveAll | HStealFirst
  | HFirst | HLast | HSize | HIsEmpty | HForeach | HForeachBackwards

datatype ('k, 'v) hm_out =
    RInt int | RValue "'v option" | RSize u32 | RBool bool | RItems "('k \<times> 'v) list" | RUnit

fun hm_step :: "('k, 'v) hm_op \<Rightarrow> ('k, 'v) pa_hashmap \<Rightarrow> (('k, 'v) hm_out \<times> ('k, 'v) pa_hashmap) res" where
  "hm_step (HPut k v) h = bindR (pa_hashmap_put h k v) (\<lambda>(i, h'). Inr (RInt i, h'))"
| "hm_step (HGet k) h = bindR (pa_hashmap_get h k) (\<lambda>x. Inr (RValue x, h))"
| "hm_step (HRemove k) h = bindR (pa_hashmap_remove h k) (\<lambda>(x, h'). Inr (RValue x, h'))"
| "hm_step (HRemoveAndFree k) h = bindR (pa_hashmap_remove_and_free h k) (\<lambda>(i, h'). Inr (RInt i, h'))"
| "hm_step HRemoveAll h = bindR (pa_hashmap_remove_all h) (\<lambda>h'. Inr (RUnit, h'))"
| "hm_step HStealFirst h = bindR (pa_hashmap_steal_first h) (\<lambda>(x, h'). Inr (RValue x, h'))"
| "hm_step HFirst h = bindR (pa_hashmap_first h) (\<lambda>x. Inr (RValue x, h))"
| "hm_step HLast h = bindR (pa_hashmap_last h) (\<lambda>x. Inr (RValue x, h))"
| "hm_step HSize h = Inr (RSize (pa_hashmap_size h), h)"
| "hm_step HIsEmpty h = Inr (RBool (pa_hashmap_isempty h), h)"
| "hm_step HForeach h = bindR (hashmap_foreach h) (\<lambda>kvs. Inr (RItems kvs, h))"
| "hm_step HForeachBackwards h = bindR (hashmap_foreach_backwards h) (\<lambda>kvs. Inr (RItems kvs, h))"

definition kfree :: "bool \<Rightarrow> 'k \<Rightarrow> ('k, 'v) free_call list" where
  "kfree kf k = (if kf then [FreeKey k] else [])"

definition vfree :: "bool \<Rightarrow> 'v \<Rightarrow> ('k, 'v) free_call list" where
  "vfree vf v = (if vf then [FreeValue v] else [])"

fun hm_spec :: "bool \<Rightarrow> bool \<Rightarrow> ('k, 'v) hm_op \<Rightarrow> ('k \<times> 'v) list \<times> ('k, 'v) free_call list
    \<Rightarrow> ('k, 'v) hm_out \<times> ('k \<times> 'v) list \<times> ('k, 'v) free_call list" where
  "hm_spec kf vf (HPut k v) (kvs, log) =
     (if map_of kvs k \<noteq> None then (RInt (-1), kvs, log) else (RInt 0, kvs @ [(k, v)], log))"
| "hm_spec kf vf (HGet k) (kvs, log) = (RValue (map_of kvs k), kvs, log)"
| "hm_spec kf vf (HRemove k) (kvs, log) =
     (RValue (map_of kvs k), filter (\<lambda>(k', _). k' \<noteq> k) kvs,
      if map_of kvs k = None then log else log @ kfree kf k)"
| "hm_spec kf vf (HRemoveAndFree k) (kvs, log) =
     (RInt (if map_of kvs k = None then -1 else 0), filter (\<lambda>(k', _). k' \<noteq> k) kvs,
      case map_of kvs k of None \<Rightarrow> log | Some v \<Rightarrow> log @ kfree kf k @ vfree vf v)"
| "hm_spec kf vf HRemoveAll (kvs, log) =
     (RUnit, [], log @ concat (map (\<lambda>(k, v). kfree kf k @ vfree vf v) kvs))"
| "hm_spec kf vf HStealFirst (kvs, log) =
     (case kvs of [] \<Rightarrow> (RValue None, [], log) | (k, v) # r \<Rightarrow> (RValue (Some v), r, log @ kfree kf k))"
| "hm_spec kf vf HFirst (kvs, log) = (RValue (map_option snd (ohd kvs)), kvs, log)"
| "hm_spec kf vf HLast (kvs, log) = (RValue (map_option snd (olast kvs)), kvs, log)"
| "hm_spec kf vf HSize (kvs, log) = (RSize (of_nat (length kvs)), kvs, log)"
| "hm_spec kf vf HIsEmpty (kvs, log) = (RBool (kvs = []), kvs, log)"
| "hm_spec kf vf HForeach (kvs, log) = (RItems kvs, kvs, log)"
| "hm_spec kf vf HForeachBackwards (kvs, log) = (RItems (rev kvs), kvs, log)"

definition hm_ok :: "('k, 'v) hm_op \<Rightarrow> ('k \<times> 'v) list \<times> ('k, 'v) free_call list \<Rightarrow> bool" where
  "hm_ok p s \<longleftrightarrow> length (fst s) + 1 < 2 ^ 32"

definition hm_sim :: "bool \<Rightarrow> bool \<Rightarrow> ('k, 'v) pa_hashmap \<Rightarrow> ('k \<times> 'v) list \<times> ('k, 'v) free_call list \<Rightarrow> bool" where
  "hm_sim kf vf h s \<longleftrightarrow> hm_abs h (fst s) \<and> hm_freed h = snd s \<and> key_free_func h = kf \<and> value_free_func h = vf"

lemma freed_kfree: "key_free_func h = kf \<Longrightarrow> key_freed h = kfree kf" "value_free_func h = vf \<Longrightarrow> value_freed h = vfree vf"
  by (auto simp: key_freed_def kfree_def value_freed_def vfree_def)

lemma map_of_None_filter: "map_of kvs k = None \<Longrightarrow> filter (\<lambda>(k', _). k' \<noteq> k) kvs = kvs"
  by (force simp: map_of_eq_None_iff intro!: filter_True)

interpretation hm: simulation "hm_sim kf vf" hm_ok hm_step "hm_spec kf vf" for kf vf
proof unfold_locales
  fix h :: "('k, 'v) pa_hashmap" and s and p :: "('k, 'v) hm_op"
  assume s: "hm_sim kf vf h s" and ok: "hm_ok p s"
  obtain kvs log where sd: "s = (kvs, log)" by (cases s)
  have a: "hm_abs h kvs" and l: "hm_freed h = log" and f: "key_free_func h = kf" "value_free_func h = vf"
    using s by (simp_all add: hm_sim_def sd)
  note fr = freed_kfree(1) [OF f(1)] freed_kfree(2) [OF f(2)]
  show "\<exists>h'. hm_step p h = Inr (fst (hm_spec kf vf p s), h') \<and> hm_sim kf vf h' (snd (hm_spec kf vf p s))"
  proof (cases p)
    case (HPut k v)
    then show ?thesis using hashmap_put_ok [OF a, of k v] ok a l f
      by (auto simp: sd hm_ok_def hm_sim_def same_callbacks_def map_of_eq_None_iff split: if_splits)
  next
    case (HRemove k)
    then show ?thesis using hashmap_remove_ok [OF a, of k] a l f fr
      by (cases "map_of kvs k") (auto simp: sd hm_sim_def same_callbacks_def map_of_None_filter)
  next
    case (HRemoveAndFree k)
    then show ?thesis using hashmap_remove_and_free_ok [OF a, of k] a l f fr
      by (cases "map_of kvs k") (auto simp: sd hm_sim_def same_callbacks_def map_of_None_filter)
  next
    case HRemoveAll
    then show ?thesis using hashmap_remove_all_ok [OF a] l f fr by (auto simp: sd hm_sim_def same_callbacks_def)
  next
    case HStealFirst
    then show ?thesis using a l f fr hashmap_steal_first_ok(1) [of h] hashmap_steal_first_ok(2) [of h]
      by (cases kvs) (fastforce simp: sd hm_sim_def same_callbacks_def)+
  qed (use a l f in \<open>simp_all add: sd hm_sim_def hashmap_get_ok hashmap_first_last_ok hashmap_size_ok
         hashmap_foreach_ok hashmap_foreach_backwards_ok\<close>)
qed

lemma hm_spec_length: "length (fst (snd (hm_spec kf vf p s))) \<le> Suc (length (fst s))"
  by (cases p; cases s) (auto split: list.split prod.split simp: le_SucI length_filter_le)

lemma hm_run_ok:
  "length (fst s) + length ps < 2 ^ 32 \<Longrightarrow> run_ok hm_ok (hm_spec kf vf) ps s"
proof (induction ps arbitrary: s)
  case (Cons p ps)
  then show ?case using hm_spec_length [of kf vf p s] Cons.IH [of "snd (hm_spec kf vf p s)"]
    by (simp add: hm_ok_def)
qed simp

lemma string_compare_eq [simp]: "pa_idxset_string_compare_func s t = 0 \<longleftrightarrow> s = t"
  by (induction s t rule: pa_idxset_string_compare_func.induct) auto

text \<open>C35. Every session with a new table - any sequence of fewer than \<open>2 ^ 32\<close> calls, whatever the hash
  function - runs without a fault (no dangling pointer, no failed assertion, no endless chain) and
  returns exactly what the insertion-ordered association list returns: \<^verbatim>\<open>put\<close> refuses a key
  that is present, \<^verbatim>\<open>get\<close> and \<^verbatim>\<open>remove\<close> find the value last put, iteration visits the
  entries in the order in which they were added (or backwards), and the free callbacks are called
  exactly once for each key and value they apply to, in the order of the removals.\<close>

theorem hashmap_session:
  assumes "\<And>x y. cmp x y = 0 \<longleftrightarrow> x = y" and "length ops < 2 ^ 32"
  shows "\<exists>h. run_impl hm_step ops (pa_hashmap_new_full hash cmp kf vf) =
               Inr (fst (run_spec (hm_spec kf vf) ops ([], [])), h) \<and>
             hm_sim kf vf h (snd (run_spec (hm_spec kf vf) ops ([], [])))"
proof (rule hm.run_sim)
  show "hm_sim kf vf (pa_hashmap_new_full hash cmp kf vf) ([], [])"
    using hashmap_new_ok [of cmp hash kf vf] assms(1) by (simp add: hm_sim_def pa_hashmap_new_full_def)
  show "run_ok hm_ok (hm_spec kf vf) ops ([], [])" by (rule hm_run_ok) (use assms(2) in simp)
qed

theorem hashmap_session_witness:
  "\<exists>h :: (bytes, nat) pa_hashmap.
     run_impl hm_step [HPut [97] 1, HPut [98] 2, HPut [97] 3, HRemoveAndFree [97], HGet [98], HSize, HForeach]
       (pa_hashmap_new_full pa_idxset_string_hash_func pa_idxset_string_compare_func False True)
     = Inr ([RInt 0, RInt 0, RInt (-1), RInt 0, RValue (Some 2), RSize 1, RItems [([98], 2)]], h) \<and>
     hm_freed h = [FreeValue 1]"
  using hashmap_session [of pa_idxset_string_compare_func
      "[HPut [97] 1, HPut [98] 2, HPut [97] 3, HRemoveAndFree [97], HGet [98], HSize, HForeach :: (bytes, nat) hm_op]"
      pa_idxset_string_hash_func False True]
  by (simp add: hm_sim_def kfree_def vfree_def) blast

section \<open>Values changed in place\<close>

text \<open>A client that keeps structures in the table changes them through the pointer that
  \<^verbatim>\<open>pa_hashmap_get\<close> returns: the structure behind the entry of \<open>key\<close> becomes \<open>f\<close> of it.\<close>

definition hashmap_modify :: "('k, 'v) pa_hashmap \<Rightarrow> 'k \<Rightarrow> ('v \<Rightarrow> 'v) \<Rightarrow> ('k, 'v) pa_hashmap res" where
  "hashmap_modify h key f =
     bindR (hash_scan h (hash_index h key) key) (\<lambda>found.
     case found of None \<Rightarrow> Inl OutOfBounds | Some a \<Rightarrow> he_upd (\<lambda>e. e\<lparr>he_value := f (he_value e)\<rparr>) a h)"

lemma hashmap_modify_ok:
  assumes a: "hm_abs h kvs" and k: "k \<in> fst ` set kvs"
  shows "\<exists>h'. hashmap_modify h k f = Inr h' \<and>
     hm_abs h' (map (\<lambda>(k', v). (k', if k' = k then f v else v)) kvs) \<and> same_callbacks h h'"
proof -
  from a obtain it bs where r: "hm_rel h it bs" and kvs: "kvs = contents h it" by (auto simp: hm_abs_def)
  have "find (\<lambda>a. he_key (cell h a) = k) it \<noteq> None" using k by (auto simp: kvs contents_def find_None_iff)
  then obtain a where fa: "find (\<lambda>a. he_key (cell h a) = k) it = Some a" by blast
  then have a: "a \<in> set it" "he_key (cell h a) = k" by (auto simp: find_Some_iff)
  then obtain e where e: "hm_heap h a = Some e" using hm_relD(8) [OF r] by auto
  let ?h = "h\<lparr>hm_heap := (hm_heap h)(a \<mapsto> e\<lparr>he_value := f (he_value e)\<rparr>)\<rparr>"
  have fields: "he_key (cell ?h x) = he_key (cell h x)" "bucket_next (cell ?h x) = bucket_next (cell h x)"
      "bucket_previous (cell ?h x) = bucket_previous (cell h x)" "iterate_next (cell ?h x) = iterate_next (cell h x)"
      "iterate_previous (cell ?h x) = iterate_previous (cell h x)"
      "he_value (cell ?h x) = (if x = a then f (he_value (cell h x)) else he_value (cell h x))" for x
    by (simp_all add: e)
  have idx: "hash_index ?h = hash_index h" by (simp add: hash_index_def fun_eq_iff)
  have "dom (hm_heap ?h) = dom (hm_heap h)" using e by auto
  then have "hm_rel ?h it bs" using r unfolding hm_rel_def idx fields by simp
  moreover have "contents ?h it = map (\<lambda>(k', v). (k', if k' = k then f v else v)) kvs"
    unfolding kvs contents_def map_map
  proof (rule map_cong [OF refl])
    fix x
    assume "x \<in> set it"
    then have "he_key (cell h x) = k \<longleftrightarrow> x = a" using a hm_relD(9) [OF r] by (auto simp: inj_on_def)
    then show "(he_key (cell ?h x), he_value (cell ?h x)) =
        ((\<lambda>(k', v). (k', if k' = k then f v else v)) \<circ> (\<lambda>a. (he_key (cell h a), he_value (cell h a)))) x"
      unfolding fields by auto
  qed
  ultimately have "hm_abs ?h (map (\<lambda>(k', v). (k', if k' = k then f v else v)) kvs)"
    unfolding hm_abs_def by metis
  moreover have "hashmap_modify h k f = Inr ?h"
    by (simp add: hashmap_modify_def hash_scan_ok [OF r] fa he_upd_def he_get_def e)
  ultimately show ?thesis by (auto simp: same_callbacks_def)
qed

end
