(* ===== verification/PaText.thy ===== *)
theory PaText
  imports Prelude
begin

text \<open>
  The text helpers of PulseAudio that property lists rest on: the ASCII and UTF-8 checks of
  \<^verbatim>\<open>pulse/utf8.c\<close>, the hexadecimal coding and the escaping of \<^verbatim>\<open>pulsecore/core-util.c\<close>, and
  the string buffer of \<^verbatim>\<open>pulsecore/strbuf.c\<close>. A C string is the list of its bytes before the
  terminating NUL; reading the byte after the last one gives 0.
\<close>

section \<open>C strings\<close>

definition cstring :: "bytes \<Rightarrow> bool" where
  "cstring s \<longleftrightarrow> 0 \<notin> set s"

text \<open>\<^verbatim>\<open>pa_xstrndup\<close>: at most \<open>l\<close> bytes of the array at \<open>s\<close>, up to the first NUL.\<close>

definition pa_xstrndup :: "bytes \<Rightarrow> nat \<Rightarrow> bytes" where
  "pa_xstrndup s l = takeWhile (\<lambda>c. c \<noteq> 0) (take l s)"

text \<open>\<^verbatim>\<open>isspace\<close> of the C locale.\<close>

definition isspace :: "u8 \<Rightarrow> bool" where
  "isspace c \<longleftrightarrow> c = 32 \<or> (9 \<le> c \<and> c \<le> 13)"

section \<open>ASCII and UTF-8\<close>

fun pa_ascii_valid :: "bytes \<Rightarrow> bool" where
  "pa_ascii_valid [] = True"
| "pa_ascii_valid (c # p) = (if c \<ge> 128 then False else pa_ascii_valid p)"

fun pa_ascii_filter :: "bytes \<Rightarrow> bytes" where
  "pa_ascii_filter [] = []"
| "pa_ascii_filter (c # s) = (if c < 128 then c # pa_ascii_filter s else pa_ascii_filter s)"

definition FILTER_CHAR :: u8 where "FILTER_CHAR = 95"

definition is_unicode_valid :: "u32 \<Rightarrow> bool" where
  "is_unicode_valid ch =
     (if ch \<ge> 0x110000 then False
      else if ch AND 0xFFFFF800 = 0xD800 then False
      else if ch \<ge> 0xFDD0 \<and> ch \<le> 0xFDEF then False
      else if ch AND 0xFFFE = 0xFFFE then False
      else True)"

definition is_continuation_char :: "u8 \<Rightarrow> bool" where
  "is_continuation_char ch = (if ch AND 0xc0 \<noteq> 0x80 then False else True)"

definition merge_continuation_char :: "u32 \<Rightarrow> u8 \<Rightarrow> u32" where
  "merge_continuation_char u_ch ch = push_bit 6 u_ch OR ucast (ch AND 0x3f)"

text \<open>The continuation bytes that remain after the first \<open>goto\<close> (three, two at \<^verbatim>\<open>TWO_REMAINING\<close>,
  one at \<^verbatim>\<open>ONE_REMAINING\<close>); \<open>None\<close> is the jump to \<^verbatim>\<open>error\<close>, which the NUL at the end of the
  string takes too.\<close>

fun utf8_remaining :: "nat \<Rightarrow> u32 \<Rightarrow> bytes \<Rightarrow> u32 option" where
  "utf8_remaining 0 val p = Some val"
| "utf8_remaining (Suc n) val [] = None"
| "utf8_remaining (Suc n) val (c # p) =
     (if \<not> is_continuation_char c then None
      else utf8_remaining n (merge_continuation_char val c) p)"

text \<open>The sequence that starts with the byte \<open>c\<close> of at least 128: its length, or \<^verbatim>\<open>error\<close>.\<close>

definition utf8_sequence :: "u8 \<Rightarrow> bytes \<Rightarrow> nat option" where
  "utf8_sequence c p =
     (let check = (\<lambda>size min val n.
        case utf8_remaining n val p of None \<Rightarrow> None
        | Some v \<Rightarrow> if v < min then None else if \<not> is_unicode_valid v then None else Some size)
      in if c AND 0xe0 = 0xc0 then check 2 128 (ucast (c AND 0x1e)) 1
         else if c AND 0xf0 = 0xe0 then check 3 (push_bit 11 1) (ucast (c AND 0x0f)) 2
         else if c AND 0xf8 = 0xf0 then check 4 (push_bit 16 1) (ucast (c AND 0x07)) 3
         else None)"

lemma utf8_sequence_size: "utf8_sequence c p = Some n \<Longrightarrow> 2 \<le> n"
  by (auto simp: utf8_sequence_def Let_def split: if_splits option.splits)

text \<open>\<^verbatim>\<open>utf8_validate\<close>: what is written to the output buffer, or \<open>None\<close> for the failure. The flag
  says whether there is an output buffer.\<close>

function utf8_validate :: "bool \<Rightarrow> bytes \<Rightarrow> bytes option" where
  "utf8_validate outp [] = Some []"
| "utf8_validate outp (c # p) =
     (if c < 128 then map_option ((#) c) (utf8_validate outp p)
      else case utf8_sequence c p of
             Some n \<Rightarrow> map_option ((@) (take n (c # p))) (utf8_validate outp (drop n (c # p)))
           | None \<Rightarrow> if outp then map_option ((#) FILTER_CHAR) (utf8_validate outp p) else None)"
  by pat_completeness auto

termination
  by (relation "measure (\<lambda>(_, s). length s)") (auto dest: utf8_sequence_size)

definition pa_utf8_valid :: "bytes \<Rightarrow> bytes option" where
  "pa_utf8_valid str = (case utf8_validate False str of None \<Rightarrow> None | Some _ \<Rightarrow> Some str)"

definition pa_utf8_filter :: "bytes \<Rightarrow> bytes option" where
  "pa_utf8_filter str = utf8_validate True str"

section \<open>Hexadecimal and escapes\<close>

definition hex_digits :: bytes where
  "hex_digits = [48, 49, 50, 51, 52, 53, 54, 55, 56, 57, 97, 98, 99, 100, 101, 102]"

text \<open>\<^verbatim>\<open>pa_hexstr\<close>: the loop with \<open>j\<close> bytes of text written, and the string in the buffer.\<close>

fun hexstr_loop :: "bytes \<Rightarrow> nat \<Rightarrow> nat \<Rightarrow> bytes" where
  "hexstr_loop [] j slength = []"
| "hexstr_loop (b # d) j slength =
     (if j + 2 < slength
      then hex_digits ! unat (drop_bit 4 b) # hex_digits ! unat (b AND 0xF) # hexstr_loop d (j + 2) slength
      else [])"

definition pa_hexstr :: "bytes \<Rightarrow> nat \<Rightarrow> bytes res" where
  "pa_hexstr d slength = bindR (assertR (slength > 0)) (\<lambda>_. Inr (hexstr_loop d 0 slength))"

definition hexc :: "u8 \<Rightarrow> int" where
  "hexc c =
     (if c \<ge> 48 \<and> c \<le> 57 then int (unat c) - 48
      else if c \<ge> 65 \<and> c \<le> 70 then int (unat c) - 65 + 10
      else if c \<ge> 97 \<and> c \<le> 102 then int (unat c) - 97 + 10
      else -1)"

text \<open>\<^verbatim>\<open>pa_parsehex\<close>: the bytes decoded, or \<open>None\<close> for the result \<^verbatim>\<open>(size_t) -1\<close>.\<close>

fun parsehex_loop :: "bytes \<Rightarrow> nat \<Rightarrow> bytes option" where
  "parsehex_loop [] n = Some []"
| "parsehex_loop [c] n = (if n = 0 then Some [] else None)"
| "parsehex_loop (c # c' # p) n =
     (if n = 0 then Some []
      else if hexc c < 0 then None
      else if hexc c' < 0 then None
      else map_option ((#) (push_bit 4 (of_int (hexc c)) OR of_int (hexc c'))) (parsehex_loop p (n - 1)))"

definition pa_parsehex :: "bytes \<Rightarrow> nat \<Rightarrow> bytes option" where
  "pa_parsehex p dlength = parsehex_loop p dlength"

text \<open>\<^verbatim>\<open>pa_escape\<close> with the characters to escape (none when it is null), \<^verbatim>\<open>pa_unescape\<close>.\<close>

fun pa_escape :: "bytes \<Rightarrow> bytes \<Rightarrow> bytes" where
  "pa_escape [] chars = []"
| "pa_escape (c # s) chars = (if c = 92 \<or> c \<in> set chars then 92 # c # pa_escape s chars else c # pa_escape s chars)"

fun unescape_loop :: "bool \<Rightarrow> bytes \<Rightarrow> bytes" where
  "unescape_loop escaped [] = []"
| "unescape_loop escaped (c # s) =
     (if \<not> escaped \<and> c = 92 then unescape_loop True s else c # unescape_loop False s)"

definition pa_unescape :: "bytes \<Rightarrow> bytes" where
  "pa_unescape p = unescape_loop False p"

section \<open>String buffers\<close>

text \<open>\<^verbatim>\<open>struct pa_strbuf\<close>: the recorded length and the chunks from \<^verbatim>\<open>head\<close> to \<^verbatim>\<open>tail\<close>.\<close>

record pa_strbuf =
  sb_length :: nat
  sb_chunks :: "bytes list"

definition pa_strbuf_new :: pa_strbuf where
  "pa_strbuf_new = \<lparr>sb_length = 0, sb_chunks = []\<rparr>"

fun tostring_loop :: "nat \<Rightarrow> bytes list \<Rightarrow> bytes \<Rightarrow> bytes res" where
  "tostring_loop l [] t = bindR (assertR (length t = l)) (\<lambda>_. Inr t)"
| "tostring_loop l (c # cs) t = bindR (assertR (length t \<le> l)) (\<lambda>_. tostring_loop l cs (t @ c))"

definition pa_strbuf_tostring :: "pa_strbuf \<Rightarrow> bytes res" where
  "pa_strbuf_tostring sb = tostring_loop (sb_length sb) (sb_chunks sb) []"

definition pa_strbuf_append :: "pa_strbuf \<Rightarrow> bytes \<Rightarrow> pa_strbuf" where
  "pa_strbuf_append sb c = \<lparr>sb_length = sb_length sb + length c, sb_chunks = sb_chunks sb @ [c]\<rparr>"

definition pa_strbuf_putsn :: "pa_strbuf \<Rightarrow> bytes \<Rightarrow> nat \<Rightarrow> pa_strbuf" where
  "pa_strbuf_putsn sb t l = (if l = 0 then sb else pa_strbuf_append sb (take l t))"

definition pa_strbuf_puts :: "pa_strbuf \<Rightarrow> bytes \<Rightarrow> pa_strbuf" where
  "pa_strbuf_puts sb t = pa_strbuf_putsn sb t (length t)"

definition pa_strbuf_putc :: "pa_strbuf \<Rightarrow> u8 \<Rightarrow> pa_strbuf" where
  "pa_strbuf_putc sb c = pa_strbuf_putsn sb [c] 1"

text \<open>\<^verbatim>\<open>pa_strbuf_printf\<close> for the text that the format and its arguments stand for:
  \<^verbatim>\<open>vsnprintf\<close> returns its length, and the chunk is enlarged once when it does not fit.\<close>

function printf_loop :: "pa_strbuf \<Rightarrow> bytes \<Rightarrow> nat \<Rightarrow> pa_strbuf" where
  "printf_loop sb text room =
     (if length text < room then pa_strbuf_append sb text else printf_loop sb text (length text + 1))"
  by pat_completeness auto

termination
  by (relation "measure (\<lambda>(_, t, n). length t + 1 - n)") auto

definition pa_strbuf_printf :: "pa_strbuf \<Rightarrow> bytes \<Rightarrow> pa_strbuf" where
  "pa_strbuf_printf sb text = printf_loop sb text 100"

definition pa_strbuf_isempty :: "pa_strbuf \<Rightarrow> bool" where
  "pa_strbuf_isempty sb \<longleftrightarrow> sb_length sb \<le> 0"

text \<open>A well-formed buffer holds as many bytes as it says, so that \<^verbatim>\<open>pa_strbuf_tostring\<close> passes its
  assertions and returns the concatenation of what was appended.\<close>

definition sb_ok :: "pa_strbuf \<Rightarrow> bool" where
  "sb_ok sb \<longleftrightarrow> sb_length sb = length (concat (sb_chunks sb))"

definition sb_text :: "pa_strbuf \<Rightarrow> bytes" where
  "sb_text sb = concat (sb_chunks sb)"

named_theorems strbuf_simps \<open>text of a string buffer\<close>

lemma strbuf_new [strbuf_simps]: "sb_ok pa_strbuf_new" "sb_text pa_strbuf_new = []"
  by (simp_all add: sb_ok_def sb_text_def pa_strbuf_new_def)

lemma strbuf_append [strbuf_simps]:
  "sb_ok sb \<Longrightarrow> sb_ok (pa_strbuf_append sb c)" "sb_text (pa_strbuf_append sb c) = sb_text sb @ c"
  by (simp_all add: sb_ok_def sb_text_def pa_strbuf_append_def)

lemma strbuf_putsn [strbuf_simps]:
  "sb_ok sb \<Longrightarrow> sb_ok (pa_strbuf_putsn sb t l)" "sb_text (pa_strbuf_putsn sb t l) = sb_text sb @ take l t"
  by (simp_all add: pa_strbuf_putsn_def strbuf_append)

lemma strbuf_puts [strbuf_simps]:
  "sb_ok sb \<Longrightarrow> sb_ok (pa_strbuf_puts sb t)" "sb_text (pa_strbuf_puts sb t) = sb_text sb @ t"
  "sb_ok sb \<Longrightarrow> sb_ok (pa_strbuf_putc sb c)" "sb_text (pa_strbuf_putc sb c) = sb_text sb @ [c]"
  by (simp_all add: pa_strbuf_puts_def pa_strbuf_putc_def strbuf_putsn)

declare printf_loop.simps [simp del]

lemma printf_loop_append: "printf_loop sb msg room = pa_strbuf_append sb msg"
  by (subst printf_loop.simps) (simp add: printf_loop.simps [of sb msg "Suc (length msg)"])

lemma strbuf_printf [strbuf_simps]:
  "sb_ok sb \<Longrightarrow> sb_ok (pa_strbuf_printf sb t)" "sb_text (pa_strbuf_printf sb t) = sb_text sb @ t"
  by (simp_all add: pa_strbuf_printf_def printf_loop_append strbuf_append)

lemma strbuf_isempty [strbuf_simps]: "sb_ok sb \<Longrightarrow> pa_strbuf_isempty sb \<longleftrightarrow> sb_text sb = []"
  by (simp add: pa_strbuf_isempty_def sb_ok_def sb_text_def)

lemma tostring_loop_ok: "length t + length (concat cs) = l \<Longrightarrow> tostring_loop l cs t = Inr (t @ concat cs)"
  by (induction cs arbitrary: t) auto

lemma strbuf_tostring [strbuf_simps]: "sb_ok sb \<Longrightarrow> pa_strbuf_tostring sb = Inr (sb_text sb)"
  by (simp add: pa_strbuf_tostring_def sb_ok_def sb_text_def tostring_loop_ok)

section \<open>What the helpers compute\<close>

lemma ascii_valid_iff: "pa_ascii_valid s \<longleftrightarrow> (\<forall>c\<in>set s. c < 128)"
  by (induction s) (auto simp: not_le)

lemma ascii_filter_eq: "pa_ascii_filter s = filter (\<lambda>c. c < 128) s"
  by (induction s) auto

lemma utf8_validate_length: "utf8_validate outp s = Some t \<Longrightarrow> length t = length s"
proof (induction outp s arbitrary: t rule: utf8_validate.induct)
  case (2 outp c p)
  show ?case
  proof (cases "c < 128")
    case True
    then show ?thesis using 2 by auto
  next
    case False
    show ?thesis
    proof (cases "utf8_sequence c p")
      case None
      then show ?thesis using 2 False by (auto split: if_splits)
    next
      case (Some n)
      then obtain u where u: "utf8_validate outp (drop n (c # p)) = Some u" "t = take n (c # p) @ u"
        using 2(4) False by auto
      then show ?thesis using 2(3) [OF False Some u(1)] by (simp add: min_def)
    qed
  qed
qed simp

lemma utf8_validate_False: "utf8_validate False s = Some t \<Longrightarrow> t = s"
proof (induction "False" s arbitrary: t rule: utf8_validate.induct)
  case (2 c p)
  show ?case
  proof (cases "c < 128")
    case True
    then show ?thesis using 2 by auto
  next
    case False
    then obtain n u where n: "utf8_sequence c p = Some n" "utf8_validate False (drop n (c # p)) = Some u"
        "t = take n (c # p) @ u"
      using 2(4) by (auto split: option.splits)
    then show ?thesis using 2(3) [OF False n(1,2)] by (metis append_take_drop_id)
  qed
qed simp

lemma unescape_plain: "92 \<notin> set s \<Longrightarrow> unescape_loop e s = s"
  by (induction s arbitrary: e) auto

lemma unescape_escape_loop: "unescape_loop False (pa_escape s chars) = s"
  by (induction s) auto

lemma unescape_escape: "pa_unescape (pa_escape s chars) = s"
  by (simp add: pa_unescape_def unescape_escape_loop)

section \<open>UTF-8\<close>

text \<open>The encoding of a code point, as the standard defines it.\<close>

definition utf8_encode :: "u32 \<Rightarrow> bytes" where
  "utf8_encode ch =
     (if ch < 0x80 then [ucast ch]
      else if ch < 0x800 then [0xc0 OR ucast (drop_bit 6 ch), 0x80 OR ucast (ch AND 0x3f)]
      else if ch < 0x10000
      then [0xe0 OR ucast (drop_bit 12 ch), 0x80 OR ucast (drop_bit 6 ch AND 0x3f), 0x80 OR ucast (ch AND 0x3f)]
      else [0xf0 OR ucast (drop_bit 18 ch), 0x80 OR ucast (drop_bit 12 ch AND 0x3f),
            0x80 OR ucast (drop_bit 6 ch AND 0x3f), 0x80 OR ucast (ch AND 0x3f)])"

lemma word_less_exp_iff: "n < LENGTH('a) \<Longrightarrow> x < 2 ^ n \<longleftrightarrow> take_bit n x = x" for x :: "'a::len word"
proof
  assume n: "n < LENGTH('a)" and "take_bit n x = x"
  then have "unat x = take_bit n (unat x)" by (metis unsigned_take_bit_eq)
  then have "unat x < 2 ^ n" by (metis take_bit_nat_less_exp)
  moreover have "unat (of_nat (2 ^ n) :: 'a word) = 2 ^ n"
    using n by (simp only: unat_of_nat) (simp add: take_bit_nat_eq_self)
  ultimately show "x < 2 ^ n" by (simp add: word_less_nat_alt)
qed (rule take_bit_word_self)

lemma utf8_less_iff:
  "x < 0x80 \<longleftrightarrow> take_bit 7 x = x" "x < 0x800 \<longleftrightarrow> take_bit 11 x = x" "x < 0x10000 \<longleftrightarrow> take_bit 16 x = x"
  for x :: u32
  using word_less_exp_iff [of 7 x] word_less_exp_iff [of 11 x] word_less_exp_iff [of 16 x] by simp_all

lemma unicode_valid_small:
  assumes "x < 0x800"
  shows "is_unicode_valid x"
proof -
  have "x AND 0xFFFFF800 \<le> x" "x AND 0xFFFE \<le> x" by (simp_all add: word_and_le2)
  then have "x AND 0xFFFFF800 < 0x800" "x AND 0xFFFE < 0x800" using assms by (meson le_less_trans)+
  then show ?thesis using assms by (auto simp: is_unicode_valid_def word_le_nat_alt word_less_nat_alt)
qed

lemma unicode_valid_bound: "is_unicode_valid x \<Longrightarrow> x < 0x110000"
  by (auto simp: is_unicode_valid_def split: if_splits)

lemma utf8_two:
  fixes c d :: u8
  assumes "c AND 0xe0 = 0xc0" and "d AND 0xc0 = 0x80"
  defines "x \<equiv> push_bit 6 (ucast (c AND 0x1f)) OR ucast (d AND 0x3f) :: u32"
  shows "take_bit 11 x = x" "0xc0 OR ucast (drop_bit 6 x) = c" "0x80 OR ucast (x AND 0x3f) = d"
  using assms by (simp_all add: bit_blast_simps)

lemma utf8_three:
  fixes c d e :: u8
  assumes "c AND 0xf0 = 0xe0" and "d AND 0xc0 = 0x80" and "e AND 0xc0 = 0x80"
  defines "x \<equiv> push_bit 6 (push_bit 6 (ucast (c AND 0x0f)) OR ucast (d AND 0x3f)) OR ucast (e AND 0x3f) :: u32"
  shows "take_bit 16 x = x" "0xe0 OR ucast (drop_bit 12 x) = c" "0x80 OR ucast (drop_bit 6 x AND 0x3f) = d"
    "0x80 OR ucast (x AND 0x3f) = e"
  using assms by (simp_all add: bit_blast_simps)

lemma utf8_four:
  fixes c d e f :: u8
  assumes "c AND 0xf8 = 0xf0" and "d AND 0xc0 = 0x80" and "e AND 0xc0 = 0x80" and "f AND 0xc0 = 0x80"
  defines "x \<equiv> push_bit 6 (push_bit 6 (push_bit 6 (ucast (c AND 0x07)) OR ucast (d AND 0x3f)) OR ucast (e AND 0x3f))
      OR ucast (f AND 0x3f) :: u32"
  shows "0xf0 OR ucast (drop_bit 18 x) = c" "0x80 OR ucast (drop_bit 12 x AND 0x3f) = d"
    "0x80 OR ucast (drop_bit 6 x AND 0x3f) = e" "0x80 OR ucast (x AND 0x3f) = f"
  using assms by (simp_all add: bit_blast_simps)

lemma utf8_two_min:
  fixes c d :: u8
  assumes "\<not> push_bit 6 (ucast (c AND 0x1e)) OR ucast (d AND 0x3f) < (0x80 :: u32)"
  shows "\<not> push_bit 6 (ucast (c AND 0x1f)) OR ucast (d AND 0x3f) < (0x80 :: u32)"
  using assms unfolding utf8_less_iff by (auto simp: bit_blast_simps)

text \<open>An accepted sequence is the encoding of a valid code point.\<close>

lemma utf8_remaining_Some:
  "utf8_remaining (Suc n) v p = Some w \<longleftrightarrow>
     (\<exists>d r. p = d # r \<and> d AND 0xc0 = 0x80 \<and> utf8_remaining n (push_bit 6 v OR ucast (d AND 0x3f)) r = Some w)"
  by (cases p) (auto simp: is_continuation_char_def merge_continuation_char_def)

lemma utf8_min: "push_bit 11 1 = (0x800 :: u32)" "push_bit 16 1 = (0x10000 :: u32)"
  by simp_all

lemma utf8_sequence_sound:
  assumes s: "utf8_sequence c p = Some n"
  shows "\<exists>ch. is_unicode_valid ch \<and> take n (c # p) = utf8_encode ch \<and> \<not> ch < 0x80"
proof -
  consider (two) d r where "c AND 0xe0 = 0xc0" "n = 2" "p = d # r" "d AND 0xc0 = 0x80"
      "\<not> push_bit 6 (ucast (c AND 0x1e)) OR ucast (d AND 0x3f) < (0x80 :: u32)"
    | (three) d e r x where "c AND 0xf0 = 0xe0" "n = 3" "p = d # e # r" "d AND 0xc0 = 0x80" "e AND 0xc0 = 0x80"
      "x = push_bit 6 (push_bit 6 (ucast (c AND 0x0f)) OR ucast (d AND 0x3f)) OR ucast (e AND 0x3f)"
      "\<not> x < 0x800" "is_unicode_valid x"
    | (four) d e f r x where "c AND 0xf8 = 0xf0" "n = 4" "p = d # e # f # r" "d AND 0xc0 = 0x80" "e AND 0xc0 = 0x80"
      "f AND 0xc0 = 0x80"
      "x = push_bit 6 (push_bit 6 (push_bit 6 (ucast (c AND 0x07)) OR ucast (d AND 0x3f)) OR ucast (e AND 0x3f))
         OR ucast (f AND 0x3f)" "\<not> x < 0x10000" "is_unicode_valid x"
  proof -
    from s consider
        "c AND 0xe0 = 0xc0" "n = 2" "\<exists>v. utf8_remaining 1 (ucast (c AND 0x1e)) p = Some v \<and> \<not> v < 0x80"
      | "c AND 0xf0 = 0xe0" "n = 3"
        "\<exists>v. utf8_remaining 2 (ucast (c AND 0x0f)) p = Some v \<and> \<not> v < 0x800 \<and> is_unicode_valid v"
      | "c AND 0xf8 = 0xf0" "n = 4"
        "\<exists>v. utf8_remaining 3 (ucast (c AND 0x07)) p = Some v \<and> \<not> v < 0x10000 \<and> is_unicode_valid v"
      unfolding utf8_sequence_def Let_def utf8_min by (auto split: if_splits option.splits)
    then show thesis
      by cases (use two three four in \<open>auto simp: numeral_2_eq_2 numeral_3_eq_3 utf8_remaining_Some\<close>)
  qed
  then show ?thesis
  proof cases
    case two
    let ?x = "push_bit 6 (ucast (c AND 0x1f)) OR ucast (d AND 0x3f) :: u32"
    have x: "?x < 0x800" "\<not> ?x < 0x80" using utf8_two(1) [OF two(1,4)] utf8_two_min [OF two(5)] utf8_less_iff(2) [of ?x] by simp_all
    have "utf8_encode ?x = [c, d]" unfolding utf8_encode_def using x utf8_two(2,3) [OF two(1,4)] by simp
    then show ?thesis using unicode_valid_small [OF x(1)] x(2) two by (intro exI [of _ ?x]) simp
  next
    case three
    have x: "x < 0x10000" using utf8_three(1) [OF three(1,4,5)] utf8_less_iff(3) [of x] three(6) by simp
    have nx: "\<not> x < 0x80" using three(7) by (auto simp: word_less_nat_alt)
    have "utf8_encode x = [c, d, e]"
      unfolding utf8_encode_def using x nx three(7) utf8_three(2-4) [OF three(1,4,5)] three(6) by simp
    then show ?thesis using three nx by (intro exI [of _ x]) simp
  next
    case four
    have nx: "\<not> x < 0x80" "\<not> x < 0x800" using four(8) by (auto simp: word_less_nat_alt)
    have "utf8_encode x = [c, d, e, f]"
      unfolding utf8_encode_def using nx four(8) utf8_four [OF four(1,4-6)] four(7) by simp
    then show ?thesis using four nx by (intro exI [of _ x]) simp
  qed
qed

text \<open>The encoding of a valid code point is accepted.\<close>

lemma utf8_pieces:
  fixes x :: u32
  shows "take_bit 11 x = x \<Longrightarrow> (0xc0 OR ucast (drop_bit 6 x) :: u8) AND 0xe0 = 0xc0"
    "take_bit 16 x = x \<Longrightarrow> (0xe0 OR ucast (drop_bit 12 x) :: u8) AND 0xf0 = 0xe0"
    "take_bit 21 x = x \<Longrightarrow> (0xf0 OR ucast (drop_bit 18 x) :: u8) AND 0xf8 = 0xf0"
    "(0x80 OR ucast (x AND 0x3f) :: u8) AND 0xc0 = 0x80"
    "ucast ((0x80 OR ucast (x AND 0x3f) :: u8) AND 0x3f) = x AND 0x3f"
  by (simp_all add: bit_blast_simps)

lemma utf8_value_two:
  fixes x :: u32
  assumes "take_bit 11 x = x" and "push_bit 6 (ucast ((0xc0 OR ucast (drop_bit 6 x) :: u8) AND 0x1e)) OR (x AND 0x3f) < 0x80"
  shows "x < 0x80"
  using assms unfolding utf8_less_iff by (simp add: bit_blast_simps)

lemma utf8_value:
  fixes x :: u32
  shows "take_bit 16 x = x \<Longrightarrow> push_bit 6 (push_bit 6 (ucast ((0xe0 OR ucast (drop_bit 12 x) :: u8) AND 0x0f))
      OR (drop_bit 6 x AND 0x3f)) OR (x AND 0x3f) = x"
    "take_bit 21 x = x \<Longrightarrow> push_bit 6 (push_bit 6 (push_bit 6 (ucast ((0xf0 OR ucast (drop_bit 18 x) :: u8) AND 0x07))
      OR (drop_bit 12 x AND 0x3f)) OR (drop_bit 6 x AND 0x3f)) OR (x AND 0x3f) = x"
  by (simp_all add: bit_blast_simps)

lemma lead_distinct:
  fixes c :: u8
  shows "c AND 0xf0 = 0xe0 \<Longrightarrow> c AND 0xe0 \<noteq> 0xc0" "c AND 0xf8 = 0xf0 \<Longrightarrow> c AND 0xe0 \<noteq> 0xc0 \<and> c AND 0xf0 \<noteq> 0xe0"
    "c AND 0xe0 = 0xc0 \<Longrightarrow> \<not> c < 0x80" "c AND 0xf0 = 0xe0 \<Longrightarrow> \<not> c < 0x80" "c AND 0xf8 = 0xf0 \<Longrightarrow> \<not> c < 0x80"
  using word_less_exp_iff [of 7 c] by (auto simp: bit_blast_simps)

lemma utf8_sequence_complete:
  assumes v: "is_unicode_valid x" and n: "\<not> x < 0x80"
  shows "\<exists>c q. utf8_encode x = c # q \<and> \<not> c < 0x80 \<and> utf8_sequence c (q @ r) = Some (length (utf8_encode x))"
proof -
  consider (two) "x < 0x800" | (three) "\<not> x < 0x800" "x < 0x10000" | (four) "\<not> x < 0x800" "\<not> x < 0x10000" by blast
  then show ?thesis
  proof cases
    case two
    then have t: "take_bit 11 x = x" using utf8_less_iff(2) by blast
    let ?c = "0xc0 OR ucast (drop_bit 6 x) :: u8"
    let ?v = "push_bit 6 (ucast (?c AND 0x1e)) OR (x AND 0x3f)"
    have "?v < 0x800" unfolding utf8_less_iff by (simp add: bit_blast_simps)
    then have "is_unicode_valid ?v" by (rule unicode_valid_small)
    then show ?thesis using n two utf8_pieces(1) [OF t] lead_distinct(3) [of ?c] utf8_value_two [OF t]
      by (auto simp: utf8_encode_def utf8_sequence_def Let_def is_continuation_char_def
          merge_continuation_char_def utf8_pieces(4,5))
  next
    case three
    then have t: "take_bit 16 x = x" using utf8_less_iff(3) by blast
    let ?c = "0xe0 OR ucast (drop_bit 12 x) :: u8"
    note c = utf8_pieces(2) [OF t]
    show ?thesis using n v three c lead_distinct(1,4) [OF c] utf8_value(1) [OF t]
      by (simp add: utf8_encode_def utf8_sequence_def Let_def is_continuation_char_def numeral_2_eq_2
          merge_continuation_char_def utf8_pieces(4,5))
  next
    case four
    have "x < 2 ^ 21" using unicode_valid_bound [OF v] by (simp add: word_less_nat_alt)
    then have t: "take_bit 21 x = x" by (rule take_bit_word_self)
    let ?c = "0xf0 OR ucast (drop_bit 18 x) :: u8"
    note c = utf8_pieces(3) [OF t]
    show ?thesis using n v four c lead_distinct(2,5) [OF c] utf8_value(2) [OF t]
      by (simp add: utf8_encode_def utf8_sequence_def Let_def is_continuation_char_def numeral_3_eq_3
          merge_continuation_char_def utf8_pieces(4,5))
  qed
qed

lemma utf8_validate_encode:
  assumes "is_unicode_valid x"
  shows "utf8_validate outp (utf8_encode x @ r) = map_option ((@) (utf8_encode x)) (utf8_validate outp r)"
proof (cases "x < 0x80")
  case True
  then have "take_bit 7 x = x" using utf8_less_iff(1) by blast
  then have "take_bit 7 (ucast x :: u8) = ucast x" by (simp add: bit_blast_simps)
  then have "(ucast x :: u8) < 0x80" using word_less_exp_iff [of 7 "ucast x :: u8"] by simp
  then show ?thesis using True by (auto simp: utf8_encode_def intro!: arg_cong2 [where f = map_option])
next
  case False
  then obtain c q where c: "utf8_encode x = c # q" "\<not> c < 0x80" "utf8_sequence c (q @ r) = Some (length (c # q))"
    using utf8_sequence_complete [OF assms, of r] by auto
  then show ?thesis by simp
qed

lemma utf8_validate_cases:
  assumes "utf8_validate outp (c # p) = Some t"
  shows "(\<exists>x n u. is_unicode_valid x \<and> take n (c # p) = utf8_encode x \<and> 0 < n \<and> t = utf8_encode x @ u \<and>
            utf8_validate outp (drop n (c # p)) = Some u) \<or>
         (outp \<and> (\<exists>u. t = FILTER_CHAR # u \<and> utf8_validate outp p = Some u \<and> c \<noteq> FILTER_CHAR))"
proof (cases "c < 128")
  case True
  have "take_bit 7 c = c" using word_less_exp_iff [of 7 c] True by simp
  then have "take_bit 7 (ucast c :: u32) = ucast c" "ucast (ucast c :: u32) = c"
    by (simp_all add: bit_blast_simps bit_beyond_word)
  then have x: "(ucast c :: u32) < 0x80" "utf8_encode (ucast c) = [c]" by (simp_all add: utf8_less_iff utf8_encode_def)
  then have "(ucast c :: u32) < 0x800" by (auto simp: word_less_nat_alt)
  then have "is_unicode_valid (ucast c)" by (rule unicode_valid_small)
  moreover obtain u where "t = c # u" "utf8_validate outp p = Some u" using assms True by auto
  ultimately show ?thesis using x(2) by (intro disjI1 exI [of _ "ucast c"] exI [of _ 1] exI [of _ u]) simp
next
  case False
  then have nf: "c \<noteq> FILTER_CHAR" by (auto simp: FILTER_CHAR_def)
  show ?thesis
  proof (cases "utf8_sequence c p")
    case None
    then show ?thesis using assms False nf by (auto split: if_splits)
  next
    case (Some n)
    then obtain x where "is_unicode_valid x" "take n (c # p) = utf8_encode x" "0 < n"
      using utf8_sequence_sound [OF Some] utf8_sequence_size [OF Some] by auto
    then show ?thesis using assms False Some by auto
  qed
qed

lemma utf8_validate_sound:
  "utf8_validate False s = Some t \<Longrightarrow> \<exists>cs. list_all is_unicode_valid cs \<and> s = concat (map utf8_encode cs)"
proof (induction "length s" arbitrary: s t rule: less_induct)
  case less
  show ?case
  proof (cases s)
    case Nil
    then show ?thesis by (intro exI [of _ "[]"]) simp
  next
    case (Cons c p)
    then obtain x n u where x: "is_unicode_valid x" "take n s = utf8_encode x" "0 < n" "utf8_validate False (drop n s) = Some u"
      using utf8_validate_cases [of False c p t] less.prems by auto
    then obtain cs where "list_all is_unicode_valid cs" "drop n s = concat (map utf8_encode cs)"
      using less.hyps [of "drop n s" u] Cons by auto
    then show ?thesis using x(1,2) append_take_drop_id [of n s] by (intro exI [of _ "x # cs"]) simp
  qed
qed

lemma utf8_validate_complete:
  "list_all is_unicode_valid cs \<Longrightarrow> utf8_validate outp (concat (map utf8_encode cs)) = Some (concat (map utf8_encode cs))"
  by (induction cs) (simp_all add: utf8_validate_encode)

text \<open>C37. \<^verbatim>\<open>pa_utf8_valid\<close> accepts exactly the UTF-8 encodings of sequences of valid code points
  (no surrogates, no non-characters, nothing above \<open>0x10FFFF\<close>, no overlong forms), although it drops
  a bit of the first byte of two-byte sequences: the rest of the value decides.\<close>

theorem utf8_valid_encodes:
  "pa_utf8_valid s =
     (if \<exists>cs. list_all is_unicode_valid cs \<and> s = concat (map utf8_encode cs) then Some s else None)"
  using utf8_validate_sound [of s] utf8_validate_complete [of _ False]
  by (auto simp: pa_utf8_valid_def split: option.split)

lemma utf8_filter_valid: "utf8_validate True s = Some t \<Longrightarrow> utf8_validate False t = Some t"
proof (induction "length s" arbitrary: s t rule: less_induct)
  case less
  show ?case
  proof (cases s)
    case Nil
    then show ?thesis using less.prems by simp
  next
    case (Cons c p)
    from utf8_validate_cases [OF less.prems [unfolded Cons]] consider
        (good) x n u where "is_unicode_valid x" "0 < n" "t = utf8_encode x @ u" "utf8_validate True (drop n s) = Some u"
      | (bad) u where "t = FILTER_CHAR # u" "utf8_validate True p = Some u"
      using Cons by auto
    then show ?thesis
    proof cases
      case good
      then have "utf8_validate False u = Some u" using less.hyps [of "drop n s" u] Cons by simp
      then show ?thesis using good by (simp add: utf8_validate_encode)
    next
      case bad
      then have "utf8_validate False u = Some u" using less.hyps [of p u] Cons by simp
      then show ?thesis using bad by (simp add: FILTER_CHAR_def)
    qed
  qed
qed

lemma utf8_filter_total: "\<exists>t. utf8_validate True s = Some t"
proof (induction "length s" arbitrary: s rule: less_induct)
  case less
  show ?case
  proof (cases s)
    case (Cons c p)
    have "\<exists>u. utf8_validate True (drop n s) = Some u" if "0 < n" for n using less Cons that by simp
    from this [of 1] this show ?thesis using utf8_sequence_size Cons
      by (cases "utf8_sequence c p") (fastforce dest: utf8_sequence_size)+
  qed simp
qed

text \<open>\<^verbatim>\<open>pa_utf8_filter\<close> always returns a string, as long as its argument (so that it fits the
  buffer of \<^verbatim>\<open>strlen(str) + 1\<close> bytes), which is valid UTF-8, and which is the argument itself
  exactly when that is valid.\<close>

theorem utf8_filter_correct:
  "\<exists>t. pa_utf8_filter s = Some t \<and> length t = length s \<and> pa_utf8_valid t = Some t \<and>
       (t = s \<longleftrightarrow> pa_utf8_valid s = Some s)"
proof -
  obtain t where t: "utf8_validate True s = Some t" using utf8_filter_total by blast
  have v: "utf8_validate False t = Some t" by (rule utf8_filter_valid [OF t])
  have "t = s" if s: "utf8_validate False s = Some s"
  proof -
    obtain cs where "list_all is_unicode_valid cs" "s = concat (map utf8_encode cs)"
      using utf8_validate_sound [OF s] by blast
    then show ?thesis using utf8_validate_complete [of cs True] t by simp
  qed
  then have "t = s \<longleftrightarrow> pa_utf8_valid s = Some s"
    using v utf8_validate_False [of s] by (auto simp: pa_utf8_valid_def split: option.splits)
  then show ?thesis using t v utf8_validate_length [OF t] by (simp add: pa_utf8_filter_def pa_utf8_valid_def)
qed

end
