(* ===== verification/PaProplist.thy ===== *)
theory PaProplist
  imports PaHashmap PaText
begin

text \<open>
  Property lists (\<^verbatim>\<open>pulse/proplist.c\<close>): tables from keys to byte values, kept in a hash table of
  the component \<^verbatim>\<open>PaHashmap\<close>, with their text form. The operations are those of the source over
  the pointer model of the table; the theory shows that they implement an ordered map, and what
  reading back a printed list gives.
\<close>

section \<open>The operations\<close>

text \<open>\<^verbatim>\<open>struct property\<close>: \<open>prop_value\<close> is the allocated buffer, of which the first
  \<open>prop_nbytes\<close> bytes are the value.\<close>

record property =
  prop_key :: bytes
  prop_value :: bytes
  prop_nbytes :: nat

type_synonym pa_proplist = "(bytes, property) pa_hashmap"

definition pa_proplist_key_valid :: "bytes \<Rightarrow> bool" where
  "pa_proplist_key_valid key =
     (if \<not> pa_ascii_valid key then False else if length key \<le> 0 then False else True)"

definition pa_proplist_new :: pa_proplist where
  "pa_proplist_new = pa_hashmap_new_full pa_idxset_string_hash_func pa_idxset_string_compare_func False True"

definition pa_proplist_free :: "pa_proplist \<Rightarrow> (bytes, property) free_call list res" where
  "pa_proplist_free p = pa_hashmap_free p"

text \<open>The end of every setter: the property of the key, found or new, gets the buffer as its value,
  and a new one is put into the table.\<close>

definition property_assign :: "pa_proplist \<Rightarrow> bytes \<Rightarrow> bytes \<Rightarrow> nat \<Rightarrow> pa_proplist res" where
  "property_assign p key buf n =
     bindR (pa_hashmap_get p key) (\<lambda>prop.
     case prop of
       None \<Rightarrow> bindR (pa_hashmap_put p key \<lparr>prop_key = key, prop_value = buf, prop_nbytes = n\<rparr>) (\<lambda>(_, p). Inr p)
     | Some _ \<Rightarrow> hashmap_modify p key (\<lambda>prop. prop\<lparr>prop_value := buf, prop_nbytes := n\<rparr>))"

definition pa_proplist_sets :: "pa_proplist \<Rightarrow> bytes \<Rightarrow> bytes \<Rightarrow> (int \<times> pa_proplist) res" where
  "pa_proplist_sets p key value =
     (if \<not> pa_proplist_key_valid key \<or> pa_utf8_valid value = None then Inr (-1, p)
      else bindR (property_assign p key (value @ [0]) (length value + 1)) (\<lambda>p. Inr (0, p)))"

definition proplist_setn :: "pa_proplist \<Rightarrow> bytes \<Rightarrow> nat \<Rightarrow> bytes \<Rightarrow> nat \<Rightarrow> (int \<times> pa_proplist) res" where
  "proplist_setn p key key_length value value_length =
     (let k = pa_xstrndup key key_length; v = pa_xstrndup value value_length in
      if \<not> pa_proplist_key_valid k \<or> pa_utf8_valid v = None then Inr (-1, p)
      else bindR (property_assign p k (v @ [0]) (length v + 1)) (\<lambda>p. Inr (0, p)))"

definition pa_proplist_setp :: "pa_proplist \<Rightarrow> bytes \<Rightarrow> (int \<times> pa_proplist) res" where
  "pa_proplist_setp p pair =
     (let t = length (takeWhile (\<lambda>c. c \<noteq> 61) pair) in
      if t = length pair then Inr (-1, p)
      else proplist_setn p pair t (drop (t + 1) pair) (length pair - t - 1))"

definition proplist_sethex :: "pa_proplist \<Rightarrow> bytes \<Rightarrow> nat \<Rightarrow> bytes \<Rightarrow> nat \<Rightarrow> (int \<times> pa_proplist) res" where
  "proplist_sethex p key key_length value value_length =
     (let k = pa_xstrndup key key_length in
      if \<not> pa_proplist_key_valid k then Inr (-1, p)
      else
        let v = pa_xstrndup value value_length in
        case pa_parsehex v (value_length * 2) of
          None \<Rightarrow> Inr (-1, p)
        | Some d \<Rightarrow> bindR (property_assign p k (d @ [0]) (length d)) (\<lambda>p. Inr (0, p)))"

text \<open>\<^verbatim>\<open>pa_proplist_setf\<close> for the text \<open>v\<close> that the format stands for.\<close>

definition pa_proplist_setf :: "pa_proplist \<Rightarrow> bytes \<Rightarrow> bytes \<Rightarrow> bytes \<Rightarrow> (int \<times> pa_proplist) res" where
  "pa_proplist_setf p key format v =
     (if \<not> pa_proplist_key_valid key \<or> pa_utf8_valid format = None then Inr (-1, p)
      else if pa_utf8_valid v = None then Inr (-1, p)
      else bindR (property_assign p key (v @ [0]) (length v + 1)) (\<lambda>p. Inr (0, p)))"

definition pa_proplist_set :: "pa_proplist \<Rightarrow> bytes \<Rightarrow> bytes \<Rightarrow> nat \<Rightarrow> (int \<times> pa_proplist) res" where
  "pa_proplist_set p key data nbytes =
     (if \<not> pa_proplist_key_valid key then Inr (-1, p)
      else bindR (load data 0 nbytes) (\<lambda>d.
           bindR (property_assign p key (d @ [0]) nbytes) (\<lambda>p. Inr (0, p))))"

definition pa_proplist_gets :: "pa_proplist \<Rightarrow> bytes \<Rightarrow> bytes option res" where
  "pa_proplist_gets p key =
     (if \<not> pa_proplist_key_valid key then Inr None
      else bindR (pa_hashmap_get p key) (\<lambda>prop.
        case prop of None \<Rightarrow> Inr None
        | Some prop \<Rightarrow>
            if prop_nbytes prop \<le> 0 then Inr None
            else bindR (load (prop_value prop) (prop_nbytes prop - 1) 1) (\<lambda>l.
              if hd l \<noteq> 0 then Inr None
              else let str = takeWhile (\<lambda>c. c \<noteq> 0) (prop_value prop) in
                   if length str \<noteq> prop_nbytes prop - 1 then Inr None
                   else if pa_utf8_valid str = None then Inr None
                   else Inr (Some str))))"

definition pa_proplist_get :: "pa_proplist \<Rightarrow> bytes \<Rightarrow> (bytes \<times> nat) option res" where
  "pa_proplist_get p key =
     (if \<not> pa_proplist_key_valid key then Inr None
      else bindR (pa_hashmap_get p key) (\<lambda>prop.
        case prop of None \<Rightarrow> Inr None | Some prop \<Rightarrow> Inr (Some (prop_value prop, prop_nbytes prop))))"

definition pa_proplist_contains :: "pa_proplist \<Rightarrow> bytes \<Rightarrow> int res" where
  "pa_proplist_contains p key =
     (if \<not> pa_proplist_key_valid key then Inr (-1)
      else bindR (pa_hashmap_get p key) (\<lambda>prop. if prop = None then Inr 0 else Inr 1))"

definition pa_proplist_clear :: "pa_proplist \<Rightarrow> pa_proplist res" where
  "pa_proplist_clear p = pa_hashmap_remove_all p"

datatype pa_update_mode = PA_UPDATE_SET | PA_UPDATE_MERGE | PA_UPDATE_REPLACE

fun update_loop :: "pa_update_mode \<Rightarrow> property list \<Rightarrow> pa_proplist \<Rightarrow> pa_proplist res" where
  "update_loop mode [] p = Inr p"
| "update_loop mode (prop # props) p =
     bindR (if mode = PA_UPDATE_MERGE then pa_proplist_contains p (prop_key prop) else Inr 0) (\<lambda>c.
     if mode = PA_UPDATE_MERGE \<and> c \<noteq> 0 then update_loop mode props p
     else bindR (pa_proplist_set p (prop_key prop) (prop_value prop) (prop_nbytes prop)) (\<lambda>(r, p).
          bindR (assertR (r = 0)) (\<lambda>_. update_loop mode props p)))"

definition pa_proplist_update :: "pa_proplist \<Rightarrow> pa_update_mode \<Rightarrow> pa_proplist \<Rightarrow> pa_proplist res" where
  "pa_proplist_update p mode other =
     bindR (if mode = PA_UPDATE_SET then pa_proplist_clear p else Inr p) (\<lambda>p.
     bindR (hashmap_foreach other) (\<lambda>kvs. update_loop mode (map snd kvs) p))"

definition pa_proplist_unset :: "pa_proplist \<Rightarrow> bytes \<Rightarrow> (int \<times> pa_proplist) res" where
  "pa_proplist_unset p key =
     (if \<not> pa_proplist_key_valid key then Inr (-1, p)
      else bindR (pa_hashmap_remove_and_free p key) (\<lambda>(r, p). if r < 0 then Inr (-2, p) else Inr (0, p)))"

fun unset_loop :: "bytes list \<Rightarrow> int \<Rightarrow> pa_proplist \<Rightarrow> (int \<times> pa_proplist) res" where
  "unset_loop [] n p = Inr (n, p)"
| "unset_loop (k # ks) n p =
     bindR (pa_proplist_unset p k) (\<lambda>(r, p). unset_loop ks (if r \<ge> 0 then n + 1 else n) p)"

definition pa_proplist_unset_many :: "pa_proplist \<Rightarrow> bytes list \<Rightarrow> (int \<times> pa_proplist) res" where
  "pa_proplist_unset_many p keys =
     (if \<not> list_all pa_proplist_key_valid keys then Inr (-1, p) else unset_loop keys 0 p)"

definition pa_proplist_iterate :: "pa_proplist \<Rightarrow> iter_state \<Rightarrow> (bytes option \<times> iter_state) res" where
  "pa_proplist_iterate p state =
     bindR (pa_hashmap_iterate p state) (\<lambda>(prop, state'). Inr (map_option (prop_key \<circ> snd) prop, state'))"

text \<open>The keys that successive calls of \<^verbatim>\<open>pa_proplist_iterate\<close> return.\<close>

definition proplist_keys :: "pa_proplist \<Rightarrow> bytes list res" where
  "proplist_keys p = bindR (hashmap_foreach p) (\<lambda>kvs. Inr (map (prop_key \<circ> snd) kvs))"

text \<open>A copy; \<open>None\<close> stands for the null pointer.\<close>

definition pa_proplist_copy :: "pa_proplist option \<Rightarrow> pa_proplist res" where
  "pa_proplist_copy p =
     (case p of None \<Rightarrow> Inr pa_proplist_new | Some p \<Rightarrow> pa_proplist_update pa_proplist_new PA_UPDATE_REPLACE p)"

definition pa_proplist_size :: "pa_proplist \<Rightarrow> u32" where
  "pa_proplist_size p = pa_hashmap_size p"

definition pa_proplist_isempty :: "pa_proplist \<Rightarrow> bool" where
  "pa_proplist_isempty p = pa_hashmap_isempty p"

fun equal_loop :: "(bytes \<times> property) list \<Rightarrow> pa_proplist \<Rightarrow> int res" where
  "equal_loop [] b = Inr 1"
| "equal_loop ((key, a_prop) # rest) b =
     bindR (pa_hashmap_get b key) (\<lambda>b_prop.
     case b_prop of None \<Rightarrow> Inr 0
     | Some b_prop \<Rightarrow>
         if prop_nbytes a_prop \<noteq> prop_nbytes b_prop then Inr 0
         else bindR (load (prop_value a_prop) 0 (prop_nbytes a_prop)) (\<lambda>x.
              bindR (load (prop_value b_prop) 0 (prop_nbytes a_prop)) (\<lambda>y.
              if x \<noteq> y then Inr 0 else equal_loop rest b)))"

text \<open>\<^verbatim>\<open>pa_proplist_equal\<close> of two different objects (the same object is equal to itself at once).\<close>

definition pa_proplist_equal :: "pa_proplist \<Rightarrow> pa_proplist \<Rightarrow> int res" where
  "pa_proplist_equal a b =
     (if pa_proplist_size a \<noteq> pa_proplist_size b then Inr 0
      else bindR (hashmap_foreach a) (\<lambda>kvs. equal_loop kvs b))"

section \<open>The text form\<close>

text \<open>The loop that prints a string value up to the next quotation mark and escapes that.\<close>

function quote_loop :: "pa_strbuf \<Rightarrow> bytes \<Rightarrow> pa_strbuf res" where
  "quote_loop buf t =
     (let h = length (takeWhile (\<lambda>c. c \<noteq> 34) t);
          buf = (if h > 0 then pa_strbuf_putsn buf t h else buf);
          t' = drop h t
      in case t' of [] \<Rightarrow> Inr buf
         | c # rest \<Rightarrow> bindR (assertR (c = 34)) (\<lambda>_. quote_loop (pa_strbuf_puts buf [92, 34]) rest))"
  by pat_completeness auto

termination
  by (relation "measure (\<lambda>(_, t). length t)") (auto dest: arg_cong [where f = length])

definition eq_quote :: bytes where "eq_quote = [32, 61, 32, 34]"
definition eq_hex :: bytes where "eq_hex = [32, 61, 32, 104, 101, 120, 58]"

fun to_string_loop :: "bytes \<Rightarrow> bytes list \<Rightarrow> pa_proplist \<Rightarrow> pa_strbuf \<Rightarrow> pa_strbuf res" where
  "to_string_loop sep [] p buf = Inr buf"
| "to_string_loop sep (key # keys) p buf =
     (let buf = (if \<not> pa_strbuf_isempty buf then pa_strbuf_puts buf sep else buf) in
      bindR (pa_proplist_gets p key) (\<lambda>v.
      bindR (case v of
          Some v \<Rightarrow> bindR (quote_loop (pa_strbuf_printf buf (key @ eq_quote)) v) (\<lambda>buf. Inr (pa_strbuf_puts buf [34]))
        | None \<Rightarrow>
            bindR (pa_proplist_get p key) (\<lambda>r.
            case r of None \<Rightarrow> Inl AssertFail
            | Some (value, nbytes) \<Rightarrow>
                bindR (load value 0 nbytes) (\<lambda>d.
                bindR (pa_hexstr d (nbytes * 2 + 1)) (\<lambda>c.
                Inr (pa_strbuf_printf buf (key @ eq_hex @ c)))))) (\<lambda>buf.
      to_string_loop sep keys p buf)))"

definition pa_proplist_to_string_sep :: "pa_proplist \<Rightarrow> bytes \<Rightarrow> bytes res" where
  "pa_proplist_to_string_sep p sep =
     bindR (proplist_keys p) (\<lambda>keys.
     bindR (to_string_loop sep keys p pa_strbuf_new) (\<lambda>buf. pa_strbuf_tostring buf))"

definition pa_proplist_to_string :: "pa_proplist \<Rightarrow> bytes res" where
  "pa_proplist_to_string p = bindR (pa_proplist_to_string_sep p [10]) (\<lambda>s. Inr (s @ [10]))"

datatype parse_state =
    WHITESPACE | KEY | AFTER_KEY | VALUE_START | VALUE_SIMPLE
  | VALUE_DOUBLE_QUOTES | VALUE_DOUBLE_QUOTES_ESCAPE | VALUE_TICKS | VALUE_TICKS_ESCAPED | VALUE_HEX

text \<open>The local variables of \<^verbatim>\<open>pa_proplist_from_string\<close>; pointers into the text are offsets.\<close>

record parser =
  ps_state :: parse_state
  ps_pl :: pa_proplist
  ps_key :: nat
  ps_key_len :: nat
  ps_value :: nat
  ps_value_len :: nat

text \<open>One pass through the \<open>switch\<close>: on to the next character (after skipping some), or out.\<close>

datatype parse_result = Next parser nat | Success pa_proplist | Failure

definition char_at :: "bytes \<Rightarrow> nat \<Rightarrow> u8" where
  "char_at s p = (if p < length s then s ! p else 0)"

definition is_hex_char :: "u8 \<Rightarrow> bool" where
  "is_hex_char c \<longleftrightarrow> (c \<ge> 48 \<and> c \<le> 57) \<or> (c \<ge> 65 \<and> c \<le> 70) \<or> (c \<ge> 97 \<and> c \<le> 102)"

definition longer_value :: "parser \<Rightarrow> parser" where
  "longer_value ps = ps\<lparr>ps_value_len := ps_value_len ps + 1\<rparr>"

definition start_value :: "parse_state \<Rightarrow> nat \<Rightarrow> nat \<Rightarrow> parser \<Rightarrow> parser" where
  "start_value st v n ps = ps\<lparr>ps_state := st, ps_value := v, ps_value_len := n\<rparr>"

text \<open>What follows a complete value: the setter's result, then the end of the text or more of it.\<close>

definition value_done :: "(int \<times> pa_proplist) res \<Rightarrow> bool \<Rightarrow> parser \<Rightarrow> parse_result res" where
  "value_done r at_end ps =
     bindR r (\<lambda>(i, pl).
     if i < 0 then Inr Failure
     else if at_end then Inr (Success pl)
     else Inr (Next (ps\<lparr>ps_pl := pl, ps_state := WHITESPACE\<rparr>) 0))"

definition quoted_done :: "bytes \<Rightarrow> parser \<Rightarrow> parse_result res" where
  "quoted_done s ps =
     (let v = pa_unescape (pa_xstrndup (drop (ps_value ps) s) (ps_value_len ps)) in
      value_done (proplist_setn (ps_pl ps) (drop (ps_key ps) s) (ps_key_len ps) v (length v)) False ps)"

definition parse_step :: "bytes \<Rightarrow> nat \<Rightarrow> parser \<Rightarrow> parse_result res" where
  "parse_step s p ps =
     (let c = char_at s p in
      case ps_state ps of
        WHITESPACE \<Rightarrow>
          if c = 0 then Inr (Success (ps_pl ps))
          else if c = 61 then Inr Failure
          else if \<not> isspace c then Inr (Next (ps\<lparr>ps_key := p, ps_state := KEY, ps_key_len := 1\<rparr>) 0)
          else Inr (Next ps 0)
      | KEY \<Rightarrow>
          if c = 0 then Inr Failure
          else if c = 61 then Inr (Next (ps\<lparr>ps_state := VALUE_START\<rparr>) 0)
          else if isspace c then Inr (Next (ps\<lparr>ps_state := AFTER_KEY\<rparr>) 0)
          else Inr (Next (ps\<lparr>ps_key_len := ps_key_len ps + 1\<rparr>) 0)
      | AFTER_KEY \<Rightarrow>
          if c = 0 then Inr Failure
          else if c = 61 then Inr (Next (ps\<lparr>ps_state := VALUE_START\<rparr>) 0)
          else if \<not> isspace c then Inr Failure
          else Inr (Next ps 0)
      | VALUE_START \<Rightarrow>
          if c = 0 then Inr Failure
          else if take 4 (drop p s) = [104, 101, 120, 58] then Inr (Next (start_value VALUE_HEX (p + 4) 0 ps) 3)
          else if c = 39 then Inr (Next (start_value VALUE_TICKS (p + 1) 0 ps) 0)
          else if c = 34 then Inr (Next (start_value VALUE_DOUBLE_QUOTES (p + 1) 0 ps) 0)
          else if \<not> isspace c then Inr (Next (start_value VALUE_SIMPLE p 1 ps) 0)
          else Inr (Next ps 0)
      | VALUE_SIMPLE \<Rightarrow>
          if c = 0 \<or> isspace c
          then value_done (proplist_setn (ps_pl ps) (drop (ps_key ps) s) (ps_key_len ps)
                 (drop (ps_value ps) s) (ps_value_len ps)) (c = 0) ps
          else Inr (Next (longer_value ps) 0)
      | VALUE_DOUBLE_QUOTES \<Rightarrow>
          if c = 0 then Inr Failure
          else if c = 34 then quoted_done s ps
          else if c = 92 then Inr (Next (longer_value (ps\<lparr>ps_state := VALUE_DOUBLE_QUOTES_ESCAPE\<rparr>)) 0)
          else Inr (Next (longer_value ps) 0)
      | VALUE_DOUBLE_QUOTES_ESCAPE \<Rightarrow>
          if c = 0 then Inr Failure
          else Inr (Next (longer_value (ps\<lparr>ps_state := VALUE_DOUBLE_QUOTES\<rparr>)) 0)
      | VALUE_TICKS \<Rightarrow>
          if c = 0 then Inr Failure
          else if c = 39 then quoted_done s ps
          else if c = 92 then Inr (Next (longer_value (ps\<lparr>ps_state := VALUE_TICKS_ESCAPED\<rparr>)) 0)
          else Inr (Next (longer_value ps) 0)
      | VALUE_TICKS_ESCAPED \<Rightarrow>
          if c = 0 then Inr Failure
          else Inr (Next (longer_value (ps\<lparr>ps_state := VALUE_TICKS\<rparr>)) 0)
      | VALUE_HEX \<Rightarrow>
          if is_hex_char c then Inr (Next (longer_value ps) 0)
          else if c = 0 \<or> isspace c
          then value_done (proplist_sethex (ps_pl ps) (drop (ps_key ps) s) (ps_key_len ps)
                 (drop (ps_value ps) s) (ps_value_len ps)) (c = 0) ps
          else Inr Failure)"

text \<open>The loop: reading past the terminating NUL would be out of bounds.\<close>

function parse_loop :: "bytes \<Rightarrow> nat \<Rightarrow> parser \<Rightarrow> pa_proplist option res" where
  "parse_loop s p ps =
     (if p > length s then Inl OutOfBounds
      else case parse_step s p ps of
             Inl e \<Rightarrow> Inl e
           | Inr (Success pl) \<Rightarrow> Inr (Some pl)
           | Inr Failure \<Rightarrow> Inr None
           | Inr (Next ps' skip) \<Rightarrow> parse_loop s (p + skip + 1) ps')"
  by pat_completeness auto

termination
  by (relation "measure (\<lambda>(s, p, _). Suc (length s) - p)") auto

definition pa_proplist_from_string :: "bytes \<Rightarrow> pa_proplist option res" where
  "pa_proplist_from_string s =
     parse_loop s 0 \<lparr>ps_state = WHITESPACE, ps_pl = pa_proplist_new, ps_key = 0, ps_key_len = 0,
       ps_value = 0, ps_value_len = 0\<rparr>"

declare quote_loop.simps [simp del] parse_loop.simps [simp del]

section \<open>Property lists as ordered maps\<close>

text \<open>\<open>pl_abs p kvs\<close>: the list holds the values \<open>kvs\<close> in the order in which the keys were added; every
  key is valid, every property records its own key and has room for its bytes.\<close>

definition prop_ok :: "bytes \<times> property \<Rightarrow> bool" where
  "prop_ok kp \<longleftrightarrow> prop_key (snd kp) = fst kp \<and> pa_proplist_key_valid (fst kp) \<and>
     prop_nbytes (snd kp) \<le> length (prop_value (snd kp))"

definition prop_data :: "property \<Rightarrow> bytes" where
  "prop_data pr = take (prop_nbytes pr) (prop_value pr)"

definition pl_abs :: "pa_proplist \<Rightarrow> (bytes \<times> bytes) list \<Rightarrow> bool" where
  "pl_abs p kvs \<longleftrightarrow> (\<exists>props. hm_abs p props \<and> list_all prop_ok props \<and>
     kvs = map (\<lambda>(k, pr). (k, prop_data pr)) props)"

definition pl_set :: "bytes \<Rightarrow> bytes \<Rightarrow> (bytes \<times> bytes) list \<Rightarrow> (bytes \<times> bytes) list" where
  "pl_set k v kvs =
     (if map_of kvs k \<noteq> None then map (\<lambda>(k', w). (k', if k' = k then v else w)) kvs else kvs @ [(k, v)])"

definition pl_unset :: "bytes \<Rightarrow> (bytes \<times> bytes) list \<Rightarrow> (bytes \<times> bytes) list" where
  "pl_unset k kvs = filter (\<lambda>(k', _). k' \<noteq> k) kvs"

text \<open>The value as a string: it ends with its only NUL and is valid UTF-8 before that.\<close>

definition pl_string :: "bytes \<Rightarrow> bytes option" where
  "pl_string v =
     (if v \<noteq> [] \<and> last v = 0 \<and> cstring (butlast v) then pa_utf8_valid (butlast v) else None)"

lemma pl_abs_facts:
  assumes "pl_abs p kvs"
  shows "distinct (map fst kvs)" and "list_all (\<lambda>(k, _). pa_proplist_key_valid k) kvs" and "length kvs < 2 ^ 32"
proof -
  from assms obtain props where p: "hm_abs p props" "list_all prop_ok props"
      "kvs = map (\<lambda>(k, pr). (k, prop_data pr)) props" by (auto simp: pl_abs_def)
  have "map fst kvs = map fst props" by (simp add: p(3) case_prod_beta)
  then show "distinct (map fst kvs)" using hm_abs_distinct [OF p(1)] by simp
  show "list_all (\<lambda>(k, _). pa_proplist_key_valid k) kvs"
    using p(2) by (auto simp: p(3) list_all_iff prop_ok_def case_prod_beta)
  show "length kvs < 2 ^ 32" using hm_abs_head(3) [OF p(1)] by (simp add: p(3))
qed

lemma map_of_prop_data:
  "map_of (map (\<lambda>(k, pr). (k, prop_data pr)) props) k = map_option prop_data (map_of props k)"
  by (induction props) auto

lemma pl_abs_get:
  assumes "pl_abs p kvs"
  shows "\<exists>r. pa_hashmap_get p k = Inr r \<and> map_option prop_data r = map_of kvs k \<and>
     (\<forall>pr. r = Some pr \<longrightarrow> prop_key pr = k \<and> prop_nbytes pr \<le> length (prop_value pr))"
proof -
  from assms obtain props where p: "hm_abs p props" "list_all prop_ok props"
      "kvs = map (\<lambda>(k, pr). (k, prop_data pr)) props" by (auto simp: pl_abs_def)
  have "prop_ok (k, pr)" if "map_of props k = Some pr" for pr
    using p(2) map_of_SomeD [OF that] by (auto simp: list_all_iff)
  then show ?thesis using hashmap_get_ok [OF p(1)] by (auto simp: p(3) map_of_prop_data prop_ok_def)
qed

lemma property_assign_ok:
  assumes p: "pl_abs p kvs" and k: "pa_proplist_key_valid k" and n: "n \<le> length buf" and room: "length kvs + 1 < 2 ^ 32"
  shows "\<exists>p'. property_assign p k buf n = Inr p' \<and> pl_abs p' (pl_set k (take n buf) kvs)"
proof -
  from p obtain props where props: "hm_abs p props" "list_all prop_ok props"
      "kvs = map (\<lambda>(k, pr). (k, prop_data pr)) props" by (auto simp: pl_abs_def)
  note get = hashmap_get_ok [OF props(1), of k]
  show ?thesis
  proof (cases "map_of props k")
    case None
    let ?pr = "\<lparr>prop_key = k, prop_value = buf, prop_nbytes = n\<rparr>"
    have "k \<notin> fst ` set props" using None by (simp add: map_of_eq_None_iff)
    then obtain p' where p': "pa_hashmap_put p k ?pr = Inr (0, p')" "hm_abs p' (props @ [(k, ?pr)])"
      using hashmap_put_ok [OF props(1), of k ?pr] room by (auto simp: props(3))
    have "prop_data ?pr = take n buf" by (simp add: prop_data_def)
    then have "pl_abs p' (pl_set k (take n buf) kvs)"
      unfolding pl_abs_def using p'(2) props(2) k n None
      by (intro exI [of _ "props @ [(k, ?pr)]"]) (auto simp: props(3) pl_set_def map_of_prop_data prop_ok_def)
    then show ?thesis using p'(1) get None by (simp add: property_assign_def)
  next
    case (Some pr0)
    let ?f = "\<lambda>prop :: property. prop\<lparr>prop_value := buf, prop_nbytes := n\<rparr>"
    let ?props = "map (\<lambda>(k', v). (k', if k' = k then ?f v else v)) props"
    have "k \<in> fst ` set props" using Some by (metis domI dom_map_of_conv_image_fst)
    then obtain p' where p': "hashmap_modify p k ?f = Inr p'" "hm_abs p' ?props"
      using hashmap_modify_ok [OF props(1), of k ?f] by auto
    have "list_all prop_ok ?props" using props(2) n by (auto simp: list_all_iff prop_ok_def)
    moreover have "pl_set k (take n buf) kvs = map (\<lambda>(k, pr). (k, prop_data pr)) ?props"
      using Some by (auto simp: props(3) pl_set_def map_of_prop_data) (simp_all add: prop_data_def)
    ultimately have "pl_abs p' (pl_set k (take n buf) kvs)" using p'(2) by (auto simp: pl_abs_def)
    then show ?thesis using p'(1) get Some by (simp add: property_assign_def)
  qed
qed

lemma proplist_new_ok: "pl_abs pa_proplist_new []"
  unfolding pl_abs_def pa_proplist_new_def by (intro exI [of _ "[]"]) (simp add: hashmap_new_ok)

lemma proplist_unset_ok:
  assumes p: "pl_abs p kvs"
  shows "\<exists>p'. pa_proplist_unset p k =
      Inr (if \<not> pa_proplist_key_valid k then -1 else if map_of kvs k = None then -2 else 0, p') \<and>
      pl_abs p' (if pa_proplist_key_valid k then pl_unset k kvs else kvs)"
proof -
  from p obtain props where props: "hm_abs p props" "list_all prop_ok props"
      "kvs = map (\<lambda>(k, pr). (k, prop_data pr)) props" by (auto simp: pl_abs_def)
  have f: "pl_unset k kvs = map (\<lambda>(k, pr). (k, prop_data pr)) (filter (\<lambda>(k', _). k' \<noteq> k) props)"
    unfolding pl_unset_def props(3) by (induction props) auto
  have l: "list_all prop_ok (filter (\<lambda>(k', _). k' \<noteq> k) props)" using props(2) by (auto simp: list_all_iff)
  have n: "map_of props k = None \<Longrightarrow> filter (\<lambda>(k', _). k' \<noteq> k) props = props" by (rule map_of_None_filter)
  show ?thesis using hashmap_remove_and_free_ok [OF props(1), of k] p f l n
    by (cases "map_of props k")
      (auto simp: pa_proplist_unset_def props(3) map_of_prop_data pl_abs_def)
qed

lemma proplist_clear_ok:
  assumes "pl_abs p kvs"
  shows "\<exists>p'. pa_proplist_clear p = Inr p' \<and> pl_abs p' []"
proof -
  from assms obtain props where "hm_abs p props" by (auto simp: pl_abs_def)
  then show ?thesis using hashmap_remove_all_ok [of p props] by (force simp: pa_proplist_clear_def pl_abs_def)
qed

lemma proplist_foreach_ok:
  assumes "pl_abs p kvs"
  shows "\<exists>props. hashmap_foreach p = Inr props \<and> list_all prop_ok props \<and> kvs = map (\<lambda>(k, pr). (k, prop_data pr)) props"
  using assms hashmap_foreach_ok by (auto simp: pl_abs_def)

lemma proplist_keys_ok: "pl_abs p kvs \<Longrightarrow> proplist_keys p = Inr (map fst kvs)"
  using proplist_foreach_ok [of p kvs]
  by (auto simp: proplist_keys_def list_all_iff prop_ok_def)

lemma proplist_size_ok:
  assumes "pl_abs p kvs"
  shows "pa_proplist_size p = of_nat (length kvs)" "pa_proplist_isempty p \<longleftrightarrow> kvs = []"
  using assms hashmap_size_ok [of p] by (auto simp: pl_abs_def pa_proplist_size_def pa_proplist_isempty_def)

lemma proplist_contains_ok:
  "pl_abs p kvs \<Longrightarrow> pa_proplist_contains p k =
     Inr (if \<not> pa_proplist_key_valid k then -1 else if map_of kvs k = None then 0 else 1)"
  using pl_abs_get [of p kvs k] by (auto simp: pa_proplist_contains_def)

lemma proplist_get_ok:
  assumes "pl_abs p kvs"
  shows "\<exists>r. pa_proplist_get p k = Inr r \<and>
     map_option (\<lambda>(d, n). take n d) r = (if pa_proplist_key_valid k then map_of kvs k else None) \<and>
     (\<forall>d n. r = Some (d, n) \<longrightarrow> n \<le> length d)"
proof -
  obtain r where "pa_hashmap_get p k = Inr r" "map_option prop_data r = map_of kvs k"
      "\<And>pr. r = Some pr \<Longrightarrow> prop_nbytes pr \<le> length (prop_value pr)"
    using pl_abs_get [OF assms, of k] by auto
  then show ?thesis by (cases r) (auto simp: pa_proplist_get_def prop_data_def)
qed

lemma takeWhile_nonzero_butlast:
  assumes "n \<le> length buf" and "n \<noteq> 0" and "buf ! (n - 1) = 0"
  shows "length (takeWhile (\<lambda>c. c \<noteq> 0) buf) = n - 1 \<longleftrightarrow> cstring (butlast (take n buf))"
    and "cstring (butlast (take n buf)) \<Longrightarrow> takeWhile (\<lambda>c. c \<noteq> 0) buf = butlast (take n (buf :: bytes))"
proof -
  have b: "butlast (take n buf) = take (n - 1) buf" using assms(1) by (simp add: butlast_take)
  have s: "buf = take (n - 1) buf @ 0 # drop n buf" using assms id_take_nth_drop [of "n - 1" buf] by simp
  show t: "takeWhile (\<lambda>c. c \<noteq> 0) buf = butlast (take n buf)" if "cstring (butlast (take n buf))"
  proof -
    have "takeWhile (\<lambda>c. c \<noteq> 0) (take (n - 1) buf @ 0 # drop n buf) = take (n - 1) buf"
      using that unfolding b cstring_def by (subst takeWhile_append2) auto
    then show ?thesis using s b by simp
  qed
  have "cstring (take (n - 1) buf)" if "length (takeWhile (\<lambda>c. c \<noteq> 0) buf) = n - 1"
  proof -
    have "take (n - 1) buf = takeWhile (\<lambda>c. c \<noteq> 0) buf" using that by (metis takeWhile_eq_take)
    then show ?thesis by (auto simp: cstring_def dest: set_takeWhileD)
  qed
  then show "length (takeWhile (\<lambda>c. c \<noteq> 0) buf) = n - 1 \<longleftrightarrow> cstring (butlast (take n buf))"
    using t assms(1) by (auto simp: b)
qed

lemma proplist_gets_ok:
  assumes "pl_abs p kvs"
  shows "pa_proplist_gets p k =
     Inr (if pa_proplist_key_valid k then (case map_of kvs k of None \<Rightarrow> None | Some v \<Rightarrow> pl_string v) else None)"
proof (cases "pa_proplist_key_valid k")
  case True
  from pl_abs_get [OF assms, of k] obtain r where r: "pa_hashmap_get p k = Inr r" "map_option prop_data r = map_of kvs k"
      "\<And>pr. r = Some pr \<Longrightarrow> prop_nbytes pr \<le> length (prop_value pr)" by auto
  show ?thesis
  proof (cases r)
    case None
    then show ?thesis using r True by (simp add: pa_proplist_gets_def)
  next
    case (Some pr)
    let ?n = "prop_nbytes pr" and ?b = "prop_value pr"
    have v: "map_of kvs k = Some (take ?n ?b)" and n: "?n \<le> length ?b" using r Some by (auto simp: prop_data_def)
    show ?thesis
    proof (cases "?n = 0")
      case True
      then show ?thesis using r(1) Some v \<open>pa_proplist_key_valid k\<close> by (simp add: pa_proplist_gets_def pl_string_def)
    next
      case False
      have l: "load ?b (?n - 1) 1 = Inr [?b ! (?n - 1)]"
        using False n by (simp add: load_def take_Suc hd_drop_conv_nth)
      have ne: "take ?n ?b \<noteq> []" using False n by auto
      have la: "last (take ?n ?b) = ?b ! (?n - 1)" "take ?n ?b \<noteq> []"
        using False n ne by (simp_all add: last_conv_nth [OF ne] min_def)
      show ?thesis
        using r(1) Some v True l la False takeWhile_nonzero_butlast [OF n False]
        by (auto simp: pa_proplist_gets_def pl_string_def Let_def pa_utf8_valid_def split: option.splits)
    qed
  qed
qed (simp add: pa_proplist_gets_def)

section \<open>Sessions with a property list\<close>

datatype pl_op =
    PSets bytes bytes | PSetp bytes | PSetf bytes bytes bytes | PSet bytes bytes nat
  | PUnset bytes | PUnsetMany "bytes list" | PClear
  | PGets bytes | PGet bytes | PContains bytes | PSize | PIsEmpty | PKeys

datatype pl_out = PInt int | PBytes "bytes option" | PSz u32 | PBool bool | PKeyList "bytes list" | PUnit

fun pl_step :: "pl_op \<Rightarrow> pa_proplist \<Rightarrow> (pl_out \<times> pa_proplist) res" where
  "pl_step (PSets k v) p = bindR (pa_proplist_sets p k v) (\<lambda>(i, p). Inr (PInt i, p))"
| "pl_step (PSetp pair) p = bindR (pa_proplist_setp p pair) (\<lambda>(i, p). Inr (PInt i, p))"
| "pl_step (PSetf k fmt v) p = bindR (pa_proplist_setf p k fmt v) (\<lambda>(i, p). Inr (PInt i, p))"
| "pl_step (PSet k d n) p = bindR (pa_proplist_set p k d n) (\<lambda>(i, p). Inr (PInt i, p))"
| "pl_step (PUnset k) p = bindR (pa_proplist_unset p k) (\<lambda>(i, p). Inr (PInt i, p))"
| "pl_step (PUnsetMany ks) p = bindR (pa_proplist_unset_many p ks) (\<lambda>(i, p). Inr (PInt i, p))"
| "pl_step PClear p = bindR (pa_proplist_clear p) (\<lambda>p. Inr (PUnit, p))"
| "pl_step (PGets k) p = bindR (pa_proplist_gets p k) (\<lambda>v. Inr (PBytes v, p))"
| "pl_step (PGet k) p =
     bindR (pa_proplist_get p k) (\<lambda>v. case v of None \<Rightarrow> Inr (PBytes None, p)
       | Some (d, n) \<Rightarrow> bindR (load d 0 n) (\<lambda>b. Inr (PBytes (Some b), p)))"
| "pl_step (PContains k) p = bindR (pa_proplist_contains p k) (\<lambda>i. Inr (PInt i, p))"
| "pl_step PSize p = Inr (PSz (pa_proplist_size p), p)"
| "pl_step PIsEmpty p = Inr (PBool (pa_proplist_isempty p), p)"
| "pl_step PKeys p = bindR (proplist_keys p) (\<lambda>ks. Inr (PKeyList ks, p))"

text \<open>The same on the ordered map. A key must be non-empty ASCII, a string valid UTF-8.\<close>

definition pl_set_string :: "bytes \<Rightarrow> bytes \<Rightarrow> (bytes \<times> bytes) list \<Rightarrow> pl_out \<times> (bytes \<times> bytes) list" where
  "pl_set_string k v kvs =
     (if pa_proplist_key_valid k \<and> pa_utf8_valid v \<noteq> None then (PInt 0, pl_set k (v @ [0]) kvs) else (PInt (-1), kvs))"

fun pl_unset_many :: "bytes list \<Rightarrow> int \<Rightarrow> (bytes \<times> bytes) list \<Rightarrow> int \<times> (bytes \<times> bytes) list" where
  "pl_unset_many [] n kvs = (n, kvs)"
| "pl_unset_many (k # ks) n kvs = pl_unset_many ks (if map_of kvs k = None then n else n + 1) (pl_unset k kvs)"

fun pl_spec :: "pl_op \<Rightarrow> (bytes \<times> bytes) list \<Rightarrow> pl_out \<times> (bytes \<times> bytes) list" where
  "pl_spec (PSets k v) kvs = pl_set_string k v kvs"
| "pl_spec (PSetp pair) kvs =
     (if 61 \<in> set pair
      then pl_set_string (takeWhile (\<lambda>c. c \<noteq> 61) pair) (tl (dropWhile (\<lambda>c. c \<noteq> 61) pair)) kvs
      else (PInt (-1), kvs))"
| "pl_spec (PSetf k fmt v) kvs = (if pa_utf8_valid fmt \<noteq> None then pl_set_string k v kvs else (PInt (-1), kvs))"
| "pl_spec (PSet k d n) kvs = (if pa_proplist_key_valid k then (PInt 0, pl_set k (take n d) kvs) else (PInt (-1), kvs))"
| "pl_spec (PUnset k) kvs =
     (if \<not> pa_proplist_key_valid k then (PInt (-1), kvs)
      else (PInt (if map_of kvs k = None then -2 else 0), pl_unset k kvs))"
| "pl_spec (PUnsetMany ks) kvs =
     (if list_all pa_proplist_key_valid ks then (let (n, kvs') = pl_unset_many ks 0 kvs in (PInt n, kvs'))
      else (PInt (-1), kvs))"
| "pl_spec PClear kvs = (PUnit, [])"
| "pl_spec (PGets k) kvs =
     (PBytes (if pa_proplist_key_valid k then (case map_of kvs k of None \<Rightarrow> None | Some v \<Rightarrow> pl_string v) else None), kvs)"
| "pl_spec (PGet k) kvs = (PBytes (if pa_proplist_key_valid k then map_of kvs k else None), kvs)"
| "pl_spec (PContains k) kvs =
     (PInt (if \<not> pa_proplist_key_valid k then -1 else if map_of kvs k = None then 0 else 1), kvs)"
| "pl_spec PSize kvs = (PSz (of_nat (length kvs)), kvs)"
| "pl_spec PIsEmpty kvs = (PBool (kvs = []), kvs)"
| "pl_spec PKeys kvs = (PKeyList (map fst kvs), kvs)"

text \<open>The arguments make sense: strings have no NUL inside and a buffer is as long as the caller says.\<close>

fun pl_args_ok :: "pl_op \<Rightarrow> bool" where
  "pl_args_ok (PSetp pair) = cstring pair"
| "pl_args_ok (PSet k d n) = (n \<le> length d)"
| "pl_args_ok _ = True"

definition pl_ok :: "pl_op \<Rightarrow> (bytes \<times> bytes) list \<Rightarrow> bool" where
  "pl_ok q kvs \<longleftrightarrow> pl_args_ok q \<and> length kvs + 1 < 2 ^ 32"

lemma setn_ok:
  assumes p: "pl_abs p kvs" and room: "length kvs + 1 < 2 ^ 32"
    and k: "pa_xstrndup key kl = k" and v: "pa_xstrndup value vl = v"
  shows "\<exists>p'. bindR (proplist_setn p key kl value vl) (\<lambda>(i, p). Inr (PInt i, p)) = Inr (fst (pl_set_string k v kvs), p') \<and>
     pl_abs p' (snd (pl_set_string k v kvs))"
  using property_assign_ok [OF p, of k "length v + 1" "v @ [0]"] room p
  by (auto simp: proplist_setn_def k v Let_def pl_set_string_def)

lemma xstrndup_cstring: "cstring s \<Longrightarrow> pa_xstrndup s n = take n s"
  by (auto simp: pa_xstrndup_def cstring_def takeWhile_eq_all_conv dest: in_set_takeD)

lemma takeWhile_length_all: "length (takeWhile (\<lambda>c. c \<noteq> a) s) = length s \<longleftrightarrow> a \<notin> set s"
  by (induction s) auto

lemma unset_loop_ok:
  "pl_abs p kvs \<Longrightarrow> list_all pa_proplist_key_valid ks \<Longrightarrow>
     \<exists>p'. unset_loop ks n p = Inr (fst (pl_unset_many ks n kvs), p') \<and> pl_abs p' (snd (pl_unset_many ks n kvs))"
proof (induction ks arbitrary: n p kvs)
  case (Cons k ks)
  then have k: "pa_proplist_key_valid k" and ks: "list_all pa_proplist_key_valid ks" by simp_all
  from proplist_unset_ok [OF Cons.prems(1), of k] k obtain p1 where
    p1: "pa_proplist_unset p k = Inr (if map_of kvs k = None then -2 else 0, p1)" "pl_abs p1 (pl_unset k kvs)" by auto
  show ?case using Cons.IH [OF p1(2) ks] p1(1) by auto
qed simp

interpretation pl: simulation pl_abs pl_ok pl_step pl_spec
proof unfold_locales
  fix p kvs q
  assume p: "pl_abs p kvs" and ok: "pl_ok q kvs"
  then have room: "length kvs + 1 < 2 ^ 32" and args: "pl_args_ok q" by (simp_all add: pl_ok_def)
  show "\<exists>p'. pl_step q p = Inr (fst (pl_spec q kvs), p') \<and> pl_abs p' (snd (pl_spec q kvs))"
  proof (cases q)
    case (PSets k v)
    then show ?thesis using property_assign_ok [OF p, of k "length v + 1" "v @ [0]"] room p
      by (auto simp: pa_proplist_sets_def pl_set_string_def)
  next
    case (PSetf k fmt v)
    then show ?thesis using property_assign_ok [OF p, of k "length v + 1" "v @ [0]"] room p
      by (auto simp: pa_proplist_setf_def pl_set_string_def)
  next
    case (PSet k d n)
    then have n: "n \<le> length d" using args by simp
    then show ?thesis using PSet property_assign_ok [OF p, of k n "take n d @ [0]"] room p
      by (auto simp: pa_proplist_set_def load_def)
  next
    case (PSetp pair)
    let ?t = "length (takeWhile (\<lambda>c. c \<noteq> 61) pair)"
    have c: "cstring pair" using args PSetp by simp
    have d: "dropWhile (\<lambda>c. c \<noteq> 61) pair = drop ?t pair" by (rule dropWhile_eq_drop)
    have t: "takeWhile (\<lambda>c. c \<noteq> 61) pair = take ?t pair" by (rule takeWhile_eq_take)
    have e: "?t = length pair \<longleftrightarrow> 61 \<notin> set pair" by (rule takeWhile_length_all)
    have "cstring (drop (Suc ?t) pair)" using c by (auto simp: cstring_def dest: in_set_dropD)
    then have "pa_xstrndup pair ?t = takeWhile (\<lambda>c. c \<noteq> 61) pair"
        "pa_xstrndup (drop (?t + 1) pair) (length pair - ?t - 1) = tl (dropWhile (\<lambda>c. c \<noteq> 61) pair)"
      unfolding d t [symmetric] using c t by (simp_all add: xstrndup_cstring tl_drop drop_Suc)
    from setn_ok [OF p room this] show ?thesis using PSetp e p
      by (auto simp: pa_proplist_setp_def Let_def)
  next
    case (PUnset k)
    then show ?thesis using proplist_unset_ok [OF p, of k] by auto
  next
    case (PUnsetMany ks)
    then show ?thesis using unset_loop_ok [OF p, of ks 0] p
      by (auto simp: pa_proplist_unset_many_def case_prod_beta)
  next
    case PClear
    then show ?thesis using proplist_clear_ok [OF p] by auto
  next
    case (PGet k)
    from proplist_get_ok [OF p, of k] obtain r where
      "pa_proplist_get p k = Inr r" "map_option (\<lambda>(d, n). take n d) r = (if pa_proplist_key_valid k then map_of kvs k else None)"
      "\<And>d n. r = Some (d, n) \<Longrightarrow> n \<le> length d" by auto
    then show ?thesis using PGet p by (cases r) (auto simp: load_def)
  qed (use p in \<open>simp_all add: proplist_gets_ok [OF p] proplist_contains_ok [OF p] proplist_size_ok [OF p]
         proplist_keys_ok [OF p]\<close>)
qed

lemma pl_set_length: "length (pl_set k v kvs) \<le> Suc (length kvs)"
  by (simp add: pl_set_def)

lemma pl_unset_many_length: "length (snd (pl_unset_many ks n kvs)) \<le> length kvs"
proof (induction ks arbitrary: n kvs)
  case (Cons k ks)
  have "length (pl_unset k kvs) \<le> length kvs" by (simp add: pl_unset_def)
  then show ?case by (simp add: le_trans [OF Cons.IH])
qed simp

lemma pl_spec_length: "length (snd (pl_spec q kvs)) \<le> Suc (length kvs)"
  by (cases q)
    (auto simp: pl_set_string_def pl_set_length pl_unset_def le_SucI case_prod_beta intro: le_SucI [OF pl_unset_many_length])

lemma pl_run_ok:
  "list_all pl_args_ok qs \<Longrightarrow> length kvs + length qs < 2 ^ 32 \<Longrightarrow> run_ok pl_ok pl_spec qs kvs"
proof (induction qs arbitrary: kvs)
  case (Cons q qs)
  then show ?case using pl_spec_length [of q kvs] Cons.IH [of "snd (pl_spec q kvs)"]
    by (simp add: pl_ok_def)
qed simp

text \<open>C36. Every session with a new property list of fewer than \<open>2 ^ 32\<close> calls runs without a fault
  and behaves as the ordered map from keys to byte values does: invalid keys and strings are refused
  with -1 and change nothing, a setter replaces a value in place or adds the key at the end, unsetting
  an absent key gives -2, a batch of unsets is checked as a whole first, a string is read back only
  if it ends with its only NUL and is valid UTF-8. All keys of the list stay valid and distinct.\<close>

theorem proplist_session:
  assumes "list_all pl_args_ok qs" and "length qs < 2 ^ 32"
  shows "\<exists>p. run_impl pl_step qs pa_proplist_new = Inr (fst (run_spec pl_spec qs []), p) \<and>
             pl_abs p (snd (run_spec pl_spec qs [])) \<and>
             distinct (map fst (snd (run_spec pl_spec qs []))) \<and>
             list_all (\<lambda>(k, _). pa_proplist_key_valid k) (snd (run_spec pl_spec qs []))"
proof -
  have "run_ok pl_ok pl_spec qs []" by (rule pl_run_ok) (use assms in simp_all)
  from pl.run_sim [OF proplist_new_ok this] show ?thesis using pl_abs_facts by blast
qed

theorem proplist_session_witness:
  "\<exists>p. run_impl pl_step [PSets [97] [120], PSetp [98, 61, 121], PSets [195] [120], PSet [97] [1, 2, 3] 2, PGets [98],
          PGets [97], PGet [97], PUnset [99], PUnsetMany [[97], [99]], PKeys] pa_proplist_new =
       Inr ([PInt 0, PInt 0, PInt (-1), PInt 0, PBytes (Some [121]), PBytes None, PBytes (Some [1, 2]), PInt (-2),
          PInt 1, PKeyList [[98]]], p)"
proof -
  let ?qs = "[PSets [97] [120], PSetp [98, 61, 121], PSets [195] [120], PSet [97] [1, 2, 3] 2, PGets [98],
          PGets [97], PGet [97], PUnset [99], PUnsetMany [[97], [99]], PKeys]"
  have "fst (run_spec pl_spec ?qs []) = [PInt 0, PInt 0, PInt (-1), PInt 0, PBytes (Some [121]), PBytes None,
      PBytes (Some [1, 2]), PInt (-2), PInt 1, PKeyList [[98]]]"
    by (simp add: pl_set_string_def pl_set_def pl_unset_def pl_string_def pa_proplist_key_valid_def
        pa_utf8_valid_def cstring_def)
  then show ?thesis using proplist_session [of ?qs] by (auto simp: cstring_def)
qed

section \<open>Updates, copies and comparison\<close>

fun pl_update_loop :: "pa_update_mode \<Rightarrow> (bytes \<times> bytes) list \<Rightarrow> (bytes \<times> bytes) list \<Rightarrow> (bytes \<times> bytes) list" where
  "pl_update_loop mode [] kvs = kvs"
| "pl_update_loop mode ((k, v) # other) kvs =
     pl_update_loop mode other (if mode = PA_UPDATE_MERGE \<and> map_of kvs k \<noteq> None then kvs else pl_set k v kvs)"

lemma map_of_pl_set: "map_of (pl_set k v kvs) = (map_of kvs)(k \<mapsto> v)"
proof -
  have "map_of (map (\<lambda>(k', w). (k', if k' = k then v else w)) kvs) =
      (\<lambda>x. if x = k then map_option (\<lambda>_. v) (map_of kvs x) else map_of kvs x)"
    by (induction kvs) (auto simp: fun_eq_iff)
  then show ?thesis by (cases "map_of kvs k") (auto simp: pl_set_def map_add_def fun_eq_iff split: option.split)
qed

lemma map_of_pl_update_loop:
  assumes "distinct (map fst other)"
  shows "map_of (pl_update_loop mode other kvs) =
     (if mode = PA_UPDATE_MERGE then map_of other ++ map_of kvs else map_of kvs ++ map_of other)"
  using assms
proof (induction mode other kvs rule: pl_update_loop.induct)
  case (2 mode k v other kvs)
  then have "map_of other k = None" by (simp add: map_of_eq_None_iff)
  then show ?case using 2 by (auto simp: map_of_pl_set map_add_def fun_eq_iff split: option.split)
qed simp

lemma update_loop_ok:
  "pl_abs p kvs \<Longrightarrow> list_all prop_ok props \<Longrightarrow> length kvs + length props < 2 ^ 32 \<Longrightarrow>
     \<exists>p'. update_loop mode (map snd props) p = Inr p' \<and>
        pl_abs p' (pl_update_loop mode (map (\<lambda>(k, pr). (k, prop_data pr)) props) kvs)"
proof (induction props arbitrary: p kvs)
  case (Cons kp props)
  obtain k pr where kp: "kp = (k, pr)" by (cases kp)
  have ok: "prop_key pr = k" "pa_proplist_key_valid k" "prop_nbytes pr \<le> length (prop_value pr)"
    using Cons.prems(2) by (simp_all add: kp prop_ok_def)
  note contains = proplist_contains_ok [OF Cons.prems(1), of k]
  from property_assign_ok [OF Cons.prems(1) ok(2), of "prop_nbytes pr" "take (prop_nbytes pr) (prop_value pr) @ [0]"]
  obtain p1 where p1: "pa_proplist_set p k (prop_value pr) (prop_nbytes pr) = Inr (0, p1)"
      "pl_abs p1 (pl_set k (prop_data pr) kvs)"
    using ok Cons.prems(3) by (auto simp: pa_proplist_set_def load_def prop_data_def)
  have l: "length (pl_set k (prop_data pr) kvs) + length props < 2 ^ 32"
    using Cons.prems(3) pl_set_length [of k "prop_data pr" kvs] by simp
  show ?case
    using Cons.IH [OF Cons.prems(1)] Cons.IH [OF p1(2) _ l] Cons.prems(2,3) contains p1(1) ok
    by (auto simp: kp)
qed simp

lemma proplist_update_ok:
  assumes "pl_abs p kvs" and "pl_abs other okvs" and "length kvs + length okvs < 2 ^ 32"
  shows "\<exists>p' kvs'. pa_proplist_update p mode other = Inr p' \<and> pl_abs p' kvs' \<and>
     map_of kvs' = (case mode of PA_UPDATE_SET \<Rightarrow> map_of okvs
                    | PA_UPDATE_MERGE \<Rightarrow> map_of okvs ++ map_of kvs
                    | PA_UPDATE_REPLACE \<Rightarrow> map_of kvs ++ map_of okvs)"
proof -
  from proplist_foreach_ok [OF assms(2)] obtain props where props: "hashmap_foreach other = Inr props"
      "list_all prop_ok props" "okvs = map (\<lambda>(k, pr). (k, prop_data pr)) props" by auto
  obtain p0 where p0: "(if mode = PA_UPDATE_SET then pa_proplist_clear p else Inr p) = Inr p0"
      "pl_abs p0 (if mode = PA_UPDATE_SET then [] else kvs)"
    using proplist_clear_ok [OF assms(1)] assms(1) by (cases "mode = PA_UPDATE_SET") auto
  have "length (if mode = PA_UPDATE_SET then [] else kvs) + length props < 2 ^ 32" using assms(3) props(3) by auto
  from update_loop_ok [OF p0(2) props(2) this, of mode] p0(1) props obtain p' where
    p': "pa_proplist_update p mode other = Inr p'"
      "pl_abs p' (pl_update_loop mode okvs (if mode = PA_UPDATE_SET then [] else kvs))"
    by (auto simp: pa_proplist_update_def)
  have "map_of (pl_update_loop mode okvs (if mode = PA_UPDATE_SET then [] else kvs)) =
      (case mode of PA_UPDATE_SET \<Rightarrow> map_of okvs | PA_UPDATE_MERGE \<Rightarrow> map_of okvs ++ map_of kvs
       | PA_UPDATE_REPLACE \<Rightarrow> map_of kvs ++ map_of okvs)"
    using map_of_pl_update_loop [OF pl_abs_facts(1) [OF assms(2)], of mode] by (cases mode) auto
  then show ?thesis using p' by blast
qed

lemma proplist_update_loop_new:
  assumes "pl_abs p kvs"
  shows "\<exists>c kvs'. pa_proplist_copy (Some p) = Inr c \<and> pl_abs c kvs' \<and> map_of kvs' = map_of kvs"
  using proplist_update_ok [OF proplist_new_ok assms, of PA_UPDATE_REPLACE] pl_abs_facts(3) [OF assms]
  by (simp add: pa_proplist_copy_def)

text \<open>\<^verbatim>\<open>pa_proplist_update\<close> never fails its assertion on lists that together have fewer than
  \<open>2 ^ 32\<close> entries, and as a map the result is the other list (\<^verbatim>\<open>SET\<close>), the old one overridden by
  the other (\<^verbatim>\<open>REPLACE\<close>), or the other overridden by the old one (\<^verbatim>\<open>MERGE\<close>).\<close>

theorem proplist_update_correct:
  assumes "pl_abs p kvs" and "pl_abs other okvs" and "length kvs + length okvs < 2 ^ 32"
  shows "\<exists>p' kvs'. pa_proplist_update p mode other = Inr p' \<and> pl_abs p' kvs' \<and>
     map_of kvs' = (case mode of PA_UPDATE_SET \<Rightarrow> map_of okvs
                    | PA_UPDATE_MERGE \<Rightarrow> map_of okvs ++ map_of kvs
                    | PA_UPDATE_REPLACE \<Rightarrow> map_of kvs ++ map_of okvs)"
  using assms by (rule proplist_update_ok)

theorem proplist_update_witness:
  "\<exists>other p' kvs'. pa_proplist_sets pa_proplist_new [97] [120] = Inr (0, other) \<and>
     pa_proplist_update pa_proplist_new PA_UPDATE_MERGE other = Inr p' \<and> pl_abs p' kvs' \<and>
     map_of kvs' = [[97] \<mapsto> [120, 0]]"
proof -
  from property_assign_ok [OF proplist_new_ok, of "[97]" "Suc (Suc 0)" "[120, 0]"] obtain other where
    o: "property_assign pa_proplist_new [97] [120, 0] (Suc (Suc 0)) = Inr other" "pl_abs other [([97], [120, 0])]"
    by (auto simp: pa_proplist_key_valid_def pl_set_def)
  have "pa_proplist_sets pa_proplist_new [97] [120] = Inr (0, other)"
    using o(1) by (simp add: pa_proplist_sets_def pa_proplist_key_valid_def pa_utf8_valid_def)
  then show ?thesis using proplist_update_correct [OF proplist_new_ok o(2), of PA_UPDATE_MERGE] by auto
qed

lemma equal_loop_ok:
  assumes b: "pl_abs b kb"
  shows "list_all prop_ok props \<Longrightarrow> equal_loop props b =
     Inr (if list_all (\<lambda>(k, pr). map_of kb k = Some (prop_data pr)) props then 1 else 0)"
proof (induction props)
  case (Cons kp props)
  obtain k pr where kp: "kp = (k, pr)" by (cases kp)
  have n: "prop_nbytes pr \<le> length (prop_value pr)" using Cons.prems by (simp add: kp prop_ok_def)
  obtain r where r: "pa_hashmap_get b k = Inr r" "map_option prop_data r = map_of kb k"
      "\<And>q. r = Some q \<Longrightarrow> prop_nbytes q \<le> length (prop_value q)"
    using pl_abs_get [OF b, of k] by auto
  show ?case
  proof (cases r)
    case None
    then show ?thesis using r by (auto simp: kp)
  next
    case (Some q)
    have eq: "prop_data q = prop_data pr \<longleftrightarrow> prop_nbytes pr = prop_nbytes q \<and>
        take (prop_nbytes pr) (prop_value pr) = take (prop_nbytes pr) (prop_value q)"
    proof (cases "prop_nbytes pr = prop_nbytes q")
      case True
      then show ?thesis by (auto simp: prop_data_def)
    next
      case False
      have "length (prop_data q) = prop_nbytes q" "length (prop_data pr) = prop_nbytes pr"
        using n r(3) [OF Some] by (simp_all add: prop_data_def)
      then show ?thesis using False by auto
    qed
    have "load (prop_value pr) 0 (prop_nbytes pr) = Inr (take (prop_nbytes pr) (prop_value pr))"
      using n by (simp add: load_def)
    moreover have "prop_nbytes pr = prop_nbytes q \<Longrightarrow>
        load (prop_value q) 0 (prop_nbytes pr) = Inr (take (prop_nbytes pr) (prop_value q))"
      using r(3) [OF Some] by (simp add: load_def)
    moreover have "map_of kb k = Some (prop_data q)" using r(2) Some by simp
    ultimately show ?thesis using r(1) Some eq Cons by (auto simp: kp)
  qed
qed simp

lemma map_of_eqI_length:
  assumes a: "distinct (map fst ka)" and b: "distinct (map fst kb)" and l: "length ka = length kb"
    and sub: "\<And>k v. (k, v) \<in> set ka \<Longrightarrow> map_of kb k = Some v"
  shows "map_of ka = map_of kb"
proof -
  have s: "set ka \<subseteq> set kb" using sub map_of_SomeD by fast
  have "card (set ka) = card (set kb)" using a b l by (simp add: distinct_map distinct_card)
  then have "set ka = set kb" using s by (simp add: card_subset_eq)
  then show ?thesis using map_of_inject_set [OF a b] by simp
qed

lemma proplist_equal_ok:
  assumes a: "pl_abs a ka" and b: "pl_abs b kb"
  shows "pa_proplist_equal a b = Inr (if map_of ka = map_of kb then 1 else 0)"
proof -
  from proplist_foreach_ok [OF a] obtain props where props: "hashmap_foreach a = Inr props"
      "list_all prop_ok props" "ka = map (\<lambda>(k, pr). (k, prop_data pr)) props" by auto
  note da = pl_abs_facts(1) [OF a] and db = pl_abs_facts(1) [OF b]
  have len: "pa_proplist_size a = pa_proplist_size b \<longleftrightarrow> length ka = length kb"
    using proplist_size_ok(1) [OF a] proplist_size_ok(1) [OF b] pl_abs_facts(3) [OF a] pl_abs_facts(3) [OF b]
    by (metis of_nat_less_word32_iff)
  have all: "list_all (\<lambda>(k, pr). map_of kb k = Some (prop_data pr)) props \<longleftrightarrow> (\<forall>(k, v)\<in>set ka. map_of kb k = Some v)"
    by (auto simp: props(3) list_all_iff)
  have "map_of ka = map_of kb \<Longrightarrow> length ka = length kb"
    using da db by (metis distinct_card dom_map_of_conv_image_fst length_map set_map)
  moreover have "map_of ka = map_of kb \<Longrightarrow> \<forall>(k, v)\<in>set ka. map_of kb k = Some v"
    using da by (metis (mono_tags, lifting) case_prodI2 map_of_is_SomeI)
  moreover have "length ka = length kb \<Longrightarrow> \<forall>(k, v)\<in>set ka. map_of kb k = Some v \<Longrightarrow> map_of ka = map_of kb"
    by (rule map_of_eqI_length [OF da db]) auto
  ultimately show ?thesis
    using len equal_loop_ok [OF b props(2)] props(1) all by (auto simp: pa_proplist_equal_def)
qed

text \<open>A copy of a property list holds the same values and compares equal to it;
  \<^verbatim>\<open>pa_proplist_equal\<close> says 1 exactly if the two lists are the same map, whatever the order
  of their entries.\<close>

theorem proplist_copy_equal:
  assumes "pl_abs p kvs" and "pl_abs q kvs2"
  shows "(\<exists>c kvs'. pa_proplist_copy (Some p) = Inr c \<and> pl_abs c kvs' \<and> map_of kvs' = map_of kvs \<and>
            pa_proplist_equal p c = Inr 1) \<and>
         pa_proplist_equal p q = Inr (if map_of kvs = map_of kvs2 then 1 else 0)"
proof
  from proplist_update_loop_new [OF assms(1)] obtain c kvs' where
    c: "pa_proplist_copy (Some p) = Inr c" "pl_abs c kvs'" "map_of kvs' = map_of kvs" by blast
  then show "\<exists>c kvs'. pa_proplist_copy (Some p) = Inr c \<and> pl_abs c kvs' \<and> map_of kvs' = map_of kvs \<and>
      pa_proplist_equal p c = Inr 1"
    using proplist_equal_ok [OF assms(1) c(2)] by auto
  show "pa_proplist_equal p q = Inr (if map_of kvs = map_of kvs2 then 1 else 0)"
    by (rule proplist_equal_ok [OF assms])
qed

theorem proplist_copy_equal_witness:
  "\<exists>p. pa_proplist_sets pa_proplist_new [97] [120] = Inr (0, p) \<and> pa_proplist_equal p pa_proplist_new = Inr 0 \<and>
     (\<exists>c. pa_proplist_copy (Some p) = Inr c \<and> pa_proplist_equal p c = Inr 1)"
proof -
  from property_assign_ok [OF proplist_new_ok, of "[97]" "Suc (Suc 0)" "[120, 0]"] obtain p where
    p: "property_assign pa_proplist_new [97] [120, 0] (Suc (Suc 0)) = Inr p" "pl_abs p [([97], [120, 0])]"
    by (auto simp: pa_proplist_key_valid_def pl_set_def)
  have "pa_proplist_sets pa_proplist_new [97] [120] = Inr (0, p)"
    using p(1) by (simp add: pa_proplist_sets_def pa_proplist_key_valid_def pa_utf8_valid_def)
  then show ?thesis using proplist_copy_equal [OF p(2) proplist_new_ok] by auto
qed

end
