(* ===== verification/PaPropText.thy ===== *)
theory PaPropText
  imports PaProplist
begin

text \<open>
  The text form of property lists: what \<^verbatim>\<open>pa_proplist_to_string\<close> prints, and that
  \<^verbatim>\<open>pa_proplist_from_string\<close> reads it back.
\<close>

section \<open>Hexadecimal values\<close>

definition hex_byte :: "u8 \<Rightarrow> bytes" where
  "hex_byte b = [hex_digits ! unat (drop_bit 4 b), hex_digits ! unat (b AND 0xF)]"

lemma hexstr_loop_all: "j + 2 * length d < slength \<Longrightarrow> hexstr_loop d j slength = concat (map hex_byte d)"
  by (induction d arbitrary: j) (simp_all add: hex_byte_def)

lemma hex_digit_facts:
  assumes "n < 16"
  shows "hexc (hex_digits ! n) = int n" and "is_hex_char (hex_digits ! n)"
proof -
  have "list_all (\<lambda>n. hexc (hex_digits ! n) = int n \<and> is_hex_char (hex_digits ! n)) [0..<16]"
    by code_simp
  then show "hexc (hex_digits ! n) = int n" "is_hex_char (hex_digits ! n)" using assms by (simp_all add: list_all_iff)
qed

lemma nibble_less: "unat (drop_bit 4 b) < 16" "unat (b AND 0xF) < 16" for b :: u8
proof -
  have "take_bit 4 (drop_bit 4 b) = drop_bit 4 b" "take_bit 4 (b AND 0xF) = b AND 0xF"
    by (simp_all add: bit_blast_simps bit_beyond_word)
  then have "drop_bit 4 b < 16" "b AND 0xF < 16"
    using word_less_exp_iff [of 4 "drop_bit 4 b"] word_less_exp_iff [of 4 "b AND 0xF"] by simp_all
  then show "unat (drop_bit 4 b) < 16" "unat (b AND 0xF) < 16" by (simp_all add: word_less_nat_alt)
qed

lemma nibbles_join: "push_bit 4 (drop_bit 4 b) OR (b AND 0xF) = b" for b :: u8
  by (simp add: bit_blast_simps)

lemma parsehex_hexstr: "length d \<le> n \<Longrightarrow> parsehex_loop (concat (map hex_byte d)) n = Some d"
proof (induction d arbitrary: n)
  case (Cons b d)
  then show ?case
    by (simp add: hex_byte_def hex_digit_facts nibble_less nibbles_join)
qed simp

lemma hex_text_chars: "list_all is_hex_char (concat (map hex_byte d))" "length (concat (map hex_byte d)) = 2 * length d"
  by (induction d) (simp_all add: hex_byte_def hex_digit_facts nibble_less)

section \<open>Printing\<close>

definition quoted :: "bytes \<Rightarrow> bytes" where
  "quoted str = concat (map (\<lambda>c. if c = 34 then [92, 34] else [c]) str)"

lemma quoted_append: "quoted (s @ t) = quoted s @ quoted t"
  by (simp add: quoted_def)

lemma quoted_plain: "34 \<notin> set s \<Longrightarrow> quoted s = s"
  by (induction s) (auto simp: quoted_def)

lemma quote_loop_ok:
  "sb_ok buf \<Longrightarrow> \<exists>buf'. quote_loop buf t = Inr buf' \<and> sb_ok buf' \<and> sb_text buf' = sb_text buf @ quoted t"
proof (induction "length t" arbitrary: t buf rule: less_induct)
  case less
  let ?h = "length (takeWhile (\<lambda>c. c \<noteq> 34) t)"
  let ?b = "if ?h > 0 then pa_strbuf_putsn buf t ?h else buf"
  have q: "quoted (takeWhile (\<lambda>c. c \<noteq> 34) t) = take ?h t"
    using quoted_plain [of "takeWhile (\<lambda>c. c \<noteq> 34) t"] by (metis set_takeWhileD takeWhile_eq_take)
  have b: "sb_ok ?b" "sb_text ?b = sb_text buf @ take ?h t" using less.prems by (simp_all add: strbuf_simps)
  have d: "drop ?h t = dropWhile (\<lambda>c. c \<noteq> 34) t" by (rule dropWhile_eq_drop [symmetric])
  have sp: "quoted t = take ?h t @ quoted (drop ?h t)"
    using q quoted_append [of "takeWhile (\<lambda>c. c \<noteq> 34) t" "drop ?h t"] d by simp
  show ?case
  proof (cases "drop ?h t")
    case Nil
    then show ?thesis using b sp by (subst quote_loop.simps) (simp add: Let_def quoted_def)
  next
    case (Cons c rest)
    have dw: "dropWhile (\<lambda>c. c \<noteq> 34) t = c # rest" unfolding d [symmetric] by (rule Cons)
    have c: "c = 34" using hd_dropWhile [of "\<lambda>c. c \<noteq> 34" t] unfolding dw by simp
    have "length (drop ?h t) \<le> length t" by simp
    then have "length rest < length t" unfolding Cons by simp
    from less.hyps [OF this, of "pa_strbuf_puts ?b [92, 34]"] b obtain buf' where
      b': "quote_loop (pa_strbuf_puts ?b [92, 34]) rest = Inr buf'" "sb_ok buf'"
        "sb_text buf' = sb_text ?b @ [92, 34] @ quoted rest" by (auto simp: strbuf_simps)
    have "quote_loop buf t = quote_loop (pa_strbuf_puts ?b [92, 34]) rest"
      by (subst quote_loop.simps) (simp add: Cons c Let_def)
    moreover have "quoted t = take ?h t @ [92, 34] @ quoted rest" using sp Cons c by (simp add: quoted_def)
    ultimately show ?thesis using b' b by simp
  qed
qed

definition entry_text :: "bytes \<times> bytes \<Rightarrow> bytes" where
  "entry_text kv = fst kv @ (case pl_string (snd kv) of
     Some str \<Rightarrow> eq_quote @ quoted str @ [34] | None \<Rightarrow> eq_hex @ concat (map hex_byte (snd kv)))"

definition lines_of :: "bytes \<Rightarrow> bytes" where
  "lines_of t = (if t = [] then [] else t @ [10])"

lemma to_string_loop_ok:
  assumes p: "pl_abs p kvs"
  shows "set rest \<subseteq> set kvs \<Longrightarrow> sb_ok buf \<Longrightarrow>
    \<exists>buf'. to_string_loop [10] (map fst rest) p buf = Inr buf' \<and> sb_ok buf' \<and>
      lines_of (sb_text buf') = lines_of (sb_text buf) @ concat (map (\<lambda>e. entry_text e @ [10]) rest)"
proof (induction rest arbitrary: buf)
  case (Cons kv rest)
  obtain k v where kv: "kv = (k, v)" by (cases kv)
  have in_kvs: "(k, v) \<in> set kvs" using Cons.prems(1) kv by simp
  have m: "map_of kvs k = Some v" using in_kvs pl_abs_facts(1) [OF p] by simp
  have valid: "pa_proplist_key_valid k" using in_kvs pl_abs_facts(2) [OF p] by (auto simp: list_all_iff)
  then have ne: "entry_text (k, v) \<noteq> []" by (auto simp: entry_text_def pa_proplist_key_valid_def split: if_splits)
  let ?b = "if \<not> pa_strbuf_isempty buf then pa_strbuf_puts buf [10] else buf"
  have b: "sb_ok ?b" "sb_text ?b = lines_of (sb_text buf)" using Cons.prems(2) by (auto simp: strbuf_simps lines_of_def)
  have gets: "pa_proplist_gets p k = Inr (pl_string v)" using proplist_gets_ok [OF p, of k] m valid by simp
  have "\<exists>b1. to_string_loop [10] (map fst (kv # rest)) p buf = to_string_loop [10] (map fst rest) p b1 \<and>
      sb_ok b1 \<and> sb_text b1 = lines_of (sb_text buf) @ entry_text (k, v)"
  proof (cases "pl_string v")
    case (Some str)
    have ok: "sb_ok (pa_strbuf_printf ?b (k @ eq_quote))" using b(1) by (rule strbuf_printf(1))
    from quote_loop_ok [OF ok, of str] obtain b1 where b1: "quote_loop (pa_strbuf_printf ?b (k @ eq_quote)) str = Inr b1"
        "sb_ok b1" "sb_text b1 = sb_text (pa_strbuf_printf ?b (k @ eq_quote)) @ quoted str" by blast
    have "sb_text (pa_strbuf_puts b1 [34]) = lines_of (sb_text buf) @ entry_text (k, v)"
      using b1(3) b(2) Some by (simp add: strbuf_puts strbuf_printf entry_text_def)
    moreover have "to_string_loop [10] (map fst (kv # rest)) p buf = to_string_loop [10] (map fst rest) p (pa_strbuf_puts b1 [34])"
      using gets Some b1(1) by (simp add: kv Let_def)
    ultimately show ?thesis using strbuf_puts(1) [OF b1(2)] by blast
  next
    case None
    from proplist_get_ok [OF p, of k] m valid obtain d n where
      g: "pa_proplist_get p k = Inr (Some (d, n))" "take n d = v" "n \<le> length d" by auto
    let ?c = "concat (map hex_byte v)"
    have "length v = n" using g by auto
    then have h: "pa_hexstr v (n * 2 + 1) = Inr ?c" by (simp add: pa_hexstr_def hexstr_loop_all)
    have ld: "load d 0 n = Inr v" using g by (simp add: load_def)
    have "to_string_loop [10] (map fst (kv # rest)) p buf =
        to_string_loop [10] (map fst rest) p (pa_strbuf_printf ?b (k @ eq_hex @ ?c))"
      using gets None g(1) h ld by (simp add: kv Let_def)
    moreover have "sb_text (pa_strbuf_printf ?b (k @ eq_hex @ ?c)) = lines_of (sb_text buf) @ entry_text (k, v)"
      using b(2) None by (simp add: strbuf_printf entry_text_def)
    ultimately show ?thesis using strbuf_printf(1) [OF b(1)] by blast
  qed
  then obtain b1 where b1: "to_string_loop [10] (map fst (kv # rest)) p buf = to_string_loop [10] (map fst rest) p b1"
      "sb_ok b1" "sb_text b1 = lines_of (sb_text buf) @ entry_text (k, v)" by blast
  have "lines_of (sb_text b1) = lines_of (sb_text buf) @ entry_text (k, v) @ [10]"
    unfolding b1(3) using ne by (simp add: lines_of_def)
  moreover obtain b2 where "to_string_loop [10] (map fst rest) p b1 = Inr b2" "sb_ok b2"
      "lines_of (sb_text b2) = lines_of (sb_text b1) @ concat (map (\<lambda>e. entry_text e @ [10]) rest)"
    using Cons.IH [OF _ b1(2)] Cons.prems(1) by auto
  ultimately show ?case using b1(1) kv by simp
qed simp

lemma to_string_ok:
  assumes "pl_abs p kvs"
  shows "pa_proplist_to_string p =
     Inr (if kvs = [] then [10] else concat (map (\<lambda>e. entry_text e @ [10]) kvs))"
proof -
  from to_string_loop_ok [OF assms order_refl strbuf_new(1)] obtain buf where
    b: "to_string_loop [10] (map fst kvs) p pa_strbuf_new = Inr buf" "sb_ok buf"
      "lines_of (sb_text buf) = concat (map (\<lambda>e. entry_text e @ [10]) kvs)" by (auto simp: strbuf_new lines_of_def)
  have "sb_text buf @ [10] = (if kvs = [] then [10] else concat (map (\<lambda>e. entry_text e @ [10]) kvs))"
    using b(3) by (cases kvs) (auto simp: lines_of_def split: if_splits)
  then show ?thesis using b(1,2)
    by (simp add: pa_proplist_to_string_def pa_proplist_to_string_sep_def proplist_keys_ok [OF assms] strbuf_tostring)
qed

section \<open>Parsing\<close>

lemma char_at_append [simp]: "char_at (a @ c # b) (length a) = c"
  by (simp add: char_at_def)

lemma parse_next:
  assumes "p \<le> length s" and "parse_step s p ps = Inr (Next ps' skip)"
  shows "parse_loop s p ps = parse_loop s (p + skip + 1) ps'"
  using assms by (subst parse_loop.simps) simp

text \<open>Keys that can be told from what surrounds them: printable ASCII without \<open>=\<close>.\<close>

definition plain_char :: "u8 \<Rightarrow> bool" where
  "plain_char c \<longleftrightarrow> c \<noteq> 0 \<and> c \<noteq> 61 \<and> \<not> isspace c"

lemma parse_key_chars:
  "s = a @ ks @ b \<Longrightarrow> list_all plain_char ks \<Longrightarrow> ps_state ps = KEY \<Longrightarrow>
     parse_loop s (length a) ps = parse_loop s (length (a @ ks)) (ps\<lparr>ps_key_len := ps_key_len ps + length ks\<rparr>)"
proof (induction ks arbitrary: a ps)
  case (Cons c ks)
  have "parse_step s (length a) ps = Inr (Next (ps\<lparr>ps_key_len := ps_key_len ps + 1\<rparr>) 0)"
    using Cons.prems by (simp add: parse_step_def plain_char_def)
  then have "parse_loop s (length a) ps = parse_loop s (length (a @ [c])) (ps\<lparr>ps_key_len := ps_key_len ps + 1\<rparr>)"
    using parse_next [of "length a" s] Cons.prems(1) by simp
  also have "\<dots> = parse_loop s (length ((a @ [c]) @ ks)) ((ps\<lparr>ps_key_len := ps_key_len ps + 1\<rparr>)
      \<lparr>ps_key_len := ps_key_len (ps\<lparr>ps_key_len := ps_key_len ps + 1\<rparr>) + length ks\<rparr>)"
    by (rule Cons.IH) (use Cons.prems in simp_all)
  finally show ?case by simp
qed simp

lemma parse_hex_chars:
  "s = a @ ks @ b \<Longrightarrow> list_all is_hex_char ks \<Longrightarrow> ps_state ps = VALUE_HEX \<Longrightarrow>
     parse_loop s (length a) ps = parse_loop s (length (a @ ks)) (ps\<lparr>ps_value_len := ps_value_len ps + length ks\<rparr>)"
proof (induction ks arbitrary: a ps)
  case (Cons c ks)
  have "parse_step s (length a) ps = Inr (Next (longer_value ps) 0)"
    using Cons.prems by (simp add: parse_step_def)
  then have "parse_loop s (length a) ps = parse_loop s (length (a @ [c])) (longer_value ps)"
    using parse_next [of "length a" s] Cons.prems(1) by simp
  also have "\<dots> = parse_loop s (length ((a @ [c]) @ ks))
      ((longer_value ps)\<lparr>ps_value_len := ps_value_len (longer_value ps) + length ks\<rparr>)"
    by (rule Cons.IH) (use Cons.prems in \<open>simp_all add: longer_value_def\<close>)
  finally show ?case by (simp add: longer_value_def)
qed simp

lemma parse_quoted_chars:
  "s = a @ quoted str @ b \<Longrightarrow> 92 \<notin> set str \<Longrightarrow> 0 \<notin> set str \<Longrightarrow> ps_state ps = VALUE_DOUBLE_QUOTES \<Longrightarrow>
     parse_loop s (length a) ps =
       parse_loop s (length (a @ quoted str)) (ps\<lparr>ps_value_len := ps_value_len ps + length (quoted str)\<rparr>)"
proof (induction str arbitrary: a ps)
  case Nil
  then show ?case by (simp add: quoted_def)
next
  case (Cons c str)
  let ?e = "if c = 34 then [92, 34] else [c]"
  let ?ps = "ps\<lparr>ps_value_len := ps_value_len ps + length ?e\<rparr>"
  have q: "quoted (c # str) = ?e @ quoted str" by (simp add: quoted_def)
  have "parse_loop s (length a) ps = parse_loop s (length (a @ ?e)) ?ps"
  proof (cases "c = 34")
    case True
    let ?p1 = "longer_value (ps\<lparr>ps_state := VALUE_DOUBLE_QUOTES_ESCAPE\<rparr>)"
    have s: "s = a @ 92 # 34 # quoted str @ b" using Cons.prems(1) q True by simp
    have "parse_step s (length a) ps = Inr (Next ?p1 0)" using Cons.prems(4) by (simp add: parse_step_def s)
    then have 1: "parse_loop s (length a) ps = parse_loop s (length (a @ [92])) ?p1"
      using parse_next [of "length a" s] s by simp
    have "char_at s (Suc (length a)) = 34" using char_at_append [of "a @ [92]" 34 "quoted str @ b"] s by simp
    then have "parse_step s (length (a @ [92])) ?p1 = Inr (Next (longer_value (?p1\<lparr>ps_state := VALUE_DOUBLE_QUOTES\<rparr>)) 0)"
      by (simp add: parse_step_def longer_value_def)
    then have "parse_loop s (length (a @ [92])) ?p1 =
        parse_loop s (length (a @ [92, 34])) (longer_value (?p1\<lparr>ps_state := VALUE_DOUBLE_QUOTES\<rparr>))"
      using parse_next [of "length (a @ [92])" s] s by simp
    moreover have "longer_value (?p1\<lparr>ps_state := VALUE_DOUBLE_QUOTES\<rparr>) = ?ps"
      using Cons.prems(4) True by (simp add: longer_value_def)
    ultimately show ?thesis using 1 True by simp
  next
    case False
    have s: "s = a @ c # quoted str @ b" using Cons.prems(1) q False by simp
    have "parse_step s (length a) ps = Inr (Next (longer_value ps) 0)"
      using Cons.prems(2-4) False by (auto simp: parse_step_def s)
    then show ?thesis using parse_next [of "length a" s] s False by (simp add: longer_value_def)
  qed
  also have "\<dots> = parse_loop s (length ((a @ ?e) @ quoted str))
      (?ps\<lparr>ps_value_len := ps_value_len ?ps + length (quoted str)\<rparr>)"
    by (rule Cons.IH) (use Cons.prems q in \<open>simp_all split del: if_split\<close>)
  finally show ?case by (simp add: q add.assoc split del: if_split)
qed

lemma unescape_quoted: "92 \<notin> set str \<Longrightarrow> unescape_loop False (quoted str) = str"
  by (induction str) (auto simp: quoted_def)

text \<open>A single step at a given character.\<close>

lemma parse_char:
  assumes "s = a @ c # b"
    and "char_at s (length a) = c \<Longrightarrow> take 4 (drop (length a) s) = c # take 3 b \<Longrightarrow>
      parse_step s (length a) ps = Inr (Next ps' 0)"
  shows "parse_loop s (length a) ps = parse_loop s (length (a @ [c])) ps'"
  using parse_next [of "length a" s ps ps' 0] assms by simp

lemma parse_entry_head:
  assumes s: "s = a @ (k # ks) @ [32, 61, 32] @ b" and plain: "list_all plain_char (k # ks)" and st: "ps_state ps = WHITESPACE"
  shows "parse_loop s (length a) ps = parse_loop s (length (a @ (k # ks) @ [32, 61, 32]))
     (ps\<lparr>ps_key := length a, ps_key_len := length (k # ks), ps_state := VALUE_START\<rparr>)"
proof -
  let ?p1 = "ps\<lparr>ps_key := length a, ps_state := KEY, ps_key_len := 1\<rparr>"
  let ?p2 = "ps\<lparr>ps_key := length a, ps_state := KEY, ps_key_len := length (k # ks)\<rparr>"
  have "parse_loop s (length a) ps = parse_loop s (length (a @ [k])) ?p1"
    by (rule parse_char [of _ _ _ "ks @ [32, 61, 32] @ b"]) (simp add: s, use plain st in \<open>simp add: parse_step_def plain_char_def\<close>)
  also have "\<dots> = parse_loop s (length ((a @ [k]) @ ks)) (?p1\<lparr>ps_key_len := ps_key_len ?p1 + length ks\<rparr>)"
    by (rule parse_key_chars) (use s plain in simp_all)
  also have "?p1\<lparr>ps_key_len := ps_key_len ?p1 + length ks\<rparr> = ?p2" by simp
  also have "parse_loop s (length ((a @ [k]) @ ks)) ?p2 =
      parse_loop s (length (((a @ [k]) @ ks) @ [32])) (?p2\<lparr>ps_state := AFTER_KEY\<rparr>)"
    by (rule parse_char [of _ _ _ "[61, 32] @ b"]) (use s in \<open>simp_all add: parse_step_def isspace_def\<close>)
  also have "\<dots> = parse_loop s (length ((((a @ [k]) @ ks) @ [32]) @ [61])) (?p2\<lparr>ps_state := VALUE_START\<rparr>)"
    by (rule parse_char [of _ _ _ "[32] @ b"]) (use s in \<open>simp_all add: parse_step_def\<close>)
  also have "\<dots> = parse_loop s (length (((((a @ [k]) @ ks) @ [32]) @ [61]) @ [32])) (?p2\<lparr>ps_state := VALUE_START\<rparr>)"
    by (rule parse_char [of _ _ _ b]) (simp add: s, simp add: parse_step_def isspace_def)
  finally show ?thesis by simp
qed

lemma xstrndup_prefix: "cstring k \<Longrightarrow> pa_xstrndup (k @ b) (length k) = k"
  by (auto simp: pa_xstrndup_def cstring_def takeWhile_eq_all_conv)

lemma quoted_cstring: "cstring str \<Longrightarrow> cstring (quoted str)"
  by (auto simp: cstring_def quoted_def)

definition plain_key :: "bytes \<Rightarrow> bool" where
  "plain_key k \<longleftrightarrow> pa_proplist_key_valid k \<and> list_all plain_char k"

lemma plain_key_facts:
  assumes "plain_key k"
  shows "cstring k" and "\<exists>c ks. k = c # ks" and "pa_proplist_key_valid k" and "list_all plain_char k"
  using assms by (cases k; auto simp: plain_key_def cstring_def list_all_iff plain_char_def pa_proplist_key_valid_def)+

text \<open>Values that the printed form keeps: no backslash in a string.\<close>

definition plain_value :: "bytes \<Rightarrow> bool" where
  "plain_value v = (case pl_string v of None \<Rightarrow> True | Some str \<Rightarrow> 92 \<notin> set str)"

lemma pl_string_Some: "pl_string v = Some str \<Longrightarrow> v = str @ [0] \<and> cstring str \<and> pa_utf8_valid str \<noteq> None"
  by (auto simp: pl_string_def pa_utf8_valid_def split: if_splits option.splits)
    (metis append_butlast_last_id)

lemma pl_set_new: "k \<notin> fst ` set kvs \<Longrightarrow> pl_set k v kvs = kvs @ [(k, v)]"
  by (simp add: pl_set_def map_of_eq_None_iff)

lemma parse_string_entry:
  assumes s: "s = a @ (k @ eq_quote @ quoted str @ [34]) @ [10] @ b" and k: "plain_key k" and st: "ps_state ps = WHITESPACE"
    and str: "cstring str" "92 \<notin> set str" "pa_utf8_valid str \<noteq> None" and pl: "pl_abs (ps_pl ps) kvs"
    and new: "k \<notin> fst ` set kvs" and room: "length kvs + 1 < 2 ^ 32"
  shows "\<exists>ps'. parse_loop s (length a) ps = parse_loop s (length (a @ (k @ eq_quote @ quoted str @ [34]) @ [10])) ps' \<and>
     ps_state ps' = WHITESPACE \<and> pl_abs (ps_pl ps') (kvs @ [(k, str @ [0])])"
proof -
  obtain c ks where kk: "k = c # ks" using plain_key_facts(2) [OF k] by blast
  let ?a1 = "a @ k @ [32, 61, 32]"
  let ?p1 = "ps\<lparr>ps_key := length a, ps_key_len := length k, ps_state := VALUE_START\<rparr>"
  let ?p2 = "start_value VALUE_DOUBLE_QUOTES (length ?a1 + 1) 0 ?p1"
  let ?p3 = "?p2\<lparr>ps_value_len := length (quoted str)\<rparr>"
  have 1: "parse_loop s (length a) ps = parse_loop s (length ?a1) ?p1"
    using parse_entry_head [of s a c ks "[34] @ quoted str @ [34] @ [10] @ b" ps] s kk st plain_key_facts(4) [OF k]
    by (simp add: eq_quote_def)
  have 2: "parse_loop s (length ?a1) ?p1 = parse_loop s (length (?a1 @ [34])) ?p2"
    by (rule parse_char [of _ _ _ "quoted str @ [34, 10] @ b"]) (simp add: s eq_quote_def, simp add: parse_step_def start_value_def)
  have 3: "parse_loop s (length (?a1 @ [34])) ?p2 = parse_loop s (length ((?a1 @ [34]) @ quoted str)) ?p3"
    using parse_quoted_chars [of s "?a1 @ [34]" str "[34, 10] @ b" ?p2] s str
    by (simp add: eq_quote_def start_value_def cstring_def)
  have dk: "drop (length a) s = k @ eq_quote @ quoted str @ [34] @ [10] @ b" using s by simp
  have "s = (?a1 @ [34]) @ quoted str @ [34, 10] @ b" using s by (simp add: eq_quote_def)
  then have dv: "drop (length ?a1 + 1) s = quoted str @ [34, 10] @ b" by simp
  have uk: "pa_xstrndup (drop (length a) s) (length k) = k" unfolding dk by (rule xstrndup_prefix [OF plain_key_facts(1) [OF k]])
  have "pa_xstrndup (drop (length ?a1 + 1) s) (length (quoted str)) = quoted str"
    unfolding dv by (rule xstrndup_prefix [OF quoted_cstring [OF str(1)]])
  then have uv: "pa_unescape (pa_xstrndup (drop (length ?a1 + 1) s) (length (quoted str))) = str"
    using unescape_quoted [OF str(2)] by (simp add: pa_unescape_def)
  have us: "pa_xstrndup str (length str) = str" using xstrndup_prefix [OF str(1), of "[]"] by simp
  from property_assign_ok [OF pl plain_key_facts(3) [OF k], of "length str + 1" "str @ [0]"] room obtain q where
    q: "property_assign (ps_pl ps) k (str @ [0]) (length str + 1) = Inr q" "pl_abs q (kvs @ [(k, str @ [0])])"
    by (auto simp: pl_set_new [OF new])
  have sn: "proplist_setn (ps_pl ps) (drop (length a) s) (length k) str (length str) = Inr (0, q)"
    using q(1) plain_key_facts(3) [OF k] str(3) by (simp add: proplist_setn_def uk us Let_def)
  let ?p4 = "?p3\<lparr>ps_pl := q, ps_state := WHITESPACE\<rparr>"
  have "quoted_done s ?p3 = Inr (Next ?p4 0)"
    using sn uv by (simp add: quoted_done_def start_value_def value_done_def Let_def)
  then have "parse_step s (length ((?a1 @ [34]) @ quoted str)) ?p3 = Inr (Next ?p4 0)"
    using char_at_append [of "(?a1 @ [34]) @ quoted str" 34 "[10] @ b"] s
    by (simp add: parse_step_def start_value_def eq_quote_def)
  then have 4: "parse_loop s (length ((?a1 @ [34]) @ quoted str)) ?p3 = parse_loop s (length ((?a1 @ [34]) @ quoted str @ [34])) ?p4"
    using parse_next [of "length ((?a1 @ [34]) @ quoted str)" s ?p3 ?p4 0] s by (simp add: eq_quote_def)
  have 5: "parse_loop s (length ((?a1 @ [34]) @ quoted str @ [34])) ?p4 =
      parse_loop s (length (((?a1 @ [34]) @ quoted str @ [34]) @ [10])) ?p4"
    by (rule parse_char [of _ _ _ b]) (simp add: s eq_quote_def, simp add: parse_step_def isspace_def)
  show ?thesis using 1 2 3 4 5 q(2) by (intro exI [of _ ?p4]) (simp add: eq_quote_def)
qed

lemma hex_cstring: "cstring (concat (map hex_byte v))"
proof -
  have "\<not> is_hex_char 0" by (simp add: is_hex_char_def)
  then show ?thesis using hex_text_chars(1) [of v] by (auto simp: cstring_def list_all_iff simp del: set_concat)
qed

lemma parse_hex_entry:
  assumes s: "s = a @ (k @ eq_hex @ concat (map hex_byte v)) @ [10] @ b" and k: "plain_key k" and st: "ps_state ps = WHITESPACE"
    and pl: "pl_abs (ps_pl ps) kvs" and new: "k \<notin> fst ` set kvs" and room: "length kvs + 1 < 2 ^ 32"
  shows "\<exists>ps'. parse_loop s (length a) ps =
      parse_loop s (length (a @ (k @ eq_hex @ concat (map hex_byte v)) @ [10])) ps' \<and>
     ps_state ps' = WHITESPACE \<and> pl_abs (ps_pl ps') (kvs @ [(k, v)])"
proof -
  obtain c ks where kk: "k = c # ks" using plain_key_facts(2) [OF k] by blast
  let ?h = "concat (map hex_byte v)"
  let ?a1 = "a @ k @ [32, 61, 32]" and ?a2 = "a @ k @ eq_hex"
  let ?p1 = "ps\<lparr>ps_key := length a, ps_key_len := length k, ps_state := VALUE_START\<rparr>"
  let ?p2 = "start_value VALUE_HEX (length ?a1 + 4) 0 ?p1"
  let ?p3 = "?p2\<lparr>ps_value_len := length ?h\<rparr>"
  have 1: "parse_loop s (length a) ps = parse_loop s (length ?a1) ?p1"
    using parse_entry_head [of s a c ks "[104, 101, 120, 58] @ ?h @ [10] @ b" ps] s kk st plain_key_facts(4) [OF k]
    by (simp add: eq_hex_def)
  have s1: "s = ?a1 @ 104 # 101 # 120 # 58 # ?h @ [10] @ b" using s by (simp add: eq_hex_def)
  have "take 4 (drop (length ?a1) s) = [104, 101, 120, 58]" "char_at s (length ?a1) = 104" "length ?a1 \<le> length s"
    unfolding s1 by (simp, rule char_at_append, simp)
  then have "parse_step s (length ?a1) ?p1 = Inr (Next ?p2 3)" by (simp add: parse_step_def)
  moreover have "length ?a1 + 3 + 1 = length ?a2" by (simp add: eq_hex_def)
  ultimately have 2: "parse_loop s (length ?a1) ?p1 = parse_loop s (length ?a2) ?p2"
    using parse_next [OF \<open>length ?a1 \<le> length s\<close>, of ?p1 ?p2 3] by metis
  have 3: "parse_loop s (length ?a2) ?p2 = parse_loop s (length (?a2 @ ?h)) ?p3"
    using parse_hex_chars [of s ?a2 ?h "[10] @ b" ?p2] s hex_text_chars(1) [of v]
    by (simp add: start_value_def)
  have dk: "drop (length a) s = k @ eq_hex @ ?h @ [10] @ b" using s by simp
  have "s = ?a2 @ ?h @ [10] @ b" using s by simp
  then have dv: "drop (length ?a1 + 4) s = ?h @ [10] @ b" by (simp add: eq_hex_def)
  have uk: "pa_xstrndup (drop (length a) s) (length k) = k" unfolding dk by (rule xstrndup_prefix [OF plain_key_facts(1) [OF k]])
  have uv: "pa_xstrndup (drop (length ?a1 + 4) s) (length ?h) = ?h" unfolding dv by (rule xstrndup_prefix [OF hex_cstring])
  have ph: "pa_parsehex ?h (length ?h * 2) = Some v"
    unfolding pa_parsehex_def by (rule parsehex_hexstr) (simp add: hex_text_chars(2) del: length_concat)
  from property_assign_ok [OF pl plain_key_facts(3) [OF k], of "length v" "v @ [0]"] room obtain q where
    q: "property_assign (ps_pl ps) k (v @ [0]) (length v) = Inr q" "pl_abs q (kvs @ [(k, v)])"
    by (auto simp: pl_set_new [OF new])
  have sn: "proplist_sethex (ps_pl ps) (drop (length a) s) (length k) (drop (length ?a1 + 4) s) (length ?h) = Inr (0, q)"
    using q(1) plain_key_facts(3) [OF k] by (simp only: proplist_sethex_def uk uv Let_def ph) simp
  let ?p4 = "?p3\<lparr>ps_pl := q, ps_state := WHITESPACE\<rparr>"
  have "parse_loop s (length (?a2 @ ?h)) ?p3 = parse_loop s (length ((?a2 @ ?h) @ [10])) ?p4"
  proof (rule parse_char [of _ _ _ b])
    show "s = (?a2 @ ?h) @ 10 # b" using s by simp
    assume c: "char_at s (length (?a2 @ ?h)) = 10"
    have f: "ps_pl ?p3 = ps_pl ps" "ps_key ?p3 = length a" "ps_key_len ?p3 = length k" "ps_value ?p3 = length ?a1 + 4"
      "ps_value_len ?p3 = length ?h" "ps_state ?p3 = VALUE_HEX" by (simp_all add: start_value_def)
    show "parse_step s (length (?a2 @ ?h)) ?p3 = Inr (Next ?p4 0)"
      unfolding parse_step_def c f sn value_done_def by (simp add: is_hex_char_def isspace_def)
  qed
  then show ?thesis using 1 2 3 q(2) by (intro exI [of _ ?p4]) simp
qed

lemma parse_entry:
  assumes s: "s = a @ entry_text (k, v) @ [10] @ b" and k: "plain_key k" and v: "plain_value v" and st: "ps_state ps = WHITESPACE"
    and pl: "pl_abs (ps_pl ps) kvs" and new: "k \<notin> fst ` set kvs" and room: "length kvs + 1 < 2 ^ 32"
  shows "\<exists>ps'. parse_loop s (length a) ps = parse_loop s (length (a @ entry_text (k, v) @ [10])) ps' \<and>
     ps_state ps' = WHITESPACE \<and> pl_abs (ps_pl ps') (kvs @ [(k, v)])"
proof (cases "pl_string v")
  case (Some str)
  then have e: "entry_text (k, v) = k @ eq_quote @ quoted str @ [34]" by (simp add: entry_text_def)
  have str: "v = str @ [0]" "cstring str" "pa_utf8_valid str \<noteq> None" using pl_string_Some [OF Some] by simp_all
  have "92 \<notin> set str" using v Some by (simp add: plain_value_def)
  from parse_string_entry [OF s [unfolded e] k st str(2) this str(3) pl new room] show ?thesis
    unfolding e by (simp only: str(1))
next
  case None
  then have e: "entry_text (k, v) = k @ eq_hex @ concat (map hex_byte v)" by (simp add: entry_text_def)
  show ?thesis using parse_hex_entry [OF s [unfolded e] k st pl new room] by (simp only: e)
qed

lemma parse_end:
  assumes "ps_state ps = WHITESPACE"
  shows "parse_loop s (length s) ps = Inr (Some (ps_pl ps))"
  using assms by (subst parse_loop.simps) (simp add: parse_step_def char_at_def)

lemma parse_entries:
  "s = a @ concat (map (\<lambda>e. entry_text e @ [10]) rest) \<Longrightarrow> ps_state ps = WHITESPACE \<Longrightarrow> pl_abs (ps_pl ps) kvs \<Longrightarrow>
     distinct (map fst (kvs @ rest)) \<Longrightarrow> list_all (\<lambda>(k, v). plain_key k \<and> plain_value v) rest \<Longrightarrow>
     length kvs + length rest < 2 ^ 32 \<Longrightarrow>
     \<exists>q. parse_loop s (length a) ps = Inr (Some q) \<and> pl_abs q (kvs @ rest)"
proof (induction rest arbitrary: a ps kvs)
  case Nil
  then show ?case using parse_end [of ps s] by simp
next
  case (Cons kv rest)
  obtain k v where kv: "kv = (k, v)" by (cases kv)
  let ?b = "concat (map (\<lambda>e. entry_text e @ [10]) rest)"
  have s: "s = a @ entry_text (k, v) @ [10] @ ?b" using Cons.prems(1) by (simp add: kv)
  have new: "k \<notin> fst ` set kvs" using Cons.prems(4) by (auto simp: kv)
  have plain: "plain_key k" "plain_value v" using Cons.prems(5) by (simp_all add: kv)
  have room: "length kvs + 1 < 2 ^ 32" using Cons.prems(6) by simp
  from parse_entry [OF s plain Cons.prems(2,3) new room] obtain ps' where
    p: "parse_loop s (length a) ps = parse_loop s (length (a @ entry_text (k, v) @ [10])) ps'"
      "ps_state ps' = WHITESPACE" "pl_abs (ps_pl ps') (kvs @ [(k, v)])" by blast
  have "\<exists>q. parse_loop s (length (a @ entry_text (k, v) @ [10])) ps' = Inr (Some q) \<and> pl_abs q ((kvs @ [(k, v)]) @ rest)"
    by (rule Cons.IH) (use s p Cons.prems(4-6) kv in auto)
  then show ?case using p(1) by (simp add: kv)
qed

text \<open>C38. A property list with keys of printable characters other than \<open>=\<close>, and string values without
  backslashes, is printed and read back without loss: \<^verbatim>\<open>pa_proplist_from_string\<close> applied to the
  output of \<^verbatim>\<open>pa_proplist_to_string\<close> returns a list with the same entries in the same order,
  binary values (printed in hexadecimal) included.\<close>

theorem proplist_string_roundtrip:
  assumes "pl_abs p kvs" and "list_all (\<lambda>(k, v). plain_key k \<and> plain_value v) kvs"
  shows "\<exists>s q. pa_proplist_to_string p = Inr s \<and> pa_proplist_from_string s = Inr (Some q) \<and> pl_abs q kvs"
proof -
  let ?ps = "\<lparr>ps_state = WHITESPACE, ps_pl = pa_proplist_new, ps_key = 0, ps_key_len = 0,
    ps_value = 0, ps_value_len = 0\<rparr>"
  let ?s = "if kvs = [] then [10] else concat (map (\<lambda>e. entry_text e @ [10]) kvs)"
  have "\<exists>q. parse_loop ?s 0 ?ps = Inr (Some q) \<and> pl_abs q kvs"
  proof (cases "kvs = []")
    case True
    have "parse_loop [10] (length ([] :: bytes)) ?ps = parse_loop [10] (length ([] @ [10 :: u8])) ?ps"
      by (rule parse_char [of _ _ _ "[]"]) (simp, simp add: parse_step_def isspace_def)
    then show ?thesis using True parse_end [of ?ps "[10]"] proplist_new_ok by simp
  next
    case False
    show ?thesis
      using parse_entries [of ?s "[]" kvs ?ps "[]"] False proplist_new_ok assms(2) pl_abs_facts(1,3) [OF assms(1)]
      by (simp del: map_append)
  qed
  then show ?thesis using to_string_ok [OF assms(1)] by (simp add: pa_proplist_from_string_def)
qed

theorem proplist_string_roundtrip_witness:
  "\<exists>p s q. pa_proplist_sets pa_proplist_new [97] [120, 34] = Inr (0, p) \<and> pa_proplist_to_string p = Inr s \<and>
     pa_proplist_from_string s = Inr (Some q) \<and> pl_abs q [([97], [120, 34, 0])]"
proof -
  from property_assign_ok [OF proplist_new_ok, of "[97]" "Suc (Suc (Suc 0))" "[120, 34, 0]"] obtain p where
    p: "property_assign pa_proplist_new [97] [120, 34, 0] (Suc (Suc (Suc 0))) = Inr p" "pl_abs p [([97], [120, 34, 0])]"
    by (auto simp: pa_proplist_key_valid_def pl_set_def)
  have "pa_proplist_sets pa_proplist_new [97] [120, 34] = Inr (0, p)"
    using p(1) by (simp add: pa_proplist_sets_def pa_proplist_key_valid_def pa_utf8_valid_def)
  moreover have "plain_key [97]" "plain_value [120, 34, 0]"
    by (simp_all add: plain_key_def plain_char_def isspace_def pa_proplist_key_valid_def plain_value_def pl_string_def
        cstring_def pa_utf8_valid_def)
  ultimately show ?thesis using proplist_string_roundtrip [OF p(2)] by auto
qed

text \<open>Backslashes are not escaped when a string is printed, but they are unescaped when it is
  read: the printed form of a list whose string value ends with a backslash is refused by
  \<^verbatim>\<open>pa_proplist_from_string\<close>, because the closing quotation mark is taken for an escaped one.\<close>

theorem proplist_string_backslash:
  assumes p: "pl_abs p [(k, t @ [92, 0])]" and k: "plain_key k" and t: "92 \<notin> set t" "cstring t" "pa_utf8_valid (t @ [92]) \<noteq> None"
  shows "\<exists>s. pa_proplist_to_string p = Inr s \<and> pa_proplist_from_string s = Inr None"
proof -
  let ?ps = "\<lparr>ps_state = WHITESPACE, ps_pl = pa_proplist_new, ps_key = 0, ps_key_len = 0,
    ps_value = 0, ps_value_len = 0\<rparr>"
  have "pl_string (t @ [92, 0]) = Some (t @ [92])"
    using t by (auto simp: pl_string_def cstring_def butlast_append pa_utf8_valid_def split: option.splits)
  then have e: "entry_text (k, t @ [92, 0]) @ [10] = k @ eq_quote @ quoted t @ [92, 34, 10]"
    by (simp add: entry_text_def quoted_append) (simp add: quoted_def)
  let ?s = "k @ eq_quote @ quoted t @ [92, 34, 10]"
  obtain c ks where kk: "k = c # ks" using plain_key_facts(2) [OF k] by blast
  let ?a1 = "k @ [32, 61, 32]"
  let ?p1 = "?ps\<lparr>ps_key := 0, ps_key_len := length k, ps_state := VALUE_START\<rparr>"
  let ?p2 = "start_value VALUE_DOUBLE_QUOTES (length ?a1 + 1) 0 ?p1"
  let ?p3 = "?p2\<lparr>ps_value_len := length (quoted t)\<rparr>"
  let ?p4 = "longer_value (?p3\<lparr>ps_state := VALUE_DOUBLE_QUOTES_ESCAPE\<rparr>)"
  let ?p5 = "longer_value (?p4\<lparr>ps_state := VALUE_DOUBLE_QUOTES\<rparr>)"
  have 1: "parse_loop ?s 0 ?ps = parse_loop ?s (length ?a1) ?p1"
    using parse_entry_head [of ?s "[]" c ks "[34] @ quoted t @ [92, 34, 10]" ?ps] kk plain_key_facts(4) [OF k]
    by (simp add: eq_quote_def)
  have 2: "parse_loop ?s (length ?a1) ?p1 = parse_loop ?s (length (?a1 @ [34])) ?p2"
    by (rule parse_char [of _ _ _ "quoted t @ [92, 34, 10]"])
      (simp add: eq_quote_def, simp add: parse_step_def start_value_def)
  have 3: "parse_loop ?s (length (?a1 @ [34])) ?p2 = parse_loop ?s (length ((?a1 @ [34]) @ quoted t)) ?p3"
    using parse_quoted_chars [of ?s "?a1 @ [34]" t "[92, 34, 10]" ?p2] t
    by (simp add: eq_quote_def start_value_def cstring_def)
  have 4: "parse_loop ?s (length ((?a1 @ [34]) @ quoted t)) ?p3 = parse_loop ?s (length (((?a1 @ [34]) @ quoted t) @ [92])) ?p4"
    by (rule parse_char [of _ _ _ "[34, 10]"]) (simp add: eq_quote_def, simp add: parse_step_def start_value_def)
  have 5: "parse_loop ?s (length (((?a1 @ [34]) @ quoted t) @ [92])) ?p4 =
      parse_loop ?s (length ((((?a1 @ [34]) @ quoted t) @ [92]) @ [34])) ?p5"
    by (rule parse_char [of _ _ _ "[10]"]) (simp add: eq_quote_def, simp add: parse_step_def start_value_def longer_value_def)
  have 6: "parse_loop ?s (length ((((?a1 @ [34]) @ quoted t) @ [92]) @ [34])) ?p5 =
      parse_loop ?s (length (((((?a1 @ [34]) @ quoted t) @ [92]) @ [34]) @ [10])) (longer_value ?p5)"
    by (rule parse_char [of _ _ _ "[]"]) (simp add: eq_quote_def, simp add: parse_step_def start_value_def longer_value_def)
  have 7: "length (((((?a1 @ [34]) @ quoted t) @ [92]) @ [34]) @ [10]) = length ?s" by (simp add: eq_quote_def)
  have 8: "parse_loop ?s (length ?s) (longer_value ?p5) = Inr None"
    by (subst parse_loop.simps) (simp add: parse_step_def char_at_def start_value_def longer_value_def)
  have "parse_loop ?s 0 ?ps = Inr None" unfolding 1 2 3 4 5 6 7 by (rule 8)
  then show ?thesis using to_string_ok [OF p] e by (simp add: pa_proplist_from_string_def)
qed

theorem proplist_string_backslash_witness:
  "\<exists>p s. pa_proplist_sets pa_proplist_new [97] [120, 92] = Inr (0, p) \<and>
     pa_proplist_to_string p = Inr s \<and> pa_proplist_from_string s = Inr None"
proof -
  from property_assign_ok [OF proplist_new_ok, of "[97]" "Suc (Suc (Suc 0))" "[120, 92, 0]"] obtain p where
    p: "property_assign pa_proplist_new [97] [120, 92, 0] (Suc (Suc (Suc 0))) = Inr p" "pl_abs p [([97], [120, 92, 0])]"
    by (auto simp: pa_proplist_key_valid_def pl_set_def)
  have "pa_proplist_sets pa_proplist_new [97] [120, 92] = Inr (0, p)"
    using p(1) by (simp add: pa_proplist_sets_def pa_proplist_key_valid_def pa_utf8_valid_def)
  moreover have "plain_key [97]" "cstring [120]" "pa_utf8_valid [120, 92] \<noteq> None"
    by (simp_all add: plain_key_def plain_char_def isspace_def pa_proplist_key_valid_def cstring_def pa_utf8_valid_def)
  ultimately show ?thesis using proplist_string_backslash [of p "[97]" "[120]"] p(2) by simp
qed

end
