(* ===== verification/PaTagstruct.thy ===== *)
theory PaTagstruct
  imports PaProplist
begin

text \<open>
  Tagged structures (\<^verbatim>\<open>pulsecore/tagstruct.c\<close>), the serialisation of the PulseAudio native
  protocol: values are written one after the other, each with a tag byte, and read back in the same
  order; the reader trusts nothing of the data it is given.
\<close>

section \<open>The structure\<close>

datatype tagstruct_type = PA_TAGSTRUCT_FIXED | PA_TAGSTRUCT_DYNAMIC | PA_TAGSTRUCT_APPENDED

text \<open>\<^verbatim>\<open>struct pa_tagstruct\<close>: \<open>ts_data\<close> are the \<^verbatim>\<open>length\<close> bytes in use of the buffer of
  \<open>ts_allocated\<close> bytes.\<close>

record pa_tagstruct =
  ts_data :: bytes
  ts_allocated :: nat
  ts_rindex :: nat
  ts_type :: tagstruct_type

abbreviation MAX_TAG_SIZE :: u32 where "MAX_TAG_SIZE \<equiv> 65536"
abbreviation MAX_APPENDED_SIZE :: nat where "MAX_APPENDED_SIZE \<equiv> 128"
abbreviation GROW_TAG_SIZE :: nat where "GROW_TAG_SIZE \<equiv> 100"
abbreviation PA_CHANNELS_MAX :: u8 where "PA_CHANNELS_MAX \<equiv> 32"

abbreviation PA_TAG_STRING :: u8 where "PA_TAG_STRING \<equiv> 116"
abbreviation PA_TAG_STRING_NULL :: u8 where "PA_TAG_STRING_NULL \<equiv> 78"
abbreviation PA_TAG_U32 :: u8 where "PA_TAG_U32 \<equiv> 76"
abbreviation PA_TAG_U8 :: u8 where "PA_TAG_U8 \<equiv> 66"
abbreviation PA_TAG_U64 :: u8 where "PA_TAG_U64 \<equiv> 82"
abbreviation PA_TAG_S64 :: u8 where "PA_TAG_S64 \<equiv> 114"
abbreviation PA_TAG_SAMPLE_SPEC :: u8 where "PA_TAG_SAMPLE_SPEC \<equiv> 97"
abbreviation PA_TAG_ARBITRARY :: u8 where "PA_TAG_ARBITRARY \<equiv> 120"
abbreviation PA_TAG_BOOLEAN_TRUE :: u8 where "PA_TAG_BOOLEAN_TRUE \<equiv> 49"
abbreviation PA_TAG_BOOLEAN_FALSE :: u8 where "PA_TAG_BOOLEAN_FALSE \<equiv> 48"
abbreviation PA_TAG_TIMEVAL :: u8 where "PA_TAG_TIMEVAL \<equiv> 84"
abbreviation PA_TAG_USEC :: u8 where "PA_TAG_USEC \<equiv> 85"
abbreviation PA_TAG_CHANNEL_MAP :: u8 where "PA_TAG_CHANNEL_MAP \<equiv> 109"
abbreviation PA_TAG_CVOLUME :: u8 where "PA_TAG_CVOLUME \<equiv> 118"
abbreviation PA_TAG_PROPLIST :: u8 where "PA_TAG_PROPLIST \<equiv> 80"
abbreviation PA_TAG_VOLUME :: u8 where "PA_TAG_VOLUME \<equiv> 86"
abbreviation PA_TAG_FORMAT_INFO :: u8 where "PA_TAG_FORMAT_INFO \<equiv> 102"

text \<open>The structures that are sent; enumerations are \<^verbatim>\<open>int\<close>, times are 64 bits wide.\<close>

record pa_sample_spec =
  ss_format :: u32
  ss_rate :: u32
  ss_channels :: u8

record timeval =
  tv_sec :: u64
  tv_usec :: u64

record pa_channel_map =
  cm_channels :: u8
  cm_map :: "u32 list"

record pa_cvolume =
  cv_channels :: u8
  cv_values :: "u32 list"

record pa_format_info =
  fi_encoding :: u32
  fi_plist :: pa_proplist

definition pa_tagstruct_new :: pa_tagstruct where
  "pa_tagstruct_new = \<lparr>ts_data = [], ts_allocated = MAX_APPENDED_SIZE, ts_rindex = 0, ts_type = PA_TAGSTRUCT_APPENDED\<rparr>"

definition pa_tagstruct_new_fixed :: "bytes \<Rightarrow> pa_tagstruct res" where
  "pa_tagstruct_new_fixed data =
     bindR (assertR (length data > 0)) (\<lambda>_.
     Inr \<lparr>ts_data = data, ts_allocated = length data, ts_rindex = 0, ts_type = PA_TAGSTRUCT_FIXED\<rparr>)"

definition extend :: "pa_tagstruct \<Rightarrow> nat \<Rightarrow> pa_tagstruct res" where
  "extend t l =
     bindR (assertR (ts_type t \<noteq> PA_TAGSTRUCT_FIXED)) (\<lambda>_.
     if length (ts_data t) + l \<le> ts_allocated t then Inr t
     else if ts_type t = PA_TAGSTRUCT_DYNAMIC
     then Inr (t\<lparr>ts_allocated := length (ts_data t) + l + GROW_TAG_SIZE\<rparr>)
     else Inr (t\<lparr>ts_type := PA_TAGSTRUCT_DYNAMIC, ts_allocated := length (ts_data t) + l + GROW_TAG_SIZE\<rparr>))"

text \<open>Storing bytes behind the data in use.\<close>

definition ts_store :: "pa_tagstruct \<Rightarrow> bytes \<Rightarrow> pa_tagstruct res" where
  "ts_store t bs =
     (if length (ts_data t) + length bs \<le> ts_allocated t then Inr (t\<lparr>ts_data := ts_data t @ bs\<rparr>)
      else Inl OutOfBounds)"

definition htonl :: "u32 \<Rightarrow> bytes" where
  "htonl u = [ucast (drop_bit 24 u), ucast (drop_bit 16 u), ucast (drop_bit 8 u), ucast u]"

fun ntohl :: "bytes \<Rightarrow> u32" where
  "ntohl [a, b, c, d] = push_bit 24 (ucast a) OR push_bit 16 (ucast b) OR push_bit 8 (ucast c) OR ucast d"
| "ntohl _ = 0"

definition write_u8 :: "pa_tagstruct \<Rightarrow> u8 \<Rightarrow> pa_tagstruct res" where
  "write_u8 t u = bindR (extend t 1) (\<lambda>t. ts_store t [u])"

definition read_u8 :: "pa_tagstruct \<Rightarrow> u8 option \<times> pa_tagstruct" where
  "read_u8 t =
     (if ts_rindex t + 1 > length (ts_data t) then (None, t)
      else (Some (ts_data t ! ts_rindex t), t\<lparr>ts_rindex := ts_rindex t + 1\<rparr>))"

definition write_u32 :: "pa_tagstruct \<Rightarrow> u32 \<Rightarrow> pa_tagstruct res" where
  "write_u32 t u = bindR (extend t 4) (\<lambda>t. ts_store t (htonl u))"

definition read_u32 :: "pa_tagstruct \<Rightarrow> u32 option \<times> pa_tagstruct" where
  "read_u32 t =
     (if ts_rindex t + 4 > length (ts_data t) then (None, t)
      else (Some (ntohl (take 4 (drop (ts_rindex t) (ts_data t)))), t\<lparr>ts_rindex := ts_rindex t + 4\<rparr>))"

definition write_u64 :: "pa_tagstruct \<Rightarrow> u64 \<Rightarrow> pa_tagstruct res" where
  "write_u64 t u = bindR (write_u32 t (ucast (drop_bit 32 u))) (\<lambda>t. write_u32 t (ucast u))"

definition read_u64 :: "pa_tagstruct \<Rightarrow> u64 option \<times> pa_tagstruct" where
  "read_u64 t =
     (case read_u32 t of (None, t) \<Rightarrow> (None, t)
      | (Some hi, t) \<Rightarrow>
          (case read_u32 t of (None, t) \<Rightarrow> (None, t)
           | (Some lo, t) \<Rightarrow> (Some (push_bit 32 (ucast hi) OR ucast lo), t)))"

text \<open>\<^verbatim>\<open>read_s64\<close>: the bits of the \<^verbatim>\<open>int64_t\<close>.\<close>

definition read_s64 :: "pa_tagstruct \<Rightarrow> u64 option \<times> pa_tagstruct" where
  "read_s64 t =
     (case read_u32 t of (None, t) \<Rightarrow> (None, t)
      | (Some hi, t) \<Rightarrow>
          (case read_u32 t of (None, t) \<Rightarrow> (None, t)
           | (Some lo, t) \<Rightarrow> (Some (push_bit 32 (ucast hi) OR ucast lo), t)))"

definition write_arbitrary :: "pa_tagstruct \<Rightarrow> bytes \<Rightarrow> nat \<Rightarrow> pa_tagstruct res" where
  "write_arbitrary t p len = bindR (extend t len) (\<lambda>t. bindR (load p 0 len) (\<lambda>bs. ts_store t bs))"

definition read_arbitrary :: "pa_tagstruct \<Rightarrow> nat \<Rightarrow> bytes option \<times> pa_tagstruct" where
  "read_arbitrary t len =
     (if ts_rindex t + len > length (ts_data t) then (None, t)
      else (Some (take len (drop (ts_rindex t) (ts_data t))), t\<lparr>ts_rindex := ts_rindex t + len\<rparr>))"

section \<open>Writing\<close>

definition pa_tagstruct_puts :: "pa_tagstruct \<Rightarrow> bytes option \<Rightarrow> pa_tagstruct res" where
  "pa_tagstruct_puts t s =
     (case s of
        Some s \<Rightarrow> bindR (write_u8 t PA_TAG_STRING) (\<lambda>t. write_arbitrary t (s @ [0]) (length s + 1))
      | None \<Rightarrow> write_u8 t PA_TAG_STRING_NULL)"

definition pa_tagstruct_putu32 :: "pa_tagstruct \<Rightarrow> u32 \<Rightarrow> pa_tagstruct res" where
  "pa_tagstruct_putu32 t i = bindR (write_u8 t PA_TAG_U32) (\<lambda>t. write_u32 t i)"

definition pa_tagstruct_putu8 :: "pa_tagstruct \<Rightarrow> u8 \<Rightarrow> pa_tagstruct res" where
  "pa_tagstruct_putu8 t c = bindR (write_u8 t PA_TAG_U8) (\<lambda>t. write_u8 t c)"

definition pa_tagstruct_put_sample_spec :: "pa_tagstruct \<Rightarrow> pa_sample_spec \<Rightarrow> pa_tagstruct res" where
  "pa_tagstruct_put_sample_spec t ss =
     bindR (write_u8 t PA_TAG_SAMPLE_SPEC) (\<lambda>t.
     bindR (write_u8 t (ucast (ss_format ss))) (\<lambda>t.
     bindR (write_u8 t (ss_channels ss)) (\<lambda>t.
     write_u32 t (ss_rate ss))))"

definition pa_tagstruct_put_arbitrary :: "pa_tagstruct \<Rightarrow> bytes \<Rightarrow> nat \<Rightarrow> pa_tagstruct res" where
  "pa_tagstruct_put_arbitrary t p len =
     bindR (write_u8 t PA_TAG_ARBITRARY) (\<lambda>t.
     bindR (write_u32 t (of_nat len)) (\<lambda>t.
     write_arbitrary t p len))"

definition pa_tagstruct_put_boolean :: "pa_tagstruct \<Rightarrow> bool \<Rightarrow> pa_tagstruct res" where
  "pa_tagstruct_put_boolean t b = write_u8 t (if b then PA_TAG_BOOLEAN_TRUE else PA_TAG_BOOLEAN_FALSE)"

definition pa_tagstruct_put_timeval :: "pa_tagstruct \<Rightarrow> timeval \<Rightarrow> pa_tagstruct res" where
  "pa_tagstruct_put_timeval t tv =
     bindR (write_u8 t PA_TAG_TIMEVAL) (\<lambda>t.
     bindR (write_u32 t (ucast (tv_sec tv))) (\<lambda>t.
     write_u32 t (ucast (tv_usec tv))))"

definition pa_tagstruct_put_usec :: "pa_tagstruct \<Rightarrow> u64 \<Rightarrow> pa_tagstruct res" where
  "pa_tagstruct_put_usec t u = bindR (write_u8 t PA_TAG_USEC) (\<lambda>t. write_u64 t u)"

definition pa_tagstruct_putu64 :: "pa_tagstruct \<Rightarrow> u64 \<Rightarrow> pa_tagstruct res" where
  "pa_tagstruct_putu64 t u = bindR (write_u8 t PA_TAG_U64) (\<lambda>t. write_u64 t u)"

definition pa_tagstruct_puts64 :: "pa_tagstruct \<Rightarrow> u64 \<Rightarrow> pa_tagstruct res" where
  "pa_tagstruct_puts64 t u = bindR (write_u8 t PA_TAG_S64) (\<lambda>t. write_u64 t u)"

text \<open>The loops over the channels, each element read from its array.\<close>

fun write_map :: "pa_tagstruct \<Rightarrow> u32 list \<Rightarrow> pa_tagstruct res" where
  "write_map t [] = Inr t"
| "write_map t (m # ms) = bindR (write_u8 t (ucast m)) (\<lambda>t. write_map t ms)"

definition pa_tagstruct_put_channel_map :: "pa_tagstruct \<Rightarrow> pa_channel_map \<Rightarrow> pa_tagstruct res" where
  "pa_tagstruct_put_channel_map t cm =
     bindR (write_u8 t PA_TAG_CHANNEL_MAP) (\<lambda>t.
     bindR (write_u8 t (cm_channels cm)) (\<lambda>t.
     bindR (load (cm_map cm) 0 (unat (cm_channels cm))) (\<lambda>ms. write_map t ms)))"

fun write_volumes :: "pa_tagstruct \<Rightarrow> u32 list \<Rightarrow> pa_tagstruct res" where
  "write_volumes t [] = Inr t"
| "write_volumes t (v # vs) = bindR (write_u32 t v) (\<lambda>t. write_volumes t vs)"

definition pa_tagstruct_put_cvolume :: "pa_tagstruct \<Rightarrow> pa_cvolume \<Rightarrow> pa_tagstruct res" where
  "pa_tagstruct_put_cvolume t cvolume =
     bindR (write_u8 t PA_TAG_CVOLUME) (\<lambda>t.
     bindR (write_u8 t (cv_channels cvolume)) (\<lambda>t.
     bindR (load (cv_values cvolume) 0 (unat (cv_channels cvolume))) (\<lambda>vs. write_volumes t vs)))"

definition pa_tagstruct_put_volume :: "pa_tagstruct \<Rightarrow> u32 \<Rightarrow> pa_tagstruct res" where
  "pa_tagstruct_put_volume t vol = bindR (write_u8 t PA_TAG_VOLUME) (\<lambda>t. write_u32 t vol)"

fun put_properties :: "pa_tagstruct \<Rightarrow> pa_proplist \<Rightarrow> bytes list \<Rightarrow> pa_tagstruct res" where
  "put_properties t p [] = Inr t"
| "put_properties t p (k # ks) =
     bindR (pa_tagstruct_puts t (Some k)) (\<lambda>t.
     bindR (pa_proplist_get p k) (\<lambda>r.
     case r of None \<Rightarrow> Inl AssertFail
     | Some (d, l) \<Rightarrow>
         bindR (pa_tagstruct_putu32 t (of_nat l)) (\<lambda>t.
         bindR (pa_tagstruct_put_arbitrary t d l) (\<lambda>t. put_properties t p ks))))"

definition pa_tagstruct_put_proplist :: "pa_tagstruct \<Rightarrow> pa_proplist \<Rightarrow> pa_tagstruct res" where
  "pa_tagstruct_put_proplist t p =
     bindR (write_u8 t PA_TAG_PROPLIST) (\<lambda>t.
     bindR (proplist_keys p) (\<lambda>ks.
     bindR (put_properties t p ks) (\<lambda>t.
     pa_tagstruct_puts t None)))"

definition pa_tagstruct_put_format_info :: "pa_tagstruct \<Rightarrow> pa_format_info \<Rightarrow> pa_tagstruct res" where
  "pa_tagstruct_put_format_info t f =
     bindR (write_u8 t PA_TAG_FORMAT_INFO) (\<lambda>t.
     bindR (pa_tagstruct_putu8 t (ucast (fi_encoding f))) (\<lambda>t.
     pa_tagstruct_put_proplist t (fi_plist f)))"

section \<open>Reading\<close>

text \<open>A reader returns the value, or \<open>None\<close> for -1, and the structure with its read position,
  which may have moved also when it fails. What a failing call leaves in its out parameter is not
  modelled: no caller looks at it.\<close>

definition read_tag :: "pa_tagstruct \<Rightarrow> u8 \<Rightarrow> unit option \<times> pa_tagstruct" where
  "read_tag t type =
     (if ts_rindex t + 1 > length (ts_data t) then (None, t)
      else if ts_data t ! ts_rindex t \<noteq> type then (None, t)
      else (Some (), t\<lparr>ts_rindex := ts_rindex t + 1\<rparr>))"

text \<open>Reading in sequence, stopping at the first failure.\<close>

definition then_read :: "'a option \<times> pa_tagstruct \<Rightarrow> ('a \<Rightarrow> pa_tagstruct \<Rightarrow> 'b option \<times> pa_tagstruct) \<Rightarrow> 'b option \<times> pa_tagstruct" where
  "then_read r f = (case r of (None, t) \<Rightarrow> (None, t) | (Some x, t) \<Rightarrow> f x t)"

definition pa_tagstruct_gets :: "pa_tagstruct \<Rightarrow> bytes option option \<times> pa_tagstruct" where
  "pa_tagstruct_gets t =
     (if ts_rindex t + 1 > length (ts_data t) then (None, t)
      else if ts_data t ! ts_rindex t = PA_TAG_STRING_NULL then (Some None, t\<lparr>ts_rindex := ts_rindex t + 1\<rparr>)
      else then_read (read_tag t PA_TAG_STRING) (\<lambda>_ t.
        if ts_rindex t + 1 > length (ts_data t) then (None, t)
        else
          let c = drop (ts_rindex t) (ts_data t);
              n = length (takeWhile (\<lambda>b. b \<noteq> 0) c)
          in if n = length c then (None, t)
             else (Some (Some (take n c)), t\<lparr>ts_rindex := ts_rindex t + (n + 1)\<rparr>)))"

definition pa_tagstruct_getu32 :: "pa_tagstruct \<Rightarrow> u32 option \<times> pa_tagstruct" where
  "pa_tagstruct_getu32 t = then_read (read_tag t PA_TAG_U32) (\<lambda>_ t. read_u32 t)"

definition pa_tagstruct_getu8 :: "pa_tagstruct \<Rightarrow> u8 option \<times> pa_tagstruct" where
  "pa_tagstruct_getu8 t = then_read (read_tag t PA_TAG_U8) (\<lambda>_ t. read_u8 t)"

definition pa_tagstruct_get_sample_spec :: "pa_tagstruct \<Rightarrow> pa_sample_spec option \<times> pa_tagstruct" where
  "pa_tagstruct_get_sample_spec t =
     then_read (read_tag t PA_TAG_SAMPLE_SPEC) (\<lambda>_ t.
     then_read (read_u8 t) (\<lambda>tmp t.
     then_read (read_u8 t) (\<lambda>channels t.
     then_read (read_u32 t) (\<lambda>rate t.
     (Some \<lparr>ss_format = ucast tmp, ss_rate = rate, ss_channels = channels\<rparr>, t)))))"

definition pa_tagstruct_get_arbitrary :: "pa_tagstruct \<Rightarrow> nat \<Rightarrow> bytes option \<times> pa_tagstruct" where
  "pa_tagstruct_get_arbitrary t len =
     then_read (read_tag t PA_TAG_ARBITRARY) (\<lambda>_ t.
     then_read (read_u32 t) (\<lambda>l t.
     if unat l \<noteq> len then (None, t) else read_arbitrary t len))"

definition pa_tagstruct_eof :: "pa_tagstruct \<Rightarrow> bool" where
  "pa_tagstruct_eof t \<longleftrightarrow> ts_rindex t \<ge> length (ts_data t)"

definition pa_tagstruct_data :: "pa_tagstruct \<Rightarrow> bytes" where
  "pa_tagstruct_data t = ts_data t"

definition pa_tagstruct_get_boolean :: "pa_tagstruct \<Rightarrow> bool option \<times> pa_tagstruct" where
  "pa_tagstruct_get_boolean t =
     (if ts_rindex t + 1 > length (ts_data t) then (None, t)
      else if ts_data t ! ts_rindex t = PA_TAG_BOOLEAN_TRUE then (Some True, t\<lparr>ts_rindex := ts_rindex t + 1\<rparr>)
      else if ts_data t ! ts_rindex t = PA_TAG_BOOLEAN_FALSE then (Some False, t\<lparr>ts_rindex := ts_rindex t + 1\<rparr>)
      else (None, t))"

definition pa_tagstruct_get_timeval :: "pa_tagstruct \<Rightarrow> timeval option \<times> pa_tagstruct" where
  "pa_tagstruct_get_timeval t =
     then_read (read_tag t PA_TAG_TIMEVAL) (\<lambda>_ t.
     then_read (read_u32 t) (\<lambda>sec t.
     then_read (read_u32 t) (\<lambda>usec t.
     (Some \<lparr>tv_sec = ucast sec, tv_usec = ucast usec\<rparr>, t))))"

definition pa_tagstruct_get_usec :: "pa_tagstruct \<Rightarrow> u64 option \<times> pa_tagstruct" where
  "pa_tagstruct_get_usec t = then_read (read_tag t PA_TAG_USEC) (\<lambda>_ t. read_u64 t)"

definition pa_tagstruct_getu64 :: "pa_tagstruct \<Rightarrow> u64 option \<times> pa_tagstruct" where
  "pa_tagstruct_getu64 t = then_read (read_tag t PA_TAG_U64) (\<lambda>_ t. read_u64 t)"

definition pa_tagstruct_gets64 :: "pa_tagstruct \<Rightarrow> u64 option \<times> pa_tagstruct" where
  "pa_tagstruct_gets64 t = then_read (read_tag t PA_TAG_S64) (\<lambda>_ t. read_s64 t)"

text \<open>The loops over the channels; a successful call fills the first elements of the array.\<close>

fun read_map :: "nat \<Rightarrow> pa_tagstruct \<Rightarrow> u32 list option \<times> pa_tagstruct" where
  "read_map 0 t = (Some [], t)"
| "read_map (Suc n) t =
     then_read (read_u8 t) (\<lambda>tmp t. then_read (read_map n t) (\<lambda>ms t. (Some (ucast tmp # ms), t)))"

definition pa_tagstruct_get_channel_map :: "pa_tagstruct \<Rightarrow> pa_channel_map \<Rightarrow> pa_channel_map option \<times> pa_tagstruct" where
  "pa_tagstruct_get_channel_map t cm =
     then_read (read_tag t PA_TAG_CHANNEL_MAP) (\<lambda>_ t.
     then_read (read_u8 t) (\<lambda>channels t.
     if channels > PA_CHANNELS_MAX then (None, t)
     else then_read (read_map (unat channels) t) (\<lambda>ms t.
       (Some \<lparr>cm_channels = channels, cm_map = ms @ drop (unat channels) (cm_map cm)\<rparr>, t))))"

fun read_volumes :: "nat \<Rightarrow> pa_tagstruct \<Rightarrow> u32 list option \<times> pa_tagstruct" where
  "read_volumes 0 t = (Some [], t)"
| "read_volumes (Suc n) t =
     then_read (read_u32 t) (\<lambda>v t. then_read (read_volumes n t) (\<lambda>vs t. (Some (v # vs), t)))"

definition pa_tagstruct_get_cvolume :: "pa_tagstruct \<Rightarrow> pa_cvolume \<Rightarrow> pa_cvolume option \<times> pa_tagstruct" where
  "pa_tagstruct_get_cvolume t cv =
     then_read (read_tag t PA_TAG_CVOLUME) (\<lambda>_ t.
     then_read (read_u8 t) (\<lambda>channels t.
     if channels > PA_CHANNELS_MAX then (None, t)
     else then_read (read_volumes (unat channels) t) (\<lambda>vs t.
       (Some \<lparr>cv_channels = channels, cv_values = vs @ drop (unat channels) (cv_values cv)\<rparr>, t))))"

definition pa_tagstruct_get_volume :: "pa_tagstruct \<Rightarrow> u32 option \<times> pa_tagstruct" where
  "pa_tagstruct_get_volume t = then_read (read_tag t PA_TAG_VOLUME) (\<lambda>_ t. read_u32 t)"

section \<open>The read position\<close>

text \<open>Every reader leaves the data alone and moves the position forward at most to its end.\<close>

definition reads_on :: "pa_tagstruct \<Rightarrow> pa_tagstruct \<Rightarrow> bool" where
  "reads_on t t' \<longleftrightarrow> (\<exists>n. t' = t\<lparr>ts_rindex := n\<rparr> \<and> ts_rindex t \<le> n \<and> (n \<le> length (ts_data t) \<or> n = ts_rindex t))"

named_theorems reads_on_intros \<open>the read position moves forward within the data\<close>

lemma reads_on_refl [reads_on_intros]: "reads_on t t"
  unfolding reads_on_def by (rule exI [of _ "ts_rindex t"]) simp

lemma reads_on_trans: "reads_on t u \<Longrightarrow> reads_on u v \<Longrightarrow> reads_on t v"
  unfolding reads_on_def
proof (elim exE conjE)
  fix m n
  assume "u = t\<lparr>ts_rindex := m\<rparr>" "ts_rindex t \<le> m" "m \<le> length (ts_data t) \<or> m = ts_rindex t"
    "v = u\<lparr>ts_rindex := n\<rparr>" "ts_rindex u \<le> n" "n \<le> length (ts_data u) \<or> n = ts_rindex u"
  then show "\<exists>n. v = t\<lparr>ts_rindex := n\<rparr> \<and> ts_rindex t \<le> n \<and> (n \<le> length (ts_data t) \<or> n = ts_rindex t)"
    by (intro exI [of _ n]) auto
qed

lemma reads_on_then [reads_on_intros]:
  "reads_on t (snd r) \<Longrightarrow> (\<And>x u. r = (Some x, u) \<Longrightarrow> reads_on u (snd (f x u))) \<Longrightarrow> reads_on t (snd (then_read r f))"
  by (cases r) (auto simp: then_read_def split: option.split intro: reads_on_trans)

lemma reads_on_step [reads_on_intros]:
  "ts_rindex t \<le> n \<Longrightarrow> n \<le> length (ts_data t) \<Longrightarrow> reads_on t (t\<lparr>ts_rindex := n\<rparr>)"
  by (auto simp: reads_on_def)

lemma reads_on_basic [reads_on_intros]:
  "reads_on t (snd (read_u8 t))" "reads_on t (snd (read_u32 t))" "reads_on t (snd (read_tag t ty))"
  "reads_on t (snd (read_arbitrary t len))"
  by (auto simp: read_u8_def read_u32_def read_tag_def read_arbitrary_def intro!: reads_on_intros)

lemma read_u64_then:
  "read_u64 t = then_read (read_u32 t) (\<lambda>hi t. then_read (read_u32 t) (\<lambda>lo t. (Some (push_bit 32 (ucast hi) OR ucast lo), t)))"
  "read_s64 t = then_read (read_u32 t) (\<lambda>hi t. then_read (read_u32 t) (\<lambda>lo t. (Some (push_bit 32 (ucast hi) OR ucast lo), t)))"
  by (auto simp: read_u64_def read_s64_def then_read_def split: prod.split option.split)

lemma reads_on_u64 [reads_on_intros]: "reads_on t (snd (read_u64 t))" "reads_on t (snd (read_s64 t))"
  unfolding read_u64_then by (auto intro!: reads_on_intros)

lemma reads_on_map [reads_on_intros]: "reads_on t (snd (read_map n t))" "reads_on t (snd (read_volumes n t))"
  by (induction n arbitrary: t) (auto intro!: reads_on_intros)

lemma nul_found:
  "length (takeWhile P (drop r d)) \<noteq> length d - r \<Longrightarrow> r < length d \<Longrightarrow> Suc (r + length (takeWhile P (drop r d))) \<le> length d"
  using length_takeWhile_le [of P "drop r d"] by simp

lemma reads_on_gets [reads_on_intros]: "reads_on t (snd (pa_tagstruct_gets t))"
  by (auto simp: pa_tagstruct_gets_def Let_def intro!: reads_on_intros nul_found)

lemmas reader_defs = pa_tagstruct_getu32_def pa_tagstruct_getu8_def pa_tagstruct_get_sample_spec_def
  pa_tagstruct_get_arbitrary_def pa_tagstruct_get_boolean_def pa_tagstruct_get_timeval_def
  pa_tagstruct_get_usec_def pa_tagstruct_getu64_def pa_tagstruct_gets64_def
  pa_tagstruct_get_channel_map_def pa_tagstruct_get_cvolume_def pa_tagstruct_get_volume_def

lemma reads_on_readers [reads_on_intros]:
  "reads_on t (snd (pa_tagstruct_getu32 t))" "reads_on t (snd (pa_tagstruct_getu8 t))"
  "reads_on t (snd (pa_tagstruct_get_sample_spec t))" "reads_on t (snd (pa_tagstruct_get_arbitrary t len))"
  "reads_on t (snd (pa_tagstruct_get_boolean t))" "reads_on t (snd (pa_tagstruct_get_timeval t))"
  "reads_on t (snd (pa_tagstruct_get_usec t))" "reads_on t (snd (pa_tagstruct_getu64 t))"
  "reads_on t (snd (pa_tagstruct_gets64 t))" "reads_on t (snd (pa_tagstruct_get_channel_map t cm))"
  "reads_on t (snd (pa_tagstruct_get_cvolume t cv))" "reads_on t (snd (pa_tagstruct_get_volume t))"
  by (auto simp: reader_defs intro!: reads_on_intros)

section \<open>Property lists and variable arguments\<close>

lemma gets_advances:
  assumes "pa_tagstruct_gets t = (Some s, t')"
  shows "ts_data t' = ts_data t \<and> ts_rindex t < ts_rindex t' \<and> ts_rindex t' \<le> length (ts_data t)"
proof -
  from assms have "ts_rindex t < ts_rindex t'"
    by (auto simp: pa_tagstruct_gets_def then_read_def read_tag_def Let_def split: if_splits)
  moreover have "reads_on t t'" using reads_on_gets [of t] assms by simp
  ultimately show ?thesis by (auto simp: reads_on_def)
qed

lemma reads_on_facts: "reads_on t t' \<Longrightarrow> ts_data t' = ts_data t \<and> ts_rindex t \<le> ts_rindex t'"
  by (auto simp: reads_on_def)

lemma get_properties_measure:
  assumes "pa_tagstruct_gets t = (Some s, t1)" "pa_tagstruct_getu32 t1 = (x, t2)" "pa_tagstruct_get_arbitrary t2 n = (y, t3)"
  shows "length (ts_data t3) - ts_rindex t3 < length (ts_data t) - ts_rindex t"
  using gets_advances [OF assms(1)] reads_on_facts [of t1 t2] reads_on_facts [of t2 t3]
    reads_on_readers(1) [of t1] reads_on_readers(4) [of t2 n] assms by auto

text \<open>The loop of \<^verbatim>\<open>pa_tagstruct_get_proplist\<close>; a null list only skips the properties.\<close>

function get_properties :: "pa_tagstruct \<Rightarrow> pa_proplist option \<Rightarrow> (pa_proplist option option \<times> pa_tagstruct) res" where
  "get_properties t p =
     (case pa_tagstruct_gets t of
        (None, t1) \<Rightarrow> Inr (None, t1)
      | (Some None, t1) \<Rightarrow> Inr (Some p, t1)
      | (Some (Some k), t1) \<Rightarrow>
          if \<not> pa_proplist_key_valid k then Inr (None, t1)
          else (case pa_tagstruct_getu32 t1 of
              (None, t2) \<Rightarrow> Inr (None, t2)
            | (Some l, t2) \<Rightarrow>
                if l > MAX_TAG_SIZE then Inr (None, t2)
                else (case pa_tagstruct_get_arbitrary t2 (unat l) of
                    (None, t3) \<Rightarrow> Inr (None, t3)
                  | (Some d, t3) \<Rightarrow>
                      (case p of
                         None \<Rightarrow> get_properties t3 None
                       | Some pl \<Rightarrow>
                           (case pa_proplist_set pl k d (unat l) of
                              Inl e \<Rightarrow> Inl e
                            | Inr (r, pl') \<Rightarrow> if r < 0 then Inl AssertFail else get_properties t3 (Some pl'))))))"
  by pat_completeness auto
termination
  by (relation "measure (\<lambda>(t, _). length (ts_data t) - ts_rindex t)")
    (auto intro: get_properties_measure [OF sym sym sym])

declare get_properties.simps [simp del]

definition pa_tagstruct_get_proplist ::
    "pa_tagstruct \<Rightarrow> pa_proplist option \<Rightarrow> (pa_proplist option option \<times> pa_tagstruct) res" where
  "pa_tagstruct_get_proplist t p =
     (case read_tag t PA_TAG_PROPLIST of (None, t) \<Rightarrow> Inr (None, t) | (Some _, t) \<Rightarrow> get_properties t p)"

definition pa_tagstruct_get_format_info ::
    "pa_tagstruct \<Rightarrow> pa_format_info \<Rightarrow> (pa_format_info option \<times> pa_tagstruct) res" where
  "pa_tagstruct_get_format_info t f =
     (case then_read (read_tag t PA_TAG_FORMAT_INFO) (\<lambda>_ t. pa_tagstruct_getu8 t) of
        (None, t) \<Rightarrow> Inr (None, t)
      | (Some enc, t) \<Rightarrow>
          bindR (pa_tagstruct_get_proplist t (Some (fi_plist f))) (\<lambda>(r, t).
          case r of Some (Some pl) \<Rightarrow> Inr (Some \<lparr>fi_encoding = ucast enc, fi_plist = pl\<rparr>, t) | _ \<Rightarrow> Inr (None, t)))"

text \<open>The arguments of \<^verbatim>\<open>pa_tagstruct_put\<close> between the tags, up to \<^verbatim>\<open>PA_TAG_INVALID\<close>;
  \<open>AOther\<close> is a tag the \<open>switch\<close> does not know (\<^verbatim>\<open>PA_TAG_S64\<close>, \<^verbatim>\<open>PA_TAG_FORMAT_INFO\<close>, ...).\<close>

datatype ts_arg =
    AString "bytes option" | AU32 u32 | AU8 u8 | AU64 u64 | ASampleSpec pa_sample_spec
  | AArbitrary bytes nat | ABoolean bool | ATimeval timeval | AUsec u64
  | AChannelMap pa_channel_map | ACvolume pa_cvolume | AVolume u32 | AProplist pa_proplist | AOther

definition put_arg :: "pa_tagstruct \<Rightarrow> ts_arg \<Rightarrow> pa_tagstruct res" where
  "put_arg t a =
     (case a of
        AString s \<Rightarrow> pa_tagstruct_puts t s
      | AU32 i \<Rightarrow> pa_tagstruct_putu32 t i
      | AU8 c \<Rightarrow> pa_tagstruct_putu8 t c
      | AU64 u \<Rightarrow> pa_tagstruct_putu64 t u
      | ASampleSpec ss \<Rightarrow> pa_tagstruct_put_sample_spec t ss
      | AArbitrary p n \<Rightarrow> pa_tagstruct_put_arbitrary t p n
      | ABoolean b \<Rightarrow> pa_tagstruct_put_boolean t b
      | ATimeval tv \<Rightarrow> pa_tagstruct_put_timeval t tv
      | AUsec u \<Rightarrow> pa_tagstruct_put_usec t u
      | AChannelMap cm \<Rightarrow> pa_tagstruct_put_channel_map t cm
      | ACvolume cv \<Rightarrow> pa_tagstruct_put_cvolume t cv
      | AVolume v \<Rightarrow> pa_tagstruct_put_volume t v
      | AProplist p \<Rightarrow> pa_tagstruct_put_proplist t p
      | AOther \<Rightarrow> Inl AssertFail)"

fun pa_tagstruct_put :: "pa_tagstruct \<Rightarrow> ts_arg list \<Rightarrow> pa_tagstruct res" where
  "pa_tagstruct_put t [] = Inr t"
| "pa_tagstruct_put t (a # as) = bindR (put_arg t a) (\<lambda>t. pa_tagstruct_put t as)"

text \<open>The out parameters of \<^verbatim>\<open>pa_tagstruct_get\<close>: the objects that are filled in are given as they
  are before the call, an array of bytes with the length that is asked for.\<close>

datatype ts_req =
    QString | QU32 | QU8 | QU64 | QSampleSpec | QArbitrary nat | QBoolean | QTimeval | QUsec
  | QChannelMap pa_channel_map | QCvolume pa_cvolume | QVolume | QProplist pa_proplist | QOther

definition got :: "('a \<Rightarrow> ts_arg) \<Rightarrow> 'a option \<times> pa_tagstruct \<Rightarrow> (ts_arg option \<times> pa_tagstruct) res" where
  "got c r = Inr (map_option c (fst r), snd r)"

definition get_arg :: "pa_tagstruct \<Rightarrow> ts_req \<Rightarrow> (ts_arg option \<times> pa_tagstruct) res" where
  "get_arg t q =
     (case q of
        QString \<Rightarrow> got AString (pa_tagstruct_gets t)
      | QU32 \<Rightarrow> got AU32 (pa_tagstruct_getu32 t)
      | QU8 \<Rightarrow> got AU8 (pa_tagstruct_getu8 t)
      | QU64 \<Rightarrow> got AU64 (pa_tagstruct_getu64 t)
      | QSampleSpec \<Rightarrow> got ASampleSpec (pa_tagstruct_get_sample_spec t)
      | QArbitrary n \<Rightarrow> got (\<lambda>d. AArbitrary d n) (pa_tagstruct_get_arbitrary t n)
      | QBoolean \<Rightarrow> got ABoolean (pa_tagstruct_get_boolean t)
      | QTimeval \<Rightarrow> got ATimeval (pa_tagstruct_get_timeval t)
      | QUsec \<Rightarrow> got AUsec (pa_tagstruct_get_usec t)
      | QChannelMap cm \<Rightarrow> got AChannelMap (pa_tagstruct_get_channel_map t cm)
      | QCvolume cv \<Rightarrow> got ACvolume (pa_tagstruct_get_cvolume t cv)
      | QVolume \<Rightarrow> got AVolume (pa_tagstruct_get_volume t)
      | QProplist p \<Rightarrow> bindR (pa_tagstruct_get_proplist t (Some p)) (\<lambda>(r, t).
          Inr (case r of Some (Some p') \<Rightarrow> Some (AProplist p') | _ \<Rightarrow> None, t))
      | QOther \<Rightarrow> Inl AssertFail)"

fun pa_tagstruct_get :: "pa_tagstruct \<Rightarrow> ts_req list \<Rightarrow> (ts_arg list option \<times> pa_tagstruct) res" where
  "pa_tagstruct_get t [] = Inr (Some [], t)"
| "pa_tagstruct_get t (q # qs) =
     bindR (get_arg t q) (\<lambda>(r, t).
     case r of None \<Rightarrow> Inr (None, t)
     | Some a \<Rightarrow> bindR (pa_tagstruct_get t qs) (\<lambda>(r, t). Inr (map_option ((#) a) r, t)))"

end
