(* ===== verification/PaTagRound.thy ===== *)
theory PaTagRound
  imports PaTagstruct
begin

text \<open>
  What tagged structures promise: the reader copes with any bytes, and what was written is read
  back.
\<close>

section \<open>Reading any bytes\<close>

text \<open>A property list that was read gains only valid keys with values of at most 64K, no more of
  them than there are bytes.\<close>

lemma reads_on_get_properties:
  assumes "\<And>pl. p = Some pl \<Longrightarrow> pl_abs pl kvs \<and> length kvs + (length (ts_data t) - ts_rindex t) < 2 ^ 32"
  shows "\<exists>r t'. get_properties t p = Inr (r, t') \<and> reads_on t t' \<and>
     (\<forall>pl. r = Some (Some pl) \<longrightarrow> (\<exists>kvs'. pl_abs pl kvs'))"
  using assms
proof (induction t p arbitrary: kvs rule: get_properties.induct)
  case (1 t p)
  show ?case
  proof (cases "pa_tagstruct_gets t")
    case (Pair s t1)
    note on1 = reads_on_gets [of t, unfolded Pair, simplified]
    consider (fail) "s = None" | (fin) "s = Some None" | (bad) k where "s = Some (Some k)" "\<not> pa_proplist_key_valid k"
      | (good) k where "s = Some (Some k)" "pa_proplist_key_valid k" by (cases s) auto
    then show ?thesis
    proof cases
      case good
      note gets = Pair [unfolded good(1)]
      obtain x t2 where u: "pa_tagstruct_getu32 t1 = (x, t2)" by fastforce
      note on2 = reads_on_trans [OF on1 reads_on_readers(1) [of t1, unfolded u, simplified]]
      consider "x = None" | l where "x = Some l" "l > MAX_TAG_SIZE" | l where "x = Some l" "\<not> l > MAX_TAG_SIZE" by (cases x) auto
      then show ?thesis
      proof cases
        case 3
        note u = u [unfolded 3(1)]
        obtain y t3 where a: "pa_tagstruct_get_arbitrary t2 (unat l) = (y, t3)" by fastforce
        note on3 = reads_on_trans [OF on2 reads_on_readers(4) [of t2 "unat l", unfolded a, simplified]]
        show ?thesis
        proof (cases y)
          case None
          then show ?thesis using gets good u 3 a on3 by (subst get_properties.simps) simp
        next
          case (Some d)
          note a = a [unfolded Some]
          have less: "length (ts_data t3) - ts_rindex t3 < length (ts_data t) - ts_rindex t"
            by (rule get_properties_measure [OF gets u a])
          show ?thesis
          proof (cases p)
            case None
            have "\<exists>r t'. get_properties t3 None = Inr (r, t') \<and> reads_on t3 t' \<and>
                (\<forall>pl. r = Some (Some pl) \<longrightarrow> (\<exists>kvs'. pl_abs pl kvs'))"
              by (rule 1(1) [OF gets [symmetric]]) (use good u 3 a None in auto)
            then show ?thesis using gets good u 3 a None reads_on_trans [OF on3] by (subst get_properties.simps) auto
          next
            case p: (Some pl)
            have len: "unat l = length d"
              using a by (auto simp: pa_tagstruct_get_arbitrary_def then_read_def read_arbitrary_def read_tag_def
                  split: prod.splits option.splits if_splits)
            have room: "length kvs + 1 < 2 ^ 32" using 1(3) [of pl] p less by auto
            from property_assign_ok [of pl kvs k "length d" "d @ [0]"] good(2) room 1(3) [OF p] obtain pl' where
              pl': "property_assign pl k (d @ [0]) (length d) = Inr pl'" "pl_abs pl' (pl_set k d kvs)" by auto
            have set: "pa_proplist_set pl k d (unat l) = Inr (0, pl')"
              using pl'(1) good(2) by (simp add: pa_proplist_set_def load_def len)
            have "length (pl_set k d kvs) + (length (ts_data t3) - ts_rindex t3) < 2 ^ 32"
              using pl_set_length [of k d kvs] 1(3) [OF p] less by linarith
            then have "\<exists>r t'. get_properties t3 (Some pl') = Inr (r, t') \<and> reads_on t3 t' \<and>
                (\<forall>pl. r = Some (Some pl) \<longrightarrow> (\<exists>kvs'. pl_abs pl kvs'))"
              using pl'(2) by (intro 1(2) [OF gets [symmetric] refl refl _ u [symmetric] refl _ a [symmetric] refl p set]) (use good 3 in auto)
            then show ?thesis using gets good u 3 a p set reads_on_trans [OF on3] by (subst get_properties.simps) auto
          qed
        qed
      qed (use gets good u on2 in \<open>subst get_properties.simps, simp\<close>)+
    qed (use Pair on1 1(3) in \<open>subst get_properties.simps, auto\<close>)+
  qed
qed

text \<open>Requests that make sense for data of \<open>n\<close> bytes, and the answers they may get: of the type
  that was asked for and within its limits.\<close>

fun req_ok :: "nat \<Rightarrow> ts_req \<Rightarrow> bool" where
  "req_ok n (QProplist p) = (\<exists>kvs. pl_abs p kvs \<and> length kvs + n < 2 ^ 32)"
| "req_ok n (QChannelMap cm) = (length (cm_map cm) = 32)"
| "req_ok n (QCvolume cv) = (length (cv_values cv) = 32)"
| "req_ok n QOther = False"
| "req_ok n _ = True"

definition answer_ok :: "ts_req \<Rightarrow> ts_arg \<Rightarrow> bool" where
  "answer_ok q a =
     (case q of
        QString \<Rightarrow> (case a of AString s \<Rightarrow> list_all cstring (case s of None \<Rightarrow> [] | Some x \<Rightarrow> [x]) | _ \<Rightarrow> False)
      | QU32 \<Rightarrow> (case a of AU32 _ \<Rightarrow> True | _ \<Rightarrow> False)
      | QU8 \<Rightarrow> (case a of AU8 _ \<Rightarrow> True | _ \<Rightarrow> False)
      | QU64 \<Rightarrow> (case a of AU64 _ \<Rightarrow> True | _ \<Rightarrow> False)
      | QSampleSpec \<Rightarrow> (case a of ASampleSpec ss \<Rightarrow> ss_format ss < 256 | _ \<Rightarrow> False)
      | QArbitrary n \<Rightarrow> (case a of AArbitrary d m \<Rightarrow> m = n \<and> length d = n | _ \<Rightarrow> False)
      | QBoolean \<Rightarrow> (case a of ABoolean _ \<Rightarrow> True | _ \<Rightarrow> False)
      | QTimeval \<Rightarrow> (case a of ATimeval tv \<Rightarrow> tv_sec tv < 2 ^ 32 \<and> tv_usec tv < 2 ^ 32 | _ \<Rightarrow> False)
      | QUsec \<Rightarrow> (case a of AUsec _ \<Rightarrow> True | _ \<Rightarrow> False)
      | QChannelMap _ \<Rightarrow> (case a of AChannelMap cm \<Rightarrow> cm_channels cm \<le> PA_CHANNELS_MAX \<and> length (cm_map cm) = 32 | _ \<Rightarrow> False)
      | QCvolume _ \<Rightarrow> (case a of ACvolume cv \<Rightarrow> cv_channels cv \<le> PA_CHANNELS_MAX \<and> length (cv_values cv) = 32 | _ \<Rightarrow> False)
      | QVolume \<Rightarrow> (case a of AVolume _ \<Rightarrow> True | _ \<Rightarrow> False)
      | QProplist _ \<Rightarrow> (case a of AProplist p \<Rightarrow> \<exists>kvs. pl_abs p kvs | _ \<Rightarrow> False)
      | QOther \<Rightarrow> False)"

lemmas get_arg_simps = get_arg_def got_def answer_ok_def

lemma ucast_32_64_less: "(ucast (x :: u32) :: u64) < 2 ^ 32"
proof -
  have "uint x < 2 ^ 32" using uint_lt2p [of x] by simp
  then show ?thesis by (simp add: word_less_def unsigned_ucast_eq take_bit_int_eq_self)
qed

lemma ucast_8_32_less: "(ucast (x :: u8) :: u32) < 256"
proof -
  have "uint x < 256" using uint_lt2p [of x] by simp
  then show ?thesis by (simp add: word_less_def unsigned_ucast_eq take_bit_int_eq_self)
qed

lemma then_read_Some: "then_read r f = (Some y, t) \<longleftrightarrow> (\<exists>x u. r = (Some x, u) \<and> f x u = (Some y, t))"
  by (cases r) (auto simp: then_read_def split: option.split)

lemma read_map_length:
  "read_map n t = (Some ms, t') \<Longrightarrow> length ms = n" "read_volumes n t = (Some vs, t') \<Longrightarrow> length vs = n"
  by (induction n arbitrary: t ms vs t') (auto simp: then_read_Some)

lemma gets_cstring: "pa_tagstruct_gets t = (Some (Some s), t') \<Longrightarrow> cstring s"
  by (auto simp: pa_tagstruct_gets_def then_read_Some Let_def cstring_def takeWhile_eq_take [symmetric]
      split: if_splits dest: set_takeWhileD)

lemma channels_le: "\<not> c > PA_CHANNELS_MAX \<longleftrightarrow> unat c \<le> 32" "c \<le> PA_CHANNELS_MAX \<longleftrightarrow> unat c \<le> 32" for c :: u8
  by (simp_all add: not_less word_le_nat_alt)

lemma get_arg_safe:
  assumes q: "req_ok n q" and n: "length (ts_data t) \<le> n"
  shows "\<exists>r t'. get_arg t q = Inr (r, t') \<and> reads_on t t' \<and> (\<forall>a. r = Some a \<longrightarrow> answer_ok q a)"
proof (cases q)
  case (QProplist p)
  then obtain kvs where kvs: "pl_abs p kvs" "length kvs + n < 2 ^ 32" using q by auto
  show ?thesis
  proof (cases "read_tag t PA_TAG_PROPLIST")
    case (Pair x t1)
    have on: "reads_on t t1" using reads_on_basic(3) [of t PA_TAG_PROPLIST] Pair by simp
    then have "length kvs + (length (ts_data t1) - ts_rindex t1) < 2 ^ 32" using reads_on_facts [OF on] n kvs(2) by auto
    then obtain r t' where "get_properties t1 (Some p) = Inr (r, t')" "reads_on t1 t'"
        "\<And>pl. r = Some (Some pl) \<Longrightarrow> \<exists>kvs'. pl_abs pl kvs'"
      using reads_on_get_properties [of "Some p" kvs t1] kvs(1) by auto
    then show ?thesis using QProplist Pair on reads_on_trans [OF on]
      by (cases x) (auto simp: get_arg_simps pa_tagstruct_get_proplist_def split: option.splits)
  qed
next
  case QString
  then show ?thesis using reads_on_gets [of t] gets_cstring [of t]
    by (cases "pa_tagstruct_gets t") (auto simp: get_arg_simps split: option.split)
next
  case QSampleSpec
  then show ?thesis using reads_on_readers(3) [of t]
    by (cases "pa_tagstruct_get_sample_spec t")
      (auto simp: get_arg_simps pa_tagstruct_get_sample_spec_def then_read_Some ucast_8_32_less)
next
  case (QArbitrary m)
  then show ?thesis using reads_on_readers(4) [of t m]
    by (cases "pa_tagstruct_get_arbitrary t m")
      (auto simp: get_arg_simps pa_tagstruct_get_arbitrary_def then_read_Some read_arbitrary_def split: if_splits)
next
  case QTimeval
  then show ?thesis using reads_on_readers(6) [of t] ucast_32_64_less
    by (cases "pa_tagstruct_get_timeval t")
      (auto simp: get_arg_simps pa_tagstruct_get_timeval_def then_read_Some)
next
  case (QChannelMap cm)
  then show ?thesis using q reads_on_readers(10) [of t cm]
    by (cases "pa_tagstruct_get_channel_map t cm")
      (auto simp: get_arg_simps pa_tagstruct_get_channel_map_def then_read_Some channels_le
        dest!: read_map_length split: if_splits)
next
  case (QCvolume cv)
  then show ?thesis using q reads_on_readers(11) [of t cv]
    by (cases "pa_tagstruct_get_cvolume t cv")
      (auto simp: get_arg_simps pa_tagstruct_get_cvolume_def then_read_Some channels_le
        dest!: read_map_length split: if_splits)
qed (use q reads_on_readers in \<open>auto simp: get_arg_simps\<close>)

lemma get_safe:
  "list_all (req_ok n) qs \<Longrightarrow> length (ts_data t) \<le> n \<Longrightarrow>
     \<exists>r t'. pa_tagstruct_get t qs = Inr (r, t') \<and> reads_on t t' \<and> (\<forall>as. r = Some as \<longrightarrow> list_all2 answer_ok qs as)"
proof (induction qs arbitrary: t)
  case Nil
  then show ?case by (simp add: reads_on_refl)
next
  case (Cons q qs)
  then obtain r t1 where r: "get_arg t q = Inr (r, t1)" "reads_on t t1" "\<And>a. r = Some a \<Longrightarrow> answer_ok q a"
    using get_arg_safe [of n q t] by auto
  obtain r' t2 where r': "pa_tagstruct_get t1 qs = Inr (r', t2)" "reads_on t1 t2"
      "\<And>as. r' = Some as \<Longrightarrow> list_all2 answer_ok qs as"
    using Cons.IH [of t1] Cons.prems reads_on_facts [OF r(2)] by auto
  show ?case
  proof (cases r)
    case None
    then show ?thesis using r by simp
  next
    case (Some a)
    then show ?thesis using r r' reads_on_trans [OF r(2) r'(2)] by (cases r') auto
  qed
qed

text \<open>C40. Reading from any non-empty block of bytes, whatever it holds, is safe: for every sequence
  of requests \<^verbatim>\<open>pa_tagstruct_get\<close> returns, without a fault and without a failed assertion, the
  data is left as it was and the read position stays within it; and if the call succeeds, each
  answer has the type that was asked for and keeps its limits - strings without NUL inside, arrays of
  exactly the length asked for, at most 32 channels, property lists that are well-formed.\<close>

theorem tagstruct_read_safe:
  assumes "data \<noteq> []" and "list_all (req_ok (length data)) qs"
  shows "\<exists>t0 r t'. pa_tagstruct_new_fixed data = Inr t0 \<and> pa_tagstruct_get t0 qs = Inr (r, t') \<and>
     pa_tagstruct_data t' = data \<and> ts_rindex t' \<le> length data \<and> (\<forall>as. r = Some as \<longrightarrow> list_all2 answer_ok qs as)"
proof -
  let ?t = "\<lparr>ts_data = data, ts_allocated = length data, ts_rindex = 0, ts_type = PA_TAGSTRUCT_FIXED\<rparr>"
  have n: "pa_tagstruct_new_fixed data = Inr ?t" using assms(1) by (simp add: pa_tagstruct_new_fixed_def)
  obtain r t' where r: "pa_tagstruct_get ?t qs = Inr (r, t')" "reads_on ?t t'" "\<forall>as. r = Some as \<longrightarrow> list_all2 answer_ok qs as"
    using get_safe [OF assms(2), of ?t] by auto
  then show ?thesis using n by (auto simp: reads_on_def pa_tagstruct_data_def)
qed

theorem tagstruct_read_safe_witness:
  "\<exists>t0 r t'. pa_tagstruct_new_fixed [76, 0, 0, 1, 0, 80, 116, 97] = Inr t0 \<and>
     pa_tagstruct_get t0 [QU32, QProplist pa_proplist_new] = Inr (r, t') \<and> ts_rindex t' \<le> 8"
proof -
  have "req_ok 8 (QProplist pa_proplist_new)" using proplist_new_ok by (auto intro!: exI [of _ "[]"])
  then show ?thesis
    using tagstruct_read_safe [of "[76, 0, 0, 1, 0, 80, 116, 97]" "[QU32, QProplist pa_proplist_new]"] by auto
qed

section \<open>Writing\<close>

text \<open>\<open>writes m t bs\<close>: the writer \<open>m\<close>, started from \<open>t\<close>, succeeds, appends \<open>bs\<close> and leaves a structure that
  can be written to.\<close>

definition ts_ok :: "pa_tagstruct \<Rightarrow> bool" where
  "ts_ok t \<longleftrightarrow> ts_type t \<noteq> PA_TAGSTRUCT_FIXED \<and> length (ts_data t) \<le> ts_allocated t"

definition writes :: "pa_tagstruct res \<Rightarrow> pa_tagstruct \<Rightarrow> bytes \<Rightarrow> bool" where
  "writes m t bs \<longleftrightarrow> (\<exists>t'. m = Inr t' \<and> ts_ok t' \<and> ts_data t' = ts_data t @ bs)"

named_theorems writes_intros \<open>what the writers append\<close>

lemma writes_bind [writes_intros]:
  assumes "writes m t bs" and "\<And>t'. ts_ok t' \<Longrightarrow> writes (f t') t' cs"
  shows "writes (bindR m f) t (bs @ cs)"
proof -
  from assms(1) obtain t' where "m = Inr t'" "ts_ok t'" "ts_data t' = ts_data t @ bs" by (auto simp: writes_def)
  then show ?thesis using assms(2) [of t'] by (auto simp: writes_def)
qed

lemma writes_cong: "writes m t bs \<Longrightarrow> bs = cs \<Longrightarrow> writes m t cs"
  by simp

lemma extend_store:
  assumes "ts_ok t" and "length bs = n"
  shows "writes (bindR (extend t n) (\<lambda>t. ts_store t bs)) t bs"
  using assms by (cases "ts_type t") (auto simp: writes_def ts_ok_def extend_def ts_store_def)

lemma htonl_length [simp]: "length (htonl u) = 4"
  by (simp add: htonl_def)

lemma write_u8_ok [writes_intros]: "ts_ok t \<Longrightarrow> writes (write_u8 t u) t [u]"
  unfolding write_u8_def by (rule extend_store) simp_all

lemma write_u32_ok [writes_intros]: "ts_ok t \<Longrightarrow> writes (write_u32 t u) t (htonl u)"
  unfolding write_u32_def by (rule extend_store) simp_all

lemma write_arbitrary_ok [writes_intros]:
  assumes "n \<le> length p" and "ts_ok t"
  shows "writes (write_arbitrary t p n) t (take n p)"
proof -
  have "write_arbitrary t p n = bindR (extend t n) (\<lambda>t. ts_store t (take n p))"
    using assms(1) by (simp add: write_arbitrary_def load_def)
  then show ?thesis using extend_store [of t "take n p" n] assms by simp
qed

definition be64 :: "u64 \<Rightarrow> bytes" where
  "be64 u = htonl (ucast (drop_bit 32 u)) @ htonl (ucast u)"

lemma write_u64_ok [writes_intros]: "ts_ok t \<Longrightarrow> writes (write_u64 t u) t (be64 u)"
  unfolding write_u64_def be64_def by (intro writes_intros)

lemma write_map_ok [writes_intros]: "ts_ok t \<Longrightarrow> writes (write_map t ms) t (map ucast ms)"
proof (induction ms arbitrary: t)
  case (Cons m ms)
  have "writes (bindR (write_u8 t (ucast m)) (\<lambda>t. write_map t ms)) t ([ucast m] @ map ucast ms)"
    by (intro writes_intros Cons)
  then show ?case by simp
qed (simp add: writes_def)

lemma write_volumes_ok [writes_intros]: "ts_ok t \<Longrightarrow> writes (write_volumes t vs) t (concat (map htonl vs))"
proof (induction vs arbitrary: t)
  case (Cons v vs)
  have "writes (bindR (write_u32 t v) (\<lambda>t. write_volumes t vs)) t (htonl v @ concat (map htonl vs))"
    by (intro writes_intros Cons)
  then show ?case by simp
qed (simp add: writes_def)

text \<open>The bytes of each value.\<close>

definition enc_string :: "bytes option \<Rightarrow> bytes" where
  "enc_string s = (case s of Some s \<Rightarrow> PA_TAG_STRING # s @ [0] | None \<Rightarrow> [PA_TAG_STRING_NULL])"

definition enc_arbitrary :: "bytes \<Rightarrow> bytes" where
  "enc_arbitrary d = PA_TAG_ARBITRARY # htonl (of_nat (length d)) @ d"

definition enc_property :: "bytes \<times> bytes \<Rightarrow> bytes" where
  "enc_property kv = enc_string (Some (fst kv)) @ PA_TAG_U32 # htonl (of_nat (length (snd kv))) @ enc_arbitrary (snd kv)"

definition enc_proplist :: "(bytes \<times> bytes) list \<Rightarrow> bytes" where
  "enc_proplist kvs = PA_TAG_PROPLIST # concat (map enc_property kvs) @ enc_string None"

lemma puts_ok [writes_intros]: "ts_ok t \<Longrightarrow> writes (pa_tagstruct_puts t s) t (enc_string s)"
proof (cases s)
  case (Some x)
  assume "ts_ok t"
  then have "writes (bindR (write_u8 t PA_TAG_STRING) (\<lambda>t. write_arbitrary t (x @ [0]) (length x + 1))) t
      ([PA_TAG_STRING] @ take (length x + 1) (x @ [0]))" by (intro writes_intros) simp_all
  then show ?thesis using Some by (simp add: pa_tagstruct_puts_def enc_string_def)
qed (simp add: pa_tagstruct_puts_def enc_string_def write_u8_ok)

lemma putu32_ok [writes_intros]: "ts_ok t \<Longrightarrow> writes (pa_tagstruct_putu32 t u) t ([PA_TAG_U32] @ htonl u)"
  unfolding pa_tagstruct_putu32_def by (intro writes_intros)

lemma put_arbitrary_ok [writes_intros]:
  assumes "n \<le> length p" and "ts_ok t"
  shows "writes (pa_tagstruct_put_arbitrary t p n) t (enc_arbitrary (take n p))"
proof -
  have "writes (pa_tagstruct_put_arbitrary t p n) t ([PA_TAG_ARBITRARY] @ htonl (of_nat n) @ take n p)"
    unfolding pa_tagstruct_put_arbitrary_def by (intro writes_intros assms)
  then show ?thesis using assms(1) by (simp add: enc_arbitrary_def)
qed

lemma put_properties_ok:
  assumes p: "pl_abs p kvs"
  shows "set rest \<subseteq> set kvs \<Longrightarrow> ts_ok t \<Longrightarrow>
    writes (put_properties t p (map fst rest)) t (concat (map enc_property rest))"
proof (induction rest arbitrary: t)
  case Nil
  then show ?case by (simp add: writes_def)
next
  case (Cons kv rest)
  obtain k v where kv: "kv = (k, v)" by (cases kv)
  have "map_of kvs k = Some v" "pa_proplist_key_valid k"
    using Cons.prems(1) pl_abs_facts(1,2) [OF p] by (auto simp: kv list_all_iff)
  then obtain d l where g: "pa_proplist_get p k = Inr (Some (d, l))" "take l d = v" "l \<le> length d"
    using proplist_get_ok [OF p, of k] by auto
  have step: "put_properties t p (map fst (kv # rest)) =
      bindR (pa_tagstruct_puts t (Some k)) (\<lambda>t. bindR (pa_tagstruct_putu32 t (of_nat l)) (\<lambda>t.
      bindR (pa_tagstruct_put_arbitrary t d l) (\<lambda>t. put_properties t p (map fst rest))))"
    using g(1) by (simp add: kv)
  have "writes (put_properties t p (map fst (kv # rest))) t
      (enc_string (Some k) @ ([PA_TAG_U32] @ htonl (of_nat l)) @ enc_arbitrary (take l d) @ concat (map enc_property rest))"
    unfolding step by (intro writes_intros Cons.IH g(3)) (use Cons.prems in simp_all)
  moreover have "length v = l" using g(2,3) by auto
  ultimately show ?case using g(2) unfolding kv by (simp add: enc_property_def [of "(k, v)"])
qed

lemma put_proplist_ok [writes_intros]:
  assumes p: "pl_abs p kvs" and t: "ts_ok t"
  shows "writes (pa_tagstruct_put_proplist t p) t (enc_proplist kvs)"
proof -
  have "writes (bindR (write_u8 t PA_TAG_PROPLIST) (\<lambda>t. bindR (put_properties t p (map fst kvs)) (\<lambda>t. pa_tagstruct_puts t None))) t
      ([PA_TAG_PROPLIST] @ concat (map enc_property kvs) @ enc_string None)"
    by (intro writes_intros put_properties_ok [OF p] t) simp_all
  then show ?thesis by (simp add: pa_tagstruct_put_proplist_def proplist_keys_ok [OF p] enc_proplist_def)
qed

section \<open>Decoding\<close>

text \<open>\<open>decodes g bs v\<close>: where the unread data begins with \<open>bs\<close>, the reader \<open>g\<close> returns \<open>v\<close> and moves
  past these bytes.\<close>

definition advance :: "pa_tagstruct \<Rightarrow> nat \<Rightarrow> pa_tagstruct" where
  "advance t n = t\<lparr>ts_rindex := ts_rindex t + n\<rparr>"

definition ahead :: "pa_tagstruct \<Rightarrow> bytes \<Rightarrow> bool" where
  "ahead t bs \<longleftrightarrow> ts_rindex t \<le> length (ts_data t) \<and> drop (ts_rindex t) (ts_data t) = bs"

definition decodes :: "(pa_tagstruct \<Rightarrow> 'a option \<times> pa_tagstruct) \<Rightarrow> bytes \<Rightarrow> 'a \<Rightarrow> bool" where
  "decodes g bs v \<longleftrightarrow> (\<forall>t r. ahead t (bs @ r) \<longrightarrow> g t = (Some v, advance t (length bs)))"

named_theorems decodes_intros \<open>what the readers return\<close>

lemma advance_advance [simp]: "advance (advance t m) n = advance t (m + n)"
  by (simp add: advance_def)

lemma ahead_facts:
  assumes "ahead t (bs @ r)"
  shows "ts_rindex t + length bs \<le> length (ts_data t)" and "take (length bs) (drop (ts_rindex t) (ts_data t)) = bs"
    and "bs \<noteq> [] \<Longrightarrow> ts_data t ! ts_rindex t = hd bs" and "ahead (advance t (length bs)) r"
proof -
  have "length (drop (ts_rindex t) (ts_data t)) = length bs + length r" using assms by (simp only: ahead_def) simp
  moreover have "ts_rindex t \<le> length (ts_data t)" using assms by (simp add: ahead_def)
  ultimately show l: "ts_rindex t + length bs \<le> length (ts_data t)" by simp
  show "take (length bs) (drop (ts_rindex t) (ts_data t)) = bs" using assms by (simp add: ahead_def)
  have "drop (length bs) (drop (ts_rindex t) (ts_data t)) = r" using assms by (simp only: ahead_def) simp
  then show "ahead (advance t (length bs)) r" using l by (simp add: ahead_def advance_def add.commute)
  show "ts_data t ! ts_rindex t = hd bs" if "bs \<noteq> []"
  proof -
    have "0 < length bs" using that by simp
    then have "ts_rindex t < length (ts_data t)" using l by linarith
    then have "ts_data t ! ts_rindex t = hd (drop (ts_rindex t) (ts_data t))" by (simp add: hd_drop_conv_nth)
    then show ?thesis using assms that by (simp add: ahead_def)
  qed
qed

lemma decodes_then [decodes_intros]:
  assumes "decodes g bs v" and "decodes (f v) cs w"
  shows "decodes (\<lambda>t. then_read (g t) f) (bs @ cs) w"
  unfolding decodes_def
proof (intro allI impI)
  fix t r
  assume u: "ahead t ((bs @ cs) @ r)"
  have "ahead t (bs @ (cs @ r))" using u by simp
  then have g: "g t = (Some v, advance t (length bs))" using assms(1) unfolding decodes_def by blast
  have "ahead (advance t (length bs)) (cs @ r)" by (rule ahead_facts(4)) (use u in simp)
  then have "f v (advance t (length bs)) = (Some w, advance (advance t (length bs)) (length cs))"
    using assms(2) unfolding decodes_def by blast
  then show "then_read (g t) f = (Some w, advance t (length (bs @ cs)))" using g by (simp add: then_read_def)
qed

lemma decodes_return [decodes_intros]: "decodes (\<lambda>t. (Some v, t)) [] v"
  by (simp add: decodes_def advance_def)

lemma ntohl_htonl: "ntohl (htonl u) = u"
  by (simp add: htonl_def bit_blast_simps)

lemma htonl_nonempty: "htonl u \<noteq> []"
  by (simp add: htonl_def)

lemmas ahead_byte = ahead_facts(1,3) [of _ "[b]" for b, simplified]

lemma decodes_basic [decodes_intros]:
  "decodes (\<lambda>t. read_tag t ty) [ty] ()" "decodes read_u8 [u] u" "decodes read_u32 (htonl w) w"
  "length d = n \<Longrightarrow> decodes (\<lambda>t. read_arbitrary t n) d d"
  unfolding decodes_def
  by (auto simp: read_tag_def read_u8_def read_u32_def read_arbitrary_def advance_def htonl_nonempty ntohl_htonl
      dest: ahead_facts ahead_byte)

lemma be64_join: "push_bit 32 (ucast (ucast (drop_bit 32 u) :: u32)) OR ucast (ucast u :: u32) = u" for u :: u64
  by (simp add: bit_blast_simps)

lemma decodes_cong: "decodes g bs v \<Longrightarrow> bs = cs \<Longrightarrow> v = w \<Longrightarrow> decodes g cs w"
  by simp

lemma decodes_u64 [decodes_intros]: "decodes read_u64 (be64 u) u" "decodes read_s64 (be64 u) u"
proof -
  let ?g = "\<lambda>t. then_read (read_u32 t) (\<lambda>hi t. then_read (read_u32 t) (\<lambda>lo t. (Some (push_bit 32 (ucast hi) OR ucast lo :: u64), t)))"
  have "decodes ?g (be64 u) u"
    by (rule decodes_cong, (rule decodes_intros)+) (simp add: be64_def, rule be64_join)
  then show "decodes read_u64 (be64 u) u" "decodes read_s64 (be64 u) u" by (simp_all add: decodes_def read_u64_then)
qed

lemma decodes_map [decodes_intros]:
  "list_all (\<lambda>m. m < 256) ms \<Longrightarrow> length ms = n \<Longrightarrow> decodes (read_map n) (map ucast ms) ms"
proof (induction ms arbitrary: n)
  case Nil
  then show ?case using decodes_return by simp
next
  case (Cons m ms)
  obtain k where n: "n = Suc k" using Cons.prems(2) by (cases n) simp_all
  have "take_bit 8 m = m" using Cons.prems(1) word_less_exp_iff [of 8 m] by simp
  then have m: "ucast (ucast m :: u8) = m" by (simp add: bit_blast_simps)
  have IH: "decodes (read_map k) (map ucast ms) ms" using Cons n by simp
  have "decodes (\<lambda>t. then_read (read_u8 t) (\<lambda>tmp t. then_read (read_map k t) (\<lambda>ms t. (Some (ucast tmp # ms), t))))
      ([ucast m] @ map ucast ms @ []) (ucast (ucast m :: u8) # ms)"
    by (rule decodes_intros IH)+
  then show ?case by (simp add: n decodes_def m)
qed

lemma decodes_volumes [decodes_intros]: "length vs = n \<Longrightarrow> decodes (read_volumes n) (concat (map htonl vs)) vs"
proof (induction vs arbitrary: n)
  case Nil
  then show ?case using decodes_return by simp
next
  case (Cons v vs)
  obtain k where n: "n = Suc k" using Cons.prems by (cases n) simp_all
  have IH: "decodes (read_volumes k) (concat (map htonl vs)) vs" using Cons n by simp
  have "decodes (\<lambda>t. then_read (read_u32 t) (\<lambda>v t. then_read (read_volumes k t) (\<lambda>vs t. (Some (v # vs), t))))
      (htonl v @ concat (map htonl vs) @ []) (v # vs)"
    by (rule decodes_intros IH)+
  then show ?case by (simp add: n decodes_def)
qed

lemma decodes_gets [decodes_intros]: "list_all cstring (case s of None \<Rightarrow> [] | Some x \<Rightarrow> [x]) \<Longrightarrow> decodes pa_tagstruct_gets (enc_string s) s"
  unfolding decodes_def
proof (intro allI impI)
  fix t r
  assume c: "list_all cstring (case s of None \<Rightarrow> [] | Some x \<Rightarrow> [x])" and u: "ahead t (enc_string s @ r)"
  show "pa_tagstruct_gets t = (Some s, advance t (length (enc_string s)))"
  proof (cases s)
    case None
    then show ?thesis using u ahead_byte [of t PA_TAG_STRING_NULL r]
      by (simp add: pa_tagstruct_gets_def enc_string_def advance_def)
  next
    case (Some x)
    let ?t1 = "advance t 1"
    have u1: "ahead t ([PA_TAG_STRING] @ (x @ [0]) @ r)" using u Some by (simp add: enc_string_def)
    have tag: "read_tag t PA_TAG_STRING = (Some (), ?t1)"
      using decodes_basic(1) [of PA_TAG_STRING] u1 unfolding decodes_def by fastforce
    have u2: "ahead ?t1 ((x @ [0]) @ r)" using ahead_facts(4) [OF u1] by simp
    have d: "drop (ts_rindex ?t1) (ts_data ?t1) = x @ 0 # r" using u2 by (simp add: ahead_def)
    have tw: "takeWhile (\<lambda>b. b \<noteq> 0) (x @ 0 # r) = x"
      using c Some by (subst takeWhile_append2) (auto simp: cstring_def)
    have l: "ts_rindex ?t1 + 1 \<le> length (ts_data ?t1)" using ahead_facts(1) [OF u2] by simp
    have h: "ts_data t ! ts_rindex t = PA_TAG_STRING" "ts_rindex t + 1 \<le> length (ts_data t)" using ahead_byte [of t PA_TAG_STRING] u1 by simp_all
    show ?thesis unfolding pa_tagstruct_gets_def then_read_def tag using l h tw d Some
      by (simp add: Let_def enc_string_def) (simp add: advance_def)
  qed
qed

lemma decodes_u32_tag: "decodes pa_tagstruct_getu32 (PA_TAG_U32 # htonl u) u"
  unfolding pa_tagstruct_getu32_def by (rule decodes_cong, (rule decodes_intros)+) simp_all

lemma decodes_arbitrary_tag:
  assumes "length d = n" and "n < 2 ^ 32"
  shows "decodes (\<lambda>t. pa_tagstruct_get_arbitrary t n) (enc_arbitrary d) d"
proof -
  have n: "unat (of_nat n :: u32) = n" using assms(2) by simp
  have "decodes (\<lambda>t. if unat (of_nat n :: u32) \<noteq> n then (None, t) else read_arbitrary t n) d d"
    unfolding n using decodes_basic(4) [OF assms(1)] by simp
  from decodes_then [where f = "\<lambda>l t. if unat l \<noteq> n then (None, t) else read_arbitrary t n", OF decodes_basic(3) this]
  have "decodes (\<lambda>t. then_read (read_u32 t) (\<lambda>l t. if unat l \<noteq> n then (None, t) else read_arbitrary t n))
      (htonl (of_nat n) @ d) d" .
  from decodes_then [OF decodes_basic(1) this, of PA_TAG_ARBITRARY] show ?thesis
    unfolding pa_tagstruct_get_arbitrary_def enc_arbitrary_def by (simp add: assms(1))
qed

lemma decodesD: "decodes g bs v \<Longrightarrow> ahead t (bs @ r) \<Longrightarrow> g t = (Some v, advance t (length bs))"
  unfolding decodes_def by blast

lemma get_properties_decodes:
  "ahead t (concat (map enc_property rest) @ enc_string None @ r) \<Longrightarrow> pl_abs p kvs \<Longrightarrow>
     list_all (\<lambda>(k, v). pa_proplist_key_valid k \<and> cstring k \<and> length v \<le> 65536) rest \<Longrightarrow>
     distinct (map fst (kvs @ rest)) \<Longrightarrow> length kvs + length rest < 2 ^ 32 \<Longrightarrow>
     \<exists>p'. get_properties t (Some p) =
          Inr (Some (Some p'), advance t (length (concat (map enc_property rest) @ enc_string None))) \<and> pl_abs p' (kvs @ rest)"
proof (induction rest arbitrary: t p kvs)
  case Nil
  then have "pa_tagstruct_gets t = (Some None, advance t (length (enc_string None)))"
    by (intro decodesD [OF decodes_gets]) simp_all
  then show ?case using Nil.prems(2) by (subst get_properties.simps) simp
next
  case (Cons kv rest)
  obtain k v where kv: "kv = (k, v)" by (cases kv)
  have ok: "pa_proplist_key_valid k" "cstring k" "length v \<le> 65536" using Cons.prems(3) by (simp_all add: kv)
  let ?rest = "concat (map enc_property rest) @ enc_string None @ r"
  let ?u = "PA_TAG_U32 # htonl (of_nat (length v))"
  let ?n = "length (enc_property kv)"
  have u: "ahead t (enc_string (Some k) @ ?u @ enc_arbitrary v @ ?rest)"
    using Cons.prems(1) by (simp add: kv enc_property_def [of "(k, v)"])
  let ?t1 = "advance t (length (enc_string (Some k)))"
  let ?t2 = "advance ?t1 (length ?u)"
  let ?t3 = "advance ?t2 (length (enc_arbitrary v))"
  have t3: "?t3 = advance t ?n" by (simp add: kv enc_property_def add.assoc)
  have g: "pa_tagstruct_gets t = (Some (Some k), ?t1)" by (rule decodesD [OF decodes_gets u]) (simp add: ok)
  note u1 = ahead_facts(4) [OF u]
  have l: "pa_tagstruct_getu32 ?t1 = (Some (of_nat (length v)), ?t2)" by (rule decodesD [OF decodes_u32_tag u1])
  note u2 = ahead_facts(4) [OF u1]
  have un: "unat (of_nat (length v) :: u32) = length v" using ok(3) by simp
  have a: "pa_tagstruct_get_arbitrary ?t2 (length v) = (Some v, ?t3)"
    by (rule decodesD [OF decodes_arbitrary_tag u2]) (use ok(3) in simp_all)
  have max: "\<not> of_nat (length v) > MAX_TAG_SIZE" using ok(3) un by (simp add: word_less_nat_alt)
  have new: "k \<notin> fst ` set kvs" using Cons.prems(4) by (auto simp: kv)
  from property_assign_ok [OF Cons.prems(2) ok(1), of "length v" "v @ [0]"] Cons.prems(5) obtain p1 where
    p1: "property_assign p k (v @ [0]) (length v) = Inr p1" "pl_abs p1 (kvs @ [(k, v)])"
    using new by (auto simp: pl_set_def map_of_eq_None_iff)
  have set: "pa_proplist_set p k v (length v) = Inr (0, p1)" using p1(1) ok(1) by (simp add: pa_proplist_set_def load_def)
  have step: "get_properties t (Some p) = get_properties ?t3 (Some p1)"
    using g l a max set ok(1) un by (subst get_properties.simps) simp
  have "\<exists>p'. get_properties ?t3 (Some p1) =
      Inr (Some (Some p'), advance ?t3 (length (concat (map enc_property rest) @ enc_string None))) \<and> pl_abs p' ((kvs @ [(k, v)]) @ rest)"
    by (rule Cons.IH [OF ahead_facts(4) [OF u2] p1(2)]) (use Cons.prems(3-5) kv in auto)
  then show ?case unfolding step t3 by (simp add: kv add.assoc)
qed

lemma get_proplist_decodes:
  assumes "ahead t (enc_proplist kvs @ r)" and "pl_abs p []"
    and "list_all (\<lambda>(k, v). pa_proplist_key_valid k \<and> cstring k \<and> length v \<le> 65536) kvs"
    and "distinct (map fst kvs)" and "length kvs < 2 ^ 32"
  shows "\<exists>p'. pa_tagstruct_get_proplist t (Some p) = Inr (Some (Some p'), advance t (length (enc_proplist kvs))) \<and> pl_abs p' kvs"
proof -
  have u: "ahead t ([PA_TAG_PROPLIST] @ concat (map enc_property kvs) @ enc_string None @ r)"
    using assms(1) by (simp add: enc_proplist_def)
  have tag: "read_tag t PA_TAG_PROPLIST = (Some (), advance t (length [PA_TAG_PROPLIST]))" by (rule decodesD [OF decodes_basic(1) u])
  from get_properties_decodes [OF ahead_facts(4) [OF u] assms(2,3)] assms(4,5) show ?thesis
    by (auto simp: pa_tagstruct_get_proplist_def tag enc_proplist_def)
qed

section \<open>The round trip\<close>

text \<open>Arguments that the format can carry, the requests that ask for them, and when what was read
  has the value of what was written: of an array of bytes the first \<^verbatim>\<open>length\<close>, of a map or
  a volume the channels in use, of a property list the properties in their order.\<close>

definition arg_ok :: "ts_arg \<Rightarrow> bool" where
  "arg_ok a =
     (case a of
        AString s \<Rightarrow> list_all cstring (case s of None \<Rightarrow> [] | Some x \<Rightarrow> [x])
      | ASampleSpec ss \<Rightarrow> ss_format ss < 256
      | AArbitrary p n \<Rightarrow> n \<le> length p \<and> n < 2 ^ 32
      | ATimeval tv \<Rightarrow> tv_sec tv < 2 ^ 32 \<and> tv_usec tv < 2 ^ 32
      | AChannelMap cm \<Rightarrow> cm_channels cm \<le> PA_CHANNELS_MAX \<and> length (cm_map cm) = 32 \<and>
          list_all (\<lambda>m. m < 256) (take (unat (cm_channels cm)) (cm_map cm))
      | ACvolume cv \<Rightarrow> cv_channels cv \<le> PA_CHANNELS_MAX \<and> length (cv_values cv) = 32
      | AProplist p \<Rightarrow> \<exists>kvs. pl_abs p kvs \<and> list_all (\<lambda>(k, v). cstring k \<and> length v \<le> 65536) kvs
      | AOther \<Rightarrow> False
      | _ \<Rightarrow> True)"

definition asks :: "ts_req \<Rightarrow> ts_arg \<Rightarrow> bool" where
  "asks q a =
     (case a of
        AString _ \<Rightarrow> q = QString
      | AU32 _ \<Rightarrow> q = QU32
      | AU8 _ \<Rightarrow> q = QU8
      | AU64 _ \<Rightarrow> q = QU64
      | ASampleSpec _ \<Rightarrow> q = QSampleSpec
      | AArbitrary _ n \<Rightarrow> q = QArbitrary n
      | ABoolean _ \<Rightarrow> q = QBoolean
      | ATimeval _ \<Rightarrow> q = QTimeval
      | AUsec _ \<Rightarrow> q = QUsec
      | AChannelMap _ \<Rightarrow> \<exists>cm. q = QChannelMap cm
      | ACvolume _ \<Rightarrow> \<exists>cv. q = QCvolume cv
      | AVolume _ \<Rightarrow> q = QVolume
      | AProplist _ \<Rightarrow> q = QProplist pa_proplist_new
      | AOther \<Rightarrow> False)"

definition same_value :: "ts_arg \<Rightarrow> ts_arg \<Rightarrow> bool" where
  "same_value a b =
     (case a of
        AArbitrary p n \<Rightarrow> b = AArbitrary (take n p) n
      | AChannelMap cm \<Rightarrow> (case b of AChannelMap cm' \<Rightarrow> cm_channels cm' = cm_channels cm \<and>
          take (unat (cm_channels cm)) (cm_map cm') = take (unat (cm_channels cm)) (cm_map cm) | _ \<Rightarrow> False)
      | ACvolume cv \<Rightarrow> (case b of ACvolume cv' \<Rightarrow> cv_channels cv' = cv_channels cv \<and>
          take (unat (cv_channels cv)) (cv_values cv') = take (unat (cv_channels cv)) (cv_values cv) | _ \<Rightarrow> False)
      | AProplist p \<Rightarrow> (case b of AProplist p' \<Rightarrow> \<exists>kvs. pl_abs p kvs \<and> pl_abs p' kvs | _ \<Rightarrow> False)
      | _ \<Rightarrow> b = a)"

definition carries :: "ts_arg \<Rightarrow> bytes \<Rightarrow> bool" where
  "carries a bs \<longleftrightarrow> (\<forall>t. ts_ok t \<longrightarrow> writes (put_arg t a) t bs) \<and>
     (\<forall>q t r. asks q a \<longrightarrow> ahead t (bs @ r) \<longrightarrow>
        (\<exists>b. get_arg t q = Inr (Some b, advance t (length bs)) \<and> same_value a b))"

lemmas carries_defs = put_arg_def get_arg_def asks_def same_value_def

lemma carries_plain:
  assumes "\<And>t. ts_ok t \<Longrightarrow> writes (put_arg t a) t bs" and "decodes g bs v"
    and "\<And>q t. asks q a \<Longrightarrow> get_arg t q = got c (g t)" and "same_value a (c v)"
  shows "carries a bs"
  unfolding carries_def
proof (intro conjI allI impI)
  fix q t r
  assume "asks q a" and u: "ahead t (bs @ r)"
  then show "\<exists>b. get_arg t q = Inr (Some b, advance t (length bs)) \<and> same_value a b"
    using decodesD [OF assms(2) u] assms(3,4) by (simp add: got_def)
qed (use assms(1) in simp)

lemma decodes_tagged:
  "decodes g bs v \<Longrightarrow> decodes (\<lambda>t. then_read (read_tag t ty) (\<lambda>_. g)) (ty # bs) v"
  using decodes_then [OF decodes_basic(1), of "\<lambda>_. g" bs v ty] by simp

lemma writes_tagged:
  assumes "ts_ok t" and "\<And>t. ts_ok t \<Longrightarrow> writes (f t) t bs"
  shows "writes (bindR (write_u8 t ty) f) t (ty # bs)"
  using writes_bind [OF write_u8_ok [OF assms(1)] assms(2), of ty] by simp

lemma carries_scalars:
  "list_all cstring (case s of None \<Rightarrow> [] | Some x \<Rightarrow> [x]) \<Longrightarrow> carries (AString s) (enc_string s)"
  "carries (AU32 i) (PA_TAG_U32 # htonl i)" "carries (AU8 c) [PA_TAG_U8, c]" "carries (AU64 u) (PA_TAG_U64 # be64 u)"
  "carries (AUsec u) (PA_TAG_USEC # be64 u)" "carries (AVolume i) (PA_TAG_VOLUME # htonl i)"
proof -
  show "carries (AString s) (enc_string s)" if "list_all cstring (case s of None \<Rightarrow> [] | Some x \<Rightarrow> [x])"
    by (rule carries_plain [OF _ decodes_gets [OF that]]) (auto simp: carries_defs intro: puts_ok)
  show "carries (AU32 i) (PA_TAG_U32 # htonl i)"
    by (rule carries_plain [OF _ decodes_tagged [OF decodes_basic(3)]])
      (auto simp: carries_defs pa_tagstruct_putu32_def pa_tagstruct_getu32_def intro: writes_tagged write_u32_ok)
  show "carries (AU8 c) [PA_TAG_U8, c]"
    by (rule carries_plain [OF _ decodes_tagged [OF decodes_basic(2)]])
      (auto simp: carries_defs pa_tagstruct_putu8_def pa_tagstruct_getu8_def intro: writes_tagged write_u8_ok)
  show "carries (AU64 u) (PA_TAG_U64 # be64 u)"
    by (rule carries_plain [OF _ decodes_tagged [OF decodes_u64(1)]])
      (auto simp: carries_defs pa_tagstruct_putu64_def pa_tagstruct_getu64_def intro: writes_tagged write_u64_ok)
  show "carries (AUsec u) (PA_TAG_USEC # be64 u)"
    by (rule carries_plain [OF _ decodes_tagged [OF decodes_u64(1)]])
      (auto simp: carries_defs pa_tagstruct_put_usec_def pa_tagstruct_get_usec_def intro: writes_tagged write_u64_ok)
  show "carries (AVolume i) (PA_TAG_VOLUME # htonl i)"
    by (rule carries_plain [OF _ decodes_tagged [OF decodes_basic(3)]])
      (auto simp: carries_defs pa_tagstruct_put_volume_def pa_tagstruct_get_volume_def intro: writes_tagged write_u32_ok)
qed

lemma carries_boolean: "carries (ABoolean b) [if b then PA_TAG_BOOLEAN_TRUE else PA_TAG_BOOLEAN_FALSE]"
proof (rule carries_plain [where g = pa_tagstruct_get_boolean and v = b and c = ABoolean])
  show "decodes pa_tagstruct_get_boolean [if b then PA_TAG_BOOLEAN_TRUE else PA_TAG_BOOLEAN_FALSE] b"
    unfolding decodes_def by (auto simp: pa_tagstruct_get_boolean_def advance_def dest: ahead_byte)
qed (auto simp: carries_defs pa_tagstruct_put_boolean_def intro: write_u8_ok)

lemma carries_arbitrary: "n \<le> length p \<Longrightarrow> n < 2 ^ 32 \<Longrightarrow> carries (AArbitrary p n) (enc_arbitrary (take n p))"
  by (rule carries_plain [OF _ decodes_arbitrary_tag]) (auto simp: carries_defs intro: put_arbitrary_ok)

lemma carries_sample_spec:
  assumes "ss_format ss < 256"
  shows "carries (ASampleSpec ss) (PA_TAG_SAMPLE_SPEC # ucast (ss_format ss) # ss_channels ss # htonl (ss_rate ss))"
proof (rule carries_plain [where g = pa_tagstruct_get_sample_spec and v = ss and c = ASampleSpec])
  have f: "ucast (ucast (ss_format ss) :: u8) = ss_format ss"
    using assms word_less_exp_iff [of 8 "ss_format ss"] by (simp add: bit_blast_simps)
  show "decodes pa_tagstruct_get_sample_spec
      (PA_TAG_SAMPLE_SPEC # ucast (ss_format ss) # ss_channels ss # htonl (ss_rate ss)) ss"
    unfolding pa_tagstruct_get_sample_spec_def
    by (rule decodes_cong, (rule decodes_intros)+) (simp, unfold f, simp)
  show "writes (put_arg t (ASampleSpec ss)) t
      (PA_TAG_SAMPLE_SPEC # ucast (ss_format ss) # ss_channels ss # htonl (ss_rate ss))" if "ts_ok t" for t
    using that by (auto simp: carries_defs pa_tagstruct_put_sample_spec_def intro!: writes_tagged write_u32_ok)
qed (simp_all add: carries_defs)

lemma carries_timeval:
  assumes "tv_sec tv < 2 ^ 32" "tv_usec tv < 2 ^ 32"
  shows "carries (ATimeval tv) (PA_TAG_TIMEVAL # htonl (ucast (tv_sec tv)) @ htonl (ucast (tv_usec tv)))"
proof (rule carries_plain [where g = pa_tagstruct_get_timeval and v = tv and c = ATimeval])
  have f: "ucast (ucast (tv_sec tv) :: u32) = tv_sec tv" "ucast (ucast (tv_usec tv) :: u32) = tv_usec tv"
    using assms word_less_exp_iff [of 32 "tv_sec tv"] word_less_exp_iff [of 32 "tv_usec tv"]
    by (simp_all add: bit_blast_simps)
  show "decodes pa_tagstruct_get_timeval (PA_TAG_TIMEVAL # htonl (ucast (tv_sec tv)) @ htonl (ucast (tv_usec tv))) tv"
    unfolding pa_tagstruct_get_timeval_def
    by (rule decodes_cong, (rule decodes_intros)+) (simp, unfold f, simp)
  show "writes (put_arg t (ATimeval tv)) t (PA_TAG_TIMEVAL # htonl (ucast (tv_sec tv)) @ htonl (ucast (tv_usec tv)))"
    if "ts_ok t" for t
    using that by (auto simp: carries_defs pa_tagstruct_put_timeval_def intro!: writes_tagged writes_intros)
qed (simp_all add: carries_defs)

text \<open>A channel map and a volume are a counted array each.\<close>

lemma decodes_counted:
  assumes "n \<le> PA_CHANNELS_MAX" and "decodes (rd (unat n)) bs ms"
  shows "decodes (\<lambda>t. then_read (read_tag t ty) (\<lambda>_ t. then_read (read_u8 t) (\<lambda>channels t.
      if channels > PA_CHANNELS_MAX then (None, t)
      else then_read (rd (unat channels) t) (\<lambda>ms t. (Some (c channels ms), t))))) (ty # n # bs) (c n ms)"
proof -
  have "decodes (\<lambda>t. then_read (rd (unat n) t) (\<lambda>ms t. (Some (c n ms), t))) (bs @ []) (c n ms)"
    by (rule decodes_then [OF assms(2) decodes_return])
  then have "decodes (\<lambda>t. if n > PA_CHANNELS_MAX then (None, t)
      else then_read (rd (unat n) t) (\<lambda>ms t. (Some (c n ms), t))) bs (c n ms)"
    using assms(1) by (simp add: linorder_not_less [symmetric])
  from decodes_tagged [OF decodes_then [OF decodes_basic(2), where f = "\<lambda>channels t.
      if channels > PA_CHANNELS_MAX then (None, t)
      else then_read (rd (unat channels) t) (\<lambda>ms t. (Some (c channels ms), t))", OF this]]
  show ?thesis by simp
qed

lemma carries_channel_map:
  assumes "cm_channels cm \<le> PA_CHANNELS_MAX" "length (cm_map cm) = 32"
    "list_all (\<lambda>m. m < 256) (take (unat (cm_channels cm)) (cm_map cm))"
  shows "carries (AChannelMap cm)
    (PA_TAG_CHANNEL_MAP # cm_channels cm # map ucast (take (unat (cm_channels cm)) (cm_map cm)))"
    (is "carries _ ?bs")
  unfolding carries_def
proof (intro conjI allI impI)
  let ?n = "unat (cm_channels cm)"
  have n: "?n \<le> 32" using assms(1) by (simp add: word_le_nat_alt)
  show "writes (put_arg t (AChannelMap cm)) t ?bs" if "ts_ok t" for t
    using that n assms(2)
    by (auto simp: carries_defs pa_tagstruct_put_channel_map_def load_def intro!: writes_tagged writes_intros)
  fix q t r
  assume "asks q (AChannelMap cm)" and u: "ahead t (?bs @ r)"
  then obtain cm' where q: "q = QChannelMap cm'" by (auto simp: asks_def)
  have "decodes (\<lambda>t. pa_tagstruct_get_channel_map t cm') ?bs
      \<lparr>cm_channels = cm_channels cm, cm_map = take ?n (cm_map cm) @ drop ?n (cm_map cm')\<rparr>"
    unfolding pa_tagstruct_get_channel_map_def
    by (rule decodes_counted [OF assms(1) decodes_map [OF assms(3)]]) (use n assms(2) in simp)
  from decodesD [OF this u] show "\<exists>b. get_arg t q = Inr (Some b, advance t (length ?bs)) \<and> same_value (AChannelMap cm) b"
    using n assms(2) by (simp add: q get_arg_def got_def same_value_def)
qed

lemma carries_cvolume:
  assumes "cv_channels cv \<le> PA_CHANNELS_MAX" "length (cv_values cv) = 32"
  shows "carries (ACvolume cv)
    (PA_TAG_CVOLUME # cv_channels cv # concat (map htonl (take (unat (cv_channels cv)) (cv_values cv))))"
    (is "carries _ ?bs")
  unfolding carries_def
proof (intro conjI allI impI)
  let ?n = "unat (cv_channels cv)"
  have n: "?n \<le> 32" using assms(1) by (simp add: word_le_nat_alt)
  show "writes (put_arg t (ACvolume cv)) t ?bs" if "ts_ok t" for t
    using that n assms(2)
    by (auto simp: carries_defs pa_tagstruct_put_cvolume_def load_def intro!: writes_tagged writes_intros)
  fix q t r
  assume "asks q (ACvolume cv)" and u: "ahead t (?bs @ r)"
  then obtain cv' where q: "q = QCvolume cv'" by (auto simp: asks_def)
  have "decodes (\<lambda>t. pa_tagstruct_get_cvolume t cv') ?bs
      \<lparr>cv_channels = cv_channels cv, cv_values = take ?n (cv_values cv) @ drop ?n (cv_values cv')\<rparr>"
    unfolding pa_tagstruct_get_cvolume_def
    by (rule decodes_counted [OF assms(1) decodes_volumes]) (use n assms(2) in simp)
  from decodesD [OF this u] show "\<exists>b. get_arg t q = Inr (Some b, advance t (length ?bs)) \<and> same_value (ACvolume cv) b"
    using n assms(2) by (simp add: q get_arg_def got_def same_value_def)
qed

lemma carries_proplist:
  assumes "pl_abs p kvs" "list_all (\<lambda>(k, v). cstring k \<and> length v \<le> 65536) kvs"
  shows "carries (AProplist p) (enc_proplist kvs)"
  unfolding carries_def
proof (intro conjI allI impI)
  show "writes (put_arg t (AProplist p)) t (enc_proplist kvs)" if "ts_ok t" for t
    using put_proplist_ok [OF assms(1) that] by (simp add: put_arg_def)
  fix q t r
  assume q: "asks q (AProplist p)" and u: "ahead t (enc_proplist kvs @ r)"
  have "list_all (\<lambda>(k, v). pa_proplist_key_valid k \<and> cstring k \<and> length v \<le> 65536) kvs"
    using pl_abs_facts(2) [OF assms(1)] assms(2) by (auto simp: list_all_iff)
  from get_proplist_decodes [OF u proplist_new_ok this] pl_abs_facts(1,3) [OF assms(1)] obtain p' where
    "pa_tagstruct_get_proplist t (Some pa_proplist_new) = Inr (Some (Some p'), advance t (length (enc_proplist kvs)))"
    "pl_abs p' kvs" by blast
  then show "\<exists>b. get_arg t q = Inr (Some b, advance t (length (enc_proplist kvs))) \<and> same_value (AProplist p) b"
    using q assms(1) by (auto simp: carries_defs)
qed

lemma carriedI: "carries a bs \<Longrightarrow> bs \<noteq> [] \<Longrightarrow> \<exists>bs. bs \<noteq> [] \<and> carries a bs"
  by blast

lemmas carried = carriedI [OF carries_sample_spec] carriedI [OF carries_timeval [simplified]] carriedI [OF carries_channel_map]
  carriedI [OF carries_cvolume] carriedI [OF carries_arbitrary [simplified]] carriedI [OF carries_proplist] carriedI [OF carries_boolean]
  carriedI [OF carries_scalars(1)] carriedI [OF carries_scalars(2)] carriedI [OF carries_scalars(3)]
  carriedI [OF carries_scalars(4)] carriedI [OF carries_scalars(5)] carriedI [OF carries_scalars(6)]

lemma arg_carried: "arg_ok a \<Longrightarrow> \<exists>bs. bs \<noteq> [] \<and> carries a bs"
  by (cases a)
    (auto simp: arg_ok_def enc_string_def enc_arbitrary_def enc_proplist_def split: option.splits intro!: carried)

lemma put_carried:
  "list_all arg_ok args \<Longrightarrow> ts_ok t \<Longrightarrow>
     \<exists>bss. list_all2 carries args bss \<and> list_all (\<lambda>bs. bs \<noteq> []) bss \<and> writes (pa_tagstruct_put t args) t (concat bss)"
proof (induction args arbitrary: t)
  case Nil
  then show ?case by (simp add: writes_def)
next
  case (Cons a args)
  from Cons.prems(1) obtain bs where bs: "bs \<noteq> []" "carries a bs" using arg_carried [of a] by auto
  then have "writes (put_arg t a) t bs" using Cons.prems(2) by (simp add: carries_def)
  then obtain t1 where t1: "put_arg t a = Inr t1" "ts_ok t1" "ts_data t1 = ts_data t @ bs" by (auto simp: writes_def)
  from Cons.IH [of t1] Cons.prems(1) t1(2) obtain bss where
    "list_all2 carries args bss" "list_all (\<lambda>bs. bs \<noteq> []) bss" "writes (pa_tagstruct_put t1 args) t1 (concat bss)" by auto
  then show ?case using bs t1 by (intro exI [of _ "bs # bss"]) (auto simp: writes_def)
qed

lemma get_carried:
  "list_all2 carries args bss \<Longrightarrow> list_all2 asks qs args \<Longrightarrow> ahead t (concat bss @ r) \<Longrightarrow>
     \<exists>vs. pa_tagstruct_get t qs = Inr (Some vs, advance t (length (concat bss))) \<and> list_all2 same_value args vs"
proof (induction args bss arbitrary: qs t rule: list_all2_induct)
  case Nil
  then show ?case by (simp add: advance_def)
next
  case (Cons a args bs bss)
  from Cons.prems(1) obtain q qs' where qs: "qs = q # qs'" "asks q a" "list_all2 asks qs' args"
    by (auto simp: list_all2_Cons2)
  have u: "ahead t (bs @ concat bss @ r)" using Cons.prems(2) by simp
  from Cons.hyps(1) qs(2) u obtain b where b: "get_arg t q = Inr (Some b, advance t (length bs))" "same_value a b"
    unfolding carries_def by blast
  from Cons.IH [OF qs(3) ahead_facts(4) [OF u]] obtain vs where
    "pa_tagstruct_get (advance t (length bs)) qs' = Inr (Some vs, advance t (length bs + length (concat bss)))"
    "list_all2 same_value args vs" by auto
  then show ?case using b by (intro exI [of _ "b # vs"]) (simp add: qs(1))
qed

text \<open>C39. What \<^verbatim>\<open>pa_tagstruct_put\<close> writes into a new structure, whatever the sequence of values,
  \<^verbatim>\<open>pa_tagstruct_get\<close> reads back from the bytes with the same sequence of tags: no assertion
  fails, every value is the one that was written, and at the end the structure is used up.\<close>

theorem tagstruct_roundtrip:
  assumes "args \<noteq> []" and "list_all arg_ok args" and "list_all2 asks qs args"
  shows "\<exists>t u vs u'. pa_tagstruct_put pa_tagstruct_new args = Inr t \<and>
     pa_tagstruct_new_fixed (pa_tagstruct_data t) = Inr u \<and>
     pa_tagstruct_get u qs = Inr (Some vs, u') \<and> list_all2 same_value args vs \<and> pa_tagstruct_eof u'"
proof -
  have new: "ts_ok pa_tagstruct_new" "ts_data pa_tagstruct_new = []" by (simp_all add: ts_ok_def pa_tagstruct_new_def)
  from put_carried [OF assms(2) new(1)] obtain bss t where
    bss: "list_all2 carries args bss" "list_all (\<lambda>bs. bs \<noteq> []) bss"
      and t: "pa_tagstruct_put pa_tagstruct_new args = Inr t" "ts_data t = concat bss" by (auto simp: writes_def new(2))
  have "concat bss \<noteq> []" using bss assms(1) by (cases bss) auto
  then have u: "pa_tagstruct_new_fixed (pa_tagstruct_data t) =
      Inr \<lparr>ts_data = concat bss, ts_allocated = length (concat bss), ts_rindex = 0, ts_type = PA_TAGSTRUCT_FIXED\<rparr>"
    (is "_ = Inr ?u") by (simp add: pa_tagstruct_new_fixed_def pa_tagstruct_data_def t(2))
  have "ahead ?u (concat bss @ [])" by (simp add: ahead_def)
  from get_carried [OF bss(1) assms(3) this] show ?thesis
    using t(1) u by (auto simp: pa_tagstruct_eof_def advance_def)
qed

theorem tagstruct_roundtrip_witness:
  "\<exists>p t u vs u'. property_assign pa_proplist_new [97] [1, 2, 3] 2 = Inr p \<and>
     pa_tagstruct_put pa_tagstruct_new [AString (Some [104, 105]), AU32 7, AArbitrary [1, 2, 3] 2,
       AChannelMap \<lparr>cm_channels = 2, cm_map = 1 # 2 # replicate 30 0\<rparr>, AProplist p] = Inr t \<and>
     pa_tagstruct_new_fixed (pa_tagstruct_data t) = Inr u \<and>
     pa_tagstruct_get u [QString, QU32, QArbitrary 2, QChannelMap \<lparr>cm_channels = 0, cm_map = replicate 32 0\<rparr>,
       QProplist pa_proplist_new] = Inr (Some vs, u') \<and> pa_tagstruct_eof u'"
proof -
  let ?cm = "\<lparr>cm_channels = 2, cm_map = 1 # 2 # replicate 30 0\<rparr> :: pa_channel_map"
  from property_assign_ok [OF proplist_new_ok, of "[97]" 2 "[1, 2, 3]"] obtain p where
    p: "property_assign pa_proplist_new [97] [1, 2, 3] 2 = Inr p" "pl_abs p [([97], [1, 2])]"
    by (auto simp: pa_proplist_key_valid_def pl_set_def)
  have cm: "arg_ok (AChannelMap ?cm)" by (simp add: arg_ok_def)
  have pl: "arg_ok (AProplist p)" using p(2) by (auto simp: arg_ok_def cstring_def intro!: exI [of _ "[([97], [1, 2])]"])
  from tagstruct_roundtrip [of "[AString (Some [104, 105]), AU32 7, AArbitrary [1, 2, 3] 2, AChannelMap ?cm, AProplist p]"
      "[QString, QU32, QArbitrary 2, QChannelMap \<lparr>cm_channels = 0, cm_map = replicate 32 0\<rparr>, QProplist pa_proplist_new]"]
  show ?thesis using p(1) cm pl by (auto simp: arg_ok_def cstring_def asks_def)
qed

end
