(* ===== verification/PaMemchunk.thy ===== *)
theory PaMemchunk
  imports Prelude
begin

text \<open>
  Memory blocks, memory chunks and the alignment of chunks to frames in PulseAudio
  (\<^verbatim>\<open>pulsecore/memblock.c\<close>, \<^verbatim>\<open>memchunk.c\<close>, \<^verbatim>\<open>mcalign.c\<close>). Of a memory block the model has the
  data, the reference counter and the read-only flag; pools, shared memory and the ways blocks are
  allocated are left out. What a new block holds is given by \<open>mem_junk\<close>. Sizes are natural numbers.
\<close>

section \<open>Memory blocks\<close>

record pa_mem =
  mem_data :: "nat \<Rightarrow> bytes"
  mem_refs :: "nat \<Rightarrow> nat"
  mem_ro :: "nat \<Rightarrow> bool"
  mem_next :: nat
  mem_junk :: "nat \<Rightarrow> u8"

definition pa_memblock_new :: "pa_mem \<Rightarrow> nat \<Rightarrow> (nat \<times> pa_mem) res" where
  "pa_memblock_new m len =
     bindR (assertR (0 < len)) (\<lambda>_.
     let b = mem_next m
     in Inr (b, m\<lparr>mem_data := (mem_data m)(b := map (mem_junk m) [0..<len]), mem_refs := (mem_refs m)(b := 1),
                  mem_ro := (mem_ro m)(b := False), mem_next := b + 1\<rparr>))"

definition pa_memblock_ref :: "pa_mem \<Rightarrow> nat \<Rightarrow> pa_mem res" where
  "pa_memblock_ref m b =
     bindR (assertR (0 < mem_refs m b)) (\<lambda>_. Inr (m\<lparr>mem_refs := (mem_refs m)(b := mem_refs m b + 1)\<rparr>))"

definition pa_memblock_unref :: "pa_mem \<Rightarrow> nat \<Rightarrow> pa_mem res" where
  "pa_memblock_unref m b =
     bindR (assertR (0 < mem_refs m b)) (\<lambda>_. Inr (m\<lparr>mem_refs := (mem_refs m)(b := mem_refs m b - 1)\<rparr>))"

definition pa_memblock_get_length :: "pa_mem \<Rightarrow> nat \<Rightarrow> nat res" where
  "pa_memblock_get_length m b = bindR (assertR (0 < mem_refs m b)) (\<lambda>_. Inr (length (mem_data m b)))"

definition pa_memblock_ref_is_one :: "pa_mem \<Rightarrow> nat \<Rightarrow> bool res" where
  "pa_memblock_ref_is_one m b = bindR (assertR (0 < mem_refs m b)) (\<lambda>_. Inr (mem_refs m b = 1))"

definition pa_memblock_is_read_only :: "pa_mem \<Rightarrow> nat \<Rightarrow> bool res" where
  "pa_memblock_is_read_only m b = bindR (assertR (0 < mem_refs m b)) (\<lambda>_. Inr (mem_ro m b \<and> mem_refs m b = 1))"

text \<open>A \<^verbatim>\<open>memcpy\<close> or \<^verbatim>\<open>memmove\<close> between two acquired blocks.\<close>

definition memblock_copy :: "pa_mem \<Rightarrow> nat \<Rightarrow> nat \<Rightarrow> nat \<Rightarrow> nat \<Rightarrow> nat \<Rightarrow> pa_mem res" where
  "memblock_copy m dst doff src soff len =
     bindR (assertR (0 < mem_refs m dst \<and> 0 < mem_refs m src)) (\<lambda>_.
     bindR (load (mem_data m src) soff len) (\<lambda>bs.
     bindR (store (mem_data m dst) doff bs) (\<lambda>d. Inr (m\<lparr>mem_data := (mem_data m)(dst := d)\<rparr>))))"

section \<open>Memory chunks\<close>

record pa_memchunk =
  mc_memblock :: "nat option"
  mc_index :: nat
  mc_length :: nat

definition pa_memchunk_reset :: pa_memchunk where
  "pa_memchunk_reset = \<lparr>mc_memblock = None, mc_index = 0, mc_length = 0\<rparr>"

definition pa_memchunk_isset :: "pa_memchunk \<Rightarrow> bool" where
  "pa_memchunk_isset c \<longleftrightarrow> mc_memblock c \<noteq> None \<or> mc_index c > 0 \<or> mc_length c > 0"

definition notnull :: "'a option \<Rightarrow> 'a res" where
  "notnull p = (case p of None \<Rightarrow> Inl AssertFail | Some x \<Rightarrow> Inr x)"

lemma notnull_simps [simp]: "notnull None = Inl AssertFail" "notnull (Some x) = Inr x"
  by (simp_all add: notnull_def)

definition pa_memchunk_make_writable :: "pa_mem \<Rightarrow> pa_memchunk \<Rightarrow> nat \<Rightarrow> (pa_mem \<times> pa_memchunk) res" where
  "pa_memchunk_make_writable m c mn =
     bindR (notnull (mc_memblock c)) (\<lambda>b.
     bindR (pa_memblock_ref_is_one m b) (\<lambda>one.
     bindR (pa_memblock_is_read_only m b) (\<lambda>ro.
     bindR (pa_memblock_get_length m b) (\<lambda>blen.
     if one \<and> \<not> ro \<and> blen \<ge> mc_index c + mn then Inr (m, c)
     else
       bindR (pa_memblock_new m (max (mc_length c) mn)) (\<lambda>(n, m).
       bindR (memblock_copy m n 0 b (mc_index c) (mc_length c)) (\<lambda>m.
       bindR (pa_memblock_unref m b) (\<lambda>m.
       Inr (m, c\<lparr>mc_memblock := Some n, mc_index := 0\<rparr>))))))))"

definition pa_memchunk_memcpy :: "pa_mem \<Rightarrow> pa_memchunk \<Rightarrow> pa_memchunk \<Rightarrow> pa_mem res" where
  "pa_memchunk_memcpy m dst src =
     bindR (assertR (mc_length dst = mc_length src)) (\<lambda>_.
     bindR (notnull (mc_memblock dst)) (\<lambda>d.
     bindR (notnull (mc_memblock src)) (\<lambda>s.
     memblock_copy m d (mc_index dst) s (mc_index src) (mc_length dst))))"

section \<open>Alignment\<close>

record pa_mcalign =
  ma_base :: nat
  ma_leftover :: pa_memchunk
  ma_current :: pa_memchunk

definition pa_mcalign_new :: "nat \<Rightarrow> pa_mcalign res" where
  "pa_mcalign_new base =
     bindR (assertR (base \<noteq> 0)) (\<lambda>_. Inr \<lparr>ma_base = base, ma_leftover = pa_memchunk_reset, ma_current = pa_memchunk_reset\<rparr>)"

definition unref_chunk :: "pa_mem \<Rightarrow> pa_memchunk \<Rightarrow> pa_mem res" where
  "unref_chunk m c = (case mc_memblock c of None \<Rightarrow> Inr m | Some b \<Rightarrow> pa_memblock_unref m b)"

definition pa_mcalign_free :: "pa_mem \<Rightarrow> pa_mcalign \<Rightarrow> pa_mem res" where
  "pa_mcalign_free m a = bindR (unref_chunk m (ma_leftover a)) (\<lambda>m. unref_chunk m (ma_current a))"

text \<open>Filling the leftover up to a frame when its block is not continued by the new chunk.\<close>

definition mcalign_copy :: "pa_mem \<Rightarrow> pa_mcalign \<Rightarrow> pa_memchunk \<Rightarrow> (pa_mem \<times> pa_mcalign) res" where
  "mcalign_copy m a c =
     bindR (assertR (mc_length (ma_leftover a) < ma_base a)) (\<lambda>_.
     let l = min (ma_base a - mc_length (ma_leftover a)) (mc_length c)
     in bindR (pa_memchunk_make_writable m (ma_leftover a) (ma_base a)) (\<lambda>(m, lo).
        bindR (notnull (mc_memblock lo)) (\<lambda>lb.
        bindR (notnull (mc_memblock c)) (\<lambda>cb.
        bindR (memblock_copy m lb (mc_index lo + mc_length lo) cb (mc_index c) l) (\<lambda>m.
        let lo = lo\<lparr>mc_length := mc_length lo + l\<rparr>
        in bindR (assertR (mc_length lo \<le> ma_base a)) (\<lambda>_.
           bindR (pa_memblock_get_length m lb) (\<lambda>blen.
           bindR (assertR (mc_length lo \<le> blen)) (\<lambda>_.
           let a = a\<lparr>ma_leftover := lo\<rparr>
           in if mc_length c > l
              then bindR (pa_memblock_ref m cb) (\<lambda>m.
                   Inr (m, a\<lparr>ma_current := c\<lparr>mc_index := mc_index c + l, mc_length := mc_length c - l\<rparr>\<rparr>))
              else Inr (m, a)))))))))"

definition pa_mcalign_push :: "pa_mem \<Rightarrow> pa_mcalign \<Rightarrow> pa_memchunk \<Rightarrow> (pa_mem \<times> pa_mcalign) res" where
  "pa_mcalign_push m a c =
     bindR (notnull (mc_memblock c)) (\<lambda>cb.
     bindR (assertR (mc_length c > 0)) (\<lambda>_.
     bindR (assertR (mc_memblock (ma_current a) = None)) (\<lambda>_.
     case mc_memblock (ma_leftover a) of
       Some lb \<Rightarrow>
         if lb = cb \<and> mc_index (ma_leftover a) + mc_length (ma_leftover a) = mc_index c
         then
           let lo = (ma_leftover a)\<lparr>mc_length := mc_length (ma_leftover a) + mc_length c\<rparr>
           in Inr (m, if mc_length lo \<ge> ma_base a then a\<lparr>ma_current := lo, ma_leftover := pa_memchunk_reset\<rparr> else a\<lparr>ma_leftover := lo\<rparr>)
         else mcalign_copy m a c
     | None \<Rightarrow>
         let a = (if mc_length c \<ge> ma_base a then a\<lparr>ma_current := c\<rparr> else a\<lparr>ma_leftover := c\<rparr>)
         in bindR (pa_memblock_ref m cb) (\<lambda>m. Inr (m, a)))))"

text \<open>\<open>None\<close> is the result -1.\<close>

definition pa_mcalign_pop :: "pa_mem \<Rightarrow> pa_mcalign \<Rightarrow> (pa_memchunk option \<times> pa_mem \<times> pa_mcalign) res" where
  "pa_mcalign_pop m a =
     (if mc_memblock (ma_leftover a) \<noteq> None
      then
        bindR (assertR (mc_length (ma_leftover a) > 0)) (\<lambda>_.
        bindR (assertR (mc_length (ma_leftover a) \<le> ma_base a)) (\<lambda>_.
        if mc_length (ma_leftover a) < ma_base a then Inr (None, m, a)
        else
          let c = ma_leftover a;
              a = a\<lparr>ma_leftover := pa_memchunk_reset\<rparr>;
              a = (if mc_memblock (ma_current a) \<noteq> None \<and> mc_length (ma_current a) < ma_base a
                   then a\<lparr>ma_leftover := ma_current a, ma_current := pa_memchunk_reset\<rparr> else a)
          in Inr (Some c, m, a)))
      else
        case mc_memblock (ma_current a) of
          None \<Rightarrow> Inr (None, m, a)
        | Some b \<Rightarrow>
            bindR (assertR (mc_length (ma_current a) \<ge> ma_base a)) (\<lambda>_.
            let l = mc_length (ma_current a) div ma_base a * ma_base a
            in bindR (assertR (l > 0)) (\<lambda>_.
               let c = (ma_current a)\<lparr>mc_length := l\<rparr>
               in bindR (pa_memblock_ref m b) (\<lambda>m.
                  bindR (assertR (l \<le> mc_length (ma_current a))) (\<lambda>_.
                  let rest = (ma_current a)\<lparr>mc_index := mc_index (ma_current a) + l, mc_length := mc_length (ma_current a) - l\<rparr>
                  in if mc_length rest = 0
                     then bindR (pa_memblock_unref m b) (\<lambda>m. Inr (Some c, m, a\<lparr>ma_current := pa_memchunk_reset\<rparr>))
                     else bindR (assertR (mc_length rest < ma_base a)) (\<lambda>_.
                          Inr (Some c, m, a\<lparr>ma_leftover := rest, ma_current := pa_memchunk_reset\<rparr>)))))))"

definition pa_mcalign_csize :: "pa_mcalign \<Rightarrow> nat \<Rightarrow> nat res" where
  "pa_mcalign_csize a l =
     bindR (assertR (l > 0)) (\<lambda>_.
     bindR (assertR (mc_memblock (ma_current a) = None)) (\<lambda>_.
     let l = (if mc_memblock (ma_leftover a) \<noteq> None then l + mc_length (ma_leftover a) else l)
     in Inr (l div ma_base a * ma_base a)))"

text \<open>The loop of \<^verbatim>\<open>pa_mcalign_flush\<close>: every block that is taken out is released.\<close>

fun pa_mcalign_flush :: "nat \<Rightarrow> pa_mem \<Rightarrow> pa_mcalign \<Rightarrow> (pa_mem \<times> pa_mcalign) res" where
  "pa_mcalign_flush fuel m a =
     bindR (pa_mcalign_pop m a) (\<lambda>(r, m, a).
     case r of None \<Rightarrow> Inr (m, a)
     | Some c \<Rightarrow>
         (case fuel of 0 \<Rightarrow> Inl Diverges
          | Suc fuel \<Rightarrow> bindR (unref_chunk m c) (\<lambda>m. pa_mcalign_flush fuel m a)))"

text \<open>Taking everything out, as a client does.\<close>

fun mcalign_pops :: "nat \<Rightarrow> pa_mem \<Rightarrow> pa_mcalign \<Rightarrow> (pa_memchunk list \<times> pa_mem \<times> pa_mcalign) res" where
  "mcalign_pops fuel m a =
     bindR (pa_mcalign_pop m a) (\<lambda>(r, m, a).
     case r of None \<Rightarrow> Inr ([], m, a)
     | Some c \<Rightarrow>
         (case fuel of 0 \<Rightarrow> Inl Diverges
          | Suc fuel \<Rightarrow> bindR (mcalign_pops fuel m a) (\<lambda>(cs, m, a). Inr (c # cs, m, a))))"

end
