(* ===== verification/PaMemblockq.thy ===== *)
theory PaMemblockq
  imports PaMemchunk
begin

text \<open>
  The queue of memory chunks that holds all audio data in PulseAudio (\<^verbatim>\<open>pulsecore/memblockq.c\<close>): chunks at
  positions on a time line, a read and a write position that both may be moved. The doubly linked
  list of items is the list of their addresses with a store for the items; the item before and the item after
  one are its neighbours in that list, so that \<^verbatim>\<open>prev\<close>, \<^verbatim>\<open>next\<close> and the two ends cannot disagree and the
  assertions of \<^verbatim>\<open>drop_block\<close> that they do not (\<^verbatim>\<open>bq->blocks == q\<close>, \<^verbatim>\<open>bq->blocks_tail == q\<close>) have nothing to test.
  Positions and counters, \<^verbatim>\<open>int64_t\<close> in the code, are integers, and the casts of sizes to \<^verbatim>\<open>int64_t\<close> keep the value: the definitions are
  of the code as long as no position, counter or size reaches \<open>2 ^ 63\<close>. Data alone takes centuries to get there at any sample
  rate, but a client may seek anywhere; \<open>pa_memblockq_seek\<close> therefore checks its results, and \<open>PaQueueRun\<close> checks every
  value of that type that an operation computes and proves which clients stay within it. Sizes are natural numbers; where the code
  adds to or subtracts from a size that the caller chose, the wrap-around is written out.
\<close>

section \<open>State\<close>

record list_item =
  li_index :: int
  li_chunk :: pa_memchunk

record pa_memblockq =
  bq_blocks :: "nat list"
  bq_item_at :: "nat \<Rightarrow> list_item"
  bq_next_item :: nat
  bq_current_read :: "nat option"
  bq_current_write :: "nat option"
  bq_n_blocks :: nat
  bq_maxlength :: nat
  bq_tlength :: nat
  bq_base :: nat
  bq_prebuf :: nat
  bq_minreq :: nat
  bq_maxrewind :: nat
  bq_read_index :: int
  bq_write_index :: int
  bq_in_prebuf :: bool
  bq_silence :: pa_memchunk
  bq_mcalign :: pa_mcalign
  bq_missing :: int
  bq_requested :: int

text \<open>Values of type \<^verbatim>\<open>int64_t\<close>; a computation whose results are not is a fault.\<close>

definition i64 :: "int \<Rightarrow> bool" where
  "i64 x \<longleftrightarrow> - (2 ^ 63) \<le> x \<and> x < 2 ^ 63"

definition fits_i64 :: "int list \<Rightarrow> unit res" where
  "fits_i64 xs = (if list_all i64 xs then Inr () else Inl Overflow)"

definition li_end :: "list_item \<Rightarrow> int" where
  "li_end it = li_index it + int (mc_length (li_chunk it))"

text \<open>The items before an item, the nearest first, and those after it.\<close>

definition before :: "nat list \<Rightarrow> nat \<Rightarrow> nat list" where
  "before xs q = rev (takeWhile (\<lambda>x. x \<noteq> q) xs)"

definition after :: "nat list \<Rightarrow> nat \<Rightarrow> nat list" where
  "after xs q = tl (dropWhile (\<lambda>x. x \<noteq> q) xs)"

definition first_of :: "nat list \<Rightarrow> nat option" where
  "first_of xs = (case xs of [] \<Rightarrow> None | x # _ \<Rightarrow> Some x)"

definition insert_after :: "nat list \<Rightarrow> nat \<Rightarrow> nat \<Rightarrow> nat list" where
  "insert_after xs q p = rev (before xs q) @ q # p # after xs q"

definition set_item :: "nat \<Rightarrow> list_item \<Rightarrow> pa_memblockq \<Rightarrow> pa_memblockq" where
  "set_item q it bq = bq\<lparr>bq_item_at := (bq_item_at bq)(q := it)\<rparr>"

section \<open>The current items\<close>

fun scan_left :: "pa_memblockq \<Rightarrow> int \<Rightarrow> nat \<Rightarrow> nat list \<Rightarrow> nat" where
  "scan_left bq i q [] = q"
| "scan_left bq i q (p # ps) = (if li_index (bq_item_at bq q) > i then scan_left bq i p ps else q)"

fun scan_right :: "pa_memblockq \<Rightarrow> int \<Rightarrow> nat list \<Rightarrow> nat option" where
  "scan_right bq i [] = None"
| "scan_right bq i (q # qs) = (if li_end (bq_item_at bq q) \<le> i then scan_right bq i qs else Some q)"

definition fix_current_read :: "pa_memblockq \<Rightarrow> pa_memblockq" where
  "fix_current_read bq =
     (case bq_blocks bq of [] \<Rightarrow> bq\<lparr>bq_current_read := None\<rparr>
      | b # _ \<Rightarrow>
          let q = (case bq_current_read bq of None \<Rightarrow> b | Some q \<Rightarrow> q);
              q = scan_left bq (bq_read_index bq) q (before (bq_blocks bq) q)
          in bq\<lparr>bq_current_read := scan_right bq (bq_read_index bq) (q # after (bq_blocks bq) q)\<rparr>)"

fun scan_right_end :: "pa_memblockq \<Rightarrow> int \<Rightarrow> nat \<Rightarrow> nat list \<Rightarrow> nat" where
  "scan_right_end bq i q [] = q"
| "scan_right_end bq i q (n # ns) = (if li_end (bq_item_at bq q) \<le> i then scan_right_end bq i n ns else q)"

fun scan_left_off :: "pa_memblockq \<Rightarrow> int \<Rightarrow> nat list \<Rightarrow> nat option" where
  "scan_left_off bq i [] = None"
| "scan_left_off bq i (q # qs) = (if li_index (bq_item_at bq q) > i then scan_left_off bq i qs else Some q)"

definition fix_current_write :: "pa_memblockq \<Rightarrow> pa_memblockq" where
  "fix_current_write bq =
     (if bq_blocks bq = [] then bq\<lparr>bq_current_write := None\<rparr>
      else
        let q = (case bq_current_write bq of None \<Rightarrow> last (bq_blocks bq) | Some q \<Rightarrow> q);
            q = scan_right_end bq (bq_write_index bq) q (after (bq_blocks bq) q)
        in bq\<lparr>bq_current_write := scan_left_off bq (bq_write_index bq) (q # before (bq_blocks bq) q)\<rparr>)"

section \<open>Dropping items\<close>

definition drop_block :: "pa_mem \<Rightarrow> pa_memblockq \<Rightarrow> nat \<Rightarrow> (pa_mem \<times> pa_memblockq) res" where
  "drop_block m bq q =
     bindR (assertR (bq_n_blocks bq \<ge> 1)) (\<lambda>_.
     let prv = first_of (before (bq_blocks bq) q);
         nxt = first_of (after (bq_blocks bq) q);
         bq = bq\<lparr>bq_blocks := rev (before (bq_blocks bq) q) @ after (bq_blocks bq) q\<rparr>;
         bq = (if bq_current_write bq = Some q then bq\<lparr>bq_current_write := prv\<rparr> else bq);
         bq = (if bq_current_read bq = Some q then bq\<lparr>bq_current_read := nxt\<rparr> else bq)
     in bindR (notnull (mc_memblock (li_chunk (bq_item_at bq q)))) (\<lambda>b.
        bindR (pa_memblock_unref m b) (\<lambda>m.
        Inr (m, bq\<lparr>bq_n_blocks := bq_n_blocks bq - 1\<rparr>))))"

text \<open>The loop removes items from the front, so it runs over the list it finds.\<close>

fun drop_front :: "int \<Rightarrow> nat list \<Rightarrow> pa_mem \<Rightarrow> pa_memblockq \<Rightarrow> (pa_mem \<times> pa_memblockq) res" where
  "drop_front boundary [] m bq = Inr (m, bq)"
| "drop_front boundary (q # qs) m bq =
     (if li_end (bq_item_at bq q) \<le> boundary
      then bindR (drop_block m bq q) (\<lambda>(m, bq). drop_front boundary qs m bq)
      else Inr (m, bq))"

definition drop_backlog :: "pa_mem \<Rightarrow> pa_memblockq \<Rightarrow> (pa_mem \<times> pa_memblockq) res" where
  "drop_backlog m bq = drop_front (bq_read_index bq - int (bq_maxrewind bq)) (bq_blocks bq) m bq"

fun drop_all :: "nat list \<Rightarrow> pa_mem \<Rightarrow> pa_memblockq \<Rightarrow> (pa_mem \<times> pa_memblockq) res" where
  "drop_all [] m bq = Inr (m, bq)"
| "drop_all (q # qs) m bq = bindR (drop_block m bq q) (\<lambda>(m, bq). drop_all qs m bq)"

definition pa_memblockq_silence :: "pa_mem \<Rightarrow> pa_memblockq \<Rightarrow> (pa_mem \<times> pa_memblockq) res" where
  "pa_memblockq_silence m bq =
     bindR (drop_all (bq_blocks bq) m bq) (\<lambda>(m, bq).
     bindR (assertR (bq_n_blocks bq = 0)) (\<lambda>_. Inr (m, bq)))"

section \<open>Pushing\<close>

definition blocks_end :: "pa_memblockq \<Rightarrow> int \<Rightarrow> int" where
  "blocks_end bq i = (if bq_blocks bq = [] then i else li_end (bq_item_at bq (last (bq_blocks bq))))"

definition can_push :: "pa_memblockq \<Rightarrow> nat \<Rightarrow> bool" where
  "can_push bq l =
     (let ri = bq_read_index bq; wi = bq_write_index bq; d = ri - wi
      in if ri > wi \<and> int l \<le> d then True
         else
           let l = (if ri > wi then l - nat d else l)
           in \<not> (wi + int l > blocks_end bq wi \<and> wi + int l - ri > int (bq_maxlength bq)))"

definition write_index_changed :: "pa_memblockq \<Rightarrow> int \<Rightarrow> bool \<Rightarrow> pa_memblockq" where
  "write_index_changed bq old_write_index account =
     (let delta = bq_write_index bq - old_write_index
      in if account then bq\<lparr>bq_requested := bq_requested bq - delta\<rparr> else bq\<lparr>bq_missing := bq_missing bq - delta\<rparr>)"

definition read_index_changed :: "pa_memblockq \<Rightarrow> int \<Rightarrow> pa_memblockq" where
  "read_index_changed bq old_read_index = bq\<lparr>bq_missing := bq_missing bq + (bq_read_index bq - old_read_index)\<rparr>"

text \<open>From the current item to the right of where the chunk will end.\<close>

fun push_advance :: "pa_memblockq \<Rightarrow> int \<Rightarrow> nat \<Rightarrow> nat list \<Rightarrow> nat" where
  "push_advance bq e q [] = q"
| "push_advance bq e q (n # ns) = (if e > li_index (bq_item_at bq q) then push_advance bq e n ns else q)"

text \<open>The end of an item that is to be overwritten in the middle or at its start becomes an item of its own.
  The position of the chunk in its memory block is not moved.\<close>

definition push_split :: "pa_mem \<Rightarrow> pa_memblockq \<Rightarrow> int \<Rightarrow> nat \<Rightarrow> (pa_mem \<times> pa_memblockq) res" where
  "push_split m bq e q =
     (let it = bq_item_at bq q; p = bq_next_item bq; d = nat (e - li_index it)
      in bindR (notnull (mc_memblock (li_chunk it))) (\<lambda>b.
         bindR (pa_memblock_ref m b) (\<lambda>m.
         bindR (assertR (d > 0)) (\<lambda>_.
         let new = \<lparr>li_index = li_index it + int d, li_chunk = (li_chunk it)\<lparr>mc_length := mc_length (li_chunk it) - d\<rparr>\<rparr>
         in Inr (m, (set_item p new bq)\<lparr>bq_next_item := p + 1, bq_blocks := insert_after (bq_blocks bq) q p,
                                      bq_n_blocks := bq_n_blocks bq + 1\<rparr>)))))"

text \<open>The item the write position is in is cut off there.\<close>

definition push_truncate :: "pa_mem \<Rightarrow> pa_memblockq \<Rightarrow> int \<Rightarrow> nat \<Rightarrow> nat list \<Rightarrow> (nat option \<times> pa_mem \<times> pa_memblockq) res" where
  "push_truncate m bq e q qs =
     bindR (if e < li_end (bq_item_at bq q) then push_split m bq e q else Inr (m, bq)) (\<lambda>(m, bq).
     let it = bq_item_at bq q;
         l = nat (bq_write_index bq - li_index it);
         bq = set_item q (it\<lparr>li_chunk := (li_chunk it)\<lparr>mc_length := l\<rparr>\<rparr>) bq
     in if l = 0 then bindR (drop_block m bq q) (\<lambda>(m, bq). Inr (first_of qs, m, bq))
        else Inr (Some q, m, bq))"

text \<open>From back to front: \<open>q\<close> and the items before it. The result is the item behind which the chunk goes.\<close>

fun push_loop :: "int \<Rightarrow> nat list \<Rightarrow> pa_mem \<Rightarrow> pa_memblockq \<Rightarrow> (nat option \<times> pa_mem \<times> pa_memblockq) res" where
  "push_loop e [] m bq = Inr (None, m, bq)"
| "push_loop e (q # qs) m bq =
     (let it = bq_item_at bq q; w = bq_write_index bq
      in if w \<ge> li_end it then Inr (Some q, m, bq)
         else if e \<le> li_index it then push_loop e qs m bq
         else if w \<le> li_index it \<and> e \<ge> li_end it
         then bindR (drop_block m bq q) (\<lambda>(m, bq). push_loop e qs m bq)
         else if w \<ge> li_index it then push_truncate m bq e q qs
         else
           bindR (assertR (e > li_index it \<and> e < li_end it \<and> w < li_index it)) (\<lambda>_.
           let d = nat (e - li_index it)
           in push_loop e qs m (set_item q (it\<lparr>li_index := li_index it + int d,
                li_chunk := (li_chunk it)\<lparr>mc_index := mc_index (li_chunk it) + d, mc_length := mc_length (li_chunk it) - d\<rparr>\<rparr>) bq)))"

text \<open>Putting the chunk behind \<open>q\<close>, into that item when it continues it.\<close>

definition push_place :: "pa_mem \<Rightarrow> pa_memblockq \<Rightarrow> nat option \<Rightarrow> pa_memchunk \<Rightarrow> (pa_mem \<times> pa_memblockq) res" where
  "push_place m bq q chunk =
     (let w = bq_write_index bq; len = int (mc_length chunk);
          merge = (case q of None \<Rightarrow> False
            | Some q \<Rightarrow>
                let it = bq_item_at bq q
                in mc_memblock (li_chunk it) = mc_memblock chunk \<and>
                   mc_index (li_chunk it) + mc_length (li_chunk it) = mc_index chunk \<and> w = li_end it)
      in bindR (case q of
           None \<Rightarrow> assertR (bq_blocks bq = [] \<or> w + len \<le> li_index (bq_item_at bq (hd (bq_blocks bq))))
         | Some q \<Rightarrow> bindR (assertR (w \<ge> li_end (bq_item_at bq q))) (\<lambda>_.
             case after (bq_blocks bq) q of [] \<Rightarrow> Inr () | n # _ \<Rightarrow> assertR (w + len \<le> li_index (bq_item_at bq n)))) (\<lambda>_.
         if merge
         then
           let q = the q; it = bq_item_at bq q
           in Inr (m, (set_item q (it\<lparr>li_chunk := (li_chunk it)\<lparr>mc_length := mc_length (li_chunk it) + mc_length chunk\<rparr>\<rparr>) bq)
                        \<lparr>bq_write_index := w + len\<rparr>)
         else
           bindR (notnull (mc_memblock chunk)) (\<lambda>b.
           bindR (pa_memblock_ref m b) (\<lambda>m.
           let n = bq_next_item bq
           in Inr (m, (set_item n \<lparr>li_index = w, li_chunk = chunk\<rparr> bq)
                \<lparr>bq_next_item := n + 1, bq_write_index := w + len,
                 bq_blocks := (case q of None \<Rightarrow> n # bq_blocks bq | Some q \<Rightarrow> insert_after (bq_blocks bq) q n),
                 bq_n_blocks := bq_n_blocks bq + 1\<rparr>)))))"

definition pa_memblockq_push :: "pa_mem \<Rightarrow> pa_memblockq \<Rightarrow> pa_memchunk \<Rightarrow> (int \<times> pa_mem \<times> pa_memblockq) res" where
  "pa_memblockq_push m bq uchunk =
     bindR (notnull (mc_memblock uchunk)) (\<lambda>b.
     bindR (assertR (mc_length uchunk > 0)) (\<lambda>_.
     bindR (pa_memblock_get_length m b) (\<lambda>blen.
     bindR (assertR (mc_index uchunk + mc_length uchunk \<le> blen)) (\<lambda>_.
     bindR (assertR (mc_length uchunk mod bq_base bq = 0)) (\<lambda>_.
     bindR (assertR (mc_index uchunk mod bq_base bq = 0)) (\<lambda>_.
     if \<not> can_push bq (mc_length uchunk) then Inr (-1, m, bq)
     else
       let old = bq_write_index bq;
           bq = fix_current_write bq;
           e = bq_write_index bq + int (mc_length uchunk);
           q = (case bq_current_write bq of
                  Some q \<Rightarrow> Some (push_advance bq e q (after (bq_blocks bq) q))
                | None \<Rightarrow> if bq_blocks bq = [] then None else Some (last (bq_blocks bq)))
       in bindR (push_loop e (case q of None \<Rightarrow> [] | Some q \<Rightarrow> q # before (bq_blocks bq) q) m bq) (\<lambda>(q, m, bq).
          bindR (push_place m bq q uchunk) (\<lambda>(m, bq).
          Inr (0, m, write_index_changed bq old True)))))))))"

section \<open>Reading\<close>

definition pa_memblockq_get_length :: "pa_memblockq \<Rightarrow> nat" where
  "pa_memblockq_get_length bq =
     (if bq_write_index bq \<le> bq_read_index bq then 0 else nat (bq_write_index bq - bq_read_index bq))"

definition pa_memblockq_prebuf_active :: "pa_memblockq \<Rightarrow> bool" where
  "pa_memblockq_prebuf_active bq =
     (if bq_in_prebuf bq then pa_memblockq_get_length bq < bq_prebuf bq
      else bq_prebuf bq > 0 \<and> bq_read_index bq \<ge> bq_write_index bq)"

definition update_prebuf :: "pa_memblockq \<Rightarrow> bool \<times> pa_memblockq" where
  "update_prebuf bq =
     (if bq_in_prebuf bq
      then if pa_memblockq_get_length bq < bq_prebuf bq then (True, bq) else (False, bq\<lparr>bq_in_prebuf := False\<rparr>)
      else if bq_prebuf bq > 0 \<and> bq_read_index bq \<ge> bq_write_index bq then (True, bq\<lparr>bq_in_prebuf := True\<rparr>) else (False, bq))"

text \<open>\<open>None\<close> is the result -1.\<close>

definition pa_memblockq_peek :: "pa_mem \<Rightarrow> pa_memblockq \<Rightarrow> (pa_memchunk option \<times> pa_mem \<times> pa_memblockq) res" where
  "pa_memblockq_peek m bq =
     (let (wait, bq) = update_prebuf bq
      in if wait then Inr (None, m, bq)
         else
           let bq = fix_current_read bq; ri = bq_read_index bq;
               hole = (case bq_current_read bq of None \<Rightarrow> True | Some q \<Rightarrow> li_index (bq_item_at bq q) > ri);
               len = (case bq_current_read bq of
                   Some q \<Rightarrow> nat (li_index (bq_item_at bq q) - ri)
                 | None \<Rightarrow> if bq_write_index bq > ri then nat (bq_write_index bq - ri) else 0)
           in if hole
              then (case mc_memblock (bq_silence bq) of
                  Some b \<Rightarrow>
                    bindR (pa_memblock_ref m b) (\<lambda>m.
                    let chunk = (if len > 0 \<and> len < mc_length (bq_silence bq) then (bq_silence bq)\<lparr>mc_length := len\<rparr> else bq_silence bq)
                    in Inr (Some (chunk\<lparr>mc_index := 0\<rparr>), m, bq))
                | None \<Rightarrow>
                    if len \<le> 0 then Inr (None, m, bq)
                    else Inr (Some \<lparr>mc_memblock = None, mc_index = 0, mc_length = len\<rparr>, m, bq))
              else
                let it = bq_item_at bq (the (bq_current_read bq)); chunk = li_chunk it
                in bindR (notnull (mc_memblock chunk)) (\<lambda>b.
                   bindR (pa_memblock_ref m b) (\<lambda>m.
                   bindR (assertR (ri \<ge> li_index it)) (\<lambda>_.
                   let d = nat (ri - li_index it)
                   in Inr (Some (chunk\<lparr>mc_index := mc_index chunk + d, mc_length := mc_length chunk - d\<rparr>), m, bq)))))"

text \<open>The loop that collects the rest of a block: \<open>r\<close> is the block, \<open>off\<close> how much of it is filled, \<open>item\<close> the
  item that is reached and those after it.\<close>

fun peek_fill :: "nat \<Rightarrow> nat \<Rightarrow> nat \<Rightarrow> pa_memblockq \<Rightarrow> nat list \<Rightarrow> nat \<Rightarrow> int \<Rightarrow> pa_mem \<Rightarrow> pa_mem res" where
  "peek_fill fuel block_size r bq item off ri m =
     (if off < block_size
      then (case fuel of 0 \<Rightarrow> Inl Diverges
        | Suc fuel \<Rightarrow>
            let (tchunk, item) =
              (case item of
                 [] \<Rightarrow> (bq_silence bq, [])
               | q # qs \<Rightarrow>
                   let it = bq_item_at bq q
                   in if li_index it > ri
                      then ((bq_silence bq)\<lparr>mc_length := min (mc_length (bq_silence bq)) (nat (li_index it - ri))\<rparr>, q # qs)
                      else let d = nat (ri - li_index it)
                           in ((li_chunk it)\<lparr>mc_index := mc_index (li_chunk it) + d, mc_length := mc_length (li_chunk it) - d\<rparr>, qs));
                l = min (mc_length tchunk) (block_size - off)
            in bindR (pa_memchunk_memcpy m \<lparr>mc_memblock = Some r, mc_index = off, mc_length = l\<rparr> (tchunk\<lparr>mc_length := l\<rparr>)) (\<lambda>m.
               peek_fill fuel block_size r bq item (off + l) (ri + int l) m))
      else Inr m)"

text \<open>Every round of the loop fills at least one byte or goes to the next item, when the silence is not empty.\<close>

definition pa_memblockq_peek_fixed_size ::
  "pa_mem \<Rightarrow> pa_memblockq \<Rightarrow> nat \<Rightarrow> (pa_memchunk option \<times> pa_mem \<times> pa_memblockq) res" where
  "pa_memblockq_peek_fixed_size m bq block_size =
     bindR (assertR (block_size > 0)) (\<lambda>_.
     bindR (assertR (mc_memblock (bq_silence bq) \<noteq> None)) (\<lambda>_.
     bindR (pa_memblockq_peek m bq) (\<lambda>(t, m, bq).
     case t of None \<Rightarrow> Inr (None, m, bq)
     | Some tchunk \<Rightarrow>
         if mc_length tchunk \<ge> block_size then Inr (Some (tchunk\<lparr>mc_length := block_size\<rparr>), m, bq)
         else
           bindR (notnull (mc_memblock tchunk)) (\<lambda>tb.
           bindR (pa_memblock_new m block_size) (\<lambda>(r, m).
           bindR (pa_memchunk_memcpy m \<lparr>mc_memblock = Some r, mc_index = 0, mc_length = mc_length tchunk\<rparr> tchunk) (\<lambda>m.
           bindR (pa_memblock_unref m tb) (\<lambda>m.
           let item = (case bq_current_read bq of None \<Rightarrow> [] | Some q \<Rightarrow> q # after (bq_blocks bq) q)
           in bindR (peek_fill (block_size + length (bq_blocks bq)) block_size r bq item (mc_length tchunk)
                       (bq_read_index bq + int (mc_length tchunk)) m) (\<lambda>m.
              Inr (Some \<lparr>mc_memblock = Some r, mc_index = 0, mc_length = block_size\<rparr>, m, bq))))))))) "

text \<open>Every round drops at least one byte, or leaves the loop.\<close>

fun drop_loop :: "nat \<Rightarrow> nat \<Rightarrow> pa_memblockq \<Rightarrow> pa_memblockq res" where
  "drop_loop fuel len bq =
     (if len > 0
      then (case fuel of 0 \<Rightarrow> Inl Diverges
        | Suc fuel \<Rightarrow>
            let (wait, bq) = update_prebuf bq
            in if wait then Inr bq
               else
                 let bq = fix_current_read bq
                 in (case bq_current_read bq of
                       Some q \<Rightarrow>
                         let p = li_end (bq_item_at bq q)
                         in bindR (assertR (p \<ge> bq_read_index bq)) (\<lambda>_.
                            let d = min (p - bq_read_index bq) (int len)
                            in drop_loop fuel (len - nat d) (bq\<lparr>bq_read_index := bq_read_index bq + d\<rparr>))
                     | None \<Rightarrow> Inr (bq\<lparr>bq_read_index := bq_read_index bq + int len\<rparr>)))
      else Inr bq)"

definition pa_memblockq_drop :: "pa_mem \<Rightarrow> pa_memblockq \<Rightarrow> nat \<Rightarrow> (pa_mem \<times> pa_memblockq) res" where
  "pa_memblockq_drop m bq len =
     bindR (assertR (len mod bq_base bq = 0)) (\<lambda>_.
     let old = bq_read_index bq
     in bindR (drop_loop len len bq) (\<lambda>bq.
        bindR (drop_backlog m bq) (\<lambda>(m, bq).
        Inr (m, read_index_changed bq old))))"

definition pa_memblockq_rewind :: "pa_memblockq \<Rightarrow> nat \<Rightarrow> pa_memblockq res" where
  "pa_memblockq_rewind bq len =
     bindR (assertR (len mod bq_base bq = 0)) (\<lambda>_.
     let old = bq_read_index bq
     in Inr (read_index_changed (bq\<lparr>bq_read_index := bq_read_index bq - int len\<rparr>) old))"

definition pa_memblockq_is_readable :: "pa_memblockq \<Rightarrow> bool" where
  "pa_memblockq_is_readable bq = (\<not> pa_memblockq_prebuf_active bq \<and> \<not> pa_memblockq_get_length bq \<le> 0)"

definition pa_memblockq_missing :: "pa_memblockq \<Rightarrow> nat" where
  "pa_memblockq_missing bq =
     (let l = pa_memblockq_get_length bq
      in if l \<ge> bq_tlength bq then 0
         else let l = bq_tlength bq - l in if l \<ge> bq_minreq bq then l else 0)"

definition pa_memblockq_pop_missing :: "pa_memblockq \<Rightarrow> nat \<times> pa_memblockq" where
  "pa_memblockq_pop_missing bq =
     (if bq_missing bq \<le> 0 then (0, bq)
      else (nat (bq_missing bq), bq\<lparr>bq_requested := bq_requested bq + bq_missing bq, bq_missing := 0\<rparr>))"

section \<open>Moving the write position\<close>

datatype pa_seek_mode = PA_SEEK_RELATIVE | PA_SEEK_ABSOLUTE | PA_SEEK_RELATIVE_ON_READ | PA_SEEK_RELATIVE_END

text \<open>The offset is an \<^verbatim>\<open>int64_t\<close> of the client's choice.\<close>

definition pa_memblockq_seek :: "pa_mem \<Rightarrow> pa_memblockq \<Rightarrow> int \<Rightarrow> pa_seek_mode \<Rightarrow> bool \<Rightarrow> (pa_mem \<times> pa_memblockq) res" where
  "pa_memblockq_seek m bq offset seek account =
     (let old = bq_write_index bq;
          w = (case seek of
                 PA_SEEK_RELATIVE \<Rightarrow> bq_write_index bq + offset
               | PA_SEEK_ABSOLUTE \<Rightarrow> offset
               | PA_SEEK_RELATIVE_ON_READ \<Rightarrow> bq_read_index bq + offset
               | PA_SEEK_RELATIVE_END \<Rightarrow> blocks_end bq (bq_read_index bq) + offset)
      in bindR (fits_i64 [w, w - old, (if account then bq_requested bq else bq_missing bq) - (w - old)]) (\<lambda>_.
         bindR (drop_backlog m (bq\<lparr>bq_write_index := w\<rparr>)) (\<lambda>(m, bq).
         Inr (m, write_index_changed bq old account))))"

definition pa_memblockq_prebuf_disable :: "pa_memblockq \<Rightarrow> pa_memblockq" where
  "pa_memblockq_prebuf_disable bq = bq\<lparr>bq_in_prebuf := False\<rparr>"

definition pa_memblockq_prebuf_force :: "pa_memblockq \<Rightarrow> pa_memblockq" where
  "pa_memblockq_prebuf_force bq = (if bq_prebuf bq > 0 then bq\<lparr>bq_in_prebuf := True\<rparr> else bq)"

definition pa_memblockq_flush_write :: "pa_mem \<Rightarrow> pa_memblockq \<Rightarrow> bool \<Rightarrow> (pa_mem \<times> pa_memblockq) res" where
  "pa_memblockq_flush_write m bq account =
     bindR (pa_memblockq_silence m bq) (\<lambda>(m, bq).
     let old = bq_write_index bq;
         bq = pa_memblockq_prebuf_force (bq\<lparr>bq_write_index := bq_read_index bq\<rparr>)
     in Inr (m, write_index_changed bq old account))"

definition pa_memblockq_flush_read :: "pa_mem \<Rightarrow> pa_memblockq \<Rightarrow> (pa_mem \<times> pa_memblockq) res" where
  "pa_memblockq_flush_read m bq =
     bindR (pa_memblockq_silence m bq) (\<lambda>(m, bq).
     let old = bq_read_index bq;
         bq = pa_memblockq_prebuf_force (bq\<lparr>bq_read_index := bq_write_index bq\<rparr>)
     in Inr (m, read_index_changed bq old))"

section \<open>Metrics\<close>

abbreviation size_max :: nat where "size_max \<equiv> 2 ^ 64 - 1"

text \<open>\<^verbatim>\<open>((n + base - 1) / base) * base\<close> and \<^verbatim>\<open>tlength + base - minreq\<close> with a \<^verbatim>\<open>size_t\<close> of 64 bits.\<close>

definition round_up :: "nat \<Rightarrow> nat \<Rightarrow> nat" where
  "round_up n base = ((n + base + size_max) mod 2 ^ 64 div base) * base"

definition prebuf_limit :: "pa_memblockq \<Rightarrow> nat" where
  "prebuf_limit bq = (bq_tlength bq + bq_base bq + (2 ^ 64 - bq_minreq bq)) mod 2 ^ 64"

definition pa_memblockq_set_prebuf :: "pa_memblockq \<Rightarrow> nat \<Rightarrow> pa_memblockq" where
  "pa_memblockq_set_prebuf bq prebuf =
     (let prebuf = (if prebuf = size_max then prebuf_limit bq else prebuf);
          bq = bq\<lparr>bq_prebuf := round_up prebuf (bq_base bq)\<rparr>;
          bq = (if prebuf > 0 \<and> bq_prebuf bq < bq_base bq then bq\<lparr>bq_prebuf := bq_base bq\<rparr> else bq);
          bq = (if bq_prebuf bq > prebuf_limit bq then bq\<lparr>bq_prebuf := prebuf_limit bq\<rparr> else bq)
      in if bq_prebuf bq \<le> 0 \<or> pa_memblockq_get_length bq \<ge> bq_prebuf bq then bq\<lparr>bq_in_prebuf := False\<rparr> else bq)"

definition pa_memblockq_set_minreq :: "pa_memblockq \<Rightarrow> nat \<Rightarrow> pa_memblockq" where
  "pa_memblockq_set_minreq bq minreq =
     (let bq = bq\<lparr>bq_minreq := (minreq div bq_base bq) * bq_base bq\<rparr>;
          bq = (if bq_minreq bq > bq_tlength bq then bq\<lparr>bq_minreq := bq_tlength bq\<rparr> else bq);
          bq = (if bq_minreq bq < bq_base bq then bq\<lparr>bq_minreq := bq_base bq\<rparr> else bq)
      in if bq_prebuf bq > prebuf_limit bq then pa_memblockq_set_prebuf bq (prebuf_limit bq) else bq)"

definition pa_memblockq_set_tlength :: "pa_memblockq \<Rightarrow> nat \<Rightarrow> pa_memblockq" where
  "pa_memblockq_set_tlength bq tlength =
     (let tlength = (if tlength \<le> 0 \<or> tlength = size_max then bq_maxlength bq else tlength);
          old_tlength = bq_tlength bq;
          bq = bq\<lparr>bq_tlength := round_up tlength (bq_base bq)\<rparr>;
          bq = (if bq_tlength bq > bq_maxlength bq then bq\<lparr>bq_tlength := bq_maxlength bq\<rparr> else bq);
          bq = (if bq_minreq bq > bq_tlength bq then pa_memblockq_set_minreq bq (bq_tlength bq) else bq);
          bq = (if bq_prebuf bq > prebuf_limit bq then pa_memblockq_set_prebuf bq (prebuf_limit bq) else bq)
      in bq\<lparr>bq_missing := bq_missing bq + (int (bq_tlength bq) - int old_tlength)\<rparr>)"

definition pa_memblockq_set_maxlength :: "pa_memblockq \<Rightarrow> nat \<Rightarrow> pa_memblockq" where
  "pa_memblockq_set_maxlength bq maxlength =
     (let bq = bq\<lparr>bq_maxlength := round_up maxlength (bq_base bq)\<rparr>;
          bq = (if bq_maxlength bq < bq_base bq then bq\<lparr>bq_maxlength := bq_base bq\<rparr> else bq)
      in if bq_tlength bq > bq_maxlength bq then pa_memblockq_set_tlength bq (bq_maxlength bq) else bq)"

definition pa_memblockq_set_maxrewind :: "pa_memblockq \<Rightarrow> nat \<Rightarrow> pa_memblockq" where
  "pa_memblockq_set_maxrewind bq maxrewind = bq\<lparr>bq_maxrewind := (maxrewind div bq_base bq) * bq_base bq\<rparr>"

text \<open>The fields of \<^verbatim>\<open>pa_buffer_attr\<close>, unsigned numbers of 32 bits.\<close>

record pa_buffer_attr =
  at_maxlength :: u32
  at_tlength :: u32
  at_prebuf :: u32
  at_minreq :: u32

definition pa_memblockq_apply_attr :: "pa_memblockq \<Rightarrow> pa_buffer_attr \<Rightarrow> pa_memblockq" where
  "pa_memblockq_apply_attr bq a =
     (let bq = pa_memblockq_set_maxlength bq (unat (at_maxlength a));
          bq = pa_memblockq_set_tlength bq (unat (at_tlength a));
          bq = pa_memblockq_set_minreq bq (unat (at_minreq a))
      in pa_memblockq_set_prebuf bq (unat (at_prebuf a)))"

definition pa_memblockq_get_attr :: "pa_memblockq \<Rightarrow> pa_buffer_attr" where
  "pa_memblockq_get_attr bq =
     \<lparr>at_maxlength = of_nat (bq_maxlength bq), at_tlength = of_nat (bq_tlength bq),
      at_prebuf = of_nat (bq_prebuf bq), at_minreq = of_nat (bq_minreq bq)\<rparr>"

section \<open>Making and freeing a queue\<close>

text \<open>\<open>base\<close> is the frame size of the sample specification; a size of zero traps in the first division. A queue without silence has the null chunk.\<close>

definition pa_memblockq_new ::
  "pa_mem \<Rightarrow> int \<Rightarrow> nat \<Rightarrow> nat \<Rightarrow> nat \<Rightarrow> nat \<Rightarrow> nat \<Rightarrow> nat \<Rightarrow> pa_memchunk option \<Rightarrow> (pa_mem \<times> pa_memblockq) res" where
  "pa_memblockq_new m idx maxlength tlength base prebuf minreq maxrewind silence =
     bindR (assertR (base \<noteq> 0)) (\<lambda>_.
      let bq = \<lparr>bq_blocks = [], bq_item_at = (\<lambda>_. \<lparr>li_index = 0, li_chunk = pa_memchunk_reset\<rparr>), bq_next_item = 0,
                bq_current_read = None, bq_current_write = None, bq_n_blocks = 0,
                bq_maxlength = 0, bq_tlength = 0, bq_base = base, bq_prebuf = 0, bq_minreq = 0, bq_maxrewind = 0,
                bq_read_index = idx, bq_write_index = idx, bq_in_prebuf = True, bq_silence = pa_memchunk_reset,
                bq_mcalign = \<lparr>ma_base = 0, ma_leftover = pa_memchunk_reset, ma_current = pa_memchunk_reset\<rparr>,
                bq_missing = 0, bq_requested = 0\<rparr>;
          bq = pa_memblockq_set_maxlength bq maxlength;
          bq = pa_memblockq_set_tlength bq tlength;
          bq = pa_memblockq_set_minreq bq minreq;
          bq = pa_memblockq_set_prebuf bq prebuf;
          bq = pa_memblockq_set_maxrewind bq maxrewind
      in bindR (case silence of None \<Rightarrow> Inr (m, bq)
           | Some c \<Rightarrow> bindR (notnull (mc_memblock c)) (\<lambda>b. bindR (pa_memblock_ref m b) (\<lambda>m. Inr (m, bq\<lparr>bq_silence := c\<rparr>)))) (\<lambda>(m, bq).
         bindR (pa_mcalign_new base) (\<lambda>a. Inr (m, bq\<lparr>bq_mcalign := a\<rparr>))))"

definition pa_memblockq_set_silence :: "pa_mem \<Rightarrow> pa_memblockq \<Rightarrow> pa_memchunk option \<Rightarrow> (pa_mem \<times> pa_memblockq) res" where
  "pa_memblockq_set_silence m bq silence =
     bindR (unref_chunk m (bq_silence bq)) (\<lambda>m.
     case silence of
       Some c \<Rightarrow> bindR (notnull (mc_memblock c)) (\<lambda>b. bindR (pa_memblock_ref m b) (\<lambda>m. Inr (m, bq\<lparr>bq_silence := c\<rparr>)))
     | None \<Rightarrow> Inr (m, bq\<lparr>bq_silence := pa_memchunk_reset\<rparr>))"

definition pa_memblockq_free :: "pa_mem \<Rightarrow> pa_memblockq \<Rightarrow> pa_mem res" where
  "pa_memblockq_free m bq =
     bindR (pa_memblockq_silence m bq) (\<lambda>(m, bq).
     bindR (unref_chunk m (bq_silence bq)) (\<lambda>m. pa_mcalign_free m (bq_mcalign bq)))"

definition pa_memblockq_is_empty :: "pa_memblockq \<Rightarrow> bool" where
  "pa_memblockq_is_empty bq = (bq_blocks bq = [])"

section \<open>Unaligned chunks\<close>

text \<open>The loop that pushes what the alignment hands out; each chunk is released after it.\<close>

fun push_pops :: "nat \<Rightarrow> pa_mem \<Rightarrow> pa_memblockq \<Rightarrow> (int \<times> pa_mem \<times> pa_memblockq) res" where
  "push_pops fuel m bq =
     bindR (pa_mcalign_pop m (bq_mcalign bq)) (\<lambda>(r, m, a).
     let bq = bq\<lparr>bq_mcalign := a\<rparr>
     in case r of None \<Rightarrow> Inr (0, m, bq)
        | Some c \<Rightarrow>
            (case fuel of 0 \<Rightarrow> Inl Diverges
             | Suc fuel \<Rightarrow>
                 bindR (pa_memblockq_push m bq c) (\<lambda>(r, m, bq).
                 bindR (unref_chunk m c) (\<lambda>m.
                 if r < 0
                 then bindR (pa_mcalign_flush 3 m (bq_mcalign bq)) (\<lambda>(m, a). Inr (-1, m, bq\<lparr>bq_mcalign := a\<rparr>))
                 else push_pops fuel m bq))))"

definition pa_memblockq_push_align :: "pa_mem \<Rightarrow> pa_memblockq \<Rightarrow> pa_memchunk \<Rightarrow> (int \<times> pa_mem \<times> pa_memblockq) res" where
  "pa_memblockq_push_align m bq chunk =
     (if bq_base bq = 1 then pa_memblockq_push m bq chunk
      else
        bindR (pa_mcalign_csize (bq_mcalign bq) (mc_length chunk)) (\<lambda>l.
        if \<not> can_push bq l then Inr (-1, m, bq)
        else
          bindR (pa_mcalign_push m (bq_mcalign bq) chunk) (\<lambda>(m, a).
          push_pops 3 m (bq\<lparr>bq_mcalign := a\<rparr>))))"

text \<open>Moving the data of another queue. The last call takes the data from \<open>bq\<close>, not from \<open>source\<close>.\<close>

fun splice_loop ::
  "nat \<Rightarrow> pa_mem \<Rightarrow> pa_memblockq \<Rightarrow> pa_memblockq \<Rightarrow> (int \<times> pa_mem \<times> pa_memblockq \<times> pa_memblockq) res" where
  "splice_loop fuel m bq source =
     bindR (pa_memblockq_peek m source) (\<lambda>(r, m, source).
     case r of None \<Rightarrow> Inr (0, m, bq, source)
     | Some chunk \<Rightarrow>
         bindR (assertR (mc_length chunk > 0)) (\<lambda>_.
         bindR (case mc_memblock chunk of
             Some b \<Rightarrow>
               bindR (pa_memblockq_push_align m bq chunk) (\<lambda>(r, m, bq).
               bindR (pa_memblock_unref m b) (\<lambda>m. Inr (r, m, bq)))
           | None \<Rightarrow> bindR (pa_memblockq_seek m bq (int (mc_length chunk)) PA_SEEK_RELATIVE True) (\<lambda>(m, bq). Inr (0, m, bq))) (\<lambda>(r, m, bq).
         if r < 0 then Inr (-1, m, bq, source)
         else
           bindR (pa_memblockq_drop m bq (mc_length chunk)) (\<lambda>(m, bq).
           case fuel of 0 \<Rightarrow> Inl Diverges | Suc fuel \<Rightarrow> splice_loop fuel m bq source))))"

definition pa_memblockq_splice ::
  "nat \<Rightarrow> pa_mem \<Rightarrow> pa_memblockq \<Rightarrow> pa_memblockq \<Rightarrow> (int \<times> pa_mem \<times> pa_memblockq \<times> pa_memblockq) res" where
  "pa_memblockq_splice fuel m bq source = splice_loop fuel m (pa_memblockq_prebuf_disable bq) source"

text \<open>\<^verbatim>\<open>pa_memchunk_will_need\<close> only asks the system to bring the pages of a chunk into memory.\<close>

definition pa_memblockq_willneed :: "pa_memblockq \<Rightarrow> pa_memblockq" where
  "pa_memblockq_willneed bq = fix_current_read bq"

end
