(* ===== verification/PaMcalign.thy ===== *)
theory PaMcalign
  imports PaMemchunk
begin

text \<open>
  The alignment of chunks: whatever the sizes of the chunks that are pushed, the chunks that are popped have
  whole frames and hold the same bytes in the same order; references to memory blocks are neither
  lost nor released twice.
\<close>

section \<open>Chunks in memory\<close>

definition chunk_bytes :: "pa_mem \<Rightarrow> pa_memchunk \<Rightarrow> bytes" where
  "chunk_bytes m c = (case mc_memblock c of None \<Rightarrow> [] | Some b \<Rightarrow> take (mc_length c) (drop (mc_index c) (mem_data m b)))"

definition chunk_ok :: "pa_mem \<Rightarrow> pa_memchunk \<Rightarrow> bool" where
  "chunk_ok m c \<longleftrightarrow> (\<exists>b. mc_memblock c = Some b \<and> mc_index c + mc_length c \<le> length (mem_data m b) \<and> b < mem_next m) \<and> 0 < mc_length c"

text \<open>Blocks that are not allocated have no references.\<close>

definition mem_ok :: "pa_mem \<Rightarrow> bool" where
  "mem_ok m \<longleftrightarrow> (\<forall>b \<ge> mem_next m. mem_refs m b = 0)"

definition holds :: "pa_memchunk \<Rightarrow> nat \<Rightarrow> nat" where
  "holds c b = (if mc_memblock c = Some b then 1 else 0)"

lemma holds_reset [simp]: "holds pa_memchunk_reset b = 0" "mc_memblock pa_memchunk_reset = None" "chunk_bytes m pa_memchunk_reset = []"
  by (simp_all add: holds_def pa_memchunk_reset_def chunk_bytes_def)

lemma chunk_bytes_length [simp]: "chunk_ok m c \<Longrightarrow> length (chunk_bytes m c) = mc_length c"
  by (auto simp: chunk_ok_def chunk_bytes_def)

lemma chunk_bytes_cong: "mc_memblock c = Some b \<Longrightarrow> mem_data m' b = mem_data m b \<Longrightarrow> chunk_bytes m' c = chunk_bytes m c"
  by (simp add: chunk_bytes_def)

lemma chunk_bytes_same: "mem_data m' = mem_data m \<Longrightarrow> chunk_bytes m' = chunk_bytes m"
  by (auto simp: chunk_bytes_def fun_eq_iff split: option.split)

lemma ref_ok: "0 < mem_refs m b \<Longrightarrow> pa_memblock_ref m b = Inr (m\<lparr>mem_refs := (mem_refs m)(b := mem_refs m b + 1)\<rparr>)"
  by (simp add: pa_memblock_ref_def)

lemma unref_ok: "0 < mem_refs m b \<Longrightarrow> pa_memblock_unref m b = Inr (m\<lparr>mem_refs := (mem_refs m)(b := mem_refs m b - 1)\<rparr>)"
  by (simp add: pa_memblock_unref_def)

text \<open>A chunk is cut in two.\<close>

lemma chunk_cut:
  assumes "chunk_ok m c" and "0 < l" "l < mc_length c"
  shows "chunk_ok m (c\<lparr>mc_length := l\<rparr>)" "chunk_ok m (c\<lparr>mc_index := mc_index c + l, mc_length := mc_length c - l\<rparr>)"
    "chunk_bytes m c = chunk_bytes m (c\<lparr>mc_length := l\<rparr>) @ chunk_bytes m (c\<lparr>mc_index := mc_index c + l, mc_length := mc_length c - l\<rparr>)"
proof -
  obtain b where b: "mc_memblock c = Some b" "mc_index c + mc_length c \<le> length (mem_data m b)" "b < mem_next m"
    using assms(1) by (auto simp: chunk_ok_def)
  show "chunk_ok m (c\<lparr>mc_length := l\<rparr>)" "chunk_ok m (c\<lparr>mc_index := mc_index c + l, mc_length := mc_length c - l\<rparr>)"
    using b assms(2,3) by (simp_all add: chunk_ok_def)
  have "mc_length c = l + (mc_length c - l)" using assms(3) by simp
  then show "chunk_bytes m c = chunk_bytes m (c\<lparr>mc_length := l\<rparr>) @ chunk_bytes m (c\<lparr>mc_index := mc_index c + l, mc_length := mc_length c - l\<rparr>)"
    using b(1) take_add [of l "mc_length c - l" "drop (mc_index c) (mem_data m b)"] by (simp add: chunk_bytes_def add.commute)
qed

text \<open>Two chunks that follow each other in a block are one.\<close>

lemma chunk_join:
  assumes "mc_memblock c = mc_memblock d" "mc_index c + mc_length c = mc_index d"
  shows "chunk_bytes m (c\<lparr>mc_length := mc_length c + mc_length d\<rparr>) = chunk_bytes m c @ chunk_bytes m d"
  using assms(1) assms(2) [symmetric]
  by (auto simp: chunk_bytes_def take_add add.commute split: option.split)

section \<open>Writing into a chunk\<close>

lemma copy_ok:
  assumes "0 < mem_refs m dst" "0 < mem_refs m src" "soff + len \<le> length (mem_data m src)" "doff + len \<le> length (mem_data m dst)"
  shows "memblock_copy m dst doff src soff len = Inr (m\<lparr>mem_data := (mem_data m)(dst :=
     take doff (mem_data m dst) @ take len (drop soff (mem_data m src)) @ drop (doff + len) (mem_data m dst))\<rparr>)"
  using assms by (simp add: memblock_copy_def load_def store_def)

lemma make_writable_new:
  assumes "mc_memblock c = Some b" "0 < mem_refs m b" "\<not> (mem_refs m b = 1 \<and> \<not> mem_ro m b \<and> length (mem_data m b) \<ge> mc_index c + mn)"
    and "pa_memblock_new m (max (mc_length c) mn) = Inr (n, m1)" "memblock_copy m1 n 0 b (mc_index c) (mc_length c) = Inr m2"
    "pa_memblock_unref m2 b = Inr m3"
  shows "pa_memchunk_make_writable m c mn = Inr (m3, c\<lparr>mc_memblock := Some n, mc_index := 0\<rparr>)"
  using assms by (auto simp: pa_memchunk_make_writable_def pa_memblock_ref_is_one_def pa_memblock_is_read_only_def pa_memblock_get_length_def)

lemma make_writable_ok:
  assumes c: "chunk_ok m c" "mc_memblock c = Some b" "0 < mem_refs m b" and "mem_ok m" and "mc_length c < mn"
  shows "\<exists>m' c' n. pa_memchunk_make_writable m c mn = Inr (m', c') \<and> mc_memblock c' = Some n \<and> mc_length c' = mc_length c \<and>
     mc_index c' + mn \<le> length (mem_data m' n) \<and> n < mem_next m' \<and> mem_ok m' \<and> mem_next m \<le> mem_next m' \<and> chunk_bytes m' c' = chunk_bytes m c \<and>
     (\<forall>x < mem_next m. mem_data m' x = mem_data m x) \<and> 0 < mem_refs m' n \<and> (n < mem_next m \<longrightarrow> mem_refs m n = 1 \<and> n = b) \<and>
     (\<forall>x. mem_refs m' x + holds c x = mem_refs m x + holds c' x)"
proof (cases "mem_refs m b = 1 \<and> \<not> mem_ro m b \<and> length (mem_data m b) \<ge> mc_index c + mn")
  case True
  then have "pa_memchunk_make_writable m c mn = Inr (m, c)"
    using c by (simp add: pa_memchunk_make_writable_def pa_memblock_ref_is_one_def pa_memblock_is_read_only_def pa_memblock_get_length_def)
  then show ?thesis using c True assms(4) by (intro exI [of _ m] exI [of _ c] exI [of _ b]) (simp add: chunk_ok_def)
next
  case False
  let ?n = "mem_next m" and ?l = "max (mc_length c) mn"
  have len: "?l = mn" "0 < mn" "b < mem_next m" "mc_index c + mc_length c \<le> length (mem_data m b)" "0 < mc_length c"
    using assms(5) c by (auto simp: chunk_ok_def)
  let ?m1 = "m\<lparr>mem_data := (mem_data m)(?n := map (mem_junk m) [0..<?l]), mem_refs := (mem_refs m)(?n := 1),
      mem_ro := (mem_ro m)(?n := False), mem_next := ?n + 1\<rparr>"
  let ?d = "take (mc_length c) (drop (mc_index c) (mem_data m b)) @ drop (mc_length c) (map (mem_junk m) [0..<?l])"
  let ?m2 = "?m1\<lparr>mem_data := (mem_data ?m1)(?n := ?d)\<rparr>"
  let ?m3 = "?m2\<lparr>mem_refs := (mem_refs ?m2)(b := mem_refs ?m2 b - 1)\<rparr>"
  have new: "pa_memblock_new m ?l = Inr (?n, ?m1)" using len by (simp add: pa_memblock_new_def Let_def)
  have copy: "memblock_copy ?m1 ?n 0 b (mc_index c) (mc_length c) = Inr ?m2"
    using copy_ok [of ?m1 ?n b "mc_index c" "mc_length c" 0] c(3) len by simp
  have unref: "pa_memblock_unref ?m2 b = Inr ?m3" using unref_ok [of ?m2 b] c(3) len by simp
  have "pa_memchunk_make_writable m c mn = Inr (?m3, c\<lparr>mc_memblock := Some ?n, mc_index := 0\<rparr>)"
    by (rule make_writable_new [OF c(2,3) False new copy unref])
  moreover have "chunk_bytes ?m3 (c\<lparr>mc_memblock := Some ?n, mc_index := 0\<rparr>) = chunk_bytes m c"
    using c len by (simp add: chunk_bytes_def)
  moreover have "mem_ok ?m3" using assms(4) len by (simp add: mem_ok_def)
  moreover have "\<forall>x. mem_refs ?m3 x + holds c x = mem_refs m x + holds (c\<lparr>mc_memblock := Some ?n, mc_index := 0\<rparr>) x"
    using c assms(4) len by (auto simp: holds_def mem_ok_def)
  ultimately show ?thesis using len
    by (intro exI [of _ ?m3] exI [of _ "c\<lparr>mc_memblock := Some ?n, mc_index := 0\<rparr>"] exI [of _ ?n]) auto
qed

section \<open>The contents of the alignment\<close>

definition ma_stream :: "pa_mem \<Rightarrow> pa_mcalign \<Rightarrow> bytes" where
  "ma_stream m a = chunk_bytes m (ma_leftover a) @ chunk_bytes m (ma_current a)"

definition ma_held :: "pa_mcalign \<Rightarrow> nat \<Rightarrow> nat" where
  "ma_held a b = holds (ma_leftover a) b + holds (ma_current a) b"

definition ma_ok :: "pa_mem \<Rightarrow> pa_mcalign \<Rightarrow> bool" where
  "ma_ok m a \<longleftrightarrow> 0 < ma_base a \<and>
     (mc_memblock (ma_leftover a) = None \<or> chunk_ok m (ma_leftover a) \<and> mc_length (ma_leftover a) \<le> ma_base a) \<and>
     (mc_memblock (ma_current a) = None \<or> chunk_ok m (ma_current a) \<and>
        (if mc_memblock (ma_leftover a) = None then ma_base a \<le> mc_length (ma_current a) else mc_length (ma_leftover a) = ma_base a)) \<and>
     (\<forall>b. ma_held a b \<le> mem_refs m b) \<and> mem_ok m"

lemma ma_okD:
  assumes "ma_ok m a"
  shows "0 < ma_base a" "\<forall>b. ma_held a b \<le> mem_refs m b" "mem_ok m"
    "mc_memblock (ma_leftover a) = Some b \<Longrightarrow> chunk_ok m (ma_leftover a) \<and> mc_length (ma_leftover a) \<le> ma_base a \<and> 0 < mem_refs m b"
    "mc_memblock (ma_current a) = Some b \<Longrightarrow> chunk_ok m (ma_current a) \<and> 0 < mem_refs m b \<and>
       (if mc_memblock (ma_leftover a) = None then ma_base a \<le> mc_length (ma_current a) else mc_length (ma_leftover a) = ma_base a)"
proof -
  show "0 < ma_base a" "\<forall>b. ma_held a b \<le> mem_refs m b" "mem_ok m" using assms by (simp_all add: ma_ok_def)
  then have held: "ma_held a b \<le> mem_refs m b" by blast
  show "chunk_ok m (ma_leftover a) \<and> mc_length (ma_leftover a) \<le> ma_base a \<and> 0 < mem_refs m b" if "mc_memblock (ma_leftover a) = Some b"
    using assms that held by (simp add: ma_ok_def ma_held_def holds_def)
  show "chunk_ok m (ma_current a) \<and> 0 < mem_refs m b \<and>
      (if mc_memblock (ma_leftover a) = None then ma_base a \<le> mc_length (ma_current a) else mc_length (ma_leftover a) = ma_base a)"
    if "mc_memblock (ma_current a) = Some b" using assms that held by (simp add: ma_ok_def ma_held_def holds_def)
qed

lemma chunk_bytes_None: "mc_memblock c = None \<Longrightarrow> chunk_bytes m c = []"
  by (simp add: chunk_bytes_def)

text \<open>While less than a frame is waiting, there is only a leftover.\<close>

lemma ma_short:
  assumes "ma_ok m a" "length (ma_stream m a) < ma_base a"
  shows "mc_memblock (ma_current a) = None"
proof (rule ccontr)
  assume "mc_memblock (ma_current a) \<noteq> None"
  then obtain b where b: "mc_memblock (ma_current a) = Some b" by auto
  have "length (chunk_bytes m (ma_leftover a)) + length (chunk_bytes m (ma_current a)) < ma_base a" using assms(2) by (simp add: ma_stream_def)
  then show False using ma_okD(5) [OF assms(1) b] ma_okD(4) [OF assms(1)] by (cases "mc_memblock (ma_leftover a)") auto
qed

section \<open>Popping\<close>

lemma pop_ok:
  assumes a: "ma_ok m a"
  shows "(length (ma_stream m a) < ma_base a \<and> pa_mcalign_pop m a = Inr (None, m, a)) \<or>
    (\<exists>c m' a'. pa_mcalign_pop m a = Inr (Some c, m', a') \<and> ma_ok m' a' \<and> chunk_ok m' c \<and> ma_base a dvd mc_length c \<and>
       ma_stream m a = chunk_bytes m c @ ma_stream m a' \<and> mem_data m' = mem_data m \<and> mem_next m' = mem_next m \<and> ma_base a' = ma_base a \<and>
       (\<forall>b. mem_refs m' b + ma_held a b = mem_refs m b + ma_held a' b + holds c b))"
proof (cases "mc_memblock (ma_leftover a)")
  case (Some lb)
  note lo = ma_okD(4) [OF a Some]
  have pos: "0 < mc_length (ma_leftover a)" using lo by (simp add: chunk_ok_def)
  show ?thesis
  proof (cases "mc_length (ma_leftover a) < ma_base a")
    case True
    then have "mc_memblock (ma_current a) = None" using ma_okD(5) [OF a] Some by (cases "mc_memblock (ma_current a)") auto
    then have "length (ma_stream m a) < ma_base a" using True lo by (simp add: ma_stream_def chunk_bytes_None)
    then show ?thesis using Some True pos by (simp add: pa_mcalign_pop_def)
  next
    case False
    then have full: "mc_length (ma_leftover a) = ma_base a" using lo by simp
    let ?a = "if mc_memblock (ma_current a) \<noteq> None \<and> mc_length (ma_current a) < ma_base a
        then a\<lparr>ma_leftover := ma_current a, ma_current := pa_memchunk_reset\<rparr> else a\<lparr>ma_leftover := pa_memchunk_reset\<rparr>"
    have "pa_mcalign_pop m a = Inr (Some (ma_leftover a), m, ?a)"
      using Some False lo pos by (simp add: pa_mcalign_pop_def Let_def pa_memchunk_reset_def)
    moreover have "ma_ok m ?a"
    proof -
      have "\<forall>b. ma_held ?a b \<le> mem_refs m b" using ma_okD(2) [OF a] by (auto simp: ma_held_def intro: order_trans [rotated])
      then show ?thesis using a lo by (auto simp: ma_ok_def)
    qed
    moreover have "ma_stream m a = chunk_bytes m (ma_leftover a) @ ma_stream m ?a" by (simp add: ma_stream_def)
    moreover have "\<forall>b. mem_refs m b + ma_held a b = mem_refs m b + ma_held ?a b + holds (ma_leftover a) b" by (simp add: ma_held_def)
    ultimately show ?thesis using lo full by (intro disjI2 exI [of _ "ma_leftover a"] exI [of _ m] exI [of _ ?a]) simp
  qed
next
  case None
  show ?thesis
  proof (cases "mc_memblock (ma_current a)")
    case N: None
    then have "length (ma_stream m a) < ma_base a" using None ma_okD(1) [OF a] by (simp add: ma_stream_def chunk_bytes_None)
    then show ?thesis using None N by (simp add: pa_mcalign_pop_def)
  next
    case (Some b)
    note cu = ma_okD(5) [OF a Some]
    let ?len = "mc_length (ma_current a)"
    let ?l = "?len div ma_base a * ma_base a"
    let ?c = "(ma_current a)\<lparr>mc_length := ?l\<rparr>" and ?rest = "(ma_current a)\<lparr>mc_index := mc_index (ma_current a) + ?l, mc_length := ?len - ?l\<rparr>"
    let ?m = "m\<lparr>mem_refs := (mem_refs m)(b := mem_refs m b + 1)\<rparr>"
    have base: "0 < ma_base a" "ma_base a \<le> ?len" using ma_okD(1) [OF a] cu None by simp_all
    then have l: "0 < ?l" "?l \<le> ?len" "?len - ?l < ma_base a"
      by (simp_all add: div_greater_zero_iff minus_div_mult_eq_mod)
    show ?thesis
    proof (cases "?l = ?len")
      case True
      let ?a = "a\<lparr>ma_current := pa_memchunk_reset\<rparr>"
      have c: "?c = ma_current a" using True by simp
      have m: "?m\<lparr>mem_refs := (mem_refs ?m)(b := mem_refs ?m b - 1)\<rparr> = m" by simp
      have "pa_mcalign_pop m a = Inr (Some (ma_current a), m, ?a)"
        using None Some l(1,2) base True ref_ok [of m b] unref_ok [of ?m b] cu m by (simp add: pa_mcalign_pop_def Let_def pa_memchunk_reset_def)
      moreover have "ma_ok m ?a" using a None ma_okD(2) [OF a] by (auto simp: ma_ok_def ma_held_def intro: order_trans [rotated])
      moreover have "ma_base a dvd ?len" using True by (metis dvd_triv_right)
      ultimately show ?thesis using cu None
        by (intro disjI2 exI [of _ "ma_current a"] exI [of _ m] exI [of _ ?a]) (simp add: ma_stream_def ma_held_def chunk_bytes_None holds_def [of "ma_leftover a"])
    next
      case False
      let ?a = "a\<lparr>ma_leftover := ?rest, ma_current := pa_memchunk_reset\<rparr>"
      have lt: "?l < ?len" using l(2) False by linarith
      note cut = chunk_cut [OF _ l(1) lt, of m]
      have "pa_mcalign_pop m a = Inr (Some ?c, ?m, ?a)"
        using None Some l base lt ref_ok [of m b] cu by (simp add: pa_mcalign_pop_def Let_def pa_memchunk_reset_def)
      moreover have "ma_ok ?m ?a"
      proof -
        have "chunk_ok ?m ?rest" using cut(2) cu by (simp add: chunk_ok_def)
        moreover have "\<forall>x. ma_held ?a x \<le> mem_refs ?m x"
          using ma_okD(2) [OF a] Some None by (auto simp: ma_held_def holds_def)
        moreover have "mem_ok ?m" using a cu Some by (auto simp: ma_ok_def mem_ok_def chunk_ok_def)
        ultimately show ?thesis using l(3) base by (simp add: ma_ok_def)
      qed
      moreover have "chunk_ok ?m ?c" using cut(1) cu by (simp add: chunk_ok_def)
      moreover have "\<forall>x. mem_refs ?m x + ma_held a x = mem_refs m x + ma_held ?a x + holds ?c x"
        using Some None by (auto simp: ma_held_def holds_def)
      ultimately show ?thesis using cut(3) cu None
        by (intro disjI2 exI [of _ ?c] exI [of _ ?m] exI [of _ ?a]) (simp add: ma_stream_def chunk_bytes_None)
    qed
  qed
qed

section \<open>Pushing\<close>

text \<open>The caller has a reference of its own to the block of a chunk.\<close>

definition owned :: "pa_mem \<Rightarrow> pa_mcalign \<Rightarrow> nat \<Rightarrow> bool" where
  "owned m a b \<longleftrightarrow> ma_held a b < mem_refs m b"

lemma append_bytes:
  assumes "mc_memblock lo = Some n" "mc_index lo + mc_length lo + length bs \<le> length (mem_data m n)"
    and m': "mem_data m' n = take (mc_index lo + mc_length lo) (mem_data m n) @ bs @ drop (mc_index lo + mc_length lo + length bs) (mem_data m n)"
  shows "chunk_bytes m' (lo\<lparr>mc_length := mc_length lo + length bs\<rparr>) = chunk_bytes m lo @ bs"
proof -
  let ?d = "mem_data m n" and ?i = "mc_index lo" and ?l = "mc_length lo"
  have "drop ?i (mem_data m' n) = drop ?i (take (?i + ?l) ?d) @ bs @ drop (?i + ?l + length bs) ?d"
    unfolding m' using assms(2) by simp
  moreover have "drop ?i (take (?i + ?l) ?d) = take ?l (drop ?i ?d)" by (simp add: drop_take)
  moreover have "length (take ?l (drop ?i ?d)) = ?l" using assms(2) by simp
  ultimately have "take (?l + length bs) (drop ?i (mem_data m' n)) = take ?l (drop ?i ?d) @ bs" by simp
  then show ?thesis using assms(1) by (simp add: chunk_bytes_def)
qed

lemma copy_push_ok:
  assumes a: "ma_ok m a" "mc_memblock (ma_current a) = None" "mc_memblock (ma_leftover a) = Some lb" "mc_length (ma_leftover a) < ma_base a"
    and c: "chunk_ok m c" "mc_memblock c = Some cb" "owned m a cb"
  shows "\<exists>m' a'. mcalign_copy m a c = Inr (m', a') \<and> ma_ok m' a' \<and> ma_base a' = ma_base a \<and> ma_stream m' a' = ma_stream m a @ chunk_bytes m c \<and>
    (\<forall>b. mem_refs m' b + ma_held a b = mem_refs m b + ma_held a' b) \<and> mem_next m \<le> mem_next m' \<and>
    (\<forall>b < mem_next m. owned m a b \<longrightarrow> mem_data m' b = mem_data m b)"
proof -
  let ?lo = "ma_leftover a" and ?l = "min (ma_base a - mc_length (ma_leftover a)) (mc_length c)"
  note lo = ma_okD(4) [OF a(1) a(3)]
  have held: "ma_held a x = holds ?lo x" for x using a(2) by (simp add: ma_held_def holds_def)
  obtain m1 lo1 n where w: "pa_memchunk_make_writable m ?lo (ma_base a) = Inr (m1, lo1)" "mc_memblock lo1 = Some n" "mc_length lo1 = mc_length ?lo"
      "mc_index lo1 + ma_base a \<le> length (mem_data m1 n)" "n < mem_next m1" "mem_ok m1" "mem_next m \<le> mem_next m1" "chunk_bytes m1 lo1 = chunk_bytes m ?lo"
      "\<forall>x < mem_next m. mem_data m1 x = mem_data m x" "0 < mem_refs m1 n" "n < mem_next m \<longrightarrow> mem_refs m n = 1 \<and> n = lb"
      "\<forall>x. mem_refs m1 x + holds ?lo x = mem_refs m x + holds lo1 x"
    using make_writable_ok [OF conjunct1 [OF lo] a(3) conjunct2 [OF conjunct2 [OF lo]] ma_okD(3) [OF a(1)] a(4)] by blast
  have cb: "cb < mem_next m" "mc_index c + mc_length c \<le> length (mem_data m cb)" "0 < mc_length c" using c by (auto simp: chunk_ok_def)
  have cb1: "0 < mem_refs m1 cb" using w(12) [rule_format, of cb] c(3) by (simp add: owned_def held)
  have owned_ne: "x \<noteq> n" if "owned m a x" "x < mem_next m" for x using that w(11) a(3) by (auto simp: owned_def held holds_def)
  have l: "0 < ?l" "?l \<le> mc_length c" "mc_length ?lo + ?l \<le> ma_base a" using a(4) cb(3) by auto
  let ?bs = "take ?l (drop (mc_index c) (mem_data m cb))"
  have bs: "length ?bs = ?l" "?bs = take ?l (chunk_bytes m c)" using cb l(2) c(2) by (simp_all add: chunk_bytes_def)
  define m2 where "m2 = m1\<lparr>mem_data := (mem_data m1)(n := take (mc_index lo1 + mc_length lo1) (mem_data m1 n) @ ?bs @
      drop (mc_index lo1 + mc_length lo1 + ?l) (mem_data m1 n))\<rparr>"
  have copy: "memblock_copy m1 n (mc_index lo1 + mc_length lo1) cb (mc_index c) ?l = Inr m2"
    using copy_ok [OF w(10) cb1, of "mc_index c" ?l "mc_index lo1 + mc_length lo1"] cb w(3,4,9) l by (simp add: m2_def)
  let ?lo2 = "lo1\<lparr>mc_length := mc_length lo1 + ?l\<rparr>"
  have d2: "mem_data m2 x = mem_data m x" if "owned m a x" "x < mem_next m" for x using owned_ne [OF that] that(2) w(9) by (simp add: m2_def)
  have len2: "length (mem_data m2 n) = length (mem_data m1 n)" using w(3,4) l(3) bs(1) by (simp add: m2_def)
  have bytes2: "chunk_bytes m2 ?lo2 = chunk_bytes m ?lo @ ?bs"
    using append_bytes [OF w(2), of ?bs m1 m2] w(3,4,8) l(3) bs(1) by (simp add: m2_def)
  have ok2: "chunk_ok m2 ?lo2" using w(2-5) l lo len2 by (simp add: chunk_ok_def m2_def)
  let ?a = "a\<lparr>ma_leftover := ?lo2\<rparr>"
  have refs2: "mem_refs m2 = mem_refs m1" "mem_next m2 = mem_next m1" by (simp_all add: m2_def)
  have lo2: "mc_length ?lo2 \<le> ma_base a" "mc_length ?lo2 \<le> length (mem_data m2 n)" using w(3,4) l(3) len2 by simp_all
  have hold2: "holds ?lo2 x = holds lo1 x" for x by (simp add: holds_def)
  have held1: "holds lo1 x \<le> mem_refs m1 x" for x
    using w(12) [rule_format, of x] ma_okD(2) [OF a(1)] held [of x] by (metis add_le_cancel_right add.commute nat_add_left_cancel_le)
  have eq: "mcalign_copy m a c = (if mc_length c > ?l
      then bindR (pa_memblock_ref m2 cb) (\<lambda>m. Inr (m, ?a\<lparr>ma_current := c\<lparr>mc_index := mc_index c + ?l, mc_length := mc_length c - ?l\<rparr>\<rparr>))
      else Inr (m2, ?a))"
    using a(4) w(1,2,10) c(2) copy lo2 refs2 by (simp add: mcalign_copy_def Let_def pa_memblock_get_length_def cong: if_cong)
  show ?thesis
  proof (cases "mc_length c > ?l")
    case True
    let ?cur = "c\<lparr>mc_index := mc_index c + ?l, mc_length := mc_length c - ?l\<rparr>"
    let ?m3 = "m2\<lparr>mem_refs := (mem_refs m2)(cb := mem_refs m2 cb + 1)\<rparr>" and ?a3 = "?a\<lparr>ma_current := ?cur\<rparr>"
    note cut = chunk_cut [OF c(1) l(1) True]
    have "mcalign_copy m a c = Inr (?m3, ?a3)" using eq True ref_ok [of m2 cb] cb1 refs2 by simp
    moreover have curb: "chunk_bytes ?m3 ?cur = chunk_bytes m ?cur"
      by (rule chunk_bytes_cong [of _ cb]) (use c(2) d2 [OF c(3) cb(1)] in simp_all)
    moreover have "ma_stream ?m3 ?a3 = ma_stream m a @ chunk_bytes m c"
    proof -
      have "?bs = chunk_bytes m (c\<lparr>mc_length := ?l\<rparr>)" using c(2) by (simp add: chunk_bytes_def)
      then show ?thesis using bytes2 curb cut(3) a(2)
        by (simp add: ma_stream_def chunk_bytes_None chunk_bytes_cong [of ?lo2 n m2 ?m3] w(2))
    qed
    moreover have "\<forall>x. mem_refs ?m3 x + ma_held a x = mem_refs m x + ma_held ?a3 x"
      using w(12) c(2) by (auto simp: ma_held_def held hold2 refs2) (auto simp: holds_def a(2))
    moreover have "ma_ok ?m3 ?a3"
    proof -
      have full: "mc_length ?lo2 = ma_base a" using True w(3) a(4) by simp
      have "chunk_ok ?m3 ?lo2" using ok2 by (simp add: chunk_ok_def)
      moreover have "chunk_ok ?m3 ?cur" using cut(2) c(2) d2 [OF c(3) cb(1)] w(7) refs2 by (auto simp: chunk_ok_def)
      moreover have "\<forall>x. ma_held ?a3 x \<le> mem_refs ?m3 x" using held1 c(2) by (auto simp: ma_held_def hold2 refs2 holds_def [of ?cur] le_SucI)
      moreover have "mem_ok ?m3" using w(6,7) cb(1) by (simp add: mem_ok_def refs2)
      ultimately show ?thesis using full ma_okD(1) [OF a(1)] w(2) by (simp add: ma_ok_def)
    qed
    moreover have "mem_next m \<le> mem_next ?m3" using w(7) refs2 by simp
    moreover have "\<forall>b < mem_next m. owned m a b \<longrightarrow> mem_data ?m3 b = mem_data m b" using d2 by simp
    ultimately show ?thesis by (intro exI [of _ ?m3] exI [of _ ?a3]) simp
  next
    case False
    then have all: "?l = mc_length c" using l(2) by linarith
    have "mcalign_copy m a c = Inr (m2, ?a)" using eq False by simp
    moreover have "ma_stream m2 ?a = ma_stream m a @ chunk_bytes m c"
      using bytes2 bs(2) a(2) all chunk_bytes_length [OF c(1)] by (simp add: ma_stream_def chunk_bytes_None)
    moreover have "\<forall>x. mem_refs m2 x + ma_held a x = mem_refs m x + ma_held ?a x"
      using w(12) a(2) by (simp add: ma_held_def hold2 refs2 holds_def [of "ma_current a"])
    moreover have "ma_ok m2 ?a"
    proof -
      have "\<forall>x. ma_held ?a x \<le> mem_refs m2 x" using held1 a(2) by (simp add: ma_held_def hold2 refs2 holds_def [of "ma_current a"])
      moreover have "mem_ok m2" using w(6) by (simp add: mem_ok_def refs2)
      ultimately show ?thesis using ok2 lo2(1) ma_okD(1) [OF a(1)] a(2) by (simp add: ma_ok_def)
    qed
    ultimately show ?thesis using w(7) refs2 d2 by (intro exI [of _ m2] exI [of _ ?a]) simp
  qed
qed

lemma push_ok:
  assumes a: "ma_ok m a" "mc_memblock (ma_current a) = None" "length (ma_stream m a) < ma_base a"
    and c: "chunk_ok m c" "mc_memblock c = Some cb" "owned m a cb"
  shows "\<exists>m' a'. pa_mcalign_push m a c = Inr (m', a') \<and> ma_ok m' a' \<and> ma_base a' = ma_base a \<and> ma_stream m' a' = ma_stream m a @ chunk_bytes m c \<and>
    (\<forall>b. mem_refs m' b + ma_held a b = mem_refs m b + ma_held a' b) \<and> mem_next m \<le> mem_next m' \<and>
    (\<forall>b < mem_next m. owned m a b \<longrightarrow> mem_data m' b = mem_data m b)"
proof (cases "mc_memblock (ma_leftover a)")
  case None
  let ?a = "if mc_length c \<ge> ma_base a then a\<lparr>ma_current := c\<rparr> else a\<lparr>ma_leftover := c\<rparr>"
  let ?m = "m\<lparr>mem_refs := (mem_refs m)(cb := mem_refs m cb + 1)\<rparr>"
  have pos: "0 < mem_refs m cb" "0 < mc_length c" "cb < mem_next m" using c by (auto simp: owned_def chunk_ok_def)
  have "pa_mcalign_push m a c = Inr (?m, ?a)"
    using None a(2) c(2) pos ref_ok [of m cb] by (simp add: pa_mcalign_push_def Let_def)
  moreover have "ma_ok ?m ?a"
  proof -
    have "chunk_ok ?m c" using c(1) by (simp add: chunk_ok_def)
    moreover have "mem_ok ?m" using ma_okD(3) [OF a(1)] pos by (simp add: mem_ok_def)
    moreover have "\<forall>b. ma_held ?a b \<le> mem_refs ?m b" using None a(2) c(2) by (simp add: ma_held_def holds_def)
    ultimately show ?thesis using ma_okD(1) [OF a(1)] None a(2) by (simp add: ma_ok_def)
  qed
  moreover have "ma_stream ?m ?a = ma_stream m a @ chunk_bytes m c"
    using None a(2) chunk_bytes_cong [OF c(2), of ?m m] by (simp add: ma_stream_def chunk_bytes_None)
  moreover have "\<forall>b. mem_refs ?m b + ma_held a b = mem_refs m b + ma_held ?a b" using None a(2) c(2) by (simp add: ma_held_def holds_def)
  ultimately show ?thesis by (intro exI [of _ ?m] exI [of _ ?a]) simp
next
  case (Some lb)
  note lo = ma_okD(4) [OF a(1) Some]
  have short: "mc_length (ma_leftover a) < ma_base a" using a(2,3) lo by (simp add: ma_stream_def chunk_bytes_None)
  have pos: "0 < mc_length c" using c by (auto simp: chunk_ok_def)
  show ?thesis
  proof (cases "lb = cb \<and> mc_index (ma_leftover a) + mc_length (ma_leftover a) = mc_index c")
    case False
    then have "pa_mcalign_push m a c = mcalign_copy m a c" using Some a(2) c(2) pos by (auto simp: pa_mcalign_push_def)
    then show ?thesis using copy_push_ok [OF a(1,2) Some short c] by simp
  next
    case True
    let ?lo = "(ma_leftover a)\<lparr>mc_length := mc_length (ma_leftover a) + mc_length c\<rparr>"
    let ?a = "if mc_length ?lo \<ge> ma_base a then a\<lparr>ma_current := ?lo, ma_leftover := pa_memchunk_reset\<rparr> else a\<lparr>ma_leftover := ?lo\<rparr>"
    have "pa_mcalign_push m a c = Inr (m, ?a)" using Some a(2) c(2) pos True by (simp add: pa_mcalign_push_def Let_def)
    moreover have bytes: "chunk_bytes m ?lo = chunk_bytes m (ma_leftover a) @ chunk_bytes m c"
      by (rule chunk_join) (use True Some c(2) in simp_all)
    moreover have "ma_ok m ?a"
    proof -
      have "chunk_ok m ?lo" using lo c True Some by (auto simp: chunk_ok_def)
      moreover have "\<forall>b. ma_held ?a b \<le> mem_refs m b"
        using ma_okD(2) [OF a(1)] a(2) by (simp add: ma_held_def holds_def)
      ultimately show ?thesis using ma_okD(1,3) [OF a(1)] a(2) by (simp add: ma_ok_def)
    qed
    moreover have "ma_stream m ?a = ma_stream m a @ chunk_bytes m c" using bytes a(2) by (simp add: ma_stream_def chunk_bytes_None)
    moreover have "\<forall>b. mem_refs m b + ma_held a b = mem_refs m b + ma_held ?a b" using a(2) by (simp add: ma_held_def holds_def)
    ultimately show ?thesis by (intro exI [of _ m] exI [of _ ?a]) simp
  qed
qed

section \<open>Cutting a stream into frames\<close>

declare mcalign_pops.simps [simp del] pa_mcalign_flush.simps [simp del]

definition held_all :: "pa_memchunk list \<Rightarrow> nat \<Rightarrow> nat" where
  "held_all cs b = sum_list (map (\<lambda>c. holds c b) cs)"

lemma pops_ok:
  assumes "ma_ok m a" and "length (ma_stream m a) \<le> fuel"
  shows "\<exists>cs m' a'. mcalign_pops fuel m a = Inr (cs, m', a') \<and> ma_ok m' a' \<and> ma_base a' = ma_base a \<and> length (ma_stream m' a') < ma_base a \<and>
    ma_stream m a = concat (map (chunk_bytes m') cs) @ ma_stream m' a' \<and> list_all (\<lambda>c. chunk_ok m' c \<and> ma_base a dvd mc_length c) cs \<and>
    mem_data m' = mem_data m \<and> mem_next m' = mem_next m \<and> (\<forall>b. mem_refs m' b + ma_held a b = mem_refs m b + ma_held a' b + held_all cs b)"
  using assms
proof (induction fuel arbitrary: m a)
  case 0
  then have "pa_mcalign_pop m a = Inr (None, m, a)" "length (ma_stream m a) < ma_base a"
    using pop_ok [OF 0(1)] by (auto simp: chunk_ok_def chunk_bytes_def)
  then show ?case using 0 by (subst mcalign_pops.simps) (auto simp: held_all_def)
next
  case (Suc fuel)
  note a = Suc.prems(1)
  from pop_ok [OF a] show ?case
  proof (elim disjE conjE exE)
    assume "length (ma_stream m a) < ma_base a" "pa_mcalign_pop m a = Inr (None, m, a)"
    then show ?thesis using a by (subst mcalign_pops.simps) (auto simp: held_all_def)
  next
    fix c m1 a1
    assume p: "pa_mcalign_pop m a = Inr (Some c, m1, a1)" "ma_ok m1 a1" "chunk_ok m1 c" "ma_base a dvd mc_length c"
      "ma_stream m a = chunk_bytes m c @ ma_stream m a1" "mem_data m1 = mem_data m" "mem_next m1 = mem_next m" "ma_base a1 = ma_base a"
      "\<forall>b. mem_refs m1 b + ma_held a b = mem_refs m b + ma_held a1 b + holds c b"
    have same: "chunk_bytes m1 = chunk_bytes m" "ma_stream m1 = ma_stream m"
      using chunk_bytes_same [OF p(6)] by (simp_all add: ma_stream_def fun_eq_iff)
    have "0 < length (chunk_bytes m c)" using chunk_bytes_length [OF p(3)] p(3) same(1) by (simp add: chunk_ok_def)
    then have "length (ma_stream m1 a1) \<le> fuel" using Suc.prems(2) unfolding p(5) same(2) length_append by linarith
    then obtain cs m2 a2 where i: "mcalign_pops fuel m1 a1 = Inr (cs, m2, a2)" "ma_ok m2 a2" "ma_base a2 = ma_base a1" "length (ma_stream m2 a2) < ma_base a1"
      "ma_stream m1 a1 = concat (map (chunk_bytes m2) cs) @ ma_stream m2 a2" "list_all (\<lambda>c. chunk_ok m2 c \<and> ma_base a1 dvd mc_length c) cs"
      "mem_data m2 = mem_data m1" "mem_next m2 = mem_next m1" "\<forall>b. mem_refs m2 b + ma_held a1 b = mem_refs m1 b + ma_held a2 b + held_all cs b"
      using Suc.IH [OF p(2)] by blast
    have "chunk_bytes m2 c = chunk_bytes m c" using chunk_bytes_same [of m2 m] i(7) p(6) by simp
    moreover have "chunk_ok m2 c" using p(3) i(7,8) by (simp add: chunk_ok_def)
    moreover have "mem_refs m2 b + ma_held a b = mem_refs m b + ma_held a2 b + held_all (c # cs) b" for b
      using p(9) [rule_format, of b] i(9) [rule_format, of b] by (simp add: held_all_def)
    moreover have "mcalign_pops (Suc fuel) m a = Inr (c # cs, m2, a2)" using p(1) i(1) by (subst mcalign_pops.simps) simp
    ultimately show ?thesis using i p same by (intro exI [of _ "c # cs"] exI [of _ m2] exI [of _ a2]) simp
  qed
qed

text \<open>C29. A chunk of any size is pushed while less than a frame is waiting, and everything that is complete is popped:
  the chunks that come out are whole frames, together with the rest they hold the bytes that were
  waiting and those of the new chunk, in order, and less than a frame is left. The reference counts of
  all blocks change by exactly the references that are handed out or kept.\<close>

theorem mcalign_cuts:
  assumes "ma_ok m a" "length (ma_stream m a) < ma_base a" and "chunk_ok m c" "mc_memblock c = Some cb" "owned m a cb"
    and "ma_base a + mc_length c \<le> fuel"
  shows "\<exists>m1 a1 cs m2 a2. pa_mcalign_push m a c = Inr (m1, a1) \<and> mcalign_pops fuel m1 a1 = Inr (cs, m2, a2) \<and>
    concat (map (chunk_bytes m2) cs) @ ma_stream m2 a2 = ma_stream m a @ chunk_bytes m c \<and>
    list_all (\<lambda>c. ma_base a dvd mc_length c) cs \<and> length (ma_stream m2 a2) < ma_base a \<and> ma_ok m2 a2 \<and>
    (\<forall>b. mem_refs m2 b + ma_held a b = mem_refs m b + ma_held a2 b + held_all cs b)"
proof -
  obtain m1 a1 where 1: "pa_mcalign_push m a c = Inr (m1, a1)" "ma_ok m1 a1" "ma_base a1 = ma_base a" "ma_stream m1 a1 = ma_stream m a @ chunk_bytes m c"
    "\<forall>b. mem_refs m1 b + ma_held a b = mem_refs m b + ma_held a1 b"
    using push_ok [OF assms(1) ma_short [OF assms(1,2)] assms(2-5)] by blast
  have "length (ma_stream m1 a1) \<le> fuel" using 1(4) assms(2,3,6) by simp
  then obtain cs m2 a2 where 2: "mcalign_pops fuel m1 a1 = Inr (cs, m2, a2)" "ma_ok m2 a2" "length (ma_stream m2 a2) < ma_base a1"
    "ma_stream m1 a1 = concat (map (chunk_bytes m2) cs) @ ma_stream m2 a2" "list_all (\<lambda>c. chunk_ok m2 c \<and> ma_base a1 dvd mc_length c) cs"
    "\<forall>b. mem_refs m2 b + ma_held a1 b = mem_refs m1 b + ma_held a2 b + held_all cs b" using pops_ok [OF 1(2)] by blast
  have "mem_refs m2 b + ma_held a b = mem_refs m b + ma_held a2 b + held_all cs b" for b
    using 1(5) [rule_format, of b] 2(6) [rule_format, of b] by linarith
  then show ?thesis using 1 2 by (intro exI [of _ m1] exI [of _ a1] exI [of _ cs] exI [of _ m2] exI [of _ a2]) (auto simp: list_all_iff)
qed

definition sample_mem :: pa_mem where
  "sample_mem = \<lparr>mem_data = (\<lambda>_. [1, 2, 3, 4, 5, 6, 7]), mem_refs = (\<lambda>b. if b < 5 then 1 else 0), mem_ro = (\<lambda>_. False), mem_next = 5, mem_junk = (\<lambda>_. 0)\<rparr>"

theorem mcalign_cuts_witness:
  "\<exists>m1 a1 cs m2 a2. pa_mcalign_push sample_mem \<lparr>ma_base = 4, ma_leftover = pa_memchunk_reset, ma_current = pa_memchunk_reset\<rparr>
       \<lparr>mc_memblock = Some 2, mc_index = 0, mc_length = 6\<rparr> = Inr (m1, a1) \<and> mcalign_pops 10 m1 a1 = Inr (cs, m2, a2) \<and>
     concat (map (chunk_bytes m2) cs) @ ma_stream m2 a2 = [1, 2, 3, 4, 5, 6] \<and> length (ma_stream m2 a2) < 4"
  using mcalign_cuts [of sample_mem "\<lparr>ma_base = 4, ma_leftover = pa_memchunk_reset, ma_current = pa_memchunk_reset\<rparr>"
      "\<lparr>mc_memblock = Some 2, mc_index = 0, mc_length = 6\<rparr>" 2 10]
  by (fastforce simp: sample_mem_def ma_ok_def ma_held_def mem_ok_def ma_stream_def chunk_ok_def owned_def chunk_bytes_def [of sample_mem, unfolded sample_mem_def])

end
