(* ===== verification/PaQueue.thy ===== *)
theory PaQueue
  imports PaMemblockq PaMcalign
begin

text \<open>
  The time line of a queue of memory chunks: which byte is at which position. The invariant of the queue says that
  its items are in order and do not overlap, that every chunk lies in its block, and that
  the queue has a reference for every item.
\<close>

section \<open>Items and the time line\<close>

definition items :: "pa_memblockq \<Rightarrow> list_item list" where
  "items bq = map (bq_item_at bq) (bq_blocks bq)"

definition item_byte :: "pa_mem \<Rightarrow> list_item \<Rightarrow> int \<Rightarrow> u8 option" where
  "item_byte m it t =
     (case mc_memblock (li_chunk it) of None \<Rightarrow> None
      | Some b \<Rightarrow> Some (mem_data m b ! (mc_index (li_chunk it) + nat (t - li_index it))))"

definition covers :: "list_item \<Rightarrow> int \<Rightarrow> bool" where
  "covers it t \<longleftrightarrow> li_index it \<le> t \<and> t < li_end it"

fun timeline :: "pa_mem \<Rightarrow> list_item list \<Rightarrow> int \<Rightarrow> u8 option" where
  "timeline m [] t = None"
| "timeline m (it # its) t = (if covers it t then item_byte m it t else timeline m its t)"

definition items_apart :: "list_item list \<Rightarrow> bool" where
  "items_apart its \<longleftrightarrow> sorted_wrt (\<lambda>x y. li_end x \<le> li_index y) its \<and> (\<forall>it \<in> set its. 0 < mc_length (li_chunk it))"

definition bq_held :: "pa_memblockq \<Rightarrow> nat \<Rightarrow> nat" where
  "bq_held bq b = held_all (map li_chunk (items bq)) b"

definition bq_ok :: "pa_mem \<Rightarrow> pa_memblockq \<Rightarrow> bool" where
  "bq_ok m bq \<longleftrightarrow> distinct (bq_blocks bq) \<and> bq_n_blocks bq = length (bq_blocks bq) \<and> (\<forall>q \<in> set (bq_blocks bq). q < bq_next_item bq) \<and>
     set_option (bq_current_read bq) \<subseteq> set (bq_blocks bq) \<and> set_option (bq_current_write bq) \<subseteq> set (bq_blocks bq) \<and>
     items_apart (items bq) \<and> (\<forall>it \<in> set (items bq). chunk_ok m (li_chunk it)) \<and> (\<forall>b. bq_held bq b \<le> mem_refs m b) \<and> 0 < bq_base bq"

lemma bq_okD:
  assumes "bq_ok m bq"
  shows "distinct (bq_blocks bq)" "bq_n_blocks bq = length (bq_blocks bq)" "\<forall>q \<in> set (bq_blocks bq). q < bq_next_item bq"
    "set_option (bq_current_read bq) \<subseteq> set (bq_blocks bq)" "set_option (bq_current_write bq) \<subseteq> set (bq_blocks bq)"
    "items_apart (items bq)" "\<forall>it \<in> set (items bq). chunk_ok m (li_chunk it)" "\<forall>b. bq_held bq b \<le> mem_refs m b" "0 < bq_base bq"
  using assms by (simp_all add: bq_ok_def)

text \<open>The fields that the list of items is not part of.\<close>

definition metrics :: "pa_memblockq \<Rightarrow> nat list" where
  "metrics bq = [bq_maxlength bq, bq_tlength bq, bq_base bq, bq_prebuf bq, bq_minreq bq, bq_maxrewind bq]"

definition same_rest :: "pa_memblockq \<Rightarrow> pa_memblockq \<Rightarrow> bool" where
  "same_rest bq bq' \<longleftrightarrow> metrics bq' = metrics bq \<and> bq_read_index bq' = bq_read_index bq \<and> bq_write_index bq' = bq_write_index bq \<and>
     bq_in_prebuf bq' = bq_in_prebuf bq \<and> bq_silence bq' = bq_silence bq \<and> bq_mcalign bq' = bq_mcalign bq \<and>
     bq_missing bq' = bq_missing bq \<and> bq_requested bq' = bq_requested bq"

lemma same_rest_refl [simp]: "same_rest bq bq"
  by (simp add: same_rest_def)

lemma same_rest_trans: "same_rest a b \<Longrightarrow> same_rest b c \<Longrightarrow> same_rest a c"
  by (simp add: same_rest_def)

lemma items_apart_append: "items_apart (xs @ ys) \<longleftrightarrow> items_apart xs \<and> items_apart ys \<and> (\<forall>x \<in> set xs. \<forall>y \<in> set ys. li_end x \<le> li_index y)"
  by (auto simp: items_apart_def sorted_wrt_append)

lemma items_apart_Cons: "items_apart (it # its) \<longleftrightarrow> 0 < mc_length (li_chunk it) \<and> (\<forall>y \<in> set its. li_end it \<le> li_index y) \<and> items_apart its"
  by (auto simp: items_apart_def)

lemma items_apart_Nil [simp]: "items_apart []"
  by (simp add: items_apart_def)

lemma li_end_greater: "items_apart its \<Longrightarrow> it \<in> set its \<Longrightarrow> li_index it < li_end it"
  by (simp add: items_apart_def li_end_def)

lemma timeline_append: "timeline m (xs @ ys) t = (if \<exists>x \<in> set xs. covers x t then timeline m xs t else timeline m ys t)"
  by (induction xs) auto

lemma timeline_none: "(\<And>x. x \<in> set xs \<Longrightarrow> \<not> covers x t) \<Longrightarrow> timeline m xs t = None"
  by (induction xs) auto

text \<open>Positions before or after all items of a list.\<close>

lemma timeline_left: "\<forall>x \<in> set xs. t < li_index x \<Longrightarrow> timeline m xs t = None"
  by (rule timeline_none) (auto simp: covers_def)

lemma timeline_right: "\<forall>x \<in> set xs. li_end x \<le> t \<Longrightarrow> timeline m xs t = None"
  by (rule timeline_none) (auto simp: covers_def)

lemma timeline_skip: "\<forall>x \<in> set xs. \<not> covers x t \<Longrightarrow> timeline m (xs @ ys) t = timeline m ys t"
  by (auto simp: timeline_append)

lemma timeline_cong: "mem_data m' = mem_data m \<Longrightarrow> timeline m' its t = timeline m its t"
  by (induction its) (auto simp: item_byte_def split: option.split)

section \<open>Neighbours\<close>

lemma around:
  assumes "distinct (as @ q # bs)"
  shows "before (as @ q # bs) q = rev as" "after (as @ q # bs) q = bs" "insert_after (as @ q # bs) q p = as @ q # p # bs"
proof -
  have "takeWhile (\<lambda>x. x \<noteq> q) (as @ q # bs) = as" "dropWhile (\<lambda>x. x \<noteq> q) (as @ q # bs) = q # bs"
    using assms by (auto simp: takeWhile_append dropWhile_append dest: set_dropWhileD)
  then show "before (as @ q # bs) q = rev as" "after (as @ q # bs) q = bs" "insert_after (as @ q # bs) q p = as @ q # p # bs"
    by (simp_all add: before_def after_def insert_after_def)
qed

lemma items_set: "distinct (as @ q # bs) \<Longrightarrow> bq_blocks bq = as @ q # bs \<Longrightarrow>
    items (set_item q it bq) = map (bq_item_at bq) as @ it # map (bq_item_at bq) bs"
  by (auto simp: items_def set_item_def)

lemma set_item_fields [simp]:
  "bq_blocks (set_item q it bq) = bq_blocks bq" "bq_item_at (set_item q it bq) = (bq_item_at bq)(q := it)"
  "bq_next_item (set_item q it bq) = bq_next_item bq" "bq_current_read (set_item q it bq) = bq_current_read bq"
  "bq_current_write (set_item q it bq) = bq_current_write bq" "bq_n_blocks (set_item q it bq) = bq_n_blocks bq"
  "bq_maxlength (set_item q it bq) = bq_maxlength bq" "bq_tlength (set_item q it bq) = bq_tlength bq" "bq_prebuf (set_item q it bq) = bq_prebuf bq"
  "bq_minreq (set_item q it bq) = bq_minreq bq" "bq_maxrewind (set_item q it bq) = bq_maxrewind bq" "bq_read_index (set_item q it bq) = bq_read_index bq"
  "bq_in_prebuf (set_item q it bq) = bq_in_prebuf bq" "bq_silence (set_item q it bq) = bq_silence bq" "bq_mcalign (set_item q it bq) = bq_mcalign bq"
  "bq_missing (set_item q it bq) = bq_missing bq" "bq_requested (set_item q it bq) = bq_requested bq"
  "bq_base (set_item q it bq) = bq_base bq" "bq_write_index (set_item q it bq) = bq_write_index bq" "same_rest bq (set_item q it bq)"
  by (simp_all add: set_item_def same_rest_def metrics_def)

lemma held_all_simps [simp]: "held_all [] b = 0" "held_all (c # cs) b = holds c b + held_all cs b" "held_all (cs @ ds) b = held_all cs b + held_all ds b"
  by (simp_all add: held_all_def)

lemma first_of_simps [simp]: "first_of [] = None" "first_of (x # xs) = Some x" "set_option (first_of xs) \<subseteq> set xs"
  by (simp_all add: first_of_def split: list.split)

lemma chunk_block: "chunk_ok m c \<Longrightarrow> \<exists>b. mc_memblock c = Some b"
  by (auto simp: chunk_ok_def)

lemma chunk_ok_refs [simp]: "chunk_ok (m\<lparr>mem_refs := f\<rparr>) c = chunk_ok m c"
  by (simp add: chunk_ok_def)

text \<open>A queue stays in order when some of its items go away or get smaller.\<close>

lemma bq_okI:
  assumes "bq_ok m bq" and "distinct (bq_blocks bq')" "bq_n_blocks bq' = length (bq_blocks bq')" "\<forall>q \<in> set (bq_blocks bq'). q < bq_next_item bq'"
    "set_option (bq_current_read bq') \<subseteq> set (bq_blocks bq')" "set_option (bq_current_write bq') \<subseteq> set (bq_blocks bq')"
    "items_apart (items bq')" "\<forall>it \<in> set (items bq'). chunk_ok m' (li_chunk it)" and refs: "\<And>b. mem_refs m' b + bq_held bq b = mem_refs m b + bq_held bq' b"
    "bq_base bq' = bq_base bq"
  shows "bq_ok m' bq'"
proof -
  have "bq_held bq' b \<le> mem_refs m' b" for b using bq_okD(8) [OF assms(1), rule_format, of b] refs(1) [of b] by linarith
  then show ?thesis using assms bq_okD(9) [OF assms(1)] by (simp add: bq_ok_def)
qed

lemma first_of_in: "first_of xs = Some x \<Longrightarrow> x \<in> set xs"
  by (cases xs) simp_all

text \<open>What \<open>drop_block\<close> does, also to an item that has been cut to nothing.\<close>

lemma drop_block_eq:
  assumes d: "distinct (as @ q # bs)" and "bq_blocks bq = as @ q # bs" "0 < bq_n_blocks bq"
    and "mc_memblock (li_chunk (bq_item_at bq q)) = Some b" "0 < mem_refs m b"
  shows "drop_block m bq q = Inr (m\<lparr>mem_refs := (mem_refs m)(b := mem_refs m b - 1)\<rparr>,
     bq\<lparr>bq_blocks := as @ bs, bq_current_write := if bq_current_write bq = Some q then first_of (rev as) else bq_current_write bq,
      bq_current_read := if bq_current_read bq = Some q then first_of bs else bq_current_read bq, bq_n_blocks := bq_n_blocks bq - 1\<rparr>)"
  unfolding drop_block_def Let_def assms(2) around [OF d] using assms(3,4) unref_ok [OF assms(5)] by simp

lemma currents_ok:
  assumes "set_option r \<subseteq> set (as @ q # bs)" "set_option w \<subseteq> set (as @ q # bs)"
  shows "set_option (if r = Some q then first_of bs else r) \<subseteq> set (as @ bs)" "set_option (if w = Some q then first_of (rev as) else w) \<subseteq> set (as @ bs)"
  using assms first_of_in [of bs] first_of_in [of "rev as"] by (auto split: if_splits)

lemma drop_block_ok:
  assumes ok: "bq_ok m bq" and bs: "bq_blocks bq = as @ q # bs"
  shows "\<exists>m' bq'. drop_block m bq q = Inr (m', bq') \<and> bq_ok m' bq' \<and> bq_blocks bq' = as @ bs \<and> bq_item_at bq' = bq_item_at bq \<and>
     same_rest bq bq' \<and> mem_data m' = mem_data m \<and> mem_next m' = mem_next m \<and> (\<forall>b. mem_refs m' b + bq_held bq b = mem_refs m b + bq_held bq' b)"
proof -
  have d: "distinct (as @ q # bs)" using bq_okD(1) [OF ok] bs by simp
  let ?it = "bq_item_at bq q"
  have it: "?it \<in> set (items bq)" using bs by (simp add: items_def)
  obtain b where b: "mc_memblock (li_chunk ?it) = Some b" using chunk_block bq_okD(7) [OF ok] it by blast
  have all: "items bq = map (bq_item_at bq) as @ ?it # map (bq_item_at bq) bs" using bs by (simp add: items_def)
  have pos: "0 < mem_refs m b" using b bq_okD(8) [OF ok, rule_format, of b] unfolding bq_held_def all by (simp add: holds_def)
  let ?m = "m\<lparr>mem_refs := (mem_refs m)(b := mem_refs m b - 1)\<rparr>"
  let ?bq = "bq\<lparr>bq_blocks := as @ bs, bq_current_write := if bq_current_write bq = Some q then first_of (rev as) else bq_current_write bq,
      bq_current_read := if bq_current_read bq = Some q then first_of bs else bq_current_read bq, bq_n_blocks := bq_n_blocks bq - 1\<rparr>"
  have n: "bq_n_blocks bq = Suc (length (as @ bs))" using bq_okD(2) [OF ok] bs by simp
  have eq: "drop_block m bq q = Inr (?m, ?bq)" by (rule drop_block_eq [OF d bs _ b pos]) (simp add: n)
  have it': "items ?bq = map (bq_item_at bq) as @ map (bq_item_at bq) bs" by (simp add: items_def)
  have refs: "mem_refs ?m x + bq_held bq x = mem_refs m x + bq_held ?bq x" for x
    using b pos unfolding bq_held_def it' all by (auto simp: holds_def)
  have "bq_ok ?m ?bq"
  proof (rule bq_okI [OF ok])
    show "set_option (bq_current_read ?bq) \<subseteq> set (bq_blocks ?bq)" "set_option (bq_current_write ?bq) \<subseteq> set (bq_blocks ?bq)"
      using currents_ok [of "bq_current_read bq" as q bs "bq_current_write bq"] bq_okD(4,5) [OF ok] bs by simp_all
    show "items_apart (items ?bq)" using bq_okD(6) [OF ok] unfolding it' all by (auto simp: items_apart_append items_apart_Cons)
    show "\<forall>it \<in> set (items ?bq). chunk_ok ?m (li_chunk it)" using bq_okD(7) [OF ok] unfolding it' all by auto
  qed (use d n bq_okD(3) [OF ok] bs refs in auto)
  then show ?thesis using eq refs by (intro exI [of _ ?m] exI [of _ ?bq]) (simp add: same_rest_def metrics_def)
qed

end
