(* ===== verification/PaPush.thy ===== *)
theory PaPush
  imports PaQueue
begin

text \<open>
  Pushing a chunk on a queue: what was at its place goes away and the bytes of the chunk are there. The end of
  an item that the chunk overwrites in its middle or at its start keeps its place on the time line but begins with the
  first bytes of the item, because its position in the memory block is not moved.
\<close>

section \<open>Positions after a split\<close>

definition overhangs :: "int \<Rightarrow> int \<Rightarrow> list_item \<Rightarrow> bool" where
  "overhangs w e it \<longleftrightarrow> li_index it \<le> w \<and> e < li_end it"

fun shifted :: "int \<Rightarrow> int \<Rightarrow> list_item list \<Rightarrow> int \<Rightarrow> int" where
  "shifted w e [] t = t"
| "shifted w e (it # its) t = (if overhangs w e it \<and> e \<le> t \<and> t < li_end it then t - (e - li_index it) else shifted w e its t)"

lemma shifted_none: "\<forall>it \<in> set its. \<not> overhangs w e it \<Longrightarrow> shifted w e its t = t"
  by (induction its) simp_all

lemma shifted_append: "\<forall>it \<in> set as. \<not> overhangs w e it \<Longrightarrow> shifted w e (as @ bs) t = shifted w e bs t"
  by (induction as) simp_all

definition push_ready :: "int \<Rightarrow> pa_mem \<Rightarrow> pa_memblockq \<Rightarrow> nat option \<Rightarrow> pa_mem \<Rightarrow> pa_memblockq \<Rightarrow> bool" where
  "push_ready e m bq q m' bq' \<longleftrightarrow>
     bq_ok m' bq' \<and> same_rest bq bq' \<and> mem_data m' = mem_data m \<and> mem_next m' = mem_next m \<and>
     (\<forall>b. mem_refs m' b + bq_held bq b = mem_refs m b + bq_held bq' b) \<and>
     (\<exists>ls rs. bq_blocks bq' = ls @ rs \<and> q = first_of (rev ls) \<and> (\<forall>x \<in> set ls. li_end (bq_item_at bq' x) \<le> bq_write_index bq) \<and>
        (\<forall>x \<in> set rs. e \<le> li_index (bq_item_at bq' x))) \<and>
     (\<forall>t. t < bq_write_index bq \<or> e \<le> t \<longrightarrow>
        timeline m' (items bq') t = timeline m (items bq) (shifted (bq_write_index bq) e (items bq) t))"

lemma push_ready_step:
  assumes "push_ready e m1 bq1 q m' bq'" and "same_rest bq bq1" "mem_data m1 = mem_data m" "mem_next m1 = mem_next m"
    and "\<forall>b. mem_refs m1 b + bq_held bq b = mem_refs m b + bq_held bq1 b"
    and "\<And>t. t < bq_write_index bq \<or> e \<le> t \<Longrightarrow> timeline m1 (items bq1) t = timeline m (items bq) t"
    and "\<forall>it \<in> set (items bq). \<not> overhangs (bq_write_index bq) e it" "\<forall>it \<in> set (items bq1). \<not> overhangs (bq_write_index bq) e it"
  shows "push_ready e m bq q m' bq'"
proof -
  have w: "bq_write_index bq1 = bq_write_index bq" using assms(2) by (simp add: same_rest_def)
  have r: "bq_ok m' bq'" "same_rest bq1 bq'" "mem_data m' = mem_data m1" "mem_next m' = mem_next m1"
    "\<forall>b. mem_refs m' b + bq_held bq1 b = mem_refs m1 b + bq_held bq' b"
    "\<exists>ls rs. bq_blocks bq' = ls @ rs \<and> q = first_of (rev ls) \<and> (\<forall>x \<in> set ls. li_end (bq_item_at bq' x) \<le> bq_write_index bq) \<and>
        (\<forall>x \<in> set rs. e \<le> li_index (bq_item_at bq' x))"
    "\<forall>t. t < bq_write_index bq \<or> e \<le> t \<longrightarrow> timeline m' (items bq') t = timeline m1 (items bq1) t"
    using assms(1) unfolding push_ready_def w shifted_none [OF assms(8)] by blast+
  have "mem_refs m' b + bq_held bq b = mem_refs m b + bq_held bq' b" for b
    using r(5) [rule_format, of b] assms(5) [rule_format, of b] by linarith
  moreover have "same_rest bq bq'" using same_rest_trans [OF assms(2) r(2)] .
  moreover have "timeline m' (items bq') t = timeline m (items bq) t" if "t < bq_write_index bq \<or> e \<le> t" for t
    using r(7) [rule_format, OF that] assms(6) [OF that] by simp
  ultimately show ?thesis using r(1,3,4,6) assms(3,4) unfolding push_ready_def shifted_none [OF assms(7)] by simp
qed

section \<open>Cutting an item\<close>

text \<open>What the queue looks like when an item is replaced by up to two others.\<close>

lemma bq_ok_replace:
  assumes ok: "bq_ok m bq" and its: "items bq = A @ it # B" and new: "items bq' = A @ N @ B"
    and "bq_blocks bq = as @ q # bs" "bq_blocks bq' = as @ ns @ bs" "distinct ns" "set ns \<subseteq> {q, bq_next_item bq}" "bq_n_blocks bq' = length (bq_blocks bq')"
    and "bq_next_item bq \<le> bq_next_item bq'" "\<forall>x \<in> set ns. x < bq_next_item bq'"
    and "set_option (bq_current_read bq') \<subseteq> set (bq_blocks bq')" "set_option (bq_current_write bq') \<subseteq> set (bq_blocks bq')"
    and inside: "items_apart N" "\<forall>x \<in> set N. li_index it \<le> li_index x \<and> li_end x \<le> li_end it"
    and "\<forall>x \<in> set N. chunk_ok m' (li_chunk x)" "mem_data m' = mem_data m" "mem_next m' = mem_next m"
    and "\<And>b. mem_refs m' b + bq_held bq b = mem_refs m b + bq_held bq' b" "bq_base bq' = bq_base bq"
  shows "bq_ok m' bq'"
proof (rule bq_okI [OF ok])
  show "distinct (bq_blocks bq')" using bq_okD(1,3) [OF ok] assms(4-7) by fastforce
  show "\<forall>q \<in> set (bq_blocks bq'). q < bq_next_item bq'" using bq_okD(3) [OF ok] assms(4,5,9,10) by (auto intro: less_le_trans)
  have "items_apart (A @ it # B)" using bq_okD(6) [OF ok] its by simp
  then show "items_apart (items bq')" unfolding new using inside by (fastforce simp: items_apart_append items_apart_Cons)
  have "\<forall>x \<in> set (A @ B). chunk_ok m (li_chunk x)" using bq_okD(7) [OF ok] its by auto
  then show "\<forall>x \<in> set (items bq'). chunk_ok m' (li_chunk x)" unfolding new using assms(15-17) by (auto simp: chunk_ok_def)
qed (use assms in simp_all)

lemma items_split: "bq_blocks bq = as @ q # bs \<Longrightarrow> items bq = map (bq_item_at bq) as @ bq_item_at bq q # map (bq_item_at bq) bs"
  by (simp add: items_def)

definition kept :: "int \<Rightarrow> list_item \<Rightarrow> list_item" where
  "kept w it = it\<lparr>li_chunk := (li_chunk it)\<lparr>mc_length := nat (w - li_index it)\<rparr>\<rparr>"

definition saved :: "int \<Rightarrow> list_item \<Rightarrow> list_item" where
  "saved e it = \<lparr>li_index = e, li_chunk = (li_chunk it)\<lparr>mc_length := mc_length (li_chunk it) - nat (e - li_index it)\<rparr>\<rparr>"

definition pieces :: "int \<Rightarrow> int \<Rightarrow> list_item \<Rightarrow> list_item list" where
  "pieces w e it = (if li_index it < w then [kept w it] else []) @ (if e < li_end it then [saved e it] else [])"

lemma kept_simps: "li_index (kept w it) = li_index it" "li_index it \<le> w \<Longrightarrow> li_end (kept w it) = w" "item_byte m (kept w it) t = item_byte m it t"
  by (simp_all add: kept_def li_end_def item_byte_def split: option.split)

lemma saved_simps:
  "li_index (saved e it) = e" "li_index it \<le> e \<Longrightarrow> e \<le> li_end it \<Longrightarrow> li_end (saved e it) = li_end it"
  "item_byte m (saved e it) t = item_byte m it (t - (e - li_index it))"
  by (simp_all add: saved_def li_end_def item_byte_def split: option.split)

lemma shifted_below: "t < e \<Longrightarrow> shifted w e its t = t"
  by (induction its) simp_all

lemma timeline_cut:
  assumes ap: "items_apart (A @ it # B)" and w: "li_index it \<le> w" "w < li_end it" "w < e" and B: "\<forall>x \<in> set B. e \<le> li_index x"
    and t: "t < w \<or> e \<le> t"
  shows "timeline m (A @ pieces w e it @ B) t = timeline m (A @ it # B) (shifted w e (A @ it # B) t)"
proof -
  have A: "\<forall>x \<in> set A. li_end x \<le> li_index it" using ap by (auto simp: items_apart_append)
  have nA: "\<forall>x \<in> set A. \<not> overhangs w e x" and nB: "\<forall>x \<in> set B. \<not> overhangs w e x" using A B w by (fastforce simp: overhangs_def)+
  from t show ?thesis
  proof
    assume t: "t < w"
    have "timeline m (pieces w e it @ B) t = timeline m (it # B) t"
      using t w by (auto simp: pieces_def covers_def kept_simps saved_simps)
    then show ?thesis using shifted_below [of t e] t w by (simp add: timeline_append)
  next
    assume t: "e \<le> t"
    have not_kept: "\<not> covers (kept w it) t" using t w by (simp add: covers_def kept_simps)
    show ?thesis
    proof (cases "t < li_end it")
      case True
      let ?s = "t - (e - li_index it)"
      have s: "shifted w e (A @ it # B) t = ?s" using shifted_append [OF nA] True t w by (simp add: overhangs_def)
      have "\<forall>x \<in> set A. \<not> covers x t" "\<forall>x \<in> set A. \<not> covers x ?s" using A t w by (fastforce simp: covers_def)+
      moreover have "covers it ?s" "covers (saved e it) t" using True t w by (auto simp: covers_def saved_simps)
      ultimately show ?thesis unfolding s using True t not_kept by (simp add: timeline_append pieces_def saved_simps)
    next
      case False
      have s: "shifted w e (A @ it # B) t = t" using shifted_append [OF nA] shifted_none [OF nB] False by simp
      have "\<not> covers (saved e it) t" if "e < li_end it" using False t w that by (auto simp: covers_def saved_simps)
      then show ?thesis unfolding s using False not_kept by (auto simp: timeline_append pieces_def covers_def)
    qed
  qed
qed

lemma pieces_ok:
  assumes "chunk_ok m (li_chunk it)" "li_index it \<le> w" "w < li_end it" "w < e" "li_index it < e"
  shows "items_apart (pieces w e it)" "\<forall>x \<in> set (pieces w e it). li_index it \<le> li_index x \<and> li_end x \<le> li_end it"
    "\<forall>x \<in> set (pieces w e it). chunk_ok m (li_chunk x)"
    "held_all (map li_chunk (pieces w e it)) b = length (pieces w e it) * holds (li_chunk it) b"
proof -
  show "items_apart (pieces w e it)" using assms by (auto simp: pieces_def items_apart_Cons kept_simps saved_simps) (auto simp: kept_def saved_def li_end_def)
  show "\<forall>x \<in> set (pieces w e it). li_index it \<le> li_index x \<and> li_end x \<le> li_end it"
    using assms by (auto simp: pieces_def kept_simps saved_simps)
  show "\<forall>x \<in> set (pieces w e it). chunk_ok m (li_chunk x)"
    using assms by (auto simp: pieces_def kept_def saved_def chunk_ok_def li_end_def)
  show "held_all (map li_chunk (pieces w e it)) b = length (pieces w e it) * holds (li_chunk it) b"
    by (simp add: pieces_def kept_def saved_def holds_def)
qed

text \<open>The three ways an item is cut have the same outcome: its pieces are in its place.\<close>

lemma cut_ready:
  assumes ok: "bq_ok m bq" and bs: "bq_blocks bq = as @ q # bs" and it: "it = bq_item_at bq q" and w: "w = bq_write_index bq"
    and cut: "li_index it \<le> w" "w < li_end it" "w < e" "li_index it < e" and B: "\<forall>x \<in> set bs. e \<le> li_index (bq_item_at bq x)"
    and bs': "bq_blocks bq' = as @ (if li_index it < w then [q] else []) @ (if e < li_end it then [bq_next_item bq] else []) @ bs"
    and at: "\<forall>x \<in> set as \<union> set bs. bq_item_at bq' x = bq_item_at bq x" "li_index it < w \<Longrightarrow> bq_item_at bq' q = kept w it"
      "e < li_end it \<Longrightarrow> bq_item_at bq' (bq_next_item bq) = saved e it"
    and n: "bq_n_blocks bq' = length (bq_blocks bq')" "bq_next_item bq \<le> bq_next_item bq'" "e < li_end it \<Longrightarrow> bq_next_item bq < bq_next_item bq'"
    and cur: "set_option (bq_current_read bq') \<subseteq> set (bq_blocks bq')" "set_option (bq_current_write bq') \<subseteq> set (bq_blocks bq')"
    and rest: "same_rest bq bq'" and m: "mem_data m' = mem_data m" "mem_next m' = mem_next m"
    and refs: "\<And>b. mem_refs m' b + holds (li_chunk it) b = mem_refs m b + length (pieces w e it) * holds (li_chunk it) b"
    and q': "q' = (if li_index it < w then Some q else first_of (rev as))"
  shows "push_ready e m bq q' m' bq'"
proof -
  let ?A = "map (bq_item_at bq) as" and ?B = "map (bq_item_at bq) bs"
  let ?ls = "if li_index it < w then [q] else []" and ?rs = "if e < li_end it then [bq_next_item bq] else []"
  have its: "items bq = ?A @ it # ?B" using items_split [OF bs] it by simp
  have its': "items bq' = ?A @ pieces w e it @ ?B" unfolding items_def bs' using at by (simp add: pieces_def)
  have "it \<in> set (items bq)" using its by simp
  then have c: "chunk_ok m (li_chunk it)" using bq_okD(7) [OF ok] by blast
  note p = pieces_ok [OF c cut]
  have cm: "chunk_ok m' = chunk_ok m" using m by (simp add: chunk_ok_def fun_eq_iff)
  have held: "mem_refs m' b + bq_held bq b = mem_refs m b + bq_held bq' b" for b
    using refs [of b] p(4) [of b] unfolding bq_held_def its its' by simp
  have q: "q < bq_next_item bq" using bq_okD(3) [OF ok] bs by simp
  have "bq_ok m' bq'"
    by (rule bq_ok_replace [OF ok its its' bs, where ns = "?ls @ ?rs"])
      (use bs' n cur p q m held rest cm in \<open>auto simp: same_rest_def metrics_def\<close>)
  moreover have "\<forall>x \<in> set (as @ ?ls). li_end (bq_item_at bq' x) \<le> w"
  proof -
    have "\<forall>x \<in> set as. li_end (bq_item_at bq x) \<le> li_index it" using bq_okD(6) [OF ok] its by (auto simp: items_apart_append)
    then show ?thesis using at cut by (fastforce simp: kept_simps)
  qed
  moreover have "\<forall>x \<in> set (?rs @ bs). e \<le> li_index (bq_item_at bq' x)" using at B by (auto simp: saved_simps)
  moreover have "timeline m' (items bq') t = timeline m (items bq) (shifted w e (items bq) t)" if "t < w \<or> e \<le> t" for t
    using timeline_cut [of ?A it ?B, OF _ cut(1-3) _ that] bq_okD(6) [OF ok] B timeline_cong [OF m(1)] unfolding its its' by simp
  moreover have "bq_blocks bq' = (as @ ?ls) @ ?rs @ bs" using bs' by simp
  moreover have "q' = first_of (rev (as @ ?ls))" using q' by simp
  ultimately show ?thesis using rest m held w unfolding push_ready_def by blast
qed

lemma push_truncate_ok:
  assumes ok: "bq_ok m bq" and bs: "bq_blocks bq = rev qs @ q # bs" and it: "it = bq_item_at bq q" and w: "w = bq_write_index bq"
    and cut: "li_index it \<le> w" "w < li_end it" "w < e" "li_index it < e" and B: "\<forall>x \<in> set bs. e \<le> li_index (bq_item_at bq x)"
    and some: "li_index it < w \<or> e < li_end it"
  shows "\<exists>q' m' bq'. push_truncate m bq e q qs = Inr (q', m', bq') \<and> push_ready e m bq q' m' bq'"
proof (cases "e < li_end it")
  case False
  let ?bq = "set_item q (kept w it) bq"
  have d: "distinct (rev qs @ q # bs)" using bq_okD(1) [OF ok] bs by simp
  have "push_truncate m bq e q qs = Inr (Some q, m, ?bq)"
    using False some it w by (simp add: push_truncate_def Let_def kept_def)
  moreover have "push_ready e m bq (Some q) m ?bq"
    by (rule cut_ready [OF ok bs it w cut B]) (use False some bs d bq_okD [OF ok] in \<open>auto simp: pieces_def\<close>)
  ultimately show ?thesis by blast
next
  case True
  let ?p = "bq_next_item bq"
  have d: "distinct (rev qs @ q # bs)" "?p \<notin> set (rev qs @ q # bs)" "q \<noteq> ?p" using bq_okD(1,3) [OF ok] bs by auto
  have "it \<in> set (items bq)" using items_split [OF bs] it by simp
  then obtain b where b: "mc_memblock (li_chunk it) = Some b" using chunk_block bq_okD(7) [OF ok] by blast
  have pos: "0 < mem_refs m b" using bq_okD(8) [OF ok, rule_format, of b] b it items_split [OF bs] by (simp add: bq_held_def holds_def)
  let ?m1 = "m\<lparr>mem_refs := (mem_refs m)(b := mem_refs m b + 1)\<rparr>"
  let ?bq1 = "(set_item ?p (saved e it) bq)\<lparr>bq_next_item := ?p + 1, bq_blocks := rev qs @ q # ?p # bs, bq_n_blocks := bq_n_blocks bq + 1\<rparr>"
  have split: "push_split m bq e q = Inr (?m1, ?bq1)"
    using b it pos cut around(3) [OF d(1)] by (simp add: push_split_def Let_def ref_ok saved_def bs)
  let ?bq2 = "set_item q (kept w it) ?bq1"
  have w1: "bq_write_index ?bq1 = w" "bq_item_at ?bq1 q = it" using w it d(3) by simp_all
  show ?thesis
  proof (cases "li_index it < w")
    case l: True
    have "push_truncate m bq e q qs = Inr (Some q, ?m1, ?bq2)"
      unfolding push_truncate_def it [symmetric] using True split w1 l by (simp add: Let_def kept_def)
    moreover have "push_ready e m bq (Some q) ?m1 ?bq2"
      by (rule cut_ready [OF ok bs it w cut B]) (use True l bs d bq_okD [OF ok] b in \<open>auto simp: pieces_def same_rest_def metrics_def holds_def\<close>)
    ultimately show ?thesis by blast
  next
    case l: False
    let ?m3 = "?m1\<lparr>mem_refs := (mem_refs ?m1)(b := mem_refs ?m1 b - 1)\<rparr>"
    let ?bq3 = "?bq2\<lparr>bq_blocks := rev qs @ ?p # bs, bq_current_write := if bq_current_write bq = Some q then first_of (rev (rev qs)) else bq_current_write bq,
      bq_current_read := if bq_current_read bq = Some q then first_of (?p # bs) else bq_current_read bq, bq_n_blocks := bq_n_blocks bq + 1 - 1\<rparr>"
    have "drop_block ?m1 ?bq2 q = Inr (?m3, ?bq3)"
      by (subst drop_block_eq [where as = "rev qs" and bs = "?p # bs" and b = b]) (use d b in \<open>auto simp: kept_def\<close>)
    then have "push_truncate m bq e q qs = Inr (first_of qs, ?m3, ?bq3)"
      unfolding push_truncate_def it [symmetric] using True split w1 l cut by (simp add: Let_def kept_def)
    moreover have cur: "set_option (bq_current_read bq) \<subseteq> set (rev qs @ q # ?p # bs)" "set_option (bq_current_write bq) \<subseteq> set (rev qs @ q # ?p # bs)"
      using bq_okD(4,5) [OF ok] bs by auto
    moreover have "push_ready e m bq (first_of qs) ?m3 ?bq3"
    proof (rule cut_ready [OF ok bs it w cut B])
      show "set_option (bq_current_read ?bq3) \<subseteq> set (bq_blocks ?bq3)" "set_option (bq_current_write ?bq3) \<subseteq> set (bq_blocks ?bq3)"
        using currents_ok [of "bq_current_read bq" "rev qs" q "?p # bs" "bq_current_write bq"] cur by simp_all
    qed (use True l bs d bq_okD(2) [OF ok] b in \<open>auto simp: pieces_def same_rest_def metrics_def holds_def\<close>)
    ultimately show ?thesis by blast
  qed
qed

section \<open>From back to front\<close>

definition trimmed :: "int \<Rightarrow> list_item \<Rightarrow> list_item" where
  "trimmed e it = (let d = nat (e - li_index it) in it\<lparr>li_index := li_index it + int d,
     li_chunk := (li_chunk it)\<lparr>mc_index := mc_index (li_chunk it) + d, mc_length := mc_length (li_chunk it) - d\<rparr>\<rparr>)"

lemma trimmed_simps:
  assumes "li_index it \<le> e" "e < li_end it"
  shows "li_index (trimmed e it) = e" "li_end (trimmed e it) = li_end it" "e \<le> t \<Longrightarrow> item_byte m (trimmed e it) t = item_byte m it t"
    "chunk_ok m (li_chunk it) \<Longrightarrow> chunk_ok m (li_chunk (trimmed e it))" "holds (li_chunk (trimmed e it)) b = holds (li_chunk it) b"
    "0 < mc_length (li_chunk (trimmed e it))"
proof -
  show "e \<le> t \<Longrightarrow> item_byte m (trimmed e it) t = item_byte m it t"
    using assms by (auto simp: trimmed_def Let_def item_byte_def nat_add_distrib [symmetric] add.assoc split: option.split)
qed (use assms in \<open>auto simp: trimmed_def Let_def li_end_def chunk_ok_def holds_def\<close>)

lemma timeline_swap:
  assumes "covers x t = covers y t" "covers x t \<Longrightarrow> item_byte m x t = item_byte m y t"
  shows "timeline m (A @ x # B) t = timeline m (A @ y # B) t"
  using assms by (simp add: timeline_append)

lemma trim_ok:
  assumes ok: "bq_ok m bq" and bs: "bq_blocks bq = as @ q # bs" and it: "it = bq_item_at bq q" and "li_index it \<le> e" "e < li_end it"
  defines "bq' \<equiv> set_item q (trimmed e it) bq"
  shows "bq_ok m bq'" "items bq' = map (bq_item_at bq) as @ trimmed e it # map (bq_item_at bq) bs" "bq_held bq' = bq_held bq"
proof -
  have d: "distinct (as @ q # bs)" using bq_okD(1) [OF ok] bs by simp
  have its: "items bq = map (bq_item_at bq) as @ it # map (bq_item_at bq) bs" using items_split [OF bs] it by simp
  show its': "items bq' = map (bq_item_at bq) as @ trimmed e it # map (bq_item_at bq) bs" unfolding bq'_def using items_set [OF d bs] .
  note t = trimmed_simps [OF assms(4,5)]
  show held: "bq_held bq' = bq_held bq" unfolding bq_held_def its its' using t(5) by (simp add: fun_eq_iff)
  have "it \<in> set (items bq)" using its by simp
  then have c: "chunk_ok m (li_chunk it)" using bq_okD(7) [OF ok] by blast
  show "bq_ok m bq'"
    by (rule bq_ok_replace [OF ok its, where ns = "[q]" and N = "[trimmed e it]", OF _ bs])
      (use its' bs t assms(4) c held bq_okD(2-5) [OF ok] in \<open>auto simp: bq'_def items_apart_Cons\<close>)
qed

lemma push_ready_refl:
  assumes "bq_ok m bq" and bs: "bq_blocks bq = ls @ rs" and "q = first_of (rev ls)" "bq_write_index bq < e"
    and "\<forall>x \<in> set ls. li_end (bq_item_at bq x) \<le> bq_write_index bq" "\<forall>x \<in> set rs. e \<le> li_index (bq_item_at bq x)"
  shows "push_ready e m bq q m bq"
proof -
  have "\<forall>it \<in> set (items bq). \<not> overhangs (bq_write_index bq) e it" using assms(4-6) unfolding items_def bs by (fastforce simp: overhangs_def)
  then have "timeline m (items bq) (shifted (bq_write_index bq) e (items bq) t) = timeline m (items bq) t" for t by (simp add: shifted_none)
  then show ?thesis unfolding push_ready_def using assms by auto
qed

text \<open>The two steps after which the loop goes on with a changed queue: an item that is covered goes away, and the start of one goes away.\<close>

lemma no_splits_around:
  assumes "items_apart (A @ it # B)" "\<forall>x \<in> set B. e \<le> li_index x" "w < e" "li_index it < e" "x \<in> set A \<or> x \<in> set B"
  shows "\<not> overhangs w e x"
proof -
  have "li_end x \<le> li_index it" if "x \<in> set A" using assms(1) that by (auto simp: items_apart_append)
  then show ?thesis using assms(2-5) by (auto simp: overhangs_def)
qed

lemma drop_step:
  assumes ok: "bq_ok m bq" and bs: "bq_blocks bq = as @ q # bs" and w: "bq_write_index bq < e" and B: "\<forall>x \<in> set bs. e \<le> li_index (bq_item_at bq x)"
    and c: "bq_write_index bq \<le> li_index (bq_item_at bq q)" "li_index (bq_item_at bq q) < e" "li_end (bq_item_at bq q) \<le> e"
  shows "\<exists>m1 bq1. drop_block m bq q = Inr (m1, bq1) \<and> bq_ok m1 bq1 \<and> bq_blocks bq1 = as @ bs \<and> bq_item_at bq1 = bq_item_at bq \<and> bq_write_index bq1 = bq_write_index bq \<and>
     (\<forall>q' m' bq'. push_ready e m1 bq1 q' m' bq' \<longrightarrow> push_ready e m bq q' m' bq')"
proof -
  let ?A = "map (bq_item_at bq) as" and ?B = "map (bq_item_at bq) bs" and ?it = "bq_item_at bq q"
  obtain m1 bq1 where d: "drop_block m bq q = Inr (m1, bq1)" "bq_ok m1 bq1" "bq_blocks bq1 = as @ bs" "bq_item_at bq1 = bq_item_at bq"
      "same_rest bq bq1" "mem_data m1 = mem_data m" "mem_next m1 = mem_next m" "\<forall>b. mem_refs m1 b + bq_held bq b = mem_refs m b + bq_held bq1 b"
    using drop_block_ok [OF ok bs] by blast
  have its: "items bq = ?A @ ?it # ?B" "items bq1 = ?A @ ?B" using items_split [OF bs] d by (simp_all add: items_def)
  have "\<not> overhangs (bq_write_index bq) e x" if "x \<in> set ?A \<or> x \<in> set ?B" for x
    using no_splits_around [of ?A ?it ?B e] bq_okD(6) [OF ok] B w c(2) that unfolding its by simp
  moreover have "\<not> overhangs (bq_write_index bq) e ?it" using c(3) by (simp add: overhangs_def)
  ultimately have ns: "\<forall>x \<in> set (items bq). \<not> overhangs (bq_write_index bq) e x" "\<forall>x \<in> set (items bq1). \<not> overhangs (bq_write_index bq) e x"
    unfolding its by auto
  have "timeline m1 (items bq1) t = timeline m (items bq) t" if "t < bq_write_index bq \<or> e \<le> t" for t
    using that c timeline_cong [OF d(6)] unfolding its by (auto simp: timeline_append covers_def)
  then have "push_ready e m bq q' m' bq'" if "push_ready e m1 bq1 q' m' bq'" for q' m' bq'
    using push_ready_step [OF that d(5-8) _ ns] by blast
  then show ?thesis using d by (auto simp: same_rest_def)
qed

lemma trim_step:
  assumes ok: "bq_ok m bq" and bs: "bq_blocks bq = as @ q # bs" and w: "bq_write_index bq < e" and B: "\<forall>x \<in> set bs. e \<le> li_index (bq_item_at bq x)"
    and c: "bq_write_index bq < li_index (bq_item_at bq q)" "li_index (bq_item_at bq q) < e" "e < li_end (bq_item_at bq q)"
  defines "bq1 \<equiv> set_item q (trimmed e (bq_item_at bq q)) bq"
  assumes r: "push_ready e m bq1 q' m' bq'"
  shows "push_ready e m bq q' m' bq'"
proof -
  let ?A = "map (bq_item_at bq) as" and ?B = "map (bq_item_at bq) bs" and ?it = "bq_item_at bq q"
  have le: "li_index ?it \<le> e" using c by simp
  note t = trim_ok [OF ok bs refl le c(3), folded bq1_def] and s = trimmed_simps [OF le c(3)]
  have its: "items bq = ?A @ ?it # ?B" using items_split [OF bs] .
  have "\<not> overhangs (bq_write_index bq) e x" if "x \<in> set ?A \<or> x \<in> set ?B" for x
    using no_splits_around [of ?A ?it ?B e] bq_okD(6) [OF ok] B w c(2) that unfolding its by simp
  moreover have "\<not> overhangs (bq_write_index bq) e ?it" "\<not> overhangs (bq_write_index bq) e (trimmed e ?it)" using c w s(1) by (simp_all add: overhangs_def)
  ultimately have ns: "\<forall>x \<in> set (items bq). \<not> overhangs (bq_write_index bq) e x" "\<forall>x \<in> set (items bq1). \<not> overhangs (bq_write_index bq) e x"
    unfolding its t(2) by auto
  have "timeline m (items bq1) u = timeline m (items bq) u" if "u < bq_write_index bq \<or> e \<le> u" for u
    unfolding its t(2) by (rule timeline_swap) (use that c s in \<open>auto simp: covers_def\<close>)
  then show ?thesis using push_ready_step [OF r _ refl refl _ _ ns] t(3) by (simp add: bq1_def)
qed

lemma push_loop_ok:
  assumes "bq_ok m bq" "bq_blocks bq = rev ps @ bs" "bq_write_index bq < e" "\<forall>x \<in> set bs. e \<le> li_index (bq_item_at bq x)"
  shows "\<exists>q m' bq'. push_loop e ps m bq = Inr (q, m', bq') \<and> push_ready e m bq q m' bq'"
  using assms
proof (induction ps arbitrary: m bq bs)
  case Nil
  then show ?case using push_ready_refl [of m bq "[]" bs None e] by simp
next
  case (Cons q ps)
  note ok = Cons.prems(1) and we = Cons.prems(3) and B = Cons.prems(4)
  define it w where "it = bq_item_at bq q" and "w = bq_write_index bq"
  have bs: "bq_blocks bq = rev ps @ q # bs" using Cons.prems(2) by simp
  have A: "\<forall>x \<in> set ps. li_end (bq_item_at bq x) \<le> li_index it" and iti: "li_index it < li_end it"
    using bq_okD(6) [OF ok] li_end_greater [of "items bq" it] items_split [OF bs] by (auto simp: items_apart_append it_def)
  consider "w \<ge> li_end it" | "w < li_end it" "e \<le> li_index it" | "w \<le> li_index it" "li_index it < e" "li_end it \<le> e"
    | "w < li_end it" "li_index it < e" "li_index it \<le> w" "li_index it < w \<or> e < li_end it" | "w < li_index it" "li_index it < e" "e < li_end it"
    by linarith
  then show ?case
  proof cases
    case 1
    have l: "\<forall>x \<in> set (rev ps @ [q]). li_end (bq_item_at bq x) \<le> bq_write_index bq" using A 1 iti by (auto simp: it_def [symmetric] w_def)
    have "push_ready e m bq (Some q) m bq" using push_ready_refl [OF ok _ _ we l B] bs by simp
    then show ?thesis using 1 by (simp add: it_def w_def)
  next
    case 2
    then have "push_loop e (q # ps) m bq = push_loop e ps m bq" by (simp add: it_def w_def)
    then show ?thesis using Cons.IH [OF ok bs we] B 2 by (auto simp: it_def)
  next
    case 3
    obtain m1 bq1 where d: "drop_block m bq q = Inr (m1, bq1)" "bq_ok m1 bq1" "bq_blocks bq1 = rev ps @ bs" "bq_item_at bq1 = bq_item_at bq"
        "bq_write_index bq1 = bq_write_index bq" "\<forall>q' m' bq'. push_ready e m1 bq1 q' m' bq' \<longrightarrow> push_ready e m bq q' m' bq'"
      using drop_step [OF ok bs we B 3 [unfolded it_def w_def]] by blast
    have "push_loop e (q # ps) m bq = push_loop e ps m1 bq1" using 3 d(1) iti by (simp add: it_def w_def)
    then show ?thesis using Cons.IH [OF d(2,3)] d(4-6) we B by auto
  next
    case 4
    then have "push_loop e (q # ps) m bq = push_truncate m bq e q ps" by (auto simp: it_def w_def)
    then show ?thesis using push_truncate_ok [OF ok bs it_def w_def 4(3,1) _ 4(2) B 4(4)] we by (simp add: w_def)
  next
    case 5
    let ?bq = "set_item q (trimmed e it) bq"
    have le: "li_index it \<le> e" using 5 by simp
    have "push_loop e (q # ps) m bq = push_loop e ps m ?bq" using 5 we by (simp add: it_def w_def trimmed_def Let_def)
    moreover have "\<forall>x \<in> set (q # bs). e \<le> li_index (bq_item_at ?bq x)" using B trimmed_simps(1) [OF le 5(3)] by simp
    then obtain q' m' bq' where r: "push_loop e ps m ?bq = Inr (q', m', bq')" "push_ready e m ?bq q' m' bq'"
      using Cons.IH [OF trim_ok(1) [OF ok bs it_def le 5(3)], of "q # bs"] bs we by auto
    ultimately show ?thesis using trim_step [OF ok bs we B] 5 by (auto simp: it_def w_def)
  qed
qed

section \<open>The place of the new chunk\<close>

lemma advance_ok:
  assumes "items_apart (items bq)" "bq_blocks bq = as @ q # ns"
  shows "\<exists>as' bs'. bq_blocks bq = as' @ push_advance bq e q ns # bs' \<and> (\<forall>x \<in> set bs'. e \<le> li_index (bq_item_at bq x))"
  using assms(2)
proof (induction ns arbitrary: as q)
  case Nil
  then show ?case by (intro exI [of _ as] exI [of _ "[]"]) simp
next
  case (Cons n ns)
  show ?case
  proof (cases "e > li_index (bq_item_at bq q)")
    case True
    then show ?thesis using Cons.IH [of "as @ [q]" n] Cons.prems by simp
  next
    case False
    have "items_apart (bq_item_at bq q # map (bq_item_at bq) (n # ns))" using assms(1) unfolding items_def Cons.prems by (simp add: items_apart_append)
    then have "\<forall>x \<in> set (n # ns). li_index (bq_item_at bq q) < li_index (bq_item_at bq x)"
      using li_end_greater [of _ "bq_item_at bq q"] by (fastforce simp: items_apart_Cons)
    then show ?thesis using False Cons.prems by (intro exI [of _ as] exI [of _ "n # ns"]) auto
  qed
qed

lemma scan_right_end_in: "scan_right_end bq i q ns \<in> set (q # ns)"
  by (induction ns arbitrary: q) auto

lemma scan_left_off_in: "set_option (scan_left_off bq i qs) \<subseteq> set qs"
  by (induction qs) auto

lemma before_after_subset: "set (before xs q) \<subseteq> set xs" "set (after xs q) \<subseteq> set xs"
  by (auto simp: before_def after_def dest: set_takeWhileD set_dropWhileD list.set_sel(2) split: if_splits)
    (metis list.sel(2) list.set_sel(2) set_dropWhileD)

lemma fix_current_write_ok:
  assumes "bq_ok m bq"
  shows "\<exists>c. fix_current_write bq = bq\<lparr>bq_current_write := c\<rparr> \<and> set_option c \<subseteq> set (bq_blocks bq)"
proof (cases "bq_blocks bq = []")
  case True
  then show ?thesis by (simp add: fix_current_write_def)
next
  case False
  define q where "q = (case bq_current_write bq of None \<Rightarrow> last (bq_blocks bq) | Some q \<Rightarrow> q)"
  have "q \<in> set (bq_blocks bq)" using False bq_okD(5) [OF assms] by (auto simp: q_def split: option.split)
  then have in_blocks: "scan_right_end bq i q (after (bq_blocks bq) q) \<in> set (bq_blocks bq)" for i
    using scan_right_end_in [of bq i q "after (bq_blocks bq) q"] before_after_subset(2) by fastforce
  define r where "r = scan_right_end bq (bq_write_index bq) q (after (bq_blocks bq) q)"
  have "set (r # before (bq_blocks bq) r) \<subseteq> set (bq_blocks bq)" using in_blocks before_after_subset(1) by (simp add: r_def)
  then have "set_option (scan_left_off bq (bq_write_index bq) (r # before (bq_blocks bq) r)) \<subseteq> set (bq_blocks bq)"
    using scan_left_off_in [of bq "bq_write_index bq" "r # before (bq_blocks bq) r"] by (meson order_trans)
  then show ?thesis using False by (auto simp: fix_current_write_def Let_def q_def [symmetric] r_def [symmetric] simp del: scan_left_off.simps)
qed

text \<open>Without a change to the items, the queue keeps its time line whatever the current items are.\<close>

lemma items_cong: "bq_blocks bq' = bq_blocks bq \<Longrightarrow> bq_item_at bq' = bq_item_at bq \<Longrightarrow> items bq' = items bq"
  by (simp add: items_def)

lemma bq_ok_cong:
  assumes "bq_ok m bq" "bq_blocks bq' = bq_blocks bq" "bq_item_at bq' = bq_item_at bq" "bq_next_item bq' = bq_next_item bq" "bq_n_blocks bq' = bq_n_blocks bq"
    "bq_base bq' = bq_base bq" "set_option (bq_current_read bq') \<subseteq> set (bq_blocks bq)" "set_option (bq_current_write bq') \<subseteq> set (bq_blocks bq)"
  shows "bq_ok m bq'"
  using assms items_cong [OF assms(2,3)] by (simp add: bq_ok_def bq_held_def)

lemma timeline_insert:
  assumes "\<forall>x \<in> set ls. li_end x \<le> w" "\<forall>x \<in> set rs. e \<le> li_index x" "li_index it = w" "li_end it = e"
  shows "timeline m (ls @ it # rs) t = (if w \<le> t \<and> t < e then item_byte m it t else timeline m (ls @ rs) t)"
proof (cases "w \<le> t \<and> t < e")
  case True
  then have "\<forall>x \<in> set ls. \<not> covers x t" using assms(1) by (fastforce simp: covers_def)
  then show ?thesis using True assms(3,4) timeline_skip [of ls t m "it # rs"] by (simp add: covers_def [of it])
next
  case False
  then show ?thesis using assms(3,4) by (auto simp: timeline_append covers_def)
qed

lemma item_byte_chunk:
  assumes "chunk_ok m c" "w \<le> t" "t < w + int (mc_length c)"
  shows "item_byte m \<lparr>li_index = w, li_chunk = c\<rparr> t = Some (chunk_bytes m c ! nat (t - w))"
  using assms by (auto simp: chunk_ok_def item_byte_def chunk_bytes_def)

text \<open>A chunk that continues an item makes it longer.\<close>

definition extended :: "pa_memchunk \<Rightarrow> list_item \<Rightarrow> list_item" where
  "extended c it = it\<lparr>li_chunk := (li_chunk it)\<lparr>mc_length := mc_length (li_chunk it) + mc_length c\<rparr>\<rparr>"

lemma extended_ok:
  assumes "chunk_ok m (li_chunk it)" "chunk_ok m c" "mc_memblock (li_chunk it) = mc_memblock c" "mc_index (li_chunk it) + mc_length (li_chunk it) = mc_index c"
  shows "chunk_ok m (li_chunk (extended c it))" "li_index (extended c it) = li_index it" "li_end (extended c it) = li_end it + int (mc_length c)"
    "t < li_end it \<Longrightarrow> item_byte m (extended c it) t = item_byte m it t"
    "li_end it \<le> t \<Longrightarrow> t < li_end it + int (mc_length c) \<Longrightarrow> item_byte m (extended c it) t = Some (chunk_bytes m c ! nat (t - li_end it))"
    "holds (li_chunk (extended c it)) b = holds (li_chunk it) b"
proof -
  obtain x where x: "mc_memblock c = Some x" using assms(2) by (auto simp: chunk_ok_def)
  show "chunk_ok m (li_chunk (extended c it))" using assms by (auto simp: chunk_ok_def extended_def)
  assume t: "li_end it \<le> t" "t < li_end it + int (mc_length c)"
  have "mc_index (li_chunk it) + nat (t - li_index it) = mc_index c + nat (t - li_end it)" using t(1) assms(4) unfolding li_end_def by arith
  then show "item_byte m (extended c it) t = Some (chunk_bytes m c ! nat (t - li_end it))"
    using assms x t by (auto simp: extended_def item_byte_def chunk_bytes_def chunk_ok_def)
qed (auto simp: extended_def li_end_def item_byte_def holds_def split: option.split)

lemma timeline_extend:
  assumes ap: "items_apart (ls @ it # rs)" and "li_end it = w" "e = w + int (mc_length c)" "\<forall>x \<in> set rs. e \<le> li_index x"
    and c: "chunk_ok m (li_chunk it)" "chunk_ok m c" "mc_memblock (li_chunk it) = mc_memblock c" "mc_index (li_chunk it) + mc_length (li_chunk it) = mc_index c"
  shows "timeline m (ls @ extended c it # rs) t = (if w \<le> t \<and> t < e then Some (chunk_bytes m c ! nat (t - w)) else timeline m (ls @ it # rs) t)"
proof (cases "w \<le> t \<and> t < e")
  case True
  have "\<forall>x \<in> set ls. li_end x \<le> li_index it" "li_index it < li_end it" using ap li_end_greater [of _ it] by (auto simp: items_apart_append)
  then have "\<forall>x \<in> set ls. \<not> covers x t" using True assms(2) by (fastforce simp: covers_def)
  then show ?thesis using True extended_ok [OF c] assms(2,3) \<open>li_index it < li_end it\<close> timeline_skip [of ls t m "extended c it # rs"]
    by (simp add: covers_def [of "extended c it"])
next
  case False
  then show ?thesis using extended_ok [OF c] assms(2,3) by (auto simp: timeline_append covers_def)
qed

definition placed :: "pa_mem \<Rightarrow> pa_memblockq \<Rightarrow> pa_memchunk \<Rightarrow> pa_mem \<Rightarrow> pa_memblockq \<Rightarrow> bool" where
  "placed m bq c m' bq' \<longleftrightarrow>
     bq_ok m' bq' \<and> same_rest (bq\<lparr>bq_write_index := bq_write_index bq + int (mc_length c)\<rparr>) bq' \<and> mem_data m' = mem_data m \<and> mem_next m' = mem_next m \<and>
     (\<forall>b. mem_refs m' b + bq_held bq b = mem_refs m b + bq_held bq' b) \<and>
     (\<forall>t. timeline m' (items bq') t =
        (if bq_write_index bq \<le> t \<and> t < bq_write_index bq + int (mc_length c) then Some (chunk_bytes m c ! nat (t - bq_write_index bq)) else timeline m (items bq) t))"

lemma place_merge:
  assumes ok: "bq_ok m bq" and bs: "bq_blocks bq = as @ q # rs" and it: "it = bq_item_at bq q" and w: "w = bq_write_index bq" and c: "chunk_ok m c"
    and r: "\<forall>x \<in> set rs. w + int (mc_length c) \<le> li_index (bq_item_at bq x)"
    and fits: "mc_memblock (li_chunk it) = mc_memblock c" "mc_index (li_chunk it) + mc_length (li_chunk it) = mc_index c" "w = li_end it"
  shows "placed m bq c m ((set_item q (extended c it) bq)\<lparr>bq_write_index := w + int (mc_length c)\<rparr>)" (is "placed m bq c m ?bq")
proof -
  let ?A = "map (bq_item_at bq) as" and ?B = "map (bq_item_at bq) rs" and ?e = "w + int (mc_length c)"
  have d: "distinct (as @ q # rs)" using bq_okD(1) [OF ok] bs by simp
  have its: "items bq = ?A @ it # ?B" using items_split [OF bs] it by simp
  have its': "items ?bq = ?A @ extended c it # ?B" using items_set [OF d bs, of "extended c it"] by (simp add: items_def)
  have ap: "items_apart (?A @ it # ?B)" using bq_okD(6) [OF ok] its by simp
  have ci: "chunk_ok m (li_chunk it)" using bq_okD(7) [OF ok] its by simp
  note x = extended_ok [OF ci c fits(1,2)]
  have held: "bq_held ?bq = bq_held bq" unfolding bq_held_def its its' using x(6) by (simp add: fun_eq_iff)
  have "bq_ok m ?bq"
  proof (rule bq_okI [OF ok])
    show "items_apart (items ?bq)" unfolding its' using ap r x(2,3) fits(3) by (auto simp: items_apart_append items_apart_Cons extended_def)
    show "\<forall>it \<in> set (items ?bq). chunk_ok m (li_chunk it)" unfolding its' using bq_okD(7) [OF ok] its x(1) by auto
  qed (use bq_okD [OF ok] bs held in auto)
  moreover have "timeline m (items ?bq) t = (if w \<le> t \<and> t < ?e then Some (chunk_bytes m c ! nat (t - w)) else timeline m (items bq) t)" for t
    using timeline_extend [OF ap fits(3) [symmetric] refl _ ci c fits(1,2)] r unfolding its its' by simp
  ultimately show ?thesis using held unfolding placed_def w by (simp add: same_rest_def metrics_def)
qed

lemma place_new:
  assumes ok: "bq_ok m bq" and bs: "bq_blocks bq = ls @ rs" and w: "w = bq_write_index bq" and c: "chunk_ok m c" "mc_memblock c = Some b" "0 < mem_refs m b"
    and l: "\<forall>x \<in> set ls. li_end (bq_item_at bq x) \<le> w" and r: "\<forall>x \<in> set rs. w + int (mc_length c) \<le> li_index (bq_item_at bq x)"
  shows "placed m bq c (m\<lparr>mem_refs := (mem_refs m)(b := mem_refs m b + 1)\<rparr>)
    ((set_item (bq_next_item bq) \<lparr>li_index = w, li_chunk = c\<rparr> bq)\<lparr>bq_next_item := bq_next_item bq + 1, bq_write_index := w + int (mc_length c),
      bq_blocks := ls @ bq_next_item bq # rs, bq_n_blocks := bq_n_blocks bq + 1\<rparr>)" (is "placed m bq c ?m ?bq")
proof -
  let ?A = "map (bq_item_at bq) ls" and ?B = "map (bq_item_at bq) rs" and ?e = "w + int (mc_length c)" and ?it = "\<lparr>li_index = w, li_chunk = c\<rparr>"
  have n: "bq_next_item bq \<notin> set ls" "bq_next_item bq \<notin> set rs" using bq_okD(3) [OF ok] bs by auto
  have its: "items bq = ?A @ ?B" using bs by (simp add: items_def)
  have its': "items ?bq = ?A @ ?it # ?B" using n by (simp add: items_def)
  have e: "li_end ?it = ?e" "0 < mc_length c" using c(1) by (simp_all add: li_end_def chunk_ok_def)
  have refs: "mem_refs ?m x + bq_held bq x = mem_refs m x + bq_held ?bq x" for x
    unfolding bq_held_def its its' using c(2) by (simp add: holds_def)
  have "bq_ok ?m ?bq"
  proof (rule bq_okI [OF ok])
    show "items_apart (items ?bq)" unfolding its' using bq_okD(6) [OF ok] l r e unfolding its by (fastforce simp: items_apart_append items_apart_Cons)
    show "\<forall>it \<in> set (items ?bq). chunk_ok ?m (li_chunk it)" unfolding its' using bq_okD(7) [OF ok] its c(1) by auto
  qed (use bq_okD [OF ok] bs n refs in \<open>auto simp: less_SucI\<close>)
  moreover have "timeline ?m (items ?bq) t = (if w \<le> t \<and> t < ?e then Some (chunk_bytes m c ! nat (t - w)) else timeline m (items bq) t)" for t
    using timeline_insert [of ?A w ?B ?e ?it m t] item_byte_chunk [OF c(1), of w t] l r e timeline_cong [of ?m m "items ?bq" t] unfolding its its' by simp
  ultimately show ?thesis using refs unfolding placed_def w by (simp add: same_rest_def metrics_def)
qed

lemma place_ok:
  assumes ok: "bq_ok m bq" and bs: "bq_blocks bq = ls @ rs" "q = first_of (rev ls)" and w: "w = bq_write_index bq"
    and c: "chunk_ok m c" "mc_memblock c = Some b" "0 < mem_refs m b"
    and l: "\<forall>x \<in> set ls. li_end (bq_item_at bq x) \<le> w" and r: "\<forall>x \<in> set rs. w + int (mc_length c) \<le> li_index (bq_item_at bq x)"
  shows "\<exists>m' bq'. push_place m bq q c = Inr (m', bq') \<and> placed m bq c m' bq'"
proof (cases ls rule: rev_cases)
  case Nil
  then have "\<exists>m' bq'. push_place m bq q c = Inr (m', bq') \<and> m' = m\<lparr>mem_refs := (mem_refs m)(b := mem_refs m b + 1)\<rparr> \<and>
      bq' = (set_item (bq_next_item bq) \<lparr>li_index = w, li_chunk = c\<rparr> bq)\<lparr>bq_next_item := bq_next_item bq + 1, bq_write_index := w + int (mc_length c),
      bq_blocks := ls @ bq_next_item bq # rs, bq_n_blocks := bq_n_blocks bq + 1\<rparr>"
    using r c(2) bs by (cases rs) (simp_all add: push_place_def Let_def ref_ok [OF c(3)] w)
  then show ?thesis using place_new [OF ok bs(1) w c l r] by blast
next
  case (snoc as q')
  let ?it = "bq_item_at bq q'"
  have bs': "bq_blocks bq = as @ q' # rs" "q = Some q'" using bs snoc by simp_all
  have d: "distinct (as @ q' # rs)" using bq_okD(1) [OF ok] bs' by simp
  have guard: "bindR (assertR (w \<ge> li_end ?it)) (\<lambda>_.
      case after (bq_blocks bq) q' of [] \<Rightarrow> Inr () | n # _ \<Rightarrow> assertR (w + int (mc_length c) \<le> li_index (bq_item_at bq n))) = Inr ()"
    using l r snoc unfolding bs'(1) around(2) [OF d] by (cases rs) simp_all
  show ?thesis
  proof (cases "mc_memblock (li_chunk ?it) = mc_memblock c \<and> mc_index (li_chunk ?it) + mc_length (li_chunk ?it) = mc_index c \<and> w = li_end ?it")
    case True
    then have "push_place m bq q c = Inr (m, (set_item q' (extended c ?it) bq)\<lparr>bq_write_index := w + int (mc_length c)\<rparr>)"
      unfolding push_place_def Let_def bs'(2) option.case w [symmetric] guard by (simp add: extended_def)
    then show ?thesis using place_merge [OF ok bs'(1) refl w c(1) r] True by blast
  next
    case False
    then have "push_place m bq q c = Inr (m\<lparr>mem_refs := (mem_refs m)(b := mem_refs m b + 1)\<rparr>,
       (set_item (bq_next_item bq) \<lparr>li_index = w, li_chunk = c\<rparr> bq)\<lparr>bq_next_item := bq_next_item bq + 1, bq_write_index := w + int (mc_length c),
      bq_blocks := ls @ bq_next_item bq # rs, bq_n_blocks := bq_n_blocks bq + 1\<rparr>)"
      unfolding push_place_def Let_def bs'(2) option.case w [symmetric] guard using c(2) around(3) [OF d] snoc bs'(1)
      by (simp add: ref_ok [OF c(3)] if_not_P)
    then show ?thesis using place_new [OF ok bs(1) w c l r] by blast
  qed
qed

section \<open>Pushing\<close>

lemma push_start:
  fixes e :: int
  assumes ok: "bq_ok m bq" and cur: "set_option (bq_current_write bq) \<subseteq> set (bq_blocks bq)"
  defines "q \<equiv> (case bq_current_write bq of Some q \<Rightarrow> Some (push_advance bq e q (after (bq_blocks bq) q))
                | None \<Rightarrow> if bq_blocks bq = [] then None else Some (last (bq_blocks bq)))"
  shows "\<exists>bs. bq_blocks bq = rev (case q of None \<Rightarrow> [] | Some q \<Rightarrow> q # before (bq_blocks bq) q) @ bs \<and> (\<forall>x \<in> set bs. e \<le> li_index (bq_item_at bq x))"
proof (cases q)
  case None
  then have "bq_blocks bq = []" by (auto simp: q_def split: option.splits if_splits)
  then show ?thesis using None by simp
next
  case (Some p)
  have "\<exists>as bs. bq_blocks bq = as @ p # bs \<and> (\<forall>x \<in> set bs. e \<le> li_index (bq_item_at bq x))"
  proof (cases "bq_current_write bq")
    case None
    then have "bq_blocks bq \<noteq> []" "p = last (bq_blocks bq)" using Some by (auto simp: q_def split: if_splits)
    then show ?thesis using append_butlast_last_id [of "bq_blocks bq"] by (metis empty_iff list.set(1))
  next
    case (Some r)
    then obtain as ns where bs: "bq_blocks bq = as @ r # ns" using cur split_list [of r "bq_blocks bq"] by auto
    then have "after (bq_blocks bq) r = ns" using around(2) [of as r ns] bq_okD(1) [OF ok] by simp
    then show ?thesis using advance_ok [OF bq_okD(6) [OF ok] bs, of e] Some \<open>q = Some p\<close> by (simp add: q_def)
  qed
  then obtain as bs where bs: "bq_blocks bq = as @ p # bs" "\<forall>x \<in> set bs. e \<le> li_index (bq_item_at bq x)" by blast
  then have "before (bq_blocks bq) p = rev as" using around(1) [of as p bs] bq_okD(1) [OF ok] by simp
  then show ?thesis using bs Some by simp
qed

text \<open>The time line that a push leaves behind.\<close>

definition overlay :: "pa_mem \<Rightarrow> int \<Rightarrow> pa_memchunk \<Rightarrow> (int \<Rightarrow> u8 option) \<Rightarrow> int \<Rightarrow> u8 option" where
  "overlay m w c f t = (if w \<le> t \<and> t < w + int (mc_length c) then Some (chunk_bytes m c ! nat (t - w)) else f t)"

lemma push_result:
  assumes ok: "bq_ok m bq" and c: "chunk_ok m c" "mc_memblock c = Some b" "bq_held bq b < mem_refs m b"
    and al: "bq_base bq dvd mc_length c" "bq_base bq dvd mc_index c" and can: "can_push bq (mc_length c)"
  defines "w \<equiv> bq_write_index bq" and "e \<equiv> bq_write_index bq + int (mc_length c)"
  shows "\<exists>m' bq'. pa_memblockq_push m bq c = Inr (0, m', bq') \<and> bq_ok m' bq' \<and>
     same_rest (bq\<lparr>bq_write_index := e, bq_requested := bq_requested bq - int (mc_length c)\<rparr>) bq' \<and>
     mem_data m' = mem_data m \<and> mem_next m' = mem_next m \<and> (\<forall>b. mem_refs m' b + bq_held bq b = mem_refs m b + bq_held bq' b) \<and>
     (\<forall>t. timeline m' (items bq') t = overlay m w c (\<lambda>t. timeline m (items bq) (shifted w e (items bq) t)) t)"
proof -
  obtain cw where cw: "fix_current_write bq = bq\<lparr>bq_current_write := cw\<rparr>" "set_option cw \<subseteq> set (bq_blocks bq)"
    using fix_current_write_ok [OF ok] by blast
  let ?bq = "bq\<lparr>bq_current_write := cw\<rparr>"
  have ok1: "bq_ok m ?bq" using bq_ok_cong [OF ok, of ?bq] bq_okD(4) [OF ok] cw(2) by simp
  have its1: "items ?bq = items bq" by (simp add: items_def)
  define q where "q = (case bq_current_write ?bq of Some q \<Rightarrow> Some (push_advance ?bq e q (after (bq_blocks ?bq) q))
                | None \<Rightarrow> if bq_blocks ?bq = [] then None else Some (last (bq_blocks ?bq)))"
  let ?ps = "case q of None \<Rightarrow> [] | Some q \<Rightarrow> q # before (bq_blocks ?bq) q"
  have we: "bq_write_index ?bq < e" using c(1) by (simp add: e_def chunk_ok_def)
  obtain bs where bs: "bq_blocks ?bq = rev ?ps @ bs" "\<forall>x \<in> set bs. e \<le> li_index (bq_item_at ?bq x)"
    using push_start [OF ok1, of e] cw(2) unfolding q_def by auto
  obtain q' m1 bq1 where l: "push_loop e ?ps m ?bq = Inr (q', m1, bq1)" "push_ready e m ?bq q' m1 bq1"
    using push_loop_ok [OF ok1 bs(1) we bs(2)] by blast
  obtain ls rs where 1: "bq_ok m1 bq1" "same_rest ?bq bq1" "mem_data m1 = mem_data m" "mem_next m1 = mem_next m"
      "\<forall>b. mem_refs m1 b + bq_held ?bq b = mem_refs m b + bq_held bq1 b" "bq_blocks bq1 = ls @ rs" "q' = first_of (rev ls)"
      "\<forall>x \<in> set ls. li_end (bq_item_at bq1 x) \<le> w" "\<forall>x \<in> set rs. e \<le> li_index (bq_item_at bq1 x)"
      "\<forall>t. t < w \<or> e \<le> t \<longrightarrow> timeline m1 (items bq1) t = timeline m (items bq) (shifted w e (items bq) t)"
    using l(2) unfolding push_ready_def its1 by (auto simp: w_def)
  have w1: "bq_write_index bq1 = w" using 1(2) by (simp add: same_rest_def w_def)
  have held: "bq_held ?bq = bq_held bq" by (simp add: bq_held_def its1 fun_eq_iff)
  have c1: "chunk_ok m1 c" "0 < mem_refs m1 b"
    using c(1,3) 1(3,4) 1(5) [rule_format, of b] held by (auto simp: chunk_ok_def)
  obtain m2 bq2 where p: "push_place m1 bq1 q' c = Inr (m2, bq2)" "placed m1 bq1 c m2 bq2"
    using place_ok [OF 1(1,6,7) w1 [symmetric] c1(1) c(2) c1(2) 1(8)] 1(9) by (auto simp: e_def w_def)
  then have 2: "bq_ok m2 bq2" "same_rest (bq1\<lparr>bq_write_index := e\<rparr>) bq2" "mem_data m2 = mem_data m1" "mem_next m2 = mem_next m1"
      "\<forall>b. mem_refs m2 b + bq_held bq1 b = mem_refs m1 b + bq_held bq2 b" "\<forall>t. timeline m2 (items bq2) t = overlay m1 w c (timeline m1 (items bq1)) t"
    by (simp_all add: placed_def w1 overlay_def) (simp add: e_def w_def)
  let ?bq3 = "write_index_changed bq2 w True"
  have e3: "?bq3 = bq2\<lparr>bq_requested := bq_requested bq2 - int (mc_length c)\<rparr>" using 2(2) by (simp add: write_index_changed_def Let_def same_rest_def e_def w_def)
  have its3: "items ?bq3 = items bq2" "bq_held ?bq3 = bq_held bq2" unfolding e3 by (simp_all add: items_def bq_held_def fun_eq_iff)
  have "pa_memblockq_push m bq c = Inr (0, m2, ?bq3)"
  proof -
    have "0 < mem_refs m b" "mc_index c + mc_length c \<le> length (mem_data m b)" "0 < mc_length c" using c by (auto simp: chunk_ok_def)
    moreover have "push_loop e (case q of None \<Rightarrow> [] | Some q \<Rightarrow> q # before (bq_blocks bq) q) m ?bq = Inr (q', m1, bq1)" using l(1) by (simp cong: option.case_cong)
    ultimately show ?thesis using c(2) al can p(1)
      by (simp add: pa_memblockq_push_def pa_memblock_get_length_def Let_def cw(1) q_def e_def w_def mod_eq_0_iff_dvd cong: option.case_cong)
  qed
  moreover have "bq_ok m2 ?bq3" unfolding e3 by (rule bq_ok_cong [OF 2(1)]) (use bq_okD(4,5) [OF 2(1)] in simp_all)
  moreover have "same_rest (bq\<lparr>bq_write_index := e, bq_requested := bq_requested bq - int (mc_length c)\<rparr>) ?bq3"
    unfolding e3 using 1(2) 2(2) by (simp add: same_rest_def metrics_def)
  moreover have "mem_refs m2 x + bq_held bq x = mem_refs m x + bq_held ?bq3 x" for x
    using 1(5) [rule_format, of x] 2(5) [rule_format, of x] unfolding held its3 by linarith
  moreover have "timeline m2 (items ?bq3) t = overlay m w c (\<lambda>t. timeline m (items bq) (shifted w e (items bq) t)) t" for t
    using 2(6) 1(10) chunk_bytes_same [OF 1(3)] unfolding its3 overlay_def by (auto simp: e_def w_def)
  ultimately show ?thesis using 1(3,4) 2(3,4) by auto
qed

text \<open>C26. A chunk of whole frames that a queue has room for is pushed: the bytes at its place on the time line are those of the
  chunk, all others are what they were. The write position is behind the chunk, the bytes are taken off the
  requested ones, the queue keeps its invariant (items in order, no overlap, every item in its block) and the
  reference counts of all blocks change by the references that the queue took and gave back.
  This holds when no item reaches beyond both ends of the new chunk.\<close>

theorem push_overwrites:
  assumes "bq_ok m bq" "chunk_ok m c" "mc_memblock c = Some b" "bq_held bq b < mem_refs m b" "bq_base bq dvd mc_length c" "bq_base bq dvd mc_index c"
    and "can_push bq (mc_length c)" and "\<forall>it \<in> set (items bq). \<not> overhangs (bq_write_index bq) (bq_write_index bq + int (mc_length c)) it"
  shows "\<exists>m' bq'. pa_memblockq_push m bq c = Inr (0, m', bq') \<and> bq_ok m' bq' \<and>
     timeline m' (items bq') = overlay m (bq_write_index bq) c (timeline m (items bq)) \<and>
     bq_write_index bq' = bq_write_index bq + int (mc_length c) \<and> bq_read_index bq' = bq_read_index bq \<and>
     bq_requested bq' = bq_requested bq - int (mc_length c) \<and> mem_data m' = mem_data m \<and>
     (\<forall>b. mem_refs m' b + bq_held bq b = mem_refs m b + bq_held bq' b)"
proof -
  obtain m' bq' where r: "pa_memblockq_push m bq c = Inr (0, m', bq')" "bq_ok m' bq'" "mem_data m' = mem_data m"
     "same_rest (bq\<lparr>bq_write_index := bq_write_index bq + int (mc_length c), bq_requested := bq_requested bq - int (mc_length c)\<rparr>) bq'"
     "\<forall>b. mem_refs m' b + bq_held bq b = mem_refs m b + bq_held bq' b"
     "\<forall>t. timeline m' (items bq') t = overlay m (bq_write_index bq) c (timeline m (items bq)) t"
    using push_result [OF assms(1-7)] shifted_none [OF assms(8)] by auto
  then have "timeline m' (items bq') = overlay m (bq_write_index bq) c (timeline m (items bq))" by (simp add: fun_eq_iff)
  then show ?thesis using r(1-5) by (simp add: same_rest_def)
qed

definition sample_queue :: "int \<Rightarrow> pa_memblockq" where
  "sample_queue w = \<lparr>bq_blocks = [0], bq_item_at = (\<lambda>_. \<lparr>li_index = 0, li_chunk = \<lparr>mc_memblock = Some 0, mc_index = 0, mc_length = 6\<rparr>\<rparr>),
     bq_next_item = 1, bq_current_read = None, bq_current_write = None, bq_n_blocks = 1, bq_maxlength = 100, bq_tlength = 50, bq_base = 1,
     bq_prebuf = 0, bq_minreq = 1, bq_maxrewind = 0, bq_read_index = 0, bq_write_index = w, bq_in_prebuf = False, bq_silence = pa_memchunk_reset,
     bq_mcalign = \<lparr>ma_base = 1, ma_leftover = pa_memchunk_reset, ma_current = pa_memchunk_reset\<rparr>, bq_missing = 0, bq_requested = 0\<rparr>"

lemma sample_queue_ok: "bq_ok sample_mem (sample_queue w)" "items (sample_queue w) = [\<lparr>li_index = 0, li_chunk = \<lparr>mc_memblock = Some 0, mc_index = 0, mc_length = 6\<rparr>\<rparr>]"
  "bq_held (sample_queue w) 1 = 0"
  by (simp_all add: sample_queue_def sample_mem_def bq_ok_def items_def bq_held_def items_apart_Cons chunk_ok_def holds_def)

theorem push_overwrites_witness:
  "\<exists>m' bq'. pa_memblockq_push sample_mem (sample_queue 4) \<lparr>mc_memblock = Some 1, mc_index = 2, mc_length = 4\<rparr> = Inr (0, m', bq') \<and>
     map (timeline m' (items bq')) [0, 1, 2, 3, 4, 5, 6, 7, 8] = [Some 1, Some 2, Some 3, Some 4, Some 3, Some 4, Some 5, Some 6, None]"
  using push_overwrites [of sample_mem "sample_queue 4" "\<lparr>mc_memblock = Some 1, mc_index = 2, mc_length = 4\<rparr>" 1] sample_queue_ok [of 4]
  by (auto simp: sample_mem_def sample_queue_def [of 4] chunk_ok_def can_push_def blocks_end_def li_end_def overhangs_def overlay_def chunk_bytes_def covers_def item_byte_def)

text \<open>C32. When an item reaches beyond both ends of the chunk, or begins with it and reaches beyond its end, the part of the item behind the chunk stays
  at its place but plays the wrong bytes: those from the start of the item.\<close>

theorem push_split_shifts:
  assumes "bq_ok m bq" "chunk_ok m c" "mc_memblock c = Some b" "bq_held bq b < mem_refs m b" "bq_base bq dvd mc_length c" "bq_base bq dvd mc_index c"
    and "can_push bq (mc_length c)" and it: "it \<in> set (items bq)" "overhangs (bq_write_index bq) (bq_write_index bq + int (mc_length c)) it"
    and t: "bq_write_index bq + int (mc_length c) \<le> t" "t < li_end it"
  shows "\<exists>m' bq'. pa_memblockq_push m bq c = Inr (0, m', bq') \<and>
     timeline m' (items bq') t = timeline m (items bq) (t - (bq_write_index bq + int (mc_length c) - li_index it))"
proof -
  let ?w = "bq_write_index bq" and ?e = "bq_write_index bq + int (mc_length c)"
  obtain A B where its: "items bq = A @ it # B" using split_list [OF it(1)] by blast
  have "\<forall>x \<in> set A. li_end x \<le> li_index it" using bq_okD(6) [OF assms(1)] its by (auto simp: items_apart_append)
  then have "\<forall>x \<in> set A. \<not> overhangs ?w ?e x" using it(2) by (fastforce simp: overhangs_def)
  then have "shifted ?w ?e (items bq) t = t - (?e - li_index it)" using it(2) t unfolding its by (simp add: shifted_append)
  then show ?thesis using push_result [OF assms(1-7)] t by (fastforce simp: overlay_def)
qed

theorem push_split_shifts_witness:
  "\<exists>m' bq'. pa_memblockq_push sample_mem (sample_queue 1) \<lparr>mc_memblock = Some 1, mc_index = 0, mc_length = 2\<rparr> = Inr (0, m', bq') \<and>
     timeline sample_mem (items (sample_queue 1)) 4 = Some 5 \<and> timeline m' (items bq') 4 = Some 2"
  using push_split_shifts [of sample_mem "sample_queue 1" "\<lparr>mc_memblock = Some 1, mc_index = 0, mc_length = 2\<rparr>" 1
      "\<lparr>li_index = 0, li_chunk = \<lparr>mc_memblock = Some 0, mc_index = 0, mc_length = 6\<rparr>\<rparr>" 4] sample_queue_ok [of 1]
  by (auto simp: sample_mem_def sample_queue_def [of 1] chunk_ok_def can_push_def blocks_end_def li_end_def overhangs_def covers_def item_byte_def)

end
