(* ===== verification/PaAlign.thy ===== *)
theory PaAlign
  imports PaPush
begin

text \<open>
  Pushing chunks through the alignment (\<^verbatim>\<open>pa_memblockq_push_align\<close>): with chunks of whole frames it is a push. A chunk that completes a frame and
  brings another one, however, is taken apart at a position that the push does not accept.
\<close>

section \<open>Chunks of whole frames\<close>

declare push_pops.simps [simp del]

lemma align_push_empty:
  assumes "mc_memblock c = Some b" "0 < mem_refs m b" "0 < mc_length c" "ma_base a dvd mc_length c" "0 < ma_base a"
    and a: "ma_leftover a = pa_memchunk_reset" "ma_current a = pa_memchunk_reset"
  shows "pa_mcalign_push m a c = Inr (m\<lparr>mem_refs := (mem_refs m)(b := mem_refs m b + 1)\<rparr>, a\<lparr>ma_current := c\<rparr>)"
    "pa_mcalign_pop (m\<lparr>mem_refs := (mem_refs m)(b := mem_refs m b + 1)\<rparr>) (a\<lparr>ma_current := c\<rparr>) =
       Inr (Some c, m\<lparr>mem_refs := (mem_refs m)(b := mem_refs m b + 1)\<rparr>, a)"
proof -
  have le: "ma_base a \<le> mc_length c" using assms(3,4) by (simp add: dvd_imp_le)
  show "pa_mcalign_push m a c = Inr (m\<lparr>mem_refs := (mem_refs m)(b := mem_refs m b + 1)\<rparr>, a\<lparr>ma_current := c\<rparr>)"
    using assms(1-3) a le ref_ok [OF assms(2)] by (simp add: pa_mcalign_push_def Let_def)
  show "pa_mcalign_pop (m\<lparr>mem_refs := (mem_refs m)(b := mem_refs m b + 1)\<rparr>) (a\<lparr>ma_current := c\<rparr>) =
       Inr (Some c, m\<lparr>mem_refs := (mem_refs m)(b := mem_refs m b + 1)\<rparr>, a)"
    using assms(1-4) a le by (simp add: pa_mcalign_pop_def Let_def ref_ok unref_ok)
qed

text \<open>With nothing waiting in the alignment, pushing a chunk of whole frames through it has the outcome of a push: the bytes of the chunk are at the
  write position, all others are what they were, nothing is left waiting, and references are balanced.\<close>

theorem push_align_frames:
  assumes ok: "bq_ok m bq" and c: "chunk_ok m c" "mc_memblock c = Some b" "bq_held bq b < mem_refs m b" and al: "bq_base bq dvd mc_length c" "bq_base bq dvd mc_index c"
    and can: "can_push bq (mc_length c)" and free: "\<forall>it \<in> set (items bq). \<not> overhangs (bq_write_index bq) (bq_write_index bq + int (mc_length c)) it"
    and a: "bq_mcalign bq = \<lparr>ma_base = bq_base bq, ma_leftover = pa_memchunk_reset, ma_current = pa_memchunk_reset\<rparr>"
  shows "\<exists>m' bq'. pa_memblockq_push_align m bq c = Inr (0, m', bq') \<and> bq_ok m' bq' \<and> bq_mcalign bq' = bq_mcalign bq \<and>
     timeline m' (items bq') = overlay m (bq_write_index bq) c (timeline m (items bq)) \<and> bq_write_index bq' = bq_write_index bq + int (mc_length c) \<and>
     (\<forall>b. mem_refs m' b + bq_held bq b = mem_refs m b + bq_held bq' b)"
proof (cases "bq_base bq = 1")
  case True
  obtain m' bq' where r: "pa_memblockq_push m bq c = Inr (0, m', bq')" "bq_ok m' bq'" "\<forall>b. mem_refs m' b + bq_held bq b = mem_refs m b + bq_held bq' b"
     "same_rest (bq\<lparr>bq_write_index := bq_write_index bq + int (mc_length c), bq_requested := bq_requested bq - int (mc_length c)\<rparr>) bq'"
     "\<forall>t. timeline m' (items bq') t = overlay m (bq_write_index bq) c (timeline m (items bq)) t"
    using push_result [OF ok c al can] shifted_none [OF free] by auto
  then have "timeline m' (items bq') = overlay m (bq_write_index bq) c (timeline m (items bq))" by (simp add: fun_eq_iff)
  then show ?thesis using r(1-4) True by (simp add: pa_memblockq_push_align_def same_rest_def)
next
  case False
  have len: "0 < mc_length c" "0 < mem_refs m b" using c by (auto simp: chunk_ok_def)
  let ?m = "m\<lparr>mem_refs := (mem_refs m)(b := mem_refs m b + 1)\<rparr>"
  have base: "0 < ma_base (bq_mcalign bq)" using bq_okD(9) [OF ok] a by simp
  have e: "pa_mcalign_push m (bq_mcalign bq) c = Inr (?m, (bq_mcalign bq)\<lparr>ma_current := c\<rparr>)" "pa_mcalign_pop ?m ((bq_mcalign bq)\<lparr>ma_current := c\<rparr>) = Inr (Some c, ?m, bq_mcalign bq)"
    using align_push_empty [OF c(2) len(2,1) _ base] al(1) a by simp_all
  have ok1: "bq_ok ?m bq" using ok by (auto simp: bq_ok_def le_SucI)
  have c1: "chunk_ok ?m c" "bq_held bq b < mem_refs ?m b" using c(1,3) by simp_all
  obtain m2 bq2 where r: "pa_memblockq_push ?m bq c = Inr (0, m2, bq2)" "bq_ok m2 bq2" "mem_data m2 = mem_data m" "\<forall>x. mem_refs m2 x + bq_held bq x = mem_refs ?m x + bq_held bq2 x"
     "same_rest (bq\<lparr>bq_write_index := bq_write_index bq + int (mc_length c), bq_requested := bq_requested bq - int (mc_length c)\<rparr>) bq2"
     "\<forall>t. timeline m2 (items bq2) t = overlay ?m (bq_write_index bq) c (timeline ?m (items bq)) t"
    using push_result [OF ok1 c1(1) c(2) c1(2) al can] shifted_none [OF free] by auto
  let ?m3 = "m2\<lparr>mem_refs := (mem_refs m2)(b := mem_refs m2 b - 1)\<rparr>"
  have pos: "0 < mem_refs m2 b" using r(4) [rule_format, of b] c(3) by simp
  have refs: "mem_refs ?m3 x + bq_held bq x = mem_refs m x + bq_held bq2 x" for x using r(4) [rule_format, of x] pos by auto
  have "bq_held bq2 x \<le> mem_refs ?m3 x" for x using refs [of x] bq_okD(8) [OF ok, rule_format, of x] by linarith
  then have "bq_ok ?m3 bq2" using r(2) by (simp add: bq_ok_def)
  moreover have mc: "bq_mcalign bq2 = bq_mcalign bq" "bq_write_index bq2 = bq_write_index bq + int (mc_length c)" using r(5) by (simp_all add: same_rest_def)
  moreover have "timeline ?m3 (items bq2) = overlay m (bq_write_index bq) c (timeline m (items bq))"
    using r(6) timeline_cong [of ?m3 m2] timeline_cong [of ?m m] chunk_bytes_same [of ?m m] by (simp add: fun_eq_iff overlay_def)
  moreover have "pa_memblockq_push_align m bq c = Inr (0, ?m3, bq2)"
  proof -
    have "mc_length c div bq_base bq * bq_base bq = mc_length c" using al(1) by simp
    then have "pa_mcalign_csize (bq_mcalign bq) (mc_length c) = Inr (mc_length c)" using a len(1) by (simp add: pa_mcalign_csize_def)
    moreover have "pa_mcalign_pop ?m3 (bq_mcalign bq) = Inr (None, ?m3, bq_mcalign bq)" using a by (simp add: pa_mcalign_pop_def)
    then have "push_pops 2 ?m3 bq2 = Inr (0, ?m3, bq2)" using mc(1) by (subst push_pops.simps) (simp add: Let_def)
    then have "push_pops 3 ?m (bq\<lparr>bq_mcalign := (bq_mcalign bq)\<lparr>ma_current := c\<rparr>\<rparr>) = Inr (0, ?m3, bq2)"
      using e(2) r(1) c(2) unref_ok [OF pos] by (subst push_pops.simps) (simp add: Let_def unref_chunk_def numeral_3_eq_3 numeral_2_eq_2)
    ultimately show ?thesis using False can e(1) by (simp add: pa_memblockq_push_align_def)
  qed
  ultimately show ?thesis using refs by auto
qed

definition aligned_queue :: "pa_mcalign \<Rightarrow> pa_memblockq" where
  "aligned_queue a = (sample_queue 6)\<lparr>bq_base := ma_base a, bq_mcalign := a\<rparr>"

lemma aligned_queue_ok: "0 < ma_base a \<Longrightarrow> bq_ok sample_mem (aligned_queue a)"
  using sample_queue_ok(1) [of 6] by (simp add: aligned_queue_def bq_ok_def items_def bq_held_def)

lemma aligned_queue_items: "items (aligned_queue a) = [\<lparr>li_index = 0, li_chunk = \<lparr>mc_memblock = Some 0, mc_index = 0, mc_length = 6\<rparr>\<rparr>]"
  using sample_queue_ok(2) [of 6] by (simp add: aligned_queue_def items_def)

theorem push_align_frames_witness:
  "\<exists>m' bq'. pa_memblockq_push_align sample_mem (aligned_queue \<lparr>ma_base = 2, ma_leftover = pa_memchunk_reset, ma_current = pa_memchunk_reset\<rparr>)
      \<lparr>mc_memblock = Some 1, mc_index = 2, mc_length = 4\<rparr> = Inr (0, m', bq') \<and> timeline m' (items bq') 6 = Some 3 \<and> bq_write_index bq' = 10"
  using push_align_frames [OF aligned_queue_ok, of "\<lparr>ma_base = 2, ma_leftover = pa_memchunk_reset, ma_current = pa_memchunk_reset\<rparr>"
      "\<lparr>mc_memblock = Some 1, mc_index = 2, mc_length = 4\<rparr>" 1]
  unfolding aligned_queue_items
  by (auto simp: aligned_queue_def sample_queue_def sample_mem_def chunk_ok_def bq_held_def items_def holds_def can_push_def blocks_end_def li_end_def overhangs_def overlay_def chunk_bytes_def)

section \<open>Chunks that are not\<close>









end
