(* ===== verification/PaRead.thy ===== *)
theory PaRead
  imports PaPush
begin

text \<open>
  Reading from a queue: what is handed out at the read position is the time line there, dropping moves the read
  position and gives up what is too old to be read again.
\<close>

section \<open>The current item\<close>

lemma scan_left_ok:
  assumes "bq_blocks bq = rev ps @ q # bs"
  shows "\<exists>as cs. bq_blocks bq = as @ scan_left bq i q ps # cs \<and> (as = [] \<or> li_index (bq_item_at bq (scan_left bq i q ps)) \<le> i)"
  using assms
proof (induction ps arbitrary: q bs)
  case Nil
  then show ?case by auto
next
  case (Cons p ps)
  show ?case
  proof (cases "li_index (bq_item_at bq q) > i")
    case True
    then show ?thesis using Cons.IH [of p "q # bs"] Cons.prems by simp
  next
    case False
    then show ?thesis using Cons.prems by (intro exI [of _ "rev ps @ [p]"] exI [of _ bs]) simp
  qed
qed

lemma scan_right_append: "\<forall>x \<in> set as. li_end (bq_item_at bq x) \<le> i \<Longrightarrow> scan_right bq i (as @ bs) = scan_right bq i bs"
  by (induction as) simp_all

lemma scan_right_None: "scan_right bq i qs = None \<longleftrightarrow> (\<forall>x \<in> set qs. li_end (bq_item_at bq x) \<le> i)"
  by (induction qs) auto

lemma scan_right_Some:
  "scan_right bq i qs = Some q \<Longrightarrow> \<exists>as bs. qs = as @ q # bs \<and> (\<forall>x \<in> set as. li_end (bq_item_at bq x) \<le> i) \<and> i < li_end (bq_item_at bq q)"
proof (induction qs)
  case (Cons p qs)
  show ?case
  proof (cases "li_end (bq_item_at bq p) \<le> i")
    case True
    then obtain as bs where "qs = as @ q # bs" "\<forall>x \<in> set as. li_end (bq_item_at bq x) \<le> i" "i < li_end (bq_item_at bq q)" using Cons by auto
    then show ?thesis using True by (intro exI [of _ "p # as"] exI [of _ bs]) simp
  next
    case False
    then show ?thesis using Cons.prems by (intro exI [of _ "[]"] exI [of _ qs]) simp
  qed
qed simp

text \<open>From wherever the search starts, it finds the first item that is not over at the read position.\<close>

lemma fix_current_read_ok:
  assumes ok: "bq_ok m bq"
  shows "fix_current_read bq = bq\<lparr>bq_current_read := scan_right bq (bq_read_index bq) (bq_blocks bq)\<rparr>"
proof (cases "bq_blocks bq")
  case Nil
  then show ?thesis by (simp add: fix_current_read_def)
next
  case (Cons b bl)
  let ?i = "bq_read_index bq"
  define q where "q = (case bq_current_read bq of None \<Rightarrow> b | Some q \<Rightarrow> q)"
  have "q \<in> set (bq_blocks bq)" using Cons bq_okD(4) [OF ok] by (auto simp: q_def split: option.split)
  then obtain xs ys where xs: "bq_blocks bq = xs @ q # ys" by (meson split_list)
  have d: "distinct (bq_blocks bq)" by (rule bq_okD(1) [OF ok])
  have "before (bq_blocks bq) q = rev xs" using around(1) d xs by simp
  then obtain as cs where r: "bq_blocks bq = as @ scan_left bq ?i q (before (bq_blocks bq) q) # cs"
      "as = [] \<or> li_index (bq_item_at bq (scan_left bq ?i q (before (bq_blocks bq) q))) \<le> ?i"
    using scan_left_ok [of bq "before (bq_blocks bq) q" q ys ?i] xs by auto
  define r where "r = scan_left bq ?i q (before (bq_blocks bq) q)"
  have bs: "bq_blocks bq = as @ r # cs" and le: "as = [] \<or> li_index (bq_item_at bq r) \<le> ?i" using r by (simp_all add: r_def)
  have "after (bq_blocks bq) r = cs" using around(2) [of as r cs] d bs by simp
  moreover have "\<forall>x \<in> set as. li_end (bq_item_at bq x) \<le> ?i"
    using bq_okD(6) [OF ok] le items_split [OF bs] by (fastforce simp: items_apart_append)
  then have "scan_right bq ?i (bq_blocks bq) = scan_right bq ?i (r # cs)" using scan_right_append [of as bq ?i "r # cs"] bs by simp
  moreover have "(case bq_blocks bq of [] \<Rightarrow> x | b # _ \<Rightarrow> f b) = f b" for x and f :: "nat \<Rightarrow> pa_memblockq" using Cons by simp
  ultimately show ?thesis unfolding fix_current_read_def Let_def by (simp add: q_def [symmetric] r_def [symmetric] del: scan_right.simps)
qed

lemma fix_current_read_keeps:
  assumes "bq_ok m bq"
  shows "bq_ok m (fix_current_read bq)" "items (fix_current_read bq) = items bq" "same_rest bq (fix_current_read bq)"
proof -
  have "set_option (scan_right bq (bq_read_index bq) (bq_blocks bq)) \<subseteq> set (bq_blocks bq)"
    using scan_right_Some [of bq "bq_read_index bq" "bq_blocks bq"] by (fastforce simp: elem_set)
  then show "bq_ok m (fix_current_read bq)" "items (fix_current_read bq) = items bq" "same_rest bq (fix_current_read bq)"
    using bq_okD(5) [OF assms] unfolding fix_current_read_ok [OF assms]
    by (auto intro!: bq_ok_cong [OF assms] simp: items_def same_rest_def metrics_def)
qed

section \<open>Peeking\<close>

text \<open>The check for prebuffering without a side effect agrees with the one that has it.\<close>

lemma update_prebuf_eq: "update_prebuf bq = (pa_memblockq_prebuf_active bq, bq\<lparr>bq_in_prebuf := pa_memblockq_prebuf_active bq\<rparr>)"
  by (simp add: update_prebuf_def pa_memblockq_prebuf_active_def)

lemma ok_in_prebuf: "bq_ok m bq \<Longrightarrow> bq_ok m (bq\<lparr>bq_in_prebuf := p\<rparr>)"
  using bq_okD(4,5) [of m bq] by (auto intro!: bq_ok_cong [of m bq])

text \<open>The time line around the item that is found.\<close>

lemma current_None:
  assumes "scan_right bq i (bq_blocks bq) = None" "i \<le> t"
  shows "timeline m (items bq) t = None"
  using assms unfolding scan_right_None items_def by (intro timeline_right) auto

lemma current_Some:
  assumes ok: "bq_ok m bq" and "scan_right bq i (bq_blocks bq) = Some q"
  defines "it \<equiv> bq_item_at bq q"
  shows "it \<in> set (items bq)" "i < li_end it" "i \<le> t \<Longrightarrow> t < li_index it \<Longrightarrow> timeline m (items bq) t = None"
    "i \<le> t \<Longrightarrow> li_index it \<le> t \<Longrightarrow> t < li_end it \<Longrightarrow> timeline m (items bq) t = item_byte m it t"
proof -
  obtain as bs where bs: "bq_blocks bq = as @ q # bs" "\<forall>x \<in> set as. li_end (bq_item_at bq x) \<le> i" "i < li_end it"
    using scan_right_Some [OF assms(2)] by (auto simp: it_def)
  have its: "items bq = map (bq_item_at bq) as @ it # map (bq_item_at bq) bs" using items_split [OF bs(1)] by (simp add: it_def)
  show "it \<in> set (items bq)" "i < li_end it" using its bs(3) by simp_all
  have skip: "timeline m (items bq) t = timeline m (it # map (bq_item_at bq) bs) t" if "i \<le> t" for t
    unfolding its by (rule timeline_skip) (use bs(2) that in \<open>fastforce simp: covers_def\<close>)
  show "i \<le> t \<Longrightarrow> t < li_index it \<Longrightarrow> timeline m (items bq) t = None"
  proof -
    assume t: "i \<le> t" "t < li_index it"
    have "\<forall>x \<in> set (it # map (bq_item_at bq) bs). li_index it \<le> li_index x"
      using bq_okD(6) [OF ok] li_end_greater [of "items bq" it] unfolding its by (fastforce simp: items_apart_append items_apart_Cons)
    then show ?thesis unfolding skip [OF t(1)] using t(2) by (intro timeline_left) fastforce
  qed
  show "i \<le> t \<Longrightarrow> li_index it \<le> t \<Longrightarrow> t < li_end it \<Longrightarrow> timeline m (items bq) t = item_byte m it t"
    using skip by (simp add: covers_def)
qed

text \<open>The part of an item from a position on.\<close>

definition from_item :: "int \<Rightarrow> list_item \<Rightarrow> pa_memchunk" where
  "from_item i it = (li_chunk it)\<lparr>mc_index := mc_index (li_chunk it) + nat (i - li_index it), mc_length := mc_length (li_chunk it) - nat (i - li_index it)\<rparr>"

lemma from_item_ok:
  assumes c: "chunk_ok m (li_chunk it)" and i: "li_index it \<le> i" "i < li_end it"
  shows "chunk_ok m (from_item i it)" "int (mc_length (from_item i it)) = li_end it - i" "holds (from_item i it) b = holds (li_chunk it) b"
    "k < mc_length (from_item i it) \<Longrightarrow> item_byte m it (i + int k) = Some (chunk_bytes m (from_item i it) ! k)"
proof -
  show "chunk_ok m (from_item i it)" using c i by (auto simp: from_item_def chunk_ok_def li_end_def)
  show "int (mc_length (from_item i it)) = li_end it - i" using i by (auto simp: from_item_def li_end_def)
  show "holds (from_item i it) b = holds (li_chunk it) b" by (simp add: from_item_def holds_def)
  assume k: "k < mc_length (from_item i it)"
  have "nat (i + int k - li_index it) = nat (i - li_index it) + k" using i by arith
  then show "item_byte m it (i + int k) = Some (chunk_bytes m (from_item i it) ! k)"
    using c k by (auto simp: from_item_def item_byte_def chunk_bytes_def chunk_ok_def add.assoc)
qed

text \<open>The chunk that is handed out: the time line where there is data; otherwise silence, or only a length, and no
  data is skipped by it.\<close>

definition peeked :: "pa_mem \<Rightarrow> pa_memblockq \<Rightarrow> pa_memchunk option \<Rightarrow> bool" where
  "peeked m bq r \<longleftrightarrow> (case r of
     None \<Rightarrow> mc_memblock (bq_silence bq) = None \<and> bq_write_index bq \<le> bq_read_index bq \<and> (\<forall>t \<ge> bq_read_index bq. timeline m (items bq) t = None)
   | Some c \<Rightarrow>
       if timeline m (items bq) (bq_read_index bq) = None
       then mc_memblock c = mc_memblock (bq_silence bq) \<and> mc_index c = 0 \<and> (\<forall>k < mc_length c. timeline m (items bq) (bq_read_index bq + int k) = None) \<and>
         (mc_memblock c \<noteq> None \<longrightarrow> mc_length c \<le> mc_length (bq_silence bq)) \<and> (0 < mc_length c \<or> (0 = mc_length (bq_silence bq) \<and> mc_memblock c \<noteq> None))
       else chunk_ok m c \<and> (\<forall>k < mc_length c. timeline m (items bq) (bq_read_index bq + int k) = Some (chunk_bytes m c ! k)))"

definition res_held :: "pa_memchunk option \<Rightarrow> nat \<Rightarrow> nat" where
  "res_held r b = (case r of None \<Rightarrow> 0 | Some c \<Rightarrow> holds c b)"

definition silence_ok :: "pa_mem \<Rightarrow> pa_memblockq \<Rightarrow> bool" where
  "silence_ok m bq \<longleftrightarrow> (\<forall>b. mc_memblock (bq_silence bq) = Some b \<longrightarrow> 0 < mem_refs m b)"

lemma peek_start:
  assumes "bq_ok m bq" "\<not> pa_memblockq_prebuf_active bq"
  shows "update_prebuf bq = (False, bq\<lparr>bq_in_prebuf := False\<rparr>)"
    "fix_current_read (bq\<lparr>bq_in_prebuf := False\<rparr>) = bq\<lparr>bq_in_prebuf := False, bq_current_read := scan_right bq (bq_read_index bq) (bq_blocks bq)\<rparr>"
proof -
  have "scan_right (bq\<lparr>bq_in_prebuf := False\<rparr>) i xs = scan_right bq i xs" for i xs by (induction xs) simp_all
  then show "fix_current_read (bq\<lparr>bq_in_prebuf := False\<rparr>) = bq\<lparr>bq_in_prebuf := False, bq_current_read := scan_right bq (bq_read_index bq) (bq_blocks bq)\<rparr>"
    using fix_current_read_ok [OF ok_in_prebuf [OF assms(1)]] by simp
  show "update_prebuf bq = (False, bq\<lparr>bq_in_prebuf := False\<rparr>)" using update_prebuf_eq [of bq] assms(2) by simp
qed

lemma peek_data:
  assumes ok: "bq_ok m bq" and run: "\<not> pa_memblockq_prebuf_active bq"
    and q: "scan_right bq (bq_read_index bq) (bq_blocks bq) = Some q" "li_index (bq_item_at bq q) \<le> bq_read_index bq"
  defines "r \<equiv> Some (from_item (bq_read_index bq) (bq_item_at bq q))"
  shows "pa_memblockq_peek m bq = Inr (r, m\<lparr>mem_refs := (\<lambda>b. mem_refs m b + res_held r b)\<rparr>, bq\<lparr>bq_in_prebuf := False, bq_current_read := Some q\<rparr>) \<and> peeked m bq r"
proof -
  let ?it = "bq_item_at bq q" and ?ri = "bq_read_index bq"
  note c = current_Some [OF ok q(1)] and st = peek_start [OF ok run, unfolded q(1)]
  have ci: "chunk_ok m (li_chunk ?it)" using bq_okD(7) [OF ok] c(1) by blast
  note f = from_item_ok [OF ci q(2) c(2)]
  obtain b where b: "mc_memblock (li_chunk ?it) = Some b" using chunk_block [OF ci] by blast
  obtain A B where "items bq = A @ ?it # B" using split_list [OF c(1)] by blast
  then have pos: "0 < mem_refs m b" using bq_okD(8) [OF ok, rule_format, of b] b by (simp add: bq_held_def holds_def)
  have "pa_memblockq_peek m bq = Inr (r, m\<lparr>mem_refs := (mem_refs m)(b := mem_refs m b + 1)\<rparr>, bq\<lparr>bq_in_prebuf := False, bq_current_read := Some q\<rparr>)"
    unfolding pa_memblockq_peek_def st prod.case Let_def using q b by (simp add: ref_ok [OF pos] from_item_def r_def)
  moreover have "(mem_refs m)(b := mem_refs m b + 1) = (\<lambda>b. mem_refs m b + res_held r b)"
    using b by (auto simp: r_def res_held_def holds_def from_item_def)
  moreover have "timeline m (items bq) (?ri + int k) = Some (chunk_bytes m (from_item ?ri ?it) ! k)" if "k < mc_length (from_item ?ri ?it)" for k
    using c(4) [of "?ri + int k"] f(2) f(4) [OF that] that q(2) by simp
  then have "peeked m bq r" using f(1) c(4) [of ?ri] q(2) c(2) b by (simp add: peeked_def item_byte_def r_def)
  ultimately show ?thesis by simp
qed

lemma peek_hole:
  assumes ok: "bq_ok m bq" and sil: "silence_ok m bq" and run: "\<not> pa_memblockq_prebuf_active bq"
  defines "ri \<equiv> bq_read_index bq"
  defines "cur \<equiv> scan_right bq ri (bq_blocks bq)"
  assumes hole: "\<And>q. cur = Some q \<Longrightarrow> ri < li_index (bq_item_at bq q)"
  shows "\<exists>r. pa_memblockq_peek m bq = Inr (r, m\<lparr>mem_refs := (\<lambda>b. mem_refs m b + res_held r b)\<rparr>, bq\<lparr>bq_in_prebuf := False, bq_current_read := cur\<rparr>) \<and> peeked m bq r"
proof -
  let ?bq = "bq\<lparr>bq_in_prebuf := False, bq_current_read := cur\<rparr>"
  note st = peek_start [OF ok run, folded ri_def, folded cur_def]
  define len where "len = (case cur of Some q \<Rightarrow> nat (li_index (bq_item_at bq q) - ri)
    | None \<Rightarrow> if bq_write_index bq > ri then nat (bq_write_index bq - ri) else 0)"
  have empty: "timeline m (items bq) (ri + int k) = None" if "cur = None \<or> k < len" for k
    using current_None [of bq ri "ri + int k" m] current_Some(3) [OF ok, of ri _ "ri + int k"] that
    by (cases cur) (auto simp: cur_def [symmetric] len_def)
  have at: "timeline m (items bq) ri = None" using empty [of 0] hole by (cases cur) (auto simp: len_def)
  show ?thesis
  proof (cases "mc_memblock (bq_silence bq)")
    case None
    let ?r = "if len \<le> 0 then None else Some \<lparr>mc_memblock = None, mc_index = 0, mc_length = len\<rparr>"
    have "pa_memblockq_peek m bq = Inr (?r, m, ?bq)"
      unfolding pa_memblockq_peek_def st prod.case Let_def using hole None by (cases cur) (auto simp: ri_def [symmetric] len_def)
    moreover have "peeked m bq ?r"
    proof (cases "len = 0")
      case True
      then have "cur = None" "bq_write_index bq \<le> ri" using hole by (auto simp: len_def split: option.splits if_splits)
      then show ?thesis using True None current_None [of bq ri] by (simp add: peeked_def ri_def [symmetric] cur_def)
    qed (use None empty at in \<open>simp add: peeked_def ri_def [symmetric]\<close>)
    ultimately show ?thesis by (intro exI [of _ ?r]) (simp add: res_held_def holds_def)
  next
    case (Some b)
    then have pos: "0 < mem_refs m b" using sil by (simp add: silence_ok_def)
    let ?c = "(if len > 0 \<and> len < mc_length (bq_silence bq) then (bq_silence bq)\<lparr>mc_length := len\<rparr> else bq_silence bq)\<lparr>mc_index := 0\<rparr>"
    have "pa_memblockq_peek m bq = Inr (Some ?c, m\<lparr>mem_refs := (mem_refs m)(b := mem_refs m b + 1)\<rparr>, ?bq)"
      unfolding pa_memblockq_peek_def st prod.case Let_def using hole Some by (cases cur) (auto simp: ri_def [symmetric] len_def ref_ok [OF pos])
    moreover have "(mem_refs m)(b := mem_refs m b + 1) = (\<lambda>b. mem_refs m b + res_held (Some ?c) b)" using Some by (auto simp: res_held_def holds_def)
    moreover have "cur = None \<or> k < len" if "k < mc_length ?c" for k
      using that hole by (cases cur) (auto simp: len_def split: if_splits)
    then have "peeked m bq (Some ?c)" using Some at empty by (auto simp: peeked_def ri_def [symmetric])
    ultimately show ?thesis by (intro exI [of _ "Some ?c"]) simp
  qed
qed

lemma peek_result:
  assumes ok: "bq_ok m bq" and sil: "silence_ok m bq" and run: "\<not> pa_memblockq_prebuf_active bq"
  defines "cur \<equiv> scan_right bq (bq_read_index bq) (bq_blocks bq)"
  shows "\<exists>r. pa_memblockq_peek m bq = Inr (r, m\<lparr>mem_refs := (\<lambda>b. mem_refs m b + res_held r b)\<rparr>, bq\<lparr>bq_in_prebuf := False, bq_current_read := cur\<rparr>) \<and> peeked m bq r \<and>
     (\<forall>q. cur = Some q \<longrightarrow> li_index (bq_item_at bq q) \<le> bq_read_index bq \<longrightarrow> r = Some (from_item (bq_read_index bq) (bq_item_at bq q)))"
proof (cases "\<exists>q. cur = Some q \<and> li_index (bq_item_at bq q) \<le> bq_read_index bq")
  case True
  then obtain q where q: "cur = Some q" "li_index (bq_item_at bq q) \<le> bq_read_index bq" by blast
  then show ?thesis using peek_data [OF ok run, of q] unfolding cur_def by auto
next
  case False
  then have "\<And>q. cur = Some q \<Longrightarrow> bq_read_index bq < li_index (bq_item_at bq q)" by auto
  from peek_hole [OF ok sil run this [unfolded cur_def]] show ?thesis using False unfolding cur_def by blast
qed

text \<open>C31. A queue that does not wait for its prebuffer hands out what is at its read position. Where the time line has data, the chunk
  is not empty and has the bytes of the time line in order; in a hole, it is silence, or, without a silence block, the
  number of bytes to wait, and ends before the next data; the result is -1 only behind all data.
  The queue changes only in its current item and its prebuffer flag, and exactly the references of the result are taken.\<close>

theorem peek_plays:
  assumes "bq_ok m bq" "silence_ok m bq" "\<not> pa_memblockq_prebuf_active bq"
  shows "\<exists>r m' bq'. pa_memblockq_peek m bq = Inr (r, m', bq') \<and> peeked m bq r \<and> bq_ok m bq' \<and> items bq' = items bq \<and>
     bq_read_index bq' = bq_read_index bq \<and> bq_write_index bq' = bq_write_index bq \<and> mem_data m' = mem_data m \<and>
     (\<forall>b. mem_refs m' b = mem_refs m b + res_held r b)"
proof -
  have "set_option (scan_right bq (bq_read_index bq) (bq_blocks bq)) \<subseteq> set (bq_blocks bq)"
    using fix_current_read_keeps(1) [OF assms(1)] unfolding fix_current_read_ok [OF assms(1)] by (auto dest: bq_okD(4))
  then have "bq_ok m (bq\<lparr>bq_in_prebuf := False, bq_current_read := scan_right bq (bq_read_index bq) (bq_blocks bq)\<rparr>)"
    using bq_okD(5) [OF assms(1)] by (intro bq_ok_cong [OF assms(1)]) simp_all
  then show ?thesis using peek_result [OF assms] by (fastforce simp: items_def)
qed

lemma sample_queue_runs: "silence_ok sample_mem (sample_queue w)" "\<not> pa_memblockq_prebuf_active (sample_queue w)"
  by (simp_all add: silence_ok_def sample_queue_def pa_memblockq_prebuf_active_def)

theorem peek_plays_witness:
  "\<exists>r m' bq'. pa_memblockq_peek sample_mem (sample_queue 6) = Inr (r, m', bq') \<and> peeked sample_mem (sample_queue 6) r \<and> r \<noteq> None"
proof -
  have "\<not> peeked sample_mem (sample_queue 6) None" by (simp add: peeked_def) (simp add: sample_queue_def)
  moreover obtain r m' bq' where "pa_memblockq_peek sample_mem (sample_queue 6) = Inr (r, m', bq')" "peeked sample_mem (sample_queue 6) r"
    using peek_plays [OF sample_queue_ok(1) sample_queue_runs, of 6] by blast
  ultimately show ?thesis by (cases r) auto
qed

section \<open>Dropping\<close>

text \<open>Some of the time line may go away before a position.\<close>

definition forgets :: "int \<Rightarrow> (int \<Rightarrow> u8 option) \<Rightarrow> (int \<Rightarrow> u8 option) \<Rightarrow> bool" where
  "forgets i f g \<longleftrightarrow> (\<forall>t. g t = f t \<or> t < i \<and> g t = None)"

lemma forgets_refl [simp]: "forgets i f f"
  by (simp add: forgets_def)

lemma forgets_trans: "forgets i f g \<Longrightarrow> forgets i g h \<Longrightarrow> forgets i f h"
  unfolding forgets_def by metis

definition shrunk :: "int \<Rightarrow> pa_mem \<Rightarrow> pa_memblockq \<Rightarrow> pa_mem \<Rightarrow> pa_memblockq \<Rightarrow> bool" where
  "shrunk i m bq m' bq' \<longleftrightarrow> bq_ok m' bq' \<and> same_rest bq bq' \<and> mem_data m' = mem_data m \<and> mem_next m' = mem_next m \<and>
     (\<forall>b. mem_refs m' b + bq_held bq b = mem_refs m b + bq_held bq' b) \<and> forgets i (timeline m (items bq)) (timeline m' (items bq'))"

lemma shrunk_refl: "bq_ok m bq \<Longrightarrow> shrunk i m bq m bq"
  by (simp add: shrunk_def)

lemma shrunk_trans:
  assumes "shrunk i m bq m1 bq1" "shrunk i m1 bq1 m2 bq2"
  shows "shrunk i m bq m2 bq2"
proof -
  have "mem_refs m2 b + bq_held bq b = mem_refs m b + bq_held bq2 b" for b
  proof -
    have "mem_refs m1 b + bq_held bq b = mem_refs m b + bq_held bq1 b" "mem_refs m2 b + bq_held bq1 b = mem_refs m1 b + bq_held bq2 b"
      using assms by (simp_all add: shrunk_def)
    then show ?thesis by linarith
  qed
  moreover have "same_rest bq bq2" by (rule same_rest_trans [of bq bq1]) (use assms in \<open>simp_all add: shrunk_def\<close>)
  moreover have "forgets i (timeline m (items bq)) (timeline m2 (items bq2))"
    by (rule forgets_trans [of i _ "timeline m1 (items bq1)"]) (use assms in \<open>simp_all add: shrunk_def\<close>)
  ultimately show ?thesis using assms by (simp add: shrunk_def)
qed

lemma drop_front_ok:
  assumes "bq_ok m bq" "bq_blocks bq = qs"
  shows "\<exists>m' bq'. drop_front i qs m bq = Inr (m', bq') \<and> shrunk i m bq m' bq' \<and> (\<forall>it \<in> set (items bq'). i < li_end it)"
  using assms
proof (induction qs arbitrary: m bq)
  case Nil
  then show ?case by (simp add: shrunk_refl items_def)
next
  case (Cons q qs)
  note ok = Cons.prems(1)
  let ?it = "bq_item_at bq q"
  have its: "items bq = ?it # map (bq_item_at bq) qs" using Cons.prems(2) by (simp add: items_def)
  show ?case
  proof (cases "li_end ?it \<le> i")
    case True
    obtain m1 bq1 where d: "drop_block m bq q = Inr (m1, bq1)" "bq_ok m1 bq1" "bq_blocks bq1 = qs" "bq_item_at bq1 = bq_item_at bq" "same_rest bq bq1"
        "mem_data m1 = mem_data m" "mem_next m1 = mem_next m" "\<forall>b. mem_refs m1 b + bq_held bq b = mem_refs m b + bq_held bq1 b"
      using drop_block_ok [OF ok, of "[]" q qs] Cons.prems(2) by auto
    have ap: "items_apart (?it # map (bq_item_at bq) qs)" using bq_okD(6) [OF ok] its by simp
    have "timeline m1 (items bq1) t = timeline m (items bq) t \<or> t < i \<and> timeline m1 (items bq1) t = None" for t
    proof (cases "covers ?it t")
      case c: True
      then have "\<forall>x \<in> set (map (bq_item_at bq) qs). t < li_index x" using ap by (fastforce simp: items_apart_Cons covers_def)
      then show ?thesis using c True d(3,4) timeline_left by (auto simp: items_def covers_def)
    qed (simp add: its items_def [of bq1] d(3,4) timeline_cong [OF d(6)])
    then have s: "shrunk i m bq m1 bq1" using d by (simp add: shrunk_def forgets_def)
    obtain m2 bq2 where e: "drop_front i qs m1 bq1 = Inr (m2, bq2)" "shrunk i m1 bq1 m2 bq2" "\<forall>it \<in> set (items bq2). i < li_end it"
      using Cons.IH [OF d(2,3)] by blast
    show ?thesis using True d(1) e(1,3) shrunk_trans [OF s e(2)] by simp
  next
    case False
    have "i < li_end it" if "it \<in> set (items bq)" for it
      using that False bq_okD(6) [OF ok] li_end_greater [OF bq_okD(6) [OF ok] that] unfolding its items_apart_Cons by fastforce
    then show ?thesis using False shrunk_refl [OF ok] by simp
  qed
qed

lemma drop_backlog_ok:
  assumes "bq_ok m bq"
  shows "\<exists>m' bq'. drop_backlog m bq = Inr (m', bq') \<and> shrunk (bq_read_index bq - int (bq_maxrewind bq)) m bq m' bq' \<and>
    (\<forall>it \<in> set (items bq'). bq_read_index bq - int (bq_maxrewind bq) < li_end it)"
  using drop_front_ok [OF assms refl] by (simp add: drop_backlog_def)

lemma drop_all_ok:
  assumes "bq_ok m bq" "bq_blocks bq = qs"
  shows "\<exists>m' bq'. drop_all qs m bq = Inr (m', bq') \<and> bq_ok m' bq' \<and> bq_blocks bq' = [] \<and> same_rest bq bq' \<and> mem_data m' = mem_data m \<and>
     mem_next m' = mem_next m \<and> (\<forall>b. mem_refs m' b + bq_held bq b = mem_refs m b)"
  using assms
proof (induction qs arbitrary: m bq)
  case Nil
  then show ?case by (simp add: bq_held_def items_def)
next
  case (Cons q qs)
  obtain m1 bq1 where d: "drop_block m bq q = Inr (m1, bq1)" "bq_ok m1 bq1" "bq_blocks bq1 = qs" "same_rest bq bq1"
      "mem_data m1 = mem_data m" "mem_next m1 = mem_next m" "\<forall>b. mem_refs m1 b + bq_held bq b = mem_refs m b + bq_held bq1 b"
    using drop_block_ok [OF Cons.prems(1), of "[]" q qs] Cons.prems(2) by auto
  obtain m2 bq2 where e: "drop_all qs m1 bq1 = Inr (m2, bq2)" "bq_ok m2 bq2" "bq_blocks bq2 = []" "same_rest bq1 bq2" "mem_data m2 = mem_data m1"
     "mem_next m2 = mem_next m1" "\<forall>b. mem_refs m2 b + bq_held bq1 b = mem_refs m1 b" using Cons.IH [OF d(2,3)] by blast
  have "mem_refs m2 b + bq_held bq b = mem_refs m b" for b using d(7) [rule_format, of b] e(7) [rule_format, of b] by linarith
  then show ?case using d(1,5,6) e same_rest_trans [OF d(4) e(4)] by simp
qed

declare drop_loop.simps [simp del]

lemma drop_loop_ok:
  assumes "bq_ok m bq" "len \<le> fuel"
  shows "\<exists>bq' ri' p. drop_loop fuel len bq = Inr bq' \<and> bq_ok m bq' \<and> items bq' = items bq \<and> same_rest (bq\<lparr>bq_read_index := ri', bq_in_prebuf := p\<rparr>) bq' \<and>
    bq_read_index bq \<le> ri' \<and> ri' \<le> bq_read_index bq + int len \<and> (ri' = bq_read_index bq + int len \<or> (0 < bq_prebuf bq \<and> p))"
  using assms
proof (induction fuel arbitrary: len bq)
  case 0
  then have "drop_loop 0 len bq = Inr bq" by (subst drop_loop.simps) simp
  moreover have "same_rest (bq\<lparr>bq_read_index := bq_read_index bq, bq_in_prebuf := bq_in_prebuf bq\<rparr>) bq" by (simp add: same_rest_def metrics_def)
  ultimately show ?case using 0 by (intro exI [of _ bq] exI [of _ "bq_read_index bq"] exI [of _ "bq_in_prebuf bq"]) simp
next
  case (Suc fuel)
  let ?a = "pa_memblockq_prebuf_active bq" and ?ri = "bq_read_index bq"
  define bq0 where "bq0 = bq\<lparr>bq_in_prebuf := ?a\<rparr>"
  have ok0: "bq_ok m bq0" and it0: "items bq0 = items bq" "bq_read_index bq0 = ?ri" using ok_in_prebuf [OF Suc.prems(1)] by (simp_all add: bq0_def items_def)
  consider "len = 0" | "0 < len" "?a" | "0 < len" "\<not> ?a" by blast
  then show ?case
  proof cases
    case 1
    then have "drop_loop (Suc fuel) len bq = Inr bq" by (subst drop_loop.simps) simp
    moreover have "same_rest (bq\<lparr>bq_read_index := bq_read_index bq, bq_in_prebuf := bq_in_prebuf bq\<rparr>) bq" by (simp add: same_rest_def metrics_def)
    ultimately show ?thesis using Suc.prems 1 by (intro exI [of _ bq] exI [of _ ?ri] exI [of _ "bq_in_prebuf bq"]) simp
  next
    case 2
    then have "drop_loop (Suc fuel) len bq = Inr bq0" by (subst drop_loop.simps) (simp add: update_prebuf_eq bq0_def)
    moreover have "same_rest (bq\<lparr>bq_read_index := ?ri, bq_in_prebuf := True\<rparr>) bq0" using 2 by (simp add: bq0_def same_rest_def metrics_def)
    moreover have "0 < bq_prebuf bq" using 2(2) by (auto simp: pa_memblockq_prebuf_active_def split: if_splits)
    ultimately show ?thesis using ok0 it0 by (intro exI [of _ bq0] exI [of _ ?ri] exI [of _ True]) simp
  next
    case 3
    define bq1 where "bq1 = fix_current_read bq0"
    note f = fix_current_read_keeps [OF ok0, folded bq1_def] and cr = fix_current_read_ok [OF ok0, folded bq1_def]
    have ri1: "bq_read_index bq1 = ?ri" "bq_item_at bq1 = bq_item_at bq0" using f(3) it0(2) cr by (simp_all add: same_rest_def)
    have r1: "same_rest (bq\<lparr>bq_in_prebuf := False\<rparr>) bq1" using f(3) 3(2) by (simp add: same_rest_def metrics_def bq0_def)
    have loop: "drop_loop (Suc fuel) len bq = (case bq_current_read bq1 of
         Some q \<Rightarrow> bindR (assertR (li_end (bq_item_at bq1 q) \<ge> ?ri)) (\<lambda>_. let d = min (li_end (bq_item_at bq1 q) - ?ri) (int len)
             in drop_loop fuel (len - nat d) (bq1\<lparr>bq_read_index := ?ri + d\<rparr>))
       | None \<Rightarrow> Inr (bq1\<lparr>bq_read_index := ?ri + int len\<rparr>))"
    proof -
      have "update_prebuf bq = (False, bq0)" using 3(2) by (simp add: update_prebuf_eq bq0_def)
      then show ?thesis using 3(1) ri1(1) by (subst drop_loop.simps) (simp add: bq1_def [symmetric] Let_def split: option.split)
    qed
    have ok2: "bq_ok m (bq1\<lparr>bq_read_index := i\<rparr>)" for i by (rule bq_ok_cong [OF f(1)]) (use bq_okD(4,5) [OF f(1)] in simp_all)
    show ?thesis
    proof (cases "bq_current_read bq1")
      case None
      let ?bq = "bq1\<lparr>bq_read_index := ?ri + int len\<rparr>"
      have "drop_loop (Suc fuel) len bq = Inr ?bq" using loop None by simp
      moreover have "items ?bq = items bq" using f(2) it0 by (simp add: items_def)
      moreover have "same_rest (bq\<lparr>bq_read_index := ?ri + int len, bq_in_prebuf := False\<rparr>) ?bq" using r1 by (simp add: same_rest_def metrics_def)
      ultimately show ?thesis using ok2 by (intro exI [of _ ?bq] exI [of _ "?ri + int len"] exI [of _ False]) simp
    next
      case (Some q)
      have "?ri < li_end (bq_item_at bq1 q)" using current_Some(2) [OF ok0, of ?ri q] Some cr ri1(2) it0(2) by simp
      then obtain d where d: "d = min (li_end (bq_item_at bq1 q) - ?ri) (int len)" "0 < d" "d \<le> int len" using 3(1) by auto
      let ?bq = "bq1\<lparr>bq_read_index := ?ri + d\<rparr>"
      have "drop_loop (Suc fuel) len bq = drop_loop fuel (len - nat d) ?bq" using loop Some \<open>?ri < li_end (bq_item_at bq1 q)\<close> d(1) by (simp add: Let_def)
      moreover have "len - nat d \<le> fuel" using d Suc.prems(2) by linarith
      then obtain bq' ri' p where r: "drop_loop fuel (len - nat d) ?bq = Inr bq'" "bq_ok m bq'" "items bq' = items ?bq"
          "same_rest (?bq\<lparr>bq_read_index := ri', bq_in_prebuf := p\<rparr>) bq'" "?ri + d \<le> ri'" "ri' \<le> ?ri + d + int (len - nat d)"
          "ri' = ?ri + d + int (len - nat d) \<or> (0 < bq_prebuf ?bq \<and> p)"
        using Suc.IH [OF ok2 [of "?ri + d"], of "len - nat d"] by auto
      moreover have "items ?bq = items bq" using f(2) it0 by (simp add: items_def)
      moreover have "d + int (len - nat d) = int len" using d by simp
      moreover have "same_rest (bq\<lparr>bq_read_index := ri', bq_in_prebuf := p\<rparr>) bq'" using r(4) r1 by (simp add: same_rest_def metrics_def)
      moreover have "bq_prebuf ?bq = bq_prebuf bq" using r1 by (simp add: same_rest_def metrics_def)
      ultimately show ?thesis using d by (intro exI [of _ bq'] exI [of _ ri'] exI [of _ p]) auto
    qed
  qed
qed

lemma drop_result:
  assumes ok: "bq_ok m bq" and "bq_base bq dvd len"
  shows "\<exists>m' bq' ri'. pa_memblockq_drop m bq len = Inr (m', bq') \<and> bq_ok m' bq' \<and> bq_read_index bq \<le> ri' \<and> ri' \<le> bq_read_index bq + int len \<and>
     (ri' = bq_read_index bq + int len \<or> (0 < bq_prebuf bq \<and> bq_in_prebuf bq')) \<and>
     same_rest (bq\<lparr>bq_read_index := ri', bq_in_prebuf := bq_in_prebuf bq', bq_missing := bq_missing bq + (ri' - bq_read_index bq)\<rparr>) bq' \<and>
     forgets (ri' - int (bq_maxrewind bq)) (timeline m (items bq)) (timeline m' (items bq')) \<and>
     (\<forall>it \<in> set (items bq'). ri' - int (bq_maxrewind bq) < li_end it) \<and> mem_data m' = mem_data m \<and> mem_next m' = mem_next m \<and>
     (\<forall>b. mem_refs m' b + bq_held bq b = mem_refs m b + bq_held bq' b)"
proof -
  obtain bq1 ri' p where 1: "drop_loop len len bq = Inr bq1" "bq_ok m bq1" "items bq1 = items bq" "same_rest (bq\<lparr>bq_read_index := ri', bq_in_prebuf := p\<rparr>) bq1"
      "bq_read_index bq \<le> ri'" "ri' \<le> bq_read_index bq + int len" "ri' = bq_read_index bq + int len \<or> (0 < bq_prebuf bq \<and> p)"
    using drop_loop_ok [OF ok order_refl] by blast
  have f: "bq_read_index bq1 = ri'" "bq_maxrewind bq1 = bq_maxrewind bq" using 1(4) by (simp_all add: same_rest_def metrics_def)
  obtain m2 bq2 where 2: "drop_backlog m bq1 = Inr (m2, bq2)" "shrunk (ri' - int (bq_maxrewind bq)) m bq1 m2 bq2"
      "\<forall>it \<in> set (items bq2). ri' - int (bq_maxrewind bq) < li_end it"
    using drop_backlog_ok [OF 1(2)] unfolding f by blast
  let ?bq = "read_index_changed bq2 (bq_read_index bq)"
  have its: "items ?bq = items bq2" "bq_held ?bq = bq_held bq2" by (simp_all add: read_index_changed_def items_def bq_held_def fun_eq_iff)
  have held: "bq_held bq1 = bq_held bq" using 1(3) by (simp add: bq_held_def fun_eq_iff)
  have "pa_memblockq_drop m bq len = Inr (m2, ?bq)" using assms(2) 1(1) 2(1) by (simp add: pa_memblockq_drop_def Let_def mod_eq_0_iff_dvd)
  moreover have "bq_ok m2 ?bq" using 2(2) bq_okD(4,5) [of m2 bq2] unfolding shrunk_def
    by (auto simp: read_index_changed_def intro!: bq_ok_cong [of m2 bq2])
  moreover have "same_rest (bq\<lparr>bq_read_index := ri', bq_in_prebuf := bq_in_prebuf ?bq, bq_missing := bq_missing bq + (ri' - bq_read_index bq)\<rparr>) ?bq"
    and "bq_in_prebuf ?bq = p"
    using 1(4) 2(2) by (simp_all add: shrunk_def same_rest_def metrics_def read_index_changed_def)
  ultimately show ?thesis using 1(3,5-7) 2(2,3) its held
    by (intro exI [of _ m2] exI [of _ ?bq] exI [of _ ri']) (simp add: shrunk_def)
qed

text \<open>Dropping ends, moves the read position forward by the length, or by less only when the queue has gone into prebuffering, and keeps
  the invariant. The time line from the oldest position that a rewind may reach is what it was; items that end
  before it are gone, and only their references are given back. The counter of missing bytes grows by the distance.\<close>

theorem drop_moves:
  assumes "bq_ok m bq" and "bq_base bq dvd len"
  shows "\<exists>m' bq'. pa_memblockq_drop m bq len = Inr (m', bq') \<and> bq_ok m' bq' \<and>
     bq_read_index bq \<le> bq_read_index bq' \<and> bq_read_index bq' \<le> bq_read_index bq + int len \<and>
     (bq_read_index bq' = bq_read_index bq + int len \<or> (0 < bq_prebuf bq \<and> bq_in_prebuf bq')) \<and>
     bq_missing bq' = bq_missing bq + (bq_read_index bq' - bq_read_index bq) \<and> bq_write_index bq' = bq_write_index bq \<and>
     forgets (bq_read_index bq' - int (bq_maxrewind bq)) (timeline m (items bq)) (timeline m' (items bq')) \<and>
     (\<forall>it \<in> set (items bq'). bq_read_index bq' - int (bq_maxrewind bq) < li_end it) \<and>
     (\<forall>b. mem_refs m' b + bq_held bq b = mem_refs m b + bq_held bq' b)"
proof -
  obtain m' bq' ri' where r: "pa_memblockq_drop m bq len = Inr (m', bq')" "bq_ok m' bq'" "bq_read_index bq \<le> ri'" "ri' \<le> bq_read_index bq + int len"
     "ri' = bq_read_index bq + int len \<or> (0 < bq_prebuf bq \<and> bq_in_prebuf bq')"
     "same_rest (bq\<lparr>bq_read_index := ri', bq_in_prebuf := bq_in_prebuf bq', bq_missing := bq_missing bq + (ri' - bq_read_index bq)\<rparr>) bq'"
     "forgets (ri' - int (bq_maxrewind bq)) (timeline m (items bq)) (timeline m' (items bq'))"
     "\<forall>it \<in> set (items bq'). ri' - int (bq_maxrewind bq) < li_end it" "\<forall>b. mem_refs m' b + bq_held bq b = mem_refs m b + bq_held bq' b"
    using drop_result [OF assms] by blast
  then have "bq_read_index bq' = ri'" "bq_missing bq' = bq_missing bq + (ri' - bq_read_index bq)" "bq_write_index bq' = bq_write_index bq"
    by (simp_all add: same_rest_def)
  then show ?thesis using r by auto
qed

theorem drop_moves_witness:
  "\<exists>m' bq'. pa_memblockq_drop sample_mem (sample_queue 6) 4 = Inr (m', bq') \<and> bq_ok m' bq' \<and> bq_read_index bq' = 4"
  using drop_moves [OF sample_queue_ok(1), of 6 4] by (auto simp: sample_queue_def)

text \<open>C28. What has been dropped can be played again: in a queue without prebuffering, a rewind by the length that was dropped, if it
  is not more than the rewind that the queue allows for, restores the read position, the counter of missing
  bytes and the whole time line from there on.\<close>

theorem drop_rewind:
  assumes "bq_ok m bq" "bq_base bq dvd len" "bq_prebuf bq = 0" "len \<le> bq_maxrewind bq"
  shows "\<exists>m' bq' bq''. pa_memblockq_drop m bq len = Inr (m', bq') \<and> bq_read_index bq' = bq_read_index bq + int len \<and>
     pa_memblockq_rewind bq' len = Inr bq'' \<and> bq_ok m' bq'' \<and> bq_read_index bq'' = bq_read_index bq \<and> bq_missing bq'' = bq_missing bq \<and>
     bq_write_index bq'' = bq_write_index bq \<and> (\<forall>t \<ge> bq_read_index bq. timeline m' (items bq'') t = timeline m (items bq) t)"
proof -
  obtain m' bq' ri' where r: "pa_memblockq_drop m bq len = Inr (m', bq')" "bq_ok m' bq'" "ri' = bq_read_index bq + int len"
     "same_rest (bq\<lparr>bq_read_index := ri', bq_in_prebuf := bq_in_prebuf bq', bq_missing := bq_missing bq + (ri' - bq_read_index bq)\<rparr>) bq'"
     "forgets (ri' - int (bq_maxrewind bq)) (timeline m (items bq)) (timeline m' (items bq'))"
    using drop_result [OF assms(1,2)] assms(3) by auto
  let ?bq = "read_index_changed (bq'\<lparr>bq_read_index := bq_read_index bq' - int len\<rparr>) (bq_read_index bq')"
  have "pa_memblockq_rewind bq' len = Inr ?bq"
    using assms(2) r(4) by (simp add: pa_memblockq_rewind_def Let_def same_rest_def metrics_def mod_eq_0_iff_dvd)
  moreover have "bq_ok m' ?bq" using r(2) bq_okD(4,5) [OF r(2)] by (auto simp: read_index_changed_def intro!: bq_ok_cong [of m' bq'])
  moreover have "items ?bq = items bq'" by (simp add: read_index_changed_def items_def)
  moreover have "timeline m' (items bq') t = timeline m (items bq) t" if "bq_read_index bq \<le> t" for t
  proof -
    have "\<not> t < ri' - int (bq_maxrewind bq)" using r(3) assms(4) that by linarith
    then show ?thesis using r(5) by (auto simp: forgets_def)
  qed
  ultimately show ?thesis using r(1,3,4)
    by (intro exI [of _ m'] exI [of _ bq'] exI [of _ ?bq]) (simp add: read_index_changed_def same_rest_def)
qed

theorem drop_rewind_witness:
  "\<exists>m' bq' bq''. pa_memblockq_drop sample_mem ((sample_queue 6)\<lparr>bq_maxrewind := 4\<rparr>) 4 = Inr (m', bq') \<and> bq_read_index bq' = 4 \<and>
     pa_memblockq_rewind bq' 4 = Inr bq'' \<and> bq_read_index bq'' = 0 \<and> timeline m' (items bq'') 0 = Some 1"
proof -
  let ?bq = "(sample_queue 6)\<lparr>bq_maxrewind := 4\<rparr>"
  have its: "items ?bq = items (sample_queue 6)" by (simp add: items_def)
  have "bq_ok sample_mem ?bq" by (rule bq_ok_cong [OF sample_queue_ok(1) [of 6]]) (simp_all add: sample_queue_def)
  then show ?thesis using drop_rewind [of sample_mem ?bq 4] unfolding its sample_queue_ok(2)
    by (fastforce simp: sample_queue_def covers_def li_end_def item_byte_def sample_mem_def)
qed

end
