(* ===== verification/PaFixed.thy ===== *)
theory PaFixed
  imports PaRead
begin

text \<open>
  Reading a block of a fixed size: data and silence are put together in a block of its own when the first piece is not long enough.
\<close>

section \<open>Copying into the block\<close>

definition played :: "pa_mem \<Rightarrow> pa_memblockq \<Rightarrow> u8 \<Rightarrow> int \<Rightarrow> u8" where
  "played m bq s t = (case timeline m (items bq) t of None \<Rightarrow> s | Some b \<Rightarrow> b)"

definition with_block :: "pa_mem \<Rightarrow> nat \<Rightarrow> bytes \<Rightarrow> pa_mem" where
  "with_block m r d = m\<lparr>mem_data := (mem_data m)(r := d)\<rparr>"

lemma with_block_simps [simp]:
  "mem_data (with_block m r d) r = d" "b \<noteq> r \<Longrightarrow> mem_data (with_block m r d) b = mem_data m b" "mem_refs (with_block m r d) = mem_refs m"
  "with_block (with_block m r d) r d' = with_block m r d'" "mem_next (with_block m r d) = mem_next m"
  by (simp_all add: with_block_def)

text \<open>The chunk \<open>c\<close> can be read from \<open>m\<close>, and not from the block \<open>r\<close>.\<close>

definition readable :: "pa_mem \<Rightarrow> nat \<Rightarrow> pa_memchunk \<Rightarrow> bool" where
  "readable m r c \<longleftrightarrow> (\<exists>b. mc_memblock c = Some b \<and> b \<noteq> r \<and> 0 < mem_refs m b \<and> mc_index c + mc_length c \<le> length (mem_data m b))"

lemma copy_step:
  assumes "readable m r c" "mc_length c = l" "0 < mem_refs m r" "off + l \<le> length d"
  shows "pa_memchunk_memcpy (with_block m r d) \<lparr>mc_memblock = Some r, mc_index = off, mc_length = l\<rparr> c =
     Inr (with_block m r (take off d @ chunk_bytes m c @ drop (off + l) d))" and "length (chunk_bytes m c) = l"
proof -
  obtain b where b: "mc_memblock c = Some b" "b \<noteq> r" "0 < mem_refs m b" "mc_index c + mc_length c \<le> length (mem_data m b)"
    using assms(1) by (auto simp: readable_def)
  then show "pa_memchunk_memcpy (with_block m r d) \<lparr>mc_memblock = Some r, mc_index = off, mc_length = l\<rparr> c =
     Inr (with_block m r (take off d @ chunk_bytes m c @ drop (off + l) d))"
    using assms copy_ok [of "with_block m r d" r b "mc_index c" l off] by (simp add: pa_memchunk_memcpy_def chunk_bytes_def) (simp add: with_block_def)
  show "length (chunk_bytes m c) = l" using b assms(2) by (simp add: chunk_bytes_def)
qed

text \<open>The next piece of the loop and the items behind it.\<close>

definition piece :: "pa_memblockq \<Rightarrow> nat list \<Rightarrow> int \<Rightarrow> pa_memchunk \<times> nat list" where
  "piece bq item ri =
     (case item of [] \<Rightarrow> (bq_silence bq, [])
      | q # qs \<Rightarrow>
          if li_index (bq_item_at bq q) > ri
          then ((bq_silence bq)\<lparr>mc_length := min (mc_length (bq_silence bq)) (nat (li_index (bq_item_at bq q) - ri))\<rparr>, q # qs)
          else (from_item ri (bq_item_at bq q), qs))"

lemma peek_fill_step:
  assumes "off < n" "piece bq item ri = (c, item')" "l = min (mc_length c) (n - off)" "readable m r (c\<lparr>mc_length := l\<rparr>)" "0 < mem_refs m r" "length d = n"
  shows "peek_fill (Suc fuel) n r bq item off ri (with_block m r d) =
     peek_fill fuel n r bq item' (off + l) (ri + int l) (with_block m r (take off d @ chunk_bytes m (c\<lparr>mc_length := l\<rparr>) @ drop (off + l) d))"
proof -
  have "(case item of [] \<Rightarrow> (bq_silence bq, [])
     | q # qs \<Rightarrow> let it = bq_item_at bq q
         in if li_index it > ri then ((bq_silence bq)\<lparr>mc_length := min (mc_length (bq_silence bq)) (nat (li_index it - ri))\<rparr>, q # qs)
            else let d = nat (ri - li_index it)
                 in ((li_chunk it)\<lparr>mc_index := mc_index (li_chunk it) + d, mc_length := mc_length (li_chunk it) - d\<rparr>, qs)) = (c, item')"
    using assms(2) by (cases item) (auto simp: piece_def from_item_def Let_def split: if_splits)
  moreover have "off + l \<le> length d" using assms(1,3,6) by simp
  note copy_step(1) [OF assms(4) _ assms(5) this]
  ultimately show ?thesis using assms(1,3) by (subst peek_fill.simps) (simp add: Let_def)
qed

text \<open>A silence block in which every byte is \<open>s\<close>.\<close>

definition silent_block :: "pa_mem \<Rightarrow> nat \<Rightarrow> pa_memblockq \<Rightarrow> u8 \<Rightarrow> bool" where
  "silent_block m r bq s \<longleftrightarrow> readable m r (bq_silence bq) \<and> 0 < mc_length (bq_silence bq) \<and> (\<forall>k < mc_length (bq_silence bq). chunk_bytes m (bq_silence bq) ! k = s)"

text \<open>The loop is at \<open>ri\<close>: the items before those that are left are over, and the first of them is not.\<close>

definition at_piece :: "pa_memblockq \<Rightarrow> nat list \<Rightarrow> int \<Rightarrow> bool" where
  "at_piece bq item ri \<longleftrightarrow> (\<exists>as. bq_blocks bq = as @ item \<and> (\<forall>x \<in> set as. li_end (bq_item_at bq x) \<le> ri)) \<and>
     (case item of [] \<Rightarrow> True | q # _ \<Rightarrow> ri \<le> li_end (bq_item_at bq q))"

lemma silence_piece:
  assumes "silent_block m r bq s" "c = (bq_silence bq)\<lparr>mc_length := k\<rparr>" "k \<le> mc_length (bq_silence bq)"
  shows "readable m r c" "i < k \<Longrightarrow> chunk_bytes m c ! i = s"
proof -
  obtain b where "mc_memblock (bq_silence bq) = Some b" using assms(1) by (auto simp: silent_block_def readable_def)
  moreover have "\<forall>k < mc_length (bq_silence bq). chunk_bytes m (bq_silence bq) ! k = s" using assms(1) by (simp add: silent_block_def)
  ultimately show "i < k \<Longrightarrow> chunk_bytes m c ! i = s" using assms(2,3) by (auto simp: chunk_bytes_def)
  show "readable m r c" using assms by (auto simp: silent_block_def readable_def)
qed

definition fine_piece :: "pa_mem \<Rightarrow> nat \<Rightarrow> pa_memblockq \<Rightarrow> u8 \<Rightarrow> nat list \<Rightarrow> int \<Rightarrow> pa_memchunk \<times> nat list \<Rightarrow> nat \<Rightarrow> bool" where
  "fine_piece m r bq s item ri p l \<longleftrightarrow> (case p of (c, item') \<Rightarrow> readable m r (c\<lparr>mc_length := l\<rparr>) \<and>
     (\<forall>k < l. chunk_bytes m (c\<lparr>mc_length := l\<rparr>) ! k = played m bq s (ri + int k)) \<and>
     (l = mc_length c \<longrightarrow> at_piece bq item' (ri + int l)) \<and> (length item' < length item \<or> (item' = item \<and> 0 < mc_length c)))"

lemma piece_skip: "bq_blocks bq = as @ item \<Longrightarrow> \<forall>x \<in> set as. li_end (bq_item_at bq x) \<le> ri \<Longrightarrow> ri \<le> t \<Longrightarrow>
    timeline m (items bq) t = timeline m (map (bq_item_at bq) item) t"
  unfolding items_def by (simp del: map_append add: map_append [symmetric]) (simp, rule timeline_skip, fastforce simp: covers_def)

lemma piece_end:
  assumes sil: "silent_block m r bq s" and at: "at_piece bq [] ri" and l: "l \<le> mc_length (bq_silence bq)"
  shows "fine_piece m r bq s [] ri (bq_silence bq, []) l"
proof -
  have "played m bq s (ri + int k) = s" for k using at piece_skip [of bq _ "[]" ri "ri + int k" m] by (auto simp: at_piece_def played_def)
  moreover have "at_piece bq [] (ri + int l)" using at by (fastforce simp: at_piece_def)
  ultimately show ?thesis using silence_piece [OF sil refl l] sil by (auto simp: fine_piece_def silent_block_def)
qed

lemma piece_hole:
  assumes ok: "bq_ok m bq" and sil: "silent_block m r bq s" and at: "at_piece bq (q # qs) ri" and hole: "li_index (bq_item_at bq q) > ri"
  defines "c \<equiv> (bq_silence bq)\<lparr>mc_length := min (mc_length (bq_silence bq)) (nat (li_index (bq_item_at bq q) - ri))\<rparr>"
  assumes l: "l \<le> mc_length c"
  shows "fine_piece m r bq s (q # qs) ri (c, q # qs) l"
proof -
  let ?it = "bq_item_at bq q"
  obtain as where as: "bq_blocks bq = as @ q # qs" "\<forall>x \<in> set as. li_end (bq_item_at bq x) \<le> ri" using at by (auto simp: at_piece_def)
  have ap: "items_apart (?it # map (bq_item_at bq) qs)" using bq_okD(6) [OF ok] items_split [OF as(1)] by (simp add: items_apart_append)
  have lt: "li_index ?it < li_end ?it" using li_end_greater [OF ap, of ?it] by simp
  have "played m bq s (ri + int k) = s" if "k < l" for k
  proof -
    have "\<forall>x \<in> set (map (bq_item_at bq) (q # qs)). ri + int k < li_index x" using that l lt ap by (fastforce simp: items_apart_Cons c_def)
    then have "timeline m (map (bq_item_at bq) (q # qs)) (ri + int k) = None" by (rule timeline_left)
    then show ?thesis using piece_skip [OF as, of "ri + int k" m] by (simp only: played_def option.case)
  qed
  moreover have "at_piece bq (q # qs) (ri + int l)" using as l hole lt by (fastforce simp: at_piece_def c_def)
  moreover have "c\<lparr>mc_length := l\<rparr> = (bq_silence bq)\<lparr>mc_length := l\<rparr>" "l \<le> mc_length (bq_silence bq)" "0 < mc_length c"
    using l hole sil by (simp_all add: c_def silent_block_def)
  ultimately show ?thesis using silence_piece [OF sil refl, of l] by (auto simp: fine_piece_def)
qed

lemma piece_data:
  assumes ok: "bq_ok m bq" and at: "at_piece bq (q # qs) ri" and fresh: "\<forall>it \<in> set (items bq). mc_memblock (li_chunk it) \<noteq> Some r"
    and data: "li_index (bq_item_at bq q) \<le> ri"
  defines "c \<equiv> from_item ri (bq_item_at bq q)"
  assumes l: "l \<le> mc_length c"
  shows "fine_piece m r bq s (q # qs) ri (c, qs) l"
proof -
  let ?it = "bq_item_at bq q"
  obtain as where as: "bq_blocks bq = as @ q # qs" "\<forall>x \<in> set as. li_end (bq_item_at bq x) \<le> ri" using at by (auto simp: at_piece_def)
  have ap: "items_apart (?it # map (bq_item_at bq) qs)" using bq_okD(6) [OF ok] items_split [OF as(1)] by (simp add: items_apart_append)
  have le: "ri \<le> li_end ?it" using at by (simp add: at_piece_def)
  have it: "?it \<in> set (items bq)" using items_split [OF as(1)] by simp
  have ci: "chunk_ok m (li_chunk ?it)" using bq_okD(7) [OF ok] it by blast
  obtain b where b: "mc_memblock (li_chunk ?it) = Some b" using chunk_block [OF ci] by blast
  have "0 < mem_refs m b" using bq_okD(8) [OF ok, rule_format, of b] b items_split [OF as(1)] by (simp add: bq_held_def holds_def)
  moreover have len: "int (mc_length c) = li_end ?it - ri" "mc_index c + mc_length c = mc_index (li_chunk ?it) + mc_length (li_chunk ?it)"
    using data le by (auto simp: c_def from_item_def li_end_def)
  ultimately have "readable m r (c\<lparr>mc_length := l\<rparr>)" using ci b fresh it l by (auto simp: readable_def chunk_ok_def c_def from_item_def)
  moreover have "chunk_bytes m (c\<lparr>mc_length := l\<rparr>) ! k = played m bq s (ri + int k)" if k: "k < l" for k
  proof -
    have lt: "ri < li_end ?it" using k l len(1) by simp
    have "item_byte m ?it (ri + int k) = Some (chunk_bytes m c ! k)" using from_item_ok(4) [OF ci data lt, of k] k l unfolding c_def by simp
    moreover have "timeline m (items bq) (ri + int k) = item_byte m ?it (ri + int k)"
      using piece_skip [OF as, of "ri + int k" m] data k l len(1) by (simp add: covers_def)
    moreover have "chunk_bytes m (c\<lparr>mc_length := l\<rparr>) ! k = chunk_bytes m c ! k" using k l b by (simp add: chunk_bytes_def c_def from_item_def)
    ultimately show ?thesis by (simp add: played_def)
  qed
  moreover have "at_piece bq qs (ri + int l)" if "l = mc_length c"
  proof -
    have e: "ri + int l = li_end ?it" using that len(1) by simp
    have "\<forall>x \<in> set (as @ [q]). li_end (bq_item_at bq x) \<le> ri + int l" using as(2) e le by fastforce
    moreover have "case qs of [] \<Rightarrow> True | p # _ \<Rightarrow> ri + int l \<le> li_end (bq_item_at bq p)"
      using ap e li_end_greater [OF ap] by (cases qs) (fastforce simp: items_apart_Cons)+
    ultimately show ?thesis using as(1) unfolding at_piece_def by (metis append.assoc append_Cons append_Nil)
  qed
  ultimately show ?thesis by (auto simp: fine_piece_def)
qed

lemma piece_ok:
  assumes ok: "bq_ok m bq" and sil: "silent_block m r bq s" and at: "at_piece bq item ri" and fresh: "\<forall>it \<in> set (items bq). mc_memblock (li_chunk it) \<noteq> Some r"
    and p: "piece bq item ri = (c, item')" and l: "l \<le> mc_length c"
  shows "readable m r (c\<lparr>mc_length := l\<rparr>)" "\<And>k. k < l \<Longrightarrow> chunk_bytes m (c\<lparr>mc_length := l\<rparr>) ! k = played m bq s (ri + int k)"
    "l = mc_length c \<Longrightarrow> at_piece bq item' (ri + int l)" "length item' < length item \<or> (item' = item \<and> 0 < mc_length c)"
proof -
  have "fine_piece m r bq s item ri (c, item') l"
  proof (cases item)
    case Nil
    then show ?thesis using p l piece_end [OF sil, of ri l] at by (simp add: piece_def)
  next
    case (Cons q qs)
    then show ?thesis using p l at piece_hole [OF ok sil, of q qs ri l] piece_data [OF ok _ fresh, of q qs ri l s]
      by (cases "li_index (bq_item_at bq q) > ri") (auto simp: piece_def)
  qed
  then show "readable m r (c\<lparr>mc_length := l\<rparr>)" "\<And>k. k < l \<Longrightarrow> chunk_bytes m (c\<lparr>mc_length := l\<rparr>) ! k = played m bq s (ri + int k)"
    "l = mc_length c \<Longrightarrow> at_piece bq item' (ri + int l)" "length item' < length item \<or> (item' = item \<and> 0 < mc_length c)"
    by (auto simp: fine_piece_def)
qed

declare peek_fill.simps [simp del]

lemma fill_ok:
  assumes ok: "bq_ok m bq" and sil: "silent_block m r bq s" and fresh: "\<forall>it \<in> set (items bq). mc_memblock (li_chunk it) \<noteq> Some r" and r: "0 < mem_refs m r"
    and "length d = n" "off \<le> n" "off < n \<Longrightarrow> at_piece bq item ri" "off < n \<Longrightarrow> n - off + length item \<le> fuel"
  shows "\<exists>d'. peek_fill fuel n r bq item off ri (with_block m r d) = Inr (with_block m r d') \<and> length d' = n \<and> take off d' = take off d \<and>
     (\<forall>k. off \<le> k \<and> k < n \<longrightarrow> d' ! k = played m bq s (ri + int (k - off)))"
  using assms(5-8)
proof (induction fuel arbitrary: item off ri d)
  case 0
  have "\<not> off < n"
  proof
    assume "off < n"
    then show False using 0(4) by simp
  qed
  then show ?case using 0 by (subst peek_fill.simps) auto
next
  case (Suc fuel)
  show ?case
  proof (cases "off < n")
    case False
    then show ?thesis using Suc.prems by (subst peek_fill.simps) auto
  next
    case True
    note at = Suc.prems(3) [OF True]
    obtain c item' where p: "piece bq item ri = (c, item')" by fastforce
    define l where "l = min (mc_length c) (n - off)"
    have lc: "l \<le> mc_length c" "off + l \<le> n" using True by (simp_all add: l_def)
    note q = piece_ok [OF ok sil at fresh p lc(1)]
    let ?X = "chunk_bytes m (c\<lparr>mc_length := l\<rparr>)"
    let ?d = "take off d @ ?X @ drop (off + l) d"
    note step = peek_fill_step [OF True p l_def q(1) r Suc.prems(1), of fuel]
    have X: "length ?X = l" using copy_step(2) [OF q(1) _ r, of l off d] lc(2) Suc.prems(1) by simp
    have "length ?d = n" using X lc(2) Suc.prems(1,2) by simp
    moreover have "at_piece bq item' (ri + int l)" if "off + l < n" by (rule q(3)) (use that in \<open>simp add: l_def\<close>)
    moreover have "n - (off + l) + length item' \<le> fuel" if "off + l < n"
      using q(4) Suc.prems(4) [OF True] that by (auto simp: l_def)
    ultimately obtain d' where d': "peek_fill fuel n r bq item' (off + l) (ri + int l) (with_block m r ?d) = Inr (with_block m r d')" "length d' = n"
        "take (off + l) d' = take (off + l) ?d" "\<forall>k. off + l \<le> k \<and> k < n \<longrightarrow> d' ! k = played m bq s (ri + int l + int (k - (off + l)))"
      using Suc.IH [of ?d "off + l" item' "ri + int l"] lc(2) by blast
    have pre: "take (off + l) d' = take off d @ ?X" using d'(3) X Suc.prems(1,2) lc(2) by simp
    have "take off d' = take off (take (off + l) d')" by simp
    also have "\<dots> = take off d" unfolding pre using Suc.prems(1,2) by simp
    finally have "take off d' = take off d" .
    moreover have "d' ! k = played m bq s (ri + int (k - off))" if k: "off \<le> k" "k < n" for k
    proof (cases "k < off + l")
      case kl: True
      have "d' ! k = take (off + l) d' ! k" using kl by simp
      also have "\<dots> = ?X ! (k - off)" unfolding pre using k Suc.prems(1,2) by (simp add: nth_append)
      finally show ?thesis using q(2) [of "k - off"] kl k by simp
    next
      case False
      then have "ri + int l + int (k - (off + l)) = ri + int (k - off)" by simp
      then show ?thesis using d'(4) False k by simp
    qed
    ultimately show ?thesis using step d'(1,2) by auto
  qed
qed

section \<open>A block of a fixed size\<close>

lemma timeline_other:
  assumes "\<forall>it \<in> set its. chunk_ok m (li_chunk it)" "\<And>b. b < mem_next m \<Longrightarrow> mem_data m' b = mem_data m b"
  shows "timeline m' its t = timeline m its t"
  using assms(1) by (induction its) (auto simp: item_byte_def chunk_ok_def assms(2) split: option.split)

definition plays :: "pa_mem \<Rightarrow> pa_memblockq \<Rightarrow> u8 \<Rightarrow> nat \<Rightarrow> bytes" where
  "plays m bq s n = map (\<lambda>k. played m bq s (bq_read_index bq + int k)) [0..<n]"

text \<open>With silence, a peek always has a chunk, and its bytes are what is to be played.\<close>

lemma peeked_plays:
  assumes "peeked m bq r" "chunk_ok m (bq_silence bq)" "mc_index (bq_silence bq) = 0" "\<forall>k < mc_length (bq_silence bq). chunk_bytes m (bq_silence bq) ! k = s"
  shows "\<exists>c. r = Some c \<and> chunk_ok m c \<and> chunk_bytes m c = plays m bq s (mc_length c)"
proof -
  obtain sb where sb: "mc_memblock (bq_silence bq) = Some sb" using chunk_block [OF assms(2)] by blast
  then obtain c where c: "r = Some c" using assms(1) by (cases r) (auto simp: peeked_def)
  have "chunk_ok m c \<and> (\<forall>k < mc_length c. chunk_bytes m c ! k = played m bq s (bq_read_index bq + int k))"
  proof (cases "timeline m (items bq) (bq_read_index bq) = None")
    case True
    then have t: "mc_memblock c = Some sb" "mc_index c = 0" "\<forall>k < mc_length c. timeline m (items bq) (bq_read_index bq + int k) = None"
      "mc_length c \<le> mc_length (bq_silence bq)" "0 < mc_length c" using assms(1,2) c sb by (auto simp: peeked_def chunk_ok_def)
    then have "chunk_ok m c" using assms(2,3) sb by (auto simp: chunk_ok_def)
    moreover have "chunk_bytes m c ! k = s" if "k < mc_length c" for k
      using assms(3,4) sb t that by (auto simp: chunk_bytes_def)
    ultimately show ?thesis using t(3) by (simp add: played_def)
  next
    case False
    then show ?thesis using assms(1) c by (simp add: peeked_def played_def)
  qed
  then show ?thesis using c by (auto simp: plays_def list_eq_iff_nth_eq)
qed

lemma memblock_new_ok: "0 < n \<Longrightarrow> pa_memblock_new m n = Inr (mem_next m, with_block (m\<lparr>mem_refs := (mem_refs m)(mem_next m := 1),
    mem_ro := (mem_ro m)(mem_next m := False), mem_next := mem_next m + 1\<rparr>) (mem_next m) (map (mem_junk m) [0..<n]))"
  by (simp add: pa_memblock_new_def with_block_def Let_def)

lemma cur_at_piece:
  assumes ok: "bq_ok m bq" and "cur = scan_right bq (bq_read_index bq) (bq_blocks bq)" and r: "peeked m bq (Some c)"
    and "\<forall>q. cur = Some q \<longrightarrow> li_index (bq_item_at bq q) \<le> bq_read_index bq \<longrightarrow> c = from_item (bq_read_index bq) (bq_item_at bq q)"
  shows "at_piece bq (case cur of None \<Rightarrow> [] | Some q \<Rightarrow> q # after (bq_blocks bq) q) (bq_read_index bq + int (mc_length c))"
proof (cases cur)
  case None
  then have "\<forall>x \<in> set (bq_blocks bq). li_end (bq_item_at bq x) \<le> bq_read_index bq" using assms(2) scan_right_None by metis
  then show ?thesis using None by (fastforce simp: at_piece_def)
next
  case (Some q)
  let ?it = "bq_item_at bq q" and ?ri = "bq_read_index bq"
  obtain as bs where bs: "bq_blocks bq = as @ q # bs" "\<forall>x \<in> set as. li_end (bq_item_at bq x) \<le> ?ri" using scan_right_Some Some assms(2) by metis
  have "after (bq_blocks bq) q = bs" using around(2) [of as q bs] bq_okD(1) [OF ok] bs(1) by simp
  moreover have sc: "scan_right bq ?ri (bq_blocks bq) = Some q" using Some assms(2) by simp
  note cs = current_Some [OF ok sc]
  have "?ri + int (mc_length c) \<le> li_end ?it"
  proof (cases "li_index ?it \<le> ?ri")
    case True
    then show ?thesis using assms(4) Some cs(2) assms(2) by (auto simp: from_item_def li_end_def)
  next
    case False
    show ?thesis
    proof (rule ccontr)
      assume "\<not> ?ri + int (mc_length c) \<le> li_end ?it"
      then have lt: "nat (li_index ?it - ?ri) < mc_length c" using False li_end_greater [OF bq_okD(6) [OF ok] cs(1)] by linarith
      have "timeline m (items bq) ?ri = None" using cs(3) [of ?ri] False Some assms(2) by simp
      then have "\<forall>k < mc_length c. timeline m (items bq) (?ri + int k) = None" using r by (simp add: peeked_def)
      then have "timeline m (items bq) (?ri + int (nat (li_index ?it - ?ri))) = None" using lt by blast
      moreover have "timeline m (items bq) (li_index ?it) = item_byte m ?it (li_index ?it)"
        using cs(4) [of "li_index ?it"] False Some assms(2) li_end_greater [OF bq_okD(6) [OF ok] cs(1)] by simp
      moreover have "item_byte m ?it (li_index ?it) \<noteq> None" using bq_okD(7) [OF ok] cs(1) Some assms(2) chunk_block by (fastforce simp: item_byte_def)
      ultimately show False using False by simp
    qed
  qed
  ultimately show ?thesis using Some bs by (fastforce simp: at_piece_def)
qed

lemma take_plays: "n \<le> k \<Longrightarrow> take n (plays m bq s k) = plays m bq s n"
  by (simp add: plays_def take_map)

text \<open>When the first piece is too short: the new block, the copy of the piece, and the rest.\<close>

lemma fixed_fill:
  assumes ok: "bq_ok m bq" "mem_ok m" and sil: "chunk_ok m (bq_silence bq)" "silence_ok m bq" "\<forall>k < mc_length (bq_silence bq). chunk_bytes m (bq_silence bq) ! k = s"
    and t: "chunk_ok m t" "mc_memblock t = Some tb" "chunk_bytes m t = plays m bq s (mc_length t)" "mc_length t < n"
    and at: "at_piece bq item (bq_read_index bq + int (mc_length t))"
  defines "r \<equiv> mem_next m" and "m1 \<equiv> m\<lparr>mem_refs := (mem_refs m)(tb := mem_refs m tb + 1)\<rparr>"
  shows "\<exists>M m3 d. pa_memblock_new m1 n = Inr (r, with_block M r (map (mem_junk m) [0..<n])) \<and>
     pa_memchunk_memcpy (with_block M r (map (mem_junk m) [0..<n])) \<lparr>mc_memblock = Some r, mc_index = 0, mc_length = mc_length t\<rparr> t = Inr m3 \<and>
     pa_memblock_unref m3 tb = Inr (with_block (M\<lparr>mem_refs := (mem_refs m)(r := 1)\<rparr>) r d) \<and>
     peek_fill (n + length (bq_blocks bq)) n r bq item (mc_length t) (bq_read_index bq + int (mc_length t)) (with_block (M\<lparr>mem_refs := (mem_refs m)(r := 1)\<rparr>) r d) =
       Inr (with_block (M\<lparr>mem_refs := (mem_refs m)(r := 1)\<rparr>) r (plays m bq s n)) \<and> mem_data M = mem_data m"
proof -
  define M where "M = m1\<lparr>mem_refs := (mem_refs m1)(r := 1), mem_ro := (mem_ro m1)(r := False), mem_next := r + 1\<rparr>"
  define M' where "M' = M\<lparr>mem_refs := (mem_refs m)(r := 1)\<rparr>"
  have dM: "mem_data M = mem_data m" "mem_data M' = mem_data m" "mem_next M' = r + 1" by (simp_all add: M_def M'_def m1_def)
  have tb: "tb < r" "mc_index t + mc_length t \<le> length (mem_data m tb)" using t(1,2) by (auto simp: chunk_ok_def r_def)
  obtain sb where sb: "mc_memblock (bq_silence bq) = Some sb" "sb < r" "0 < mem_refs m sb" using sil(1,2) by (auto simp: chunk_ok_def silence_ok_def r_def)
  let ?j = "map (mem_junk m) [0..<n]" and ?l = "mc_length t" and ?ri = "bq_read_index bq"
  have new: "pa_memblock_new m1 n = Inr (r, with_block M r ?j)" using memblock_new_ok [of n m1] t(4) by (simp add: M_def r_def m1_def)
  have rd: "readable M r t" using t(2) tb by (auto simp: readable_def M_def m1_def)
  have rM: "0 < mem_refs M r" by (simp add: M_def)
  let ?d = "plays m bq s ?l @ drop ?l ?j"
  have same: "chunk_bytes M = chunk_bytes m" "chunk_bytes M' = chunk_bytes m" using chunk_bytes_same [of M m] chunk_bytes_same [of M' m] dM by auto
  have cp: "pa_memchunk_memcpy (with_block M r ?j) \<lparr>mc_memblock = Some r, mc_index = 0, mc_length = ?l\<rparr> t = Inr (with_block M r ?d)"
    using copy_step(1) [OF rd refl rM, of 0 ?j] t(3,4) same(1) by simp
  have un: "pa_memblock_unref (with_block M r ?d) tb = Inr (with_block M' r ?d)"
    using tb by (subst unref_ok) (auto simp: M'_def M_def m1_def with_block_def fun_eq_iff)
  have "bq_held bq r \<le> 0" using bq_okD(8) [OF ok(1), rule_format, of r] ok(2) by (simp add: mem_ok_def r_def)
  moreover have cok: "chunk_ok m c \<Longrightarrow> chunk_ok M' c" for c by (auto simp: chunk_ok_def dM r_def)
  ultimately have okM: "bq_ok M' bq" using ok(1) by (auto simp: bq_ok_def M'_def)
  have sM: "silent_block M' r bq s" using sil(1,3) sb unfolding silent_block_def same(2) by (auto simp: readable_def dM chunk_ok_def M'_def)
  have fresh: "\<forall>it \<in> set (items bq). mc_memblock (li_chunk it) \<noteq> Some r" using bq_okD(7) [OF ok(1)] by (auto simp: chunk_ok_def r_def)
  have "length item \<le> length (bq_blocks bq)" using at by (auto simp: at_piece_def)
  then have fuel: "n - ?l + length item \<le> n + length (bq_blocks bq)" by linarith
  have rM': "0 < mem_refs M' r" "length ?d = n" "?l \<le> n" using t(4) by (simp_all add: M'_def plays_def)
  obtain d' where d': "peek_fill (n + length (bq_blocks bq)) n r bq item ?l (?ri + int ?l) (with_block M' r ?d) = Inr (with_block M' r d')" "length d' = n"
      "take ?l d' = take ?l ?d" "\<forall>k. ?l \<le> k \<and> k < n \<longrightarrow> d' ! k = played M' bq s (?ri + int ?l + int (k - ?l))"
    using fill_ok [OF okM sM fresh rM' at fuel] by blast
  have pl: "played M' bq s = played m bq s" using timeline_cong [of M' m] dM by (simp add: played_def fun_eq_iff)
  have "d' = plays m bq s n"
  proof (rule nth_equalityI)
    fix k assume k: "k < length d'"
    show "d' ! k = plays m bq s n ! k"
    proof (cases "k < ?l")
      case True
      then have "d' ! k = take ?l d' ! k" by simp
      also have "\<dots> = plays m bq s ?l ! k" unfolding d'(3) by (simp add: plays_def)
      finally show ?thesis using True k d'(2) by (simp add: plays_def)
    next
      case False
      then have "?ri + int ?l + int (k - ?l) = ?ri + int k" by simp
      then show ?thesis using False k d'(2,4) pl by (simp add: plays_def)
    qed
  qed (simp add: d'(2) plays_def)
  then show ?thesis using new cp un d'(1) dM(1) unfolding M'_def by blast
qed

text \<open>C27. From a queue with a silence block, a running reader always gets a block of exactly the size it asks for, in
  which byte \<open>k\<close> is the byte of the time line at \<open>k\<close> behind the read position, or the silence byte where the time line has
  none: the loop that collects the pieces ends, and nothing else in memory is changed; the only reference taken is that of the result.\<close>

theorem peek_fixed_plays:
  assumes ok: "bq_ok m bq" "mem_ok m" and run: "\<not> pa_memblockq_prebuf_active bq" and n: "0 < n"
    and sil: "chunk_ok m (bq_silence bq)" "mc_index (bq_silence bq) = 0" "silence_ok m bq" "\<forall>k < mc_length (bq_silence bq). chunk_bytes m (bq_silence bq) ! k = s"
  shows "\<exists>c m' bq'. pa_memblockq_peek_fixed_size m bq n = Inr (Some c, m', bq') \<and> chunk_bytes m' c = plays m bq s n \<and> mc_length c = n \<and>
     items bq' = items bq \<and> bq_read_index bq' = bq_read_index bq \<and> bq_write_index bq' = bq_write_index bq \<and>
     (\<forall>b < mem_next m. mem_data m' b = mem_data m b \<and> mem_refs m' b = mem_refs m b + holds c b)"
proof -
  define cur where "cur = scan_right bq (bq_read_index bq) (bq_blocks bq)"
  let ?bq = "bq\<lparr>bq_in_prebuf := False, bq_current_read := cur\<rparr>"
  obtain r where r: "pa_memblockq_peek m bq = Inr (r, m\<lparr>mem_refs := (\<lambda>b. mem_refs m b + res_held r b)\<rparr>, ?bq)" "peeked m bq r"
      "\<forall>q. cur = Some q \<longrightarrow> li_index (bq_item_at bq q) \<le> bq_read_index bq \<longrightarrow> r = Some (from_item (bq_read_index bq) (bq_item_at bq q))"
    using peek_result [OF ok(1) sil(3) run] unfolding cur_def by blast
  obtain t where t: "r = Some t" "chunk_ok m t" "chunk_bytes m t = plays m bq s (mc_length t)" using peeked_plays [OF r(2) sil(1,2,4)] by blast
  obtain tb where tb: "mc_memblock t = Some tb" "tb < mem_next m" using t(2) by (auto simp: chunk_ok_def)
  have "(\<lambda>b. mem_refs m b + res_held r b) = (mem_refs m)(tb := mem_refs m tb + 1)"
    using t(1) tb(1) by (auto simp: res_held_def holds_def)
  then have m1: "m\<lparr>mem_refs := (\<lambda>b. mem_refs m b + res_held r b)\<rparr> = m\<lparr>mem_refs := (mem_refs m)(tb := mem_refs m tb + 1)\<rparr>" by (rule arg_cong)
  have sb: "\<exists>sb. mc_memblock (bq_silence bq) = Some sb" using chunk_block [OF sil(1)] .
  have its: "items ?bq = items bq" by (simp add: items_def)
  have pl: "plays m ?bq s k = plays m bq s k" for k by (simp add: plays_def played_def its)
  show ?thesis
  proof (cases "mc_length t \<ge> n")
    case True
    let ?c = "t\<lparr>mc_length := n\<rparr>" and ?m = "m\<lparr>mem_refs := (mem_refs m)(tb := mem_refs m tb + 1)\<rparr>"
    have "pa_memblockq_peek_fixed_size m bq n = Inr (Some ?c, ?m, ?bq)"
      using n sb r(1) True unfolding m1 by (auto simp: pa_memblockq_peek_fixed_size_def t(1))
    moreover have "chunk_bytes ?m ?c = take n (chunk_bytes m t)" using tb(1) True by (simp add: chunk_bytes_def)
    then have "chunk_bytes ?m ?c = plays m bq s n" unfolding t(3) using take_plays True by simp
    ultimately show ?thesis using tb by (intro exI [of _ ?c] exI [of _ ?m] exI [of _ ?bq]) (auto simp: holds_def its)
  next
    case False
    have ok1: "bq_ok m ?bq"
      by (rule bq_ok_cong [OF ok(1)]) (use bq_okD(5) [OF ok(1)] fix_current_read_keeps(1) [OF ok(1)] in
          \<open>auto simp: fix_current_read_ok [OF ok(1)] cur_def dest: bq_okD(4)\<close>)
    let ?item = "case cur of None \<Rightarrow> [] | Some q \<Rightarrow> q # after (bq_blocks bq) q"
    have "at_piece bq ?item (bq_read_index bq + int (mc_length t))" using cur_at_piece [OF ok(1) cur_def] r(2,3) t(1) by simp
    then have at: "at_piece ?bq ?item (bq_read_index ?bq + int (mc_length t))" by (simp add: at_piece_def split: list.splits)
    obtain M m3 d where f: "pa_memblock_new (m\<lparr>mem_refs := (mem_refs m)(tb := mem_refs m tb + 1)\<rparr>) n = Inr (mem_next m, with_block M (mem_next m) (map (mem_junk m) [0..<n]))"
        "pa_memchunk_memcpy (with_block M (mem_next m) (map (mem_junk m) [0..<n])) \<lparr>mc_memblock = Some (mem_next m), mc_index = 0, mc_length = mc_length t\<rparr> t = Inr m3"
        "pa_memblock_unref m3 tb = Inr (with_block (M\<lparr>mem_refs := (mem_refs m)(mem_next m := 1)\<rparr>) (mem_next m) d)"
        "peek_fill (n + length (bq_blocks bq)) n (mem_next m) ?bq ?item (mc_length t) (bq_read_index bq + int (mc_length t))
           (with_block (M\<lparr>mem_refs := (mem_refs m)(mem_next m := 1)\<rparr>) (mem_next m) d) =
           Inr (with_block (M\<lparr>mem_refs := (mem_refs m)(mem_next m := 1)\<rparr>) (mem_next m) (plays m bq s n))" "mem_data M = mem_data m"
      using fixed_fill [OF ok1 ok(2) _ _ _ t(2) tb(1) _ _ at, of s n] sil t(3) False unfolding pl by (auto simp: silence_ok_def)
    let ?c = "\<lparr>mc_memblock = Some (mem_next m), mc_index = 0, mc_length = n\<rparr>"
    let ?m = "with_block (M\<lparr>mem_refs := (mem_refs m)(mem_next m := 1)\<rparr>) (mem_next m) (plays m bq s n)"
    have "pa_memblockq_peek_fixed_size m bq n = Inr (Some ?c, ?m, ?bq)"
      using n sb r(1) False tb(1) f(1-4) unfolding m1 by (auto simp: pa_memblockq_peek_fixed_size_def t(1) Let_def cong: option.case_cong)
    moreover have "chunk_bytes ?m ?c = plays m bq s n" by (simp add: chunk_bytes_def plays_def)
    ultimately show ?thesis using f(5) by (intro exI [of _ ?c] exI [of _ ?m] exI [of _ ?bq]) (auto simp: holds_def its)
  qed
qed

theorem peek_fixed_plays_witness:
  "\<exists>c m' bq'. pa_memblockq_peek_fixed_size sample_mem ((sample_queue 6)\<lparr>bq_silence := \<lparr>mc_memblock = Some 3, mc_index = 0, mc_length = 1\<rparr>\<rparr>) 8 = Inr (Some c, m', bq') \<and>
     chunk_bytes m' c = [1, 2, 3, 4, 5, 6, 1, 1]"
proof -
  let ?bq = "(sample_queue 6)\<lparr>bq_silence := \<lparr>mc_memblock = Some 3, mc_index = 0, mc_length = 1\<rparr>\<rparr>"
  have its: "items ?bq = items (sample_queue 6)" by (simp add: items_def)
  have "bq_ok sample_mem ?bq" by (rule bq_ok_cong [OF sample_queue_ok(1) [of 6]]) (simp_all add: sample_queue_def)
  moreover have "plays sample_mem ?bq 1 8 = [1, 2, 3, 4, 5, 6, 1, 1]"
    unfolding plays_def played_def its sample_queue_ok(2)
    by (simp add: sample_queue_def upt_rec covers_def li_end_def item_byte_def sample_mem_def)
  ultimately show ?thesis using peek_fixed_plays [of sample_mem ?bq 8 1]
    by (auto simp: sample_mem_def mem_ok_def sample_queue_def [of 6] pa_memblockq_prebuf_active_def chunk_ok_def silence_ok_def chunk_bytes_def [of sample_mem, unfolded sample_mem_def])
qed

end
