(* ===== verification/PaMetrics.thy ===== *)
theory PaMetrics
  imports PaQueue
begin

text \<open>
  The sizes of a queue: the maximum and the target length, the smallest request, the prebuffer and the largest rewind
  are whole frames and fit together, in whatever order they are set.
\<close>

section \<open>Rounding\<close>

lemma round_up_eq:
  assumes "0 < base" "n + base \<le> 2 ^ 64"
  shows "round_up n base = (n + base - 1) div base * base"
proof -
  have "n + base + size_max = (n + base - 1) + 2 ^ 64" using assms by simp
  then have "(n + base + size_max) mod 2 ^ 64 = (n + base - 1) mod 2 ^ 64" by (simp only: mod_add_self2)
  also have "\<dots> = n + base - 1" using assms by simp
  finally show ?thesis by (simp add: round_up_def)
qed

lemma round_up_bounds:
  assumes "0 < base" "n + base \<le> 2 ^ 64"
  shows "base dvd round_up n base" "n \<le> round_up n base" "round_up n base < n + base" "base dvd n \<Longrightarrow> round_up n base = n" "0 < n \<Longrightarrow> base \<le> round_up n base"
proof -
  show d: "base dvd round_up n base" using round_up_eq [OF assms] by simp
  have e: "(n + base - 1) div base * base + (n + base - 1) mod base = n + base - 1" by (rule div_mult_mod_eq)
  have m: "(n + base - 1) mod base < base" using assms(1) by simp
  show ge: "n \<le> round_up n base" unfolding round_up_eq [OF assms] using e m by linarith
  show lt: "round_up n base < n + base" unfolding round_up_eq [OF assms] using e assms(1) by linarith
  show "round_up n base = n" if "base dvd n"
  proof -
    have "base dvd round_up n base - n" using d that by (rule dvd_diff_nat)
    moreover have "round_up n base - n < base" using lt ge by linarith
    ultimately show ?thesis using ge by (metis dvd_imp_le not_le le_antisym diff_is_0_eq bot_nat_0.not_eq_extremum)
  qed
  show "0 < n \<Longrightarrow> base \<le> round_up n base" using d ge by (metis dvd_imp_le gr0I leD)
qed

section \<open>The invariant\<close>

definition metrics_ok :: "pa_memblockq \<Rightarrow> bool" where
  "metrics_ok bq \<longleftrightarrow> 0 < bq_base bq \<and> bq_maxlength bq + 2 * bq_base bq < 2 ^ 64 \<and>
     bq_base bq dvd bq_maxlength bq \<and> bq_base bq dvd bq_tlength bq \<and> bq_base bq dvd bq_minreq bq \<and> bq_base bq dvd bq_prebuf bq \<and>
     bq_minreq bq \<le> bq_tlength bq \<and> bq_tlength bq \<le> bq_maxlength bq \<and> bq_prebuf bq \<le> bq_tlength bq + bq_base bq - bq_minreq bq"

lemma limit_eq:
  assumes "bq_minreq bq \<le> bq_tlength bq" "bq_tlength bq + bq_base bq < 2 ^ 64"
  shows "prebuf_limit bq = bq_tlength bq + bq_base bq - bq_minreq bq"
proof -
  have "bq_tlength bq + bq_base bq + (2 ^ 64 - bq_minreq bq) = (bq_tlength bq + bq_base bq - bq_minreq bq) + 2 ^ 64" using assms by linarith
  then have "prebuf_limit bq = (bq_tlength bq + bq_base bq - bq_minreq bq) mod 2 ^ 64" by (simp only: prebuf_limit_def mod_add_self2)
  then show ?thesis using assms by simp
qed

lemma metrics_okD:
  assumes "metrics_ok bq"
  shows "0 < bq_base bq" "bq_maxlength bq + 2 * bq_base bq < 2 ^ 64" "bq_base bq dvd bq_maxlength bq" "bq_base bq dvd bq_tlength bq" "bq_base bq dvd bq_minreq bq"
    "bq_base bq dvd bq_prebuf bq" "bq_minreq bq \<le> bq_tlength bq" "bq_tlength bq \<le> bq_maxlength bq" "bq_prebuf bq \<le> bq_tlength bq + bq_base bq - bq_minreq bq"
  using assms by (simp_all add: metrics_ok_def)

lemma limit_simps [simp]: "prebuf_limit (bq\<lparr>bq_prebuf := p\<rparr>) = prebuf_limit bq" "prebuf_limit (bq\<lparr>bq_prebuf := p, bq_in_prebuf := f\<rparr>) = prebuf_limit bq"
  by (simp_all add: prebuf_limit_def)

text \<open>What each operation leaves behind: only sizes and the flag change.\<close>

lemma if_prebuf: "(if c then bq\<lparr>bq_prebuf := y\<rparr> else bq) = bq\<lparr>bq_prebuf := (if c then y else bq_prebuf bq)\<rparr>"
  "(if c then bq\<lparr>bq_in_prebuf := z\<rparr> else bq) = bq\<lparr>bq_in_prebuf := (if c then z else bq_in_prebuf bq)\<rparr>"
  by simp_all

lemma set_prebuf_unfold:
  assumes k: "k = (if n = size_max then prebuf_limit bq else n)" and a: "a = round_up k (bq_base bq)" "b = (if 0 < k \<and> a < bq_base bq then bq_base bq else a)"
    and p: "p = (if b > prebuf_limit bq then prebuf_limit bq else b)"
  shows "pa_memblockq_set_prebuf bq n = bq\<lparr>bq_prebuf := p, bq_in_prebuf := (if p \<le> 0 \<or> pa_memblockq_get_length bq \<ge> p then False else bq_in_prebuf bq)\<rparr>"
proof -
  have g: "pa_memblockq_get_length (bq\<lparr>bq_prebuf := x\<rparr>) = pa_memblockq_get_length bq" for x by (simp add: pa_memblockq_get_length_def)
  show ?thesis unfolding pa_memblockq_set_prebuf_def k [symmetric] if_prebuf Let_def
    by (simp add: g a(1) [symmetric] a(2) [symmetric] p [symmetric] cong: if_cong split del: if_split)
qed

lemma set_prebuf_result:
  assumes ok: "metrics_ok (bq\<lparr>bq_prebuf := 0\<rparr>)" and n: "n + bq_base bq \<le> 2 ^ 64 \<or> n = size_max"
  shows "\<exists>p f. pa_memblockq_set_prebuf bq n = bq\<lparr>bq_prebuf := p, bq_in_prebuf := f\<rparr> \<and> bq_base bq dvd p \<and>
     p \<le> bq_tlength bq + bq_base bq - bq_minreq bq \<and> (bq_base bq dvd n \<longrightarrow> n \<le> bq_tlength bq + bq_base bq - bq_minreq bq \<longrightarrow> p = n)"
proof -
  define base L where "base = bq_base bq" and "L = bq_tlength bq + bq_base bq - bq_minreq bq"
  have b: "0 < base" "base dvd L" "L + base \<le> 2 ^ 64"
    using metrics_okD [OF ok] by (auto simp: base_def L_def)
  have l: "prebuf_limit bq = L" using metrics_okD [OF ok] unfolding L_def by (intro limit_eq) auto
  define k where "k = (if n = size_max then L else n)"
  have k: "k + base \<le> 2 ^ 64" using n b by (auto simp: k_def base_def)
  note r = round_up_bounds [OF b(1) k]
  define p where "p = min (round_up k base) L"
  have nle: "n \<le> L \<Longrightarrow> k = n" using n b by (auto simp: k_def base_def)
  have "\<not> (0 < k \<and> round_up k base < base)" using r(5) by auto
  then have b': "round_up k base = (if 0 < k \<and> round_up k base < bq_base bq then bq_base bq else round_up k base)" by (auto simp: base_def)
  have "p = (if round_up k base > prebuf_limit bq then prebuf_limit bq else round_up k base)" by (simp add: p_def l min_def)
  from set_prebuf_unfold [OF _ _ b' this, of n] have "\<exists>f. pa_memblockq_set_prebuf bq n = bq\<lparr>bq_prebuf := p, bq_in_prebuf := f\<rparr>"
    unfolding l base_def [symmetric] k_def [symmetric] by blast
  moreover have "base dvd p" "p \<le> L" using r(1) b(2) by (auto simp: p_def min_def)
  moreover have "base dvd n \<longrightarrow> n \<le> L \<longrightarrow> p = n" using nle r(4) by (auto simp: p_def)
  ultimately show ?thesis unfolding base_def L_def by blast
qed

lemma set_minreq_result:
  assumes ok: "metrics_ok (bq\<lparr>bq_minreq := 0, bq_prebuf := 0\<rparr>)" "bq_base bq dvd bq_prebuf bq" and t: "bq_base bq \<le> bq_tlength bq"
  shows "\<exists>r p f. pa_memblockq_set_minreq bq n = bq\<lparr>bq_minreq := r, bq_prebuf := p, bq_in_prebuf := f\<rparr> \<and>
     metrics_ok (bq\<lparr>bq_minreq := r, bq_prebuf := p, bq_in_prebuf := f\<rparr>) \<and> bq_base bq \<le> r \<and>
     (bq_base bq dvd n \<longrightarrow> bq_base bq \<le> n \<longrightarrow> n \<le> bq_tlength bq \<longrightarrow> r = n)"
proof -
  note d = metrics_okD [OF ok(1), simplified]
  define x where "x = n div bq_base bq * bq_base bq"
  define r where "r = max (min x (bq_tlength bq)) (bq_base bq)"
  let ?bq = "bq\<lparr>bq_minreq := r\<rparr>"
  have r: "bq_base bq \<le> r" "r \<le> bq_tlength bq" "bq_base bq dvd r" "bq_base bq dvd n \<longrightarrow> bq_base bq \<le> n \<longrightarrow> n \<le> bq_tlength bq \<longrightarrow> r = n"
    using t d(4) by (auto simp: r_def x_def max_def min_def)
  have ok1: "metrics_ok (?bq\<lparr>bq_prebuf := 0\<rparr>)" using d r by (simp add: metrics_ok_def)
  have lim: "prebuf_limit ?bq = bq_tlength bq + bq_base bq - r" using limit_eq [of ?bq] d r(2) by simp
  have eq: "pa_memblockq_set_minreq bq n = (if bq_prebuf bq > prebuf_limit ?bq then pa_memblockq_set_prebuf ?bq (prebuf_limit ?bq) else ?bq)"
    using t by (cases "x > bq_tlength bq"; cases "x < bq_base bq") (simp_all add: pa_memblockq_set_minreq_def Let_def x_def [symmetric] r_def)
  show ?thesis
  proof (cases "bq_prebuf bq > prebuf_limit ?bq")
    case True
    have "prebuf_limit ?bq + bq_base ?bq \<le> 2 ^ 64 \<or> prebuf_limit ?bq = size_max" unfolding lim using d r by auto
    then obtain p f where "pa_memblockq_set_prebuf ?bq (prebuf_limit ?bq) = ?bq\<lparr>bq_prebuf := p, bq_in_prebuf := f\<rparr>" "bq_base bq dvd p" "p \<le> bq_tlength bq + bq_base bq - r"
      using set_prebuf_result [OF ok1, of "prebuf_limit ?bq"] by auto
    then show ?thesis using eq True r ok1 by (intro exI [of _ r] exI [of _ p] exI [of _ f]) (simp add: metrics_ok_def)
  next
    case False
    have "?bq = bq\<lparr>bq_minreq := r, bq_prebuf := bq_prebuf bq, bq_in_prebuf := bq_in_prebuf bq\<rparr>" by simp
    moreover have "metrics_ok ?bq" using ok1 ok(2) False lim by (simp add: metrics_ok_def)
    ultimately show ?thesis using eq False r by (intro exI [of _ r] exI [of _ "bq_prebuf bq"] exI [of _ "bq_in_prebuf bq"]) simp
  qed
qed

text \<open>The part of setting the target length that makes the other sizes fit it.\<close>

lemma fit_tlength:
  assumes ok: "metrics_ok (bq\<lparr>bq_minreq := 0, bq_prebuf := 0\<rparr>)" "bq_base bq dvd bq_prebuf bq" "bq_base bq dvd bq_minreq bq" and t: "bq_base bq \<le> bq_tlength bq"
  defines "bq1 \<equiv> (if bq_minreq bq > bq_tlength bq then pa_memblockq_set_minreq bq (bq_tlength bq) else bq)"
  shows "\<exists>r p f. (if bq_prebuf bq1 > prebuf_limit bq1 then pa_memblockq_set_prebuf bq1 (prebuf_limit bq1) else bq1) = bq\<lparr>bq_minreq := r, bq_prebuf := p, bq_in_prebuf := f\<rparr> \<and>
     metrics_ok (bq\<lparr>bq_minreq := r, bq_prebuf := p, bq_in_prebuf := f\<rparr>) \<and> (bq_base bq \<le> bq_minreq bq \<longrightarrow> bq_base bq \<le> r)"
proof (cases "bq_minreq bq > bq_tlength bq")
  case True
  obtain r p f where r: "bq1 = bq\<lparr>bq_minreq := r, bq_prebuf := p, bq_in_prebuf := f\<rparr>" "metrics_ok bq1" "bq_base bq \<le> r"
    using set_minreq_result [OF ok(1,2) t, of "bq_tlength bq"] True unfolding bq1_def by auto
  have "prebuf_limit bq1 = bq_tlength bq1 + bq_base bq1 - bq_minreq bq1" using limit_eq [of bq1] metrics_okD [OF r(2)] by simp
  then have "\<not> bq_prebuf bq1 > prebuf_limit bq1" using metrics_okD(9) [OF r(2)] by simp
  then show ?thesis using r by auto
next
  case False
  then have e: "bq1 = bq" by (simp add: bq1_def)
  note d = metrics_okD [OF ok(1), simplified]
  have ok1: "metrics_ok (bq\<lparr>bq_prebuf := 0\<rparr>)" using d ok(3) False by (simp add: metrics_ok_def)
  have lim: "prebuf_limit bq = bq_tlength bq + bq_base bq - bq_minreq bq" using limit_eq [of bq] d False by simp
  show ?thesis
  proof (cases "bq_prebuf bq > prebuf_limit bq")
    case True
    have "prebuf_limit bq + bq_base bq \<le> 2 ^ 64 \<or> prebuf_limit bq = size_max" unfolding lim using d by auto
    then obtain p f where "pa_memblockq_set_prebuf bq (prebuf_limit bq) = bq\<lparr>bq_prebuf := p, bq_in_prebuf := f\<rparr>" "bq_base bq dvd p" "p \<le> bq_tlength bq + bq_base bq - bq_minreq bq"
      using set_prebuf_result [OF ok1, of "prebuf_limit bq"] by auto
    then show ?thesis using e True ok1 by (intro exI [of _ "bq_minreq bq"] exI [of _ p] exI [of _ f]) (simp add: metrics_ok_def)
  next
    case no: False
    have "metrics_ok bq" using ok1 ok(2) no lim by (simp add: metrics_ok_def)
    then show ?thesis using e no by (intro exI [of _ "bq_minreq bq"] exI [of _ "bq_prebuf bq"] exI [of _ "bq_in_prebuf bq"]) simp
  qed
qed

lemma set_tlength_result:
  assumes ok: "metrics_ok (bq\<lparr>bq_tlength := 0, bq_minreq := 0, bq_prebuf := 0\<rparr>)" "bq_base bq dvd bq_prebuf bq" "bq_base bq dvd bq_minreq bq"
    and n: "n + bq_base bq \<le> 2 ^ 64 \<or> n = size_max" and l: "bq_base bq \<le> bq_maxlength bq"
  shows "\<exists>t r p f ms. pa_memblockq_set_tlength bq n = bq\<lparr>bq_tlength := t, bq_minreq := r, bq_prebuf := p, bq_in_prebuf := f, bq_missing := ms\<rparr> \<and>
     metrics_ok (pa_memblockq_set_tlength bq n) \<and> bq_base bq \<le> t \<and> (bq_base bq \<le> bq_minreq bq \<longrightarrow> bq_base bq \<le> r) \<and>
     ms = bq_missing bq + (int t - int (bq_tlength bq)) \<and> (bq_base bq dvd n \<longrightarrow> 0 < n \<longrightarrow> n \<le> bq_maxlength bq \<longrightarrow> t = n)"
proof -
  note d = metrics_okD [OF ok(1), simplified]
  define k where "k = (if n \<le> 0 \<or> n = size_max then bq_maxlength bq else n)"
  have k: "k + bq_base bq \<le> 2 ^ 64" "0 < k" using n l d by (auto simp: k_def)
  note r = round_up_bounds [OF d(1) k(1)]
  define t where "t = (if round_up k (bq_base bq) > bq_maxlength bq then bq_maxlength bq else round_up k (bq_base bq))"
  have t: "bq_base bq dvd t" "t \<le> bq_maxlength bq" "bq_base bq \<le> t" "bq_base bq dvd n \<longrightarrow> 0 < n \<longrightarrow> n \<le> bq_maxlength bq \<longrightarrow> t = n"
    using r k(2) d(2,3) l by (auto simp: t_def k_def)
  let ?bq = "bq\<lparr>bq_tlength := t\<rparr>"
  have ok1: "metrics_ok (?bq\<lparr>bq_minreq := 0, bq_prebuf := 0\<rparr>)" using d t by (simp add: metrics_ok_def)
  define bq1 where "bq1 = (if bq_minreq ?bq > bq_tlength ?bq then pa_memblockq_set_minreq ?bq (bq_tlength ?bq) else ?bq)"
  obtain r p f where q: "(if bq_prebuf bq1 > prebuf_limit bq1 then pa_memblockq_set_prebuf bq1 (prebuf_limit bq1) else bq1) = ?bq\<lparr>bq_minreq := r, bq_prebuf := p, bq_in_prebuf := f\<rparr>"
     "metrics_ok (?bq\<lparr>bq_minreq := r, bq_prebuf := p, bq_in_prebuf := f\<rparr>)" "bq_base bq \<le> bq_minreq bq \<longrightarrow> bq_base bq \<le> r"
    using fit_tlength [OF ok1] ok(2,3) t(3) unfolding bq1_def by auto
  let ?ms = "bq_missing bq + (int t - int (bq_tlength bq))"
  have step: "(let b = bq\<lparr>bq_tlength := round_up k (bq_base bq)\<rparr> in if bq_tlength b > bq_maxlength b then b\<lparr>bq_tlength := bq_maxlength b\<rparr> else b) = ?bq"
    by (simp add: t_def)
  have "pa_memblockq_set_tlength bq n = (let b = (if bq_prebuf bq1 > prebuf_limit bq1 then pa_memblockq_set_prebuf bq1 (prebuf_limit bq1) else bq1)
     in b\<lparr>bq_missing := bq_missing b + (int (bq_tlength b) - int (bq_tlength bq))\<rparr>)"
    unfolding pa_memblockq_set_tlength_def k_def [symmetric] using step by (simp only: Let_def bq1_def)
  then have e: "pa_memblockq_set_tlength bq n = bq\<lparr>bq_tlength := t, bq_minreq := r, bq_prebuf := p, bq_in_prebuf := f, bq_missing := ?ms\<rparr>"
    unfolding q(1) by (simp add: Let_def)
  moreover have "metrics_ok (bq\<lparr>bq_tlength := t, bq_minreq := r, bq_prebuf := p, bq_in_prebuf := f, bq_missing := ?ms\<rparr>)" using q(2) by (simp add: metrics_ok_def)
  ultimately show ?thesis using t(3,4) q(3)
    by (intro exI [of _ t] exI [of _ r] exI [of _ p] exI [of _ f] exI [of _ ?ms]) simp
qed

lemma set_maxlength_result:
  assumes ok: "metrics_ok bq" and n: "n + 3 * bq_base bq < 2 ^ 64"
  shows "\<exists>l t r p f ms. pa_memblockq_set_maxlength bq n = bq\<lparr>bq_maxlength := l, bq_tlength := t, bq_minreq := r, bq_prebuf := p, bq_in_prebuf := f, bq_missing := ms\<rparr> \<and>
     metrics_ok (pa_memblockq_set_maxlength bq n) \<and> bq_base bq \<le> l \<and> (bq_base bq \<le> bq_minreq bq \<longrightarrow> bq_base bq \<le> r) \<and>
     ms = bq_missing bq + (int t - int (bq_tlength bq)) \<and> (bq_base bq dvd n \<longrightarrow> 0 < n \<longrightarrow> l = n)"
proof -
  note d = metrics_okD [OF ok]
  have n1: "n + bq_base bq \<le> 2 ^ 64" using n by simp
  note r = round_up_bounds [OF d(1) n1]
  define l where "l = max (round_up n (bq_base bq)) (bq_base bq)"
  have l: "bq_base bq dvd l" "bq_base bq \<le> l" "l + 2 * bq_base bq < 2 ^ 64" "bq_base bq dvd n \<longrightarrow> 0 < n \<longrightarrow> l = n"
    using r(1,3-5) n by (auto simp: l_def max_def)
  let ?bq = "bq\<lparr>bq_maxlength := l\<rparr>"
  have eq: "pa_memblockq_set_maxlength bq n = (if bq_tlength bq > l then pa_memblockq_set_tlength ?bq l else ?bq)"
    by (cases "round_up n (bq_base bq) < bq_base bq") (simp_all add: pa_memblockq_set_maxlength_def Let_def l_def)
  show ?thesis
  proof (cases "bq_tlength bq > l")
    case True
    have ok1: "metrics_ok (?bq\<lparr>bq_tlength := 0, bq_minreq := 0, bq_prebuf := 0\<rparr>)" using d l by (simp add: metrics_ok_def)
    have pre: "bq_base ?bq dvd bq_prebuf ?bq" "bq_base ?bq dvd bq_minreq ?bq" "l + bq_base ?bq \<le> 2 ^ 64 \<or> l = size_max" "bq_base ?bq \<le> bq_maxlength ?bq"
      using d(5,6) l(2,3) by simp_all
    obtain t r p f ms
      where "pa_memblockq_set_tlength ?bq l = ?bq\<lparr>bq_tlength := t, bq_minreq := r, bq_prebuf := p, bq_in_prebuf := f, bq_missing := ms\<rparr>"
        "metrics_ok (pa_memblockq_set_tlength ?bq l)" "bq_base ?bq \<le> bq_minreq ?bq \<longrightarrow> bq_base ?bq \<le> r"
        "ms = bq_missing ?bq + (int t - int (bq_tlength ?bq))"
      using set_tlength_result [OF ok1 pre] by blast
    then show ?thesis using eq True l
      by (intro exI [of _ l] exI [of _ t] exI [of _ r] exI [of _ p] exI [of _ f] exI [of _ ms]) simp
  next
    case False
    have "metrics_ok ?bq" using d l False by (simp add: metrics_ok_def)
    then show ?thesis using eq False l
      by (intro exI [of _ l] exI [of _ "bq_tlength bq"] exI [of _ "bq_minreq bq"] exI [of _ "bq_prebuf bq"] exI [of _ "bq_in_prebuf bq"] exI [of _ "bq_missing bq"]) simp
  qed
qed

section \<open>Any order of changes\<close>

definition sizes_ok :: "pa_memblockq \<Rightarrow> bool" where
  "sizes_ok bq \<longleftrightarrow> metrics_ok bq \<and> bq_base bq \<le> bq_minreq bq \<and> bq_base bq dvd bq_maxrewind bq"

definition size_setters :: "(pa_memblockq \<Rightarrow> nat \<Rightarrow> pa_memblockq) set" where
  "size_setters = {pa_memblockq_set_maxlength, pa_memblockq_set_tlength, pa_memblockq_set_minreq, pa_memblockq_set_prebuf, pa_memblockq_set_maxrewind}"

lemma set_step:
  assumes "sizes_ok bq" "n + 3 * bq_base bq < 2 ^ 64"
  shows "sizes_ok (pa_memblockq_set_maxlength bq n) \<and> bq_base (pa_memblockq_set_maxlength bq n) = bq_base bq"
    "sizes_ok (pa_memblockq_set_tlength bq n) \<and> bq_base (pa_memblockq_set_tlength bq n) = bq_base bq"
    "sizes_ok (pa_memblockq_set_minreq bq n) \<and> bq_base (pa_memblockq_set_minreq bq n) = bq_base bq"
    "sizes_ok (pa_memblockq_set_prebuf bq n) \<and> bq_base (pa_memblockq_set_prebuf bq n) = bq_base bq"
    "sizes_ok (pa_memblockq_set_maxrewind bq n) \<and> bq_base (pa_memblockq_set_maxrewind bq n) = bq_base bq"
proof -
  have ok: "metrics_ok bq" and mr: "bq_base bq \<le> bq_minreq bq" "bq_base bq dvd bq_maxrewind bq" using assms(1) by (simp_all add: sizes_ok_def)
  note d = metrics_okD [OF ok]
  show "sizes_ok (pa_memblockq_set_maxlength bq n) \<and> bq_base (pa_memblockq_set_maxlength bq n) = bq_base bq"
    using set_maxlength_result [OF ok assms(2)] mr by (auto simp: sizes_ok_def)
  have "metrics_ok (bq\<lparr>bq_tlength := 0, bq_minreq := 0, bq_prebuf := 0\<rparr>)" using d by (simp add: metrics_ok_def)
  from set_tlength_result [OF this, of n] show "sizes_ok (pa_memblockq_set_tlength bq n) \<and> bq_base (pa_memblockq_set_tlength bq n) = bq_base bq"
    using d mr assms(2) by (auto simp: sizes_ok_def)
  have "metrics_ok (bq\<lparr>bq_minreq := 0, bq_prebuf := 0\<rparr>)" using d by (simp add: metrics_ok_def)
  from set_minreq_result [OF this, of n] show "sizes_ok (pa_memblockq_set_minreq bq n) \<and> bq_base (pa_memblockq_set_minreq bq n) = bq_base bq"
    using d mr by (auto simp: sizes_ok_def)
  have "metrics_ok (bq\<lparr>bq_prebuf := 0\<rparr>)" using d by (simp add: metrics_ok_def)
  from set_prebuf_result [OF this, of n] show "sizes_ok (pa_memblockq_set_prebuf bq n) \<and> bq_base (pa_memblockq_set_prebuf bq n) = bq_base bq"
    using d mr assms(2) by (auto simp: sizes_ok_def metrics_ok_def)
  show "sizes_ok (pa_memblockq_set_maxrewind bq n) \<and> bq_base (pa_memblockq_set_maxrewind bq n) = bq_base bq"
    using ok mr by (simp add: sizes_ok_def pa_memblockq_set_maxrewind_def metrics_ok_def)
qed

lemma setters_run:
  assumes "sizes_ok bq" "list_all (\<lambda>(f, n). f \<in> size_setters \<and> n + 3 * bq_base bq < 2 ^ 64) ops"
  shows "sizes_ok (foldl (\<lambda>bq (f, n). f bq n) bq ops)"
  using assms
proof (induction ops arbitrary: bq)
  case (Cons x ops)
  obtain f n where x: "x = (f, n)" by fastforce
  then have "f \<in> size_setters" "n + 3 * bq_base bq < 2 ^ 64" using Cons.prems(2) by simp_all
  then have "sizes_ok (f bq n)" "bq_base (f bq n) = bq_base bq" using set_step [OF Cons.prems(1)] by (auto simp: size_setters_def)
  then show ?case using Cons x by simp
qed simp

text \<open>The state before the sizes are set, and what of it is left when they are.\<close>

definition empty_queue :: "int \<Rightarrow> nat \<Rightarrow> pa_memblockq" where
  "empty_queue idx base = \<lparr>bq_blocks = [], bq_item_at = (\<lambda>_. \<lparr>li_index = 0, li_chunk = pa_memchunk_reset\<rparr>), bq_next_item = 0,
                bq_current_read = None, bq_current_write = None, bq_n_blocks = 0,
                bq_maxlength = 0, bq_tlength = 0, bq_base = base, bq_prebuf = 0, bq_minreq = 0, bq_maxrewind = 0,
                bq_read_index = idx, bq_write_index = idx, bq_in_prebuf = True, bq_silence = pa_memchunk_reset,
                bq_mcalign = \<lparr>ma_base = 0, ma_leftover = pa_memchunk_reset, ma_current = pa_memchunk_reset\<rparr>,
                bq_missing = 0, bq_requested = 0\<rparr>"

definition fresh_queue :: "int \<Rightarrow> nat \<Rightarrow> pa_memblockq \<Rightarrow> bool" where
  "fresh_queue idx base bq \<longleftrightarrow> (\<exists>l t r p f w. bq = (empty_queue idx base)\<lparr>bq_maxlength := l, bq_tlength := t, bq_minreq := r, bq_prebuf := p,
     bq_in_prebuf := f, bq_maxrewind := w, bq_missing := int t\<rparr>)"

lemma new_queue:
  assumes "0 < base" "list_all (\<lambda>n. n + 3 * base < 2 ^ 64) [maxlength, tlength, prebuf, minreq]"
  shows "\<exists>b. fresh_queue idx base b \<and> sizes_ok b \<and> pa_memblockq_new m idx maxlength tlength base prebuf minreq maxrewind silence =
      bindR (case silence of None \<Rightarrow> Inr (m, b)
           | Some c \<Rightarrow> bindR (notnull (mc_memblock c)) (\<lambda>bl. bindR (pa_memblock_ref m bl) (\<lambda>m. Inr (m, b\<lparr>bq_silence := c\<rparr>)))) (\<lambda>(m, bq).
         bindR (pa_mcalign_new base) (\<lambda>a. Inr (m, bq\<lparr>bq_mcalign := a\<rparr>)))"
proof -
  define b0 where "b0 = empty_queue idx base"
  have ok0: "metrics_ok b0" "bq_base b0 = base" using assms(1,2) by (simp_all add: b0_def metrics_ok_def empty_queue_def)
  define b1 where "b1 = pa_memblockq_set_maxlength b0 maxlength"
  obtain l1 t1 r1 p1 f1 where 1: "b1 = b0\<lparr>bq_maxlength := l1, bq_tlength := t1, bq_minreq := r1, bq_prebuf := p1, bq_in_prebuf := f1, bq_missing := int t1\<rparr>" "metrics_ok b1" "base \<le> l1"
    using set_maxlength_result [OF ok0(1), of maxlength] ok0(2) assms(2) unfolding b1_def by (auto simp: b0_def empty_queue_def)
  define b2 where "b2 = pa_memblockq_set_tlength b1 tlength"
  have z: "metrics_ok (b1\<lparr>bq_tlength := 0, bq_minreq := 0, bq_prebuf := 0\<rparr>)" using metrics_okD [OF 1(2)] by (simp add: metrics_ok_def)
  have "tlength + bq_base b1 \<le> 2 ^ 64 \<or> tlength = size_max" "bq_base b1 \<le> bq_maxlength b1" using 1 assms(2) ok0(2) by simp_all
  from set_tlength_result [OF z metrics_okD(6,5) [OF 1(2)] this] obtain t2 r2 p2 f2
    where 2: "b2 = b1\<lparr>bq_tlength := t2, bq_minreq := r2, bq_prebuf := p2, bq_in_prebuf := f2, bq_missing := int t2\<rparr>" "metrics_ok b2" "base \<le> t2"
    unfolding b2_def 1(1) using ok0(2) by auto
  define b3 where "b3 = pa_memblockq_set_minreq b2 minreq"
  have z: "metrics_ok (b2\<lparr>bq_minreq := 0, bq_prebuf := 0\<rparr>)" using metrics_okD [OF 2(2)] by (simp add: metrics_ok_def)
  have "bq_base b2 \<le> bq_tlength b2" using 1(1) 2 ok0(2) by simp
  from set_minreq_result [OF z metrics_okD(6) [OF 2(2)] this, of minreq] obtain r3 p3 f3
    where 3: "b3 = b2\<lparr>bq_minreq := r3, bq_prebuf := p3, bq_in_prebuf := f3\<rparr>" "metrics_ok b3" "base \<le> r3"
    unfolding b3_def using 1(1) 2(1) ok0(2) by auto
  have z: "metrics_ok (b3\<lparr>bq_prebuf := 0\<rparr>)" using metrics_okD [OF 3(2)] by (simp add: metrics_ok_def)
  have base3: "bq_base b3 = base" using 1(1) 2(1) 3(1) ok0(2) by simp
  have "prebuf + bq_base b3 \<le> 2 ^ 64 \<or> prebuf = size_max" using base3 assms(2) by simp
  from set_prebuf_result [OF z this] obtain p4 f4
    where 4: "pa_memblockq_set_prebuf b3 prebuf = b3\<lparr>bq_prebuf := p4, bq_in_prebuf := f4\<rparr>" "base dvd p4" "p4 \<le> bq_tlength b3 + bq_base b3 - bq_minreq b3"
    unfolding base3 by blast
  define b4 where "b4 = pa_memblockq_set_maxrewind (pa_memblockq_set_prebuf b3 prebuf) maxrewind"
  have "sizes_ok b4" unfolding b4_def 4(1) using 3 4(2,3) base3 by (simp add: sizes_ok_def metrics_ok_def pa_memblockq_set_maxrewind_def)
  moreover have "b4 = b0\<lparr>bq_maxlength := l1, bq_tlength := t2, bq_minreq := r3, bq_prebuf := p4, bq_in_prebuf := f4, bq_maxrewind := maxrewind div base * base, bq_missing := int t2\<rparr>"
    unfolding b4_def 4(1) pa_memblockq_set_maxrewind_def using 1(1) 2(1) 3(1) base3 by simp
  then have "fresh_queue idx base b4" unfolding fresh_queue_def b0_def by blast
  moreover have "pa_memblockq_new m idx maxlength tlength base prebuf minreq maxrewind silence =
      bindR (case silence of None \<Rightarrow> Inr (m, b4)
           | Some c \<Rightarrow> bindR (notnull (mc_memblock c)) (\<lambda>b. bindR (pa_memblock_ref m b) (\<lambda>m. Inr (m, b4\<lparr>bq_silence := c\<rparr>)))) (\<lambda>(m, bq).
         bindR (pa_mcalign_new base) (\<lambda>a. Inr (m, bq\<lparr>bq_mcalign := a\<rparr>)))"
    using assms(1) by (simp only: pa_memblockq_new_def Let_def b4_def b3_def b2_def b1_def b0_def empty_queue_def) simp
  ultimately show ?thesis by blast
qed

lemma new_sizes:
  assumes "0 < base" "list_all (\<lambda>n. n + 3 * base < 2 ^ 64) [maxlength, tlength, prebuf, minreq]"
    and "pa_memblockq_new m idx maxlength tlength base prebuf minreq maxrewind silence = Inr (m', bq)"
  shows "sizes_ok bq" "bq_base bq = base"
proof -
  obtain b where b: "fresh_queue idx base b" "sizes_ok b" "pa_memblockq_new m idx maxlength tlength base prebuf minreq maxrewind silence =
      bindR (case silence of None \<Rightarrow> Inr (m, b)
           | Some c \<Rightarrow> bindR (notnull (mc_memblock c)) (\<lambda>bl. bindR (pa_memblock_ref m bl) (\<lambda>m. Inr (m, b\<lparr>bq_silence := c\<rparr>)))) (\<lambda>(m, bq).
         bindR (pa_mcalign_new base) (\<lambda>a. Inr (m, bq\<lparr>bq_mcalign := a\<rparr>)))"
    using new_queue [OF assms(1,2)] by blast
  have "bq_base b = base" using b(1) by (auto simp: fresh_queue_def empty_queue_def)
  then show "sizes_ok bq" "bq_base bq = base" using assms(3) b(2) unfolding b(3)
    by (auto simp: bindR_Inr_iff sizes_ok_def metrics_ok_def split: option.splits)
qed

text \<open>The maximum length is what was asked for, rounded up to frames, and no other call changes it.\<close>

lemma set_prebuf_keeps [simp]:
  "bq_maxlength (pa_memblockq_set_prebuf bq n) = bq_maxlength bq" "bq_base (pa_memblockq_set_prebuf bq n) = bq_base bq"
  unfolding pa_memblockq_set_prebuf_def Let_def by (simp_all split: if_split)

lemma set_minreq_keeps [simp]:
  "bq_maxlength (pa_memblockq_set_minreq bq n) = bq_maxlength bq" "bq_base (pa_memblockq_set_minreq bq n) = bq_base bq"
  unfolding pa_memblockq_set_minreq_def Let_def by simp_all

lemma set_tlength_keeps [simp]:
  "bq_maxlength (pa_memblockq_set_tlength bq n) = bq_maxlength bq" "bq_base (pa_memblockq_set_tlength bq n) = bq_base bq"
  unfolding pa_memblockq_set_tlength_def Let_def by simp_all

lemma set_maxlength_value:
  "bq_maxlength (pa_memblockq_set_maxlength bq n) = max (round_up n (bq_base bq)) (bq_base bq)" "bq_base (pa_memblockq_set_maxlength bq n) = bq_base bq"
  unfolding pa_memblockq_set_maxlength_def Let_def by simp_all

lemma new_limits:
  assumes "0 < base" "list_all (\<lambda>n. n + 3 * base < 2 ^ 64) [maxlength, tlength, prebuf, minreq]"
    and "pa_memblockq_new m idx maxlength tlength base prebuf minreq maxrewind None = Inr (m', bq)"
  shows "bq_maxlength bq \<le> maxlength + base" "bq_tlength bq \<le> bq_maxlength bq" "bq_maxrewind bq \<le> maxrewind"
proof -
  have "round_up maxlength base < maxlength + base" using round_up_bounds(3) [OF assms(1), of maxlength] assms(2) by simp
  then show "bq_maxlength bq \<le> maxlength + base" "bq_maxrewind bq \<le> maxrewind"
    using assms(3) unfolding pa_memblockq_new_def Let_def
    by (auto simp: bindR_Inr_iff set_maxlength_value pa_memblockq_set_maxrewind_def)
  show "bq_tlength bq \<le> bq_maxlength bq" using new_sizes [OF assms(1,2,3)] by (simp add: sizes_ok_def metrics_ok_def)
qed

text \<open>C30. The sizes of a queue that was made with sizes away from the end of the number range, after any sequence of calls that set one of them:
  all are whole frames; the smallest request is at least a frame and at most the target length, that is at most
  the maximum length, and the prebuffer leaves room for a request within the target length.\<close>

theorem sizes_always_fit:
  assumes "0 < base" "list_all (\<lambda>n. n + 3 * base < 2 ^ 64) [maxlength, tlength, prebuf, minreq]"
    and "pa_memblockq_new m idx maxlength tlength base prebuf minreq maxrewind silence = Inr (m', bq)"
    and "list_all (\<lambda>(f, n). f \<in> size_setters \<and> n + 3 * base < 2 ^ 64) ops"
  defines "bq' \<equiv> foldl (\<lambda>bq (f, n). f bq n) bq ops"
  shows "bq_base bq' \<le> bq_minreq bq' \<and> bq_minreq bq' \<le> bq_tlength bq' \<and> bq_tlength bq' \<le> bq_maxlength bq' \<and>
     bq_prebuf bq' \<le> bq_tlength bq' + bq_base bq' - bq_minreq bq' \<and>
     list_all (\<lambda>n. bq_base bq' dvd n) [bq_maxlength bq', bq_tlength bq', bq_prebuf bq', bq_minreq bq', bq_maxrewind bq']"
  using setters_run [of bq ops] new_sizes [OF assms(1-3)] assms(4) by (simp add: bq'_def sizes_ok_def metrics_ok_def)

theorem sizes_always_fit_witness:
  "\<exists>m' bq. pa_memblockq_new sample_mem 0 1000 500 4 100 10 64 None = Inr (m', bq) \<and>
    (let bq' = pa_memblockq_set_maxlength (pa_memblockq_set_tlength bq 3) 16 in bq_minreq bq' \<le> bq_tlength bq' \<and> bq_tlength bq' \<le> bq_maxlength bq')"
proof -
  obtain m' bq where n: "pa_memblockq_new sample_mem 0 1000 500 4 100 10 64 None = Inr (m', bq)"
    by (simp add: pa_memblockq_new_def Let_def pa_mcalign_new_def)
  show ?thesis using n sizes_always_fit [OF _ _ n, of "[(pa_memblockq_set_tlength, 3), (pa_memblockq_set_maxlength, 16)]"]
    by (simp add: size_setters_def Let_def)
qed

definition attr_fits :: "nat \<Rightarrow> pa_buffer_attr \<Rightarrow> bool" where
  "attr_fits base a \<longleftrightarrow> base dvd unat (at_maxlength a) \<and> base dvd unat (at_tlength a) \<and> base dvd unat (at_prebuf a) \<and> base dvd unat (at_minreq a) \<and>
     base \<le> unat (at_minreq a) \<and> unat (at_minreq a) \<le> unat (at_tlength a) \<and> unat (at_tlength a) \<le> unat (at_maxlength a) \<and>
     unat (at_prebuf a) \<le> unat (at_tlength a) + base - unat (at_minreq a)"

text \<open>Attributes that fit together survive: a client that applies them to a queue with any other sizes reads back exactly what it has set.\<close>

theorem attr_roundtrip:
  assumes ok: "metrics_ok bq" and a: "attr_fits (bq_base bq) a"
  shows "pa_memblockq_get_attr (pa_memblockq_apply_attr bq a) = a"
proof -
  let ?l = "unat (at_maxlength a)" and ?t = "unat (at_tlength a)" and ?p = "unat (at_prebuf a)" and ?r = "unat (at_minreq a)" and ?base = "bq_base bq"
  note d = a [unfolded attr_fits_def] and b = metrics_okD(1) [OF ok]
  have u: "?l < 2 ^ 32" "?p < 2 ^ 32" using unsigned_less [of "at_maxlength a"] unsigned_less [of "at_prebuf a"] by simp_all
  have small: "n + 3 * ?base < 2 ^ 64" if "n < 2 ^ 32" for n using d u(1) that by simp
  define b1 where "b1 = pa_memblockq_set_maxlength bq ?l"
  have 1: "metrics_ok b1" "bq_maxlength b1 = ?l" "bq_base b1 = ?base"
    using set_maxlength_result [OF ok small [OF u(1)]] d b unfolding b1_def by auto
  define b2 where "b2 = pa_memblockq_set_tlength b1 ?t"
  have z: "metrics_ok (b1\<lparr>bq_tlength := 0, bq_minreq := 0, bq_prebuf := 0\<rparr>)" using metrics_okD [OF 1(1)] by (simp add: metrics_ok_def)
  have t: "?t + bq_base b1 \<le> 2 ^ 64 \<or> ?t = size_max" "bq_base b1 \<le> bq_maxlength b1" using small [of ?t] d u(1) 1(2,3) by simp_all
  have 2: "metrics_ok b2" "bq_maxlength b2 = ?l" "bq_tlength b2 = ?t" "bq_base b2 = ?base"
    using set_tlength_result [OF z metrics_okD(6,5) [OF 1(1)] t] d b 1(2,3) unfolding b2_def by auto
  define b3 where "b3 = pa_memblockq_set_minreq b2 ?r"
  have z: "metrics_ok (b2\<lparr>bq_minreq := 0, bq_prebuf := 0\<rparr>)" using metrics_okD [OF 2(1)] by (simp add: metrics_ok_def)
  have t: "bq_base b2 \<le> bq_tlength b2" using d 2(3,4) by simp
  have 3: "metrics_ok b3" "bq_maxlength b3 = ?l" "bq_tlength b3 = ?t" "bq_minreq b3 = ?r" "bq_base b3 = ?base"
    using set_minreq_result [OF z metrics_okD(6) [OF 2(1)] t, of ?r] d 2(2-4) unfolding b3_def by auto
  define b4 where "b4 = pa_memblockq_set_prebuf b3 ?p"
  have z: "metrics_ok (b3\<lparr>bq_prebuf := 0\<rparr>)" using metrics_okD [OF 3(1)] by (simp add: metrics_ok_def)
  have "?p + bq_base b3 \<le> 2 ^ 64 \<or> ?p = size_max" using small [OF u(2)] 3(5) by simp
  from set_prebuf_result [OF z this] obtain p f where "b4 = b3\<lparr>bq_prebuf := p, bq_in_prebuf := f\<rparr>"
      "bq_base b3 dvd ?p \<longrightarrow> ?p \<le> bq_tlength b3 + bq_base b3 - bq_minreq b3 \<longrightarrow> p = ?p" unfolding b4_def by blast
  then have 4: "bq_maxlength b4 = ?l" "bq_tlength b4 = ?t" "bq_minreq b4 = ?r" "bq_prebuf b4 = ?p" using d 3(2-5) by simp_all
  have "pa_memblockq_apply_attr bq a = b4" by (simp add: pa_memblockq_apply_attr_def Let_def b1_def b2_def b3_def b4_def)
  then show ?thesis using 4 by (simp add: pa_memblockq_get_attr_def)
qed

theorem attr_roundtrip_witness:
  "\<exists>m' bq. pa_memblockq_new sample_mem 0 1000 500 4 100 10 64 None = Inr (m', bq) \<and>
    (let a = \<lparr>at_maxlength = 4000, at_tlength = 2000, at_prebuf = 1000, at_minreq = 400\<rparr> in pa_memblockq_get_attr (pa_memblockq_apply_attr bq a) = a)"
proof -
  let ?a = "\<lparr>at_maxlength = 4000, at_tlength = 2000, at_prebuf = 1000, at_minreq = 400\<rparr>"
  obtain m' bq where n: "pa_memblockq_new sample_mem 0 1000 500 4 100 10 64 None = Inr (m', bq)"
    by (simp add: pa_memblockq_new_def Let_def pa_mcalign_new_def)
  have "sizes_ok bq" "bq_base bq = 4" using new_sizes [OF _ _ n] by simp_all
  then show ?thesis using n attr_roundtrip [of bq ?a] by (simp add: sizes_ok_def attr_fits_def Let_def)
qed

end
