(* ===== verification/PaQueueRun.thy ===== *)
theory PaQueueRun
  imports PaFixed PaMetrics
begin

text \<open>
  A client at work on a queue: whatever it does in whatever order, no assertion of the queue fails, no value overflows as long as the
  client's offsets and lengths are bounded, the books on
  requested and missing bytes are right, and at the end every reference to a memory block is given back. Moving data from one
  queue to another, on the other hand, never comes to an end.
\<close>

section \<open>Emptying and moving\<close>

lemma silence_result:
  assumes "bq_ok m bq"
  shows "\<exists>m' bq'. pa_memblockq_silence m bq = Inr (m', bq') \<and> bq_ok m' bq' \<and> bq_blocks bq' = [] \<and> same_rest bq bq' \<and> mem_data m' = mem_data m \<and>
     mem_next m' = mem_next m \<and> (\<forall>b. mem_refs m' b + bq_held bq b = mem_refs m b)"
proof -
  obtain m' bq' where d: "drop_all (bq_blocks bq) m bq = Inr (m', bq')" "bq_ok m' bq'" "bq_blocks bq' = []" "same_rest bq bq'" "mem_data m' = mem_data m"
     "mem_next m' = mem_next m" "\<forall>b. mem_refs m' b + bq_held bq b = mem_refs m b" using drop_all_ok [OF assms refl] by blast
  moreover have "bq_n_blocks bq' = 0" using bq_okD(2) [OF d(2)] d(3) by simp
  ultimately show ?thesis by (simp add: pa_memblockq_silence_def)
qed

text \<open>The counters: what the server still wants from the client, asked for or not yet, is what is missing to the target length.\<close>

definition books_ok :: "pa_memblockq \<Rightarrow> bool" where
  "books_ok bq \<longleftrightarrow> bq_missing bq + bq_requested bq = int (bq_tlength bq) - (bq_write_index bq - bq_read_index bq)"

section \<open>Operations of a client\<close>

datatype bq_op = Push pa_memchunk | Peek | Drop nat | Rewind nat | Seek int pa_seek_mode bool | Pop_missing | Flush_write bool | Flush_read | Prebuf_disable | Prebuf_force | Silence

definition bq_call :: "bq_op \<Rightarrow> pa_mem \<times> pa_memblockq \<Rightarrow> (unit \<times> pa_mem \<times> pa_memblockq) res" where
  "bq_call p = (\<lambda>(m, bq). bindR (case p of
       Push c \<Rightarrow> bindR (pa_memblockq_push m bq c) (\<lambda>(_, s). Inr s)
     | Peek \<Rightarrow> bindR (pa_memblockq_peek m bq) (\<lambda>(r, m, bq). bindR (case r of None \<Rightarrow> Inr m | Some c \<Rightarrow> unref_chunk m c) (\<lambda>m. Inr (m, bq)))
     | Drop n \<Rightarrow> pa_memblockq_drop m bq n
     | Rewind n \<Rightarrow> bindR (pa_memblockq_rewind bq n) (\<lambda>bq. Inr (m, bq))
     | Seek k mode account \<Rightarrow> pa_memblockq_seek m bq k mode account
     | Pop_missing \<Rightarrow> Inr (m, snd (pa_memblockq_pop_missing bq))
     | Flush_write account \<Rightarrow> pa_memblockq_flush_write m bq account
     | Flush_read \<Rightarrow> pa_memblockq_flush_read m bq
     | Prebuf_disable \<Rightarrow> Inr (m, pa_memblockq_prebuf_disable bq)
     | Prebuf_force \<Rightarrow> Inr (m, pa_memblockq_prebuf_force bq)
     | Silence \<Rightarrow> pa_memblockq_silence m bq) (\<lambda>s. Inr ((), s)))"

text \<open>The values of type \<^verbatim>\<open>int64_t\<close> in a queue and between its fields, casts of sizes included, and those that an operation computes with its
  arguments. Every other one lies between two of these. A call that has one outside the type is a fault.\<close>

definition bq_values :: "pa_memblockq \<Rightarrow> int list" where
  "bq_values bq =
     (let r = bq_read_index bq; w = bq_write_index bq
      in [r, w, w - r, r - w, r - int (bq_maxrewind bq), int (bq_maxrewind bq), int (bq_maxlength bq), int (bq_tlength bq), bq_missing bq, bq_requested bq] @
         concat (map (\<lambda>it. [li_index it, li_end it, int (mc_length (li_chunk it)), li_index it - r, r - li_index it, li_end it - r, w - li_index it]) (items bq)))"

definition op_values :: "bq_op \<Rightarrow> pa_memblockq \<Rightarrow> int list" where
  "op_values p bq =
     (let r = bq_read_index bq; w = bq_write_index bq
      in case p of
         Push c \<Rightarrow>
           let l = int (mc_length c); e = w + l
           in [l, e, e - r, bq_requested bq - l] @ map (\<lambda>it. e - li_index it) (items bq)
       | Drop n \<Rightarrow> [int n, r + int n, r + int n - int (bq_maxrewind bq), bq_missing bq + int n]
       | Rewind n \<Rightarrow> [int n, r - int n, bq_missing bq - int n]
       | Seek k mode account \<Rightarrow> [k]
       | Pop_missing \<Rightarrow> [bq_requested bq + bq_missing bq]
       | Flush_write account \<Rightarrow> [bq_requested bq - (r - w), bq_missing bq - (r - w)]
       | Flush_read \<Rightarrow> [bq_missing bq + (w - r)]
       | _ \<Rightarrow> [])"

definition bq_step :: "bq_op \<Rightarrow> pa_mem \<times> pa_memblockq \<Rightarrow> (unit \<times> pa_mem \<times> pa_memblockq) res" where
  "bq_step p s = bindR (fits_i64 (bq_values (snd s) @ op_values p (snd s))) (\<lambda>_. bq_call p s)"

text \<open>The client has memory of its own, with references it keeps, and pushes aligned chunks of it; lengths are whole frames.\<close>

definition bq_op_ok :: "bq_op \<Rightarrow> pa_mem \<times> nat \<Rightarrow> bool" where
  "bq_op_ok p = (\<lambda>(m, base). case p of
       Push c \<Rightarrow> chunk_ok m c \<and> (\<exists>b. mc_memblock c = Some b \<and> 0 < mem_refs m b) \<and> base dvd mc_length c \<and> base dvd mc_index c
     | Drop n \<Rightarrow> base dvd n
     | Rewind n \<Rightarrow> base dvd n
     | _ \<Rightarrow> True)"

text \<open>How far an operation may move a position beyond all those that there are.\<close>

definition bq_reach :: "bq_op \<Rightarrow> int" where
  "bq_reach p = (case p of Push c \<Rightarrow> int (mc_length c) | Drop n \<Rightarrow> int n | Rewind n \<Rightarrow> int n | Seek k mode account \<Rightarrow> \<bar>k\<bar> | _ \<Rightarrow> 0)"

lemma bq_reach_nonneg: "0 \<le> bq_reach p"
  by (simp add: bq_reach_def split: bq_op.split)

section \<open>The specification of a session\<close>

text \<open>The state of the specification: the client's memory, the frame size, a bound \<open>B\<close> on all positions and a bound \<open>M\<close> on how far the
  counter of missing bytes is from a size. An operation adds its reach to the first, and it may move the counter by
  the distance of two positions.\<close>

type_synonym bq_spec = "pa_mem \<times> nat \<times> int \<times> int"

definition bq_next :: "bq_op \<Rightarrow> bq_spec \<Rightarrow> unit \<times> bq_spec" where
  "bq_next p = (\<lambda>(m0, base, B, M). ((), (m0, base, B + bq_reach p, M + 2 * (B + bq_reach p))))"

definition bq_allowed :: "bq_op \<Rightarrow> bq_spec \<Rightarrow> bool" where
  "bq_allowed p = (\<lambda>(m0, base, B, M). bq_op_ok p (m0, base) \<and> M + 4 * (B + bq_reach p) < 2 ^ 62)"

definition bq_within :: "int \<Rightarrow> int \<Rightarrow> pa_mem \<Rightarrow> pa_memblockq \<Rightarrow> bool" where
  "bq_within B M m bq \<longleftrightarrow> \<bar>bq_read_index bq\<bar> \<le> B \<and> \<bar>bq_write_index bq\<bar> \<le> B \<and> (\<forall>t. timeline m (items bq) t \<noteq> None \<longrightarrow> - B \<le> t \<and> t < B) \<and>
     \<bar>bq_missing bq\<bar> \<le> 2 ^ 61 + M \<and> 0 \<le> M \<and> int (bq_maxlength bq) \<le> 2 ^ 61 \<and> int (bq_tlength bq) \<le> 2 ^ 61 \<and> int (bq_maxrewind bq) \<le> 2 ^ 61"

definition bq_rel :: "pa_mem \<times> pa_memblockq \<Rightarrow> bq_spec \<Rightarrow> bool" where
  "bq_rel = (\<lambda>(m, bq) (m0, base, B, M). bq_ok m bq \<and> mem_data m = mem_data m0 \<and> mem_next m = mem_next m0 \<and> (\<forall>b. mem_refs m b = mem_refs m0 b + bq_held bq b) \<and>
     bq_base bq = base \<and> bq_silence bq = pa_memchunk_reset \<and> bq_mcalign bq = \<lparr>ma_base = base, ma_leftover = pa_memchunk_reset, ma_current = pa_memchunk_reset\<rparr> \<and>
     books_ok bq \<and> bq_within B M m bq)"

text \<open>The time line of a queue is where its items are.\<close>

lemma item_covered:
  assumes ok: "bq_ok m bq" and it: "it \<in> set (items bq)" and t: "covers it t"
  shows "timeline m (items bq) t \<noteq> None"
proof -
  have "timeline m its t \<noteq> None" if "it \<in> set its" "\<forall>x \<in> set its. \<exists>b. mc_memblock (li_chunk x) = Some b" for its
    using that t by (induction its) (auto simp: item_byte_def)
  then show ?thesis using it bq_okD(7) [OF ok] chunk_block by blast
qed

lemma timeline_covered: "timeline m its t \<noteq> None \<Longrightarrow> \<exists>it \<in> set its. covers it t"
  by (induction its) (auto split: if_splits)

lemma items_within:
  assumes "bq_ok m bq" "bq_within B M m bq" "it \<in> set (items bq)"
  shows "- B \<le> li_index it" "li_end it \<le> B" "li_index it < li_end it"
proof -
  show lt: "li_index it < li_end it" using li_end_greater [OF bq_okD(6) [OF assms(1)] assms(3)] .
  then have "covers it (li_index it)" "covers it (li_end it - 1)" by (simp_all add: covers_def)
  from this [THEN item_covered [OF assms(1,3)]] show "- B \<le> li_index it" "li_end it \<le> B"
    using assms(2) unfolding bq_within_def by force+
qed

lemma shifted_covered: "shifted w e its t \<noteq> t \<Longrightarrow> w < e \<Longrightarrow> \<exists>it \<in> set its. covers it t"
  by (induction its) (auto simp: overhangs_def covers_def split: if_splits)

text \<open>A change of the counters and positions that keeps the books keeps the relation.\<close>

lemma rel_cong:
  assumes "bq_rel (m, bq) (m0, base, B, M)" and "bq_blocks bq' = bq_blocks bq" "bq_item_at bq' = bq_item_at bq" "bq_next_item bq' = bq_next_item bq" "bq_n_blocks bq' = bq_n_blocks bq"
    "metrics bq' = metrics bq" "bq_current_read bq' = bq_current_read bq" "bq_current_write bq' = bq_current_write bq" "bq_silence bq' = bq_silence bq" "bq_mcalign bq' = bq_mcalign bq"
    and "books_ok bq'" and "B \<le> B'" "M \<le> M'" "\<bar>bq_read_index bq'\<bar> \<le> B'" "\<bar>bq_write_index bq'\<bar> \<le> B'" "\<bar>bq_missing bq'\<bar> \<le> 2 ^ 61 + M'"
  shows "bq_rel (m, bq') (m0, base, B', M')"
proof -
  have ok: "bq_ok m bq" using assms(1) by (simp add: bq_rel_def)
  have "bq_ok m bq'" by (rule bq_ok_cong [OF ok]) (use assms(2-8) bq_okD(4,5) [OF ok] in \<open>simp_all add: metrics_def\<close>)
  moreover have "bq_within B' M' m bq'"
    using assms(1,6,12-16) items_cong [OF assms(2,3)] unfolding bq_rel_def bq_within_def metrics_def by force
  ultimately show ?thesis using assms items_cong [OF assms(2,3)] by (simp add: bq_rel_def bq_held_def metrics_def)
qed

text \<open>A step that balances its references and leaves no data where there was none, but for the reach of the operation.\<close>

lemma rel_step:
  assumes "bq_rel (m, bq) (m0, base, B, M)" "bq_ok m' bq'" "mem_data m' = mem_data m" "mem_next m' = mem_next m" "\<forall>b. mem_refs m' b + bq_held bq b = mem_refs m b + bq_held bq' b"
    and "metrics bq' = metrics bq" "bq_silence bq' = bq_silence bq" "bq_mcalign bq' = bq_mcalign bq" "books_ok bq'"
    and "B \<le> B'" "M \<le> M'" "\<bar>bq_read_index bq'\<bar> \<le> B'" "\<bar>bq_write_index bq'\<bar> \<le> B'" "\<bar>bq_missing bq'\<bar> \<le> 2 ^ 61 + M'"
    and tl: "\<And>t. timeline m' (items bq') t \<noteq> None \<Longrightarrow> timeline m (items bq) t \<noteq> None \<or> - B' \<le> t \<and> t < B'"
  shows "bq_rel (m', bq') (m0, base, B', M')"
proof -
  have "mem_refs m' b = mem_refs m0 b + bq_held bq' b" for b
    using assms(1) assms(5) [rule_format, of b] by (simp add: bq_rel_def)
  moreover have "- B' \<le> t \<and> t < B'" if "timeline m' (items bq') t \<noteq> None" for t
    using tl [OF that] assms(1,10) by (fastforce simp: bq_rel_def bq_within_def)
  then have "bq_within B' M' m' bq'"
    using assms(1,6,11-14) unfolding bq_rel_def bq_within_def metrics_def by force
  ultimately show ?thesis using assms(1-9) by (simp add: bq_rel_def metrics_def)
qed

lemma rel_simps:
  assumes "bq_rel (m, bq) (m0, base, B, M)"
  shows "bq_ok m bq" "mem_data m = mem_data m0" "mem_next m = mem_next m0" "\<And>b. mem_refs m b = mem_refs m0 b + bq_held bq b" "bq_base bq = base" "books_ok bq" "silence_ok m bq"
    "bq_within B M m bq" "\<bar>bq_read_index bq\<bar> \<le> B" "\<bar>bq_write_index bq\<bar> \<le> B" "\<bar>bq_missing bq\<bar> \<le> 2 ^ 61 + M" "0 \<le> B" "0 \<le> M"
  using assms by (auto simp: bq_rel_def bq_within_def silence_ok_def)

section \<open>Every operation keeps the relation\<close>

text \<open>The counter of requested bytes is within bounds because the books are right; so is every value an operation computes.\<close>

lemma requested_bound:
  assumes "bq_rel (m, bq) (m0, base, B, M)"
  shows "\<bar>bq_requested bq\<bar> \<le> 2 ^ 62 + M + 2 * B" "\<bar>bq_requested bq + bq_missing bq\<bar> \<le> 2 ^ 61 + 2 * B"
  using assms unfolding bq_rel_def bq_within_def books_ok_def by auto

lemma i64I: "- (2 ^ 63) \<le> x \<Longrightarrow> x < 2 ^ 63 \<Longrightarrow> i64 x"
  by (simp add: i64_def)

lemma i64_list: "list_all i64 [] = True" "list_all i64 (x # xs) = (i64 x \<and> list_all i64 xs)"
  by simp_all

lemma values_fit:
  assumes rel: "bq_rel (m, bq) (m0, base, B, M)" and small: "M + 4 * (B + bq_reach p) < 2 ^ 62"
  shows "fits_i64 (bq_values bq @ op_values p bq) = Inr ()"
proof -
  note ok = rel_simps(1,8) [OF rel]
  have r: "- B \<le> bq_read_index bq" "bq_read_index bq \<le> B" "- B \<le> bq_write_index bq" "bq_write_index bq \<le> B" "0 \<le> B" "0 \<le> M"
      "- (2 ^ 61 + M) \<le> bq_missing bq" "bq_missing bq \<le> 2 ^ 61 + M"
    using rel_simps(9-13) [OF rel] by (simp_all add: abs_le_iff)
  have q: "- (2 ^ 62 + M + 2 * B) \<le> bq_requested bq" "bq_requested bq \<le> 2 ^ 62 + M + 2 * B"
      "- (2 ^ 61 + 2 * B) \<le> bq_requested bq + bq_missing bq" "bq_requested bq + bq_missing bq \<le> 2 ^ 61 + 2 * B"
    using requested_bound [OF rel] by (simp_all only: abs_le_iff) linarith+
  have lim: "int (bq_maxlength bq) \<le> 2 ^ 61" "int (bq_tlength bq) \<le> 2 ^ 61" "int (bq_maxrewind bq) \<le> 2 ^ 61" using ok(2) by (simp_all add: bq_within_def)
  have "4 * B \<le> 4 * (B + bq_reach p)" by (simp add: bq_reach_nonneg)
  then have reach: "M + 4 * B < 2 ^ 62" using small by linarith
  have its: "- B \<le> li_index it" "li_end it \<le> B" "li_index it < li_end it" if "it \<in> set (items bq)" for it
    using items_within [OF ok that] by blast+
  have 1: "list_all i64 [bq_read_index bq, bq_write_index bq, bq_write_index bq - bq_read_index bq, bq_read_index bq - bq_write_index bq,
      bq_read_index bq - int (bq_maxrewind bq), int (bq_maxrewind bq), int (bq_maxlength bq), int (bq_tlength bq), bq_missing bq, bq_requested bq]"
    unfolding i64_list by (intro conjI TrueI i64I; use r q lim reach in simp)
  have 2: "list_all i64 [li_index it, li_end it, int (mc_length (li_chunk it)), li_index it - bq_read_index bq, bq_read_index bq - li_index it,
      li_end it - bq_read_index bq, bq_write_index bq - li_index it]" if "it \<in> set (items bq)" for it
  proof -
    have "int (mc_length (li_chunk it)) = li_end it - li_index it" by (simp add: li_end_def)
    then show ?thesis unfolding i64_list by (intro conjI TrueI i64I; use its [OF that] r reach in simp)
  qed
  have "list_all i64 (op_values p bq)"
  proof (cases p)
    case (Push c)
    have l: "M + 4 * (B + int (mc_length c)) < 2 ^ 62" using small Push by (simp add: bq_reach_def)
    have "i64 (bq_write_index bq + int (mc_length c) - li_index it)" if "it \<in> set (items bq)" for it
      by (rule i64I; use its [OF that] r l in simp)
    moreover have "list_all i64 [int (mc_length c), bq_write_index bq + int (mc_length c), bq_write_index bq + int (mc_length c) - bq_read_index bq, bq_requested bq - int (mc_length c)]"
      unfolding i64_list by (intro conjI TrueI i64I; use r q l in simp)
    ultimately show ?thesis using Push by (simp add: op_values_def Let_def list_all_iff)
  next
    case (Drop n)
    have l: "M + 4 * (B + int n) < 2 ^ 62" using small Drop by (simp add: bq_reach_def)
    show ?thesis unfolding op_values_def Let_def Drop bq_op.case i64_list
      by (intro conjI TrueI i64I; use r lim l in simp)
  next
    case (Rewind n)
    have l: "M + 4 * (B + int n) < 2 ^ 62" using small Rewind by (simp add: bq_reach_def)
    show ?thesis unfolding op_values_def Let_def Rewind bq_op.case i64_list
      by (intro conjI TrueI i64I; use r l in simp)
  next
    case (Seek k mode account)
    have l: "M + 4 * (B + \<bar>k\<bar>) < 2 ^ 62" using small Seek by (simp add: bq_reach_def)
    then have "M + 4 * (B + k) < 2 ^ 62" "M + 4 * (B - k) < 2 ^ 62" by simp_all
    then show ?thesis unfolding op_values_def Let_def Seek bq_op.case i64_list
      by (intro conjI TrueI i64I; use r l in simp)
  qed (use r q reach in \<open>auto simp: op_values_def Let_def intro!: i64I\<close>)
  moreover have "list_all i64 (bq_values bq)" using 1 2 unfolding bq_values_def Let_def by (auto simp: list_all_iff)
  ultimately show ?thesis by (simp add: fits_i64_def)
qed

text \<open>The bounds after an operation.\<close>

lemma rel_bounds:
  assumes "bq_rel (m, bq) (m0, base, B, M)" and "B + bq_reach p \<le> B'" "M + 2 * B' \<le> M'"
  shows "B \<le> B'" "M \<le> M'" "\<bar>bq_read_index bq\<bar> \<le> B'" "\<bar>bq_write_index bq\<bar> \<le> B'" "\<bar>bq_missing bq\<bar> \<le> 2 ^ 61 + M'" "0 \<le> B'" "0 \<le> M"
  using rel_simps(9-13) [OF assms(1)] assms(2,3) bq_reach_nonneg [of p] by simp_all

lemma forgets_less: "forgets i f g \<Longrightarrow> g t \<noteq> None \<Longrightarrow> f t \<noteq> None"
  unfolding forgets_def by metis

lemma step_push:
  assumes rel: "bq_rel (m, bq) (m0, base, B, M)" and p: "bq_op_ok (Push c) (m0, base)"
    and grow: "B + bq_reach (Push c) \<le> B'" "M + 2 * B' \<le> M'"
  shows "\<exists>s. bq_call (Push c) (m, bq) = Inr ((), s) \<and> bq_rel s (m0, base, B', M')"
proof -
  note r = rel_simps [OF rel] and g = rel_bounds [OF rel grow]
  obtain b where b: "mc_memblock c = Some b" "0 < mem_refs m0 b" using p by (auto simp: bq_op_ok_def)
  have c: "chunk_ok m c" "bq_base bq dvd mc_length c" "bq_base bq dvd mc_index c" "bq_held bq b < mem_refs m b"
    using p r(2-5) b(2) by (auto simp: bq_op_ok_def chunk_ok_def)
  show ?thesis
  proof (cases "can_push bq (mc_length c)")
    case True
    let ?w = "bq_write_index bq" and ?e = "bq_write_index bq + int (mc_length c)"
    obtain m' bq' where q: "pa_memblockq_push m bq c = Inr (0, m', bq')" "bq_ok m' bq'" "mem_data m' = mem_data m" "mem_next m' = mem_next m"
        "same_rest (bq\<lparr>bq_write_index := ?e, bq_requested := bq_requested bq - int (mc_length c)\<rparr>) bq'"
        "\<forall>b. mem_refs m' b + bq_held bq b = mem_refs m b + bq_held bq' b"
        "\<forall>t. timeline m' (items bq') t = overlay m ?w c (\<lambda>t. timeline m (items bq) (shifted ?w ?e (items bq) t)) t"
      using push_result [OF r(1) c(1) b(1) c(4,2,3) True] by blast
    have e: "\<bar>?e\<bar> \<le> B'" "- B' \<le> ?w" "?e \<le> B'" using r(10) grow(1) by (simp_all add: bq_reach_def)
    have tl: "timeline m (items bq) t \<noteq> None \<or> - B' \<le> t \<and> t < B'" if "timeline m' (items bq') t \<noteq> None" for t
    proof (cases "?w \<le> t \<and> t < ?e")
      case True
      then show ?thesis using e by linarith
    next
      case False
      then have *: "timeline m (items bq) (shifted ?w ?e (items bq) t) \<noteq> None" using that q(7) by (simp add: overlay_def split: if_splits)
      show ?thesis
      proof (cases "shifted ?w ?e (items bq) t = t")
        case True
        then show ?thesis using * by simp
      next
        case False
        have "?w < ?e" using c(1) by (simp add: chunk_ok_def)
        then show ?thesis using shifted_covered [OF False] item_covered [OF r(1)] by blast
      qed
    qed
    have f: "metrics bq' = metrics bq" "bq_silence bq' = bq_silence bq" "bq_mcalign bq' = bq_mcalign bq" "books_ok bq'" "bq_read_index bq' = bq_read_index bq"
        "bq_write_index bq' = ?e" "bq_missing bq' = bq_missing bq"
      using q(5) r(6) by (simp_all add: same_rest_def metrics_def books_ok_def)
    have "bq_rel (m', bq') (m0, base, B', M')"
      by (rule rel_step [OF rel q(2-4,6) f(1-4) g(1,2)]) (use f(5-7) e(1) g(3,5) tl in simp_all)
    then show ?thesis using q(1) by (simp add: bq_call_def)
  next
    case False
    have "0 < mem_refs m b" "mc_index c + mc_length c \<le> length (mem_data m b)" "0 < mc_length c" using c b by (auto simp: chunk_ok_def)
    then have "pa_memblockq_push m bq c = Inr (-1, m, bq)"
      using False b(1) c(2,3) by (simp add: pa_memblockq_push_def pa_memblock_get_length_def mod_eq_0_iff_dvd)
    moreover have "bq_rel (m, bq) (m0, base, B', M')" by (rule rel_cong [OF rel]) (use r(6) g in simp_all)
    ultimately show ?thesis by (simp add: bq_call_def)
  qed
qed

lemma step_peek:
  assumes rel: "bq_rel (m, bq) (m0, base, B, M)"
    and grow: "B + bq_reach Peek \<le> B'" "M + 2 * B' \<le> M'"
  shows "\<exists>s. bq_call Peek (m, bq) = Inr ((), s) \<and> bq_rel s (m0, base, B', M')"
proof -
  note r = rel_simps [OF rel] and g = rel_bounds [OF rel grow]
  show ?thesis
  proof (cases "pa_memblockq_prebuf_active bq")
    case True
    have "pa_memblockq_peek m bq = Inr (None, m, bq\<lparr>bq_in_prebuf := True\<rparr>)" using True by (simp add: pa_memblockq_peek_def update_prebuf_eq)
    moreover have "bq_rel (m, bq\<lparr>bq_in_prebuf := True\<rparr>) (m0, base, B', M')"
      by (rule rel_cong [OF rel]) (use r(6) g in \<open>simp_all add: books_ok_def metrics_def\<close>)
    ultimately show ?thesis by (simp add: bq_call_def)
  next
    case False
    define cur where "cur = scan_right bq (bq_read_index bq) (bq_blocks bq)"
    let ?bq = "bq\<lparr>bq_in_prebuf := False, bq_current_read := cur\<rparr>"
    obtain q where q: "pa_memblockq_peek m bq = Inr (q, m\<lparr>mem_refs := (\<lambda>b. mem_refs m b + res_held q b)\<rparr>, ?bq)"
      using peek_result [OF r(1,7) False] unfolding cur_def by blast
    have "set_option cur \<subseteq> set (bq_blocks bq)"
      using fix_current_read_keeps(1) [OF r(1)] unfolding fix_current_read_ok [OF r(1)] by (auto simp: cur_def dest: bq_okD(4))
    then have "bq_ok m ?bq" using bq_okD(5) [OF r(1)] by (intro bq_ok_cong [OF r(1)]) simp_all
    moreover have "items ?bq = items bq" by (simp add: items_def)
    ultimately have "bq_rel (m, ?bq) (m0, base, B', M')"
      using r(6) g by (intro rel_step [OF rel]) (simp_all add: books_ok_def bq_held_def metrics_def)
    moreover have "(case q of None \<Rightarrow> Inr (m\<lparr>mem_refs := (\<lambda>b. mem_refs m b + res_held q b)\<rparr>)
        | Some c \<Rightarrow> unref_chunk (m\<lparr>mem_refs := (\<lambda>b. mem_refs m b + res_held q b)\<rparr>) c) = Inr m"
      by (auto simp: unref_chunk_def res_held_def holds_def unref_ok fun_upd_def split: option.split intro!: pa_mem.equality)
    ultimately show ?thesis using q by (simp add: bq_call_def)
  qed
qed

lemma step_drop:
  assumes rel: "bq_rel (m, bq) (m0, base, B, M)" and "bq_op_ok (Drop n) (m0, base)"
    and grow: "B + bq_reach (Drop n) \<le> B'" "M + 2 * B' \<le> M'"
  shows "\<exists>s. bq_call (Drop n) (m, bq) = Inr ((), s) \<and> bq_rel s (m0, base, B', M')"
proof -
  note r = rel_simps [OF rel] and g = rel_bounds [OF rel grow]
  have "bq_base bq dvd n" using assms(2) r(5) by (simp add: bq_op_ok_def)
  from drop_result [OF r(1) this] obtain m' bq' ri' where q: "pa_memblockq_drop m bq n = Inr (m', bq')" "bq_ok m' bq'" "mem_data m' = mem_data m" "mem_next m' = mem_next m"
     "\<forall>b. mem_refs m' b + bq_held bq b = mem_refs m b + bq_held bq' b" "bq_read_index bq \<le> ri'" "ri' \<le> bq_read_index bq + int n"
     "same_rest (bq\<lparr>bq_read_index := ri', bq_in_prebuf := bq_in_prebuf bq', bq_missing := bq_missing bq + (ri' - bq_read_index bq)\<rparr>) bq'"
     "forgets (ri' - int (bq_maxrewind bq)) (timeline m (items bq)) (timeline m' (items bq'))" by blast
  have f: "metrics bq' = metrics bq" "bq_silence bq' = bq_silence bq" "bq_mcalign bq' = bq_mcalign bq" "books_ok bq'" "bq_read_index bq' = ri'"
      "bq_write_index bq' = bq_write_index bq" "bq_missing bq' = bq_missing bq + (ri' - bq_read_index bq)"
    using q(8) r(6) by (simp_all add: same_rest_def metrics_def books_ok_def)
  have b: "\<bar>ri'\<bar> \<le> B'" "\<bar>bq_missing bq + (ri' - bq_read_index bq)\<bar> \<le> 2 ^ 61 + M'"
    using q(6,7) r(9,11,12) grow by (simp_all add: bq_reach_def)
  have "bq_rel (m', bq') (m0, base, B', M')"
    by (rule rel_step [OF rel q(2-5) f(1-4) g(1,2)]) (use f(5-7) b g(4) forgets_less [OF q(9)] in simp_all)
  then show ?thesis using q(1) by (simp add: bq_call_def)
qed

lemma step_seek:
  assumes rel: "bq_rel (m, bq) (m0, base, B, M)" and small: "M + 4 * B' < 2 ^ 62"
    and grow: "B + bq_reach (Seek k mode account) \<le> B'" "M + 2 * B' \<le> M'"
  shows "\<exists>s. bq_call (Seek k mode account) (m, bq) = Inr ((), s) \<and> bq_rel s (m0, base, B', M')"
proof -
  note r = rel_simps [OF rel] and g = rel_bounds [OF rel grow]
  define old where "old = bq_write_index bq"
  define w where "w = (case mode of PA_SEEK_RELATIVE \<Rightarrow> bq_write_index bq + k | PA_SEEK_ABSOLUTE \<Rightarrow> k
     | PA_SEEK_RELATIVE_ON_READ \<Rightarrow> bq_read_index bq + k | PA_SEEK_RELATIVE_END \<Rightarrow> blocks_end bq (bq_read_index bq) + k)"
  have "\<bar>blocks_end bq (bq_read_index bq)\<bar> \<le> B"
  proof (cases "bq_blocks bq = []")
    case False
    then have "bq_item_at bq (last (bq_blocks bq)) \<in> set (items bq)" by (simp add: items_def)
    from items_within [OF r(1,8) this] show ?thesis using False by (simp add: blocks_end_def abs_le_iff)
  qed (use r(9) in \<open>simp add: blocks_end_def\<close>)
  then have w: "\<bar>w\<bar> \<le> B'" using r(9,10,12) grow(1) by (auto simp: w_def bq_reach_def split: pa_seek_mode.split)
  have "fits_i64 [w, w - old, (if account then bq_requested bq else bq_missing bq) - (w - old)] = Inr ()"
  proof -
    have "\<bar>bq_requested bq - (w - old)\<bar> \<le> 2 ^ 62 + M + 4 * B'" "\<bar>bq_missing bq - (w - old)\<bar> \<le> 2 ^ 62 + M + 4 * B'" "\<bar>w - old\<bar> \<le> 4 * B'"
      using requested_bound(1) [OF rel] r(10-13) w g(1) unfolding old_def by simp_all
    then show ?thesis using small w g(6,7) by (cases account) (auto simp: fits_i64_def i64_def abs_le_iff)
  qed
  then have eq: "pa_memblockq_seek m bq k mode account = bindR (drop_backlog m (bq\<lparr>bq_write_index := w\<rparr>)) (\<lambda>(m, bq'). Inr (m, write_index_changed bq' old account))"
    by (simp add: pa_memblockq_seek_def Let_def w_def old_def)
  let ?bq = "bq\<lparr>bq_write_index := w\<rparr>"
  have "bq_ok m ?bq" by (rule bq_ok_cong [OF r(1)]) (use bq_okD(4,5) [OF r(1)] in simp_all)
  from drop_backlog_ok [OF this] obtain i m' bq' where q: "drop_backlog m ?bq = Inr (m', bq')" "bq_ok m' bq'" "same_rest ?bq bq'" "mem_data m' = mem_data m" "mem_next m' = mem_next m"
     "\<forall>b. mem_refs m' b + bq_held ?bq b = mem_refs m b + bq_held bq' b" "forgets i (timeline m (items ?bq)) (timeline m' (items bq'))" by (auto simp: shrunk_def)
  let ?bq3 = "write_index_changed bq' old account"
  have same: "bq_held ?bq = bq_held bq" "bq_held ?bq3 = bq_held bq'" "items ?bq3 = items bq'" "items ?bq = items bq"
    by (auto simp: bq_held_def items_def write_index_changed_def Let_def)
  have ok3: "bq_ok m' ?bq3" by (rule bq_ok_cong [OF q(2)]) (use bq_okD(4,5) [OF q(2)] in \<open>simp_all add: write_index_changed_def Let_def\<close>)
  have f: "metrics ?bq3 = metrics bq" "bq_silence ?bq3 = bq_silence bq" "bq_mcalign ?bq3 = bq_mcalign bq" "books_ok ?bq3"
      "bq_read_index ?bq3 = bq_read_index bq" "bq_write_index ?bq3 = w" "bq_missing ?bq3 = (if account then bq_missing bq else bq_missing bq - (w - old))"
    using q(3) r(6) by (simp_all add: same_rest_def metrics_def books_ok_def write_index_changed_def Let_def old_def)
  have miss: "\<bar>bq_missing ?bq3\<bar> \<le> 2 ^ 61 + M'" using f(7) r(10,11) w g grow(2) unfolding old_def by (cases account) simp_all
  have refs: "\<forall>b. mem_refs m' b + bq_held bq b = mem_refs m b + bq_held ?bq3 b" using q(6) same by simp
  have "bq_rel (m', ?bq3) (m0, base, B', M')"
    by (rule rel_step [OF rel ok3 q(4,5) refs f(1-4) g(1,2)]) (use f(5,6) miss same w g(3) forgets_less [OF q(7)] in simp_all)
  then show ?thesis using q(1) by (simp add: bq_call_def eq)
qed

lemma step_flush:
  assumes rel: "bq_rel (m, bq) (m0, base, B, M)" and grow: "B + bq_reach p \<le> B'" "M + 2 * B' \<le> M'"
  shows "\<exists>s. bq_call (Flush_write account) (m, bq) = Inr ((), s) \<and> bq_rel s (m0, base, B', M')" "\<exists>s. bq_call Flush_read (m, bq) = Inr ((), s) \<and> bq_rel s (m0, base, B', M')"
    "\<exists>s. bq_call Silence (m, bq) = Inr ((), s) \<and> bq_rel s (m0, base, B', M')"
proof -
  note r = rel_simps [OF rel] and g = rel_bounds [OF rel grow]
  obtain m' bq' where q: "pa_memblockq_silence m bq = Inr (m', bq')" "bq_ok m' bq'" "bq_blocks bq' = []" "same_rest bq bq'" "mem_data m' = mem_data m"
     "mem_next m' = mem_next m" "\<forall>b. mem_refs m' b + bq_held bq b = mem_refs m b" using silence_result [OF r(1)] by blast
  have f: "metrics bq' = metrics bq" "bq_read_index bq' = bq_read_index bq" "bq_write_index bq' = bq_write_index bq" "bq_missing bq' = bq_missing bq"
    using q(4) by (simp_all add: same_rest_def)
  have its: "items bq' = []" "\<forall>b. bq_held bq' b = 0" using q(3) by (simp_all add: items_def bq_held_def)
  have rel': "bq_rel (m', bq') (m0, base, B, M)"
    by (rule rel_step [OF rel q(2,5,6)]) (use q(4,7) f its r(6,9-11) in \<open>simp_all add: same_rest_def metrics_def books_ok_def\<close>)
  then have "bq_rel (m', bq') (m0, base, B', M')" by (rule rel_cong) (use f g rel_simps(6) [OF rel'] in simp_all)
  then show "\<exists>s. bq_call Silence (m, bq) = Inr ((), s) \<and> bq_rel s (m0, base, B', M')" using q(1) by (simp add: bq_call_def)
  have d: "\<bar>bq_missing bq - (bq_read_index bq - bq_write_index bq)\<bar> \<le> 2 ^ 61 + M'" "\<bar>bq_missing bq + (bq_write_index bq - bq_read_index bq)\<bar> \<le> 2 ^ 61 + M'"
    using r(9-11) grow(2) g(1) by (simp_all add: abs_le_iff)
  have "bq_rel (m', write_index_changed (pa_memblockq_prebuf_force (bq'\<lparr>bq_write_index := bq_read_index bq'\<rparr>)) (bq_write_index bq') account) (m0, base, B', M')"
    by (rule rel_cong [OF rel']) (use rel_simps(6) [OF rel'] f(2-4) g d in \<open>simp_all add: write_index_changed_def pa_memblockq_prebuf_force_def Let_def books_ok_def metrics_def\<close>)
  then show "\<exists>s. bq_call (Flush_write account) (m, bq) = Inr ((), s) \<and> bq_rel s (m0, base, B', M')"
    using q(1) by (simp add: bq_call_def pa_memblockq_flush_write_def Let_def)
  have "bq_rel (m', read_index_changed (pa_memblockq_prebuf_force (bq'\<lparr>bq_read_index := bq_write_index bq'\<rparr>)) (bq_read_index bq')) (m0, base, B', M')"
    by (rule rel_cong [OF rel']) (use rel_simps(6) [OF rel'] f(2-4) g d in \<open>simp_all add: read_index_changed_def pa_memblockq_prebuf_force_def Let_def books_ok_def metrics_def\<close>)
  then show "\<exists>s. bq_call Flush_read (m, bq) = Inr ((), s) \<and> bq_rel s (m0, base, B', M')"
    using q(1) by (simp add: bq_call_def pa_memblockq_flush_read_def Let_def)
qed

lemma step_rewind:
  assumes rel: "bq_rel (m, bq) (m0, base, B, M)" and "bq_op_ok (Rewind n) (m0, base)" and grow: "B + bq_reach (Rewind n) \<le> B'" "M + 2 * B' \<le> M'"
  shows "\<exists>s. bq_call (Rewind n) (m, bq) = Inr ((), s) \<and> bq_rel s (m0, base, B', M')"
proof -
  note r = rel_simps [OF rel] and g = rel_bounds [OF rel grow]
  have n: "B + int n \<le> B'" using grow(1) by (simp add: bq_reach_def)
  have d: "\<bar>bq_read_index bq - int n\<bar> \<le> B'" "\<bar>bq_missing bq - int n\<bar> \<le> 2 ^ 61 + M'" using n r(9,11-13) grow(2) by (simp_all add: abs_le_iff)
  have "bq_rel (m, read_index_changed (bq\<lparr>bq_read_index := bq_read_index bq - int n\<rparr>) (bq_read_index bq)) (m0, base, B', M')"
    by (rule rel_cong [OF rel]) (use r(6) g d in \<open>simp_all add: read_index_changed_def books_ok_def metrics_def\<close>)
  then show ?thesis using assms(2) r(5) by (simp add: bq_call_def bq_op_ok_def pa_memblockq_rewind_def Let_def mod_eq_0_iff_dvd)
qed

lemma step_others:
  assumes rel: "bq_rel (m, bq) (m0, base, B, M)" and grow: "B + bq_reach p \<le> B'" "M + 2 * B' \<le> M'"
  shows "\<exists>s. bq_call Pop_missing (m, bq) = Inr ((), s) \<and> bq_rel s (m0, base, B', M')"
    "\<exists>s. bq_call Prebuf_disable (m, bq) = Inr ((), s) \<and> bq_rel s (m0, base, B', M')" "\<exists>s. bq_call Prebuf_force (m, bq) = Inr ((), s) \<and> bq_rel s (m0, base, B', M')"
proof -
  note r = rel_simps [OF rel] and g = rel_bounds [OF rel grow]
  have "bq_rel (m, snd (pa_memblockq_pop_missing bq)) (m0, base, B', M')"
    by (rule rel_cong [OF rel]) (use r(6) g in \<open>auto simp: pa_memblockq_pop_missing_def books_ok_def metrics_def\<close>)
  then show "\<exists>s. bq_call Pop_missing (m, bq) = Inr ((), s) \<and> bq_rel s (m0, base, B', M')" by (simp add: bq_call_def)
  have "bq_rel (m, pa_memblockq_prebuf_disable bq) (m0, base, B', M')" "bq_rel (m, pa_memblockq_prebuf_force bq) (m0, base, B', M')"
    by (rule rel_cong [OF rel]; use r(6) g in \<open>simp add: pa_memblockq_prebuf_disable_def pa_memblockq_prebuf_force_def books_ok_def metrics_def\<close>)+
  then show "\<exists>s. bq_call Prebuf_disable (m, bq) = Inr ((), s) \<and> bq_rel s (m0, base, B', M')" "\<exists>s. bq_call Prebuf_force (m, bq) = Inr ((), s) \<and> bq_rel s (m0, base, B', M')"
    by (simp_all add: bq_call_def)
qed

lemma bq_call_rel:
  assumes rel: "bq_rel (m, bq) (m0, base, B, M)" and ok: "bq_op_ok p (m0, base)" and grow: "B + bq_reach p \<le> B'" "M + 2 * B' \<le> M'" and small: "M + 4 * B' < 2 ^ 62"
  shows "\<exists>s. bq_call p (m, bq) = Inr ((), s) \<and> bq_rel s (m0, base, B', M')"
proof (cases p)
  case (Push c)
  then show ?thesis using step_push [OF rel] ok grow by simp
next
  case Peek
  then show ?thesis using step_peek [OF rel] grow by simp
next
  case (Drop n)
  then show ?thesis using step_drop [OF rel] ok grow by simp
next
  case (Rewind n)
  then show ?thesis using step_rewind [OF rel] ok grow by simp
next
  case (Seek k mode account)
  then show ?thesis using step_seek [OF rel small] grow by simp
qed (use step_flush [OF rel grow] step_others [OF rel grow] in simp_all)

interpretation client: simulation bq_rel bq_allowed bq_step bq_next
proof
  fix c :: "pa_mem \<times> pa_memblockq" and a :: bq_spec and p
  assume "bq_rel c a" "bq_allowed p a"
  moreover obtain m bq m0 base B M where s: "c = (m, bq)" "a = (m0, base, B, M)" by (metis prod_cases4 surj_pair)
  ultimately have rel: "bq_rel (m, bq) (m0, base, B, M)" and ok: "bq_op_ok p (m0, base)" "M + 4 * (B + bq_reach p) < 2 ^ 62" by (simp_all add: bq_allowed_def)
  show "\<exists>c'. bq_step p c = Inr (fst (bq_next p a), c') \<and> bq_rel c' (snd (bq_next p a))"
    using bq_call_rel [OF rel ok(1) order_refl order_refl ok(2)] values_fit [OF rel ok(2)] by (simp add: s bq_step_def bq_next_def)
qed

text \<open>A sequence of operations is allowed when the bounds at its end are small.\<close>

lemma spec_apply:
  "bq_next p (m0, base, B, M) = ((), (m0, base, B + bq_reach p, M + 2 * (B + bq_reach p)))"
  "bq_allowed p (m0, base, B, M) \<longleftrightarrow> bq_op_ok p (m0, base) \<and> M + 4 * (B + bq_reach p) < 2 ^ 62"
  by (simp_all add: bq_next_def bq_allowed_def)

lemma session_allowed:
  assumes "list_all (\<lambda>p. bq_op_ok p (m0, base)) ops" "0 \<le> B" "0 \<le> M"
    and "M + (2 * int (length ops) + 2) * (B + sum_list (map bq_reach ops)) < 2 ^ 62"
  shows "run_ok bq_allowed bq_next ops (m0, base, B, M) \<and> (\<exists>B' M'. snd (run_spec bq_next ops (m0, base, B, M)) = (m0, base, B', M'))"
  using assms
proof (induction ops arbitrary: B M)
  case (Cons p ops)
  let ?S = "sum_list (map bq_reach ops)" and ?B = "B + bq_reach p" and ?n = "int (length ops)"
  define X where "X = ?B + ?S"
  have S: "0 \<le> ?S" by (rule sum_list_nonneg) (auto simp: bq_reach_nonneg)
  have B: "0 \<le> ?B" "?B \<le> X" using Cons.prems(2) bq_reach_nonneg [of p] S by (simp_all add: X_def)
  then have "0 \<le> X" by linarith
  have lim: "M + (2 * ?n + 4) * X < 2 ^ 62" using Cons.prems(4) by (simp add: X_def algebra_simps)
  have "0 \<le> ?n * X" "4 * ?B \<le> 4 * X" "2 * ?B \<le> 2 * X" using \<open>0 \<le> X\<close> B(2) by simp_all
  then have "M + 4 * ?B \<le> M + (2 * ?n + 4) * X" "(M + 2 * ?B) + (2 * ?n + 2) * X \<le> M + (2 * ?n + 4) * X"
    by (simp_all add: algebra_simps)
  then have "M + 4 * ?B < 2 ^ 62" "(M + 2 * ?B) + (2 * ?n + 2) * (?B + ?S) < 2 ^ 62"
    unfolding X_def [symmetric] using le_less_trans [OF _ lim] by blast+
  moreover from this(2) have "run_ok bq_allowed bq_next ops (m0, base, ?B, M + 2 * ?B) \<and> (\<exists>B' M'. snd (run_spec bq_next ops (m0, base, ?B, M + 2 * ?B)) = (m0, base, B', M'))"
    using Cons.IH [of ?B "M + 2 * ?B"] Cons.prems(1,3) B by simp
  ultimately show ?case using Cons.prems(1) by (simp add: spec_apply case_prod_beta Let_def)
qed simp

lemma fresh_rel:
  assumes "fresh_queue idx base b" "0 < base" and "int (bq_maxlength b) \<le> 2 ^ 61" "bq_tlength b \<le> bq_maxlength b" "int (bq_maxrewind b) \<le> 2 ^ 61"
  shows "bq_rel (m, b\<lparr>bq_mcalign := \<lparr>ma_base = base, ma_leftover = pa_memchunk_reset, ma_current = pa_memchunk_reset\<rparr>\<rparr>) (m, base, \<bar>idx\<bar>, 0)"
  using assms by (auto simp: fresh_queue_def empty_queue_def bq_rel_def bq_ok_def items_def bq_held_def books_ok_def bq_within_def)

text \<open>C25. A client makes a queue, does anything to it in any order (pushing chunks of whole frames that it has references for, peeking and giving the
  chunk back, dropping, rewinding, seeking, flushing, asking for the missing bytes), and frees it. The sizes of the queue are at most \<open>2 ^ 61\<close>, and the
  offsets and lengths of all \<open>n\<close> operations with the first position add up to less than \<open>2 ^ 62 / (2 * n + 2)\<close>. Then no assertion of the queue or of the memory
  blocks fails, no position, counter or other signed value that an operation computes leaves \<^verbatim>\<open>int64_t\<close>, every loop ends, the queue keeps its
  invariant, the bytes asked for and not yet delivered with those still to be asked for are exactly what is missing to the target length, and at the end
  the reference count of every block is what it was: nothing leaks and nothing is released too often.\<close>

theorem queue_session:
  assumes "0 < base" "maxlength + 3 * base \<le> 2 ^ 61" "list_all (\<lambda>n. n + 3 * base < 2 ^ 64) [tlength, prebuf, minreq]" "maxrewind \<le> 2 ^ 61"
    and "list_all (\<lambda>p. bq_op_ok p (m, base)) ops"
    and "(2 * int (length ops) + 2) * (\<bar>idx\<bar> + sum_list (map bq_reach ops)) < 2 ^ 62"
  shows "\<exists>bq rs m1 bq1 m2. pa_memblockq_new m idx maxlength tlength base prebuf minreq maxrewind None = Inr (m, bq) \<and>
     run_impl bq_step ops (m, bq) = Inr (rs, m1, bq1) \<and> bq_ok m1 bq1 \<and>
     bq_missing bq1 + bq_requested bq1 = int (bq_tlength bq1) - (bq_write_index bq1 - bq_read_index bq1) \<and>
     pa_memblockq_free m1 bq1 = Inr m2 \<and> mem_refs m2 = mem_refs m \<and> mem_data m2 = mem_data m"
proof -
  have sizes: "list_all (\<lambda>n. n + 3 * base < 2 ^ 64) [maxlength, tlength, prebuf, minreq]" using assms(2,3) by simp
  obtain b where b: "fresh_queue idx base b" "pa_memblockq_new m idx maxlength tlength base prebuf minreq maxrewind None =
      bindR (pa_mcalign_new base) (\<lambda>a. Inr (m, b\<lparr>bq_mcalign := a\<rparr>))" using new_queue [OF assms(1) sizes, of idx m maxrewind None] by auto
  let ?bq = "b\<lparr>bq_mcalign := \<lparr>ma_base = base, ma_leftover = pa_memchunk_reset, ma_current = pa_memchunk_reset\<rparr>\<rparr>"
  have new: "pa_memblockq_new m idx maxlength tlength base prebuf minreq maxrewind None = Inr (m, ?bq)" using b(2) assms(1) by (simp add: pa_mcalign_new_def)
  have "int (bq_maxlength b) \<le> 2 ^ 61" "bq_tlength b \<le> bq_maxlength b" "int (bq_maxrewind b) \<le> 2 ^ 61"
    using new_limits [OF assms(1) sizes new] assms(2,4) by simp_all
  note rel = fresh_rel [OF b(1) assms(1) this, of m]
  obtain B M where run_spec: "run_ok bq_allowed bq_next ops (m, base, \<bar>idx\<bar>, 0)" "snd (run_spec bq_next ops (m, base, \<bar>idx\<bar>, 0)) = (m, base, B, M)"
    using session_allowed [OF assms(5), of "\<bar>idx\<bar>" 0] assms(6) by auto
  then obtain rs m1 bq1 where run: "run_impl bq_step ops (m, ?bq) = Inr (rs, m1, bq1)" "bq_rel (m1, bq1) (m, base, B, M)"
    using client.run_sim [OF rel] by force
  note r = rel_simps [OF run(2)]
  obtain m2 bq2 where q: "pa_memblockq_silence m1 bq1 = Inr (m2, bq2)" "same_rest bq1 bq2" "mem_data m2 = mem_data m1" "\<forall>b. mem_refs m2 b + bq_held bq1 b = mem_refs m1 b"
    using silence_result [OF r(1)] by blast
  have "pa_memblockq_free m1 bq1 = Inr m2"
    using q(1,2) run(2) by (simp add: pa_memblockq_free_def same_rest_def bq_rel_def unref_chunk_def pa_mcalign_free_def)
  moreover have "mem_refs m2 = mem_refs m" using q(4) r(4) by (simp add: fun_eq_iff)
  ultimately show ?thesis using new run(1) r(1,2,6) q(3) unfolding books_ok_def by auto
qed

theorem queue_session_witness:
  "\<exists>bq rs m1 bq1 m2. pa_memblockq_new sample_mem 0 100 50 2 0 2 4 None = Inr (sample_mem, bq) \<and>
     run_impl bq_step [Push \<lparr>mc_memblock = Some 1, mc_index = 0, mc_length = 6\<rparr>, Peek, Drop 4, Rewind 2, Seek (-4) PA_SEEK_RELATIVE True,
       Push \<lparr>mc_memblock = Some 2, mc_index = 2, mc_length = 4\<rparr>, Pop_missing, Flush_write True] (sample_mem, bq) = Inr (rs, m1, bq1) \<and>
     pa_memblockq_free m1 bq1 = Inr m2 \<and> mem_refs m2 = mem_refs sample_mem"
  using queue_session [of 2 100 50 0 2 4 sample_mem "[Push \<lparr>mc_memblock = Some 1, mc_index = 0, mc_length = 6\<rparr>, Peek, Drop 4, Rewind 2, Seek (-4) PA_SEEK_RELATIVE True,
       Push \<lparr>mc_memblock = Some 2, mc_index = 2, mc_length = 4\<rparr>, Pop_missing, Flush_write True]" 0]
  by (auto simp: sample_mem_def bq_op_ok_def chunk_ok_def bq_reach_def)

text \<open>Without a bound on the seeks the values do not stay within their type: a client that seeks to the last position and pushes anything makes the
  write position overflow.\<close>

theorem seek_then_push_overflows:
  assumes "0 < mc_length c" "bq_write_index bq = 2 ^ 63 - 1"
  shows "bq_step (Push c) (m, bq) = Inl Overflow"
proof -
  have "\<not> i64 (bq_write_index bq + int (mc_length c))" using assms by (simp add: i64_def)
  then show ?thesis by (simp add: bq_step_def fits_i64_def op_values_def Let_def)
qed

theorem seek_then_push_overflows_witness:
  "\<exists>m bq. bq_step (Seek (2 ^ 63 - 1) PA_SEEK_ABSOLUTE False) (sample_mem, sample_queue 6) = Inr ((), m, bq) \<and>
     bq_step (Push \<lparr>mc_memblock = Some 1, mc_index = 0, mc_length = 2\<rparr>) (m, bq) = Inl Overflow"
proof -
  have "\<exists>m bq. bq_step (Seek (2 ^ 63 - 1) PA_SEEK_ABSOLUTE False) (sample_mem, sample_queue 6) = Inr ((), m, bq) \<and> bq_write_index bq = 2 ^ 63 - 1"
    by (simp add: bq_step_def bq_call_def fits_i64_def i64_def bq_values_def op_values_def items_def pa_memblockq_seek_def drop_backlog_def
        write_index_changed_def li_end_def sample_queue_def Let_def)
  then show ?thesis using seek_then_push_overflows [of "\<lparr>mc_memblock = Some 1, mc_index = 0, mc_length = 2\<rparr>"] by fastforce
qed

section \<open>Moving data between queues\<close>

text \<open>A peek in a queue with data does not say that there is nothing, and leaves the queue so that this stays so.\<close>

lemma peek_readable:
  assumes "pa_memblockq_peek m bq = Inr (r, m', bq')" and "\<not> pa_memblockq_prebuf_active bq" "bq_read_index bq < bq_write_index bq"
  shows "r \<noteq> None \<and> \<not> pa_memblockq_prebuf_active bq' \<and> bq_read_index bq' < bq_write_index bq'"
proof -
  define bq1 where "bq1 = fix_current_read (bq\<lparr>bq_in_prebuf := False\<rparr>)"
  have u: "update_prebuf bq = (False, bq\<lparr>bq_in_prebuf := False\<rparr>)" using assms(2) by (simp add: update_prebuf_eq)
  have f: "bq_read_index bq1 = bq_read_index bq" "bq_write_index bq1 = bq_write_index bq" "bq_in_prebuf bq1 = False"
    by (simp_all add: bq1_def fix_current_read_def Let_def split: list.split)
  have "bq' = bq1 \<and> r \<noteq> None"
    using assms(1,3) f unfolding pa_memblockq_peek_def u prod.case Let_def bq1_def [symmetric]
    by (auto simp: bindR_Inr_iff split: option.splits if_splits)
  then show ?thesis using f assms(3) by (simp add: pa_memblockq_prebuf_active_def)
qed

declare splice_loop.simps [simp del]

text \<open>C33. Moving the data of a queue that can be read into another one never succeeds: however many rounds the loop gets, it does not end with
  the result 0, because it drops what it has moved from the target and not from the source.\<close>

theorem splice_never_succeeds:
  assumes "pa_memblockq_is_readable source"
  shows "pa_memblockq_splice fuel m bq source \<noteq> Inr (0, m', bq', source')"
proof -
  have "splice_loop fuel m bq source \<noteq> Inr (0, m', bq', source')"
    if "\<not> pa_memblockq_prebuf_active source" "bq_read_index source < bq_write_index source" for fuel m bq source
    using that
  proof (induction fuel arbitrary: m bq source)
    case 0
    then show ?case by (subst splice_loop.simps) (auto simp: bindR_Inr_iff dest: peek_readable split: option.splits if_splits)
  next
    case (Suc fuel)
    show ?case
    proof
      assume "splice_loop (Suc fuel) m bq source = Inr (0, m', bq', source')"
      then obtain r m1 source1 m2 bq2 where "pa_memblockq_peek m source = Inr (r, m1, source1)" "r = None \<or> splice_loop fuel m2 bq2 source1 = Inr (0, m', bq', source')"
        by (subst (asm) splice_loop.simps) (fastforce simp: bindR_Inr_iff split: option.splits if_splits)
      then show False using peek_readable [OF _ Suc.prems] Suc.IH by blast
    qed
  qed
  moreover have "bq_read_index source < bq_write_index source" "\<not> pa_memblockq_prebuf_active source"
    using assms by (auto simp: pa_memblockq_is_readable_def pa_memblockq_get_length_def split: if_splits)
  ultimately show ?thesis by (simp add: pa_memblockq_splice_def)
qed

theorem splice_never_succeeds_witness:
  "pa_memblockq_splice 1000 sample_mem (sample_queue 6) (sample_queue 6) \<noteq> Inr (0, sample_mem, sample_queue 6, sample_queue 6)"
  using splice_never_succeeds [of "sample_queue 6"]
  by (simp add: pa_memblockq_is_readable_def pa_memblockq_get_length_def pa_memblockq_prebuf_active_def sample_queue_def)

end
