(* ===== verification/RudpList.thy ===== *)
theory RudpList
  imports Prelude
begin

text \<open>
  The bookkeeping of the reliable datagram protocol of \<^verbatim>\<open>study/OPEN-SOURCE/RUDP/src\<close>: the
  connections and their queues of data (\<^verbatim>\<open>list.cpp\<close>) and the timers and registered descriptors
  (\<^verbatim>\<open>event.cpp\<close>). The state of a process is one record: the global variables of the two files, the
  objects they point to in stores indexed by addresses, and logs of what the process sends, which
  callbacks it makes and which descriptors it closes. A singly linked list is the list of the
  addresses of its nodes; only its ends change. A \<^verbatim>\<open>struct sockaddr_in\<close> is copied and compared as
  16 bytes and stands for itself as a number. The order of bytes is that of a little-endian host.
\<close>

section \<open>State\<close>

abbreviation RUDP_VERSION :: u16 where "RUDP_VERSION \<equiv> 1"
abbreviation RUDP_MAXPKTSIZE :: nat where "RUDP_MAXPKTSIZE \<equiv> 1000"
abbreviation RUDP_MAXRETRANS :: int where "RUDP_MAXRETRANS \<equiv> 5"
abbreviation RUDP_TIMEOUT :: int where "RUDP_TIMEOUT \<equiv> 2000"
abbreviation RUDP_WINDOW :: nat where "RUDP_WINDOW \<equiv> 3"
abbreviation RUDP_DATA :: u16 where "RUDP_DATA \<equiv> 1"
abbreviation RUDP_ACK :: u16 where "RUDP_ACK \<equiv> 2"
abbreviation RUDP_SYN :: u16 where "RUDP_SYN \<equiv> 4"
abbreviation RUDP_FIN :: u16 where "RUDP_FIN \<equiv> 5"
abbreviation hdr_size :: nat where "hdr_size \<equiv> 8"

datatype rudp_state = LISTEN | SYN_SENT | ESTABLISH | CLOSE_WAIT | CLOSED
datatype rudp_event = RUDP_EVENT_TIMEOUT | RUDP_EVENT_CLOSED

type_synonym sockaddr = nat

text \<open>The \<^verbatim>\<open>void *\<close> values that are passed around: the integer \<^verbatim>\<open>rudp_socket\<close> allocates, a function of
  the client, a connection, and the copy of a connection that a data timer has. The functions of the
  library that are registered as callbacks.\<close>

datatype rudp_ptr = IntPtr nat | FunPtr nat | NodePtr nat | CopyPtr nat
datatype rudp_fn = RECVHANDLER | RETRANSMITSYN | RETRANSMITDATA | RETRANSMITFIN

text \<open>\<^verbatim>\<open>bd_data\<close> is \<open>None\<close> once \<^verbatim>\<open>deleteData\<close> has freed the packet and set the pointer to \<^verbatim>\<open>NULL\<close>.\<close>

record buffer_data_list =
  bd_data :: "bytes option"
  bd_seq :: u32
  bd_len :: nat
  bd_retransmit :: int

record socketnode =
  sn_fd :: nat
  sn_to :: sockaddr
  sn_state :: rudp_state
  sn_seq :: u32
  sn_retransmit :: int
  sn_close_ask :: int
  sn_nextpacket :: int
  sn_i :: rudp_ptr
  sn_buff :: "nat list"

text \<open>The fields of the copy that are set.\<close>

record socket_copy =
  cp_fd :: nat
  cp_to :: sockaddr
  cp_buff :: "nat option"

text \<open>Time in seconds and microseconds. The list an event is in tells its \<^verbatim>\<open>e_type\<close>.\<close>

type_synonym timeval = "int \<times> int"

record event_data =
  e_fn :: rudp_fn
  e_fd :: nat
  e_time :: timeval
  e_arg :: rudp_ptr

text \<open>Calls of the client's receive handler (with the function, the connection, the source and the
  data) and of its event handler.\<close>

datatype rudp_call = CallRecv nat rudp_ptr sockaddr bytes | CallEvent nat rudp_ptr rudp_event "sockaddr option"

record rudp =
  sockets :: "nat list"
  node_at :: "nat \<Rightarrow> socketnode"
  buf_at :: "nat \<Rightarrow> buffer_data_list"
  copy_at :: "nat \<Rightarrow> socket_copy"
  int_at :: "nat \<Rightarrow> nat"
  next_addr :: nat
  handlers :: "(nat \<times> nat) list"
  ee :: "event_data list"
  ee_timers :: "event_data list"
  sent :: "(nat \<times> sockaddr \<times> bytes) list"
  calls :: "rudp_call list"
  closed :: "nat list"

section \<open>Packets\<close>

definition le16 :: "u16 \<Rightarrow> bytes" where
  "le16 u = [ucast u, ucast (drop_bit 8 u)]"

definition le32 :: "u32 \<Rightarrow> bytes" where
  "le32 u = [ucast u, ucast (drop_bit 8 u), ucast (drop_bit 16 u), ucast (drop_bit 24 u)]"

fun un16 :: "bytes \<Rightarrow> u16" where
  "un16 [a, b] = ucast a OR push_bit 8 (ucast b)"
| "un16 _ = 0"

fun un32 :: "bytes \<Rightarrow> u32" where
  "un32 [a, b, c, d] = ucast a OR push_bit 8 (ucast b) OR push_bit 16 (ucast c) OR push_bit 24 (ucast d)"
| "un32 _ = 0"

text \<open>\<^verbatim>\<open>struct rudp_hdr\<close>, packed.\<close>

definition rudp_hdr :: "u16 \<Rightarrow> u32 \<Rightarrow> bytes" where
  "rudp_hdr type seqno = le16 RUDP_VERSION @ le16 type @ le32 seqno"

section \<open>Connections\<close>

definition getS :: "rudp \<Rightarrow> nat \<Rightarrow> sockaddr \<Rightarrow> nat option" where
  "getS s socket_fd to = find (\<lambda>a. sn_fd (node_at s a) = socket_fd \<and> sn_to (node_at s a) = to) (sockets s)"

definition addsock :: "rudp \<Rightarrow> nat \<Rightarrow> sockaddr \<Rightarrow> rudp_ptr \<Rightarrow> rudp" where
  "addsock s socket_fd to i =
     (let a = next_addr s;
          temp = \<lparr>sn_fd = socket_fd, sn_to = to, sn_state = LISTEN, sn_seq = 0, sn_retransmit = 0,
                  sn_close_ask = 0, sn_nextpacket = 0, sn_i = i, sn_buff = []\<rparr>
      in s\<lparr>node_at := (node_at s)(a := temp), sockets := a # sockets s, next_addr := a + 1\<rparr>)"

text \<open>The loop of every setter: the first connection that fits is changed.\<close>

definition upd_sock :: "(socketnode \<Rightarrow> socketnode) \<Rightarrow> rudp \<Rightarrow> nat \<Rightarrow> sockaddr \<Rightarrow> rudp" where
  "upd_sock f s socket_fd to =
     (case getS s socket_fd to of None \<Rightarrow> s | Some a \<Rightarrow> s\<lparr>node_at := (node_at s)(a := f (node_at s a))\<rparr>)"

definition setSeq :: "rudp \<Rightarrow> nat \<Rightarrow> sockaddr \<Rightarrow> u32 \<Rightarrow> rudp" where
  "setSeq s socket_fd to q = upd_sock (\<lambda>n. n\<lparr>sn_seq := q\<rparr>) s socket_fd to"

definition setClose :: "rudp \<Rightarrow> nat \<Rightarrow> sockaddr \<Rightarrow> int \<Rightarrow> rudp" where
  "setClose s socket_fd to c = upd_sock (\<lambda>n. n\<lparr>sn_close_ask := c\<rparr>) s socket_fd to"

definition setState :: "rudp \<Rightarrow> nat \<Rightarrow> sockaddr \<Rightarrow> rudp_state \<Rightarrow> rudp" where
  "setState s socket_fd to st = upd_sock (\<lambda>n. n\<lparr>sn_state := st\<rparr>) s socket_fd to"

definition incRetransmit :: "rudp \<Rightarrow> nat \<Rightarrow> sockaddr \<Rightarrow> rudp" where
  "incRetransmit s socket_fd to = upd_sock (\<lambda>n. n\<lparr>sn_retransmit := sn_retransmit n + 1\<rparr>) s socket_fd to"

definition setRetransmit :: "rudp \<Rightarrow> nat \<Rightarrow> sockaddr \<Rightarrow> int \<Rightarrow> rudp" where
  "setRetransmit s socket_fd to k = upd_sock (\<lambda>n. n\<lparr>sn_retransmit := k\<rparr>) s socket_fd to"

definition setNextpacket :: "rudp \<Rightarrow> nat \<Rightarrow> sockaddr \<Rightarrow> int \<Rightarrow> rudp" where
  "setNextpacket s socket_fd to k = upd_sock (\<lambda>n. n\<lparr>sn_nextpacket := k\<rparr>) s socket_fd to"

text \<open>\<open>None\<close> is the state -1 of a connection that is not there; the other getters return -1 then.\<close>

definition getState :: "rudp \<Rightarrow> nat \<Rightarrow> sockaddr \<Rightarrow> rudp_state option" where
  "getState s socket_fd to = map_option (\<lambda>a. sn_state (node_at s a)) (getS s socket_fd to)"

definition getClose :: "rudp \<Rightarrow> nat \<Rightarrow> sockaddr \<Rightarrow> int" where
  "getClose s socket_fd to = (case getS s socket_fd to of None \<Rightarrow> -1 | Some a \<Rightarrow> sn_close_ask (node_at s a))"

definition getSeq :: "rudp \<Rightarrow> nat \<Rightarrow> sockaddr \<Rightarrow> u32" where
  "getSeq s socket_fd to = (case getS s socket_fd to of None \<Rightarrow> -1 | Some a \<Rightarrow> sn_seq (node_at s a))"

definition getRetransmit :: "rudp \<Rightarrow> nat \<Rightarrow> sockaddr \<Rightarrow> int" where
  "getRetransmit s socket_fd to = (case getS s socket_fd to of None \<Rightarrow> -1 | Some a \<Rightarrow> sn_retransmit (node_at s a))"

definition getNextpacket :: "rudp \<Rightarrow> nat \<Rightarrow> sockaddr \<Rightarrow> int" where
  "getNextpacket s socket_fd to = (case getS s socket_fd to of None \<Rightarrow> -1 | Some a \<Rightarrow> sn_nextpacket (node_at s a))"

definition getTo :: "rudp \<Rightarrow> nat \<Rightarrow> sockaddr option" where
  "getTo s socket_fd = map_option (\<lambda>a. sn_to (node_at s a)) (find (\<lambda>a. sn_fd (node_at s a) = socket_fd) (sockets s))"

definition notclosed :: "rudp \<Rightarrow> nat \<Rightarrow> bool" where
  "notclosed s fd = list_ex (\<lambda>a. sn_fd (node_at s a) = fd \<and> sn_state (node_at s a) \<noteq> CLOSED) (sockets s)"

text \<open>The connections that \<^verbatim>\<open>inititerator\<close> and repeated calls of \<^verbatim>\<open>next\<close> run through; \<^verbatim>\<open>currentTo\<close> is
  the address of the one that was reached.\<close>

definition iter_nodes :: "rudp \<Rightarrow> nat \<Rightarrow> nat list" where
  "iter_nodes s fd = filter (\<lambda>a. sn_fd (node_at s a) = fd) (sockets s)"

text \<open>\<^verbatim>\<open>sizeTo\<close> does not go on to the next node when it has counted one.\<close>

fun sizeTo_loop :: "nat \<Rightarrow> rudp \<Rightarrow> nat \<Rightarrow> nat list \<Rightarrow> int \<Rightarrow> int res" where
  "sizeTo_loop fuel s socket_fd [] n = Inr n"
| "sizeTo_loop 0 s socket_fd (a # as) n = Inl Diverges"
| "sizeTo_loop (Suc fuel) s socket_fd (a # as) n =
     (if sn_fd (node_at s a) = socket_fd then sizeTo_loop fuel s socket_fd (a # as) (n + 1)
      else sizeTo_loop fuel s socket_fd as n)"

definition sizeTo :: "nat \<Rightarrow> rudp \<Rightarrow> nat \<Rightarrow> int res" where
  "sizeTo fuel s socket_fd = sizeTo_loop fuel s socket_fd (sockets s) 0"

section \<open>Queues\<close>

definition sizebuffer :: "rudp \<Rightarrow> nat \<Rightarrow> sockaddr \<Rightarrow> nat" where
  "sizebuffer s socket_fd to = (case getS s socket_fd to of None \<Rightarrow> 0 | Some a \<Rightarrow> length (sn_buff (node_at s a)))"

definition sizebufferTo :: "rudp \<Rightarrow> nat \<Rightarrow> nat" where
  "sizebufferTo s socket_fd =
     sum_list (map (\<lambda>a. sizebuffer s socket_fd (sn_to (node_at s a)))
       (filter (\<lambda>a. sn_fd (node_at s a) = socket_fd \<and> sn_state (node_at s a) \<noteq> CLOSED) (sockets s)))"

definition getData :: "rudp \<Rightarrow> nat \<Rightarrow> sockaddr \<Rightarrow> int \<Rightarrow> nat option" where
  "getData s socket_fd to position =
     (case getS s socket_fd to of None \<Rightarrow> None
      | Some a \<Rightarrow>
          if 0 \<le> position \<and> nat position < length (sn_buff (node_at s a))
          then Some (sn_buff (node_at s a) ! nat position) else None)"

definition setSeqData :: "rudp \<Rightarrow> nat \<Rightarrow> sockaddr \<Rightarrow> int \<Rightarrow> u32 \<Rightarrow> rudp res" where
  "setSeqData s fd to position q =
     (case getData s fd to position of None \<Rightarrow> Inr s
      | Some b \<Rightarrow>
          (case bd_data (buf_at s b) of None \<Rightarrow> Inl OutOfBounds
           | Some d \<Rightarrow> bindR (store d 4 (le32 q)) (\<lambda>d.
               Inr (s\<lparr>buf_at := (buf_at s)(b := (buf_at s b)\<lparr>bd_data := Some d, bd_seq := q\<rparr>)\<rparr>))))"

definition getSeqData :: "rudp \<Rightarrow> nat \<Rightarrow> sockaddr \<Rightarrow> int \<Rightarrow> u32 res" where
  "getSeqData s fd to position =
     (case getData s fd to position of None \<Rightarrow> Inr (-1)
      | Some b \<Rightarrow>
          (case bd_data (buf_at s b) of None \<Rightarrow> Inl OutOfBounds
           | Some d \<Rightarrow> bindR (load d 4 4) (\<lambda>bs. Inr (un32 bs))))"

text \<open>\<open>junk\<close> is what the new node holds in \<^verbatim>\<open>retransmit\<close>, which is not set. A negative \<^verbatim>\<open>len\<close> makes the
  copy run out of the data.\<close>

definition addData :: "rudp \<Rightarrow> nat option \<Rightarrow> bytes \<Rightarrow> int \<Rightarrow> int \<Rightarrow> rudp res" where
  "addData s sock data len junk =
     (case sock of None \<Rightarrow> Inl OutOfBounds
      | Some a \<Rightarrow>
          if len < 0 then Inl OutOfBounds
          else bindR (load data 0 (nat len)) (\<lambda>bs.
            let b = next_addr s;
                buffer = \<lparr>bd_data = Some (rudp_hdr RUDP_DATA (-1) @ bs), bd_seq = -1, bd_len = nat len, bd_retransmit = junk\<rparr>
            in Inr (s\<lparr>buf_at := (buf_at s)(b := buffer), next_addr := b + 1,
                      node_at := (node_at s)(a := (node_at s a)\<lparr>sn_buff := sn_buff (node_at s a) @ [b]\<rparr>)\<rparr>)))"

definition deleteData :: "rudp \<Rightarrow> nat \<Rightarrow> sockaddr \<Rightarrow> rudp res" where
  "deleteData s socket_fd to =
     (case getS s socket_fd to of None \<Rightarrow> Inr s
      | Some a \<Rightarrow>
          (case sn_buff (node_at s a) of [] \<Rightarrow> Inl OutOfBounds
           | b # bs \<Rightarrow> Inr (s\<lparr>buf_at := (buf_at s)(b := (buf_at s b)\<lparr>bd_data := None\<rparr>),
                              node_at := (node_at s)(a := (node_at s a)\<lparr>sn_buff := bs\<rparr>)\<rparr>)))"

section \<open>Event handlers\<close>

definition find_hand :: "rudp \<Rightarrow> nat \<Rightarrow> nat option" where
  "find_hand s fd = map_option fst (find (\<lambda>(h, f). f = fd) (handlers s))"

text \<open>The test is on \<^verbatim>\<open>sockets\<close>, not on \<^verbatim>\<open>handlers\<close>.\<close>

definition addhandler :: "rudp \<Rightarrow> nat \<Rightarrow> nat \<Rightarrow> rudp" where
  "addhandler s fd h = (if sockets s = [] then s\<lparr>handlers := [(h, fd)]\<rparr> else s\<lparr>handlers := (h, fd) # handlers s\<rparr>)"

section \<open>Events\<close>

definition timercmp :: "timeval \<Rightarrow> timeval \<Rightarrow> bool" where
  "timercmp a b \<longleftrightarrow> (if fst a = fst b then snd a < snd b else fst a < fst b)"

definition timeradd :: "timeval \<Rightarrow> timeval \<Rightarrow> timeval" where
  "timeradd a b =
     (let sec = fst a + fst b; usec = snd a + snd b
      in if usec \<ge> 1000000 then (sec + 1, usec - 1000000) else (sec, usec))"

text \<open>The time of a retransmission, \<^verbatim>\<open>RUDP_TIMEOUT\<close> milliseconds from now.\<close>

definition timeout_at :: "timeval \<Rightarrow> timeval" where
  "timeout_at now = timeradd now (RUDP_TIMEOUT div 1000, RUDP_TIMEOUT mod 1000 * 1000)"

fun insert_event :: "event_data \<Rightarrow> event_data list \<Rightarrow> event_data list" where
  "insert_event e [] = [e]"
| "insert_event e (e1 # es) = (if timercmp (e_time e) (e_time e1) then e # e1 # es else e1 # insert_event e es)"

definition event_timeout :: "rudp \<Rightarrow> timeval \<Rightarrow> rudp_fn \<Rightarrow> rudp_ptr \<Rightarrow> rudp" where
  "event_timeout s t fn arg =
     s\<lparr>ee_timers := insert_event \<lparr>e_fn = fn, e_fd = 0, e_time = t, e_arg = arg\<rparr> (ee_timers s)\<rparr>"

fun event_delete :: "event_data list \<Rightarrow> rudp_fn \<Rightarrow> rudp_ptr \<Rightarrow> int \<times> event_data list" where
  "event_delete [] fn arg = (-1, [])"
| "event_delete (e # es) fn arg =
     (if fn = e_fn e \<and> arg = e_arg e then (0, es)
      else let (r, es') = event_delete es fn arg in (r, e # es'))"

definition event_timeout_delete :: "rudp \<Rightarrow> rudp_fn \<Rightarrow> rudp_ptr \<Rightarrow> rudp" where
  "event_timeout_delete s fn arg = s\<lparr>ee_timers := snd (event_delete (ee_timers s) fn arg)\<rparr>"

definition event_fd_delete :: "rudp \<Rightarrow> rudp_fn \<Rightarrow> rudp_ptr \<Rightarrow> rudp" where
  "event_fd_delete s fn arg = s\<lparr>ee := snd (event_delete (ee s) fn arg)\<rparr>"

definition event_fd :: "rudp \<Rightarrow> nat \<Rightarrow> rudp_fn \<Rightarrow> rudp_ptr \<Rightarrow> rudp" where
  "event_fd s fd fn arg = s\<lparr>ee := \<lparr>e_fn = fn, e_fd = fd, e_time = (0, 0), e_arg = arg\<rparr> # ee s\<rparr>"

end
