(* ===== verification/Rudp.thy ===== *)
theory Rudp
  imports RudpList
begin

text \<open>
  The reliable datagram protocol itself (\<^verbatim>\<open>rudp.cpp\<close>, \<^verbatim>\<open>retransmit.cpp\<close>): opening a socket, sending,
  the receive handler with its state machine, the three retransmission timers and closing. What the
  operating system gives is an argument: the time \<open>now\<close>, random numbers, the result of \<^verbatim>\<open>socket\<close> and \<^verbatim>\<open>bind\<close>,
  the datagrams. The client's callbacks are logged and then run as \<open>code\<close>, which may change the state,
  for example by calling the library again. \<open>Inl OutOfBounds\<close> also stands for following a null
  pointer and for calling something that is not a function.
\<close>

section \<open>Opening\<close>

text \<open>\<^verbatim>\<open>DROP\<close> is 0: nothing is dropped on purpose.\<close>

definition sendtowithdropsendto :: "rudp \<Rightarrow> nat \<Rightarrow> bytes \<Rightarrow> sockaddr \<Rightarrow> rudp" where
  "sendtowithdropsendto s sockfd buf dest_addr = s\<lparr>sent := sent s @ [(sockfd, dest_addr, buf)]\<rparr>"

text \<open>The attempts to bind to a random port, with their results.\<close>

fun bind_loop :: "bool list \<Rightarrow> unit res" where
  "bind_loop [] = Inl Diverges"
| "bind_loop (ok # oks) = (if ok then Inr () else bind_loop oks)"

definition rudp_socket :: "rudp \<Rightarrow> int \<Rightarrow> nat option \<Rightarrow> bool list \<Rightarrow> (rudp_ptr option \<times> rudp) res" where
  "rudp_socket s port sock binds =
     (if port < 0 then Inr (None, s)
      else case sock of None \<Rightarrow> Inr (None, s)
      | Some sock \<Rightarrow>
          bindR (if port = 0 then bindR (bind_loop binds) (\<lambda>_. Inr True)
                 else Inr (case binds of [] \<Rightarrow> False | ok # _ \<Rightarrow> ok)) (\<lambda>bound.
          if \<not> bound then Inr (None, s)
          else
            let i = next_addr s;
                s = s\<lparr>int_at := (int_at s)(i := sock), next_addr := i + 1\<rparr>
            in Inr (Some (IntPtr i), event_fd s sock RECVHANDLER (IntPtr i))))"

text \<open>Reading the descriptor a handle points to, which is the first field of a connection, too.\<close>

fun ptr_fd :: "rudp \<Rightarrow> rudp_ptr \<Rightarrow> nat res" where
  "ptr_fd s (IntPtr a) = Inr (int_at s a)"
| "ptr_fd s (NodePtr a) = Inr (sn_fd (node_at s a))"
| "ptr_fd s (CopyPtr a) = Inr (cp_fd (copy_at s a))"
| "ptr_fd s (FunPtr f) = Inl OutOfBounds"

definition rudp_recvfrom_handler :: "rudp \<Rightarrow> rudp_ptr \<Rightarrow> nat \<Rightarrow> rudp res" where
  "rudp_recvfrom_handler s rsocket handler =
     (let s = event_fd_delete s RECVHANDLER rsocket
      in bindR (ptr_fd s rsocket) (\<lambda>sock. Inr (event_fd s sock RECVHANDLER (FunPtr handler))))"

definition rudp_event_handler :: "rudp \<Rightarrow> rudp_ptr \<Rightarrow> nat \<Rightarrow> rudp res" where
  "rudp_event_handler s rsocket handler = bindR (ptr_fd s rsocket) (\<lambda>fd. Inr (addhandler s fd handler))"

section \<open>Closing\<close>

definition deref :: "'a option \<Rightarrow> 'a res" where
  "deref p = (case p of None \<Rightarrow> Inl OutOfBounds | Some x \<Rightarrow> Inr x)"

definition send_fin :: "timeval \<Rightarrow> rudp \<Rightarrow> nat \<Rightarrow> sockaddr \<Rightarrow> rudp res" where
  "send_fin now s fd to =
     (let seqno = getSeq s fd to + 1
      in bindR (deref (getS s fd to)) (\<lambda>a.
         let s = setRetransmit s fd to 0;
             s = setState s fd to CLOSE_WAIT;
             s = sendtowithdropsendto s fd (rudp_hdr RUDP_FIN seqno) to;
             s = setSeq s fd to seqno
         in Inr (event_timeout s (timeout_at now) RETRANSMITFIN (NodePtr a))))"

fun close_loop :: "timeval \<Rightarrow> nat \<Rightarrow> nat list \<Rightarrow> rudp \<Rightarrow> rudp res" where
  "close_loop now fd [] s = Inr s"
| "close_loop now fd (a # as) s =
     (let to = sn_to (node_at s a)
      in if getState s fd to \<noteq> Some CLOSED
         then bindR (send_fin now s fd to) (close_loop now fd as)
         else close_loop now fd as s)"

definition rudp_close :: "timeval \<Rightarrow> rudp \<Rightarrow> rudp_ptr \<Rightarrow> rudp res" where
  "rudp_close now s rsocket =
     bindR (ptr_fd s rsocket) (\<lambda>fd.
     if sizebufferTo s fd = 0 then close_loop now fd (iter_nodes s fd) s
     else Inr (fold (\<lambda>a s. setClose s fd (sn_to (node_at s a)) 1) (iter_nodes s fd) s))"

section \<open>Sending\<close>

type_synonym rudp_client = "rudp_call \<Rightarrow> rudp \<Rightarrow> rudp"

definition call_client :: "rudp_client \<Rightarrow> rudp_call \<Rightarrow> rudp \<Rightarrow> rudp" where
  "call_client code c s = code c (s\<lparr>calls := calls s @ [c]\<rparr>)"

text \<open>Sending the packet at a position of the queue, with a timer of its own.\<close>

definition send_data :: "timeval \<Rightarrow> rudp \<Rightarrow> nat \<Rightarrow> sockaddr \<Rightarrow> int \<Rightarrow> rudp res" where
  "send_data now s fd to position =
     (let c = next_addr s;
          s = s\<lparr>copy_at := (copy_at s)(c := \<lparr>cp_fd = fd, cp_to = to, cp_buff = getData s fd to position\<rparr>), next_addr := c + 1\<rparr>;
          s = event_timeout s (timeout_at now) RETRANSMITDATA (CopyPtr c)
      in bindR (deref (getData s fd to position)) (\<lambda>b.
         bindR (deref (bd_data (buf_at s b))) (\<lambda>d.
         bindR (load d 0 (hdr_size + bd_len (buf_at s b))) (\<lambda>bs.
         Inr (sendtowithdropsendto s fd bs to)))))"

text \<open>The loop that fills the window. When the SYN is acknowledged the code starts the timer after sending and
  counts the packet before it, with the same result.\<close>

fun send_window :: "timeval \<Rightarrow> nat \<Rightarrow> sockaddr \<Rightarrow> nat list \<Rightarrow> rudp \<Rightarrow> rudp res" where
  "send_window now fd to [] s = Inr s"
| "send_window now fd to (w # ws) s =
     (if sizebuffer s fd to > w
      then bindR (setSeqData s fd to (int w) (getSeq s fd to + of_nat w)) (\<lambda>s.
           bindR (send_data now s fd to (int w)) (\<lambda>s.
           send_window now fd to ws (setNextpacket s fd to (getNextpacket s fd to + 1))))
      else send_window now fd to ws s)"

text \<open>\<open>rnd\<close> is the result of \<^verbatim>\<open>rand()\<close>, \<open>junk\<close> what the new queue node holds in the field that is not set.
  The copy for the timer keeps the pointer \<^verbatim>\<open>to\<close> of the caller, not the address: it is the address itself here, so the
  model is of callers that leave it in place and unchanged until the packet is acknowledged. In the receive
  handler \<^verbatim>\<open>to\<close> is allocated for the datagram and never freed.\<close>

definition rudp_sendto ::
  "timeval \<Rightarrow> nat \<Rightarrow> int \<Rightarrow> rudp \<Rightarrow> rudp_ptr \<Rightarrow> bytes \<Rightarrow> int \<Rightarrow> sockaddr \<Rightarrow> (int \<times> rudp) res" where
  "rudp_sendto now rnd junk s rsocket data len to =
     (if len > int RUDP_MAXPKTSIZE then Inr (-1, s)
      else bindR (ptr_fd s rsocket) (\<lambda>fd.
        let s = (if getSeq s fd to = -1 then addsock s fd to rsocket else s)
        in if getState s fd to = Some CLOSED then Inr (0, s)
           else
             let state = getState s fd to
             in bindR (deref (getS s fd to)) (\<lambda>a.
                let s = setRetransmit s fd to 0;
                    seqno = of_nat (rnd mod 65535);
                    oldsizebuffer = sizebuffer s fd to;
                    s = (if state = Some LISTEN
                         then let s = sendtowithdropsendto s fd (rudp_hdr RUDP_SYN seqno) to;
                                  s = setState s fd to SYN_SENT;
                                  s = setSeq s fd to seqno
                              in event_timeout s (timeout_at now) RETRANSMITSYN (NodePtr a)
                         else s)
                in bindR (addData s (getS s fd to) data len junk) (\<lambda>s.
                   bindR (if state = Some ESTABLISH \<and> sizebuffer s fd to < RUDP_WINDOW
                          then send_window now fd to [oldsizebuffer..<RUDP_WINDOW] s else Inr s) (\<lambda>s.
                   Inr (0, s))))))"

section \<open>Receiving\<close>

text \<open>The loop over the packets an acknowledgement covers. Every round takes one packet off the
  queue, so that its length is enough fuel.\<close>

fun ack_loop :: "nat \<Rightarrow> timeval \<Rightarrow> nat \<Rightarrow> sockaddr \<Rightarrow> u32 \<Rightarrow> rudp \<Rightarrow> rudp res" where
  "ack_loop fuel now fd to seq s =
     bindR (getSeqData s fd to 0) (\<lambda>first.
     if sint first < sint seq \<and> sint seq \<le> sint (first + of_nat RUDP_WINDOW) \<and> sizebuffer s fd to > 0
     then (case fuel of 0 \<Rightarrow> Inl Diverges
       | Suc fuel \<Rightarrow>
          bindR (if int (sizebuffer s fd to) \<ge> getNextpacket s fd to
                 then setSeqData s fd to (getNextpacket s fd to) (first + of_int (getNextpacket s fd to)) else Inr s) (\<lambda>s.
          bindR (deleteData s fd to) (\<lambda>s.
          let s = setNextpacket s fd to (getNextpacket s fd to - 1)
          in bindR (if int (sizebuffer s fd to) > getNextpacket s fd to
                    then send_data now s fd to (getNextpacket s fd to) else Inr s) (\<lambda>s.
             let s = (if int (sizebuffer s fd to) > getNextpacket s fd to
                      then setNextpacket s fd to (getNextpacket s fd to + 1) else s)
             in if sizebuffer s fd to = 0 then Inr s else ack_loop fuel now fd to seq s))))
     else Inr s)"

definition recv_listen :: "rudp \<Rightarrow> nat \<Rightarrow> sockaddr \<Rightarrow> u16 \<Rightarrow> u32 \<Rightarrow> rudp" where
  "recv_listen s fd to type seq =
     (let ack = rudp_hdr RUDP_ACK (seq + 1)
      in if type = RUDP_SYN
         then setSeq (setState (sendtowithdropsendto s fd ack to) fd to ESTABLISH) fd to (seq + 1)
         else if type = RUDP_FIN then sendtowithdropsendto s fd ack to
         else s)"

definition recv_syn_sent :: "timeval \<Rightarrow> rudp \<Rightarrow> nat \<Rightarrow> sockaddr \<Rightarrow> u16 \<Rightarrow> u32 \<Rightarrow> rudp res" where
  "recv_syn_sent now s fd to type seq =
     (if type = RUDP_ACK \<and> seq = getSeq s fd to + 1
      then bindR (send_window now fd to [0..<RUDP_WINDOW] (setSeq s fd to seq)) (\<lambda>s. Inr (setState s fd to ESTABLISH))
      else if type = RUDP_FIN
      then Inr (sendtowithdropsendto (setState s fd to LISTEN) fd (rudp_hdr RUDP_ACK (seq + 1)) to)
      else Inr s)"

text \<open>The handler \<^verbatim>\<open>arg\<close> is called as a function.\<close>

definition recv_data :: "rudp_client \<Rightarrow> rudp \<Rightarrow> nat \<Rightarrow> rudp_ptr \<Rightarrow> sockaddr \<Rightarrow> u32 \<Rightarrow> bytes \<Rightarrow> rudp res" where
  "recv_data code s fd arg to seq data =
     (if sint seq \<le> sint (getSeq s fd to)
      then bindR (if seq = getSeq s fd to
                  then (case arg of
                      FunPtr f \<Rightarrow> bindR (deref (getS s fd to)) (\<lambda>a. Inr (call_client code (CallRecv f (NodePtr a) to data) s))
                    | _ \<Rightarrow> Inl OutOfBounds)
                  else Inr s) (\<lambda>s.
           let s = sendtowithdropsendto s fd (rudp_hdr RUDP_ACK (seq + 1)) to
           in Inr (if seq = getSeq s fd to then setSeq s fd to (seq + 1) else s))
      else Inr s)"

definition recv_ack :: "timeval \<Rightarrow> rudp \<Rightarrow> nat \<Rightarrow> sockaddr \<Rightarrow> u32 \<Rightarrow> rudp res" where
  "recv_ack now s fd to seq =
     bindR (getSeqData s fd to 0) (\<lambda>first.
     bindR (if first \<noteq> -1
            then bindR (ack_loop (sizebuffer s fd to) now fd to seq s) (\<lambda>s.
                 Inr (if sint seq > sint (getSeq s fd to) then setSeq s fd to seq else s))
            else Inr s) (\<lambda>s.
     if sizebuffer s fd to = 0 \<and> getClose s fd to = 1
     then bindR (deref (getS s fd to)) (\<lambda>a. rudp_close now s (NodePtr a))
     else Inr s))"

definition recv_established ::
  "rudp_client \<Rightarrow> timeval \<Rightarrow> rudp \<Rightarrow> nat \<Rightarrow> rudp_ptr \<Rightarrow> sockaddr \<Rightarrow> u16 \<Rightarrow> u32 \<Rightarrow> bytes \<Rightarrow> rudp res" where
  "recv_established code now s fd arg to type seq data =
     (let ack = rudp_hdr RUDP_ACK (seq + 1)
      in if type = RUDP_DATA then recv_data code s fd arg to seq data
         else if type = RUDP_ACK then recv_ack now s fd to seq
         else if type = RUDP_FIN then Inr (sendtowithdropsendto (setState s fd to LISTEN) fd ack to)
         else if type = RUDP_SYN then Inr (sendtowithdropsendto s fd ack to)
         else Inr s)"

definition recv_close_wait ::
  "rudp_client \<Rightarrow> rudp \<Rightarrow> nat \<Rightarrow> rudp_ptr \<Rightarrow> nat \<Rightarrow> sockaddr \<Rightarrow> u16 \<Rightarrow> u32 \<Rightarrow> rudp res" where
  "recv_close_wait code s fd arg h to type seq =
     (if type = RUDP_ACK \<and> seq = getSeq s fd to + 1
      then
        let s = setState s fd to CLOSED;
            s = setClose s fd to 1;
            s = setSeq s fd to 0;
            s = (if \<not> notclosed s fd then event_fd_delete s RECVHANDLER arg else s)
        in bindR (deref (getS s fd to)) (\<lambda>a.
           let s = call_client code (CallEvent h (sn_i (node_at s a)) RUDP_EVENT_CLOSED None) s
           in Inr (if \<not> notclosed s fd then s\<lparr>closed := closed s @ [fd]\<rparr> else s))
      else Inr s)"

text \<open>The number of bytes behind the header, \<^verbatim>\<open>datalen - sizeof(struct rudp_hdr)\<close>: the \<^verbatim>\<open>int\<close> is converted to a
  \<^verbatim>\<open>size_t\<close> of 64 bits, and the difference wraps around. The copy of that many bytes reads them from the
  receive buffer. Its target is as long as the count, or a null pointer when there is no such memory.\<close>

definition payload_size :: "int \<Rightarrow> u64" where
  "payload_size datalen = word_of_int datalen - of_nat hdr_size"

definition recv_payload :: "bytes \<Rightarrow> int \<Rightarrow> bytes res" where
  "recv_payload buf datalen = load buf hdr_size (unat (payload_size datalen))"

text \<open>\<open>buf0\<close> is what the receive buffer, of \<open>RUDP_MAXPKTSIZE + hdr_size\<close> bytes, holds before the datagram
  \<open>dgram\<close> of \<open>to\<close> is read into it; what does not fit is lost. When \<^verbatim>\<open>recvfrom\<close> fails the code returns -1 as for an
  empty datagram.\<close>

definition recvhandler ::
  "rudp_client \<Rightarrow> timeval \<Rightarrow> bytes \<Rightarrow> rudp \<Rightarrow> nat \<Rightarrow> rudp_ptr \<Rightarrow> sockaddr \<Rightarrow> bytes \<Rightarrow> (int \<times> rudp) res" where
  "recvhandler code now buf0 s fd arg to dgram =
     (let datalen = min (length dgram) (RUDP_MAXPKTSIZE + hdr_size);
          buf = take datalen dgram @ drop datalen buf0
      in if datalen = 0 then Inr (-1, s)
         else if un16 (take 2 buf) \<noteq> 1 then Inr (0, s)
         else
           let s = (if getSeq s fd to = -1 then addsock s fd to arg else s)
           in bindR (recv_payload buf (int datalen)) (\<lambda>data.
              let type = un16 (take 2 (drop 2 buf));
                  state = getState s fd to;
                  seq = un32 (take 4 (drop 4 buf))
              in bindR (deref (find_hand s fd)) (\<lambda>h.
                 bindR (case state of
                     Some LISTEN \<Rightarrow> Inr (recv_listen s fd to type seq)
                   | Some SYN_SENT \<Rightarrow> recv_syn_sent now s fd to type seq
                   | Some ESTABLISH \<Rightarrow> recv_established code now s fd arg to type seq data
                   | Some CLOSE_WAIT \<Rightarrow> recv_close_wait code s fd arg h to type seq
                   | Some CLOSED \<Rightarrow>
                       Inr (if type = RUDP_FIN then sendtowithdropsendto s fd (rudp_hdr RUDP_ACK (seq + 1)) to else s)
                   | None \<Rightarrow> Inr s) (\<lambda>s.
                 Inr (0, s)))))"

section \<open>Timers\<close>

fun delete_all :: "nat \<Rightarrow> nat \<Rightarrow> sockaddr \<Rightarrow> rudp \<Rightarrow> rudp res" where
  "delete_all fuel fd to s =
     (if sizebuffer s fd to > 0
      then (case fuel of 0 \<Rightarrow> Inl Diverges | Suc fuel \<Rightarrow> bindR (deleteData s fd to) (delete_all fuel fd to))
      else Inr s)"

text \<open>Giving up a connection.\<close>

definition retransmit ::
  "rudp_client \<Rightarrow> timeval \<Rightarrow> rudp \<Rightarrow> rudp_ptr \<Rightarrow> nat \<Rightarrow> nat option \<Rightarrow> sockaddr \<Rightarrow> rudp_fn \<Rightarrow> rudp res" where
  "retransmit code now s arg fd h to retransmithandler =
     (let s = setState s fd to CLOSED;
          s = setClose s fd to 1
      in bindR (delete_all (sizebuffer s fd to) fd to s) (\<lambda>s.
         let s = event_timeout_delete s retransmithandler arg
         in bindR (if \<not> notclosed s fd
                   then bindR (deref (getS s fd to)) (\<lambda>a. Inr (event_fd_delete s RECVHANDLER (sn_i (node_at s a)))) else Inr s) (\<lambda>s.
            bindR (case h of None \<Rightarrow> Inr s
                   | Some h \<Rightarrow> bindR (deref (getS s fd to)) (\<lambda>a.
                       Inr (call_client code (CallEvent h (sn_i (node_at s a)) RUDP_EVENT_TIMEOUT (Some to)) s))) (\<lambda>s.
            if \<not> notclosed s fd then Inr (s\<lparr>closed := closed s @ [fd]\<rparr>)
            else bindR (deref (getS s fd to)) (\<lambda>a. rudp_close now s (sn_i (node_at s a)))))))"

definition retransmitsyn :: "rudp_client \<Rightarrow> timeval \<Rightarrow> rudp \<Rightarrow> nat \<Rightarrow> rudp res" where
  "retransmitsyn code now s a =
     (let s = event_timeout_delete s RETRANSMITSYN (NodePtr a);
          fd = sn_fd (node_at s a);
          to = sn_to (node_at s a);
          seqno = getSeq s fd to;
          h = find_hand s fd;
          s = (if sn_retransmit (node_at s a) \<le> RUDP_MAXRETRANS \<and> sn_state (node_at s a) = SYN_SENT
               then let s = setSeq s fd to seqno;
                        s = incRetransmit s fd to;
                        s = sendtowithdropsendto s fd (rudp_hdr RUDP_SYN seqno) to
                    in event_timeout s (timeout_at now) RETRANSMITSYN (NodePtr a)
               else s)
      in if sn_retransmit (node_at s a) > RUDP_MAXRETRANS
         then retransmit code now s (NodePtr a) fd h to RETRANSMITSYN
         else Inr s)"

definition retransmitdata :: "rudp_client \<Rightarrow> timeval \<Rightarrow> rudp \<Rightarrow> nat \<Rightarrow> rudp res" where
  "retransmitdata code now s c =
     (let s = event_timeout_delete s RETRANSMITDATA (CopyPtr c);
          fd = cp_fd (copy_at s c);
          to = cp_to (copy_at s c)
      in bindR (deref (cp_buff (copy_at s c))) (\<lambda>b.
         case bd_data (buf_at s b) of None \<Rightarrow> Inr s
         | Some d \<Rightarrow>
             bindR (deref (find_hand s fd)) (\<lambda>h.
             if bd_retransmit (buf_at s b) < RUDP_MAXRETRANS
             then
               let s = s\<lparr>buf_at := (buf_at s)(b := (buf_at s b)\<lparr>bd_retransmit := bd_retransmit (buf_at s b) + 1\<rparr>)\<rparr>
               in bindR (load d 0 (hdr_size + bd_len (buf_at s b))) (\<lambda>bs.
                  Inr (event_timeout (sendtowithdropsendto s fd bs to) (timeout_at now) RETRANSMITDATA (CopyPtr c)))
             else retransmit code now s (CopyPtr c) fd (Some h) to RETRANSMITDATA)))"

definition retransmitfin :: "rudp_client \<Rightarrow> timeval \<Rightarrow> rudp \<Rightarrow> nat \<Rightarrow> rudp res" where
  "retransmitfin code now s a =
     (let s = event_timeout_delete s RETRANSMITFIN (NodePtr a);
          fd = sn_fd (node_at s a);
          to = sn_to (node_at s a);
          seqno = getSeq s fd to;
          h = find_hand s fd;
          s = (if getRetransmit s fd to < RUDP_MAXRETRANS \<and> getState s fd to = Some CLOSE_WAIT
               then let s = incRetransmit s fd to;
                        s = sendtowithdropsendto s fd (rudp_hdr RUDP_FIN seqno) to
                    in event_timeout s (timeout_at now) RETRANSMITFIN (NodePtr a)
               else s)
      in if getRetransmit s fd to = RUDP_MAXRETRANS
         then retransmit code now s (NodePtr a) fd h to RETRANSMITFIN
         else Inr s)"

text \<open>One round of \<^verbatim>\<open>eventloop\<close> in which \<^verbatim>\<open>select\<close> reports a timeout: the first timer is taken off the
  list and its function is called.\<close>

definition event_dispatch_timer :: "rudp_client \<Rightarrow> timeval \<Rightarrow> rudp \<Rightarrow> rudp res" where
  "event_dispatch_timer code now s =
     (case ee_timers s of [] \<Rightarrow> Inl OutOfBounds
      | e # es \<Rightarrow>
          let s = s\<lparr>ee_timers := es\<rparr>
          in (case (e_fn e, e_arg e) of
                (RETRANSMITSYN, NodePtr a) \<Rightarrow> retransmitsyn code now s a
              | (RETRANSMITDATA, CopyPtr c) \<Rightarrow> retransmitdata code now s c
              | (RETRANSMITFIN, NodePtr a) \<Rightarrow> retransmitfin code now s a
              | _ \<Rightarrow> Inl OutOfBounds))"

end
