(* ===== verification/RudpSender.thy ===== *)
theory RudpSender
  imports Rudp
begin

text \<open>
  The sending side of a connection of the reliable datagram protocol: what holds of its queue, its
  timers and the packets it has sent, and how acknowledgements move the window.
\<close>

section \<open>Packets\<close>

lemma un16_le16 [simp]: "un16 (le16 u) = u"
  by (simp add: le16_def bit_blast_simps)

lemma un32_le32 [simp]: "un32 (le32 u) = u"
  by (simp add: le32_def bit_blast_simps)

lemma le_lengths [simp]: "length (le16 u) = 2" "length (le32 q) = 4" "length (rudp_hdr ty q) = 8"
  by (simp_all add: le16_def le32_def rudp_hdr_def)

lemma hdr_parts [simp]:
  "take 2 (rudp_hdr ty q) = le16 RUDP_VERSION" "take 2 (drop 2 (rudp_hdr ty q)) = le16 ty" "drop 4 (rudp_hdr ty q) = le32 q"
  by (simp_all add: rudp_hdr_def le16_def le32_def)

lemma hdr_set_seq: "store (rudp_hdr ty q @ d) 4 (le32 q') = Inr (rudp_hdr ty q' @ d)"
  by (simp add: store_def rudp_hdr_def le16_def le32_def)

lemma hdr_get_seq: "load (rudp_hdr ty q @ d) 4 4 = Inr (le32 q)"
  by (simp add: load_def rudp_hdr_def le16_def le32_def)

lemma pkt_types [simp]:
  "RUDP_SYN \<noteq> RUDP_DATA" "RUDP_FIN \<noteq> RUDP_DATA" "RUDP_SYN \<noteq> RUDP_ACK" "RUDP_FIN \<noteq> RUDP_ACK" "RUDP_SYN \<noteq> RUDP_FIN" "RUDP_ACK \<noteq> RUDP_DATA"
  by simp_all

section \<open>A process with one connection\<close>

definition conn :: "rudp \<Rightarrow> nat \<Rightarrow> nat \<Rightarrow> sockaddr \<Rightarrow> bool" where
  "conn s a fd to \<longleftrightarrow> sockets s = [a] \<and> sn_fd (node_at s a) = fd \<and> sn_to (node_at s a) = to"

definition set_node :: "nat \<Rightarrow> (socketnode \<Rightarrow> socketnode) \<Rightarrow> rudp \<Rightarrow> rudp" where
  "set_node a f s = s\<lparr>node_at := (node_at s)(a := f (node_at s a))\<rparr>"

lemma conn_getS [simp]: "conn s a fd to \<Longrightarrow> getS s fd to = Some a"
  by (simp add: conn_def getS_def)

lemma conn_updates:
  assumes "conn s a fd to"
  shows "setSeq s fd to q = set_node a (\<lambda>n. n\<lparr>sn_seq := q\<rparr>) s"
    and "setClose s fd to c = set_node a (\<lambda>n. n\<lparr>sn_close_ask := c\<rparr>) s"
    and "setState s fd to st = set_node a (\<lambda>n. n\<lparr>sn_state := st\<rparr>) s"
    and "incRetransmit s fd to = set_node a (\<lambda>n. n\<lparr>sn_retransmit := sn_retransmit n + 1\<rparr>) s"
    and "setRetransmit s fd to k = set_node a (\<lambda>n. n\<lparr>sn_retransmit := k\<rparr>) s"
    and "setNextpacket s fd to k = set_node a (\<lambda>n. n\<lparr>sn_nextpacket := k\<rparr>) s"
  using assms by (simp_all add: setSeq_def setClose_def setState_def incRetransmit_def setRetransmit_def setNextpacket_def
      upd_sock_def set_node_def)

lemma conn_reads:
  assumes "conn s a fd to"
  shows "getState s fd to = Some (sn_state (node_at s a))" and "getClose s fd to = sn_close_ask (node_at s a)"
    and "getSeq s fd to = sn_seq (node_at s a)" and "getRetransmit s fd to = sn_retransmit (node_at s a)"
    and "getNextpacket s fd to = sn_nextpacket (node_at s a)" and "sizebuffer s fd to = length (sn_buff (node_at s a))"
    and "notclosed s fd \<longleftrightarrow> sn_state (node_at s a) \<noteq> CLOSED"
  using assms by (simp_all add: getState_def getClose_def getSeq_def getRetransmit_def getNextpacket_def sizebuffer_def)
    (simp add: notclosed_def conn_def)

lemma conn_cong:
  "sockets s' = sockets s \<Longrightarrow> sn_fd (node_at s' a) = sn_fd (node_at s a) \<Longrightarrow> sn_to (node_at s' a) = sn_to (node_at s a) \<Longrightarrow>
     conn s' a fd to = conn s a fd to"
  by (auto simp: conn_def)

lemma set_node_fields [simp]:
  "node_at (set_node a f s) = (node_at s)(a := f (node_at s a))" "sockets (set_node a f s) = sockets s"
  "buf_at (set_node a f s) = buf_at s" "copy_at (set_node a f s) = copy_at s" "int_at (set_node a f s) = int_at s"
  "next_addr (set_node a f s) = next_addr s" "handlers (set_node a f s) = handlers s" "ee (set_node a f s) = ee s"
  "ee_timers (set_node a f s) = ee_timers s" "sent (set_node a f s) = sent s" "calls (set_node a f s) = calls s"
  "closed (set_node a f s) = closed s"
  by (simp_all add: set_node_def)

lemma set_node_conn [simp]:
  "(\<And>n. sn_fd (f n) = sn_fd n) \<Longrightarrow> (\<And>n. sn_to (f n) = sn_to n) \<Longrightarrow> conn (set_node a f s) a fd to = conn s a fd to"
  by (rule conn_cong) simp_all

lemma find_hand_cong: "handlers s' = handlers s \<Longrightarrow> find_hand s' fd = find_hand s fd"
  by (simp add: find_hand_def)

lemma set_insert_event [simp]: "set (insert_event e es) = insert e (set es)"
  by (induction es) auto

lemma set_event_delete: "set (snd (event_delete es fn arg)) \<subseteq> set es"
  by (induction es) (auto split: prod.split)

section \<open>The sender\<close>

text \<open>The two ends: descriptors and addresses of the sending and of the receiving process, and the
  function that is the receiver's handler.\<close>

record rudp_link =
  lk_fda :: nat
  lk_fdb :: nat
  lk_a :: sockaddr
  lk_b :: sockaddr
  lk_f :: nat

definition data_pkt :: "nat \<Rightarrow> bytes list \<Rightarrow> nat \<Rightarrow> bytes" where
  "data_pkt r D j = rudp_hdr RUDP_DATA (of_nat (r + 1 + j)) @ D ! j"

text \<open>The queue \<open>bs\<close> holds the data from position \<open>k\<close> on, the first \<open>n\<close> with their sequence numbers.\<close>

definition queue_ok :: "bytes list \<Rightarrow> nat \<Rightarrow> nat \<Rightarrow> nat \<Rightarrow> nat list \<Rightarrow> (nat \<Rightarrow> buffer_data_list) \<Rightarrow> bool" where
  "queue_ok D r k n bs buf \<longleftrightarrow> k + length bs = length D \<and> distinct bs \<and>
     (\<forall>i < length bs. bd_len (buf (bs ! i)) = length (D ! (k + i)) \<and>
        bd_data (buf (bs ! i)) = Some (if i < n then data_pkt r D (k + i) else rudp_hdr RUDP_DATA (-1) @ D ! (k + i)))"

text \<open>A timer repeats the SYN, or a packet that was sent unless it was acknowledged.\<close>

definition timer_ok :: "rudp_link \<Rightarrow> nat \<Rightarrow> nat list \<Rightarrow> rudp \<Rightarrow> event_data \<Rightarrow> bool" where
  "timer_ok L a bs s e \<longleftrightarrow> e_fn e = RETRANSMITSYN \<and> e_arg e = NodePtr a \<or>
     e_fn e = RETRANSMITDATA \<and> (\<exists>c b. e_arg e = CopyPtr c \<and> c < next_addr s \<and>
       copy_at s c = \<lparr>cp_fd = lk_fda L, cp_to = lk_b L, cp_buff = Some b\<rparr> \<and> b < next_addr s \<and>
       (bd_data (buf_at s b) = None \<or> b \<in> set bs))"

definition sent_ok :: "rudp_link \<Rightarrow> bytes list \<Rightarrow> nat \<Rightarrow> nat \<Rightarrow> nat \<times> sockaddr \<times> bytes \<Rightarrow> bool" where
  "sent_ok L D r m x \<longleftrightarrow> (\<exists>p. x = (lk_fda L, lk_b L, p) \<and>
     (p = rudp_hdr RUDP_SYN (of_nat r) \<or> (\<exists>j < m. p = data_pkt r D j)))"

text \<open>The receive handler of a descriptor is registered with the event loop.\<close>

definition listening :: "nat \<Rightarrow> rudp \<Rightarrow> bool" where
  "listening fd s \<longleftrightarrow> (\<exists>e \<in> set (ee s). e_fn e = RECVHANDLER \<and> e_fd e = fd)"

text \<open>What holds of the sender once it has a connection: \<open>k\<close> packets are acknowledged, \<open>n\<close> more are under
  way.\<close>

definition sender :: "rudp_link \<Rightarrow> bytes list \<Rightarrow> nat \<Rightarrow> nat \<Rightarrow> nat \<Rightarrow> nat \<Rightarrow> rudp \<Rightarrow> bool" where
  "sender L D r k n a s \<longleftrightarrow>
     conn s a (lk_fda L) (lk_b L) \<and> a < next_addr s \<and> int_at s 0 = lk_fda L \<and> find_hand s (lk_fda L) \<noteq> None \<and>
     sn_close_ask (node_at s a) = 0 \<and>
     queue_ok D r k n (sn_buff (node_at s a)) (buf_at s) \<and> n \<le> length (sn_buff (node_at s a)) \<and>
     (\<forall>b \<in> set (sn_buff (node_at s a)). b < next_addr s) \<and>
     (\<forall>e \<in> set (ee_timers s). timer_ok L a (take n (sn_buff (node_at s a))) s e) \<and>
     (\<forall>x \<in> set (sent s). sent_ok L D r (k + n) x) \<and> listening (lk_fda L) s"

definition sender_closed :: "rudp_link \<Rightarrow> bytes list \<Rightarrow> nat \<Rightarrow> nat \<Rightarrow> rudp \<Rightarrow> bool" where
  "sender_closed L D r a s \<longleftrightarrow>
     conn s a (lk_fda L) (lk_b L) \<and> int_at s 0 = lk_fda L \<and> find_hand s (lk_fda L) \<noteq> None \<and>
     sn_state (node_at s a) = CLOSED \<and> sn_buff (node_at s a) = [] \<and> sn_seq (node_at s a) \<noteq> -1 \<and>
     (\<forall>e \<in> set (ee_timers s). timer_ok L a [] s e) \<and>
     (\<forall>x \<in> set (sent s). sent_ok L D r (length D) x)"

lemma listening_cong: "ee s' = ee s \<Longrightarrow> listening fd s' = listening fd s"
  by (simp add: listening_def)

lemma senderD:
  assumes "sender L D r k n a s"
  shows "conn s a (lk_fda L) (lk_b L)" and "a < next_addr s" and "int_at s 0 = lk_fda L" and "find_hand s (lk_fda L) \<noteq> None"
    and "sn_close_ask (node_at s a) = 0"
    and "queue_ok D r k n (sn_buff (node_at s a)) (buf_at s)" and "n \<le> length (sn_buff (node_at s a))"
    and "\<forall>b \<in> set (sn_buff (node_at s a)). b < next_addr s"
    and "\<forall>e \<in> set (ee_timers s). timer_ok L a (take n (sn_buff (node_at s a))) s e"
    and "\<forall>x \<in> set (sent s). sent_ok L D r (k + n) x" and "listening (lk_fda L) s"
  using assms by (simp_all add: sender_def)

text \<open>Fields that do not matter.\<close>

lemma sender_cong:
  assumes "sender L D r k n a s" and "sockets s' = sockets s"
    and "sn_fd (node_at s' a) = sn_fd (node_at s a)" "sn_to (node_at s' a) = sn_to (node_at s a)"
    and "sn_close_ask (node_at s' a) = sn_close_ask (node_at s a)"
    and "sn_buff (node_at s' a) = sn_buff (node_at s a)" and "next_addr s' = next_addr s" and "int_at s' = int_at s"
    and "handlers s' = handlers s" and "buf_at s' = buf_at s" and "copy_at s' = copy_at s" and ee: "ee s' = ee s"
    and t: "\<And>e. e \<in> set (ee_timers s') \<Longrightarrow> e \<in> set (ee_timers s) \<or> e_fn e = RETRANSMITSYN \<and> e_arg e = NodePtr a"
    and x: "\<And>x. x \<in> set (sent s') \<Longrightarrow> x \<in> set (sent s) \<or> sent_ok L D r (k + n) x"
  shows "sender L D r k n a s'"
proof -
  have "conn s' a (lk_fda L) (lk_b L)" using senderD(1) [OF assms(1)] conn_cong [OF assms(2-4)] by simp
  moreover have "timer_ok L a (take n (sn_buff (node_at s a))) s' e" if "e \<in> set (ee_timers s')" for e
    using t [OF that] senderD(9) [OF assms(1)] assms(7,10,11) by (auto simp: timer_ok_def)
  moreover have "\<forall>x \<in> set (sent s'). sent_ok L D r (k + n) x" using x senderD(10) [OF assms(1)] by blast
  ultimately show ?thesis using assms(1,5-11) find_hand_cong [OF assms(9)] listening_cong [OF ee] unfolding sender_def by simp
qed

lemma timer_ok_trans:
  assumes "timer_ok L a bs s e" and "next_addr s \<le> next_addr s'" and "\<And>c. c < next_addr s \<Longrightarrow> copy_at s' c = copy_at s c"
    and "\<And>b. b < next_addr s \<Longrightarrow> bd_data (buf_at s b) = None \<or> b \<in> set bs \<Longrightarrow> bd_data (buf_at s' b) = None \<or> b \<in> set bs'"
  shows "timer_ok L a bs' s' e"
proof -
  consider "e_fn e = RETRANSMITSYN" "e_arg e = NodePtr a"
    | c b where "e_fn e = RETRANSMITDATA" "e_arg e = CopyPtr c" "c < next_addr s"
      "copy_at s c = \<lparr>cp_fd = lk_fda L, cp_to = lk_b L, cp_buff = Some b\<rparr>" "b < next_addr s"
      "bd_data (buf_at s b) = None \<or> b \<in> set bs" using assms(1) unfolding timer_ok_def by blast
  then show ?thesis
  proof cases
    case (2 c b)
    then have "c < next_addr s'" "b < next_addr s'" "copy_at s' c = \<lparr>cp_fd = lk_fda L, cp_to = lk_b L, cp_buff = Some b\<rparr>"
      using assms(2,3) by auto
    then show ?thesis using 2(1,2) assms(4) [OF 2(5,6)] unfolding timer_ok_def by blast
  qed (simp add: timer_ok_def)
qed

lemma sent_ok_mono:
  assumes "sent_ok L D r m x" and "m \<le> m'"
  shows "sent_ok L D r m' x"
proof -
  from assms(1) consider "x = (lk_fda L, lk_b L, rudp_hdr RUDP_SYN (of_nat r))"
    | j where "j < m" "x = (lk_fda L, lk_b L, data_pkt r D j)" unfolding sent_ok_def by blast
  then show ?thesis using assms(2) unfolding sent_ok_def by cases (blast intro: order_less_le_trans)+
qed

lemma sent_ok_data: "j < m \<Longrightarrow> sent_ok L D r m (lk_fda L, lk_b L, data_pkt r D j)"
  unfolding sent_ok_def by blast

lemma sent_ok_syn: "sent_ok L D r m (lk_fda L, lk_b L, rudp_hdr RUDP_SYN (of_nat r))"
  unfolding sent_ok_def by blast

lemma conn_getData: "conn s a fd to \<Longrightarrow> i < length (sn_buff (node_at s a)) \<Longrightarrow> getData s fd to (int i) = Some (sn_buff (node_at s a) ! i)"
  "conn s a fd to \<Longrightarrow> length (sn_buff (node_at s a)) \<le> i \<Longrightarrow> getData s fd to (int i) = None"
  by (simp_all add: getData_def)

text \<open>Giving the first packet without one its sequence number.\<close>

lemma mark_ok:
  assumes s: "sender L D r k n a s" and n: "n < length (sn_buff (node_at s a))"
  shows "\<exists>s'. setSeqData s (lk_fda L) (lk_b L) (int n) (of_nat (r + 1 + (k + n))) = Inr s' \<and>
     node_at s' = node_at s \<and> sent s' = sent s \<and> sender L D r k (n + 1) a s'"
proof -
  let ?bs = "sn_buff (node_at s a)" and ?q = "of_nat (r + 1 + (k + n)) :: u32"
  let ?s' = "s\<lparr>buf_at := (buf_at s)(?bs ! n := (buf_at s (?bs ! n))\<lparr>bd_data := Some (data_pkt r D (k + n)), bd_seq := ?q\<rparr>)\<rparr>"
  note q = senderD(6) [OF s]
  have "bd_data (buf_at s (?bs ! n)) = Some (rudp_hdr RUDP_DATA (-1) @ D ! (k + n))" using q n by (simp add: queue_ok_def)
  then have eq: "setSeqData s (lk_fda L) (lk_b L) (int n) ?q = Inr ?s'"
    unfolding setSeqData_def conn_getData(1) [OF senderD(1) [OF s] n] by (simp add: hdr_set_seq data_pkt_def)
  have "?bs ! i \<noteq> ?bs ! n" if "i < length ?bs" "i \<noteq> n" for i
    using q n that nth_eq_iff_index_eq [of ?bs i n] by (simp add: queue_ok_def)
  then have q': "queue_ok D r k (n + 1) ?bs (buf_at ?s')" using q n by (auto simp: queue_ok_def less_Suc_eq)
  have sub: "set (take n ?bs) \<subseteq> set (take (n + 1) ?bs)" by (rule set_take_subset_set_take) simp
  have b: "?bs ! n \<in> set (take (n + 1) ?bs)" using n by (auto simp: take_Suc_conv_app_nth)
  have "timer_ok L a (take (n + 1) ?bs) ?s' e" if "e \<in> set (ee_timers s)" for e
    by (rule timer_ok_trans [OF senderD(9) [OF s, rule_format, OF that]]) (use sub b in auto)
  then have t: "\<forall>e \<in> set (ee_timers s). timer_ok L a (take (n + 1) ?bs) ?s' e" by blast
  have x: "\<forall>x \<in> set (sent s). sent_ok L D r (k + (n + 1)) x"
    using senderD(10) [OF s] sent_ok_mono [of L D r "k + n" _ "k + (n + 1)"] by simp
  have c: "conn ?s' a (lk_fda L) (lk_b L)" using senderD(1) [OF s] by (simp add: conn_def)
  have "sender L D r k (n + 1) a ?s'"
    using senderD [OF s] listening_cong [of ?s' s] q' t x c n find_hand_cong [of ?s' s] unfolding sender_def by simp
  then show ?thesis using eq by auto
qed

text \<open>Taking an acknowledged packet off the queue.\<close>

lemma delete_ok:
  assumes s: "sender L D r k (Suc n) a s"
  shows "\<exists>s'. deleteData s (lk_fda L) (lk_b L) = Inr s' \<and>
     node_at s' a = (node_at s a)\<lparr>sn_buff := tl (sn_buff (node_at s a))\<rparr> \<and> sent s' = sent s \<and> sender L D r (Suc k) n a s'"
proof -
  obtain b bs where bs: "sn_buff (node_at s a) = b # bs" using senderD(7) [OF s] by (cases "sn_buff (node_at s a)") auto
  let ?s' = "s\<lparr>buf_at := (buf_at s)(b := (buf_at s b)\<lparr>bd_data := None\<rparr>), node_at := (node_at s)(a := (node_at s a)\<lparr>sn_buff := bs\<rparr>)\<rparr>"
  have eq: "deleteData s (lk_fda L) (lk_b L) = Inr ?s'" using senderD(1) [OF s] bs by (simp add: deleteData_def)
  note q = senderD(6) [OF s, unfolded bs]
  have "queue_ok D r (Suc k) n bs (buf_at ?s')"
    unfolding queue_ok_def
  proof (intro conjI allI impI)
    show "Suc k + length bs = length D" "distinct bs" using q by (simp_all add: queue_ok_def)
    fix i
    assume i: "i < length bs"
    then have "bs ! i \<noteq> b" using q by (auto simp: queue_ok_def)
    moreover have "bd_len (buf_at s ((b # bs) ! Suc i)) = length (D ! (k + Suc i)) \<and> bd_data (buf_at s ((b # bs) ! Suc i)) =
        Some (if Suc i < Suc n then data_pkt r D (k + Suc i) else rudp_hdr RUDP_DATA (-1) @ D ! (k + Suc i))"
      using q i unfolding queue_ok_def by (metis Suc_less_eq length_Cons)
    ultimately show "bd_len (buf_at ?s' (bs ! i)) = length (D ! (Suc k + i))"
      "bd_data (buf_at ?s' (bs ! i)) = Some (if i < n then data_pkt r D (Suc k + i) else rudp_hdr RUDP_DATA (-1) @ D ! (Suc k + i))"
      by simp_all
  qed
  moreover have "timer_ok L a (take n bs) ?s' e" if "e \<in> set (ee_timers s)" for e
    by (rule timer_ok_trans [OF senderD(9) [OF s, rule_format, OF that]]) (auto simp: bs)
  moreover have "conn ?s' a (lk_fda L) (lk_b L)" using senderD(1) [OF s] by (simp add: conn_def)
  ultimately have "sender L D r (Suc k) n a ?s'"
    using senderD [OF s] listening_cong [of ?s' s] bs find_hand_cong [of ?s' s] unfolding sender_def by simp
  then show ?thesis using eq bs by auto
qed

lemma getData_frame: "getData (s\<lparr>copy_at := x, next_addr := y, ee_timers := z\<rparr>) fd to i = getData s fd to i"
  by (simp add: getData_def getS_def split: option.split)

text \<open>Sending a packet that has its sequence number.\<close>

lemma send_data_ok:
  assumes s: "sender L D r k n a s" and i: "i < n"
  shows "\<exists>s'. send_data now s (lk_fda L) (lk_b L) (int i) = Inr s' \<and>
     node_at s' = node_at s \<and> sender L D r k n a s' \<and> (lk_fda L, lk_b L, data_pkt r D (k + i)) \<in> set (sent s') \<and>
     set (sent s) \<subseteq> set (sent s')"
proof -
  let ?bs = "sn_buff (node_at s a)" and ?c = "next_addr s"
  let ?e = "\<lparr>e_fn = RETRANSMITDATA, e_fd = 0, e_time = timeout_at now, e_arg = CopyPtr ?c\<rparr>"
  let ?x = "(lk_fda L, lk_b L, data_pkt r D (k + i))"
  let ?s' = "s\<lparr>copy_at := (copy_at s)(?c := \<lparr>cp_fd = lk_fda L, cp_to = lk_b L, cp_buff = Some (?bs ! i)\<rparr>),
      next_addr := ?c + 1, ee_timers := insert_event ?e (ee_timers s), sent := sent s @ [?x]\<rparr>"
  have l: "i < length ?bs" using i senderD(7) [OF s] by simp
  note g = conn_getData(1) [OF _ l]
  have d: "bd_data (buf_at s (?bs ! i)) = Some (data_pkt r D (k + i))" "bd_len (buf_at s (?bs ! i)) = length (D ! (k + i))"
    using senderD(6) [OF s] l i by (simp_all add: queue_ok_def)
  have c: "conn s' a (lk_fda L) (lk_b L)" if "sockets s' = sockets s" "node_at s' = node_at s" for s'
    using senderD(1) [OF s] that by (simp add: conn_def)
  have eq: "send_data now s (lk_fda L) (lk_b L) (int i) = Inr ?s'"
    using g [OF senderD(1) [OF s]] d(2) by (simp add: send_data_def Let_def event_timeout_def deref_def
        sendtowithdropsendto_def load_def getData_frame d(1)) (simp add: data_pkt_def)
  have "take n ?bs ! i \<in> set (take n ?bs)" using l i by (intro nth_mem) simp
  then have b: "?bs ! i < next_addr s" "?bs ! i \<in> set (take n ?bs)" using senderD(8) [OF s] l i by simp_all
  have "timer_ok L a (take n ?bs) ?s' ?e" using b by (simp add: timer_ok_def)
  moreover have "timer_ok L a (take n ?bs) ?s' e" if "e \<in> set (ee_timers s)" for e
    by (rule timer_ok_trans [OF senderD(9) [OF s, rule_format, OF that]]) auto
  moreover have "\<forall>x \<in> set (sent ?s'). sent_ok L D r (k + n) x"
    using senderD(10) [OF s] sent_ok_data [of "k + i" "k + n"] i by simp
  ultimately have "sender L D r k n a ?s'"
    using senderD [OF s] listening_cong [of ?s' s] c [of ?s'] find_hand_cong [of ?s' s] unfolding sender_def by (simp add: less_SucI)
  then show ?thesis using eq by auto
qed

section \<open>The window\<close>

lemma sender_set_node:
  assumes "sender L D r k n a s" and "\<And>x. sn_fd (f x) = sn_fd x" "\<And>x. sn_to (f x) = sn_to x"
    "\<And>x. sn_close_ask (f x) = sn_close_ask x" "\<And>x. sn_buff (f x) = sn_buff x"
  shows "sender L D r k n a (set_node a f s)"
  by (rule sender_cong [OF assms(1)]) (simp_all add: assms)

text \<open>The packets that are under way were sent.\<close>

definition under_way :: "rudp_link \<Rightarrow> bytes list \<Rightarrow> nat \<Rightarrow> nat \<Rightarrow> nat \<Rightarrow> rudp \<Rightarrow> bool" where
  "under_way L D r k n s \<longleftrightarrow> (\<forall>i < n. (lk_fda L, lk_b L, data_pkt r D (k + i)) \<in> set (sent s))"

lemma under_way_step: "under_way L D r (Suc k) n s \<longleftrightarrow> (\<forall>i. 0 < i \<and> i < Suc n \<longrightarrow> (lk_fda L, lk_b L, data_pkt r D (k + i)) \<in> set (sent s))"
  unfolding under_way_def
proof (intro iffI allI impI)
  fix i
  assume *: "\<forall>i < n. (lk_fda L, lk_b L, data_pkt r D (Suc k + i)) \<in> set (sent s)" and "0 < i \<and> i < Suc n"
  then show "(lk_fda L, lk_b L, data_pkt r D (k + i)) \<in> set (sent s)" using *[rule_format, of "i - 1"] by (cases i) simp_all
qed (metis Suc_less_eq add_Suc add_Suc_right zero_less_Suc)

text \<open>The fields of the connection that sending leaves alone.\<close>

definition same_ctl :: "socketnode \<Rightarrow> socketnode \<Rightarrow> bool" where
  "same_ctl n n' \<longleftrightarrow> sn_state n' = sn_state n \<and> sn_seq n' = sn_seq n \<and> sn_retransmit n' = sn_retransmit n"

lemma send_window_ok:
  assumes "sender L D r k n a s" and "sn_nextpacket (node_at s a) = int n" and "sn_seq (node_at s a) = of_nat (r + 1 + k)"
    and "n \<le> m" "m \<le> max n (length (sn_buff (node_at s a)))" and "under_way L D r k n s"
  shows "\<exists>s'. send_window now (lk_fda L) (lk_b L) [n..<m] s = Inr s' \<and> sender L D r k m a s' \<and>
     sn_nextpacket (node_at s' a) = int m \<and> sn_buff (node_at s' a) = sn_buff (node_at s a) \<and>
     same_ctl (node_at s a) (node_at s' a) \<and> under_way L D r k m s'"
  using assms
proof (induction "m - n" arbitrary: n s)
  case 0
  then show ?case by (intro exI [of _ s]) (simp add: same_ctl_def)
next
  case (Suc d)
  note s = Suc.prems(1)
  have n: "n < length (sn_buff (node_at s a))" "n < m" using Suc.hyps(2) Suc.prems(5) by linarith+
  obtain s1 where s1: "setSeqData s (lk_fda L) (lk_b L) (int n) (of_nat (r + 1 + (k + n))) = Inr s1"
    "node_at s1 = node_at s" "sender L D r k (n + 1) a s1" "sent s1 = sent s" using mark_ok [OF s n(1)] by blast
  obtain s2 where s2: "send_data now s1 (lk_fda L) (lk_b L) (int n) = Inr s2" "node_at s2 = node_at s1" "sender L D r k (n + 1) a s2"
      "(lk_fda L, lk_b L, data_pkt r D (k + n)) \<in> set (sent s2)" "set (sent s1) \<subseteq> set (sent s2)"
    using send_data_ok [OF s1(3), of n now] by auto
  let ?s3 = "set_node a (\<lambda>x. x\<lparr>sn_nextpacket := int n + 1\<rparr>) s2"
  have s3: "sender L D r k (n + 1) a ?s3" by (rule sender_set_node [OF s2(3)]) simp_all
  have "of_nat (r + 1 + k) + of_nat n = (of_nat (r + 1 + (k + n)) :: u32)" by simp
  then have step: "send_window now (lk_fda L) (lk_b L) [n..<m] s = send_window now (lk_fda L) (lk_b L) [Suc n..<m] ?s3"
    using n s1 s2 Suc.prems(2,3) conn_reads [OF senderD(1) [OF s]] conn_reads(5) [OF senderD(1) [OF s2(3)]]
      conn_updates(6) [OF senderD(1) [OF s2(3)]] by (simp add: upt_conv_Cons add.assoc)
  have "under_way L D r k (n + 1) ?s3"
    using Suc.prems(6) s1(4) s2(4,5) by (auto simp: under_way_def less_Suc_eq)
  then have "\<exists>s'. send_window now (lk_fda L) (lk_b L) [n + 1..<m] ?s3 = Inr s' \<and> sender L D r k m a s' \<and>
      sn_nextpacket (node_at s' a) = int m \<and> sn_buff (node_at s' a) = sn_buff (node_at ?s3 a) \<and>
      same_ctl (node_at ?s3 a) (node_at s' a) \<and> under_way L D r k m s'"
    by (intro Suc.hyps(1) [OF _ s3]) (use Suc.hyps(2) Suc.prems(3-5) n s1(2) s2(2) in simp_all)
  then show ?case unfolding step using s1(2) s2(2) by (auto simp: same_ctl_def)
qed

text \<open>Positions beyond the queue are skipped.\<close>

lemma send_window_skip:
  "conn s a fd to \<Longrightarrow> list_all (\<lambda>w. length (sn_buff (node_at s a)) \<le> w) ws \<Longrightarrow> send_window now fd to ws s = Inr s"
  by (induction ws) (simp_all add: conn_reads)

lemma send_window_append:
  "send_window now fd to (ws @ ws') s = bindR (send_window now fd to ws s) (send_window now fd to ws')"
  by (induction ws arbitrary: s) (simp_all add: bindR_assoc)

lemma window_filled:
  assumes "sender L D r k n a s" and "sn_nextpacket (node_at s a) = int n" and "sn_seq (node_at s a) = of_nat (r + 1 + k)"
    and "n \<le> RUDP_WINDOW" and out: "under_way L D r k n s"
  shows "\<exists>s'. send_window now (lk_fda L) (lk_b L) [n..<RUDP_WINDOW] s = Inr s' \<and>
     sender L D r k (min RUDP_WINDOW (length (sn_buff (node_at s a)))) a s' \<and>
     sn_nextpacket (node_at s' a) = int (min RUDP_WINDOW (length (sn_buff (node_at s a)))) \<and>
     sn_buff (node_at s' a) = sn_buff (node_at s a) \<and> same_ctl (node_at s a) (node_at s' a) \<and>
     under_way L D r k (min RUDP_WINDOW (length (sn_buff (node_at s a)))) s'"
proof -
  let ?m = "min RUDP_WINDOW (length (sn_buff (node_at s a)))"
  have "n \<le> ?m" using assms(4) senderD(7) [OF assms(1)] by simp
  then have split: "[n..<RUDP_WINDOW] = [n..<?m] @ [?m..<RUDP_WINDOW]"
    using upt_add_eq_append [of n ?m "RUDP_WINDOW - ?m"] by simp
  obtain s' where s': "send_window now (lk_fda L) (lk_b L) [n..<?m] s = Inr s'" "sender L D r k ?m a s'"
    "sn_nextpacket (node_at s' a) = int ?m" "sn_buff (node_at s' a) = sn_buff (node_at s a)" "same_ctl (node_at s a) (node_at s' a)"
    "under_way L D r k ?m s'"
    using send_window_ok [OF assms(1-3) \<open>n \<le> ?m\<close> _ out, of now] by (simp add: le_max_iff_disj) blast
  have "list_all (\<lambda>w. length (sn_buff (node_at s' a)) \<le> w) [?m..<RUDP_WINDOW]" by (auto simp: list_all_iff s'(4))
  then show ?thesis using s' send_window_skip [OF senderD(1) [OF s'(2)], of "[?m..<RUDP_WINDOW]" now]
    unfolding split send_window_append by simp
qed

text \<open>How many packets are under way, for a queue of a given length.\<close>

definition window :: "nat \<Rightarrow> nat \<Rightarrow> bool" where
  "window n len \<longleftrightarrow> n \<le> len \<and> n \<le> RUDP_WINDOW \<and> min len 2 \<le> n"

lemma sint_of_nat32: "x < 2 ^ 31 \<Longrightarrow> sint (of_nat x :: u32) = int x"
  using sint_u32_small [of "of_nat x"] by (simp add: unat_of_nat take_bit_nat_eq_self)

lemma seq_compare:
  assumes "x < 2 ^ 31" "y < 2 ^ 31"
  shows "sint (of_nat x :: u32) \<le> sint (of_nat y :: u32) \<longleftrightarrow> x \<le> y" and "(of_nat x :: u32) = of_nat y \<longleftrightarrow> x = y"
proof -
  show "sint (of_nat x :: u32) \<le> sint (of_nat y :: u32) \<longleftrightarrow> x \<le> y" using assms by (simp add: sint_of_nat32)
  have "x = y" if "(of_nat x :: u32) = of_nat y"
    using arg_cong [OF that, of sint] sint_of_nat32 [OF assms(1)] sint_of_nat32 [OF assms(2)] by simp
  then show "(of_nat x :: u32) = of_nat y \<longleftrightarrow> x = y" by blast
qed

lemma first_seq:
  assumes "sender L D r k n a s" and "0 < n"
  shows "getSeqData s (lk_fda L) (lk_b L) 0 = Inr (of_nat (r + 1 + k))"
proof -
  have l: "0 < length (sn_buff (node_at s a))" using assms senderD(7) by fastforce
  have "bd_data (buf_at s (sn_buff (node_at s a) ! 0)) = Some (data_pkt r D k)"
    using senderD(6) [OF assms(1)] l assms(2) by (auto simp: queue_ok_def)
  then show ?thesis using conn_getData(1) [OF senderD(1) [OF assms(1)] l]
    by (simp add: getSeqData_def data_pkt_def hdr_get_seq)
qed

lemma first_seq_none: "conn s a fd to \<Longrightarrow> sn_buff (node_at s a) = [] \<Longrightarrow> getSeqData s fd to 0 = Inr (-1)"
  using conn_getData(2) [of s a fd to 0] by (simp add: getSeqData_def)

declare ack_loop.simps [simp del]

lemma ack_loop_step:
  assumes "getSeqData s fd to 0 = Inr q" "sint q < sint seq" "sint seq \<le> sint (q + of_nat RUDP_WINDOW)" "0 < sizebuffer s fd to"
    "getNextpacket s fd to \<le> int (sizebuffer s fd to)"
    "setSeqData s fd to (getNextpacket s fd to) (q + of_int (getNextpacket s fd to)) = Inr s1"
    "deleteData s1 fd to = Inr s2" "setNextpacket s2 fd to (getNextpacket s2 fd to - 1) = s3"
    "(if int (sizebuffer s3 fd to) > getNextpacket s3 fd to then send_data now s3 fd to (getNextpacket s3 fd to) else Inr s3) = Inr s4"
    "(if int (sizebuffer s4 fd to) > getNextpacket s4 fd to then setNextpacket s4 fd to (getNextpacket s4 fd to + 1) else s4) = s5"
  shows "ack_loop (Suc fuel) now fd to seq s = (if sizebuffer s5 fd to = 0 then Inr s5 else ack_loop fuel now fd to seq s5)"
  using assms by (subst ack_loop.simps) (simp add: Let_def cong: if_cong split del: if_split)

text \<open>One round of the loop, up to the test whether the queue is empty.\<close>

lemma ack_round:
  assumes s: "sender L D r k n a s" and np: "sn_nextpacket (node_at s a) = int n"
    and w: "window n (length (sn_buff (node_at s a)))" and n: "0 < n"
    and j: "k < j" "j \<le> k + n" and bound: "r + 4 + length D < 2 ^ 31" and out: "under_way L D r k n s"
  shows "\<exists>s' n'. ack_loop (Suc fuel) now (lk_fda L) (lk_b L) (of_nat (r + 1 + j)) s =
       (if sn_buff (node_at s' a) = [] then Inr s' else ack_loop fuel now (lk_fda L) (lk_b L) (of_nat (r + 1 + j)) s') \<and>
     sender L D r (Suc k) n' a s' \<and> sn_nextpacket (node_at s' a) = int n' \<and> window n' (length (sn_buff (node_at s' a))) \<and>
     sn_buff (node_at s' a) = tl (sn_buff (node_at s a)) \<and> same_ctl (node_at s a) (node_at s' a) \<and> k + n \<le> Suc k + n' \<and>
     under_way L D r (Suc k) n' s'"
proof -
  let ?fd = "lk_fda L" and ?to = "lk_b L" and ?bs = "sn_buff (node_at s a)" and ?q = "of_nat (r + 1 + j) :: u32"
  have len: "k + length ?bs = length D" using senderD(6) [OF s] by (simp add: queue_ok_def)
  have nl: "n \<le> length ?bs" using senderD(7) [OF s] .
  have plus: "(of_nat (r + 1 + k) :: u32) + of_nat RUDP_WINDOW = of_nat (r + 1 + k + 3)" by simp
  have cond: "sint (of_nat (r + 1 + k) :: u32) < sint ?q" "sint ?q \<le> sint ((of_nat (r + 1 + k) :: u32) + of_nat RUDP_WINDOW)"
    unfolding plus using sint_of_nat32 [of "r + 1 + k"] sint_of_nat32 [of "r + 1 + j"] sint_of_nat32 [of "r + 1 + k + 3"]
      j bound len nl w by (simp_all only: window_def) linarith+
  show ?thesis
  proof (cases "n < length ?bs")
    case True
    obtain s1 where s1: "setSeqData s ?fd ?to (int n) (of_nat (r + 1 + (k + n))) = Inr s1" "node_at s1 = node_at s"
      "sender L D r k (Suc n) a s1" "sent s1 = sent s" using mark_ok [OF s True] by auto
    obtain s2 where s2: "deleteData s1 ?fd ?to = Inr s2" "node_at s2 a = (node_at s a)\<lparr>sn_buff := tl ?bs\<rparr>" "sender L D r (Suc k) n a s2"
      "sent s2 = sent s1" using delete_ok [OF s1(3)] s1(2) by auto
    let ?s3 = "set_node a (\<lambda>x. x\<lparr>sn_nextpacket := int n - 1\<rparr>) s2"
    have s3: "sender L D r (Suc k) n a ?s3" by (rule sender_set_node [OF s2(3)]) simp_all
    have pos: "int (n - 1) = int n - 1" using n by simp
    obtain s4 where s4: "send_data now ?s3 ?fd ?to (int n - 1) = Inr s4" "node_at s4 = node_at ?s3" "sender L D r (Suc k) n a s4"
      "(?fd, ?to, data_pkt r D (Suc k + (n - 1))) \<in> set (sent s4)" "set (sent ?s3) \<subseteq> set (sent s4)"
      using send_data_ok [OF s3, of "n - 1" now] n unfolding pos by auto
    have out4: "under_way L D r (Suc k) n s4"
      using s4(4,5) out s1(4) s2(4) n unfolding under_way_step by (auto simp: under_way_def less_Suc_eq)
    let ?s5 = "set_node a (\<lambda>x. x\<lparr>sn_nextpacket := int n\<rparr>) s4"
    have s5: "sender L D r (Suc k) n a ?s5" by (rule sender_set_node [OF s4(3)]) simp_all
    have b5: "sn_buff (node_at ?s5 a) = tl ?bs" using s4(2) s2(2) by simp
    have sum: "of_nat (r + 1 + k) + of_int (int n) = (of_nat (r + 1 + (k + n)) :: u32)" by simp
    have r: "getNextpacket s ?fd ?to = int n" "sizebuffer s ?fd ?to = length ?bs" "getNextpacket s2 ?fd ?to = int n"
      "getNextpacket ?s3 ?fd ?to = int n - 1" "sizebuffer ?s3 ?fd ?to = length (tl ?bs)" "getNextpacket s4 ?fd ?to = int n - 1"
      "sizebuffer s4 ?fd ?to = length (tl ?bs)" "sizebuffer ?s5 ?fd ?to = length (tl ?bs)"
      using conn_reads(5,6) [OF senderD(1) [OF s]] conn_reads(5) [OF senderD(1) [OF s2(3)]] conn_reads(5,6) [OF senderD(1) [OF s3]]
        conn_reads(5,6) [OF senderD(1) [OF s4(3)]] conn_reads(6) [OF senderD(1) [OF s5]] np s2(2) s4(2) by simp_all
    have "ack_loop (Suc fuel) now ?fd ?to ?q s =
        (if sizebuffer ?s5 ?fd ?to = 0 then Inr ?s5 else ack_loop fuel now ?fd ?to ?q ?s5)"
    proof (rule ack_loop_step [OF first_seq [OF s n] cond])
      show "setSeqData s ?fd ?to (getNextpacket s ?fd ?to) (of_nat (r + 1 + k) + of_int (getNextpacket s ?fd ?to)) = Inr s1"
        unfolding r sum by (rule s1(1))
      show "(if int (sizebuffer ?s3 ?fd ?to) > getNextpacket ?s3 ?fd ?to then send_data now ?s3 ?fd ?to (getNextpacket ?s3 ?fd ?to)
          else Inr ?s3) = Inr s4" unfolding r using s4(1) True by simp
      show "(if int (sizebuffer s4 ?fd ?to) > getNextpacket s4 ?fd ?to then setNextpacket s4 ?fd ?to (getNextpacket s4 ?fd ?to + 1)
          else s4) = ?s5" unfolding r conn_updates(6) [OF senderD(1) [OF s4(3)]] using True by simp
      show "0 < sizebuffer s ?fd ?to" unfolding r using nl n by linarith
      show "setNextpacket s2 ?fd ?to (getNextpacket s2 ?fd ?to - 1) = ?s3"
        unfolding r conn_updates(6) [OF senderD(1) [OF s2(3)]] by simp
    qed (use s2(1) r True in simp_all)
    then have "ack_loop (Suc fuel) now ?fd ?to ?q s =
        (if sn_buff (node_at ?s5 a) = [] then Inr ?s5 else ack_loop fuel now ?fd ?to ?q ?s5)" unfolding r b5 length_0_conv .
    moreover have "window n (length (tl ?bs))" using w True by (auto simp: window_def)
    moreover have "under_way L D r (Suc k) n ?s5" using out4 by (simp add: under_way_def)
    ultimately show ?thesis using s5 b5 s4(2) s2(2) by (intro exI [of _ ?s5] exI [of _ n]) (simp add: same_ctl_def)
  next
    case False
    then have full: "n = length ?bs" using nl by simp
    obtain m where m: "n = Suc m" using n gr0_conv_Suc by auto
    have none: "setSeqData s ?fd ?to (int n) q = Inr s" for q
      unfolding setSeqData_def using conn_getData(2) [OF senderD(1) [OF s], of n] full by simp
    obtain s2 where s2: "deleteData s ?fd ?to = Inr s2" "node_at s2 a = (node_at s a)\<lparr>sn_buff := tl ?bs\<rparr>" "sender L D r (Suc k) m a s2"
      "sent s2 = sent s" using delete_ok [OF s [unfolded m]] by auto
    let ?s3 = "set_node a (\<lambda>x. x\<lparr>sn_nextpacket := int m\<rparr>) s2"
    have s3: "sender L D r (Suc k) m a ?s3" by (rule sender_set_node [OF s2(3)]) simp_all
    have b3: "sn_buff (node_at ?s3 a) = tl ?bs" "length (tl ?bs) = m" using s2(2) full m by simp_all
    have r: "getNextpacket s ?fd ?to = int n" "sizebuffer s ?fd ?to = length ?bs" "getNextpacket s2 ?fd ?to = int n"
      "getNextpacket ?s3 ?fd ?to = int m" "sizebuffer ?s3 ?fd ?to = length (tl ?bs)"
      using conn_reads(5,6) [OF senderD(1) [OF s]] conn_reads(5) [OF senderD(1) [OF s2(3)]] conn_reads(5,6) [OF senderD(1) [OF s3]]
        np s2(2) by simp_all
    have "ack_loop (Suc fuel) now ?fd ?to ?q s =
        (if sizebuffer ?s3 ?fd ?to = 0 then Inr ?s3 else ack_loop fuel now ?fd ?to ?q ?s3)"
    proof (rule ack_loop_step [OF first_seq [OF s n] cond])
      show "setSeqData s ?fd ?to (getNextpacket s ?fd ?to) (of_nat (r + 1 + k) + of_int (getNextpacket s ?fd ?to)) = Inr s"
        unfolding r by (rule none)
      show "0 < sizebuffer s ?fd ?to" unfolding r using nl n by linarith
      show "setNextpacket s2 ?fd ?to (getNextpacket s2 ?fd ?to - 1) = ?s3"
        unfolding r conn_updates(6) [OF senderD(1) [OF s2(3)]] using m by simp
      show "(if int (sizebuffer ?s3 ?fd ?to) > getNextpacket ?s3 ?fd ?to then send_data now ?s3 ?fd ?to (getNextpacket ?s3 ?fd ?to)
          else Inr ?s3) = Inr ?s3" unfolding r b3(2) by simp
      show "(if int (sizebuffer ?s3 ?fd ?to) > getNextpacket ?s3 ?fd ?to then setNextpacket ?s3 ?fd ?to (getNextpacket ?s3 ?fd ?to + 1)
          else ?s3) = ?s3" unfolding r b3(2) by simp
    qed (use s2(1) r full in simp_all)
    then have "ack_loop (Suc fuel) now ?fd ?to ?q s =
        (if sn_buff (node_at ?s3 a) = [] then Inr ?s3 else ack_loop fuel now ?fd ?to ?q ?s3)" unfolding r b3(1) length_0_conv .
    moreover have "window m m" using w m by (auto simp: window_def)
    moreover have "under_way L D r (Suc k) m ?s3"
      using out s2(4) m unfolding under_way_step by (simp add: under_way_def)
    ultimately show ?thesis using s3 b3 s2(2) m by (intro exI [of _ ?s3] exI [of _ m]) (simp add: same_ctl_def)
  qed
qed

lemma ack_loop_ok:
  assumes "sender L D r k n a s" and "sn_nextpacket (node_at s a) = int n" and "window n (length (sn_buff (node_at s a)))"
    and "j \<le> k + n" and "length (sn_buff (node_at s a)) \<le> fuel" and "under_way L D r k n s"
    and bound: "r + 4 + length D < 2 ^ 31"
  shows "\<exists>s' n'. ack_loop fuel now (lk_fda L) (lk_b L) (of_nat (r + 1 + j)) s = Inr s' \<and> sender L D r (max k j) n' a s' \<and>
     sn_nextpacket (node_at s' a) = int n' \<and> window n' (length (sn_buff (node_at s' a))) \<and> same_ctl (node_at s a) (node_at s' a) \<and>
     under_way L D r (max k j) n' s' \<and> k + n \<le> max k j + n'"
  using assms(1-6)
proof (induction fuel arbitrary: k n s)
  case 0
  have "ack_loop 0 now (lk_fda L) (lk_b L) (of_nat (r + 1 + j)) s = Inr s"
    using 0 first_seq_none [OF senderD(1)] conn_reads(6) [OF senderD(1)] by (subst ack_loop.simps) fastforce
  then show ?case using 0 by (intro exI [of _ s] exI [of _ n]) (simp add: same_ctl_def window_def max_def)
next
  case (Suc fuel)
  note s = Suc.prems(1)
  show ?case
  proof (cases "n = 0 \<or> j \<le> k")
    case True
    have le: "j \<le> k" using True Suc.prems(4) by auto
    have "\<exists>q. getSeqData s (lk_fda L) (lk_b L) 0 = Inr q \<and>
        (n = 0 \<and> sn_buff (node_at s a) = [] \<or> q = of_nat (r + 1 + k))"
    proof (cases n)
      case 0
      then show ?thesis using first_seq_none [OF senderD(1) [OF s]] Suc.prems(3)
        by (cases "sn_buff (node_at s a)") (auto simp: window_def)
    next
      case (Suc m)
      then show ?thesis using first_seq [OF s] by blast
    qed
    moreover have "\<not> sint (of_nat (r + 1 + k) :: u32) < sint (of_nat (r + 1 + j) :: u32)"
      using sint_of_nat32 [of "r + 1 + k"] sint_of_nat32 [of "r + 1 + j"] le bound senderD(6) [OF s]
      by (simp only: queue_ok_def) linarith
    ultimately have "ack_loop (Suc fuel) now (lk_fda L) (lk_b L) (of_nat (r + 1 + j)) s = Inr s"
      using conn_reads(6) [OF senderD(1) [OF s]] by (subst ack_loop.simps) auto
    then show ?thesis using Suc.prems le by (intro exI [of _ s] exI [of _ n]) (simp add: same_ctl_def max_def)
  next
    case False
    then have j: "0 < n" "k < j" by auto
    obtain s1 n1 where s1: "ack_loop (Suc fuel) now (lk_fda L) (lk_b L) (of_nat (r + 1 + j)) s =
        (if sn_buff (node_at s1 a) = [] then Inr s1 else ack_loop fuel now (lk_fda L) (lk_b L) (of_nat (r + 1 + j)) s1)"
      "sender L D r (Suc k) n1 a s1" "sn_nextpacket (node_at s1 a) = int n1" "window n1 (length (sn_buff (node_at s1 a)))"
      "sn_buff (node_at s1 a) = tl (sn_buff (node_at s a))" "same_ctl (node_at s a) (node_at s1 a)" "k + n \<le> Suc k + n1"
      "under_way L D r (Suc k) n1 s1"
      using ack_round [OF s Suc.prems(2,3) j Suc.prems(4) bound Suc.prems(6), of fuel now] by blast
    show ?thesis
    proof (cases "sn_buff (node_at s1 a) = []")
      case True
      then have "n1 = 0" using s1(4) by (simp add: window_def)
      then have "Suc k = max k j" using s1(7) Suc.prems(4) j by simp
      then show ?thesis using s1(1-4,6-8) True by (intro exI [of _ s1] exI [of _ n1]) simp
    next
      case False
      have "\<exists>s' n'. ack_loop fuel now (lk_fda L) (lk_b L) (of_nat (r + 1 + j)) s1 = Inr s' \<and> sender L D r (max (Suc k) j) n' a s' \<and>
          sn_nextpacket (node_at s' a) = int n' \<and> window n' (length (sn_buff (node_at s' a))) \<and> same_ctl (node_at s1 a) (node_at s' a) \<and>
          under_way L D r (max (Suc k) j) n' s' \<and> Suc k + n1 \<le> max (Suc k) j + n'"
        by (rule Suc.IH [OF s1(2-4)]) (use Suc.prems(4,5) s1(5,7,8) in simp_all)
      moreover have "max (Suc k) j = max k j" using j by simp
      ultimately show ?thesis unfolding s1(1) using False s1(6,7) by (force simp: same_ctl_def)
    qed
  qed
qed

section \<open>The phases of the sender\<close>

definition syn_phase :: "rudp_link \<Rightarrow> bytes list \<Rightarrow> nat \<Rightarrow> nat \<Rightarrow> rudp \<Rightarrow> bool" where
  "syn_phase L D r a s \<longleftrightarrow> sender L D r 0 0 a s \<and> sn_state (node_at s a) = SYN_SENT \<and>
     sn_seq (node_at s a) = of_nat r \<and> sn_nextpacket (node_at s a) = 0 \<and>
     (lk_fda L, lk_b L, rudp_hdr RUDP_SYN (of_nat r)) \<in> set (sent s)"

definition est_phase :: "rudp_link \<Rightarrow> bytes list \<Rightarrow> nat \<Rightarrow> nat \<Rightarrow> nat \<Rightarrow> nat \<Rightarrow> rudp \<Rightarrow> bool" where
  "est_phase L D r k n a s \<longleftrightarrow> sender L D r k n a s \<and> sn_state (node_at s a) = ESTABLISH \<and>
     sn_seq (node_at s a) = of_nat (r + 1 + k) \<and> sn_nextpacket (node_at s a) = int n \<and>
     window n (length (sn_buff (node_at s a))) \<and> under_way L D r k n s"

lemma of_nat_not_minus1: "x < 2 ^ 31 \<Longrightarrow> (of_nat x :: u32) \<noteq> -1"
  using sint_of_nat32 [of x] by auto

text \<open>What the receive handler does with a well-formed packet on an existing connection.\<close>

lemma getS_reads:
  assumes "getS s fd to = Some a"
  shows "getState s fd to = Some (sn_state (node_at s a))" "getSeq s fd to = sn_seq (node_at s a)"
    "setState s fd to st = set_node a (\<lambda>n. n\<lparr>sn_state := st\<rparr>) s" "setSeq s fd to q = set_node a (\<lambda>n. n\<lparr>sn_seq := q\<rparr>) s"
  using assms by (simp_all add: getState_def getSeq_def setState_def setSeq_def upd_sock_def set_node_def)

lemma payload_size_value:
  assumes "n < 2 ^ 31"
  shows "unat (payload_size (int n)) = (if hdr_size \<le> n then n - hdr_size else 2 ^ 64 - (hdr_size - n))"
proof -
  have n: "unat (word_of_int (int n) :: u64) = n" using assms by (simp add: unat_of_nat)
  show ?thesis
  proof (cases "hdr_size \<le> n")
    case True
    then show ?thesis using n by (simp add: payload_size_def unat_sub word_le_nat_alt)
  next
    case False
    then have "\<not> (8 :: u64) \<le> word_of_int (int n)" using n by (simp add: word_le_nat_alt)
    then show ?thesis using n False by (simp add: payload_size_def unat_sub_if' word_le_nat_alt)
  qed
qed

lemma recv_payload_hdr:
  assumes "length d \<le> RUDP_MAXPKTSIZE"
  shows "recv_payload (rudp_hdr ty q @ d @ rest) (8 + int (length d)) = Inr d"
proof -
  have "unat (payload_size (8 + int (length d))) = length d"
    using payload_size_value [of "8 + length d"] assms by simp
  then show ?thesis by (simp add: recv_payload_def load_def)
qed

lemma recvhandler_found:
  assumes "getS s fd to = Some a" and "sn_seq (node_at s a) \<noteq> -1" and "find_hand s fd = Some h" and "length d \<le> RUDP_MAXPKTSIZE"
  shows "recvhandler code now buf0 s fd arg to (rudp_hdr ty q @ d) =
    bindR (case sn_state (node_at s a) of
        LISTEN \<Rightarrow> Inr (recv_listen s fd to ty q)
      | SYN_SENT \<Rightarrow> recv_syn_sent now s fd to ty q
      | ESTABLISH \<Rightarrow> recv_established code now s fd arg to ty q d
      | CLOSE_WAIT \<Rightarrow> recv_close_wait code s fd arg h to ty q
      | CLOSED \<Rightarrow> Inr (if ty = RUDP_FIN then sendtowithdropsendto s fd (rudp_hdr RUDP_ACK (q + 1)) to else s)) (\<lambda>s. Inr (0, s))"
proof -
  have "min (length (rudp_hdr ty q @ d)) (RUDP_MAXPKTSIZE + hdr_size) = length (rudp_hdr ty q @ d)" using assms(4) by simp
  then show ?thesis using assms getS_reads [OF assms(1)] recv_payload_hdr [OF assms(4), of ty q]
    by (simp add: recvhandler_def Let_def deref_def split: rudp_state.split)
qed

lemmas recvhandler_packet = recvhandler_found [OF conn_getS]

text \<open>An acknowledgement reaches the sender.\<close>

abbreviation ack_pkt :: "nat \<Rightarrow> nat \<Rightarrow> bytes" where
  "ack_pkt r j \<equiv> rudp_hdr RUDP_ACK (of_nat (r + 1 + j))"

lemma syn_phase_ack:
  assumes s: "syn_phase L D r a s" and r: "r < 2 ^ 30"
  shows "\<exists>s'. recvhandler code now buf0 s (lk_fda L) arg (lk_b L) (ack_pkt r 0) = Inr (0, s') \<and>
     est_phase L D r 0 (min RUDP_WINDOW (length D)) a s'"
proof -
  have snd: "sender L D r 0 0 a s" and st: "sn_state (node_at s a) = SYN_SENT" "sn_seq (node_at s a) = of_nat r" "sn_nextpacket (node_at s a) = 0"
    using s by (simp_all add: syn_phase_def)
  obtain h where h: "find_hand s (lk_fda L) = Some h" using senderD(4) [OF snd] by auto
  let ?s1 = "set_node a (\<lambda>n. n\<lparr>sn_seq := of_nat (r + 1)\<rparr>) s"
  have s1: "sender L D r 0 0 a ?s1" by (rule sender_set_node [OF snd]) simp_all
  have len: "length (sn_buff (node_at s a)) = length D" using senderD(6) [OF snd] by (simp add: queue_ok_def)
  obtain s2 where s2: "send_window now (lk_fda L) (lk_b L) [0..<RUDP_WINDOW] ?s1 = Inr s2"
    "sender L D r 0 (min RUDP_WINDOW (length D)) a s2" "sn_nextpacket (node_at s2 a) = int (min RUDP_WINDOW (length D))"
    "sn_buff (node_at s2 a) = sn_buff (node_at s a)" "same_ctl (node_at ?s1 a) (node_at s2 a)"
    "under_way L D r 0 (min RUDP_WINDOW (length D)) s2"
    using window_filled [OF s1, of now] st(3) len by (auto simp: under_way_def [of _ _ _ _ 0])
  let ?s3 = "set_node a (\<lambda>n. n\<lparr>sn_state := ESTABLISH\<rparr>) s2"
  have "sn_seq (node_at s a) \<noteq> -1" using of_nat_not_minus1 [of r] r st(2) by simp
  from recvhandler_packet [OF senderD(1) [OF snd] this h, of "[]" code now buf0 arg RUDP_ACK "of_nat (r + 1 + 0)"]
  have "recvhandler code now buf0 s (lk_fda L) arg (lk_b L) (ack_pkt r 0) = bindR (recv_syn_sent now s (lk_fda L) (lk_b L) RUDP_ACK (of_nat (r + 1))) (\<lambda>s. Inr (0, s))"
    by (simp add: st(1))
  also have "recv_syn_sent now s (lk_fda L) (lk_b L) RUDP_ACK (of_nat (r + 1)) = Inr ?s3"
    using s2(1) st(2) conn_reads(3) [OF senderD(1) [OF snd]] conn_updates(1) [OF senderD(1) [OF snd]]
      conn_updates(3) [OF senderD(1) [OF s2(2)]] by (simp add: recv_syn_sent_def add.commute)
  finally have "recvhandler code now buf0 s (lk_fda L) arg (lk_b L) (ack_pkt r 0) = Inr (0, ?s3)" by simp
  moreover have "sender L D r 0 (min RUDP_WINDOW (length D)) a ?s3" by (rule sender_set_node [OF s2(2)]) simp_all
  moreover have "under_way L D r 0 (min RUDP_WINDOW (length D)) ?s3" using s2(6) by (simp add: under_way_def)
  ultimately show ?thesis using s2(3-5) len by (auto simp: est_phase_def same_ctl_def window_def)
qed

lemma recv_ack_step:
  assumes "getSeqData s fd to 0 = Inr q" "q \<noteq> -1" "ack_loop (sizebuffer s fd to) now fd to seq s = Inr s1"
    "(if sint (getSeq s1 fd to) < sint seq then setSeq s1 fd to seq else s1) = s2" "getClose s2 fd to \<noteq> 1"
  shows "recv_ack now s fd to seq = Inr s2"
  using assms by (simp add: recv_ack_def split del: if_split)

lemma est_phase_ack:
  assumes s: "est_phase L D r k n a s" and j: "j \<le> k + n" and bound: "r + 4 + length D < 2 ^ 31"
  shows "\<exists>s' n'. recvhandler code now buf0 s (lk_fda L) arg (lk_b L) (ack_pkt r j) = Inr (0, s') \<and> est_phase L D r (max k j) n' a s' \<and> k + n \<le> max k j + n'"
proof -
  let ?fd = "lk_fda L" and ?to = "lk_b L" and ?q = "of_nat (r + 1 + j) :: u32"
  have snd: "sender L D r k n a s" and st: "sn_state (node_at s a) = ESTABLISH" "sn_seq (node_at s a) = of_nat (r + 1 + k)"
      "sn_nextpacket (node_at s a) = int n" "window n (length (sn_buff (node_at s a)))" "under_way L D r k n s"
    using s by (simp_all add: est_phase_def)
  obtain h where h: "find_hand s ?fd = Some h" using senderD(4) [OF snd] by auto
  have kD: "k + n \<le> length D" using senderD(6,7) [OF snd] by (simp add: queue_ok_def)
  have "sn_seq (node_at s a) \<noteq> -1" unfolding st(2) by (rule of_nat_not_minus1) (use bound kD in linarith)
  from recvhandler_packet [OF senderD(1) [OF snd] this h, of "[]" code now buf0 arg RUDP_ACK ?q]
  have eq: "recvhandler code now buf0 s ?fd arg ?to (ack_pkt r j) = bindR (recv_ack now s ?fd ?to ?q) (\<lambda>s. Inr (0, s))"
    by (simp add: st(1) recv_established_def Let_def)
  show ?thesis
  proof (cases "n = 0")
    case True
    then have empty: "sn_buff (node_at s a) = []" using st(4) by (cases "sn_buff (node_at s a)") (auto simp: window_def)
    have "recv_ack now s ?fd ?to ?q = Inr s"
      using first_seq_none [OF senderD(1) [OF snd] empty] conn_reads(2) [OF senderD(1) [OF snd]] senderD(5) [OF snd]
      by (simp add: recv_ack_def)
    then show ?thesis using eq s True j by (intro exI [of _ s] exI [of _ n]) (simp add: max_def)
  next
    case False
    then have first: "getSeqData s ?fd ?to 0 = Inr (of_nat (r + 1 + k))" using first_seq [OF snd] by simp
    have ne: "(of_nat (r + 1 + k) :: u32) \<noteq> -1" by (rule of_nat_not_minus1) (use bound kD in linarith)
    obtain s1 n1 where s1: "ack_loop (length (sn_buff (node_at s a))) now ?fd ?to ?q s = Inr s1" "sender L D r (max k j) n1 a s1"
      "sn_nextpacket (node_at s1 a) = int n1" "window n1 (length (sn_buff (node_at s1 a)))" "same_ctl (node_at s a) (node_at s1 a)"
      "under_way L D r (max k j) n1 s1" "k + n \<le> max k j + n1"
      using ack_loop_ok [OF snd st(3,4) j order_refl st(5) bound] by blast
    have seq1: "sn_seq (node_at s1 a) = of_nat (r + 1 + k)" using s1(5) st(2) by (simp add: same_ctl_def)
    have less: "sint (of_nat (r + 1 + k) :: u32) < sint ?q \<longleftrightarrow> k < j"
      using sint_of_nat32 [of "r + 1 + k"] sint_of_nat32 [of "r + 1 + j"] j bound kD by (simp only: ) linarith
    let ?s2 = "set_node a (\<lambda>x. x\<lparr>sn_seq := of_nat (r + 1 + max k j)\<rparr>) s1"
    have s2: "sender L D r (max k j) n1 a ?s2" by (rule sender_set_node [OF s1(2)]) simp_all
    have upd: "(if sint (getSeq s1 ?fd ?to) < sint ?q then setSeq s1 ?fd ?to ?q else s1) = ?s2"
      unfolding conn_reads(3) [OF senderD(1) [OF s1(2)]] conn_updates(1) [OF senderD(1) [OF s1(2)]] seq1 less
      using seq1 by (auto simp: set_node_def max_def intro!: rudp.equality)
    have "recv_ack now s ?fd ?to ?q = Inr ?s2"
    proof (rule recv_ack_step [OF first ne _ upd])
      show "ack_loop (sizebuffer s ?fd ?to) now ?fd ?to ?q s = Inr s1"
        unfolding conn_reads(6) [OF senderD(1) [OF snd]] by (rule s1(1))
      show "getClose ?s2 ?fd ?to \<noteq> 1" unfolding conn_reads(2) [OF senderD(1) [OF s2]] senderD(5) [OF s2] by simp
    qed
    then have "recvhandler code now buf0 s ?fd arg ?to (ack_pkt r j) = Inr (0, ?s2)" using eq by simp
    moreover have "est_phase L D r (max k j) n1 a ?s2"
      using s2 s1(3-6) st(1) by (simp add: est_phase_def same_ctl_def under_way_def)
    ultimately show ?thesis using s1(7) by blast
  qed
qed

section \<open>Giving up\<close>

text \<open>What is needed of a sender that gives up, in whatever phase.\<close>

definition sender_base :: "rudp_link \<Rightarrow> bytes list \<Rightarrow> nat \<Rightarrow> nat \<Rightarrow> rudp \<Rightarrow> bool" where
  "sender_base L D r a s \<longleftrightarrow>
     conn s a (lk_fda L) (lk_b L) \<and> int_at s 0 = lk_fda L \<and> find_hand s (lk_fda L) \<noteq> None \<and> sn_seq (node_at s a) \<noteq> -1 \<and>
     (\<forall>e \<in> set (ee_timers s). timer_ok L a (sn_buff (node_at s a)) s e) \<and> (\<forall>x \<in> set (sent s). sent_ok L D r (length D) x)"

lemma sender_base_sender:
  assumes s: "sender L D r k n a s" and "sn_seq (node_at s a) \<noteq> -1"
  shows "sender_base L D r a s"
proof -
  have "timer_ok L a (sn_buff (node_at s a)) s e" if "e \<in> set (ee_timers s)" for e
    by (rule timer_ok_trans [OF senderD(9) [OF s, rule_format, OF that]]) (auto dest: in_set_takeD)
  moreover have "k + n \<le> length D" using senderD(6,7) [OF s] by (simp add: queue_ok_def)
  ultimately show ?thesis using senderD(1,3,4,10) [OF s] assms(2) sent_ok_mono unfolding sender_base_def by blast
qed

lemma sender_base_closed: "sender_closed L D r a s \<Longrightarrow> sender_base L D r a s"
  by (simp add: sender_closed_def sender_base_def)

declare delete_all.simps [simp del]

lemma delete_all_ok:
  assumes "conn s a fd to"
  shows "\<exists>f. delete_all (length (sn_buff (node_at s a))) fd to s =
      Inr (s\<lparr>buf_at := f, node_at := (node_at s)(a := (node_at s a)\<lparr>sn_buff := []\<rparr>)\<rparr>) \<and>
     (\<forall>b. bd_data (f b) = (if b \<in> set (sn_buff (node_at s a)) then None else bd_data (buf_at s b)))"
  using assms
proof (induction "sn_buff (node_at s a)" arbitrary: s)
  case Nil
  then have "s = s\<lparr>buf_at := buf_at s, node_at := (node_at s)(a := (node_at s a)\<lparr>sn_buff := []\<rparr>)\<rparr>"
    by (simp add: fun_upd_idem)
  then show ?case using Nil conn_reads(6) [OF Nil(2)] by (subst delete_all.simps) (auto intro!: exI [of _ "buf_at s"])
next
  case (Cons b bs)
  let ?s1 = "s\<lparr>buf_at := (buf_at s)(b := (buf_at s b)\<lparr>bd_data := None\<rparr>), node_at := (node_at s)(a := (node_at s a)\<lparr>sn_buff := bs\<rparr>)\<rparr>"
  have c: "conn ?s1 a fd to" using Cons.prems by (simp add: conn_def)
  have "delete_all (Suc (length bs)) fd to s = delete_all (length bs) fd to ?s1"
    using conn_reads(6) [OF Cons.prems] conn_getS [OF Cons.prems] Cons.hyps(2) [symmetric]
    by (subst delete_all.simps) (simp add: deleteData_def)
  moreover obtain f where "delete_all (length bs) fd to ?s1 =
      Inr (?s1\<lparr>buf_at := f, node_at := (node_at ?s1)(a := (node_at ?s1 a)\<lparr>sn_buff := []\<rparr>)\<rparr>)"
      "\<forall>x. bd_data (f x) = (if x \<in> set bs then None else bd_data (buf_at ?s1 x))"
    using Cons.hyps(1) [of ?s1, OF _ c] by auto
  ultimately show ?case using Cons.hyps(2) [symmetric] by (intro exI [of _ f]) auto
qed

definition quiet :: "rudp_client \<Rightarrow> bool" where
  "quiet code \<longleftrightarrow> (\<forall>c s. code c s = s)"

lemma quiet_call: "quiet code \<Longrightarrow> call_client code c s = s\<lparr>calls := calls s @ [c]\<rparr>"
  by (simp add: quiet_def call_client_def)

lemma sender_base_conn: "sender_base L D r a s \<Longrightarrow> conn s a (lk_fda L) (lk_b L)"
  by (simp add: sender_base_def)

lemma retransmit_ok:
  assumes q: "quiet code" and s: "sender_base L D r a s"
  shows "\<exists>s'. retransmit code now s arg (lk_fda L) h (lk_b L) fn = Inr s' \<and> sender_closed L D r a s'"
proof -
  let ?fd = "lk_fda L" and ?to = "lk_b L"
  let ?s1 = "set_node a (\<lambda>n. n\<lparr>sn_close_ask := 1\<rparr>) (set_node a (\<lambda>n. n\<lparr>sn_state := CLOSED\<rparr>) s)"
  note c = sender_base_conn [OF s]
  have c1: "conn ?s1 a ?fd ?to" using c by simp
  obtain f where f: "delete_all (length (sn_buff (node_at ?s1 a))) ?fd ?to ?s1 =
      Inr (?s1\<lparr>buf_at := f, node_at := (node_at ?s1)(a := (node_at ?s1 a)\<lparr>sn_buff := []\<rparr>)\<rparr>)" (is "_ = Inr ?s2")
     "\<forall>b. bd_data (f b) = (if b \<in> set (sn_buff (node_at ?s1 a)) then None else bd_data (buf_at ?s1 b))"
    using delete_all_ok [OF c1] by blast
  let ?s3 = "event_fd_delete (event_timeout_delete ?s2 fn arg) RECVHANDLER (sn_i (node_at ?s2 a))"
  let ?s4 = "case h of None \<Rightarrow> ?s3 | Some h \<Rightarrow> ?s3\<lparr>calls := calls ?s3 @ [CallEvent h (sn_i (node_at ?s2 a)) RUDP_EVENT_TIMEOUT (Some ?to)]\<rparr>"
  let ?s5 = "?s4\<lparr>closed := closed ?s4 @ [?fd]\<rparr>"
  have conn: "conn x a ?fd ?to" "sn_state (node_at x a) = CLOSED" if "sockets x = sockets s" "node_at x = node_at ?s2" for x
    using c that by (simp_all add: conn_def)
  have fr: "sockets ?s3 = sockets s" "node_at ?s3 = node_at ?s2" "sockets (event_timeout_delete ?s2 fn arg) = sockets s"
      "node_at (event_timeout_delete ?s2 fn arg) = node_at ?s2" "sockets ?s4 = sockets s" "node_at ?s4 = node_at ?s2"
    by (simp_all add: event_fd_delete_def event_timeout_delete_def split: option.split)
  have u: "setClose (setState s ?fd ?to CLOSED) ?fd ?to 1 = ?s1"
    using conn_updates(2,3) c by simp
  have "retransmit code now s arg ?fd h ?to fn = Inr ?s5"
    unfolding retransmit_def Let_def u conn_reads(6) [OF c1] f(1) bindR_simps
    using conn_reads(7) [OF conn(1) [OF fr(3,4)]] conn(2) [OF fr(3,4)] conn_reads(7) [OF conn(1) [OF fr(1,2)]] conn(2) [OF fr(1,2)]
      conn_reads(7) [OF conn(1) [OF fr(5,6)]] conn(2) [OF fr(5,6)] conn_getS [OF conn(1) [OF fr(3,4)]] conn_getS [OF conn(1) [OF fr(1,2)]] fr
    by (cases h) (simp_all add: deref_def quiet_call [OF q])
  moreover have "sender_closed L D r a ?s5"
  proof -
    have t: "set (ee_timers ?s5) \<subseteq> set (ee_timers s)"
      using set_event_delete by (auto simp: event_fd_delete_def event_timeout_delete_def split: option.split)
    have "timer_ok L a [] ?s5 e" if "e \<in> set (ee_timers ?s5)" for e
    proof (rule timer_ok_trans)
      show "timer_ok L a (sn_buff (node_at s a)) s e" using s t that unfolding sender_base_def by blast
    qed (use f(2) in \<open>auto simp: event_fd_delete_def event_timeout_delete_def split: option.split\<close>)
    moreover have "find_hand ?s5 = find_hand s" "int_at ?s5 = int_at s" "sent ?s5 = sent s"
      by (auto simp: find_hand_def event_fd_delete_def event_timeout_delete_def split: option.split)
    ultimately show ?thesis using s conn [of ?s5] fr unfolding sender_base_def sender_closed_def by simp
  qed
  ultimately show ?thesis by blast
qed

end
