(* ===== verification/RudpSession.thy ===== *)
theory RudpSession
  imports RudpSender
begin

text \<open>
  Two processes that talk over a network which loses, duplicates and reorders datagrams: what the
  receiver's client gets is a prefix of what the sender's client has sent, nothing fails, no more than
  a window of packets is unacknowledged, and everything can still be delivered.
\<close>

section \<open>Timers of the sender\<close>

lemma fewer_timers:
  assumes "set es \<subseteq> set (ee_timers s)"
  shows "syn_phase L D r a s \<Longrightarrow> syn_phase L D r a (s\<lparr>ee_timers := es\<rparr>)"
    and "est_phase L D r k n a s \<Longrightarrow> est_phase L D r k n a (s\<lparr>ee_timers := es\<rparr>)"
    and "sender_closed L D r a s \<Longrightarrow> sender_closed L D r a (s\<lparr>ee_timers := es\<rparr>)"
proof -
  have "sender L D r k n a s \<Longrightarrow> sender L D r k n a (s\<lparr>ee_timers := es\<rparr>)" for k n
    by (rule sender_cong) (use assms in auto)
  then show "syn_phase L D r a s \<Longrightarrow> syn_phase L D r a (s\<lparr>ee_timers := es\<rparr>)"
    "est_phase L D r k n a s \<Longrightarrow> est_phase L D r k n a (s\<lparr>ee_timers := es\<rparr>)"
    by (simp_all add: syn_phase_def est_phase_def under_way_def)
  show "sender_closed L D r a (s\<lparr>ee_timers := es\<rparr>)" if "sender_closed L D r a s"
    using that assms unfolding sender_closed_def conn_def by (auto simp: timer_ok_def find_hand_def)
qed

lemma phase_seq:
  assumes "r + 4 + length D < 2 ^ 31"
  shows "syn_phase L D r a s \<Longrightarrow> sn_seq (node_at s a) \<noteq> -1" and "est_phase L D r k n a s \<Longrightarrow> sn_seq (node_at s a) \<noteq> -1"
proof -
  show "sn_seq (node_at s a) \<noteq> -1" if "syn_phase L D r a s"
    using that assms of_nat_not_minus1 [of r] by (simp add: syn_phase_def)
  assume e: "est_phase L D r k n a s"
  have "k \<le> length D" using e senderD(6) [of L D r k n a s] by (auto simp: est_phase_def queue_ok_def)
  then show "sn_seq (node_at s a) \<noteq> -1"
    using e assms of_nat_not_minus1 [of "r + 1 + k"] by (simp add: est_phase_def)
qed

lemma phase_base:
  assumes "r + 4 + length D < 2 ^ 31"
  shows "syn_phase L D r a s \<Longrightarrow> sender_base L D r a s" and "est_phase L D r k n a s \<Longrightarrow> sender_base L D r a s"
proof -
  show "sender_base L D r a s" if "syn_phase L D r a s"
    using phase_seq(1) [OF assms that] that sender_base_sender unfolding syn_phase_def by blast
  show "sender_base L D r a s" if "est_phase L D r k n a s"
    using phase_seq(2) [OF assms that] that sender_base_sender unfolding est_phase_def by blast
qed

lemma resend_syn:
  assumes "syn_phase L D r a s"
  shows "syn_phase L D r a (event_timeout (sendtowithdropsendto (set_node a (\<lambda>n. n\<lparr>sn_retransmit := sn_retransmit n + 1\<rparr>)
      (set_node a (\<lambda>n. n\<lparr>sn_seq := of_nat r\<rparr>) s)) (lk_fda L) (rudp_hdr RUDP_SYN (of_nat r)) (lk_b L)) t RETRANSMITSYN (NodePtr a))"
    (is "syn_phase L D r a ?s'")
proof -
  have "sender L D r 0 0 a s" using assms by (simp add: syn_phase_def)
  then have "sender L D r 0 0 a ?s'"
    by (rule sender_cong) (auto simp: event_timeout_def sendtowithdropsendto_def sent_ok_syn)
  then show ?thesis using assms by (simp add: syn_phase_def event_timeout_def sendtowithdropsendto_def)
qed

lemma sent_mono_timer: "sent (event_timeout_delete s fn arg) = sent s" "node_at (event_timeout_delete s fn arg) = node_at s"
  by (simp_all add: event_timeout_delete_def)

lemma syn_timer_unsent:
  assumes q: "quiet code" and b: "sender_base L D r a s" and st: "sn_state (node_at s a) \<noteq> SYN_SENT"
  shows "(\<exists>s'. retransmitsyn code now s a = Inr s' \<and> sender_closed L D r a s') \<or>
     retransmitsyn code now s a = Inr (event_timeout_delete s RETRANSMITSYN (NodePtr a))"
proof (cases "sn_retransmit (node_at s a) > RUDP_MAXRETRANS")
  case True
  let ?s = "event_timeout_delete s RETRANSMITSYN (NodePtr a)"
  have "sender_base L D r a ?s"
    using b set_event_delete unfolding sender_base_def conn_def
    by (auto simp: event_timeout_delete_def timer_ok_def find_hand_def dest!: subsetD)
  from retransmit_ok [OF q this, of now "NodePtr a" "find_hand ?s (lk_fda L)" RETRANSMITSYN]
  show ?thesis using True st sender_base_conn [OF b] by (simp add: retransmitsyn_def Let_def sent_mono_timer conn_def)
qed (use st in \<open>simp add: retransmitsyn_def Let_def sent_mono_timer\<close>)

lemma delete_timer_fewer: "set (snd (event_delete (ee_timers s) fn arg)) \<subseteq> set (ee_timers s)"
  by (rule set_event_delete)

lemma syn_timer:
  assumes q: "quiet code" and s: "syn_phase L D r a s" and bound: "r + 4 + length D < 2 ^ 31"
  shows "\<exists>s'. retransmitsyn code now s a = Inr s' \<and> (syn_phase L D r a s' \<or> sender_closed L D r a s')"
proof -
  let ?fd = "lk_fda L" and ?to = "lk_b L"
  let ?s1 = "event_timeout_delete s RETRANSMITSYN (NodePtr a)"
  have s1: "syn_phase L D r a ?s1" unfolding event_timeout_delete_def by (rule fewer_timers(1) [OF set_event_delete s])
  have c1: "conn ?s1 a ?fd ?to" "sn_state (node_at ?s1 a) = SYN_SENT" "sn_seq (node_at ?s1 a) = of_nat r"
    using s1 senderD(1) by (auto simp: syn_phase_def)
  have fd: "sn_fd (node_at ?s1 a) = ?fd" "sn_to (node_at ?s1 a) = ?to" using c1(1) by (simp_all add: conn_def)
  let ?s2 = "if sn_retransmit (node_at ?s1 a) \<le> RUDP_MAXRETRANS
    then event_timeout (sendtowithdropsendto (set_node a (\<lambda>n. n\<lparr>sn_retransmit := sn_retransmit n + 1\<rparr>)
      (set_node a (\<lambda>n. n\<lparr>sn_seq := of_nat r\<rparr>) ?s1)) ?fd (rudp_hdr RUDP_SYN (of_nat r)) ?to) (timeout_at now) RETRANSMITSYN (NodePtr a)
    else ?s1"
  have s2: "syn_phase L D r a ?s2" using s1 resend_syn [OF s1] by simp
  have c2: "conn (set_node a (\<lambda>n. n\<lparr>sn_seq := of_nat r\<rparr>) ?s1) a ?fd ?to" using c1(1) by simp
  have eq: "retransmitsyn code now s a =
      (if sn_retransmit (node_at ?s2 a) > RUDP_MAXRETRANS
       then retransmit code now ?s2 (NodePtr a) ?fd (find_hand ?s1 ?fd) ?to RETRANSMITSYN else Inr ?s2)"
    unfolding retransmitsyn_def Let_def fd c1(2) conn_reads(3) [OF c1(1)] c1(3) conn_updates(1) [OF c1(1)] conn_updates(4) [OF c2] by simp
  show ?thesis
  proof (cases "sn_retransmit (node_at ?s2 a) > RUDP_MAXRETRANS")
    case True
    then show ?thesis unfolding eq
      using retransmit_ok [OF q phase_base(1) [OF bound s2], of now "NodePtr a" "find_hand ?s1 ?fd" RETRANSMITSYN] by auto
  next
    case False
    then show ?thesis unfolding eq using s2 by auto
  qed
qed

text \<open>A data timer of which the packet is acknowledged does nothing.\<close>

lemma data_timer_done:
  assumes "copy_at s c = \<lparr>cp_fd = fd, cp_to = to, cp_buff = Some b\<rparr>" and "bd_data (buf_at s b) = None"
  shows "retransmitdata code now s c = Inr (event_timeout_delete s RETRANSMITDATA (CopyPtr c))"
  using assms by (simp add: retransmitdata_def event_timeout_delete_def deref_def)

lemma est_phase_resend:
  assumes s: "est_phase L D r k n a s" and c: "c < next_addr s"
    "copy_at s c = \<lparr>cp_fd = lk_fda L, cp_to = lk_b L, cp_buff = Some (sn_buff (node_at s a) ! i)\<rparr>" and i: "i < n"
  shows "est_phase L D r k n a (event_timeout (sendtowithdropsendto
      (s\<lparr>buf_at := (buf_at s)(b := (buf_at s b)\<lparr>bd_retransmit := m\<rparr>)\<rparr>) (lk_fda L) (data_pkt r D (k + i)) (lk_b L)) t RETRANSMITDATA (CopyPtr c))"
    (is "est_phase L D r k n a ?s'")
proof -
  let ?bs = "sn_buff (node_at s a)"
  have snd: "sender L D r k n a s" using s by (simp add: est_phase_def)
  have d: "bd_data (buf_at ?s' x) = bd_data (buf_at s x)" "bd_len (buf_at ?s' x) = bd_len (buf_at s x)" for x
    by (simp_all add: event_timeout_def sendtowithdropsendto_def)
  have "take n ?bs ! i \<in> set (take n ?bs)" using senderD(7) [OF snd] i by (intro nth_mem) simp
  then have b: "?bs ! i \<in> set (take n ?bs)" "?bs ! i < next_addr s" using i senderD(7,8) [OF snd] by simp_all
  have old: "timer_ok L a (take n ?bs) ?s' e" if "e \<in> set (ee_timers s)" for e
    by (rule timer_ok_trans [OF senderD(9) [OF snd, rule_format, OF that]])
      (unfold d, simp_all add: event_timeout_def sendtowithdropsendto_def)
  have new: "timer_ok L a (take n ?bs) ?s' \<lparr>e_fn = RETRANSMITDATA, e_fd = 0, e_time = t, e_arg = CopyPtr c\<rparr>"
    using b c by (simp add: timer_ok_def event_timeout_def sendtowithdropsendto_def)
  have "queue_ok D r k n ?bs (buf_at ?s')" using senderD(6) [OF snd] unfolding queue_ok_def d .
  moreover have "conn ?s' a (lk_fda L) (lk_b L)" "find_hand ?s' = find_hand s"
    using senderD(1) [OF snd] by (auto simp: conn_def find_hand_def event_timeout_def sendtowithdropsendto_def)
  moreover have "\<forall>e \<in> set (ee_timers ?s'). timer_ok L a (take n ?bs) ?s' e"
    using old new by (simp add: event_timeout_def [of "sendtowithdropsendto _ _ _ _"]) (simp add: sendtowithdropsendto_def)
  moreover have "\<forall>x \<in> set (sent ?s'). sent_ok L D r (k + n) x"
    using senderD(10) [OF snd] sent_ok_data [of "k + i" "k + n"] i by (simp add: event_timeout_def sendtowithdropsendto_def)
  ultimately have "sender L D r k n a ?s'"
    using senderD [OF snd] unfolding sender_def by (simp add: event_timeout_def sendtowithdropsendto_def listening_def)
  then show ?thesis using s by (simp add: est_phase_def event_timeout_def sendtowithdropsendto_def under_way_def)
qed

lemma data_timer:
  assumes q: "quiet code" and s: "est_phase L D r k n a s" and bound: "r + 4 + length D < 2 ^ 31"
    and c: "c < next_addr s" "copy_at s c = \<lparr>cp_fd = lk_fda L, cp_to = lk_b L, cp_buff = Some b\<rparr>"
      "bd_data (buf_at s b) = None \<or> b \<in> set (take n (sn_buff (node_at s a)))"
  shows "\<exists>s'. retransmitdata code now s c = Inr s' \<and> (est_phase L D r k n a s' \<or> sender_closed L D r a s')"
proof (cases "bd_data (buf_at s b)")
  case None
  then show ?thesis using data_timer_done [OF c(2) None, of code now] fewer_timers(2) [OF set_event_delete s]
    by (auto simp: event_timeout_delete_def)
next
  case (Some d)
  let ?bs = "sn_buff (node_at s a)" and ?fd = "lk_fda L" and ?to = "lk_b L"
  let ?s1 = "event_timeout_delete s RETRANSMITDATA (CopyPtr c)"
  have fr: "copy_at ?s1 = copy_at s" "buf_at ?s1 = buf_at s" "node_at ?s1 = node_at s" "next_addr ?s1 = next_addr s" "find_hand ?s1 = find_hand s"
    by (auto simp: event_timeout_delete_def find_hand_def)
  have s1: "est_phase L D r k n a ?s1" unfolding event_timeout_delete_def by (rule fewer_timers(2) [OF set_event_delete s])
  have snd: "sender L D r k n a s" using s by (simp add: est_phase_def)
  from c(3) Some obtain i where i: "i < n" "i < length ?bs" "?bs ! i = b" by (auto simp: in_set_conv_nth)
  have d: "d = data_pkt r D (k + i)" "bd_len (buf_at s b) = length (D ! (k + i))"
    using senderD(6) [OF snd] i Some by (auto simp: queue_ok_def)
  obtain h where h: "find_hand s ?fd = Some h" using senderD(4) [OF snd] by auto
  show ?thesis
  proof (cases "bd_retransmit (buf_at s b) < RUDP_MAXRETRANS")
    case True
    have "load d 0 (hdr_size + bd_len (buf_at s b)) = Inr (data_pkt r D (k + i))" unfolding d by (simp add: load_def data_pkt_def)
    then have "retransmitdata code now s c = Inr (event_timeout (sendtowithdropsendto
        (?s1\<lparr>buf_at := (buf_at ?s1)(b := (buf_at ?s1 b)\<lparr>bd_retransmit := bd_retransmit (buf_at s b) + 1\<rparr>)\<rparr>) ?fd (data_pkt r D (k + i)) ?to)
        (timeout_at now) RETRANSMITDATA (CopyPtr c))"
      using Some h True c(2) by (simp add: retransmitdata_def Let_def fr deref_def)
    moreover have "copy_at ?s1 c = \<lparr>cp_fd = ?fd, cp_to = ?to, cp_buff = Some (sn_buff (node_at ?s1 a) ! i)\<rparr>"
      using c(2) i(3) fr by simp
    ultimately show ?thesis using est_phase_resend [OF s1 _ _ i(1), of c] c(1) fr(4) by auto
  next
    case False
    have "retransmitdata code now s c = retransmit code now ?s1 (CopyPtr c) ?fd (Some h) ?to RETRANSMITDATA"
      using Some h False c(2) by (simp add: retransmitdata_def Let_def fr deref_def)
    then show ?thesis
      using retransmit_ok [OF q phase_base(2) [OF bound s1], of now "CopyPtr c" "Some h" RETRANSMITDATA] by auto
  qed
qed

lemma timer_cases:
  assumes "timer_ok L a bs s e"
  obtains "e_fn e = RETRANSMITSYN" "e_arg e = NodePtr a"
  | c b where "e_fn e = RETRANSMITDATA" "e_arg e = CopyPtr c" "c < next_addr s"
      "copy_at s c = \<lparr>cp_fd = lk_fda L, cp_to = lk_b L, cp_buff = Some b\<rparr>" "bd_data (buf_at s b) = None \<or> b \<in> set bs"
  using assms unfolding timer_ok_def by blast

text \<open>A timer of the sender fires.\<close>

lemma dispatch_syn:
  assumes q: "quiet code" and s: "syn_phase L D r a s" and bound: "r + 4 + length D < 2 ^ 31" and t: "ee_timers s = e # es"
  shows "\<exists>s'. event_dispatch_timer code now s = Inr s' \<and> (syn_phase L D r a s' \<or> sender_closed L D r a s')"
proof -
  let ?s = "s\<lparr>ee_timers := es\<rparr>"
  have s1: "syn_phase L D r a ?s" by (rule fewer_timers(1) [OF _ s]) (auto simp: t)
  have "timer_ok L a [] s e" using s t senderD(9) [of L D r 0 0 a s] by (simp add: syn_phase_def)
  then show ?thesis
  proof (cases rule: timer_cases)
    case 1
    then show ?thesis using syn_timer [OF q s1 bound, of now] by (simp add: event_dispatch_timer_def t)
  next
    case (2 c b)
    have "retransmitdata code now ?s c = Inr (event_timeout_delete ?s RETRANSMITDATA (CopyPtr c))"
      by (rule data_timer_done) (use 2 in simp_all)
    moreover have "syn_phase L D r a (event_timeout_delete ?s RETRANSMITDATA (CopyPtr c))"
      unfolding event_timeout_delete_def by (rule fewer_timers(1) [OF set_event_delete s1])
    ultimately show ?thesis using 2 by (simp add: event_dispatch_timer_def t)
  qed
qed

lemma dispatch_est:
  assumes q: "quiet code" and s: "est_phase L D r k n a s" and bound: "r + 4 + length D < 2 ^ 31" and t: "ee_timers s = e # es"
  shows "\<exists>s'. event_dispatch_timer code now s = Inr s' \<and> (est_phase L D r k n a s' \<or> sender_closed L D r a s')"
proof -
  let ?s = "s\<lparr>ee_timers := es\<rparr>"
  have s1: "est_phase L D r k n a ?s" by (rule fewer_timers(2) [OF _ s]) (auto simp: t)
  have "timer_ok L a (take n (sn_buff (node_at s a))) s e" using s t senderD(9) [of L D r k n a s] by (simp add: est_phase_def)
  then show ?thesis
  proof (cases rule: timer_cases)
    case 1
    have "est_phase L D r k n a (event_timeout_delete ?s RETRANSMITSYN (NodePtr a))"
      unfolding event_timeout_delete_def by (rule fewer_timers(2) [OF set_event_delete s1])
    moreover have "sn_state (node_at ?s a) \<noteq> SYN_SENT" using s by (simp add: est_phase_def)
    ultimately show ?thesis using syn_timer_unsent [OF q phase_base(2) [OF bound s1], of now] 1
      by (auto simp: event_dispatch_timer_def t)
  next
    case (2 c b)
    then show ?thesis using data_timer [OF q s1 bound, of c b now] by (simp add: event_dispatch_timer_def t)
  qed
qed

lemma dispatch_closed:
  assumes q: "quiet code" and s: "sender_closed L D r a s" and t: "ee_timers s = e # es"
  shows "\<exists>s'. event_dispatch_timer code now s = Inr s' \<and> sender_closed L D r a s'"
proof -
  let ?s = "s\<lparr>ee_timers := es\<rparr>"
  have s1: "sender_closed L D r a ?s" by (rule fewer_timers(3) [OF _ s]) (auto simp: t)
  have del: "sender_closed L D r a (event_timeout_delete ?s fn arg)" for fn arg
    unfolding event_timeout_delete_def by (rule fewer_timers(3) [OF set_event_delete s1])
  have "timer_ok L a [] s e" using s t by (simp add: sender_closed_def)
  then show ?thesis
  proof (cases rule: timer_cases)
    case 1
    have "sn_state (node_at ?s a) \<noteq> SYN_SENT" using s by (simp add: sender_closed_def)
    then show ?thesis using syn_timer_unsent [OF q sender_base_closed [OF s1], of now] 1 del
      by (auto simp: event_dispatch_timer_def t)
  next
    case (2 c b)
    have "retransmitdata code now ?s c = Inr (event_timeout_delete ?s RETRANSMITDATA (CopyPtr c))"
      by (rule data_timer_done) (use 2 in simp_all)
    then show ?thesis using 2 del by (simp add: event_dispatch_timer_def t)
  qed
qed

section \<open>Sending\<close>

lemma data_pkt_append: "j < length D \<Longrightarrow> data_pkt r (D @ [d]) j = data_pkt r D j"
  by (simp add: data_pkt_def nth_append)

lemma sent_ok_append:
  assumes "sent_ok L D r m x" and "m \<le> length D"
  shows "sent_ok L (D @ [d]) r m x"
proof -
  from assms(1) consider "x = (lk_fda L, lk_b L, rudp_hdr RUDP_SYN (of_nat r))"
    | j where "j < m" "x = (lk_fda L, lk_b L, data_pkt r D j)" unfolding sent_ok_def by blast
  then show ?thesis
  proof cases
    case (2 j)
    then show ?thesis using sent_ok_data [of j m L "D @ [d]" r] data_pkt_append [of j D r d] assms(2) by simp
  qed (simp add: sent_ok_syn)
qed

lemma add_data_ok:
  assumes s: "sender L D r k n a s" and len: "0 \<le> len" "nat len \<le> length data"
  shows "\<exists>s'. addData s (Some a) data len junk = Inr s' \<and> sender L (D @ [take (nat len) data]) r k n a s' \<and>
     node_at s' a = (node_at s a)\<lparr>sn_buff := sn_buff (node_at s a) @ [next_addr s]\<rparr> \<and> sent s' = sent s"
proof -
  let ?d = "take (nat len) data" and ?b = "next_addr s" and ?bs = "sn_buff (node_at s a)"
  let ?s' = "s\<lparr>buf_at := (buf_at s)(?b := \<lparr>bd_data = Some (rudp_hdr RUDP_DATA (-1) @ ?d), bd_seq = -1, bd_len = nat len, bd_retransmit = junk\<rparr>),
      next_addr := ?b + 1, node_at := (node_at s)(a := (node_at s a)\<lparr>sn_buff := ?bs @ [?b]\<rparr>)\<rparr>"
  have eq: "addData s (Some a) data len junk = Inr ?s'" using len by (simp add: addData_def load_def Let_def)
  note q = senderD(6) [OF s]
  have l: "k + length ?bs = length D" "length ?d = nat len" using q len by (simp_all add: queue_ok_def)
  have new: "?b \<notin> set ?bs" using senderD(8) [OF s] by blast
  have "queue_ok (D @ [?d]) r k n (?bs @ [?b]) (buf_at ?s')"
    unfolding queue_ok_def
  proof (intro conjI allI impI)
    fix i
    assume i: "i < length (?bs @ [?b])"
    show "bd_len (buf_at ?s' ((?bs @ [?b]) ! i)) = length ((D @ [?d]) ! (k + i))"
      "bd_data (buf_at ?s' ((?bs @ [?b]) ! i)) =
        Some (if i < n then data_pkt r (D @ [?d]) (k + i) else rudp_hdr RUDP_DATA (-1) @ (D @ [?d]) ! (k + i))"
    proof (atomize (full), cases "i < length ?bs")
      case True
      then have "?bs ! i \<noteq> ?b" using new nth_mem [OF True] by metis
      then show "bd_len (buf_at ?s' ((?bs @ [?b]) ! i)) = length ((D @ [?d]) ! (k + i)) \<and> bd_data (buf_at ?s' ((?bs @ [?b]) ! i)) =
          Some (if i < n then data_pkt r (D @ [?d]) (k + i) else rudp_hdr RUDP_DATA (-1) @ (D @ [?d]) ! (k + i))"
        using q True l by (simp add: nth_append queue_ok_def data_pkt_append)
    next
      case False
      then have "i = length ?bs" using i by simp
      then show "bd_len (buf_at ?s' ((?bs @ [?b]) ! i)) = length ((D @ [?d]) ! (k + i)) \<and> bd_data (buf_at ?s' ((?bs @ [?b]) ! i)) =
          Some (if i < n then data_pkt r (D @ [?d]) (k + i) else rudp_hdr RUDP_DATA (-1) @ (D @ [?d]) ! (k + i))"
        using l senderD(7) [OF s] len by (simp add: nth_append)
    qed
  qed (use q new in \<open>simp_all add: queue_ok_def\<close>)
  moreover have "timer_ok L a (take n (?bs @ [?b])) ?s' e" if "e \<in> set (ee_timers s)" for e
    by (rule timer_ok_trans [OF senderD(9) [OF s, rule_format, OF that]]) auto
  moreover have "\<forall>x \<in> set (sent s). sent_ok L (D @ [?d]) r (k + n) x"
    using senderD(7,10) [OF s] l sent_ok_append by fastforce
  moreover have "conn ?s' a (lk_fda L) (lk_b L)" "find_hand ?s' = find_hand s"
    using senderD(1) [OF s] by (auto simp: conn_def find_hand_def)
  moreover have "\<forall>x \<in> set (?bs @ [?b]). x < next_addr ?s'" using senderD(8) [OF s] by (auto simp: less_SucI)
  ultimately have "sender L (D @ [?d]) r k n a ?s'" using senderD [OF s] listening_cong [of ?s' s] unfolding sender_def by simp
  then show ?thesis using eq by auto
qed

lemma sendto_conn:
  assumes c: "conn s a fd to" and "ptr_fd s rs = Inr fd" and "sn_seq (node_at s a) \<noteq> -1" and "len \<le> int RUDP_MAXPKTSIZE"
    and st: "sn_state (node_at s a) \<noteq> CLOSED" "sn_state (node_at s a) \<noteq> LISTEN"
  shows "rudp_sendto now rnd junk s rs data len to =
    bindR (addData (set_node a (\<lambda>n. n\<lparr>sn_retransmit := 0\<rparr>) s) (Some a) data len junk) (\<lambda>s'.
    bindR (if sn_state (node_at s a) = ESTABLISH \<and> sizebuffer s' fd to < RUDP_WINDOW
           then send_window now fd to [length (sn_buff (node_at s a))..<RUDP_WINDOW] s' else Inr s') (\<lambda>s'. Inr (0, s')))"
proof -
  let ?s1 = "set_node a (\<lambda>n. n\<lparr>sn_retransmit := 0\<rparr>) s"
  have c1: "conn ?s1 a fd to" using c by simp
  show ?thesis
    unfolding rudp_sendto_def using assms conn_reads [OF c] conn_updates(5) [OF c]
    by (simp add: Let_def deref_def conn_getS [OF c1] conn_reads(6) [OF c1] cong: if_cong)
qed

lemma sendto_syn:
  assumes s: "syn_phase L D r a s" and len: "0 \<le> len" "nat len \<le> length data" "len \<le> int RUDP_MAXPKTSIZE"
    and bound: "r + 4 + length D < 2 ^ 31"
  shows "\<exists>s'. rudp_sendto now rnd junk s (IntPtr 0) data len (lk_b L) = Inr (0, s') \<and> syn_phase L (D @ [take (nat len) data]) r a s'"
proof -
  have snd: "sender L D r 0 0 a s" and st: "sn_state (node_at s a) = SYN_SENT" using s by (simp_all add: syn_phase_def)
  have s1: "sender L D r 0 0 a (set_node a (\<lambda>n. n\<lparr>sn_retransmit := 0\<rparr>) s)" by (rule sender_set_node [OF snd]) simp_all
  from add_data_ok [OF s1 len(1,2), of junk] obtain s2 where
    s2: "addData (set_node a (\<lambda>n. n\<lparr>sn_retransmit := 0\<rparr>) s) (Some a) data len junk = Inr s2"
      "sender L (D @ [take (nat len) data]) r 0 0 a s2"
      "node_at s2 a = (node_at (set_node a (\<lambda>n. n\<lparr>sn_retransmit := 0\<rparr>) s) a)\<lparr>sn_buff := sn_buff (node_at s a) @ [next_addr s]\<rparr>" "sent s2 = sent s" by auto
  have "rudp_sendto now rnd junk s (IntPtr 0) data len (lk_b L) = Inr (0, s2)"
    using sendto_conn [OF senderD(1) [OF snd] _ phase_seq(1) [OF bound s] len(3), of "IntPtr 0" now rnd junk data]
      senderD(3) [OF snd] st s2(1) by simp
  then show ?thesis using s2(2-4) s by (simp add: syn_phase_def)
qed

lemma sendto_est:
  assumes s: "est_phase L D r k n a s" and len: "0 \<le> len" "nat len \<le> length data" "len \<le> int RUDP_MAXPKTSIZE"
    and bound: "r + 4 + length D < 2 ^ 31"
  shows "\<exists>s' n'. rudp_sendto now rnd junk s (IntPtr 0) data len (lk_b L) = Inr (0, s') \<and>
     est_phase L (D @ [take (nat len) data]) r k n' a s' \<and> n \<le> n'"
proof -
  let ?fd = "lk_fda L" and ?to = "lk_b L" and ?D = "D @ [take (nat len) data]" and ?bs = "sn_buff (node_at s a)"
  have snd: "sender L D r k n a s" and st: "sn_state (node_at s a) = ESTABLISH" "sn_seq (node_at s a) = of_nat (r + 1 + k)"
      "sn_nextpacket (node_at s a) = int n" "window n (length ?bs)" "under_way L D r k n s" using s by (simp_all add: est_phase_def)
  have s1: "sender L D r k n a (set_node a (\<lambda>n. n\<lparr>sn_retransmit := 0\<rparr>) s)" by (rule sender_set_node [OF snd]) simp_all
  from add_data_ok [OF s1 len(1,2), of junk] obtain s2 where
    s2: "addData (set_node a (\<lambda>n. n\<lparr>sn_retransmit := 0\<rparr>) s) (Some a) data len junk = Inr s2" "sender L ?D r k n a s2"
      "node_at s2 a = (node_at (set_node a (\<lambda>n. n\<lparr>sn_retransmit := 0\<rparr>) s) a)\<lparr>sn_buff := ?bs @ [next_addr s]\<rparr>" "sent s2 = sent s" by auto
  have kD: "k + n \<le> length D" using senderD(6,7) [OF snd] by (simp add: queue_ok_def)
  have out: "under_way L ?D r k n s2" using st(5) s2(4) kD by (simp add: under_way_def data_pkt_append)
  have size: "sizebuffer s2 ?fd ?to = length ?bs + 1" using conn_reads(6) [OF senderD(1) [OF s2(2)]] s2(3) by simp
  have eq: "rudp_sendto now rnd junk s (IntPtr 0) data len ?to =
      bindR (if length ?bs + 1 < RUDP_WINDOW then send_window now ?fd ?to [length ?bs..<RUDP_WINDOW] s2 else Inr s2) (\<lambda>s'. Inr (0, s'))"
    using sendto_conn [OF senderD(1) [OF snd] _ phase_seq(2) [OF bound s] len(3), of "IntPtr 0" now rnd junk data]
      senderD(3) [OF snd] st(1) s2(1) size by simp
  show ?thesis
  proof (cases "length ?bs + 1 < RUDP_WINDOW")
    case True
    then have n: "n = length ?bs" using st(4) by (simp add: window_def)
    obtain s3 where "send_window now ?fd ?to [n..<RUDP_WINDOW] s2 = Inr s3"
      "sender L ?D r k (min RUDP_WINDOW (length ?bs + 1)) a s3" "sn_nextpacket (node_at s3 a) = int (min RUDP_WINDOW (length ?bs + 1))"
      "sn_buff (node_at s3 a) = ?bs @ [next_addr s]" "same_ctl (node_at s2 a) (node_at s3 a)"
      "under_way L ?D r k (min RUDP_WINDOW (length ?bs + 1)) s3"
      using window_filled [OF s2(2), of now] s2(3) st(2,3) True n out by auto
    then show ?thesis using True n eq s2(3) st(1,2)
      by (intro exI [of _ s3] exI [of _ "min RUDP_WINDOW (length ?bs + 1)"]) (auto simp: est_phase_def same_ctl_def window_def)
  next
    case False
    moreover have "window n (length ?bs + 1)" using st(4) False by (simp add: window_def)
    ultimately show ?thesis using eq s2(2,3) st(1-3) out by (intro exI [of _ s2] exI [of _ n]) (simp add: est_phase_def)
  qed
qed

lemma sendto_closed:
  assumes "sender_closed L D r a s" and "len \<le> int RUDP_MAXPKTSIZE"
  shows "rudp_sendto now rnd junk s (IntPtr 0) data len (lk_b L) = Inr (0, s)"
  using assms conn_reads(1,3) [of s a "lk_fda L" "lk_b L"] by (simp add: rudp_sendto_def sender_closed_def Let_def)

text \<open>A process that has not sent anything yet.\<close>

definition sender_fresh :: "rudp_link \<Rightarrow> rudp \<Rightarrow> bool" where
  "sender_fresh L s \<longleftrightarrow> sockets s = [] \<and> int_at s 0 = lk_fda L \<and> find_hand s (lk_fda L) \<noteq> None \<and> ee_timers s = [] \<and> sent s = [] \<and> listening (lk_fda L) s"

lemma sendto_fresh:
  assumes s: "sender_fresh L s" and len: "0 \<le> len" "nat len \<le> length data" "len \<le> int RUDP_MAXPKTSIZE"
  shows "\<exists>s'. rudp_sendto now rnd junk s (IntPtr 0) data len (lk_b L) = Inr (0, s') \<and>
     syn_phase L [take (nat len) data] (rnd mod 65535) (next_addr s) s'"
proof -
  let ?fd = "lk_fda L" and ?to = "lk_b L" and ?a = "next_addr s" and ?r = "rnd mod 65535"
  let ?n = "\<lparr>sn_fd = ?fd, sn_to = ?to, sn_state = SYN_SENT, sn_seq = of_nat ?r, sn_retransmit = 0,
      sn_close_ask = 0, sn_nextpacket = 0, sn_i = IntPtr 0, sn_buff = []\<rparr>"
  let ?s1 = "s\<lparr>node_at := (node_at s)(?a := ?n), sockets := [?a], next_addr := Suc ?a,
      sent := [(?fd, ?to, rudp_hdr RUDP_SYN (of_nat ?r))],
      ee_timers := [\<lparr>e_fn = RETRANSMITSYN, e_fd = 0, e_time = timeout_at now, e_arg = NodePtr ?a\<rparr>]\<rparr>"
  have none: "getS s ?fd ?to = None" using s by (simp add: sender_fresh_def getS_def)
  have s1: "sender L [] ?r 0 0 ?a ?s1"
    using s by (simp add: sender_def sender_fresh_def conn_def queue_ok_def timer_ok_def sent_ok_syn find_hand_def listening_def)
  from add_data_ok [OF s1 len(1,2), of junk] obtain s2 where
    s2: "addData ?s1 (Some ?a) data len junk = Inr s2" "sender L ([] @ [take (nat len) data]) ?r 0 0 ?a s2"
      "node_at s2 ?a = (node_at ?s1 ?a)\<lparr>sn_buff := sn_buff (node_at ?s1 ?a) @ [next_addr ?s1]\<rparr>" "sent s2 = sent ?s1" by blast
  let ?l = "addsock s ?fd ?to (IntPtr 0)"
  have cl: "conn ?l ?a ?fd ?to" using s by (simp add: addsock_def Let_def conn_def sender_fresh_def)
  have l: "sn_state (node_at ?l ?a) = LISTEN" by (simp add: addsock_def Let_def)
  have c3: "conn (set_node ?a f ?l) ?a ?fd ?to" if "\<And>n. sn_fd (f n) = sn_fd n" "\<And>n. sn_to (f n) = sn_to n" for f
    using cl that by simp
  let ?m = "set_node ?a (\<lambda>n. n\<lparr>sn_retransmit := 0\<rparr>) ?l"
  let ?m1 = "sendtowithdropsendto ?m ?fd (rudp_hdr RUDP_SYN (of_nat ?r)) ?to"
  have cm1: "conn ?m1 ?a ?fd ?to" using c3 [of "\<lambda>n. n\<lparr>sn_retransmit := 0\<rparr>"] by (simp add: sendtowithdropsendto_def conn_def)
  let ?m2 = "set_node ?a (\<lambda>n. n\<lparr>sn_state := SYN_SENT\<rparr>) ?m1"
  have cm2: "conn ?m2 ?a ?fd ?to" using cm1 by simp
  let ?m3 = "event_timeout (set_node ?a (\<lambda>n. n\<lparr>sn_seq := of_nat ?r\<rparr>) ?m2) (timeout_at now) RETRANSMITSYN (NodePtr ?a)"
  have m3: "?m3 = ?s1"
    using s by (simp add: event_timeout_def set_node_def sendtowithdropsendto_def addsock_def Let_def sender_fresh_def)
  have c1: "conn ?s1 ?a ?fd ?to" using senderD(1) [OF s1] .
  have "rudp_sendto now rnd junk s (IntPtr 0) data len ?to = bindR (addData ?s1 (Some ?a) data len junk) (\<lambda>s'. Inr (0, s'))"
    unfolding rudp_sendto_def using s len(3) none
    by (simp add: Let_def deref_def getSeq_def sender_fresh_def conn_getS [OF cl] conn_reads(1) [OF cl] l conn_updates(5) [OF cl]
        conn_updates(3) [OF cm1] conn_updates(1) [OF cm2] m3 conn_getS [OF c1])
  then show ?thesis using s2 by (simp add: syn_phase_def)
qed

section \<open>The receiver\<close>

fun call_data :: "rudp_call \<Rightarrow> bytes list" where
  "call_data (CallRecv f p src d) = [d]"
| "call_data (CallEvent h i e to) = []"

definition delivered :: "rudp \<Rightarrow> bytes list" where
  "delivered s = concat (map call_data (calls s))"

text \<open>A receiver that has not seen the SYN: it has no connection, or one that listens.\<close>

definition receiver_idle :: "rudp_link \<Rightarrow> rudp \<Rightarrow> bool" where
  "receiver_idle L s \<longleftrightarrow> (sockets s = [] \<or> (\<exists>b. conn s b (lk_fdb L) (lk_a L) \<and> sn_state (node_at s b) = LISTEN \<and> sn_seq (node_at s b) = 0)) \<and>
     find_hand s (lk_fdb L) \<noteq> None \<and> calls s = [] \<and> sent s = [] \<and>
     listening (lk_fdb L) s \<and> (\<forall>e \<in> set (ee s). e_arg e = FunPtr (lk_f L))"

text \<open>A receiver that has given the first \<open>m\<close> pieces of data to its client.\<close>

definition receiver :: "rudp_link \<Rightarrow> bytes list \<Rightarrow> nat \<Rightarrow> nat \<Rightarrow> rudp \<Rightarrow> bool" where
  "receiver L D r m s \<longleftrightarrow> (\<exists>b. conn s b (lk_fdb L) (lk_a L) \<and> sn_state (node_at s b) = ESTABLISH \<and>
     sn_seq (node_at s b) = of_nat (r + 1 + m)) \<and> find_hand s (lk_fdb L) \<noteq> None \<and>
     m \<le> length D \<and> delivered s = take m D \<and> (\<forall>x \<in> set (sent s). \<exists>j \<le> m. x = (lk_fdb L, lk_a L, ack_pkt r j)) \<and>
     listening (lk_fdb L) s \<and> (\<forall>e \<in> set (ee s). e_arg e = FunPtr (lk_f L))"

lemma receiver_append: "receiver L D r m s \<Longrightarrow> receiver L (D @ [d]) r m s"
  by (simp add: receiver_def)

lemma receiver_acks:
  assumes "receiver L D r m s" and "m \<le> m'" "j \<le> m'" and "x \<in> set (sent s) \<or> x = (lk_fdb L, lk_a L, ack_pkt r j)"
  shows "\<exists>i \<le> m'. x = (lk_fdb L, lk_a L, ack_pkt r i)"
  using assms(4)
proof
  assume "x \<in> set (sent s)"
  then obtain i where "i \<le> m" "x = (lk_fdb L, lk_a L, ack_pkt r i)" using assms(1) unfolding receiver_def by blast
  then show ?thesis using assms(2) by (intro exI [of _ i]) simp
next
  assume "x = (lk_fdb L, lk_a L, ack_pkt r j)"
  then show ?thesis using assms(3) by (intro exI [of _ j]) simp
qed

text \<open>The connection a datagram finds, or makes.\<close>

lemma receiver_idle_conn:
  assumes "receiver_idle L s"
  shows "\<exists>b. let l = (if getSeq s (lk_fdb L) (lk_a L) = -1 then addsock s (lk_fdb L) (lk_a L) arg else s)
    in conn l b (lk_fdb L) (lk_a L) \<and> sn_state (node_at l b) = LISTEN \<and> sn_seq (node_at l b) = 0 \<and> receiver_idle L l"
proof (cases "sockets s = []")
  case True
  let ?l = "addsock s (lk_fdb L) (lk_a L) arg"
  have "getSeq s (lk_fdb L) (lk_a L) = -1" using True by (simp add: getSeq_def getS_def)
  moreover have "conn ?l (next_addr s) (lk_fdb L) (lk_a L)" "sn_state (node_at ?l (next_addr s)) = LISTEN" "sn_seq (node_at ?l (next_addr s)) = 0"
    using True by (simp_all add: conn_def addsock_def Let_def)
  moreover from this have "receiver_idle L ?l"
    using assms unfolding receiver_idle_def by (auto simp: addsock_def Let_def find_hand_def listening_def)
  ultimately show ?thesis by (intro exI [of _ "next_addr s"]) (simp add: Let_def)
next
  case False
  then obtain b where b: "conn s b (lk_fdb L) (lk_a L)" "sn_state (node_at s b) = LISTEN" "sn_seq (node_at s b) = 0"
    using assms by (auto simp: receiver_idle_def)
  then show ?thesis using conn_reads(3) [OF b(1)] assms by (intro exI [of _ b]) (simp add: Let_def)
qed

lemma recv_idle:
  assumes "receiver_idle L s" and "length d \<le> RUDP_MAXPKTSIZE"
  shows "\<exists>l b. recvhandler code now buf0 s (lk_fdb L) arg (lk_a L) (rudp_hdr ty q @ d) = Inr (0, recv_listen l (lk_fdb L) (lk_a L) ty q) \<and>
    conn l b (lk_fdb L) (lk_a L) \<and> receiver_idle L l"
proof -
  let ?fd = "lk_fdb L" and ?to = "lk_a L"
  let ?l = "if getSeq s ?fd ?to = -1 then addsock s ?fd ?to arg else s"
  obtain b where b: "conn ?l b ?fd ?to" "sn_state (node_at ?l b) = LISTEN" "sn_seq (node_at ?l b) = 0" "receiver_idle L ?l"
    using receiver_idle_conn [OF assms(1), of arg] by (auto simp: Let_def)
  obtain h where h: "find_hand ?l ?fd = Some h" using b(4) by (auto simp: receiver_idle_def)
  have again: "recvhandler code now buf0 s ?fd arg ?to (rudp_hdr ty q @ d) = recvhandler code now buf0 ?l ?fd arg ?to (rudp_hdr ty q @ d)"
    using conn_reads(3) [OF b(1)] b(3) assms(2) by (simp add: recvhandler_def Let_def)
  show ?thesis unfolding again
    using recvhandler_packet [OF b(1) _ h assms(2), of code now buf0 arg ty q] b by (intro exI [of _ ?l] exI [of _ b]) simp
qed

lemma recv_first_syn:
  assumes "receiver_idle L s"
  shows "\<exists>s'. recvhandler code now buf0 s (lk_fdb L) arg (lk_a L) (rudp_hdr RUDP_SYN (of_nat r)) = Inr (0, s') \<and> receiver L D r 0 s' \<and>
    (lk_fdb L, lk_a L, ack_pkt r 0) \<in> set (sent s')"
proof -
  let ?fd = "lk_fdb L" and ?to = "lk_a L"
  obtain l b where l: "recvhandler code now buf0 s ?fd arg ?to (rudp_hdr RUDP_SYN (of_nat r)) =
      Inr (0, recv_listen l ?fd ?to RUDP_SYN (of_nat r))" "conn l b ?fd ?to" "receiver_idle L l"
    using recv_idle [OF assms, of "[]" code now buf0 arg RUDP_SYN "of_nat r"] by auto
  let ?m = "sendtowithdropsendto l ?fd (ack_pkt r 0) ?to"
  have m: "conn ?m b ?fd ?to" using l(2) by (simp add: sendtowithdropsendto_def conn_def)
  let ?s' = "set_node b (\<lambda>n. n\<lparr>sn_seq := of_nat (r + 1)\<rparr>) (set_node b (\<lambda>n. n\<lparr>sn_state := ESTABLISH\<rparr>) ?m)"
  have "conn (set_node b (\<lambda>n. n\<lparr>sn_state := ESTABLISH\<rparr>) ?m) b ?fd ?to" using m by simp
  then have "recv_listen l ?fd ?to RUDP_SYN (of_nat r) = ?s'"
    using conn_updates(3) [OF m] conn_updates(1) [of _ b ?fd ?to] by (simp add: recv_listen_def Let_def add.commute)
  moreover have "receiver L D r 0 ?s'"
    using m l(3) by (auto simp: receiver_def receiver_idle_def sendtowithdropsendto_def delivered_def find_hand_def listening_def)
  moreover have "(?fd, ?to, ack_pkt r 0) \<in> set (sent ?s')" by (simp add: sendtowithdropsendto_def)
  ultimately show ?thesis using l(1) by auto
qed

text \<open>Data that comes before the SYN is ignored.\<close>

lemma recv_early_data:
  assumes "receiver_idle L s" and "length (D ! j) \<le> RUDP_MAXPKTSIZE"
  shows "\<exists>s'. recvhandler code now buf0 s (lk_fdb L) arg (lk_a L) (data_pkt r D j) = Inr (0, s') \<and> receiver_idle L s'"
  using recv_idle [OF assms, of code now buf0 arg RUDP_DATA "of_nat (r + 1 + j)"] by (auto simp: data_pkt_def recv_listen_def)

lemma recv_again:
  assumes s: "receiver L D r m s" and bound: "r + 4 + length D < 2 ^ 31" and len: "length d \<le> RUDP_MAXPKTSIZE"
  shows "\<exists>b. recvhandler code now buf0 s (lk_fdb L) arg (lk_a L) (rudp_hdr ty q @ d) =
      bindR (recv_established code now s (lk_fdb L) arg (lk_a L) ty q d) (\<lambda>s. Inr (0, s)) \<and>
     conn s b (lk_fdb L) (lk_a L) \<and> getSeq s (lk_fdb L) (lk_a L) = of_nat (r + 1 + m) \<and> sn_state (node_at s b) = ESTABLISH"
proof -
  obtain b h where b: "conn s b (lk_fdb L) (lk_a L)" "sn_state (node_at s b) = ESTABLISH" "sn_seq (node_at s b) = of_nat (r + 1 + m)"
    "find_hand s (lk_fdb L) = Some h" "m \<le> length D" using s by (auto simp: receiver_def)
  have "sn_seq (node_at s b) \<noteq> -1" unfolding b(3) by (rule of_nat_not_minus1) (use bound b(5) in linarith)
  then show ?thesis using recvhandler_packet [OF b(1) _ b(4) len, of code now buf0 arg ty q] conn_reads(3) [OF b(1)] b
    by (intro exI [of _ b]) simp
qed

lemma recv_dup_syn:
  assumes s: "receiver L D r m s" and bound: "r + 4 + length D < 2 ^ 31"
  shows "\<exists>s'. recvhandler code now buf0 s (lk_fdb L) arg (lk_a L) (rudp_hdr RUDP_SYN (of_nat r)) = Inr (0, s') \<and> receiver L D r m s' \<and>
    (lk_fdb L, lk_a L, ack_pkt r 0) \<in> set (sent s')"
proof -
  let ?s' = "sendtowithdropsendto s (lk_fdb L) (ack_pkt r 0) (lk_a L)"
  have plus: "(of_nat r + 1 :: u32) = of_nat (r + 1 + 0)" by simp
  have "recv_established code now s (lk_fdb L) arg (lk_a L) RUDP_SYN (of_nat r) [] = Inr ?s'"
    unfolding recv_established_def Let_def plus by simp
  then have "recvhandler code now buf0 s (lk_fdb L) arg (lk_a L) (rudp_hdr RUDP_SYN (of_nat r)) = Inr (0, ?s')"
    using recv_again [OF s bound, of "[]" code now buf0 arg RUDP_SYN "of_nat r"] by auto
  moreover have "receiver L D r m ?s'"
    using s by (auto simp: receiver_def sendtowithdropsendto_def conn_def delivered_def find_hand_def listening_def)
  ultimately show ?thesis by (auto simp: sendtowithdropsendto_def)
qed

text \<open>Data reaches the receiver: the next packet is delivered, one that was delivered is acknowledged again,
  any other is ignored.\<close>

lemma recv_data_pkt:
  assumes q: "quiet code" and s: "receiver L D r m s" and bound: "r + 4 + length D < 2 ^ 31"
    and j: "j < length D" and len: "length (D ! j) \<le> RUDP_MAXPKTSIZE"
  shows "\<exists>s'. recvhandler code now buf0 s (lk_fdb L) (FunPtr (lk_f L)) (lk_a L) (data_pkt r D j) = Inr (0, s') \<and>
     receiver L D r (if j = m then Suc m else m) s' \<and> (j \<le> m \<longrightarrow> (lk_fdb L, lk_a L, ack_pkt r (Suc j)) \<in> set (sent s'))"
proof -
  let ?fd = "lk_fdb L" and ?to = "lk_a L" and ?q = "of_nat (r + 1 + j) :: u32"
  obtain b where b: "recvhandler code now buf0 s ?fd (FunPtr (lk_f L)) ?to (data_pkt r D j) =
      bindR (recv_data code s ?fd (FunPtr (lk_f L)) ?to ?q (D ! j)) (\<lambda>s. Inr (0, s))"
    "conn s b ?fd ?to" "getSeq s ?fd ?to = of_nat (r + 1 + m)" "sn_state (node_at s b) = ESTABLISH"
    using recv_again [OF s bound len, of code now buf0 "FunPtr (lk_f L)" RUDP_DATA ?q]
    by (auto simp: data_pkt_def recv_established_def Let_def)
  have m: "m \<le> length D" using s by (simp add: receiver_def)
  have le: "sint ?q \<le> sint (of_nat (r + 1 + m) :: u32) \<longleftrightarrow> j \<le> m" and eq: "?q = of_nat (r + 1 + m) \<longleftrightarrow> j = m"
    using seq_compare [of "r + 1 + j" "r + 1 + m"] bound j m by simp_all
  have suc: "?q + 1 = of_nat (r + 1 + Suc j)" by simp
  consider "m < j" | "j = m" | "j < m" by linarith
  then show ?thesis
  proof cases
    case 1
    then have "recv_data code s ?fd (FunPtr (lk_f L)) ?to ?q (D ! j) = Inr s" unfolding recv_data_def b(3) le by simp
    then show ?thesis using b(1) s 1 by simp
  next
    case 2
    let ?s1 = "s\<lparr>calls := calls s @ [CallRecv (lk_f L) (NodePtr b) ?to (D ! m)]\<rparr>"
    let ?s2 = "sendtowithdropsendto ?s1 ?fd (ack_pkt r (Suc m)) ?to"
    let ?s3 = "set_node b (\<lambda>n. n\<lparr>sn_seq := of_nat (r + 1 + Suc m)\<rparr>) ?s2"
    have c: "conn ?s2 b ?fd ?to" using b(2) by (simp add: conn_def sendtowithdropsendto_def)
    have g: "getSeq ?s2 ?fd ?to = of_nat (r + 1 + m)"
      using b(3) conn_reads(3) [OF c] conn_reads(3) [OF b(2)] by (simp add: sendtowithdropsendto_def)
    have "recv_data code s ?fd (FunPtr (lk_f L)) ?to ?q (D ! j) = Inr ?s3"
      unfolding recv_data_def suc b(3) le eq using 2 b(2) g conn_updates(1) [OF c]
      by (simp add: deref_def quiet_call [OF q] Let_def del: of_nat_add of_nat_Suc)
    moreover have "receiver L D r (Suc m) ?s3"
      unfolding receiver_def
    proof (intro conjI ballI)
      show "\<exists>b. conn ?s3 b ?fd ?to \<and> sn_state (node_at ?s3 b) = ESTABLISH \<and> sn_seq (node_at ?s3 b) = of_nat (r + 1 + Suc m)"
        using c b(4) by (intro exI [of _ b]) (simp add: sendtowithdropsendto_def)
      show "listening ?fd ?s3" using s by (simp add: receiver_def sendtowithdropsendto_def listening_def)
      show "e_arg e = FunPtr (lk_f L)" if "e \<in> set (ee ?s3)" for e
        using s that by (simp add: receiver_def sendtowithdropsendto_def)
      show "find_hand ?s3 ?fd \<noteq> None" "Suc m \<le> length D" "delivered ?s3 = take (Suc m) D"
        using s j 2 by (auto simp: receiver_def sendtowithdropsendto_def delivered_def find_hand_def take_Suc_conv_app_nth)
      fix x
      assume "x \<in> set (sent ?s3)"
      then have "x \<in> set (sent s) \<or> x = (?fd, ?to, ack_pkt r (Suc m))" by (auto simp: sendtowithdropsendto_def)
      then show "\<exists>j \<le> Suc m. x = (?fd, ?to, ack_pkt r j)" by (intro receiver_acks [OF s, of _ "Suc m"]) simp_all
    qed
    ultimately show ?thesis using b(1) 2 by (simp add: sendtowithdropsendto_def)
  next
    case 3
    let ?s2 = "sendtowithdropsendto s ?fd (ack_pkt r (Suc j)) ?to"
    have c: "conn ?s2 b ?fd ?to" using b(2) by (simp add: conn_def sendtowithdropsendto_def)
    have g: "getSeq ?s2 ?fd ?to = of_nat (r + 1 + m)"
      using b(3) conn_reads(3) [OF c] conn_reads(3) [OF b(2)] by (simp add: sendtowithdropsendto_def)
    have "recv_data code s ?fd (FunPtr (lk_f L)) ?to ?q (D ! j) = Inr ?s2"
      unfolding recv_data_def suc b(3) le eq using 3 g eq by (simp add: Let_def del: of_nat_add of_nat_Suc)
    moreover have "receiver L D r m ?s2"
      unfolding receiver_def
    proof (intro conjI ballI)
      show "\<exists>b. conn ?s2 b ?fd ?to \<and> sn_state (node_at ?s2 b) = ESTABLISH \<and> sn_seq (node_at ?s2 b) = of_nat (r + 1 + m)"
        using c b(3,4) conn_reads(3) [OF b(2)] by (intro exI [of _ b]) (simp add: sendtowithdropsendto_def)
      show "listening ?fd ?s2" using s by (simp add: receiver_def sendtowithdropsendto_def listening_def)
      show "e_arg e = FunPtr (lk_f L)" if "e \<in> set (ee ?s2)" for e
        using s that by (simp add: receiver_def sendtowithdropsendto_def)
      show "find_hand ?s2 ?fd \<noteq> None" "m \<le> length D" "delivered ?s2 = take m D"
        using s by (auto simp: receiver_def sendtowithdropsendto_def delivered_def find_hand_def)
      fix x
      assume "x \<in> set (sent ?s2)"
      then have "x \<in> set (sent s) \<or> x = (?fd, ?to, ack_pkt r (Suc j))" by (auto simp: sendtowithdropsendto_def)
      then show "\<exists>j \<le> m. x = (?fd, ?to, ack_pkt r j)" using 3 by (intro receiver_acks [OF s, of _ "Suc j"]) simp_all
    qed
    ultimately show ?thesis using b(1) 3 by (simp add: sendtowithdropsendto_def)
  qed
qed

end
