(* ===== verification/RudpNet.thy ===== *)
theory RudpNet
  imports RudpSession
begin

text \<open>
  A sending and a receiving process of the reliable datagram protocol, as \<^verbatim>\<open>vs_send\<close> and \<^verbatim>\<open>vs_recv\<close> set
  them up, with the network between them. A datagram that was sent once may arrive any number of
  times, at any time later, or never: the network is the log of what was sent.
\<close>

section \<open>Two processes and the network\<close>

record rudp_net =
  net_a :: rudp
  net_b :: rudp
  net_data :: "bytes list"

text \<open>The callbacks of the clients do not call the library.\<close>

definition silent :: rudp_client where
  "silent c s = s"

lemma quiet_silent [simp]: "quiet silent"
  by (simp add: quiet_def silent_def)

text \<open>A process that has just started: the static variables are zero.\<close>

definition rudp_init :: rudp where
  "rudp_init = \<lparr>sockets = [],
     node_at = (\<lambda>_. \<lparr>sn_fd = 0, sn_to = 0, sn_state = LISTEN, sn_seq = 0, sn_retransmit = 0, sn_close_ask = 0,
       sn_nextpacket = 0, sn_i = IntPtr 0, sn_buff = []\<rparr>),
     buf_at = (\<lambda>_. \<lparr>bd_data = None, bd_seq = 0, bd_len = 0, bd_retransmit = 0\<rparr>),
     copy_at = (\<lambda>_. \<lparr>cp_fd = 0, cp_to = 0, cp_buff = None\<rparr>), int_at = (\<lambda>_. 0), next_addr = 0,
     handlers = [], ee = [], ee_timers = [], sent = [], calls = [], closed = []\<rparr>"

text \<open>\<open>ha\<close> and \<open>hb\<close> are the event handlers of the two clients.\<close>

definition start_sender :: "rudp_link \<Rightarrow> nat \<Rightarrow> rudp res" where
  "start_sender L ha =
     bindR (rudp_socket rudp_init 0 (Some (lk_fda L)) [True]) (\<lambda>(rsock, s).
     bindR (deref rsock) (\<lambda>rsock. rudp_event_handler s rsock ha))"

definition start_receiver :: "rudp_link \<Rightarrow> int \<Rightarrow> nat \<Rightarrow> rudp res" where
  "start_receiver L port hb =
     bindR (rudp_socket rudp_init port (Some (lk_fdb L)) [True]) (\<lambda>(rsock, s).
     bindR (deref rsock) (\<lambda>rsock.
     bindR (rudp_recvfrom_handler s rsock (lk_f L)) (\<lambda>s. rudp_event_handler s rsock hb)))"

definition net_start :: "rudp_link \<Rightarrow> rudp_net \<Rightarrow> bool" where
  "net_start L n \<longleftrightarrow> (\<exists>ha hb port. 0 \<le> port \<and> start_sender L ha = Inr (net_a n) \<and>
     start_receiver L port hb = Inr (net_b n) \<and> net_data n = [])"

text \<open>What the client has handed over: nothing on a connection that was given up, or when the data is
  too long.\<close>

definition submit :: "rudp_link \<Rightarrow> rudp_net \<Rightarrow> bytes \<Rightarrow> int \<Rightarrow> bytes list" where
  "submit L n data len =
     (if len > int RUDP_MAXPKTSIZE \<or> getState (net_a n) (lk_fda L) (lk_b L) = Some CLOSED then net_data n
      else net_data n @ [take (nat len) data])"

text \<open>The steps: the sender's client sends; a timer of the sender fires; a datagram the receiver has
  sent reaches the sender; one of the sender reaches the receiver. The client sends fewer than \<open>2 ^ 31 - 65541\<close>
  pieces of data, so that the sequence numbers, of which the first is below 65535, do not overflow.\<close>

inductive rudp_step :: "rudp_link \<Rightarrow> rudp_net \<Rightarrow> rudp_net \<Rightarrow> bool" for L where
  Send: "rudp_sendto now rnd junk (net_a n) (IntPtr 0) data len (lk_b L) = Inr (res, a') \<Longrightarrow>
     0 \<le> len \<Longrightarrow> nat len \<le> length data \<Longrightarrow> length (net_data n) + 65541 < 2 ^ 31 \<Longrightarrow>
     rudp_step L n (n\<lparr>net_a := a', net_data := submit L n data len\<rparr>)"
| Timer: "event_dispatch_timer silent now (net_a n) = Inr a' \<Longrightarrow> rudp_step L n (n\<lparr>net_a := a'\<rparr>)"
| RecvA: "(lk_fdb L, lk_a L, p) \<in> set (sent (net_b n)) \<Longrightarrow>
     e \<in> set (ee (net_a n)) \<Longrightarrow> e_fn e = RECVHANDLER \<Longrightarrow> e_fd e = lk_fda L \<Longrightarrow>
     recvhandler silent now buf0 (net_a n) (e_fd e) (e_arg e) (lk_b L) p = Inr (res, a') \<Longrightarrow>
     rudp_step L n (n\<lparr>net_a := a'\<rparr>)"
| RecvB: "(lk_fda L, lk_b L, p) \<in> set (sent (net_a n)) \<Longrightarrow>
     e \<in> set (ee (net_b n)) \<Longrightarrow> e_fn e = RECVHANDLER \<Longrightarrow> e_fd e = lk_fdb L \<Longrightarrow>
     recvhandler silent now buf0 (net_b n) (e_fd e) (e_arg e) (lk_a L) p = Inr (res, b') \<Longrightarrow>
     rudp_step L n (n\<lparr>net_b := b'\<rparr>)"

section \<open>The invariant\<close>

inductive net_phase :: "rudp_link \<Rightarrow> bytes list \<Rightarrow> rudp \<Rightarrow> rudp \<Rightarrow> bool" for L D where
  Fresh: "sender_fresh L a \<Longrightarrow> receiver_idle L b \<Longrightarrow> D = [] \<Longrightarrow> net_phase L D a b"
| Syn: "syn_phase L D r x a \<Longrightarrow> receiver_idle L b \<or> receiver L D r 0 b \<Longrightarrow> r < 65535 \<Longrightarrow> net_phase L D a b"
| Est: "est_phase L D r k w x a \<Longrightarrow> receiver L D r m b \<Longrightarrow> k \<le> m \<Longrightarrow> m \<le> k + w \<Longrightarrow> r < 65535 \<Longrightarrow> net_phase L D a b"
| Shut: "sender_closed L D r x a \<Longrightarrow> receiver_idle L b \<or> receiver L D r m b \<Longrightarrow> r < 65535 \<Longrightarrow> net_phase L D a b"

definition net_inv :: "rudp_link \<Rightarrow> rudp_net \<Rightarrow> bool" where
  "net_inv L n \<longleftrightarrow> net_phase L (net_data n) (net_a n) (net_b n) \<and> length (net_data n) + 65540 < 2 ^ 31 \<and>
     (\<forall>d \<in> set (net_data n). length d \<le> RUDP_MAXPKTSIZE)"

lemmas start_defs = start_sender_def start_receiver_def rudp_socket_def Let_def deref_def rudp_event_handler_def addhandler_def
  event_fd_def rudp_init_def rudp_recvfrom_handler_def event_fd_delete_def

lemma start_sender_ok: "\<exists>s. start_sender L ha = Inr s \<and> sender_fresh L s"
  by (simp add: start_defs sender_fresh_def find_hand_def listening_def)

lemma start_receiver_ok: "0 \<le> port \<Longrightarrow> \<exists>s. start_receiver L port hb = Inr s \<and> receiver_idle L s"
  by (cases "port = 0") (simp_all add: start_defs receiver_idle_def find_hand_def listening_def)

lemma start_ok:
  assumes "net_start L n"
  shows "net_inv L n"
proof -
  obtain ha hb port where s: "0 \<le> port" "start_sender L ha = Inr (net_a n)" "start_receiver L port hb = Inr (net_b n)" "net_data n = []"
    using assms by (auto simp: net_start_def)
  have "sender_fresh L (net_a n)" "receiver_idle L (net_b n)"
    using s start_sender_ok [of L ha] start_receiver_ok [OF s(1), of L hb] by auto
  then show ?thesis using s(4) by (simp add: net_inv_def net_phase.Fresh)
qed

section \<open>Every step\<close>

text \<open>Each operation that a step makes returns, and keeps the invariant.\<close>

lemma in_range: "length D + 65540 < 2 ^ 31 \<Longrightarrow> r < 65535 \<Longrightarrow> r + 4 + length D < (2 ^ 31 :: nat)"
  by simp

lemma phase_state:
  "sender_fresh L a \<Longrightarrow> getState a (lk_fda L) (lk_b L) = None"
  "syn_phase L D r x a \<Longrightarrow> getState a (lk_fda L) (lk_b L) = Some SYN_SENT"
  "est_phase L D r k w x a \<Longrightarrow> getState a (lk_fda L) (lk_b L) = Some ESTABLISH"
  "sender_closed L D r x a \<Longrightarrow> getState a (lk_fda L) (lk_b L) = Some CLOSED"
  using conn_reads(1) [OF senderD(1), of L D r 0 0 x a] conn_reads(1) [OF senderD(1), of L D r k w x a] conn_reads(1) [of a x "lk_fda L" "lk_b L"]
  by (simp_all add: sender_fresh_def syn_phase_def est_phase_def sender_closed_def getState_def getS_def)

lemma send_step:
  assumes inv: "net_inv L n" and len: "0 \<le> len" "nat len \<le> length data" and more: "length (net_data n) + 65541 < 2 ^ 31"
  shows "\<exists>res a'. rudp_sendto now rnd junk (net_a n) (IntPtr 0) data len (lk_b L) = Inr (res, a') \<and>
     net_inv L (n\<lparr>net_a := a', net_data := submit L n data len\<rparr>)"
proof (cases "len \<le> int RUDP_MAXPKTSIZE")
  case False
  then show ?thesis using inv by (simp add: rudp_sendto_def submit_def)
next
  case True
  let ?d = "take (nat len) data" and ?D = "net_data n"
  have fits: "length (?D @ [?d]) + 65540 < 2 ^ 31" "\<forall>d \<in> set (?D @ [?d]). length d \<le> RUDP_MAXPKTSIZE"
    using inv more True len by (auto simp: net_inv_def)
  note range = in_range [of ?D, OF inv [unfolded net_inv_def, THEN conjunct2, THEN conjunct1]]
  from inv have "net_phase L ?D (net_a n) (net_b n)" by (simp add: net_inv_def)
  then show ?thesis
  proof cases
    case Fresh
    obtain a' where "rudp_sendto now rnd junk (net_a n) (IntPtr 0) data len (lk_b L) = Inr (0, a')"
      "syn_phase L [?d] (rnd mod 65535) (next_addr (net_a n)) a'" using sendto_fresh [OF Fresh(1) len True] by blast
    then show ?thesis using fits Fresh phase_state(1) [OF Fresh(1)] True
      by (auto simp: net_inv_def submit_def intro!: net_phase.Syn)
  next
    case (Syn r x)
    obtain a' where "rudp_sendto now rnd junk (net_a n) (IntPtr 0) data len (lk_b L) = Inr (0, a')" "syn_phase L (?D @ [?d]) r x a'"
      using sendto_syn [OF Syn(1) len True range [OF Syn(3)]] by blast
    then show ?thesis using fits Syn(2,3) phase_state(2) [OF Syn(1)] True receiver_append
      by (auto simp: net_inv_def submit_def intro: net_phase.Syn)
  next
    case (Est r k w x m)
    obtain a' w' where a': "rudp_sendto now rnd junk (net_a n) (IntPtr 0) data len (lk_b L) = Inr (0, a')"
      "est_phase L (?D @ [?d]) r k w' x a'" "w \<le> w'" using sendto_est [OF Est(1) len True range [OF Est(5)]] by blast
    have "m \<le> k + w'" using Est(4) a'(3) by linarith
    then show ?thesis using fits a' net_phase.Est [OF a'(2) receiver_append [OF Est(2)] Est(3) _ Est(5)] phase_state(3) [OF Est(1)] True
      by (simp add: net_inv_def submit_def)
  next
    case (Shut r x m)
    then show ?thesis using sendto_closed [OF Shut(1) True] inv phase_state(4) [OF Shut(1)] by (simp add: submit_def)
  qed
qed

lemma timer_step:
  assumes inv: "net_inv L n" and t: "ee_timers (net_a n) \<noteq> []"
  shows "\<exists>a'. event_dispatch_timer silent now (net_a n) = Inr a' \<and> net_inv L (n\<lparr>net_a := a'\<rparr>)"
proof -
  let ?D = "net_data n"
  obtain e es where e: "ee_timers (net_a n) = e # es" using t by (cases "ee_timers (net_a n)") auto
  note range = in_range [of ?D, OF inv [unfolded net_inv_def, THEN conjunct2, THEN conjunct1]]
  from inv have "net_phase L ?D (net_a n) (net_b n)" by (simp add: net_inv_def)
  then have "\<exists>a'. event_dispatch_timer silent now (net_a n) = Inr a' \<and> net_phase L ?D a' (net_b n)"
  proof cases
    case Fresh
    then show ?thesis using t by (simp add: sender_fresh_def)
  next
    case (Syn r x)
    then show ?thesis using dispatch_syn [OF quiet_silent Syn(1) range [OF Syn(3)] e, of now] by (auto intro: net_phase.Syn net_phase.Shut)
  next
    case (Est r k w x m)
    then show ?thesis using dispatch_est [OF quiet_silent Est(1) range [OF Est(5)] e, of now] by (auto intro: net_phase.Est net_phase.Shut)
  next
    case (Shut r x m)
    then show ?thesis using dispatch_closed [OF quiet_silent Shut(1) e, of now] by (auto intro: net_phase.Shut)
  qed
  then show ?thesis using inv by (auto simp: net_inv_def)
qed

lemma idle_quiet: "receiver_idle L b \<Longrightarrow> x \<notin> set (sent b)"
  by (simp add: receiver_idle_def)

lemma receiver_ack:
  assumes "receiver L D r m b" and "(lk_fdb L, lk_a L, p) \<in> set (sent b)"
  obtains j where "j \<le> m" "p = ack_pkt r j"
proof -
  have "\<exists>j \<le> m. (lk_fdb L, lk_a L, p) = (lk_fdb L, lk_a L, ack_pkt r j)"
    using assms unfolding receiver_def by blast
  then obtain j where "j \<le> m" "p = ack_pkt r j" by (elim exE conjE) (simp only: prod.inject)
  then show thesis by (rule that)
qed

lemma closed_ack:
  assumes "sender_closed L D r x a"
  shows "recvhandler code now buf0 a (lk_fda L) arg (lk_b L) (ack_pkt r j) = Inr (0, a)"
proof -
  have c: "conn a x (lk_fda L) (lk_b L)" "sn_seq (node_at a x) \<noteq> -1" "sn_state (node_at a x) = CLOSED"
    using assms by (simp_all add: sender_closed_def)
  obtain h where h: "find_hand a (lk_fda L) = Some h" using assms by (auto simp: sender_closed_def)
  show ?thesis using recvhandler_packet [OF c(1,2) h, of "[]" code now buf0 arg RUDP_ACK "of_nat (r + 1 + j)"] c(3) by simp
qed

lemma recv_a_step:
  assumes inv: "net_inv L n" and p: "(lk_fdb L, lk_a L, p) \<in> set (sent (net_b n))"
  shows "\<exists>a'. recvhandler silent now buf0 (net_a n) (lk_fda L) arg (lk_b L) p = Inr (0, a') \<and> net_inv L (n\<lparr>net_a := a'\<rparr>)"
proof -
  let ?D = "net_data n"
  note range = in_range [of ?D, OF inv [unfolded net_inv_def, THEN conjunct2, THEN conjunct1]]
  from inv have "net_phase L ?D (net_a n) (net_b n)" by (simp add: net_inv_def)
  then have "\<exists>a'. recvhandler silent now buf0 (net_a n) (lk_fda L) arg (lk_b L) p = Inr (0, a') \<and> net_phase L ?D a' (net_b n)"
  proof cases
    case Fresh
    then show ?thesis using p idle_quiet by blast
  next
    case (Syn r x)
    then have b: "receiver L ?D r 0 (net_b n)" using p idle_quiet by blast
    obtain j where "j \<le> 0" "p = ack_pkt r j" using receiver_ack [OF b p] .
    then have p0: "p = ack_pkt r 0" by simp
    have "r < 2 ^ 30" using Syn(3) by simp
    then obtain a' where a': "recvhandler silent now buf0 (net_a n) (lk_fda L) arg (lk_b L) p = Inr (0, a')"
      "est_phase L ?D r 0 (min RUDP_WINDOW (length ?D)) x a'" using syn_phase_ack [OF Syn(1)] unfolding p0 by blast
    then show ?thesis using net_phase.Est [OF a'(2) b order_refl _ Syn(3)] by simp
  next
    case (Est r k w x m)
    obtain j where j: "j \<le> m" "p = ack_pkt r j" using receiver_ack [OF Est(2) p] .
    obtain a' w' where a': "recvhandler silent now buf0 (net_a n) (lk_fda L) arg (lk_b L) p = Inr (0, a')"
      "est_phase L ?D r (max k j) w' x a'" "k + w \<le> max k j + w'"
      using est_phase_ack [OF Est(1) _ range [OF Est(5)], of j silent now buf0 arg] j Est(4) by auto
    have "max k j \<le> m" "m \<le> max k j + w'" using j(1) Est(3,4) a'(3) by simp_all
    then show ?thesis using a'(1) net_phase.Est [OF a'(2) Est(2) _ _ Est(5)] by blast
  next
    case (Shut r x m)
    then have b: "receiver L ?D r m (net_b n)" using p idle_quiet by blast
    obtain j where j: "j \<le> m" "p = ack_pkt r j" using receiver_ack [OF b p] .
    then show ?thesis using closed_ack [OF Shut(1), of silent now buf0 arg j] net_phase.Shut [OF Shut] by blast
  qed
  then show ?thesis using inv by (auto simp: net_inv_def)
qed

lemma sender_pkt:
  assumes "\<forall>x \<in> set xs. sent_ok L D r m x" and "(lk_fda L, lk_b L, p) \<in> set xs"
  obtains "p = rudp_hdr RUDP_SYN (of_nat r)" | j where "j < m" "p = data_pkt r D j"
proof -
  have "sent_ok L D r m (lk_fda L, lk_b L, p)" using assms by blast
  then obtain q where "(lk_fda L, lk_b L, p) = (lk_fda L, lk_b L, q)" "q = rudp_hdr RUDP_SYN (of_nat r) \<or> (\<exists>j < m. q = data_pkt r D j)"
    unfolding sent_ok_def by blast
  then show thesis using that by blast
qed

text \<open>A datagram of the sender reaches the receiver, which has at most what was sent.\<close>

lemma recv_b_pkt:
  assumes "\<forall>x \<in> set (sent a). sent_ok L D r M x" and p: "(lk_fda L, lk_b L, p) \<in> set (sent a)"
    and b: "receiver_idle L b \<or> receiver L D r m b"
    and m: "m \<le> M" "M \<le> length D" and range: "r + 4 + length D < 2 ^ 31" and d: "\<forall>d \<in> set D. length d \<le> RUDP_MAXPKTSIZE"
  shows "\<exists>b' m'. recvhandler silent now buf0 b (lk_fdb L) (FunPtr (lk_f L)) (lk_a L) p = Inr (0, b') \<and>
     (receiver_idle L b \<and> (receiver_idle L b' \<or> receiver L D r 0 b') \<or> receiver L D r m b \<and> receiver L D r m' b' \<and> m \<le> m' \<and> m' \<le> M)"
  using assms(1) p
proof (cases rule: sender_pkt)
  case 1
  from b show ?thesis
  proof
    assume "receiver_idle L b"
    then show ?thesis using recv_first_syn [of L b silent now buf0 "FunPtr (lk_f L)" r D] 1 by auto
  next
    assume "receiver L D r m b"
    then show ?thesis using recv_dup_syn [OF _ range, of L m b silent now buf0 "FunPtr (lk_f L)"] 1 m by auto
  qed
next
  case (2 j)
  have l: "j < length D" "length (D ! j) \<le> RUDP_MAXPKTSIZE" using 2(1) m(2) d by auto
  from b show ?thesis
  proof
    assume "receiver_idle L b"
    then show ?thesis using recv_early_data [OF _ l(2), of L b silent now buf0 "FunPtr (lk_f L)" r] 2 by auto
  next
    assume "receiver L D r m b"
    then obtain b' where b': "recvhandler silent now buf0 b (lk_fdb L) (FunPtr (lk_f L)) (lk_a L) p = Inr (0, b')"
        "receiver L D r (if j = m then Suc m else m) b'"
      using recv_data_pkt [OF quiet_silent _ range l, of L m b now buf0] 2(2) by blast
    have "m \<le> (if j = m then Suc m else m)" "(if j = m then Suc m else m) \<le> M" using 2(1) m(1) by simp_all
    then show ?thesis using b' \<open>receiver L D r m b\<close> by blast
  qed
qed

lemma recv_b_step:
  assumes inv: "net_inv L n" and p: "(lk_fda L, lk_b L, p) \<in> set (sent (net_a n))"
  shows "\<exists>b'. recvhandler silent now buf0 (net_b n) (lk_fdb L) (FunPtr (lk_f L)) (lk_a L) p = Inr (0, b') \<and> net_inv L (n\<lparr>net_b := b'\<rparr>)"
proof -
  let ?D = "net_data n" and ?R = "recvhandler silent now buf0 (net_b n) (lk_fdb L) (FunPtr (lk_f L)) (lk_a L) p"
  have d: "\<forall>d \<in> set ?D. length d \<le> RUDP_MAXPKTSIZE" using inv by (simp add: net_inv_def)
  note range = in_range [of ?D, OF inv [unfolded net_inv_def, THEN conjunct2, THEN conjunct1]]
  from inv have "net_phase L ?D (net_a n) (net_b n)" by (simp add: net_inv_def)
  then have "\<exists>b'. ?R = Inr (0, b') \<and> net_phase L ?D (net_a n) b'"
  proof cases
    case Fresh
    then show ?thesis using p by (simp add: sender_fresh_def)
  next
    case (Syn r x)
    have ok: "\<forall>x \<in> set (sent (net_a n)). sent_ok L ?D r 0 x" using Syn(1) senderD(10) [of L ?D r 0 0 x "net_a n"] by (simp add: syn_phase_def)
    obtain b' where "?R = Inr (0, b')" "receiver_idle L b' \<or> receiver L ?D r 0 b'"
      using recv_b_pkt [OF ok p Syn(2) order_refl le0 range [OF Syn(3)] d, of now buf0] by auto
    then show ?thesis using net_phase.Syn [OF Syn(1) _ Syn(3)] by blast
  next
    case (Est r k w x m)
    have snd: "sender L ?D r k w x (net_a n)" using Est(1) by (simp add: est_phase_def)
    have "k + w \<le> length ?D" using senderD(6,7) [OF snd] by (simp add: queue_ok_def)
    moreover have "\<not> receiver_idle L (net_b n)"
      using Est(2) conn_reads(1) [of "net_b n" _ "lk_fdb L" "lk_a L"] by (auto simp: receiver_def receiver_idle_def conn_def)
    ultimately obtain b' m' where "?R = Inr (0, b')" "receiver L ?D r m' b'" "m \<le> m'" "m' \<le> k + w"
      using recv_b_pkt [OF senderD(10) [OF snd] p disjI2 [OF Est(2)] Est(4) _ range [OF Est(5)] d] by blast
    then show ?thesis using net_phase.Est [OF Est(1) _ _ _ Est(5), of m' b'] Est(3) by auto
  next
    case (Shut r x m)
    have ok: "\<forall>x \<in> set (sent (net_a n)). sent_ok L ?D r (length ?D) x" using Shut(1) by (simp add: sender_closed_def)
    obtain m0 where m0: "receiver_idle L (net_b n) \<or> receiver L ?D r m0 (net_b n)" "m0 \<le> length ?D"
    proof (cases "receiver L ?D r m (net_b n)")
      case True
      then show thesis using that [of m] by (simp add: receiver_def)
    next
      case False
      then show thesis using that [of 0] Shut(2) by simp
    qed
    obtain b' m' where "?R = Inr (0, b')" "receiver_idle L b' \<or> receiver L ?D r 0 b' \<or> receiver L ?D r m' b'"
      using recv_b_pkt [OF ok p m0 order_refl range [OF Shut(3)] d] by blast
    then show ?thesis using net_phase.Shut [OF Shut(1) _ Shut(3)] by blast
  qed
  then show ?thesis using inv by (auto simp: net_inv_def)
qed

lemma receiver_arg:
  assumes "net_inv L n" and "e \<in> set (ee (net_b n))"
  shows "e_arg e = FunPtr (lk_f L)"
proof -
  from assms(1) have "net_phase L (net_data n) (net_a n) (net_b n)" by (simp add: net_inv_def)
  then show ?thesis using assms(2) by cases (auto simp: receiver_idle_def receiver_def)
qed

interpretation net: step_invariant "net_start L" "rudp_step L" "net_inv L" for L
proof unfold_locales
  fix n n'
  assume inv: "net_inv L n" and "rudp_step L n n'"
  from this(2) show "net_inv L n'"
  proof cases
    case (Send now rnd junk data len res a')
    then show ?thesis using send_step [OF inv Send(3,4,5), of now rnd junk] by auto
  next
    case (Timer now a')
    then have "ee_timers (net_a n) \<noteq> []" by (auto simp: event_dispatch_timer_def)
    then show ?thesis using timer_step [OF inv, of now] Timer by auto
  next
    case (RecvA p e now buf0 res a')
    then show ?thesis using recv_a_step [OF inv RecvA(2), of now buf0 "e_arg e"] by auto
  next
    case (RecvB p e now buf0 res b')
    then show ?thesis using recv_b_step [OF inv RecvB(2), of now buf0] receiver_arg [OF inv RecvB(3)] by auto
  qed
qed (rule start_ok)

section \<open>Progress\<close>

lemma listening_step_b:
  assumes inv: "net_inv L n" and l: "listening (lk_fdb L) (net_b n)" and p: "(lk_fda L, lk_b L, p) \<in> set (sent (net_a n))"
    and r: "recvhandler silent now buf0 (net_b n) (lk_fdb L) (FunPtr (lk_f L)) (lk_a L) p = Inr (0, b')"
  shows "rudp_step L n (n\<lparr>net_b := b'\<rparr>)"
proof -
  obtain e where e: "e \<in> set (ee (net_b n))" "e_fn e = RECVHANDLER" "e_fd e = lk_fdb L" using l by (auto simp: listening_def)
  show ?thesis by (rule rudp_step.RecvB [OF p e]) (use r e receiver_arg [OF inv e(1)] in simp)
qed

lemma listening_step_a:
  assumes "listening (lk_fda L) (net_a n)" and p: "(lk_fdb L, lk_a L, p) \<in> set (sent (net_b n))"
    and r: "\<And>arg. \<exists>a'. recvhandler silent now buf0 (net_a n) (lk_fda L) arg (lk_b L) p = Inr (0, a') \<and> P a'"
  shows "\<exists>a'. rudp_step L n (n\<lparr>net_a := a'\<rparr>) \<and> P a'"
proof -
  obtain e where e: "e \<in> set (ee (net_a n))" "e_fn e = RECVHANDLER" "e_fd e = lk_fda L" using assms(1) by (auto simp: listening_def)
  obtain a' where a': "recvhandler silent now buf0 (net_a n) (e_fd e) (e_arg e) (lk_b L) p = Inr (0, a')" "P a'"
    using r [of "e_arg e"] e(3) by auto
  then show ?thesis using rudp_step.RecvA [OF p e a'(1)] by blast
qed

text \<open>The next piece of data can be delivered.\<close>

lemma deliver_sent:
  assumes inv: "net_inv L n" and e: "est_phase L (net_data n) r k w x (net_a n)" and b: "receiver L (net_data n) r m (net_b n)"
    and j: "k \<le> j" "j < k + w" "j \<le> m" and r: "r < 65535"
  shows "\<exists>b'. rudp_step L n (n\<lparr>net_b := b'\<rparr>) \<and> receiver L (net_data n) r (if j = m then Suc m else m) b' \<and>
     (lk_fdb L, lk_a L, ack_pkt r (Suc j)) \<in> set (sent b')"
proof -
  let ?D = "net_data n"
  have snd: "sender L ?D r k w x (net_a n)" "under_way L ?D r k w (net_a n)" using e by (simp_all add: est_phase_def)
  have "j < length ?D" using senderD(6,7) [OF snd(1)] j(2) by (simp add: queue_ok_def)
  then have len: "length (?D ! j) \<le> RUDP_MAXPKTSIZE" using inv by (auto simp: net_inv_def)
  have range: "r + 4 + length ?D < 2 ^ 31" using inv in_range [OF _ r] unfolding net_inv_def by blast
  obtain i where "j = k + i" "i < w" using j le_iff_add [of k j] by auto
  then have p: "(lk_fda L, lk_b L, data_pkt r ?D j) \<in> set (sent (net_a n))" using snd(2) by (simp add: under_way_def)
  obtain b' where b': "recvhandler silent (0, 0) [] (net_b n) (lk_fdb L) (FunPtr (lk_f L)) (lk_a L) (data_pkt r ?D j) = Inr (0, b')"
    "receiver L ?D r (if j = m then Suc m else m) b'" "(lk_fdb L, lk_a L, ack_pkt r (Suc j)) \<in> set (sent b')"
    using recv_data_pkt [OF quiet_silent b range \<open>j < length ?D\<close> len] j(3) by blast
  have "listening (lk_fdb L) (net_b n)" using b by (simp add: receiver_def)
  from listening_step_b [OF inv this p b'(1)] show ?thesis using b'(2,3) by blast
qed

lemma deliver_next:
  assumes inv: "net_inv L n" and e: "est_phase L (net_data n) r k w x (net_a n)" and b: "receiver L (net_data n) r m (net_b n)"
    and m: "k \<le> m" "m \<le> k + w" "m < length (net_data n)" and r: "r < 65535"
  shows "\<exists>n' k' w'. (rudp_step L)\<^sup>*\<^sup>* n n' \<and> net_data n' = net_data n \<and> est_phase L (net_data n) r k' w' x (net_a n') \<and>
     receiver L (net_data n) r (Suc m) (net_b n') \<and> k' \<le> Suc m \<and> Suc m \<le> k' + w'"
proof (cases "m < k + w")
  case True
  obtain b' where b': "rudp_step L n (n\<lparr>net_b := b'\<rparr>)" "receiver L (net_data n) r (Suc m) b'"
    using deliver_sent [OF inv e b m(1) True order_refl r] by auto
  then show ?thesis using e m True by (intro exI [of _ "n\<lparr>net_b := b'\<rparr>"] exI [of _ k] exI [of _ w]) auto
next
  case False
  let ?D = "net_data n"
  have snd: "sender L ?D r k w x (net_a n)" "window w (length (sn_buff (node_at (net_a n) x)))" using e by (simp_all add: est_phase_def)
  have "k + length (sn_buff (node_at (net_a n) x)) = length ?D" using senderD(6) [OF snd(1)] by (simp add: queue_ok_def)
  then have w: "0 < w" "m = k + w" using snd(2) m False by (auto simp: window_def)
  have j: "k \<le> m - 1" "m - 1 < k + w" "m - 1 \<le> m" "Suc (m - 1) = m" "m - 1 \<noteq> m" using w by simp_all
  obtain b1 where b1: "rudp_step L n (n\<lparr>net_b := b1\<rparr>)" "receiver L ?D r m b1" "(lk_fdb L, lk_a L, ack_pkt r m) \<in> set (sent b1)"
    using deliver_sent [OF inv e b j(1-3) r] j(4,5) by auto
  let ?n1 = "n\<lparr>net_b := b1\<rparr>"
  have inv1: "net_inv L ?n1" using net.step_inv [OF inv b1(1)] .
  have range: "r + 4 + length ?D < 2 ^ 31" using inv in_range [OF _ r] unfolding net_inv_def by blast
  have ack: "\<exists>a'. recvhandler silent (0, 0) [] (net_a ?n1) (lk_fda L) arg (lk_b L) (ack_pkt r m) = Inr (0, a') \<and>
      (\<exists>w'. est_phase L ?D r m w' x a')" for arg
    using est_phase_ack [OF e m(2) range, of silent "(0, 0)" "[]" arg] m(1) by (auto simp: max_def)
  have "listening (lk_fda L) (net_a ?n1)" "(lk_fdb L, lk_a L, ack_pkt r m) \<in> set (sent (net_b ?n1))" using senderD(11) [OF snd(1)] b1(3) by simp_all
  from listening_step_a [OF this ack] obtain a2 w2 where a2: "rudp_step L ?n1 (?n1\<lparr>net_a := a2\<rparr>)" "est_phase L ?D r m w2 x a2" by blast
  let ?n2 = "?n1\<lparr>net_a := a2\<rparr>"
  have inv2: "net_inv L ?n2" using net.step_inv [OF inv1 a2(1)] .
  have "sender L ?D r m w2 x a2" "window w2 (length (sn_buff (node_at a2 x)))" using a2(2) by (simp_all add: est_phase_def)
  then have "m < m + w2" using senderD(6) [of L ?D r m w2 x a2] m(3) by (auto simp: window_def queue_ok_def)
  then obtain b3 where b3: "rudp_step L ?n2 (?n2\<lparr>net_b := b3\<rparr>)" "receiver L ?D r (Suc m) b3"
    using deliver_sent [of L ?n2 r m w2 x m m] inv2 a2(2) b1(2) r by auto
  have "(rudp_step L)\<^sup>*\<^sup>* n (?n2\<lparr>net_b := b3\<rparr>)" using b1(1) a2(1) b3(1) by (meson rtranclp.rtrancl_into_rtrancl rtranclp.rtrancl_refl)
  then show ?thesis using a2(2) b3(2) \<open>m < m + w2\<close> by (intro exI [of _ "?n2\<lparr>net_b := b3\<rparr>"] exI [of _ m] exI [of _ w2]) simp
qed

lemma deliver_all:
  assumes "net_inv L n" and "est_phase L (net_data n) r k w x (net_a n)" and "receiver L (net_data n) r m (net_b n)"
    and "k \<le> m" "m \<le> k + w" and "r < 65535"
  shows "\<exists>n'. (rudp_step L)\<^sup>*\<^sup>* n n' \<and> net_data n' = net_data n \<and> delivered (net_b n') = net_data n"
  using assms
proof (induction "length (net_data n) - m" arbitrary: n k w m)
  case 0
  have "m = length (net_data n)" using 0(1) 0(4) by (simp add: receiver_def)
  then show ?case using 0(4) by (intro exI [of _ n]) (simp add: receiver_def)
next
  case (Suc d)
  then have m: "m < length (net_data n)" by simp
  obtain n' k' w' where n': "(rudp_step L)\<^sup>*\<^sup>* n n'" "net_data n' = net_data n" "est_phase L (net_data n) r k' w' x (net_a n')"
    "receiver L (net_data n) r (Suc m) (net_b n')" "k' \<le> Suc m" "Suc m \<le> k' + w'"
    using deliver_next [OF Suc.prems(1-5) m Suc.prems(6)] by blast
  have "d = length (net_data n) - Suc m" using Suc.hyps(2) by linarith
  moreover have "net_inv L n'" using n'(1) Suc.prems(1) by (induction rule: rtranclp_induct) (auto intro: net.step_inv)
  ultimately obtain n2 where "(rudp_step L)\<^sup>*\<^sup>* n' n2" "net_data n2 = net_data n'" "delivered (net_b n2) = net_data n'"
    using Suc.hyps(1) [of n' "Suc m" k' w'] n' Suc.prems(6) by auto
  then show ?case using n'(1,2) rtranclp_trans [of "rudp_step L" n n' n2] by auto
qed

lemma deliver_syn:
  assumes inv: "net_inv L n" and s: "syn_phase L (net_data n) r x (net_a n)" and b: "receiver_idle L (net_b n) \<or> receiver L (net_data n) r 0 (net_b n)"
    and r: "r < 65535"
  shows "\<exists>n' w. (rudp_step L)\<^sup>*\<^sup>* n n' \<and> net_data n' = net_data n \<and> est_phase L (net_data n) r 0 w x (net_a n') \<and>
     receiver L (net_data n) r 0 (net_b n')"
proof -
  let ?D = "net_data n"
  have range: "r + 4 + length ?D < 2 ^ 31" "r < 2 ^ 30" using inv in_range [OF _ r] r unfolding net_inv_def by simp_all
  have l: "listening (lk_fdb L) (net_b n)" using b by (auto simp: receiver_def receiver_idle_def)
  have snd: "sender L ?D r 0 0 x (net_a n)" "(lk_fda L, lk_b L, rudp_hdr RUDP_SYN (of_nat r)) \<in> set (sent (net_a n))"
    using s by (simp_all add: syn_phase_def)
  obtain b' where b': "recvhandler silent (0, 0) [] (net_b n) (lk_fdb L) (FunPtr (lk_f L)) (lk_a L) (rudp_hdr RUDP_SYN (of_nat r)) = Inr (0, b')"
    "receiver L ?D r 0 b'" "(lk_fdb L, lk_a L, ack_pkt r 0) \<in> set (sent b')"
    using b recv_first_syn [of L "net_b n" silent "(0, 0)" "[]" "FunPtr (lk_f L)" r ?D]
      recv_dup_syn [OF _ range(1), of L 0 "net_b n" silent "(0, 0)" "[]" "FunPtr (lk_f L)"] by blast
  let ?n1 = "n\<lparr>net_b := b'\<rparr>"
  have s1: "rudp_step L n ?n1" by (rule listening_step_b [OF inv l snd(2) b'(1)])
  have ack: "\<exists>a'. recvhandler silent (0, 0) [] (net_a ?n1) (lk_fda L) arg (lk_b L) (ack_pkt r 0) = Inr (0, a') \<and>
      (\<exists>w. est_phase L ?D r 0 w x a')" for arg
    using syn_phase_ack [OF s range(2), of silent "(0, 0)" "[]" arg] by auto
  have "listening (lk_fda L) (net_a ?n1)" "(lk_fdb L, lk_a L, ack_pkt r 0) \<in> set (sent (net_b ?n1))" using senderD(11) [OF snd(1)] b'(3) by simp_all
  from listening_step_a [OF this ack] obtain a2 w where a2: "rudp_step L ?n1 (?n1\<lparr>net_a := a2\<rparr>)" "est_phase L ?D r 0 w x a2" by blast
  have "(rudp_step L)\<^sup>*\<^sup>* n (?n1\<lparr>net_a := a2\<rparr>)" using s1 a2(1) by (meson rtranclp.rtrancl_into_rtrancl rtranclp.rtrancl_refl)
  then show ?thesis using a2(2) b'(2) by (intro exI [of _ "?n1\<lparr>net_a := a2\<rparr>"] exI [of _ w]) simp
qed

lemma reach_inv: "(rudp_step L)\<^sup>*\<^sup>* n n' \<Longrightarrow> net_inv L n \<Longrightarrow> net_inv L n'"
  by (induction rule: rtranclp_induct) (auto intro: net.step_inv)

lemma progress_inv:
  assumes inv: "net_inv L n" and st: "getState (net_a n) (lk_fda L) (lk_b L) \<noteq> Some CLOSED"
  shows "\<exists>n'. (rudp_step L)\<^sup>*\<^sup>* n n' \<and> net_data n' = net_data n \<and> delivered (net_b n') = net_data n"
proof -
  from inv have "net_phase L (net_data n) (net_a n) (net_b n)" by (simp add: net_inv_def)
  then show ?thesis
  proof cases
    case Fresh
    then show ?thesis by (intro exI [of _ n]) (simp add: receiver_idle_def delivered_def)
  next
    case (Syn r x)
    obtain n1 w where n1: "(rudp_step L)\<^sup>*\<^sup>* n n1" "net_data n1 = net_data n" "est_phase L (net_data n) r 0 w x (net_a n1)"
      "receiver L (net_data n) r 0 (net_b n1)" using deliver_syn [OF inv Syn] by blast
    then obtain n2 where "(rudp_step L)\<^sup>*\<^sup>* n1 n2" "net_data n2 = net_data n1" "delivered (net_b n2) = net_data n1"
      using deliver_all [OF reach_inv [OF n1(1) inv], of r 0 w x 0] Syn(3) by auto
    then show ?thesis using n1(1,2) rtranclp_trans [of "rudp_step L" n n1 n2] by auto
  next
    case (Est r k w x m)
    then show ?thesis using deliver_all [OF inv Est(1-5)] by blast
  next
    case (Shut r x m)
    then show ?thesis using phase_state(4) [OF Shut(1)] st by simp
  qed
qed

lemma delivered_prefix:
  assumes "net_inv L n"
  shows "\<exists>m. delivered (net_b n) = take m (net_data n)"
proof -
  have idle: "\<exists>m. delivered (net_b n) = take m (net_data n)" if "receiver_idle L (net_b n)"
    using that by (intro exI [of _ 0]) (simp add: receiver_idle_def delivered_def)
  have est: "\<exists>m. delivered (net_b n) = take m (net_data n)" if "receiver L (net_data n) r m (net_b n)" for r m
    using that by (intro exI [of _ m]) (simp add: receiver_def)
  from assms have "net_phase L (net_data n) (net_a n) (net_b n)" by (simp add: net_inv_def)
  then show ?thesis using idle est by cases blast+
qed

section \<open>Properties\<close>

text \<open>C19. Safety: whatever the network loses, repeats or reorders and whichever timers fire, what the
  receiver's client has got is the beginning of what the sender's client has sent, in order and
  without repetition.\<close>

theorem rudp_delivery:
  assumes "net_start L n0" and "(rudp_step L)\<^sup>*\<^sup>* n0 n"
  shows "\<exists>rest. net_data n = delivered (net_b n) @ rest"
  using delivered_prefix [OF net.reachable_inv [OF assms]] by (metis append_take_drop_id)

text \<open>C20. Liveness: as long as the sender has not given up, the datagrams that were sent can bring
  everything to the receiver's client.\<close>

theorem rudp_progress:
  assumes "net_start L n0" and "(rudp_step L)\<^sup>*\<^sup>* n0 n" and "getState (net_a n) (lk_fda L) (lk_b L) \<noteq> Some CLOSED"
  shows "\<exists>n'. (rudp_step L)\<^sup>*\<^sup>* n n' \<and> net_data n' = net_data n \<and> delivered (net_b n') = net_data n"
  by (rule progress_inv [OF net.reachable_inv [OF assms(1,2)] assms(3)])

text \<open>C21. No step runs into a null pointer, reads outside a packet or does not return.\<close>

theorem rudp_no_faults:
  assumes "net_start L n0" and "(rudp_step L)\<^sup>*\<^sup>* n0 n"
  shows "(0 \<le> len \<and> nat len \<le> length data \<and> length (net_data n) + 65541 < 2 ^ 31 \<longrightarrow>
       (\<exists>res a'. rudp_sendto now rnd junk (net_a n) (IntPtr 0) data len (lk_b L) = Inr (res, a'))) \<and>
    (ee_timers (net_a n) \<noteq> [] \<longrightarrow> (\<exists>a'. event_dispatch_timer silent now (net_a n) = Inr a')) \<and>
    ((lk_fdb L, lk_a L, p) \<in> set (sent (net_b n)) \<longrightarrow>
       (\<exists>a'. recvhandler silent now buf0 (net_a n) (lk_fda L) arg (lk_b L) p = Inr (0, a'))) \<and>
    ((lk_fda L, lk_b L, p) \<in> set (sent (net_a n)) \<and> e \<in> set (ee (net_b n)) \<longrightarrow>
       (\<exists>b'. recvhandler silent now buf0 (net_b n) (lk_fdb L) (e_arg e) (lk_a L) p = Inr (0, b')))"
proof -
  note inv = net.reachable_inv [OF assms]
  have 1: "\<exists>res a'. rudp_sendto now rnd junk (net_a n) (IntPtr 0) data len (lk_b L) = Inr (res, a')"
    if "0 \<le> len \<and> nat len \<le> length data \<and> length (net_data n) + 65541 < 2 ^ 31"
    using send_step [OF inv, of len data now rnd junk] that by blast
  have 2: "\<exists>a'. event_dispatch_timer silent now (net_a n) = Inr a'" if "ee_timers (net_a n) \<noteq> []" using timer_step [OF inv that] by blast
  have 3: "\<exists>a'. recvhandler silent now buf0 (net_a n) (lk_fda L) arg (lk_b L) p = Inr (0, a')" if "(lk_fdb L, lk_a L, p) \<in> set (sent (net_b n))"
    using recv_a_step [OF inv that] by blast
  have 4: "\<exists>b'. recvhandler silent now buf0 (net_b n) (lk_fdb L) (e_arg e) (lk_a L) p = Inr (0, b')"
    if "(lk_fda L, lk_b L, p) \<in> set (sent (net_a n)) \<and> e \<in> set (ee (net_b n))"
    using recv_b_step [OF inv conjunct1 [OF that], of now buf0] receiver_arg [OF inv conjunct2 [OF that]] by auto
  show ?thesis using 1 2 3 4 by blast
qed

text \<open>C22. The window: no data packet that was sent is three or more ahead of the acknowledged ones, and the
  receiver is between.\<close>

theorem rudp_window:
  assumes "net_start L n0" and "(rudp_step L)\<^sup>*\<^sup>* n0 n" and "getState (net_a n) (lk_fda L) (lk_b L) = Some ESTABLISH"
  shows "list_all (\<lambda>(fd, to, p). un16 (take 2 (drop 2 p)) = RUDP_DATA \<longrightarrow>
      sint (un32 (take 4 (drop 4 p))) < sint (getSeq (net_a n) (lk_fda L) (lk_b L)) + int RUDP_WINDOW) (sent (net_a n)) \<and>
    sint (getSeq (net_a n) (lk_fda L) (lk_b L)) \<le> sint (getSeq (net_b n) (lk_fdb L) (lk_a L)) \<and>
    sint (getSeq (net_b n) (lk_fdb L) (lk_a L)) \<le> sint (getSeq (net_a n) (lk_fda L) (lk_b L)) + int RUDP_WINDOW"
proof -
  note inv = net.reachable_inv [OF assms(1,2)]
  let ?D = "net_data n"
  from inv have "net_phase L ?D (net_a n) (net_b n)" by (simp add: net_inv_def)
  then obtain r k w x m where e: "est_phase L ?D r k w x (net_a n)" and b: "receiver L ?D r m (net_b n)"
    and m: "k \<le> m" "m \<le> k + w" and r: "r < 65535" using assms(3) phase_state by cases auto
  have range: "r + 4 + length ?D < 2 ^ 31" using inv in_range [OF _ r] unfolding net_inv_def by blast
  have snd: "sender L ?D r k w x (net_a n)" "w \<le> 3" "sn_seq (node_at (net_a n) x) = of_nat (r + 1 + k)"
    using e by (simp_all add: est_phase_def window_def)
  have kw: "k + w \<le> length ?D" using senderD(6,7) [OF snd(1)] by (simp add: queue_ok_def)
  obtain y where y: "conn (net_b n) y (lk_fdb L) (lk_a L)" "sn_seq (node_at (net_b n) y) = of_nat (r + 1 + m)"
    using b by (auto simp: receiver_def)
  have seq: "sint (getSeq (net_a n) (lk_fda L) (lk_b L)) = int (r + 1 + k)" "sint (getSeq (net_b n) (lk_fdb L) (lk_a L)) = int (r + 1 + m)"
    unfolding conn_reads(3) [OF senderD(1) [OF snd(1)]] conn_reads(3) [OF y(1)] snd(3) y(2)
    by (rule sint_of_nat32, use range kw m in linarith)+
  have pkt: "sint (un32 (take 4 (drop 4 p))) < int (r + 1 + k) + int RUDP_WINDOW"
    if ok: "sent_ok L ?D r (k + w) (fd, to, p)" and ty: "un16 (take 2 (drop 2 p)) = RUDP_DATA" for fd to p
  proof -
    from ok consider "p = rudp_hdr RUDP_SYN (of_nat r)" | j where "j < k + w" "p = data_pkt r ?D j" unfolding sent_ok_def by auto
    then show ?thesis
    proof cases
      case 1
      then show ?thesis using ty by simp
    next
      case (2 j)
      have "sint (of_nat (r + 1 + j) :: u32) = int (r + 1 + j)" by (rule sint_of_nat32) (use range kw 2(1) in linarith)
      then show ?thesis using 2 snd(2) by (simp add: data_pkt_def del: of_nat_add)
    qed
  qed
  then show ?thesis unfolding seq list_all_iff using senderD(10) [OF snd(1)] m snd(2) by auto
qed

text \<open>The untyped argument of every timer is what the timer's function takes it for: the connection, or
  a copy with the address of a packet.\<close>

theorem rudp_timers_typed:
  assumes "net_start L n0" and "(rudp_step L)\<^sup>*\<^sup>* n0 n"
  shows "list_all (\<lambda>e. case (e_fn e, e_arg e) of
      (RETRANSMITSYN, NodePtr a) \<Rightarrow> a \<in> set (sockets (net_a n))
    | (RETRANSMITDATA, CopyPtr c) \<Rightarrow> c < next_addr (net_a n) \<and> cp_fd (copy_at (net_a n) c) = lk_fda L \<and>
        (case cp_buff (copy_at (net_a n) c) of None \<Rightarrow> False | Some b \<Rightarrow> b < next_addr (net_a n))
    | _ \<Rightarrow> False) (ee_timers (net_a n))" (is "list_all ?ok _")
proof -
  have ok: "?ok e" if "timer_ok L a bs (net_a n) e" "conn (net_a n) a fd to" for e a bs fd to
    using that unfolding timer_ok_def conn_def by auto
  from net.reachable_inv [OF assms] have "net_phase L (net_data n) (net_a n) (net_b n)" by (simp add: net_inv_def)
  then show ?thesis
  proof cases
    case Fresh
    then show ?thesis by (simp add: sender_fresh_def)
  next
    case (Syn r x)
    then have "sender L (net_data n) r 0 0 x (net_a n)" by (simp add: syn_phase_def)
    then show ?thesis using ok senderD(1,9) unfolding list_all_iff by blast
  next
    case (Est r k w x m)
    then have "sender L (net_data n) r k w x (net_a n)" by (simp add: est_phase_def)
    then show ?thesis using ok senderD(1,9) unfolding list_all_iff by blast
  next
    case (Shut r x m)
    then show ?thesis using ok unfolding sender_closed_def list_all_iff by blast
  qed
qed

section \<open>Runs\<close>

definition sample_link :: rudp_link where
  "sample_link = \<lparr>lk_fda = 3, lk_fdb = 4, lk_a = 10, lk_b = 20, lk_f = 5\<rparr>"

text \<open>The client of the sender has sent one byte, and the answer to the SYN has arrived.\<close>

lemma run_syn: "\<exists>n0 n r x. net_start L n0 \<and> (rudp_step L)\<^sup>*\<^sup>* n0 n \<and> net_data n = [[7]] \<and> r < 65535 \<and>
    syn_phase L [[7]] r x (net_a n) \<and> receiver_idle L (net_b n)"
proof -
  obtain a b where a: "start_sender L 9 = Inr a" "sender_fresh L a" and b: "start_receiver L 8000 2 = Inr b" "receiver_idle L b"
    using start_sender_ok [of L 9] start_receiver_ok [of 8000 L 2] by auto
  let ?n = "\<lparr>net_a = a, net_b = b, net_data = []\<rparr>"
  have n: "net_start L ?n" unfolding net_start_def
    by (rule exI [of _ 9], rule exI [of _ 2], rule exI [of _ 8000]) (simp add: a b)
  obtain a' where a': "rudp_sendto (0, 0) 41 0 a (IntPtr 0) [7] 1 (lk_b L) = Inr (0, a')" "syn_phase L [[7]] 41 (next_addr a) a'"
    using sendto_fresh [OF a(2), of 1 "[7]" "(0, 0)" 41 0] by auto
  have "submit L ?n [7] 1 = [[7]]" using phase_state(1) [OF a(2)] by (simp add: submit_def)
  then have "rudp_step L ?n (?n\<lparr>net_a := a', net_data := [[7]]\<rparr>)"
    using rudp_step.Send [of "(0, 0)" 41 0 ?n "[7]" 1 L 0 a'] a'(1) by simp
  then show ?thesis using n a'(2) b(2)
    by (intro exI [of _ ?n] exI [of _ "?n\<lparr>net_a := a', net_data := [[7]]\<rparr>"] exI [of _ 41] exI [of _ "next_addr a"]) auto
qed

lemma run_est: "\<exists>n0 n. net_start L n0 \<and> (rudp_step L)\<^sup>*\<^sup>* n0 n \<and> net_data n = [[7]] \<and>
    getState (net_a n) (lk_fda L) (lk_b L) = Some ESTABLISH"
proof -
  obtain n0 n r x where n: "net_start L n0" "(rudp_step L)\<^sup>*\<^sup>* n0 n" "net_data n = [[7]]" "r < 65535"
    "syn_phase L [[7]] r x (net_a n)" "receiver_idle L (net_b n)" using run_syn by blast
  obtain n' w where "(rudp_step L)\<^sup>*\<^sup>* n n'" "net_data n' = net_data n" "est_phase L (net_data n) r 0 w x (net_a n')"
    using deliver_syn [OF net.reachable_inv [OF n(1,2)], of r x] n(3-6) by auto
  then show ?thesis using n(1-3) phase_state(3) [of L "net_data n" r 0 w x "net_a n'"] rtranclp_trans [of "rudp_step L" n0 n n']
    by (intro exI [of _ n0] exI [of _ n']) auto
qed

text \<open>At least one byte arrives in such a run, and none of it fails.\<close>

theorem rudp_progress_witness:
  "\<exists>n0 n n'. net_start sample_link n0 \<and> (rudp_step sample_link)\<^sup>*\<^sup>* n0 n \<and> net_data n = [[7]] \<and>
     (rudp_step sample_link)\<^sup>*\<^sup>* n n' \<and> delivered (net_b n') = [[7]]"
proof -
  obtain n0 n where n: "net_start sample_link n0" "(rudp_step sample_link)\<^sup>*\<^sup>* n0 n" "net_data n = [[7]]"
    "getState (net_a n) (lk_fda sample_link) (lk_b sample_link) = Some ESTABLISH" using run_est by blast
  have "getState (net_a n) (lk_fda sample_link) (lk_b sample_link) \<noteq> Some CLOSED" using n(4) by simp
  from rudp_progress [OF n(1,2) this] show ?thesis using n(1-3) by auto
qed

theorem rudp_delivery_witness:
  "\<exists>n0 n rest. net_start sample_link n0 \<and> (rudp_step sample_link)\<^sup>*\<^sup>* n0 n \<and> delivered (net_b n) = [[7]] \<and> [[7]] = delivered (net_b n) @ rest"
proof -
  obtain n0 n where n: "net_start sample_link n0" "(rudp_step sample_link)\<^sup>*\<^sup>* n0 n" "net_data n = [[7]]"
    "getState (net_a n) (lk_fda sample_link) (lk_b sample_link) = Some ESTABLISH" using run_est by blast
  obtain n' where n': "(rudp_step sample_link)\<^sup>*\<^sup>* n n'" "net_data n' = [[7]]" "delivered (net_b n') = [[7]]"
    using progress_inv [OF net.reachable_inv [OF n(1,2)]] n(3,4) by auto
  from rudp_delivery [OF n(1) rtranclp_trans [OF n(2) n'(1)]] show ?thesis
    using n(1) rtranclp_trans [OF n(2) n'(1)] n'(2,3) by (metis append.right_neutral)
qed

theorem rudp_no_faults_witness:
  "\<exists>n0 n. net_start sample_link n0 \<and> (rudp_step sample_link)\<^sup>*\<^sup>* n0 n \<and> net_data n = [[7]] \<and>
     (\<exists>res a'. rudp_sendto (0, 0) 41 0 (net_a n) (IntPtr 0) [8, 9] 2 (lk_b sample_link) = Inr (res, a'))"
proof -
  obtain n0 n where n: "net_start sample_link n0" "(rudp_step sample_link)\<^sup>*\<^sup>* n0 n" "net_data n = [[7]]" using run_est by blast
  have "\<exists>res a'. rudp_sendto (0, 0) 41 0 (net_a n) (IntPtr 0) [8, 9] 2 (lk_b sample_link) = Inr (res, a')"
    using conjunct1 [OF rudp_no_faults [OF n(1,2), of 2 "[8, 9]" "(0, 0)" 41 0]] n(3) by simp
  then show ?thesis using n by blast
qed

theorem rudp_window_witness:
  "\<exists>n0 n. net_start sample_link n0 \<and> (rudp_step sample_link)\<^sup>*\<^sup>* n0 n \<and>
     getState (net_a n) (lk_fda sample_link) (lk_b sample_link) = Some ESTABLISH \<and>
     sint (getSeq (net_b n) 4 10) \<le> sint (getSeq (net_a n) 3 20) + 3"
proof -
  obtain n0 n where n: "net_start sample_link n0" "(rudp_step sample_link)\<^sup>*\<^sup>* n0 n"
    "getState (net_a n) (lk_fda sample_link) (lk_b sample_link) = Some ESTABLISH" using run_est by blast
  from rudp_window [OF this] show ?thesis using n unfolding sample_link_def by auto
qed

theorem rudp_timers_typed_witness:
  "\<exists>n0 n. net_start sample_link n0 \<and> (rudp_step sample_link)\<^sup>*\<^sup>* n0 n \<and> net_data n = [[7]] \<and>
     list_all (\<lambda>e. e_fn e = RETRANSMITDATA \<or> e_arg e \<in> NodePtr ` set (sockets (net_a n))) (ee_timers (net_a n))"
proof -
  obtain n0 n where n: "net_start sample_link n0" "(rudp_step sample_link)\<^sup>*\<^sup>* n0 n" "net_data n = [[7]]" using run_est by blast
  from rudp_timers_typed [OF n(1,2)] have "list_all (\<lambda>e. e_fn e = RETRANSMITDATA \<or> e_arg e \<in> NodePtr ` set (sockets (net_a n))) (ee_timers (net_a n))"
    by (rule list.pred_mono_strong) (auto split: rudp_fn.splits rudp_ptr.splits)
  then show ?thesis using n by blast
qed

end
