(* ===== verification/RudpEnd.thy ===== *)
theory RudpEnd
  imports RudpNet
begin

text \<open>
  The end of a connection of the reliable datagram protocol, and datagrams that no sender of it makes:
  the closing handshake, what a receiver does after it, datagrams shorter than a header, and two
  functions of \<^verbatim>\<open>list.cpp\<close> that do not do what they are for.
\<close>

section \<open>Updates of one connection among several\<close>

lemma getS_set_node [simp]:
  assumes "\<And>n. sn_fd (f n) = sn_fd n" "\<And>n. sn_to (f n) = sn_to n"
  shows "getS (set_node a f s) fd to = getS s fd to"
proof -
  have "sn_fd (node_at (set_node a f s) x) = sn_fd (node_at s x)" "sn_to (node_at (set_node a f s) x) = sn_to (node_at s x)" for x
    using assms by simp_all
  then show ?thesis unfolding getS_def by simp
qed

lemma getS_send [simp]: "getS (sendtowithdropsendto s fd' p to') fd to = getS s fd to"
  "getS (s\<lparr>calls := cs\<rparr>) fd to = getS s fd to"
  by (simp_all add: getS_def sendtowithdropsendto_def)

lemma send_fields [simp]:
  "node_at (sendtowithdropsendto s fd p to) = node_at s" "calls (sendtowithdropsendto s fd p to) = calls s"
  "handlers (sendtowithdropsendto s fd p to) = handlers s" "sent (sendtowithdropsendto s fd p to) = sent s @ [(fd, to, p)]"
  by (simp_all add: sendtowithdropsendto_def)

lemma find_hand_frame [simp]: "find_hand (set_node a f s) fd = find_hand s fd" "find_hand (sendtowithdropsendto s fd' p to) fd = find_hand s fd"
  by (simp_all add: find_hand_def)

section \<open>After the end of a connection\<close>

lemma fin_listens:
  assumes a: "getS s fd to = Some a" "sn_state (node_at s a) = ESTABLISH" "sn_seq (node_at s a) \<noteq> -1" "find_hand s fd = Some h"
  shows "\<exists>s'. recvhandler code now buf0 s fd arg to (rudp_hdr RUDP_FIN q) = Inr (0, s') \<and>
     s' = sendtowithdropsendto (set_node a (\<lambda>n. n\<lparr>sn_state := LISTEN\<rparr>) s) fd (rudp_hdr RUDP_ACK (q + 1)) to"
  using recvhandler_found [OF a(1,3,4), of "[]" code now buf0 arg RUDP_FIN q] a(2) getS_reads(3) [OF a(1)]
  by (simp add: recv_established_def Let_def)

lemma syn_establishes:
  assumes a: "getS s fd to = Some a" "sn_state (node_at s a) = LISTEN" "sn_seq (node_at s a) \<noteq> -1" "find_hand s fd = Some h"
  shows "\<exists>s'. recvhandler code now buf0 s fd arg to (rudp_hdr RUDP_SYN q) = Inr (0, s') \<and>
     s' = set_node a (\<lambda>n. n\<lparr>sn_seq := q + 1\<rparr>) (set_node a (\<lambda>n. n\<lparr>sn_state := ESTABLISH\<rparr>) (sendtowithdropsendto s fd (rudp_hdr RUDP_ACK (q + 1)) to))"
proof -
  let ?s1 = "sendtowithdropsendto s fd (rudp_hdr RUDP_ACK (q + 1)) to"
  let ?s2 = "set_node a (\<lambda>n. n\<lparr>sn_state := ESTABLISH\<rparr>) ?s1"
  have "getS ?s1 fd to = Some a" "getS ?s2 fd to = Some a" using a(1) by simp_all
  then have "recv_listen s fd to RUDP_SYN q = set_node a (\<lambda>n. n\<lparr>sn_seq := q + 1\<rparr>) ?s2"
    using getS_reads(3) [of ?s1 fd to a] getS_reads(4) [of ?s2 fd to a] by (simp add: recv_listen_def Let_def)
  then show ?thesis using recvhandler_found [OF a(1,3,4), of "[]" code now buf0 arg RUDP_SYN q] a(2) by simp
qed

lemma data_delivered:
  assumes a: "getS s fd to = Some a" "sn_state (node_at s a) = ESTABLISH" "sn_seq (node_at s a) = q" "q \<noteq> -1" "find_hand s fd = Some h"
    and d: "length d \<le> RUDP_MAXPKTSIZE"
  shows "\<exists>s'. recvhandler silent now buf0 s fd (FunPtr f) to (rudp_hdr RUDP_DATA q @ d) = Inr (0, s') \<and> delivered s' = delivered s @ [d]"
proof -
  let ?s1 = "s\<lparr>calls := calls s @ [CallRecv f (NodePtr a) to d]\<rparr>"
  let ?s2 = "sendtowithdropsendto ?s1 fd (rudp_hdr RUDP_ACK (q + 1)) to"
  have g: "getS ?s2 fd to = Some a" "sn_seq (node_at ?s2 a) = q" using a by simp_all
  have "recv_data silent s fd (FunPtr f) to q d = Inr (set_node a (\<lambda>n. n\<lparr>sn_seq := q + 1\<rparr>) ?s2)"
    using a getS_reads(2) [OF a(1)] getS_reads(2,4) [OF g(1)] g
    by (simp add: recv_data_def deref_def call_client_def silent_def Let_def)
  then show ?thesis using recvhandler_found [OF a(1) _ a(5) d, of silent now buf0 "FunPtr f" RUDP_DATA q] a(2-4)
    by (simp add: recv_established_def Let_def delivered_def)
qed

text \<open>C23. A receiver that has got a FIN takes any SYN as the start of a new connection and what follows as new
  data. When old datagrams are repeated by the network, a connection that was closed delivers
  its data again.\<close>

theorem rudp_replay:
  assumes "getS s fd to = Some a" "sn_state (node_at s a) = ESTABLISH" "sn_seq (node_at s a) \<noteq> -1" "find_hand s fd = Some h"
    and "length d \<le> RUDP_MAXPKTSIZE" and "r + 1 \<noteq> -1"
  shows "\<exists>s1 s2 s3. recvhandler silent now buf0 s fd (FunPtr f) to (rudp_hdr RUDP_FIN q) = Inr (0, s1) \<and>
     recvhandler silent now buf0 s1 fd (FunPtr f) to (rudp_hdr RUDP_SYN r) = Inr (0, s2) \<and>
     recvhandler silent now buf0 s2 fd (FunPtr f) to (rudp_hdr RUDP_DATA (r + 1) @ d) = Inr (0, s3) \<and>
     delivered s3 = delivered s @ [d]"
proof -
  obtain s1 where s1: "recvhandler silent now buf0 s fd (FunPtr f) to (rudp_hdr RUDP_FIN q) = Inr (0, s1)"
    "s1 = sendtowithdropsendto (set_node a (\<lambda>n. n\<lparr>sn_state := LISTEN\<rparr>) s) fd (rudp_hdr RUDP_ACK (q + 1)) to"
    using fin_listens [OF assms(1-4)] by blast
  then have g1: "getS s1 fd to = Some a" "sn_state (node_at s1 a) = LISTEN" "sn_seq (node_at s1 a) \<noteq> -1" "find_hand s1 fd = Some h"
    "delivered s1 = delivered s" using assms(1,3,4) by (simp_all add: delivered_def)
  obtain s2 where s2: "recvhandler silent now buf0 s1 fd (FunPtr f) to (rudp_hdr RUDP_SYN r) = Inr (0, s2)"
    "s2 = set_node a (\<lambda>n. n\<lparr>sn_seq := r + 1\<rparr>) (set_node a (\<lambda>n. n\<lparr>sn_state := ESTABLISH\<rparr>) (sendtowithdropsendto s1 fd (rudp_hdr RUDP_ACK (r + 1)) to))"
    using syn_establishes [OF g1(1-4)] by blast
  then have g2: "getS s2 fd to = Some a" "sn_state (node_at s2 a) = ESTABLISH" "sn_seq (node_at s2 a) = r + 1" "find_hand s2 fd = Some h"
    "delivered s2 = delivered s" using g1 by (simp_all add: delivered_def)
  show ?thesis using s1(1) s2(1) data_delivered [OF g2(1-3) assms(6) g2(4) assms(5), of now buf0 f] g2(5) by auto
qed

section \<open>Datagrams that are too short\<close>

text \<open>C24. The copy out of the receive buffer takes exactly the bytes behind the header of a datagram that has a whole
  header. For a shorter one (1 to 7 bytes) the count wraps around to \<open>2 ^ 64\<close> less the bytes that are missing to a header, and
  the copy leaves the buffer: whoever sends it, and whatever state the connection is in, the
  handler does so as soon as the version that it reads in the buffer is the right one.\<close>

theorem rudp_short_datagram:
  assumes "length buf0 = RUDP_MAXPKTSIZE + hdr_size" "dgram \<noteq> []" "length dgram \<le> RUDP_MAXPKTSIZE + hdr_size"
    and "un16 (take 2 (dgram @ drop (length dgram) buf0)) = RUDP_VERSION"
  shows "recv_payload (dgram @ drop (length dgram) buf0) (int (length dgram)) =
      (if hdr_size \<le> length dgram then Inr (drop hdr_size dgram) else Inl OutOfBounds) \<and>
    (length dgram < hdr_size \<longrightarrow>
      unat (payload_size (int (length dgram))) = 2 ^ 64 - (hdr_size - length dgram) \<and>
      recvhandler code now buf0 s fd arg to dgram = Inl OutOfBounds)"
proof -
  let ?buf = "dgram @ drop (length dgram) buf0"
  have size: "unat (payload_size (int (length dgram))) = (if hdr_size \<le> length dgram then length dgram - hdr_size else 2 ^ 64 - (hdr_size - length dgram))"
    using payload_size_value [of "length dgram"] assms(3) by simp
  have buf: "length ?buf = RUDP_MAXPKTSIZE + hdr_size" using assms(1,3) by simp
  have copy: "recv_payload ?buf (int (length dgram)) = (if hdr_size \<le> length dgram then Inr (drop hdr_size dgram) else Inl OutOfBounds)"
  proof (cases "hdr_size \<le> length dgram")
    case True
    then show ?thesis using size buf assms(3) by (simp add: recv_payload_def load_def)
  next
    case False
    then have "length ?buf < hdr_size + unat (payload_size (int (length dgram)))" using size buf by simp
    then show ?thesis using False by (simp add: recv_payload_def load_def)
  qed
  have "min (length dgram) (RUDP_MAXPKTSIZE + hdr_size) = length dgram" using assms(3) by simp
  then have "recvhandler code now buf0 s fd arg to dgram = Inl OutOfBounds" if "length dgram < hdr_size"
    using that copy assms(2,4) by (simp add: recvhandler_def Let_def)
  then show ?thesis using copy size by auto
qed

theorem rudp_short_datagram_witness:
  "recvhandler silent (0, 0) (replicate 1008 0) rudp_init 4 (FunPtr 5) 10 [1] = Inl OutOfBounds \<and>
   recvhandler silent (0, 0) (replicate 1008 0) rudp_init 4 (FunPtr 5) 10 [1, 0, 4] = Inl OutOfBounds \<and>
   payload_size 3 = 2 ^ 64 - 5"
  using rudp_short_datagram [of "replicate 1008 0" "[1]" silent "(0, 0)" rudp_init 4 "FunPtr 5" 10]
    rudp_short_datagram [of "replicate 1008 0" "[1, 0, 4]" silent "(0, 0)" rudp_init 4 "FunPtr 5" 10]
  by (simp add: payload_size_def take_Suc_conv_app_nth)

text \<open>An empty datagram makes the handler return -1, which \<^verbatim>\<open>eventloop\<close> takes for an unrecoverable error.\<close>

lemma rudp_empty_datagram: "recvhandler code now buf0 s fd arg to [] = Inr (-1, s)"
  by (simp add: recvhandler_def)

section \<open>Functions that are not used\<close>

text \<open>Counting the connections of a descriptor that has one never ends.\<close>

lemma sizeTo_loop_stuck: "sn_fd (node_at s a) = fd \<Longrightarrow> sizeTo_loop fuel s fd (a # as) n = Inl Diverges"
  by (induction fuel arbitrary: n) simp_all

lemma sizeTo_diverges: "x \<in> set as \<Longrightarrow> sn_fd (node_at s x) = fd \<Longrightarrow> sizeTo_loop fuel s fd as n = Inl Diverges"
proof (induction as arbitrary: fuel)
  case (Cons a as)
  show ?case
  proof (cases "sn_fd (node_at s a) = fd")
    case True
    then show ?thesis by (rule sizeTo_loop_stuck)
  next
    case False
    then show ?thesis using Cons by (cases fuel) auto
  qed
qed simp

theorem rudp_sizeTo_diverges:
  assumes "getTo s fd \<noteq> None"
  shows "sizeTo fuel s fd = Inl Diverges"
proof -
  obtain x where "x \<in> set (sockets s)" "sn_fd (node_at s x) = fd" using assms by (auto simp: getTo_def find_None_iff)
  then show ?thesis unfolding sizeTo_def by (rule sizeTo_diverges)
qed

text \<open>Registering an event handler while there is no connection loses the handlers of other descriptors.\<close>

theorem rudp_handler_lost:
  assumes "sockets s = []" and "fd \<noteq> fd'"
  shows "find_hand (addhandler (addhandler s fd h) fd' h') fd = None"
  using assms by (simp add: addhandler_def find_hand_def)

section \<open>Closing\<close>

lemma conn_iter: "conn s a fd to \<Longrightarrow> iter_nodes s fd = [a]" "conn s a fd to \<Longrightarrow> sn_to (node_at s a) = to"
  "conn s a fd to \<Longrightarrow> sizebufferTo s fd = (if sn_state (node_at s a) = CLOSED then 0 else length (sn_buff (node_at s a)))"
  using conn_reads(6) [of s a fd to] by (auto simp: conn_def iter_nodes_def sizebufferTo_def)

lemma conn_frame [simp]:
  "conn (event_timeout s t fn arg) a fd to = conn s a fd to" "conn (sendtowithdropsendto s fd' p to') a fd to = conn s a fd to"
  "conn (event_fd_delete s fn arg) a fd to = conn s a fd to" "conn (s\<lparr>calls := cs\<rparr>) a fd to = conn s a fd to"
  by (simp_all add: conn_def event_timeout_def sendtowithdropsendto_def event_fd_delete_def)

lemma send_fin_conn:
  assumes c: "conn s a fd to"
  shows "send_fin now s fd to = Inr (event_timeout (set_node a (\<lambda>n. n\<lparr>sn_seq := sn_seq (node_at s a) + 1\<rparr>)
    (sendtowithdropsendto (set_node a (\<lambda>n. n\<lparr>sn_state := CLOSE_WAIT\<rparr>) (set_node a (\<lambda>n. n\<lparr>sn_retransmit := 0\<rparr>) s))
      fd (rudp_hdr RUDP_FIN (sn_seq (node_at s a) + 1)) to)) (timeout_at now) RETRANSMITFIN (NodePtr a))"
proof -
  let ?s1 = "set_node a (\<lambda>n. n\<lparr>sn_retransmit := 0\<rparr>) s"
  let ?s2 = "set_node a (\<lambda>n. n\<lparr>sn_state := CLOSE_WAIT\<rparr>) ?s1"
  let ?s3 = "sendtowithdropsendto ?s2 fd (rudp_hdr RUDP_FIN (sn_seq (node_at s a) + 1)) to"
  have "conn ?s1 a fd to" "conn ?s3 a fd to" using c by simp_all
  then show ?thesis
    using conn_updates(5) [OF c] conn_updates(3) [of ?s1 a fd to] conn_updates(1) [of ?s3 a fd to] conn_reads(3) [OF c] conn_getS [OF c]
    by (simp add: send_fin_def Let_def deref_def)
qed

text \<open>The last acknowledgement of the closing side.\<close>

lemma fin_acknowledged:
  assumes c: "conn s a fd to" "sn_state (node_at s a) = CLOSE_WAIT" "sn_seq (node_at s a) \<noteq> -1" "find_hand s fd = Some h"
  shows "\<exists>s'. recvhandler silent now buf0 s fd arg to (rudp_hdr RUDP_ACK (sn_seq (node_at s a) + 1)) = Inr (0, s') \<and>
     sn_state (node_at s' a) = CLOSED \<and> calls s' = calls s @ [CallEvent h (sn_i (node_at s a)) RUDP_EVENT_CLOSED None] \<and>
     closed s' = closed s @ [fd] \<and> sent s' = sent s \<and> conn s' a fd to"
proof -
  let ?q = "sn_seq (node_at s a) + 1"
  let ?s1 = "set_node a (\<lambda>n. n\<lparr>sn_state := CLOSED\<rparr>) s"
  let ?s2 = "set_node a (\<lambda>n. n\<lparr>sn_close_ask := 1\<rparr>) ?s1"
  let ?s3 = "set_node a (\<lambda>n. n\<lparr>sn_seq := 0\<rparr>) ?s2"
  let ?s4 = "event_fd_delete ?s3 RECVHANDLER arg"
  let ?s5 = "?s4\<lparr>calls := calls ?s4 @ [CallEvent h (sn_i (node_at s a)) RUDP_EVENT_CLOSED None]\<rparr>"
  have conns: "conn ?s1 a fd to" "conn ?s2 a fd to" "conn ?s3 a fd to" "conn ?s4 a fd to" "conn ?s5 a fd to" using c(1) by simp_all
  have eqs: "setState s fd to CLOSED = ?s1" "setClose ?s1 fd to 1 = ?s2" "setSeq ?s2 fd to 0 = ?s3"
    using conn_updates(3) [OF c(1)] conn_updates(2) [OF conns(1)] conn_updates(1) [OF conns(2)] by simp_all
  have n4: "node_at ?s4 = node_at ?s3" by (simp add: event_fd_delete_def)
  have shut: "\<not> notclosed ?s3 fd" "\<not> notclosed ?s5 fd"
    using conn_reads(7) [OF conns(3)] conn_reads(7) [OF conns(5)] n4 by simp_all
  have "recv_close_wait silent s fd arg h to RUDP_ACK ?q = Inr (?s5\<lparr>closed := closed ?s5 @ [fd]\<rparr>)"
    unfolding recv_close_wait_def Let_def eqs conn_reads(3) [OF c(1)]
    using shut conn_getS [OF conns(4)] n4 by (simp add: deref_def call_client_def silent_def)
  moreover have "conn (?s5\<lparr>closed := closed ?s5 @ [fd]\<rparr>) a fd to" using conns(5) by (simp add: conn_def)
  ultimately show ?thesis using recvhandler_packet [OF c(1,3,4), of "[]" silent now buf0 arg RUDP_ACK ?q] c(2) n4
    by (simp add: event_fd_delete_def)
qed

text \<open>Closing an established connection with nothing left to send: a FIN goes out with the next sequence
  number, and its acknowledgement ends the connection, tells the client once and closes the descriptor.\<close>

theorem rudp_close_handshake:
  assumes "sockets s = [a]" "sn_fd (node_at s a) = int_at s i" "sn_state (node_at s a) = ESTABLISH" "sn_buff (node_at s a) = []"
    and "find_hand s (int_at s i) = Some h" and "sn_seq (node_at s a) + 1 \<noteq> -1"
  shows "\<exists>s1 s2. rudp_close now s (IntPtr i) = Inr s1 \<and>
     sent s1 = sent s @ [(int_at s i, sn_to (node_at s a), rudp_hdr RUDP_FIN (sn_seq (node_at s a) + 1))] \<and>
     sn_state (node_at s1 a) = CLOSE_WAIT \<and>
     recvhandler silent now buf0 s1 (int_at s i) arg (sn_to (node_at s a)) (rudp_hdr RUDP_ACK (sn_seq (node_at s a) + 1 + 1)) = Inr (0, s2) \<and>
     sn_state (node_at s2 a) = CLOSED \<and> calls s2 = calls s @ [CallEvent h (sn_i (node_at s a)) RUDP_EVENT_CLOSED None] \<and>
     closed s2 = closed s @ [int_at s i]"
proof -
  let ?fd = "int_at s i" and ?to = "sn_to (node_at s a)"
  have c: "conn s a ?fd ?to" using assms(1,2) by (simp add: conn_def)
  obtain s1 where s1: "send_fin now s ?fd ?to = Inr s1" and s1': "s1 = event_timeout (set_node a (\<lambda>n. n\<lparr>sn_seq := sn_seq (node_at s a) + 1\<rparr>)
    (sendtowithdropsendto (set_node a (\<lambda>n. n\<lparr>sn_state := CLOSE_WAIT\<rparr>) (set_node a (\<lambda>n. n\<lparr>sn_retransmit := 0\<rparr>) s))
      ?fd (rudp_hdr RUDP_FIN (sn_seq (node_at s a) + 1)) ?to)) (timeout_at now) RETRANSMITFIN (NodePtr a)" using send_fin_conn [OF c] by blast
  have close: "rudp_close now s (IntPtr i) = Inr s1"
    using conn_iter [OF c] assms(3,4) conn_reads(1) [OF c] s1 by (simp add: rudp_close_def Let_def)
  have f1: "conn s1 a ?fd ?to" "sn_state (node_at s1 a) = CLOSE_WAIT" "sn_seq (node_at s1 a) = sn_seq (node_at s a) + 1"
    "sent s1 = sent s @ [(?fd, ?to, rudp_hdr RUDP_FIN (sn_seq (node_at s a) + 1))]" "calls s1 = calls s" "closed s1 = closed s"
    "find_hand s1 ?fd = Some h" "sn_i (node_at s1 a) = sn_i (node_at s a)"
    unfolding s1' using c assms(5) by (simp_all add: event_timeout_def sendtowithdropsendto_def find_hand_def conn_def)
  have "sn_seq (node_at s1 a) \<noteq> -1" using f1(3) assms(6) by simp
  from fin_acknowledged [OF f1(1,2) this f1(7), of now buf0 arg] show ?thesis using close f1 by auto
qed

text \<open>While data is waiting, closing only notes the wish.\<close>

lemma rudp_close_deferred:
  assumes c: "conn s a fd to" and "int_at s i = fd" "sn_state (node_at s a) \<noteq> CLOSED" "sn_buff (node_at s a) \<noteq> []"
  shows "rudp_close now s (IntPtr i) = Inr (set_node a (\<lambda>n. n\<lparr>sn_close_ask := 1\<rparr>) s)"
  using conn_iter [OF c] assms conn_updates(2) [OF c] by (simp add: rudp_close_def)

section \<open>A connection\<close>

text \<open>A process with an established connection on descriptor 4 to the address 10.\<close>

definition sample_peer :: rudp where
  "sample_peer = rudp_init\<lparr>sockets := [7], handlers := [(2, 4)], next_addr := 8, int_at := (\<lambda>_. 4),
     node_at := (\<lambda>_. \<lparr>sn_fd = 4, sn_to = 10, sn_state = ESTABLISH, sn_seq = 42, sn_retransmit = 0, sn_close_ask = 0,
       sn_nextpacket = 0, sn_i = IntPtr 0, sn_buff = []\<rparr>)\<rparr>"

theorem rudp_replay_witness:
  "\<exists>s1 s2 s3. recvhandler silent (0, 0) [] sample_peer 4 (FunPtr 5) 10 (rudp_hdr RUDP_FIN 43) = Inr (0, s1) \<and>
     recvhandler silent (0, 0) [] s1 4 (FunPtr 5) 10 (rudp_hdr RUDP_SYN 40) = Inr (0, s2) \<and>
     recvhandler silent (0, 0) [] s2 4 (FunPtr 5) 10 (rudp_hdr RUDP_DATA 41 @ [7]) = Inr (0, s3) \<and> delivered s3 = [[7]]"
proof -
  have "getS sample_peer 4 10 = Some 7" "sn_state (node_at sample_peer 7) = ESTABLISH" "sn_seq (node_at sample_peer 7) \<noteq> -1"
    "find_hand sample_peer 4 = Some 2" "delivered sample_peer = []"
    by (simp_all add: sample_peer_def getS_def find_hand_def delivered_def rudp_init_def)
  then show ?thesis using rudp_replay [of sample_peer 4 10 7 2 "[7]" 40 "(0, 0)" "[]" 5 43] by simp
qed

theorem rudp_close_handshake_witness:
  "\<exists>s1 s2. rudp_close (0, 0) sample_peer (IntPtr 0) = Inr s1 \<and> sent s1 = [(4, 10, rudp_hdr RUDP_FIN 43)] \<and>
     recvhandler silent (0, 0) [] s1 4 (FunPtr 5) 10 (rudp_hdr RUDP_ACK 44) = Inr (0, s2) \<and> closed s2 = [4]"
proof -
  have "sockets sample_peer = [7]" "sn_fd (node_at sample_peer 7) = int_at sample_peer 0" "sn_state (node_at sample_peer 7) = ESTABLISH"
    "sn_buff (node_at sample_peer 7) = []" "find_hand sample_peer (int_at sample_peer 0) = Some 2" "sn_seq (node_at sample_peer 7) + 1 \<noteq> -1"
    by (simp_all add: sample_peer_def find_hand_def)
  from rudp_close_handshake [OF this, of "(0, 0)" "[]" "FunPtr 5"] show ?thesis by (auto simp: sample_peer_def rudp_init_def)
qed

theorem rudp_sizeTo_diverges_witness: "sizeTo 1000 sample_peer 4 = Inl Diverges"
  using rudp_sizeTo_diverges [of sample_peer 4 1000] by (simp add: sample_peer_def getTo_def)

theorem rudp_handler_lost_witness: "find_hand (addhandler (addhandler rudp_init 3 1) 4 2) 3 = None"
  using rudp_handler_lost [of rudp_init 3 4 1 2] by (simp add: rudp_init_def)

end
