(* ===== verification/Spec2Isabelle.thy ===== *)
theory Spec2Isabelle
  imports TsSession OpusRepack DsSelection PaPropText PaTagRound PaAlign PaQueueRun RudpEnd
begin

text \<open>
  \<^bold>\<open>The repository.\<close> A collection of media and network software: servers in C++ under
  \<^verbatim>\<open>projects/\<close>, and under \<^verbatim>\<open>study/\<close> the libraries they were written against or learned
  from. The development covers five self-contained bodies of code and the ways their parts use each
  other:

  \<^item> \<^verbatim>\<open>study/MEDIA\<close>, libtsmux: a multiplexer for MPEG transport streams in C. Elementary streams queue
    the client's buffers; the multiplexer interleaves their payload with program tables into
    packets of 188 bytes that it hands to the client's write function.
  \<^item> \<^verbatim>\<open>study/OPEN-SOURCE/OPUS/src\<close>: the packet layer of Opus (packet parser, packet queries) and the
    repacketizer, which merges, splits, pads and unpads packets in memory.
  \<^item> \<^verbatim>\<open>study/DS\<close>: sorting templates, selection of the k-th largest value, search trees.
  \<^item> \<^verbatim>\<open>study/OPEN-SOURCE/pulseaudio/src\<close>: the data layer of PulseAudio. Hash tables hold the property
    lists; property lists have a text form and are sent, with other values, in tagged structures,
    the serialisation of the native protocol. Audio data is in reference counted memory blocks; chunks of
    them are cut into frames and wait in the memory block queue, from which sinks and streams play.
  \<^item> \<^verbatim>\<open>study/OPEN-SOURCE/RUDP/src\<close>: a reliable datagram protocol over UDP in C++, with an event loop, timers
    for retransmission and a window of three packets; file transfer clients use it.

  \<^bold>\<open>Conventions.\<close> C integers are words of their width (\<^verbatim>\<open>u8\<close>, \<^verbatim>\<open>u16\<close>, \<^verbatim>\<open>u32\<close>, \<^verbatim>\<open>u64\<close> of
  \<^verbatim>\<open>Prelude\<close>, also for the signed types, which are read with \<open>sint\<close>); \<^verbatim>\<open>size_t\<close>, indices
  and lengths are natural numbers where the code cannot overflow them. Code that can go wrong
  returns \<open>'a res\<close>: \<open>Inl\<close> a fault (failed assertion, access outside an object, a loop that does not
  end, signed overflow), \<open>Inr\<close> the result, in which the error values of the code (\<^verbatim>\<open>FALSE\<close>, -1, negative codes) are
  ordinary values. Memory that is shared is explicit: an object store in \<^verbatim>\<open>TsMux\<close>, one byte
  memory in \<^verbatim>\<open>OpusRepack\<close>, a heap of entries in \<^verbatim>\<open>PaHashmap\<close>, a memory of blocks with reference counts in
  \<^verbatim>\<open>PaMemchunk\<close>. Allocation succeeds.

  \<^bold>\<open>Prelude.\<close> Word, list and buffer lemmas, the result type with \<open>bindR\<close>, bounds-checked \<open>load\<close> and
  \<open>store\<close>, and the interfaces: \<open>codec\<close>s (an encoder with a decoder that reads it back and leaves the
  rest), and \<open>simulation\<close> (an implementation whose every operation, under an abstraction, does what
  a specification does; then so does every session of operations).

  \<^bold>\<open>libtsmux.\<close>
  \<^item> \<^verbatim>\<open>TsCommon\<close> (tsmuxcommon.h): packet information, flags, big-endian writers and their readers.
  \<^item> \<^verbatim>\<open>TsCrc\<close> (crc.h): the CRC table is the bit-serial CRC of its index; the routine computes the
    bit-serial CRC and detects every error within a byte.
  \<^item> \<^verbatim>\<open>TsHeader\<close> (tsmux.c): packet header and adaptation field. A receiver that follows the
    standard decodes exactly the fields that were to be written; every outcome is characterised,
    the failed assertions and overruns included.
  \<^item> \<^verbatim>\<open>TsStream\<close> (tsmuxstream.c): the stream as a queue of bytes (a refinement of a FIFO), the PES
    header and its round trip, when \<^verbatim>\<open>tsmux_stream_get_data\<close> returns, and that an empty buffer makes
    it loop for ever.
  \<^item> \<^verbatim>\<open>TsMux\<close> (tsmux.c): programs, streams, tables, \<^verbatim>\<open>tsmux_write_stream_packet\<close>.
  \<^item> \<^verbatim>\<open>TsTables\<close>: the packets of a section carry it to a receiver; both tables are read back; for
    which lengths sections overrun their buffer.
  \<^item> \<^verbatim>\<open>TsSession\<close>: a client session as a step relation. Invariants by rule induction: distinct PIDs
    and program numbers, clock reference counts; what one written packet holds; the collision of
    program map PIDs with stream PIDs from the 49th program on.

  \<^bold>\<open>Opus.\<close>
  \<^item> \<^verbatim>\<open>OpusPacket\<close> (opus.c, opus_decoder.c): the parser never reads outside its packet and returns
    frames that lie inside it; the frame count agrees with the query function.
  \<^item> \<^verbatim>\<open>OpusRepack\<close> (repacketizer.c): packets that were written are parsed back to their frames;
    unpadding in place; sessions of the repacketizer keep its invariant.

  \<^bold>\<open>DS.\<close> \<^verbatim>\<open>DsArray\<close> states what a sorting routine promises, as a locale; \<^verbatim>\<open>DsSimple\<close>, \<^verbatim>\<open>DsHeap\<close>,
  \<^verbatim>\<open>DsMerge\<close> and \<^verbatim>\<open>DsQuick\<close> model the routines of sorts.cpp and interpret it; quick sort is correct on
  distinct values and never ends on two equal ones. \<^verbatim>\<open>DsSelection\<close> models selection_problem.c and
  bin_tree_search.c and holds the properties of the group.

  \<^bold>\<open>PulseAudio.\<close>
  \<^item> \<^verbatim>\<open>PaHashmap\<close> (hashmap.c): every pointer assignment on a heap of entries. The table implements an
    association list in insertion order, for every hash function; the interpretation of
    \<open>simulation\<close> gives this for whole sessions, callbacks included. Values are not null pointers.
  \<^item> \<^verbatim>\<open>PaText\<close> (utf8.c, strbuf.c, parts of core-util.c): UTF-8 validation accepts exactly the
    encodings of valid code points; hexadecimal text and escapes.
  \<^item> \<^verbatim>\<open>PaProplist\<close> (proplist.c) over \<^verbatim>\<open>PaHashmap\<close>: property lists implement ordered maps with valid
    keys, again for whole sessions; update modes, copies, equality.
  \<^item> \<^verbatim>\<open>PaPropText\<close>: the printed form is read back, except for backslashes, which the printer
    forgets to escape.
  \<^item> \<^verbatim>\<open>PaTagstruct\<close> (tagstruct.c) over \<^verbatim>\<open>PaProplist\<close>: writers and readers; \<^verbatim>\<open>PaTagRound\<close>: the reader
    is safe on arbitrary bytes, and what was written is read back, property lists included.
  \<^item> \<^verbatim>\<open>PaMemchunk\<close> (parts of memblock.c, memchunk.c, mcalign.c): memory blocks, chunks and their alignment;
    \<^verbatim>\<open>PaMcalign\<close>: whatever the sizes of the chunks that go in, whole frames with the same bytes come out.
  \<^item> \<^verbatim>\<open>PaMemblockq\<close> (memblockq.c): the queue, its doubly linked list of items as the list of their addresses with a
    store. \<^verbatim>\<open>PaQueue\<close> has its abstraction, the time line that gives the byte at every position, and its invariant;
    \<^verbatim>\<open>PaPush\<close>: a push overwrites the time line, and the one case in which it does not; \<^verbatim>\<open>PaRead\<close>: peeking reads the
    time line, dropping and rewinding move along it; \<^verbatim>\<open>PaFixed\<close>: blocks of a fixed size, holes filled with silence;
    \<^verbatim>\<open>PaAlign\<close>: pushing through the alignment, which is a push for whole frames and fails an assertion for others;
    \<^verbatim>\<open>PaMetrics\<close>: the sizes of a queue always fit together; \<^verbatim>\<open>PaQueueRun\<close>: sessions of a client as an
    interpretation of \<open>simulation\<close>, without failing assertions and with all references given back, and
    the splice that does not end. Positions are \<^verbatim>\<open>int64_t\<close> in the code and integers here: a session checks every value of that type
    that its calls compute, and is shown to pass the checks when the client's offsets and lengths are
    bounded; without a bound on seeks a push overflows.

  \<^bold>\<open>RUDP.\<close>
  \<^item> \<^verbatim>\<open>RudpList\<close> (list.cpp, event.cpp): connections, their queues, timers and registered descriptors, as one
    state record with stores for the objects that pointers refer to.
  \<^item> \<^verbatim>\<open>Rudp\<close> (rudp.cpp, retransmit.cpp): sockets, \<^verbatim>\<open>rudp_sendto\<close>, the receive handler by states, the three
    retransmission functions, \<^verbatim>\<open>rudp_close\<close>. Time, random numbers, datagrams, the results of socket calls and
    uninitialised memory are arguments; the calls of the clients' functions are logged. An address that a client passes
    to \<^verbatim>\<open>rudp_sendto\<close>, which keeps the pointer, is assumed to stay as it is.
  \<^item> \<^verbatim>\<open>RudpSender\<close>, \<^verbatim>\<open>RudpSession\<close>: the invariant of a sender (queue, numbers, timers, what is under way) and
    of a receiver, and that every operation keeps them.
  \<^item> \<^verbatim>\<open>RudpNet\<close>: both ends and a network that loses, repeats and reorders, as a step relation. By the
    invariant of \<open>step_invariant\<close>: what is delivered is a prefix of what was sent, nothing fails, the
    window holds, timers have arguments of the right type, and everything can still be delivered until the
    sender gives up. The number of pieces of data is bounded so that the sequence numbers, which the code
    compares without wrap-around, do not overflow. Closing is not one of the steps, because
  \<^item> \<^verbatim>\<open>RudpEnd\<close>: after a close the receiver accepts old datagrams as new. Also the closing handshake, datagrams
    without a whole header, a loop that does not end and handlers that get lost.

  \<^bold>\<open>Fuel.\<close> Loops that end by a measure are functions with a termination proof. Fuel is used where
  a loop of the code may run for ever, and running out of it is the fault \<open>Diverges\<close>:
  \<^verbatim>\<open>get_data_loop\<close> has the number of bytes asked for (each round with a non-empty buffer takes at least
  one; the theorem on empty buffers shows that more would not help), \<^verbatim>\<open>write_section_loop\<close> two more
  than the longest section, quick sort an argument, for which the theorems show that some amount is
  enough, or that none is; \<^verbatim>\<open>ack_loop\<close> and \<^verbatim>\<open>delete_all\<close> have the length of the queue, of which each round takes
  one packet, and return (\<^verbatim>\<open>RudpNet\<close>); no fuel is enough for \<^verbatim>\<open>sizeTo\<close>. In \<^verbatim>\<open>PaMemblockq\<close>,
  \<^verbatim>\<open>drop_loop\<close> has the length to drop and \<^verbatim>\<open>peek_fill\<close> the size of the block and the number of items, and both are
  shown to return; \<^verbatim>\<open>splice_loop\<close> has any number of rounds; the alignment needs one round for each chunk it holds, at most two.

  \<^bold>\<open>Not modelled.\<close> The C++ servers and tools of \<^verbatim>\<open>projects/\<close> (sockets, libev, threads, inline
  allocation); \<^verbatim>\<open>projects/rudp\<close>, whose code relies on a floating point congestion control; the Opus
  codecs (celt, silk: fixed and floating point signal processing); of PulseAudio the daemon, the
  modules, memory pools, the main loops and everything that does I/O; of RUDP the clients and \<^verbatim>\<open>select\<close>; the merge conflict markers in
  \<^verbatim>\<open>study/DS\<close>'s bstree.h keep that file from being a program. Functions that only release memory
  are left out everywhere.
\<close>

end
